(* ===== verification/Prelude.thy ===== *)
theory Prelude
  imports Main "HOL-Library.Word" "HOL-Library.Monad_Syntax"
begin

text \<open>
  What every component shares: the result codes of \<^verbatim>\<open>augtypes.h\<close>, unsigned 32-bit
  arithmetic with its wrap-around written out, C memory as byte lists (reading a slice,
  \<^verbatim>\<open>memcpy\<close>, \<^verbatim>\<open>memmove\<close>) and the lemmas and collections the component proofs rest on.

  Conventions used throughout.  A byte is an \<open>8 word\<close>.  A pure reader that the C code lets
  run past its buffer returns \<open>None\<close> there (the access is undefined).  An operation that
  can fail returns \<open>Inl\<close> of a failure or \<open>Inr\<close> of its value, paired with the new state,
  because most operations leave a changed state behind when they fail.
\<close>

unbundle bit_operations_syntax

section \<open>Result codes (augtypes.h)\<close>

datatype aug_errno =
    EASSERT | EAUTH | ECONFIG | EDOMAIN | EEXCEPT | EEXIST | EFORMAT | EINVAL | EIO
  | ELIMIT | ENULL | EMEMORY | EPARSE | EPERM | ERANGE | ESTATE | ESUPPORT

text \<open>
  \<open>ExNone\<close>, \<open>ExIntr\<close> and \<open>ExBlock\<close> are set by \<^verbatim>\<open>aug_setexcept\<close>; \<open>ExError\<close> stands for
  \<^verbatim>\<open>aug_setctxerror\<close> with its error number and \<open>ExPosix\<close> for \<^verbatim>\<open>aug_setposixerror\<close> with an
  \<^verbatim>\<open>errno\<close> that is none of the first three.  \<open>NoMem\<close> is a refused allocation (the code
  returns -1 or a null pointer without setting an error).  \<open>Undefined\<close> is no result of the
  code: it marks a path on which the C program accesses memory it does not own.
\<close>

datatype aug_fail = ExNone | ExIntr | ExBlock | ExError aug_errno | ExPosix nat | NoMem | Undefined

text \<open>\<^verbatim>\<open>aug_setposixerror\<close>: how \<^verbatim>\<open>EINTR\<close>, \<^verbatim>\<open>ENOENT\<close> and \<^verbatim>\<open>EWOULDBLOCK\<close> become exceptions.\<close>

definition posix_except :: "nat \<Rightarrow> aug_fail" where
  "posix_except num =
     (if num = 4 then ExIntr else if num = 2 then ExNone else if num = 11 then ExBlock else ExPosix num)"

named_theorems res_simps "case splits and projections of operation results"
named_theorems layout_simps "reading and writing slices of concatenated byte lists"

lemma sum_case_Inr_iff [res_simps]:
  "(case r of Inl e \<Rightarrow> Inl e | Inr x \<Rightarrow> f x) = Inr y \<longleftrightarrow> (\<exists>x. r = Inr x \<and> f x = Inr y)"
  by (cases r) auto

lemma bind_Some_iff [res_simps]:
  "Option.bind m f = Some y \<longleftrightarrow> (\<exists>x. m = Some x \<and> f x = Some y)"
  by (cases m) auto

section \<open>Unsigned arithmetic\<close>

text \<open>\<^verbatim>\<open>unsigned\<close> is 32 bits wide; sums and differences wrap.\<close>

definition uadd :: "nat \<Rightarrow> nat \<Rightarrow> nat" where
  "uadd a b = (a + b) mod 2 ^ 32"

definition usub :: "nat \<Rightarrow> nat \<Rightarrow> nat" where
  "usub a b = nat ((int a - int b) mod 2 ^ 32)"

lemma uadd_eq [simp]: "a + b < 2 ^ 32 \<Longrightarrow> uadd a b = a + b"
  by (simp add: uadd_def)

lemma usub_eq [simp]: "b \<le> a \<Longrightarrow> a < 2 ^ 32 \<Longrightarrow> usub a b = a - b"
  by (simp add: usub_def nat_diff_distrib)

lemma uadd_bound: "uadd a b < 2 ^ 32"
  by (simp add: uadd_def)

lemma usub_bound: "usub a b < 2 ^ 32"
  by (simp add: usub_def nat_less_iff)

lemma usub_wrap: "a < b \<Longrightarrow> b < 2 ^ 32 \<Longrightarrow> usub a b = 2 ^ 32 - (b - a)"
proof -
  assume "a < b" and "b < 2 ^ 32"
  then have "(int a - int b) mod 2 ^ 32 = (int a - int b + 2 ^ 32) mod 2 ^ 32"
    by simp
  also have "\<dots> = int a - int b + 2 ^ 32"
    using \<open>a < b\<close> \<open>b < 2 ^ 32\<close> by (intro mod_pos_pos_trivial) auto
  finally show ?thesis
    using \<open>a < b\<close> \<open>b < 2 ^ 32\<close> by (simp add: usub_def nat_diff_distrib of_nat_diff)
qed

lemma uadd_usub: "uadd a (usub b c) = nat ((int a + int b - int c) mod 2 ^ 32)"
proof -
  have "int (uadd a (usub b c)) = (int a + (int b - int c) mod 2 ^ 32) mod 2 ^ 32"
    by (simp add: uadd_def usub_def zmod_int)
  also have "\<dots> = (int a + (int b - int c)) mod 2 ^ 32"
    by (simp only: mod_add_right_eq)
  finally show ?thesis
    by (simp add: add_diff_eq)
qed

text \<open>\<^verbatim>\<open>u += (int)i\<close> for an unsigned \<open>u\<close>.\<close>

definition uaddi :: "nat \<Rightarrow> int \<Rightarrow> nat" where
  "uaddi a i = nat ((int a + i) mod 2 ^ 32)"

lemma uaddi_eq: "0 \<le> int a + i \<Longrightarrow> int a + i < 2 ^ 32 \<Longrightarrow> uaddi a i = nat (int a + i)"
  by (simp add: uaddi_def)

text \<open>The value of \<^verbatim>\<open>(int)x\<close>.\<close>

definition to_int32 :: "int \<Rightarrow> int" where
  "to_int32 i = (i + 2 ^ 31) mod 2 ^ 32 - 2 ^ 31"

lemma to_int32_id [simp]: "- (2 ^ 31) \<le> i \<Longrightarrow> i < 2 ^ 31 \<Longrightarrow> to_int32 i = i"
  by (simp add: to_int32_def)

section \<open>Memory as byte lists\<close>

type_synonym byte = "8 word"

text \<open>\<open>slice p n xs\<close> is the \<open>n\<close> bytes at offset \<open>p\<close>.\<close>

definition slice :: "nat \<Rightarrow> nat \<Rightarrow> 'a list \<Rightarrow> 'a list" where
  "slice p n xs = take n (drop p xs)"

text \<open>\<open>poke xs p ys\<close> is \<^verbatim>\<open>memcpy(xs + p, ys, n)\<close> within \<open>xs\<close>.\<close>

definition poke :: "'a list \<Rightarrow> nat \<Rightarrow> 'a list \<Rightarrow> 'a list" where
  "poke xs p ys = take p xs @ ys @ drop (p + length ys) xs"

text \<open>The same with the bounds check the C code leaves to its caller.\<close>

definition memcpy :: "'a list \<Rightarrow> nat \<Rightarrow> 'a list \<Rightarrow> 'a list option" where
  "memcpy xs p ys = (if p + length ys \<le> length xs then Some (poke xs p ys) else None)"

definition memmove :: "'a list \<Rightarrow> nat \<Rightarrow> nat \<Rightarrow> nat \<Rightarrow> 'a list option" where
  "memmove xs d s n =
     (if d + n \<le> length xs \<and> s + n \<le> length xs then Some (poke xs d (slice s n xs)) else None)"

lemma length_slice [simp]: "length (slice p n xs) = min n (length xs - p)"
  by (simp add: slice_def)

lemma slice_0 [simp]: "slice p 0 xs = []"
  by (simp add: slice_def)

lemma slice_all [simp]: "slice 0 (length xs) xs = xs"
  by (simp add: slice_def)

lemma length_poke [simp]: "p + length ys \<le> length xs \<Longrightarrow> length (poke xs p ys) = length xs"
  by (simp add: poke_def)

lemma poke_Nil [simp]: "poke xs p [] = xs"
  by (simp add: poke_def)

lemma slice_append_mid [layout_simps]:
  "p = length a \<Longrightarrow> n = length b \<Longrightarrow> slice p n (a @ b @ c) = b"
  by (simp add: slice_def)

lemma slice_append_last [layout_simps]: "p = length a \<Longrightarrow> n = length b \<Longrightarrow> slice p n (a @ b) = b"
  by (simp add: slice_def)

lemma slice_append_skip:
  "length a \<le> p \<Longrightarrow> slice p n (a @ b) = slice (p - length a) n b"
  by (simp add: slice_def)

lemma slice_append_within:
  "p + n \<le> length a \<Longrightarrow> slice p n (a @ b) = slice p n a"
  by (simp add: slice_def)

lemma poke_mid [layout_simps]:
  "p = length a \<Longrightarrow> length b' = length b \<Longrightarrow> poke (a @ b @ c) p b' = a @ b' @ c"
  by (simp add: poke_def)

lemma poke_append_skip:
  "length a \<le> p \<Longrightarrow> poke (a @ b) p ys = a @ poke b (p - length a) ys"
  by (simp add: poke_def)

lemma poke_append_within:
  "p + length ys \<le> length a \<Longrightarrow> poke (a @ b) p ys = poke a p ys @ b"
  by (simp add: poke_def)

lemma poke_Cons_Suc [simp]: "poke (x # xs) (Suc p) ys = x # poke xs p ys"
  by (simp add: poke_def)

lemma slice_poke_same:
  "p + length ys \<le> length xs \<Longrightarrow> slice p (length ys) (poke xs p ys) = ys"
  by (simp add: slice_def poke_def min_def)

lemma slice_poke_before:
  "q + n \<le> p \<Longrightarrow> p \<le> length xs \<Longrightarrow> slice q n (poke xs p ys) = slice q n xs"
  by (rule nth_equalityI) (auto simp: slice_def poke_def nth_append)

lemma slice_poke_after:
  "p + length ys \<le> q \<Longrightarrow> p + length ys \<le> length xs \<Longrightarrow> slice q n (poke xs p ys) = slice q n xs"
  by (simp add: slice_def poke_def min_def)

lemma memcpy_Some [simp]: "p + length ys \<le> length xs \<Longrightarrow> memcpy xs p ys = Some (poke xs p ys)"
  by (simp add: memcpy_def)

lemma memmove_Some [simp]:
  "d + n \<le> length xs \<Longrightarrow> s + n \<le> length xs \<Longrightarrow> memmove xs d s n = Some (poke xs d (slice s n xs))"
  by (simp add: memmove_def)

lemma split_at_slice:
  "p + n \<le> length xs \<Longrightarrow> xs = take p xs @ slice p n xs @ drop (p + n) xs"
  by (metis append_take_drop_id drop_drop add.commute slice_def)

lemma list_all_take_drop [intro, simp]:
  "list_all P xs \<Longrightarrow> list_all P (take n xs)"
  "list_all P xs \<Longrightarrow> list_all P (drop n xs)"
  by (metis append_take_drop_id list_all_append)+

section \<open>C strings\<close>

text \<open>
  A C string is the bytes before its terminating null, so \<open>0\<close> does not occur in it.
  \<^verbatim>\<open>tolower\<close> is that of the C locale.
\<close>

definition cstring :: "byte list \<Rightarrow> bool" where
  "cstring s \<longleftrightarrow> 0 \<notin> set s"

definition tolower :: "byte \<Rightarrow> byte" where
  "tolower c = (if 65 \<le> c \<and> c \<le> 90 then c + 32 else c)"

definition str :: "string \<Rightarrow> byte list" where
  "str s = map of_char s"

lemma tolower_0_iff [simp]: "tolower c = 0 \<longleftrightarrow> c = 0"
proof -
  have "c + 32 \<noteq> 0" if "c \<le> 90"
  proof
    assume "c + 32 = 0"
    then have "c = - 32" by (metis add_eq_0_iff2)
    with that show False by (simp add: word_le_def)
  qed
  then show ?thesis by (auto simp: tolower_def)
qed

text \<open>
  \<^verbatim>\<open>0 == strncasecmp(s, t, n)\<close>: at most \<open>n\<close> characters are compared and none after a
  null.  \<open>None\<close>: the comparison ran off the end of one of the two buffers.
\<close>

fun strncaseeq :: "byte list \<Rightarrow> byte list \<Rightarrow> nat \<Rightarrow> bool option" where
  "strncaseeq s t 0 = Some True"
| "strncaseeq (a # s) (b # t) (Suc n) =
     (if tolower a \<noteq> tolower b then Some False
      else if a = 0 then Some True
      else strncaseeq s t n)"
| "strncaseeq s t (Suc n) = None"

definition same_name :: "byte list \<Rightarrow> byte list \<Rightarrow> bool" where
  "same_name a b \<longleftrightarrow> map tolower a = map tolower b"

lemma same_name_refl [simp]: "same_name a a"
  by (simp add: same_name_def)

lemma same_name_length: "same_name a b \<Longrightarrow> length a = length b"
  unfolding same_name_def by (metis length_map)

lemma zero_eq_tolower_iff [simp]: "0 = tolower c \<longleftrightarrow> c = 0"
  using tolower_0_iff [of c] by (simp only: eq_commute [of 0])

lemma strncaseeq_cstring:
  "cstring a \<Longrightarrow> cstring b \<Longrightarrow>
   strncaseeq (a @ 0 # s) (b @ 0 # t) (Suc (length b)) = Some (same_name a b)"
proof (induction a arbitrary: b)
  case Nil
  then show ?case
    by (cases b) (simp_all add: same_name_def cstring_def tolower_def [of 0])
next
  case (Cons x a)
  then show ?case
    by (cases b) (auto simp: same_name_def cstring_def tolower_def [of 0])
qed

end
