(* ===== verification/Endian.thy ===== *)
theory Endian
  imports Prelude
begin

text \<open>
  \<^verbatim>\<open>augsys/endian.c\<close>: byte swapping and the encoding of integers in network order.  The
  host order is the argument \<open>be\<close> (the build's \<^verbatim>\<open>WORDS_BIGENDIAN\<close>).  The refinement lemmas say
  that on either kind of host the encoders write the big-endian bytes and the decoders read
  them; the other components use the host-independent functions \<open>enc16\<close>, \<open>dec16\<close>, \dots.
\<close>

section \<open>Swapping\<close>

definition aug_swap16 :: "16 word \<Rightarrow> 16 word" where
  "aug_swap16 i = drop_bit 8 (i AND 0xff00) OR push_bit 8 (i AND 0x00ff)"

definition aug_swap32 :: "32 word \<Rightarrow> 32 word" where
  "aug_swap32 i =
     drop_bit 24 (i AND 0xff000000)
     OR drop_bit 8 (i AND 0x00ff0000)
     OR push_bit 8 (i AND 0x0000ff00)
     OR push_bit 24 (i AND 0x000000ff)"

section \<open>Big-endian bytes\<close>

text \<open>The bytes of an integer, the most significant first, and back.\<close>

definition enc16 :: "16 word \<Rightarrow> byte list" where
  "enc16 i = [ucast (drop_bit 8 i), ucast i]"

definition enc32 :: "32 word \<Rightarrow> byte list" where
  "enc32 i = [ucast (drop_bit 24 i), ucast (drop_bit 16 i), ucast (drop_bit 8 i), ucast i]"

definition enc64 :: "64 word \<Rightarrow> byte list" where
  "enc64 i = enc32 (ucast (drop_bit 32 i)) @ enc32 (ucast i)"

definition dec16 :: "byte list \<Rightarrow> 16 word" where
  "dec16 bs = push_bit 8 (ucast (bs ! 0)) OR ucast (bs ! 1)"

definition dec32 :: "byte list \<Rightarrow> 32 word" where
  "dec32 bs = push_bit 24 (ucast (bs ! 0)) OR push_bit 16 (ucast (bs ! 1))
     OR push_bit 8 (ucast (bs ! 2)) OR ucast (bs ! 3)"

definition dec64 :: "byte list \<Rightarrow> 64 word" where
  "dec64 bs = push_bit 32 (ucast (dec32 (take 4 bs))) OR ucast (dec32 (drop 4 bs))"

text \<open>What a fixed-width codec promises its clients.\<close>

locale codec =
  fixes enc :: "'a::len word \<Rightarrow> byte list"
    and dec :: "byte list \<Rightarrow> 'a word"
    and width :: nat
  assumes length_enc: "length (enc i) = width"
    and dec_enc: "dec (enc i) = i"
    and enc_dec: "length bs = width \<Longrightarrow> enc (dec bs) = bs"
begin

lemma enc_inj: "enc i = enc j \<longleftrightarrow> i = j"
  by (metis dec_enc)

lemma dec_inj: "length a = width \<Longrightarrow> length b = width \<Longrightarrow> dec a = dec b \<longleftrightarrow> a = b"
  by (metis enc_dec)

lemma dec_slice_mid: "p = length a \<Longrightarrow> dec (slice p width (a @ enc i @ c)) = i"
  by (simp add: slice_append_mid length_enc dec_enc)

lemma dec_poke: "p + width \<le> length m \<Longrightarrow> dec (slice p width (poke m p (enc i))) = i"
  using slice_poke_same [of p "enc i" m] by (simp add: length_enc dec_enc)

lemma dec_poke_before:
  "q + width \<le> p \<Longrightarrow> p \<le> length m \<Longrightarrow> dec (slice q width (poke m p ys)) = dec (slice q width m)"
  by (simp add: slice_poke_before)

lemma poke_dec: "p + width \<le> length m \<Longrightarrow> poke m p (enc (dec (slice p width m))) = m"
  by (simp add: enc_dec poke_def) (metis split_at_slice)

end

lemma length2_eq: "length bs = 2 \<longleftrightarrow> (\<exists>a b. bs = [a, b])"
  by (auto simp: length_Suc_conv numeral_2_eq_2)

lemma length4_eq: "length bs = 4 \<longleftrightarrow> (\<exists>a b c d. bs = [a, b, c, d])"
  by (auto simp: length_Suc_conv eval_nat_numeral)

lemma bit_byte_less: "bit (b :: byte) n \<Longrightarrow> n < 8"
  using bit_imp_le_length [of b n] by simp

lemma bit_u32_less: "bit (b :: 32 word) n \<Longrightarrow> n < 32"
  using bit_imp_le_length [of b n] by simp

lemma lane32_cases:
  assumes "n < LENGTH(32)"
  obtains "n < 8" | "8 \<le> n" "n < 16" | "16 \<le> n" "n < 24" | "24 \<le> n" "n < 32"
  using assms by force

interpretation be16: codec enc16 dec16 2
proof unfold_locales
  fix i :: "16 word" and bs :: "byte list"
  show "length (enc16 i) = 2"
    by (simp add: enc16_def)
  show "dec16 (enc16 i) = i"
    by (rule bit_word_eqI) (auto simp: dec16_def enc16_def bit_simps)
  show "length bs = 2 \<Longrightarrow> enc16 (dec16 bs) = bs"
    by (auto simp: length2_eq dec16_def enc16_def intro!: bit_word_eqI)
       (auto simp: bit_simps dest: bit_byte_less)
qed

interpretation be32: codec enc32 dec32 4
proof unfold_locales
  fix i :: "32 word" and bs :: "byte list"
  show "length (enc32 i) = 4"
    by (simp add: enc32_def)
  show "dec32 (enc32 i) = i"
  proof (rule bit_word_eqI)
    fix n assume "n < LENGTH(32)"
    then show "bit (dec32 (enc32 i)) n = bit i n"
      by (cases rule: lane32_cases) (auto simp: dec32_def enc32_def bit_simps)
  qed
  show "length bs = 4 \<Longrightarrow> enc32 (dec32 bs) = bs"
    by (auto simp: length4_eq dec32_def enc32_def intro!: bit_word_eqI)
       (auto simp: bit_simps dest: bit_byte_less)
qed

interpretation be64: codec enc64 dec64 8
proof unfold_locales
  fix i :: "64 word" and bs :: "byte list"
  show "length (enc64 i) = 8"
    by (simp add: enc64_def be32.length_enc)
  show "dec64 (enc64 i) = i"
    by (rule bit_word_eqI)
       (auto simp: dec64_def enc64_def be32.length_enc be32.dec_enc bit_simps)
  assume "length bs = 8"
  have "ucast (drop_bit 32 (push_bit 32 (ucast a) OR ucast b :: 64 word)) = a"
    and "ucast (push_bit 32 (ucast a) OR ucast b :: 64 word) = b" for a b :: "32 word"
    by (rule bit_word_eqI; auto simp: bit_simps dest: bit_u32_less)+
  with \<open>length bs = 8\<close> show "enc64 (dec64 bs) = bs"
    by (simp add: enc64_def dec64_def be32.enc_dec)
qed

lemmas enc_length [simp] = be16.length_enc be32.length_enc be64.length_enc
lemmas dec_enc [simp] = be16.dec_enc be32.dec_enc be64.dec_enc

section \<open>The host's memory\<close>

text \<open>An integer as it lies in the memory of the host.\<close>

definition host16 :: "bool \<Rightarrow> 16 word \<Rightarrow> byte list" where
  "host16 be i = (if be then enc16 i else rev (enc16 i))"

definition host32 :: "bool \<Rightarrow> 32 word \<Rightarrow> byte list" where
  "host32 be i = (if be then enc32 i else rev (enc32 i))"

definition host64 :: "bool \<Rightarrow> 64 word \<Rightarrow> byte list" where
  "host64 be i = (if be then enc64 i else rev (enc64 i))"

definition load16 :: "bool \<Rightarrow> byte list \<Rightarrow> 16 word" where
  "load16 be m = dec16 (if be then m else rev m)"

definition load32 :: "bool \<Rightarrow> byte list \<Rightarrow> 32 word" where
  "load32 be m = dec32 (if be then m else rev m)"

definition load64 :: "bool \<Rightarrow> byte list \<Rightarrow> 64 word" where
  "load64 be m = dec64 (if be then m else rev m)"

interpretation mem16: codec "host16 be" "load16 be" 2 for be
  by unfold_locales (auto simp: host16_def load16_def be16.enc_dec)

interpretation mem32: codec "host32 be" "load32 be" 4 for be
  by unfold_locales (auto simp: host32_def load32_def be32.enc_dec)

interpretation mem64: codec "host64 be" "load64 be" 8 for be
  by unfold_locales (auto simp: host64_def load64_def be64.enc_dec)

section \<open>Conversion between host and network order\<close>

text \<open>\<^verbatim>\<open>aug_swap64\<close> swaps the two halves of a union in memory.\<close>

definition aug_swap64 :: "bool \<Rightarrow> 64 word \<Rightarrow> 64 word" where
  "aug_swap64 be i =
     (let u = host64 be i;
          tmp = aug_swap32 (load32 be (take 4 u));
          u = host32 be (aug_swap32 (load32 be (drop 4 u))) @ drop 4 u;
          u = take 4 u @ host32 be tmp
      in load64 be u)"

definition aug_ntoh16 :: "bool \<Rightarrow> 16 word \<Rightarrow> 16 word" where
  "aug_ntoh16 be i = (if be then i else aug_swap16 i)"

definition aug_ntoh32 :: "bool \<Rightarrow> 32 word \<Rightarrow> 32 word" where
  "aug_ntoh32 be i = (if be then i else aug_swap32 i)"

definition aug_ntoh64 :: "bool \<Rightarrow> 64 word \<Rightarrow> 64 word" where
  "aug_ntoh64 be i = (if be then i else aug_swap64 be i)"

definition aug_hton16 :: "bool \<Rightarrow> 16 word \<Rightarrow> 16 word" where
  "aug_hton16 be i = (if be then i else aug_swap16 i)"

definition aug_hton32 :: "bool \<Rightarrow> 32 word \<Rightarrow> 32 word" where
  "aug_hton32 be i = (if be then i else aug_swap32 i)"

definition aug_hton64 :: "bool \<Rightarrow> 64 word \<Rightarrow> 64 word" where
  "aug_hton64 be i = (if be then i else aug_swap64 be i)"

definition aug_decode16 :: "bool \<Rightarrow> byte list \<Rightarrow> 16 word option" where
  "aug_decode16 be ptr =
     (if length ptr < 2 then None else Some (aug_ntoh16 be (load16 be (take 2 ptr))))"

definition aug_decode32 :: "bool \<Rightarrow> byte list \<Rightarrow> 32 word option" where
  "aug_decode32 be ptr =
     (if length ptr < 4 then None else Some (aug_ntoh32 be (load32 be (take 4 ptr))))"

definition aug_decode64 :: "bool \<Rightarrow> byte list \<Rightarrow> 64 word option" where
  "aug_decode64 be ptr =
     (if length ptr < 8 then None else Some (aug_ntoh64 be (load64 be (take 8 ptr))))"

definition aug_encode16 :: "bool \<Rightarrow> 16 word \<Rightarrow> byte list \<Rightarrow> byte list option" where
  "aug_encode16 be i ptr = memcpy ptr 0 (host16 be (aug_hton16 be i))"

definition aug_encode32 :: "bool \<Rightarrow> 32 word \<Rightarrow> byte list \<Rightarrow> byte list option" where
  "aug_encode32 be i ptr = memcpy ptr 0 (host32 be (aug_hton32 be i))"

definition aug_encode64 :: "bool \<Rightarrow> 64 word \<Rightarrow> byte list \<Rightarrow> byte list option" where
  "aug_encode64 be i ptr = memcpy ptr 0 (host64 be (aug_hton64 be i))"

section \<open>Refinement\<close>

lemma byte_masks:
  "(0xff00 :: 16 word) = push_bit 8 (mask 8)" "(0x00ff :: 16 word) = mask 8"
  "(0xff000000 :: 32 word) = push_bit 24 (mask 8)" "(0x00ff0000 :: 32 word) = push_bit 16 (mask 8)"
  "(0x0000ff00 :: 32 word) = push_bit 8 (mask 8)" "(0x000000ff :: 32 word) = mask 8"
  by (simp_all add: mask_eq_exp_minus_1 push_bit_eq_mult)

lemma swap16_rev: "aug_swap16 i = dec16 (rev (enc16 i))"
  by (rule bit_word_eqI) (auto simp: byte_masks aug_swap16_def dec16_def enc16_def bit_simps)

lemma swap32_rev: "aug_swap32 i = dec32 (rev (enc32 i))"
proof (rule bit_word_eqI)
  fix n assume "n < LENGTH(32)"
  then show "bit (aug_swap32 i) n = bit (dec32 (rev (enc32 i))) n"
    unfolding byte_masks aug_swap32_def
    by (cases rule: lane32_cases) (auto simp: dec32_def enc32_def bit_simps)
qed

lemma enc16_swap: "enc16 (aug_swap16 i) = rev (enc16 i)"
  by (simp add: swap16_rev be16.enc_dec)

lemma enc32_swap: "enc32 (aug_swap32 i) = rev (enc32 i)"
  by (simp add: swap32_rev be32.enc_dec)

lemma swap64_rev: "aug_swap64 be i = dec64 (rev (enc64 i))"
proof -
  obtain a b where ab: "enc64 i = a @ b" "length a = 4" "length b = 4"
    by (metis enc64_def enc_length(2))
  show ?thesis
    by (cases be)
       (simp_all add: aug_swap64_def host64_def host32_def load32_def load64_def ab
          enc32_swap be32.enc_dec Let_def)
qed

lemma enc64_swap: "enc64 (aug_swap64 be i) = rev (enc64 i)"
  by (simp add: swap64_rev be64.enc_dec)

text \<open>Network order in the host's memory is the big-endian bytes.\<close>

lemma host_hton [simp]:
  "host16 be (aug_hton16 be i) = enc16 i"
  "host32 be (aug_hton32 be j) = enc32 j"
  "host64 be (aug_hton64 be k) = enc64 k"
  by (simp_all add: host16_def host32_def host64_def aug_hton16_def aug_hton32_def
        aug_hton64_def enc16_swap enc32_swap enc64_swap)

lemma ntoh_load:
  "length a = 2 \<Longrightarrow> aug_ntoh16 be (load16 be a) = dec16 a"
  "length b = 4 \<Longrightarrow> aug_ntoh32 be (load32 be b) = dec32 b"
  "length c = 8 \<Longrightarrow> aug_ntoh64 be (load64 be c) = dec64 c"
  by (simp_all add: load16_def load32_def load64_def aug_ntoh16_def aug_ntoh32_def
        aug_ntoh64_def swap16_rev swap32_rev swap64_rev be16.enc_dec be32.enc_dec be64.enc_dec)

lemma decode_network:
  "aug_decode16 be p = (if length p < 2 then None else Some (dec16 (slice 0 2 p)))"
  "aug_decode32 be p = (if length p < 4 then None else Some (dec32 (slice 0 4 p)))"
  "aug_decode64 be p = (if length p < 8 then None else Some (dec64 (slice 0 8 p)))"
  by (simp_all add: aug_decode16_def aug_decode32_def aug_decode64_def ntoh_load slice_def)

lemma encode_network:
  "aug_encode16 be i p = memcpy p 0 (enc16 i)"
  "aug_encode32 be j p = memcpy p 0 (enc32 j)"
  "aug_encode64 be k p = memcpy p 0 (enc64 k)"
  by (simp_all add: aug_encode16_def aug_encode32_def aug_encode64_def)

text \<open>
  What one host encodes another decodes.  Whatever the byte order of the writing and of
  the reading host, decoding the buffer an integer was encoded into gives the integer back,
  at each of the three widths, and encoding leaves every byte behind the integer alone.
\<close>
lemma endian_roundtrip:
  assumes "8 \<le> length p"
  shows "Option.bind (aug_encode16 w i p) (aug_decode16 r) = Some i
    \<and> Option.bind (aug_encode32 w j p) (aug_decode32 r) = Some j
    \<and> Option.bind (aug_encode64 w k p) (aug_decode64 r) = Some k
    \<and> map_option (drop 8) (aug_encode64 w k p) = Some (drop 8 p)"
  using assms
  by (simp add: encode_network decode_network be16.dec_poke be32.dec_poke be64.dec_poke)
     (simp add: poke_def)

lemma endian_roundtrip_witness:
  "Option.bind (aug_encode32 True 0x01020304 [9,9,9,9,9,9,9,9]) (aug_decode32 False) = Some 0x01020304"
  using endian_roundtrip [where p = "[9,9,9,9,9,9,9,9]" and w = True and r = False and j = "0x01020304"] by simp

end
