(* ===== verification/Seq.thy ===== *)
theory Seq
  imports Endian
begin

text \<open>
  \<^verbatim>\<open>augmar/seq_.c\<close>: the growable byte sequence an archive lives in.  \<open>seq\<close> is
  \<^verbatim>\<open>struct aug_seq_\<close> with the memory variant \<^verbatim>\<open>struct memseq_\<close>: the current region
  (\<open>sq_offset\<close>, \<open>sq_len\<close>) and the block \<open>sq_addr\<close>, \<open>None\<close> for a null pointer, whose first
  \<^verbatim>\<open>len_\<close> bytes are the list.  An address the code returns is its offset in the block.
  The answer of the allocator is the argument \<open>mem\<close>.

  \<open>resize_region\<close> is the contract the archive relies on: with the region set on the middle of
  \<open>a @ b @ c\<close>, resizing keeps \<open>a\<close> and \<open>c\<close> and what fits of \<open>b\<close>.
\<close>

record seq =
  sq_offset :: nat
  sq_len :: nat
  sq_addr :: "byte list option"

definition aug_createseq :: seq where
  "aug_createseq = \<lparr>sq_offset = 0, sq_len = 0, sq_addr = None\<rparr>"

definition aug_seqsize :: "seq \<Rightarrow> nat" where
  "aug_seqsize s = (case sq_addr s of None \<Rightarrow> 0 | Some m \<Rightarrow> length m)"

text \<open>A null base with a region offset is no null pointer, but no memory either.\<close>

definition aug_seqaddr :: "seq \<Rightarrow> aug_fail + nat" where
  "aug_seqaddr s =
     (case sq_addr s of
        None \<Rightarrow> Inl (if sq_offset s = 0 then NoMem else Undefined)
      | Some m \<Rightarrow> Inr (sq_offset s))"

definition resizemem :: "bool \<Rightarrow> seq \<Rightarrow> nat \<Rightarrow> nat \<Rightarrow> (aug_fail + unit) \<times> seq" where
  "resizemem mem s sz tail =
     (case sq_addr s of
        None \<Rightarrow>
          if \<not> mem then (Inl NoMem, s)
          else (Inr (), s\<lparr>sq_addr := Some (replicate sz 0)\<rparr>)
      | Some m \<Rightarrow>
          if sz > length m then
            if \<not> mem then (Inl NoMem, s)
            else
              (case memmove (m @ replicate (sz - length m) 0)
                      (usub sz tail) (usub (length m) tail) tail of
                 None \<Rightarrow> (Inl Undefined, s)
               | Some m' \<Rightarrow> (Inr (), s\<lparr>sq_addr := Some m'\<rparr>))
          else if sz < length m then
              (case memmove m (usub sz tail) (usub (length m) tail) tail of
                 None \<Rightarrow> (Inl Undefined, s)
               | Some m' \<Rightarrow> (Inr (), s\<lparr>sq_addr := Some (take sz m')\<rparr>))
          else (Inr (), s))"

definition aug_resizeseq :: "bool \<Rightarrow> seq \<Rightarrow> nat \<Rightarrow> (aug_fail + nat) \<times> seq" where
  "aug_resizeseq mem s sz =
     (let total = aug_seqsize s;
          tail = usub total (uadd (sq_offset s) (sq_len s));
          total = uadd total (usub sz (sq_len s))
      in case resizemem mem s total tail of
           (Inl e, s) \<Rightarrow> (Inl e, s)
         | (Inr _, s) \<Rightarrow> (Inr (sq_offset s), s\<lparr>sq_len := sz\<rparr>))"

definition aug_setregion :: "seq \<Rightarrow> nat \<Rightarrow> nat \<Rightarrow> (aug_fail + unit) \<times> seq" where
  "aug_setregion s offset len =
     (if aug_seqsize s < uadd offset len then (Inl (ExError ERANGE), s)
      else (Inr (), s\<lparr>sq_offset := offset, sq_len := len\<rparr>))"

text \<open>\<^verbatim>\<open>aug_copyseq_BIN_\<close> returns both sequences: it moves the region of the source too.\<close>

definition aug_copyseq :: "bool \<Rightarrow> seq \<Rightarrow> seq \<Rightarrow> (aug_fail + unit) \<times> seq \<times> seq" where
  "aug_copyseq mem src dst =
     (let sz = aug_seqsize src in
      case aug_setregion src 0 sz of
        (Inl e, src) \<Rightarrow> (Inl e, src, dst)
      | (Inr _, src) \<Rightarrow>
          (case aug_setregion dst 0 (aug_seqsize dst) of
             (Inl e, dst) \<Rightarrow> (Inl e, src, dst)
           | (Inr _, dst) \<Rightarrow>
               (case aug_resizeseq mem dst sz of
                  (Inl e, dst) \<Rightarrow> (Inl e, src, dst)
                | (Inr p, dst) \<Rightarrow>
                    (case sq_addr src of
                       None \<Rightarrow> (if sz = 0 then Inr () else Inl Undefined, src, dst)
                     | Some from \<Rightarrow>
                         (case memcpy (the (sq_addr dst)) p (slice 0 sz from) of
                            None \<Rightarrow> (Inl Undefined, src, dst)
                          | Some m \<Rightarrow> (Inr (), src, dst\<lparr>sq_addr := Some m\<rparr>))))))"

section \<open>The contract of regions\<close>

text \<open>\<open>resized n b c\<close>: what resizing leaves of region \<open>b\<close> in front of \<open>c\<close>.\<close>

definition resized :: "nat \<Rightarrow> byte list \<Rightarrow> byte list \<Rightarrow> byte list" where
  "resized n b c =
     (if n \<le> length b then take n b else b @ take (n - length b) (c @ replicate (n - length b) 0))"

lemma length_resized [simp]: "length (resized n b c) = n"
  by (auto simp: resized_def)

lemma resized_same [simp]: "resized (length b) b c = b"
  by (simp add: resized_def)

lemma resized_0 [simp]: "resized 0 b c = []"
  by (simp add: resized_def)

lemma take_resized: "n \<le> length b \<Longrightarrow> n \<le> k \<Longrightarrow> take n (resized k b c) = take n b"
  by (auto simp: resized_def min_def)

lemma resized_grow_last: "length b \<le> n \<Longrightarrow> resized n b [] = b @ replicate (n - length b) 0"
  by (auto simp: resized_def)

lemma seqsize_Some [simp]: "sq_addr s = Some m \<Longrightarrow> aug_seqsize s = length m"
  by (simp add: aug_seqsize_def)

lemma seqaddr_Some [simp]: "sq_addr s = Some m \<Longrightarrow> aug_seqaddr s = Inr (sq_offset s)"
  by (simp add: aug_seqaddr_def)

lemma setregion_ok:
  "sq_addr s = Some m \<Longrightarrow> length m < 2 ^ 32 \<Longrightarrow> p + n \<le> length m \<Longrightarrow>
   aug_setregion s p n = (Inr (), s\<lparr>sq_offset := p, sq_len := n\<rparr>)"
  by (simp add: aug_setregion_def)

lemma setregion_overrun:
  "sq_addr s = Some m \<Longrightarrow> length m < p + n \<Longrightarrow> p + n < 2 ^ 32 \<Longrightarrow>
   aug_setregion s p n = (Inl (ExError ERANGE), s)"
  by (simp add: aug_setregion_def)

lemma memmove_grow:
  assumes "length b \<le> n"
  shows "memmove (a @ b @ c @ replicate (n - length b) 0) (length a + n)
           (length a + length b) (length c) = Some (a @ resized n b c @ c)"
proof -
  let ?k = "n - length b"
  let ?m = "a @ b @ c @ replicate ?k 0"
  have "slice (length a + length b) (length c) ?m = c"
    by (simp add: slice_def)
  moreover have "take (length a + n) ?m = a @ resized n b c"
    using assms by (auto simp: resized_def)
  ultimately show ?thesis
    using assms by (simp add: poke_def)
qed

lemma memmove_shrink:
  assumes "n \<le> length b"
  shows "map_option (take (length a + n + length c))
      (memmove (a @ b @ c) (length a + n) (length a + length b) (length c))
      = Some (a @ resized n b c @ c)"
  using assms by (simp add: poke_def slice_def resized_def)

lemma resize_region:
  assumes m: "sq_addr s = Some (a @ b @ c)"
    and r: "sq_offset s = length a" "sq_len s = length b"
    and fits: "length (a @ b @ c) < 2 ^ 32" "length a + n + length c < 2 ^ 32"
  shows "aug_resizeseq mem s n =
    (if mem \<or> n \<le> length b
     then (Inr (length a), s\<lparr>sq_addr := Some (a @ resized n b c @ c), sq_len := n\<rparr>)
     else (Inl NoMem, s))"
proof -
  have tail: "usub (length (a @ b @ c)) (uadd (length a) (length b)) = length c"
    using fits by simp
  have total: "uadd (length (a @ b @ c)) (usub n (length b)) = length a + n + length c"
    using fits by (simp add: uadd_usub nat_eq_iff)
  show ?thesis
  proof (cases "length b" n rule: linorder_cases)
    case less
    then show ?thesis
      using memmove_grow [of b n a c] fits
      by (simp add: aug_resizeseq_def resizemem_def m r tail total add_diff_eq flip: append_assoc)
  next
    case equal
    then have "resized n b c = b"
      by (simp flip: equal)
    moreover have "s\<lparr>sq_addr := Some (a @ b @ c)\<rparr> = s"
      using m by (cases s) simp
    ultimately show ?thesis
      using equal fits tail total by (simp add: aug_resizeseq_def resizemem_def m r Let_def)
  next
    case greater
    then show ?thesis
      using memmove_shrink [of n b a c] fits tail total
      by (auto simp: aug_resizeseq_def resizemem_def m r Let_def split: option.splits)
  qed
qed

end
