(* ===== verification/Header.thy ===== *)
theory Header
  imports Seq
begin

text \<open>
  \<^verbatim>\<open>augmar/format_.h\<close>, \<^verbatim>\<open>augmar/info_.c\<close> and \<^verbatim>\<open>augmar/header_.c\<close>: the leader of an archive and
  its header fields.  An archive in memory is a 16-byte leader, the fields and the body; the
  live counts are kept in \<open>info\<close> and written to the leader by \<open>aug_setinfo\<close>.  \<open>hdr_rep\<close> says
  that a sequence holds a list of fields and a body; each operation is shown to refine the
  corresponding operation on that list.  A \<open>char*\<close> into the sequence is its offset.
\<close>

section \<open>Format (format_.h)\<close>

definition AUG_LEADERSIZE :: nat where "AUG_LEADERSIZE = 16"
definition AUG_PROTOOFF :: nat where "AUG_PROTOOFF = 4"
definition AUG_FIELDSOFF :: nat where "AUG_FIELDSOFF = 6"
definition AUG_HSIZEOFF :: nat where "AUG_HSIZEOFF = 8"
definition AUG_BSIZEOFF :: nat where "AUG_BSIZEOFF = 12"
definition AUG_MAGIC :: "byte list" where "AUG_MAGIC = str ''mar'' @ [0]"
definition AUG_MAX16 :: nat where "AUG_MAX16 = 65535"

text \<open>
  Offsets are \<^verbatim>\<open>size_t\<close> and do not wrap; every use of a field's size converts it to
  \<^verbatim>\<open>unsigned\<close>.
\<close>

definition AUG_VALUEOFF :: "nat \<Rightarrow> nat" where "AUG_VALUEOFF nsize = 4 + nsize"

definition AUG_FIELDSIZE :: "nat \<Rightarrow> nat \<Rightarrow> nat" where
  "AUG_FIELDSIZE nsize vsize = uadd (AUG_VALUEOFF nsize) vsize"

record info =
  if_proto :: nat
  if_fields :: nat
  if_hsize :: nat
  if_bsize :: nat

text \<open>Decoding at an address: \<open>None\<close> past the end of the block.\<close>

definition rd16 :: "byte list \<Rightarrow> nat \<Rightarrow> nat option" where
  "rd16 m p = (if p + 2 \<le> length m then Some (unat (dec16 (slice p 2 m))) else None)"

definition rd32 :: "byte list \<Rightarrow> nat \<Rightarrow> nat option" where
  "rd32 m p = (if p + 4 \<le> length m then Some (unat (dec32 (slice p 4 m))) else None)"

text \<open>These are the decoders of \<^verbatim>\<open>endian.c\<close> on either kind of host.\<close>

lemma rd_decode:
  "rd16 m p = map_option unat (aug_decode16 be (drop p m))"
  "rd32 m p = map_option unat (aug_decode32 be (drop p m))"
  by (auto simp: rd16_def rd32_def decode_network slice_def)

section \<open>The leader (info_.c)\<close>

definition leader :: "info \<Rightarrow> byte list" where
  "leader i = AUG_MAGIC @ enc16 (of_nat (if_proto i)) @ enc16 (of_nat (if_fields i))
     @ enc32 (of_nat (if_hsize i)) @ enc32 (of_nat (if_bsize i))"

text \<open>Writing at an address of the block, with the bounds the code takes for granted.\<close>

definition pokeseq :: "seq \<Rightarrow> nat \<Rightarrow> byte list \<Rightarrow> (aug_fail + unit) \<times> seq" where
  "pokeseq s p bs =
     (case sq_addr s of
        None \<Rightarrow> (Inl Undefined, s)
      | Some m \<Rightarrow>
          (case memcpy m p bs of
             None \<Rightarrow> (Inl Undefined, s)
           | Some m' \<Rightarrow> (Inr (), s\<lparr>sq_addr := Some m'\<rparr>)))"

text \<open>The stores of a field or of the leader, one after the other.\<close>

fun pokes :: "seq \<Rightarrow> (nat \<times> byte list) list \<Rightarrow> (aug_fail + unit) \<times> seq" where
  "pokes s [] = (Inr (), s)"
| "pokes s ((p, bs) # ps) =
     (case pokeseq s p bs of (Inl e, s) \<Rightarrow> (Inl e, s) | (Inr _, s) \<Rightarrow> pokes s ps)"

definition aug_setinfo :: "seq \<Rightarrow> info \<Rightarrow> (aug_fail + unit) \<times> seq" where
  "aug_setinfo s i =
     (case aug_setregion s 0 AUG_LEADERSIZE of
        (Inl e, s) \<Rightarrow> (Inl e, s)
      | (Inr _, s) \<Rightarrow>
          (case aug_seqaddr s of
             Inl e \<Rightarrow> (Inl e, s)
           | Inr p \<Rightarrow>
               pokes s [(p, AUG_MAGIC),
                        (p + AUG_PROTOOFF, enc16 (of_nat (if_proto i))),
                        (p + AUG_FIELDSOFF, enc16 (of_nat (if_fields i))),
                        (p + AUG_HSIZEOFF, enc32 (of_nat (if_hsize i))),
                        (p + AUG_BSIZEOFF, enc32 (of_nat (if_bsize i)))]))"

definition aug_info :: "seq \<Rightarrow> (aug_fail + info) \<times> seq" where
  "aug_info s =
     (case aug_setregion s 0 AUG_LEADERSIZE of
        (Inl e, s) \<Rightarrow> (Inl e, s)
      | (Inr _, s) \<Rightarrow>
          (case aug_seqaddr s of
             Inl e \<Rightarrow> (Inl e, s)
           | Inr p \<Rightarrow>
               let m = the (sq_addr s) in
               if slice p (length AUG_MAGIC) m \<noteq> AUG_MAGIC then (Inl (ExError EINVAL), s)
               else
                 (case (rd16 m (p + AUG_PROTOOFF), rd16 m (p + AUG_FIELDSOFF),
                        rd32 m (p + AUG_HSIZEOFF), rd32 m (p + AUG_BSIZEOFF)) of
                    (Some a, Some b, Some c, Some d) \<Rightarrow>
                      (Inr \<lparr>if_proto = a, if_fields = b, if_hsize = c, if_bsize = d\<rparr>, s)
                  | _ \<Rightarrow> (Inl Undefined, s))))"

section \<open>Reading fields (header_.c)\<close>

definition nsize :: "byte list \<Rightarrow> nat \<Rightarrow> nat option" where
  "nsize m p = rd16 m p"

definition vsize :: "byte list \<Rightarrow> nat \<Rightarrow> nat option" where
  "vsize m p = rd16 m (p + 2)"

definition name_ptr :: "nat \<Rightarrow> nat" where
  "name_ptr p = p + 4"

definition value_ptr :: "nat \<Rightarrow> nat \<Rightarrow> nat" where
  "value_ptr p ns = p + AUG_VALUEOFF ns"

definition fieldsize :: "byte list \<Rightarrow> nat \<Rightarrow> nat option" where
  "fieldsize m p = do {
     ns \<leftarrow> nsize m p;
     vs \<leftarrow> vsize m p;
     Some (AUG_FIELDSIZE ns vs)
   }"

fun skipn :: "byte list \<Rightarrow> nat \<Rightarrow> nat \<Rightarrow> nat option" where
  "skipn m ptr 0 = Some ptr"
| "skipn m ptr (Suc n) = do { k \<leftarrow> fieldsize m ptr; skipn m (ptr + k) n }"

definition offsetn :: "byte list \<Rightarrow> nat \<Rightarrow> nat \<Rightarrow> nat option" where
  "offsetn m begin' n = do { ptr \<leftarrow> skipn m begin' n; Some (ptr - begin') }"

text \<open>
  The loop of \<^verbatim>\<open>offsetp_\<close> at field \<open>n\<close> with \<open>r\<close> fields left; a match stores its ordinal in
  \<^verbatim>\<open>inout\<close>, which otherwise keeps the number of fields.
\<close>

fun searchp :: "byte list \<Rightarrow> byte list \<Rightarrow> nat \<Rightarrow> nat \<Rightarrow> nat \<Rightarrow> (nat \<times> nat) option" where
  "searchp m name ptr n 0 = Some (ptr, n)"
| "searchp m name ptr n (Suc r) = do {
     ns \<leftarrow> nsize m ptr;
     eq \<leftarrow> strncaseeq (name @ [0]) (drop (name_ptr ptr) m) ns;
     if eq then Some (ptr, n)
     else do { k \<leftarrow> fieldsize m ptr; searchp m name (ptr + k) (n + 1) r }
   }"

definition offsetp :: "byte list \<Rightarrow> nat \<Rightarrow> byte list \<Rightarrow> nat \<Rightarrow> (nat \<times> nat) option" where
  "offsetp m begin' name inout = do {
     (ptr, n) \<leftarrow> searchp m name begin' 0 inout;
     Some (ptr - begin', n)
   }"

section \<open>Operations on fields (header_.c)\<close>

text \<open>The two guards every operation starts from: move the region, then take or resize it.\<close>

definition enter :: "seq \<Rightarrow> nat \<Rightarrow> nat \<Rightarrow> (aug_fail + nat) \<times> seq" where
  "enter s p n =
     (case aug_setregion s p n of
        (Inl e, s) \<Rightarrow> (Inl e, s)
      | (Inr _, s) \<Rightarrow> (aug_seqaddr s, s))"

definition replace :: "bool \<Rightarrow> seq \<Rightarrow> nat \<Rightarrow> nat \<Rightarrow> nat \<Rightarrow> (aug_fail + nat) \<times> seq" where
  "replace mem s p n sz =
     (case aug_setregion s p n of
        (Inl e, s) \<Rightarrow> (Inl e, s)
      | (Inr _, s) \<Rightarrow> aug_resizeseq mem s sz)"

definition aug_clearfields :: "bool \<Rightarrow> seq \<Rightarrow> info \<Rightarrow> (aug_fail + nat) \<times> seq \<times> info" where
  "aug_clearfields mem s i =
     (case replace mem s AUG_LEADERSIZE (if_hsize i) 0 of
        (Inl e, s) \<Rightarrow> (Inl e, s, i)
      | (Inr _, s) \<Rightarrow> (Inr (if_fields i), s, i\<lparr>if_fields := 0, if_hsize := 0\<rparr>))"

definition aug_delfieldn :: "bool \<Rightarrow> seq \<Rightarrow> info \<Rightarrow> nat \<Rightarrow> (aug_fail + unit) \<times> seq \<times> info" where
  "aug_delfieldn mem s i n =
     (if if_fields i \<le> n then (Inl ExNone, s, i)
      else
        case enter s AUG_LEADERSIZE (if_hsize i) of
          (Inl e, s) \<Rightarrow> (Inl e, s, i)
        | (Inr p, s) \<Rightarrow>
            let m = the (sq_addr s) in
            (case do { off \<leftarrow> offsetn m p n; orig \<leftarrow> fieldsize m (p + off); Some (off, orig) } of
               None \<Rightarrow> (Inl Undefined, s, i)
             | Some (off, orig) \<Rightarrow>
                 (case replace mem s (uadd AUG_LEADERSIZE off) orig 0 of
                    (Inl e, s) \<Rightarrow> (Inl e, s, i)
                  | (Inr _, s) \<Rightarrow>
                      (Inr (), s, i\<lparr>if_fields := usub (if_fields i) 1,
                                   if_hsize := usub (if_hsize i) orig\<rparr>))))"

definition aug_delfieldp ::
  "bool \<Rightarrow> seq \<Rightarrow> info \<Rightarrow> byte list \<Rightarrow> (aug_fail + nat) \<times> seq \<times> info" where
  "aug_delfieldp mem s i name =
     (case enter s AUG_LEADERSIZE (if_hsize i) of
        (Inl e, s) \<Rightarrow> (Inl e, s, i)
      | (Inr p, s) \<Rightarrow>
          let m = the (sq_addr s) in
          (case offsetp m p name (if_fields i) of
             None \<Rightarrow> (Inl Undefined, s, i)
           | Some (off, inout) \<Rightarrow>
               if inout = if_fields i then (Inl ExNone, s, i)
               else
                 (case fieldsize m (p + off) of
                    None \<Rightarrow> (Inl Undefined, s, i)
                  | Some orig \<Rightarrow>
                      (case replace mem s (uadd AUG_LEADERSIZE off) orig 0 of
                         (Inl e, s) \<Rightarrow> (Inl e, s, i)
                       | (Inr _, s) \<Rightarrow>
                           (Inr inout, s, i\<lparr>if_fields := usub (if_fields i) 1,
                                            if_hsize := usub (if_hsize i) orig\<rparr>)))))"

text \<open>
  The readers return the size and the address of the value; a null address is \<open>None\<close>.  A
  size of -1 would be read as a failure: it comes from a value size of zero in a damaged
  archive.
\<close>

definition aug_getfieldn ::
  "seq \<Rightarrow> info \<Rightarrow> nat \<Rightarrow> (aug_fail + int \<times> nat option) \<times> seq" where
  "aug_getfieldn s i n =
     (if if_fields i \<le> n then (Inr (0, None), s)
      else
        case enter s AUG_LEADERSIZE (if_hsize i) of
          (Inl e, s) \<Rightarrow> (Inl e, s)
        | (Inr p, s) \<Rightarrow>
            let m = the (sq_addr s) in
            (case do { off \<leftarrow> offsetn m p n;
                       ns \<leftarrow> nsize m (p + off);
                       vs \<leftarrow> vsize m (p + off);
                       Some (int vs - 1, Some (value_ptr (p + off) ns)) } of
               None \<Rightarrow> (Inl Undefined, s)
             | Some r \<Rightarrow> (Inr r, s)))"

definition aug_getfieldp ::
  "seq \<Rightarrow> info \<Rightarrow> byte list \<Rightarrow> (aug_fail + int \<times> nat option) \<times> seq" where
  "aug_getfieldp s i name =
     (case enter s AUG_LEADERSIZE (if_hsize i) of
        (Inl e, s) \<Rightarrow> (Inl e, s)
      | (Inr p, s) \<Rightarrow>
          let m = the (sq_addr s) in
          (case offsetp m p name (if_fields i) of
             None \<Rightarrow> (Inl Undefined, s)
           | Some (off, inout) \<Rightarrow>
               if inout = if_fields i then (Inr (0, None), s)
               else
                 (case do { ns \<leftarrow> nsize m (p + off);
                            vs \<leftarrow> vsize m (p + off);
                            Some (int vs - 1, Some (value_ptr (p + off) ns)) } of
                    None \<Rightarrow> (Inl Undefined, s)
                  | Some r \<Rightarrow> (Inr r, s))))"

text \<open>\<^verbatim>\<open>struct aug_field\<close>: name, value and size, the first two as addresses.\<close>

definition aug_getfield ::
  "seq \<Rightarrow> info \<Rightarrow> nat \<Rightarrow> (aug_fail + nat option \<times> nat option \<times> nat) \<times> seq" where
  "aug_getfield s i n =
     (if if_fields i \<le> n then (Inr (None, None, 0), s)
      else
        case enter s AUG_LEADERSIZE (if_hsize i) of
          (Inl e, s) \<Rightarrow> (Inl e, s)
        | (Inr p, s) \<Rightarrow>
            let m = the (sq_addr s) in
            (case do { off \<leftarrow> offsetn m p n;
                       ns \<leftarrow> nsize m (p + off);
                       vs \<leftarrow> vsize m (p + off);
                       Some (Some (name_ptr (p + off)), Some (value_ptr (p + off) ns), usub vs 1) } of
               None \<Rightarrow> (Inl Undefined, s)
             | Some r \<Rightarrow> (Inr r, s)))"

definition aug_fieldntop :: "seq \<Rightarrow> info \<Rightarrow> nat \<Rightarrow> (aug_fail + nat) \<times> seq" where
  "aug_fieldntop s i n =
     (if if_fields i \<le> n then (Inl ExNone, s)
      else
        case enter s AUG_LEADERSIZE (if_hsize i) of
          (Inl e, s) \<Rightarrow> (Inl e, s)
        | (Inr p, s) \<Rightarrow>
            (case offsetn (the (sq_addr s)) p n of
               None \<Rightarrow> (Inl Undefined, s)
             | Some off \<Rightarrow> (Inr (name_ptr (p + off)), s)))"

definition aug_fieldpton :: "seq \<Rightarrow> info \<Rightarrow> byte list \<Rightarrow> (aug_fail + nat) \<times> seq" where
  "aug_fieldpton s i name =
     (case enter s AUG_LEADERSIZE (if_hsize i) of
        (Inl e, s) \<Rightarrow> (Inl e, s)
      | (Inr p, s) \<Rightarrow>
          (case offsetp (the (sq_addr s)) p name (if_fields i) of
             None \<Rightarrow> (Inl Undefined, s)
           | Some (off, inout) \<Rightarrow>
               (if inout = if_fields i then Inl ExNone else Inr inout, s)))"

definition aug_putfieldn ::
  "bool \<Rightarrow> seq \<Rightarrow> info \<Rightarrow> nat \<Rightarrow> byte list \<Rightarrow> (aug_fail + unit) \<times> seq \<times> info" where
  "aug_putfieldn mem s i n value =
     (if if_fields i \<le> n then (Inl ExNone, s, i)
      else
        let sz = length value; vs = uadd sz 1 in
        if AUG_MAX16 < vs then (Inl (ExError ELIMIT), s, i)
        else
          case enter s AUG_LEADERSIZE (if_hsize i) of
            (Inl e, s) \<Rightarrow> (Inl e, s, i)
          | (Inr p, s) \<Rightarrow>
              let m = the (sq_addr s) in
              (case do { off \<leftarrow> offsetn m p n;
                         ns \<leftarrow> nsize m (p + off);
                         orig \<leftarrow> vsize m (p + off);
                         Some (off, ns, orig) } of
                 None \<Rightarrow> (Inl Undefined, s, i)
               | Some (off, ns, orig) \<Rightarrow>
                   (case replace mem s (uadd AUG_LEADERSIZE off) (AUG_FIELDSIZE ns orig)
                           (AUG_FIELDSIZE ns vs) of
                      (Inl e, s) \<Rightarrow> (Inl e, s, i)
                    | (Inr p, s) \<Rightarrow>
                        (case pokes s [(p + 2, enc16 (of_nat vs)),
                                       (p + AUG_VALUEOFF ns, value),
                                       (p + AUG_VALUEOFF ns + sz, [0])] of
                           (Inl e, s) \<Rightarrow> (Inl e, s, i)
                         | (Inr _, s) \<Rightarrow>
                             (Inr (), s, i\<lparr>if_hsize := uaddi (if_hsize i) (int vs - int orig)\<rparr>)))))"

definition aug_putfieldp ::
  "bool \<Rightarrow> seq \<Rightarrow> info \<Rightarrow> byte list option \<Rightarrow> byte list \<Rightarrow> (aug_fail + nat) \<times> seq \<times> info" where
  "aug_putfieldp mem s i name value =
     (case name of
        None \<Rightarrow> (Inl (ExError ENULL), s, i)
      | Some name \<Rightarrow>
          let ns = uadd (length name) 1; sz = length value; vs = uadd sz 1 in
          if AUG_MAX16 < ns then (Inl (ExError ELIMIT), s, i)
          else if AUG_MAX16 < vs then (Inl (ExError ELIMIT), s, i)
          else
            let fsize = AUG_FIELDSIZE ns vs in
            case enter s AUG_LEADERSIZE (if_hsize i) of
              (Inl e, s) \<Rightarrow> (Inl e, s, i)
            | (Inr p, s) \<Rightarrow>
                let m = the (sq_addr s) in
                (case do { (off, inout) \<leftarrow> offsetp m p name (if_fields i);
                           orig \<leftarrow> (if inout = if_fields i then Some 0 else fieldsize m (p + off));
                           Some (off, inout, orig) } of
                   None \<Rightarrow> (Inl Undefined, s, i)
                 | Some (off, inout, orig) \<Rightarrow>
                     (case replace mem s (uadd AUG_LEADERSIZE off) orig fsize of
                        (Inl e, s) \<Rightarrow> (Inl e, s, i)
                      | (Inr p, s) \<Rightarrow>
                          (case pokes s [(p, enc16 (of_nat ns)),
                                         (p + 4, slice 0 ns (name @ [0])),
                                         (p + 2, enc16 (of_nat vs)),
                                         (p + AUG_VALUEOFF ns, value),
                                         (p + AUG_VALUEOFF ns + sz, [0])] of
                             (Inl e, s) \<Rightarrow> (Inl e, s, i)
                           | (Inr _, s) \<Rightarrow>
                               (Inr inout, s,
                                i\<lparr>if_fields := (if inout = if_fields i then uadd (if_fields i) 1
                                               else if_fields i),
                                  if_hsize := uaddi (if_hsize i) (int fsize - int orig)\<rparr>)))))"

section \<open>Representation\<close>

type_synonym field = "byte list \<times> byte list"

definition field_ok :: "field \<Rightarrow> bool" where
  "field_ok f \<longleftrightarrow> cstring (fst f) \<and> length (fst f) < AUG_MAX16 \<and> length (snd f) < AUG_MAX16"

definition enc_field :: "field \<Rightarrow> byte list" where
  "enc_field f = enc16 (of_nat (length (fst f) + 1)) @ enc16 (of_nat (length (snd f) + 1))
     @ fst f @ [0] @ snd f @ [0]"

definition hdr :: "field list \<Rightarrow> byte list" where
  "hdr fs = concat (map enc_field fs)"

definition mar_rep :: "seq \<Rightarrow> info \<Rightarrow> field list \<Rightarrow> byte list \<Rightarrow> bool" where
  "mar_rep s i fs body \<longleftrightarrow>
     (case sq_addr s of
        None \<Rightarrow> False
      | Some m \<Rightarrow> AUG_LEADERSIZE \<le> length m \<and> take 4 m = AUG_MAGIC \<and> drop AUG_LEADERSIZE m = hdr fs @ body
          \<and> length m < 2 ^ 32)
     \<and> if_fields i = length fs \<and> if_hsize i = length (hdr fs) \<and> if_bsize i = length body
     \<and> list_all field_ok fs"

definition find_field :: "field list \<Rightarrow> byte list \<Rightarrow> nat" where
  "find_field fs name = length (takeWhile (\<lambda>f. \<not> same_name name (fst f)) fs)"

definition put_field :: "field list \<Rightarrow> byte list \<Rightarrow> byte list \<Rightarrow> field list" where
  "put_field fs name value =
     (let k = find_field fs name in
      if k < length fs then fs[k := (name, value)] else fs @ [(name, value)])"

definition del_field :: "field list \<Rightarrow> nat \<Rightarrow> field list" where
  "del_field fs n = take n fs @ drop (Suc n) fs"

lemma hdr_simps [simp]:
  "hdr [] = []" "hdr (f # fs) = enc_field f @ hdr fs" "hdr (fs @ gs) = hdr fs @ hdr gs"
  by (simp_all add: hdr_def)

lemma length_enc_field [simp]: "length (enc_field f) = length (fst f) + length (snd f) + 6"
  by (simp add: enc_field_def)

lemma mar_repE:
  assumes "mar_rep s i fs body"
  obtains ld where "sq_addr s = Some (ld @ hdr fs @ body)" "length ld = 16" "take 4 ld = AUG_MAGIC"
    "length ld + length (hdr fs) + length body < 2 ^ 32"
    "if_fields i = length fs" "if_hsize i = length (hdr fs)" "if_bsize i = length body"
    "list_all field_ok fs"
proof -
  obtain m where m: "sq_addr s = Some m" "16 \<le> length m" "take 4 m = AUG_MAGIC" "drop 16 m = hdr fs @ body"
      "length m < 2 ^ 32"
    using assms by (auto simp: mar_rep_def AUG_LEADERSIZE_def split: option.splits)
  have "m = take 16 m @ hdr fs @ body"
    using m(4) by (metis append_take_drop_id)
  moreover from this have "length m = 16 + length (hdr fs) + length body"
    using m(2) by (metis add.assoc length_append length_take min.absorb2)
  ultimately show thesis
    using that [of "take 16 m"] m assms by (simp add: mar_rep_def min_def)
qed

lemma mar_repI:
  "sq_addr s = Some (ld @ hdr fs @ body) \<Longrightarrow> length ld = 16 \<Longrightarrow> take 4 ld = AUG_MAGIC \<Longrightarrow>
   16 + length (hdr fs) + length body < 2 ^ 32 \<Longrightarrow> if_fields i = length fs \<Longrightarrow>
   if_hsize i = length (hdr fs) \<Longrightarrow> if_bsize i = length body \<Longrightarrow> list_all field_ok fs \<Longrightarrow>
   mar_rep s i fs body"
  by (simp add: mar_rep_def AUG_LEADERSIZE_def)

lemma find_field_le: "find_field fs name \<le> length fs"
  by (simp add: find_field_def length_takeWhile_le)

lemma find_field_simps [simp]:
  "find_field [] name = 0"
  "find_field (f # fs) name =
     (if same_name name (fst f) then 0 else Suc (find_field fs name))"
  by (simp_all add: find_field_def)


section \<open>Reading a representation\<close>

lemma unat_of_nat16: "n < 65536 \<Longrightarrow> unat (of_nat n :: 16 word) = n"
  by (simp add: unat_of_nat take_bit_eq_mod)

lemma unat_of_nat32: "n < 2 ^ 32 \<Longrightarrow> unat (of_nat n :: 32 word) = n"
  by (simp add: unat_of_nat take_bit_eq_mod)

lemma rd16_at: "p = length a \<Longrightarrow> rd16 (a @ enc16 w @ c) p = Some (unat w)"
  by (simp add: rd16_def slice_append_mid)

lemma rd32_at: "p = length a \<Longrightarrow> rd32 (a @ enc32 w @ c) p = Some (unat w)"
  by (simp add: rd32_def slice_append_mid)

lemma rd16_at2: "p = length a + length b \<Longrightarrow> rd16 (a @ b @ enc16 w @ c) p = Some (unat w)"
  using rd16_at [of p "a @ b"] by simp

lemma nsize_at:
  "field_ok f \<Longrightarrow> nsize (a @ enc_field f @ c) (length a) = Some (length (fst f) + 1)"
  using unat_of_nat16 [of "length (fst f) + 1"]
  by (simp add: nsize_def enc_field_def rd16_at field_ok_def AUG_MAX16_def)

lemma vsize_at:
  "field_ok f \<Longrightarrow> vsize (a @ enc_field f @ c) (length a) = Some (length (snd f) + 1)"
  using unat_of_nat16 [of "length (snd f) + 1"]
  by (simp add: vsize_def enc_field_def rd16_at2 field_ok_def AUG_MAX16_def)

lemma fieldsize_at:
  "field_ok f \<Longrightarrow> fieldsize (a @ enc_field f @ c) (length a) = Some (length (enc_field f))"
  by (simp add: fieldsize_def nsize_at vsize_at AUG_FIELDSIZE_def AUG_VALUEOFF_def
        field_ok_def AUG_MAX16_def)

lemma drop_name:
  "drop (name_ptr (length a)) (a @ enc_field f @ c) = fst f @ 0 # snd f @ 0 # c"
  by (simp add: name_ptr_def enc_field_def)

lemma name_at:
  "cstring name \<Longrightarrow> field_ok f \<Longrightarrow>
   strncaseeq (name @ [0]) (drop (name_ptr (length a)) (a @ enc_field f @ c)) (Suc (length (fst f)))
   = Some (same_name name (fst f))"
  unfolding drop_name by (rule strncaseeq_cstring) (simp_all add: field_ok_def)

lemma value_at:
  "slice (value_ptr (length a) (length (fst f) + 1)) (length (snd f)) (a @ enc_field f @ c) = snd f"
  by (simp add: slice_def value_ptr_def AUG_VALUEOFF_def enc_field_def)

lemma skipn_hdr:
  "list_all field_ok fs \<Longrightarrow> n \<le> length fs \<Longrightarrow>
   skipn (a @ hdr fs @ c) (length a) n = Some (length a + length (hdr (take n fs)))"
proof (induction n arbitrary: a fs)
  case (Suc n)
  then obtain f gs where fs: "fs = f # gs"
    by (cases fs) auto
  show ?case
    using Suc.prems Suc.IH [of gs "a @ enc_field f"]
    by (simp add: fs fieldsize_at add.assoc)
qed simp

lemma searchp_hdr:
  "list_all field_ok fs \<Longrightarrow> cstring name \<Longrightarrow>
   searchp (a @ hdr fs @ c) name (length a) n (length fs)
   = Some (length a + length (hdr (take (find_field fs name) fs)), n + find_field fs name)"
proof (induction fs arbitrary: a n)
  case (Cons f fs)
  then show ?case
    using Cons.IH [of "a @ enc_field f" "Suc n"]
    by (simp add: nsize_at name_at fieldsize_at add.assoc del: drop_append)
qed simp

lemma offsetn_hdr:
  "list_all field_ok fs \<Longrightarrow> n \<le> length fs \<Longrightarrow>
   offsetn (a @ hdr fs @ c) (length a) n = Some (length (hdr (take n fs)))"
  by (simp add: offsetn_def skipn_hdr)

lemma offsetp_hdr:
  "list_all field_ok fs \<Longrightarrow> cstring name \<Longrightarrow>
   offsetp (a @ hdr fs @ c) (length a) name (length fs)
   = Some (length (hdr (take (find_field fs name) fs)), find_field fs name)"
  by (simp add: offsetp_def searchp_hdr)

lemma hdr_split:
  "n < length fs \<Longrightarrow> hdr fs = hdr (take n fs) @ enc_field (fs ! n) @ hdr (drop (Suc n) fs)"
  by (subst id_take_nth_drop [of n fs]) simp_all

lemma field_at:
  assumes "list_all field_ok fs" "n < length fs" "p = length a + length (hdr (take n fs))"
  shows "nsize (a @ hdr fs @ c) p = Some (length (fst (fs ! n)) + 1)"
    and "vsize (a @ hdr fs @ c) p = Some (length (snd (fs ! n)) + 1)"
    and "fieldsize (a @ hdr fs @ c) p = Some (length (enc_field (fs ! n)))"
    and "slice (value_ptr p (length (fst (fs ! n)) + 1)) (length (snd (fs ! n))) (a @ hdr fs @ c)
         = snd (fs ! n)"
    and "slice (name_ptr p) (length (fst (fs ! n)) + 1) (a @ hdr fs @ c) = fst (fs ! n) @ [0]"
proof -
  let ?a = "a @ hdr (take n fs)"
  let ?c = "hdr (drop (Suc n) fs) @ c"
  have ok: "field_ok (fs ! n)"
    using assms by (simp add: list_all_length)
  have m: "a @ hdr fs @ c = ?a @ enc_field (fs ! n) @ ?c" and p: "p = length ?a"
    using assms by (simp_all add: hdr_split)
  show "nsize (a @ hdr fs @ c) p = Some (length (fst (fs ! n)) + 1)"
    unfolding m p by (rule nsize_at [OF ok])
  show "vsize (a @ hdr fs @ c) p = Some (length (snd (fs ! n)) + 1)"
    unfolding m p by (rule vsize_at [OF ok])
  show "fieldsize (a @ hdr fs @ c) p = Some (length (enc_field (fs ! n)))"
    unfolding m p by (rule fieldsize_at [OF ok])
  show "slice (value_ptr p (length (fst (fs ! n)) + 1)) (length (snd (fs ! n))) (a @ hdr fs @ c)
      = snd (fs ! n)"
    unfolding m p by (rule value_at)
  show "slice (name_ptr p) (length (fst (fs ! n)) + 1) (a @ hdr fs @ c) = fst (fs ! n) @ [0]"
    unfolding m p by (simp add: slice_def name_ptr_def enc_field_def)
qed


section \<open>Writing a representation\<close>

lemma enter_ok:
  "sq_addr s = Some m \<Longrightarrow> length m < 2 ^ 32 \<Longrightarrow> p + n \<le> length m \<Longrightarrow>
   enter s p n = (Inr p, s\<lparr>sq_offset := p, sq_len := n\<rparr>)"
  by (simp add: enter_def setregion_ok)

lemma replace_ok:
  assumes "sq_addr s = Some (a @ b @ c)" "p = length a" "n = length b"
    and "length a + length b + length c < 2 ^ 32" "length a + sz + length c < 2 ^ 32"
  shows "replace mem s p n sz =
    (if mem \<or> sz \<le> length b
     then (Inr (length a), \<lparr>sq_offset = length a, sq_len = sz, sq_addr = Some (a @ resized sz b c @ c)\<rparr>)
     else (Inl NoMem, s\<lparr>sq_offset := length a, sq_len := length b\<rparr>))"
  using assms by (simp add: replace_def setregion_ok resize_region [where a = a and b = b and c = c])

lemma poke_here: "length b' = length b \<Longrightarrow> poke (b @ c) 0 b' = b' @ c"
  by (simp add: poke_def)

lemma pokeseq_ok:
  "sq_addr s = Some m \<Longrightarrow> p + length bs \<le> length m \<Longrightarrow>
   pokeseq s p bs = (Inr (), s\<lparr>sq_addr := Some (poke m p bs)\<rparr>)"
  by (simp add: pokeseq_def)

lemma split5:
  assumes "length x = k1 + (k2 + (k3 + (k4 + k5)))"
  obtains x1 x2 x3 x4 x5 where "x = x1 @ x2 @ x3 @ x4 @ x5" "length x1 = k1" "length x2 = k2"
    "length x3 = k3" "length x4 = k4" "length x5 = k5"
proof -
  have parts: "x = take k1 x @ take k2 (drop k1 x) @ take k3 (drop k2 (drop k1 x))
      @ take k4 (drop k3 (drop k2 (drop k1 x))) @ drop k4 (drop k3 (drop k2 (drop k1 x)))"
    by (simp only: append_take_drop_id)
  show thesis
    by (rule that [OF parts]) (simp_all add: assms)
qed

text \<open>The stores of \<^verbatim>\<open>aug_putfieldp_BIN_\<close> fill a region of the right size with the field.\<close>

lemma pokes_field:
  assumes "sq_addr s = Some (a @ x @ c)" "length x = length (enc_field f)"
  shows "pokes s
     [(length a, enc16 (of_nat (length (fst f) + 1))), (length a + 4, fst f @ [0]),
      (length a + 2, enc16 (of_nat (length (snd f) + 1))),
      (length a + AUG_VALUEOFF (length (fst f) + 1), snd f),
      (length a + AUG_VALUEOFF (length (fst f) + 1) + length (snd f), [0])]
     = (Inr (), s\<lparr>sq_addr := Some (a @ enc_field f @ c)\<rparr>)"
proof -
  have "length x = 2 + (2 + ((length (fst f) + 1) + (length (snd f) + 1)))"
    using assms(2) by simp
  then obtain x1 x2 x3 x4 x5 where "x = x1 @ x2 @ x3 @ x4 @ x5" "length x1 = 2" "length x2 = 2"
      "length x3 = length (fst f) + 1" "length x4 = length (snd f)" "length x5 = 1"
    by (rule split5)
  then show ?thesis
    using assms(1)
    by (simp add: pokeseq_ok poke_append_skip poke_here AUG_VALUEOFF_def enc_field_def)
qed

lemma pokes_value:
  assumes "sq_addr s = Some (a @ x @ c)" "length x = length (enc_field f)"
    and "take (4 + (length (fst f) + 1)) x = take (4 + (length (fst f) + 1)) (enc_field (fst f, v))"
  shows "pokes s
     [(length a + 2, enc16 (of_nat (length (snd f) + 1))),
      (length a + AUG_VALUEOFF (length (fst f) + 1), snd f),
      (length a + AUG_VALUEOFF (length (fst f) + 1) + length (snd f), [0])]
     = (Inr (), s\<lparr>sq_addr := Some (a @ enc_field f @ c)\<rparr>)"
proof -
  have "length x = 2 + (2 + ((length (fst f) + 1) + (length (snd f) + 1)))"
    using assms(2) by simp
  then obtain x1 x2 x3 x4 x5 where x: "x = x1 @ x2 @ x3 @ x4 @ x5" "length x1 = 2" "length x2 = 2"
      "length x3 = length (fst f) + 1" "length x4 = length (snd f)" "length x5 = 1"
    by (rule split5)
  have "x1 = enc16 (of_nat (length (fst f) + 1)) \<and> x3 = fst f @ [0]"
    using assms(3) x by (simp add: enc_field_def)
  with x show ?thesis
    using assms(1)
    by (simp add: pokeseq_ok poke_append_skip poke_here AUG_VALUEOFF_def enc_field_def)
qed


section \<open>Refinement of the operations\<close>

text \<open>
  An outcome \<open>(r, s', i')\<close> has the abstract state \<open>(fs, body)\<close>; the protocol number of the
  leader never changes.
\<close>

definition abs_outcome ::
  "info \<Rightarrow> (aug_fail + 'a) \<times> seq \<times> info \<Rightarrow> aug_fail + 'a \<Rightarrow> field list \<Rightarrow> byte list \<Rightarrow> bool" where
  "abs_outcome i out r fs body \<longleftrightarrow>
     (case out of (r', s', i') \<Rightarrow> r' = r \<and> mar_rep s' i' fs body \<and> if_proto i' = if_proto i)"

lemma mar_rep_region:
  "mar_rep (s\<lparr>sq_offset := p, sq_len := n\<rparr>) i fs body \<longleftrightarrow> mar_rep s i fs body"
  by (simp add: mar_rep_def)

lemma list_all_del: "list_all P fs \<Longrightarrow> list_all P (del_field fs n)"
  by (simp add: del_field_def)

lemma list_all_update: "list_all P fs \<Longrightarrow> P f \<Longrightarrow> list_all P (fs[k := f])"
  using set_update_subset_insert [of fs k f] by (auto simp: list_all_iff)

lemma list_all_put: "list_all P fs \<Longrightarrow> P (name, value) \<Longrightarrow> list_all P (put_field fs name value)"
  by (simp add: put_field_def Let_def list_all_update)

lemma length_del_field: "n < length fs \<Longrightarrow> length (del_field fs n) = length fs - 1"
  by (simp add: del_field_def)

lemma length_hdr_del:
  "n < length fs \<Longrightarrow> length (hdr (del_field fs n)) = length (hdr fs) - length (enc_field (fs ! n))"
  by (simp add: del_field_def hdr_split)

lemma hdr_update:
  "n < length fs \<Longrightarrow> hdr (fs[n := f]) = hdr (take n fs) @ enc_field f @ hdr (drop (Suc n) fs)"
  by (simp add: upd_conv_take_nth_drop)

lemma clear_rep:
  assumes "mar_rep s i fs body"
  shows "abs_outcome i (aug_clearfields mem s i) (Inr (length fs)) [] body"
proof -
  obtain ld where ld: "sq_addr s = Some (ld @ hdr fs @ body)" "length ld = 16" "take 4 ld = AUG_MAGIC"
      "length ld + length (hdr fs) + length body < 2 ^ 32" "if_fields i = length fs"
      "if_hsize i = length (hdr fs)" "if_bsize i = length body"
    using assms by (rule mar_repE)
  then show ?thesis
    using replace_ok [OF ld(1), of 16 "length (hdr fs)" 0 mem]
    by (auto simp: aug_clearfields_def AUG_LEADERSIZE_def abs_outcome_def intro!: mar_repI)
qed

lemma del_region:
  assumes ld: "sq_addr s = Some (ld @ hdr fs @ body)" "length ld = 16" "take 4 ld = AUG_MAGIC"
      "length ld + length (hdr fs) + length body < 2 ^ 32" "if_fields i = length fs"
      "if_hsize i = length (hdr fs)" "if_bsize i = length body" "list_all field_ok fs"
    and n: "n < length fs" "off = length (hdr (take n fs))" "orig = length (enc_field (fs ! n))"
  shows "case replace mem s (uadd AUG_LEADERSIZE off) orig 0 of
      (r, s') \<Rightarrow> r = Inr (16 + off) \<and>
        mar_rep s' (i\<lparr>if_fields := usub (if_fields i) 1, if_hsize := usub (if_hsize i) orig\<rparr>)
          (del_field fs n) body"
proof -
  have split: "hdr fs = hdr (take n fs) @ enc_field (fs ! n) @ hdr (drop (Suc n) fs)"
    using n by (simp add: hdr_split)
  have fits: "length fs \<le> length (hdr fs)"
    by (induction fs) auto
  have "replace mem s (uadd AUG_LEADERSIZE off) orig 0 =
      (Inr (16 + off), \<lparr>sq_offset = 16 + off, sq_len = 0,
        sq_addr = Some ((ld @ hdr (take n fs)) @ hdr (drop (Suc n) fs) @ body)\<rparr>)"
    using replace_ok [of s "ld @ hdr (take n fs)" "enc_field (fs ! n)" "hdr (drop (Suc n) fs) @ body"
        "uadd AUG_LEADERSIZE off" orig 0 mem] ld n(2,3) split
    by (simp add: AUG_LEADERSIZE_def)
  moreover have "16 + (length (hdr (take n fs)) + (length (hdr (drop (Suc n) fs)) + length body)) < 2 ^ 32"
    using ld split by simp
  ultimately show ?thesis
    using ld n fits split
    by (auto simp: del_field_def intro!: mar_repI [where ld = ld])
qed

lemma delfieldn_rep:
  assumes rep: "mar_rep s i fs body" and n: "n < length fs"
  shows "abs_outcome i (aug_delfieldn mem s i n) (Inr ()) (del_field fs n) body"
proof -
  obtain ld where ld: "sq_addr s = Some (ld @ hdr fs @ body)" "length ld = 16" "take 4 ld = AUG_MAGIC"
      "length ld + length (hdr fs) + length body < 2 ^ 32" "if_fields i = length fs"
      "if_hsize i = length (hdr fs)" "if_bsize i = length body" "list_all field_ok fs"
    using rep by (rule mar_repE)
  let ?s = "s\<lparr>sq_offset := 16, sq_len := length (hdr fs)\<rparr>"
  let ?off = "length (hdr (take n fs))"
  have "offsetn (ld @ hdr fs @ body) 16 n = Some ?off"
    "fieldsize (ld @ hdr fs @ body) (16 + ?off) = Some (length (enc_field (fs ! n)))"
    using offsetn_hdr [of fs n ld body] field_at(3) [of fs n "16 + ?off" ld body] ld n by simp_all
  then show ?thesis
    using del_region [of ?s ld fs body i n ?off "length (enc_field (fs ! n))" mem] ld n
      enter_ok [OF ld(1), of 16 "length (hdr fs)"]
    by (auto simp: aug_delfieldn_def AUG_LEADERSIZE_def abs_outcome_def simp del: length_enc_field
        split: prod.splits)
qed


lemma delfieldn_none:
  "length fs \<le> n \<Longrightarrow> mar_rep s i fs body \<Longrightarrow>
   abs_outcome i (aug_delfieldn mem s i n) (Inl ExNone) fs body"
  by (auto simp: aug_delfieldn_def abs_outcome_def elim: mar_repE)

lemma delfieldp_rep:
  assumes rep: "mar_rep s i fs body" and name: "cstring name"
  shows "abs_outcome i (aug_delfieldp mem s i name)
    (if find_field fs name < length fs then Inr (find_field fs name) else Inl ExNone)
    (if find_field fs name < length fs then del_field fs (find_field fs name) else fs) body"
proof -
  obtain ld where ld: "sq_addr s = Some (ld @ hdr fs @ body)" "length ld = 16" "take 4 ld = AUG_MAGIC"
      "length ld + length (hdr fs) + length body < 2 ^ 32" "if_fields i = length fs"
      "if_hsize i = length (hdr fs)" "if_bsize i = length body" "list_all field_ok fs"
    using rep by (rule mar_repE)
  let ?s = "s\<lparr>sq_offset := 16, sq_len := length (hdr fs)\<rparr>"
  let ?n = "find_field fs name"
  let ?off = "length (hdr (take ?n fs))"
  have enter: "enter s 16 (if_hsize i) = (Inr 16, ?s)"
    using enter_ok [OF ld(1), of 16 "length (hdr fs)"] ld by simp
  have off: "offsetp (ld @ hdr fs @ body) 16 name (length fs) = Some (?off, ?n)"
    using offsetp_hdr [of fs name ld body] ld name by simp
  show ?thesis
  proof (cases "?n < length fs")
    case True
    then have "fieldsize (ld @ hdr fs @ body) (16 + ?off) = Some (length (enc_field (fs ! ?n)))"
      using field_at(3) [of fs ?n "16 + ?off" ld body] ld by simp
    with True show ?thesis
      using del_region [of ?s ld fs body i ?n ?off "length (enc_field (fs ! ?n))" mem] ld enter off
      by (auto simp: aug_delfieldp_def AUG_LEADERSIZE_def abs_outcome_def simp del: length_enc_field
          split: prod.splits)
  next
    case False
    then have "?n = length fs"
      using find_field_le [of fs name] by simp
    then show ?thesis
      using enter off ld rep
      by (simp add: aug_delfieldp_def AUG_LEADERSIZE_def abs_outcome_def mar_rep_region)
  qed
qed

text \<open>Overwriting region \<open>b\<close> of the header with the encoding of a field.\<close>

lemma put_region:
  assumes ld: "sq_addr s = Some (ld @ hdr fs @ body)" "length ld = 16" "take 4 ld = AUG_MAGIC"
      "if_bsize i = length body" "list_all field_ok gs" "length ld + length (hdr fs) + length body < 2 ^ 32"
    and split: "hdr fs = hdr f1 @ b @ c" "hdr gs = hdr f1 @ enc_field f @ c"
    and fits: "16 + length (hdr gs) + length body < 2 ^ 32"
    and i': "if_fields i' = length gs" "if_hsize i' = length (hdr gs)" "if_bsize i' = if_bsize i"
  shows "case replace mem s (uadd AUG_LEADERSIZE (length (hdr f1))) (length b) (length (enc_field f)) of
      (r, s') \<Rightarrow>
        if mem \<or> length (enc_field f) \<le> length b then
          r = Inr (16 + length (hdr f1))
          \<and> sq_addr s' = Some ((ld @ hdr f1) @ resized (length (enc_field f)) b (c @ body) @ c @ body)
          \<and> mar_rep (s'\<lparr>sq_addr := Some ((ld @ hdr f1) @ enc_field f @ c @ body)\<rparr>) i' gs body
        else r = Inl NoMem \<and> s' = s\<lparr>sq_offset := 16 + length (hdr f1), sq_len := length b\<rparr>"
proof -
  have "replace mem s (uadd AUG_LEADERSIZE (length (hdr f1))) (length b) (length (enc_field f)) =
    (if mem \<or> length (enc_field f) \<le> length b
     then (Inr (16 + length (hdr f1)), \<lparr>sq_offset = 16 + length (hdr f1), sq_len = length (enc_field f),
       sq_addr = Some ((ld @ hdr f1) @ resized (length (enc_field f)) b (c @ body) @ c @ body)\<rparr>)
     else (Inl NoMem, s\<lparr>sq_offset := 16 + length (hdr f1), sq_len := length b\<rparr>))"
    using replace_ok [of s "ld @ hdr f1" b "c @ body" "uadd AUG_LEADERSIZE (length (hdr f1))"
        "length b" "length (enc_field f)" mem] ld split fits
    by (simp add: AUG_LEADERSIZE_def)
  moreover have "mar_rep (s'\<lparr>sq_addr := Some ((ld @ hdr f1) @ enc_field f @ c @ body)\<rparr>) i' gs body"
    for s'
    using ld fits i' split by (intro mar_repI [where ld = ld]) simp_all
  ultimately show ?thesis
    by simp
qed


lemma put_split:
  fixes fs name val
  defines "k \<equiv> find_field fs name"
  obtains f1 b c where "hdr fs = hdr f1 @ b @ c"
    "hdr (put_field fs name val) = hdr f1 @ enc_field (name, val) @ c"
    "f1 = take k fs" "b = (if k < length fs then enc_field (fs ! k) else [])"
proof (cases "k < length fs")
  case True
  with that [of "take k fs" "enc_field (fs ! k)" "hdr (drop (Suc k) fs)"] show thesis
    by (simp add: put_field_def Let_def hdr_update hdr_split flip: k_def)
next
  case False
  then have "k = length fs"
    using find_field_le [of fs name] by (simp add: k_def)
  with that [of fs "[]" "[]"] show thesis
    by (simp add: put_field_def Let_def flip: k_def)
qed

lemma length_put_field:
  "length (put_field fs name value)
   = (if find_field fs name = length fs then length fs + 1 else length fs)"
  using find_field_le [of fs name] by (auto simp: put_field_def Let_def)

lemma put_bounds:
  assumes "length ld = 16" "16 + length (hdr gs) + length body < 2 ^ 32"
  shows "length (hdr gs) < 2 ^ 32" "length gs < 2 ^ 32"
proof -
  have "length gs \<le> length (hdr gs)"
    by (induction gs) auto
  with assms show "length (hdr gs) < 2 ^ 32" "length gs < 2 ^ 32"
    by simp_all
qed

lemma FIELDSIZE_field:
  "field_ok f \<Longrightarrow> AUG_FIELDSIZE (length (fst f) + 1) (length (snd f) + 1) = length (enc_field f)"
  by (simp add: AUG_FIELDSIZE_def AUG_VALUEOFF_def field_ok_def AUG_MAX16_def)

lemma putfieldp_rep:
  fixes mem :: bool
  assumes rep: "mar_rep s i fs body" and f: "field_ok (name, value)"
    and fits: "16 + length (hdr (put_field fs name value)) + length body < 2 ^ 32"
  defines "k \<equiv> find_field fs name"
  defines "ok \<equiv> mem \<or> (k < length fs \<and> length (enc_field (name, value)) \<le> length (enc_field (fs ! k)))"
  shows "abs_outcome i (aug_putfieldp mem s i (Some name) value)
    (if ok then Inr k else Inl NoMem) (if ok then put_field fs name value else fs) body"
proof -
  obtain ld where ld: "sq_addr s = Some (ld @ hdr fs @ body)" "length ld = 16" "take 4 ld = AUG_MAGIC"
      "length ld + length (hdr fs) + length body < 2 ^ 32" "if_fields i = length fs"
      "if_hsize i = length (hdr fs)" "if_bsize i = length body" "list_all field_ok fs"
    using rep by (rule mar_repE)
  let ?f = "(name, value)"
  let ?gs = "put_field fs name value"
  obtain f1 b c where split: "hdr fs = hdr f1 @ b @ c" "hdr ?gs = hdr f1 @ enc_field ?f @ c"
      "f1 = take k fs" "b = (if k < length fs then enc_field (fs ! k) else [])"
    unfolding k_def by (rule put_split)
  let ?s = "s\<lparr>sq_offset := 16, sq_len := length (hdr fs)\<rparr>"
  have enter: "enter s 16 (if_hsize i) = (Inr 16, ?s)"
    using enter_ok [OF ld(1), of 16 "length (hdr fs)"] ld by simp
  have off: "offsetp (ld @ hdr fs @ body) 16 name (length fs) = Some (length (hdr f1), k)"
    using offsetp_hdr [of fs name ld body] ld f split by (simp add: field_ok_def k_def)
  have orig: "(if k = length fs then Some 0 else fieldsize (ld @ hdr fs @ body) (16 + length (hdr f1)))
      = Some (length b)"
    using field_at(3) [of fs k "16 + length (hdr f1)" ld body] ld split find_field_le [of fs name]
    by (auto simp: k_def)
  let ?i = "i\<lparr>if_fields := (if k = length fs then uadd (length fs) 1 else length fs),
              if_hsize := uaddi (length (hdr fs)) (int (length (enc_field ?f)) - int (length b))\<rparr>"
  have i': "if_fields ?i = length ?gs" "if_hsize ?i = length (hdr ?gs)"
  proof -
    have "int (length (hdr fs)) + (int (length (enc_field ?f)) - int (length b)) = int (length (hdr ?gs))"
      using split(1,2) by (simp del: length_enc_field)
    then show "if_hsize ?i = length (hdr ?gs)"
      using put_bounds(1) [OF ld(2) fits] by (simp add: uaddi_def del: length_enc_field)
    show "if_fields ?i = length ?gs"
      using put_bounds(2) [OF ld(2) fits] length_put_field [of fs name "value", folded k_def]
      by (cases "k = length fs") simp_all
  qed
  have name': "uadd (length name) 1 = length name + 1" "uadd (length value) 1 = length value + 1"
      "\<not> AUG_MAX16 < length name + 1" "\<not> AUG_MAX16 < length value + 1"
    using f by (simp_all add: field_ok_def AUG_MAX16_def)
  obtain r s' where rs: "replace mem ?s (uadd 16 (length (hdr f1))) (length b)
      (length (enc_field ?f)) = (r, s')"
    by force
  have region: "if ok then r = Inr (16 + length (hdr f1))
        \<and> sq_addr s' = Some ((ld @ hdr f1) @ resized (length (enc_field ?f)) b (c @ body) @ c @ body)
        \<and> mar_rep (s'\<lparr>sq_addr := Some ((ld @ hdr f1) @ enc_field ?f @ c @ body)\<rparr>) ?i ?gs body
      else r = Inl NoMem \<and> s' = ?s\<lparr>sq_offset := 16 + length (hdr f1), sq_len := length b\<rparr>"
  proof -
    have "ok \<longleftrightarrow> mem \<or> length (enc_field ?f) \<le> length b"
      using split(4) by (simp add: ok_def)
    moreover have "length ld + length (hdr fs) + length body < 2 ^ 32" "list_all field_ok ?gs"
      using ld f by (simp_all add: list_all_put)
    ultimately show ?thesis
      using put_region [of ?s ld fs body i ?gs f1 b c ?f ?i mem] ld(1-3,7) split(1,2) fits i' rs
      by (simp only: AUG_LEADERSIZE_def) (simp del: length_enc_field)
  qed
  have unfolded: "aug_putfieldp mem s i (Some name) value =
      (case (r, s') of
         (Inl e, s) \<Rightarrow> (Inl e, s, i)
       | (Inr p, s) \<Rightarrow>
           (case pokes s [(p, enc16 (of_nat (length name + 1))), (p + 4, name @ [0]),
                          (p + 2, enc16 (of_nat (length value + 1))),
                          (p + AUG_VALUEOFF (length name + 1), value),
                          (p + AUG_VALUEOFF (length name + 1) + length value, [0])] of
              (Inl e, s) \<Rightarrow> (Inl e, s, i) | (Inr _, s) \<Rightarrow> (Inr k, s, ?i)))"
  proof -
    have "do { (off, inout) \<leftarrow> offsetp (ld @ hdr fs @ body) 16 name (length fs);
               orig \<leftarrow> (if inout = length fs then Some 0 else fieldsize (ld @ hdr fs @ body) (16 + off));
               Some (off, inout, orig) } = Some (length (hdr f1), k, length b)"
      using off orig by simp
    then show ?thesis
      using FIELDSIZE_field [OF f]
      by (simp add: aug_putfieldp_def AUG_LEADERSIZE_def Let_def enter [unfolded ld] ld(1,5,6) rs name'
          slice_def del: length_enc_field One_nat_def split del: if_split cong: if_cong
          cong del: sum.case_cong_weak prod.case_cong_weak)
  qed
  show ?thesis
  proof (cases ok)
    case True
    then have r: "r = Inr (length (ld @ hdr f1))" "sq_addr s'
          = Some ((ld @ hdr f1) @ resized (length (enc_field ?f)) b (c @ body) @ c @ body)"
        "mar_rep (s'\<lparr>sq_addr := Some ((ld @ hdr f1) @ enc_field ?f @ c @ body)\<rparr>) ?i ?gs body"
      using region ld by simp_all
    show ?thesis
      using pokes_field [OF r(2) length_resized] True r(3)
      unfolding unfolded r(1) abs_outcome_def by (simp split del: if_split)
  next
    case False
    with region show ?thesis
      unfolding unfolded abs_outcome_def by (simp add: mar_rep_region rep)
  qed
qed


lemma take_enc_field:
  "take (4 + (length (fst f) + 1)) (resized (length (enc_field f)) (enc_field (fst f, v)) c)
   = take (4 + (length (fst f) + 1)) (enc_field (fst f, v))"
  by (rule take_resized) simp_all

lemma take_enc_field':
  "take 2 (enc_field (a, v)) = enc16 (of_nat (length a + 1))"
  "take (length a + 1) (drop 4 (enc_field (a, v))) = a @ [0]"
  by (simp_all add: enc_field_def)

lemma putfieldn_rep:
  fixes mem :: bool
  assumes rep: "mar_rep s i fs body" and n: "n < length fs" and v: "length value < AUG_MAX16"
  defines "f \<equiv> (fst (fs ! n), value)"
  assumes fits: "16 + length (hdr (fs[n := f])) + length body < 2 ^ 32"
  defines "ok \<equiv> mem \<or> length (enc_field f) \<le> length (enc_field (fs ! n))"
  shows "abs_outcome i (aug_putfieldn mem s i n value)
    (if ok then Inr () else Inl NoMem) (if ok then fs[n := f] else fs) body"
proof -
  obtain ld where ld: "sq_addr s = Some (ld @ hdr fs @ body)" "length ld = 16" "take 4 ld = AUG_MAGIC"
      "length ld + length (hdr fs) + length body < 2 ^ 32" "if_fields i = length fs"
      "if_hsize i = length (hdr fs)" "if_bsize i = length body" "list_all field_ok fs"
    using rep by (rule mar_repE)
  let ?gs = "fs[n := f]"
  let ?f1 = "take n fs" and ?b = "enc_field (fs ! n)" and ?c = "hdr (drop (Suc n) fs)"
  have split: "hdr fs = hdr ?f1 @ ?b @ ?c" "hdr ?gs = hdr ?f1 @ enc_field f @ ?c"
    using n by (simp_all add: hdr_split hdr_update)
  have f: "field_ok f" and fn: "field_ok (fs ! n)"
    using ld(8) n v by (auto simp: f_def field_ok_def list_all_length)
  let ?s = "s\<lparr>sq_offset := 16, sq_len := length (hdr fs)\<rparr>"
  have enter: "enter s 16 (if_hsize i) = (Inr 16, ?s)"
    using enter_ok [OF ld(1), of 16 "length (hdr fs)"] ld by simp
  let ?off = "length (hdr ?f1)"
  have read: "do { off \<leftarrow> offsetn (ld @ hdr fs @ body) 16 n;
                   ns \<leftarrow> nsize (ld @ hdr fs @ body) (16 + off);
                   orig \<leftarrow> vsize (ld @ hdr fs @ body) (16 + off);
                   Some (off, ns, orig) }
      = Some (?off, length (fst f) + 1, length (snd (fs ! n)) + 1)"
    using offsetn_hdr [of fs n ld body] field_at(1,2) [of fs n "16 + ?off" ld body] ld n
    by (simp add: f_def)
  have sizes: "AUG_FIELDSIZE (length (fst f) + 1) (length (snd (fs ! n)) + 1) = length ?b"
      "AUG_FIELDSIZE (length (fst f) + 1) (length value + 1) = length (enc_field f)"
      "uadd (length value) 1 = length value + 1" "\<not> AUG_MAX16 < length value + 1"
    using FIELDSIZE_field [OF f] FIELDSIZE_field [OF fn] v by (simp_all add: f_def AUG_MAX16_def)
  let ?i = "i\<lparr>if_hsize := uaddi (length (hdr fs)) (int (length value + 1) - int (length (snd (fs ! n)) + 1))\<rparr>"
  have i': "if_fields ?i = length ?gs" "if_hsize ?i = length (hdr ?gs)"
  proof -
    have "int (length (hdr fs)) + (int (length value + 1) - int (length (snd (fs ! n)) + 1))
        = int (length (hdr ?gs))"
      using split by (simp add: f_def)
    then show "if_hsize ?i = length (hdr ?gs)"
      using put_bounds(1) [OF ld(2) fits] by (simp add: uaddi_def)
  qed (simp add: ld)
  obtain r s' where rs: "replace mem ?s (uadd 16 ?off) (length ?b) (length (enc_field f)) = (r, s')"
    by force
  have region: "if ok then r = Inr (16 + ?off)
        \<and> sq_addr s' = Some ((ld @ hdr ?f1) @ resized (length (enc_field f)) ?b (?c @ body) @ ?c @ body)
        \<and> mar_rep (s'\<lparr>sq_addr := Some ((ld @ hdr ?f1) @ enc_field f @ ?c @ body)\<rparr>) ?i ?gs body
      else r = Inl NoMem \<and> s' = ?s\<lparr>sq_offset := 16 + ?off, sq_len := length ?b\<rparr>"
  proof -
    have "length ld + length (hdr fs) + length body < 2 ^ 32" "list_all field_ok ?gs"
      using ld f by (simp_all add: list_all_update)
    then show ?thesis
      using put_region [of ?s ld fs body i ?gs ?f1 ?b ?c f ?i mem] ld(1-3,7) split fits i' rs
      by (simp only: AUG_LEADERSIZE_def ok_def) (simp del: length_enc_field)
  qed
  have unfolded: "aug_putfieldn mem s i n value =
      (case (r, s') of
         (Inl e, s) \<Rightarrow> (Inl e, s, i)
       | (Inr p, s) \<Rightarrow>
           (case pokes s [(p + 2, enc16 (of_nat (length value + 1))),
                          (p + AUG_VALUEOFF (length (fst f) + 1), value),
                          (p + AUG_VALUEOFF (length (fst f) + 1) + length value, [0])] of
              (Inl e, s) \<Rightarrow> (Inl e, s, i) | (Inr _, s) \<Rightarrow> (Inr (), s, ?i)))"
    using sizes(1,2) read n
    by (simp add: aug_putfieldn_def AUG_LEADERSIZE_def Let_def enter [unfolded ld] ld(1,5,6) rs sizes
        not_le del: length_enc_field One_nat_def split del: if_split cong: if_cong
        cong del: sum.case_cong_weak prod.case_cong_weak option.case_cong_weak)
  show ?thesis
  proof (cases ok)
    case True
    then have r: "r = Inr (length (ld @ hdr ?f1))" "sq_addr s'
          = Some ((ld @ hdr ?f1) @ resized (length (enc_field f)) ?b (?c @ body) @ ?c @ body)"
        "mar_rep (s'\<lparr>sq_addr := Some ((ld @ hdr ?f1) @ enc_field f @ ?c @ body)\<rparr>) ?i ?gs body"
      using region ld by simp_all
    have b: "?b = enc_field (fst f, snd (fs ! n))"
      by (simp add: f_def)
    have "pokes s' [(length (ld @ hdr ?f1) + 2, enc16 (of_nat (length (snd f) + 1))),
          (length (ld @ hdr ?f1) + AUG_VALUEOFF (length (fst f) + 1), snd f),
          (length (ld @ hdr ?f1) + AUG_VALUEOFF (length (fst f) + 1) + length (snd f), [0])]
        = (Inr (), s'\<lparr>sq_addr := Some ((ld @ hdr ?f1) @ enc_field f @ ?c @ body)\<rparr>)"
      by (rule pokes_value [OF r(2) length_resized]) (simp only: b take_enc_field)
    then show ?thesis
      using True r(3) unfolding unfolded r(1) abs_outcome_def by (simp add: f_def)
  next
    case False
    with region show ?thesis
      unfolding unfolded abs_outcome_def by (simp add: mar_rep_region rep)
  qed
qed

text \<open>The limits and the missing field, at which the sequence is left alone.\<close>

lemma putfieldp_limits:
  "aug_putfieldp mem s i None v = (Inl (ExError ENULL), s, i)"
  "AUG_MAX16 \<le> length name \<Longrightarrow> length name < 2 ^ 32 - 1 \<Longrightarrow>
   aug_putfieldp mem s i (Some name) v = (Inl (ExError ELIMIT), s, i)"
  "AUG_MAX16 \<le> length v \<Longrightarrow> length v < 2 ^ 32 - 1 \<Longrightarrow>
   aug_putfieldp mem s i (Some name) v = (Inl (ExError ELIMIT), s, i)"
  by (simp_all add: aug_putfieldp_def Let_def)

lemma putfieldn_limits:
  "n < if_fields i \<Longrightarrow> AUG_MAX16 \<le> length v \<Longrightarrow> length v < 2 ^ 32 - 1 \<Longrightarrow>
   aug_putfieldn mem s i n v = (Inl (ExError ELIMIT), s, i)"
  "if_fields i \<le> n \<Longrightarrow> aug_putfieldn mem s i n v = (Inl ExNone, s, i)"
  by (simp_all add: aug_putfieldn_def Let_def)


section \<open>Refinement of the readers\<close>

text \<open>A reader may move the region, and nothing else.\<close>

definition same_mem :: "seq \<Rightarrow> seq \<Rightarrow> bool" where
  "same_mem s s' \<longleftrightarrow> sq_addr s' = sq_addr s"

lemma same_mem_rep: "same_mem s s' \<Longrightarrow> mar_rep s' i fs body \<longleftrightarrow> mar_rep s i fs body"
  by (simp add: same_mem_def mar_rep_def)

text \<open>The bytes an address and a size stand for.\<close>

definition bytes_at :: "seq \<Rightarrow> nat \<Rightarrow> nat \<Rightarrow> byte list" where
  "bytes_at s p n = slice p n (the (sq_addr s))"

lemma enter_rep:
  assumes "mar_rep s i fs body"
  obtains ld s1 where "enter s AUG_LEADERSIZE (if_hsize i) = (Inr (length ld), s1)"
    "sq_addr s1 = Some (ld @ hdr fs @ body)" "sq_addr s = Some (ld @ hdr fs @ body)" "if_fields i = length fs"
    "list_all field_ok fs"
proof -
  obtain ld where ld: "sq_addr s = Some (ld @ hdr fs @ body)" "length ld = 16" "take 4 ld = AUG_MAGIC"
      "length ld + length (hdr fs) + length body < 2 ^ 32" "if_fields i = length fs"
      "if_hsize i = length (hdr fs)" "if_bsize i = length body" "list_all field_ok fs"
    using assms by (rule mar_repE)
  show thesis
    by (rule that [of ld "s\<lparr>sq_offset := 16, sq_len := length (hdr fs)\<rparr>"])
       (use ld enter_ok [OF ld(1), of 16 "length (hdr fs)"] in \<open>simp_all add: AUG_LEADERSIZE_def same_mem_def\<close>)
qed

lemma getfieldn_rep:
  assumes rep: "mar_rep s i fs body"
  shows "case aug_getfieldn s i n of (r, s') \<Rightarrow> same_mem s s' \<and>
    (if n < length fs
     then \<exists>p. r = Inr (int (length (snd (fs ! n))), Some p)
            \<and> bytes_at s' p (length (snd (fs ! n))) = snd (fs ! n)
     else r = Inr (0, None))"
proof -
  obtain ld s1 where s1: "enter s AUG_LEADERSIZE (if_hsize i) = (Inr (length ld), s1)"
    "sq_addr s1 = Some (ld @ hdr fs @ body)" "sq_addr s = Some (ld @ hdr fs @ body)" "if_fields i = length fs"
    "list_all field_ok fs"
    using rep by (rule enter_rep)
  show ?thesis
    using s1 offsetn_hdr [of fs n ld body] field_at [of fs n "length ld + length (hdr (take n fs))" ld body]
    by (auto simp: aug_getfieldn_def Let_def same_mem_def bytes_at_def not_le)
qed

lemma getfield_rep:
  assumes rep: "mar_rep s i fs body"
  shows "case aug_getfield s i n of (r, s') \<Rightarrow> same_mem s s' \<and>
    (if n < length fs
     then \<exists>p q. r = Inr (Some p, Some q, length (snd (fs ! n)))
            \<and> bytes_at s' p (length (fst (fs ! n)) + 1) = fst (fs ! n) @ [0]
            \<and> bytes_at s' q (length (snd (fs ! n))) = snd (fs ! n)
     else r = Inr (None, None, 0))"
proof -
  obtain ld s1 where s1: "enter s AUG_LEADERSIZE (if_hsize i) = (Inr (length ld), s1)"
    "sq_addr s1 = Some (ld @ hdr fs @ body)" "sq_addr s = Some (ld @ hdr fs @ body)" "if_fields i = length fs"
    "list_all field_ok fs"
    using rep by (rule enter_rep)
  have "usub (length (snd (fs ! n)) + 1) 1 = length (snd (fs ! n))" if "n < length fs"
  proof -
    have "length (snd (fs ! n)) < 65535"
      using that s1(5) by (simp add: list_all_length field_ok_def AUG_MAX16_def)
    then show ?thesis by simp
  qed
  then show ?thesis
    using s1 offsetn_hdr [of fs n ld body] field_at [of fs n "length ld + length (hdr (take n fs))" ld body]
    by (auto simp: aug_getfield_def Let_def same_mem_def bytes_at_def not_le)
qed

lemma getfieldp_rep:
  assumes rep: "mar_rep s i fs body" and name: "cstring name"
  defines "k \<equiv> find_field fs name"
  shows "case aug_getfieldp s i name of (r, s') \<Rightarrow> same_mem s s' \<and>
    (if k < length fs
     then \<exists>p. r = Inr (int (length (snd (fs ! k))), Some p)
            \<and> bytes_at s' p (length (snd (fs ! k))) = snd (fs ! k)
     else r = Inr (0, None))"
proof -
  obtain ld s1 where s1: "enter s AUG_LEADERSIZE (if_hsize i) = (Inr (length ld), s1)"
    "sq_addr s1 = Some (ld @ hdr fs @ body)" "sq_addr s = Some (ld @ hdr fs @ body)" "if_fields i = length fs"
    "list_all field_ok fs"
    using rep by (rule enter_rep)
  show ?thesis
    using s1 offsetp_hdr [OF s1(5) name, of ld body] find_field_le [of fs name]
      field_at [of fs k "length ld + length (hdr (take k fs))" ld body]
    by (auto simp: aug_getfieldp_def Let_def same_mem_def bytes_at_def simp flip: k_def)
qed

lemma fieldntop_rep:
  assumes rep: "mar_rep s i fs body"
  shows "case aug_fieldntop s i n of (r, s') \<Rightarrow> same_mem s s' \<and>
    (if n < length fs
     then \<exists>p. r = Inr p \<and> bytes_at s' p (length (fst (fs ! n)) + 1) = fst (fs ! n) @ [0]
     else r = Inl ExNone)"
proof -
  obtain ld s1 where s1: "enter s AUG_LEADERSIZE (if_hsize i) = (Inr (length ld), s1)"
    "sq_addr s1 = Some (ld @ hdr fs @ body)" "sq_addr s = Some (ld @ hdr fs @ body)" "if_fields i = length fs"
    "list_all field_ok fs"
    using rep by (rule enter_rep)
  show ?thesis
    using s1 offsetn_hdr [of fs n ld body] field_at(5) [of fs n "length ld + length (hdr (take n fs))" ld body]
    by (auto simp: aug_fieldntop_def Let_def same_mem_def bytes_at_def not_le)
qed

lemma fieldpton_rep:
  assumes rep: "mar_rep s i fs body" and name: "cstring name"
  shows "case aug_fieldpton s i name of (r, s') \<Rightarrow> same_mem s s' \<and>
    r = (if find_field fs name < length fs then Inr (find_field fs name) else Inl ExNone)"
proof -
  obtain ld s1 where s1: "enter s AUG_LEADERSIZE (if_hsize i) = (Inr (length ld), s1)"
    "sq_addr s1 = Some (ld @ hdr fs @ body)" "sq_addr s = Some (ld @ hdr fs @ body)" "if_fields i = length fs"
    "list_all field_ok fs"
    using rep by (rule enter_rep)
  show ?thesis
    using s1 offsetp_hdr [OF s1(5) name, of ld body] find_field_le [of fs name]
    by (auto simp: aug_fieldpton_def Let_def same_mem_def)
qed

section \<open>The leader\<close>

lemma length_leader [simp]: "length (leader i) = 16"
  by (simp add: leader_def AUG_MAGIC_def str_def)

lemma take_leader [simp]: "take 4 (leader i) = AUG_MAGIC"
  by (simp add: leader_def AUG_MAGIC_def str_def)

lemma setinfo_mem:
  assumes "sq_addr s = Some (ld @ m)" "length ld = 16" "16 + length m < 2 ^ 32"
  shows "aug_setinfo s i = (Inr (), \<lparr>sq_offset = 0, sq_len = 16, sq_addr = Some (leader i @ m)\<rparr>)"
proof -
  have "length ld = 4 + (2 + (2 + (4 + 4)))"
    using assms(2) by simp
  then obtain x1 x2 x3 x4 x5 where "ld = x1 @ x2 @ x3 @ x4 @ x5" "length x1 = 4" "length x2 = 2"
      "length x3 = 2" "length x4 = 4" "length x5 = 4"
    by (rule split5)
  moreover have "length AUG_MAGIC = 4"
    by (simp add: AUG_MAGIC_def str_def)
  ultimately show ?thesis
    using assms setregion_ok [OF assms(1), of 0 16]
    by (simp add: aug_setinfo_def AUG_LEADERSIZE_def AUG_PROTOOFF_def AUG_FIELDSOFF_def AUG_HSIZEOFF_def
        AUG_BSIZEOFF_def leader_def pokeseq_ok poke_append_skip poke_here)
qed

definition info_ok :: "info \<Rightarrow> bool" where
  "info_ok i \<longleftrightarrow> if_proto i < 65536 \<and> if_fields i < 65536 \<and> if_hsize i < 2 ^ 32 \<and> if_bsize i < 2 ^ 32"

lemma info_leader:
  assumes "sq_addr s = Some (leader i @ m)" "16 + length m < 2 ^ 32" "info_ok i"
  shows "aug_info s = (Inr i, s\<lparr>sq_offset := 0, sq_len := 16\<rparr>)"
proof -
  have magic: "length AUG_MAGIC = 4"
    by (simp add: AUG_MAGIC_def str_def)
  have "rd16 (leader i @ m) 4 = Some (if_proto i)" "rd16 (leader i @ m) 6 = Some (if_fields i)"
    "rd32 (leader i @ m) 8 = Some (if_hsize i)" "rd32 (leader i @ m) 12 = Some (if_bsize i)"
    using assms(3) magic
    by (simp_all add: rd16_def rd32_def leader_def slice_append_skip slice_append_mid
        unat_of_nat16 unat_of_nat32 info_ok_def slice_def)
  moreover have "slice 0 4 (leader i @ m) = AUG_MAGIC"
    by (simp add: slice_def)
  ultimately show ?thesis
    using assms(1,2) setregion_ok [OF assms(1), of 0 16] magic
    by (simp add: aug_info_def AUG_LEADERSIZE_def AUG_PROTOOFF_def AUG_FIELDSOFF_def AUG_HSIZEOFF_def
        AUG_BSIZEOFF_def Let_def)
qed

end
