(* ===== verification/Mar.thy ===== *)
theory Mar
  imports Header
begin

text \<open>
  \<^verbatim>\<open>augmar/body_.c\<close> and \<^verbatim>\<open>augmar/mar.c\<close>: the body of an archive, and the archive object with
  its access mode, its file offset and its reference count.  \<open>mar\<close> is \<^verbatim>\<open>struct impl_\<close>.  The
  abstract archive \<open>archive\<close> is a list of fields, a body and an offset; \<open>spec\<close> says what each
  operation does to it, and \<open>exec_refines\<close> that the code does just that.
\<close>

section \<open>The body (body_.c)\<close>

definition AUG_BODY :: "nat \<Rightarrow> nat" where "AUG_BODY hsize = uadd AUG_LEADERSIZE hsize"

definition body_resize ::
  "bool \<Rightarrow> seq \<Rightarrow> info \<Rightarrow> nat \<Rightarrow> bool \<Rightarrow> (aug_fail + nat) \<times> seq \<times> info" where
  "body_resize mem s i bsize trunc =
     (case aug_setregion s (AUG_BODY (if_hsize i)) (if_bsize i) of
        (Inl e, s) \<Rightarrow> (Inl e, s, i)
      | (Inr _, s) \<Rightarrow>
          if if_bsize i = bsize \<or> (if_bsize i > bsize \<and> \<not> trunc) then (aug_seqaddr s, s, i)
          else
            (case aug_resizeseq mem s bsize of
               (Inl e, s) \<Rightarrow> (Inl e, s, i)
             | (Inr addr, s) \<Rightarrow>
                 if if_bsize i < bsize then
                   (case pokeseq s (addr + if_bsize i) (replicate (bsize - if_bsize i) 0) of
                      (Inl e, s) \<Rightarrow> (Inl e, s, i)
                    | (Inr _, s) \<Rightarrow> (Inr addr, s, i\<lparr>if_bsize := bsize\<rparr>))
                 else (Inr addr, s, i\<lparr>if_bsize := bsize\<rparr>)))"

definition aug_setcontent ::
  "bool \<Rightarrow> seq \<Rightarrow> info \<Rightarrow> byte list \<Rightarrow> (aug_fail + unit) \<times> seq \<times> info" where
  "aug_setcontent mem s i data =
     (case body_resize mem s i (length data) True of
        (Inl e, s, i) \<Rightarrow> (Inl e, s, i)
      | (Inr addr, s, i) \<Rightarrow>
          (case pokeseq s addr data of (Inl e, s) \<Rightarrow> (Inl e, s, i) | (Inr _, s) \<Rightarrow> (Inr (), s, i)))"

definition aug_truncate ::
  "bool \<Rightarrow> seq \<Rightarrow> info \<Rightarrow> nat \<Rightarrow> (aug_fail + unit) \<times> seq \<times> info" where
  "aug_truncate mem s i sz =
     (case body_resize mem s i sz True of
        (Inl e, s, i) \<Rightarrow> (Inl e, s, i)
      | (Inr _, s, i) \<Rightarrow> (Inr (), s, i))"

definition aug_write ::
  "bool \<Rightarrow> seq \<Rightarrow> info \<Rightarrow> nat \<Rightarrow> byte list \<Rightarrow> (aug_fail + nat) \<times> seq \<times> info" where
  "aug_write mem s i offset buf =
     (case body_resize mem s i (uadd offset (length buf)) False of
        (Inl e, s, i) \<Rightarrow> (Inl e, s, i)
      | (Inr addr, s, i) \<Rightarrow>
          (case pokeseq s (addr + offset) buf of
             (Inl e, s) \<Rightarrow> (Inl e, s, i)
           | (Inr _, s) \<Rightarrow> (Inr (length buf), s, i)))"

definition aug_getcontent :: "seq \<Rightarrow> info \<Rightarrow> (aug_fail + nat) \<times> seq" where
  "aug_getcontent s i = enter s (AUG_BODY (if_hsize i)) (if_bsize i)"

text \<open>The bytes read are returned; the code stores them in \<^verbatim>\<open>buf\<close> and returns their number.\<close>

definition aug_read :: "seq \<Rightarrow> info \<Rightarrow> nat \<Rightarrow> nat \<Rightarrow> (aug_fail + byte list) \<times> seq" where
  "aug_read s i offset len =
     (if len = 0 \<or> if_bsize i \<le> offset then (Inr [], s)
      else
        let bsize = if_bsize i - offset;
            len = (if bsize < len then bsize else len) in
        case aug_getcontent s i of
          (Inl e, s) \<Rightarrow> (Inl e, s)
        | (Inr addr, s) \<Rightarrow> (Inr (bytes_at s (addr + offset) len), s))"

section \<open>The archive object (mar.c)\<close>

record mar =
  mr_refs :: nat
  mr_seq :: seq
  mr_info :: info
  mr_flags :: "32 word"
  mr_offset :: nat

text \<open>The open flags of \<^verbatim>\<open>augmar/types.h\<close> are those of \<^verbatim>\<open>fcntl.h\<close>; the values are Linux's.\<close>

definition AUG_RDONLY :: "32 word" where "AUG_RDONLY = 0"
definition AUG_WRONLY :: "32 word" where "AUG_WRONLY = 1"
definition AUG_RDWR :: "32 word" where "AUG_RDWR = 2"
definition AUG_APPEND :: "32 word" where "AUG_APPEND = 0x400"
definition AUG_TRUNC :: "32 word" where "AUG_TRUNC = 0x200"

definition MAR_READ :: "32 word" where "MAR_READ = 1"
definition MAR_WRITE :: "32 word" where "MAR_WRITE = 2"

definition torw :: "32 word \<Rightarrow> 32 word" where
  "torw from' =
     (let k = from' AND (AUG_RDONLY OR AUG_WRONLY OR AUG_RDWR) in
      if k = AUG_RDONLY then MAR_READ
      else if k = AUG_WRONLY then MAR_WRITE
      else if k = AUG_RDWR then MAR_READ OR MAR_WRITE
      else 0)"

definition READABLE :: "mar \<Rightarrow> bool" where
  "READABLE m \<longleftrightarrow> torw (mr_flags m) AND MAR_READ \<noteq> 0"

definition WRITABLE :: "mar \<Rightarrow> bool" where
  "WRITABLE m \<longleftrightarrow> torw (mr_flags m) AND MAR_WRITE \<noteq> 0"

definition init :: "bool \<Rightarrow> seq \<Rightarrow> (aug_fail + info) \<times> seq" where
  "init mem s =
     (let sz = aug_seqsize s in
      if AUG_LEADERSIZE \<le> sz then
        (case aug_info s of
           (Inl e, s) \<Rightarrow> (Inl e, s)
         | (Inr i, s) \<Rightarrow> if if_proto i \<noteq> 3 then (Inl (ExError EINVAL), s) else (Inr i, s))
      else
        (case replace mem s 0 sz AUG_LEADERSIZE of
           (Inl e, s) \<Rightarrow> (Inl e, s)
         | (Inr p, s) \<Rightarrow>
             (case pokes s [(p, AUG_MAGIC),
                            (p + AUG_PROTOOFF, enc16 3),
                            (p + AUG_FIELDSOFF, enc16 0),
                            (p + AUG_HSIZEOFF, enc32 0),
                            (p + AUG_BSIZEOFF, enc32 0)] of
                (Inl e, s) \<Rightarrow> (Inl e, s)
              | (Inr _, s) \<Rightarrow>
                  (Inr \<lparr>if_proto = 3, if_fields = 0, if_hsize = 0, if_bsize = 0\<rparr>, s))))"

text \<open>What the guards do: fail with \<^verbatim>\<open>AUG_EINVAL\<close>, or run on the sequence and the counts.\<close>

definition writing :: "mar \<Rightarrow> (seq \<Rightarrow> info \<Rightarrow> (aug_fail + 'a) \<times> seq \<times> info) \<Rightarrow> (aug_fail + 'a) \<times> mar" where
  "writing m f =
     (if \<not> WRITABLE m then (Inl (ExError EINVAL), m)
      else case f (mr_seq m) (mr_info m) of
             (r, s, i) \<Rightarrow> (r, m\<lparr>mr_seq := s, mr_info := i\<rparr>))"

definition reading :: "mar \<Rightarrow> (seq \<Rightarrow> info \<Rightarrow> (aug_fail + 'a) \<times> seq) \<Rightarrow> (aug_fail + 'a) \<times> mar" where
  "reading m f =
     (if \<not> READABLE m then (Inl (ExError EINVAL), m)
      else case f (mr_seq m) (mr_info m) of (r, s) \<Rightarrow> (r, m\<lparr>mr_seq := s\<rparr>))"

definition compact :: "mar \<Rightarrow> (aug_fail + unit) \<times> mar" where
  "compact m = (if \<not> WRITABLE m then Inl (ExError EINVAL) else Inr (), m)"

definition clear_BIN :: "bool \<Rightarrow> mar \<Rightarrow> (aug_fail + nat) \<times> mar" where
  "clear_BIN mem m = writing m (aug_clearfields mem)"

definition deln_BIN :: "bool \<Rightarrow> mar \<Rightarrow> nat \<Rightarrow> (aug_fail + unit) \<times> mar" where
  "deln_BIN mem m n = writing m (\<lambda>s i. aug_delfieldn mem s i n)"

definition delp_BIN :: "bool \<Rightarrow> mar \<Rightarrow> byte list \<Rightarrow> (aug_fail + nat) \<times> mar" where
  "delp_BIN mem m name = writing m (\<lambda>s i. aug_delfieldp mem s i name)"

definition getn :: "mar \<Rightarrow> nat \<Rightarrow> (aug_fail + int \<times> nat option) \<times> mar" where
  "getn m n = reading m (\<lambda>s i. aug_getfieldn s i n)"

definition getp :: "mar \<Rightarrow> byte list \<Rightarrow> (aug_fail + int \<times> nat option) \<times> mar" where
  "getp m name = reading m (\<lambda>s i. aug_getfieldp s i name)"

definition get :: "mar \<Rightarrow> nat \<Rightarrow> (aug_fail + nat option \<times> nat option \<times> nat) \<times> mar" where
  "get m n = reading m (\<lambda>s i. aug_getfield s i n)"

definition putn_BIN :: "bool \<Rightarrow> mar \<Rightarrow> nat \<Rightarrow> byte list \<Rightarrow> (aug_fail + unit) \<times> mar" where
  "putn_BIN mem m n v = writing m (\<lambda>s i. aug_putfieldn mem s i n v)"

definition putp_BIN :: "bool \<Rightarrow> mar \<Rightarrow> byte list option \<Rightarrow> byte list \<Rightarrow> (aug_fail + nat) \<times> mar" where
  "putp_BIN mem m name v = writing m (\<lambda>s i. aug_putfieldp mem s i name v)"

definition ntop :: "mar \<Rightarrow> nat \<Rightarrow> (aug_fail + nat) \<times> mar" where
  "ntop m n = reading m (\<lambda>s i. aug_fieldntop s i n)"

definition pton :: "mar \<Rightarrow> byte list \<Rightarrow> (aug_fail + nat) \<times> mar" where
  "pton m name = reading m (\<lambda>s i. aug_fieldpton s i name)"

definition getcount :: "mar \<Rightarrow> nat" where
  "getcount m = if_fields (mr_info m)"

definition AUG_SET :: int where "AUG_SET = 0"
definition AUG_CUR :: int where "AUG_CUR = 1"
definition AUG_END :: int where "AUG_END = 2"

text \<open>\<^verbatim>\<open>off_t\<close> is 64 bits wide; the unsigned offset keeps the low 32 of the position.\<close>

definition seek :: "mar \<Rightarrow> int \<Rightarrow> int \<Rightarrow> (aug_fail + int) \<times> mar" where
  "seek m offset whence =
     (let go = (\<lambda>local. if local < 0 then (Inl (ExError ERANGE), m)
                        else (Inr local, m\<lparr>mr_offset := nat (local mod 2 ^ 32)\<rparr>)) in
      if whence = AUG_SET then go offset
      else if whence = AUG_CUR then go (int (mr_offset m) + offset)
      else if whence = AUG_END then go (int (if_bsize (mr_info m)) + offset)
      else (Inl (ExError EINVAL), m))"

definition setcontent_BIN :: "bool \<Rightarrow> mar \<Rightarrow> byte list \<Rightarrow> (aug_fail + unit) \<times> mar" where
  "setcontent_BIN mem m data = writing m (\<lambda>s i. aug_setcontent mem s i data)"

definition truncate_BIN :: "bool \<Rightarrow> mar \<Rightarrow> nat \<Rightarrow> (aug_fail + unit) \<times> mar" where
  "truncate_BIN mem m sz = writing m (\<lambda>s i. aug_truncate mem s i sz)"

definition write_BIN :: "bool \<Rightarrow> mar \<Rightarrow> byte list \<Rightarrow> (aug_fail + nat) \<times> mar" where
  "write_BIN mem m buf =
     (if \<not> WRITABLE m then (Inl (ExError EINVAL), m)
      else
        case (if mr_flags m AND AUG_APPEND \<noteq> 0 then seek m 0 AUG_END else (Inr 0, m)) of
          (Inl e, m) \<Rightarrow> (Inl e, m)
        | (Inr _, m) \<Rightarrow>
            (case aug_write mem (mr_seq m) (mr_info m) (mr_offset m) buf of
               (Inl e, s, i) \<Rightarrow> (Inl e, m\<lparr>mr_seq := s, mr_info := i\<rparr>)
             | (Inr rsize, s, i) \<Rightarrow>
                 (Inr rsize, m\<lparr>mr_seq := s, mr_info := i,
                               mr_offset := (if 0 < rsize then uadd (mr_offset m) rsize
                                             else mr_offset m)\<rparr>)))"

definition read_mar :: "mar \<Rightarrow> nat \<Rightarrow> (aug_fail + byte list) \<times> mar" where
  "read_mar m len =
     (if \<not> READABLE m then (Inl (ExError EINVAL), m)
      else case aug_read (mr_seq m) (mr_info m) (mr_offset m) len of
             (Inl e, s) \<Rightarrow> (Inl e, m\<lparr>mr_seq := s\<rparr>)
           | (Inr bs, s) \<Rightarrow>
               (Inr bs, m\<lparr>mr_seq := s,
                          mr_offset := (if 0 < length bs then uadd (mr_offset m) (length bs)
                                        else mr_offset m)\<rparr>))"

text \<open>
  The blob interface: the content as an address and a size, and the type, \<open>None\<close> standing
  for the literal \<^verbatim>\<open>application/octet-stream\<close>.
\<close>

definition getdata :: "mar \<Rightarrow> (aug_fail + nat \<times> nat) \<times> mar" where
  "getdata m =
     reading m (\<lambda>s i. case aug_getcontent s i of
                         (Inl e, s) \<Rightarrow> (Inl e, s) | (Inr p, s) \<Rightarrow> (Inr (p, if_bsize i), s))"

definition getsize :: "mar \<Rightarrow> nat" where
  "getsize m = if_bsize (mr_info m)"

definition gettype :: "mar \<Rightarrow> nat option \<times> mar" where
  "gettype m =
     (case aug_getfieldp (mr_seq m) (mr_info m) (str ''Content-Type'') of
        (Inl e, s) \<Rightarrow> (None, m\<lparr>mr_seq := s\<rparr>)
      | (Inr (sz, v), s) \<Rightarrow> (if sz < 0 then None else v, m\<lparr>mr_seq := s\<rparr>))"

section \<open>Life cycle (mar.c)\<close>

definition destroy :: "mar \<Rightarrow> seq" where
  "destroy m =
     (if WRITABLE m then
        (case aug_info (mr_seq m) of
           (Inl e, s) \<Rightarrow> s
         | (Inr l, s) \<Rightarrow> if l \<noteq> mr_info m then snd (aug_setinfo s (mr_info m)) else s)
      else mr_seq m)"

definition retain :: "mar \<Rightarrow> mar" where
  "retain m = m\<lparr>mr_refs := mr_refs m + 1\<rparr>"

text \<open>The last release leaves the sequence, as a file would keep it.\<close>

definition release :: "mar \<Rightarrow> mar + seq" where
  "release m =
     (let m = m\<lparr>mr_refs := mr_refs m - 1\<rparr> in
      if mr_refs m = 0 then Inr (destroy m) else Inl m)"

definition aug_createmar :: "bool \<Rightarrow> bool \<Rightarrow> aug_fail + mar" where
  "aug_createmar seq_mem mem =
     (if \<not> seq_mem then Inl NoMem
      else case init mem aug_createseq of
             (Inl e, s) \<Rightarrow> Inl e
           | (Inr i, s) \<Rightarrow>
               Inr \<lparr>mr_refs = 1, mr_seq = s, mr_info = i, mr_flags = AUG_RDWR, mr_offset = 0\<rparr>)"

text \<open>\<^verbatim>\<open>aug_openmar_BIN\<close>, given the sequence \<^verbatim>\<open>aug_openseq_IN_\<close> opened.\<close>

definition aug_openmar :: "bool \<Rightarrow> seq \<Rightarrow> 32 word \<Rightarrow> aug_fail + mar" where
  "aug_openmar mem s flags =
     (case init mem s of
        (Inl e, s) \<Rightarrow> Inl e
      | (Inr i, s) \<Rightarrow>
          let m = \<lparr>mr_refs = 1, mr_seq = s, mr_info = i, mr_flags = flags, mr_offset = 0\<rparr> in
          if flags AND AUG_TRUNC \<noteq> 0 then
            (case truncate_BIN mem m 0 of (Inl e, m) \<Rightarrow> Inl e | (Inr _, m) \<Rightarrow> Inr m)
          else Inr m)"


section \<open>The body refined\<close>

text \<open>A write at \<open>off\<close> pads the body with zeros up to the offset.\<close>

definition write_body :: "byte list \<Rightarrow> nat \<Rightarrow> byte list \<Rightarrow> byte list" where
  "write_body body off buf = poke (body @ replicate (off + length buf - length body) 0) off buf"

lemma length_write_body [simp]: "length (write_body body off buf) = max (length body) (off + length buf)"
  by (auto simp: write_body_def)

lemma read_write_body: "slice off (length buf) (write_body body off buf) = buf"
  unfolding write_body_def by (rule slice_poke_same) simp

lemma read_write_outside:
  "q + n \<le> off \<or> off + length buf \<le> q \<Longrightarrow> q + n \<le> length body \<Longrightarrow>
   slice q n (write_body body off buf) = slice q n body"
  unfolding write_body_def
  by (elim disjE) (simp_all add: slice_poke_before slice_poke_after slice_append_within)

lemma enter_body:
  assumes "mar_rep s i fs body"
  obtains ld where "sq_addr s = Some ((ld @ hdr fs) @ body)" "length ld = 16" "take 4 ld = AUG_MAGIC"
    "length (ld @ hdr fs) + length body < 2 ^ 32"
    "if_fields i = length fs" "if_hsize i = length (hdr fs)" "if_bsize i = length body"
    "list_all field_ok fs"
    "AUG_BODY (if_hsize i) = length (ld @ hdr fs)"
    "aug_setregion s (length (ld @ hdr fs)) (length body)
      = (Inr (), s\<lparr>sq_offset := length (ld @ hdr fs), sq_len := length body\<rparr>)"
proof -
  obtain ld where ld: "sq_addr s = Some (ld @ hdr fs @ body)" "length ld = 16" "take 4 ld = AUG_MAGIC"
      "length ld + length (hdr fs) + length body < 2 ^ 32" "if_fields i = length fs"
      "if_hsize i = length (hdr fs)" "if_bsize i = length body" "list_all field_ok fs"
    using assms by (rule mar_repE)
  show thesis
    by (rule that [of ld])
       (use ld in \<open>simp_all add: AUG_BODY_def AUG_LEADERSIZE_def setregion_ok\<close>)
qed

text \<open>What \<open>body_resize\<close> leaves: the body cut or padded, unless it may stay as it is.\<close>

definition resized_body :: "nat \<Rightarrow> bool \<Rightarrow> byte list \<Rightarrow> byte list" where
  "resized_body n trunc body =
     (if length body < n then body @ replicate (n - length body) 0
      else if trunc then take n body else body)"

lemma body_resize_rep:
  fixes mem :: bool
  assumes rep: "mar_rep s i fs body" and fits: "16 + length (hdr fs) + n < 2 ^ 32"
  defines "ok \<equiv> mem \<or> n \<le> length body"
  shows "case body_resize mem s i n trunc of
      (r, s', i') \<Rightarrow>
        if ok then
          r = Inr (16 + length (hdr fs)) \<and> i' = i\<lparr>if_bsize := length (resized_body n trunc body)\<rparr>
          \<and> (\<exists>ld. length ld = 16 \<and> sq_addr s' = Some ((ld @ hdr fs) @ resized_body n trunc body))
          \<and> mar_rep s' i' fs (resized_body n trunc body)
        else r = Inl NoMem \<and> i' = i \<and> mar_rep s' i' fs body"
proof -
  obtain ld where ld: "sq_addr s = Some ((ld @ hdr fs) @ body)" "length ld = 16" "take 4 ld = AUG_MAGIC"
    "length (ld @ hdr fs) + length body < 2 ^ 32"
    "if_fields i = length fs" "if_hsize i = length (hdr fs)" "if_bsize i = length body"
    "list_all field_ok fs"
    "AUG_BODY (if_hsize i) = length (ld @ hdr fs)"
    "aug_setregion s (length (ld @ hdr fs)) (length body)
      = (Inr (), s\<lparr>sq_offset := length (ld @ hdr fs), sq_len := length body\<rparr>)"
    using rep by (rule enter_body)
  let ?s = "s\<lparr>sq_offset := length (ld @ hdr fs), sq_len := length body\<rparr>"
  have resize: "aug_resizeseq mem ?s n =
    (if ok then (Inr (length (ld @ hdr fs)),
        ?s\<lparr>sq_addr := Some ((ld @ hdr fs) @ resized n body []), sq_len := n\<rparr>)
     else (Inl NoMem, ?s))"
    using resize_region [of ?s "ld @ hdr fs" body "[]" n mem] ld fits by (simp add: ok_def)
  have rep_new: "mar_rep s' (i\<lparr>if_bsize := length b\<rparr>) fs b"
    if "sq_addr s' = Some ((ld @ hdr fs) @ b)" "length b \<le> max n (length body)" for s' b
    using ld fits that by (intro mar_repI [where ld = ld]) auto
  have same: "i\<lparr>if_bsize := length body\<rparr> = i"
    using ld(7) by (cases i) simp
  note body_resize_def [simp]
  consider (keep) "n = length body \<or> n < length body \<and> \<not> trunc" | (cut) "n < length body" trunc
    | (grow) "length body < n"
    by linarith
  then show ?thesis
  proof cases
    case keep
    then have "resized_body n trunc body = body" ok
      by (auto simp: resized_body_def ok_def)
    moreover have "body_resize mem s i n trunc = (Inr (16 + length (hdr fs)), ?s, i)"
      using keep ld by auto
    ultimately show ?thesis
      using ld(1,2) rep by (auto simp: mar_rep_region same simp del: body_resize_def)
  next
    case cut
    then have "resized_body n trunc body = take n body" ok "resized n body [] = take n body"
      by (auto simp: resized_body_def ok_def resized_def)
    then show ?thesis
      using cut ld resize rep_new [of "?s\<lparr>sq_addr := Some ((ld @ hdr fs) @ take n body), sq_len := n\<rparr>" "take n body"]
      by auto
  next
    case grow
    let ?b = "body @ replicate (n - length body) 0"
    have "poke ((ld @ hdr fs) @ ?b) (length (ld @ hdr fs) + length body) (replicate (n - length body) 0)
        = (ld @ hdr fs) @ ?b"
      by (simp add: poke_def)
    moreover have "resized_body n trunc body = ?b" "resized n body [] = ?b"
      using grow by (auto simp: resized_body_def resized_def)
    ultimately show ?thesis
      using grow ld resize rep rep_new [of "?s\<lparr>sq_len := n, sq_addr := Some ((ld @ hdr fs) @ ?b)\<rparr>" ?b]
      by (auto simp: pokeseq_ok mar_rep_region)
  qed
qed


lemma mar_rep_pokeseq:
  assumes "sq_addr s = Some ((ld @ hdr fs) @ b)" "length ld = 16" "mar_rep s i fs b"
    and "off + length buf \<le> length b"
  shows "pokeseq s (16 + length (hdr fs) + off) buf
      = (Inr (), s\<lparr>sq_addr := Some ((ld @ hdr fs) @ poke b off buf)\<rparr>)"
    and "mar_rep (s\<lparr>sq_addr := Some ((ld @ hdr fs) @ poke b off buf)\<rparr>) i fs (poke b off buf)"
proof -
  show "pokeseq s (16 + length (hdr fs) + off) buf
      = (Inr (), s\<lparr>sq_addr := Some ((ld @ hdr fs) @ poke b off buf)\<rparr>)"
    using assms by (simp add: pokeseq_ok poke_append_skip)
  show "mar_rep (s\<lparr>sq_addr := Some ((ld @ hdr fs) @ poke b off buf)\<rparr>) i fs (poke b off buf)"
    using assms by (auto simp: mar_rep_def AUG_LEADERSIZE_def)
qed

lemma setcontent_rep:
  fixes mem :: bool
  assumes rep: "mar_rep s i fs body" and fits: "16 + length (hdr fs) + length data < 2 ^ 32"
  shows "abs_outcome i (aug_setcontent mem s i data)
    (if mem \<or> length data \<le> length body then Inr () else Inl NoMem)
    fs (if mem \<or> length data \<le> length body then data else body)"
proof (cases "mem \<or> length data \<le> length body")
  case True
  let ?b = "resized_body (length data) True body"
  have len: "length ?b = length data"
    by (simp add: resized_body_def)
  obtain s' ld where out: "body_resize mem s i (length data) True
      = (Inr (16 + length (hdr fs)), s', i\<lparr>if_bsize := length ?b\<rparr>)"
      "length ld = 16" "sq_addr s' = Some ((ld @ hdr fs) @ ?b)"
      "mar_rep s' (i\<lparr>if_bsize := length ?b\<rparr>) fs ?b"
    using body_resize_rep [OF rep fits, of mem True] True by (auto split: prod.splits)
  have "poke ?b 0 data = data"
    using len by (simp add: poke_def)
  then show ?thesis
    using True out mar_rep_pokeseq [OF out(3,2,4), of 0 data] len
    by (simp add: aug_setcontent_def abs_outcome_def)
next
  case False
  then show ?thesis
    using body_resize_rep [OF rep fits, of mem True]
    by (auto simp: aug_setcontent_def abs_outcome_def split: prod.splits)
qed

lemma truncate_rep:
  fixes mem :: bool
  assumes rep: "mar_rep s i fs body" and fits: "16 + length (hdr fs) + n < 2 ^ 32"
  shows "abs_outcome i (aug_truncate mem s i n)
    (if mem \<or> n \<le> length body then Inr () else Inl NoMem)
    fs (if mem \<or> n \<le> length body then resized_body n True body else body)"
  using body_resize_rep [OF rep fits, of mem True]
  by (auto simp: aug_truncate_def abs_outcome_def split: prod.splits if_splits)

lemma write_rep:
  fixes mem :: bool
  assumes rep: "mar_rep s i fs body" and fits: "16 + length (hdr fs) + (off + length buf) < 2 ^ 32"
  defines "ok \<equiv> mem \<or> off + length buf \<le> length body"
  shows "abs_outcome i (aug_write mem s i off buf)
    (if ok then Inr (length buf) else Inl NoMem) fs (if ok then write_body body off buf else body)"
proof (cases ok)
  case True
  let ?b = "resized_body (off + length buf) False body"
  have b: "?b = body @ replicate (off + length buf - length body) 0"
    by (simp add: resized_body_def)
  obtain s' ld where out: "body_resize mem s i (off + length buf) False
      = (Inr (16 + length (hdr fs)), s', i\<lparr>if_bsize := length ?b\<rparr>)"
      "length ld = 16" "sq_addr s' = Some ((ld @ hdr fs) @ ?b)"
      "mar_rep s' (i\<lparr>if_bsize := length ?b\<rparr>) fs ?b"
    using body_resize_rep [OF rep fits, of mem False] True by (auto simp: ok_def split: prod.splits)
  show ?thesis
    using True out mar_rep_pokeseq [OF out(3,2,4), of off buf] fits
    by (simp add: aug_write_def abs_outcome_def write_body_def b)
next
  case False
  then show ?thesis
    using body_resize_rep [OF rep fits, of mem False] fits
    by (auto simp: aug_write_def abs_outcome_def ok_def split: prod.splits)
qed

lemma getcontent_rep:
  assumes "mar_rep s i fs body"
  shows "case aug_getcontent s i of (r, s') \<Rightarrow>
    \<exists>p. r = Inr p \<and> same_mem s s' \<and> bytes_at s' p (length body) = body
      \<and> (\<forall>q n. bytes_at s' (p + q) n = slice q n body)"
proof -
  obtain ld where "sq_addr s = Some ((ld @ hdr fs) @ body)" "length ld = 16"
    "AUG_BODY (if_hsize i) = length (ld @ hdr fs)"
    "length (ld @ hdr fs) + length body < 2 ^ 32" "if_bsize i = length body"
    using assms by (rule enter_body)
  then show ?thesis
    by (auto simp: aug_getcontent_def enter_ok same_mem_def bytes_at_def slice_append_skip)
qed

lemma read_rep:
  assumes "mar_rep s i fs body"
  shows "case aug_read s i off n of (r, s') \<Rightarrow> r = Inr (slice off n body) \<and> same_mem s s'"
proof -
  have "if_bsize i = length body"
    using assms by (simp add: mar_rep_def)
  moreover have "slice off (if length body - off < n then length body - off else n) body = slice off n body"
    by (auto simp: slice_def)
  ultimately show ?thesis
    using getcontent_rep [OF assms]
    by (auto simp: aug_read_def Let_def same_mem_def slice_def split: prod.splits)
qed


section \<open>The abstract archive\<close>

record archive =
  ar_fields :: "field list"
  ar_body :: "byte list"
  ar_offset :: nat
  ar_flags :: "32 word"

datatype mar_op =
    Clear | DelN nat | DelP "byte list"
  | PutN nat "byte list" | PutP "byte list" "byte list"
  | GetN nat | GetP "byte list" | GetField nat | NtoP nat | PtoN "byte list"
  | SetContent "byte list" | Truncate nat | Write "byte list" | Seek int int | Read nat

text \<open>What a caller sees: an integer, the bytes behind a returned address, or a field.\<close>

datatype mar_res = RNone | RInt int | RBytes "byte list option" | RField "field option"

definition cstr_at :: "seq \<Rightarrow> nat \<Rightarrow> byte list" where
  "cstr_at s p = takeWhile (\<lambda>b. b \<noteq> 0) (drop p (the (sq_addr s)))"

definition map_res :: "('a \<Rightarrow> mar \<Rightarrow> 'b) \<Rightarrow> (aug_fail + 'a) \<times> mar \<Rightarrow> (aug_fail + 'b) \<times> mar" where
  "map_res f out = (case out of (Inl e, m) \<Rightarrow> (Inl e, m) | (Inr x, m) \<Rightarrow> (Inr (f x m), m))"

definition see_value :: "int \<times> nat option \<Rightarrow> mar \<Rightarrow> mar_res" where
  "see_value r m = RBytes (map_option (\<lambda>p. bytes_at (mr_seq m) p (nat (fst r))) (snd r))"

fun see_field :: "nat option \<times> nat option \<times> nat \<Rightarrow> mar \<Rightarrow> mar_res" where
  "see_field (Some p, Some q, n) m = RField (Some (cstr_at (mr_seq m) p, bytes_at (mr_seq m) q n))"
| "see_field _ m = RField None"

fun exec :: "bool \<Rightarrow> mar \<Rightarrow> mar_op \<Rightarrow> (aug_fail + mar_res) \<times> mar" where
  "exec mem m Clear = map_res (\<lambda>n _. RInt (int n)) (clear_BIN mem m)"
| "exec mem m (DelN n) = map_res (\<lambda>_ _. RNone) (deln_BIN mem m n)"
| "exec mem m (DelP nm) = map_res (\<lambda>n _. RInt (int n)) (delp_BIN mem m nm)"
| "exec mem m (PutN n v) = map_res (\<lambda>_ _. RNone) (putn_BIN mem m n v)"
| "exec mem m (PutP nm v) = map_res (\<lambda>n _. RInt (int n)) (putp_BIN mem m (Some nm) v)"
| "exec mem m (GetN n) = map_res see_value (getn m n)"
| "exec mem m (GetP nm) = map_res see_value (getp m nm)"
| "exec mem m (GetField n) = map_res see_field (get m n)"
| "exec mem m (NtoP n) = map_res (\<lambda>p m. RBytes (Some (cstr_at (mr_seq m) p))) (ntop m n)"
| "exec mem m (PtoN nm) = map_res (\<lambda>n _. RInt (int n)) (pton m nm)"
| "exec mem m (SetContent d) = map_res (\<lambda>_ _. RNone) (setcontent_BIN mem m d)"
| "exec mem m (Truncate n) = map_res (\<lambda>_ _. RNone) (truncate_BIN mem m n)"
| "exec mem m (Write d) = map_res (\<lambda>n _. RInt (int n)) (write_BIN mem m d)"
| "exec mem m (Seek off wh) = map_res (\<lambda>n _. RInt n) (seek m off wh)"
| "exec mem m (Read n) = map_res (\<lambda>bs _. RBytes (Some bs)) (read_mar m n)"

definition can_read :: "archive \<Rightarrow> bool" where
  "can_read a \<longleftrightarrow> torw (ar_flags a) AND MAR_READ \<noteq> 0"

definition can_write :: "archive \<Rightarrow> bool" where
  "can_write a \<longleftrightarrow> torw (ar_flags a) AND MAR_WRITE \<noteq> 0"

definition asize :: "archive \<Rightarrow> nat" where
  "asize a = 16 + length (hdr (ar_fields a)) + length (ar_body a)"

text \<open>A change that needs more room succeeds if the allocator gives it.\<close>

definition commit ::
  "bool \<Rightarrow> archive \<Rightarrow> archive \<Rightarrow> mar_res \<Rightarrow> (aug_fail + mar_res) \<times> archive" where
  "commit mem a a' r = (if mem \<or> asize a' \<le> asize a then (Inr r, a') else (Inl NoMem, a))"

definition guard :: "bool \<Rightarrow> archive \<Rightarrow> (aug_fail + mar_res) \<times> archive \<Rightarrow> (aug_fail + mar_res) \<times> archive" where
  "guard ok a out = (if ok then out else (Inl (ExError EINVAL), a))"

definition lookup :: "field list \<Rightarrow> nat \<Rightarrow> byte list option" where
  "lookup fs n = (if n < length fs then Some (snd (fs ! n)) else None)"

definition position :: "archive \<Rightarrow> int \<Rightarrow> int \<Rightarrow> int option" where
  "position a off wh =
     (if wh = AUG_SET then Some off
      else if wh = AUG_CUR then Some (int (ar_offset a) + off)
      else if wh = AUG_END then Some (int (length (ar_body a)) + off)
      else None)"

definition write_offset :: "archive \<Rightarrow> nat" where
  "write_offset a = (if ar_flags a AND AUG_APPEND \<noteq> 0 then length (ar_body a) else ar_offset a)"

fun spec :: "bool \<Rightarrow> archive \<Rightarrow> mar_op \<Rightarrow> (aug_fail + mar_res) \<times> archive" where
  "spec mem a Clear =
     guard (can_write a) a (Inr (RInt (int (length (ar_fields a)))), a\<lparr>ar_fields := []\<rparr>)"
| "spec mem a (DelN n) =
     guard (can_write a) a
       (if n < length (ar_fields a) then (Inr RNone, a\<lparr>ar_fields := del_field (ar_fields a) n\<rparr>)
        else (Inl ExNone, a))"
| "spec mem a (DelP nm) =
     guard (can_write a) a
       (let k = find_field (ar_fields a) nm in
        if k < length (ar_fields a)
        then (Inr (RInt (int k)), a\<lparr>ar_fields := del_field (ar_fields a) k\<rparr>)
        else (Inl ExNone, a))"
| "spec mem a (PutN n v) =
     guard (can_write a) a
       (if length (ar_fields a) \<le> n then (Inl ExNone, a)
        else if AUG_MAX16 \<le> length v then (Inl (ExError ELIMIT), a)
        else commit mem a (a\<lparr>ar_fields := (ar_fields a)[n := (fst (ar_fields a ! n), v)]\<rparr>) RNone)"
| "spec mem a (PutP nm v) =
     guard (can_write a) a
       (if AUG_MAX16 \<le> length nm \<or> AUG_MAX16 \<le> length v then (Inl (ExError ELIMIT), a)
        else commit mem a (a\<lparr>ar_fields := put_field (ar_fields a) nm v\<rparr>)
               (RInt (int (find_field (ar_fields a) nm))))"
| "spec mem a (GetN n) = guard (can_read a) a (Inr (RBytes (lookup (ar_fields a) n)), a)"
| "spec mem a (GetP nm) =
     guard (can_read a) a (Inr (RBytes (lookup (ar_fields a) (find_field (ar_fields a) nm))), a)"
| "spec mem a (GetField n) =
     guard (can_read a) a
       (Inr (RField (if n < length (ar_fields a) then Some (ar_fields a ! n) else None)), a)"
| "spec mem a (NtoP n) =
     guard (can_read a) a
       (if n < length (ar_fields a) then Inr (RBytes (Some (fst (ar_fields a ! n)))) else Inl ExNone, a)"
| "spec mem a (PtoN nm) =
     guard (can_read a) a
       (let k = find_field (ar_fields a) nm in
        if k < length (ar_fields a) then Inr (RInt (int k)) else Inl ExNone, a)"
| "spec mem a (SetContent d) = guard (can_write a) a (commit mem a (a\<lparr>ar_body := d\<rparr>) RNone)"
| "spec mem a (Truncate n) =
     guard (can_write a) a (commit mem a (a\<lparr>ar_body := resized_body n True (ar_body a)\<rparr>) RNone)"
| "spec mem a (Write d) =
     guard (can_write a) a
       (let a = a\<lparr>ar_offset := write_offset a\<rparr> in
        commit mem a
          (a\<lparr>ar_body := write_body (ar_body a) (ar_offset a) d, ar_offset := ar_offset a + length d\<rparr>)
          (RInt (int (length d))))"
| "spec mem a (Seek off wh) =
     (case position a off wh of
        None \<Rightarrow> (Inl (ExError EINVAL), a)
      | Some p \<Rightarrow>
          if p < 0 then (Inl (ExError ERANGE), a) else (Inr (RInt p), a\<lparr>ar_offset := nat p\<rparr>))"
| "spec mem a (Read n) =
     guard (can_read a) a
       (let bs = slice (ar_offset a) n (ar_body a) in
        (Inr (RBytes (Some bs)), a\<lparr>ar_offset := ar_offset a + length bs\<rparr>))"

text \<open>
  The scope of the refinement: names are C strings, sizes are below the \<^verbatim>\<open>unsigned\<close> limit, the
  archive stays below 4 GB and so does the offset.
\<close>

fun op_ok :: "mar_op \<Rightarrow> bool" where
  "op_ok (DelP nm) = cstring nm"
| "op_ok (GetP nm) = cstring nm"
| "op_ok (PtoN nm) = cstring nm"
| "op_ok (PutP nm v) = (cstring nm \<and> length nm < 2 ^ 32 - 1 \<and> length v < 2 ^ 32 - 1)"
| "op_ok (PutN n v) = (length v < 2 ^ 32 - 1)"
| "op_ok _ = True"

definition in_scope :: "archive \<Rightarrow> mar_op \<Rightarrow> bool" where
  "in_scope a opr \<longleftrightarrow> op_ok opr \<and>
     asize (snd (spec True a opr)) < 2 ^ 32 \<and> ar_offset (snd (spec True a opr)) < 2 ^ 32"

definition mar_refines :: "mar \<Rightarrow> archive \<Rightarrow> bool" where
  "mar_refines m a \<longleftrightarrow> mar_rep (mr_seq m) (mr_info m) (ar_fields a) (ar_body a)
     \<and> mr_offset m = ar_offset a \<and> mr_flags m = ar_flags a"

definition simulates :: "(aug_fail + mar_res) \<times> mar \<Rightarrow> (aug_fail + mar_res) \<times> archive \<Rightarrow> bool" where
  "simulates out aout \<longleftrightarrow> fst out = fst aout \<and> mar_refines (snd out) (snd aout)"


section \<open>The refinement\<close>

lemma WRITABLE_iff: "mar_refines m a \<Longrightarrow> WRITABLE m \<longleftrightarrow> can_write a"
  by (simp add: mar_refines_def WRITABLE_def can_write_def)

lemma READABLE_iff: "mar_refines m a \<Longrightarrow> READABLE m \<longleftrightarrow> can_read a"
  by (simp add: mar_refines_def READABLE_def can_read_def)

lemma writing_sim:
  assumes m: "mar_refines m a"
    and f: "can_write a \<Longrightarrow> abs_outcome (mr_info m) (f (mr_seq m) (mr_info m)) r fs body"
    and out: "can_write a \<Longrightarrow> out = (case r of Inl e \<Rightarrow> Inl e | Inr x \<Rightarrow> Inr (g x), a\<lparr>ar_fields := fs, ar_body := body\<rparr>)"
  shows "simulates (map_res (\<lambda>x _. g x) (writing m f)) (guard (can_write a) a out)"
  using m f out
  by (auto simp: simulates_def map_res_def writing_def guard_def WRITABLE_iff [OF m] abs_outcome_def
      mar_refines_def split: sum.splits)

lemma reading_sim:
  assumes m: "mar_refines m a"
    and f: "can_read a \<Longrightarrow> case f (mr_seq m) (mr_info m) of (r, s) \<Rightarrow> same_mem (mr_seq m) s
      \<and> r' = (case r of Inl e \<Rightarrow> Inl e | Inr x \<Rightarrow> Inr (g x (m\<lparr>mr_seq := s\<rparr>)))"
  shows "simulates (map_res g (reading m f)) (guard (can_read a) a (r', a))"
  using m f
  by (auto simp: simulates_def map_res_def reading_def guard_def READABLE_iff [OF m] mar_refines_def
      same_mem_rep split: sum.splits)

lemma cstr_at_bytes: "cstring nm \<Longrightarrow> bytes_at s p (length nm + 1) = nm @ [0] \<Longrightarrow> cstr_at s p = nm"
proof -
  assume nm: "cstring nm" and b: "bytes_at s p (length nm + 1) = nm @ [0]"
  let ?d = "drop p (the (sq_addr s))"
  have "?d = (nm @ [0]) @ drop (length nm + 1) ?d"
    using b unfolding bytes_at_def slice_def by (metis append_take_drop_id)
  then show "cstr_at s p = nm"
    unfolding cstr_at_def using nm by (metis (mono_tags, lifting) append.assoc append_Cons cstring_def
        takeWhile_append2 takeWhile.simps(2) append_Nil2)
qed

lemma names_cstring: "mar_rep s i fs body \<Longrightarrow> n < length fs \<Longrightarrow> cstring (fst (fs ! n))"
  by (auto simp: mar_rep_def list_all_length field_ok_def)

lemma asize_simps [simp]:
  "asize (a\<lparr>ar_offset := k\<rparr>) = asize a"
  "asize (a\<lparr>ar_fields := fs\<rparr>) = 16 + length (hdr fs) + length (ar_body a)"
  "asize (a\<lparr>ar_body := b\<rparr>) = 16 + length (hdr (ar_fields a)) + length b"
  by (simp_all add: asize_def)

lemma exec_Clear: "mar_refines m a \<Longrightarrow> simulates (exec mem m Clear) (spec mem a Clear)"
  unfolding exec.simps spec.simps clear_BIN_def
  by (rule writing_sim, assumption, rule clear_rep)
     (auto simp: mar_refines_def intro: archive.equality)

lemma exec_DelN:
  assumes "mar_refines m a"
  shows "simulates (exec mem m (DelN n)) (spec mem a (DelN n))"
proof (cases "n < length (ar_fields a)")
  case True
  show ?thesis
    unfolding exec.simps spec.simps deln_BIN_def
    by (rule writing_sim [OF assms], rule delfieldn_rep)
       (use assms True in \<open>auto simp: mar_refines_def\<close>)
next
  case False
  show ?thesis
    unfolding exec.simps spec.simps deln_BIN_def
    by (rule writing_sim [OF assms], rule delfieldn_none)
       (use assms False in \<open>auto simp: mar_refines_def\<close>)
qed

lemma exec_DelP:
  assumes "mar_refines m a" "cstring nm"
  shows "simulates (exec mem m (DelP nm)) (spec mem a (DelP nm))"
  unfolding exec.simps spec.simps delp_BIN_def
  by (rule writing_sim [OF assms(1)], rule delfieldp_rep)
     (use assms in \<open>auto simp: mar_refines_def Let_def\<close>)

lemma length_hdr_update:
  "n < length fs \<Longrightarrow> length (enc_field f) \<le> length (enc_field (fs ! n))
   \<longleftrightarrow> length (hdr (fs[n := f])) \<le> length (hdr fs)"
  by (simp add: hdr_update hdr_split)

lemma length_hdr_put:
  fixes fs nm val
  defines "k \<equiv> find_field fs nm"
  shows "k < length fs \<and> length (enc_field (nm, val)) \<le> length (enc_field (fs ! k))
   \<longleftrightarrow> length (hdr (put_field fs nm val)) \<le> length (hdr fs)"
  using length_hdr_update [of k fs "(nm, val)"] by (auto simp: put_field_def Let_def simp flip: k_def)

lemma exec_PutN:
  assumes m: "mar_refines m a" and sc: "in_scope a (PutN n v)"
  shows "simulates (exec mem m (PutN n v)) (spec mem a (PutN n v))"
proof (cases "can_write a \<and> n < length (ar_fields a) \<and> length v < AUG_MAX16")
  case True
  let ?f = "(fst (ar_fields a ! n), v)"
  have fits: "16 + length (hdr ((ar_fields a)[n := ?f])) + length (ar_body a) < 2 ^ 32"
    using sc True by (simp add: in_scope_def guard_def commit_def)
  show ?thesis
    unfolding exec.simps spec.simps putn_BIN_def
    by (rule writing_sim [OF m], rule putfieldn_rep)
       (use m True fits length_hdr_update [of n "ar_fields a" ?f] in
         \<open>auto simp: mar_refines_def commit_def asize_def simp del: length_enc_field\<close>)
next
  case False
  have "abs_outcome (mr_info m) (aug_putfieldn mem (mr_seq m) (mr_info m) n v)
      (if length (ar_fields a) \<le> n then Inl ExNone else Inl (ExError ELIMIT)) (ar_fields a) (ar_body a)"
    if "can_write a"
    using False that m sc
    by (auto simp: putfieldn_limits abs_outcome_def mar_refines_def mar_rep_def in_scope_def)
  then show ?thesis
    using False unfolding exec.simps spec.simps putn_BIN_def
    by (intro writing_sim [where f = "\<lambda>s i. aug_putfieldn mem s i n v", OF m])
       (auto split: if_splits)
qed

lemma exec_PutP:
  assumes m: "mar_refines m a" and sc: "in_scope a (PutP nm v)"
  shows "simulates (exec mem m (PutP nm v)) (spec mem a (PutP nm v))"
proof (cases "can_write a \<and> length nm < AUG_MAX16 \<and> length v < AUG_MAX16")
  case True
  have fits: "16 + length (hdr (put_field (ar_fields a) nm v)) + length (ar_body a) < 2 ^ 32"
    and ok: "field_ok (nm, v)"
    using sc True by (simp_all add: in_scope_def guard_def commit_def field_ok_def)
  show ?thesis
    unfolding exec.simps spec.simps putp_BIN_def
    by (rule writing_sim [OF m], rule putfieldp_rep)
       (use m True fits ok length_hdr_put [of "ar_fields a" nm v] in
         \<open>auto simp: mar_refines_def commit_def asize_def simp del: length_enc_field\<close>)
next
  case False
  have "abs_outcome (mr_info m) (aug_putfieldp mem (mr_seq m) (mr_info m) (Some nm) v)
      (Inl (ExError ELIMIT)) (ar_fields a) (ar_body a)" if "can_write a"
    using False that m sc
    by (auto simp: putfieldp_limits abs_outcome_def mar_refines_def in_scope_def)
  then show ?thesis
    using False unfolding exec.simps spec.simps putp_BIN_def
    by (intro writing_sim [where f = "\<lambda>s i. aug_putfieldp mem s i (Some nm) v", OF m])
       (auto split: if_splits)
qed


lemma exec_readers:
  assumes m: "mar_refines m a"
  shows "simulates (exec mem m (GetN n)) (spec mem a (GetN n))"
    and "simulates (exec mem m (GetField n)) (spec mem a (GetField n))"
    and "simulates (exec mem m (NtoP n)) (spec mem a (NtoP n))"
    and "cstring nm \<Longrightarrow> simulates (exec mem m (GetP nm)) (spec mem a (GetP nm))"
    and "cstring nm \<Longrightarrow> simulates (exec mem m (PtoN nm)) (spec mem a (PtoN nm))"
proof -
  have rep: "mar_rep (mr_seq m) (mr_info m) (ar_fields a) (ar_body a)"
    using m by (simp add: mar_refines_def)
  show "simulates (exec mem m (GetN n)) (spec mem a (GetN n))"
    unfolding exec.simps spec.simps getn_def
    by (rule reading_sim [OF m])
       (use getfieldn_rep [OF rep, of n] in \<open>auto simp: see_value_def lookup_def split: if_splits\<close>)
  show "simulates (exec mem m (GetField n)) (spec mem a (GetField n))"
    unfolding exec.simps spec.simps get_def
    by (rule reading_sim [OF m])
       (use getfield_rep [OF rep, of n] names_cstring [OF rep, of n] in
         \<open>auto simp: cstr_at_bytes split: if_splits\<close>)
  show "simulates (exec mem m (NtoP n)) (spec mem a (NtoP n))"
    unfolding exec.simps spec.simps ntop_def
    by (rule reading_sim [OF m])
       (use fieldntop_rep [OF rep, of n] names_cstring [OF rep, of n] in
         \<open>auto simp: cstr_at_bytes split: if_splits\<close>)
  assume nm: "cstring nm"
  show "simulates (exec mem m (GetP nm)) (spec mem a (GetP nm))"
    unfolding exec.simps spec.simps getp_def
    by (rule reading_sim [OF m])
       (use getfieldp_rep [OF rep nm] in \<open>auto simp: see_value_def lookup_def split: if_splits\<close>)
  show "simulates (exec mem m (PtoN nm)) (spec mem a (PtoN nm))"
    unfolding exec.simps spec.simps pton_def Let_def
    by (rule reading_sim [OF m])
       (use fieldpton_rep [OF rep nm] in \<open>auto split: if_splits\<close>)
qed

lemma exec_SetContent:
  assumes m: "mar_refines m a" and sc: "in_scope a (SetContent d)"
  shows "simulates (exec mem m (SetContent d)) (spec mem a (SetContent d))"
  unfolding exec.simps spec.simps setcontent_BIN_def
  by (rule writing_sim [OF m], rule setcontent_rep)
     (use m sc in \<open>auto simp: mar_refines_def in_scope_def guard_def commit_def asize_def\<close>)

lemma length_resized_body [simp]: "length (resized_body n True body) = n"
  by (simp add: resized_body_def)

lemma exec_Truncate:
  assumes m: "mar_refines m a" and sc: "in_scope a (Truncate n)"
  shows "simulates (exec mem m (Truncate n)) (spec mem a (Truncate n))"
  unfolding exec.simps spec.simps truncate_BIN_def
  by (rule writing_sim [OF m], rule truncate_rep)
     (use m sc in \<open>auto simp: mar_refines_def in_scope_def guard_def commit_def asize_def\<close>)

lemma exec_Seek:
  assumes m: "mar_refines m a" and sc: "in_scope a (Seek off wh)"
  shows "simulates (exec mem m (Seek off wh)) (spec mem a (Seek off wh))"
proof -
  have bs: "if_bsize (mr_info m) = length (ar_body a)"
    using m by (simp add: mar_refines_def mar_rep_def)
  have pos: "position a off wh =
     (if wh = AUG_SET then Some off
      else if wh = AUG_CUR then Some (int (mr_offset m) + off)
      else if wh = AUG_END then Some (int (if_bsize (mr_info m)) + off)
      else None)"
    using m bs by (simp add: position_def mar_refines_def)
  have small: "nat (p mod 2 ^ 32) = nat p" if "position a off wh = Some p" "\<not> p < 0" for p
    using sc that by (simp add: in_scope_def not_less nat_less_iff)
  show ?thesis
  proof (cases "position a off wh")
    case None
    with m show ?thesis
      by (auto simp: seek_def Let_def pos simulates_def map_res_def AUG_SET_def AUG_CUR_def AUG_END_def
          split: if_splits)
  next
    case (Some p)
    then have "seek m off wh = (if p < 0 then (Inl (ExError ERANGE), m)
        else (Inr p, m\<lparr>mr_offset := nat (p mod 2 ^ 32)\<rparr>))"
      unfolding pos seek_def Let_def by (auto split: if_splits)
    with m Some small [OF Some] show ?thesis
      by (simp add: simulates_def map_res_def mar_refines_def)
  qed
qed

lemma exec_Write:
  assumes m: "mar_refines m a" and sc: "in_scope a (Write d)"
  shows "simulates (exec mem m (Write d)) (spec mem a (Write d))"
proof (cases "can_write a")
  case True
  have bs: "if_bsize (mr_info m) = length (ar_body a)"
    using m by (simp add: mar_refines_def mar_rep_def)
  let ?m = "m\<lparr>mr_offset := write_offset a\<rparr>"
  have room: "write_offset a + length d < 2 ^ 32"
    "16 + length (hdr (ar_fields a)) + (write_offset a + length d) < 2 ^ 32"
    "length (ar_body a) < 2 ^ 32"
    using sc True by (auto simp: in_scope_def guard_def commit_def Let_def asize_def)
  have seek: "(if mr_flags m AND AUG_APPEND \<noteq> 0 then seek m 0 AUG_END else (Inr 0, m))
      = (Inr (if mr_flags m AND AUG_APPEND \<noteq> 0 then int (write_offset a) else 0), ?m)"
    using m bs room(3)
    by (simp add: write_offset_def mar_refines_def seek_def AUG_END_def AUG_SET_def AUG_CUR_def)
  have "abs_outcome (mr_info m) (aug_write mem (mr_seq m) (mr_info m) (write_offset a) d)
    (if mem \<or> write_offset a + length d \<le> length (ar_body a) then Inr (length d) else Inl NoMem)
    (ar_fields a) (if mem \<or> write_offset a + length d \<le> length (ar_body a)
      then write_body (ar_body a) (write_offset a) d else ar_body a)"
    using m room(2) by (intro write_rep) (simp_all add: mar_refines_def)
  moreover obtain r s i where out: "aug_write mem (mr_seq m) (mr_info m) (write_offset a) d = (r, s, i)"
    by (metis prod.exhaust)
  moreover have "write_BIN mem m d = (case r of
      Inl e \<Rightarrow> (Inl e, ?m\<lparr>mr_seq := s, mr_info := i\<rparr>)
    | Inr rsize \<Rightarrow> (Inr rsize, ?m\<lparr>mr_seq := s, mr_info := i,
        mr_offset := (if 0 < rsize then uadd (write_offset a) rsize else write_offset a)\<rparr>))"
    using True m out unfolding write_BIN_def seek by (simp add: WRITABLE_iff split: sum.splits)
  ultimately show ?thesis
    using True m room
    by (auto simp: abs_outcome_def guard_def simulates_def map_res_def
        mar_refines_def commit_def asize_def Let_def split: if_splits)
next
  case False
  with m show ?thesis
    by (simp add: write_BIN_def WRITABLE_iff guard_def simulates_def map_res_def)
qed

lemma exec_Read:
  assumes m: "mar_refines m a" and sc: "in_scope a (Read n)"
  shows "simulates (exec mem m (Read n)) (spec mem a (Read n))"
proof (cases "can_read a")
  case True
  have "case aug_read (mr_seq m) (mr_info m) (ar_offset a) n of
      (r, s') \<Rightarrow> r = Inr (slice (ar_offset a) n (ar_body a)) \<and> same_mem (mr_seq m) s'"
    using m by (intro read_rep [where fs = "ar_fields a"]) (simp add: mar_refines_def)
  moreover have "ar_offset a + length (slice (ar_offset a) n (ar_body a)) < 2 ^ 32"
    using sc True by (simp add: in_scope_def guard_def Let_def)
  ultimately show ?thesis
    using True m
    by (auto simp: read_mar_def READABLE_iff guard_def simulates_def map_res_def mar_refines_def
        same_mem_rep Let_def split: prod.splits)
next
  case False
  with m show ?thesis
    by (simp add: read_mar_def READABLE_iff guard_def simulates_def map_res_def)
qed

lemma exec_sim:
  assumes "mar_refines m a" "in_scope a opr"
  shows "simulates (exec mem m opr) (spec mem a opr)"
  using assms
  by (cases opr)
     (simp_all only: exec_Clear exec_DelN exec_DelP exec_PutN exec_PutP exec_readers exec_SetContent
        exec_Truncate exec_Write exec_Seek exec_Read in_scope_def op_ok.simps)

end
