(* ===== verification/MarClaims.thy ===== *)
theory MarClaims
  imports Mar
begin

text \<open>
  What the archive promises, over the refinement of \<open>Mar\<close>: any sequence of operations behaves
  as on the abstract archive, from creation on, and through closing and opening again.
\<close>

section \<open>Sequences of operations\<close>

text \<open>Each operation comes with the answer of the allocator.\<close>

fun run_mar :: "mar \<Rightarrow> (bool \<times> mar_op) list \<Rightarrow> (aug_fail + mar_res) list \<times> mar" where
  "run_mar m [] = ([], m)"
| "run_mar m ((mem, opr) # ops) =
     (case exec mem m opr of (r, m) \<Rightarrow> case run_mar m ops of (rs, m) \<Rightarrow> (r # rs, m))"

fun run_spec :: "archive \<Rightarrow> (bool \<times> mar_op) list \<Rightarrow> (aug_fail + mar_res) list \<times> archive" where
  "run_spec a [] = ([], a)"
| "run_spec a ((mem, opr) # ops) =
     (case spec mem a opr of (r, a) \<Rightarrow> case run_spec a ops of (rs, a) \<Rightarrow> (r # rs, a))"

fun scoped :: "archive \<Rightarrow> (bool \<times> mar_op) list \<Rightarrow> bool" where
  "scoped a [] = True"
| "scoped a ((mem, opr) # ops) = (in_scope a opr \<and> scoped (snd (spec mem a opr)) ops)"

lemma run_sim:
  "mar_refines m a \<Longrightarrow> scoped a ops \<Longrightarrow>
   fst (run_mar m ops) = fst (run_spec a ops) \<and> mar_refines (snd (run_mar m ops)) (snd (run_spec a ops))"
proof (induction ops arbitrary: m a)
  case (Cons x ops)
  obtain mem opr where x: "x = (mem, opr)"
    by (cases x)
  obtain r m' where e: "exec mem m opr = (r, m')"
    by (cases "exec mem m opr")
  obtain r' a' where s: "spec mem a opr = (r', a')"
    by (cases "spec mem a opr")
  have "r = r'" "mar_refines m' a'"
    using exec_sim [of m a opr mem] Cons.prems x e s by (simp_all add: simulates_def)
  then show ?case
    using Cons.IH [of m' a'] Cons.prems x e s by (simp add: split_def)
qed simp

definition empty_archive :: archive where
  "empty_archive = \<lparr>ar_fields = [], ar_body = [], ar_offset = 0, ar_flags = AUG_RDWR\<rparr>"

lemma pokes_leader:
  assumes "sq_addr s = Some m" "length m = 16" "if_proto i = 3" "if_fields i = 0"
    "if_hsize i = 0" "if_bsize i = 0"
  shows "pokes s [(0, AUG_MAGIC), (AUG_PROTOOFF, enc16 3), (AUG_FIELDSOFF, enc16 0),
      (AUG_HSIZEOFF, enc32 0), (AUG_BSIZEOFF, enc32 0)]
    = (Inr (), s\<lparr>sq_addr := Some (leader i)\<rparr>)"
proof -
  have "length m = 4 + (2 + (2 + (4 + 4)))"
    using assms(2) by simp
  then obtain x1 x2 x3 x4 x5 where m: "m = x1 @ x2 @ x3 @ x4 @ x5" "length x1 = 4" "length x2 = 2"
      "length x3 = 2" "length x4 = 4" "length x5 = 4"
    by (rule split5)
  have "length AUG_MAGIC = 4"
    by (simp add: AUG_MAGIC_def str_def)
  moreover have "poke x5 0 (enc32 0) = enc32 0"
    using poke_here [of "enc32 0" x5 "[]"] m by simp
  ultimately show ?thesis
    using m assms
    by (simp add: AUG_PROTOOFF_def AUG_FIELDSOFF_def AUG_HSIZEOFF_def AUG_BSIZEOFF_def leader_def
        pokeseq_ok poke_append_skip poke_here)
qed

text \<open>
  A new archive is the empty archive: creation succeeds whenever the allocator answers, with
  protocol 3, no field, no body, and one reference.
\<close>
lemma createmar_empty:
  "\<exists>m. aug_createmar True True = Inr m \<and> mar_refines m empty_archive
     \<and> mr_refs m = 1 \<and> if_proto (mr_info m) = 3"
proof -
  let ?i = "\<lparr>if_proto = 3, if_fields = 0, if_hsize = 0, if_bsize = 0\<rparr>"
  let ?s = "\<lparr>sq_offset = 0, sq_len = 16, sq_addr = Some (replicate 16 0)\<rparr> :: seq"
  have "replace True aug_createseq 0 0 AUG_LEADERSIZE = (Inr 0, ?s)"
    by (simp add: replace_def aug_createseq_def aug_setregion_def aug_seqsize_def aug_resizeseq_def
        resizemem_def AUG_LEADERSIZE_def Let_def)
  moreover have "aug_seqsize aug_createseq = 0"
    by (simp add: aug_seqsize_def aug_createseq_def)
  ultimately have "init True aug_createseq = (Inr ?i, ?s\<lparr>sq_addr := Some (leader ?i)\<rparr>)"
    using pokes_leader [of ?s "replicate 16 0" ?i] by (simp add: init_def AUG_LEADERSIZE_def)
  then show ?thesis
    by (simp add: aug_createmar_def mar_refines_def empty_archive_def mar_rep_def AUG_LEADERSIZE_def)
qed

text \<open>
  C1: The archive refines its specification.  However the sequence of operations goes, every
  result the code returns (values read, ordinals, errors, refused allocations) is the one the
  abstract archive gives, and the bytes in memory still represent the abstract fields and body,
  as long as names are C strings and the archive and its offset stay below 4 GB.
\<close>
theorem mar_refinement:
  assumes "mar_refines m a" "scoped a ops"
  shows "fst (run_mar m ops) = fst (run_spec a ops)
    \<and> mar_refines (snd (run_mar m ops)) (snd (run_spec a ops))"
  using assms by (rule run_sim)

definition sample_ops :: "(bool \<times> mar_op) list" where
  "sample_ops = [(True, PutP (str ''a'') [7]), (True, Write [1, 2]), (False, PutP (str ''b'') []),
     (True, Seek 0 0), (True, Read 5), (True, GetP (str ''A''))]"

lemma sample_scoped: "scoped empty_archive sample_ops"
  by (simp add: sample_ops_def empty_archive_def in_scope_def guard_def can_write_def can_read_def
      torw_def AUG_RDWR_def AUG_RDONLY_def AUG_WRONLY_def MAR_READ_def MAR_WRITE_def str_def cstring_def
      put_field_def Let_def AUG_MAX16_def commit_def asize_def write_offset_def AUG_APPEND_def position_def
      AUG_SET_def same_name_def tolower_def write_body_def poke_def enc_field_def slice_def)


lemma mar_refinement_witness:
  "\<exists>m. aug_createmar True True = Inr m \<and>
     fst (run_mar m sample_ops)
     = [Inr (RInt 0), Inr (RInt 2), Inl NoMem, Inr (RInt 0), Inr (RBytes (Some [1, 2])),
        Inr (RBytes (Some [7]))]"
proof -
  obtain m where "aug_createmar True True = Inr m" "mar_refines m empty_archive"
    using createmar_empty by blast
  moreover from this(2) have "fst (run_mar m sample_ops) = fst (run_spec empty_archive sample_ops)"
    using mar_refinement sample_scoped by blast
  moreover have "fst (run_spec empty_archive sample_ops)
      = [Inr (RInt 0), Inr (RInt 2), Inl NoMem, Inr (RInt 0), Inr (RBytes (Some [1, 2])),
         Inr (RBytes (Some [7]))]"
    by (simp add: sample_ops_def empty_archive_def guard_def can_write_def can_read_def
      torw_def AUG_RDWR_def AUG_RDONLY_def AUG_WRONLY_def MAR_READ_def MAR_WRITE_def str_def
      put_field_def Let_def AUG_MAX16_def commit_def asize_def write_offset_def AUG_APPEND_def position_def
      AUG_SET_def same_name_def tolower_def write_body_def poke_def enc_field_def slice_def lookup_def)
  ultimately show ?thesis
    by auto
qed

section \<open>Fields\<close>

text \<open>No two fields have the same name, letter case apart.\<close>

definition distinct_names :: "field list \<Rightarrow> bool" where
  "distinct_names fs \<longleftrightarrow> distinct (map (map tolower \<circ> fst) fs)"

lemma same_name_iff: "same_name a b \<longleftrightarrow> map tolower a = map tolower b"
  by (simp add: same_name_def)

lemma find_field_found:
  "find_field fs nm < length fs \<Longrightarrow> same_name nm (fst (fs ! find_field fs nm))"
  unfolding find_field_def by (metis nth_length_takeWhile)

lemma find_field_none:
  "find_field fs nm = length fs \<longleftrightarrow> (\<forall>f \<in> set fs. \<not> same_name nm (fst f))"
  by (induction fs) auto

lemma distinct_put: "distinct_names fs \<Longrightarrow> distinct_names (put_field fs nm v)"
proof (cases "find_field fs nm < length fs")
  case True
  assume "distinct_names fs"
  moreover have "map (map tolower \<circ> fst) (fs[find_field fs nm := (nm, v)]) = map (map tolower \<circ> fst) fs"
    using find_field_found [OF True] True
    by (simp add: map_update same_name_def list_update_same_conv)
  ultimately show ?thesis
    using True by (simp add: put_field_def Let_def distinct_names_def)
next
  case False
  then have "find_field fs nm = length fs"
    using find_field_le [of fs nm] by simp
  moreover assume "distinct_names fs"
  ultimately show ?thesis
    using False by (auto simp: put_field_def Let_def distinct_names_def find_field_none same_name_def)
qed

lemma distinct_del: "distinct_names fs \<Longrightarrow> distinct_names (del_field fs n)"
  by (simp add: distinct_names_def del_field_def take_map [symmetric] drop_map [symmetric]
      set_take_disj_set_drop_if_distinct del: set_map)

lemma commit_cases: "snd (commit mem a a' r) = a \<or> snd (commit mem a a' r) = a'"
  by (simp add: commit_def)

lemma distinct_spec:
  "distinct_names (ar_fields a) \<Longrightarrow> distinct_names (ar_fields (snd (spec mem a opr)))"
proof (cases opr)
  case (PutN n v)
  assume d: "distinct_names (ar_fields a)"
  have "map (map tolower \<circ> fst) ((ar_fields a)[n := (fst (ar_fields a ! n), v)])
      = map (map tolower \<circ> fst) (ar_fields a)"
    by (cases "n < length (ar_fields a)") (simp_all add: map_update list_update_same_conv list_update_beyond)
  with d PutN show ?thesis
    by (simp add: guard_def commit_def distinct_names_def)
qed (auto simp: guard_def commit_def Let_def distinct_put distinct_del distinct_names_def [of "[]"]
       split: option.splits)

lemma distinct_run:
  "distinct_names (ar_fields a) \<Longrightarrow> distinct_names (ar_fields (snd (run_spec a ops)))"
proof (induction ops arbitrary: a)
  case (Cons x ops)
  then show ?case
    using distinct_spec [of a "fst x" "snd x"] by (cases x) (simp add: split_def)
qed simp

text \<open>
  C38: Field names stay unique.  After any sequence of operations in the scope of the refinement
  (names are C strings, and the archive and its offset stay below 4 GB), with any requests for
  memory refused, a new archive represents fields no two of which have the same name up to letter
  case; so each name has one value.
\<close>
theorem names_unique:
  assumes "aug_createmar True True = Inr m" "scoped empty_archive ops"
  shows "\<exists>fs body. mar_rep (mr_seq (snd (run_mar m ops))) (mr_info (snd (run_mar m ops))) fs body
     \<and> distinct_names fs"
proof -
  have "mar_refines m empty_archive"
    using createmar_empty assms(1) by fastforce
  then have "mar_refines (snd (run_mar m ops)) (snd (run_spec empty_archive ops))"
    using run_sim assms(2) by blast
  moreover have "distinct_names (ar_fields empty_archive)"
    by (simp add: empty_archive_def distinct_names_def)
  ultimately show ?thesis
    unfolding mar_refines_def by (meson distinct_run)
qed

lemma names_unique_witness:
  "\<exists>m fs body. aug_createmar True True = Inr m
     \<and> mar_rep (mr_seq (snd (run_mar m sample_ops))) (mr_info (snd (run_mar m sample_ops))) fs body
     \<and> distinct_names fs"
proof -
  obtain m where "aug_createmar True True = Inr m"
    using createmar_empty by blast
  with names_unique [OF this sample_scoped] show ?thesis
    by blast
qed

text \<open>The value of a name.\<close>

definition value_of :: "field list \<Rightarrow> byte list \<Rightarrow> byte list option" where
  "value_of fs nm = lookup fs (find_field fs nm)"

lemma value_of_simps [simp]:
  "value_of [] nm = None"
  "value_of (f # fs) nm = (if same_name nm (fst f) then Some (snd f) else value_of fs nm)"
  by (simp_all add: value_of_def lookup_def)

lemma put_field_simps:
  "put_field [] nm v = [(nm, v)]"
  "put_field (f # fs) nm v = (if same_name nm (fst f) then (nm, v) # fs else f # put_field fs nm v)"
  by (simp_all add: put_field_def Let_def)

lemma value_of_put:
  "value_of (put_field fs nm v) nm' = (if same_name nm' nm then Some v else value_of fs nm')"
  by (induction fs) (auto simp: put_field_simps same_name_def)

lemma del_field_find:
  "del_field (f # fs) (find_field (f # fs) nm)
   = (if same_name nm (fst f) then fs else f # del_field fs (find_field fs nm))"
  by (simp add: del_field_def)

lemma value_of_absent: "\<forall>f \<in> set fs. \<not> same_name nm (fst f) \<Longrightarrow> value_of fs nm = None"
  by (induction fs) auto

lemma value_of_del:
  "distinct_names fs \<Longrightarrow> find_field fs nm < length fs \<Longrightarrow>
   value_of (del_field fs (find_field fs nm)) nm'
   = (if same_name nm' nm then None else value_of fs nm')"
proof (induction fs)
  case (Cons f fs)
  show ?case
  proof (cases "same_name nm (fst f)")
    case True
    have "value_of fs nm' = None" if "same_name nm' nm"
      using that True Cons.prems(1)
      by (intro value_of_absent) (auto simp: distinct_names_def same_name_def)
    with True show ?thesis
      unfolding del_field_find by (auto simp: same_name_def)
  next
    case False
    with Cons show ?thesis
      unfolding del_field_find by (auto simp: distinct_names_def same_name_def)
  qed
qed simp

text \<open>
  Storing a field and reading it back.  After a successful \<^verbatim>\<open>aug_putfieldp\<close>, a lookup by a
  name that differs at most in letter case gives the stored value, and a lookup by any other
  name gives what it gave before, values with null bytes and empty values included.
\<close>
lemma putp_getp:
  assumes "mar_refines m a" "can_read a" "in_scope a (PutP nm v)" "cstring nm'"
    and "exec mem m (PutP nm v) = (Inr r, m')"
  shows "fst (exec mem' m' (GetP nm'))
    = (if same_name nm' nm then Inr (RBytes (Some v)) else fst (exec mem' m (GetP nm')))"
proof -
  obtain ro a' where a': "spec mem a (PutP nm v) = (ro, a')"
    by (cases "spec mem a (PutP nm v)")
  then have ro: "ro = Inr r" and m': "mar_refines m' a'"
    using exec_sim [OF assms(1,3), of mem] assms(5) by (simp_all add: simulates_def)
  then have "ar_fields a' = put_field (ar_fields a) nm v" "can_read a'"
    using a' assms(2) by (auto simp: guard_def commit_def can_read_def split: if_splits)
  then show ?thesis
    using exec_readers(4) [OF m' assms(4), of mem'] exec_readers(4) [OF assms(1,4), of mem'] assms(2)
    by (simp add: simulates_def guard_def value_of_put flip: value_of_def)
qed

lemma putp_getp_witness:
  "\<exists>m r m'. aug_createmar True True = Inr m \<and> exec True m (PutP (str ''Key'') [0, 5]) = (Inr r, m')
     \<and> fst (exec True m' (GetP (str ''KEY''))) = Inr (RBytes (Some [0, 5]))"
proof -
  let ?a = "empty_archive" and ?op = "PutP (str ''Key'') [0, 5]"
  obtain m where m: "aug_createmar True True = Inr m" "mar_refines m ?a"
    using createmar_empty by blast
  have rd: "can_read ?a" and sc: "in_scope ?a ?op" and ok: "fst (spec True ?a ?op) = Inr (RInt 0)"
    by (simp_all add: empty_archive_def in_scope_def guard_def can_write_def can_read_def
      torw_def AUG_RDWR_def AUG_RDONLY_def AUG_WRONLY_def MAR_READ_def MAR_WRITE_def str_def cstring_def
      put_field_def Let_def AUG_MAX16_def commit_def asize_def enc_field_def)
  obtain m' where e: "exec True m ?op = (Inr (RInt 0), m')"
    using exec_sim [OF m(2) sc, of True] ok by (cases "exec True m ?op") (simp add: simulates_def)
  have nm: "cstring (str ''KEY'')" "same_name (str ''KEY'') (str ''Key'')"
    by (simp_all add: str_def cstring_def same_name_def tolower_def)
  show ?thesis
    using putp_getp [OF m(2) rd sc nm(1) e, of True] nm(2) m(1) e by auto
qed

section \<open>The body as a file\<close>

text \<open>
  The body behaves as a file.  After a successful write of \<open>d\<close> at offset \<open>p\<close> (the end of the
  body in append mode), reading any range gives: \<open>d\<close> where it was written, zeros in the gap a
  seek past the end left, and the old bytes everywhere else.
\<close>
lemma write_read:
  assumes "mar_refines m a" "can_read a" "in_scope a (Write d)"
    and "exec mem m (Write d) = (Inr r, m')" "0 \<le> q" "q + int n < 2 ^ 32"
  defines "p \<equiv> write_offset a" and "old \<equiv> ar_body a"
  shows "fst (run_mar m' [(mem1, Seek q AUG_SET), (mem2, Read n)])
    = [Inr (RInt q), Inr (RBytes (Some (take n (drop (nat q)
        (take p (old @ replicate (p - length old) 0) @ d @ drop (p + length d) old)))))]"
proof -
  obtain ro a' where a': "spec mem a (Write d) = (ro, a')"
    by (cases "spec mem a (Write d)")
  then have ro: "ro = Inr r" and m': "mar_refines m' a'"
    using exec_sim [OF assms(1,3), of mem] assms(4) by (simp_all add: simulates_def)
  then have body: "ar_body a' = write_body old p d" and rd: "can_read a'"
    using a' assms(2) by (auto simp: guard_def commit_def can_read_def Let_def p_def old_def split: if_splits)
  have "asize a' < 2 ^ 32"
    using assms(3) a' ro
    by (auto simp: in_scope_def guard_def commit_def Let_def split: if_splits)
  then have "scoped a' [(mem1, Seek q AUG_SET), (mem2, Read n)]"
    using assms(5,6) rd
    by (auto simp: in_scope_def position_def guard_def Let_def can_read_def)
  then have "fst (run_mar m' [(mem1, Seek q AUG_SET), (mem2, Read n)])
      = fst (run_spec a' [(mem1, Seek q AUG_SET), (mem2, Read n)])"
    using run_sim m' by blast
  moreover have "write_body old p d = take p (old @ replicate (p - length old) 0) @ d @ drop (p + length d) old"
    by (auto simp: write_body_def poke_def min_def)
  ultimately show ?thesis
    using assms(5) rd body by (simp add: position_def guard_def can_read_def Let_def slice_def)
qed


lemmas archive_eval =
  in_scope_def guard_def can_write_def can_read_def torw_def AUG_RDWR_def AUG_RDONLY_def
  AUG_WRONLY_def MAR_READ_def MAR_WRITE_def str_def cstring_def put_field_def Let_def AUG_MAX16_def
  commit_def asize_def write_offset_def AUG_APPEND_def AUG_SET_def

lemma write_read_witness:
  "\<exists>m r m'. aug_createmar True True = Inr m
     \<and> exec True (m\<lparr>mr_offset := 2\<rparr>) (Write [8, 9]) = (Inr r, m')
     \<and> fst (run_mar m' [(True, Seek 1 AUG_SET), (True, Read 5)])
       = [Inr (RInt 1), Inr (RBytes (Some [0, 8, 9]))]"
proof -
  let ?a = "empty_archive\<lparr>ar_offset := 2\<rparr>" and ?op = "Write [8, 9]"
  obtain m where m: "aug_createmar True True = Inr m" "mar_refines (m\<lparr>mr_offset := 2\<rparr>) ?a"
    using createmar_empty by (auto simp: mar_refines_def)
  have rd: "can_read ?a" and sc: "in_scope ?a ?op" and ok: "fst (spec True ?a ?op) = Inr (RInt 2)"
    by (simp_all add: empty_archive_def archive_eval)
  obtain m' where e: "exec True (m\<lparr>mr_offset := 2\<rparr>) ?op = (Inr (RInt 2), m')"
    using exec_sim [OF m(2) sc, of True] ok
    by (cases "exec True (m\<lparr>mr_offset := 2\<rparr>) ?op") (simp add: simulates_def)
  have "fst (run_mar m' [(True, Seek 1 AUG_SET), (True, Read 5)])
      = [Inr (RInt 1), Inr (RBytes (Some [0, 8, 9]))]"
    using write_read [OF m(2) rd sc e, of 1 5 True True]
    by (simp add: empty_archive_def write_offset_def AUG_RDWR_def AUG_APPEND_def numeral_2_eq_2)
  with m(1) e show ?thesis
    by blast
qed

section \<open>Access mode\<close>

lemma setregion_mem: "aug_setregion s p n = (r, s') \<Longrightarrow> sq_addr s' = sq_addr s"
  by (auto simp: aug_setregion_def split: if_splits)

lemma enter_mem: "enter s p n = (r, s') \<Longrightarrow> sq_addr s' = sq_addr s"
  by (auto simp: enter_def split: prod.splits sum.splits dest: setregion_mem)

definition keeps :: "(seq \<Rightarrow> info \<Rightarrow> (aug_fail + 'a) \<times> seq) \<Rightarrow> bool" where
  "keeps f \<longleftrightarrow> (\<forall>s i. sq_addr (snd (f s i)) = sq_addr s)"

lemma readers_keep:
  "keeps (\<lambda>s i. aug_getfieldn s i n)" "keeps (\<lambda>s i. aug_getfieldp s i nm)"
  "keeps (\<lambda>s i. aug_getfield s i n)" "keeps (\<lambda>s i. aug_fieldntop s i n)"
  "keeps (\<lambda>s i. aug_fieldpton s i nm)" "keeps (\<lambda>s i. aug_read s i off len)"
  unfolding keeps_def aug_getfieldn_def aug_getfieldp_def aug_getfield_def aug_fieldntop_def
    aug_fieldpton_def aug_read_def aug_getcontent_def Let_def
  by (auto split: prod.splits sum.splits option.splits dest: enter_mem)

lemma snd_map_res [simp]: "snd (map_res g out) = snd out"
  by (auto simp: map_res_def split: prod.splits sum.splits)

lemma reading_keeps:
  "keeps f \<Longrightarrow> sq_addr (mr_seq (snd (reading m f))) = sq_addr (mr_seq m)
     \<and> mr_info (snd (reading m f)) = mr_info m \<and> mr_flags (snd (reading m f)) = mr_flags m"
  by (auto simp: keeps_def reading_def split: prod.splits) (metis snd_conv)

lemma exec_readonly:
  assumes "\<not> WRITABLE m"
  shows "sq_addr (mr_seq (snd (exec mem m opr))) = sq_addr (mr_seq m)
    \<and> mr_info (snd (exec mem m opr)) = mr_info m \<and> mr_flags (snd (exec mem m opr)) = mr_flags m"
proof (cases opr)
  case (Read n)
  have "sq_addr (snd (aug_read (mr_seq m) (mr_info m) (mr_offset m) n)) = sq_addr (mr_seq m)"
    using readers_keep(6) by (simp add: keeps_def)
  with Read show ?thesis
    by (auto simp: read_mar_def split: prod.splits sum.splits)
next
  case (Seek off wh)
  then show ?thesis
    by (auto simp: seek_def Let_def)
qed (use assms in \<open>simp_all add: writing_def clear_BIN_def deln_BIN_def delp_BIN_def
       putn_BIN_def putp_BIN_def setcontent_BIN_def truncate_BIN_def write_BIN_def getn_def getp_def
       get_def ntop_def pton_def reading_keeps readers_keep\<close>)

text \<open>
  A read-only archive is never changed.  Whatever operations are run on an archive whose
  open flags do not allow writing, in or out of the scope of the refinement and whatever the
  bytes are, no byte of it and none of its counts changes.
\<close>
lemma readonly_unchanged:
  assumes "\<not> WRITABLE m"
  shows "sq_addr (mr_seq (snd (run_mar m ops))) = sq_addr (mr_seq m)
    \<and> mr_info (snd (run_mar m ops)) = mr_info m"
proof -
  have "\<not> WRITABLE m \<Longrightarrow> sq_addr (mr_seq (snd (run_mar m ops))) = sq_addr (mr_seq m)
    \<and> mr_info (snd (run_mar m ops)) = mr_info m" for m
  proof (induction ops arbitrary: m)
    case (Cons x ops)
    obtain mem opr where x: "x = (mem, opr)"
      by (cases x)
    have "\<not> WRITABLE (snd (exec mem m opr))"
      using Cons.prems exec_readonly [OF Cons.prems, of mem opr] by (simp add: WRITABLE_def)
    then show ?case
      using Cons.IH exec_readonly [OF Cons.prems, of mem opr] x by (simp add: split_def)
  qed simp
  with assms show ?thesis
    by blast
qed

lemma readonly_unchanged_witness:
  "let m = \<lparr>mr_refs = 1, mr_seq = \<lparr>sq_offset = 0, sq_len = 0, sq_addr = Some (replicate 20 1)\<rparr>,
            mr_info = \<lparr>if_proto = 3, if_fields = 9, if_hsize = 4, if_bsize = 0\<rparr>,
            mr_flags = AUG_RDONLY, mr_offset = 0\<rparr>
   in sq_addr (mr_seq (snd (run_mar m sample_ops))) = Some (replicate 20 1)"
proof -
  have "\<not> WRITABLE \<lparr>mr_refs = 1, mr_seq = \<lparr>sq_offset = 0, sq_len = 0, sq_addr = Some (replicate 20 1)\<rparr>,
            mr_info = \<lparr>if_proto = 3, if_fields = 9, if_hsize = 4, if_bsize = 0\<rparr>,
            mr_flags = AUG_RDONLY, mr_offset = 0\<rparr>"
    by (simp add: WRITABLE_def torw_def AUG_RDONLY_def AUG_WRONLY_def AUG_RDWR_def MAR_READ_def MAR_WRITE_def)
  from readonly_unchanged [OF this, of sample_ops] show ?thesis
    by simp
qed

section \<open>Closing and opening\<close>

text \<open>The leader holds the number of fields in 16 bits.\<close>

definition stored_info :: "info \<Rightarrow> info" where
  "stored_info i = i\<lparr>if_fields := if_fields i mod 65536\<rparr>"

lemma enc16_mod: "enc16 (of_nat (n mod 65536)) = enc16 (of_nat n)"
proof -
  have "(of_nat (n mod 65536) :: 16 word) = of_nat n"
    by (simp add: word_of_nat_eq_iff take_bit_eq_mod)
  then show ?thesis by simp
qed

lemma leader_stored: "leader i = leader (stored_info i)"
  by (simp add: leader_def stored_info_def enc16_mod)

lemma info_mem_ok:
  assumes "sq_addr s = Some m" "16 \<le> length m" "length m < 2 ^ 32" "take 4 m = AUG_MAGIC"
  shows "\<exists>l s'. aug_info s = (Inr l, s') \<and> sq_addr s' = Some m"
proof -
  have "length AUG_MAGIC = 4"
    by (simp add: AUG_MAGIC_def str_def)
  then show ?thesis
    using assms setregion_ok [OF assms(1), of 0 16]
    by (simp add: aug_info_def AUG_LEADERSIZE_def AUG_PROTOOFF_def AUG_FIELDSOFF_def AUG_HSIZEOFF_def
        AUG_BSIZEOFF_def Let_def rd16_def rd32_def slice_def)
qed

lemma info_stored: "aug_info s = (Inr l, s') \<Longrightarrow> stored_info l = l"
proof -
  have "rd16 m p = Some k \<Longrightarrow> k mod 65536 = k" for m p k
  proof -
    have "unat w < 65536" for w :: "16 word"
      by (rule order_less_le_trans [OF unsigned_less]) simp
    then show "rd16 m p = Some k \<Longrightarrow> k mod 65536 = k"
      by (auto simp: rd16_def split: if_splits)
  qed
  then show "aug_info s = (Inr l, s') \<Longrightarrow> stored_info l = l"
    by (auto simp: aug_info_def stored_info_def Let_def split: prod.splits sum.splits if_splits option.splits)
qed

lemma info_same_mem: "sq_addr s = sq_addr t \<Longrightarrow> fst (aug_info s) = fst (aug_info t)"
  by (auto simp: aug_info_def aug_setregion_def aug_seqsize_def aug_seqaddr_def Let_def
      split: option.splits)

lemma destroy_mem:
  assumes m: "mar_refines m a" and w: "can_write a" and p: "if_proto (mr_info m) = 3"
  obtains ld where "sq_addr (destroy m) = Some (ld @ hdr (ar_fields a) @ ar_body a)" "length ld = 16"
    "take 4 ld = AUG_MAGIC" "fst (aug_info (destroy m)) = Inr (stored_info (mr_info m))"
proof -
  let ?i = "mr_info m" and ?rest = "hdr (ar_fields a) @ ar_body a"
  obtain ld where ld: "sq_addr (mr_seq m) = Some (ld @ ?rest)" "length ld = 16" "take 4 ld = AUG_MAGIC"
      "length ld + length (hdr (ar_fields a)) + length (ar_body a) < 2 ^ 32"
      "if_fields ?i = length (ar_fields a)" "if_hsize ?i = length (hdr (ar_fields a))"
      "if_bsize ?i = length (ar_body a)"
    using m unfolding mar_refines_def by (elim conjE mar_repE)
  obtain l s where l: "aug_info (mr_seq m) = (Inr l, s)" "sq_addr s = Some (ld @ ?rest)"
    using info_mem_ok [OF ld(1)] ld by auto
  show thesis
  proof (cases "l = ?i")
    case True
    then have "destroy m = s"
      using l WRITABLE_iff [OF m] w by (simp add: destroy_def)
    moreover have "fst (aug_info s) = Inr (stored_info ?i)"
      using l True info_stored [OF l(1)] info_same_mem [of s "mr_seq m"] ld(1) by simp
    ultimately show ?thesis
      using that l ld by metis
  next
    case False
    let ?t = "\<lparr>sq_offset = 0, sq_len = 16, sq_addr = Some (leader ?i @ ?rest)\<rparr> :: seq"
    have "destroy m = ?t"
      using l WRITABLE_iff [OF m] w False setinfo_mem [OF l(2), of ?i] ld by (simp add: destroy_def)
    moreover have "aug_info ?t = (Inr (stored_info ?i), ?t\<lparr>sq_offset := 0, sq_len := 16\<rparr>)"
      using ld p by (intro info_leader [where m = ?rest])
        (simp_all add: leader_stored [of ?i] info_ok_def stored_info_def)
    ultimately show ?thesis
      using that [of "leader ?i"] by simp
  qed
qed

text \<open>
  C24: Closing and opening again loses nothing up to 65535 fields.  Opening the bytes a writable
  archive leaves when it is destroyed gives an archive in the same abstract state with the
  offset at zero; with more fields the opened archive counts them modulo 65536, since the
  leader stores the count in 16 bits and no operation enforces \<^verbatim>\<open>AUG_MAXFIELDS\<close>.
\<close>
theorem reopen:
  assumes "mar_refines m a" "can_write a" "if_proto (mr_info m) = 3" "flags AND AUG_TRUNC = 0"
  shows "\<exists>m'. aug_openmar mem (destroy m) flags = Inr m'
    \<and> getcount m' = length (ar_fields a) mod 65536
    \<and> (length (ar_fields a) < 65536 \<longrightarrow> mar_refines m' (a\<lparr>ar_offset := 0, ar_flags := flags\<rparr>))"
proof -
  let ?i = "mr_info m"
  have rep: "mar_rep (mr_seq m) ?i (ar_fields a) (ar_body a)"
    using assms(1) by (simp add: mar_refines_def)
  obtain ld where ld: "sq_addr (destroy m) = Some (ld @ hdr (ar_fields a) @ ar_body a)" "length ld = 16"
    "take 4 ld = AUG_MAGIC" "fst (aug_info (destroy m)) = Inr (stored_info ?i)"
    using assms(1-3) by (rule destroy_mem)
  have size: "16 + length (hdr (ar_fields a)) + length (ar_body a) < 2 ^ 32"
    and counts: "if_fields ?i = length (ar_fields a)"
    using rep by (auto elim!: mar_repE)
  obtain s' where s': "aug_info (destroy m) = (Inr (stored_info ?i), s')"
      "sq_addr s' = Some (ld @ hdr (ar_fields a) @ ar_body a)"
    using info_mem_ok [OF ld(1)] ld size by auto
  let ?m = "\<lparr>mr_refs = 1, mr_seq = s', mr_info = stored_info ?i, mr_flags = flags, mr_offset = 0\<rparr>"
  have "aug_openmar mem (destroy m) flags = Inr ?m"
    using s' ld assms(3,4)
    by (simp add: aug_openmar_def init_def AUG_LEADERSIZE_def stored_info_def)
  moreover have "mar_refines ?m (a\<lparr>ar_offset := 0, ar_flags := flags\<rparr>)" if "length (ar_fields a) < 65536"
    using rep that s' ld size by (auto simp: mar_refines_def mar_rep_def AUG_LEADERSIZE_def stored_info_def)
  ultimately show ?thesis
    using counts by (simp add: getcount_def stored_info_def)
qed

lemma reopen_witness:
  "\<exists>m m'. aug_createmar True True = Inr m \<and> aug_openmar False (destroy m) AUG_RDONLY = Inr m'
     \<and> mar_refines m' (empty_archive\<lparr>ar_offset := 0, ar_flags := AUG_RDONLY\<rparr>)"
proof -
  obtain m where m: "aug_createmar True True = Inr m" "mar_refines m empty_archive"
      "if_proto (mr_info m) = 3"
    using createmar_empty by blast
  have "can_write empty_archive" "AUG_RDONLY AND AUG_TRUNC = 0" "length (ar_fields empty_archive) < 65536"
    by (simp_all add: empty_archive_def archive_eval)
  with reopen [OF m(2) _ m(3), of AUG_RDONLY False] m(1) show ?thesis
    by blast
qed

section \<open>Offsets past 4 GB\<close>

text \<open>A write whose end wraps inside the body runs outside the archive's memory.\<close>

lemma write_past_4gb:
  assumes rep: "mar_rep s i fs body"
    and k: "k < length body" "off + length d = 2 ^ 32 + k"
  shows "fst (aug_write mem s i off d) = Inl Undefined"
proof -
  have sz: "16 + length (hdr fs) + length body < 2 ^ 32"
    using rep by (auto elim!: mar_repE)
  have "uadd off (length d) = k"
    using k sz by (simp add: uadd_def)
  moreover obtain s' ld where "body_resize mem s i k False
        = (Inr (16 + length (hdr fs)), s', i\<lparr>if_bsize := length body\<rparr>)"
      "length ld = 16" "sq_addr s' = Some ((ld @ hdr fs) @ body)"
    using body_resize_rep [OF rep, of k mem False] k sz
    by (auto simp: resized_body_def split: prod.splits)
  moreover have "\<not> 16 + length (hdr fs) + off + length d \<le> 16 + length (hdr fs) + length body"
    using k sz by simp
  ultimately show ?thesis
    by (simp add: aug_write_def pokeseq_def memcpy_def)
qed

text \<open>
  Seeking a position of 4 GB or more returns that position but leaves the offset at the position
  modulo \<open>2 ^ 32\<close>: \<^verbatim>\<open>offset_\<close> is an \<^verbatim>\<open>unsigned\<close> while the position is an \<^verbatim>\<open>off_t\<close>.
\<close>

lemma seek_truncates:
  "0 \<le> q \<Longrightarrow> seek m q AUG_SET = (Inr q, m\<lparr>mr_offset := nat (q mod 2 ^ 32)\<rparr>)"
  by (simp add: seek_def Let_def)

end
