(* ===== verification/Base64.thy ===== *)
theory Base64
  imports Prelude
begin

text \<open>
  \<^verbatim>\<open>augnet/base64.c\<close>: the streaming base64 encoder and decoder.  \<open>'s b64\<close> is
  \<^verbatim>\<open>struct aug_base64_\<close>: the filled part of \<^verbatim>\<open>buf_\<close>, the characters saved between calls and
  the state \<open>'s\<close> of the callback's object; \<^verbatim>\<open>int\<close> values are 32-bit words and a \<^verbatim>\<open>char\<close> is
  signed.  The callback is an argument of every operation.  \<open>encode_stream\<close> and
  \<open>decode_stream\<close> say that, however the input is cut into calls, what reaches the callback is
  the encoding of the whole and that it decodes to what was encoded.
\<close>

definition AUG_MAXLINE :: nat where "AUG_MAXLINE = 1024"

record 's b64 =
  b_buf :: "byte list"
  b_save0 :: "32 word"
  b_save1 :: "32 word"
  b_save2 :: "32 word"
  b_saved :: nat
  b_ob :: 's

type_synonym 's callback = "'s \<Rightarrow> byte list \<Rightarrow> (aug_fail + unit) \<times> 's"

section \<open>Tables\<close>

definition encoder :: "byte list" where
  "encoder = str (
     ''ABCDEFGH'' @ ''IJKLMNOP'' @ ''QRSTUVWX'' @ ''YZabcdef'' @
     ''ghijklmn'' @ ''opqrstuv'' @ ''wxyz0123'' @ ''456789+/'')"

text \<open>A \<^verbatim>\<open>char\<close> promoted to \<^verbatim>\<open>int\<close>.\<close>

definition int_of_char :: "byte \<Rightarrow> 32 word" where
  "int_of_char b = scast b"

definition ENCODE :: "32 word \<Rightarrow> byte" where "ENCODE x = encoder ! unat x"
definition ENCODE0 :: "32 word \<Rightarrow> byte" where "ENCODE0 x = ENCODE (drop_bit 2 (x AND 0xFC))"
definition ENCODE1 :: "32 word \<Rightarrow> 32 word \<Rightarrow> byte" where
  "ENCODE1 x y = ENCODE (push_bit 4 (x AND 0x03) OR drop_bit 4 (y AND 0xF0))"
definition ENCODE2 :: "32 word \<Rightarrow> 32 word \<Rightarrow> byte" where
  "ENCODE2 x y = ENCODE (push_bit 2 (x AND 0x0F) OR drop_bit 6 (y AND 0xC0))"
definition ENCODE3 :: "32 word \<Rightarrow> byte" where "ENCODE3 x = ENCODE (x AND 0x3F)"

definition INV_OUT :: "32 word" where "INV_OUT = - 1"
definition END_OUT :: "32 word" where "END_OUT = - 2"

definition decoder :: "32 word list" where
  "decoder =
     [END_OUT] @ replicate 42 INV_OUT @ [62, INV_OUT, INV_OUT, INV_OUT, 63] @
     [52, 53, 54, 55, 56, 57, 58, 59, 60, 61, INV_OUT, INV_OUT, INV_OUT, END_OUT, INV_OUT, INV_OUT] @
     [INV_OUT, 0, 1, 2, 3, 4, 5, 6, 7, 8, 9, 10, 11, 12, 13, 14, 15, 16, 17, 18, 19, 20, 21, 22,
      23, 24, 25] @ replicate 5 INV_OUT @
     [INV_OUT, 26, 27, 28, 29, 30, 31, 32, 33, 34, 35, 36, 37, 38, 39, 40, 41, 42, 43, 44, 45, 46, 47, 48,
      49, 50, 51] @ replicate 133 INV_OUT"

text \<open>
  The index is the promoted \<^verbatim>\<open>char\<close>: for a byte of 128 or more it is negative and the read is
  outside the table.
\<close>

definition DECODE :: "byte \<Rightarrow> 32 word option" where
  "DECODE b = (if b < 128 then Some (decoder ! unat b) else None)"

definition DECODE0 :: "32 word \<Rightarrow> 32 word \<Rightarrow> byte" where
  "DECODE0 x y = ucast (push_bit 2 x OR drop_bit 4 (y AND 0x30))"
definition DECODE1 :: "32 word \<Rightarrow> 32 word \<Rightarrow> byte" where
  "DECODE1 x y = ucast (push_bit 4 (x AND 0x0F) OR drop_bit 2 (y AND 0x3C))"
definition DECODE2 :: "32 word \<Rightarrow> 32 word \<Rightarrow> byte" where
  "DECODE2 x y = ucast (push_bit 6 (x AND 0x03) OR (y AND 0x3F))"

section \<open>Output\<close>

definition flush :: "'s callback \<Rightarrow> 's b64 \<Rightarrow> (aug_fail + unit) \<times> 's b64" where
  "flush cb b = (case cb (b_ob b) (b_buf b) of (r, ob) \<Rightarrow> (r, b\<lparr>b_buf := [], b_ob := ob\<rparr>))"

definition putch :: "'s callback \<Rightarrow> 's b64 \<Rightarrow> byte \<Rightarrow> (aug_fail + unit) \<times> 's b64" where
  "putch cb b ch =
     (case (if AUG_MAXLINE - 1 \<le> length (b_buf b) + 1 then flush cb b else (Inr (), b)) of
        (Inl e, b) \<Rightarrow> (Inl e, b)
      | (Inr _, b) \<Rightarrow> (Inr (), b\<lparr>b_buf := b_buf b @ [ch]\<rparr>))"

text \<open>Several characters, stopping at the first failure.\<close>

fun putchs :: "'s callback \<Rightarrow> 's b64 \<Rightarrow> byte list \<Rightarrow> (aug_fail + unit) \<times> 's b64" where
  "putchs cb b [] = (Inr (), b)"
| "putchs cb b (ch # chs) =
     (case putch cb b ch of (Inl e, b) \<Rightarrow> (Inl e, b) | (Inr _, b) \<Rightarrow> putchs cb b chs)"

definition putchunk :: "'s callback \<Rightarrow> 's b64 \<Rightarrow> byte list \<Rightarrow> (aug_fail + unit) \<times> 's b64" where
  "putchunk cb b chunk =
     (case (if AUG_MAXLINE \<le> length (b_buf b) + 4 then flush cb b else (Inr (), b)) of
        (Inl e, b) \<Rightarrow> (Inl e, b)
      | (Inr _, b) \<Rightarrow> (Inr (), b\<lparr>b_buf := b_buf b @ chunk\<rparr>))"

section \<open>Encoding\<close>

definition encodealign :: "'s callback \<Rightarrow> 's b64 \<Rightarrow> byte list \<Rightarrow> (aug_fail + nat) \<times> 's b64" where
  "encodealign cb b src =
     (if b_saved b = 2 then
        (case src of
           [] \<Rightarrow> (Inl ExNone, b)
         | x # _ \<Rightarrow>
             (case putchunk cb (b\<lparr>b_saved := 0\<rparr>)
                     [ENCODE0 (b_save0 b), ENCODE1 (b_save0 b) (b_save1 b),
                      ENCODE2 (b_save1 b) (int_of_char x), ENCODE3 (int_of_char x)] of
                (Inl e, b) \<Rightarrow> (Inl e, b) | (Inr _, b) \<Rightarrow> (Inr 1, b)))
      else if b_saved b = 1 then
        (case src of
           [] \<Rightarrow> (Inl ExNone, b)
         | [x] \<Rightarrow> (Inl ExNone, b\<lparr>b_save1 := int_of_char x, b_saved := 2\<rparr>)
         | x # y # _ \<Rightarrow>
             (case putchunk cb (b\<lparr>b_saved := 0\<rparr>)
                     [ENCODE0 (b_save0 b), ENCODE1 (b_save0 b) (int_of_char x),
                      ENCODE2 (int_of_char x) (int_of_char y), ENCODE3 (int_of_char y)] of
                (Inl e, b) \<Rightarrow> (Inl e, b) | (Inr _, b) \<Rightarrow> (Inr 2, b)))
      else (Inr 0, b))"

text \<open>The loop over whole chunks and the bytes kept after it.\<close>

fun encodechunks :: "'s callback \<Rightarrow> 's b64 \<Rightarrow> byte list \<Rightarrow> (aug_fail + unit) \<times> 's b64" where
  "encodechunks cb b (x # y # z # src) =
     (case putchunk cb b
             [ENCODE0 (int_of_char x), ENCODE1 (int_of_char x) (int_of_char y),
              ENCODE2 (int_of_char y) (int_of_char z), ENCODE3 (int_of_char z)] of
        (Inl e, b) \<Rightarrow> (Inl e, b) | (Inr _, b) \<Rightarrow> encodechunks cb b src)"
| "encodechunks cb b [x, y] =
     (Inr (), b\<lparr>b_save1 := int_of_char y, b_save0 := int_of_char x, b_saved := 2\<rparr>)"
| "encodechunks cb b [x] = (Inr (), b\<lparr>b_save0 := int_of_char x, b_saved := 1\<rparr>)"
| "encodechunks cb b [] = (Inr (), b)"

definition encodeappend :: "'s callback \<Rightarrow> 's b64 \<Rightarrow> byte list \<Rightarrow> (aug_fail + unit) \<times> 's b64" where
  "encodeappend cb b src =
     (case encodealign cb b src of
        (Inl e, b) \<Rightarrow> (if e = ExNone then Inr () else Inl e, b)
      | (Inr align, b) \<Rightarrow> encodechunks cb b (drop align src))"

definition encodefinish :: "'s callback \<Rightarrow> 's b64 \<Rightarrow> (aug_fail + unit) \<times> 's b64" where
  "encodefinish cb b =
     (case (if b_saved b = 2 then
              putchunk cb (b\<lparr>b_saved := 0\<rparr>)
                [ENCODE0 (b_save0 b), ENCODE1 (b_save0 b) (b_save1 b), ENCODE2 (b_save1 b) 0, 61]
            else if b_saved b = 1 then
              putchunk cb (b\<lparr>b_saved := 0\<rparr>)
                [ENCODE0 (b_save0 b), ENCODE1 (b_save0 b) 0, 61, 61]
            else (Inr (), b)) of
        (Inl e, b) \<Rightarrow> (Inl e, b)
      | (Inr _, b) \<Rightarrow> if b_buf b \<noteq> [] then flush cb b else (Inr (), b))"

section \<open>Decoding\<close>

datatype decoded = DEnd | DInv | DVal "32 word" | DOut

definition decode_char :: "byte \<Rightarrow> decoded" where
  "decode_char ch =
     (case DECODE ch of
        None \<Rightarrow> DOut
      | Some out \<Rightarrow> if out = END_OUT then DEnd else if out = INV_OUT then DInv else DVal out)"

text \<open>
  The three entry points of the \<^verbatim>\<open>switch\<close> of \<^verbatim>\<open>decodealign_\<close>; each falls through to the next.
  \<open>align\<close> is the number of characters the alignment takes.
\<close>

definition align3 ::
  "'s callback \<Rightarrow> nat \<Rightarrow> 's b64 \<Rightarrow> 32 word \<Rightarrow> 32 word \<Rightarrow> 32 word \<Rightarrow> byte list \<Rightarrow> (aug_fail + nat) \<times> 's b64" where
  "align3 cb align b c0 c1 c2 src =
     (case src of
        [] \<Rightarrow> (Inl ExNone, b)
      | ch # src \<Rightarrow>
          (case decode_char ch of
             DEnd \<Rightarrow>
               (case putchs cb b [DECODE0 c0 c1, DECODE1 c1 c2] of
                  (Inl e, b) \<Rightarrow> (Inl e, b) | (Inr _, b) \<Rightarrow> (Inl ExNone, b\<lparr>b_saved := 0\<rparr>))
           | DInv \<Rightarrow> (Inl (ExError EPARSE), b)
           | DOut \<Rightarrow> (Inl Undefined, b)
           | DVal c3 \<Rightarrow>
               (case putchs cb b [DECODE0 c0 c1, DECODE1 c1 c2, DECODE2 c2 c3] of
                  (Inl e, b) \<Rightarrow> (Inl e, b) | (Inr _, b) \<Rightarrow> (Inr align, b\<lparr>b_saved := 0\<rparr>))))"

definition align2 ::
  "'s callback \<Rightarrow> nat \<Rightarrow> 's b64 \<Rightarrow> 32 word \<Rightarrow> 32 word \<Rightarrow> byte list \<Rightarrow> (aug_fail + nat) \<times> 's b64" where
  "align2 cb align b c0 c1 src =
     (case src of
        [] \<Rightarrow> (Inl ExNone, b)
      | ch # src \<Rightarrow>
          (case decode_char ch of
             DEnd \<Rightarrow>
               (case putchs cb b [DECODE0 c0 c1] of
                  (Inl e, b) \<Rightarrow> (Inl e, b) | (Inr _, b) \<Rightarrow> (Inl ExNone, b\<lparr>b_saved := 0\<rparr>))
           | DInv \<Rightarrow> (Inl (ExError EPARSE), b)
           | DOut \<Rightarrow> (Inl Undefined, b)
           | DVal c2 \<Rightarrow> align3 cb align (b\<lparr>b_save2 := c2, b_saved := 3\<rparr>) c0 c1 c2 src))"

definition align1 ::
  "'s callback \<Rightarrow> nat \<Rightarrow> 's b64 \<Rightarrow> 32 word \<Rightarrow> byte list \<Rightarrow> (aug_fail + nat) \<times> 's b64" where
  "align1 cb align b c0 src =
     (case src of
        [] \<Rightarrow> (Inl ExNone, b)
      | ch # src \<Rightarrow>
          (case decode_char ch of
             DEnd \<Rightarrow> (Inl (ExError EPARSE), b)
           | DInv \<Rightarrow> (Inl (ExError EPARSE), b)
           | DOut \<Rightarrow> (Inl Undefined, b)
           | DVal c1 \<Rightarrow> align2 cb align (b\<lparr>b_save1 := c1, b_saved := 2\<rparr>) c0 c1 src))"

definition decodealign :: "'s callback \<Rightarrow> 's b64 \<Rightarrow> byte list \<Rightarrow> (aug_fail + nat) \<times> 's b64" where
  "decodealign cb b src =
     (if b_saved b = 3 then align3 cb 1 b (b_save0 b) (b_save1 b) (b_save2 b) src
      else if b_saved b = 2 then align2 cb 2 b (b_save0 b) (b_save1 b) src
      else if b_saved b = 1 then align1 cb 3 b (b_save0 b) src
      else (Inr 0, b))"

text \<open>
  The loop of \<^verbatim>\<open>decodeappend_\<close>, one function per character of a chunk; running out of
  characters in the middle of a chunk saves what was read of it.
\<close>

fun decode0 :: "'s callback \<Rightarrow> 's b64 \<Rightarrow> byte list \<Rightarrow> (aug_fail + unit) \<times> 's b64"
and decode1 :: "'s callback \<Rightarrow> 's b64 \<Rightarrow> 32 word \<Rightarrow> byte list \<Rightarrow> (aug_fail + unit) \<times> 's b64"
and decode2 :: "'s callback \<Rightarrow> 's b64 \<Rightarrow> 32 word \<Rightarrow> 32 word \<Rightarrow> byte list \<Rightarrow> (aug_fail + unit) \<times> 's b64"
and decode3 :: "'s callback \<Rightarrow> 's b64 \<Rightarrow> 32 word \<Rightarrow> 32 word \<Rightarrow> 32 word \<Rightarrow> byte list \<Rightarrow> (aug_fail + unit) \<times> 's b64"
where
  "decode0 cb b [] = (Inr (), b)"
| "decode0 cb b (ch # src) =
     (case decode_char ch of
        DEnd \<Rightarrow> (Inl (ExError EPARSE), b)
      | DInv \<Rightarrow> (Inl (ExError EPARSE), b)
      | DOut \<Rightarrow> (Inl Undefined, b)
      | DVal c0 \<Rightarrow> decode1 cb b c0 src)"
| "decode1 cb b c0 [] = (Inr (), b\<lparr>b_saved := 1, b_save0 := c0\<rparr>)"
| "decode1 cb b c0 (ch # src) =
     (case decode_char ch of
        DEnd \<Rightarrow> (Inl (ExError EPARSE), b)
      | DInv \<Rightarrow> (Inl (ExError EPARSE), b)
      | DOut \<Rightarrow> (Inl Undefined, b)
      | DVal c1 \<Rightarrow> decode2 cb b c0 c1 src)"
| "decode2 cb b c0 c1 [] = (Inr (), b\<lparr>b_saved := 2, b_save1 := c1, b_save0 := c0\<rparr>)"
| "decode2 cb b c0 c1 (ch # src) =
     (case decode_char ch of
        DEnd \<Rightarrow> putchs cb b [DECODE0 c0 c1]
      | DInv \<Rightarrow> (Inl (ExError EPARSE), b)
      | DOut \<Rightarrow> (Inl Undefined, b)
      | DVal c2 \<Rightarrow> decode3 cb b c0 c1 c2 src)"
| "decode3 cb b c0 c1 c2 [] = (Inr (), b\<lparr>b_saved := 3, b_save2 := c2, b_save1 := c1, b_save0 := c0\<rparr>)"
| "decode3 cb b c0 c1 c2 (ch # src) =
     (case decode_char ch of
        DEnd \<Rightarrow> putchs cb b [DECODE0 c0 c1, DECODE1 c1 c2]
      | DInv \<Rightarrow> (Inl (ExError EPARSE), b)
      | DOut \<Rightarrow> (Inl Undefined, b)
      | DVal c3 \<Rightarrow>
          (case putchs cb b [DECODE0 c0 c1, DECODE1 c1 c2, DECODE2 c2 c3] of
             (Inl e, b) \<Rightarrow> (Inl e, b) | (Inr _, b) \<Rightarrow> decode0 cb b src))"

definition decodeappend :: "'s callback \<Rightarrow> 's b64 \<Rightarrow> byte list \<Rightarrow> (aug_fail + unit) \<times> 's b64" where
  "decodeappend cb b src =
     (case decodealign cb b src of
        (Inl e, b) \<Rightarrow> (if e = ExNone then Inr () else Inl e, b)
      | (Inr align, b) \<Rightarrow> decode0 cb b (drop align src))"

definition decodefinish :: "'s callback \<Rightarrow> 's b64 \<Rightarrow> (aug_fail + unit) \<times> 's b64" where
  "decodefinish cb b = (if b_buf b \<noteq> [] then flush cb b else (Inr (), b))"

text \<open>The saved characters of a new object are indeterminate.\<close>

definition aug_createbase64 :: "32 word \<Rightarrow> 's \<Rightarrow> 's b64" where
  "aug_createbase64 junk ob =
     \<lparr>b_buf = [], b_save0 = junk, b_save1 = junk, b_save2 = junk, b_saved = 0, b_ob = ob\<rparr>"


section \<open>Sextets\<close>

lemma masks32:
  "(0xFC :: 32 word) = push_bit 2 (mask 6)" "(0x03 :: 32 word) = mask 2"
  "(0xF0 :: 32 word) = push_bit 4 (mask 4)" "(0x0F :: 32 word) = mask 4"
  "(0xC0 :: 32 word) = push_bit 6 (mask 2)" "(0x3F :: 32 word) = mask 6"
  "(0x30 :: 32 word) = push_bit 4 (mask 2)" "(0x3C :: 32 word) = push_bit 2 (mask 4)"
  by (simp_all add: mask_eq_exp_minus_1 push_bit_eq_mult)

lemma b64_bit_less: "bit (b :: byte) n \<Longrightarrow> n < 8"
  using bit_imp_le_length [of b n] by simp

definition sextet0 :: "byte \<Rightarrow> 32 word" where "sextet0 x = drop_bit 2 (int_of_char x AND 0xFC)"
definition sextet1 :: "byte \<Rightarrow> byte \<Rightarrow> 32 word" where
  "sextet1 x y = push_bit 4 (int_of_char x AND 0x03) OR drop_bit 4 (int_of_char y AND 0xF0)"
definition sextet2 :: "byte \<Rightarrow> byte \<Rightarrow> 32 word" where
  "sextet2 x y = push_bit 2 (int_of_char x AND 0x0F) OR drop_bit 6 (int_of_char y AND 0xC0)"
definition sextet3 :: "byte \<Rightarrow> 32 word" where "sextet3 x = int_of_char x AND 0x3F"

lemma bit_int_of_char: "n < 8 \<Longrightarrow> bit (int_of_char x) n \<longleftrightarrow> bit x n"
  by (cases "n = 7") (auto simp: int_of_char_def bit_simps min_def)

definition group :: "byte \<Rightarrow> byte \<Rightarrow> byte \<Rightarrow> 32 word" where
  "group x y z = push_bit 16 (ucast x) OR push_bit 8 (ucast y) OR ucast z"

definition sextet :: "nat \<Rightarrow> 32 word \<Rightarrow> 32 word" where
  "sextet k w = take_bit 6 (drop_bit k w)"

lemma sextets:
  "sextet0 x = sextet 18 (group x y z)" "sextet1 x y = sextet 12 (group x y z)"
  "sextet2 y z = sextet 6 (group x y z)" "sextet3 z = sextet 0 (group x y z)"
proof -
  show "sextet0 x = sextet 18 (group x y z)"
  proof (rule bit_word_eqI)
   fix n assume "n < LENGTH(32)"
   show "bit (sextet0 x) n = bit (sextet 18 (group x y z)) n"
    by (cases "n < 6") (auto simp: sextet0_def sextet_def group_def masks32 bit_simps bit_int_of_char dest: b64_bit_less)
  qed
  show "sextet1 x y = sextet 12 (group x y z)"
  proof (rule bit_word_eqI)
   fix n assume "n < LENGTH(32)"
   then consider "n < 4" | "4 \<le> n" "n < 6" | "6 \<le> n" by linarith
   then show "bit (sextet1 x y) n = bit (sextet 12 (group x y z)) n"
    by cases (auto simp: sextet1_def sextet_def group_def masks32 bit_simps bit_int_of_char dest: b64_bit_less)
  qed
  show "sextet2 y z = sextet 6 (group x y z)"
  proof (rule bit_word_eqI)
   fix n assume "n < LENGTH(32)"
   then consider "n < 2" | "2 \<le> n" "n < 6" | "6 \<le> n" by linarith
   then show "bit (sextet2 y z) n = bit (sextet 6 (group x y z)) n"
    by cases (auto simp: sextet2_def sextet_def group_def masks32 bit_simps bit_int_of_char dest: b64_bit_less)
  qed
  show "sextet3 z = sextet 0 (group x y z)"
  proof (rule bit_word_eqI)
   fix n assume "n < LENGTH(32)"
   show "bit (sextet3 z) n = bit (sextet 0 (group x y z)) n"
    by (cases "n < 6") (auto simp: sextet3_def sextet_def group_def masks32 bit_simps bit_int_of_char dest: b64_bit_less)
  qed
qed

lemma unat_sextet: "unat (sextet k w) < 64"
proof -
  have "unat (sextet k w) = take_bit 6 (unat (drop_bit k w))"
    unfolding sextet_def by (rule unsigned_take_bit_eq)
  then show ?thesis
    using take_bit_nat_less_exp [of 6 "unat (drop_bit k w)"] by simp
qed

lemma decode_values:
  "DECODE0 (sextet 18 (group x y z)) (sextet 12 (group x y z)) = x"
  "DECODE1 (sextet 12 (group x y z)) (sextet 6 (group x y z)) = y"
  "DECODE2 (sextet 6 (group x y z)) (sextet 0 (group x y z)) = z"
proof -
  show "DECODE0 (sextet 18 (group x y z)) (sextet 12 (group x y z)) = x"
  proof (rule bit_word_eqI)
   fix n assume "n < LENGTH(8)"
   then consider "n < 2" | "2 \<le> n" "n < 8" by fastforce
   then show "bit (DECODE0 (sextet 18 (group x y z)) (sextet 12 (group x y z))) n = bit x n"
    by cases (auto simp: DECODE0_def sextet_def group_def masks32 bit_simps dest: b64_bit_less)
  qed
  show "DECODE1 (sextet 12 (group x y z)) (sextet 6 (group x y z)) = y"
  proof (rule bit_word_eqI)
   fix n assume "n < LENGTH(8)"
   then consider "n < 4" | "4 \<le> n" "n < 8" by fastforce
   then show "bit (DECODE1 (sextet 12 (group x y z)) (sextet 6 (group x y z))) n = bit y n"
    by cases (auto simp: DECODE1_def sextet_def group_def masks32 bit_simps dest: b64_bit_less)
  qed
  show "DECODE2 (sextet 6 (group x y z)) (sextet 0 (group x y z)) = z"
  proof (rule bit_word_eqI)
   fix n assume "n < LENGTH(8)"
   then consider "n < 6" | "6 \<le> n" "n < 8" by fastforce
   then show "bit (DECODE2 (sextet 6 (group x y z)) (sextet 0 (group x y z))) n = bit z n"
    by cases (auto simp: DECODE2_def sextet_def group_def masks32 bit_simps dest: b64_bit_less)
  qed
qed

lemma decode_alphabet: "n < 64 \<Longrightarrow> decode_char (encoder ! n) = DVal (of_nat n)"
proof -
  have "list_all (\<lambda>n. decode_char (encoder ! n) = DVal (of_nat n)) [0..<64]"
    by code_simp
  then show "n < 64 \<Longrightarrow> decode_char (encoder ! n) = DVal (of_nat n)"
    by (simp add: list_all_iff)
qed

lemma decode_pad: "decode_char 61 = DEnd"
  by code_simp

lemma int_of_char_0 [simp]: "int_of_char 0 = 0"
  by (simp add: int_of_char_def)

definition chars :: "32 word \<Rightarrow> nat list \<Rightarrow> byte list" where
  "chars w ks = map (\<lambda>k. encoder ! unat (sextet k w)) ks"

text \<open>Base64 as RFC 1521 gives it: sextets of 24-bit groups, and the padding.\<close>

fun b64_encode :: "byte list \<Rightarrow> byte list" where
  "b64_encode (x # y # z # bs) = chars (group x y z) [18, 12, 6, 0] @ b64_encode bs"
| "b64_encode [x, y] = chars (group x y 0) [18, 12, 6] @ [61]"
| "b64_encode [x] = chars (group x 0 0) [18, 12] @ [61, 61]"
| "b64_encode [] = []"

lemma ENCODE_chars:
  "[ENCODE0 (int_of_char x), ENCODE1 (int_of_char x) (int_of_char y),
    ENCODE2 (int_of_char y) (int_of_char z), ENCODE3 (int_of_char z)] = chars (group x y z) [18, 12, 6, 0]"
  using sextets [where x = x and y = y and z = z]
  by (simp add: ENCODE0_def ENCODE1_def ENCODE2_def ENCODE3_def ENCODE_def chars_def
      sextet0_def sextet1_def sextet2_def sextet3_def)

lemma ENCODE_chars2:
  "[ENCODE0 (int_of_char x), ENCODE1 (int_of_char x) (int_of_char y),
    ENCODE2 (int_of_char y) 0, 61] = chars (group x y 0) [18, 12, 6] @ [61]"
  using ENCODE_chars [of x y 0] by (simp add: chars_def)

lemma ENCODE_chars1:
  "[ENCODE0 (int_of_char x), ENCODE1 (int_of_char x) 0, 61, 61] = chars (group x 0 0) [18, 12] @ [61, 61]"
  using ENCODE_chars [of x 0 0] by (simp add: chars_def)

text \<open>The part of the input that is encoded at once, and what is kept of it.\<close>

fun whole :: "byte list \<Rightarrow> byte list" where
  "whole (x # y # z # bs) = chars (group x y z) [18, 12, 6, 0] @ whole bs"
| "whole bs = []"

lemmas whole_cases = whole.induct [case_names three none one two]

fun pend :: "byte list \<Rightarrow> byte list" where
  "pend (x # y # z # bs) = pend bs"
| "pend bs = bs"

lemma whole_append: "whole (a @ b) = whole a @ whole (pend a @ b)"
  by (induction a rule: whole.induct) simp_all

lemma pend_append: "pend (a @ b) = pend (pend a @ b)"
  by (induction a rule: pend.induct) simp_all

lemma b64_encode_whole: "b64_encode bs = whole bs @ b64_encode (pend bs)"
  by (induction bs rule: b64_encode.induct) simp_all

lemma pend_cases: "pend bs = [] \<or> (\<exists>x. pend bs = [x]) \<or> (\<exists>x y. pend bs = [x, y])"
  by (induction bs rule: pend.induct) auto

section \<open>What reaches the callback\<close>

text \<open>
  \<open>delivered cb b b' out\<close>: from \<open>b\<close> to \<open>b'\<close> the characters \<open>out\<close> were output, in blocks that
  the callback took one after the other, none of them longer than the buffer less its null, and
  the last of them still in the buffer.
\<close>

definition delivered :: "'s callback \<Rightarrow> 's b64 \<Rightarrow> 's b64 \<Rightarrow> byte list \<Rightarrow> bool" where
  "delivered cb b b' out \<longleftrightarrow>
     (\<exists>blocks. b_ob b' = foldl (\<lambda>s k. snd (cb s k)) (b_ob b) blocks
        \<and> concat blocks @ b_buf b' = b_buf b @ out
        \<and> (\<forall>k \<in> set blocks. length k < AUG_MAXLINE))
     \<and> length (b_buf b') < AUG_MAXLINE"

definition accepts :: "'s callback \<Rightarrow> bool" where
  "accepts cb \<longleftrightarrow> (\<forall>s k. fst (cb s k) = Inr ())"

lemma delivered_refl: "length (b_buf b) < AUG_MAXLINE \<Longrightarrow> delivered cb b b []"
  unfolding delivered_def by (intro conjI exI [of _ "[]"]) simp_all

lemma delivered_idle [simp]:
  "b_ob b' = b_ob b \<Longrightarrow> b_buf b' = b_buf b \<Longrightarrow> length (b_buf b) < AUG_MAXLINE \<Longrightarrow>
   delivered cb b b' []"
  unfolding delivered_def by (intro conjI exI [of _ "[]"]) simp_all

lemma delivered_trans:
  "delivered cb a b o1 \<Longrightarrow> delivered cb b c o2 \<Longrightarrow> delivered cb a c (o1 @ o2)"
proof -
  assume "delivered cb a b o1" "delivered cb b c o2"
  then obtain k1 k2 where
    "b_ob b = foldl (\<lambda>s k. snd (cb s k)) (b_ob a) k1" "concat k1 @ b_buf b = b_buf a @ o1"
    "\<forall>k \<in> set k1. length k < AUG_MAXLINE"
    "b_ob c = foldl (\<lambda>s k. snd (cb s k)) (b_ob b) k2" "concat k2 @ b_buf c = b_buf b @ o2"
    "\<forall>k \<in> set k2. length k < AUG_MAXLINE" "length (b_buf c) < AUG_MAXLINE"
    by (auto simp: delivered_def)
  moreover from this have "concat (k1 @ k2) @ b_buf c = b_buf a @ o1 @ o2"
    by (metis append.assoc concat_append)
  ultimately show "delivered cb a c (o1 @ o2)"
    unfolding delivered_def by (intro conjI exI [of _ "k1 @ k2"]) auto
qed

lemma delivered_flush:
  "length (b_buf b) < AUG_MAXLINE \<Longrightarrow> b_ob b' = snd (cb (b_ob b) (b_buf b)) \<Longrightarrow>
   b_buf b' = out \<Longrightarrow> length out < AUG_MAXLINE \<Longrightarrow> delivered cb b b' out"
  unfolding delivered_def by (intro conjI exI [of _ "[b_buf b]"]) auto

lemma delivered_buf:
  "b_ob b' = b_ob b \<Longrightarrow> b_buf b' = b_buf b @ out \<Longrightarrow> length (b_buf b') < AUG_MAXLINE \<Longrightarrow>
   delivered cb b b' out"
  unfolding delivered_def by (intro conjI exI [of _ "[]"]) auto

text \<open>Delivery does not depend on what is saved.\<close>

lemma delivered_cong:
  "b_ob a' = b_ob a \<Longrightarrow> b_buf a' = b_buf a \<Longrightarrow> b_ob b' = b_ob b \<Longrightarrow> b_buf b' = b_buf b \<Longrightarrow>
   delivered cb a' b' out \<longleftrightarrow> delivered cb a b out"
  by (simp add: delivered_def)

definition same_saved :: "'s b64 \<Rightarrow> 's b64 \<Rightarrow> bool" where
  "same_saved b b' \<longleftrightarrow> b_saved b' = b_saved b \<and> b_save0 b' = b_save0 b \<and> b_save1 b' = b_save1 b
     \<and> b_save2 b' = b_save2 b"

lemma flush_eq: "accepts cb \<Longrightarrow> flush cb b = (Inr (), b\<lparr>b_buf := [], b_ob := snd (cb (b_ob b) (b_buf b))\<rparr>)"
  by (auto simp: flush_def accepts_def split: prod.splits) (metis fst_conv)

lemma putchunk_ok:
  assumes "accepts cb" "length (b_buf b) < AUG_MAXLINE" "length chunk = 4"
  obtains b' where "putchunk cb b chunk = (Inr (), b')" "delivered cb b b' chunk" "same_saved b b'"
    "length (b_buf b') < AUG_MAXLINE"
proof (cases "AUG_MAXLINE \<le> length (b_buf b) + 4")
  case True
  show thesis
    by (rule that [of "b\<lparr>b_buf := chunk, b_ob := snd (cb (b_ob b) (b_buf b))\<rparr>"])
       (use True assms in \<open>auto simp: putchunk_def flush_eq same_saved_def AUG_MAXLINE_def
          intro!: delivered_flush\<close>)
next
  case False
  show thesis
    by (rule that [of "b\<lparr>b_buf := b_buf b @ chunk\<rparr>"])
       (use False assms in \<open>auto simp: putchunk_def same_saved_def AUG_MAXLINE_def
          intro!: delivered_buf\<close>)
qed

lemma putch_ok:
  assumes "accepts cb" "length (b_buf b) < AUG_MAXLINE"
  obtains b' where "putch cb b ch = (Inr (), b')" "delivered cb b b' [ch]" "same_saved b b'"
    "length (b_buf b') < AUG_MAXLINE"
proof (cases "AUG_MAXLINE - 1 \<le> length (b_buf b) + 1")
  case True
  show thesis
    by (rule that [of "b\<lparr>b_buf := [ch], b_ob := snd (cb (b_ob b) (b_buf b))\<rparr>"])
       (use True assms in \<open>auto simp: putch_def flush_eq same_saved_def AUG_MAXLINE_def
          intro!: delivered_flush\<close>)
next
  case False
  show thesis
    by (rule that [of "b\<lparr>b_buf := b_buf b @ [ch]\<rparr>"])
       (use False assms in \<open>auto simp: putch_def same_saved_def AUG_MAXLINE_def
          intro!: delivered_buf\<close>)
qed

lemma putchs_ok:
  assumes "accepts cb" "length (b_buf b) < AUG_MAXLINE"
  obtains b' where "putchs cb b chs = (Inr (), b')" "delivered cb b b' chs" "same_saved b b'"
    "length (b_buf b') < AUG_MAXLINE"
  using assms(2)
proof (induction chs arbitrary: b thesis)
  case Nil
  then show ?case
    by (auto simp: same_saved_def delivered_refl)
next
  case (Cons ch chs)
  obtain b1 where b1: "putch cb b ch = (Inr (), b1)" "delivered cb b b1 [ch]" "same_saved b b1"
      "length (b_buf b1) < AUG_MAXLINE"
    using assms(1) Cons.prems(2) by (rule putch_ok)
  obtain b2 where "putchs cb b1 chs = (Inr (), b2)" "delivered cb b1 b2 chs" "same_saved b1 b2"
      "length (b_buf b2) < AUG_MAXLINE"
    using Cons.IH b1(4) by blast
  with b1 show ?case
    using delivered_trans [OF b1(2)] by (intro Cons.prems(1) [of b2]) (auto simp: same_saved_def)
qed


section \<open>The encoder\<close>

text \<open>The bytes the object holds back.\<close>

definition holds :: "'s b64 \<Rightarrow> byte list \<Rightarrow> bool" where
  "holds b p \<longleftrightarrow> b_saved b = length p \<and> length (b_buf b) < AUG_MAXLINE
     \<and> (p \<noteq> [] \<longrightarrow> b_save0 b = int_of_char (p ! 0))
     \<and> (1 < length p \<longrightarrow> b_save1 b = int_of_char (p ! 1))"

lemma length_chars [simp]: "length (chars w ks) = length ks"
  by (simp add: chars_def)

lemma encodechunks_ok:
  assumes "accepts cb" "holds b []"
  obtains b' where "encodechunks cb b src = (Inr (), b')" "delivered cb b b' (whole src)" "holds b' (pend src)"
  using assms(2)
proof (induction src arbitrary: b thesis rule: whole_cases)
  case (three x y z bs)
  obtain b1 where b1: "putchunk cb b (chars (group x y z) [18, 12, 6, 0]) = (Inr (), b1)"
      "delivered cb b b1 (chars (group x y z) [18, 12, 6, 0])" "same_saved b b1"
      "length (b_buf b1) < AUG_MAXLINE"
    by (rule putchunk_ok [OF assms(1), of b "chars (group x y z) [18, 12, 6, 0]"])
       (use three in \<open>simp_all add: holds_def\<close>)
  have "holds b1 []"
    using b1(3,4) three by (simp add: holds_def same_saved_def)
  then obtain b2 where b2: "encodechunks cb b1 bs = (Inr (), b2)" "delivered cb b1 b2 (whole bs)"
      "holds b2 (pend bs)"
    using three(1) by blast
  show ?case
    by (rule three(2) [of b2]) (use b1 b2 delivered_trans [OF b1(2) b2(2)] in \<open>simp_all add: ENCODE_chars\<close>)
next
  case none
  then show ?case
    by (auto simp: holds_def delivered_refl)
next
  case (one x)
  show ?case
    by (rule one(1) [of "b\<lparr>b_save0 := int_of_char x, b_saved := 1\<rparr>"])
       (use one in \<open>auto simp: holds_def intro!: delivered_buf\<close>)
next
  case (two x y)
  show ?case
    by (rule two(1) [of "b\<lparr>b_save1 := int_of_char y, b_save0 := int_of_char x, b_saved := 2\<rparr>"])
       (use two in \<open>auto simp: holds_def intro!: delivered_buf\<close>)
qed


lemma encodeappend_ok:
  assumes "accepts cb" "holds b p" "length p < 3"
  obtains b' where "encodeappend cb b src = (Inr (), b')" "delivered cb b b' (whole (p @ src))"
    "holds b' (pend (p @ src))"
proof -
  consider "p = []" | x where "p = [x]" "src = []" | x y where "p = [x]" "src = [y]"
    | x y z r where "p = [x]" "src = y # z # r" | x y where "p = [x, y]" "src = []"
    | x y z r where "p = [x, y]" "src = z # r"
    using assms(3) by (cases p; cases src; cases "tl p"; cases "tl src") auto
  then show thesis
  proof cases
    case 1
    obtain b' where "encodechunks cb b src = (Inr (), b')" "delivered cb b b' (whole src)" "holds b' (pend src)"
      using encodechunks_ok [OF assms(1)] assms(2) 1 by blast
    with 1 that assms(2) show ?thesis
      by (simp add: encodeappend_def encodealign_def holds_def)
  next
    case 2
    then show ?thesis
      using that [of b] assms(2) by (simp add: encodeappend_def encodealign_def holds_def delivered_refl)
  next
    case (3 x y)
    have "delivered cb b (b\<lparr>b_save1 := int_of_char y, b_saved := 2\<rparr>) []"
      using assms(2) by (intro delivered_buf) (simp_all add: holds_def)
    with 3 show ?thesis
      using that [of "b\<lparr>b_save1 := int_of_char y, b_saved := 2\<rparr>"] assms(2)
      by (simp add: encodeappend_def encodealign_def holds_def)
  next
    case (4 x y z r)
    let ?b = "b\<lparr>b_saved := 0\<rparr>" and ?c = "chars (group x y z) [18, 12, 6, 0]"
    obtain b1 where b1: "putchunk cb ?b ?c = (Inr (), b1)" "delivered cb ?b b1 ?c" "same_saved ?b b1"
        "length (b_buf b1) < AUG_MAXLINE"
      by (rule putchunk_ok [OF assms(1), of ?b ?c]) (use assms(2) in \<open>simp_all add: holds_def\<close>)
    have "holds b1 []"
      using b1(3,4) by (simp add: holds_def same_saved_def)
    then obtain b2 where b2: "encodechunks cb b1 r = (Inr (), b2)" "delivered cb b1 b2 (whole r)"
        "holds b2 (pend r)"
      using encodechunks_ok [OF assms(1)] by blast
    have "delivered cb b b1 ?c"
      using b1(2) by (simp add: delivered_def)
    from delivered_trans [OF this b2(2)] show ?thesis
      using 4 that [of b2] b1 b2 assms(2) by (simp add: encodeappend_def encodealign_def holds_def ENCODE_chars)
  next
    case 5
    then show ?thesis
      using that [of b] assms(2) by (simp add: encodeappend_def encodealign_def holds_def delivered_refl)
  next
    case (6 x y z r)
    let ?b = "b\<lparr>b_saved := 0\<rparr>" and ?c = "chars (group x y z) [18, 12, 6, 0]"
    obtain b1 where b1: "putchunk cb ?b ?c = (Inr (), b1)" "delivered cb ?b b1 ?c" "same_saved ?b b1"
        "length (b_buf b1) < AUG_MAXLINE"
      by (rule putchunk_ok [OF assms(1), of ?b ?c]) (use assms(2) in \<open>simp_all add: holds_def\<close>)
    have "holds b1 []"
      using b1(3,4) by (simp add: holds_def same_saved_def)
    then obtain b2 where b2: "encodechunks cb b1 r = (Inr (), b2)" "delivered cb b1 b2 (whole r)"
        "holds b2 (pend r)"
      using encodechunks_ok [OF assms(1)] by blast
    have "delivered cb b b1 ?c"
      using b1(2) by (simp add: delivered_def)
    from delivered_trans [OF this b2(2)] show ?thesis
      using 6 that [of b2] b1 b2 assms(2) by (simp add: encodeappend_def encodealign_def holds_def ENCODE_chars)
  qed
qed

lemma finish_flush:
  assumes "accepts cb" "delivered cb b b1 out" "length (b_buf b1) < AUG_MAXLINE"
  shows "\<exists>b'. (if b_buf b1 \<noteq> [] then flush cb b1 else (Inr (), b1)) = (Inr (), b')
    \<and> delivered cb b b' out \<and> b_buf b' = [] \<and> b_saved b' = b_saved b1"
proof (cases "b_buf b1 = []")
  case False
  let ?b = "b1\<lparr>b_buf := [], b_ob := snd (cb (b_ob b1) (b_buf b1))\<rparr>"
  have "delivered cb b1 ?b []"
    by (rule delivered_flush) (use assms(3) in \<open>simp_all add: AUG_MAXLINE_def\<close>)
  from delivered_trans [OF assms(2) this] False show ?thesis
    by (simp add: flush_eq [OF assms(1)])
qed (use assms in simp)

lemma encodefinish_ok:
  assumes "accepts cb" "holds b p" "length p < 3"
  obtains b' where "encodefinish cb b = (Inr (), b')" "delivered cb b b' (b64_encode p)" "b_buf b' = []"
proof -
  obtain b1 where b1: "(if b_saved b = 2 then
              putchunk cb (b\<lparr>b_saved := 0\<rparr>)
                [ENCODE0 (b_save0 b), ENCODE1 (b_save0 b) (b_save1 b), ENCODE2 (b_save1 b) 0, 61]
            else if b_saved b = 1 then
              putchunk cb (b\<lparr>b_saved := 0\<rparr>)
                [ENCODE0 (b_save0 b), ENCODE1 (b_save0 b) 0, 61, 61]
            else (Inr (), b)) = (Inr (), b1)" "delivered cb b b1 (b64_encode p)" "length (b_buf b1) < AUG_MAXLINE"
  proof -
    let ?b = "b\<lparr>b_saved := 0\<rparr>"
    have len: "length (b_buf ?b) < AUG_MAXLINE"
      using assms(2) by (simp add: holds_def)
    have cong: "delivered cb ?b b' out \<longleftrightarrow> delivered cb b b' out" for b' out
      by (simp add: delivered_def)
    consider "p = []" | x where "p = [x]" | x y where "p = [x, y]"
      using assms(3) by (cases p; cases "tl p") auto
    then show thesis
    proof cases
      case 1
      with that [of b] assms(2) show ?thesis
        by (simp add: holds_def delivered_refl)
    next
      case (2 x)
      obtain b1 where "putchunk cb ?b (b64_encode p) = (Inr (), b1)" "delivered cb ?b b1 (b64_encode p)"
          "length (b_buf b1) < AUG_MAXLINE"
        by (rule putchunk_ok [OF assms(1) len, of "b64_encode p"]) (use 2 in simp_all)
      with 2 that [of b1] assms(2) show ?thesis
        by (simp add: holds_def ENCODE_chars1 cong)
    next
      case (3 x y)
      obtain b1 where "putchunk cb ?b (b64_encode p) = (Inr (), b1)" "delivered cb ?b b1 (b64_encode p)"
          "length (b_buf b1) < AUG_MAXLINE"
        by (rule putchunk_ok [OF assms(1) len, of "b64_encode p"]) (use 3 in simp_all)
      with 3 that [of b1] assms(2) show ?thesis
        by (simp add: holds_def ENCODE_chars2 cong)
    qed
  qed
  obtain b' where "(if b_buf b1 \<noteq> [] then flush cb b1 else (Inr (), b1)) = (Inr (), b')"
      "delivered cb b b' (b64_encode p)" "b_buf b' = []"
    using finish_flush [OF assms(1) b1(2,3)] by blast
  with b1(1) that show thesis
    by (simp add: encodefinish_def)
qed

text \<open>The calls of a client: an object, the chunks of the input, and the end.\<close>

fun appends ::
  "('s b64 \<Rightarrow> byte list \<Rightarrow> (aug_fail + unit) \<times> 's b64) \<Rightarrow> 's b64 \<Rightarrow> byte list list
   \<Rightarrow> (aug_fail + unit) \<times> 's b64" where
  "appends f b [] = (Inr (), b)"
| "appends f b (c # cs) =
     (case f b c of (Inl e, b) \<Rightarrow> (Inl e, b) | (Inr _, b) \<Rightarrow> appends f b cs)"

definition encode_all :: "'s callback \<Rightarrow> 32 word \<Rightarrow> 's \<Rightarrow> byte list list \<Rightarrow> (aug_fail + unit) \<times> 's b64" where
  "encode_all cb junk ob cs =
     (case appends (encodeappend cb) (aug_createbase64 junk ob) cs of
        (Inl e, b) \<Rightarrow> (Inl e, b) | (Inr _, b) \<Rightarrow> encodefinish cb b)"

definition decode_all :: "'s callback \<Rightarrow> 32 word \<Rightarrow> 's \<Rightarrow> byte list list \<Rightarrow> (aug_fail + unit) \<times> 's b64" where
  "decode_all cb junk ob cs =
     (case appends (decodeappend cb) (aug_createbase64 junk ob) cs of
        (Inl e, b) \<Rightarrow> (Inl e, b) | (Inr _, b) \<Rightarrow> decodefinish cb b)"

lemma length_pend: "length (pend bs) < 3"
  using pend_cases [of bs] by auto

lemma encode_appends:
  assumes "accepts cb" "holds b (pend p)"
  obtains b' where "appends (encodeappend cb) b cs = (Inr (), b')"
    "delivered cb b b' (whole (pend p @ concat cs))" "holds b' (pend (p @ concat cs))"
  using assms(2)
proof (induction cs arbitrary: b p thesis)
  case Nil
  have "whole (pend p) = []" "pend (pend p) = pend p"
    using pend_cases [of p] by auto
  with Nil show ?case
    by (auto simp: holds_def delivered_refl)
next
  case (Cons c cs)
  obtain b1 where b1: "encodeappend cb b c = (Inr (), b1)" "delivered cb b b1 (whole (pend p @ c))"
      "holds b1 (pend (p @ c))"
    using encodeappend_ok [OF assms(1) Cons.prems(2) length_pend, of c] pend_append [of p c] by metis
  obtain b2 where b2: "appends (encodeappend cb) b1 cs = (Inr (), b2)"
      "delivered cb b1 b2 (whole (pend (p @ c) @ concat cs))" "holds b2 (pend ((p @ c) @ concat cs))"
    using Cons.IH [OF _ b1(3)] by blast
  have "whole (pend p @ concat (c # cs)) = whole (pend p @ c) @ whole (pend (p @ c) @ concat cs)"
    using whole_append [of "pend p @ c" "concat cs"] pend_append [of p c] by simp
  with b1 b2 delivered_trans [OF b1(2) b2(2)] show ?case
    by (intro Cons.prems(1) [of b2]) simp_all
qed

text \<open>
  C19: The encoder streams.  However the input is cut into calls, encoding succeeds when the
  callback does, and what the callback is given, block after block, is the base64 text of the
  whole input with its padding; no block exceeds the 1024-byte line buffer less its null.
\<close>
theorem encode_stream:
  assumes "accepts cb"
  shows "\<exists>b blocks. encode_all cb junk ob cs = (Inr (), b)
    \<and> b_ob b = foldl (\<lambda>s k. snd (cb s k)) ob blocks
    \<and> concat blocks = b64_encode (concat cs) \<and> (\<forall>k \<in> set blocks. length k < AUG_MAXLINE)"
proof -
  let ?b = "aug_createbase64 junk ob"
  have "holds ?b (pend [])"
    by (simp add: holds_def aug_createbase64_def AUG_MAXLINE_def)
  then obtain b1 where b1: "appends (encodeappend cb) ?b cs = (Inr (), b1)"
    "delivered cb ?b b1 (whole (pend [] @ concat cs))" "holds b1 (pend ([] @ concat cs))"
    using encode_appends [OF assms] by blast
  obtain b2 where b2: "encodefinish cb b1 = (Inr (), b2)"
      "delivered cb b1 b2 (b64_encode (pend ([] @ concat cs)))" "b_buf b2 = []"
    using encodefinish_ok [OF assms b1(3) length_pend] by blast
  have "delivered cb ?b b2 (b64_encode (concat cs))"
    using delivered_trans [OF b1(2) b2(2)] b64_encode_whole [of "concat cs"] by simp
  with b1 b2 show ?thesis
    by (auto simp: encode_all_def delivered_def aug_createbase64_def)
qed

text \<open>A callback that keeps what it is given, as the client of the library's test does.\<close>

definition keep :: "byte list callback" where
  "keep s k = (Inr (), s @ k)"

lemma accepts_keep: "accepts keep"
  by (simp add: accepts_def keep_def)

lemma foldl_keep: "foldl (\<lambda>s k. snd (keep s k)) s ks = s @ concat ks"
  by (induction ks arbitrary: s) (simp_all add: keep_def)

lemma encode_stream_witness:
  "\<exists>b. encode_all keep 0 [] [str ''Ma'', str ''n is''] = (Inr (), b) \<and> b_ob b = str ''TWFuIGlz''"
proof -
  have "b64_encode (concat [str ''Ma'', str ''n is'']) = str ''TWFuIGlz''"
    by code_simp
  with encode_stream [OF accepts_keep, of 0 "[]" "[str ''Ma'', str ''n is'']"] show ?thesis
    by (auto simp: foldl_keep)
qed


section \<open>The decoder\<close>

text \<open>Sextet values, their letters, and what whole groups of four decode to.\<close>

definition letters :: "32 word list \<Rightarrow> byte list" where
  "letters vs = map (\<lambda>v. encoder ! unat v) vs"

definition sextet_ok :: "32 word \<Rightarrow> bool" where
  "sextet_ok v \<longleftrightarrow> unat v < 64"

fun quads :: "32 word list \<Rightarrow> byte list" where
  "quads (a # b # c # d # vs) = [DECODE0 a b, DECODE1 b c, DECODE2 c d] @ quads vs"
| "quads vs = []"

lemmas quads_cases = quads.induct [case_names four none one two three]

fun rest4 :: "32 word list \<Rightarrow> 32 word list" where
  "rest4 (a # b # c # d # vs) = rest4 vs"
| "rest4 vs = vs"

lemma quads_append: "quads (a @ b) = quads a @ quads (rest4 a @ b)"
  by (induction a rule: quads.induct) simp_all

lemma rest4_append: "rest4 (a @ b) = rest4 (rest4 a @ b)"
  by (induction a rule: rest4.induct) simp_all

lemma length_rest4: "length (rest4 vs) < 4"
  by (induction vs rule: rest4.induct) simp_all

lemma rest4_short: "length vs < 4 \<Longrightarrow> rest4 vs = vs \<and> quads vs = []"
  by (cases vs rule: rest4.cases) simp_all

lemma decode_letter: "sextet_ok v \<Longrightarrow> decode_char (encoder ! unat v) = DVal v"
  by (simp add: sextet_ok_def decode_alphabet)

definition dholds :: "'s b64 \<Rightarrow> 32 word list \<Rightarrow> bool" where
  "dholds b p \<longleftrightarrow> b_saved b = length p \<and> length (b_buf b) < AUG_MAXLINE
     \<and> (p \<noteq> [] \<longrightarrow> b_save0 b = p ! 0) \<and> (1 < length p \<longrightarrow> b_save1 b = p ! 1)
     \<and> (2 < length p \<longrightarrow> b_save2 b = p ! 2)"

text \<open>What a tail of fewer than four sextets decodes to when the padding comes.\<close>

fun tail_bytes :: "32 word list \<Rightarrow> byte list" where
  "tail_bytes [a, b] = [DECODE0 a b]"
| "tail_bytes [a, b, c] = [DECODE0 a b, DECODE1 b c]"
| "tail_bytes _ = []"

lemma letters_simps [simp]:
  "letters [] = []" "letters (v # vs) = (encoder ! unat v) # letters vs"
  "letters (vs @ ws) = letters vs @ letters ws" "length (letters vs) = length vs"
  by (simp_all add: letters_def)

lemma decode0_letters:
  assumes "accepts cb" "dholds b []" "list_all sextet_ok vs"
  obtains b' where "decode0 cb b (letters vs) = (Inr (), b')" "delivered cb b b' (quads vs)"
    "dholds b' (rest4 vs)"
  using assms(2,3)
proof (induction vs arbitrary: b thesis rule: quads_cases)
  case (four v0 v1 v2 v3 vs)
  let ?out = "[DECODE0 v0 v1, DECODE1 v1 v2, DECODE2 v2 v3]"
  obtain b1 where b1: "putchs cb b ?out = (Inr (), b1)" "delivered cb b b1 ?out" "same_saved b b1"
      "length (b_buf b1) < AUG_MAXLINE"
    by (rule putchs_ok [OF assms(1), of b ?out]) (use four in \<open>simp_all add: dholds_def\<close>)
  have "dholds b1 []"
    using b1(3,4) four by (simp add: dholds_def same_saved_def)
  then obtain b2 where b2: "decode0 cb b1 (letters vs) = (Inr (), b2)" "delivered cb b1 b2 (quads vs)"
      "dholds b2 (rest4 vs)"
    using four(1) four(4) by auto
  show ?case
    by (rule four(2) [of b2])
       (use four(4) b1 b2 delivered_trans [OF b1(2) b2(2)] in \<open>simp_all add: decode_letter del: putchs.simps\<close>)
qed (auto simp: dholds_def decode_letter)


text \<open>
  How an alignment ends, on letters possibly followed by padding: with the chunk complete, with
  too few characters, or with the padding.
\<close>

definition align_ok ::
  "'s callback \<Rightarrow> 's b64 \<Rightarrow> 32 word list \<Rightarrow> 32 word list \<Rightarrow> byte list \<Rightarrow> nat \<Rightarrow> (aug_fail + nat) \<times> 's b64 \<Rightarrow> bool"
where
  "align_ok cb b p vs pad n out \<longleftrightarrow>
     (case out of (r, b') \<Rightarrow>
        if 4 \<le> length p + length vs then
          r = Inr n \<and> delivered cb b b' (quads (take 4 (p @ vs))) \<and> dholds b' []
        else if pad = [] then r = Inl ExNone \<and> delivered cb b b' [] \<and> dholds b' (p @ vs)
        else r = Inl ExNone \<and> delivered cb b b' (tail_bytes (p @ vs)) \<and> dholds b' [])"

lemma align_ok_shift:
  "b_ob b' = b_ob b \<Longrightarrow> b_buf b' = b_buf b \<Longrightarrow>
   align_ok cb b' (p @ [v]) vs pad n out \<longleftrightarrow> align_ok cb b p (v # vs) pad n out"
  by (simp add: align_ok_def delivered_def)

definition pad_ok :: "byte list \<Rightarrow> bool" where
  "pad_ok pad \<longleftrightarrow> pad = [] \<or> hd pad = 61"

lemma pad_cases:
  assumes "pad_ok pad" obtains "pad = []" | junk where "pad = 61 # junk"
  using assms by (cases pad) (auto simp: pad_ok_def)

lemma same_saved_dholds:
  "same_saved b b' \<Longrightarrow> length (b_buf b') < AUG_MAXLINE \<Longrightarrow> dholds (b'\<lparr>b_saved := 0\<rparr>) []"
  by (simp add: dholds_def)

lemma delivered_saved [simp]:
  "delivered cb b (b'\<lparr>b_saved := n\<rparr>) out \<longleftrightarrow> delivered cb b b' out"
  "delivered cb (b\<lparr>b_saved := n\<rparr>) b' out \<longleftrightarrow> delivered cb b b' out"
  "delivered cb (b\<lparr>b_save1 := w\<rparr>) b' out \<longleftrightarrow> delivered cb b b' out"
  "delivered cb (b\<lparr>b_save2 := w\<rparr>) b' out \<longleftrightarrow> delivered cb b b' out"
  by (simp_all add: delivered_def)

lemma align3_ok:
  assumes "accepts cb" "dholds b [v0, v1, v2]" "list_all sextet_ok vs" "pad_ok pad"
  shows "align_ok cb b [v0, v1, v2] vs pad n (align3 cb n b v0 v1 v2 (letters vs @ pad))"
proof (cases vs)
  case Nil
  show ?thesis
    using assms(4)
  proof (cases rule: pad_cases)
    case 1
    with Nil assms(2) show ?thesis
      by (simp add: align3_def align_ok_def dholds_def)
  next
    case (2 junk)
    let ?out = "[DECODE0 v0 v1, DECODE1 v1 v2]"
    obtain b1 where "putchs cb b ?out = (Inr (), b1)" "delivered cb b b1 ?out" "same_saved b b1"
        "length (b_buf b1) < AUG_MAXLINE"
      by (rule putchs_ok [OF assms(1), of b ?out]) (use assms(2) in \<open>simp_all add: dholds_def\<close>)
    then show ?thesis
      using 2 Nil by (simp add: align3_def align_ok_def decode_pad same_saved_dholds del: putchs.simps)
  qed
next
  case (Cons v vs')
  let ?out = "[DECODE0 v0 v1, DECODE1 v1 v2, DECODE2 v2 v]"
  obtain b1 where "putchs cb b ?out = (Inr (), b1)" "delivered cb b b1 ?out" "same_saved b b1"
      "length (b_buf b1) < AUG_MAXLINE"
    by (rule putchs_ok [OF assms(1), of b ?out]) (use assms(2) in \<open>simp_all add: dholds_def\<close>)
  then show ?thesis
    using Cons assms(3)
    by (simp add: align3_def align_ok_def decode_letter same_saved_dholds del: putchs.simps)
qed

lemma align2_ok:
  assumes "accepts cb" "dholds b [v0, v1]" "list_all sextet_ok vs" "pad_ok pad"
  shows "align_ok cb b [v0, v1] vs pad n (align2 cb n b v0 v1 (letters vs @ pad))"
proof (cases vs)
  case Nil
  show ?thesis
    using assms(4)
  proof (cases rule: pad_cases)
    case 1
    with Nil assms(2) show ?thesis
      by (simp add: align2_def align_ok_def dholds_def)
  next
    case (2 junk)
    let ?out = "[DECODE0 v0 v1]"
    obtain b1 where "putchs cb b ?out = (Inr (), b1)" "delivered cb b b1 ?out" "same_saved b b1"
        "length (b_buf b1) < AUG_MAXLINE"
      by (rule putchs_ok [OF assms(1), of b ?out]) (use assms(2) in \<open>simp_all add: dholds_def\<close>)
    then show ?thesis
      using 2 Nil by (simp add: align2_def align_ok_def decode_pad same_saved_dholds del: putchs.simps)
  qed
next
  case (Cons v vs')
  let ?b = "b\<lparr>b_save2 := v, b_saved := 3\<rparr>"
  have "align_ok cb ?b [v0, v1, v] vs' pad n (align3 cb n ?b v0 v1 v (letters vs' @ pad))"
    by (rule align3_ok) (use assms Cons in \<open>simp_all add: dholds_def\<close>)
  then show ?thesis
    using Cons assms(3) align_ok_shift [of ?b b cb "[v0, v1]" v vs' pad n]
    by (simp add: align2_def decode_letter)
qed

lemma align1_ok:
  assumes "accepts cb" "dholds b [v0]" "list_all sextet_ok vs" "pad_ok pad" "vs = [] \<longrightarrow> pad = []"
  shows "align_ok cb b [v0] vs pad n (align1 cb n b v0 (letters vs @ pad))"
proof (cases vs)
  case Nil
  with assms show ?thesis
    by (simp add: align1_def align_ok_def dholds_def)
next
  case (Cons v vs')
  let ?b = "b\<lparr>b_save1 := v, b_saved := 2\<rparr>"
  have "align_ok cb ?b [v0, v] vs' pad n (align2 cb n ?b v0 v (letters vs' @ pad))"
    by (rule align2_ok) (use assms Cons in \<open>simp_all add: dholds_def\<close>)
  then show ?thesis
    using Cons assms(3) align_ok_shift [of ?b b cb "[v0]" v vs' pad n]
    by (simp add: align1_def decode_letter)
qed

lemma decode0_pad:
  assumes "accepts cb" "dholds b []" "list_all sextet_ok vs" "1 < length (rest4 vs)"
  obtains b' where "decode0 cb b (letters vs @ 61 # junk) = (Inr (), b')"
    "delivered cb b b' (quads vs @ tail_bytes (rest4 vs))" "dholds b' []"
  using assms(2-4)
proof (induction vs arbitrary: b thesis rule: quads_cases)
  case (four v0 v1 v2 v3 vs)
  let ?out = "[DECODE0 v0 v1, DECODE1 v1 v2, DECODE2 v2 v3]"
  obtain b1 where b1: "putchs cb b ?out = (Inr (), b1)" "delivered cb b b1 ?out" "same_saved b b1"
      "length (b_buf b1) < AUG_MAXLINE"
    by (rule putchs_ok [OF assms(1), of b ?out]) (use four in \<open>simp_all add: dholds_def\<close>)
  have "dholds b1 []"
    using b1(3,4) four by (simp add: dholds_def same_saved_def)
  then obtain b2 where b2: "decode0 cb b1 (letters vs @ 61 # junk) = (Inr (), b2)"
      "delivered cb b1 b2 (quads vs @ tail_bytes (rest4 vs))" "dholds b2 []"
    using four(1) four(4,5) by auto
  show ?case
    by (rule four(2) [of b2])
       (use four(4) b1 b2 delivered_trans [OF b1(2) b2(2)] in \<open>simp_all add: decode_letter del: putchs.simps\<close>)
next
  case (two v0 v1)
  obtain b1 where "putchs cb b [DECODE0 v0 v1] = (Inr (), b1)" "delivered cb b b1 [DECODE0 v0 v1]"
      "same_saved b b1" "length (b_buf b1) < AUG_MAXLINE"
    by (rule putchs_ok [OF assms(1), of b "[DECODE0 v0 v1]"]) (use two in \<open>simp_all add: dholds_def\<close>)
  with two show ?case
    by (intro two(1) [of b1])
       (simp_all add: decode_letter decode_pad dholds_def same_saved_def del: putchs.simps)
next
  case (three v0 v1 v2)
  let ?out = "[DECODE0 v0 v1, DECODE1 v1 v2]"
  obtain b1 where "putchs cb b ?out = (Inr (), b1)" "delivered cb b b1 ?out"
      "same_saved b b1" "length (b_buf b1) < AUG_MAXLINE"
    by (rule putchs_ok [OF assms(1), of b ?out]) (use three in \<open>simp_all add: dholds_def\<close>)
  with three show ?case
    by (intro three(1) [of b1])
       (simp_all add: decode_letter decode_pad dholds_def same_saved_def del: putchs.simps)
qed auto


lemma decodealign_ok:
  assumes "accepts cb" "dholds b p" "p \<noteq> []" "length p < 4" "list_all sextet_ok vs" "pad_ok pad"
    and "1 < length (p @ vs) \<or> pad = []"
  shows "align_ok cb b p vs pad (4 - length p) (decodealign cb b (letters vs @ pad))"
proof -
  consider v0 where "p = [v0]" | v0 v1 where "p = [v0, v1]" | v0 v1 v2 where "p = [v0, v1, v2]"
    using assms(3,4) by (cases p; cases "tl p"; cases "tl (tl p)") auto
  then show ?thesis
  proof cases
    case 1
    with align1_ok [of cb b v0 vs pad 3] assms show ?thesis
      by (auto simp: decodealign_def dholds_def)
  next
    case 2
    with align2_ok [of cb b v0 v1 vs pad 2] assms show ?thesis
      by (simp add: decodealign_def dholds_def)
  next
    case 3
    with align3_ok [of cb b v0 v1 v2 vs pad 1] assms show ?thesis
      by (simp add: decodealign_def dholds_def)
  qed
qed

lemma quads_take4:
  "4 \<le> length ws \<Longrightarrow> quads ws = quads (take 4 ws) @ quads (drop 4 ws) \<and> rest4 ws = rest4 (drop 4 ws)"
  by (cases ws rule: quads.cases) simp_all

lemma letters_drop: "drop n (letters vs) = letters (drop n vs)"
  by (simp add: letters_def drop_map)

text \<open>One call, on letters only and on letters up to the padding.\<close>

lemma decodeappend_letters:
  assumes "accepts cb" "dholds b p" "length p < 4" "list_all sextet_ok vs"
  obtains b' where "decodeappend cb b (letters vs) = (Inr (), b')"
    "delivered cb b b' (quads (p @ vs))" "dholds b' (rest4 (p @ vs))"
proof (cases "p = []")
  case True
  obtain b' where "decode0 cb b (letters vs) = (Inr (), b')" "delivered cb b b' (quads vs)"
      "dholds b' (rest4 vs)"
    by (rule decode0_letters [OF assms(1) _ assms(4)]) (use assms(2) True in auto)
  with True assms(2) that show thesis
    by (simp add: decodeappend_def decodealign_def dholds_def)
next
  case False
  let ?n = "4 - length p"
  obtain r b1 where out: "decodealign cb b (letters vs) = (r, b1)"
    by force
  have ok: "align_ok cb b p vs [] ?n (r, b1)"
    using decodealign_ok [OF assms(1,2) False assms(3,4), of "[]"] out by (simp add: pad_ok_def)
  show thesis
  proof (cases "4 \<le> length (p @ vs)")
    case True
    then have r: "r = Inr ?n" "delivered cb b b1 (quads (take 4 (p @ vs)))" "dholds b1 []"
      using ok by (simp_all add: align_ok_def)
    obtain b2 where b2: "decode0 cb b1 (letters (drop ?n vs)) = (Inr (), b2)"
        "delivered cb b1 b2 (quads (drop ?n vs))" "dholds b2 (rest4 (drop ?n vs))"
      by (rule decode0_letters [OF assms(1) r(3), of "drop ?n vs"]) (use assms(4) in auto)
    show ?thesis
      by (rule that [of b2])
         (use r b2 out quads_take4 [OF True] delivered_trans [OF r(2) b2(2)] assms(3) in
           \<open>simp_all add: decodeappend_def letters_drop\<close>)
  next
    case False
    then have "r = Inl ExNone" "delivered cb b b1 []" "dholds b1 (p @ vs)"
      using ok by (simp_all add: align_ok_def)
    with False out show ?thesis
      by (intro that [of b1]) (simp_all add: decodeappend_def rest4_short)
  qed
qed

lemma decodeappend_pad:
  assumes "accepts cb" "dholds b p" "length p < 4" "list_all sextet_ok vs" "1 < length (rest4 (p @ vs))"
  obtains b' where "decodeappend cb b (letters vs @ 61 # junk) = (Inr (), b')"
    "delivered cb b b' (quads (p @ vs) @ tail_bytes (rest4 (p @ vs)))" "dholds b' []"
proof (cases "p = []")
  case True
  obtain b' where "decode0 cb b (letters vs @ 61 # junk) = (Inr (), b')"
      "delivered cb b b' (quads vs @ tail_bytes (rest4 vs))" "dholds b' []"
    by (rule decode0_pad [OF assms(1) _ assms(4)]) (use assms(2,5) True in auto)
  with True assms(2) that show thesis
    by (simp add: decodeappend_def decodealign_def dholds_def)
next
  case False
  let ?n = "4 - length p"
  obtain r b1 where out: "decodealign cb b (letters vs @ 61 # junk) = (r, b1)"
    by force
  have "1 < length (p @ vs)"
    using assms(5) rest4_short [of "p @ vs"] by (cases "length (p @ vs) < 4") simp_all
  then have ok: "align_ok cb b p vs (61 # junk) ?n (r, b1)"
    using decodealign_ok [OF assms(1,2) False assms(3,4), of "61 # junk"] out by (simp add: pad_ok_def)
  show thesis
  proof (cases "4 \<le> length (p @ vs)")
    case True
    then have r: "r = Inr ?n" "delivered cb b b1 (quads (take 4 (p @ vs)))" "dholds b1 []"
      using ok by (simp_all add: align_ok_def)
    have q: "quads (p @ vs) = quads (take 4 (p @ vs)) @ quads (drop ?n vs)"
      "rest4 (p @ vs) = rest4 (drop ?n vs)"
      using quads_take4 [OF True] assms(3) by simp_all
    obtain b2 where b2: "decode0 cb b1 (letters (drop ?n vs) @ 61 # junk) = (Inr (), b2)"
        "delivered cb b1 b2 (quads (drop ?n vs) @ tail_bytes (rest4 (drop ?n vs)))" "dholds b2 []"
      by (rule decode0_pad [OF assms(1) r(3), of "drop ?n vs"]) (use assms(4,5) q in auto)
    have "drop ?n (letters vs @ 61 # junk) = letters (drop ?n vs) @ 61 # junk"
      using True by (simp add: letters_drop)
    then show ?thesis
      using r b2 out q delivered_trans [OF r(2) b2(2)]
      by (intro that [of b2]) (simp_all add: decodeappend_def)
  next
    case False
    then have "r = Inl ExNone" "delivered cb b b1 (tail_bytes (p @ vs))" "dholds b1 []"
      using ok by (simp_all add: align_ok_def)
    with False out show ?thesis
      by (intro that [of b1]) (simp_all add: decodeappend_def rest4_short)
  qed
qed

text \<open>The padding that goes with what is left of the last group.\<close>

definition pads :: "32 word list \<Rightarrow> byte list \<Rightarrow> bool" where
  "pads t pad \<longleftrightarrow> t = [] \<and> pad = [] \<or> length t = 3 \<and> pad = [61] \<or> length t = 2 \<and> pad = [61, 61]"

definition pad_together :: "byte list \<Rightarrow> byte list list \<Rightarrow> bool" where
  "pad_together pad cs \<longleftrightarrow> (pad = [61, 61] \<longrightarrow> (\<forall>ys zs. cs = ys @ zs \<longrightarrow> concat zs \<noteq> [61]))"

lemma pad_together_tl: "pad_together pad (c # cs) \<Longrightarrow> pad_together pad cs"
  unfolding pad_together_def by (metis append_Cons)

lemma split_padding:
  assumes "pad = pad1 @ r" "pad1 \<noteq> []" "pad = [61] \<or> pad = [61, 61] \<and> r \<noteq> [61]"
  shows "r = [] \<and> hd pad1 = (61 :: byte)"
  using assms by (cases pad1; cases "tl pad1"; cases r) auto

lemma decode_appends:
  assumes "accepts cb" "dholds b p" "length p < 4" "list_all sextet_ok vs"
    and "concat cs = letters vs @ pad" "pads (rest4 (p @ vs)) pad" "pad_together pad cs"
  obtains b' where "appends (decodeappend cb) b cs = (Inr (), b')"
    "delivered cb b b' (quads (p @ vs) @ tail_bytes (rest4 (p @ vs)))" "dholds b' []"
  using assms(2-)
proof (induction cs arbitrary: b p vs pad thesis)
  case Nil
  then have "vs = []" "pad = []" "p = []"
    using rest4_short [of p] by (auto simp: pads_def letters_def)
  with Nil show ?case
    by (auto simp: dholds_def)
next
  case (Cons c cs)
  have eq: "c @ concat cs = letters vs @ pad"
    using Cons.prems(5) by simp
  show ?case
  proof (cases "length c \<le> length vs")
    case True
    let ?v1 = "take (length c) vs" and ?v2 = "drop (length c) vs"
    have "c @ concat cs = letters ?v1 @ letters ?v2 @ pad"
      using eq by (metis append.assoc append_take_drop_id letters_simps(3))
    then have c: "c = letters ?v1" "concat cs = letters ?v2 @ pad"
      using True append_eq_append_conv [of c "letters ?v1"] by (simp_all add: min_def)
    obtain b1 where b1: "decodeappend cb b c = (Inr (), b1)"
        "delivered cb b b1 (quads (p @ ?v1))" "dholds b1 (rest4 (p @ ?v1))"
      using decodeappend_letters [OF assms(1) Cons.prems(2,3), of ?v1] Cons.prems(4) c(1) by auto
    have q: "quads (p @ vs) = quads (p @ ?v1) @ quads (rest4 (p @ ?v1) @ ?v2)"
        "rest4 (p @ vs) = rest4 (rest4 (p @ ?v1) @ ?v2)"
      using quads_append [of "p @ ?v1" ?v2] rest4_append [of "p @ ?v1" ?v2] by simp_all
    obtain b2 where b2: "appends (decodeappend cb) b1 cs = (Inr (), b2)" "dholds b2 []"
        "delivered cb b1 b2 (quads (rest4 (p @ ?v1) @ ?v2) @ tail_bytes (rest4 (p @ vs)))"
      using Cons.IH [OF _ b1(3) length_rest4 _ c(2)] Cons.prems(4,6) q(2)
        pad_together_tl [OF Cons.prems(7)] by auto
    show ?thesis
      by (rule Cons.prems(1) [of b2])
         (use b1 b2 q(1) delivered_trans [OF b1(2) b2(3)] in simp_all)
  next
    case False
    then obtain pad1 where pad1: "c = letters vs @ pad1" "pad = pad1 @ concat cs" "pad1 \<noteq> []"
      using eq by (auto simp: append_eq_append_conv2 dest: arg_cong [of _ _ length])
    have "concat cs \<noteq> [61]" if "pad = [61, 61]"
      using Cons.prems(7) that unfolding pad_together_def by (metis append_Cons append_Nil)
    then have rest: "concat cs = []" "1 < length (rest4 (p @ vs))" "hd pad1 = 61"
      using Cons.prems(6) pad1(3) split_padding [OF pad1(2,3)] pad1(2) by (auto simp: pads_def)
    obtain b1 where b1: "decodeappend cb b c = (Inr (), b1)"
        "delivered cb b b1 (quads (p @ vs) @ tail_bytes (rest4 (p @ vs)))" "dholds b1 []"
      using decodeappend_pad [OF assms(1) Cons.prems(2-4) rest(2), of "tl pad1"] pad1(1,3) rest(3)
      by (metis list.collapse)
    obtain b2 where b2: "appends (decodeappend cb) b1 cs = (Inr (), b2)" "dholds b2 []"
        "delivered cb b1 b2 []"
      using Cons.IH [OF _ b1(3), where vs = "[]" and pad = "[]"] rest(1) by (auto simp: pads_def pad_together_def)
    show ?thesis
      by (rule Cons.prems(1) [of b2]) (use b1 b2 delivered_trans [OF b1(2) b2(3)] in simp_all)
  qed
qed

fun sextets_of :: "byte list \<Rightarrow> 32 word list" where
  "sextets_of (x # y # z # bs) = map (\<lambda>k. sextet k (group x y z)) [18, 12, 6, 0] @ sextets_of bs"
| "sextets_of [x, y] = map (\<lambda>k. sextet k (group x y 0)) [18, 12, 6]"
| "sextets_of [x] = map (\<lambda>k. sextet k (group x 0 0)) [18, 12]"
| "sextets_of [] = []"

definition padding :: "byte list \<Rightarrow> byte list" where
  "padding bs = (if length bs mod 3 = 1 then [61, 61] else if length bs mod 3 = 2 then [61] else [])"

lemma encode_letters: "b64_encode bs = letters (sextets_of bs) @ padding bs"
  by (induction bs rule: b64_encode.induct) (simp_all add: chars_def padding_def)

lemma sextets_ok: "list_all sextet_ok (sextets_of bs)"
  by (induction bs rule: b64_encode.induct) (simp_all add: sextet_ok_def unat_sextet)

lemma sextets_left:
  "length (rest4 (sextets_of bs)) = (if length bs mod 3 = 1 then 2 else if length bs mod 3 = 2 then 3 else 0)"
  by (induction bs rule: b64_encode.induct) simp_all

lemma sextets_pads: "pads (rest4 (sextets_of bs)) (padding bs)"
  using sextets_left [of bs] by (auto simp: pads_def padding_def)

lemma sextets_decode: "quads (sextets_of bs) @ tail_bytes (rest4 (sextets_of bs)) = bs"
  by (induction bs rule: b64_encode.induct) (simp_all add: decode_values)

text \<open>
  C20: Decoding inverts encoding, however the text is cut.  Decoding the base64 text of any bytes
  succeeds when the callback does and gives the callback those bytes, block after block,
  provided no cut falls between the two characters of a double padding.
\<close>
theorem decode_stream:
  assumes "accepts cb" "concat cs = b64_encode bs"
    and "length bs mod 3 = 1 \<Longrightarrow> \<forall>ys zs. cs = ys @ zs \<longrightarrow> concat zs \<noteq> [61]"
  shows "\<exists>b blocks. decode_all cb junk ob cs = (Inr (), b)
    \<and> b_ob b = foldl (\<lambda>s k. snd (cb s k)) ob blocks
    \<and> concat blocks = bs \<and> (\<forall>k \<in> set blocks. length k < AUG_MAXLINE)"
proof -
  let ?b = "aug_createbase64 junk ob"
  have "dholds ?b []"
    by (simp add: dholds_def aug_createbase64_def AUG_MAXLINE_def)
  moreover have "pad_together (padding bs) cs"
    using assms(3) by (simp add: pad_together_def padding_def)
  ultimately obtain b1 where b1: "appends (decodeappend cb) ?b cs = (Inr (), b1)"
      "delivered cb ?b b1 bs" "dholds b1 []"
    using decode_appends [OF assms(1), of ?b "[]" "sextets_of bs" cs "padding bs"]
      assms(2) encode_letters sextets_ok sextets_pads sextets_decode by auto
  obtain b2 where "decodefinish cb b1 = (Inr (), b2)" "delivered cb ?b b2 bs" "b_buf b2 = []"
    using finish_flush [OF assms(1) b1(2)] b1(3) by (auto simp: decodefinish_def dholds_def)
  with b1 show ?thesis
    by (auto simp: decode_all_def delivered_def aug_createbase64_def)
qed

lemma decode_stream_witness:
  "\<exists>b. decode_all keep 0 [] [str ''TWF'', str ''uIG'', str ''lz''] = (Inr (), b) \<and> b_ob b = str ''Man is''"
proof -
  have "concat [str ''TWF'', str ''uIG'', str ''lz''] = b64_encode (str ''Man is'')"
    by code_simp
  from decode_stream [OF accepts_keep this, of 0 "[]"] show ?thesis
    by (auto simp: foldl_keep str_def)
qed

text \<open>
  A cut inside a double padding is refused.  When the two padding characters come in
  different calls the decoder forgets the first and takes the second for the start of a chunk:
  the second call fails with \<^verbatim>\<open>AUG_EPARSE\<close>, whatever byte is encoded, though the
  text is well-formed.
\<close>
lemma padding_cut:
  "concat [chars (group x 0 0) [18, 12] @ [61], [61]] = b64_encode [x]
   \<and> fst (decode_all keep junk [] [chars (group x 0 0) [18, 12] @ [61], [61]]) = Inl (ExError EPARSE)"
  by (simp add: chars_def decode_all_def decodeappend_def decodealign_def aug_createbase64_def
      decode_letter sextet_ok_def unat_sextet decode_pad putch_def AUG_MAXLINE_def)

end
