(* ===== verification/Words.thy ===== *)
theory Words
  imports Prelude
begin

text \<open>
  \<^verbatim>\<open>augutil/types.h\<close>, \<^verbatim>\<open>shellwords.c\<close> and \<^verbatim>\<open>networds.c\<close>: two character-driven
  state machines that split text into words.  \<open>words\<close> is \<^verbatim>\<open>struct aug_words\<close>: the function
  pointer \<^verbatim>\<open>fn_\<close> is a constructor, each bit of \<^verbatim>\<open>flags_\<close> a field, and a step returns the
  sequence of integers it passes to \<^verbatim>\<open>out_\<close>.  A character is an \<^verbatim>\<open>int\<close>; tokens are the
  negative codes of \<^verbatim>\<open>types.h\<close>.
\<close>

definition EOF :: int where "EOF = -1"
definition AUG_TOKERROR :: int where "AUG_TOKERROR = -1"
definition AUG_TOKLABEL :: int where "AUG_TOKLABEL = -2"
definition AUG_TOKWORD :: int where "AUG_TOKWORD = -3"
definition AUG_TOKPHRASE :: int where "AUG_TOKPHRASE = -4"
definition AUG_TOKRTRIM :: int where "AUG_TOKRTRIM = -5"

lemmas tokens = AUG_TOKERROR_def AUG_TOKLABEL_def AUG_TOKWORD_def AUG_TOKPHRASE_def AUG_TOKRTRIM_def

datatype words_fn = EatWs | Bare | DQuot | SQuot | Comment

record words =
  w_fn :: words_fn
  w_escape :: bool
  w_label :: bool
  w_newline :: bool
  w_pairs :: bool

text \<open>The line space of both machines: tab, vertical tab, form feed, return, space.\<close>

definition linespace :: "int \<Rightarrow> bool" where
  "linespace ch \<longleftrightarrow> ch = 9 \<or> ch = 11 \<or> ch = 12 \<or> ch = 13 \<or> ch = 32"

section \<open>Shell words (shellwords.c)\<close>

definition sh_eatws :: "words \<Rightarrow> int \<Rightarrow> int list \<times> words" where
  "sh_eatws st ch =
     (if w_escape st then
        let st = st\<lparr>w_escape := False\<rparr> in
        if ch = 10 then ([], st) else ([ch], st\<lparr>w_fn := Bare\<rparr>)
      else if ch = 10 \<or> ch = 59 then ([AUG_TOKPHRASE], st)
      else if linespace ch then ([], st)
      else if ch = 34 then ([], st\<lparr>w_fn := DQuot\<rparr>)
      else if ch = 35 then ([], st\<lparr>w_fn := Comment\<rparr>)
      else if ch = 39 then ([], st\<lparr>w_fn := SQuot\<rparr>)
      else if ch = 92 then ([], st\<lparr>w_escape := True\<rparr>)
      else ([ch], st\<lparr>w_fn := Bare\<rparr>))"

definition sh_bare :: "words \<Rightarrow> int \<Rightarrow> int list \<times> words" where
  "sh_bare st ch =
     (if w_escape st then
        let st = st\<lparr>w_escape := False\<rparr> in
        if ch = 10 then ([], st) else ([ch], st)
      else if ch = 10 \<or> ch = 59 then
        let st = st\<lparr>w_fn := EatWs\<rparr>;
            st = (if w_pairs st then st\<lparr>w_label := True\<rparr> else st)
        in case sh_eatws st ch of (out, st) \<Rightarrow> (AUG_TOKWORD # out, st)
      else if linespace ch then
        let st = st\<lparr>w_fn := EatWs\<rparr>
        in ([AUG_TOKWORD], if w_pairs st then st\<lparr>w_label := True\<rparr> else st)
      else if ch = 34 then ([], st\<lparr>w_fn := DQuot\<rparr>)
      else if ch = 39 then ([], st\<lparr>w_fn := SQuot\<rparr>)
      else if ch = 92 then ([], st\<lparr>w_escape := True\<rparr>)
      else if w_label st \<and> ch = 61 then ([AUG_TOKLABEL], st\<lparr>w_fn := EatWs, w_label := False\<rparr>)
      else ([ch], st))"

definition sh_dquot :: "words \<Rightarrow> int \<Rightarrow> int list \<times> words" where
  "sh_dquot st ch =
     (if w_escape st then
        let st = st\<lparr>w_escape := False\<rparr> in
        if ch = 10 then ([], st)
        else if ch = 34 \<or> ch = 92 then ([ch], st)
        else ([92, ch], st)
      else if ch = 34 then ([], st\<lparr>w_fn := Bare\<rparr>)
      else if ch = 92 then ([], st\<lparr>w_escape := True\<rparr>)
      else ([ch], st))"

definition sh_squot :: "words \<Rightarrow> int \<Rightarrow> int list \<times> words" where
  "sh_squot st ch = (if ch = 39 then ([], st\<lparr>w_fn := Bare\<rparr>) else ([ch], st))"

definition sh_comment :: "words \<Rightarrow> int \<Rightarrow> int list \<times> words" where
  "sh_comment st ch = (if ch = 10 then sh_eatws (st\<lparr>w_fn := EatWs\<rparr>) ch else ([], st))"

definition sh_fn :: "words \<Rightarrow> int \<Rightarrow> int list \<times> words" where
  "sh_fn st ch =
     (case w_fn st of
        EatWs \<Rightarrow> sh_eatws st ch
      | Bare \<Rightarrow> sh_bare st ch
      | DQuot \<Rightarrow> sh_dquot st ch
      | SQuot \<Rightarrow> sh_squot st ch
      | Comment \<Rightarrow> sh_comment st ch)"

definition aug_initshellwords :: "bool \<Rightarrow> words" where
  "aug_initshellwords pairs =
     \<lparr>w_fn = EatWs, w_escape = False, w_label = pairs, w_newline = False, w_pairs = pairs\<rparr>"

definition aug_putshellwords :: "words \<Rightarrow> int \<Rightarrow> int list \<times> words" where
  "aug_putshellwords st ch =
     (if ch = EOF then sh_fn st 10 else if ch = 13 then ([], st) else sh_fn st ch)"

section \<open>Network words (networds.c)\<close>

text \<open>The two states \<^verbatim>\<open>eatws_\<close> and \<^verbatim>\<open>word_\<close> are \<open>EatWs\<close> and \<open>Bare\<close>.\<close>

definition net_word :: "words \<Rightarrow> int \<Rightarrow> int list \<times> words" where
  "net_word st ch =
     (if w_newline st then
        let st = st\<lparr>w_newline := False\<rparr> in
        if ch = 10 then
          ([AUG_TOKWORD, AUG_TOKPHRASE],
           \<lparr>w_fn = EatWs, w_escape = False, w_label = True, w_newline = False, w_pairs = False\<rparr>)
        else if linespace ch then ([32], st\<lparr>w_fn := EatWs\<rparr>)
        else if ch = 92 then ([AUG_TOKWORD], st\<lparr>w_escape := True, w_label := True\<rparr>)
        else ([AUG_TOKWORD, ch], st\<lparr>w_label := True\<rparr>)
      else if w_escape st then ([ch], st\<lparr>w_escape := False\<rparr>)
      else if ch = 10 then ([AUG_TOKRTRIM], st\<lparr>w_newline := True\<rparr>)
      else if ch = 92 then ([], st\<lparr>w_escape := True\<rparr>)
      else if w_label st \<and> ch = 58 then
        ([AUG_TOKRTRIM, AUG_TOKLABEL], st\<lparr>w_fn := EatWs, w_label := False\<rparr>)
      else ([ch], st))"

definition net_eatws :: "words \<Rightarrow> int \<Rightarrow> int list \<times> words" where
  "net_eatws st ch =
     (if w_escape st then ([ch], st\<lparr>w_escape := False, w_fn := Bare\<rparr>)
      else if ch = 10 then
        (if \<not> w_label st then net_word (st\<lparr>w_fn := Bare\<rparr>) ch else ([], st))
      else if linespace ch then ([], st)
      else if ch = 92 then ([], st\<lparr>w_escape := True\<rparr>)
      else ([ch], st\<lparr>w_fn := Bare\<rparr>))"

definition net_fn :: "words \<Rightarrow> int \<Rightarrow> int list \<times> words" where
  "net_fn st ch = (if w_fn st = EatWs then net_eatws st ch else net_word st ch)"

definition aug_initnetwords :: words where
  "aug_initnetwords =
     \<lparr>w_fn = EatWs, w_escape = False, w_label = True, w_newline = False, w_pairs = False\<rparr>"

definition aug_putnetwords :: "words \<Rightarrow> int \<Rightarrow> int list \<times> words" where
  "aug_putnetwords st ch =
     (if ch = EOF then net_fn st 10 else if ch = 13 then ([], st) else net_fn st ch)"

text \<open>\<^verbatim>\<open>isspace\<close> in the C locale; \<open>None\<close> when the code reads the byte before the buffer.\<close>

definition isspace :: "byte \<Rightarrow> bool" where
  "isspace c \<longleftrightarrow> 9 \<le> c \<and> c \<le> 13 \<or> c = 32"

definition rtrim_len :: "byte list \<Rightarrow> nat" where
  "rtrim_len src = length (dropWhile isspace (rev src))"

definition aug_rtrimword :: "byte list \<Rightarrow> nat option" where
  "aug_rtrimword src =
     (let i = rtrim_len src in
      if i < length src then
        if i = 0 then None
        else Some (if src ! (i - 1) = 92 then i + 1 else i)
      else Some i)"

section \<open>Runs\<close>

text \<open>Feeding a machine a text.\<close>

fun feed :: "(words \<Rightarrow> int \<Rightarrow> int list \<times> words) \<Rightarrow> words \<Rightarrow> int list \<Rightarrow> int list \<times> words" where
  "feed put st [] = ([], st)"
| "feed put st (ch # chs) =
     (case put st ch of (o1, st) \<Rightarrow> case feed put st chs of (o2, st) \<Rightarrow> (o1 @ o2, st))"

lemma feed_append:
  "feed put st (a @ b) =
     (case feed put st a of (o1, st) \<Rightarrow> case feed put st b of (o2, st) \<Rightarrow> (o1 @ o2, st))"
  by (induction a arbitrary: st) (auto simp: split_def)

section \<open>Quoting for the shell machine\<close>

text \<open>
  A text the caller can write for any word: single quotes around it, and each single quote in it
  closed, escaped and reopened.
\<close>

fun quote_chars :: "int list \<Rightarrow> int list" where
  "quote_chars [] = [39]"
| "quote_chars (c # cs) = (if c = 39 then [39, 92, 39, 39] @ quote_chars cs else c # quote_chars cs)"

definition quote :: "int list \<Rightarrow> int list" where
  "quote w = 39 # quote_chars w"

text \<open>Characters that reach the machine: not the end of file and not a return.\<close>

definition plain :: "int list \<Rightarrow> bool" where
  "plain w \<longleftrightarrow> EOF \<notin> set w \<and> 13 \<notin> set w"

lemma put_sh [simp]:
  "ch \<noteq> -1 \<Longrightarrow> ch \<noteq> 13 \<Longrightarrow> aug_putshellwords st ch = sh_fn st ch"
  by (simp add: aug_putshellwords_def EOF_def)

lemma feed_quote_chars:
  "plain w \<Longrightarrow> w_fn st = SQuot \<Longrightarrow> \<not> w_escape st \<Longrightarrow>
   feed aug_putshellwords st (quote_chars w) = (w, st\<lparr>w_fn := Bare\<rparr>)"
proof (induction w arbitrary: st)
  case Nil
  then show ?case
    by (simp add: sh_fn_def sh_squot_def)
next
  case (Cons c w)
  have st: "st\<lparr>w_escape := False, w_fn := SQuot\<rparr> = st"
    using Cons.prems by (cases st) simp
  show ?case
    using Cons.prems Cons.IH [of st]
    by (auto simp: st plain_def sh_fn_def sh_squot_def sh_bare_def EOF_def linespace_def)
qed

lemma feed_quote:
  assumes "plain w" "w_fn st = EatWs \<or> w_fn st = Bare" "\<not> w_escape st"
  shows "feed aug_putshellwords st (quote w) = (w, st\<lparr>w_fn := Bare\<rparr>)"
proof -
  have "feed aug_putshellwords (st\<lparr>w_fn := SQuot\<rparr>) (quote_chars w) = (w, st\<lparr>w_fn := Bare\<rparr>)"
    using feed_quote_chars [of w "st\<lparr>w_fn := SQuot\<rparr>"] assms by simp
  then show ?thesis
    using assms(2,3)
    by (auto simp: quote_def sh_fn_def sh_eatws_def sh_bare_def linespace_def)
qed


lemma quote_not_Nil [simp]: "quote w \<noteq> []"
  by (simp add: quote_def)

text \<open>A phrase: quoted words between spaces, ended by a newline.\<close>

definition phrase :: "int list list \<Rightarrow> int list" where
  "phrase ws = concat (map (\<lambda>w. quote w @ [32]) ws) @ [10]"

definition word_tokens :: "int list list \<Rightarrow> int list" where
  "word_tokens ws = concat (map (\<lambda>w. w @ [AUG_TOKWORD]) ws)"

definition at_start :: "words \<Rightarrow> bool" where
  "at_start st \<longleftrightarrow> w_fn st = EatWs \<and> \<not> w_escape st"

lemma start_reset: "at_start st \<Longrightarrow> \<not> w_pairs st \<Longrightarrow> st\<lparr>w_fn := EatWs\<rparr> = st"
  by (cases st) (simp add: at_start_def)

lemma feed_words:
  "\<forall>w \<in> set ws. plain w \<Longrightarrow> at_start st \<Longrightarrow> \<not> w_pairs st \<Longrightarrow>
   feed aug_putshellwords st (concat (map (\<lambda>w. quote w @ [32]) ws)) = (word_tokens ws, st)"
proof (induction ws)
  case (Cons w ws)
  have "feed aug_putshellwords st (quote w @ [32]) = (w @ [AUG_TOKWORD], st)"
    using Cons.prems feed_quote [of w st] start_reset [of st]
    by (simp add: feed_append at_start_def sh_fn_def sh_bare_def linespace_def)
  moreover have "concat (map (\<lambda>w. quote w @ [32]) (w # ws))
      = (quote w @ [32]) @ concat (map (\<lambda>w. quote w @ [32]) ws)"
    by simp
  ultimately show ?case
    using Cons by (simp only: feed_append) (simp add: word_tokens_def)
qed (simp add: word_tokens_def)

text \<open>
  Shell words read back what was quoted.  Splitting phrases of quoted words, whatever the
  words contain (spaces, quotes, backslashes, newlines, comment signs, empty words), gives each
  word followed by its word token and each phrase followed by its phrase token.
\<close>
lemma shell_quote_roundtrip:
  assumes "\<forall>ws \<in> set wss. \<forall>w \<in> set ws. plain w"
  shows "feed aug_putshellwords (aug_initshellwords False) (concat (map phrase wss))
    = (concat (map (\<lambda>ws. word_tokens ws @ [AUG_TOKPHRASE]) wss), aug_initshellwords False)"
  using assms
proof (induction wss)
  case (Cons ws wss)
  let ?st = "aug_initshellwords False"
  have "feed aug_putshellwords ?st (phrase ws) = (word_tokens ws @ [AUG_TOKPHRASE], ?st)"
    using Cons.prems feed_words [of ws ?st]
    by (simp add: phrase_def feed_append at_start_def aug_initshellwords_def sh_fn_def sh_eatws_def)
  with Cons show ?case
    by (simp add: feed_append)
qed simp

lemma shell_quote_roundtrip_witness:
  "feed aug_putshellwords (aug_initshellwords False) (phrase [[97, 39, 32], []])
   = ([97, 39, 32, -3, -3, -4], aug_initshellwords False)"
  using shell_quote_roundtrip [of "[[[97, 39, 32], []]]"]
  by (simp add: plain_def EOF_def word_tokens_def tokens)

end
