(* ===== verification/Xstr.thy ===== *)
theory Xstr
  imports Prelude
begin

text \<open>
  \<^verbatim>\<open>augutil/xstr.c\<close>: growing strings.  \<open>xstr\<close> is \<^verbatim>\<open>struct aug_xstr_\<close>: \<open>x_buf\<close> is the
  memory \<^verbatim>\<open>ptr_\<close> points to (\<^verbatim>\<open>size_\<close> characters and one for the terminator),
  \<open>x_local\<close> tells whether that is the local buffer, \<open>x_dangling\<close> whether the allocator has
  taken that memory back.  The content is the first \<open>x_len\<close> bytes.  \<^verbatim>\<open>size_t\<close> has 64 bits.

  Every operation that may grow the string is given the allocator's answer to the one request it
  can make.  \<open>Refused\<close> is a null pointer.  \<open>Granted beyond junk\<close> grants the request, for a
  reallocation at the same address; \<open>beyond\<close> is the readable memory that follows the local
  buffer and \<open>junk\<close> what the new memory holds.  \<open>Elsewhere\<close> grants a reallocation at
  another address.
\<close>

section \<open>State\<close>

record xstr =
  x_len :: nat
  x_size :: nat
  x_buf :: "byte list"
  x_local :: bool
  x_dangling :: bool

datatype answer = Refused | Granted "byte list" "byte list" | Elsewhere

text \<open>
  A memory pool for the users of growing strings: what the memory of each new string holds, and the
  answer to each later request, by its number.
\<close>

record mpool =
  po_junk :: "nat \<Rightarrow> byte list"
  po_answer :: "nat \<Rightarrow> answer"

text \<open>A pool that refuses every later request.\<close>

definition poor :: mpool where
  "poor = \<lparr>po_junk = (\<lambda>_. []), po_answer = (\<lambda>_. Refused)\<rparr>"

definition MINSIZE :: nat where "MINSIZE = 64"

definition szadd :: "nat \<Rightarrow> nat \<Rightarrow> nat" where
  "szadd a b = (a + b) mod 2 ^ 64"

lemma szadd_eq [simp]: "a + b < 2 ^ 64 \<Longrightarrow> szadd a b = a + b"
  by (simp add: szadd_def)

definition szmul :: "nat \<Rightarrow> nat \<Rightarrow> nat" where
  "szmul a b = (a * b) mod 2 ^ 64"

text \<open>Evaluated on binary numbers.\<close>

lemma sz_code [code]:
  "szadd a b = nat ((int a + int b) mod 18446744073709551616)"
  "szmul a b = nat ((int a * int b) mod 18446744073709551616)"
proof -
  have "nat (int n mod 18446744073709551616) = n mod 2 ^ 64" for n
    by (simp add: nat_mod_distrib)
  from this [of "a + b"] this [of "a * b"]
  show "szadd a b = nat ((int a + int b) mod 18446744073709551616)"
    "szmul a b = nat ((int a * int b) mod 18446744073709551616)"
    by (simp_all only: szadd_def szmul_def of_nat_add of_nat_mult)
qed

definition AVAIL :: "xstr \<Rightarrow> nat" where
  "AVAIL x = x_size x - x_len x"

text \<open>\<open>n\<close> bytes of memory that begin with \<open>xs\<close>.\<close>

definition memory :: "nat \<Rightarrow> byte list \<Rightarrow> byte list \<Rightarrow> byte list" where
  "memory n xs junk = take n (xs @ junk @ replicate n 0)"

section \<open>Growth\<close>

definition x_resize :: "xstr \<Rightarrow> nat \<Rightarrow> answer \<Rightarrow> (aug_fail + unit) \<times> xstr" where
  "x_resize x size' a =
     (if x_local x then
        (case a of
           Granted beyond junk \<Rightarrow>
             if size' \<le> length (x_buf x @ beyond) then
               (Inr (), x\<lparr>x_buf := memory (szadd size' 1) (take size' (x_buf x @ beyond)) junk,
                  x_local := False, x_size := size'\<rparr>)
             else (Inl Undefined, x)
         | _ \<Rightarrow> (Inl NoMem, x))
      else
        (case a of
           Refused \<Rightarrow> (Inl NoMem, x)
         | Granted beyond junk \<Rightarrow> (Inr (), x\<lparr>x_buf := memory (szadd size' 1) (x_buf x) junk, x_size := size'\<rparr>)
         | Elsewhere \<Rightarrow> (Inr (), x\<lparr>x_dangling := True, x_size := size'\<rparr>)))"

definition x_reserve :: "xstr \<Rightarrow> nat \<Rightarrow> answer \<Rightarrow> (aug_fail + unit) \<times> xstr" where
  "x_reserve x size' a =
     (if size' \<le> AVAIL x then (Inr (), x)
      else x_resize x (max (szmul (x_size x) 2) size') a)"

text \<open>The write behind the content, and the new length.\<close>

definition x_put :: "xstr \<Rightarrow> byte list \<Rightarrow> (aug_fail + unit) \<times> xstr" where
  "x_put x bs =
     (if x_dangling x then (Inl Undefined, x)
      else
        case memcpy (x_buf x) (x_len x) bs of
          None \<Rightarrow> (Inl Undefined, x)
        | Some buf \<Rightarrow> (Inr (), x\<lparr>x_buf := buf, x_len := x_len x + length bs\<rparr>))"

section \<open>Operations\<close>

definition aug_createxstr :: "nat \<Rightarrow> byte list \<Rightarrow> xstr" where
  "aug_createxstr size' junk =
     (let size' = max MINSIZE size' in
      \<lparr>x_len = 0, x_size = size', x_buf = memory (size' + 1) [] junk, x_local = True, x_dangling = False\<rparr>)"

definition aug_clearxstrn :: "xstr \<Rightarrow> nat \<Rightarrow> xstr" where
  "aug_clearxstrn x len = (if len < x_len x then x\<lparr>x_len := len\<rparr> else x)"

definition aug_clearxstr :: "xstr \<Rightarrow> xstr" where
  "aug_clearxstr x = aug_clearxstrn x 0"

definition aug_xstrcatsn :: "xstr \<Rightarrow> byte list \<Rightarrow> answer \<Rightarrow> (aug_fail + unit) \<times> xstr" where
  "aug_xstrcatsn x src a =
     (if length src = 0 then (Inr (), x)
      else
        case x_reserve x (szadd (x_len x) (length src)) a of
          (Inl e, x) \<Rightarrow> (Inl e, x)
        | (Inr _, x) \<Rightarrow> x_put x src)"

text \<open>A C string, or the null pointer.\<close>

definition aug_xstrcats :: "xstr \<Rightarrow> byte list option \<Rightarrow> answer \<Rightarrow> (aug_fail + unit) \<times> xstr" where
  "aug_xstrcats x src a = aug_xstrcatsn x (case src of Some s \<Rightarrow> s | None \<Rightarrow> []) a"

text \<open>
  Another string's content, or the string itself: then the bytes copied are read after the memory
  was grown.
\<close>

datatype source = Itself | Other "byte list"

definition source_len :: "xstr \<Rightarrow> source \<Rightarrow> nat" where
  "source_len x src = (case src of Itself \<Rightarrow> x_len x | Other s \<Rightarrow> length s)"

definition x_cat :: "xstr \<Rightarrow> source \<Rightarrow> nat \<Rightarrow> answer \<Rightarrow> (aug_fail + unit) \<times> xstr" where
  "x_cat x src len a =
     (if len = 0 then (Inr (), x)
      else
        case x_reserve x (szadd (x_len x) len) a of
          (Inl e, x) \<Rightarrow> (Inl e, x)
        | (Inr _, x) \<Rightarrow>
            let bs = (case src of Itself \<Rightarrow> x_buf x | Other s \<Rightarrow> s) in
            if len \<le> length bs then x_put x (take len bs) else (Inl Undefined, x))"

definition aug_xstrcat :: "xstr \<Rightarrow> source \<Rightarrow> answer \<Rightarrow> (aug_fail + unit) \<times> xstr" where
  "aug_xstrcat x src a = x_cat x src (source_len x src) a"

definition aug_xstrcpysn :: "xstr \<Rightarrow> byte list \<Rightarrow> answer \<Rightarrow> (aug_fail + unit) \<times> xstr" where
  "aug_xstrcpysn x src a = aug_xstrcatsn (aug_clearxstr x) src a"

definition aug_xstrcpys :: "xstr \<Rightarrow> byte list option \<Rightarrow> answer \<Rightarrow> (aug_fail + unit) \<times> xstr" where
  "aug_xstrcpys x src a = aug_xstrcpysn x (case src of Some s \<Rightarrow> s | None \<Rightarrow> []) a"

definition aug_xstrcpy :: "xstr \<Rightarrow> source \<Rightarrow> answer \<Rightarrow> (aug_fail + unit) \<times> xstr" where
  "aug_xstrcpy x src a = (let len = source_len x src in x_cat (aug_clearxstr x) src len a)"

definition aug_xstrcatcn :: "xstr \<Rightarrow> byte \<Rightarrow> nat \<Rightarrow> answer \<Rightarrow> (aug_fail + unit) \<times> xstr" where
  "aug_xstrcatcn x ch num a =
     (case x_reserve x (szadd (x_len x) num) a of
        (Inl e, x) \<Rightarrow> (Inl e, x)
      | (Inr _, x) \<Rightarrow> x_put x (replicate num ch))"

definition aug_xstrcatc :: "xstr \<Rightarrow> byte \<Rightarrow> answer \<Rightarrow> (aug_fail + unit) \<times> xstr" where
  "aug_xstrcatc x ch a = aug_xstrcatcn x ch 1 a"

definition aug_xstrcpycn :: "xstr \<Rightarrow> byte \<Rightarrow> nat \<Rightarrow> answer \<Rightarrow> (aug_fail + unit) \<times> xstr" where
  "aug_xstrcpycn x ch num a = aug_xstrcatcn (aug_clearxstr x) ch num a"

definition aug_xstrcpyc :: "xstr \<Rightarrow> byte \<Rightarrow> answer \<Rightarrow> (aug_fail + unit) \<times> xstr" where
  "aug_xstrcpyc x ch a = aug_xstrcpycn x ch 1 a"

text \<open>A stream is a function from the size asked for to a failure or at most that many bytes.\<close>

definition aug_xstrread :: "xstr \<Rightarrow> (nat \<Rightarrow> aug_fail + byte list) \<Rightarrow> nat \<Rightarrow> answer \<Rightarrow>
    (aug_fail + nat) \<times> xstr" where
  "aug_xstrread x src n a =
     (case x_reserve x (szadd (x_len x) n) a of
        (Inl e, x) \<Rightarrow> (Inl e, x)
      | (Inr _, x) \<Rightarrow>
          (case src n of
             Inl e \<Rightarrow> (Inl e, x)
           | Inr bs \<Rightarrow>
               (case x_put x (take n bs) of
                  (Inl e, x) \<Rightarrow> (Inl e, x)
                | (Inr _, x) \<Rightarrow> (Inr (length (take n bs)), x))))"

definition aug_xstrlen :: "xstr \<Rightarrow> nat" where
  "aug_xstrlen x = x_len x"

text \<open>The terminated characters the caller gets.\<close>

definition aug_xstr :: "xstr \<Rightarrow> byte list option \<times> xstr" where
  "aug_xstr x =
     (if x_dangling x then (None, x)
      else
        case memcpy (x_buf x) (x_len x) [0] of
          None \<Rightarrow> (None, x)
        | Some buf \<Rightarrow> (Some (take (x_len x + 1) buf), x\<lparr>x_buf := buf\<rparr>))"

section \<open>Well-formed strings\<close>

text \<open>The bound on the size keeps \<^verbatim>\<open>size_t\<close> from wrapping in one more step.\<close>

definition x_wf :: "xstr \<Rightarrow> bool" where
  "x_wf x \<longleftrightarrow> length (x_buf x) = x_size x + 1 \<and> x_len x \<le> x_size x \<and> \<not> x_dangling x
     \<and> MINSIZE \<le> x_size x"

definition content :: "xstr \<Rightarrow> byte list" where
  "content x = take (x_len x) (x_buf x)"

text \<open>An allocator that does not move what it reallocates, on readable memory.\<close>

definition tame :: "answer \<Rightarrow> bool" where
  "tame a \<longleftrightarrow> (case a of Refused \<Rightarrow> True | Granted beyond junk \<Rightarrow> True | Elsewhere \<Rightarrow> False)"

definition readable :: "xstr \<Rightarrow> nat \<Rightarrow> answer \<Rightarrow> bool" where
  "readable x n a \<longleftrightarrow>
     (case a of Granted beyond junk \<Rightarrow> x_local x \<longrightarrow> max (x_size x * 2) n \<le> length (x_buf x @ beyond)
      | _ \<Rightarrow> True)"

lemma length_memory [simp]: "length (memory n xs junk) = n"
  by (simp add: memory_def)

lemma take_memory: "k \<le> length xs \<Longrightarrow> k \<le> n \<Longrightarrow> take k (memory n xs junk) = take k xs"
  by (simp add: memory_def)

lemma create_wf: "x_wf (aug_createxstr n junk)" "content (aug_createxstr n junk) = []"
  by (simp_all add: aug_createxstr_def x_wf_def content_def Let_def)

lemma create_size: "x_size (aug_createxstr n junk) = max MINSIZE n"
  by (simp add: aug_createxstr_def Let_def)

lemma reserve_tame:
  assumes "x_wf x" "x_len x \<le> n" "n < 2 ^ 63" "x_size x < 2 ^ 62" "tame a" "readable x n a"
  shows "(\<exists>x'. x_reserve x n a = (Inr (), x') \<and> x_wf x' \<and> content x' = content x
      \<and> x_len x' = x_len x \<and> n \<le> x_size x')
    \<or> x_reserve x n a = (Inl NoMem, x)"
proof (cases "n \<le> AVAIL x")
  case True
  with assms(1) show ?thesis
    by (auto simp: x_reserve_def AVAIL_def)
next
  case False
  define m where "m = max (x_size x * 2) n"
  have m: "max (szmul (x_size x) 2) n = m" "n \<le> m" "x_size x \<le> m" "m + 1 < 2 ^ 64" "x_len x \<le> m"
      "szadd m 1 = m + 1" "MINSIZE \<le> m"
    using assms(1-4) by (auto simp: m_def szadd_def szmul_def x_wf_def)
  show ?thesis
  proof (cases a)
    case (Granted beyond junk)
    have r: "x_local x \<Longrightarrow> m \<le> length (x_buf x @ beyond)"
      using assms(6) by (auto simp: readable_def Granted m_def)
    define xs where "xs = (if x_local x then take m (x_buf x @ beyond) else x_buf x)"
    let ?x = "x\<lparr>x_buf := memory (m + 1) xs junk, x_local := False, x_size := m\<rparr>"
    have res: "x_reserve x n a = (Inr (), if x_local x then ?x else x\<lparr>x_buf := memory (m + 1) xs junk, x_size := m\<rparr>)"
      using False r m(1,6) by (simp add: x_reserve_def x_resize_def Granted xs_def)
    have "x_len x \<le> length xs"
      using r assms(1) m(5) by (auto simp: xs_def x_wf_def)
    then have "content ?x = take (x_len x) xs"
      using m(5) by (simp add: content_def take_memory)
    also have "\<dots> = content x"
      using assms(1) m(5) by (auto simp: xs_def content_def x_wf_def)
    finally have c: "content ?x = content x" .
    have "x_wf ?x"
      using assms(1) m(5,7) by (simp add: x_wf_def)
    with res c m(2) show ?thesis
      by (auto simp: x_wf_def content_def)
  qed (use False assms(5) in \<open>auto simp: x_reserve_def x_resize_def tame_def\<close>)
qed

lemma put_ok:
  assumes "x_wf x" "x_len x + length bs \<le> x_size x"
  shows "\<exists>x'. x_put x bs = (Inr (), x') \<and> x_wf x' \<and> content x' = content x @ bs"
  using assms by (auto simp: x_put_def memcpy_def x_wf_def content_def poke_def)

section \<open>The abstract string\<close>

datatype xop =
    ClearN nat | CatSN "byte list" | CatS "byte list option" | Cat source
  | CpySN "byte list" | CpyS "byte list option" | Cpy source
  | CatCN byte nat | CatC byte | CpyCN byte nat | CpyC byte

definition x_exec :: "xstr \<Rightarrow> xop \<Rightarrow> answer \<Rightarrow> (aug_fail + unit) \<times> xstr" where
  "x_exec x op a =
     (case op of
        ClearN n \<Rightarrow> (Inr (), aug_clearxstrn x n)
      | CatSN s \<Rightarrow> aug_xstrcatsn x s a
      | CatS s \<Rightarrow> aug_xstrcats x s a
      | Cat src \<Rightarrow> aug_xstrcat x src a
      | CpySN s \<Rightarrow> aug_xstrcpysn x s a
      | CpyS s \<Rightarrow> aug_xstrcpys x s a
      | Cpy src \<Rightarrow> aug_xstrcpy x src a
      | CatCN c n \<Rightarrow> aug_xstrcatcn x c n a
      | CatC c \<Rightarrow> aug_xstrcatc x c a
      | CpyCN c n \<Rightarrow> aug_xstrcpycn x c n a
      | CpyC c \<Rightarrow> aug_xstrcpyc x c a)"

definition src_of :: "byte list \<Rightarrow> source \<Rightarrow> byte list" where
  "src_of s src = (case src of Itself \<Rightarrow> s | Other t \<Rightarrow> t)"

definition opt_of :: "byte list option \<Rightarrow> byte list" where
  "opt_of s = (case s of Some t \<Rightarrow> t | None \<Rightarrow> [])"

text \<open>The content an operation gives, and the content when its memory is refused.\<close>

definition x_spec :: "byte list \<Rightarrow> xop \<Rightarrow> byte list" where
  "x_spec s op =
     (case op of
        ClearN n \<Rightarrow> take n s
      | CatSN t \<Rightarrow> s @ t | CatS t \<Rightarrow> s @ opt_of t | Cat src \<Rightarrow> s @ src_of s src
      | CpySN t \<Rightarrow> t | CpyS t \<Rightarrow> opt_of t | Cpy src \<Rightarrow> src_of s src
      | CatCN c n \<Rightarrow> s @ replicate n c | CatC c \<Rightarrow> s @ [c]
      | CpyCN c n \<Rightarrow> replicate n c | CpyC c \<Rightarrow> [c])"

definition x_refused :: "byte list \<Rightarrow> xop \<Rightarrow> byte list" where
  "x_refused s op =
     (case op of
        CpySN t \<Rightarrow> [] | CpyS t \<Rightarrow> [] | Cpy src \<Rightarrow> [] | CpyCN c n \<Rightarrow> [] | CpyC c \<Rightarrow> []
      | _ \<Rightarrow> s)"

definition done_or_refused :: "(aug_fail + unit) \<times> xstr \<Rightarrow> byte list \<Rightarrow> byte list \<Rightarrow> bool" where
  "done_or_refused r s s' \<longleftrightarrow>
     (case r of (res, x') \<Rightarrow> x_wf x' \<and> (res = Inr () \<and> content x' = s \<or> res = Inl NoMem \<and> content x' = s'))"

definition room :: "xstr \<Rightarrow> nat \<Rightarrow> answer \<Rightarrow> bool" where
  "room x n a \<longleftrightarrow> n < 2 ^ 62 \<and> x_size x < 2 ^ 62 \<and> tame a \<and> readable x n a"

lemma length_content [simp]: "x_wf x \<Longrightarrow> length (content x) = x_len x"
  by (simp add: x_wf_def content_def)

lemma clear_wf:
  assumes "x_wf x"
  shows "x_wf (aug_clearxstrn x n)" "content (aug_clearxstrn x n) = take n (content x)"
    "x_size (aug_clearxstrn x n) = x_size x" "room (aug_clearxstrn x n) k a = room x k a"
  using assms
  by (auto simp: aug_clearxstrn_def x_wf_def content_def room_def readable_def min_def split: answer.splits)

lemma clear_all:
  assumes "x_wf x"
  shows "x_wf (aug_clearxstr x)" "content (aug_clearxstr x) = []" "x_len (aug_clearxstr x) = 0"
    "room (aug_clearxstr x) k a = room x k a"
  using clear_wf [OF assms, of 0] by (simp_all add: aug_clearxstr_def aug_clearxstrn_def)

text \<open>
  Appending to a string whose free part is at least as long as its content: nothing grows, and the
  allocator is not asked.
\<close>

lemma put_value:
  assumes "x_wf x" "x_len x + length bs \<le> x_size x"
  shows "fst (x_put x bs) = Inr ()" "x_wf (snd (x_put x bs))" "content (snd (x_put x bs)) = content x @ bs"
    "x_size (snd (x_put x bs)) = x_size x" "x_len (snd (x_put x bs)) = x_len x + length bs"
proof -
  show "x_size (snd (x_put x bs)) = x_size x" "x_len (snd (x_put x bs)) = x_len x + length bs"
    using assms by (auto simp: x_put_def memcpy_def x_wf_def)
qed (use put_ok [OF assms] in auto)

lemma catsn_fits:
  assumes "x_wf x" "2 * x_len x + length s \<le> x_size x"
  shows "fst (aug_xstrcatsn x s a) = Inr ()" "x_wf (snd (aug_xstrcatsn x s a))"
    "content (snd (aug_xstrcatsn x s a)) = content x @ s"
    "x_size (snd (aug_xstrcatsn x s a)) = x_size x"
    "x_len (snd (aug_xstrcatsn x s a)) = x_len x + length s"
proof -
  have "szadd (x_len x) (length s) \<le> x_len x + length s"
    by (simp add: szadd_def)
  also have "\<dots> \<le> AVAIL x"
    using assms by (simp add: AVAIL_def)
  finally have "x_reserve x (szadd (x_len x) (length s)) a = (Inr (), x)"
    by (simp add: x_reserve_def)
  then have r: "aug_xstrcatsn x s a = (if s = [] then (Inr (), x) else x_put x s)"
    by (simp add: aug_xstrcatsn_def)
  show "fst (aug_xstrcatsn x s a) = Inr ()" "x_wf (snd (aug_xstrcatsn x s a))"
    "content (snd (aug_xstrcatsn x s a)) = content x @ s"
    "x_size (snd (aug_xstrcatsn x s a)) = x_size x"
    "x_len (snd (aug_xstrcatsn x s a)) = x_len x + length s"
    using put_value [OF assms(1), of s] assms by (simp_all add: r)
qed

lemma catc_fits:
  assumes "x_wf x" "2 * x_len x + 1 \<le> x_size x"
  shows "fst (aug_xstrcatc x c a) = Inr ()" "x_wf (snd (aug_xstrcatc x c a))"
    "content (snd (aug_xstrcatc x c a)) = content x @ [c]"
    "x_size (snd (aug_xstrcatc x c a)) = x_size x"
    "x_len (snd (aug_xstrcatc x c a)) = Suc (x_len x)"
proof -
  have "szadd (x_len x) 1 \<le> x_len x + 1"
    by (simp add: szadd_def)
  also have "\<dots> \<le> AVAIL x"
    using assms by (simp add: AVAIL_def)
  finally have "x_reserve x (szadd (x_len x) 1) a = (Inr (), x)"
    by (simp add: x_reserve_def)
  then have r: "aug_xstrcatc x c a = x_put x [c]"
    by (simp add: aug_xstrcatc_def aug_xstrcatcn_def)
  show "fst (aug_xstrcatc x c a) = Inr ()" "x_wf (snd (aug_xstrcatc x c a))"
    "content (snd (aug_xstrcatc x c a)) = content x @ [c]"
    "x_size (snd (aug_xstrcatc x c a)) = x_size x"
    "x_len (snd (aug_xstrcatc x c a)) = Suc (x_len x)"
    using put_value [OF assms(1), of "[c]"] assms by (simp_all add: r)
qed

text \<open>The terminator stands behind the content.\<close>

lemma xstr_value:
  assumes "x_wf x"
  shows "fst (aug_xstr x) = Some (content x @ [0])" "x_wf (snd (aug_xstr x))"
    "content (snd (aug_xstr x)) = content x" "x_size (snd (aug_xstr x)) = x_size x"
    "x_len (snd (aug_xstr x)) = x_len x"
  using assms by (auto simp: aug_xstr_def memcpy_def x_wf_def content_def poke_def)

text \<open>Reserve, then write bytes that are there in the grown string.\<close>

lemma reserve_put:
  assumes "x_wf x" "room x (x_len x + length bs) a"
  shows "done_or_refused
    (case x_reserve x (szadd (x_len x) (length bs)) a of
       (Inl e, x) \<Rightarrow> (Inl e, x) | (Inr _, x) \<Rightarrow> x_put x bs) (content x @ bs) (content x)"
proof -
  have n: "szadd (x_len x) (length bs) = x_len x + length bs"
    using assms(2) by (simp add: room_def)
  have "(\<exists>x'. x_reserve x (x_len x + length bs) a = (Inr (), x') \<and> x_wf x' \<and> content x' = content x
      \<and> x_len x' = x_len x \<and> x_len x + length bs \<le> x_size x')
    \<or> x_reserve x (x_len x + length bs) a = (Inl NoMem, x)"
    using assms by (intro reserve_tame) (auto simp: room_def)
  then show ?thesis
    unfolding n using put_ok [of _ bs] assms(1) by (fastforce simp: done_or_refused_def)
qed

lemma catsn_ok:
  assumes "x_wf x" "room x (x_len x + length s) a"
  shows "done_or_refused (aug_xstrcatsn x s a) (content x @ s) (content x)"
  using reserve_put [OF assms] assms(1) by (auto simp: aug_xstrcatsn_def done_or_refused_def)

lemma catcn_ok:
  assumes "x_wf x" "room x (x_len x + n) a"
  shows "done_or_refused (aug_xstrcatcn x c n a) (content x @ replicate n c) (content x)"
  using reserve_put [of x "replicate n c" a] assms by (simp add: aug_xstrcatcn_def)

lemma cat_other: "x_cat x (Other s) (length s) a = aug_xstrcatsn x s a"
  by (auto simp: x_cat_def aug_xstrcatsn_def split: prod.splits sum.splits)

text \<open>The string's own bytes are where they were after it grew.\<close>

lemma cat_itself:
  assumes "x_wf x" "room x (x_len x + x_len x) a"
  shows "done_or_refused (x_cat x Itself (x_len x) a) (content x @ content x) (content x)"
proof -
  have n: "szadd (x_len x) (x_len x) = x_len x + x_len x"
    using assms(2) by (simp add: room_def)
  have cases: "(\<exists>x'. x_reserve x (x_len x + x_len x) a = (Inr (), x') \<and> x_wf x' \<and> content x' = content x
      \<and> x_len x' = x_len x \<and> x_len x + x_len x \<le> x_size x')
    \<or> x_reserve x (x_len x + x_len x) a = (Inl NoMem, x)"
    using assms by (intro reserve_tame) (auto simp: room_def)
  have own: "take (x_len x) (x_buf x') = content x" "x_len x \<le> length (x_buf x')"
    if "x_wf x'" "content x' = content x" "x_len x' = x_len x" for x'
    using that by (auto simp: content_def x_wf_def)
  show ?thesis
    using cases
  proof (elim disjE exE conjE)
    fix x'
    assume x': "x_reserve x (x_len x + x_len x) a = (Inr (), x')" "x_wf x'" "content x' = content x"
        "x_len x' = x_len x" "x_len x + x_len x \<le> x_size x'"
    obtain x'' where "x_put x' (content x) = (Inr (), x'')" "x_wf x''" "content x'' = content x @ content x"
      using put_ok [OF x'(2), of "content x"] x'(3-5) assms(1) by auto
    then show ?thesis
      using x'(1) own [OF x'(2-4)] assms(1) by (auto simp: x_cat_def n Let_def done_or_refused_def)
  qed (use assms(1) in \<open>auto simp: x_cat_def n done_or_refused_def content_def\<close>)
qed

lemma cpy_itself:
  assumes "x_wf x"
  shows "done_or_refused (x_cat (aug_clearxstr x) Itself (x_len x) a) (content x) []"
proof (cases "x_len x = 0")
  case True
  then show ?thesis
    using assms clear_all [OF assms] by (simp add: x_cat_def done_or_refused_def content_def)
next
  case False
  let ?y = "aug_clearxstr x"
  have y: "x_size ?y = x_size x" "x_buf ?y = x_buf x" "x_len ?y = 0" "x_wf ?y"
    using clear_all [OF assms] by (simp_all add: aug_clearxstr_def aug_clearxstrn_def)
  have len: "x_len x \<le> x_size x" "length (x_buf x) = x_size x + 1"
    using assms by (simp_all add: x_wf_def)
  obtain x' where "x_put ?y (content x) = (Inr (), x')" "x_wf x'" "content x' = content x"
    using put_ok [OF y(4), of "content x"] y len assms clear_all(2) [OF assms] by auto
  moreover have "x_reserve ?y (szadd 0 (x_len x)) a = (Inr (), ?y)"
  proof -
    have "szadd 0 (x_len x) \<le> x_len x"
      by (simp add: szadd_def)
    then show ?thesis
      using y len by (simp add: x_reserve_def AVAIL_def)
  qed
  ultimately show ?thesis
    using False y len by (simp add: x_cat_def Let_def done_or_refused_def content_def)
qed

text \<open>
  C25: Growing strings are strings, as far as the memory around them allows.  On a well-formed
  string, under the condition \<open>room\<close> (the size and the content to come are below \<open>2 ^ 62\<close> bytes,
  a reallocation that is granted leaves the block where it is, and the first growth, which copies
  as many bytes as the new buffer holds, finds that many readable bytes from the start of the
  local buffer), each operation either gives the content its name promises (the string itself as
  a source included) or, when its memory is refused, fails and leaves the content (or, for the
  copies, leaves it cleared); either way the string stays well-formed.  Without that condition the
  operations are undefined, as \<open>first_growth_overreads\<close> and \<open>moved_growth_dangles\<close> show.
\<close>
theorem xstr_step:
  assumes "x_wf x" "room x (length (x_spec (content x) op)) a"
  shows "done_or_refused (x_exec x op a) (x_spec (content x) op) (x_refused (content x) op)"
proof -
  note clear = clear_all [OF assms(1)]
  have cats: "done_or_refused (aug_xstrcatsn x s a) (content x @ s) (content x)"
    if "length (x_spec (content x) op) = x_len x + length s" for s
    using catsn_ok assms that by simp
  have cpys: "done_or_refused (aug_xstrcatsn (aug_clearxstr x) s a) s []"
    if "length (x_spec (content x) op) = length s" for s
    using catsn_ok [OF clear(1), of s a] assms(2) that clear by simp
  have catc: "done_or_refused (aug_xstrcatcn x c n a) (content x @ replicate n c) (content x)"
    if "length (x_spec (content x) op) = x_len x + n" for c n
    using catcn_ok assms that by simp
  have cpyc: "done_or_refused (aug_xstrcatcn (aug_clearxstr x) c n a) (replicate n c) []"
    if "length (x_spec (content x) op) = n" for c n
    using catcn_ok [OF clear(1), of n a c] assms(2) that clear by simp
  show ?thesis
  proof (cases op)
    case (ClearN n)
    then show ?thesis
      using clear_wf [OF assms(1), of n] by (simp add: x_exec_def x_spec_def done_or_refused_def)
  next
    case (Cat src)
    with cats cat_itself [OF assms(1), of a] assms show ?thesis
      by (cases src) (simp_all add: x_exec_def x_spec_def x_refused_def aug_xstrcat_def source_len_def
          src_of_def cat_other)
  next
    case (Cpy src)
    with cpys cpy_itself [OF assms(1), of a] show ?thesis
      by (cases src) (simp_all add: x_exec_def x_spec_def x_refused_def aug_xstrcpy_def source_len_def
          src_of_def cat_other)
  next
    case (CatC c)
    with catc [of 1 c] assms(1) show ?thesis
      by (simp add: x_exec_def x_spec_def x_refused_def aug_xstrcatc_def)
  next
    case (CpyC c)
    with cpyc [of 1 c] show ?thesis
      by (simp add: x_exec_def x_spec_def x_refused_def aug_xstrcpyc_def aug_xstrcpycn_def)
  qed (use cats cpys catc cpyc assms(1) in \<open>simp_all add: x_exec_def x_spec_def x_refused_def
      aug_xstrcats_def aug_xstrcpysn_def aug_xstrcpys_def aug_xstrcpycn_def opt_of_def\<close>)
qed

lemma xstr_step_witness:
  "done_or_refused (x_exec (aug_createxstr 0 []) (CatSN (replicate 65 1)) (Granted (replicate 63 7) []))
     (replicate 65 1) []
   \<and> done_or_refused (x_exec (aug_createxstr 0 []) (CatSN (replicate 65 1)) Refused) (replicate 65 1) []"
proof -
  let ?x = "aug_createxstr 0 []"
  have x: "x_wf ?x" "content ?x = []" "x_size ?x = 64" "length (x_buf ?x) = 65"
    by (simp_all add: create_wf create_size) (simp_all add: aug_createxstr_def MINSIZE_def)
  show ?thesis
    using xstr_step [OF x(1), of "CatSN (replicate 65 1)" "Granted (replicate 63 7) []"]
      xstr_step [OF x(1), of "CatSN (replicate 65 1)" Refused] x
    by (simp add: room_def x_spec_def x_refused_def tame_def readable_def)
qed

text \<open>
  The first growth reads past the local buffer.  When an operation outgrows the local buffer
  and memory is granted, the code copies as many bytes as the new buffer holds, which is more than
  the local buffer has: with nothing readable behind it the copy is out of bounds.
\<close>
lemma first_growth_overreads:
  assumes "x_wf x" "x_local x" "AVAIL x < n" "x_size x < 2 ^ 62"
  shows "x_reserve x n (Granted [] junk) = (Inl Undefined, x)"
proof -
  have "x_size x + 1 < x_size x * 2" "length (x_buf x) = x_size x + 1" "x_size x * 2 < 2 ^ 64"
    using assms by (simp_all add: x_wf_def MINSIZE_def)
  then have "length (x_buf x) < max (szmul (x_size x) 2) n"
    by (simp only: szmul_def mod_less less_max_iff_disj) simp
  then show ?thesis
    using assms(2,3) by (auto simp: x_reserve_def x_resize_def)
qed

lemma first_growth_overreads_witness:
  "x_reserve (aug_createxstr 0 []) 65 (Granted [] []) = (Inl Undefined, aug_createxstr 0 [])"
  by (rule first_growth_overreads)
    (simp_all add: create_wf, simp_all add: aug_createxstr_def AVAIL_def MINSIZE_def Let_def)

text \<open>
  A reallocation that moves leaves a dangling pointer.  The address of the new memory is not
  stored, so the growth succeeds and every later write to the string, and every look at its
  characters, is to memory that was given back.
\<close>
lemma moved_growth_dangles:
  assumes "\<not> x_local x" "AVAIL x < n"
  shows "case x_reserve x n Elsewhere of
    (r, x') \<Rightarrow> r = Inr () \<and> (\<forall>bs. fst (x_put x' bs) = Inl Undefined) \<and> fst (aug_xstr x') = None"
  using assms by (simp add: x_reserve_def x_resize_def x_put_def aug_xstr_def)

lemma moved_growth_dangles_witness:
  "fst (aug_xstrcatsn ((aug_createxstr 0 [])\<lparr>x_local := False\<rparr>) (replicate 65 1) Elsewhere) = Inl Undefined"
  using moved_growth_dangles [of "(aug_createxstr 0 [])\<lparr>x_local := False\<rparr>" 65]
  by (simp add: aug_xstrcatsn_def split_def aug_createxstr_def AVAIL_def MINSIZE_def Let_def)

end
