(* ===== verification/Conf.thy ===== *)
theory Conf
  imports Words Xstr
begin

text \<open>
  \<^verbatim>\<open>augutil/file.c\<close>: reading a configuration file of \<open>key=value\<close> phrases with the shell
  machine in pairs mode.  \<open>conf\<close> is \<^verbatim>\<open>struct state_\<close> with its two growing strings (theory
  \<open>Xstr\<close>) of 64 characters and, in \<open>cf_log\<close>, the pairs the callback was given;
  \<open>cf_pool\<close> and \<open>cf_calls\<close> are the memory pool and the number of appends so far.  The
  callback is a parameter: given the pairs before and the new pair it accepts or fails.  A use of
  memory that is not there, or a failed assertion, ends the run with the result \<open>Undefined\<close>.
\<close>

record conf =
  cf_pool :: mpool
  cf_calls :: nat
  cf_key :: xstr
  cf_value :: xstr
  cf_last :: int
  cf_result :: "aug_fail option"
  cf_log :: "(byte list \<times> byte list) list"

type_synonym confcb = "(byte list \<times> byte list) list \<Rightarrow> byte list \<times> byte list \<Rightarrow> aug_fail option"

text \<open>A character buffer as its reader sees it.\<close>

definition cstr :: "byte list \<Rightarrow> byte list" where
  "cstr s = takeWhile (\<lambda>b. b \<noteq> 0) s"

definition conf_init :: "mpool \<Rightarrow> conf" where
  "conf_init mpool =
     \<lparr>cf_pool = mpool, cf_calls = 0, cf_key = aug_createxstr 64 (po_junk mpool 0),
      cf_value = aug_createxstr 64 (po_junk mpool 1), cf_last = AUG_TOKPHRASE, cf_result = None, cf_log = []\<rparr>"

definition conf_phrase :: "confcb \<Rightarrow> conf \<Rightarrow> conf" where
  "conf_phrase cb st =
     (if cf_last st \<noteq> AUG_TOKPHRASE then
        (if aug_xstrlen (cf_key st) \<noteq> 0 then
           (case (aug_xstr (cf_key st), aug_xstr (cf_value st)) of
              ((Some k, key), (Some v, val)) \<Rightarrow>
                let kv = (cstr k, cstr v) in
                st\<lparr>cf_result := cb (cf_log st) kv, cf_log := cf_log st @ [kv],
                   cf_key := aug_clearxstr key, cf_value := aug_clearxstr val\<rparr>
            | _ \<Rightarrow> st\<lparr>cf_result := Some Undefined\<rparr>)
         else st\<lparr>cf_result := Some (ExError ENULL)\<rparr>)
      else st)"

text \<open>The result of an append is ignored: a character there is no memory for is dropped.\<close>

definition conf_cat :: "conf \<Rightarrow> byte \<Rightarrow> conf" where
  "conf_cat st c =
     (case aug_xstrcatc (cf_value st) c (po_answer (cf_pool st) (cf_calls st)) of
        (r, x) \<Rightarrow> st\<lparr>cf_value := x, cf_calls := Suc (cf_calls st),
                     cf_result := (if r = Inl Undefined then Some Undefined else cf_result st)\<rparr>)"

definition conf_char :: "conf \<Rightarrow> byte \<Rightarrow> conf" where
  "conf_char st c =
     (let st = (if cf_last st = AUG_TOKWORD then conf_cat st 32 else st) in
      if cf_result st \<noteq> None then st else conf_cat st c)"

definition conf_out :: "confcb \<Rightarrow> conf \<Rightarrow> int \<Rightarrow> conf" where
  "conf_out cb st what =
     (if cf_result st \<noteq> None then st
      else
        (if what = AUG_TOKERROR \<or> what = AUG_TOKRTRIM then st\<lparr>cf_result := Some Undefined\<rparr>
         else if what = AUG_TOKPHRASE then conf_phrase cb st
         else if what = AUG_TOKLABEL then st\<lparr>cf_key := cf_value st, cf_value := cf_key st\<rparr>
         else if what = AUG_TOKWORD then st
         else conf_char st (word_of_int what))\<lparr>cf_last := what\<rparr>)"

text \<open>
  The characters \<^verbatim>\<open>fgetc\<close> returns; \<open>rderr\<close> is \<open>None\<close> at the end of the file and the
  failure of the read otherwise.
\<close>

fun conf_loop :: "confcb \<Rightarrow> conf \<Rightarrow> words \<Rightarrow> byte list \<Rightarrow> aug_fail option \<Rightarrow> conf" where
  "conf_loop cb st ws [] rderr =
     (case rderr of
        None \<Rightarrow> foldl (conf_out cb) st (fst (aug_putshellwords ws 10))
      | Some e \<Rightarrow> st\<lparr>cf_result := Some e\<rparr>)"
| "conf_loop cb st ws (ch # chs) rderr =
     (case aug_putshellwords ws (uint ch) of
        (out, ws) \<Rightarrow>
          let st = foldl (conf_out cb) st out in
          if cf_result st \<noteq> None then st else conf_loop cb st ws chs rderr)"

text \<open>The result, and the pairs the callback was given.\<close>

definition aug_freadconf :: "mpool \<Rightarrow> confcb \<Rightarrow> byte list \<Rightarrow> aug_fail option \<Rightarrow>
    aug_fail option \<times> (byte list \<times> byte list) list" where
  "aug_freadconf mpool cb text rderr =
     (let st = conf_loop cb (conf_init mpool) (aug_initshellwords True) text rderr
      in (cf_result st, cf_log st))"

text \<open>The file \<^verbatim>\<open>fopen\<close> opens, or its failure.\<close>

definition aug_readconf :: "mpool \<Rightarrow> aug_fail + byte list \<times> aug_fail option \<Rightarrow> confcb \<Rightarrow>
    aug_fail option \<times> (byte list \<times> byte list) list" where
  "aug_readconf mpool fp cb =
     (case fp of Inr (text, rderr) \<Rightarrow> aug_freadconf mpool cb text rderr | Inl e \<Rightarrow> (Some e, []))"

section \<open>Output of the machine as a whole\<close>

lemma conf_out_stuck [simp]: "cf_result st = Some e \<Longrightarrow> conf_out cb st what = st"
  by (simp add: conf_out_def)

lemma foldl_stuck: "cf_result st = Some e \<Longrightarrow> foldl (conf_out cb) st out = st"
  by (induction out) auto

lemma conf_loop_feed:
  assumes "feed aug_putshellwords ws (map uint a) = (out, ws')"
    and "st' = foldl (conf_out cb) st out" and "cf_result st' = None"
  shows "conf_loop cb st ws (a @ b) rderr = conf_loop cb st' ws' b rderr"
  using assms
proof (induction a arbitrary: st ws out)
  case (Cons ch a)
  obtain o1 ws1 where p: "aug_putshellwords ws (uint ch) = (o1, ws1)"
    by fastforce
  obtain o2 where f: "feed aug_putshellwords ws1 (map uint a) = (o2, ws')" and out: "out = o1 @ o2"
    using Cons.prems(1) by (auto simp: p split: prod.splits)
  let ?s = "foldl (conf_out cb) st o1"
  have "cf_result ?s = None"
    using Cons.prems(2,3) foldl_stuck [of ?s] by (cases "cf_result ?s") (auto simp: out)
  then show ?case
    using Cons.IH [OF f, of ?s] Cons.prems(2,3) by (simp add: p out)
qed simp

section \<open>Pairs\<close>

lemma feed_pair_words:
  "\<forall>w \<in> set ws. plain w \<Longrightarrow> at_start st \<Longrightarrow> w_pairs st \<Longrightarrow> ws \<noteq> [] \<Longrightarrow>
   feed aug_putshellwords st (concat (map (\<lambda>w. quote w @ [32]) ws))
     = (word_tokens ws, st\<lparr>w_fn := EatWs, w_label := True\<rparr>)"
proof (induction ws arbitrary: st)
  case (Cons w ws)
  have 1: "feed aug_putshellwords st (quote w @ [32])
      = (w @ [AUG_TOKWORD], st\<lparr>w_fn := EatWs, w_label := True\<rparr>)"
    using Cons.prems feed_quote [of w st]
    by (simp add: feed_append at_start_def sh_fn_def sh_bare_def linespace_def)
  show ?case
  proof (cases "ws = []")
    case True
    with 1 show ?thesis
      by (simp add: word_tokens_def)
  next
    case False
    have "concat (map (\<lambda>w. quote w @ [32]) (w # ws))
        = (quote w @ [32]) @ concat (map (\<lambda>w. quote w @ [32]) ws)"
      by simp
    with False Cons 1 show ?thesis
      by (simp only: feed_append) (simp add: word_tokens_def at_start_def)
  qed
qed simp

text \<open>One phrase: a quoted key, an equals sign, quoted words between spaces.\<close>

definition pair_text :: "int list \<times> int list list \<Rightarrow> int list" where
  "pair_text p = quote (fst p) @ [61] @ concat (map (\<lambda>w. quote w @ [32]) (snd p)) @ [10]"

definition pair_ok :: "int list \<times> int list list \<Rightarrow> bool" where
  "pair_ok p \<longleftrightarrow> fst p \<noteq> [] \<and> plain (fst p) \<and> snd p \<noteq> [] \<and> (\<forall>w \<in> set (snd p). plain w)"

lemma feed_pair:
  assumes "pair_ok p" "st = aug_initshellwords True"
  shows "feed aug_putshellwords st (pair_text p)
    = (fst p @ AUG_TOKLABEL # word_tokens (snd p) @ [AUG_TOKPHRASE], st)"
proof -
  have k: "feed aug_putshellwords st (quote (fst p) @ [61])
      = (fst p @ [AUG_TOKLABEL], st\<lparr>w_fn := EatWs, w_label := False\<rparr>)" (is "_ = (_, ?s)")
    using assms feed_quote [of "fst p" st]
    by (simp add: feed_append pair_ok_def aug_initshellwords_def sh_fn_def sh_bare_def linespace_def)
  have w: "feed aug_putshellwords ?s (concat (map (\<lambda>w. quote w @ [32]) (snd p)))
      = (word_tokens (snd p), st)"
    using assms feed_pair_words [of "snd p" ?s]
    by (simp add: pair_ok_def at_start_def aug_initshellwords_def)
  have "pair_text p = (quote (fst p) @ [61]) @ concat (map (\<lambda>w. quote w @ [32]) (snd p)) @ [10]"
    by (simp add: pair_text_def)
  with k w assms(2) show ?thesis
    by (simp only: feed_append)
      (simp add: aug_initshellwords_def sh_fn_def sh_eatws_def)
qed


lemma conf_loop_fail:
  assumes "feed aug_putshellwords ws (map uint a) = (out, ws')"
    and "st' = foldl (conf_out cb) st out" and "cf_result st = None" and "cf_result st' = Some e"
  shows "conf_loop cb st ws (a @ b) rderr = st'"
  using assms
proof (induction a arbitrary: st ws out)
  case (Cons ch a)
  obtain o1 ws1 where p: "aug_putshellwords ws (uint ch) = (o1, ws1)"
    by fastforce
  obtain o2 where f: "feed aug_putshellwords ws1 (map uint a) = (o2, ws')" and out: "out = o1 @ o2"
    using Cons.prems(1) by (auto simp: p split: prod.splits)
  let ?s = "foldl (conf_out cb) st o1"
  show ?case
  proof (cases "cf_result ?s")
    case None
    then show ?thesis
      using Cons.IH [OF f, of ?s] Cons.prems(2,4) by (simp add: p out)
  next
    case (Some e')
    then show ?thesis
      using Cons.prems(2) foldl_stuck [OF Some] by (simp add: p out)
  qed
qed simp

section \<open>What the callback sees\<close>

text \<open>Words joined by one space; a space comes only before a character.\<close>

fun join :: "byte list list \<Rightarrow> byte list" where
  "join [] = []"
| "join (w # ws) = w @ concat (map (\<lambda>w. if w = [] then [] else 32 # w) ws)"

text \<open>The pairs in order, up to the first the callback refuses.\<close>

fun deliver :: "confcb \<Rightarrow> (byte list \<times> byte list) list \<Rightarrow> (byte list \<times> byte list) list \<Rightarrow>
    aug_fail option \<times> (byte list \<times> byte list) list" where
  "deliver cb log [] = (None, log)"
| "deliver cb log (kv # kvs) =
     (case cb log kv of
        None \<Rightarrow> deliver cb (log @ [kv]) kvs
      | Some e \<Rightarrow> (Some e, log @ [kv]))"

definition pair_bytes :: "byte list \<times> byte list list \<Rightarrow> byte list" where
  "pair_bytes p = map word_of_int (pair_text (map uint (fst p), map (map uint) (snd p)))"

text \<open>
  A key that is not empty, at least one word, and no byte 0 or 13 in any of them.  The strings grow
  when their content takes up more than half of their 64 characters: a key and the joined words of
  a value have at most 32.
\<close>

definition conf_text :: "byte list \<Rightarrow> bool" where
  "conf_text s \<longleftrightarrow> 0 \<notin> set s \<and> 13 \<notin> set s"

definition conf_pair :: "byte list \<times> byte list list \<Rightarrow> bool" where
  "conf_pair p \<longleftrightarrow> fst p \<noteq> [] \<and> conf_text (fst p) \<and> snd p \<noteq> [] \<and> (\<forall>w \<in> set (snd p). conf_text w)
     \<and> length (fst p) \<le> 32 \<and> length (join (snd p)) \<le> 32"

lemma uint_of_char: "0 \<le> c \<Longrightarrow> c < 256 \<Longrightarrow> uint (word_of_int c :: byte) = c"
  by (simp add: uint_word_of_int)

lemma uint_char: "0 \<le> uint (b :: byte)" "uint (b :: byte) < 256"
  using uint_lt2p [of b] by auto

lemma quote_chars_range:
  "\<forall>c \<in> set w. 0 \<le> c \<and> c < 256 \<Longrightarrow> \<forall>c \<in> set (quote_chars w). 0 \<le> c \<and> c < (256 :: int)"
  by (induction w) auto

lemma map_uint_pair_bytes:
  "map uint (pair_bytes p) = pair_text (map uint (fst p), map (map uint) (snd p))"
proof -
  let ?t = "pair_text (map uint (fst p), map (map uint) (snd p))"
  have "\<forall>c \<in> set (quote (map uint (w :: byte list))). 0 \<le> c \<and> c < 256" for w
    using quote_chars_range [of "map uint w"] by (auto simp: quote_def uint_char)
  then have "\<forall>c \<in> set ?t. 0 \<le> c \<and> c < 256"
    by (auto simp: pair_text_def)
  then show ?thesis
    by (simp add: pair_bytes_def map_idI uint_of_char)
qed

lemma conf_pair_ok:
  assumes "conf_pair p"
  shows "pair_ok (map uint (fst p), map (map uint) (snd p))"
proof -
  have "plain (map uint s)" if "conf_text s" for s :: "byte list"
  proof -
    have "uint b \<noteq> -1 \<and> uint b \<noteq> 13" if "b \<in> set s" for b
    proof -
      have "b \<noteq> 13"
        using that \<open>conf_text s\<close> by (auto simp: conf_text_def)
      then have "uint b \<noteq> 13"
        by (simp add: word_uint_eq_iff)
      moreover have "0 \<le> uint b"
        by (rule uint_ge_0)
      ultimately show ?thesis
        by linarith
    qed
    then show ?thesis
      unfolding plain_def EOF_def by (metis (no_types, lifting) imageE list.set_map)
  qed
  with assms show ?thesis
    by (auto simp: conf_pair_def pair_ok_def)
qed

text \<open>Characters are appended to the value; a word token only leaves its mark.\<close>

definition space_if :: "int \<Rightarrow> byte list \<Rightarrow> byte list" where
  "space_if l s = (if l = AUG_TOKWORD \<and> s \<noteq> [] then 32 # s else s)"

text \<open>The state, read as lists.\<close>

definition conf_rep :: "conf \<Rightarrow> byte list \<Rightarrow> byte list \<Rightarrow> int \<Rightarrow> (byte list \<times> byte list) list \<Rightarrow> bool" where
  "conf_rep st key val l log \<longleftrightarrow>
     cf_result st = None \<and> cf_last st = l \<and> cf_log st = log
     \<and> x_wf (cf_key st) \<and> 64 \<le> x_size (cf_key st) \<and> content (cf_key st) = key
     \<and> x_wf (cf_value st) \<and> 64 \<le> x_size (cf_value st) \<and> content (cf_value st) = val"

lemma conf_cat_rep:
  assumes "conf_rep st k v l log" "length v < 32"
  shows "conf_rep (conf_cat st c) k (v @ [c]) l log"
proof -
  have "x_wf (cf_value st)" "2 * x_len (cf_value st) + 1 \<le> x_size (cf_value st)"
    using assms length_content [of "cf_value st"] by (auto simp: conf_rep_def)
  note fits = catc_fits [OF this, of c "po_answer (cf_pool st) (cf_calls st)"]
  then show ?thesis
    using assms(1) by (simp add: conf_cat_def conf_rep_def split_def)
qed

lemma conf_char_rep:
  assumes "conf_rep st k v l log" "length (v @ space_if l [c]) \<le> 32"
  shows "conf_rep (conf_out cb st (uint c)) k (v @ space_if l [c]) (uint c) log"
proof -
  have t: "uint c \<noteq> -1" "uint c \<noteq> -2" "uint c \<noteq> -3" "uint c \<noteq> -4" "uint c \<noteq> -5"
    using uint_ge_0 [of c] by linarith+
  have l: "cf_last st = l" "cf_result st = None"
    using assms(1) by (simp_all add: conf_rep_def)
  have "conf_rep (conf_char st c) k (v @ space_if l [c]) l log"
  proof (cases "l = AUG_TOKWORD")
    case True
    have 1: "conf_rep (conf_cat st 32) k (v @ [32]) l log"
      using assms True by (intro conf_cat_rep) (simp_all add: space_if_def)
    have 2: "conf_rep (conf_cat (conf_cat st 32) c) k ((v @ [32]) @ [c]) l log"
      using assms(2) True by (intro conf_cat_rep [OF 1]) (simp add: space_if_def)
    have "cf_result (conf_cat st 32) = None"
      using 1 by (simp add: conf_rep_def)
    with 2 show ?thesis
      using True l by (simp add: conf_char_def space_if_def)
  next
    case False
    then show ?thesis
      using conf_cat_rep [OF assms(1), of c] assms(2) l by (simp add: conf_char_def space_if_def)
  qed
  then show ?thesis
    using t l by (simp add: conf_out_def tokens conf_rep_def)
qed

lemma foldl_chars:
  assumes "conf_rep st k v l log" "length (v @ space_if l s) \<le> 32"
  shows "conf_rep (foldl (conf_out cb) st (map uint s)) k (v @ space_if l s)
    (if s = [] then l else uint (last s)) log"
  using assms
proof (induction s arbitrary: st v l)
  case (Cons b s)
  have 1: "conf_rep (conf_out cb st (uint b)) k (v @ space_if l [b]) (uint b) log"
    using Cons.prems by (intro conf_char_rep) (auto simp: space_if_def split: if_splits)
  have t: "uint b \<noteq> -3"
    using uint_ge_0 [of b] by linarith
  have "conf_rep (foldl (conf_out cb) (conf_out cb st (uint b)) (map uint s)) k
      ((v @ space_if l [b]) @ space_if (uint b) s) (if s = [] then uint b else uint (last s)) log"
    using Cons.prems(2) t by (intro Cons.IH [OF 1]) (auto simp: space_if_def tokens)
  moreover have "(v @ space_if l [b]) @ space_if (uint b) s = v @ space_if l (b # s)"
    using t by (simp add: space_if_def tokens)
  ultimately show ?case
    by (cases s) simp_all
qed (simp add: space_if_def)

definition spaced :: "byte list list \<Rightarrow> byte list" where
  "spaced ws = concat (map (\<lambda>w. if w = [] then [] else 32 # w) ws)"

lemma foldl_words:
  assumes "conf_rep st k v AUG_TOKWORD log" "length (v @ spaced ws) \<le> 32"
  shows "conf_rep (foldl (conf_out cb) st (word_tokens (map (map uint) ws))) k (v @ spaced ws) AUG_TOKWORD log"
  using assms
proof (induction ws arbitrary: st v)
  case (Cons w ws)
  let ?v = "v @ space_if AUG_TOKWORD w"
  have sp: "spaced (w # ws) = space_if AUG_TOKWORD w @ spaced ws"
    by (simp add: spaced_def space_if_def)
  have "conf_rep (foldl (conf_out cb) st (map uint w)) k ?v (if w = [] then AUG_TOKWORD else uint (last w)) log"
    using Cons.prems sp by (intro foldl_chars) simp_all
  then have 1: "conf_rep (foldl (conf_out cb) st (map uint w @ [AUG_TOKWORD])) k ?v AUG_TOKWORD log"
    by (simp add: conf_out_def tokens conf_rep_def)
  have "conf_rep (foldl (conf_out cb) (foldl (conf_out cb) st (map uint w @ [AUG_TOKWORD]))
      (word_tokens (map (map uint) ws))) k (?v @ spaced ws) AUG_TOKWORD log"
    using Cons.prems(2) sp by (intro Cons.IH [OF 1]) simp
  then show ?case
    by (simp add: word_tokens_def sp)
qed (simp add: word_tokens_def spaced_def)

definition pair_of :: "byte list \<times> byte list list \<Rightarrow> byte list \<times> byte list" where
  "pair_of p = (fst p, join (snd p))"

lemma cstr_text: "conf_text s \<Longrightarrow> cstr (s @ [0]) = s"
  unfolding cstr_def conf_text_def by (induction s) auto

lemma text_join: "\<forall>w \<in> set ws. conf_text w \<Longrightarrow> conf_text (join ws)"
  by (cases ws) (auto simp: conf_text_def)

lemma conf_phrase_rep:
  assumes "conf_rep st k v l log" "l \<noteq> AUG_TOKPHRASE" "k \<noteq> []" "conf_text k" "conf_text v"
    "st' = conf_out cb st AUG_TOKPHRASE"
  shows "cf_result st' = cb log (k, v)" "cf_log st' = log @ [(k, v)]"
    "cb log (k, v) = None \<Longrightarrow> conf_rep st' [] [] AUG_TOKPHRASE (log @ [(k, v)])"
proof -
  have wf: "x_wf (cf_key st)" "x_wf (cf_value st)" and c: "content (cf_key st) = k" "content (cf_value st) = v"
    and st: "cf_result st = None" "cf_last st = l" "cf_log st = log"
    using assms(1) by (simp_all add: conf_rep_def)
  obtain key where key: "aug_xstr (cf_key st) = (Some (k @ [0]), key)"
    using xstr_value(1) [OF wf(1)] c(1) by (cases "aug_xstr (cf_key st)") simp
  obtain val where val: "aug_xstr (cf_value st) = (Some (v @ [0]), val)"
    using xstr_value(1) [OF wf(2)] c(2) by (cases "aug_xstr (cf_value st)") simp
  have "aug_xstrlen (cf_key st) \<noteq> 0"
    using length_content [OF wf(1)] c(1) assms(3) unfolding aug_xstrlen_def by (metis length_0_conv)
  then have st': "st' = st\<lparr>cf_result := cb log (k, v), cf_log := log @ [(k, v)],
      cf_key := aug_clearxstr key, cf_value := aug_clearxstr val, cf_last := AUG_TOKPHRASE\<rparr>"
    using assms(2,4-6) st key val
    by (simp add: conf_out_def conf_phrase_def tokens cstr_text Let_def)
  then show "cf_result st' = cb log (k, v)" "cf_log st' = log @ [(k, v)]"
    by simp_all
  note key' = xstr_value(2-5) [OF wf(1), unfolded key snd_conv]
    and val' = xstr_value(2-5) [OF wf(2), unfolded val snd_conv]
  have "x_size (aug_clearxstr x) = x_size x" for x
    by (simp add: aug_clearxstr_def aug_clearxstrn_def)
  then show "conf_rep st' [] [] AUG_TOKPHRASE (log @ [(k, v)])" if "cb log (k, v) = None"
    using that assms(1) clear_all(1,2) [OF key'(1)] clear_all(1,2) [OF val'(1)] key'(3) val'(3)
    by (simp add: st' conf_rep_def)
qed

lemma foldl_pair:
  assumes "conf_pair p" "conf_rep st [] [] AUG_TOKPHRASE log"
    "st' = foldl (conf_out cb) st
      (map uint (fst p) @ AUG_TOKLABEL # word_tokens (map (map uint) (snd p)) @ [AUG_TOKPHRASE])"
  shows "cf_result st' = cb log (pair_of p)" "cf_log st' = log @ [pair_of p]"
    "cb log (pair_of p) = None \<Longrightarrow> conf_rep st' [] [] AUG_TOKPHRASE (log @ [pair_of p])"
proof -
  obtain w ws where w: "snd p = w # ws"
    using assms(1) by (cases "snd p") (auto simp: conf_pair_def)
  have p: "fst p \<noteq> []" "conf_text (fst p)" "length (fst p) \<le> 32" "length (w @ spaced ws) \<le> 32"
      "conf_text (join (snd p))" "join (snd p) = w @ spaced ws"
    using assms(1) text_join [of "snd p"] by (auto simp: conf_pair_def w spaced_def)
  define s1 where "s1 = foldl (conf_out cb) st (map uint (fst p) @ [AUG_TOKLABEL])"
  define s2 where "s2 = foldl (conf_out cb) s1 (map uint w @ [AUG_TOKWORD])"
  define s3 where "s3 = foldl (conf_out cb) s2 (word_tokens (map (map uint) ws))"
  have "conf_rep (foldl (conf_out cb) st (map uint (fst p))) [] (fst p) (uint (last (fst p))) log"
    using foldl_chars [OF assms(2), of "fst p" cb] p(1,3) by (simp add: space_if_def tokens)
  then have 1: "conf_rep s1 (fst p) [] AUG_TOKLABEL log"
    by (simp add: s1_def conf_out_def tokens conf_rep_def)
  have "conf_rep (foldl (conf_out cb) s1 (map uint w)) (fst p) w (if w = [] then AUG_TOKLABEL else uint (last w)) log"
    using foldl_chars [OF 1, of w cb] p(4) by (simp add: space_if_def tokens)
  then have 2: "conf_rep s2 (fst p) w AUG_TOKWORD log"
    by (simp add: s2_def conf_out_def tokens conf_rep_def)
  have 3: "conf_rep s3 (fst p) (join (snd p)) AUG_TOKWORD log"
    using foldl_words [OF 2, of ws cb] p(4,6) by (simp add: s3_def)
  have st': "st' = conf_out cb s3 AUG_TOKPHRASE"
    by (simp add: assms(3) s1_def s2_def s3_def w word_tokens_def)
  have "AUG_TOKWORD \<noteq> AUG_TOKPHRASE"
    by (simp add: tokens)
  note ph = conf_phrase_rep [OF 3 this p(1,2,5) st']
  show "cf_result st' = cb log (pair_of p)" "cf_log st' = log @ [pair_of p]"
    "cb log (pair_of p) = None \<Longrightarrow> conf_rep st' [] [] AUG_TOKPHRASE (log @ [pair_of p])"
    using ph by (simp_all add: pair_of_def)
qed

lemma conf_init_rep: "conf_rep (conf_init mpool) [] [] AUG_TOKPHRASE []"
  by (simp add: conf_rep_def conf_init_def create_wf create_size)

text \<open>
  C23: A configuration file gives back the pairs written to it.  A file of phrases, each a quoted
  key, an equals sign and quoted words, is read to its end, and the callback is given each key with
  its words joined by single spaces, in the order of the file, up to the first pair it refuses,
  whose failure is the result.  Keys are not empty, there is at least one word, no byte is 0 or 13,
  and keys and joined words have at most 32 characters: longer ones make the strings of 64
  characters grow, which \<open>long_key_out_of_bounds\<close> shows to be undefined.  Then whatever the memory
  pool answers no memory is used out of bounds.
\<close>
theorem conf_roundtrip:
  assumes "\<forall>p \<in> set ps. conf_pair p"
  shows "aug_freadconf mpool cb (concat (map pair_bytes ps)) None = deliver cb [] (map pair_of ps)"
proof -
  let ?w = "aug_initshellwords True"
  let ?res = "\<lambda>st. (cf_result st, cf_log st)"
  have "?res (conf_loop cb st ?w (concat (map pair_bytes ps)) None) = deliver cb log (map pair_of ps)"
    if "conf_rep st [] [] AUG_TOKPHRASE log" for st log
    using assms that
  proof (induction ps arbitrary: st log)
    case Nil
    then show ?case
      by (simp add: conf_rep_def sh_fn_def sh_eatws_def aug_initshellwords_def
          conf_out_def conf_phrase_def tokens)
  next
    case (Cons p ps)
    then have p: "conf_pair p"
      by simp
    note f = feed_pair [OF conf_pair_ok [OF p] refl, folded map_uint_pair_bytes, simplified]
    define st' where "st' = foldl (conf_out cb) st
      (map uint (fst p) @ AUG_TOKLABEL # word_tokens (map (map uint) (snd p)) @ [AUG_TOKPHRASE])"
    note o = foldl_pair [OF p Cons.prems(2) st'_def]
    have st: "cf_result st = None"
      using Cons.prems(2) by (simp add: conf_rep_def)
    show ?case
    proof (cases "cb log (pair_of p)")
      case None
      have "conf_loop cb st ?w (pair_bytes p @ concat (map pair_bytes ps)) None
          = conf_loop cb st' ?w (concat (map pair_bytes ps)) None"
        using None o(1) by (intro conf_loop_feed [OF f st'_def]) simp
      with None Cons.IH [OF _ o(3) [OF None]] Cons.prems(1) show ?thesis
        by simp
    next
      case (Some e)
      have "conf_loop cb st ?w (pair_bytes p @ concat (map pair_bytes ps)) None = st'"
        using Some o(1) st by (intro conf_loop_fail [OF f st'_def]) simp_all
      with Some o show ?thesis
        by simp
    qed
  qed
  from this [OF conf_init_rep] show ?thesis
    by (simp add: aug_freadconf_def Let_def)
qed

lemma conf_roundtrip_witness:
  "aug_freadconf poor (\<lambda>_ _. None) [39, 107, 39, 61, 39, 97, 32, 39, 32, 39, 98, 39, 32, 10] None
   = (None, [([107], [97, 32, 32, 98])])"
  using conf_roundtrip [of "[([107], [[97, 32], [98]])]" poor "\<lambda>_ _. None"]
  by (simp add: conf_pair_def conf_text_def pair_bytes_def pair_text_def quote_def pair_of_def)

text \<open>
  A key of 33 characters.  With memory granted the growth of its string reads past the local buffer; with memory
  refused the last character is dropped, and the pair is handed on with the shorter key.
\<close>
lemma long_key_out_of_bounds:
  "aug_freadconf \<lparr>po_junk = \<lambda>_. [], po_answer = \<lambda>_. Granted [] []\<rparr> (\<lambda>_ _. None) (replicate 33 97 @ [61, 98, 10]) None
     = (Some Undefined, [])
   \<and> aug_freadconf poor (\<lambda>_ _. None) (replicate 33 97 @ [61, 98, 10]) None = (None, [(replicate 32 97, [98])])"
  by code_simp

text \<open>
  An empty value breaks the next line.  After ``a='' the machine does not look for a label
  again, so the line ``b=c'' that follows is refused for its empty key, while the same line alone,
  or after ``a=d'', is read.
\<close>
lemma empty_value_breaks_next:
  "aug_freadconf poor (\<lambda>_ _. None) [97, 61, 10, 98, 61, 99, 10] None = (Some (ExError ENULL), [([97], [])])
   \<and> aug_freadconf poor (\<lambda>_ _. None) [98, 61, 99, 10] None = (None, [([98], [99])])
   \<and> aug_freadconf poor (\<lambda>_ _. None) [97, 61, 100, 10, 98, 61, 99, 10] None
     = (None, [([97], [100]), ([98], [99])])"
  by code_simp

end
