(* ===== verification/Lexer.thy ===== *)
theory Lexer
  imports Words Xstr
begin

text \<open>
  \<^verbatim>\<open>augutil/lexer.c\<close>: a lexer feeds characters to one of the word machines and hands out tokens.
  \<open>lexer\<close> is \<^verbatim>\<open>struct aug_lexer_\<close>; \<open>lx_xstr\<close> is its growing string (theory \<open>Xstr\<close>).
  \<open>lx_mpool\<close> stands for the memory pool: what the string's memory holds at first, and
  the answer to each later request, by the number (\<open>lx_calls\<close>) of the append that makes it.
  A character is a signed \<^verbatim>\<open>char\<close>.  \<open>None\<close> is a use of memory that is not there: a growth
  of the string that reads past its local buffer, a string whose memory was taken back, or the read
  before the buffer in \<open>aug_rtrimword\<close>.
\<close>

definition AUG_LEXLABEL :: "32 word" where "AUG_LEXLABEL = 1"
definition AUG_LEXWORD :: "32 word" where "AUG_LEXWORD = 2"
definition AUG_LEXPHRASE :: "32 word" where "AUG_LEXPHRASE = 4"

lemmas lex_flags = AUG_LEXLABEL_def AUG_LEXWORD_def AUG_LEXPHRASE_def

definition AUG_MAXLINE :: nat where "AUG_MAXLINE = 1024"

datatype lexkind = NetLexer | ShellLexer

record lexer =
  lx_mpool :: mpool
  lx_words :: words
  lx_put :: lexkind
  lx_xstr :: xstr
  lx_what :: "32 word"
  lx_save :: byte
  lx_calls :: nat

definition put_words :: "lexkind \<Rightarrow> words \<Rightarrow> int \<Rightarrow> int list \<times> words" where
  "put_words k = (case k of NetLexer \<Rightarrow> aug_putnetwords | ShellLexer \<Rightarrow> aug_putshellwords)"

text \<open>The result of the append is ignored: a character there is no memory for is dropped.\<close>

definition lx_cat :: "lexer \<Rightarrow> byte \<Rightarrow> lexer option" where
  "lx_cat lx c =
     (case aug_xstrcatc (lx_xstr lx) c (po_answer (lx_mpool lx) (lx_calls lx)) of
        (r, x) \<Rightarrow> if r = Inl Undefined then None
                  else Some (lx\<lparr>lx_xstr := x, lx_calls := Suc (lx_calls lx)\<rparr>))"

definition lx_rtrim :: "lexer \<Rightarrow> lexer option" where
  "lx_rtrim lx =
     (case aug_xstr (lx_xstr lx) of
        (None, x) \<Rightarrow> None
      | (Some s, x) \<Rightarrow>
          map_option (\<lambda>n. lx\<lparr>lx_xstr := aug_clearxstrn x n\<rparr>) (aug_rtrimword (take (aug_xstrlen x) s)))"

definition lx_out :: "lexer \<Rightarrow> int \<Rightarrow> lexer option" where
  "lx_out lx what =
     (if what = AUG_TOKLABEL then Some (lx\<lparr>lx_what := lx_what lx OR AUG_LEXLABEL\<rparr>)
      else if what = AUG_TOKWORD then Some (lx\<lparr>lx_what := lx_what lx OR AUG_LEXWORD\<rparr>)
      else if what = AUG_TOKPHRASE then Some (lx\<lparr>lx_what := lx_what lx OR AUG_LEXPHRASE\<rparr>)
      else if what = AUG_TOKRTRIM then lx_rtrim lx
      else if lx_what lx \<noteq> 0 then Some (lx\<lparr>lx_save := word_of_int what\<rparr>)
      else lx_cat lx (word_of_int what))"

fun lx_outs :: "lexer \<Rightarrow> int list \<Rightarrow> lexer option" where
  "lx_outs lx [] = Some lx"
| "lx_outs lx (w # ws) = do { lx \<leftarrow> lx_out lx w; lx_outs lx ws }"

definition createlexer :: "mpool \<Rightarrow> nat \<Rightarrow> words \<Rightarrow> lexkind \<Rightarrow> lexer" where
  "createlexer mpool size' ws put =
     \<lparr>lx_mpool = mpool, lx_words = ws, lx_put = put,
      lx_xstr = aug_createxstr (if size' = 0 then AUG_MAXLINE else size') (po_junk mpool 0),
      lx_what = 0, lx_save = 0, lx_calls = 0\<rparr>"

definition aug_createnetlexer :: "mpool \<Rightarrow> nat \<Rightarrow> lexer" where
  "aug_createnetlexer mpool size' = createlexer mpool size' aug_initnetwords NetLexer"

definition aug_createshelllexer :: "mpool \<Rightarrow> nat \<Rightarrow> bool \<Rightarrow> lexer" where
  "aug_createshelllexer mpool size' pairs = createlexer mpool size' (aug_initshellwords pairs) ShellLexer"

text \<open>Before a character, the token that was handed out is cleared and a saved character put back.\<close>

definition lx_begin :: "lexer \<Rightarrow> lexer option" where
  "lx_begin lx =
     (if lx_what lx \<noteq> 0 then
        let lx = lx\<lparr>lx_xstr := aug_clearxstr (lx_xstr lx), lx_what := 0\<rparr> in
        if lx_save lx \<noteq> 0 then map_option (\<lambda>lx. lx\<lparr>lx_save := 0\<rparr>) (lx_cat lx (lx_save lx)) else Some lx
      else Some lx)"

definition aug_appendlexer :: "lexer \<Rightarrow> byte \<Rightarrow> lexer option" where
  "aug_appendlexer lx ch =
     do { lx \<leftarrow> lx_begin lx;
          (case put_words (lx_put lx) (lx_words lx) (sint ch) of
             (out, st) \<Rightarrow> lx_outs (lx\<lparr>lx_words := st\<rparr>) out) }"

definition aug_finishlexer :: "lexer \<Rightarrow> lexer option" where
  "aug_finishlexer lx = aug_appendlexer lx 10"

text \<open>
  The token as the C string the caller sees, or the null pointer; the terminator is written then.
\<close>

definition aug_lexertoken :: "lexer \<Rightarrow> (byte list option \<times> lexer) option" where
  "aug_lexertoken lx =
     (if lx_what lx \<noteq> 0 then
        (case aug_xstr (lx_xstr lx) of
           (None, x) \<Rightarrow> None
         | (Some s, x) \<Rightarrow> Some (Some (takeWhile (\<lambda>b. b \<noteq> 0) s), lx\<lparr>lx_xstr := x\<rparr>))
      else Some (None, lx))"

section \<open>Runs\<close>

text \<open>The tokens of a text: after each character, what the caller is told, if anything.\<close>

definition lx_tell :: "lexer \<Rightarrow> ((32 word \<times> byte list) list \<times> lexer) option" where
  "lx_tell lx =
     map_option (\<lambda>(token, lx'). (case token of Some t \<Rightarrow> [(lx_what lx, t)] | None \<Rightarrow> [], lx'))
       (aug_lexertoken lx)"

fun lex_run :: "lexer \<Rightarrow> byte list \<Rightarrow> ((32 word \<times> byte list) list \<times> lexer) option" where
  "lex_run lx [] = Some ([], lx)"
| "lex_run lx (ch # chs) = do {
     lx \<leftarrow> aug_appendlexer lx ch;
     (tok, lx) \<leftarrow> lx_tell lx;
     (toks, lx) \<leftarrow> lex_run lx chs;
     Some (tok @ toks, lx)
   }"

lemma lex_run_append:
  "lex_run lx (a @ b) = do {
     (t1, lx) \<leftarrow> lex_run lx a; (t2, lx) \<leftarrow> lex_run lx b; Some (t1 @ t2, lx) }"
  by (induction a arbitrary: lx) (auto simp: Option.bind_assoc split_def)

section \<open>Header fields\<close>

text \<open>
  The state of a network lexer between characters, as far as the next one can tell: \<open>got\<close> is
  the text gathered so far.
\<close>

definition net_at :: "lexer \<Rightarrow> words_fn \<Rightarrow> bool \<Rightarrow> bool \<Rightarrow> byte list \<Rightarrow> bool" where
  "net_at lx fn lab nl got \<longleftrightarrow>
     lx_put lx = NetLexer \<and>
     lx_words lx = \<lparr>w_fn = fn, w_escape = False, w_label = lab, w_newline = nl, w_pairs = False\<rparr> \<and>
     x_wf (lx_xstr lx) \<and> AUG_MAXLINE \<le> x_size (lx_xstr lx) \<and>
     (if lx_what lx = 0 then lx_save lx = 0 \<and> content (lx_xstr lx) = got
      else got = (if lx_save lx \<noteq> 0 then [lx_save lx] else []))"

text \<open>A lexer that takes an output: no token is pending.\<close>

definition open_at :: "lexer \<Rightarrow> byte list \<Rightarrow> bool" where
  "open_at lx got \<longleftrightarrow>
     lx_put lx = NetLexer \<and> lx_what lx = 0 \<and> lx_save lx = 0 \<and>
     x_wf (lx_xstr lx) \<and> AUG_MAXLINE \<le> x_size (lx_xstr lx) \<and> content (lx_xstr lx) = got"

lemma cat_open:
  assumes "open_at lx got" "2 * length got < AUG_MAXLINE"
  shows "\<exists>lx'. lx_cat lx c = Some lx' \<and> open_at lx' (got @ [c]) \<and> lx_words lx' = lx_words lx"
proof -
  define r where "r = aug_xstrcatc (lx_xstr lx) c (po_answer (lx_mpool lx) (lx_calls lx))"
  have "x_wf (lx_xstr lx)" "2 * x_len (lx_xstr lx) + 1 \<le> x_size (lx_xstr lx)"
    using assms length_content [of "lx_xstr lx"] by (auto simp: open_at_def)
  note fits = catc_fits [OF this, where c = c and a = "po_answer (lx_mpool lx) (lx_calls lx)", folded r_def]
  then have "lx_cat lx c = Some (lx\<lparr>lx_xstr := snd r, lx_calls := Suc (lx_calls lx)\<rparr>)"
    by (simp add: lx_cat_def r_def [symmetric] split_def)
  then show ?thesis
    using assms(1) fits by (simp add: open_at_def)
qed

lemma clear_xwf:
  assumes "x_wf x"
  shows "x_wf (aug_clearxstr x)" "content (aug_clearxstr x) = []" "x_size (aug_clearxstr x) = x_size x"
  using clear_wf [OF assms, of 0] by (simp_all add: aug_clearxstr_def)

lemma net_begin:
  assumes "net_at lx fn lab nl got"
  shows "\<exists>lx'. lx_begin lx = Some lx' \<and> open_at lx' got \<and> lx_words lx' = lx_words lx"
proof (cases "lx_what lx = 0")
  case True
  with assms show ?thesis
    by (simp add: lx_begin_def net_at_def open_at_def)
next
  case False
  let ?lx = "lx\<lparr>lx_xstr := aug_clearxstr (lx_xstr lx), lx_what := 0\<rparr>"
  have o: "open_at (?lx\<lparr>lx_save := 0\<rparr>) []"
    using assms clear_xwf [of "lx_xstr lx"] by (simp add: net_at_def open_at_def)
  have frame: "lx_cat (l\<lparr>lx_save := b\<rparr>) c = map_option (\<lambda>l. l\<lparr>lx_save := b\<rparr>) (lx_cat l c)" for l b c
    by (simp add: lx_cat_def split_def)
  obtain lx' where lx': "lx_cat (?lx\<lparr>lx_save := 0\<rparr>) (lx_save lx) = Some lx'"
      "open_at lx' [lx_save lx]" "lx_words lx' = lx_words lx"
    using cat_open [OF o, of "lx_save lx"] by (auto simp: AUG_MAXLINE_def)
  show ?thesis
  proof (cases "lx_save lx = 0")
    case True
    have "?lx\<lparr>lx_save := 0\<rparr> = ?lx"
      using True by simp
    then show ?thesis
      using assms False True o by (simp add: lx_begin_def net_at_def open_at_def)
  next
    case save: False
    then show ?thesis
      using assms False lx' by (auto simp: lx_begin_def net_at_def frame Let_def)
  qed
qed

text \<open>A character that is itself in a name (\<open>lab\<close>) or a value.\<close>

definition text_char :: "bool \<Rightarrow> byte \<Rightarrow> bool" where
  "text_char lab c \<longleftrightarrow> 0 < c \<and> c < 128 \<and> c \<noteq> 10 \<and> c \<noteq> 13 \<and> c \<noteq> 92 \<and> (lab \<longrightarrow> c \<noteq> 58)"

lemma sint_small: "c < 128 \<Longrightarrow> sint (c :: byte) = uint c"
proof -
  assume "c < 128"
  then have "uint c < 128"
    by (simp add: word_less_def)
  then show ?thesis
    by (subst sint_uint, subst signed_take_bit_int_eq_self) (auto intro: order_trans [OF _ uint_ge_0])
qed

lemma sint_eq_iff:
  assumes "c < 128" "0 \<le> k" "k < 256"
  shows "sint (c :: byte) = k \<longleftrightarrow> c = word_of_int k"
  using assms by (auto simp: sint_small word_uint_eq_iff uint_word_of_int)

lemma text_charD:
  assumes "text_char lab c"
  shows "c < 128" "c \<noteq> 0" "0 < sint c" "sint c \<noteq> 10" "sint c \<noteq> 13" "sint c \<noteq> 92"
    "lab \<Longrightarrow> sint c \<noteq> 58" "word_of_int (sint c) = c"
proof -
  show c: "c < 128" "c \<noteq> 0"
    using assms by (auto simp: text_char_def)
  show "0 < sint c" "word_of_int (sint c) = c"
    using c uint_ge_0 [of c] by (auto simp: sint_small order_less_le uint_0_iff)
  show "sint c \<noteq> 10" "sint c \<noteq> 13" "sint c \<noteq> 92" "lab \<Longrightarrow> sint c \<noteq> 58"
    using assms by (auto simp: text_char_def sint_eq_iff)
qed

text \<open>
  The outcome of one character as \<open>aug_appendlexer\<close> reports it: the flags, the token text when
  there are flags, and the lexer that takes the next character.
\<close>

definition net_step :: "lexer \<Rightarrow> byte \<Rightarrow> 32 word \<Rightarrow> byte list \<Rightarrow>
    words_fn \<Rightarrow> bool \<Rightarrow> bool \<Rightarrow> byte list \<Rightarrow> bool" where
  "net_step lx c what token fn lab nl got \<longleftrightarrow>
     (\<exists>lx'. aug_appendlexer lx c = Some lx' \<and> lx_what lx' = what \<and>
        (what \<noteq> 0 \<longrightarrow> content (lx_xstr lx') = token) \<and> net_at lx' fn lab nl got)"

text \<open>A character is a step when the outputs of the word machine lead to the state after it.\<close>

lemma net_stepI:
  assumes "net_at lx fn lab nl got"
    and "aug_putnetwords \<lparr>w_fn = fn, w_escape = False, w_label = lab, w_newline = nl, w_pairs = False\<rparr>
      (sint c) = (out, \<lparr>w_fn = fn', w_escape = False, w_label = lab', w_newline = nl', w_pairs = False\<rparr>)"
    and "\<And>lx0. open_at lx0 got \<Longrightarrow> \<exists>lx'. lx_outs lx0 out = Some lx' \<and> lx_put lx' = NetLexer
      \<and> lx_words lx' = lx_words lx0 \<and> lx_what lx' = what \<and> (what \<noteq> 0 \<longrightarrow> content (lx_xstr lx') = token)
      \<and> x_wf (lx_xstr lx') \<and> AUG_MAXLINE \<le> x_size (lx_xstr lx')
      \<and> (if what = 0 then lx_save lx' = 0 \<and> content (lx_xstr lx') = got'
         else got' = (if lx_save lx' \<noteq> 0 then [lx_save lx'] else []))"
  shows "net_step lx c what token fn' lab' nl' got'"
proof -
  let ?w = "\<lparr>w_fn = fn', w_escape = False, w_label = lab', w_newline = nl', w_pairs = False\<rparr>"
  obtain lx0 where lx0: "lx_begin lx = Some lx0" "open_at lx0 got" "lx_words lx0 = lx_words lx"
    using net_begin [OF assms(1)] by blast
  have "open_at (lx0\<lparr>lx_words := ?w\<rparr>) got"
    using lx0(2) by (simp add: open_at_def)
  from assms(3) [OF this] obtain lx' where lx': "lx_outs (lx0\<lparr>lx_words := ?w\<rparr>) out = Some lx'"
      "lx_put lx' = NetLexer" "lx_words lx' = ?w" "lx_what lx' = what"
      "what \<noteq> 0 \<longrightarrow> content (lx_xstr lx') = token" "x_wf (lx_xstr lx')"
      "AUG_MAXLINE \<le> x_size (lx_xstr lx')" "if what = 0 then lx_save lx' = 0 \<and> content (lx_xstr lx') = got'
         else got' = (if lx_save lx' \<noteq> 0 then [lx_save lx'] else [])"
    by auto
  have "lx_words lx = \<lparr>w_fn = fn, w_escape = False, w_label = lab, w_newline = nl, w_pairs = False\<rparr>"
      "lx_put lx0 = NetLexer"
    using assms(1) lx0(2) by (simp_all add: net_at_def open_at_def)
  then have "aug_appendlexer lx c = Some lx'"
    using lx0(1,3) lx'(1) assms(2) by (simp add: aug_appendlexer_def put_words_def)
  then show ?thesis
    using lx'(2-8) by (auto simp: net_step_def net_at_def)
qed

lemmas net_put_simps =
  aug_putnetwords_def EOF_def net_fn_def net_eatws_def net_word_def linespace_def Let_def

text \<open>A character that is passed on.\<close>

lemma out_char:
  assumes "open_at lx got" "2 * length got < AUG_MAXLINE" "0 < sint c"
  shows "\<exists>lx'. lx_outs lx [sint c] = Some lx' \<and> open_at lx' (got @ [c]) \<and> lx_words lx' = lx_words lx"
proof -
  obtain lx' where "lx_cat lx c = Some lx'" "open_at lx' (got @ [c])" "lx_words lx' = lx_words lx"
    using cat_open [OF assms(1,2)] by blast
  moreover have "lx_what lx = 0" "word_of_int (sint c) = c"
    using assms(1) by (simp_all add: open_at_def)
  ultimately show ?thesis
    using assms(3) by (simp add: lx_out_def tokens)
qed

lemma net_char:
  assumes "net_at lx fn lab nl got" "2 * length got < AUG_MAXLINE" "0 < sint c"
    and "aug_putnetwords \<lparr>w_fn = fn, w_escape = False, w_label = lab, w_newline = nl, w_pairs = False\<rparr>
      (sint c) = ([sint c], \<lparr>w_fn = fn', w_escape = False, w_label = lab', w_newline = nl', w_pairs = False\<rparr>)"
  shows "net_step lx c 0 [] fn' lab' nl' (got @ [c])"
  by (rule net_stepI [OF assms(1,4)]) (use out_char [OF _ assms(2,3)] in \<open>fastforce simp: open_at_def\<close>)

text \<open>A character of a name or value.\<close>

lemma net_text:
  assumes "net_at lx Bare lab False got" "text_char lab c" "2 * length got < AUG_MAXLINE"
  shows "net_step lx c 0 [] Bare lab False (got @ [c])"
  by (rule net_char [OF assms(1,3)])
    (use text_charD [OF assms(2)] in \<open>auto simp: net_put_simps\<close>)

text \<open>The first character of a name or value.\<close>

definition first_char :: "bool \<Rightarrow> byte \<Rightarrow> bool" where
  "first_char lab c \<longleftrightarrow> text_char lab c \<and> \<not> isspace c"

lemma first_charD:
  assumes "first_char lab c"
  shows "text_char lab c" "\<not> isspace c" "\<not> linespace (sint c)"
proof -
  show t: "text_char lab c" and n: "\<not> isspace c"
    using assms by (auto simp: first_char_def)
  show "\<not> linespace (sint c)"
    using n text_charD [OF t] by (auto simp: linespace_def sint_eq_iff isspace_def)
qed

lemma net_first:
  assumes "net_at lx EatWs lab False got" "first_char lab c" "2 * length got < AUG_MAXLINE"
  shows "net_step lx c 0 [] Bare lab False (got @ [c])"
  by (rule net_char [OF assms(1,3)])
    (use text_charD [OF first_charD(1) [OF assms(2)]] first_charD(3) [OF assms(2)] in \<open>auto simp: net_put_simps\<close>)

text \<open>A character that is dropped.\<close>

lemma net_silent:
  assumes "net_at lx fn lab nl got"
    and "aug_putnetwords \<lparr>w_fn = fn, w_escape = False, w_label = lab, w_newline = nl, w_pairs = False\<rparr>
      (sint c) = ([], \<lparr>w_fn = fn', w_escape = False, w_label = lab', w_newline = nl', w_pairs = False\<rparr>)"
  shows "net_step lx c 0 [] fn' lab' nl' got"
  by (rule net_stepI [OF assms]) (simp add: open_at_def)

text \<open>A return is ignored in every state.\<close>

lemma net_return:
  assumes "net_at lx fn lab nl got"
  shows "net_step lx 13 0 [] fn lab nl got"
  by (rule net_silent [OF assms]) (simp add: net_put_simps)

text \<open>The space between a label and its value.\<close>

lemma net_space:
  assumes "net_at lx EatWs lab False got"
  shows "net_step lx 32 0 [] EatWs lab False got"
  by (rule net_silent [OF assms]) (simp add: net_put_simps)

text \<open>A name or value whose last character is not a space is not trimmed.\<close>

definition trimmed :: "byte list \<Rightarrow> bool" where
  "trimmed s \<longleftrightarrow> s = [] \<or> \<not> isspace (last s)"

lemma rtrim_trimmed [simp]: "trimmed s \<Longrightarrow> aug_rtrimword s = Some (length s)"
  by (cases s rule: rev_cases) (auto simp: trimmed_def aug_rtrimword_def rtrim_len_def)

lemma out_rtrim:
  assumes "open_at lx got" "trimmed got"
  shows "\<exists>lx'. lx_out lx AUG_TOKRTRIM = Some lx' \<and> open_at lx' got \<and> lx_words lx' = lx_words lx"
proof -
  have wf: "x_wf (lx_xstr lx)" and got: "content (lx_xstr lx) = got"
    using assms(1) by (simp_all add: open_at_def)
  obtain x where x: "aug_xstr (lx_xstr lx) = (Some (got @ [0]), x)"
    using xstr_value(1) [OF wf] got by (cases "aug_xstr (lx_xstr lx)") simp
  note v = xstr_value(2-5) [OF wf, unfolded x snd_conv]
  have len: "x_len x = length got"
    using length_content [OF wf] v(4) got by simp
  then have "aug_clearxstrn x (length got) = x"
    by (simp add: aug_clearxstrn_def)
  then have "lx_out lx AUG_TOKRTRIM = Some (lx\<lparr>lx_xstr := x\<rparr>)"
    using assms(2) len x by (simp add: lx_out_def tokens lx_rtrim_def aug_xstrlen_def)
  then show ?thesis
    using assms(1) v got by (simp add: open_at_def)
qed

lemma net_newline:
  assumes "net_at lx fn lab False got" "trimmed got"
    "fn = Bare \<or> fn = EatWs \<and> \<not> lab"
  shows "net_step lx 10 0 [] Bare lab True got"
proof (rule net_stepI [OF assms(1), where out = "[AUG_TOKRTRIM]"])
  show "aug_putnetwords \<lparr>w_fn = fn, w_escape = False, w_label = lab, w_newline = False, w_pairs = False\<rparr> (sint (10 :: byte))
      = ([AUG_TOKRTRIM], \<lparr>w_fn = Bare, w_escape = False, w_label = lab, w_newline = True, w_pairs = False\<rparr>)"
    using assms(3) by (auto simp: net_put_simps)
qed (use out_rtrim [OF _ assms(2)] in \<open>fastforce simp: open_at_def\<close>)

text \<open>The colon after a name.\<close>

lemma net_colon:
  assumes "net_at lx Bare True False got" "trimmed got"
  shows "net_step lx 58 AUG_LEXLABEL got EatWs False False []"
proof (rule net_stepI [OF assms(1), where out = "[AUG_TOKRTRIM, AUG_TOKLABEL]"])
  fix lx0
  assume "open_at lx0 got"
  then obtain lx1 where "lx_out lx0 AUG_TOKRTRIM = Some lx1" "open_at lx1 got" "lx_words lx1 = lx_words lx0"
    using out_rtrim assms(2) by blast
  then show "\<exists>lx'. lx_outs lx0 [AUG_TOKRTRIM, AUG_TOKLABEL] = Some lx' \<and> lx_put lx' = NetLexer
      \<and> lx_words lx' = lx_words lx0 \<and> lx_what lx' = AUG_LEXLABEL \<and> (AUG_LEXLABEL \<noteq> 0 \<longrightarrow> content (lx_xstr lx') = got)
      \<and> x_wf (lx_xstr lx') \<and> AUG_MAXLINE \<le> x_size (lx_xstr lx')
      \<and> (if AUG_LEXLABEL = 0 then lx_save lx' = 0 \<and> content (lx_xstr lx') = []
         else [] = (if lx_save lx' \<noteq> 0 then [lx_save lx'] else []))"
    by (simp add: open_at_def lx_out_def [of _ AUG_TOKLABEL] lex_flags)
qed (simp add: net_put_simps)

text \<open>After a line's end: the first character of the next line, or the empty line.\<close>

lemma net_next_line:
  assumes "net_at lx Bare lab True got" "first_char lab' c"
  shows "net_step lx c AUG_LEXWORD got Bare True False [c]"
proof (rule net_stepI [OF assms(1), where out = "[AUG_TOKWORD, sint c]"])
  note c = text_charD [OF first_charD(1) [OF assms(2)]] first_charD(3) [OF assms(2)]
  show "aug_putnetwords \<lparr>w_fn = Bare, w_escape = False, w_label = lab, w_newline = True, w_pairs = False\<rparr> (sint c)
      = ([AUG_TOKWORD, sint c], \<lparr>w_fn = Bare, w_escape = False, w_label = True, w_newline = False, w_pairs = False\<rparr>)"
    using c by (auto simp: net_put_simps)
  fix lx0
  assume "open_at lx0 got"
  then show "\<exists>lx'. lx_outs lx0 [AUG_TOKWORD, sint c] = Some lx' \<and> lx_put lx' = NetLexer
      \<and> lx_words lx' = lx_words lx0 \<and> lx_what lx' = AUG_LEXWORD \<and> (AUG_LEXWORD \<noteq> 0 \<longrightarrow> content (lx_xstr lx') = got)
      \<and> x_wf (lx_xstr lx') \<and> AUG_MAXLINE \<le> x_size (lx_xstr lx')
      \<and> (if AUG_LEXWORD = 0 then lx_save lx' = 0 \<and> content (lx_xstr lx') = [c]
         else [c] = (if lx_save lx' \<noteq> 0 then [lx_save lx'] else []))"
    using c by (simp add: open_at_def lx_out_def tokens lex_flags)
qed

lemma net_empty_line:
  assumes "net_at lx Bare lab True got"
  shows "net_step lx 10 (AUG_LEXWORD OR AUG_LEXPHRASE) got EatWs True False []"
proof (rule net_stepI [OF assms, where out = "[AUG_TOKWORD, AUG_TOKPHRASE]"])
  fix lx0
  assume "open_at lx0 got"
  then show "\<exists>lx'. lx_outs lx0 [AUG_TOKWORD, AUG_TOKPHRASE] = Some lx' \<and> lx_put lx' = NetLexer
      \<and> lx_words lx' = lx_words lx0 \<and> lx_what lx' = AUG_LEXWORD OR AUG_LEXPHRASE
      \<and> (AUG_LEXWORD OR AUG_LEXPHRASE \<noteq> 0 \<longrightarrow> content (lx_xstr lx') = got)
      \<and> x_wf (lx_xstr lx') \<and> AUG_MAXLINE \<le> x_size (lx_xstr lx')
      \<and> (if AUG_LEXWORD OR AUG_LEXPHRASE = 0 then lx_save lx' = 0 \<and> content (lx_xstr lx') = []
         else [] = (if lx_save lx' \<noteq> 0 then [lx_save lx'] else []))"
    by (simp add: open_at_def lx_out_def tokens lex_flags)
qed (simp add: net_put_simps)

section \<open>Lines\<close>

definition lexes :: "lexer \<Rightarrow> byte list \<Rightarrow> (32 word \<times> byte list) list \<Rightarrow>
    words_fn \<Rightarrow> bool \<Rightarrow> bool \<Rightarrow> byte list \<Rightarrow> bool" where
  "lexes lx s toks fn lab nl got \<longleftrightarrow>
     (\<exists>lx'. lex_run lx s = Some (toks, lx') \<and> net_at lx' fn lab nl got)"

lemma lexes_append:
  assumes "lexes lx a t1 fn lab nl got"
    "\<And>lx'. net_at lx' fn lab nl got \<Longrightarrow> lexes lx' b t2 fn' lab' nl' got'"
  shows "lexes lx (a @ b) (t1 @ t2) fn' lab' nl' got'"
proof -
  obtain lx1 where 1: "lex_run lx a = Some (t1, lx1)" "net_at lx1 fn lab nl got"
    using assms(1) by (auto simp: lexes_def)
  moreover obtain lx2 where "lex_run lx1 b = Some (t2, lx2)" "net_at lx2 fn' lab' nl' got'"
    using assms(2) [OF 1(2)] by (auto simp: lexes_def)
  ultimately show ?thesis
    by (simp add: lexes_def lex_run_append)
qed

lemma lexes_Nil: "net_at lx fn lab nl got \<Longrightarrow> lexes lx [] [] fn lab nl got"
  by (simp add: lexes_def)

lemma lexes_silent:
  assumes "net_step lx c 0 token fn lab nl got"
  shows "lexes lx [c] [] fn lab nl got"
  using assms by (auto simp: lexes_def net_step_def lx_tell_def aug_lexertoken_def)

text \<open>Reading a token leaves the lexer as it is, but for the terminator.\<close>

lemma takeWhile_terminated: "0 \<notin> set s \<Longrightarrow> takeWhile (\<lambda>b. b \<noteq> 0) (s @ [0]) = (s :: byte list)"
  by (induction s) auto

lemma token_read:
  assumes "net_at lx fn lab nl got" "lx_what lx \<noteq> 0" "0 \<notin> set (content (lx_xstr lx))"
  shows "\<exists>lx'. aug_lexertoken lx = Some (Some (content (lx_xstr lx)), lx') \<and> net_at lx' fn lab nl got"
proof -
  have wf: "x_wf (lx_xstr lx)"
    using assms(1) by (simp add: net_at_def)
  note v = xstr_value [OF wf]
  have "aug_lexertoken lx = Some (Some (content (lx_xstr lx)), lx\<lparr>lx_xstr := snd (aug_xstr (lx_xstr lx))\<rparr>)"
    using assms(2,3) v(1) by (cases "aug_xstr (lx_xstr lx)") (simp add: aug_lexertoken_def takeWhile_terminated)
  then show ?thesis
    using assms(1,2) v by (simp add: net_at_def)
qed

lemma lexes_token:
  assumes "net_step lx c what token fn lab nl got" "what \<noteq> 0" "0 \<notin> set token"
  shows "lexes lx [c] [(what, token)] fn lab nl got"
proof -
  obtain lx' where lx': "aug_appendlexer lx c = Some lx'" "lx_what lx' = what" "content (lx_xstr lx') = token"
      "net_at lx' fn lab nl got"
    using assms(1,2) by (auto simp: net_step_def)
  obtain lx2 where "aug_lexertoken lx' = Some (Some token, lx2)" "net_at lx2 fn lab nl got"
    using token_read [OF lx'(4)] lx'(2,3) assms(2,3) by auto
  then show ?thesis
    using lx'(1,2) by (simp add: lexes_def lx_tell_def)
qed

lemma lexes_Cons:
  assumes "lexes lx [c] t1 fn lab nl got"
    "\<And>lx'. net_at lx' fn lab nl got \<Longrightarrow> lexes lx' b t2 fn' lab' nl' got'"
  shows "lexes lx (c # b) (t1 @ t2) fn' lab' nl' got'"
  using lexes_append [OF assms] by simp

lemma lexes_text:
  assumes "net_at lx Bare lab False got" "list_all (text_char lab) s" "2 * length (got @ s) \<le> AUG_MAXLINE"
  shows "lexes lx s [] Bare lab False (got @ s)"
  using assms
proof (induction s arbitrary: lx got)
  case (Cons c s)
  have 1: "lexes lx [c] [] Bare lab False (got @ [c])"
    using Cons.prems by (intro lexes_silent [OF net_text]) auto
  have "lexes lx' s [] Bare lab False ((got @ [c]) @ s)"
    if "net_at lx' Bare lab False (got @ [c])" for lx'
    using Cons.prems(2,3) by (intro Cons.IH [OF that]) simp_all
  from lexes_Cons [OF 1 this] show ?case
    by simp
qed (simp add: lexes_Nil)

lemma lexes_rest:
  assumes "lexes lx [c] toks Bare lab False [c]" "list_all (text_char lab) cs"
    "2 * length (c # cs) \<le> AUG_MAXLINE"
  shows "lexes lx (c # cs) toks Bare lab False (c # cs)"
proof -
  have "lexes lx' cs [] Bare lab False ([c] @ cs)" if "net_at lx' Bare lab False [c]" for lx'
    using that assms(2,3) by (intro lexes_text) simp_all
  from lexes_Cons [OF assms(1) this] show ?thesis
    by simp
qed

text \<open>
  What may stand on a line: a request line or name (\<open>lab\<close>) or a value.  The string grows
  when its content takes up more than half of its size, so that a line of up to half of
  \<open>AUG_MAXLINE\<close> characters never makes it grow.
\<close>

definition line_text :: "bool \<Rightarrow> byte list \<Rightarrow> bool" where
  "line_text lab s \<longleftrightarrow> s \<noteq> [] \<and> list_all (text_char lab) s \<and> first_char lab (hd s) \<and> trimmed s
     \<and> 2 * length s \<le> AUG_MAXLINE"

lemma line_text_nonzero: "list_all (text_char lab) s \<Longrightarrow> 0 \<notin> set s"
  by (auto simp: list_all_iff text_char_def)

lemma lexes_crlf:
  assumes "net_at lx fn lab False got" "trimmed got" "fn = Bare \<or> fn = EatWs \<and> \<not> lab"
  shows "lexes lx [13, 10] [] Bare lab True got"
  using lexes_Cons [OF lexes_silent [OF net_return [OF assms(1)]]
      lexes_silent [OF net_newline [OF _ assms(2,3)]]]
  by simp

lemma lexes_line:
  assumes "net_at lx EatWs True False []" "line_text True s"
  shows "lexes lx (s @ [13, 10]) [] Bare True True s"
proof -
  obtain c cs where s: "s = c # cs"
    using assms(2) by (cases s) (auto simp: line_text_def)
  have 1: "lexes lx [c] [] Bare True False [c]"
    using net_first [OF assms(1)] assms(2) by (intro lexes_silent) (auto simp: s line_text_def)
  have 2: "lexes lx s [] Bare True False s"
    using lexes_rest [OF 1] assms(2) by (simp add: s line_text_def)
  show ?thesis
    using lexes_append [OF 2 lexes_crlf] assms(2) by (simp add: line_text_def)
qed

type_synonym field_line = "byte list \<times> byte list"

definition field_ok :: "field_line \<Rightarrow> bool" where
  "field_ok f \<longleftrightarrow> line_text True (fst f) \<and> (snd f = [] \<or> line_text False (snd f))"

definition render_field :: "field_line \<Rightarrow> byte list" where
  "render_field f = fst f @ [58, 32] @ snd f @ [13, 10]"

lemma lexes_value:
  assumes "net_at lx EatWs False False []" "v = [] \<or> line_text False v"
  shows "lexes lx (32 # v @ [13, 10]) [] Bare False True v"
proof -
  have 1: "lexes lx [32] [] EatWs False False []"
    using assms(1) by (rule lexes_silent [OF net_space])
  have "lexes lx' (v @ [13, 10]) [] Bare False True v" if "net_at lx' EatWs False False []" for lx'
  proof (cases v)
    case Nil
    with that show ?thesis
      using lexes_crlf [OF that] by (simp add: trimmed_def)
  next
    case (Cons c cs)
    then have v: "line_text False v"
      using assms(2) by auto
    have 2: "lexes lx' [c] [] Bare False False [c]"
      using net_first [OF that] v by (intro lexes_silent) (auto simp: Cons line_text_def)
    have 3: "lexes lx' v [] Bare False False v"
      using lexes_rest [OF 2] v by (simp add: Cons line_text_def)
    show ?thesis
      using lexes_append [OF 3 lexes_crlf] v by (simp add: line_text_def)
  qed
  from lexes_Cons [OF 1 this] show ?thesis
    by simp
qed

lemma lexes_field:
  assumes "net_at lx Bare lab True got" "0 \<notin> set got" "field_ok f"
  shows "lexes lx (render_field f) [(AUG_LEXWORD, got), (AUG_LEXLABEL, fst f)]
    Bare False True (snd f)"
proof -
  obtain c cs where n: "fst f = c # cs"
    using assms(3) by (cases "fst f") (auto simp: field_ok_def line_text_def)
  have l: "line_text True (fst f)"
    using assms(3) by (simp add: field_ok_def)
  have 1: "lexes lx [c] [(AUG_LEXWORD, got)] Bare True False [c]"
    using net_next_line [OF assms(1)] l assms(2)
    by (intro lexes_token) (auto simp: n line_text_def lex_flags)
  have 2: "lexes lx (fst f) [(AUG_LEXWORD, got)] Bare True False (fst f)"
    using lexes_rest [OF 1] l by (simp add: n line_text_def)
  have 3: "lexes lx' [58] [(AUG_LEXLABEL, fst f)] EatWs False False []"
    if "net_at lx' Bare True False (fst f)" for lx'
    using net_colon [OF that] l line_text_nonzero
    by (intro lexes_token) (auto simp: line_text_def lex_flags)
  show ?thesis
    using lexes_append [OF lexes_append [OF 2 3] lexes_value] assms(3)
    by (simp add: render_field_def field_ok_def)
qed


text \<open>A header: a request line, fields, an empty line.\<close>

definition render_head :: "byte list \<Rightarrow> field_line list \<Rightarrow> byte list" where
  "render_head rl fs = rl @ [13, 10] @ concat (map render_field fs) @ [13, 10]"

text \<open>
  The tokens of the fields and the empty line, given the text of the line before: a line's text
  is reported when the next one starts.
\<close>

fun field_tokens :: "byte list \<Rightarrow> field_line list \<Rightarrow> (32 word \<times> byte list) list" where
  "field_tokens prev [] = [(AUG_LEXWORD OR AUG_LEXPHRASE, prev)]"
| "field_tokens prev (f # fs) =
     (AUG_LEXWORD, prev) # (AUG_LEXLABEL, fst f) # field_tokens (snd f) fs"

fun line_tokens :: "byte list \<Rightarrow> field_line list \<Rightarrow> (32 word \<times> byte list) list" where
  "line_tokens prev [] = []"
| "line_tokens prev (f # fs) = (AUG_LEXWORD, prev) # (AUG_LEXLABEL, fst f) # line_tokens (snd f) fs"

fun last_line :: "byte list \<Rightarrow> field_line list \<Rightarrow> byte list" where
  "last_line prev [] = prev"
| "last_line prev (f # fs) = last_line (snd f) fs"

lemma field_tokens_split:
  "field_tokens prev fs = line_tokens prev fs @ [(AUG_LEXWORD OR AUG_LEXPHRASE, last_line prev fs)]"
  by (induction prev fs rule: field_tokens.induct) auto

lemma field_value_nonzero: "field_ok f \<Longrightarrow> 0 \<notin> set (snd f)"
  using line_text_nonzero [of False "snd f"] by (auto simp: field_ok_def line_text_def)

lemma last_line_nonzero: "0 \<notin> set prev \<Longrightarrow> list_all field_ok fs \<Longrightarrow> 0 \<notin> set (last_line prev fs)"
  by (induction prev fs rule: last_line.induct) (auto simp: field_value_nonzero)

lemma lexes_lines:
  assumes "net_at lx Bare lab True got" "0 \<notin> set got" "list_all field_ok fs"
  shows "\<exists>lab'. lexes lx (concat (map render_field fs)) (line_tokens got fs)
    Bare lab' True (last_line got fs)"
  using assms
proof (induction fs arbitrary: lx lab got)
  case (Cons f fs)
  have 1: "lexes lx (render_field f) [(AUG_LEXWORD, got), (AUG_LEXLABEL, fst f)]
      Bare False True (snd f)"
    using Cons.prems by (intro lexes_field) auto
  then obtain lx1 where lx1: "lex_run lx (render_field f)
      = Some ([(AUG_LEXWORD, got), (AUG_LEXLABEL, fst f)], lx1)" "net_at lx1 Bare False True (snd f)"
    by (auto simp: lexes_def)
  obtain lab' lx2 where "lex_run lx1 (concat (map render_field fs)) = Some (line_tokens (snd f) fs, lx2)"
      "net_at lx2 Bare lab' True (last_line (snd f) fs)"
    using Cons.IH [OF lx1(2)] Cons.prems(3) field_value_nonzero [of f] by (auto simp: lexes_def)
  then show ?case
    using lx1(1) by (auto simp: lexes_def lex_run_append)
qed (auto intro: lexes_Nil)

text \<open>Everything of a header but its last character.\<close>

lemma lexes_head_lines:
  assumes "net_at lx EatWs True False []" "line_text True rl" "list_all field_ok fs"
  shows "\<exists>lab. lexes lx (rl @ [13, 10] @ concat (map render_field fs) @ [13]) (line_tokens rl fs)
    Bare lab True (last_line rl fs)"
proof -
  have z: "0 \<notin> set rl"
    using assms(2) by (auto simp: line_text_def line_text_nonzero)
  obtain lx1 where 1: "lex_run lx (rl @ [13, 10]) = Some ([], lx1)" "net_at lx1 Bare True True rl"
    using lexes_line [OF assms(1,2)] by (auto simp: lexes_def)
  obtain lab lx2 where 2: "lex_run lx1 (concat (map render_field fs)) = Some (line_tokens rl fs, lx2)"
      "net_at lx2 Bare lab True (last_line rl fs)"
    using lexes_lines [OF 1(2) z assms(3)] by (auto simp: lexes_def)
  obtain lx3 where 3: "lex_run lx2 [13] = Some ([], lx3)" "net_at lx3 Bare lab True (last_line rl fs)"
    using lexes_silent [OF net_return [OF 2(2)]] by (auto simp: lexes_def)
  have "lex_run lx ((rl @ [13, 10]) @ concat (map render_field fs) @ [13]) = Some (line_tokens rl fs, lx3)"
    unfolding lex_run_append [of _ "rl @ [13, 10]"] lex_run_append [of _ "concat (map render_field fs)"]
    by (simp add: 1(1) 2(1) 3(1) del: lex_run.simps)
  then show ?thesis
    using 3(2) by (auto simp: lexes_def)
qed

lemma lexes_head:
  assumes "net_at lx EatWs True False []" "line_text True rl" "list_all field_ok fs"
  shows "lexes lx (render_head rl fs) (field_tokens rl fs) EatWs True False []"
proof -
  obtain lab where 1: "lexes lx (rl @ [13, 10] @ concat (map render_field fs) @ [13])
      (line_tokens rl fs) Bare lab True (last_line rl fs)"
    using lexes_head_lines [OF assms] by blast
  have z: "0 \<notin> set (last_line rl fs)"
    using last_line_nonzero [OF _ assms(3)] assms(2) line_text_nonzero [of True rl]
    by (simp add: line_text_def)
  have "lexes lx' [10] [(AUG_LEXWORD OR AUG_LEXPHRASE, last_line rl fs)] EatWs True False []"
    if "net_at lx' Bare lab True (last_line rl fs)" for lx'
    using net_empty_line [OF that] z by (intro lexes_token) (auto simp: lex_flags)
  from lexes_append [OF 1 this] show ?thesis
    by (simp add: render_head_def field_tokens_split)
qed

lemma net_at_create:
  assumes "size' = 0 \<or> AUG_MAXLINE \<le> size'"
  shows "net_at (aug_createnetlexer mpool size') EatWs True False []"
  using assms
  by (auto simp: net_at_def aug_createnetlexer_def createlexer_def aug_initnetwords_def create_wf create_size)

definition render_heads :: "(byte list \<times> field_line list) list \<Rightarrow> byte list" where
  "render_heads hs = concat (map (\<lambda>h. render_head (fst h) (snd h)) hs)"

text \<open>
  C22: A network lexer splits headers into their lines.  A lexer made with the default size, or
  with at least \<open>AUG_MAXLINE\<close> (1024) characters, is fed headers: a request line without a colon,
  fields ``name: value'' and an empty line, each line ended by a return and a newline.  Request lines, names
  and values have at most 512 characters, below 128, without zero, line ends and backslashes, and
  neither begin nor end with a space; request lines and names are not empty, values may be; names have no colon.  Then, whatever the
  memory pool answers, no memory is used out of bounds, and the lexer reports each request line,
  name and value as it was written, each value with the name it belongs to, and flags the last line
  of each header as the end of a phrase.
\<close>
theorem net_lexer_heads:
  assumes "\<forall>h \<in> set hs. line_text True (fst h) \<and> list_all field_ok (snd h)"
    and "size' = 0 \<or> AUG_MAXLINE \<le> size'"
  shows "map_option fst (lex_run (aug_createnetlexer mpool size') (render_heads hs))
    = Some (concat (map (\<lambda>h. field_tokens (fst h) (snd h)) hs))"
proof -
  have "lexes lx (render_heads hs) (concat (map (\<lambda>h. field_tokens (fst h) (snd h)) hs)) EatWs True False []"
    if "net_at lx EatWs True False []" for lx
    using that assms(1)
  proof (induction hs arbitrary: lx)
    case (Cons h hs)
    have 1: "lexes lx (render_head (fst h) (snd h)) (field_tokens (fst h) (snd h)) EatWs True False []"
      using Cons.prems by (intro lexes_head) auto
    have "lexes lx' (render_heads hs) (concat (map (\<lambda>h. field_tokens (fst h) (snd h)) hs)) EatWs True False []"
      if "net_at lx' EatWs True False []" for lx'
      using Cons.prems(2) by (intro Cons.IH [OF that]) simp
    from lexes_append [OF 1 this] show ?case
      by (simp add: render_heads_def)
  qed (simp add: render_heads_def lexes_Nil)
  from this [OF net_at_create [OF assms(2)]] show ?thesis
    by (auto simp: lexes_def)
qed

lemma net_lexer_heads_witness:
  "map_option fst (lex_run (aug_createnetlexer poor 0) [71, 13, 10, 65, 58, 32, 66, 13, 10, 13, 10])
   = Some [(2, [71]), (1, [65]), (6, [66])]"
  using net_lexer_heads [of "[([71], [([65], [66])])]" 0 poor]
  by (simp add: render_heads_def render_head_def render_field_def line_text_def first_char_def
      text_char_def isspace_def trimmed_def field_ok_def lex_flags AUG_MAXLINE_def)

text \<open>
  A value of spaces only is read out of bounds.  On ``a:'' followed by a line that holds a
  space and by another empty line, the network lexer trims the text of a value that is one space,
  and \<^verbatim>\<open>aug_rtrimword\<close> looks at the byte before its buffer.
\<close>
lemma blank_value_out_of_bounds:
  "lex_run (aug_createnetlexer poor 64) [97, 58, 13, 10, 32, 13, 10] = None"
  by code_simp

text \<open>
  A line that outgrows the string's local buffer.  With memory granted, the 33rd character of a line reads
  past the local buffer of a lexer of 64 characters; with memory refused it is dropped, and no error is
  reported.
\<close>
lemma long_line_out_of_bounds:
  "lex_run (aug_createnetlexer \<lparr>po_junk = \<lambda>_. [], po_answer = \<lambda>_. Granted [] []\<rparr> 64) (replicate 33 97) = None
   \<and> map_option fst (lex_run (aug_createnetlexer poor 64) (replicate 33 97 @ [10, 10]))
     = Some [(6, replicate 32 97)]"
  by code_simp

end
