(* ===== verification/Conv.thy ===== *)
theory Conv
  imports Words
begin

text \<open>
  \<^verbatim>\<open>augutil/conv.c\<close>: text to unsigned integers.  \<open>strtoul\<close> is the C library's function on a
  C string (the characters before the terminator): white space, a sign, the prefix of base 16 or
  base 0, digits; it returns the value, the characters it did not take and whether the value was
  out of the range of \<^verbatim>\<open>unsigned long\<close> (64 bits).  The POSIX error \<^verbatim>\<open>ERANGE\<close> is
  \<open>ExError ERANGE\<close>.
\<close>

section \<open>strtoul\<close>

definition digit_val :: "byte \<Rightarrow> nat option" where
  "digit_val c =
     (if 48 \<le> c \<and> c \<le> 57 then Some (unat (c - 48))
      else if 97 \<le> c \<and> c \<le> 122 then Some (unat (c - 87))
      else if 65 \<le> c \<and> c \<le> 90 then Some (unat (c - 55))
      else None)"

definition is_digit :: "nat \<Rightarrow> byte \<Rightarrow> bool" where
  "is_digit base c = (case digit_val c of None \<Rightarrow> False | Some d \<Rightarrow> d < base)"

fun digits_val :: "nat \<Rightarrow> nat \<Rightarrow> byte list \<Rightarrow> nat" where
  "digits_val base acc [] = acc"
| "digits_val base acc (c # cs) = digits_val base (acc * base + the (digit_val c)) cs"

definition ULONG_MAX :: nat where "ULONG_MAX = 2 ^ 64 - 1"
definition UINT_MAX :: nat where "UINT_MAX = 2 ^ 32 - 1"
definition USHRT_MAX :: nat where "USHRT_MAX = 2 ^ 16 - 1"

text \<open>The sign, then the base and the digits' start; \<open>0x\<close> is a prefix only before a hex digit.\<close>

definition strtoul_sign :: "byte list \<Rightarrow> bool \<times> byte list" where
  "strtoul_sign s =
     (case s of
        c # cs \<Rightarrow> if c = 45 then (True, cs) else if c = 43 then (False, cs) else (False, s)
      | [] \<Rightarrow> (False, []))"

definition strtoul_base :: "nat \<Rightarrow> byte list \<Rightarrow> nat \<times> byte list" where
  "strtoul_base base s =
     (case s of
        z # x # d # cs \<Rightarrow>
          if (base = 0 \<or> base = 16) \<and> z = 48 \<and> (x = 120 \<or> x = 88) \<and> is_digit 16 d
          then (16, d # cs)
          else (if base = 0 then if z = 48 then 8 else 10 else base, s)
      | z # cs \<Rightarrow> (if base = 0 then if z = 48 then 8 else 10 else base, s)
      | [] \<Rightarrow> (base, []))"

definition strtoul :: "nat \<Rightarrow> byte list \<Rightarrow> nat \<times> byte list \<times> bool" where
  "strtoul base src =
     (let (neg, s) = strtoul_sign (dropWhile isspace src);
          (base, s) = strtoul_base base s;
          ds = takeWhile (is_digit base) s;
          v = digits_val base 0 ds
      in if ds = [] then (0, src, False)
         else if ULONG_MAX < v then (ULONG_MAX, drop (length ds) s, True)
         else (if neg then (2 ^ 64 - v) mod 2 ^ 64 else v, drop (length ds) s, False))"

section \<open>Conversions\<close>

definition aug_strtoul :: "byte list \<Rightarrow> nat \<Rightarrow> aug_fail + nat" where
  "aug_strtoul src base =
     (case strtoul base src of
        (ul, rest, over) \<Rightarrow>
          if over then Inl (ExError ERANGE)
          else if rest \<noteq> [] then Inl (ExError EPARSE)
          else Inr ul)"

definition aug_strtoui :: "byte list \<Rightarrow> nat \<Rightarrow> aug_fail + nat" where
  "aug_strtoui src base =
     (case aug_strtoul src base of
        Inl e \<Rightarrow> Inl e
      | Inr ul \<Rightarrow> if UINT_MAX < ul then Inl (ExError ELIMIT) else Inr ul)"

definition aug_strtous :: "byte list \<Rightarrow> nat \<Rightarrow> aug_fail + nat" where
  "aug_strtous src base =
     (case aug_strtoul src base of
        Inl e \<Rightarrow> Inl e
      | Inr ul \<Rightarrow> if USHRT_MAX < ul then Inl (ExError ELIMIT) else Inr ul)"

section \<open>Decimal numerals\<close>

fun decimal :: "nat \<Rightarrow> byte list" where
  "decimal n = (if n < 10 then [of_nat (48 + n)] else decimal (n div 10) @ [of_nat (48 + n mod 10)])"

declare decimal.simps [simp del]

lemma digit_char:
  assumes "d < 10"
  shows "digit_val (of_nat (48 + d)) = Some d" "is_digit 10 (of_nat (48 + d))"
    "\<not> isspace (of_nat (48 + d))" "of_nat (48 + d) \<noteq> (45 :: byte)" "of_nat (48 + d) \<noteq> (43 :: byte)"
    "(of_nat (48 + d) :: byte) < 128"
proof -
  have "d = 0 \<or> d = 1 \<or> d = 2 \<or> d = 3 \<or> d = 4 \<or> d = 5 \<or> d = 6 \<or> d = 7 \<or> d = 8 \<or> d = 9"
    using assms by presburger
  then have "digit_val (of_nat (48 + d)) = Some d \<and> \<not> isspace (of_nat (48 + d)) \<and>
      of_nat (48 + d) \<noteq> (45 :: byte) \<and> of_nat (48 + d) \<noteq> (43 :: byte) \<and> (of_nat (48 + d) :: byte) < 128"
    by (elim disjE) (simp_all add: digit_val_def isspace_def)
  then show "digit_val (of_nat (48 + d)) = Some d" "is_digit 10 (of_nat (48 + d))"
      "\<not> isspace (of_nat (48 + d))" "of_nat (48 + d) \<noteq> (45 :: byte)" "of_nat (48 + d) \<noteq> (43 :: byte)"
      "(of_nat (48 + d) :: byte) < 128"
    using assms by (simp_all add: is_digit_def)
qed

lemma digits_val_append: "digits_val b acc (s @ t) = digits_val b (digits_val b acc s) t"
  by (induction s arbitrary: acc) auto

lemma decimal_digits: "list_all (\<lambda>c. \<exists>d < 10. c = of_nat (48 + d)) (decimal n)"
  proof (induction n rule: decimal.induct)
  case (1 n)
  have "\<exists>d < 10. (of_nat (48 + n mod 10) :: byte) = of_nat (48 + d)"
    by (rule exI [of _ "n mod 10"]) simp
  with 1 show ?case
    by (subst decimal.simps) auto
qed

lemma decimal_not_Nil [simp]: "decimal n \<noteq> []"
  by (subst decimal.simps) simp

lemma decimal_length: "n < 10 ^ Suc k \<Longrightarrow> length (decimal n) \<le> Suc k"
proof (induction k arbitrary: n)
  case (Suc k)
  then show ?case
    using Suc.IH [of "n div 10"] by (subst decimal.simps) (simp add: less_mult_imp_div_less)
qed (simp add: decimal.simps)

lemma digits_val_decimal: "digits_val 10 0 (decimal n) = n"
proof (induction n rule: decimal.induct)
  case (1 n)
  then show ?case
    using digit_char(1) [of n] digit_char(1) [of "n mod 10"]
    by (subst decimal.simps) (auto simp: digits_val_append)
qed

lemma decimal_all:
  assumes "\<And>d. d < 10 \<Longrightarrow> P (of_nat (48 + d))"
  shows "list_all P (decimal n)"
  using decimal_digits [of n] assms by (auto simp: list_all_iff)

lemma strtoul_decimal:
  "strtoul 10 (decimal n) =
     (if ULONG_MAX < n then (ULONG_MAX, [], True) else (n, [], False))"
proof -
  obtain c cs where c: "decimal n = c # cs"
    by (cases "decimal n") auto
  have a: "list_all (\<lambda>c. is_digit 10 c \<and> \<not> isspace c \<and> c \<noteq> 45 \<and> c \<noteq> 43) (decimal n)"
    using digit_char by (intro decimal_all) auto
  have s: "strtoul_sign (dropWhile isspace (decimal n)) = (False, decimal n)"
    using a by (simp add: c strtoul_sign_def)
  have b: "strtoul_base 10 (decimal n) = (10, decimal n)"
    by (auto simp: strtoul_base_def split: list.splits)
  have t: "takeWhile (is_digit 10) (decimal n) = decimal n"
    using a by (auto simp: takeWhile_eq_all_conv list_all_iff)
  show ?thesis
    unfolding strtoul_def s b by (simp add: t digits_val_decimal b)
qed

text \<open>
  C39: Decimal numerals are read back.  Converting the decimal numeral of any number gives the
  number when the target type holds it and otherwise a range error, \<^verbatim>\<open>ERANGE\<close> past
  \<^verbatim>\<open>ULONG_MAX\<close> and \<^verbatim>\<open>AUG_ELIMIT\<close> past the narrower type; nothing wraps.
\<close>
theorem strtou_decimal:
  "aug_strtoul (decimal n) 10 = (if n \<le> ULONG_MAX then Inr n else Inl (ExError ERANGE))
   \<and> aug_strtoui (decimal n) 10
     = (if n \<le> UINT_MAX then Inr n else Inl (ExError (if n \<le> ULONG_MAX then ELIMIT else ERANGE)))
   \<and> aug_strtous (decimal n) 10
     = (if n \<le> USHRT_MAX then Inr n else Inl (ExError (if n \<le> ULONG_MAX then ELIMIT else ERANGE)))"
  by (simp add: aug_strtous_def aug_strtoui_def aug_strtoul_def strtoul_decimal
      UINT_MAX_def USHRT_MAX_def ULONG_MAX_def)

end
