(* ===== verification/Http.thy ===== *)
theory Http
  imports Lexer Conv
begin

text \<open>
  \<^verbatim>\<open>augnet/http.c\<close>: a parser for HTTP messages that is given the stream in pieces.
  \<open>http\<close> is \<^verbatim>\<open>struct aug_httpparser_\<close>; \<open>hp_log\<close> holds the calls made to the handler
  (\<^verbatim>\<open>augext/http.h\<close>), one constructor of \<open>http_event\<close> per operation of its interface.  The
  handler is a parameter: given the calls before, it accepts the next one or fails it.
  \<open>Undefined\<close> marks a read outside a buffer and a failed assertion.
\<close>

datatype http_event =
    HRequest "byte list"
  | HField "byte list" "byte list"
  | HCsize nat
  | HCdata "byte list"
  | HEnd bool

type_synonym handler = "http_event list \<Rightarrow> http_event \<Rightarrow> aug_fail option"

datatype http_state = REQUEST | NAME | VALUE | BODY

record http =
  hp_lexer :: lexer
  hp_name :: "byte list"
  hp_state :: http_state
  hp_csize :: int
  hp_log :: "http_event list"

definition call :: "handler \<Rightarrow> http \<Rightarrow> http_event \<Rightarrow> (aug_fail + unit) \<times> http" where
  "call h st ev =
     (case h (hp_log st) ev of None \<Rightarrow> Inr () | Some e \<Rightarrow> Inl e, st\<lparr>hp_log := hp_log st @ [ev]\<rparr>)"

definition http_name :: "http \<Rightarrow> byte list \<Rightarrow> http" where
  "http_name st token = st\<lparr>hp_name := take (AUG_MAXLINE - 1) token\<rparr>"

definition is_csize :: "byte list \<Rightarrow> bool" where
  "is_csize name \<longleftrightarrow>
     (case name of c # cs \<Rightarrow> (c = 67 \<or> c = 99) \<and> same_name cs (str ''ontent-Length'') | [] \<Rightarrow> False)"

definition http_value :: "handler \<Rightarrow> http \<Rightarrow> byte list \<Rightarrow> (aug_fail + unit) \<times> http" where
  "http_value h st token =
     (if is_csize (hp_name st) then
        case aug_strtoui token 10 of
          Inl e \<Rightarrow> (Inl e, st)
        | Inr csize \<Rightarrow> call h (st\<lparr>hp_csize := to_int32 (int csize)\<rparr>) (HCsize csize)
      else call h st (HField (hp_name st) token))"

definition http_end :: "handler \<Rightarrow> http \<Rightarrow> bool \<Rightarrow> (aug_fail + unit) \<times> http" where
  "http_end h st commit = call h (st\<lparr>hp_state := REQUEST, hp_csize := 0\<rparr>) (HEnd commit)"

definition http_phrase :: "handler \<Rightarrow> http \<Rightarrow> (aug_fail + unit) \<times> http" where
  "http_phrase h st =
     (if hp_csize st \<noteq> 0 then (Inr (), st\<lparr>hp_state := BODY\<rparr>) else http_end h st True)"

definition http_label :: "http \<Rightarrow> byte list \<Rightarrow> (aug_fail + unit) \<times> http" where
  "http_label st token =
     (if hp_state st = REQUEST then (Inl (ExError EPARSE), st)
      else (Inr (), (http_name st token)\<lparr>hp_state := VALUE\<rparr>))"

definition http_word :: "handler \<Rightarrow> http \<Rightarrow> byte list \<Rightarrow> (aug_fail + unit) \<times> http" where
  "http_word h st token =
     (case hp_state st of
        REQUEST \<Rightarrow>
          (case call h st (HRequest token) of
             (Inl e, st) \<Rightarrow> (Inl e, st)
           | (Inr u, st) \<Rightarrow> (Inr (), st\<lparr>hp_state := NAME\<rparr>))
      | NAME \<Rightarrow> (Inl (ExError EPARSE), st)
      | VALUE \<Rightarrow>
          (case http_value h st token of
             (Inl e, st) \<Rightarrow> (Inl e, st)
           | (Inr u, st) \<Rightarrow> (Inr (), st\<lparr>hp_state := NAME\<rparr>))
      | BODY \<Rightarrow> (Inl Undefined, st))"

text \<open>The switch over the lexer's flags; \<open>True\<close> when a phrase ends the header.\<close>

definition http_tok :: "handler \<Rightarrow> http \<Rightarrow> 32 word \<times> byte list \<Rightarrow> (aug_fail + bool) \<times> http" where
  "http_tok h st t =
     (if fst t = AUG_LEXLABEL then
        (case http_label st (snd t) of
           (Inl e, st) \<Rightarrow> (Inl e, st) | (Inr u, st) \<Rightarrow> (Inr False, st))
      else if fst t = AUG_LEXWORD then
        (case http_word h st (snd t) of
           (Inl e, st) \<Rightarrow> (Inl e, st) | (Inr u, st) \<Rightarrow> (Inr False, st))
      else if fst t = AUG_LEXWORD OR AUG_LEXPHRASE then
        (case http_word h st (snd t) of
           (Inl e, st) \<Rightarrow> (Inl e, st)
         | (Inr u, st) \<Rightarrow>
             (case http_phrase h st of
                (Inl e, st) \<Rightarrow> (Inl e, st) | (Inr u, st) \<Rightarrow> (Inr True, st)))
      else if fst t = AUG_LEXPHRASE then
        (case http_phrase h st of
           (Inl e, st) \<Rightarrow> (Inl e, st) | (Inr u, st) \<Rightarrow> (Inr True, st))
      else (Inr False, st))"

text \<open>The token is read where a handler or the name wants it.\<close>

definition http_reads :: "http \<Rightarrow> bool" where
  "http_reads st \<longleftrightarrow>
     (let what = lx_what (hp_lexer st) in
      what = AUG_LEXLABEL \<and> hp_state st \<noteq> REQUEST
      \<or> (what = AUG_LEXWORD \<or> what = AUG_LEXWORD OR AUG_LEXPHRASE)
        \<and> (hp_state st = REQUEST \<or> hp_state st = VALUE))"

definition http_switch :: "handler \<Rightarrow> http \<Rightarrow> (aug_fail + bool) \<times> http" where
  "http_switch h st =
     (let what = lx_what (hp_lexer st) in
      if http_reads st then
        (case aug_lexertoken (hp_lexer st) of
           None \<Rightarrow> (Inl Undefined, st)
         | Some (token, lx) \<Rightarrow>
             http_tok h (st\<lparr>hp_lexer := lx\<rparr>) (what, case token of Some s \<Rightarrow> s | None \<Rightarrow> []))
      else http_tok h st (what, []))"

text \<open>The number of characters consumed, counted from \<open>i\<close>.\<close>

fun http_header :: "handler \<Rightarrow> http \<Rightarrow> byte list \<Rightarrow> nat \<Rightarrow> (aug_fail + nat) \<times> http" where
  "http_header h st [] i = (Inr i, st)"
| "http_header h st (ch # chs) i =
     (case aug_appendlexer (hp_lexer st) ch of
        None \<Rightarrow> (Inl Undefined, st)
      | Some lx \<Rightarrow>
          (case http_switch h (st\<lparr>hp_lexer := lx\<rparr>) of
             (Inl e, st) \<Rightarrow> (Inl e, st)
           | (Inr ended, st) \<Rightarrow> if ended then (Inr (i + 1), st) else http_header h st chs (i + 1)))"

text \<open>
  The content: \<^verbatim>\<open>(int)size < csize_\<close> compares as \<^verbatim>\<open>int\<close>, while the size handed to the
  handler is the content size as an \<^verbatim>\<open>unsigned\<close>.
\<close>

definition http_body :: "handler \<Rightarrow> http \<Rightarrow> byte list \<Rightarrow> (aug_fail + nat) \<times> http" where
  "http_body h st buf =
     (let size = length buf in
      if to_int32 (int size) < hp_csize st then
        (case call h (st\<lparr>hp_csize := to_int32 (hp_csize st - int size)\<rparr>) (HCdata buf) of
           (Inl e, st) \<Rightarrow> (Inl e, st) | (Inr u, st) \<Rightarrow> (Inr size, st))
      else
        let size = nat (hp_csize st mod 2 ^ 32) in
        if length buf < size then (Inl Undefined, st)
        else
          (case (if size \<noteq> 0 then call h st (HCdata (take size buf)) else (Inr (), st)) of
             (Inl e, st) \<Rightarrow> (Inl e, st)
           | (Inr u, st) \<Rightarrow>
               (case http_end h st True of
                  (Inl e, st) \<Rightarrow> (Inl e, st) | (Inr u, st) \<Rightarrow> (Inr size, st))))"

definition aug_createhttpparser :: "mpool \<Rightarrow> nat \<Rightarrow> http" where
  "aug_createhttpparser mpool size' =
     \<lparr>hp_lexer = aug_createnetlexer mpool size', hp_name = [], hp_state = REQUEST, hp_csize = 0, hp_log = []\<rparr>"

lemma http_header_mono: "http_header h st s i = (Inr n, st') \<Longrightarrow> i \<le> n"
proof (induction s arbitrary: st i)
  case (Cons c s)
  from Cons.prems show ?case
    by (auto split: option.splits prod.splits sum.splits if_splits dest: Cons.IH)
qed simp

lemma http_header_pos:
  "http_header h st s i = (Inr n, st') \<Longrightarrow> s \<noteq> [] \<Longrightarrow> i < n"
  by (cases s) (auto split: option.splits prod.splits sum.splits if_splits dest: http_header_mono)

text \<open>Header and body in turn until the buffer has been consumed.\<close>

function http_loop :: "handler \<Rightarrow> http \<Rightarrow> byte list \<Rightarrow> (aug_fail + unit) \<times> http" where
  "http_loop h st buf =
     (case http_header h st buf 0 of
        (Inl e, st) \<Rightarrow> (Inl e, st)
      | (Inr n, st) \<Rightarrow>
          if n = length buf then (Inr (), st)
          else
            (case http_body h st (drop n buf) of
               (Inl e, st) \<Rightarrow> (Inl e, st)
             | (Inr m, st) \<Rightarrow>
                 if m = length (drop n buf) then (Inr (), st)
                 else http_loop h st (drop m (drop n buf))))"
  by pat_completeness auto
termination
proof (relation "measure (\<lambda>(h, st, buf). length buf)")
  fix h st buf p st1 q n r st2 t m
  assume "(p, st1) = http_header h st buf 0" "p = Inr n" "n \<noteq> length buf"
  moreover from this have "buf \<noteq> []"
    by auto
  ultimately have "0 < n"
    using http_header_pos [of h st buf 0 n st1] by auto
  then show "((h, st2, drop m (drop n buf)), h, st, buf) \<in> measure (\<lambda>(h, st, buf). length buf)"
    using \<open>buf \<noteq> []\<close> by (auto simp: diff_less)
qed auto

declare http_loop.simps [simp del]

definition aug_appendhttp :: "handler \<Rightarrow> http \<Rightarrow> byte list \<Rightarrow> (aug_fail + unit) \<times> http" where
  "aug_appendhttp h st buf =
     (case (if hp_state st = BODY then
              case http_body h st buf of
                (Inl e, st) \<Rightarrow> (Inl e, st)
              | (Inr m, st) \<Rightarrow> if m = length buf then (Inr (), st) else http_loop h st (drop m buf)
            else http_loop h st buf) of
        (Inr u, st) \<Rightarrow> (Inr (), st)
      | (Inl e, st) \<Rightarrow> (Inl e, snd (http_end h st False)))"

text \<open>
  A stream that ends inside a message sets the context's error to \<^verbatim>\<open>AUG_EPARSE\<close>, yet the
  result is 0.
\<close>

definition aug_finishhttp :: "handler \<Rightarrow> http \<Rightarrow> (aug_fail + unit) \<times> http" where
  "aug_finishhttp h st =
     (case aug_finishlexer (hp_lexer st) of
        None \<Rightarrow> (Inl Undefined, st)
      | Some lx \<Rightarrow>
          (case http_switch h (st\<lparr>hp_lexer := lx\<rparr>) of
             (Inl e, st) \<Rightarrow> (Inl e, snd (http_end h st False))
           | (Inr ended, st) \<Rightarrow>
               if hp_state st \<noteq> REQUEST then (Inr (), snd (http_end h st False)) else (Inr (), st)))"

section \<open>One character at a time\<close>

text \<open>
  The reference for the parser of pieces: a machine that takes one character and has no notion of
  a buffer.  It stops (\<open>None\<close>) where the parser fails, and also at a message without content and
  at a content size that is no positive \<^verbatim>\<open>int\<close>, where the parser depends on the pieces.
\<close>

definition accept :: handler where
  "accept = (\<lambda>log ev. None)"

lemma call_accept [simp]: "call accept st ev = (Inr (), st\<lparr>hp_log := hp_log st @ [ev]\<rparr>)"
  by (simp add: call_def accept_def)

definition hchar :: "http \<Rightarrow> byte \<Rightarrow> http option" where
  "hchar st c =
     (if hp_state st = BODY then
        if hp_csize st < 1 \<or> 2 ^ 31 \<le> hp_csize st then None
        else
          let st1 = st\<lparr>hp_log := hp_log st @ [HCdata [c]]\<rparr> in
          Some (if hp_csize st = 1 then snd (http_end accept st1 True)
                else st1\<lparr>hp_csize := hp_csize st - 1\<rparr>)
      else
        case aug_appendlexer (hp_lexer st) c of
          None \<Rightarrow> None
        | Some lx \<Rightarrow>
            (case http_switch accept (st\<lparr>hp_lexer := lx\<rparr>) of
               (Inl e, st') \<Rightarrow> None
             | (Inr ended, st') \<Rightarrow> if ended = (hp_state st' = BODY) then Some st' else None))"

fun hrun :: "http \<Rightarrow> byte list \<Rightarrow> http option" where
  "hrun st [] = Some st"
| "hrun st (c # cs) = do { st \<leftarrow> hchar st c; hrun st cs }"

lemma hrun_append: "hrun st (a @ b) = do { st \<leftarrow> hrun st a; hrun st b }"
  by (induction a arbitrary: st) (auto simp: Option.bind_assoc)

text \<open>A log with neighbouring pieces of content joined and empty pieces left out.\<close>

fun addev :: "http_event list \<Rightarrow> http_event \<Rightarrow> http_event list" where
  "addev l (HCdata d) =
     (if d = [] then l
      else if l = [] then [HCdata d]
      else case last l of HCdata d0 \<Rightarrow> butlast l @ [HCdata (d0 @ d)] | _ \<Rightarrow> l @ [HCdata d])"
| "addev l ev = l @ [ev]"

definition merge :: "http_event list \<Rightarrow> http_event list" where
  "merge = foldl addev []"

lemma merge_append: "merge (a @ b) = foldl addev (merge a) b"
  by (simp add: merge_def)

lemma addev_join: "addev (addev l (HCdata a)) (HCdata b) = addev l (HCdata (a @ b))"
  by (cases "l = []"; cases "last l") (auto simp: butlast_append)

declare addev.simps [simp del]

text \<open>Parsers that differ only in how their content was cut.\<close>

definition merged :: "http \<Rightarrow> http" where
  "merged st = st\<lparr>hp_log := merge (hp_log st)\<rparr>"

lemma merged_frame:
  assumes "merged st = merged t"
  shows "st\<lparr>hp_log := l\<rparr> = t\<lparr>hp_log := l\<rparr>" "merge (hp_log st) = merge (hp_log t)"
    "hp_state st = hp_state t" "hp_csize st = hp_csize t" "hp_lexer st = hp_lexer t"
    "hp_name st = hp_name t"
  using assms by (cases st; cases t; simp add: merged_def)+

lemmas http_tok_defs =
  http_tok_def http_label_def http_word_def http_value_def http_phrase_def http_end_def http_name_def

text \<open>With a handler that accepts, a step appends to the log and does not look at it.\<close>

lemma http_tok_log:
  "http_tok accept (st\<lparr>hp_log := l\<rparr>) t =
     (case http_tok accept (st\<lparr>hp_log := []\<rparr>) t of (r, st') \<Rightarrow> (r, st'\<lparr>hp_log := l @ hp_log st'\<rparr>))"
  by (cases t) (auto simp: http_tok_defs split: http_state.splits sum.splits)

lemma http_switch_log:
  "http_switch accept (st\<lparr>hp_log := l\<rparr>) =
     (case http_switch accept (st\<lparr>hp_log := []\<rparr>) of (r, st') \<Rightarrow> (r, st'\<lparr>hp_log := l @ hp_log st'\<rparr>))"
proof -
  have reads: "http_reads (st\<lparr>hp_log := k\<rparr>) = http_reads st" for k
    by (simp add: http_reads_def)
  have comm: "st\<lparr>hp_log := k, hp_lexer := lx\<rparr> = st\<lparr>hp_lexer := lx, hp_log := k\<rparr>" for k lx
    by simp
  have plain: "http_tok accept (st\<lparr>hp_log := l\<rparr>) t =
      (case http_tok accept (st\<lparr>hp_log := []\<rparr>) t of (r, st') \<Rightarrow> (r, st'\<lparr>hp_log := l @ hp_log st'\<rparr>))" for t
    by (rule http_tok_log)
  have read: "http_tok accept (st\<lparr>hp_lexer := lx, hp_log := l\<rparr>) t =
      (case http_tok accept (st\<lparr>hp_lexer := lx, hp_log := []\<rparr>) t of (r, st') \<Rightarrow> (r, st'\<lparr>hp_log := l @ hp_log st'\<rparr>))" for lx t
    by (rule http_tok_log)
  show ?thesis
    by (cases "aug_lexertoken (hp_lexer st)")
      (auto simp: http_switch_def Let_def reads comm plain [of "(_, [])"] read split: prod.splits)
qed

lemma hchar_log:
  "hchar (st\<lparr>hp_log := l\<rparr>) c =
     map_option (\<lambda>st'. st'\<lparr>hp_log := l @ hp_log st'\<rparr>) (hchar (st\<lparr>hp_log := []\<rparr>) c)"
proof (cases "hp_state st = BODY")
  case True
  then show ?thesis
    by (simp add: hchar_def http_end_def Let_def)
next
  case False
  have sw: "http_switch accept (st\<lparr>hp_lexer := lx, hp_log := l\<rparr>) =
     (case http_switch accept (st\<lparr>hp_lexer := lx, hp_log := []\<rparr>) of
        (r, st') \<Rightarrow> (r, st'\<lparr>hp_log := l @ hp_log st'\<rparr>))" for lx
    by (rule http_switch_log)
  have comm: "x\<lparr>hp_log := k, hp_lexer := lx\<rparr> = x\<lparr>hp_lexer := lx, hp_log := k\<rparr>" for x k lx
    by simp
  from False show ?thesis
    by (simp add: hchar_def comm sw
        split: option.splits prod.splits sum.splits)
qed

lemma hchar_abs:
  assumes "merged st = merged t" "hchar t c = Some t'"
  shows "\<exists>st'. hchar st c = Some st' \<and> merged st' = merged t'"
proof -
  let ?core = "t\<lparr>hp_log := []\<rparr>"
  have st: "st = ?core\<lparr>hp_log := hp_log st\<rparr>"
    using merged_frame(1) [OF assms(1), of "hp_log st"] by simp
  have t: "t = ?core\<lparr>hp_log := hp_log t\<rparr>"
    by simp
  obtain u where u: "hchar ?core c = Some u" "t' = u\<lparr>hp_log := hp_log t @ hp_log u\<rparr>"
    using assms(2) hchar_log [where st = t and l = "hp_log t" and c = c]
    by (cases "hchar ?core c") auto
  have "hchar st c = Some (u\<lparr>hp_log := hp_log st @ hp_log u\<rparr>)"
    using hchar_log [where st = t and l = "hp_log st" and c = c] u(1) st by simp
  then show ?thesis
    using u(2) merged_frame(2) [OF assms(1)] by (simp add: merged_def merge_append)
qed

lemma hrun_abs:
  "merged st = merged t \<Longrightarrow> hrun t s = Some t' \<Longrightarrow> \<exists>st'. hrun st s = Some st' \<and> merged st' = merged t'"
proof (induction s arbitrary: st t)
  case (Cons c s)
  obtain t1 where t1: "hchar t c = Some t1" "hrun t1 s = Some t'"
    using Cons.prems(2) by (auto simp: bind_Some_iff)
  obtain st1 where "hchar st c = Some st1" "merged st1 = merged t1"
    using hchar_abs [OF Cons.prems(1) t1(1)] by blast
  with Cons.IH [OF _ t1(2), of st1] show ?case
    by simp
qed simp

section \<open>Pieces\<close>

lemma hchar_body:
  assumes "hp_state st = BODY" "hchar st c = Some t"
  shows "1 \<le> hp_csize st" "hp_csize st < 2 ^ 31"
    "t = (if hp_csize st = 1 then snd (http_end accept (st\<lparr>hp_log := hp_log st @ [HCdata [c]]\<rparr>) True)
          else st\<lparr>hp_log := hp_log st @ [HCdata [c]], hp_csize := hp_csize st - 1\<rparr>)"
  using assms by (auto simp: hchar_def Let_def split: if_splits)

lemma merged_cdata:
  "merged (st\<lparr>hp_log := hp_log st @ [HCdata a, HCdata b]\<rparr>) = merged (st\<lparr>hp_log := hp_log st @ [HCdata (a @ b)]\<rparr>)"
  by (simp add: merged_def merge_append addev_join)

definition body_part :: "http \<Rightarrow> byte list \<Rightarrow> http" where
  "body_part st d = st\<lparr>hp_log := hp_log st @ [HCdata d], hp_csize := hp_csize st - int (length d)\<rparr>"

lemma body_run:
  assumes "hp_state st = BODY" "d \<noteq> []" "int (length d) < hp_csize st" "hrun st d = Some t"
  shows "merged t = merged (body_part st d)"
  using assms
proof (induction d arbitrary: st)
  case (Cons c d)
  let ?s = "st\<lparr>hp_log := hp_log st @ [HCdata [c]], hp_csize := hp_csize st - 1\<rparr>"
  obtain s where s: "hchar st c = Some s" "hrun s d = Some t"
    using Cons.prems(4) by (auto simp: bind_Some_iff)
  then have s': "s = ?s"
    using hchar_body(3) [OF Cons.prems(1) s(1)] Cons.prems(3) by simp
  show ?case
  proof (cases "d = []")
    case True
    with s s' show ?thesis
      by (simp add: body_part_def)
  next
    case False
    have "merged t = merged (body_part ?s d)"
      using Cons.prems Cons.IH [OF _ False, of ?s] s(2) s' by simp
    then show ?thesis
      by (simp add: body_part_def merged_def merge_append addev_join algebra_simps)
  qed
qed simp

definition body_done :: "http \<Rightarrow> byte list \<Rightarrow> http" where
  "body_done st d = snd (http_end accept (st\<lparr>hp_log := hp_log st @ [HCdata d]\<rparr>) True)"

lemma body_run_done:
  assumes "hp_state st = BODY" "d \<noteq> []" "int (length d) = hp_csize st" "hrun st d = Some t"
  shows "merged t = merged (body_done st d)"
  using assms
proof (induction d rule: rev_induct)
  case (snoc c d)
  show ?case
  proof (cases "d = []")
    case True
    then have "hchar st c = Some t"
      using snoc.prems(4) by (auto simp: bind_Some_iff)
    from hchar_body(3) [OF snoc.prems(1) this] snoc.prems(3) True show ?thesis
      by (simp add: body_done_def)
  next
    case False
    obtain s where s: "hrun st d = Some s" "hchar s c = Some t"
      using snoc.prems(4) by (auto simp: hrun_append bind_Some_iff)
    have m: "merged s = merged (body_part st d)"
      using snoc.prems False by (intro body_run [OF _ _ _ s(1)]) auto
    have b: "hp_state s = BODY" "hp_csize s = 1"
      using merged_frame(3,4) [OF m] snoc.prems by (simp_all add: body_part_def)
    have t: "t = body_done s [c]"
      using hchar_body(3) [OF b(1) s(2)] b(2) by (simp add: body_done_def)
    have "merge (hp_log s) = addev (merge (hp_log st)) (HCdata d)"
      using merged_frame(2) [OF m] by (simp add: body_part_def merge_append)
    moreover have "s\<lparr>hp_log := l, hp_state := REQUEST, hp_csize := 0\<rparr>
        = st\<lparr>hp_log := l, hp_state := REQUEST, hp_csize := 0\<rparr>" for l
      using merged_frame(5,6) [OF m] by (cases s; cases st) (simp add: body_part_def)
    ultimately show ?thesis
      by (simp add: t body_done_def http_end_def merged_def merge_append addev_join)
  qed
qed simp

lemma hrun_body_size:
  assumes "hp_state st = BODY" "d \<noteq> []" "hrun st d = Some t"
  shows "1 \<le> hp_csize st" "hp_csize st < 2 ^ 31"
proof -
  obtain c cs u where "d = c # cs" "hchar st c = Some u"
    using assms(2,3) by (cases d) (auto simp: bind_Some_iff)
  with hchar_body [OF assms(1)] show "1 \<le> hp_csize st" "hp_csize st < 2 ^ 31"
    by blast+
qed

text \<open>The body of a piece does what its characters do one by one, up to the cut.\<close>

lemma http_body_sim:
  assumes "hp_state st = BODY" "b \<noteq> []" "length b < 2 ^ 31" "hrun st b = Some t"
  shows "\<exists>m st'. http_body accept st b = (Inr m, st') \<and> m \<le> length b
    \<and> (m = length b \<longrightarrow> merged st' = merged t)
    \<and> (m < length b \<longrightarrow> hp_state st' \<noteq> BODY \<and> 0 < m
        \<and> (\<exists>t'. hrun st' (drop m b) = Some t' \<and> merged t' = merged t))"
proof -
  note size = hrun_body_size [OF assms(1,2,4)]
  have len: "to_int32 (int (length b)) = int (length b)"
    using assms(3) by simp
  show ?thesis
  proof (cases "int (length b) < hp_csize st")
    case True
    then have "http_body accept st b = (Inr (length b), body_part st b)"
      using size by (simp add: http_body_def len body_part_def Let_def)
    with body_run [OF assms(1,2) True assms(4)] show ?thesis
      by simp
  next
    case False
    define m where "m = nat (hp_csize st)"
    have m: "nat (hp_csize st mod 2 ^ 32) = m" "0 < m" "int m = hp_csize st" "m \<le> length b"
      using size False by (simp_all add: m_def mod_pos_pos_trivial)
    have body: "http_body accept st b = (Inr m, body_done st (take m b))"
    proof -
      have c: "hp_csize st = int m" and "nat (int m mod 2 ^ 32) = m"
        using m(1,3) by simp_all
      then show ?thesis
        using False m(2,4) by (simp add: http_body_def len body_done_def Let_def http_end_def)
    qed
    have "hrun st (take m b @ drop m b) = Some t"
      using assms(4) by simp
    then obtain s where s: "hrun st (take m b) = Some s" "hrun s (drop m b) = Some t"
      unfolding hrun_append bind_Some_iff by blast
    have ms: "merged s = merged (body_done st (take m b))"
      using m assms(1,2) by (intro body_run_done [OF _ _ _ s(1)]) auto
    obtain t' where "hrun (body_done st (take m b)) (drop m b) = Some t'" "merged t' = merged t"
      using hrun_abs [OF ms [symmetric] s(2)] by blast
    moreover have "m = length b \<Longrightarrow> s = t"
      using s(2) by simp
    ultimately show ?thesis
      using body m ms by (auto simp: body_done_def http_end_def)
  qed
qed

lemma http_header_sim:
  assumes "hp_state st \<noteq> BODY" "hrun st s = Some t"
  shows "\<exists>n st'. http_header accept st s i = (Inr (i + n), st') \<and> n \<le> length s
    \<and> hrun st' (drop n s) = Some t \<and> (n = length s \<or> hp_state st' = BODY)"
  using assms
proof (induction s arbitrary: st i)
  case (Cons c s)
  obtain u where u: "hchar st c = Some u" "hrun u s = Some t"
    using Cons.prems(2) by (auto simp: bind_Some_iff)
  obtain lx r where a: "aug_appendlexer (hp_lexer st) c = Some lx"
      and w: "http_switch accept (st\<lparr>hp_lexer := lx\<rparr>) = (Inr r, u)" and r: "r = (hp_state u = BODY)"
    using u(1) Cons.prems(1)
    by (auto simp: hchar_def split: option.splits prod.splits sum.splits if_splits)
  show ?case
  proof (cases "hp_state u = BODY")
    case True
    then show ?thesis
      using a w r u(2) by (intro exI [of _ 1] exI [of _ u]) simp
  next
    case False
    obtain n st' where "http_header accept u s (Suc i) = (Inr (Suc i + n), st')" "n \<le> length s"
        "hrun st' (drop n s) = Some t" "n = length s \<or> hp_state st' = BODY"
      using Cons.IH [OF False u(2), of "Suc i"] by auto
    then show ?thesis
      using a w r False by (intro exI [of _ "Suc n"] exI [of _ st']) simp
  qed
qed simp

lemma http_loop_sim:
  assumes "hp_state st \<noteq> BODY" "length s < 2 ^ 31" "hrun st s = Some t"
  shows "\<exists>st'. http_loop accept st s = (Inr (), st') \<and> merged st' = merged t"
  using assms
proof (induction "length s" arbitrary: s st t rule: less_induct)
  case less
  obtain n st1 where h: "http_header accept st s 0 = (Inr n, st1)" "n \<le> length s"
      "hrun st1 (drop n s) = Some t" "n = length s \<or> hp_state st1 = BODY"
    using http_header_sim [OF less.prems(1,3), of 0] by auto
  show ?case
  proof (cases "n = length s")
    case True
    with h show ?thesis
      by (subst http_loop.simps) simp
  next
    case False
    then have b: "hp_state st1 = BODY" "drop n s \<noteq> []" "length (drop n s) < 2 ^ 31"
      using h(2,4) less.prems(2) by auto
    obtain m st2 where m: "http_body accept st1 (drop n s) = (Inr m, st2)" "m \<le> length (drop n s)"
        "m = length (drop n s) \<longrightarrow> merged st2 = merged t"
        "m < length (drop n s) \<longrightarrow> hp_state st2 \<noteq> BODY \<and> 0 < m
          \<and> (\<exists>t'. hrun st2 (drop m (drop n s)) = Some t' \<and> merged t' = merged t)"
      using http_body_sim [OF b h(3)] by blast
    show ?thesis
    proof (cases "m = length (drop n s)")
      case True
      with h(1) m(1,3) False show ?thesis
        by (subst http_loop.simps) simp
    next
      case False': False
      then obtain t' where t': "hp_state st2 \<noteq> BODY" "0 < m" "hrun st2 (drop m (drop n s)) = Some t'"
          "merged t' = merged t"
        using m(2,4) by auto
      have "length (drop m (drop n s)) < length s" "length (drop m (drop n s)) < 2 ^ 31"
        using t'(2) b less.prems(2) by auto
      from less.hyps [OF this(1) t'(1) this(2) t'(3)] t'(4) h(1) m(1) False False' show ?thesis
        by (subst http_loop.simps) auto
    qed
  qed
qed

lemma aug_appendhttp_sim:
  assumes "s \<noteq> []" "length s < 2 ^ 31" "hrun st s = Some t"
  shows "\<exists>st'. aug_appendhttp accept st s = (Inr (), st') \<and> merged st' = merged t"
proof (cases "hp_state st = BODY")
  case False
  then show ?thesis
    using http_loop_sim [OF False assms(2,3)] by (auto simp: aug_appendhttp_def)
next
  case True
  obtain m st2 where m: "http_body accept st s = (Inr m, st2)" "m \<le> length s"
      "m = length s \<longrightarrow> merged st2 = merged t"
      "m < length s \<longrightarrow> hp_state st2 \<noteq> BODY \<and> 0 < m
        \<and> (\<exists>t'. hrun st2 (drop m s) = Some t' \<and> merged t' = merged t)"
    using http_body_sim [OF True assms] by blast
  show ?thesis
  proof (cases "m = length s")
    case True
    with m \<open>hp_state st = BODY\<close> show ?thesis
      by (simp add: aug_appendhttp_def)
  next
    case False
    then obtain t' where t': "hp_state st2 \<noteq> BODY" "hrun st2 (drop m s) = Some t'" "merged t' = merged t"
      using m(2,4) by auto
    have "length (drop m s) < 2 ^ 31"
      using assms(2) by simp
    from http_loop_sim [OF t'(1) this t'(2)] t'(3) m(1) False \<open>hp_state st = BODY\<close> show ?thesis
      by (auto simp: aug_appendhttp_def)
  qed
qed

text \<open>A stream in pieces.\<close>

fun append_all :: "handler \<Rightarrow> http \<Rightarrow> byte list list \<Rightarrow> (aug_fail + unit) \<times> http" where
  "append_all h st [] = (Inr (), st)"
| "append_all h st (b # bs) =
     (case aug_appendhttp h st b of
        (Inl e, st) \<Rightarrow> (Inl e, st)
      | (Inr u, st) \<Rightarrow> append_all h st bs)"

definition pieces_ok :: "byte list list \<Rightarrow> bool" where
  "pieces_ok bs \<longleftrightarrow> (\<forall>b \<in> set bs. b \<noteq> [] \<and> length b < 2 ^ 31)"

lemma append_all_sim:
  assumes "pieces_ok bs" "hrun st (concat bs) = Some t"
  shows "\<exists>st'. append_all accept st bs = (Inr (), st') \<and> merged st' = merged t"
  using assms
proof (induction bs arbitrary: st t)
  case (Cons b bs)
  obtain u where u: "hrun st b = Some u" "hrun u (concat bs) = Some t"
    using Cons.prems(2) by (auto simp: hrun_append bind_Some_iff)
  obtain st1 where st1: "aug_appendhttp accept st b = (Inr (), st1)" "merged st1 = merged u"
    using aug_appendhttp_sim [OF _ _ u(1)] Cons.prems(1) by (auto simp: pieces_ok_def)
  obtain t' where t': "hrun st1 (concat bs) = Some t'" "merged t' = merged t"
    using hrun_abs [OF st1(2) u(2)] by blast
  have "pieces_ok bs"
    using Cons.prems(1) by (simp add: pieces_ok_def)
  from Cons.IH [OF this t'(1)] st1(1) t'(2) show ?case
    by simp
qed simp

section \<open>Messages\<close>

text \<open>The tokens of a header before its end, each accepted.\<close>

fun htoks :: "http \<Rightarrow> (32 word \<times> byte list) list \<Rightarrow> http option" where
  "htoks st [] = Some st"
| "htoks st (t # ts) =
     (case http_tok accept st t of
        (Inr ended, st') \<Rightarrow> if ended \<or> hp_state st' = BODY then None else htoks st' ts
      | (Inl e, st') \<Rightarrow> None)"

lemma http_tok_lexer:
  "http_tok accept (st\<lparr>hp_lexer := lx\<rparr>) t =
     (case http_tok accept st t of (r, st') \<Rightarrow> (r, st'\<lparr>hp_lexer := lx\<rparr>))"
  by (cases t) (auto simp: http_tok_defs split: http_state.splits sum.splits)

lemma htoks_append: "htoks st (a @ b) = do { st \<leftarrow> htoks st a; htoks st b }"
  by (induction a arbitrary: st) (auto split: prod.splits sum.splits)

text \<open>The tokens the switch acts on; one of them that is accepted has been read.\<close>

definition known_token :: "32 word \<times> byte list \<Rightarrow> bool" where
  "known_token t \<longleftrightarrow> fst t = AUG_LEXLABEL \<or> fst t = AUG_LEXWORD \<or> fst t = AUG_LEXWORD OR AUG_LEXPHRASE"

lemma accepted_reads:
  assumes "http_tok accept st (what, token) = (Inr r, st')" "hp_state st \<noteq> BODY"
    "known_token (what, token)" "lx_what lx = what"
  shows "http_reads (st\<lparr>hp_lexer := lx\<rparr>)"
  using assms
  by (cases "hp_state st")
    (auto simp: known_token_def http_reads_def http_tok_def http_label_def http_word_def lex_flags)

lemma switch_token:
  assumes "http_tok accept st (lx_what lx, token) = (Inr r, st')" "hp_state st \<noteq> BODY"
    "known_token (lx_what lx, token)" "aug_lexertoken lx = Some (Some token, lx')"
  shows "http_switch accept (st\<lparr>hp_lexer := lx\<rparr>) = (Inr r, st'\<lparr>hp_lexer := lx'\<rparr>)"
  using accepted_reads [OF assms(1-3) refl] assms(1,4) http_tok_lexer [where st = st and lx = lx' and t = "(lx_what lx, token)"]
  by (simp add: http_switch_def)

lemma hrun_lex:
  assumes "hp_state st \<noteq> BODY" "lex_run lx s = Some (toks, lx')" "htoks st toks = Some st'"
    "list_all known_token toks"
  shows "hrun (st\<lparr>hp_lexer := lx\<rparr>) s = Some (st'\<lparr>hp_lexer := lx'\<rparr>) \<and> hp_state st' \<noteq> BODY"
  using assms
proof (induction s arbitrary: st lx toks)
  case (Cons c s)
  obtain lx1 tok1 lx2 toks1 where lx1: "aug_appendlexer lx c = Some lx1" "lx_tell lx1 = Some (tok1, lx2)"
      "lex_run lx2 s = Some (toks1, lx')" and toks: "toks = tok1 @ toks1"
    using Cons.prems(2) by (auto simp: bind_Some_iff)
  obtain st1 where st1: "htoks st tok1 = Some st1" "htoks st1 toks1 = Some st'"
    using Cons.prems(3) by (auto simp: toks htoks_append bind_Some_iff)
  have "http_switch accept (st\<lparr>hp_lexer := lx1\<rparr>) = (Inr False, st1\<lparr>hp_lexer := lx2\<rparr>) \<and> hp_state st1 \<noteq> BODY"
  proof (cases "lx_what lx1 = 0")
    case True
    then have "tok1 = []" "lx2 = lx1"
      using lx1(2) by (simp_all add: lx_tell_def aug_lexertoken_def)
    then show ?thesis
      using True st1(1) Cons.prems(1) by (simp add: http_switch_def http_reads_def http_tok_def lex_flags)
  next
    case False
    then obtain t where t: "aug_lexertoken lx1 = Some (Some t, lx2)" "tok1 = [(lx_what lx1, t)]"
      using lx1(2) by (auto simp: lx_tell_def aug_lexertoken_def split: prod.splits option.splits)
    have "http_tok accept st (lx_what lx1, t) = (Inr False, st1)" "hp_state st1 \<noteq> BODY"
      using st1(1) t(2) by (auto split: prod.splits sum.splits if_splits)
    then show ?thesis
      using switch_token [OF _ Cons.prems(1) _ t(1)] Cons.prems(4) t(2) by (simp add: toks)
  qed
  then have "hchar (st\<lparr>hp_lexer := lx\<rparr>) c = Some (st1\<lparr>hp_lexer := lx2\<rparr>)" "hp_state st1 \<noteq> BODY"
    using lx1(1) Cons.prems(1) by (simp_all add: hchar_def)
  with Cons.IH [OF _ lx1(3) st1(2)] Cons.prems(4) show ?case
    by (simp add: toks)
qed simp

lemma line_tokens_known: "list_all known_token (line_tokens prev fs)"
  by (induction prev fs rule: line_tokens.induct) (simp_all add: known_token_def)

text \<open>Fields as messages have them: any name, or a content length.\<close>

definition csize_name :: "byte list" where
  "csize_name = str ''Content-Length''"

definition plain_field :: "field_line \<Rightarrow> bool" where
  "plain_field f \<longleftrightarrow> field_ok f \<and> \<not> is_csize (fst f) \<and> length (fst f) < AUG_MAXLINE"

definition csize_field :: "nat \<Rightarrow> field_line" where
  "csize_field n = (csize_name, decimal n)"

definition good_field :: "field_line \<Rightarrow> bool" where
  "good_field f \<longleftrightarrow> plain_field f \<or> (\<exists>n < 2 ^ 31. f = csize_field n)"

lemma csize_name_props: "is_csize csize_name" "length csize_name < AUG_MAXLINE" "line_text True csize_name"
  by code_simp+

lemma decimal_text:
  assumes "n < 2 ^ 31"
  shows "line_text False (decimal n)"
proof -
  have "length (decimal n) \<le> Suc 9"
    using assms by (intro decimal_length) simp
  have a: "list_all (\<lambda>c. first_char False c) (decimal n)"
  proof (rule decimal_all)
    fix d :: nat
    assume "d < 10"
    then have "d \<in> {0, 1, 2, 3, 4, 5, 6, 7, 8, 9}"
      by auto
    then show "first_char False (of_nat (48 + d))"
      by (auto simp: first_char_def text_char_def isspace_def)
  qed
  then have "list_all (text_char False) (decimal n)" "first_char False (hd (decimal n))"
      "first_char False (last (decimal n))"
    by (auto simp: list_all_iff first_char_def)
  with \<open>length (decimal n) \<le> Suc 9\<close> show ?thesis
    by (simp add: line_text_def trimmed_def first_char_def AUG_MAXLINE_def)
qed

lemma good_field_ok: "good_field f \<Longrightarrow> field_ok f"
  by (auto simp: good_field_def plain_field_def csize_field_def field_ok_def csize_name_props decimal_text)

definition put_field :: "http \<Rightarrow> field_line \<Rightarrow> http" where
  "put_field st f =
     (if is_csize (fst f) then
        let n = digits_val 10 0 (snd f) in
        st\<lparr>hp_name := fst f, hp_csize := int n, hp_log := hp_log st @ [HCsize n]\<rparr>
      else st\<lparr>hp_name := fst f, hp_log := hp_log st @ [HField (fst f) (snd f)]\<rparr>)"

lemma http_value_field:
  assumes "good_field f" "hp_name st = fst f"
  shows "http_value accept st (snd f) = (Inr (), put_field st f)"
proof -
  have name: "st\<lparr>hp_name := fst f\<rparr> = st"
    using assms(2) by simp
  from assms show ?thesis
    by (auto simp: good_field_def plain_field_def http_value_def put_field_def csize_field_def
        csize_name_props aug_strtoui_def aug_strtoul_def strtoul_decimal digits_val_decimal
        UINT_MAX_def ULONG_MAX_def Let_def)
qed


lemma put_field_frame [simp]:
  "hp_state (put_field st f) = hp_state st" "hp_lexer (put_field st f) = hp_lexer st"
  "hp_name (put_field st f) = fst f"
  by (simp_all add: put_field_def Let_def)

lemma put_field_name [simp]: "put_field (st\<lparr>hp_name := n\<rparr>) f = put_field st f"
  by (simp add: put_field_def Let_def)

lemma put_field_state: "put_field (st\<lparr>hp_state := s\<rparr>) f = (put_field st f)\<lparr>hp_state := s\<rparr>"
  by (simp add: put_field_def Let_def)

lemma put_field_lexer: "put_field (st\<lparr>hp_lexer := s\<rparr>) f = (put_field st f)\<lparr>hp_lexer := s\<rparr>"
  by (simp add: put_field_def Let_def)

lemma good_field_name: "good_field f \<Longrightarrow> take (AUG_MAXLINE - 1) (fst f) = fst f"
  using csize_name_props(2) by (auto simp: good_field_def plain_field_def csize_field_def)

lemma foldl_put_field_frame [simp]:
  "hp_state (foldl put_field st fs) = hp_state st" "hp_lexer (foldl put_field st fs) = hp_lexer st"
  by (induction fs arbitrary: st) auto

lemma htoks_fields:
  assumes "hp_state st = VALUE" "hp_name st = fst g" "list_all good_field (g # fs)"
  shows "htoks st (line_tokens (snd g) fs)
    = Some ((foldl put_field st (butlast (g # fs)))\<lparr>hp_name := fst (last (g # fs))\<rparr>)"
  using assms
proof (induction fs arbitrary: st g)
  case Nil
  then show ?case
    by simp
next
  case (Cons f fs)
  have g: "good_field g" and f: "good_field f"
    using Cons.prems(3) by auto
  let ?s = "(put_field st g)\<lparr>hp_name := fst f\<rparr>"
  have "http_tok accept st (AUG_LEXWORD, snd g) = (Inr False, (put_field st g)\<lparr>hp_state := NAME\<rparr>)"
    using http_value_field [OF g Cons.prems(2)] Cons.prems(1)
    by (simp add: http_tok_def http_word_def lex_flags)
  moreover have "http_tok accept ((put_field st g)\<lparr>hp_state := NAME\<rparr>) (AUG_LEXLABEL, fst f) = (Inr False, ?s)"
    using good_field_name [OF f] Cons.prems(1)
    by (cases "put_field st g") (auto simp: http_tok_def http_label_def http_name_def lex_flags
        dest: arg_cong [of _ _ hp_state])
  ultimately have "htoks st (line_tokens (snd g) (f # fs)) = htoks ?s (line_tokens (snd f) fs)"
    using Cons.prems(1) by simp
  also have "\<dots> = Some ((foldl put_field ?s (butlast (f # fs)))\<lparr>hp_name := fst (last (f # fs))\<rparr>)"
    using Cons.prems by (intro Cons.IH) auto
  finally show ?case
    by (cases fs) simp_all
qed

text \<open>A header with its fields leads to the body.\<close>

definition at_start :: "http \<Rightarrow> bool" where
  "at_start st \<longleftrightarrow> net_at (hp_lexer st) EatWs True False [] \<and> hp_state st = REQUEST"

definition in_body :: "http \<Rightarrow> byte list \<Rightarrow> field_line list \<Rightarrow> http" where
  "in_body st rl fs = foldl put_field (st\<lparr>hp_log := hp_log st @ [HRequest rl], hp_state := BODY\<rparr>) fs"

lemma foldl_put_field_state:
  "foldl put_field (st\<lparr>hp_state := s\<rparr>) fs = (foldl put_field st fs)\<lparr>hp_state := s\<rparr>"
  by (induction fs arbitrary: st) (auto simp: put_field_state)

lemma last_line_last: "last_line prev (g # fs) = snd (last (g # fs))"
  by (induction fs arbitrary: prev g) auto

text \<open>Before the end of the header the last field is pending.\<close>

definition pending :: "http \<Rightarrow> byte list \<Rightarrow> field_line list \<Rightarrow> http" where
  "pending st rl fs =
     (foldl put_field (st\<lparr>hp_log := hp_log st @ [HRequest rl], hp_state := VALUE, hp_name := fst (hd fs)\<rparr>)
       (butlast fs))\<lparr>hp_name := fst (last fs)\<rparr>"

lemma htoks_head:
  assumes "hp_state st = REQUEST" "list_all good_field (g # fs)"
  shows "htoks st (line_tokens rl (g # fs)) = Some (pending st rl (g # fs))"
proof -
  let ?s = "st\<lparr>hp_log := hp_log st @ [HRequest rl]\<rparr>"
  let ?v = "?s\<lparr>hp_state := VALUE, hp_name := fst g\<rparr>"
  have g: "take (AUG_MAXLINE - 1) (fst g) = fst g"
    using assms(2) by (intro good_field_name) simp
  have "http_tok accept st (AUG_LEXWORD, rl) = (Inr False, ?s\<lparr>hp_state := NAME\<rparr>)"
    using assms(1) by (simp add: http_tok_def http_word_def lex_flags)
  moreover have "http_tok accept (?s\<lparr>hp_state := NAME\<rparr>) (AUG_LEXLABEL, fst g) = (Inr False, ?v)"
    unfolding http_tok_def http_label_def http_name_def fst_conv snd_conv g by (simp add: lex_flags)
  ultimately have "htoks st (line_tokens rl (g # fs)) = htoks ?v (line_tokens (snd g) fs)"
    by simp
  also have "\<dots> = Some ((foldl put_field ?v (butlast (g # fs)))\<lparr>hp_name := fst (last (g # fs))\<rparr>)"
    using assms(2) by (intro htoks_fields) simp_all
  finally show ?thesis
    by (simp add: pending_def)
qed

lemma put_field_pending:
  "put_field (pending st rl (g # fs)) (last (g # fs)) = (in_body st rl (g # fs))\<lparr>hp_state := VALUE\<rparr>"
proof -
  let ?s = "st\<lparr>hp_log := hp_log st @ [HRequest rl], hp_state := VALUE\<rparr>"
  have "put_field (pending st rl (g # fs)) (last (g # fs))
      = foldl put_field (?s\<lparr>hp_name := fst g\<rparr>) (butlast (g # fs) @ [last (g # fs)])"
    by (simp add: pending_def)
  also have "butlast (g # fs) @ [last (g # fs)] = g # fs"
    by (rule append_butlast_last_id) simp
  also have "foldl put_field (?s\<lparr>hp_name := fst g\<rparr>) (g # fs) = foldl put_field ?s (g # fs)"
    by (simp only: foldl_Cons put_field_name)
  also have "\<dots> = (in_body st rl (g # fs))\<lparr>hp_state := VALUE\<rparr>"
    unfolding in_body_def foldl_put_field_state [symmetric] by simp
  finally show ?thesis .
qed

lemma http_tok_end:
  assumes "good_field (last (g # fs))" "hp_csize (in_body st rl (g # fs)) \<noteq> 0"
  shows "http_tok accept (pending st rl (g # fs)) (AUG_LEXWORD OR AUG_LEXPHRASE, snd (last (g # fs)))
    = (Inr True, in_body st rl (g # fs))"
proof -
  have p: "hp_state (pending st rl (g # fs)) = VALUE"
      "hp_name (pending st rl (g # fs)) = fst (last (g # fs))"
      "hp_state (in_body st rl (g # fs)) = BODY"
    by (simp_all add: pending_def in_body_def del: foldl_Cons)
  then have "(in_body st rl (g # fs))\<lparr>hp_state := BODY\<rparr> = in_body st rl (g # fs)"
    by simp
  then show ?thesis
    using http_value_field [OF assms(1) p(2)] assms(2) p(1)
    by (simp add: http_tok_def http_word_def http_phrase_def lex_flags put_field_pending
        del: last.simps foldl_Cons)
qed

lemma hrun_head:
  assumes "at_start st" "line_text True rl" "list_all good_field (g # fs)"
    "hp_csize (in_body st rl (g # fs)) \<noteq> 0"
  shows "\<exists>lx. hrun st (render_head rl (g # fs)) = Some ((in_body st rl (g # fs))\<lparr>hp_lexer := lx\<rparr>)
    \<and> net_at lx EatWs True False []"
proof -
  let ?fs = "g # fs" and ?l = "last (g # fs)" and ?p = "pending st rl (g # fs)"
  let ?lines = "rl @ [13, 10] @ concat (map render_field (g # fs)) @ [13]"
  have good: "good_field ?l" and fok: "list_all field_ok ?fs"
    using assms(3) good_field_ok last_in_set [of ?fs] by (auto simp only: list_all_iff)
  have start: "net_at (hp_lexer st) EatWs True False []" "hp_state st = REQUEST"
    using assms(1) by (simp_all add: at_start_def)
  obtain lab lx1 where 1: "lex_run (hp_lexer st) ?lines = Some (line_tokens rl ?fs, lx1)"
      "net_at lx1 Bare lab True (snd ?l)"
    using lexes_head_lines [OF start(1) assms(2) fok] unfolding lexes_def last_line_last by blast
  have run: "hrun st ?lines = Some (?p\<lparr>hp_lexer := lx1\<rparr>)"
    using hrun_lex [OF _ 1(1) htoks_head [OF start(2) assms(3)] line_tokens_known] start(2) by simp
  have z: "0 \<notin> set (snd ?l)"
    using field_value_nonzero [OF good_field_ok [OF good]] .
  obtain lx2 where lx2: "aug_appendlexer lx1 10 = Some lx2" "lx_what lx2 = AUG_LEXWORD OR AUG_LEXPHRASE"
      "content (lx_xstr lx2) = snd ?l" "net_at lx2 EatWs True False []"
    using net_empty_line [OF 1(2)] unfolding net_step_def lex_flags by auto
  obtain lx3 where lx3: "aug_lexertoken lx2 = Some (Some (snd ?l), lx3)" "net_at lx3 EatWs True False []"
    using token_read [OF lx2(4)] z unfolding lx2(2,3) lex_flags by auto
  have state: "hp_state ?p \<noteq> BODY" "hp_state (in_body st rl ?fs) = BODY"
    by (simp_all add: pending_def in_body_def del: foldl_Cons)
  have "http_switch accept (?p\<lparr>hp_lexer := lx2\<rparr>) = (Inr True, (in_body st rl ?fs)\<lparr>hp_lexer := lx3\<rparr>)"
    by (rule switch_token [OF _ state(1) _ lx3(1)])
      (use http_tok_end [OF good assms(4)] lx2(2) in \<open>simp_all add: known_token_def del: last.simps\<close>)
  then have "hchar (?p\<lparr>hp_lexer := lx1\<rparr>) 10 = Some ((in_body st rl ?fs)\<lparr>hp_lexer := lx3\<rparr>)"
    using lx2(1) state by (simp add: hchar_def)
  then have "hrun st (?lines @ [10]) = Some ((in_body st rl ?fs)\<lparr>hp_lexer := lx3\<rparr>)"
    unfolding hrun_append [of st ?lines] run by simp
  with lx3(2) show ?thesis
    by (auto simp: render_head_def)
qed

section \<open>Messages in pieces\<close>

record http_msg =
  m_request :: "byte list"
  m_before :: "field_line list"
  m_after :: "field_line list"
  m_body :: "byte list"

text \<open>A message with content: its length is a field among the others.\<close>

definition msg_fields :: "http_msg \<Rightarrow> field_line list" where
  "msg_fields m = m_before m @ csize_field (length (m_body m)) # m_after m"

definition render_msg :: "http_msg \<Rightarrow> byte list" where
  "render_msg m = render_head (m_request m) (msg_fields m) @ m_body m"

definition msg_ok :: "http_msg \<Rightarrow> bool" where
  "msg_ok m \<longleftrightarrow> line_text True (m_request m) \<and> list_all plain_field (m_before m @ m_after m)
     \<and> m_body m \<noteq> [] \<and> length (m_body m) < 2 ^ 31"

definition msg_events :: "http_msg \<Rightarrow> http_event list" where
  "msg_events m =
     HRequest (m_request m) # map (\<lambda>f. HField (fst f) (snd f)) (m_before m)
     @ HCsize (length (m_body m)) # map (\<lambda>f. HField (fst f) (snd f)) (m_after m)
     @ [HCdata (m_body m), HEnd True]"

lemma foldl_put_plain:
  assumes "list_all plain_field fs"
  shows "hp_log (foldl put_field st fs) = hp_log st @ map (\<lambda>f. HField (fst f) (snd f)) fs"
    "hp_csize (foldl put_field st fs) = hp_csize st"
  using assms by (induction fs arbitrary: st) (auto simp: put_field_def plain_field_def)

lemma in_body_msg:
  assumes "msg_ok m"
  shows "hp_csize (in_body st (m_request m) (msg_fields m)) = int (length (m_body m))"
    "body_done (in_body st (m_request m) (msg_fields m)) (m_body m)
      = (in_body st (m_request m) (msg_fields m))
        \<lparr>hp_log := hp_log st @ msg_events m, hp_state := REQUEST, hp_csize := 0\<rparr>"
  using assms
  by (simp_all add: in_body_def msg_fields_def msg_ok_def foldl_put_plain put_field_def csize_field_def
      csize_name_props digits_val_decimal body_done_def http_end_def msg_events_def Let_def)

lemma hrun_body_exists:
  assumes "hp_state st = BODY" "d \<noteq> []" "int (length d) = hp_csize st" "hp_csize st < 2 ^ 31"
  shows "\<exists>t. hrun st d = Some t"
  using assms
proof (induction d arbitrary: st)
  case (Cons c d)
  let ?s = "st\<lparr>hp_log := hp_log st @ [HCdata [c]], hp_csize := hp_csize st - 1\<rparr>"
  show ?case
  proof (cases "d = []")
    case True
    then show ?thesis
      using Cons.prems by (simp add: hchar_def)
  next
    case False
    then have "1 < hp_csize st"
      using Cons.prems(3) by (cases d) auto
    then have "hchar st c = Some ?s"
      using Cons.prems by (simp add: hchar_def Let_def)
    moreover obtain t where "hrun ?s d = Some t"
      using Cons.IH [of ?s] Cons.prems False by auto
    ultimately show ?thesis
      by simp
  qed
qed simp

lemma foldl_addev_plain:
  "\<forall>ev \<in> set evs. \<forall>d. ev \<noteq> HCdata d \<Longrightarrow> foldl addev l evs = l @ evs"
proof (induction evs arbitrary: l)
  case (Cons ev evs)
  then show ?case
    by (cases ev) (auto simp: addev.simps)
qed simp

lemma merge_msg:
  assumes "m_body m \<noteq> []"
  shows "foldl addev l (msg_events m) = l @ msg_events m"
proof -
  let ?evs = "HRequest (m_request m) # map (\<lambda>f. HField (fst f) (snd f)) (m_before m)
     @ HCsize (length (m_body m)) # map (\<lambda>f. HField (fst f) (snd f)) (m_after m)"
  have split: "msg_events m = ?evs @ [HCdata (m_body m), HEnd True]"
    by (simp add: msg_events_def)
  have plain: "\<forall>ev \<in> set ?evs. \<forall>d. ev \<noteq> HCdata d"
    by auto
  obtain k' ev where k': "?evs = k' @ [ev]"
    using rev_exhaust [of ?evs] by blast
  then have "\<forall>d. ev \<noteq> HCdata d"
    using plain by (metis in_set_conv_decomp)
  with k' obtain k where k: "l @ ?evs = k @ [ev]" "\<forall>d. ev \<noteq> HCdata d"
    by (metis append_assoc)
  show ?thesis
    unfolding split foldl_append foldl_addev_plain [OF plain]
    using k assms by (cases ev) (simp_all add: addev.simps)
qed

lemma hrun_msg:
  assumes "at_start st" "msg_ok m"
  shows "\<exists>t. hrun st (render_msg m) = Some t \<and> at_start t \<and> merge (hp_log t) = merge (hp_log st) @ msg_events m"
proof -
  let ?b = "in_body st (m_request m) (msg_fields m)"
  obtain g fs where fs: "msg_fields m = g # fs"
    by (cases "m_before m") (auto simp: msg_fields_def)
  have good: "list_all good_field (g # fs)"
    using assms(2) unfolding fs [symmetric] by (auto simp: msg_fields_def msg_ok_def good_field_def list_all_iff)
  obtain lx where lx: "hrun st (render_head (m_request m) (msg_fields m)) = Some (?b\<lparr>hp_lexer := lx\<rparr>)"
      "net_at lx EatWs True False []"
  proof -
    have "line_text True (m_request m)" "hp_csize (in_body st (m_request m) (g # fs)) \<noteq> 0"
      using assms(2) in_body_msg(1) [OF assms(2), of st] unfolding fs by (simp_all add: msg_ok_def)
    from hrun_head [OF assms(1) this(1) good this(2)] show ?thesis
      using that unfolding fs by blast
  qed
  let ?s = "?b\<lparr>hp_lexer := lx\<rparr>"
  have s: "hp_state ?s = BODY" "m_body m \<noteq> []" "int (length (m_body m)) = hp_csize ?s" "hp_csize ?s < 2 ^ 31"
    using in_body_msg(1) [OF assms(2), of st] assms(2) by (simp_all add: in_body_def msg_ok_def)
  obtain t where t: "hrun ?s (m_body m) = Some t"
    using hrun_body_exists [OF s] by blast
  have "merged t = merged (body_done ?s (m_body m))"
    using body_run_done [OF s(1-3) t] .
  moreover have "body_done ?s (m_body m) = (body_done ?b (m_body m))\<lparr>hp_lexer := lx\<rparr>"
    by (simp add: body_done_def http_end_def)
  ultimately have m: "merged t
      = merged (?b\<lparr>hp_log := hp_log st @ msg_events m, hp_state := REQUEST, hp_csize := 0, hp_lexer := lx\<rparr>)"
    by (simp add: in_body_msg(2) [OF assms(2)])
  have "merge (hp_log t) = merge (hp_log st) @ msg_events m"
    using merged_frame(2) [OF m] s(2) by (simp add: merge_append merge_msg)
  moreover have "at_start t"
    using merged_frame(3,5) [OF m] lx(2) by (simp add: at_start_def)
  ultimately show ?thesis
    using t by (simp add: render_msg_def hrun_append lx(1))
qed

lemma stream_run:
  assumes "\<forall>m \<in> set ms. msg_ok m" "pieces_ok bs" "concat bs = concat (map render_msg ms)"
    "size' = 0 \<or> AUG_MAXLINE \<le> size'"
  shows "\<exists>st. append_all accept (aug_createhttpparser mpool size') bs = (Inr (), st) \<and> hp_state st = REQUEST
    \<and> merge (hp_log st) = concat (map msg_events ms)"
proof -
  let ?st = "aug_createhttpparser mpool size'"
  have "\<exists>t. hrun st (concat (map render_msg ms)) = Some t \<and> at_start t
      \<and> merge (hp_log t) = merge (hp_log st) @ concat (map msg_events ms)" if "at_start st" for st
    using that assms(1)
  proof (induction ms arbitrary: st)
    case (Cons m ms)
    obtain u where u: "hrun st (render_msg m) = Some u" "at_start u"
        "merge (hp_log u) = merge (hp_log st) @ msg_events m"
      using hrun_msg [OF Cons.prems(1), of m] Cons.prems(2) by auto
    with Cons.IH [OF u(2)] Cons.prems(2) show ?case
      by (auto simp: hrun_append)
  qed simp
  moreover have "at_start ?st"
    using net_at_create [OF assms(4)] by (simp add: at_start_def aug_createhttpparser_def)
  ultimately obtain t where t: "hrun ?st (concat bs) = Some t" "at_start t"
      "merge (hp_log t) = concat (map msg_events ms)"
    unfolding assms(3) by (fastforce simp: aug_createhttpparser_def merge_def)
  obtain st where "append_all accept ?st bs = (Inr (), st)" "merged st = merged t"
    using append_all_sim [OF assms(2) t(1)] by blast
  with merged_frame(2,3) [of st t] t(2,3) show ?thesis
    by (auto simp: at_start_def)
qed

text \<open>
  C2: However a stream of messages is cut, the handler is told the same.  A parser made with the
  default size, or with at least \<open>AUG_MAXLINE\<close> (1024) characters, is given a stream of messages in
  any pieces that are not empty and shorter than \<open>2 ^ 31\<close> bytes.  Each message has a request line without
  a colon, fields, one of which declares the length of its content, and a content of 1 to
  \<open>2 ^ 31 - 1\<close> bytes; request lines, names and values have at most 512 characters, below 128, without zero, line ends
  and backslashes, and neither begin nor end with a space; request lines and names are not empty, values may be; names have no colon.
  Then, whatever the memory pool answers, every call succeeds, and a handler that accepts
  is given, for each message in order, its request line, its fields, its content length where
  that field stood, its content (in pieces that join to it) and its end.
\<close>
theorem http_pieces:
  assumes "\<forall>m \<in> set ms. msg_ok m" "pieces_ok bs" "concat bs = concat (map render_msg ms)"
    "size' = 0 \<or> AUG_MAXLINE \<le> size'"
  shows "\<exists>st. append_all accept (aug_createhttpparser mpool size') bs = (Inr (), st) \<and> hp_state st = REQUEST
    \<and> merge (hp_log st) = concat (map msg_events ms)"
  using stream_run [OF assms] .

lemma http_pieces_witness:
  "\<exists>st. append_all accept (aug_createhttpparser poor 0)
      (map (\<lambda>c. [c]) (render_msg \<lparr>m_request = [71], m_before = [], m_after = [([65], [66])], m_body = [13, 0]\<rparr>))
      = (Inr (), st) \<and> hp_state st = REQUEST
    \<and> merge (hp_log st) = [HRequest [71], HCsize 2, HField [65] [66], HCdata [13, 0], HEnd True]"
proof -
  let ?m = "\<lparr>m_request = [71], m_before = [], m_after = [([65], [66])], m_body = [13, 0]\<rparr>"
  have "\<forall>m \<in> set [?m]. msg_ok m"
    by (simp add: msg_ok_def line_text_def first_char_def text_char_def isspace_def trimmed_def
        plain_field_def field_ok_def is_csize_def AUG_MAXLINE_def)
  moreover have "pieces_ok (map (\<lambda>c. [c]) (render_msg ?m))"
    by (simp add: pieces_ok_def)
  ultimately show ?thesis
    using http_pieces [of "[?m]" "map (\<lambda>c. [c]) (render_msg ?m)" 0 poor]
    by (simp add: msg_events_def numeral_2_eq_2)
qed

text \<open>
  A message without content depends on the pieces.  Two such messages, each in a piece of its
  own, are reported each with one end; in one piece the end of the first is reported twice, since
  the parser goes on to the body of a message that has none.
\<close>
lemma bodyless_double_end:
  "let m = [71, 13, 10, 65, 58, 66, 13, 10, 13, 10] in
   hp_log (snd (append_all accept (aug_createhttpparser poor 64) [m, m]))
     = [HRequest [71], HField [65] [66], HEnd True, HRequest [71], HField [65] [66], HEnd True]
   \<and> hp_log (snd (append_all accept (aug_createhttpparser poor 64) [m @ m]))
     = [HRequest [71], HField [65] [66], HEnd True, HEnd True,
        HRequest [71], HField [65] [66], HEnd True]"
  by code_simp

text \<open>
  A request line with a colon is refused.  The lexer takes the text before the colon for a
  field's name, and the parser fails with \<^verbatim>\<open>AUG_EPARSE\<close> on ``G http:''.
\<close>
lemma request_colon_refused:
  "fst (append_all accept (aug_createhttpparser poor 64) [[71, 32, 104, 116, 116, 112, 58, 47, 13, 10]])
   = Inl (ExError EPARSE)"
  by code_simp

text \<open>
  A content length of 2 GB or more reads past the piece.  The length is stored in an
  \<^verbatim>\<open>int\<close>, and for 4294967295 the first piece of the body is handed to the handler with
  that size, whatever the size of the piece.
\<close>
lemma negative_csize_out_of_bounds:
  assumes "2 ^ 31 \<le> n" "n < 2 ^ 32" "length buf < 2 ^ 31" "hp_name st = csize_name"
  shows "case http_value accept st (decimal n) of
    (r, st') \<Rightarrow> r = Inr () \<and> hp_csize st' = int n - 2 ^ 32
      \<and> fst (http_body accept (st'\<lparr>hp_state := BODY\<rparr>) buf) = Inl Undefined"
proof -
  have "(int n + 2 ^ 31) mod 2 ^ 32 = (int n + 2 ^ 31 - 2 ^ 32) mod 2 ^ 32"
    using mod_add_self2 [of "int n + 2 ^ 31 - 2 ^ 32" "2 ^ 32"] by (simp add: add.commute)
  also have "\<dots> = int n + 2 ^ 31 - 2 ^ 32"
    using assms(1,2) by (intro mod_pos_pos_trivial) auto
  finally have c: "to_int32 (int n) = int n - 2 ^ 32"
    by (simp add: to_int32_def)
  have v: "http_value accept st (decimal n)
      = (Inr (), st\<lparr>hp_csize := int n - 2 ^ 32, hp_log := hp_log st @ [HCsize n]\<rparr>)"
    using assms(2,4) c
    by (simp add: http_value_def csize_name_props aug_strtoui_def aug_strtoul_def strtoul_decimal
        UINT_MAX_def ULONG_MAX_def)
  have "(int n - 2 ^ 32) mod 2 ^ 32 = int n mod 2 ^ 32"
    using mod_add_self2 [of "int n - 2 ^ 32" "2 ^ 32"] by simp
  also have "\<dots> = int n"
    using assms(2) by simp
  finally have "nat ((int n - 2 ^ 32) mod 2 ^ 32) = n"
    by simp
  then show ?thesis
    using assms(1-3) by (simp add: v http_body_def Let_def)
qed

lemma negative_csize_out_of_bounds_witness:
  "fst (http_body accept ((snd (http_value accept ((aug_createhttpparser poor 64)\<lparr>hp_name := csize_name\<rparr>)
     (decimal 4294967295)))\<lparr>hp_state := BODY\<rparr>) [65]) = Inl Undefined"
  using negative_csize_out_of_bounds [of 4294967295 "[65]" "(aug_createhttpparser poor 64)\<lparr>hp_name := csize_name\<rparr>"]
  by (simp add: split_def)

text \<open>
  A partial message ends in success.  When the stream stops inside a message the handler is
  told of an end without commit, and the result of finishing is success.
\<close>
lemma partial_message_succeeds:
  "case aug_finishhttp accept (snd (append_all accept (aug_createhttpparser poor 64) [[71, 13, 10, 65, 58]])) of
     (r, st) \<Rightarrow> r = Inr () \<and> hp_log st = [HRequest [71], HEnd False]"
  by code_simp

end
