(* ===== verification/Timer.thy ===== *)
theory Timer
  imports Prelude
begin

text \<open>
  \<^verbatim>\<open>augsys/time.c\<close> (the arithmetic of time values) and \<^verbatim>\<open>augutil/timer.c\<close>.
  \<open>timeval\<close> is \<^verbatim>\<open>struct aug_timeval\<close>, \<open>timer\<close> is \<^verbatim>\<open>struct timer_\<close> without its
  list entry; the tail queue is a list.  A timer's callback and object are the number \<open>t_cb\<close>,
  which a parameter \<open>cb\<close> interprets.  The clock is a parameter too: a reading of the world \<open>'w\<close>,
  which may fail and which moves the world on.  A callback may do anything to the timers and the
  world and returns the interval for the next expiry, as the code lets it.
\<close>

section \<open>Time values (augsys/time.c)\<close>

record timeval =
  tv_sec :: int
  tv_usec :: int

definition aug_mstotv :: "nat \<Rightarrow> timeval" where
  "aug_mstotv ms = \<lparr>tv_sec = int (ms div 1000), tv_usec = int ((ms mod 1000) * 1000)\<rparr>"

definition aug_tvtoms :: "timeval \<Rightarrow> nat" where
  "aug_tvtoms tv =
     (let ms = nat ((tv_sec tv * 1000) mod 2 ^ 32) in uaddi ms ((tv_usec tv + 500) div 1000))"

definition aug_tvadd :: "timeval \<Rightarrow> timeval \<Rightarrow> timeval" where
  "aug_tvadd dst src =
     (let sec = tv_sec dst + tv_sec src; usec = tv_usec dst + tv_usec src in
      if 1000000 < usec then \<lparr>tv_sec = sec + 1, tv_usec = usec - 1000000\<rparr>
      else \<lparr>tv_sec = sec, tv_usec = usec\<rparr>)"

text \<open>\<^verbatim>\<open>timercmp(a, b, <)\<close>.\<close>

definition tv_less :: "timeval \<Rightarrow> timeval \<Rightarrow> bool" where
  "tv_less a b \<longleftrightarrow> (if tv_sec a = tv_sec b then tv_usec a < tv_usec b else tv_sec a < tv_sec b)"

definition aug_tvsub :: "timeval \<Rightarrow> timeval \<Rightarrow> timeval" where
  "aug_tvsub dst src =
     (if tv_less dst src then \<lparr>tv_sec = 0, tv_usec = 0\<rparr>
      else
        let sec = tv_sec dst - tv_sec src; usec = tv_usec dst - tv_usec src in
        if usec < 0 then \<lparr>tv_sec = sec - 1, tv_usec = usec + 1000000\<rparr>
        else \<lparr>tv_sec = sec, tv_usec = usec\<rparr>)"

section \<open>Timers (augutil/timer.c)\<close>

definition EPSILONUS :: int where "EPSILONUS = 5000"

record timer =
  t_id :: int
  t_ms :: nat
  t_tv :: timeval
  t_cb :: nat

record 'w timers =
  tm_list :: "timer list"
  tm_world :: 'w

type_synonym 'w clock = "'w \<Rightarrow> (aug_fail + timeval) \<times> 'w"
type_synonym 'w callback = "timer \<Rightarrow> 'w timers \<Rightarrow> nat \<times> 'w timers"

definition gettimeofday :: "'w clock \<Rightarrow> 'w timers \<Rightarrow> (aug_fail + timeval) \<times> 'w timers" where
  "gettimeofday clock st = (case clock (tm_world st) of (r, w) \<Rightarrow> (r, st\<lparr>tm_world := w\<rparr>))"

fun insertafter :: "timer list \<Rightarrow> timer \<Rightarrow> timer list" where
  "insertafter [] t = [t]"
| "insertafter (it # its) t = (if tv_less (t_tv t) (t_tv it) then t # it # its else it # insertafter its t)"

definition inserttimer :: "timer list \<Rightarrow> timer \<Rightarrow> timer list" where
  "inserttimer ts t =
     (case ts of
        [] \<Rightarrow> t # ts
      | it # its \<Rightarrow> if tv_less (t_tv t) (t_tv it) then t # ts else it # insertafter its t)"

definition setexpiry :: "'w clock \<Rightarrow> nat \<Rightarrow> 'w timers \<Rightarrow> (aug_fail + timeval) \<times> 'w timers" where
  "setexpiry clock ms st =
     (case gettimeofday clock st of
        (Inl e, st) \<Rightarrow> (Inl e, st)
      | (Inr tv, st) \<Rightarrow> (Inr (aug_tvadd tv (aug_mstotv ms)), st))"

definition expired :: "timeval \<Rightarrow> timeval \<Rightarrow> bool" where
  "expired now tv = tv_less tv (aug_tvadd \<lparr>tv_sec = 0, tv_usec = EPSILONUS\<rparr> now)"

definition aug_createtimers :: "'w \<Rightarrow> 'w timers" where
  "aug_createtimers w = \<lparr>tm_list = [], tm_world = w\<rparr>"

text \<open>The first timer with the identifier is taken out of the list.\<close>

fun remove_id :: "timer list \<Rightarrow> int \<Rightarrow> (timer \<times> timer list) option" where
  "remove_id [] i = None"
| "remove_id (it # its) i =
     (if t_id it = i then Some (it, its)
      else case remove_id its i of None \<Rightarrow> None | Some (t, ts) \<Rightarrow> Some (t, it # ts))"

definition aug_canceltimer :: "int \<Rightarrow> 'w timers \<Rightarrow> (aug_fail + unit) \<times> 'w timers" where
  "aug_canceltimer i st =
     (case remove_id (tm_list st) i of
        None \<Rightarrow> (Inl ExNone, st)
      | Some (t, ts) \<Rightarrow> (Inr (), st\<lparr>tm_list := ts\<rparr>))"

text \<open>\<open>next_id\<close> is the answer of \<^verbatim>\<open>aug_nextid\<close>, \<open>mem\<close> tells whether memory is granted.\<close>

definition aug_settimer :: "'w clock \<Rightarrow> int \<Rightarrow> bool \<Rightarrow> int \<Rightarrow> nat \<Rightarrow> nat \<Rightarrow> 'w timers \<Rightarrow>
    (aug_fail + int) \<times> 'w timers" where
  "aug_settimer clock next_id mem i ms cb st =
     (let (i, st) = (if i \<le> 0 then (next_id, st) else (i, snd (aug_canceltimer i st))) in
      case setexpiry clock ms st of
        (Inl e, st) \<Rightarrow> (Inl e, st)
      | (Inr tv, st) \<Rightarrow>
          if \<not> mem then (Inl NoMem, st)
          else
            (Inr i, st\<lparr>tm_list :=
               inserttimer (tm_list st) \<lparr>t_id = i, t_ms = ms, t_tv = tv, t_cb = cb\<rparr>\<rparr>))"

definition aug_resettimer :: "'w clock \<Rightarrow> int \<Rightarrow> nat \<Rightarrow> 'w timers \<Rightarrow> (aug_fail + unit) \<times> 'w timers" where
  "aug_resettimer clock i ms st =
     (case remove_id (tm_list st) i of
        None \<Rightarrow> (Inl ExNone, st)
      | Some (it, ts) \<Rightarrow>
          let it = (if ms \<noteq> 0 then it\<lparr>t_ms := ms\<rparr> else it) in
          (case setexpiry clock (t_ms it) (st\<lparr>tm_list := ts\<rparr>) of
             (Inl e, st) \<Rightarrow> (Inl e, st)
           | (Inr tv, st) \<Rightarrow> (Inr (), st\<lparr>tm_list := inserttimer (tm_list st) (it\<lparr>t_tv := tv\<rparr>)\<rparr>)))"

definition aug_expired :: "'w timers \<Rightarrow> int \<Rightarrow> bool" where
  "aug_expired st i = (\<not> list_ex (\<lambda>it. t_id it = i) (tm_list st))"

definition aug_timersempty :: "'w timers \<Rightarrow> bool" where
  "aug_timersempty st = (tm_list st = [])"

text \<open>
  One turn of the loop over expired timers: the head is taken out, its callback is run, and it is
  scheduled again unless the interval is 0.  A clock that fails loses the timer's entry.
\<close>

definition expire_head :: "'w clock \<Rightarrow> 'w callback \<Rightarrow> timer \<Rightarrow> 'w timers \<Rightarrow> 'w timers" where
  "expire_head clock cb it st =
     (case cb it st of
        (ms, st) \<Rightarrow>
          let it = it\<lparr>t_ms := ms\<rparr> in
          if t_ms it \<noteq> 0 then
            (case setexpiry clock (t_ms it) st of
               (Inl e, st) \<Rightarrow> st
             | (Inr tv, st) \<Rightarrow> st\<lparr>tm_list := inserttimer (tm_list st) (it\<lparr>t_tv := tv\<rparr>)\<rparr>)
          else st)"

partial_function (option) expire_loop :: "'w clock \<Rightarrow> 'w callback \<Rightarrow> timeval \<Rightarrow> 'w timers \<Rightarrow> 'w timers option" where
  "expire_loop clock cb now st =
     (case tm_list st of
        [] \<Rightarrow> Some st
      | it # its \<Rightarrow>
          if \<not> expired now (t_tv it) then Some st
          else expire_loop clock cb now (expire_head clock cb it (st\<lparr>tm_list := its\<rparr>)))"

text \<open>The result carries the time to the next expiry; \<open>None\<close> when the loop does not end.\<close>

definition aug_processexpired :: "'w clock \<Rightarrow> 'w callback \<Rightarrow> bool \<Rightarrow> 'w timers \<Rightarrow>
    ((aug_fail + timeval) \<times> 'w timers) option" where
  "aug_processexpired clock cb force st =
     (case tm_list st of
        [] \<Rightarrow> Some (Inr \<lparr>tv_sec = 0, tv_usec = 0\<rparr>, st)
      | it # its \<Rightarrow>
          (case gettimeofday clock st of
             (Inl e, st) \<Rightarrow> Some (Inl e, st)
           | (Inr now, st) \<Rightarrow>
               let st = (if force then st\<lparr>tm_list := it\<lparr>t_tv := now\<rparr> # its\<rparr> else st) in
               case expire_loop clock cb now st of
                 None \<Rightarrow> None
               | Some st \<Rightarrow>
                   Some (Inr (case tm_list st of
                                [] \<Rightarrow> \<lparr>tv_sec = 0, tv_usec = 0\<rparr>
                              | it # _ \<Rightarrow> aug_tvsub (t_tv it) now), st)))"

section \<open>Order of time values\<close>

text \<open>The sum of two values may have a million microseconds exactly: it is not carried.\<close>

definition tv_ok :: "timeval \<Rightarrow> bool" where
  "tv_ok tv \<longleftrightarrow> 0 \<le> tv_usec tv \<and> tv_usec tv \<le> 1000000"

definition us :: "timeval \<Rightarrow> int" where
  "us tv = tv_sec tv * 1000000 + tv_usec tv"

definition tv_le :: "timeval \<Rightarrow> timeval \<Rightarrow> bool" where
  "tv_le a b \<longleftrightarrow> \<not> tv_less b a"

lemma us_le: "tv_ok a \<Longrightarrow> tv_ok b \<Longrightarrow> tv_le a b \<Longrightarrow> us a \<le> us b"
  by (auto simp: tv_ok_def tv_le_def tv_less_def us_def split: if_splits)

lemma tv_le_refl [simp]: "tv_le a a"
  by (simp add: tv_le_def tv_less_def)

lemma tv_le_trans: "tv_le a b \<Longrightarrow> tv_le b c \<Longrightarrow> tv_le a c"
  by (auto simp: tv_le_def tv_less_def split: if_splits)

lemma tv_less_trans: "tv_less a b \<Longrightarrow> tv_le b c \<Longrightarrow> tv_less a c"
  by (auto simp: tv_le_def tv_less_def split: if_splits)

lemma tv_le_less_trans: "tv_le a b \<Longrightarrow> tv_less b c \<Longrightarrow> tv_less a c"
  by (auto simp: tv_le_def tv_less_def split: if_splits)

lemma tv_less_le: "tv_less a b \<Longrightarrow> tv_le a b"
  by (auto simp: tv_le_def tv_less_def split: if_splits)

lemma us_tvadd: "us (aug_tvadd a b) = us a + us b"
  by (simp add: aug_tvadd_def us_def Let_def algebra_simps)

lemma tv_ok_tvadd: "tv_ok a \<Longrightarrow> tv_ok b \<Longrightarrow> tv_ok (aug_tvadd a b)"
  by (auto simp: aug_tvadd_def tv_ok_def Let_def)

lemma us_mstotv: "us (aug_mstotv ms) = int ms * 1000"
proof -
  have "ms = ms div 1000 * 1000 + ms mod 1000"
    by simp
  then have "int ms = int (ms div 1000) * 1000 + int (ms mod 1000)"
    by (metis of_nat_add of_nat_mult of_nat_numeral)
  then show ?thesis
    by (simp add: aug_mstotv_def us_def)
qed

lemma tv_ok_mstotv: "tv_ok (aug_mstotv ms)"
proof -
  have "ms mod 1000 < 1000"
    by simp
  then have "int (ms mod 1000) * 1000 \<le> 1000000"
    by linarith
  then show ?thesis
    by (simp add: aug_mstotv_def tv_ok_def)
qed

lemma us_tvsub: "tv_le b a \<Longrightarrow> us (aug_tvsub a b) = us a - us b"
  by (simp add: aug_tvsub_def us_def tv_le_def Let_def algebra_simps)

text \<open>
  The arithmetic of time values is that of their microseconds.  Adding and subtracting add and
  subtract them (a difference never goes below zero), milliseconds convert exactly, and results stay
  within a million microseconds beyond the seconds.
\<close>
lemma timeval_arith:
  assumes "tv_ok a" "tv_ok b"
  shows "us (aug_tvadd a b) = us a + us b \<and> tv_ok (aug_tvadd a b)
    \<and> us (aug_tvsub a b) = (if tv_le b a then us a - us b else 0)
    \<and> us (aug_mstotv ms) = int ms * 1000 \<and> tv_ok (aug_mstotv ms)
    \<and> (ms < 2 ^ 32 \<longrightarrow> aug_tvtoms (aug_mstotv ms) = ms)"
proof -
  have "aug_tvtoms (aug_mstotv ms) = ms" if "ms < 2 ^ 32"
  proof -
    have m: "ms = ms div 1000 * 1000 + ms mod 1000"
      by simp
    then have "int (ms div 1000) * 1000 + int (ms mod 1000) = int ms"
      by (metis of_nat_add of_nat_mult of_nat_numeral)
    moreover have "(int (ms mod 1000 * 1000) + 500) div 1000 = int (ms mod 1000)"
      by simp
    moreover have "int (ms div 1000) * 1000 < 2 ^ 32" "0 \<le> int (ms div 1000) * 1000"
      using that by auto
    ultimately show ?thesis
      using that by (simp add: aug_tvtoms_def aug_mstotv_def uaddi_def Let_def)
  qed
  moreover have "us (aug_tvsub a b) = 0" if "\<not> tv_le b a"
    using that by (simp add: aug_tvsub_def tv_le_def us_def)
  ultimately show ?thesis
    using assms by (simp add: us_tvadd tv_ok_tvadd us_mstotv tv_ok_mstotv us_tvsub)
qed

lemma timeval_arith_witness:
  "us (aug_tvsub \<lparr>tv_sec = 3, tv_usec = 1\<rparr> \<lparr>tv_sec = 1, tv_usec = 2\<rparr>) = 1999999
   \<and> aug_tvtoms (aug_mstotv 1500) = 1500"
  using timeval_arith [of "\<lparr>tv_sec = 3, tv_usec = 1\<rparr>" "\<lparr>tv_sec = 1, tv_usec = 2\<rparr>" 1500]
  by (simp add: tv_ok_def tv_le_def tv_less_def us_def)

section \<open>The list of timers\<close>

definition by_time :: "timer list \<Rightarrow> bool" where
  "by_time ts \<longleftrightarrow> sorted_wrt (\<lambda>a b. tv_le (t_tv a) (t_tv b)) ts"

lemma insertafter_eq:
  "insertafter ts t = takeWhile (\<lambda>it. tv_le (t_tv it) (t_tv t)) ts @ t
     # dropWhile (\<lambda>it. tv_le (t_tv it) (t_tv t)) ts"
  by (induction ts) (auto simp: tv_le_def)

text \<open>A timer goes behind those that expire no later than it.\<close>

lemma inserttimer_eq:
  "inserttimer ts t = takeWhile (\<lambda>it. tv_le (t_tv it) (t_tv t)) ts @ t
     # dropWhile (\<lambda>it. tv_le (t_tv it) (t_tv t)) ts"
  by (auto simp: inserttimer_def insertafter_eq tv_le_def split: list.splits)

lemma set_inserttimer [simp]: "set (inserttimer ts t) = insert t (set ts)"
proof -
  have "set ts = set (takeWhile P ts) \<union> set (dropWhile P ts)" for P
    by (metis set_append takeWhile_dropWhile_id)
  then show ?thesis
    by (auto simp: inserttimer_eq)
qed

lemma ids_inserttimer:
  "distinct (map t_id (inserttimer ts t)) \<longleftrightarrow> distinct (map t_id ts) \<and> t_id t \<notin> t_id ` set ts"
proof -
  let ?P = "\<lambda>it. tv_le (t_tv it) (t_tv t)"
  have "map t_id ts = map t_id (takeWhile ?P ts) @ map t_id (dropWhile ?P ts)"
    by (metis map_append takeWhile_dropWhile_id)
  moreover have "set ts = set (takeWhile ?P ts) \<union> set (dropWhile ?P ts)"
    by (metis set_append takeWhile_dropWhile_id)
  ultimately show ?thesis
    by (auto simp: inserttimer_eq)
qed

lemma by_time_insert:
  assumes "by_time ts"
  shows "by_time (inserttimer ts t)"
proof -
  let ?P = "\<lambda>it. tv_le (t_tv it) (t_tv t)"
  define D where "D = dropWhile ?P ts"
  define T where "T = takeWhile ?P ts"
  have split: "by_time (T @ D)"
    using assms by (simp add: T_def D_def)
  have after: "tv_le (t_tv t) (t_tv it)" if it: "it \<in> set D" for it
  proof -
    obtain h d where d: "D = h # d"
      using it by (cases D) auto
    then have "\<not> ?P h"
      using hd_dropWhile [of ?P ts] unfolding D_def by force
    then have "tv_le (t_tv t) (t_tv h)"
      using tv_less_le [of "t_tv t" "t_tv h"] by (simp add: tv_le_def)
    moreover have "tv_le (t_tv h) (t_tv it)"
      using split it by (auto simp: d by_time_def sorted_wrt_append)
    ultimately show ?thesis
      by (rule tv_le_trans)
  qed
  have before: "tv_le (t_tv it) (t_tv t)" if "it \<in> set T" for it
    using set_takeWhileD [OF that [unfolded T_def]] by simp
  from split after before tv_le_trans show ?thesis
    unfolding inserttimer_eq by_time_def T_def [symmetric] D_def [symmetric]
    by (auto simp: sorted_wrt_append)
qed

lemma remove_id_Some:
  "remove_id ts i = Some (t, ts') \<Longrightarrow>
   \<exists>a b. ts = a @ t # b \<and> ts' = a @ b \<and> t_id t = i \<and> i \<notin> t_id ` set a"
proof (induction ts arbitrary: ts')
  case (Cons it its)
  show ?case
  proof (cases "t_id it = i")
    case True
    with Cons.prems show ?thesis
      by (intro exI [of _ "[]"] exI [of _ ts']) auto
  next
    case False
    then obtain ts1 where r: "remove_id its i = Some (t, ts1)" "ts' = it # ts1"
      using Cons.prems by (auto split: option.splits)
    obtain a b where "its = a @ t # b" "ts1 = a @ b" "t_id t = i" "i \<notin> t_id ` set a"
      using Cons.IH [OF r(1)] by blast
    with False r(2) show ?thesis
      by (intro exI [of _ "it # a"] exI [of _ b]) auto
  qed
qed simp

lemma remove_id_None: "remove_id ts i = None \<longleftrightarrow> i \<notin> t_id ` set ts"
  by (induction ts) (auto split: option.splits)

lemma by_time_remove: "by_time (a @ t # b) \<Longrightarrow> by_time (a @ b)"
  by (auto simp: by_time_def sorted_wrt_append)

text \<open>The invariant: in order of expiry, one timer for each identifier.\<close>

definition timers_ok :: "timer list \<Rightarrow> bool" where
  "timers_ok ts \<longleftrightarrow> by_time ts \<and> distinct (map t_id ts) \<and> (\<forall>t \<in> set ts. tv_ok (t_tv t))"

lemma timers_ok_insert:
  "timers_ok ts \<Longrightarrow> tv_ok (t_tv t) \<Longrightarrow> t_id t \<notin> t_id ` set ts \<Longrightarrow> timers_ok (inserttimer ts t)"
  by (auto simp: timers_ok_def by_time_insert ids_inserttimer)

lemma timers_ok_remove:
  assumes "timers_ok ts" "remove_id ts i = Some (t, ts')"
  shows "timers_ok ts'" "i \<notin> t_id ` set ts'" "t_id t = i" "t \<in> set ts" "set ts' \<subseteq> set ts"
  using remove_id_Some [OF assms(2)] assms(1) by (auto simp: timers_ok_def dest: by_time_remove)

text \<open>A clock that gives carried time values.\<close>

definition clock_ok :: "'w clock \<Rightarrow> bool" where
  "clock_ok clock \<longleftrightarrow> (\<forall>w. case fst (clock w) of Inr tv \<Rightarrow> tv_ok tv | Inl e \<Rightarrow> True)"

lemma setexpiry_ok:
  assumes "clock_ok clock" "setexpiry clock ms st = (r, st')"
  shows "tm_list st' = tm_list st" "r = Inr tv \<Longrightarrow> tv_ok tv"
proof -
  obtain r1 w1 where r1: "clock (tm_world st) = (r1, w1)"
    by fastforce
  have "fst (clock (tm_world st)) = r1"
    by (simp add: r1)
  then have "\<And>tv. r1 = Inr tv \<Longrightarrow> tv_ok tv"
    using assms(1) unfolding clock_ok_def by (metis sum.simps(6))
  with assms(2) show "tm_list st' = tm_list st" "r = Inr tv \<Longrightarrow> tv_ok tv"
    by (auto simp: setexpiry_def gettimeofday_def r1 tv_ok_tvadd tv_ok_mstotv split: sum.splits)
qed

lemma canceltimer_ok:
  assumes "timers_ok (tm_list st)"
  shows "timers_ok (tm_list (snd (aug_canceltimer i st)))"
    "i \<notin> t_id ` set (tm_list (snd (aug_canceltimer i st)))"
    "set (tm_list (snd (aug_canceltimer i st))) \<subseteq> set (tm_list st)"
  using timers_ok_remove [OF assms, of i] assms remove_id_None [of "tm_list st" i]
  by (auto simp: aug_canceltimer_def split: option.splits)

text \<open>
  The list of timers stays in order of expiry with one timer for each identifier.  Setting,
  resetting and cancelling a timer keep this, whatever the identifier given, when new identifiers
  are positive and not in use.
\<close>
lemma timers_invariant:
  assumes "timers_ok (tm_list st)" "clock_ok clock" "next_id \<notin> t_id ` set (tm_list st)"
  shows "timers_ok (tm_list (snd (aug_settimer clock next_id mem i ms cb st)))
    \<and> timers_ok (tm_list (snd (aug_resettimer clock i ms st)))
    \<and> timers_ok (tm_list (snd (aug_canceltimer i st)))"
proof (intro conjI)
  define s where "s = (if i \<le> 0 then (next_id, st) else (i, snd (aug_canceltimer i st)))"
  obtain j st1 where s1: "s = (j, st1)"
    by fastforce
  have j: "timers_ok (tm_list st1)" "j \<notin> t_id ` set (tm_list st1)"
    using s1 assms(1,3) canceltimer_ok [OF assms(1), of i] by (auto simp: s_def split: if_splits)
  obtain r st2 where r: "setexpiry clock ms st1 = (r, st2)"
    by fastforce
  note e = setexpiry_ok [OF assms(2) r]
  show "timers_ok (tm_list (snd (aug_settimer clock next_id mem i ms cb st)))"
    using s1 r e j timers_ok_insert
    by (auto simp: aug_settimer_def s_def [symmetric] split: sum.splits)
next
  show "timers_ok (tm_list (snd (aug_resettimer clock i ms st)))"
  proof (cases "remove_id (tm_list st) i")
    case None
    then show ?thesis
      using assms(1) by (simp add: aug_resettimer_def)
  next
    case (Some p)
    obtain t ts where p: "p = (t, ts)"
      by fastforce
    note rm = timers_ok_remove [OF assms(1) Some [unfolded p]]
    let ?t = "if ms \<noteq> 0 then t\<lparr>t_ms := ms\<rparr> else t"
    obtain r st2 where r: "setexpiry clock (t_ms ?t) (st\<lparr>tm_list := ts\<rparr>) = (r, st2)"
      by fastforce
    note e = setexpiry_ok [OF assms(2) r]
    have "timers_ok (inserttimer ts (?t\<lparr>t_tv := tv\<rparr>))" if "r = Inr tv" for tv
      using rm e(2) that by (intro timers_ok_insert) auto
    then show ?thesis
      using Some p r e(1) rm(1) by (auto simp: aug_resettimer_def Let_def split: sum.splits)
  qed
next
  show "timers_ok (tm_list (snd (aug_canceltimer i st)))"
    using canceltimer_ok(1) [OF assms(1)] .
qed

lemma timers_invariant_witness:
  "timers_ok (tm_list (snd (aug_settimer (\<lambda>w. (Inr \<lparr>tv_sec = 1, tv_usec = 2\<rparr>, w)) 1 True 0 10 0 (aug_createtimers ()))))"
  using timers_invariant [of "aug_createtimers ()" "\<lambda>w. (Inr \<lparr>tv_sec = 1, tv_usec = 2\<rparr>, w)" 1 True 0 10 0]
  by (simp add: aug_createtimers_def timers_ok_def by_time_def clock_ok_def tv_ok_def)

section \<open>Expiry\<close>

lemma inserttimer_Cons:
  "inserttimer (it # its) t = (if tv_less (t_tv t) (t_tv it) then t # it # its else it # inserttimer its t)"
  by (simp add: inserttimer_eq tv_le_def)

lemma inserttimer_Nil: "inserttimer [] t = [t]"
  by (simp add: inserttimer_def)

text \<open>A timer that has not expired goes behind all those that have.\<close>

lemma insert_behind:
  assumes "\<not> expired now (t_tv t)"
  shows "takeWhile (\<lambda>it. expired now (t_tv it)) (inserttimer ts t) = takeWhile (\<lambda>it. expired now (t_tv it)) ts
    \<and> dropWhile (\<lambda>it. expired now (t_tv it)) (inserttimer ts t)
      = inserttimer (dropWhile (\<lambda>it. expired now (t_tv it)) ts) t"
proof (induction ts)
  case Nil
  then show ?case
    using assms by (simp add: inserttimer_eq)
next
  case (Cons it ts)
  have "\<not> tv_less (t_tv t) (t_tv it)" if "expired now (t_tv it)"
    using that assms tv_less_trans [OF _ tv_less_le] by (auto simp: expired_def)
  with Cons assms show ?case
    by (auto simp: inserttimer_Cons)
qed

text \<open>
  A quiet callback changes only the world and gives the interval \<open>g t\<close>; a steady clock reads the
  world and does not run back.
\<close>

definition quiet :: "(timer \<Rightarrow> nat) \<Rightarrow> (timer \<Rightarrow> 'w \<Rightarrow> 'w) \<Rightarrow> 'w callback" where
  "quiet g upd t st = (g t, st\<lparr>tm_world := upd t (tm_world st)\<rparr>)"

definition steady :: "('w \<Rightarrow> timeval) \<Rightarrow> 'w clock" where
  "steady time w = (Inr (time w), w)"

definition forward :: "('w \<Rightarrow> timeval) \<Rightarrow> (timer \<Rightarrow> 'w \<Rightarrow> 'w) \<Rightarrow> bool" where
  "forward time upd \<longleftrightarrow> (\<forall>t w. tv_le (time w) (time (upd t w))) \<and> (\<forall>w. tv_ok (time w))"

text \<open>Every due timer runs once, in order, and is scheduled again from the time after its run.\<close>

fun fire_all :: "(timer \<Rightarrow> nat) \<Rightarrow> (timer \<Rightarrow> 'w \<Rightarrow> 'w) \<Rightarrow> ('w \<Rightarrow> timeval) \<Rightarrow>
    timer list \<Rightarrow> timer list \<Rightarrow> 'w \<Rightarrow> timer list \<times> 'w" where
  "fire_all g upd time [] rest w = (rest, w)"
| "fire_all g upd time (t # due) rest w =
     (let w = upd t w;
          rest = (if g t = 0 then rest
                  else inserttimer rest (t\<lparr>t_ms := g t, t_tv := aug_tvadd (time w) (aug_mstotv (g t))\<rparr>))
      in fire_all g upd time due rest w)"

lemma us_less: "tv_ok a \<Longrightarrow> tv_ok b \<Longrightarrow> us a < us b \<Longrightarrow> tv_le a b"
  using us_le [of b a] tv_less_le [of b a] by (auto simp: tv_le_def)

lemma us_eps: "us (aug_tvadd \<lparr>tv_sec = 0, tv_usec = EPSILONUS\<rparr> now) = us now + 5000"
  by (simp add: us_tvadd) (simp add: us_def EPSILONUS_def)

lemma tv_ok_eps: "tv_ok now \<Longrightarrow> tv_ok (aug_tvadd \<lparr>tv_sec = 0, tv_usec = EPSILONUS\<rparr> now)"
  by (rule tv_ok_tvadd) (simp_all add: tv_ok_def EPSILONUS_def)

lemma not_expired_again:
  assumes "tv_ok now" "tv_ok tv" "tv_le now tv" "5 < ms"
  shows "\<not> expired now (aug_tvadd tv (aug_mstotv ms))"
proof -
  have "us now + 5000 < us tv + int ms * 1000"
    using us_le [OF assms(1-3)] assms(4) by linarith
  then have "us (aug_tvadd \<lparr>tv_sec = 0, tv_usec = EPSILONUS\<rparr> now) < us (aug_tvadd tv (aug_mstotv ms))"
    by (simp only: us_eps us_tvadd [of tv] us_mstotv)
  from us_less [OF tv_ok_eps [OF assms(1)] tv_ok_tvadd [OF assms(2) tv_ok_mstotv] this]
  show ?thesis
    by (simp add: expired_def tv_le_def)
qed

lemma expired_now: "tv_ok now \<Longrightarrow> expired now now"
  using us_le [OF tv_ok_eps, of now now] us_eps [of now] by (auto simp: expired_def tv_le_def)

definition due :: "timeval \<Rightarrow> timer list \<Rightarrow> timer list" where
  "due now ts = takeWhile (\<lambda>t. expired now (t_tv t)) ts"

definition rest :: "timeval \<Rightarrow> timer list \<Rightarrow> timer list" where
  "rest now ts = dropWhile (\<lambda>t. expired now (t_tv t)) ts"

lemma expire_loop_quiet:
  assumes "tv_ok now" "forward time upd" "\<forall>t. g t = 0 \<or> 5 < g t"
  shows "tv_le now (time w) \<Longrightarrow>
    expire_loop (steady time) (quiet g upd) now \<lparr>tm_list = ts, tm_world = w\<rparr> =
      (case fire_all g upd time (due now ts) (rest now ts) w of
         (ts', w') \<Rightarrow> Some \<lparr>tm_list = ts', tm_world = w'\<rparr>)"
proof (induction "length (due now ts)" arbitrary: ts w)
  case 0
  then have "due now ts = []"
    by simp
  then show ?case
    by (cases ts) (auto simp: expire_loop.simps due_def rest_def split: if_splits)
next
  case (Suc n)
  then obtain t its where ts: "ts = t # its" and e: "expired now (t_tv t)" and n: "n = length (due now its)"
    by (cases ts) (auto simp: due_def split: if_splits)
  let ?w = "upd t w"
  have w: "tv_le now (time ?w)" "tv_ok (time ?w)"
    using Suc.prems assms(2) tv_le_trans by (auto simp: forward_def)
  let ?t = "t\<lparr>t_ms := g t, t_tv := aug_tvadd (time ?w) (aug_mstotv (g t))\<rparr>"
  let ?ts = "if g t = 0 then its else inserttimer its ?t"
  have step: "expire_head (steady time) (quiet g upd) t \<lparr>tm_list = its, tm_world = w\<rparr>
      = \<lparr>tm_list = ?ts, tm_world = ?w\<rparr>"
    by (simp add: expire_head_def quiet_def setexpiry_def gettimeofday_def steady_def)
  have "g t \<noteq> 0 \<Longrightarrow> \<not> expired now (t_tv ?t)"
    using not_expired_again [OF assms(1) w(2,1), of "g t"] assms(3)
    by (metis timer.select_convs(3) timer.surjective timer.update_convs(2,3))
  then have behind: "due now ?ts = due now its"
      "rest now ?ts = (if g t = 0 then rest now its else inserttimer (rest now its) ?t)"
    using insert_behind [of now ?t its] by (auto simp: due_def rest_def)
  have "expire_loop (steady time) (quiet g upd) now \<lparr>tm_list = ts, tm_world = w\<rparr>
      = expire_loop (steady time) (quiet g upd) now \<lparr>tm_list = ?ts, tm_world = ?w\<rparr>"
    using e step by (subst expire_loop.simps) (simp add: ts)
  also have "\<dots> = (case fire_all g upd time (due now ?ts) (rest now ?ts) ?w of
      (ts', w') \<Rightarrow> Some \<lparr>tm_list = ts', tm_world = w'\<rparr>)"
    using n behind(1) by (intro Suc.hyps(1) [OF _ w(1)]) simp
  also have "fire_all g upd time (due now ?ts) (rest now ?ts) ?w
      = fire_all g upd time (due now ts) (rest now ts) w"
    unfolding behind using e by (simp add: ts due_def rest_def Let_def)
  finally show ?case .
qed

text \<open>The head of the list, its time set to now when it is forced.\<close>

definition forced :: "bool \<Rightarrow> timeval \<Rightarrow> timer list \<Rightarrow> timer list" where
  "forced force now ts =
     (case ts of [] \<Rightarrow> [] | it # its \<Rightarrow> (if force then it\<lparr>t_tv := now\<rparr> else it) # its)"

definition pending_ok :: "timeval \<Rightarrow> timer list \<Rightarrow> bool" where
  "pending_ok now ts \<longleftrightarrow> (\<forall>t \<in> set ts. tv_ok (t_tv t)) \<and> (ts \<noteq> [] \<longrightarrow> \<not> expired now (t_tv (hd ts)))"

lemma fire_all_pending:
  assumes "tv_ok now" "forward time upd" "\<forall>t. g t = 0 \<or> 5 < g t"
  shows "pending_ok now ts \<Longrightarrow> tv_le now (time w) \<Longrightarrow> pending_ok now (fst (fire_all g upd time d ts w))"
proof (induction d arbitrary: ts w)
  case (Cons t d)
  let ?w = "upd t w"
  let ?t = "t\<lparr>t_ms := g t, t_tv := aug_tvadd (time ?w) (aug_mstotv (g t))\<rparr>"
  have w: "tv_le now (time ?w)" "tv_ok (time ?w)"
    using Cons.prems assms(2) tv_le_trans by (auto simp: forward_def)
  have "pending_ok now (inserttimer ts ?t)" if "g t \<noteq> 0"
  proof -
    have "5 < g t"
      using assms(3) [rule_format, of t] that by simp
    from not_expired_again [OF assms(1) w(2,1) this] show ?thesis
      using Cons.prems(1) tv_ok_tvadd [OF w(2) tv_ok_mstotv]
      by (cases ts) (auto simp: pending_ok_def inserttimer_Cons inserttimer_Nil)
  qed
  with Cons.IH [OF _ w(1)] Cons.prems(1) show ?case
    by (simp add: Let_def)
qed simp

lemma pending_rest: "\<forall>t \<in> set ts. tv_ok (t_tv t) \<Longrightarrow> pending_ok now (rest now ts)"
  unfolding pending_ok_def rest_def
  using hd_dropWhile [of "\<lambda>t. expired now (t_tv t)" ts] set_dropWhileD by fastforce

lemma next_expiry:
  assumes "tv_ok now" "pending_ok now (t # ts)"
  shows "us (aug_tvsub (t_tv t) now) = us (t_tv t) - us now" "5000 \<le> us (aug_tvsub (t_tv t) now)"
proof -
  let ?l = "aug_tvadd \<lparr>tv_sec = 0, tv_usec = EPSILONUS\<rparr> now"
  have t: "tv_ok (t_tv t)" "tv_le ?l (t_tv t)"
    using assms(2) by (auto simp: pending_ok_def expired_def tv_le_def)
  have "us now < us ?l"
    by (simp only: us_eps)
  from us_less [OF assms(1) tv_ok_eps [OF assms(1)] this] have "tv_le now (t_tv t)"
    using t(2) tv_le_trans by blast
  then show "us (aug_tvsub (t_tv t) now) = us (t_tv t) - us now"
    by (rule us_tvsub)
  then show "5000 \<le> us (aug_tvsub (t_tv t) now)"
    using us_le [OF tv_ok_eps [OF assms(1)] t] us_eps [of now] by linarith
qed

text \<open>
  C21: Processing runs the timers that are due when it begins, each once, and returns.  With callbacks that set or
  cancel no timers (\<open>quiet\<close>), intervals above 5 ms, and a clock that does not fail and does not run
  back, processing ends; it runs the timers
  at the front of the list that expire within 5 ms, each once and in order (the first one in any
  case when it is forced), schedules those with an interval again from the time after their run,
  and reports the time to the next expiry, which is at least 5 ms when a timer is left, so that it
  is never taken for the zero that stands for no timer.
\<close>
theorem processexpired_fires:
  assumes "forward time upd" "\<forall>t. g t = 0 \<or> 5 < g t" "\<forall>t \<in> set ts. tv_ok (t_tv t)"
    and "fs = forced force (time w) ts"
    and "fire_all g upd time (due (time w) fs) (rest (time w) fs) w = (ts', w')"
  shows "\<exists>next. aug_processexpired (steady time) (quiet g upd) force \<lparr>tm_list = ts, tm_world = w\<rparr>
      = Some (Inr next, \<lparr>tm_list = ts', tm_world = w'\<rparr>)
    \<and> (ts' = [] \<longrightarrow> us next = 0)
    \<and> (ts' \<noteq> [] \<longrightarrow> us next = us (t_tv (hd ts')) - us (time w) \<and> 5000 \<le> us next)
    \<and> (force \<and> ts \<noteq> [] \<longrightarrow> due (time w) fs \<noteq> [])"
proof (cases ts)
  case Nil
  then show ?thesis
    using assms(4,5) by (simp add: forced_def aug_processexpired_def us_def due_def rest_def)
next
  case (Cons it its)
  let ?now = "time w"
  have now: "tv_ok ?now"
    using assms(1) by (simp add: forward_def)
  have fs: "fs = (if force then it\<lparr>t_tv := ?now\<rparr> else it) # its" "\<forall>t \<in> set fs. tv_ok (t_tv t)"
    using assms(3,4) now by (auto simp: Cons forced_def)
  have loop: "expire_loop (steady time) (quiet g upd) ?now \<lparr>tm_list = fs, tm_world = w\<rparr>
      = Some \<lparr>tm_list = ts', tm_world = w'\<rparr>"
    using expire_loop_quiet [OF now assms(1,2), of w fs] assms(5) by simp
  have pend: "pending_ok ?now ts'"
    using fire_all_pending [OF now assms(1,2) pending_rest [OF fs(2)], of w "due ?now fs"] assms(5) by simp
  let ?next = "case ts' of [] \<Rightarrow> \<lparr>tv_sec = 0, tv_usec = 0\<rparr> | it # _ \<Rightarrow> aug_tvsub (t_tv it) ?now"
  have "aug_processexpired (steady time) (quiet g upd) force \<lparr>tm_list = ts, tm_world = w\<rparr>
      = Some (Inr ?next, \<lparr>tm_list = ts', tm_world = w'\<rparr>)"
    using loop by (cases force) (simp_all add: aug_processexpired_def Cons gettimeofday_def steady_def fs)
  moreover have "us ?next = (if ts' = [] then 0 else us (t_tv (hd ts')) - us ?now)"
      "ts' \<noteq> [] \<Longrightarrow> 5000 \<le> us ?next"
    using next_expiry [OF now] pend by (cases ts'; simp add: us_def)+
  moreover have "due ?now fs \<noteq> []" if force
    using that expired_now [OF now] by (simp add: due_def fs)
  ultimately show ?thesis
    by auto
qed

lemma processexpired_fires_witness:
  "\<exists>next. aug_processexpired (steady (\<lambda>w. \<lparr>tv_sec = 5, tv_usec = 0\<rparr>))
      (quiet (\<lambda>t. if t_id t = 1 then 10 else 0) (\<lambda>t w. w @ [t_id t])) False
      \<lparr>tm_list = [\<lparr>t_id = 1, t_ms = 10, t_tv = \<lparr>tv_sec = 5, tv_usec = 0\<rparr>, t_cb = 0\<rparr>,
          \<lparr>t_id = 2, t_ms = 0, t_tv = \<lparr>tv_sec = 5, tv_usec = 1\<rparr>, t_cb = 0\<rparr>], tm_world = []\<rparr>
    = Some (Inr next,
        \<lparr>tm_list = [\<lparr>t_id = 1, t_ms = 10, t_tv = \<lparr>tv_sec = 5, tv_usec = 10000\<rparr>, t_cb = 0\<rparr>],
         tm_world = [1, 2]\<rparr>) \<and> us next = 10000"
  (is "\<exists>next. aug_processexpired (steady ?time) (quiet ?g ?upd) False \<lparr>tm_list = ?ts, tm_world = []\<rparr>
    = Some (Inr next, \<lparr>tm_list = ?ts', tm_world = [1, 2]\<rparr>) \<and> _")
proof -
  have "fire_all ?g ?upd ?time (due (?time []) ?ts) (rest (?time []) ?ts) [] = (?ts', [1, 2])"
    by (simp add: due_def rest_def expired_def tv_less_def aug_tvadd_def EPSILONUS_def Let_def
        inserttimer_def aug_mstotv_def)
  moreover have "\<forall>t. ?g t = 0 \<or> 5 < ?g t"
    by simp
  ultimately show ?thesis
    using processexpired_fires [where time = ?time and upd = ?upd and g = ?g and ts = ?ts and fs = ?ts
        and force = False and w = "[]" and ts' = ?ts' and w' = "[1, 2]"]
    by (fastforce simp: forward_def tv_ok_def forced_def us_def)
qed

text \<open>
  A short interval spins.  On a clock that stands still a timer whose callback asks for less
  than 5 ms is due again at once, and processing does not return.
\<close>
lemma short_interval_spins:
  fixes w :: 'w
  assumes "tv_ok now" "0 < ms" "ms < 5"
    and "t = \<lparr>t_id = i, t_ms = ms, t_tv = aug_tvadd now (aug_mstotv ms), t_cb = cb\<rparr>"
  shows "expire_loop (steady (\<lambda>w. now)) (quiet (\<lambda>t. ms) (\<lambda>t w. w)) now \<lparr>tm_list = [t], tm_world = w\<rparr> = None"
proof -
  let ?st = "\<lparr>tm_list = [t], tm_world = w\<rparr>"
  have "us (t_tv t) < us (aug_tvadd \<lparr>tv_sec = 0, tv_usec = EPSILONUS\<rparr> now)"
    using assms(3) us_eps [of now] by (simp add: assms(4) us_tvadd us_mstotv)
  then have "tv_less (t_tv t) (aug_tvadd \<lparr>tv_sec = 0, tv_usec = EPSILONUS\<rparr> now)"
    using us_le [OF tv_ok_eps [OF assms(1)] tv_ok_tvadd [OF assms(1) tv_ok_mstotv], of ms] assms(4)
    by (auto simp: tv_le_def)
  then have e: "expired now (t_tv t)"
    by (simp add: expired_def)
  have step: "expire_head (steady (\<lambda>w. now)) (quiet (\<lambda>t. ms) (\<lambda>t w. w)) t \<lparr>tm_list = [], tm_world = w\<rparr> = ?st"
    using assms(2,4) by (simp add: expire_head_def quiet_def setexpiry_def gettimeofday_def steady_def inserttimer_def)
  define bad where "bad c k n s \<longleftrightarrow> c = steady (\<lambda>w. now) \<and> k = quiet (\<lambda>t. ms) (\<lambda>t w. w) \<and> n = now \<and> s = ?st"
    for c :: "'w clock" and k :: "'w callback" and n s
  have "\<not> bad c k n s" if "expire_loop c k n s = Some r"
    for c :: "'w clock" and k :: "'w callback" and n s r
  proof (rule expire_loop.raw_induct [where P = "\<lambda>c k n s r. \<not> bad c k n s", OF _ that])
    fix loop c k n s r
    assume ih: "\<And>c k n s r. loop c k n s = Some r \<Longrightarrow> \<not> bad c k n s"
      and eq: "(case tm_list s of [] \<Rightarrow> Some s
        | it # its \<Rightarrow> if \<not> expired n (t_tv it) then Some s
            else loop c k n (expire_head c k it (s\<lparr>tm_list := its\<rparr>))) = Some r"
    have "loop c k n s = Some r" if "bad c k n s"
      using that eq e step by (simp add: bad_def)
    then show "\<not> bad c k n s"
      using ih by blast
  qed
  then show ?thesis
    unfolding bad_def by (metis option.exhaust)
qed

lemma short_interval_spins_witness:
  "expire_loop (steady (\<lambda>w. \<lparr>tv_sec = 5, tv_usec = 0\<rparr>)) (quiet (\<lambda>t. 1) (\<lambda>t w. w)) \<lparr>tv_sec = 5, tv_usec = 0\<rparr>
     \<lparr>tm_list = [\<lparr>t_id = 1, t_ms = 1, t_tv = \<lparr>tv_sec = 5, tv_usec = 1000\<rparr>, t_cb = 0\<rparr>], tm_world = ()\<rparr> = None"
  by (rule short_interval_spins [where ms = 1 and i = 1 and cb = 0])
    (simp_all add: tv_ok_def aug_tvadd_def aug_mstotv_def Let_def)

end
