(* ===== verification/Event.thy ===== *)
theory Event
  imports Prelude
begin

text \<open>
  \<^verbatim>\<open>augutil/event.c\<close>: the queue that carries events from any number of producing threads to
  one consumer.  Producers push links onto a shared stack by compare and swap; the consumer takes
  the whole stack by compare and swap, reverses it and pops from its own list.  Memory is a heap of
  links; \<open>Wakeup\<close> is the marker \<^verbatim>\<open>(void*)1\<close>.  Each atomic operation of the code is a step of
  the system, so that every interleaving of the threads is an execution; an address is free for
  another link as soon as its link is destroyed.
\<close>

section \<open>Links\<close>

datatype ptr = Null | Wakeup | At nat

type_synonym event = "int \<times> nat"

record link =
  l_next :: ptr
  l_event :: event

type_synonym heap = "nat \<Rightarrow> link option"

text \<open>The link a pointer leads to; \<open>None\<close> when there is none, as behind the marker.\<close>

definition deref :: "heap \<Rightarrow> ptr \<Rightarrow> link option" where
  "deref h p = (case p of At a \<Rightarrow> h a | _ \<Rightarrow> None)"

definition pushlink :: "heap \<Rightarrow> ptr \<Rightarrow> nat \<Rightarrow> (heap \<times> ptr) option" where
  "pushlink h head a =
     (case h a of None \<Rightarrow> None | Some l \<Rightarrow> Some (h(a \<mapsto> l\<lparr>l_next := head\<rparr>), At a))"

text \<open>The popped link, or null, and the new head.  The outer \<open>None\<close> is a bad dereference.\<close>

definition poplink :: "heap \<Rightarrow> ptr \<Rightarrow> (ptr \<times> ptr) option" where
  "poplink h head =
     (if head = Null then Some (Null, head)
      else case deref h head of None \<Rightarrow> None | Some l \<Rightarrow> Some (head, l_next l))"

partial_function (option) reverse_loop :: "heap \<Rightarrow> ptr \<Rightarrow> ptr \<Rightarrow> (heap \<times> ptr) option" where
  "reverse_loop h head revd =
     (case poplink h head of
        None \<Rightarrow> None
      | Some (l, head) \<Rightarrow>
          (case l of
             At a \<Rightarrow> (case pushlink h revd a of None \<Rightarrow> None | Some (h, revd) \<Rightarrow> reverse_loop h head revd)
           | _ \<Rightarrow> Some (h, revd)))"

definition reverse :: "heap \<Rightarrow> ptr \<Rightarrow> (heap \<times> ptr) option" where
  "reverse h head = reverse_loop h head Null"

text \<open>
  Reading up to \<open>wakeups\<close> bytes off a pipe that holds \<open>pipe\<close> bytes, where the system answers each
  read with an error or performs it; an empty pipe would block.  The result, and the bytes left.  The
  comparison stands inside the assignment: what is kept is whether the read failed, not the number
  of bytes, so that a read that succeeds is taken for the end of the file.
\<close>

definition pipe_read :: "aug_fail option \<Rightarrow> nat \<Rightarrow> nat \<Rightarrow> (aug_fail + nat) \<times> nat" where
  "pipe_read a n pipe =
     (case a of
        Some e \<Rightarrow> (Inl e, pipe)
      | None \<Rightarrow> if pipe = 0 then (Inl ExBlock, pipe) else (Inr (min n pipe), pipe - min n pipe))"

fun flush :: "nat \<Rightarrow> aug_fail option list \<Rightarrow> nat \<Rightarrow> ((aug_fail + nat) \<times> nat) option" where
  "flush wakeups [] pipe = None"
| "flush wakeups (a # as) pipe =
     (let (r, pipe) = pipe_read a wakeups pipe;
          rsize = (case r of Inl e \<Rightarrow> 1 | Inr n \<Rightarrow> 0) in
      if r = Inl ExIntr then flush wakeups as pipe
      else if r = Inl ExBlock then Some (Inr 0, pipe)
      else if rsize = 0 then Some (Inl (ExError EIO), pipe)
      else Some (Inr rsize, pipe))"

section \<open>The queue\<close>

record events =
  e_heap :: heap
  e_shared :: ptr
  e_local :: ptr
  e_wakeups :: nat
  e_pipe :: nat

definition aug_createevents :: events where
  "aug_createevents =
     \<lparr>e_heap = (\<lambda>a. None), e_shared = Wakeup, e_local = Null, e_wakeups = 0, e_pipe = 0\<rparr>"

text \<open>
  The threads.  A producer has created a link, has set its next pointer to what it loaded, or has
  published it over the marker and has to write to the pipe.  The consumer has loaded the shared
  pointer, or goes round its loop.  \<open>written\<close> and \<open>delivered\<close> record the events published and
  the events read.
\<close>

datatype producer = PIdle | PLinked nat | PLoaded nat ptr | PWake

datatype consumer = CIdle | CLoop | CLoaded ptr

record sys =
  q :: events
  producers :: "nat \<Rightarrow> producer"
  cons :: consumer
  written :: "event list"
  delivered :: "event list"

definition init :: sys where
  "init = \<lparr>q = aug_createevents, producers = (\<lambda>p. PIdle), cons = CIdle, written = [], delivered = []\<rparr>"

text \<open>\<^verbatim>\<open>aug_writeevent\<close>: a link is created at a free address, then pushed.\<close>

definition createlink :: "nat \<Rightarrow> nat \<Rightarrow> event \<Rightarrow> sys \<Rightarrow> sys option" where
  "createlink p a ev s =
     (if producers s p = PIdle \<and> e_heap (q s) a = None then
        Some (s\<lparr>q := (q s)\<lparr>e_heap := (e_heap (q s))(a \<mapsto> \<lparr>l_next = Null, l_event = ev\<rparr>)\<rparr>,
                producers := (producers s)(p := PLinked a)\<rparr>)
      else None)"

definition push_load :: "nat \<Rightarrow> sys \<Rightarrow> sys option" where
  "push_load p s =
     (case producers s p of
        PLinked a \<Rightarrow>
          (let next = e_shared (q s) in
           case pushlink (e_heap (q s)) (if next = Wakeup then Null else next) a of
             None \<Rightarrow> None
           | Some (h, _) \<Rightarrow>
               Some (s\<lparr>q := (q s)\<lparr>e_heap := h\<rparr>, producers := (producers s)(p := PLoaded a next)\<rparr>))
      | _ \<Rightarrow> None)"

definition push_cas :: "nat \<Rightarrow> sys \<Rightarrow> sys option" where
  "push_cas p s =
     (case producers s p of
        PLoaded a next \<Rightarrow>
          if e_shared (q s) = next then
            (case e_heap (q s) a of
               None \<Rightarrow> None
             | Some l \<Rightarrow>
                 Some (s\<lparr>q := (q s)\<lparr>e_shared := At a\<rparr>,
                         producers := (producers s)(p := (if next \<noteq> Wakeup then PIdle else PWake)),
                         written := written s @ [l_event l]\<rparr>))
          else Some (s\<lparr>producers := (producers s)(p := PLinked a)\<rparr>)
      | _ \<Rightarrow> None)"

definition wakeup :: "nat \<Rightarrow> sys \<Rightarrow> sys option" where
  "wakeup p s =
     (if producers s p = PWake then
        Some (s\<lparr>q := (q s)\<lparr>e_pipe := e_pipe (q s) + 1\<rparr>, producers := (producers s)(p := PIdle)\<rparr>)
      else None)"

text \<open>
  \<^verbatim>\<open>aug_readevent\<close>.  The head of the local list is delivered and destroyed; an empty local
  list is filled from the shared stack.  The test \<^verbatim>\<open>if (head)\<close> of \<^verbatim>\<open>loadcasptr_\<close> is of
  the address of the local list and never fails, so its other branch, which publishes the marker,
  is not part of any execution.
\<close>

definition deliver :: "sys \<Rightarrow> sys option" where
  "deliver s =
     (case poplink (e_heap (q s)) (e_local (q s)) of
        Some (At a, rest) \<Rightarrow>
          (case e_heap (q s) a of
             None \<Rightarrow> None
           | Some l \<Rightarrow>
               Some (s\<lparr>q := (q s)\<lparr>e_local := rest, e_heap := (e_heap (q s))(a := None)\<rparr>,
                       cons := CIdle, delivered := delivered s @ [l_event l]\<rparr>))
      | _ \<Rightarrow> None)"

definition load :: "sys \<Rightarrow> sys" where
  "load s =
     (let head = e_shared (q s) in
      if head = Wakeup then s\<lparr>q := (q s)\<lparr>e_local := Null\<rparr>, cons := CIdle\<rparr>
      else s\<lparr>q := (q s)\<lparr>e_local := head\<rparr>, cons := CLoaded head\<rparr>)"

definition read_step :: "sys \<Rightarrow> sys option" where
  "read_step s =
     (case cons s of
        CIdle \<Rightarrow> if e_local (q s) = Null then Some (load s) else deliver s
      | CLoop \<Rightarrow> Some (load s)
      | CLoaded p \<Rightarrow> None)"

text \<open>After the swap: the wakeups are flushed, and the stack is reversed to give the next event.\<close>

definition read_taken :: "sys \<Rightarrow> sys option" where
  "read_taken s =
     (if e_local (q s) = Null then Some (s\<lparr>cons := CIdle\<rparr>)
      else
        case reverse (e_heap (q s)) (e_local (q s)) of
          None \<Rightarrow> None
        | Some (h, head) \<Rightarrow> deliver (s\<lparr>q := (q s)\<lparr>e_heap := h, e_local := head\<rparr>\<rparr>))"

definition read_cas :: "aug_fail option list \<Rightarrow> sys \<Rightarrow> sys option" where
  "read_cas rs s =
     (case cons s of
        CLoaded p \<Rightarrow>
          if e_shared (q s) = p then
            (let s = s\<lparr>q := (q s)\<lparr>e_shared := Null\<rparr>\<rparr> in
             if 0 < e_wakeups (q s) then
               (case flush (e_wakeups (q s)) rs (e_pipe (q s)) of
                  None \<Rightarrow> None
                | Some (Inl e, pipe) \<Rightarrow> Some (s\<lparr>q := (q s)\<lparr>e_pipe := pipe\<rparr>, cons := CIdle\<rparr>)
                | Some (Inr n, pipe) \<Rightarrow>
                    read_taken (s\<lparr>q := (q s)\<lparr>e_pipe := pipe, e_wakeups := e_wakeups (q s) - n\<rparr>\<rparr>))
             else read_taken s)
          else Some (s\<lparr>cons := CLoop\<rparr>)
      | _ \<Rightarrow> None)"

datatype action =
    Create nat nat event | Load nat | Cas nat | Wake nat
  | Read | ReadCas "aug_fail option list"

definition act :: "action \<Rightarrow> sys \<Rightarrow> sys option" where
  "act x s =
     (case x of
        Create p a ev \<Rightarrow> createlink p a ev s
      | Load p \<Rightarrow> push_load p s
      | Cas p \<Rightarrow> push_cas p s
      | Wake p \<Rightarrow> wakeup p s
      | Read \<Rightarrow> read_step s
      | ReadCas rs \<Rightarrow> read_cas rs s)"

inductive reach :: "sys \<Rightarrow> bool" where
  start: "reach init"
| step: "reach s \<Longrightarrow> act x s = Some s' \<Longrightarrow> reach s'"

text \<open>\<^verbatim>\<open>aug_destroyevents\<close>: both lists are popped to their ends.\<close>

partial_function (option) destroy_loop :: "heap \<Rightarrow> ptr \<Rightarrow> heap option" where
  "destroy_loop h head =
     (case poplink h head of
        None \<Rightarrow> None
      | Some (l, head) \<Rightarrow> (case l of At a \<Rightarrow> destroy_loop (h(a := None)) head | _ \<Rightarrow> Some h))"

definition aug_destroyevents :: "events \<Rightarrow> heap option" where
  "aug_destroyevents e =
     (case destroy_loop (e_heap e) (e_local e) of
        None \<Rightarrow> None | Some h \<Rightarrow> destroy_loop h (e_shared e))"

section \<open>Chains of links\<close>

fun chain :: "heap \<Rightarrow> ptr \<Rightarrow> nat list \<Rightarrow> bool" where
  "chain h p [] \<longleftrightarrow> p = Null"
| "chain h p (a # as) \<longleftrightarrow> p = At a \<and> (case h a of None \<Rightarrow> False | Some l \<Rightarrow> chain h (l_next l) as)"

definition event_at :: "heap \<Rightarrow> nat \<Rightarrow> event" where
  "event_at h a = l_event (the (h a))"

lemma chain_frame: "a \<notin> set as \<Longrightarrow> chain (h(a := x)) p as = chain h p as"
  by (induction as arbitrary: p) (auto split: option.splits)

lemma events_frame: "a \<notin> set as \<Longrightarrow> map (event_at (h(a := x))) as = map (event_at h) as"
  by (induction as) (auto simp: event_at_def)

lemma chain_dom: "chain h p as \<Longrightarrow> a \<in> set as \<Longrightarrow> h a \<noteq> None"
  by (induction as arbitrary: p) (auto split: option.splits)

lemma chain_not_wakeup: "chain h p as \<Longrightarrow> p \<noteq> Wakeup"
  by (cases as) auto

lemma poplink_chain: "chain h p (a # as) \<Longrightarrow> \<exists>l. h a = Some l \<and> poplink h p = Some (At a, l_next l) \<and> chain h (l_next l) as"
  by (auto simp: poplink_def deref_def split: option.splits)

text \<open>The loop that reverses a chain ends, and keeps every event and all other links.\<close>

lemma reverse_loop_chain:
  "chain h p as \<Longrightarrow> chain h r bs \<Longrightarrow> distinct (as @ bs) \<Longrightarrow>
   \<exists>h' p'. reverse_loop h p r = Some (h', p') \<and> chain h' p' (rev as @ bs)
     \<and> (\<forall>x. x \<notin> set as \<longrightarrow> h' x = h x) \<and> (\<forall>x. event_at h' x = event_at h x)
     \<and> (\<forall>x. h' x = None \<longleftrightarrow> h x = None)"
proof (induction as arbitrary: h p r bs)
  case Nil
  then show ?case
    by (subst reverse_loop.simps) (simp add: poplink_def)
next
  case (Cons a as)
  obtain l where l: "h a = Some l" "poplink h p = Some (At a, l_next l)" "chain h (l_next l) as"
    using poplink_chain [OF Cons.prems(1)] by blast
  let ?h = "h(a \<mapsto> l\<lparr>l_next := r\<rparr>)"
  have "chain ?h (l_next l) as" "chain ?h (At a) (a # bs)"
    using l(3) Cons.prems(2,3) by (auto simp: chain_frame)
  moreover have "distinct (as @ a # bs)"
    using Cons.prems(3) by auto
  ultimately obtain h' p' where
    h': "reverse_loop ?h (l_next l) (At a) = Some (h', p')" "chain h' p' (rev as @ a # bs)"
      "\<forall>x. x \<notin> set as \<longrightarrow> h' x = ?h x" "\<forall>x. event_at h' x = event_at ?h x" "\<forall>x. h' x = None \<longleftrightarrow> ?h x = None"
    using Cons.IH [of ?h "l_next l" "At a" "a # bs"] by blast
  have "reverse_loop h p r = Some (h', p')"
    using h'(1) l by (subst reverse_loop.simps) (simp add: pushlink_def)
  moreover have "event_at ?h x = event_at h x" for x
    using l(1) by (simp add: event_at_def)
  ultimately show ?case
    using h' l(1) by auto
qed

section \<open>The invariant\<close>

text \<open>
  The stack of shared links \<open>as\<close> (newest first), the consumer's own links \<open>bs\<close> (oldest first)
  and the links producers have not published yet are apart and are all the links there are.  What
  was written is what was delivered, then \<open>bs\<close>, then \<open>as\<close> in reverse.  Between its load and its
  swap the consumer's own list is a copy of the pointer it loaded.
\<close>

definition unpublished :: "producer \<Rightarrow> nat option" where
  "unpublished p = (case p of PLinked a \<Rightarrow> Some a | PLoaded a n \<Rightarrow> Some a | _ \<Rightarrow> None)"

definition shared_chain :: "heap \<Rightarrow> ptr \<Rightarrow> nat list \<Rightarrow> bool" where
  "shared_chain h p as \<longleftrightarrow> (if p = Wakeup then as = [] else chain h p as)"

definition own_chain :: "sys \<Rightarrow> nat list \<Rightarrow> bool" where
  "own_chain s bs \<longleftrightarrow>
     (case cons s of
        CIdle \<Rightarrow> chain (e_heap (q s)) (e_local (q s)) bs
      | CLoop \<Rightarrow> bs = []
      | CLoaded p \<Rightarrow> bs = [] \<and> e_local (q s) = p \<and> p \<noteq> Wakeup)"

definition producer_ok :: "heap \<Rightarrow> nat list \<Rightarrow> nat list \<Rightarrow> producer \<Rightarrow> bool" where
  "producer_ok h as bs p \<longleftrightarrow>
     (case unpublished p of None \<Rightarrow> True | Some a \<Rightarrow> h a \<noteq> None \<and> a \<notin> set as \<union> set bs)
     \<and> (case p of PLoaded a n \<Rightarrow> l_next (the (h a)) = (if n = Wakeup then Null else n) | _ \<Rightarrow> True)"

definition apart :: "(nat \<Rightarrow> producer) \<Rightarrow> bool" where
  "apart ps \<longleftrightarrow> (\<forall>x y a. unpublished (ps x) = Some a \<and> unpublished (ps y) = Some a \<longrightarrow> x = y)"

definition covered :: "heap \<Rightarrow> nat set \<Rightarrow> (nat \<Rightarrow> producer) \<Rightarrow> bool" where
  "covered h A ps \<longleftrightarrow> (\<forall>a. h a \<noteq> None \<longrightarrow> a \<in> A \<or> (\<exists>p. unpublished (ps p) = Some a))"

definition inv_at :: "sys \<Rightarrow> nat list \<Rightarrow> nat list \<Rightarrow> bool" where
  "inv_at s as bs \<longleftrightarrow>
     shared_chain (e_heap (q s)) (e_shared (q s)) as \<and> own_chain s bs \<and> distinct (as @ bs)
     \<and> apart (producers s) \<and> (\<forall>p. producer_ok (e_heap (q s)) as bs (producers s p))
     \<and> covered (e_heap (q s)) (set as \<union> set bs) (producers s)
     \<and> written s = delivered s @ map (event_at (e_heap (q s))) (bs @ rev as)
     \<and> e_wakeups (q s) = 0"

definition inv :: "sys \<Rightarrow> bool" where
  "inv s \<longleftrightarrow> (\<exists>as bs. inv_at s as bs)"

lemma inv_atD:
  assumes "inv_at s as bs"
  shows "shared_chain (e_heap (q s)) (e_shared (q s)) as" "own_chain s bs" "distinct (as @ bs)"
    "apart (producers s)" "producer_ok (e_heap (q s)) as bs (producers s p)"
    "covered (e_heap (q s)) (set as \<union> set bs) (producers s)"
    "written s = delivered s @ map (event_at (e_heap (q s))) (bs @ rev as)" "e_wakeups (q s) = 0"
  using assms by (auto simp: inv_at_def)

lemma shared_frame: "a \<notin> set as \<Longrightarrow> shared_chain (h(a := x)) p as = shared_chain h p as"
  by (simp add: shared_chain_def chain_frame)

lemma shared_dom: "shared_chain h p as \<Longrightarrow> a \<in> set as \<Longrightarrow> h a \<noteq> None"
  by (auto simp: shared_chain_def split: if_splits dest: chain_dom)

lemma own_dom: "own_chain s bs \<Longrightarrow> a \<in> set bs \<Longrightarrow> e_heap (q s) a \<noteq> None"
  by (auto simp: own_chain_def split: consumer.splits dest: chain_dom)

lemma covered_step:
  assumes "covered h A ps" "A \<subseteq> B" "\<And>c. h' c \<noteq> None \<Longrightarrow> h c \<noteq> None \<or> unpublished x = Some c"
    "\<And>b. unpublished (ps p) = Some b \<Longrightarrow> unpublished x = Some b \<or> b \<in> B"
  shows "covered h' B (ps(p := x))"
  unfolding covered_def
proof (intro allI impI)
  fix a
  assume "h' a \<noteq> None"
  then consider "unpublished x = Some a" | "a \<in> A" | y where "unpublished (ps y) = Some a"
    using assms(1,3) unfolding covered_def by blast
  then show "a \<in> B \<or> (\<exists>y. unpublished ((ps(p := x)) y) = Some a)"
  proof cases
    case (3 y)
    then show ?thesis
      using assms(4) [of a] by (cases "y = p") (auto intro: exI [of _ p] exI [of _ y])
  qed (use assms(2) in \<open>auto intro: exI [of _ p]\<close>)
qed

lemma inv_init: "inv init"
  by (auto simp: inv_def inv_at_def covered_def init_def aug_createevents_def shared_chain_def own_chain_def
      apart_def unpublished_def producer_ok_def intro!: exI [of _ "[]"])

text \<open>The links a producer owns are not those of the lists; writing to one leaves the lists alone.\<close>

lemma own_frame:
  "a \<notin> set bs \<Longrightarrow> own_chain s bs \<Longrightarrow>
   own_chain (s\<lparr>q := (q s)\<lparr>e_heap := (e_heap (q s))(a := x)\<rparr>, producers := ps\<rparr>) bs"
  by (auto simp: own_chain_def chain_frame split: consumer.splits)

lemma createlink_inv:
  assumes "inv_at s as bs" "createlink p a ev s = Some s'"
  shows "inv_at s' as bs"
proof -
  note i = inv_atD [OF assms(1)]
  have free: "producers s p = PIdle" "e_heap (q s) a = None"
    and s': "s' = s\<lparr>q := (q s)\<lparr>e_heap := (e_heap (q s))(a \<mapsto> \<lparr>l_next = Null, l_event = ev\<rparr>)\<rparr>,
                    producers := (producers s)(p := PLinked a)\<rparr>"
    using assms(2) by (auto simp: createlink_def split: if_splits)
  have a: "a \<notin> set as" "a \<notin> set bs"
    using shared_dom [OF i(1), of a] own_dom [OF i(2), of a] free(2) by blast+
  have b: "unpublished (producers s x) \<noteq> Some a" for x
    using i(5) [of x] free(2) by (auto simp: producer_ok_def split: option.splits)
  have "apart ((producers s)(p := PLinked a))"
    using i(4) b by (auto simp: apart_def unpublished_def)
  moreover have "producer_ok ((e_heap (q s))(a \<mapsto> \<lparr>l_next = Null, l_event = ev\<rparr>)) as bs
      (((producers s)(p := PLinked a)) x)" for x
    using i(5) [of x] b [of x] a by (auto simp: producer_ok_def unpublished_def split: option.splits producer.splits)
  moreover have "map (event_at ((e_heap (q s))(a \<mapsto> \<lparr>l_next = Null, l_event = ev\<rparr>))) (bs @ rev as)
      = map (event_at (e_heap (q s))) (bs @ rev as)"
    using a by (intro events_frame) simp
  moreover have "covered ((e_heap (q s))(a \<mapsto> \<lparr>l_next = Null, l_event = ev\<rparr>)) (set as \<union> set bs)
      ((producers s)(p := PLinked a))"
    using i(6) by (rule covered_step) (use free(1) in \<open>auto simp: unpublished_def split: if_splits\<close>)
  ultimately show ?thesis
    using i(1,3,7,8) a own_frame [OF a(2) i(2)] by (simp add: inv_at_def s' shared_frame)
qed

lemma apart_same:
  "apart ps \<Longrightarrow> unpublished (ps p) = unpublished x \<Longrightarrow> apart (ps(p := x))"
  by (auto simp: apart_def split: if_splits)

lemma apart_none: "apart ps \<Longrightarrow> unpublished x = None \<Longrightarrow> apart (ps(p := x))"
  by (auto simp: apart_def)

lemma producer_ok_frame:
  assumes "producer_ok h as bs x" "unpublished x \<noteq> Some a"
  shows "producer_ok (h(a := l)) as bs x"
  using assms by (auto simp: producer_ok_def unpublished_def split: option.splits producer.splits)

lemma push_load_inv:
  assumes "inv_at s as bs" "push_load p s = Some s'"
  shows "inv_at s' as bs"
proof -
  note i = inv_atD [OF assms(1)]
  let ?h = "e_heap (q s)" and ?n = "e_shared (q s)"
  obtain a l where a: "producers s p = PLinked a" "?h a = Some l"
      and s': "s' = s\<lparr>q := (q s)\<lparr>e_heap := ?h(a \<mapsto> l\<lparr>l_next := if ?n = Wakeup then Null else ?n\<rparr>)\<rparr>,
                      producers := (producers s)(p := PLoaded a ?n)\<rparr>"
    using assms(2) by (auto simp: push_load_def pushlink_def Let_def split: producer.splits option.splits)
  let ?g = "?h(a \<mapsto> l\<lparr>l_next := if ?n = Wakeup then Null else ?n\<rparr>)"
  have out: "a \<notin> set as" "a \<notin> set bs"
    using i(5) [of p] a by (auto simp: producer_ok_def unpublished_def)
  have other: "unpublished (producers s x) \<noteq> Some a" if "x \<noteq> p" for x
    using i(4) a(1) that by (auto simp: apart_def unpublished_def)
  have "apart ((producers s)(p := PLoaded a ?n))"
    using i(4) a(1) by (intro apart_same) (auto simp: unpublished_def)
  moreover have "producer_ok ?g as bs (((producers s)(p := PLoaded a ?n)) x)" for x
    using i(5) [of x] other [of x] out producer_ok_frame [of ?h as bs "producers s x" a]
    by (cases "x = p") (auto simp: producer_ok_def unpublished_def)
  moreover have "map (event_at ?g) (bs @ rev as) = map (event_at ?h) (bs @ rev as)"
    using out by (intro events_frame) simp
  moreover have "covered ?g (set as \<union> set bs) ((producers s)(p := PLoaded a ?n))"
    using i(6) by (rule covered_step) (use a in \<open>auto simp: unpublished_def split: if_splits\<close>)
  ultimately show ?thesis
    using i(1,3,7,8) out own_frame [OF out(2) i(2)]
    by (simp add: inv_at_def s' shared_frame)
qed

lemma push_cas_inv:
  assumes "inv_at s as bs" "push_cas p s = Some s'"
  shows "inv s'"
proof -
  note i = inv_atD [OF assms(1)]
  let ?h = "e_heap (q s)"
  obtain a n where a: "producers s p = PLoaded a n"
    using assms(2) by (auto simp: push_cas_def split: producer.splits)
  have out: "a \<notin> set as" "a \<notin> set bs" "?h a \<noteq> None"
      and nx: "l_next (the (?h a)) = (if n = Wakeup then Null else n)"
    using i(5) [of p] a by (auto simp: producer_ok_def unpublished_def)
  have others: "unpublished (producers s x) \<noteq> Some a" if "x \<noteq> p" for x
    using i(4) a that by (auto simp: apart_def unpublished_def)
  show ?thesis
  proof (cases "e_shared (q s) = n")
    case False
    then have s': "s' = s\<lparr>producers := (producers s)(p := PLinked a)\<rparr>"
      using assms(2) a by (simp add: push_cas_def)
    have "apart ((producers s)(p := PLinked a))"
      using i(4) a by (intro apart_same) (auto simp: unpublished_def)
    moreover have "producer_ok ?h as bs (((producers s)(p := PLinked a)) x)" for x
      using i(5) [of x] out by (auto simp: producer_ok_def unpublished_def)
    moreover have "covered ?h (set as \<union> set bs) ((producers s)(p := PLinked a))"
      using i(6) by (rule covered_step) (use a in \<open>auto simp: unpublished_def\<close>)
    ultimately have "inv_at s' as bs"
      using i(1,2,3,7,8) by (simp add: inv_at_def s' own_chain_def split: consumer.splits)
    then show ?thesis
      by (auto simp: inv_def)
  next
    case True
    let ?x = "if n \<noteq> Wakeup then PIdle else PWake"
    have s': "s' = s\<lparr>q := (q s)\<lparr>e_shared := At a\<rparr>, producers := (producers s)(p := ?x),
                    written := written s @ [event_at ?h a]\<rparr>"
      using assms(2) a True out(3) by (auto simp: push_cas_def event_at_def)
    have none: "unpublished ?x = None"
      by (simp add: unpublished_def)
    have "shared_chain ?h (At a) (a # as)"
      using i(1) nx out(3) True by (auto simp: shared_chain_def split: if_splits)
    moreover have "apart ((producers s)(p := ?x))"
      using i(4) none by (rule apart_none)
    moreover have "producer_ok ?h (a # as) bs (((producers s)(p := ?x)) x)" for x
      using i(5) [of x] others [of x] by (auto simp: producer_ok_def unpublished_def split: option.splits)
    moreover have "covered ?h (set (a # as) \<union> set bs) ((producers s)(p := ?x))"
      using i(6) by (rule covered_step) (use a in \<open>auto simp: unpublished_def\<close>)
    ultimately have "inv_at s' (a # as) bs"
      using i(2,3,7,8) out by (simp add: inv_at_def s' own_chain_def split: consumer.splits)
    then show ?thesis
      unfolding inv_def by blast
  qed
qed

lemma wakeup_inv:
  assumes "inv_at s as bs" "wakeup p s = Some s'"
  shows "inv_at s' as bs"
proof -
  note i = inv_atD [OF assms(1)]
  have p: "producers s p = PWake"
    and s': "s' = s\<lparr>q := (q s)\<lparr>e_pipe := e_pipe (q s) + 1\<rparr>, producers := (producers s)(p := PIdle)\<rparr>"
    using assms(2) by (auto simp: wakeup_def split: if_splits)
  have same: "unpublished (((producers s)(p := PIdle)) x) = unpublished (producers s x)" for x
    using p by (simp add: unpublished_def)
  have "producer_ok (e_heap (q s)) as bs (((producers s)(p := PIdle)) x)" for x
    using i(5) [of x] by (simp add: producer_ok_def unpublished_def)
  then show ?thesis
    using i same by (simp add: inv_at_def s' own_chain_def apart_def covered_def split: consumer.splits)
qed

lemma producer_ok_mono:
  "producer_ok h as bs x \<Longrightarrow> set bs' \<subseteq> set bs \<Longrightarrow> producer_ok h as bs' x"
  by (auto simp: producer_ok_def split: option.splits)

text \<open>Delivering the head of the consumer's own links, whatever the consumer was doing.\<close>

lemma deliver_inv:
  assumes "inv_at (s\<lparr>cons := CIdle\<rparr>) as (b # bs)"
  shows "\<exists>s'. deliver s = Some s' \<and> inv_at s' as bs"
proof -
  note i = inv_atD [OF assms, simplified]
  let ?h = "e_heap (q s)"
  have c: "chain ?h (e_local (q s)) (b # bs)"
    using i(2) by (simp add: own_chain_def)
  obtain l where l: "?h b = Some l" "poplink ?h (e_local (q s)) = Some (At b, l_next l)" "chain ?h (l_next l) bs"
    using poplink_chain [OF c] by blast
  let ?g = "?h(b := None)"
  let ?s = "s\<lparr>q := (q s)\<lparr>e_local := l_next l, e_heap := ?g\<rparr>, cons := CIdle,
              delivered := delivered s @ [l_event l]\<rparr>"
  have out: "b \<notin> set as" "b \<notin> set bs"
    using i(3) by auto
  have other: "unpublished (producers s x) \<noteq> Some b" for x
    using i(5) [of x] by (auto simp: producer_ok_def)
  have "producer_ok ?g as bs (producers s x)" for x
    using producer_ok_frame [OF i(5) [of x] other [of x]] by (rule producer_ok_mono) auto
  moreover have "covered ?g (set as \<union> set bs) (producers s)"
    using i(6) other by (auto simp: covered_def)
  moreover have "map (event_at ?g) (bs @ rev as) = map (event_at ?h) (bs @ rev as)"
    using out by (intro events_frame) simp
  ultimately have "inv_at ?s as bs"
    using i(1,3,4,7,8) l out
    by (simp add: inv_at_def own_chain_def shared_frame chain_frame event_at_def)
  then show ?thesis
    using l by (simp add: deliver_def)
qed

lemma load_inv:
  assumes "inv_at s as []" "\<forall>p. cons s \<noteq> CLoaded p"
  shows "inv_at (load s) as []"
  using assms by (auto simp: inv_at_def load_def own_chain_def Let_def)

lemma read_step_inv:
  assumes "inv_at s as bs" "\<forall>p. cons s \<noteq> CLoaded p"
  shows "\<exists>s'. read_step s = Some s' \<and> inv s'"
proof (cases "cons s")
  case CIdle
  then have c: "chain (e_heap (q s)) (e_local (q s)) bs"
    using inv_atD(2) [OF assms(1)] by (simp add: own_chain_def)
  show ?thesis
  proof (cases bs)
    case Nil
    then show ?thesis
      using c assms load_inv [of s as] CIdle by (auto simp: read_step_def inv_def)
  next
    case (Cons b bs')
    have "s\<lparr>cons := CIdle\<rparr> = s"
      using CIdle by simp
    then obtain s' where "deliver s = Some s'" "inv_at s' as bs'"
      using deliver_inv [of s as b bs'] assms(1) Cons by auto
    then show ?thesis
      using c CIdle Cons by (auto simp: read_step_def inv_def)
  qed
next
  case CLoop
  then have "bs = []"
    using inv_atD(2) [OF assms(1)] by (simp add: own_chain_def)
  then show ?thesis
    using assms load_inv [of s as] CLoop by (auto simp: read_step_def inv_def)
qed (use assms(2) in simp)

lemma read_taken_inv:
  assumes "inv_at s as bs" "cons s = CLoaded p" "e_shared (q s) = p"
  shows "\<exists>s'. read_taken (s\<lparr>q := (q s)\<lparr>e_shared := Null\<rparr>\<rparr>) = Some s' \<and> inv s'"
proof -
  note i = inv_atD [OF assms(1)]
  let ?h = "e_heap (q s)"
  have p: "bs = []" "e_local (q s) = p" "p \<noteq> Wakeup" "chain ?h p as"
    using i(1,2) assms(2,3) by (auto simp: own_chain_def shared_chain_def)
  show ?thesis
  proof (cases as)
    case Nil
    have "inv_at (s\<lparr>q := (q s)\<lparr>e_shared := Null\<rparr>, cons := CIdle\<rparr>) [] []"
      using i p Nil by (simp add: inv_at_def own_chain_def shared_chain_def)
    then show ?thesis
      using p Nil by (auto simp: read_taken_def inv_def)
  next
    case (Cons a as')
    obtain h' p' where r: "reverse_loop ?h p Null = Some (h', p')" "chain h' p' (rev as)"
        "\<forall>x. x \<notin> set as \<longrightarrow> h' x = ?h x" "\<forall>x. event_at h' x = event_at ?h x" "\<forall>x. h' x = None \<longleftrightarrow> ?h x = None"
      using reverse_loop_chain [OF p(4), of Null "[]"] i(3) by auto
    let ?s = "s\<lparr>q := (q s)\<lparr>e_shared := Null, e_heap := h', e_local := p'\<rparr>\<rparr>"
    have "producer_ok h' [] (rev as) (producers s x)" for x
      using i(5) [of x] r(3) p(1) by (auto simp: producer_ok_def unpublished_def split: option.splits producer.splits)
    moreover have "covered h' (set [] \<union> set (rev as)) (producers s)"
      using i(6) r(5) p(1) by (auto simp: covered_def)
    ultimately have "inv_at (?s\<lparr>cons := CIdle\<rparr>) [] (rev as)"
      using i p(1) r(2,4) by (simp add: inv_at_def own_chain_def shared_chain_def)
    moreover obtain b bs' where "rev as = b # bs'"
      using Cons by (cases "rev as") auto
    ultimately obtain s' where "deliver ?s = Some s'" "inv_at s' [] bs'"
      using deliver_inv [of ?s "[]" b bs'] by auto
    then show ?thesis
      using p Cons r(1) by (auto simp: read_taken_def reverse_def inv_def)
  qed
qed

lemma read_cas_inv:
  assumes "inv_at s as bs" "cons s = CLoaded p"
  shows "\<exists>s'. read_cas rs s = Some s' \<and> inv s'"
proof (cases "e_shared (q s) = p")
  case True
  then show ?thesis
    using read_taken_inv [OF assms True] assms(2) inv_atD(8) [OF assms(1)]
    by (simp add: read_cas_def Let_def)
next
  case False
  have "inv_at (s\<lparr>cons := CLoop\<rparr>) as bs"
    using assms by (auto simp: inv_at_def own_chain_def)
  then show ?thesis
    using False assms(2) by (auto simp: read_cas_def inv_def)
qed

lemma act_inv:
  assumes "inv s" "act x s = Some s'"
  shows "inv s'"
proof -
  obtain as bs where i: "inv_at s as bs"
    using assms(1) by (auto simp: inv_def)
  show ?thesis
  proof (cases x)
    case Read
    then have "\<forall>p. cons s \<noteq> CLoaded p"
      using assms(2) by (auto simp: act_def read_step_def)
    with read_step_inv [OF i this] Read assms(2) show ?thesis
      by (auto simp: act_def)
  next
    case (ReadCas rs)
    then obtain p where "cons s = CLoaded p"
      using assms(2) by (auto simp: act_def read_cas_def split: consumer.splits)
    with read_cas_inv [OF i this, of rs] ReadCas assms(2) show ?thesis
      by (auto simp: act_def)
  next
    case (Create p a ev)
    then show ?thesis
      using createlink_inv [OF i, of p a ev s'] assms(2) unfolding act_def inv_def by auto
  next
    case (Load p)
    then show ?thesis
      using push_load_inv [OF i, of p s'] assms(2) unfolding act_def inv_def by auto
  next
    case (Cas p)
    then show ?thesis
      using push_cas_inv [OF i, of p s'] assms(2) unfolding act_def by simp
  next
    case (Wake p)
    then show ?thesis
      using wakeup_inv [OF i, of p s'] assms(2) unfolding act_def inv_def by auto
  qed
qed

lemma reach_inv: "reach s \<Longrightarrow> inv s"
  by (induction rule: reach.induct) (auto intro: inv_init act_inv)

section \<open>Delivery\<close>

text \<open>
  C6: Every event is delivered once, in the order the events were published.  Whatever the
  interleaving of producers and consumer and whatever addresses are used again, what was delivered
  is at all times the beginning of what was written; the rest waits in the consumer's list and the
  shared stack, so nothing is left when both are empty.
\<close>
theorem events_fifo:
  assumes "reach s"
  shows "\<exists>waiting. written s = delivered s @ waiting
    \<and> (cons s = CIdle \<and> e_local (q s) = Null \<and> e_shared (q s) \<in> {Null, Wakeup} \<longrightarrow> waiting = [])"
proof -
  obtain as bs where i: "inv_at s as bs"
    using reach_inv [OF assms] by (auto simp: inv_def)
  note inv_atD [OF i]
  moreover have "as = []" if "e_shared (q s) \<in> {Null, Wakeup}"
    using \<open>shared_chain _ _ as\<close> that by (cases as) (auto simp: shared_chain_def split: if_splits)
  moreover have "bs = []" if "cons s = CIdle" "e_local (q s) = Null"
    using \<open>own_chain s bs\<close> that by (cases bs) (auto simp: own_chain_def)
  ultimately show ?thesis
    by (intro exI [of _ "map (event_at (e_heap (q s))) (bs @ rev as)"]) auto
qed

text \<open>
  C26: No thread touches memory that was given back.  In every reachable state each thread's next
  atomic step is defined: a producer finds its link, and the consumer finds every link of the stack
  it takes, its loop over them ending.
\<close>
theorem events_memory_safe:
  assumes "reach s"
  shows "(cons s \<in> {CIdle, CLoop} \<longrightarrow> act Read s \<noteq> None)
    \<and> (\<forall>p. cons s = CLoaded p \<longrightarrow> act (ReadCas rs) s \<noteq> None)
    \<and> (\<forall>x a. producers s x = PLinked a \<longrightarrow> act (Load x) s \<noteq> None)
    \<and> (\<forall>x a n. producers s x = PLoaded a n \<longrightarrow> act (Cas x) s \<noteq> None)"
proof -
  obtain as bs where i: "inv_at s as bs"
    using reach_inv [OF assms] by (auto simp: inv_def)
  have "act Read s \<noteq> None" if "cons s \<in> {CIdle, CLoop}"
    using read_step_inv [OF i] that by (auto simp: act_def)
  moreover have "act (ReadCas rs) s \<noteq> None" if "cons s = CLoaded p" for p
    using read_cas_inv [OF i that, of rs] by (auto simp: act_def)
  moreover have "act (Load x) s \<noteq> None" if "producers s x = PLinked a" for x a
    using inv_atD(5) [OF i, of x] that
    by (auto simp: act_def push_load_def pushlink_def producer_ok_def unpublished_def Let_def split: option.splits)
  moreover have "act (Cas x) s \<noteq> None" if "producers s x = PLoaded a n" for x a n
    using inv_atD(5) [OF i, of x] that
    by (auto simp: act_def push_cas_def producer_ok_def unpublished_def split: option.splits)
  ultimately show ?thesis
    by blast
qed

text \<open>Two producers race, the consumer reads both events.\<close>

fun acts :: "action list \<Rightarrow> sys \<Rightarrow> sys option" where
  "acts [] s = Some s"
| "acts (x # xs) s = do { s \<leftarrow> act x s; acts xs s }"

lemma acts_reach: "reach s \<Longrightarrow> acts xs s = Some s' \<Longrightarrow> reach s'"
  by (induction xs arbitrary: s) (auto simp: bind_Some_iff intro: reach.step)

definition race :: "action list" where
  "race = [Create 1 10 (1, 7), Create 2 20 (2, 8), Load 1, Load 2, Cas 2, Cas 1, Wake 2, Load 1, Cas 1,
           Read, ReadCas [], Read]"

lemmas act_defs =
  act_def createlink_def push_load_def push_cas_def wakeup_def read_step_def read_cas_def read_taken_def
  load_def deliver_def poplink_def pushlink_def deref_def reverse_def

lemma race_runs: "\<exists>s. acts race init = Some s \<and> delivered s = [(2, 8), (1, 7)] \<and> cons s = CIdle"
  by (simp add: race_def act_defs init_def aug_createevents_def Let_def reverse_loop.simps)

lemma events_fifo_witness:
  "\<exists>s waiting. reach s \<and> delivered s = [(2, 8), (1, 7)] \<and> written s = delivered s @ waiting"
proof -
  obtain s where s: "acts race init = Some s" "delivered s = [(2, 8), (1, 7)]"
    using race_runs by blast
  then have "reach s"
    using acts_reach [OF reach.start] by blast
  with events_fifo [OF this] s(2) show ?thesis
    by blast
qed

lemma events_memory_safe_witness: "\<exists>s. acts race init = Some s \<and> act Read s \<noteq> None"
proof -
  obtain s where s: "acts race init = Some s" "cons s = CIdle"
    using race_runs by blast
  then have "reach s"
    using acts_reach [OF reach.start] by blast
  with events_memory_safe [OF this] s show ?thesis
    by auto
qed

section \<open>Wakeups\<close>

lemma deliver_frame:
  "deliver s = Some s' \<Longrightarrow> e_shared (q s') = e_shared (q s) \<and> e_pipe (q s') = e_pipe (q s)
    \<and> written s' = written s \<and> producers s' = producers s"
  by (auto simp: deliver_def split: option.splits prod.splits ptr.splits)

lemma read_step_frame:
  "read_step s = Some s' \<Longrightarrow> e_shared (q s') = e_shared (q s) \<and> e_pipe (q s') = e_pipe (q s)
    \<and> written s' = written s \<and> producers s' = producers s"
  by (auto simp: read_step_def load_def Let_def dest: deliver_frame split: consumer.splits if_splits)

lemma read_taken_frame:
  "read_taken s = Some s' \<Longrightarrow> e_shared (q s') = e_shared (q s) \<and> e_pipe (q s') = e_pipe (q s)
    \<and> written s' = written s \<and> producers s' = producers s"
  by (auto simp: read_taken_def dest!: deliver_frame split: if_splits option.splits prod.splits)

lemma read_cas_frame:
  assumes "inv s" "read_cas rs s = Some s'"
  shows "e_pipe (q s') = e_pipe (q s) \<and> written s' = written s \<and> producers s' = producers s
    \<and> (e_shared (q s') = Wakeup \<longleftrightarrow> e_shared (q s) = Wakeup)"
proof -
  obtain as bs p where i: "inv_at s as bs" "cons s = CLoaded p"
    using assms by (auto simp: inv_def read_cas_def split: consumer.splits)
  then have "p \<noteq> Wakeup" "e_wakeups (q s) = 0"
    using inv_atD(2,8) [OF i(1)] by (auto simp: own_chain_def)
  with assms(2) i(2) show ?thesis
    by (auto simp: read_cas_def Let_def dest!: read_taken_frame split: if_splits)
qed

text \<open>The marker is there until the first event is written, and one wakeup is due for its removal.\<close>

definition wake_ok :: "bool \<Rightarrow> bool \<Rightarrow> nat \<Rightarrow> (nat \<Rightarrow> bool) \<Rightarrow> bool" where
  "wake_ok marker none pipe wakes \<longleftrightarrow>
     (marker \<longleftrightarrow> none)
     \<and> (if none then pipe = 0 \<and> (\<forall>p. \<not> wakes p)
        else pipe = 1 \<and> (\<forall>p. \<not> wakes p) \<or> pipe = 0 \<and> (\<exists>p. wakes = (\<lambda>x. x = p)))"

definition wake_inv :: "sys \<Rightarrow> bool" where
  "wake_inv s \<longleftrightarrow>
     wake_ok (e_shared (q s) = Wakeup) (written s = []) (e_pipe (q s)) (\<lambda>p. producers s p = PWake)"

lemma wake_inv_cong:
  "wake_inv s \<Longrightarrow> e_pipe (q s') = e_pipe (q s) \<Longrightarrow> written s' = written s \<Longrightarrow>
   (e_shared (q s') = Wakeup \<longleftrightarrow> e_shared (q s) = Wakeup) \<Longrightarrow>
   (\<And>p. producers s' p = PWake \<longleftrightarrow> producers s p = PWake) \<Longrightarrow> wake_inv s'"
  by (simp add: wake_inv_def)

lemma push_cas_wake:
  assumes "wake_inv s" "push_cas p s = Some s'"
  shows "wake_inv s' \<and> e_pipe (q s') = e_pipe (q s)"
proof -
  obtain a n where a: "producers s p = PLoaded a n"
    using assms(2) by (auto simp: push_cas_def split: producer.splits)
  show ?thesis
  proof (cases "e_shared (q s) = n")
    case False
    then have "s' = s\<lparr>producers := (producers s)(p := PLinked a)\<rparr>"
      using assms(2) a by (simp add: push_cas_def)
    then show ?thesis
      using a by (intro conjI wake_inv_cong [OF assms(1)]) (auto split: if_splits)
  next
    case True
    then obtain l where "e_heap (q s) a = Some l"
      using assms(2) a by (auto simp: push_cas_def split: option.splits)
    then have s': "s' = s\<lparr>q := (q s)\<lparr>e_shared := At a\<rparr>,
        producers := (producers s)(p := (if n \<noteq> Wakeup then PIdle else PWake)), written := written s @ [l_event l]\<rparr>"
      using assms(2) a True by (simp add: push_cas_def)
    show ?thesis
    proof (cases "n = Wakeup")
      case True': True
      then have "written s = []" "e_pipe (q s) = 0" "\<forall>p. producers s p \<noteq> PWake"
        using True assms(1) by (auto simp: wake_inv_def wake_ok_def)
      then show ?thesis
        using True' by (auto simp: s' wake_inv_def wake_ok_def fun_eq_iff)
    next
      case False
      then have "written s \<noteq> []"
        using True assms(1) by (auto simp: wake_inv_def wake_ok_def)
      moreover have "(((producers s)(p := PIdle)) x = PWake) = (producers s x = PWake)" for x
        using a by simp
      ultimately show ?thesis
        using False True assms(1) by (simp add: s' wake_inv_def)
    qed
  qed
qed

lemma wakeup_wake:
  assumes "wake_inv s" "wakeup p s = Some s'"
  shows "wake_inv s' \<and> e_pipe (q s) \<le> e_pipe (q s')"
proof -
  have p: "producers s p = PWake"
    and s': "s' = s\<lparr>q := (q s)\<lparr>e_pipe := e_pipe (q s) + 1\<rparr>, producers := (producers s)(p := PIdle)\<rparr>"
    using assms(2) by (auto simp: wakeup_def split: if_splits)
  from assms(1) p have "written s \<noteq> []" "e_pipe (q s) = 0" "(\<lambda>x. producers s x = PWake) = (\<lambda>x. x = p)"
    by (auto simp: wake_inv_def wake_ok_def fun_eq_iff split: if_splits)
  then show ?thesis
    using assms(1) by (auto simp: s' wake_inv_def wake_ok_def fun_eq_iff)
qed

lemma act_wake:
  assumes "inv s" "wake_inv s" "act x s = Some s'"
  shows "wake_inv s' \<and> e_pipe (q s) \<le> e_pipe (q s')"
proof (cases x)
  case (Create p a ev)
  then have "producers s p = PIdle" "e_shared (q s') = e_shared (q s)" "e_pipe (q s') = e_pipe (q s)"
      "written s' = written s" "producers s' = (producers s)(p := PLinked a)"
    using assms(3) by (auto simp: act_def createlink_def split: if_splits)
  then show ?thesis
    by (intro conjI wake_inv_cong [OF assms(2)]) (auto split: if_splits)
next
  case (Load p)
  then obtain a n where "producers s p = PLinked a" "e_shared (q s') = e_shared (q s)"
      "e_pipe (q s') = e_pipe (q s)" "written s' = written s" "producers s' = (producers s)(p := PLoaded a n)"
    using assms(3) by (auto simp: act_def push_load_def Let_def split: producer.splits option.splits prod.splits)
  then show ?thesis
    by (intro conjI wake_inv_cong [OF assms(2)]) (auto split: if_splits)
next
  case (Cas p)
  then show ?thesis
    using push_cas_wake [OF assms(2)] assms(3) by (simp add: act_def)
next
  case (Wake p)
  then show ?thesis
    using wakeup_wake [OF assms(2)] assms(3) by (simp add: act_def)
next
  case Read
  then show ?thesis
    using read_step_frame [of s s'] assms(3) by (auto simp: act_def intro: wake_inv_cong [OF assms(2)])
next
  case (ReadCas rs)
  then show ?thesis
    using read_cas_frame [OF assms(1), of rs s'] assms(3)
    by (auto simp: act_def intro: wake_inv_cong [OF assms(2)])
qed

lemma reach_wake: "reach s \<Longrightarrow> wake_inv s"
proof (induction rule: reach.induct)
  case start
  show ?case
    by (simp add: wake_inv_def wake_ok_def init_def aug_createevents_def)
next
  case (step s x s')
  then show ?case
    using act_wake [OF reach_inv] by blast
qed

text \<open>
  C27: The consumer is woken once and for good.  The first event written writes one byte to the
  pipe and no other is written, since the marker is never published again.  The code that reads
  bytes off the pipe (\<open>flush\<close>) runs only while wakeups are counted, and as none ever are, no step
  takes the byte away.  From then on the descriptor stays readable, so no event is missed, but a
  consumer that polls it never waits.
\<close>
theorem events_wakeup_once:
  assumes "reach s"
  shows "e_pipe (q s) \<le> 1 \<and> (written s \<noteq> [] \<and> (\<forall>p. producers s p \<noteq> PWake) \<longrightarrow> e_pipe (q s) = 1)
    \<and> (\<forall>x s'. act x s = Some s' \<longrightarrow> e_pipe (q s) \<le> e_pipe (q s'))
    \<and> (written s \<noteq> [] \<longrightarrow> e_shared (q s) \<noteq> Wakeup)"
proof -
  have w: "wake_inv s"
    using reach_wake [OF assms] .
  have "e_pipe (q s) \<le> 1" "written s \<noteq> [] \<Longrightarrow> \<forall>p. producers s p \<noteq> PWake \<Longrightarrow> e_pipe (q s) = 1"
      "written s \<noteq> [] \<Longrightarrow> e_shared (q s) \<noteq> Wakeup"
    using w unfolding wake_inv_def wake_ok_def fun_eq_iff by (auto split: if_splits)
  moreover have "e_pipe (q s) \<le> e_pipe (q s')" if "act x s = Some s'" for x s'
    using act_wake [OF reach_inv [OF assms] w that] by simp
  ultimately show ?thesis
    by blast
qed

lemma events_wakeup_once_witness:
  "\<exists>s. acts race init = Some s \<and> delivered s = [(2, 8), (1, 7)] \<and> e_pipe (q s) \<le> 1
    \<and> (\<forall>x s'. act x s = Some s' \<longrightarrow> e_pipe (q s) \<le> e_pipe (q s'))"
proof -
  obtain s where s: "acts race init = Some s" "delivered s = [(2, 8), (1, 7)]"
    using race_runs by blast
  then have "reach s"
    using acts_reach [OF reach.start] by blast
  with events_wakeup_once [OF this] s show ?thesis
    by blast
qed

section \<open>Destruction\<close>

lemma destroy_loop_chain:
  "chain h p as \<Longrightarrow> distinct as \<Longrightarrow>
   destroy_loop h p = Some (\<lambda>a. if a \<in> set as then None else h a)"
proof (induction as arbitrary: h p)
  case Nil
  then show ?case
    by (subst destroy_loop.simps) (simp add: poplink_def)
next
  case (Cons a as)
  obtain l where l: "poplink h p = Some (At a, l_next l)" "chain h (l_next l) as" "h a = Some l"
    using poplink_chain [OF Cons.prems(1)] by blast
  have "destroy_loop h p = destroy_loop (h(a := None)) (l_next l)"
    using l(1) by (subst destroy_loop.simps) simp
  also have "\<dots> = Some (\<lambda>b. if b \<in> set as then None else (h(a := None)) b)"
    using Cons.prems(2) l(2) by (intro Cons.IH) (simp_all add: chain_frame del: fun_upd_apply)
  finally show ?case
    by (simp add: fun_eq_iff)
qed

text \<open>
  Destroying a queue ends and gives every link back, when the threads are at rest and an event
  was written before; a queue no event was ever written to is destroyed through the marker, which
  is no address of a link.
\<close>
lemma destroy_events:
  assumes "reach s" "cons s = CIdle" "\<forall>p. producers s p = PIdle"
  shows "aug_destroyevents (q s) = (if written s = [] then None else Some (\<lambda>a. None))"
proof -
  obtain as bs where i: "inv_at s as bs"
    using reach_inv [OF assms(1)] by (auto simp: inv_def)
  note d = inv_atD [OF i]
  let ?h = "e_heap (q s)"
  have own: "chain ?h (e_local (q s)) bs"
    using d(2) assms(2) by (simp add: own_chain_def)
  let ?g = "\<lambda>a. if a \<in> set bs then None else ?h a"
  have 1: "destroy_loop ?h (e_local (q s)) = Some ?g"
    using destroy_loop_chain [OF own] d(3) by simp
  have marker: "e_shared (q s) = Wakeup \<longleftrightarrow> written s = []"
    using reach_wake [OF assms(1)] by (simp add: wake_inv_def wake_ok_def)
  have "chain h p as \<Longrightarrow> chain (\<lambda>a. if a \<in> B then None else h a) p as" if "set as \<inter> B = {}" for h p as B
    using that by (induction as arbitrary: p) (auto split: option.splits)
  then have "e_shared (q s) \<noteq> Wakeup \<Longrightarrow> chain ?g (e_shared (q s)) as"
    using d(1,3) by (auto simp: shared_chain_def)
  then have "e_shared (q s) \<noteq> Wakeup \<Longrightarrow>
      destroy_loop ?g (e_shared (q s)) = Some (\<lambda>a. if a \<in> set as then None else ?g a)"
    using destroy_loop_chain d(3) by simp
  moreover have "destroy_loop ?g Wakeup = None"
    by (subst destroy_loop.simps) (simp add: poplink_def deref_def)
  moreover have "(\<lambda>a. if a \<in> set as then None else ?g a) = (\<lambda>a. None)"
    using d(6) assms(3) by (auto simp: covered_def unpublished_def fun_eq_iff)
  ultimately show ?thesis
    using marker 1 by (auto simp: aug_destroyevents_def)
qed

lemma destroy_events_witness: "aug_destroyevents (q init) = None"
  using destroy_events [OF reach.start] by (simp add: init_def)

end
