(* ===== verification/Stailq.thy ===== *)
theory Stailq
  imports Prelude
begin

text \<open>
  The singly-linked tail queue of \<^verbatim>\<open>augsys/queue.h\<close> (and its names in
  \<^verbatim>\<open>augutil/list.h\<close>) at the level of its pointers.  An element is its address.  The
  \<^verbatim>\<open>stqe_next\<close> fields of all elements are one map; \<^verbatim>\<open>stqh_last\<close> is the address of
  a pointer: the head's own first pointer or some element's next field, and assigning
  through it is \<open>assign\<close>.  A null dereference is \<open>None\<close>.

  The locale \<open>tail_queue\<close> is what the users of the queue (timers, writers, channels) rely
  on: which list a queue holds after each operation, and hence what draining it and
  walking it visit.  The interpretation discharges it for the pointers.
\<close>

section \<open>The macros\<close>

type_synonym elm = nat

datatype cell = HeadFirst | NextOf elm

record stailq =
  stqh_first :: "elm option"
  stqh_last :: cell
  stqe_next :: "elm \<Rightarrow> elm option"

text \<open>\<^verbatim>\<open>*c = p\<close>.\<close>

fun assign :: "cell \<Rightarrow> elm option \<Rightarrow> stailq \<Rightarrow> stailq" where
  "assign HeadFirst p q = q\<lparr>stqh_first := p\<rparr>"
| "assign (NextOf e) p q = q\<lparr>stqe_next := (stqe_next q)(e := p)\<rparr>"

definition stailq_init :: "stailq \<Rightarrow> stailq" where
  "stailq_init q = q\<lparr>stqh_first := None, stqh_last := HeadFirst\<rparr>"

definition stailq_empty :: "stailq \<Rightarrow> bool" where
  "stailq_empty q = (stqh_first q = None)"

definition stailq_insert_after :: "elm \<Rightarrow> elm \<Rightarrow> stailq \<Rightarrow> stailq" where
  "stailq_insert_after tqelm e q =
     (let q1 = assign (NextOf e) (stqe_next q tqelm) q;
          q2 = (if stqe_next q1 e = None then q1\<lparr>stqh_last := NextOf e\<rparr> else q1)
      in assign (NextOf tqelm) (Some e) q2)"

definition stailq_insert_head :: "elm \<Rightarrow> stailq \<Rightarrow> stailq" where
  "stailq_insert_head e q =
     (let q1 = assign (NextOf e) (stqh_first q) q;
          q2 = (if stqe_next q1 e = None then q1\<lparr>stqh_last := NextOf e\<rparr> else q1)
      in q2\<lparr>stqh_first := Some e\<rparr>)"

definition stailq_insert_tail :: "elm \<Rightarrow> stailq \<Rightarrow> stailq" where
  "stailq_insert_tail e q =
     (let q1 = assign (NextOf e) None q;
          q2 = assign (stqh_last q1) (Some e) q1
      in q2\<lparr>stqh_last := NextOf e\<rparr>)"

definition stailq_remove_head :: "stailq \<Rightarrow> stailq option" where
  "stailq_remove_head q =
     (case stqh_first q of
        None \<Rightarrow> None
      | Some e \<Rightarrow>
          let q1 = q\<lparr>stqh_first := stqe_next q e\<rparr>
          in Some (if stqh_first q1 = None then q1\<lparr>stqh_last := HeadFirst\<rparr> else q1))"

text \<open>
  The search loop of \<^verbatim>\<open>STAILQ_REMOVE\<close>; it runs off the list when the element is not on
  it, and \<^verbatim>\<open>curelm\<close> is then a null pointer.
\<close>

partial_function (option) stailq_pred :: "stailq \<Rightarrow> elm \<Rightarrow> elm option \<Rightarrow> elm option" where
  "stailq_pred q e curelm =
     (case curelm of
        None \<Rightarrow> None
      | Some c \<Rightarrow> if stqe_next q c = Some e then Some c else stailq_pred q e (stqe_next q c))"

definition stailq_remove :: "elm \<Rightarrow> stailq \<Rightarrow> stailq option" where
  "stailq_remove e q =
     (if stqh_first q = Some e then stailq_remove_head q
      else
        case stailq_pred q e (stqh_first q) of
          None \<Rightarrow> None
        | Some c \<Rightarrow>
            let q1 = assign (NextOf c) (stqe_next q e) q
            in Some (if stqe_next q1 c = None then q1\<lparr>stqh_last := NextOf c\<rparr> else q1))"

text \<open>\<^verbatim>\<open>AUG_REMOVE_PREVPTR\<close>: \<^verbatim>\<open>varp\<close> is the address of the pointer that led to \<^verbatim>\<open>var\<close>.\<close>

definition remove_prevptr :: "elm \<Rightarrow> cell \<Rightarrow> stailq \<Rightarrow> stailq" where
  "remove_prevptr e varp q =
     (let q1 = (if stqe_next q e = None then q\<lparr>stqh_last := varp\<rparr> else q)
      in assign varp (stqe_next q1 e) q1)"

section \<open>What a queue holds\<close>

fun links :: "(elm \<Rightarrow> elm option) \<Rightarrow> elm option \<Rightarrow> elm list \<Rightarrow> bool" where
  "links nx p [] = (p = None)"
| "links nx p (x # xs) = (p = Some x \<and> links nx (nx x) xs)"

definition last_cell :: "elm list \<Rightarrow> cell" where
  "last_cell xs = (if xs = [] then HeadFirst else NextOf (last xs))"

definition holds :: "stailq \<Rightarrow> elm list \<Rightarrow> bool" where
  "holds q xs \<longleftrightarrow>
     links (stqe_next q) (stqh_first q) xs \<and> distinct xs \<and> stqh_last q = last_cell xs"

text \<open>The elements, by walking the queue.\<close>

partial_function (option) elems_from :: "stailq \<Rightarrow> elm option \<Rightarrow> elm list option" where
  "elems_from q p =
     (case p of
        None \<Rightarrow> Some []
      | Some e \<Rightarrow> Option.bind (elems_from q (stqe_next q e)) (\<lambda>es. Some (e # es)))"

definition elems :: "stailq \<Rightarrow> elm list option" where
  "elems q = elems_from q (stqh_first q)"

lemma elems_from_links: "links (stqe_next q) p xs \<Longrightarrow> elems_from q p = Some xs"
  by (induction xs arbitrary: p) (subst elems_from.simps; simp)+

lemma holds_elems: "holds q xs \<Longrightarrow> elems q = Some xs"
  by (simp add: holds_def elems_def elems_from_links)

lemma links_upd [simp]: "e \<notin> set xs \<Longrightarrow> links (nx(e := p)) q xs = links nx q xs"
  by (induction xs arbitrary: q) auto

lemma links_snoc:
  "links nx p xs \<Longrightarrow> xs \<noteq> [] \<Longrightarrow> distinct xs \<Longrightarrow> e \<notin> set xs \<Longrightarrow>
   links (nx(e := None, last xs := Some e)) p (xs @ [e])"
proof (induction xs arbitrary: p)
  case Nil
  then show ?case by simp
next
  case (Cons x xs)
  then show ?case
    by (cases xs) (auto simp: fun_upd_twist)
qed

lemma links_split:
  "links nx p (xs @ x # ys) \<Longrightarrow> links nx (nx x) ys"
  by (induction xs arbitrary: p) auto

lemma links_next:
  assumes "links nx p (xs @ x # ys)"
  shows "nx x = (case ys of [] \<Rightarrow> None | y # _ \<Rightarrow> Some y)"
  using links_split [OF assms] by (cases ys) auto

lemma links_unique: "links nx p xs \<Longrightarrow> links nx p ys \<Longrightarrow> xs = ys"
proof (induction xs arbitrary: p ys)
  case Nil
  then show ?case by (cases ys) auto
next
  case (Cons x xs)
  then show ?case by (cases ys) auto
qed

lemma links_splice:
  "links nx p (xs @ x # ys) \<Longrightarrow> xs \<noteq> [] \<Longrightarrow> distinct (xs @ x # ys) \<Longrightarrow>
   links (nx(last xs := nx x)) p (xs @ ys)"
proof (induction xs arbitrary: p)
  case Nil
  then show ?case by simp
next
  case (Cons z xs)
  show ?case
  proof (cases xs)
    case Nil
    then show ?thesis using Cons.prems by (simp del: fun_upd_apply) (simp add: fun_upd_same)
  next
    case (Cons a list)
    then show ?thesis
      using Cons.IH [of "nx z"] Cons.prems by auto
  qed
qed

lemma links_insert_after:
  "links nx p (xs @ t # ys) \<Longrightarrow> distinct (xs @ t # ys) \<Longrightarrow> e \<notin> set (xs @ t # ys) \<Longrightarrow>
   links (nx(e := nx t, t := Some e)) p (xs @ t # e # ys)"
  by (induction xs arbitrary: p) (auto simp: fun_upd_twist)

lemma stailq_pred_finds:
  "links (stqe_next q) p (xs @ x # ys) \<Longrightarrow> xs \<noteq> [] \<Longrightarrow> distinct (xs @ x # ys) \<Longrightarrow>
   stailq_pred q x p = Some (last xs)"
proof (induction xs arbitrary: p)
  case Nil
  then show ?case by simp
next
  case (Cons z xs)
  have z: "p = Some z" "links (stqe_next q) (stqe_next q z) (xs @ x # ys)"
    using Cons.prems by auto
  show ?case
  proof (cases xs)
    case Nil
    then show ?thesis using z by (subst stailq_pred.simps) simp
  next
    case (Cons a list)
    then have "stqe_next q z = Some a" "a \<noteq> x"
      using z Cons.prems by auto
    then show ?thesis
      using z Cons Cons.IH [OF z(2)] Cons.prems by (subst stailq_pred.simps) simp
  qed
qed
section \<open>What each operation does to the list\<close>

lemma holds_init: "holds (stailq_init q) []"
  by (simp add: holds_def stailq_init_def last_cell_def)

lemma holds_unique: "holds q xs \<Longrightarrow> holds q ys \<Longrightarrow> xs = ys"
  by (auto simp: holds_def intro: links_unique)

lemma holds_first: "holds q xs \<Longrightarrow> stqh_first q = (case xs of [] \<Rightarrow> None | x # _ \<Rightarrow> Some x)"
  by (cases xs) (auto simp: holds_def)

lemma holds_next:
  "holds q (xs @ x # ys) \<Longrightarrow> stqe_next q x = (case ys of [] \<Rightarrow> None | y # _ \<Rightarrow> Some y)"
  by (auto simp: holds_def dest: links_next)

lemma holds_insert_head: "holds q xs \<Longrightarrow> e \<notin> set xs \<Longrightarrow> holds (stailq_insert_head e q) (e # xs)"
  by (cases xs) (auto simp: holds_def stailq_insert_head_def last_cell_def Let_def)

lemma holds_insert_tail:
  assumes "holds q xs" "e \<notin> set xs"
  shows "holds (stailq_insert_tail e q) (xs @ [e])"
proof (cases "xs = []")
  case True
  then show ?thesis
    using assms by (simp add: holds_def stailq_insert_tail_def last_cell_def)
next
  case False
  then show ?thesis
    using assms links_snoc [of "stqe_next q" "stqh_first q" xs e]
    by (simp add: holds_def stailq_insert_tail_def last_cell_def)
qed

lemma holds_insert_after:
  assumes "holds q (xs @ t # ys)" "e \<notin> set (xs @ t # ys)"
  shows "holds (stailq_insert_after t e q) (xs @ t # e # ys)"
proof -
  have "stqe_next q t = (case ys of [] \<Rightarrow> None | y # _ \<Rightarrow> Some y)"
    using assms(1) by (rule holds_next)
  then show ?thesis
    using assms links_insert_after [of "stqe_next q" "stqh_first q" xs t ys e]
    by (cases ys) (auto simp: holds_def stailq_insert_after_def last_cell_def Let_def)
qed

lemma holds_remove_head: "holds q (x # xs) \<Longrightarrow> \<exists>q'. stailq_remove_head q = Some q' \<and> holds q' xs"
  by (cases xs) (auto simp: holds_def stailq_remove_head_def last_cell_def)

lemma holds_remove:
  assumes "holds q (xs @ x # ys)"
  shows "\<exists>q'. stailq_remove x q = Some q' \<and> holds q' (xs @ ys)"
proof (cases "xs = []")
  case True
  then show ?thesis
    using assms holds_remove_head [of q x ys] by (auto simp: stailq_remove_def holds_def)
next
  case False
  have l: "links (stqe_next q) (stqh_first q) (xs @ x # ys)" "distinct (xs @ x # ys)"
      "stqh_last q = last_cell (xs @ x # ys)"
    using assms by (auto simp: holds_def)
  have "stqh_first q \<noteq> Some x"
    using l False by (cases xs) auto
  moreover have "stqe_next q x = (case ys of [] \<Rightarrow> None | y # _ \<Rightarrow> Some y)"
    using assms by (rule holds_next)
  moreover have "last xs \<notin> set ys" "last xs \<noteq> x"
    using l(2) last_in_set [OF False] by auto
  ultimately show ?thesis
    using l False stailq_pred_finds [OF l(1) False l(2)] links_splice [OF l(1) False l(2)]
    by (cases ys) (auto simp: stailq_remove_def holds_def last_cell_def Let_def)
qed

lemma holds_remove_prevptr:
  assumes "holds q (xs @ x # ys)"
  shows "holds (remove_prevptr x (last_cell xs) q) (xs @ ys)"
proof (cases "xs = []")
  case True
  then show ?thesis
    using assms by (cases ys) (auto simp: remove_prevptr_def holds_def last_cell_def)
next
  case False
  have l: "links (stqe_next q) (stqh_first q) (xs @ x # ys)" "distinct (xs @ x # ys)"
      "stqh_last q = last_cell (xs @ x # ys)"
    using assms by (auto simp: holds_def)
  moreover have "stqe_next q x = (case ys of [] \<Rightarrow> None | y # _ \<Rightarrow> Some y)"
    using assms by (rule holds_next)
  ultimately show ?thesis
    using False links_splice [OF l(1) False l(2)]
    by (cases ys) (auto simp: remove_prevptr_def holds_def last_cell_def Let_def)
qed

section \<open>The contract\<close>

locale tail_queue =
  fixes rep :: "'q \<Rightarrow> 'e list \<Rightarrow> bool"
    and first :: "'q \<Rightarrow> 'e option"
    and successor :: "'q \<Rightarrow> 'e \<Rightarrow> 'e option"
    and insert_head :: "'e \<Rightarrow> 'q \<Rightarrow> 'q"
    and insert_tail :: "'e \<Rightarrow> 'q \<Rightarrow> 'q"
    and remove_head :: "'q \<Rightarrow> 'q option"
    and remove :: "'e \<Rightarrow> 'q \<Rightarrow> 'q option"
  assumes rep_first: "rep q xs \<Longrightarrow> first q = (case xs of [] \<Rightarrow> None | x # _ \<Rightarrow> Some x)"
    and rep_successor: "rep q (xs @ x # ys) \<Longrightarrow> successor q x = (case ys of [] \<Rightarrow> None | y # _ \<Rightarrow> Some y)"
    and rep_insert_head: "rep q xs \<Longrightarrow> e \<notin> set xs \<Longrightarrow> rep (insert_head e q) (e # xs)"
    and rep_insert_tail: "rep q xs \<Longrightarrow> e \<notin> set xs \<Longrightarrow> rep (insert_tail e q) (xs @ [e])"
    and rep_remove_head: "rep q (x # xs) \<Longrightarrow> \<exists>q'. remove_head q = Some q' \<and> rep q' xs"
    and rep_remove: "rep q (xs @ x # ys) \<Longrightarrow> \<exists>q'. remove x q = Some q' \<and> rep q' (xs @ ys)"
begin

lemma first_Nil: "rep q [] \<Longrightarrow> first q = None"
  by (simp add: rep_first)

lemma first_Cons: "rep q (x # xs) \<Longrightarrow> first q = Some x"
  by (simp add: rep_first)

lemma first_None_iff: "rep q xs \<Longrightarrow> first q = None \<longleftrightarrow> xs = []"
  by (simp add: rep_first split: list.splits)

text \<open>\<^verbatim>\<open>while ((it = AUG_FIRST(q))) { AUG_REMOVE_HEAD(q); g(it); }\<close> visits all, in order.\<close>

lemma drain_visits_all:
  assumes f: "\<And>q s. f q s =
      (case first q of
         None \<Rightarrow> Some (q, s)
       | Some e \<Rightarrow> (case remove_head q of None \<Rightarrow> None | Some q' \<Rightarrow> f q' (g e s)))"
    and "rep q xs"
  shows "\<exists>q'. f q s = Some (q', fold g xs s) \<and> rep q' []"
  using \<open>rep q xs\<close>
proof (induction xs arbitrary: q s)
  case Nil
  then show ?case by (subst f) (simp add: first_Nil)
next
  case (Cons x xs)
  obtain q' where "remove_head q = Some q'" "rep q' xs"
    using rep_remove_head [OF Cons.prems] by auto
  then show ?case
    using Cons.IH [of q' "g x s"] Cons.prems by (subst f) (simp add: first_Cons)
qed

text \<open>
  \<^verbatim>\<open>AUG_FOREACH(it, q)\<close> from an element on, with a body that may leave the loop: \<open>walk\<close> is
  the body folded over a list.
\<close>

lemma foreach_visits_rest:
  assumes f: "\<And>p s. f q p s =
      (case p of
         None \<Rightarrow> r s
       | Some e \<Rightarrow> (case g e s of Inl a \<Rightarrow> a | Inr s' \<Rightarrow> f q (successor q e) s'))"
    and walk_Nil: "\<And>s. walk [] s = r s"
    and walk_Cons: "\<And>e es s. walk (e # es) s = (case g e s of Inl a \<Rightarrow> a | Inr s' \<Rightarrow> walk es s')"
    and "rep q (xs @ ys)"
  shows "f q (case ys of [] \<Rightarrow> None | y # _ \<Rightarrow> Some y) s = walk ys s"
  using \<open>rep q (xs @ ys)\<close>
proof (induction ys arbitrary: xs s)
  case Nil
  then show ?case by (subst f) (simp add: walk_Nil)
next
  case (Cons y ys)
  have "successor q y = (case ys of [] \<Rightarrow> None | y # _ \<Rightarrow> Some y)"
    using Cons.prems by (rule rep_successor)
  then show ?case
    using Cons.IH [of "xs @ [y]"] Cons.prems by (subst f) (simp add: walk_Cons split: sum.split)
qed

lemma foreach_visits_all:
  assumes "\<And>p s. f q p s =
      (case p of
         None \<Rightarrow> r s
       | Some e \<Rightarrow> (case g e s of Inl a \<Rightarrow> a | Inr s' \<Rightarrow> f q (successor q e) s'))"
    and "\<And>s. walk [] s = r s"
    and "\<And>e es s. walk (e # es) s = (case g e s of Inl a \<Rightarrow> a | Inr s' \<Rightarrow> walk es s')"
    and "rep q xs"
  shows "f q (first q) s = walk xs s"
  using foreach_visits_rest [of f q r g walk "[]" xs s] assms by (simp add: rep_first)

end

interpretation stq: tail_queue holds stqh_first stqe_next stailq_insert_head stailq_insert_tail
    stailq_remove_head stailq_remove
  by unfold_locales
     (rule holds_first holds_next holds_insert_head holds_insert_tail holds_remove_head holds_remove;
      assumption)+

end
