(* ===== verification/Writer.thy ===== *)
theory Writer
  imports Stailq
begin

text \<open>
  The buffered writer of \<^verbatim>\<open>augnet/writer.c\<close>: a queue of blobs and an offset into the
  first.  Its list is the pointer queue of \<open>Stailq\<close>; \<open>wr_blob\<close> is the \<^verbatim>\<open>blob_\<close> field of the
  elements and \<open>wr_refs\<close> counts the references the writer holds on each blob.  What a
  blob's \<^verbatim>\<open>getdata_\<close> returns is the argument \<open>bd\<close> (\<open>None\<close>: a null pointer), the address
  the allocator returns and the stream's answer to \<^verbatim>\<open>writev_BI_\<close> are arguments as well.
\<close>

section \<open>The operations\<close>

record 'b writer =
  wr_list :: stailq
  wr_blob :: "elm \<Rightarrow> 'b"
  wr_part :: nat
  wr_size :: nat
  wr_refs :: "'b \<Rightarrow> int"

type_synonym 'b blobdata = "'b \<Rightarrow> byte list option"

record iov =
  iov_base :: "byte list"
  iov_len :: nat

definition createbuf :: "elm option \<Rightarrow> 'b \<Rightarrow> 'b writer \<Rightarrow> (elm \<times> 'b writer) option" where
  "createbuf alloc blob w =
     (case alloc of
        None \<Rightarrow> None
      | Some e \<Rightarrow>
          Some (e, w\<lparr>wr_blob := (wr_blob w)(e := blob),
                     wr_refs := (wr_refs w)(blob := wr_refs w blob + 1)\<rparr>))"

definition destroybuf :: "elm \<Rightarrow> 'b writer \<Rightarrow> 'b writer" where
  "destroybuf e w = w\<lparr>wr_refs := (wr_refs w)(wr_blob w e := wr_refs w (wr_blob w e) - 1)\<rparr>"

text \<open>
  \<open>None\<close>: the failed assertion, or an entry read behind the end of the vector.
\<close>

fun popbufs :: "'b writer \<Rightarrow> iov list \<Rightarrow> nat \<Rightarrow> 'b writer option" where
  "popbufs w [] num = (if num = 0 then Some (w\<lparr>wr_part := num\<rparr>) else None)"
| "popbufs w (v # vs) num =
     (if num \<noteq> 0 \<and> iov_len v \<le> num then
        case stqh_first (wr_list w) of
          None \<Rightarrow> None
        | Some it \<Rightarrow>
            (case stailq_remove_head (wr_list w) of
               None \<Rightarrow> None
             | Some q \<Rightarrow>
                 let w1 = destroybuf it (w\<lparr>wr_list := q\<rparr>)
                 in popbufs (w1\<lparr>wr_size := usub (wr_size w1) 1\<rparr>) vs (num - iov_len v))
      else Some (w\<lparr>wr_part := num\<rparr>))"

definition aug_createwriter :: "stailq \<Rightarrow> (elm \<Rightarrow> 'b) \<Rightarrow> 'b writer" where
  "aug_createwriter memory blobs =
     \<lparr>wr_list = stailq_init memory, wr_blob = blobs, wr_part = 0, wr_size = 0, wr_refs = (\<lambda>_. 0)\<rparr>"

partial_function (option) destroy_bufs :: "stailq \<Rightarrow> 'b writer \<Rightarrow> (stailq \<times> 'b writer) option" where
  "destroy_bufs q w =
     (case stqh_first q of
        None \<Rightarrow> Some (q, w)
      | Some e \<Rightarrow> (case stailq_remove_head q of None \<Rightarrow> None | Some q' \<Rightarrow> destroy_bufs q' (destroybuf e w)))"

definition aug_destroywriter :: "'b writer \<Rightarrow> 'b writer option" where
  "aug_destroywriter w = map_option (\<lambda>(q, w'). w'\<lparr>wr_list := q\<rparr>) (destroy_bufs (wr_list w) w)"

definition aug_appendwriter :: "elm option \<Rightarrow> 'b \<Rightarrow> 'b writer \<Rightarrow> (aug_fail + unit) \<times> 'b writer" where
  "aug_appendwriter alloc blob w =
     (case createbuf alloc blob w of
        None \<Rightarrow> (Inl NoMem, w)
      | Some (e, w1) \<Rightarrow>
          (Inr (), w1\<lparr>wr_list := stailq_insert_tail e (wr_list w1), wr_size := uadd (wr_size w1) 1\<rparr>))"

definition aug_writerempty :: "'b writer \<Rightarrow> bool" where
  "aug_writerempty w = stailq_empty (wr_list w)"

text \<open>\<^verbatim>\<open>size_t\<close> holds the sum, for all of it lies in memory.\<close>

partial_function (option) size_loop ::
  "'b blobdata \<Rightarrow> 'b writer \<Rightarrow> elm option \<Rightarrow> nat \<Rightarrow> (aug_fail + nat) option" where
  "size_loop bd w it n =
     (case it of
        None \<Rightarrow> Some (Inr n)
      | Some e \<Rightarrow>
          (case bd (wr_blob w e) of
             None \<Rightarrow> Some (Inl (ExError EDOMAIN))
           | Some d \<Rightarrow> size_loop bd w (stqe_next (wr_list w) e) (n + length d)))"

definition aug_writersize :: "'b blobdata \<Rightarrow> 'b writer \<Rightarrow> (aug_fail + nat) option" where
  "aug_writersize bd w = size_loop bd w (stqh_first (wr_list w)) 0"

text \<open>
  \<^verbatim>\<open>(int)len\<close> stored in the \<^verbatim>\<open>size_t\<close> of an \<^verbatim>\<open>iovec\<close>.
\<close>

definition iov_size :: "nat \<Rightarrow> nat" where
  "iov_size n = nat (to_int32 (int n) mod 2 ^ 64)"

partial_function (option) map_iov ::
  "'b blobdata \<Rightarrow> 'b writer \<Rightarrow> nat \<Rightarrow> elm option \<Rightarrow> iov list \<Rightarrow> (aug_fail + iov list) option" where
  "map_iov bd w n it iov =
     (case it of
        None \<Rightarrow> Some (Inr iov)
      | Some e \<Rightarrow>
          (case bd (wr_blob w e) of
             None \<Rightarrow> Some (Inl (ExError EDOMAIN))
           | Some d \<Rightarrow>
               let iov' = iov @ [\<lparr>iov_base = d, iov_len = iov_size (length d)\<rparr>]
               in if length iov' = n then Some (Inr iov')
                  else map_iov bd w n (stqe_next (wr_list w) e) iov'))"

text \<open>The bytes the entries of a vector name; \<open>None\<close> when one reaches behind its data.\<close>

fun gather :: "iov list \<Rightarrow> byte list option" where
  "gather [] = Some []"
| "gather (v # vs) =
     (if length (iov_base v) < iov_len v then None
      else map_option ((@) (take (iov_len v) (iov_base v))) (gather vs))"

definition add_part :: "nat \<Rightarrow> iov \<Rightarrow> iov" where
  "add_part part v =
     \<lparr>iov_base = drop part (iov_base v),
      iov_len = nat ((int (iov_len v) - to_int32 (int part)) mod 2 ^ 64)\<rparr>"

text \<open>
  The result, the writer and the bytes the stream took.  The stream answers \<open>Inl\<close> of a
  failure or the number of bytes it took.
\<close>

definition aug_writesome ::
  "'b blobdata \<Rightarrow> aug_fail + nat \<Rightarrow> 'b writer \<Rightarrow> (aug_fail + nat) \<times> 'b writer \<times> byte list" where
  "aug_writesome bd answer w =
     (let n = min (wr_size w) 64 in
      if n = 0 then (Inr 0, w, [])
      else
        case map_iov bd w n (stqh_first (wr_list w)) [] of
          None \<Rightarrow> (Inl Undefined, w, [])
        | Some (Inl e) \<Rightarrow> (Inl e, w, [])
        | Some (Inr []) \<Rightarrow> (Inl Undefined, w, [])
        | Some (Inr (v # vs)) \<Rightarrow>
            if length (v # vs) < n \<or> length (iov_base v) < wr_part w then (Inl Undefined, w, [])
            else
              let iov = add_part (wr_part w) v # vs in
              (case gather iov of
                 None \<Rightarrow> (Inl Undefined, w, [])
               | Some bytes \<Rightarrow>
                   (case answer of
                      Inl e \<Rightarrow> (Inl e, w, [])
                    | Inr rsize \<Rightarrow>
                        (case popbufs w iov rsize of
                           None \<Rightarrow> (Inl Undefined, w, [])
                         | Some w' \<Rightarrow> (Inr rsize, w', take rsize bytes)))))"

section \<open>What a writer still has to send\<close>

definition data :: "'b blobdata \<Rightarrow> 'b writer \<Rightarrow> elm \<Rightarrow> byte list" where
  "data bd w e = the (bd (wr_blob w e))"

definition refs_ok :: "'b writer \<Rightarrow> elm list \<Rightarrow> bool" where
  "refs_ok w es \<longleftrightarrow> (\<forall>b. wr_refs w b = int (count_list (map (wr_blob w) es) b))"

lemma refs_ok_destroybuf: "refs_ok w (e # es) \<Longrightarrow> refs_ok (destroybuf e w) es"
  by (auto simp: refs_ok_def destroybuf_def split: if_splits)

lemma refs_ok_cong [simp]:
  "refs_ok (w\<lparr>wr_list := q\<rparr>) es = refs_ok w es"
  "refs_ok (w\<lparr>wr_size := n\<rparr>) es = refs_ok w es"
  "refs_ok (w\<lparr>wr_part := n\<rparr>) es = refs_ok w es"
  by (simp_all add: refs_ok_def)

definition writer_ok :: "'b blobdata \<Rightarrow> 'b writer \<Rightarrow> elm list \<Rightarrow> bool" where
  "writer_ok bd w es \<longleftrightarrow>
     holds (wr_list w) es \<and> wr_size w = length es \<and> length es < 2 ^ 32
     \<and> (\<forall>e\<in>set es. bd (wr_blob w e) \<noteq> None \<and> length (data bd w e) < 2 ^ 31)
     \<and> (wr_part w = 0 \<or> (\<exists>e es'. es = e # es' \<and> wr_part w < length (data bd w e)))
     \<and> refs_ok w es"

definition pending :: "'b blobdata \<Rightarrow> 'b writer \<Rightarrow> byte list option" where
  "pending bd w =
     map_option (\<lambda>es. drop (wr_part w) (concat (map (data bd w) es))) (elems (wr_list w))"

lemma writer_okD:
  assumes "writer_ok bd w es"
  shows "holds (wr_list w) es" "wr_size w = length es" "length es < 2 ^ 32"
    "\<And>e. e \<in> set es \<Longrightarrow> bd (wr_blob w e) = Some (data bd w e)"
    "\<And>e. e \<in> set es \<Longrightarrow> length (data bd w e) < 2 ^ 31"
    "wr_part w = 0 \<or> (\<exists>e es'. es = e # es' \<and> wr_part w < length (data bd w e))"
    "pending bd w = Some (drop (wr_part w) (concat (map (data bd w) es)))"
    "refs_ok w es"
  using assms by (auto simp: writer_ok_def data_def pending_def dest!: holds_elems)

lemma iov_size_eq: "n < 2 ^ 31 \<Longrightarrow> iov_size n = n"
  by (simp add: iov_size_def)

definition mk_iov :: "byte list \<Rightarrow> iov" where
  "mk_iov d = \<lparr>iov_base = d, iov_len = length d\<rparr>"

lemma map_iov_links:
  assumes "links (stqe_next (wr_list w)) p es"
    and "\<And>e. e \<in> set es \<Longrightarrow> bd (wr_blob w e) = Some (data bd w e) \<and> length (data bd w e) < 2 ^ 31"
    and "length iov < n"
  shows "map_iov bd w n p iov = Some (Inr (iov @ map (mk_iov \<circ> data bd w) (take (n - length iov) es)))"
  using assms
proof (induction es arbitrary: p iov)
  case Nil
  then show ?case by (subst map_iov.simps) simp
next
  case (Cons e es)
  have e: "p = Some e" "bd (wr_blob w e) = Some (data bd w e)" "iov_size (length (data bd w e)) = length (data bd w e)"
    using Cons.prems by (auto intro: iov_size_eq)
  let ?iov = "iov @ [mk_iov (data bd w e)]"
  show ?case
  proof (cases "Suc (length iov) = n")
    case True
    then show ?thesis
      using e by (subst map_iov.simps) (auto simp: Let_def mk_iov_def)
  next
    case False
    then obtain k where k: "n - length iov = Suc k" "n - length ?iov = k" "length ?iov < n"
      using Cons.prems(3) by (cases "n - length iov") auto
    have "map_iov bd w n (stqe_next (wr_list w) e) ?iov =
        Some (Inr (?iov @ map (mk_iov \<circ> data bd w) (take (n - length ?iov) es)))"
      using Cons.prems k(3) by (intro Cons.IH) auto
    then show ?thesis
      using e k False by (subst map_iov.simps) (simp add: Let_def mk_iov_def)
  qed
qed

lemma gather_map: "gather (map mk_iov ds) = Some (concat ds)"
  by (induction ds) (simp_all add: mk_iov_def)

text \<open>How many entries of the given lengths a count of bytes covers, and what remains.\<close>

fun pops :: "nat list \<Rightarrow> nat \<Rightarrow> nat \<times> nat" where
  "pops [] n = (0, n)"
| "pops (l # ls) n = (if n \<noteq> 0 \<and> l \<le> n then apfst Suc (pops ls (n - l)) else (0, n))"

lemma pops_le: "fst (pops ls n) \<le> length ls"
  by (induction ls n rule: pops.induct) auto

lemma pops_drop:
  assumes "n \<le> sum_list (map length ds)"
  shows "drop n (concat ds) = drop (snd (pops (map length ds) n)) (concat (drop (fst (pops (map length ds) n)) ds))"
  using assms
proof (induction ds arbitrary: n)
  case Nil
  then show ?case by simp
next
  case (Cons d ds)
  then show ?case
    using Cons.IH [of "n - length d"] by simp
qed

lemma pops_rest:
  assumes "n \<le> sum_list ls"
  shows "snd (pops ls n) = 0 \<or> (fst (pops ls n) < length ls \<and> snd (pops ls n) < ls ! fst (pops ls n))"
  using assms
proof (induction ls arbitrary: n)
  case Nil
  then show ?case by simp
next
  case (Cons l ls)
  then show ?case
    using Cons.IH [of "n - l"] by auto
qed

lemma pops_rest_le:
  "n \<le> sum_list ls \<Longrightarrow> snd (pops ls n) \<le> sum_list (drop (fst (pops ls n)) ls)"
  by (induction ls n rule: pops.induct) auto

lemma popbufs_pops:
  assumes "holds (wr_list w) es" "wr_size w = length es" "length es < 2 ^ 32" "length vs \<le> length es"
    and "num \<le> sum_list (map iov_len vs)" "refs_ok w es"
  shows "\<exists>q refs. popbufs w vs num =
      Some (w\<lparr>wr_list := q, wr_refs := refs, wr_part := snd (pops (map iov_len vs) num),
              wr_size := length es - fst (pops (map iov_len vs) num)\<rparr>)
    \<and> holds q (drop (fst (pops (map iov_len vs) num)) es)
    \<and> refs_ok (w\<lparr>wr_refs := refs\<rparr>) (drop (fst (pops (map iov_len vs) num)) es)"
  using assms
proof (induction vs arbitrary: w es num)
  case Nil
  then show ?case
    by (intro exI [of _ "wr_list w"] exI [of _ "wr_refs w"]) (simp flip: Nil(2))
next
  case (Cons v vs)
  obtain e es' where es: "es = e # es'"
    using Cons.prems(4) by (cases es) auto
  show ?case
  proof (cases "num \<noteq> 0 \<and> iov_len v \<le> num")
    case False
    then have "pops (map iov_len (v # vs)) num = (0, num)" "popbufs w (v # vs) num = Some (w\<lparr>wr_part := num\<rparr>)"
      by auto
    then show ?thesis
      using Cons.prems(1,6)
      by (intro exI [of _ "wr_list w"] exI [of _ "wr_refs w"]) (simp flip: Cons.prems(2))
  next
    case True
    obtain q where q: "stailq_remove_head (wr_list w) = Some q" "holds q es'"
      using holds_remove_head Cons.prems(1) es by blast
    let ?w = "(destroybuf e (w\<lparr>wr_list := q\<rparr>))\<lparr>wr_size := length es'\<rparr>"
    have "\<exists>q' refs. popbufs ?w vs (num - iov_len v) =
        Some (?w\<lparr>wr_list := q', wr_refs := refs, wr_part := snd (pops (map iov_len vs) (num - iov_len v)),
              wr_size := length es' - fst (pops (map iov_len vs) (num - iov_len v))\<rparr>)
      \<and> holds q' (drop (fst (pops (map iov_len vs) (num - iov_len v))) es')
      \<and> refs_ok (?w\<lparr>wr_refs := refs\<rparr>) (drop (fst (pops (map iov_len vs) (num - iov_len v))) es')"
      using Cons.prems q es True refs_ok_destroybuf [of "w\<lparr>wr_list := q\<rparr>" e es']
      by (intro Cons.IH) (auto simp: destroybuf_def)
    moreover have "popbufs w (v # vs) num = popbufs ?w vs (num - iov_len v)"
      using True q es Cons.prems holds_first [OF Cons.prems(1)] by (simp add: destroybuf_def Let_def)
    ultimately show ?thesis
      using True es by (auto simp: destroybuf_def refs_ok_def)
  qed
qed

section \<open>One write\<close>

text \<open>What the vector names: the unsent rest of the first entry and the following 63.\<close>

definition offered :: "'b blobdata \<Rightarrow> 'b writer \<Rightarrow> elm list \<Rightarrow> byte list list" where
  "offered bd w es =
     (case map (data bd w) (take 64 es) of [] \<Rightarrow> [] | d # ds \<Rightarrow> drop (wr_part w) d # ds)"

lemma offered_concat:
  assumes "writer_ok bd w es"
  shows "concat (offered bd w es) = drop (wr_part w) (concat (map (data bd w) (take 64 es)))"
    and "drop (wr_part w) (concat (map (data bd w) es)) =
         concat (offered bd w es) @ concat (map (data bd w) (drop 64 es))"
proof -
  show *: "concat (offered bd w es) = drop (wr_part w) (concat (map (data bd w) (take 64 es)))"
    using writer_okD(6) [OF assms] by (cases es) (auto simp: offered_def)
  have "wr_part w \<le> length (concat (map (data bd w) (take 64 es)))"
    using writer_okD(6) [OF assms] by (cases es) auto
  moreover have "concat (map (data bd w) es) =
      concat (map (data bd w) (take 64 es)) @ concat (map (data bd w) (drop 64 es))"
    by (metis append_take_drop_id concat_append map_append)
  ultimately show "drop (wr_part w) (concat (map (data bd w) es)) =
         concat (offered bd w es) @ concat (map (data bd w) (drop 64 es))"
    using * by simp
qed

lemma offered_drop:
  assumes "wr_part w = 0 \<or> 0 < c"
  shows "drop c (offered bd w es) = drop c (map (data bd w) (take 64 es))"
  using assms by (cases c; cases es) (auto simp: offered_def)

lemma writesome_pops:
  assumes "writer_ok bd w es" and n: "n \<le> length (concat (offered bd w es))"
  defines "c \<equiv> fst (pops (map length (offered bd w es)) n)"
    and "r \<equiv> snd (pops (map length (offered bd w es)) n)"
  shows "\<exists>q refs w'. aug_writesome bd (Inr n) w = (Inr n, w', take n (concat (offered bd w es)))
    \<and> w' = w\<lparr>wr_list := q, wr_refs := refs, wr_part := r, wr_size := length es - c\<rparr>
    \<and> holds q (drop c es) \<and> refs_ok w' (drop c es)"
proof (cases es)
  case Nil
  then have "offered bd w es = []" by (simp add: offered_def)
  then have "n = 0" "c = 0" "r = 0"
    using n by (auto simp: c_def r_def)
  moreover have "wr_size w = 0" "wr_part w = 0"
    using writer_okD(2,6) [OF assms(1)] Nil by auto
  ultimately have w: "w = w\<lparr>wr_list := wr_list w, wr_refs := wr_refs w, wr_part := r, wr_size := length es - c\<rparr>"
      "aug_writesome bd (Inr n) w = (Inr n, w, take n (concat (offered bd w es)))"
    using Nil by (simp_all add: aug_writesome_def)
  moreover have "holds (wr_list w) (drop c es)" "refs_ok w (drop c es)"
    using Nil writer_okD(1,8) [OF assms(1)] by simp_all
  ultimately show ?thesis by blast
next
  case (Cons e es')
  note ok = writer_okD [OF assms(1)]
  let ?vs = "map mk_iov (map (data bd w) (take 64 es))"
  have len: "min (length es) 64 \<noteq> 0" "length ?vs = min (length es) 64"
    using Cons by auto
  have "links (stqe_next (wr_list w)) (stqh_first (wr_list w)) es"
    using ok(1) by (simp add: holds_def)
  then have "map_iov bd w (min (length es) 64) (stqh_first (wr_list w)) [] =
      Some (Inr (map (mk_iov \<circ> data bd w) (take (min (length es) 64) es)))"
    using map_iov_links [of w "stqh_first (wr_list w)" es bd "[]" "min (length es) 64"] ok(4,5) len(1) by simp
  moreover have "take (min (length es) 64) es = take 64 es"
    by (cases "length es \<le> 64") auto
  ultimately have vs: "map_iov bd w (min (length es) 64) (stqh_first (wr_list w)) [] = Some (Inr ?vs)"
    by simp
  have d: "length (data bd w e) < 2 ^ 31" "wr_part w \<le> length (data bd w e)"
    using ok(5,6) Cons by auto
  then have part: "add_part (wr_part w) (mk_iov (data bd w e)) = mk_iov (drop (wr_part w) (data bd w e))"
    by (simp add: add_part_def mk_iov_def nat_diff_distrib)
  have off: "map mk_iov (offered bd w es) =
      add_part (wr_part w) (mk_iov (data bd w e)) # map mk_iov (map (data bd w) (take 63 es'))"
    using Cons part by (simp add: offered_def)
  have lens: "map iov_len (map mk_iov (offered bd w es)) = map length (offered bd w es)"
    by (simp add: mk_iov_def o_def)
  have "length (map mk_iov (offered bd w es)) \<le> length es"
    using Cons by (simp add: offered_def)
  moreover have "n \<le> sum_list (map iov_len (map mk_iov (offered bd w es)))"
    unfolding lens using n by (simp add: length_concat)
  ultimately have "\<exists>q refs. popbufs w (map mk_iov (offered bd w es)) n =
      Some (w\<lparr>wr_list := q, wr_refs := refs, wr_part := r, wr_size := length es - c\<rparr>) \<and> holds q (drop c es)
      \<and> refs_ok (w\<lparr>wr_refs := refs\<rparr>) (drop c es)"
    using popbufs_pops [OF ok(1,2,3) _ _ ok(8), of "map mk_iov (offered bd w es)" n]
    unfolding lens c_def [symmetric] r_def [symmetric] by blast
  then obtain q refs where p: "popbufs w (map mk_iov (offered bd w es)) n =
      Some (w\<lparr>wr_list := q, wr_refs := refs, wr_part := r, wr_size := length es - c\<rparr>)" "holds q (drop c es)" "refs_ok (w\<lparr>wr_refs := refs\<rparr>) (drop c es)"
    by blast
  have "?vs = mk_iov (data bd w e) # map mk_iov (map (data bd w) (take 63 es'))"
    using Cons by simp
  then have "aug_writesome bd (Inr n) w =
      (Inr n, w\<lparr>wr_list := q, wr_refs := refs, wr_part := r, wr_size := length es - c\<rparr>,
       take n (concat (offered bd w es)))"
    using vs len ok(2) d(2) p(1) gather_map [of "offered bd w es"]
    by (simp add: aug_writesome_def Let_def off mk_iov_def [of "data bd w e"])
  then show ?thesis using p(2,3) by (auto simp: refs_ok_def)
qed

text \<open>
  The stream takes \<open>n\<close> bytes of what it is offered, and either the first entry is unsent
  or the write completes it.
\<close>

definition steady :: "'b blobdata \<Rightarrow> 'b writer \<Rightarrow> elm list \<Rightarrow> nat \<Rightarrow> bool" where
  "steady bd w es n \<longleftrightarrow>
     n \<le> length (concat (offered bd w es))
     \<and> (wr_part w = 0 \<or> (case es of [] \<Rightarrow> True | e # _ \<Rightarrow> length (data bd w e) - wr_part w \<le> n))"

lemma writesome_step:
  assumes ok: "writer_ok bd w es" and st: "steady bd w es n"
  shows "\<exists>w' out c rest. aug_writesome bd (Inr n) w = (Inr n, w', out) \<and> writer_ok bd w' (drop c es)
    \<and> length out = n \<and> pending bd w = Some (out @ rest) \<and> pending bd w' = Some rest"
proof -
  define c where "c = fst (pops (map length (offered bd w es)) n)"
  define r where "r = snd (pops (map length (offered bd w es)) n)"
  have n: "n \<le> length (concat (offered bd w es))"
    using st by (simp add: steady_def)
  obtain q refs w' where w': "aug_writesome bd (Inr n) w = (Inr n, w', take n (concat (offered bd w es)))"
      "w' = w\<lparr>wr_list := q, wr_refs := refs, wr_part := r, wr_size := length es - c\<rparr>"
      "holds q (drop c es)" "refs_ok w' (drop c es)"
    using writesome_pops [OF ok n] unfolding c_def r_def by blast
  have same: "data bd w' = data bd w" "wr_blob w' = wr_blob w"
    using w'(2) by (auto simp: data_def fun_eq_iff)
  have c: "wr_part w = 0 \<or> 0 < c"
  proof (cases "wr_part w = 0")
    case False
    then obtain e es' where "es = e # es'" "wr_part w < length (data bd w e)"
        "length (data bd w e) - wr_part w \<le> n"
      using writer_okD(6) [OF ok] st by (auto simp: steady_def)
    then show ?thesis
      by (auto simp: c_def offered_def apfst_def)
  qed simp
  let ?tail = "concat (map (data bd w) (drop 64 es))"
  have off: "drop c (offered bd w es) = drop c (map (data bd w) (take 64 es))"
    by (rule offered_drop [OF c])
  have le: "c \<le> length (take 64 es)"
    using pops_le [of "map length (offered bd w es)" n] unfolding c_def [symmetric]
    by (cases es) (auto simp: offered_def)
  then have split: "map (data bd w) (drop c es) =
      drop c (map (data bd w) (take 64 es)) @ map (data bd w) (drop 64 es)"
    by (metis append_take_drop_id drop_append drop_map map_append diff_is_0_eq drop0 length_map length_take
        min.cobounded1)
  have r: "r = 0 \<or> (\<exists>e es'. drop c es = e # es' \<and> r < length (data bd w e) \<and> c < length (take 64 es))"
  proof -
    have "r = 0 \<or> (c < length (offered bd w es) \<and> r < length (offered bd w es ! c))"
      using pops_rest [of n "map length (offered bd w es)"] n by (auto simp: c_def r_def length_concat)
    moreover have len: "length (offered bd w es) = length (take 64 es)"
      by (cases es) (auto simp: offered_def)
    moreover have "offered bd w es ! c = data bd w (es ! c)" if "c < length (offered bd w es)"
    proof -
      have "offered bd w es ! c = hd (drop c (offered bd w es))"
        using that by (simp add: hd_drop_conv_nth)
      also have "\<dots> = hd (drop c (map (data bd w) (take 64 es)))"
        by (simp add: off)
      also have "\<dots> = data bd w (es ! c)"
        using that len by (simp add: hd_drop_conv_nth)
      finally show ?thesis .
    qed
    ultimately show ?thesis
      by (auto simp: Cons_nth_drop_Suc [symmetric])
  qed
  have "writer_ok bd w' (drop c es)"
    unfolding writer_ok_def
    using writer_okD(2-5) [OF ok] w'(2-4) same r
    by (auto dest: in_set_dropD simp: data_def)
  moreover have "pending bd w' = Some (drop n (concat (offered bd w es)) @ ?tail)"
  proof -
    have "r \<le> length (concat (drop c (offered bd w es)))"
      using pops_rest_le [of n "map length (offered bd w es)"] n
      by (simp add: r_def c_def length_concat drop_map)
    then have "drop r (concat (drop c (offered bd w es))) @ ?tail = drop r (concat (map (data bd w) (drop c es)))"
      using split off by simp
    then show ?thesis
      using pops_drop [of n "offered bd w es"] n holds_elems [OF w'(3)] w'(2) same
      by (simp add: pending_def c_def r_def length_concat)
  qed
  moreover have "pending bd w = Some (take n (concat (offered bd w es)) @ drop n (concat (offered bd w es)) @ ?tail)"
    using writer_okD(7) [OF ok] offered_concat(2) [OF ok] by simp
  moreover have "length (take n (concat (offered bd w es))) = n"
    using n by simp
  ultimately show ?thesis
    using w'(1) by blast
qed

section \<open>The other operations\<close>

lemma create_ok: "writer_ok bd (aug_createwriter m bl) []"
  by (simp add: writer_ok_def aug_createwriter_def holds_init refs_ok_def)

lemma append_step:
  assumes ok: "writer_ok bd w es" and "e \<notin> set es" "bd b = Some d" "length d < 2 ^ 31" "length es + 1 < 2 ^ 32"
    and p: "pending bd w = Some p"
  shows "\<exists>w'. aug_appendwriter (Some e) b w = (Inr (), w') \<and> writer_ok bd w' (es @ [e])
    \<and> pending bd w' = Some (p @ d)"
proof -
  note o = writer_okD [OF ok]
  define w' where "w' = snd (aug_appendwriter (Some e) b w)"
  have w': "aug_appendwriter (Some e) b w = (Inr (), w')"
      "wr_list w' = stailq_insert_tail e (wr_list w)" "wr_size w' = Suc (length es)" "wr_part w' = wr_part w"
      "wr_blob w' = (wr_blob w)(e := b)" "wr_refs w' = (wr_refs w)(b := wr_refs w b + 1)"
    using o(2) assms(5) by (simp_all add: w'_def aug_appendwriter_def createbuf_def)
  have same: "wr_blob w' x = wr_blob w x" "data bd w' x = data bd w x" if "x \<in> set es" for x
    using that \<open>e \<notin> set es\<close> w'(5) by (auto simp: data_def)
  have e: "data bd w' e = d" "wr_blob w' e = b"
    using w'(5) assms(3) by (simp_all add: data_def)
  have h: "holds (wr_list w') (es @ [e])"
    using o(1) assms(2) w'(2) holds_insert_tail by simp
  have "refs_ok w' (es @ [e])"
  proof -
    have "count_list (map (wr_blob w') es) x = count_list (map (wr_blob w) es) x" for x
      using same(1) by (metis (mono_tags, lifting) map_cong)
    then show ?thesis
      using o(8) w'(6) e(2) by (simp add: refs_ok_def)
  qed
  then have "writer_ok bd w' (es @ [e])"
    unfolding writer_ok_def
    using o(2-6) h w'(3,4) same e assms(3,4,5) by (cases es) auto
  moreover have "pending bd w' = Some (p @ d)"
  proof -
    have "map (data bd w') (es @ [e]) = map (data bd w) es @ [d]"
      using same e by simp
    moreover have "wr_part w \<le> length (concat (map (data bd w) es))"
      using o(6) by (cases es) auto
    moreover have "p = drop (wr_part w) (concat (map (data bd w) es))"
      using p o(7) by simp
    ultimately show ?thesis
      using holds_elems [OF h] w'(4) by (simp add: pending_def del: map_append)
  qed
  ultimately show ?thesis
    using w'(1) by blast
qed

lemma destroy_bufs_all:
  assumes "holds q es" "refs_ok w es"
  shows "\<exists>q' w'. destroy_bufs q w = Some (q', w') \<and> holds q' [] \<and> refs_ok w' []"
proof -
  have "destroy_bufs q w =
      (case stqh_first q of
         None \<Rightarrow> Some (q, w)
       | Some e \<Rightarrow> (case stailq_remove_head q of None \<Rightarrow> None | Some q' \<Rightarrow> destroy_bufs q' (destroybuf e w)))" for q w
    by (rule destroy_bufs.simps)
  from stq.drain_visits_all [of destroy_bufs, OF this assms(1)]
  obtain q' where "destroy_bufs q w = Some (q', fold destroybuf es w)" "holds q' []"
    by blast
  moreover have "refs_ok (fold destroybuf es w) []"
    using assms(2) by (induction es arbitrary: w) (auto dest: refs_ok_destroybuf)
  ultimately show ?thesis by blast
qed

lemma size_loop_all:
  assumes "holds (wr_list w) es" "\<And>e. e \<in> set es \<Longrightarrow> bd (wr_blob w e) = Some (data bd w e)"
  shows "aug_writersize bd w = Some (Inr (length (concat (map (data bd w) es))))"
proof -
  have "links (stqe_next (wr_list w)) p es \<Longrightarrow>
      size_loop bd w p n = Some (Inr (n + length (concat (map (data bd w) es))))" for p n
    using assms(2)
  proof (induction es arbitrary: p n)
    case Nil
    then show ?case by (subst size_loop.simps) simp
  next
    case (Cons e es)
    then show ?case by (subst size_loop.simps) (simp add: add.assoc)
  qed
  then show ?thesis
    using assms(1) by (simp add: aug_writersize_def holds_def)
qed

section \<open>The writer in use\<close>

text \<open>
  \<open>writer_run bd w app sent\<close>: the writer \<open>w\<close> results from any sequence of calls in which the
  bytes \<open>app\<close> have been appended and the stream has taken the bytes \<open>sent\<close>.  The allocator
  returns an address that is not in use, data are below 2 GB, and the stream's answers
  are steady.
\<close>

inductive writer_run :: "'b blobdata \<Rightarrow> 'b writer \<Rightarrow> byte list \<Rightarrow> byte list \<Rightarrow> bool" for bd where
  created: "writer_run bd (aug_createwriter m bl) [] []"
| appended: "writer_run bd w app sent \<Longrightarrow> elems (wr_list w) = Some es \<Longrightarrow> e \<notin> set es \<Longrightarrow>
    bd b = Some d \<Longrightarrow> length d < 2 ^ 31 \<Longrightarrow> length es + 1 < 2 ^ 32 \<Longrightarrow>
    aug_appendwriter (Some e) b w = (Inr (), w') \<Longrightarrow> writer_run bd w' (app @ d) sent"
| refused: "writer_run bd w app sent \<Longrightarrow>
    aug_appendwriter None b w = (Inl f, w') \<Longrightarrow> writer_run bd w' app sent"
| written: "writer_run bd w app sent \<Longrightarrow> elems (wr_list w) = Some es \<Longrightarrow> steady bd w es n \<Longrightarrow>
    aug_writesome bd (Inr n) w = (Inr n, w', out) \<Longrightarrow> writer_run bd w' app (sent @ out)"
| unwritten: "writer_run bd w app sent \<Longrightarrow>
    aug_writesome bd (Inl f) w = (r, w', out) \<Longrightarrow> writer_run bd w' app (sent @ out)"

lemma unwritten_unchanged: "aug_writesome bd (Inl f) w = (r, w', out) \<Longrightarrow> w' = w \<and> out = []"
  by (auto simp: aug_writesome_def Let_def split: if_splits option.splits sum.splits list.splits)

lemma writer_run_ok:
  assumes "writer_run bd w app sent"
  shows "\<exists>es rest. writer_ok bd w es \<and> pending bd w = Some rest \<and> app = sent @ rest"
  using assms
proof (induction rule: writer_run.induct)
  case (created m bl)
  then show ?case
    using create_ok [of bd m bl] writer_okD(7) [OF create_ok [of bd m bl]] by auto
next
  case (appended w app sent es e b d w')
  then obtain es' rest where ok: "writer_ok bd w es'" "pending bd w = Some rest" "app = sent @ rest"
    by blast
  then have "es' = es"
    using appended.hyps(2) holds_elems [OF writer_okD(1)] by fastforce
  then show ?case
    using append_step [OF ok(1) _ appended.hyps(4,5) _ ok(2), of e] appended.hyps ok(3) by auto
next
  case (refused w app sent b f w')
  then show ?case by (auto simp: aug_appendwriter_def createbuf_def)
next
  case (written w app sent es n w' out)
  then obtain es' rest where ok: "writer_ok bd w es'" "pending bd w = Some rest" "app = sent @ rest"
    by blast
  then have "es' = es"
    using written.hyps(2) holds_elems [OF writer_okD(1)] by fastforce
  then show ?case
    using writesome_step [OF ok(1), of n] written.hyps ok by auto
next
  case (unwritten w app sent f r w' out)
  then show ?case
    using unwritten_unchanged by fastforce
qed

text \<open>A queue of empty blobs is never emptied, whatever the stream answers.\<close>

lemma empty_blobs_stay:
  assumes ok: "writer_ok bd w es" and "es \<noteq> []" and "\<And>e. e \<in> set es \<Longrightarrow> data bd w e = []"
    and "steady bd w es n"
  shows "\<exists>w'. aug_writesome bd (Inr n) w = (Inr 0, w', []) \<and> writer_ok bd w' es \<and> \<not> aug_writerempty w'"
proof -
  have "length (concat (offered bd w es)) = 0"
    using assms(3) by (cases es) (auto simp: offered_def dest: in_set_takeD)
  then have "n = 0"
    using assms(4) unfolding steady_def by linarith
  have "\<exists>q refs w'. aug_writesome bd (Inr 0) w = (Inr 0, w', take 0 (concat (offered bd w es)))
    \<and> w' = w\<lparr>wr_list := q, wr_refs := refs, wr_part := snd (pops (map length (offered bd w es)) 0),
             wr_size := length es - fst (pops (map length (offered bd w es)) 0)\<rparr>
    \<and> holds q (drop (fst (pops (map length (offered bd w es)) 0)) es)
    \<and> refs_ok w' (drop (fst (pops (map length (offered bd w es)) 0)) es)"
    by (rule writesome_pops [OF ok]) simp
  moreover have "pops (map length (offered bd w es)) 0 = (0, 0)"
    by (cases "map length (offered bd w es)") auto
  ultimately obtain q refs w' where w': "aug_writesome bd (Inr 0) w = (Inr 0, w', [])"
      "w' = w\<lparr>wr_list := q, wr_refs := refs, wr_part := 0, wr_size := length es\<rparr>" "holds q es" "refs_ok w' es"
    by auto
  moreover have "writer_ok bd w' es"
    using w' writer_okD(3-5) [OF ok] by (auto simp: writer_ok_def data_def)
  moreover have "\<not> aug_writerempty w'"
    using w'(2,3) \<open>es \<noteq> []\<close> by (cases es) (auto simp: aug_writerempty_def stailq_empty_def holds_def)
  ultimately show ?thesis
    using \<open>n = 0\<close> by blast
qed

section \<open>Properties\<close>

text \<open>
  C16: Appends and writes in any order, failed ones included, where each successful write is
  \<open>steady\<close>: the stream takes no more than it is offered, and when a part of the first entry was
  sent before, it takes at least the rest of that entry.  Then the bytes the stream has taken are a
  beginning of the bytes appended and the writer holds exactly the rest; nothing is left when the
  writer is empty, every further steady write is accepted with the stream's count, and destroying
  the writer gives back every reference it took.  A write that is not steady sends bytes again, as
  \<open>partial_write_resends\<close> shows.
\<close>

theorem writer_stream:
  assumes "writer_run bd w app sent"
  shows "(\<exists>rest. pending bd w = Some rest \<and> app = sent @ rest)
    \<and> (aug_writerempty w \<longrightarrow> sent = app)
    \<and> (\<exists>es. elems (wr_list w) = Some es \<and> (\<forall>n. steady bd w es n \<longrightarrow>
          (\<exists>w' out. aug_writesome bd (Inr n) w = (Inr n, w', out) \<and> length out = n)))
    \<and> (\<exists>w'. aug_destroywriter w = Some w' \<and> aug_writerempty w' \<and> (\<forall>b. wr_refs w' b = 0))"
proof -
  obtain es rest where ok: "writer_ok bd w es" "pending bd w = Some rest" "app = sent @ rest"
    using writer_run_ok [OF assms] by blast
  note o = writer_okD [OF ok(1)]
  have "es = []" if "aug_writerempty w"
    using that o(1) by (cases es) (auto simp: aug_writerempty_def stailq_empty_def holds_def)
  then have empty: "aug_writerempty w \<longrightarrow> sent = app"
    using o(7) ok(2,3) by auto
  have "\<exists>w' out. aug_writesome bd (Inr n) w = (Inr n, w', out) \<and> length out = n" if "steady bd w es n" for n
    using writesome_step [OF ok(1) that] by blast
  moreover have "\<exists>w'. aug_destroywriter w = Some w' \<and> aug_writerempty w' \<and> (\<forall>b. wr_refs w' b = 0)"
    using destroy_bufs_all [OF o(1,8)]
    by (auto simp: aug_destroywriter_def aug_writerempty_def stailq_empty_def holds_def refs_ok_def)
  ultimately show ?thesis
    using ok(2,3) empty holds_elems [OF o(1)] by blast
qed

definition demo_blob :: "nat blobdata" where
  "demo_blob b = (if b = 1 then Some [104, 101, 108] else if b = 2 then Some [108, 111] else None)"

definition demo_new :: "nat writer" where
  "demo_new = aug_createwriter \<lparr>stqh_first = None, stqh_last = HeadFirst, stqe_next = (\<lambda>_. None)\<rparr> (\<lambda>_. 0)"

definition demo_one :: "nat writer" where
  "demo_one = snd (aug_appendwriter (Some 7) 1 demo_new)"

definition demo_two :: "nat writer" where
  "demo_two = snd (aug_appendwriter (Some 8) 2 demo_one)"

definition demo_part :: "nat writer" where
  "demo_part = fst (snd (aug_writesome demo_blob (Inr 2) demo_two))"

lemmas demo_defs = demo_new_def demo_one_def demo_two_def aug_createwriter_def stailq_init_def
  aug_appendwriter_def createbuf_def stailq_insert_tail_def demo_blob_def

lemma demo_elems: "elems (wr_list demo_new) = Some []" "elems (wr_list demo_one) = Some [7]"
    "elems (wr_list demo_two) = Some [7, 8]"
  by (rule holds_elems; simp add: demo_defs holds_def last_cell_def)+

lemma demo_write: "aug_writesome demo_blob (Inr 2) demo_two = (Inr 2, demo_two\<lparr>wr_part := 2\<rparr>, [104, 101])"
  by (simp add: demo_defs aug_writesome_def map_iov.simps [of _ _ _ "Some _"] iov_size_eq add_part_def)

lemma demo_part_eq: "demo_part = demo_two\<lparr>wr_part := 2\<rparr>"
  by (simp add: demo_part_def demo_write)

lemma demo_two_run: "writer_run demo_blob demo_two [104, 101, 108, 108, 111] []"
proof -
  have "writer_run demo_blob demo_new [] []"
    unfolding demo_new_def by (rule writer_run.created)
  then have "writer_run demo_blob demo_one ([] @ [104, 101, 108]) []"
    by (rule writer_run.appended [OF _ demo_elems(1), where e = 7 and b = 1]) (simp_all add: demo_defs)
  then have "writer_run demo_blob demo_two (([] @ [104, 101, 108]) @ [108, 111]) []"
    by (rule writer_run.appended [OF _ demo_elems(2), where e = 8 and b = 2]) (simp_all add: demo_defs)
  then show ?thesis by simp
qed

lemma demo_part_run: "writer_run demo_blob demo_part [104, 101, 108, 108, 111] ([] @ [104, 101])"
  using demo_two_run
  by (rule writer_run.written [OF _ demo_elems(3), where n = 2])
     (simp_all add: demo_write demo_part_eq steady_def offered_def data_def, simp_all add: demo_defs)

theorem writer_stream_witness:
  "(\<exists>rest. pending demo_blob demo_part = Some rest \<and> [104, 101, 108, 108, 111] = [104, 101] @ rest)
    \<and> (\<exists>w'. aug_destroywriter demo_part = Some w' \<and> (\<forall>b. wr_refs w' b = 0))"
  using writer_stream [OF demo_part_run] by auto

text \<open>
  When the stream takes a further part of an entry it has taken a part of before and
  does not complete it, the writer forgets the first part: as many bytes as had been taken
  before the write are sent once more.
\<close>

lemma partial_write_resends:
  assumes "writer_run bd w app sent" "elems (wr_list w) = Some (e # es)"
    and "0 < wr_part w" "bd (wr_blob w e) = Some d" "wr_part w + n < length d"
  shows "\<exists>w' out x rest. aug_writesome bd (Inr n) w = (Inr n, w', out)
    \<and> app = sent @ out @ rest \<and> pending bd w' = Some (x @ rest) \<and> length x = wr_part w"
proof -
  obtain es' p where ok: "writer_ok bd w es'" "pending bd w = Some p" "app = sent @ p"
    using writer_run_ok [OF assms(1)] by blast
  have "es' = e # es"
    using holds_elems [OF writer_okD(1) [OF ok(1)]] assms(2) by simp
  then have ok1: "writer_ok bd w (e # es)" using ok(1) by simp
  let ?l = "map length (offered bd w (e # es))"
  have d: "data bd w e = d" using assms(4) by (simp add: data_def)
  have off: "offered bd w (e # es) = drop (wr_part w) d # map (data bd w) (take 63 es)"
    by (simp add: offered_def d)
  have pops: "pops ?l n = (0, n)"
    using assms(5) by (auto simp: off)
  have "n \<le> length (concat (offered bd w (e # es)))"
    using assms(5) by (simp add: off)
  then obtain q refs w' where w': "aug_writesome bd (Inr n) w = (Inr n, w', take n (concat (offered bd w (e # es))))"
      "w' = w\<lparr>wr_list := q, wr_refs := refs, wr_part := n, wr_size := length (e # es)\<rparr>" "holds q (e # es)"
    using writesome_pops [OF ok1, of n] pops by auto
  let ?rest = "drop (wr_part w + n) d @ concat (map (data bd w) es)"
  have "data bd w' = data bd w"
    using w'(2) by (auto simp: data_def fun_eq_iff)
  then have "pending bd w' = Some (drop n d @ concat (map (data bd w) es))"
    using holds_elems [OF w'(3)] w'(2) assms(5) d by (simp add: pending_def)
  moreover have "drop n d = take (wr_part w) (drop n d) @ drop (wr_part w + n) d"
    by (metis append_take_drop_id drop_drop)
  ultimately have "pending bd w' = Some (take (wr_part w) (drop n d) @ ?rest)"
    by (metis append_assoc)
  moreover have "take n (concat (offered bd w (e # es))) = take n (drop (wr_part w) d)"
    using assms(5) by (simp add: off)
  moreover have "app = sent @ take n (drop (wr_part w) d) @ ?rest"
  proof -
    have "p = drop (wr_part w) d @ concat (map (data bd w) es)"
      using ok(2) writer_okD(7) [OF ok1] d assms(5) by simp
    moreover have "drop (wr_part w) d = take n (drop (wr_part w) d) @ drop (wr_part w + n) d"
      by (metis append_take_drop_id drop_drop add.commute)
    ultimately show ?thesis
      using ok(3) by (metis append_assoc)
  qed
  moreover have "length (take (wr_part w) (drop n d)) = wr_part w"
    using assms(5) by simp
  ultimately show ?thesis
    using w'(1) by metis
qed

theorem partial_write_resends_witness:
  "\<exists>w' out x rest. aug_writesome demo_blob (Inr 0) demo_part = (Inr 0, w', out)
    \<and> [104, 101, 108, 108, 111] = ([] @ [104, 101]) @ out @ rest \<and> pending demo_blob w' = Some (x @ rest)
    \<and> length x = wr_part demo_part"
  by (rule partial_write_resends [OF demo_part_run, of 7 "[8]" "[104, 101, 108]"])
     (simp_all add: demo_part_eq demo_elems, simp_all add: demo_defs)

end
