(* ===== verification/Muxer.thy ===== *)
theory Muxer
  imports Prelude
begin

text \<open>
  The multiplexers of \<^verbatim>\<open>augsys/posix/muxer.c\<close>: the one over \<^verbatim>\<open>select\<close>, which is the one
  built, and the one over \<^verbatim>\<open>poll\<close>, which the file keeps behind \<^verbatim>\<open>HAVE_POLLx\<close>.  A
  descriptor is a natural number (-1 is no argument of these functions), a mask is the
  \<^verbatim>\<open>unsigned short\<close> of the code.  The system call is an argument: what it answers and what
  it leaves in the sets.

  The locale \<open>muxer\<close> is what the users of a multiplexer rely on; both implementations
  interpret it.
\<close>

section \<open>Events (augsys/muxer.h)\<close>

type_synonym md = nat
type_synonym mask = "16 word"

definition AUG_MDEVENTRD :: mask where "AUG_MDEVENTRD = 0x1"
definition AUG_MDEVENTWR :: mask where "AUG_MDEVENTWR = 0x2"
definition AUG_MDEVENTEX :: mask where "AUG_MDEVENTEX = 0x4"
definition AUG_MDEVENTRDWR :: mask where "AUG_MDEVENTRDWR = AUG_MDEVENTRD OR AUG_MDEVENTWR"
definition AUG_MDEVENTRDEX :: mask where "AUG_MDEVENTRDEX = AUG_MDEVENTRD OR AUG_MDEVENTEX"
definition AUG_MDEVENTALL :: mask where "AUG_MDEVENTALL = AUG_MDEVENTRDWR OR AUG_MDEVENTEX"
definition AUG_MDEVENTCONN :: mask where "AUG_MDEVENTCONN = AUG_MDEVENTWR OR AUG_MDEVENTEX"

lemmas event_defs = AUG_MDEVENTRD_def AUG_MDEVENTWR_def AUG_MDEVENTEX_def AUG_MDEVENTRDWR_def
  AUG_MDEVENTRDEX_def AUG_MDEVENTALL_def AUG_MDEVENTCONN_def

text \<open>A mask within \<^verbatim>\<open>AUG_MDEVENTALL\<close>.\<close>

definition event_mask :: "mask \<Rightarrow> bool" where
  "event_mask m \<longleftrightarrow> m AND NOT AUG_MDEVENTALL = 0"

text \<open>The labels of \<^verbatim>\<open>aug_eventlabel\<close>.\<close>

definition LABELS :: "string list" where
  "LABELS = [''___'', ''R__'', ''_W_'', ''RW_'', ''__X'', ''R_X'', ''_WX'', ''RWX'']"

definition aug_eventlabel :: "mask \<Rightarrow> string" where
  "aug_eventlabel events = LABELS ! unat (if length LABELS \<le> unat events then 0 else events)"

section \<open>The multiplexer over select\<close>

record fdsets =
  fd_rd :: "md \<Rightarrow> bool"
  fd_wr :: "md \<Rightarrow> bool"
  fd_ex :: "md \<Rightarrow> bool"

record smuxer =
  sm_in :: fdsets
  sm_out :: fdsets
  sm_maxfd :: int

definition FD_SETSIZE :: nat where "FD_SETSIZE = 1024"

definition zeroset :: fdsets where
  "zeroset = \<lparr>fd_rd = (\<lambda>_. False), fd_wr = (\<lambda>_. False), fd_ex = (\<lambda>_. False)\<rparr>"

definition select_external :: "fdsets \<Rightarrow> md \<Rightarrow> mask" where
  "select_external p md =
     (let dst = 0;
          dst = (if fd_rd p md then dst OR AUG_MDEVENTRD else dst);
          dst = (if fd_wr p md then dst OR AUG_MDEVENTWR else dst)
      in if fd_ex p md then dst OR AUG_MDEVENTEX else dst)"

text \<open>One of the three tests of \<^verbatim>\<open>setmdevents_\<close>.\<close>

definition set_bit_of :: "mask \<Rightarrow> mask \<Rightarrow> mask \<Rightarrow> md \<Rightarrow> (md \<Rightarrow> bool) \<Rightarrow> md \<Rightarrow> bool" where
  "set_bit_of add unset ev md f =
     (if add AND ev \<noteq> 0 then f(md := True) else if unset AND ev \<noteq> 0 then f(md := False) else f)"

definition setmdevents :: "fdsets \<Rightarrow> md \<Rightarrow> mask \<Rightarrow> fdsets" where
  "setmdevents p md evs =
     (let cur = select_external p md;
          add = NOT cur AND evs;
          unset = cur AND NOT evs
      in \<lparr>fd_rd = set_bit_of add unset AUG_MDEVENTRD md (fd_rd p),
          fd_wr = set_bit_of add unset AUG_MDEVENTWR md (fd_wr p),
          fd_ex = set_bit_of add unset AUG_MDEVENTEX md (fd_ex p)\<rparr>)"

definition select_create :: smuxer where
  "select_create = \<lparr>sm_in = zeroset, sm_out = zeroset, sm_maxfd = -1\<rparr>"

text \<open>The loop that looks for the highest descriptor with events set.\<close>

fun highest :: "fdsets \<Rightarrow> md \<Rightarrow> int" where
  "highest p md =
     (if fd_rd p md \<or> fd_wr p md \<or> fd_ex p md then int md
      else case md of 0 \<Rightarrow> -1 | Suc md' \<Rightarrow> highest p md')"

declare highest.simps [simp del]

definition select_setmask :: "smuxer \<Rightarrow> md \<Rightarrow> mask \<Rightarrow> (aug_fail + unit) \<times> smuxer" where
  "select_setmask m md evs =
     (if FD_SETSIZE \<le> md then (Inl (posix_except 24), m)
      else if evs AND NOT AUG_MDEVENTALL \<noteq> 0 then (Inl (ExError EINVAL), m)
      else
        let m1 = m\<lparr>sm_in := setmdevents (sm_in m) md evs\<rparr>
        in (Inr (), if sm_maxfd m1 \<le> int md then m1\<lparr>sm_maxfd := highest (sm_in m1) md\<rparr> else m1))"

text \<open>
  \<^verbatim>\<open>select\<close> gets the number of descriptors to look at and the sets, and answers an
  \<^verbatim>\<open>errno\<close> or a count, and the sets.
\<close>

type_synonym select_call = "int \<Rightarrow> fdsets \<Rightarrow> (nat + nat) \<times> fdsets"

definition select_wait :: "select_call \<Rightarrow> smuxer \<Rightarrow> (aug_fail + nat) \<times> smuxer" where
  "select_wait sel m =
     (let m1 = m\<lparr>sm_out := sm_in m\<rparr>;
          (ret, out) = sel (sm_maxfd m1 + 1) (sm_out m1);
          m2 = m1\<lparr>sm_out := out\<rparr>
      in case ret of
           Inl err \<Rightarrow> (Inl (posix_except err), m2)
         | Inr n \<Rightarrow> (Inr n, m2))"

text \<open>\<open>None\<close>: the descriptor lies outside the sets.\<close>

definition select_mask :: "smuxer \<Rightarrow> md \<Rightarrow> mask option" where
  "select_mask m md = (if md < FD_SETSIZE then Some (select_external (sm_in m) md) else None)"

definition select_events :: "smuxer \<Rightarrow> md \<Rightarrow> mask option" where
  "select_events m md = (if md < FD_SETSIZE then Some (select_external (sm_out m) md) else None)"

section \<open>The multiplexer over poll\<close>

record pollfd =
  pf_fd :: int
  pf_events :: mask
  pf_revents :: mask

record pmuxer =
  pm_fds :: "pollfd list"
  pm_nfds :: nat

definition POLLIN :: mask where "POLLIN = 0x1"
definition POLLPRI :: mask where "POLLPRI = 0x2"
definition POLLOUT :: mask where "POLLOUT = 0x4"
definition POLLERR :: mask where "POLLERR = 0x8"
definition POLLHUP :: mask where "POLLHUP = 0x10"
definition POLLNVAL :: mask where "POLLNVAL = 0x20"
definition POLLEX :: mask where "POLLEX = POLLPRI OR POLLERR OR POLLNVAL"

lemmas poll_defs = POLLIN_def POLLPRI_def POLLOUT_def POLLERR_def POLLHUP_def POLLNVAL_def POLLEX_def

definition poll_external :: "mask \<Rightarrow> mask" where
  "poll_external src =
     (let dst = 0;
          dst = (if src AND (POLLHUP OR POLLIN) \<noteq> 0 then dst OR AUG_MDEVENTRD else dst);
          dst = (if src AND POLLOUT \<noteq> 0 then dst OR AUG_MDEVENTWR else dst)
      in if src AND POLLEX \<noteq> 0 then dst OR AUG_MDEVENTEX else dst)"

definition poll_internal :: "mask \<Rightarrow> mask" where
  "poll_internal src =
     (let dst = 0;
          dst = (if src AND AUG_MDEVENTRD \<noteq> 0 then dst OR (POLLHUP OR POLLIN) else dst);
          dst = (if src AND AUG_MDEVENTWR \<noteq> 0 then dst OR POLLOUT else dst)
      in if src AND AUG_MDEVENTEX \<noteq> 0 then dst OR POLLPRI else dst)"

definition initpollfd :: pollfd where
  "initpollfd = \<lparr>pf_fd = -1, pf_events = 0, pf_revents = 0\<rparr>"

text \<open>Whether the allocator grants the request is the argument \<open>mem\<close>.\<close>

definition poll_resize :: "bool \<Rightarrow> pmuxer \<Rightarrow> nat \<Rightarrow> pmuxer option" where
  "poll_resize mem m n =
     (if mem then Some (m\<lparr>pm_fds := pm_fds m @ replicate (n - length (pm_fds m)) initpollfd\<rparr>) else None)"

definition poll_create :: "bool \<Rightarrow> pmuxer option" where
  "poll_create mem = poll_resize mem \<lparr>pm_fds = [], pm_nfds = 0\<rparr> 64"

text \<open>The loop that drops unused entries from the end, down to the one after \<open>md\<close>.\<close>

fun trim :: "pollfd list \<Rightarrow> nat \<Rightarrow> nat" where
  "trim fds 0 = 0"
| "trim fds (Suc md) = (if pf_fd (fds ! md) < 0 then trim fds md else Suc md)"

definition poll_store :: "pmuxer \<Rightarrow> md \<Rightarrow> mask \<Rightarrow> pmuxer" where
  "poll_store m md evs =
     (if evs \<noteq> 0 then
        let m1 = m\<lparr>pm_fds := (pm_fds m)[md := (pm_fds m ! md)\<lparr>pf_fd := int md, pf_events := poll_internal evs\<rparr>]\<rparr>
        in if pm_nfds m1 \<le> md then m1\<lparr>pm_nfds := md + 1\<rparr> else m1
      else
        let m1 = m\<lparr>pm_fds := (pm_fds m)[md := initpollfd]\<rparr>
        in if pm_nfds m1 = md + 1 then m1\<lparr>pm_nfds := trim (pm_fds m1) md\<rparr> else m1)"

definition poll_setmask :: "bool \<Rightarrow> pmuxer \<Rightarrow> md \<Rightarrow> mask \<Rightarrow> (aug_fail + unit) \<times> pmuxer" where
  "poll_setmask mem m md evs =
     (if evs AND NOT AUG_MDEVENTALL \<noteq> 0 then (Inl (ExError EINVAL), m)
      else
        case (if length (pm_fds m) \<le> md then poll_resize mem m (max (md + 1) (length (pm_fds m) * 2)) else Some m) of
          None \<Rightarrow> (Inl NoMem, m)
        | Some m1 \<Rightarrow> (Inr (), poll_store m1 md evs))"

text \<open>\<^verbatim>\<open>poll\<close> gets the first entries and answers an \<^verbatim>\<open>errno\<close> or a count, and their \<^verbatim>\<open>revents\<close>.\<close>

type_synonym poll_call = "pollfd list \<Rightarrow> (nat + nat) \<times> mask list"

definition poll_wait :: "poll_call \<Rightarrow> pmuxer \<Rightarrow> (aug_fail + nat) \<times> pmuxer" where
  "poll_wait poll m =
     (let fds = take (pm_nfds m) (pm_fds m);
          (ret, revents) = poll fds;
          m1 = m\<lparr>pm_fds := map2 (\<lambda>p r. p\<lparr>pf_revents := r\<rparr>) fds revents @ drop (pm_nfds m) (pm_fds m)\<rparr>
      in case ret of
           Inl err \<Rightarrow> (Inl (posix_except err), m1)
         | Inr n \<Rightarrow> (Inr n, m1))"

definition poll_mask :: "pmuxer \<Rightarrow> md \<Rightarrow> mask option" where
  "poll_mask m md = (if md < length (pm_fds m) then Some (poll_external (pf_events (pm_fds m ! md))) else None)"

definition poll_events :: "pmuxer \<Rightarrow> md \<Rightarrow> mask option" where
  "poll_events m md = (if md < length (pm_fds m) then Some (poll_external (pf_revents (pm_fds m ! md))) else None)"

section \<open>Masks bit by bit\<close>

lemma event_exps: "AUG_MDEVENTRD = 2 ^ 0" "AUG_MDEVENTWR = 2 ^ 1" "AUG_MDEVENTEX = 2 ^ 2"
  by (simp_all add: event_defs)

lemma bit_events [simp]:
  "bit AUG_MDEVENTRD n \<longleftrightarrow> n = 0" "bit AUG_MDEVENTWR n \<longleftrightarrow> n = 1" "bit AUG_MDEVENTEX n \<longleftrightarrow> n = 2"
  "bit AUG_MDEVENTRDWR n \<longleftrightarrow> n < 2" "bit AUG_MDEVENTALL n \<longleftrightarrow> n < 3"
  "bit AUG_MDEVENTRDEX n \<longleftrightarrow> n = 0 \<or> n = 2" "bit AUG_MDEVENTCONN n \<longleftrightarrow> n = 1 \<or> n = 2"
proof -
  show *: "bit AUG_MDEVENTRD n \<longleftrightarrow> n = 0" "bit AUG_MDEVENTWR n \<longleftrightarrow> n = 1" "bit AUG_MDEVENTEX n \<longleftrightarrow> n = 2"
    unfolding event_exps bit_exp_iff by auto
  show "bit AUG_MDEVENTRDWR n \<longleftrightarrow> n < 2" "bit AUG_MDEVENTALL n \<longleftrightarrow> n < 3"
    "bit AUG_MDEVENTRDEX n \<longleftrightarrow> n = 0 \<or> n = 2" "bit AUG_MDEVENTCONN n \<longleftrightarrow> n = 1 \<or> n = 2"
    by (auto simp: AUG_MDEVENTALL_def AUG_MDEVENTRDWR_def AUG_MDEVENTRDEX_def AUG_MDEVENTCONN_def bit_or_iff *)
qed

lemma and_event [simp]:
  "k AND AUG_MDEVENTRD = 0 \<longleftrightarrow> \<not> bit k 0"
  "k AND AUG_MDEVENTWR = 0 \<longleftrightarrow> \<not> bit k 1"
  "k AND AUG_MDEVENTEX = 0 \<longleftrightarrow> \<not> bit k 2"
  unfolding event_exps by (rule and_exp_eq_0_iff_not_bit)+

lemma event_mask_iff: "event_mask k \<longleftrightarrow> (\<forall>n. bit k n \<longrightarrow> n < 3)"
proof
  assume "event_mask k"
  then have "\<not> bit (k AND NOT AUG_MDEVENTALL) n" for n
    by (simp add: event_mask_def)
  then show "\<forall>n. bit k n \<longrightarrow> n < 3"
    by (metis bit_and_iff bit_events(5) bit_imp_possible_bit bit_not_iff)
next
  assume "\<forall>n. bit k n \<longrightarrow> n < 3"
  then show "event_mask k"
    unfolding event_mask_def by (intro bit_word_eqI) (auto simp: bit_and_iff bit_not_iff)
qed

lemma less_3_cases: "n < 3 \<Longrightarrow> n = 0 \<or> n = 1 \<or> n = (2::nat)"
  by linarith

lemma event_mask_eqI:
  assumes "event_mask k" "event_mask l" "bit k 0 = bit l 0" "bit k 1 = bit l 1" "bit k 2 = bit l 2"
  shows "k = l"
proof (rule bit_word_eqI)
  fix n
  show "bit k n = bit l n"
    using assms less_3_cases [of n] unfolding event_mask_iff by metis
qed

lemma event_mask_0 [simp]: "event_mask 0"
  by (simp add: event_mask_def)

section \<open>What a user relies on\<close>

text \<open>
  \<open>mask_at\<close> is the mask last set, \<open>polled\<close> what a wait asks the system for, \<open>known\<close> holds of the
  descriptors whose events may be read, \<open>waited\<close> relates the states before and after a wait.
\<close>

locale muxer =
  fixes set_mask :: "'m \<Rightarrow> md \<Rightarrow> mask \<Rightarrow> (aug_fail + unit) \<times> 'm"
    and events :: "'m \<Rightarrow> md \<Rightarrow> mask option"
    and mask_at :: "'m \<Rightarrow> md \<Rightarrow> mask"
    and polled :: "'m \<Rightarrow> md \<Rightarrow> mask"
    and known :: "'m \<Rightarrow> md \<Rightarrow> bool"
    and good :: "'m \<Rightarrow> bool"
    and valid :: "md \<Rightarrow> bool"
    and waited :: "'m \<Rightarrow> 'm \<Rightarrow> bool"
  assumes set_mask_ok: "good m \<Longrightarrow> valid md \<Longrightarrow> event_mask k \<Longrightarrow>
      \<exists>m'. set_mask m md k = (Inr (), m') \<and> good m' \<and> mask_at m' = (mask_at m)(md := k) \<and> known m' md
        \<and> (\<forall>d. known m d \<longrightarrow> known m' d) \<and> (\<forall>d. d \<noteq> md \<and> known m d \<longrightarrow> events m' d = events m d)"
    and set_mask_bad: "\<not> event_mask k \<or> \<not> valid md \<Longrightarrow> \<exists>f. set_mask m md k = (Inl f, m)"
    and events_known: "good m \<Longrightarrow> known m md \<Longrightarrow> \<exists>e. events m md = Some e \<and> event_mask e"
    and polled_mask: "good m \<Longrightarrow> polled m = mask_at m"
    and waited_same: "good m \<Longrightarrow> waited m m' \<Longrightarrow> good m' \<and> mask_at m' = mask_at m \<and> known m' = known m"

text \<open>A multiplexer that reports no event it was not asked for.\<close>

locale exact_muxer = muxer +
  assumes waited_subset: "good m \<Longrightarrow> waited m m' \<Longrightarrow> events m' md = Some e \<Longrightarrow> e AND NOT (mask_at m md) = 0"

section \<open>Select keeps the contract\<close>

definition smask :: "smuxer \<Rightarrow> md \<Rightarrow> mask" where
  "smask m md = select_external (sm_in m) md"

definition spolled :: "smuxer \<Rightarrow> md \<Rightarrow> mask" where
  "spolled m md = (if int md < sm_maxfd m + 1 then select_external (sm_in m) md else 0)"

definition sgood :: "smuxer \<Rightarrow> bool" where
  "sgood m \<longleftrightarrow>
     -1 \<le> sm_maxfd m \<and> sm_maxfd m < int FD_SETSIZE
     \<and> (\<forall>md. smask m md \<noteq> 0 \<longrightarrow> int md \<le> sm_maxfd m)
     \<and> (sm_maxfd m \<noteq> -1 \<longrightarrow> smask m (nat (sm_maxfd m)) \<noteq> 0)"

text \<open>What POSIX says of \<^verbatim>\<open>select\<close>: it sets no bit that was not set.\<close>

definition fdsets_le :: "fdsets \<Rightarrow> fdsets \<Rightarrow> bool" where
  "fdsets_le p q \<longleftrightarrow> (\<forall>md. (fd_rd p md \<longrightarrow> fd_rd q md) \<and> (fd_wr p md \<longrightarrow> fd_wr q md) \<and> (fd_ex p md \<longrightarrow> fd_ex q md))"

definition swaited :: "smuxer \<Rightarrow> smuxer \<Rightarrow> bool" where
  "swaited m m' \<longleftrightarrow> (\<exists>sel. (\<forall>n p. fdsets_le (snd (sel n p)) p) \<and> m' = snd (select_wait sel m))"

lemma bit_select_external:
  "bit (select_external p md) n \<longleftrightarrow> (n = 0 \<and> fd_rd p md) \<or> (n = 1 \<and> fd_wr p md) \<or> (n = 2 \<and> fd_ex p md)"
  by (auto simp: select_external_def bit_or_iff)

lemma event_mask_select [simp]: "event_mask (select_external p md)"
  by (auto simp: event_mask_iff bit_select_external)

lemma select_external_0_iff: "select_external p md = 0 \<longleftrightarrow> \<not> (fd_rd p md \<or> fd_wr p md \<or> fd_ex p md)"
proof -
  have "select_external p md = 0 \<longleftrightarrow> (\<forall>n. \<not> bit (select_external p md) n)"
    by (metis bit_0_eq bot_apply bit_word_eqI bot_bool_def)
  then show ?thesis by (auto simp: bit_select_external)
qed

lemma setmdevents_fd:
  "fd_rd (setmdevents p md k) d = (if d = md then bit k 0 else fd_rd p d)"
  "fd_wr (setmdevents p md k) d = (if d = md then bit k 1 else fd_wr p d)"
  "fd_ex (setmdevents p md k) d = (if d = md then bit k 2 else fd_ex p d)"
  by (auto simp: setmdevents_def set_bit_of_def bit_and_iff bit_not_iff bit_select_external Let_def)

lemma select_external_set:
  "event_mask k \<Longrightarrow> select_external (setmdevents p md k) d = (if d = md then k else select_external p d)"
  by (rule event_mask_eqI) (auto simp: bit_select_external setmdevents_fd)

lemma highest_spec:
  assumes "highest p md = h"
  shows "-1 \<le> h \<and> h \<le> int md \<and> (h \<noteq> -1 \<longrightarrow> select_external p (nat h) \<noteq> 0)
    \<and> (\<forall>d. h < int d \<and> d \<le> md \<longrightarrow> select_external p d = 0)"
  using assms
proof (induction md arbitrary: h)
  case 0
  then show ?case
    by (subst (asm) highest.simps) (auto simp: select_external_0_iff split: if_splits)
next
  case (Suc md)
  show ?case
  proof (cases "select_external p (Suc md) = 0")
    case True
    then have "highest p md = h"
      using Suc.prems by (subst (asm) highest.simps) (auto simp: select_external_0_iff split: if_splits)
    from Suc.IH [OF this] True show ?thesis
      by (auto simp: le_Suc_eq)
  next
    case False
    then have "h = int (Suc md)"
      using Suc.prems by (subst (asm) highest.simps) (auto simp: select_external_0_iff split: if_splits)
    with False show ?thesis by (auto simp: nat_add_distrib)
  qed
qed

lemma select_setmask_good:
  assumes g: "sgood m" and md: "md < FD_SETSIZE" and k: "event_mask k"
  shows "\<exists>m'. select_setmask m md k = (Inr (), m') \<and> sgood m' \<and> smask m' = (smask m)(md := k)
    \<and> sm_out m' = sm_out m"
proof -
  define m' where "m' = snd (select_setmask m md k)"
  let ?in = "setmdevents (sm_in m) md k"
  have m': "select_setmask m md k = (Inr (), m')" "sm_in m' = ?in" "sm_out m' = sm_out m"
      "sm_maxfd m' = (if sm_maxfd m \<le> int md then highest ?in md else sm_maxfd m)"
    using md k by (simp_all add: m'_def select_setmask_def event_mask_def Let_def)
  have mask: "smask m' = (smask m)(md := k)"
    using m'(2) select_external_set [OF k] by (auto simp: smask_def fun_eq_iff)
  have "sgood m'"
  proof (cases "sm_maxfd m \<le> int md")
    case True
    then have max: "sm_maxfd m' = highest ?in md"
      using m'(4) by simp
    have "int d \<le> highest ?in md" if "smask m' d \<noteq> 0" for d
    proof -
      have "d \<le> md"
        using that g True by (cases "d = md") (auto simp: mask sgood_def)
      then show ?thesis
        using that highest_spec [of ?in md] m'(2) by (force simp: smask_def)
    qed
    then show ?thesis
      using highest_spec [of ?in md] max md m'(2) by (auto simp: sgood_def smask_def)
  next
    case False
    then show ?thesis
      using g m'(4) by (auto simp: sgood_def mask)
  qed
  with m' mask show ?thesis by blast
qed

lemma swaited_good:
  assumes "sgood m" "swaited m m'"
  shows "sgood m' \<and> smask m' = smask m \<and> fdsets_le (sm_out m') (sm_in m)"
proof -
  obtain sel where sel: "\<forall>n p. fdsets_le (snd (sel n p)) p" "m' = snd (select_wait sel m)"
    using assms(2) by (auto simp: swaited_def)
  have "sm_in m' = sm_in m" "sm_maxfd m' = sm_maxfd m" "sm_out m' = snd (sel (sm_maxfd m + 1) (sm_in m))"
    using sel(2) by (auto simp: select_wait_def Let_def split: prod.splits sum.splits)
  with sel(1) assms(1) show ?thesis
    by (simp add: sgood_def smask_def fun_eq_iff)
qed

lemma select_external_le: "fdsets_le p q \<Longrightarrow> select_external p md AND NOT (select_external q md) = 0"
  by (rule bit_word_eqI) (auto simp: bit_and_iff bit_not_iff bit_select_external fdsets_le_def)

lemma sgood_create: "sgood select_create"
  by (auto simp: sgood_def select_create_def smask_def zeroset_def select_external_0_iff FD_SETSIZE_def)

interpretation sel: exact_muxer select_setmask select_events smask spolled "\<lambda>m md. md < FD_SETSIZE" sgood
    "\<lambda>md. md < FD_SETSIZE" swaited
proof
  fix m md k assume "sgood m" "md < FD_SETSIZE" "event_mask k"
  from select_setmask_good [OF this] show "\<exists>m'. select_setmask m md k = (Inr (), m') \<and> sgood m'
      \<and> smask m' = (smask m)(md := k) \<and> md < FD_SETSIZE \<and> (\<forall>d. d < FD_SETSIZE \<longrightarrow> d < FD_SETSIZE)
      \<and> (\<forall>d. d \<noteq> md \<and> d < FD_SETSIZE \<longrightarrow> select_events m' d = select_events m d)"
    using \<open>md < FD_SETSIZE\<close> by (auto simp: select_events_def)
next
  fix k md and m :: smuxer assume "\<not> event_mask k \<or> \<not> md < FD_SETSIZE"
  then show "\<exists>f. select_setmask m md k = (Inl f, m)"
    by (auto simp: select_setmask_def event_mask_def)
next
  fix m md assume "sgood m" "md < FD_SETSIZE"
  then show "\<exists>e. select_events m md = Some e \<and> event_mask e"
    by (simp add: select_events_def)
next
  fix m assume "sgood m"
  then show "spolled m = smask m"
    by (force simp: fun_eq_iff spolled_def smask_def sgood_def)
next
  fix m m' assume "sgood m" "swaited m m'"
  then show "sgood m' \<and> smask m' = smask m \<and> (\<lambda>md. md < FD_SETSIZE) = (\<lambda>md. md < FD_SETSIZE)"
    using swaited_good by blast
next
  fix m m' md e assume "sgood m" "swaited m m'" "select_events m' md = Some e"
  then show "e AND NOT (smask m md) = 0"
    using swaited_good [of m m'] by (auto simp: select_events_def smask_def intro: select_external_le split: if_splits)
qed

section \<open>Poll keeps the contract\<close>

definition pmask :: "pmuxer \<Rightarrow> md \<Rightarrow> mask" where
  "pmask m md = (if md < length (pm_fds m) then poll_external (pf_events (pm_fds m ! md)) else 0)"

definition ppolled :: "pmuxer \<Rightarrow> md \<Rightarrow> mask" where
  "ppolled m md =
     (if md < pm_nfds m \<and> pf_fd (pm_fds m ! md) = int md then poll_external (pf_events (pm_fds m ! md)) else 0)"

definition pgood :: "pmuxer \<Rightarrow> bool" where
  "pgood m \<longleftrightarrow>
     pm_nfds m \<le> length (pm_fds m)
     \<and> (\<forall>md < length (pm_fds m). pf_events (pm_fds m ! md) = 0 \<and> pf_fd (pm_fds m ! md) = -1
          \<or> pf_fd (pm_fds m ! md) = int md \<and> md < pm_nfds m)"

definition pwaited :: "pmuxer \<Rightarrow> pmuxer \<Rightarrow> bool" where
  "pwaited m m' \<longleftrightarrow> (\<exists>poll. (\<forall>fds. length (snd (poll fds)) = length fds) \<and> m' = snd (poll_wait poll m))"

lemma bit_poll [simp]:
  "bit POLLIN n \<longleftrightarrow> n = 0" "bit POLLPRI n \<longleftrightarrow> n = 1" "bit POLLOUT n \<longleftrightarrow> n = 2"
  "bit POLLERR n \<longleftrightarrow> n = 3" "bit POLLHUP n \<longleftrightarrow> n = 4" "bit POLLNVAL n \<longleftrightarrow> n = 5"
proof -
  have e: "POLLIN = 2 ^ 0" "POLLPRI = 2 ^ 1" "POLLOUT = 2 ^ 2" "POLLERR = 2 ^ 3" "POLLHUP = 2 ^ 4"
      "POLLNVAL = 2 ^ 5"
    by (simp_all add: poll_defs)
  show "bit POLLIN n \<longleftrightarrow> n = 0" "bit POLLPRI n \<longleftrightarrow> n = 1" "bit POLLOUT n \<longleftrightarrow> n = 2"
    "bit POLLERR n \<longleftrightarrow> n = 3" "bit POLLHUP n \<longleftrightarrow> n = 4" "bit POLLNVAL n \<longleftrightarrow> n = 5"
    unfolding e bit_exp_iff by auto
qed

lemma word_0_iff_bits: "(w :: 'a::len word) = 0 \<longleftrightarrow> (\<forall>n. \<not> bit w n)"
  by (metis bit_0_eq bot_apply bit_word_eqI bot_bool_def)

lemma bit_poll_external:
  "bit (poll_external r) n \<longleftrightarrow>
     (n = 0 \<and> (bit r 0 \<or> bit r 4)) \<or> (n = 1 \<and> bit r 2) \<or> (n = 2 \<and> (bit r 1 \<or> bit r 3 \<or> bit r 5))"
proof -
  have "r AND (POLLHUP OR POLLIN) = 0 \<longleftrightarrow> \<not> bit r 0 \<and> \<not> bit r 4" "r AND POLLOUT = 0 \<longleftrightarrow> \<not> bit r 2"
      "r AND POLLEX = 0 \<longleftrightarrow> \<not> bit r 1 \<and> \<not> bit r 3 \<and> \<not> bit r 5"
    by (auto simp: word_0_iff_bits bit_and_iff bit_or_iff POLLEX_def intro!: gr0I)
  then show ?thesis
    by (auto simp: poll_external_def bit_or_iff)
qed

lemma bit_poll_internal:
  "bit (poll_internal k) n \<longleftrightarrow>
     (bit k 0 \<and> (n = 0 \<or> n = 4)) \<or> (bit k 1 \<and> n = 2) \<or> (bit k 2 \<and> n = 1)"
  by (auto simp: poll_internal_def bit_or_iff)

lemma event_mask_poll [simp]: "event_mask (poll_external r)"
  by (auto simp: event_mask_iff bit_poll_external)

lemma poll_external_internal: "event_mask k \<Longrightarrow> poll_external (poll_internal k) = k"
  by (rule event_mask_eqI) (auto simp: bit_poll_external bit_poll_internal)

lemma poll_external_0 [simp]: "poll_external 0 = 0"
  by (simp add: poll_external_def)

lemma trim_spec:
  "trim fds n \<le> n \<and> (\<forall>d. trim fds n \<le> d \<and> d < n \<longrightarrow> pf_fd (fds ! d) < 0)"
  by (induction fds n rule: trim.induct) (auto simp: less_Suc_eq)

lemma poll_store_good:
  assumes g: "pgood m" and md: "md < length (pm_fds m)" and k: "event_mask k"
  shows "pgood (poll_store m md k) \<and> pmask (poll_store m md k) = (pmask m)(md := k)
    \<and> length (pm_fds (poll_store m md k)) = length (pm_fds m)
    \<and> (\<forall>d. d \<noteq> md \<longrightarrow> poll_events (poll_store m md k) d = poll_events m d)"
proof (cases "k = 0")
  case False
  then have fds: "pm_fds (poll_store m md k) =
      (pm_fds m)[md := (pm_fds m ! md)\<lparr>pf_fd := int md, pf_events := poll_internal k\<rparr>]"
      "pm_nfds (poll_store m md k) = max (pm_nfds m) (md + 1)"
    by (auto simp: poll_store_def Let_def)
  then show ?thesis
    using g md k by (auto simp: pgood_def pmask_def poll_events_def nth_list_update poll_external_internal fun_eq_iff)
next
  case True
  then have fds: "pm_fds (poll_store m md k) = (pm_fds m)[md := initpollfd]"
      "pm_nfds (poll_store m md k) =
        (if pm_nfds m = md + 1 then trim ((pm_fds m)[md := initpollfd]) md else pm_nfds m)"
    by (auto simp: poll_store_def Let_def)
  have "pf_events (pm_fds (poll_store m md k) ! d) = 0 \<and> pf_fd (pm_fds (poll_store m md k) ! d) = -1
      \<or> pf_fd (pm_fds (poll_store m md k) ! d) = int d \<and> d < pm_nfds (poll_store m md k)"
    if d: "d < length (pm_fds m)" for d
  proof (cases "d = md")
    case True
    with md show ?thesis by (simp add: fds initpollfd_def)
  next
    case False
    show ?thesis
    proof (cases "pf_events (pm_fds m ! d) = 0 \<and> pf_fd (pm_fds m ! d) = -1")
      case True
      with False show ?thesis by (simp add: fds)
    next
      case c: False
      then have old: "pf_fd (pm_fds m ! d) = int d" "d < pm_nfds m"
        using g d by (auto simp: pgood_def)
      have "d < trim ((pm_fds m)[md := initpollfd]) md" if "pm_nfds m = md + 1"
      proof (rule ccontr)
        assume "\<not> ?thesis"
        then have "pf_fd ((pm_fds m)[md := initpollfd] ! d) < 0"
          using trim_spec [of "(pm_fds m)[md := initpollfd]" md] that old(2) False by auto
        with old(1) False show False by simp
      qed
      with old False show ?thesis by (simp add: fds)
    qed
  qed
  moreover have "pm_nfds (poll_store m md k) \<le> length (pm_fds m)"
    using g md trim_spec [of "(pm_fds m)[md := initpollfd]" md] by (auto simp: fds pgood_def)
  ultimately have "pgood (poll_store m md k)"
    by (simp add: pgood_def fds)
  then show ?thesis
    using md fds(1) by (auto simp: True pmask_def poll_events_def nth_list_update initpollfd_def fun_eq_iff)
qed

lemma poll_resize_good:
  assumes "pgood m" "poll_resize mem m n = Some m'"
  shows "pgood m' \<and> pmask m' = pmask m \<and> length (pm_fds m') = max n (length (pm_fds m))
    \<and> (\<forall>d < length (pm_fds m). poll_events m' d = poll_events m d)"
proof -
  have m': "pm_fds m' = pm_fds m @ replicate (n - length (pm_fds m)) initpollfd" "pm_nfds m' = pm_nfds m"
    using assms(2) by (auto simp: poll_resize_def split: if_splits)
  then show ?thesis
    using assms(1)
    by (auto simp: pgood_def pmask_def poll_events_def nth_append initpollfd_def fun_eq_iff)
qed

lemma poll_setmask_good:
  assumes g: "pgood m" and k: "event_mask k"
  shows "\<exists>m'. poll_setmask True m md k = (Inr (), m') \<and> pgood m' \<and> pmask m' = (pmask m)(md := k)
    \<and> md < length (pm_fds m') \<and> length (pm_fds m) \<le> length (pm_fds m')
    \<and> (\<forall>d. d \<noteq> md \<and> d < length (pm_fds m) \<longrightarrow> poll_events m' d = poll_events m d)"
proof (cases "length (pm_fds m) \<le> md")
  case True
  obtain m1 where m1: "poll_resize True m (max (md + 1) (length (pm_fds m) * 2)) = Some m1"
    by (simp add: poll_resize_def)
  note r = poll_resize_good [OF g m1]
  then have "md < length (pm_fds m1)" by simp
  from poll_store_good [OF _ this k] r True m1 k show ?thesis
    by (auto simp: poll_setmask_def event_mask_def)
next
  case False
  with poll_store_good [OF g, of md k] k show ?thesis
    by (auto simp: poll_setmask_def event_mask_def)
qed

lemma pwaited_good:
  assumes "pgood m" "pwaited m m'"
  shows "pgood m' \<and> pmask m' = pmask m \<and> length (pm_fds m') = length (pm_fds m)"
proof -
  obtain poll where poll: "\<forall>fds. length (snd (poll fds)) = length fds" "m' = snd (poll_wait poll m)"
    using assms(2) by (auto simp: pwaited_def)
  let ?n = "pm_nfds m"
  have le: "?n \<le> length (pm_fds m)"
    using assms(1) by (simp add: pgood_def)
  let ?new = "map2 (\<lambda>p r. p\<lparr>pf_revents := r\<rparr>) (take ?n (pm_fds m)) (snd (poll (take ?n (pm_fds m)))) @ drop ?n (pm_fds m)"
  have m': "pm_fds m' = ?new" "pm_nfds m' = ?n"
    using poll(2) by (auto simp: poll_wait_def Let_def split: prod.splits sum.splits)
  have len: "length ?new = length (pm_fds m)"
    using poll(1) le by simp
  have "pf_fd (?new ! d) = pf_fd (pm_fds m ! d) \<and> pf_events (?new ! d) = pf_events (pm_fds m ! d)"
    if "d < length (pm_fds m)" for d
    using that le poll(1) by (auto simp: nth_append)
  with len show ?thesis
    using assms(1) by (simp add: pgood_def pmask_def m' fun_eq_iff)
qed

lemma pgood_create: "poll_create True = Some m \<Longrightarrow> pgood m"
  by (auto simp: poll_create_def poll_resize_def pgood_def initpollfd_def)

interpretation pol: muxer "poll_setmask True" poll_events pmask ppolled "\<lambda>m md. md < length (pm_fds m)" pgood
    "\<lambda>_. True" pwaited
proof
  fix m md k assume "pgood m" "event_mask k"
  from poll_setmask_good [OF this, of md] show "\<exists>m'. poll_setmask True m md k = (Inr (), m') \<and> pgood m'
      \<and> pmask m' = (pmask m)(md := k) \<and> md < length (pm_fds m')
      \<and> (\<forall>d. d < length (pm_fds m) \<longrightarrow> d < length (pm_fds m'))
      \<and> (\<forall>d. d \<noteq> md \<and> d < length (pm_fds m) \<longrightarrow> poll_events m' d = poll_events m d)"
    by (metis less_le_trans)
next
  fix k and md :: md and m :: pmuxer assume "\<not> event_mask k \<or> \<not> True"
  then show "\<exists>f. poll_setmask True m md k = (Inl f, m)"
    by (auto simp: poll_setmask_def event_mask_def)
next
  fix md and m :: pmuxer assume "md < length (pm_fds m)"
  then show "\<exists>e. poll_events m md = Some e \<and> event_mask e"
    by (simp add: poll_events_def)
next
  fix m :: pmuxer assume "pgood m"
  then show "ppolled m = pmask m"
    by (force simp: fun_eq_iff ppolled_def pmask_def pgood_def)
next
  fix m m' :: pmuxer assume "pgood m" "pwaited m m'"
  then show "pgood m' \<and> pmask m' = pmask m \<and> (\<lambda>md. md < length (pm_fds m')) = (\<lambda>md. md < length (pm_fds m))"
    using pwaited_good by simp
qed

end
