(* ===== verification/Sticky.thy ===== *)
theory Sticky
  imports Muxer
begin

text \<open>
  Sticky events (\<^verbatim>\<open>augsys/sticky.c\<close>): the readable and writable events of a descriptor are
  kept until they are cleared, so that a user may treat a level-triggered multiplexer as
  an edge-triggered one.  The multiplexer's \<^verbatim>\<open>aug_setmdeventmask\<close> and \<^verbatim>\<open>aug_getmdevents\<close> are the
  arguments \<open>set_mask\<close> and \<open>events\<close>; what is proved of the operations under the contract
  \<open>muxer\<close> holds of both multiplexers.  An \<^verbatim>\<open>md_\<close> of -1 is \<open>None\<close>.
\<close>

section \<open>The operations\<close>

record sticky =
  sk_md :: "md option"
  sk_mask :: mask
  sk_internal :: mask

type_synonym 'm set_op = "'m \<Rightarrow> md \<Rightarrow> mask \<Rightarrow> (aug_fail + unit) \<times> 'm"
type_synonym 'm get_op = "'m \<Rightarrow> md \<Rightarrow> mask option"

definition EXTERNAL :: "sticky \<Rightarrow> mask" where
  "EXTERNAL st = sk_internal st AND sk_mask st"

definition setmdeventmask :: "'m set_op \<Rightarrow> 'm \<Rightarrow> sticky \<Rightarrow> mask \<Rightarrow> (aug_fail + unit) \<times> 'm" where
  "setmdeventmask set_mask m st k =
     (case sk_md st of None \<Rightarrow> (Inl Undefined, m) | Some md \<Rightarrow> set_mask m md k)"

definition aug_setsticky :: "'m set_op \<Rightarrow> 'm \<Rightarrow> sticky \<Rightarrow> mask \<Rightarrow> (aug_fail + unit) \<times> sticky \<times> 'm" where
  "aug_setsticky set_mask m st k =
     (let events = k AND AUG_MDEVENTRDWR;
          st1 = st\<lparr>sk_internal := sk_internal st OR (events AND NOT (sk_mask st))\<rparr>;
          st2 = st1\<lparr>sk_mask := k\<rparr>;
          (r, m') = setmdeventmask set_mask m st2 (if EXTERNAL st2 = 0 then k else 0)
      in (r, st2, m'))"

definition aug_initsticky :: "'m set_op \<Rightarrow> 'm \<Rightarrow> md \<Rightarrow> mask \<Rightarrow> (aug_fail + unit) \<times> sticky \<times> 'm" where
  "aug_initsticky set_mask m md k =
     aug_setsticky set_mask m \<lparr>sk_md = Some md, sk_mask = 0, sk_internal = 0\<rparr> k"

definition aug_termsticky :: "'m set_op \<Rightarrow> 'm \<Rightarrow> sticky \<Rightarrow> sticky \<times> 'm" where
  "aug_termsticky set_mask m st =
     (\<lparr>sk_md = None, sk_mask = 0, sk_internal = 0\<rparr>, snd (setmdeventmask set_mask m st 0))"

definition aug_clearsticky :: "'m set_op \<Rightarrow> 'm \<Rightarrow> sticky \<Rightarrow> mask \<Rightarrow> (aug_fail + unit) \<times> sticky \<times> 'm" where
  "aug_clearsticky set_mask m st k =
     (let st1 = st\<lparr>sk_internal := sk_internal st AND NOT k\<rparr>
      in if sk_mask st1 \<noteq> 0 \<and> EXTERNAL st1 = 0 then
           let (r, m') = setmdeventmask set_mask m st1 (sk_mask st1) in (r, st1, m')
         else (Inr (), st1, m))"

text \<open>\<open>None\<close>: the multiplexer is asked for a descriptor it does not have.\<close>

definition aug_getsticky :: "'m set_op \<Rightarrow> 'm get_op \<Rightarrow> 'm \<Rightarrow> sticky \<Rightarrow> mask option \<times> sticky \<times> 'm" where
  "aug_getsticky set_mask events m st =
     (if sk_mask st = 0 then (Some 0, st, m)
      else if EXTERNAL st \<noteq> 0 then (Some (EXTERNAL st), st, m)
      else
        case Option.bind (sk_md st) (events m) of
          None \<Rightarrow> (None, st, m)
        | Some ev \<Rightarrow>
            let st1 = st\<lparr>sk_internal := sk_internal st OR (ev AND AUG_MDEVENTRDWR)\<rparr>
            in (Some ev, st1,
                if EXTERNAL st1 \<noteq> 0 then snd (setmdeventmask set_mask m st1 0) else m))"

section \<open>One descriptor\<close>

text \<open>The invariants of \<^verbatim>\<open>augsys/sticky.h\<close>; \<open>mask_at\<close> is the mask the multiplexer has.\<close>

definition armed :: "sticky \<Rightarrow> mask" where
  "armed st = (if EXTERNAL st = 0 then sk_mask st else 0)"

definition sticky_ok :: "('m \<Rightarrow> md \<Rightarrow> mask) \<Rightarrow> ('m \<Rightarrow> md \<Rightarrow> bool) \<Rightarrow> 'm \<Rightarrow> md \<Rightarrow> sticky \<Rightarrow> bool" where
  "sticky_ok mask_at known m md st \<longleftrightarrow>
     sk_md st = Some md \<and> event_mask (sk_mask st) \<and> sk_internal st AND NOT AUG_MDEVENTRDWR = 0
     \<and> known m md \<and> mask_at m md = armed st"

text \<open>All descriptors of a multiplexer: those without sticky events are not registered.\<close>

definition stickies_ok ::
  "('m \<Rightarrow> md \<Rightarrow> mask) \<Rightarrow> ('m \<Rightarrow> md \<Rightarrow> bool) \<Rightarrow> 'm \<Rightarrow> (md \<Rightarrow> sticky option) \<Rightarrow> bool" where
  "stickies_ok mask_at known m sts \<longleftrightarrow>
     (\<forall>md. case sts md of None \<Rightarrow> mask_at m md = 0 | Some st \<Rightarrow> sticky_ok mask_at known m md st)"

lemma rdwr_internal:
  assumes "i AND NOT AUG_MDEVENTRDWR = 0"
  shows "(i OR ((k AND AUG_MDEVENTRDWR) AND NOT l)) AND NOT AUG_MDEVENTRDWR = 0"
    and "(i OR (k AND AUG_MDEVENTRDWR)) AND NOT AUG_MDEVENTRDWR = 0"
    and "(i AND NOT k) AND NOT AUG_MDEVENTRDWR = 0"
proof -
  have "n < 2" if "bit i n" for n
  proof -
    have "\<not> bit (i AND NOT AUG_MDEVENTRDWR) n" by (simp add: assms)
    with that show ?thesis by (metis bit_and_iff bit_events(4) bit_imp_possible_bit bit_not_iff)
  qed
  then show "(i OR ((k AND AUG_MDEVENTRDWR) AND NOT l)) AND NOT AUG_MDEVENTRDWR = 0"
    "(i OR (k AND AUG_MDEVENTRDWR)) AND NOT AUG_MDEVENTRDWR = 0"
    "(i AND NOT k) AND NOT AUG_MDEVENTRDWR = 0"
    by (auto simp: word_0_iff_bits bit_and_iff bit_or_iff bit_not_iff)
qed

context muxer
begin

abbreviation ok :: "'m \<Rightarrow> md \<Rightarrow> sticky \<Rightarrow> bool" where "ok \<equiv> sticky_ok mask_at known"

abbreviation all_ok :: "'m \<Rightarrow> (md \<Rightarrow> sticky option) \<Rightarrow> bool" where "all_ok \<equiv> stickies_ok mask_at known"

text \<open>From \<open>m\<close> to \<open>m'\<close> only the masks of the descriptors \<open>D\<close> may have changed.\<close>

definition mux_step :: "md set \<Rightarrow> 'm \<Rightarrow> 'm \<Rightarrow> bool" where
  "mux_step D m m' \<longleftrightarrow> good m' \<and> (\<forall>d. known m d \<longrightarrow> known m' d) \<and> (\<forall>d. d \<notin> D \<longrightarrow> mask_at m' d = mask_at m d)"

lemma mux_step_refl: "good m \<Longrightarrow> mux_step D m m"
  by (simp add: mux_step_def)

lemma mux_step_good: "mux_step D m m' \<Longrightarrow> good m'"
  by (simp add: mux_step_def)

lemma mux_step_known: "mux_step D m m' \<Longrightarrow> known m d \<Longrightarrow> known m' d"
  by (simp add: mux_step_def)

lemma mux_step_trans: "mux_step D m m' \<Longrightarrow> mux_step D m' m'' \<Longrightarrow> mux_step D m m''"
  by (simp add: mux_step_def)

lemma mux_step_mono: "mux_step D m m' \<Longrightarrow> D \<subseteq> E \<Longrightarrow> mux_step E m m'"
  unfolding mux_step_def by blast

lemma mux_step_ok: "mux_step D m m' \<Longrightarrow> ok m md st \<Longrightarrow> md \<notin> D \<Longrightarrow> ok m' md st"
  by (auto simp: mux_step_def sticky_ok_def)

lemma set_mask_step:
  assumes "good m" "valid md" "event_mask k"
  shows "\<exists>m'. set_mask m md k = (Inr (), m') \<and> mux_step {md} m m' \<and> mask_at m' md = k \<and> known m' md"
proof -
  obtain m' where "set_mask m md k = (Inr (), m')" "good m'" "mask_at m' = (mask_at m)(md := k)" "known m' md"
      "\<forall>d. known m d \<longrightarrow> known m' d"
    using set_mask_ok [OF assms] by blast
  then show ?thesis by (auto simp: mux_step_def)
qed

lemma set_mask_snd: "good m \<Longrightarrow> mux_step {md} m (snd (set_mask m md k))"
proof (cases "event_mask k \<and> valid md")
  case True
  assume "good m"
  then show ?thesis using set_mask_step [of m md k] True by auto
next
  case False
  assume "good m"
  then show ?thesis using set_mask_bad [of k md m] False mux_step_refl by auto
qed

lemma set_mask_one:
  assumes "good m" "valid md" "event_mask k"
    and "sk_md st = Some md" "event_mask (sk_mask st)" "sk_internal st AND NOT AUG_MDEVENTRDWR = 0" "armed st = k"
  shows "\<exists>m'. set_mask m md k = (Inr (), m') \<and> mux_step {md} m m' \<and> ok m' md st"
  using set_mask_step [OF assms(1-3)] assms(4-7) by (auto simp: sticky_ok_def)

lemma setsticky_one:
  assumes "good m" "valid md" "event_mask k" and st: "sk_md st = Some md" "sk_internal st AND NOT AUG_MDEVENTRDWR = 0"
  shows "\<exists>st' m'. aug_setsticky set_mask m st k = (Inr (), st', m') \<and> mux_step {md} m m' \<and> ok m' md st' \<and> sk_mask st' = k"
proof -
  let ?st = "st\<lparr>sk_internal := sk_internal st OR ((k AND AUG_MDEVENTRDWR) AND NOT (sk_mask st)), sk_mask := k\<rparr>"
  have "event_mask (armed ?st)"
    using assms(3) by (simp add: armed_def)
  then obtain m' where "set_mask m md (armed ?st) = (Inr (), m')" "mux_step {md} m m'" "ok m' md ?st"
    using set_mask_one [of m md "armed ?st" ?st] assms rdwr_internal(1) [OF st(2)] by auto
  then show ?thesis
    using st(1) by (auto simp: aug_setsticky_def setmdeventmask_def armed_def Let_def)
qed

lemma initsticky_one:
  "good m \<Longrightarrow> valid md \<Longrightarrow> event_mask k \<Longrightarrow>
   \<exists>st' m'. aug_initsticky set_mask m md k = (Inr (), st', m') \<and> mux_step {md} m m' \<and> ok m' md st'"
  using setsticky_one [of m md k "\<lparr>sk_md = Some md, sk_mask = 0, sk_internal = 0\<rparr>"]
  unfolding aug_initsticky_def by auto

lemma clearsticky_one:
  assumes "good m" "valid md" "ok m md st"
  shows "\<exists>st' m'. aug_clearsticky set_mask m st k = (Inr (), st', m') \<and> mux_step {md} m m' \<and> ok m' md st'"
proof -
  let ?st = "st\<lparr>sk_internal := sk_internal st AND NOT k\<rparr>"
  show ?thesis
  proof (cases "sk_mask st \<noteq> 0 \<and> EXTERNAL ?st = 0")
    case True
    then obtain m' where "set_mask m md (sk_mask st) = (Inr (), m')" "mux_step {md} m m'" "ok m' md ?st"
      using set_mask_one [of m md "sk_mask st" ?st] assms rdwr_internal(3) [of "sk_internal st" k]
      by (auto simp: sticky_ok_def armed_def)
    then show ?thesis
      using assms(3) True by (auto simp: aug_clearsticky_def setmdeventmask_def sticky_ok_def)
  next
    case False
    then have "EXTERNAL st \<noteq> 0 \<or> sk_mask st = 0"
      by (auto simp: EXTERNAL_def word_0_iff_bits bit_and_iff bit_not_iff)
    then have "armed ?st = armed st"
      using False by (auto simp: armed_def)
    then have "ok m md ?st"
      using assms(3) rdwr_internal(3) [of "sk_internal st" k] by (simp add: sticky_ok_def)
    then show ?thesis
      using False mux_step_refl [OF assms(1)] by (auto simp: aug_clearsticky_def)
  qed
qed

lemma termsticky_one:
  assumes "good m" "sk_md st = Some md"
  shows "\<exists>m'. aug_termsticky set_mask m st = (\<lparr>sk_md = None, sk_mask = 0, sk_internal = 0\<rparr>, m') \<and> mux_step {md} m m'
    \<and> (valid md \<longrightarrow> mask_at m' md = 0)"
  using set_mask_snd [OF assms(1), of md 0] set_mask_step [OF assms(1), of md 0] assms(2)
  by (auto simp: aug_termsticky_def setmdeventmask_def)

lemma getsticky_one:
  assumes "good m" "valid md" "ok m md st"
  shows "\<exists>ev st' m'. aug_getsticky set_mask events m st = (Some ev, st', m') \<and> mux_step {md} m m' \<and> ok m' md st'"
proof -
  obtain ev where ev: "events m md = Some ev" "event_mask ev"
    using events_known [OF assms(1)] assms(3) by (auto simp: sticky_ok_def)
  let ?st = "st\<lparr>sk_internal := sk_internal st OR (ev AND AUG_MDEVENTRDWR)\<rparr>"
  consider "sk_mask st = 0 \<or> EXTERNAL st \<noteq> 0" | "sk_mask st \<noteq> 0" "EXTERNAL st = 0" "EXTERNAL ?st = 0"
    | "sk_mask st \<noteq> 0" "EXTERNAL st = 0" "EXTERNAL ?st \<noteq> 0"
    by blast
  then show ?thesis
  proof cases
    case 1
    then show ?thesis
      using assms mux_step_refl by (auto simp: aug_getsticky_def)
  next
    case 2
    then have "ok m md ?st"
      using assms(3) rdwr_internal(2) [of "sk_internal st" ev] by (auto simp: sticky_ok_def armed_def)
    then show ?thesis
      using 2 assms ev mux_step_refl by (auto simp: aug_getsticky_def sticky_ok_def)
  next
    case 3
    then obtain m' where "set_mask m md 0 = (Inr (), m')" "mux_step {md} m m'" "ok m' md ?st"
      using set_mask_one [of m md 0 ?st] assms rdwr_internal(2) [of "sk_internal st" ev]
      by (auto simp: sticky_ok_def armed_def)
    then show ?thesis
      using 3 assms(3) ev by (auto simp: aug_getsticky_def setmdeventmask_def sticky_ok_def)
  qed
qed

text \<open>All descriptors at once: what was done with one of them keeps the others.\<close>

lemma all_ok_iff:
  "all_ok m sts \<longleftrightarrow> (\<forall>md. sts md = None \<longrightarrow> mask_at m md = 0) \<and> (\<forall>md st. sts md = Some st \<longrightarrow> ok m md st)"
  by (auto simp: stickies_ok_def split: option.splits)

lemma ok_all: "all_ok m sts \<Longrightarrow> mux_step {md} m m' \<Longrightarrow> ok m' md st \<Longrightarrow> good m' \<and> all_ok m' (sts(md \<mapsto> st))"
  by (auto simp: all_ok_iff mux_step_def sticky_ok_def)

lemma all_ok_at: "all_ok m sts \<Longrightarrow> sts md = Some st \<Longrightarrow> ok m md st"
  by (auto simp: stickies_ok_def dest!: spec [of _ md])

lemma setsticky_all:
  assumes "good m" "valid md" "event_mask k" "all_ok m sts"
    and st: "sk_md st = Some md" "sk_internal st AND NOT AUG_MDEVENTRDWR = 0"
  shows "\<exists>st' m'. aug_setsticky set_mask m st k = (Inr (), st', m') \<and> good m' \<and> all_ok m' (sts(md \<mapsto> st'))"
  using setsticky_one [OF assms(1-3) st] ok_all [OF assms(4)] by blast

lemma initsticky_all:
  "good m \<Longrightarrow> valid md \<Longrightarrow> event_mask k \<Longrightarrow> all_ok m sts \<Longrightarrow>
   \<exists>st' m'. aug_initsticky set_mask m md k = (Inr (), st', m') \<and> good m' \<and> all_ok m' (sts(md \<mapsto> st'))"
  using initsticky_one ok_all by blast

lemma clearsticky_all:
  assumes "good m" "valid md" "all_ok m sts" "sts md = Some st"
  shows "\<exists>st' m'. aug_clearsticky set_mask m st k = (Inr (), st', m') \<and> good m' \<and> all_ok m' (sts(md \<mapsto> st'))"
  using clearsticky_one [OF assms(1,2) all_ok_at [OF assms(3,4)]] ok_all [OF assms(3)] by blast

lemma termsticky_all:
  assumes "good m" "valid md" "all_ok m sts" "sts md = Some st" "aug_termsticky set_mask m st = (st', m')"
  shows "good m' \<and> all_ok m' (sts(md := None))"
proof -
  have "sk_md st = Some md"
    using all_ok_at [OF assms(3,4)] by (simp add: sticky_ok_def)
  then have m': "mux_step {md} m m'" "mask_at m' md = 0"
    using termsticky_one [OF assms(1), of st md] assms(2,5) by auto
  then show ?thesis
    using assms(3) by (auto simp: all_ok_iff mux_step_def sticky_ok_def)
qed

lemma getsticky_all:
  assumes "good m" "valid md" "all_ok m sts" "sts md = Some st"
  shows "\<exists>ev st' m'. aug_getsticky set_mask events m st = (Some ev, st', m') \<and> good m' \<and> all_ok m' (sts(md \<mapsto> st'))"
  using getsticky_one [OF assms(1,2) all_ok_at [OF assms(3,4)]] ok_all [OF assms(3)] by blast

lemma waited_all:
  assumes "good m" "waited m m'" "all_ok m sts"
  shows "good m' \<and> all_ok m' sts"
proof -
  have "good m'" "mask_at m' = mask_at m" "known m' = known m"
    using waited_same [OF assms(1,2)] by simp_all
  then show ?thesis
    using assms(3) by (simp add: stickies_ok_def sticky_ok_def cong: option.case_cong)
qed

end

section \<open>A multiplexer and its descriptors in use\<close>

text \<open>
  \<open>sticky_run set_mask events waits m0 m sts\<close>: from the multiplexer \<open>m0\<close> any sequence of the
  operations, on any descriptors, and of waits has led to \<open>m\<close> and to the sticky state \<open>sts md\<close>
  of each descriptor in use.
\<close>

inductive sticky_run ::
  "'m set_op \<Rightarrow> 'm get_op \<Rightarrow> ('m \<Rightarrow> 'm \<Rightarrow> bool) \<Rightarrow> 'm \<Rightarrow> 'm \<Rightarrow> (md \<Rightarrow> sticky option) \<Rightarrow> bool"
  for set_mask events waits m0 where
  started: "sticky_run set_mask events waits m0 m0 (\<lambda>_. None)"
| initialised: "sticky_run set_mask events waits m0 m sts \<Longrightarrow> sts md = None \<Longrightarrow> event_mask k \<Longrightarrow>
    aug_initsticky set_mask m md k = (Inr (), st, m') \<Longrightarrow> sticky_run set_mask events waits m0 m' (sts(md \<mapsto> st))"
| init_failed: "sticky_run set_mask events waits m0 m sts \<Longrightarrow> event_mask k \<Longrightarrow>
    aug_initsticky set_mask m md k = (Inl f, st, m') \<Longrightarrow> sticky_run set_mask events waits m0 m' sts"
| masked: "sticky_run set_mask events waits m0 m sts \<Longrightarrow> sts md = Some st \<Longrightarrow> event_mask k \<Longrightarrow>
    aug_setsticky set_mask m st k = (r, st', m') \<Longrightarrow> sticky_run set_mask events waits m0 m' (sts(md \<mapsto> st'))"
| cleared: "sticky_run set_mask events waits m0 m sts \<Longrightarrow> sts md = Some st \<Longrightarrow>
    aug_clearsticky set_mask m st k = (r, st', m') \<Longrightarrow> sticky_run set_mask events waits m0 m' (sts(md \<mapsto> st'))"
| got: "sticky_run set_mask events waits m0 m sts \<Longrightarrow> sts md = Some st \<Longrightarrow>
    aug_getsticky set_mask events m st = (ev, st', m') \<Longrightarrow> sticky_run set_mask events waits m0 m' (sts(md \<mapsto> st'))"
| terminated: "sticky_run set_mask events waits m0 m sts \<Longrightarrow> sts md = Some st \<Longrightarrow>
    aug_termsticky set_mask m st = (st', m') \<Longrightarrow> sticky_run set_mask events waits m0 m' (sts(md := None))"
| polled: "sticky_run set_mask events waits m0 m sts \<Longrightarrow> waits m m' \<Longrightarrow>
    sticky_run set_mask events waits m0 m' sts"

context muxer
begin

lemma init_valid:
  assumes "event_mask k" "aug_initsticky set_mask m md k = (Inr (), st, m')"
  shows "valid md"
proof (rule ccontr)
  assume "\<not> valid md"
  then have "\<exists>f. set_mask m md l = (Inl f, m)" for l
    using set_mask_bad by blast
  then show False
    using assms(2) by (auto simp: aug_initsticky_def aug_setsticky_def setmdeventmask_def Let_def split: prod.splits)
       (metis (mono_tags, lifting) Inl_Inr_False old.prod.inject)
qed

lemma init_failed_same:
  assumes "good m" "all_ok m sts" "event_mask k" "aug_initsticky set_mask m md k = (Inl f, st, m')"
  shows "m' = m"
proof (cases "valid md")
  case True
  then show ?thesis
    using initsticky_all [OF assms(1) _ assms(3,2)] assms(4) by fastforce
next
  case False
  then have "\<exists>f. set_mask m md l = (Inl f, m)" for l
    using set_mask_bad by blast
  then have "snd (set_mask m md l) = m" for l
    by (metis snd_conv)
  then show ?thesis
    using assms(4)
    by (auto simp: aug_initsticky_def aug_setsticky_def setmdeventmask_def Let_def split: prod.splits)
       (metis snd_conv)+
qed

lemma run_ok:
  assumes "sticky_run set_mask events waited m0 m sts" and "good m0" "mask_at m0 = (\<lambda>_. 0)"
  shows "good m \<and> all_ok m sts \<and> (\<forall>md. sts md \<noteq> None \<longrightarrow> valid md)"
  using assms(1)
proof (induction rule: sticky_run.induct)
  case started
  then show ?case
    using assms(2,3) by (simp add: stickies_ok_def)
next
  case (initialised m sts md k st m')
  then have "valid md" by (blast intro: init_valid)
  with initialised show ?case
    using initsticky_all [of m md k sts] by (auto simp del: fun_upd_apply) (auto split: if_splits)
next
  case (init_failed m sts k md f st m')
  then show ?case using init_failed_same [of m sts k md f st m'] by simp
next
  case (masked m sts md st k r st' m')
  then have "sk_md st = Some md" "sk_internal st AND NOT AUG_MDEVENTRDWR = 0" "valid md"
    by (auto simp: stickies_ok_def sticky_ok_def dest!: spec [of _ md])
  with masked show ?case
    using setsticky_all [of m md k sts st] by (auto simp del: fun_upd_apply) (auto split: if_splits)
next
  case (cleared m sts md st k r st' m')
  then show ?case
    using clearsticky_all [of m md sts st k] by (auto simp del: fun_upd_apply) (auto split: if_splits)
next
  case (got m sts md st ev st' m')
  then show ?case
    using getsticky_all [of m md sts st] by (auto simp del: fun_upd_apply) (auto split: if_splits)
next
  case (terminated m sts md st st' m')
  then show ?case
    using termsticky_all [of m md sts st st' m'] by (auto simp del: fun_upd_apply) (auto split: if_splits)
next
  case (polled m sts m')
  then show ?case using waited_all by blast
qed

lemma run_polled:
  assumes "sticky_run set_mask events waited m0 m sts" and "good m0" "mask_at m0 = (\<lambda>_. 0)"
  shows "polled m md = (case sts md of None \<Rightarrow> 0 | Some st \<Rightarrow> armed st)"
proof -
  have "good m" "all_ok m sts"
    using run_ok [OF assms] by simp_all
  then show ?thesis
    by (auto simp: polled_mask stickies_ok_def sticky_ok_def split: option.splits dest!: spec [of _ md])
qed

lemma run_total:
  assumes "sticky_run set_mask events waited m0 m sts" and "good m0" "mask_at m0 = (\<lambda>_. 0)" and "sts md = Some st"
  shows "event_mask k \<longrightarrow> fst (aug_setsticky set_mask m st k) = Inr ()"
    and "fst (aug_clearsticky set_mask m st k) = Inr ()"
    and "fst (aug_getsticky set_mask events m st) \<noteq> None"
proof -
  note r = run_ok [OF assms(1-3)]
  have st: "valid md" "sk_md st = Some md" "sk_internal st AND NOT AUG_MDEVENTRDWR = 0"
    using r assms(4) by (auto simp: stickies_ok_def sticky_ok_def dest!: spec [of _ md])
  show "event_mask k \<longrightarrow> fst (aug_setsticky set_mask m st k) = Inr ()"
    using setsticky_all [of m md k sts st] r st by auto
  show "fst (aug_clearsticky set_mask m st k) = Inr ()"
    using clearsticky_all [of m md sts st k] r st assms(4) by auto
  show "fst (aug_getsticky set_mask events m st) \<noteq> None"
    using getsticky_all [of m md sts st] r st assms(4) by auto
qed

end

section \<open>Properties\<close>

lemma select_create_start: "sgood select_create" "smask select_create = (\<lambda>_. 0)"
  using sgood_create by (auto simp: smask_def select_create_def zeroset_def select_external_0_iff)

lemma poll_create_start:
  assumes "poll_create True = Some m0"
  shows "pgood m0" "pmask m0 = (\<lambda>_. 0)"
  using pgood_create [OF assms] assms
  by (auto simp: pmask_def poll_create_def poll_resize_def initpollfd_def fun_eq_iff)

text \<open>
  C17: Whatever is done with the sticky events of any descriptors, with whatever waits in
  between, the select multiplexer asks the system at every moment, for every descriptor
  in use, for its whole mask when it has no visible sticky event and for nothing when it
  has one, and for nothing for a descriptor not in use; and no operation fails.
\<close>

theorem sticky_armed:
  assumes "sticky_run select_setmask select_events swaited select_create m sts"
  shows "(\<forall>md. spolled m md =
           (case sts md of None \<Rightarrow> 0 | Some st \<Rightarrow> if EXTERNAL st = 0 then sk_mask st else 0))
    \<and> (\<forall>md st k. sts md = Some st \<longrightarrow>
          (event_mask k \<longrightarrow> fst (aug_setsticky select_setmask m st k) = Inr ())
        \<and> fst (aug_clearsticky select_setmask m st k) = Inr ()
        \<and> fst (aug_getsticky select_setmask select_events m st) \<noteq> None)"
  using sel.run_polled [OF assms select_create_start] sel.run_total [OF assms select_create_start]
  unfolding armed_def by blast

text \<open>The same on the poll multiplexer.\<close>

lemma sticky_armed_poll:
  assumes "poll_create True = Some m0" "sticky_run (poll_setmask True) poll_events pwaited m0 m sts"
  shows "ppolled m md = (case sts md of None \<Rightarrow> 0 | Some st \<Rightarrow> armed st)"
  using pol.run_polled [OF assms(2) poll_create_start [OF assms(1)]] .

definition demo_mux :: "sticky \<times> smuxer" where
  "demo_mux = snd (aug_initsticky select_setmask select_create 5 AUG_MDEVENTALL)"

lemma demo_mux_run:
  "sticky_run select_setmask select_events swaited select_create (snd demo_mux) [5 \<mapsto> fst demo_mux]"
  by (rule sticky_run.initialised [OF sticky_run.started, where md = 5 and k = AUG_MDEVENTALL])
     (simp_all add: demo_mux_def event_mask_def prod_eq_iff, code_simp)

theorem sticky_armed_witness:
  "(\<forall>md. spolled (snd demo_mux) md =
      (case [5 \<mapsto> fst demo_mux] md of None \<Rightarrow> 0 | Some st \<Rightarrow> if EXTERNAL st = 0 then sk_mask st else 0))
    \<and> fst (aug_getsticky select_setmask select_events (snd demo_mux) (fst demo_mux)) \<noteq> None"
  using sticky_armed [OF demo_mux_run] by fastforce

text \<open>The calls of a user on one descriptor, each on whatever state the multiplexer is in.\<close>

datatype call = SetMask mask | Clear mask | Get

fun sticky_call :: "'m set_op \<Rightarrow> 'm get_op \<Rightarrow> 'm \<Rightarrow> call \<Rightarrow> sticky \<Rightarrow> sticky" where
  "sticky_call set_mask events m (SetMask k) st = fst (snd (aug_setsticky set_mask m st k))"
| "sticky_call set_mask events m (Clear k) st = fst (snd (aug_clearsticky set_mask m st k))"
| "sticky_call set_mask events m Get st = fst (snd (aug_getsticky set_mask events m st))"

definition sticky_calls :: "'m set_op \<Rightarrow> 'm get_op \<Rightarrow> ('m \<times> call) list \<Rightarrow> sticky \<Rightarrow> sticky" where
  "sticky_calls set_mask events = fold (\<lambda>(m, c). sticky_call set_mask events m c)"

lemma sticky_call_keeps:
  assumes "bit (sk_internal st) b" "\<And>k. c = Clear k \<Longrightarrow> \<not> bit k b"
  shows "bit (sk_internal (sticky_call set_mask events m c st)) b"
proof -
  have "b < LENGTH(16)"
    using assms(1) by (rule bit_imp_le_length)
  then show ?thesis
    using assms
    by (cases c)
       (auto simp: aug_setsticky_def aug_clearsticky_def aug_getsticky_def Let_def bit_or_iff bit_and_iff
          bit_not_iff split: prod.splits option.splits)
qed

lemma sticky_calls_keeps:
  assumes "bit (sk_internal st) b" "\<forall>(m, c) \<in> set cs. \<forall>k. c = Clear k \<longrightarrow> \<not> bit k b"
  shows "bit (sk_internal (sticky_calls set_mask events cs st)) b"
  using assms
  by (induction cs arbitrary: st) (auto simp: sticky_calls_def sticky_call_keeps split: prod.splits)

lemma getsticky_notes:
  assumes "aug_getsticky set_mask events m st = (Some ev, st', m')" "bit ev b" "b < 2"
  shows "bit (sk_internal st') b"
proof -
  have "ev = 0 \<or> (\<exists>x. st' = st \<and> ev = sk_internal st AND x) \<or> sk_internal st' = sk_internal st OR (ev AND AUG_MDEVENTRDWR)"
    using assms(1) by (auto simp: aug_getsticky_def EXTERNAL_def Let_def split: if_splits option.splits)
  then show ?thesis
    using assms(2,3) by (auto simp: bit_and_iff bit_or_iff)
qed

text \<open>
  Once a readable or writable event has been reported, every later call reports it as
  long as the mask has it, whatever masks were set in between, other events were cleared
  and the multiplexer did, until the event itself is cleared.
\<close>

lemma sticky_until_cleared:
  assumes "aug_getsticky set_mask events m st = (Some ev, st', m')" "bit ev b" "b < 2"
    and "\<forall>(m, c) \<in> set cs. \<forall>k. c = Clear k \<longrightarrow> \<not> bit k b"
    and "bit (sk_mask (sticky_calls set_mask events cs st')) b"
  shows "\<exists>ev'. fst (aug_getsticky set_mask events m'' (sticky_calls set_mask events cs st')) = Some ev' \<and> bit ev' b"
proof -
  let ?st = "sticky_calls set_mask events cs st'"
  have "bit (sk_internal ?st) b"
    by (rule sticky_calls_keeps [OF getsticky_notes [OF assms(1-3)] assms(4)])
  then have "bit (EXTERNAL ?st) b"
    using assms(5) by (simp add: EXTERNAL_def bit_and_iff)
  then have "EXTERNAL ?st \<noteq> 0" "sk_mask ?st \<noteq> 0"
    using assms(5) by (auto simp: word_0_iff_bits)
  with \<open>bit (EXTERNAL ?st) b\<close> show ?thesis
    by (simp add: aug_getsticky_def)
qed

theorem sticky_until_cleared_witness:
  "\<exists>ev'. fst (aug_getsticky select_setmask select_events select_create
      (sticky_calls select_setmask select_events
        [(snd demo_mux, Clear AUG_MDEVENTWR), (select_create, SetMask AUG_MDEVENTRDEX)] (fst demo_mux))) = Some ev'
    \<and> bit ev' 0"
proof (rule sticky_until_cleared)
  show "aug_getsticky select_setmask select_events (snd demo_mux) (fst demo_mux) = (Some 3, fst demo_mux, snd demo_mux)"
  proof -
    have "sk_mask (fst demo_mux) \<noteq> 0 \<and> EXTERNAL (fst demo_mux) = 3"
      by code_simp
    then show ?thesis by (simp add: aug_getsticky_def)
  qed
  show "bit (sk_mask (sticky_calls select_setmask select_events
        [(snd demo_mux, Clear AUG_MDEVENTWR), (select_create, SetMask AUG_MDEVENTRDEX)] (fst demo_mux))) 0"
    by (simp add: sticky_calls_def aug_setsticky_def Let_def split: prod.splits)
qed (auto simp: bit_events)

text \<open>
  An event the multiplexer reported before the mask was narrowed is still returned, outside
  the mask: writable was polled and reported, the mask then set to readable.
\<close>

definition stale :: "mask option \<times> sticky \<times> smuxer" where
  "stale =
     (let (_, st1, m1) = aug_clearsticky select_setmask (snd demo_mux) (fst demo_mux) AUG_MDEVENTRDWR;
          (_, m2) = select_wait (\<lambda>_ p. (Inr 1, p\<lparr>fd_rd := \<lambda>_. False, fd_ex := \<lambda>_. False\<rparr>)) m1;
          (_, st3, m3) = aug_setsticky select_setmask m2 st1 AUG_MDEVENTRDEX
      in aug_getsticky select_setmask select_events m3 st3)"

lemma stale_event:
  "fst stale = Some AUG_MDEVENTWR \<and> sk_mask (fst (snd stale)) = AUG_MDEVENTRDEX
   \<and> AUG_MDEVENTWR AND NOT AUG_MDEVENTRDEX \<noteq> 0"
  by code_simp

end
