(* ===== verification/Chans.thy ===== *)
theory Chans
  imports Stailq
begin

text \<open>
  Channel sets (\<^verbatim>\<open>augnet/chans.c\<close>): a tail queue of entries, each with a channel or, when
  it was removed during an iteration, with a null pointer until the iteration ends.  The
  queue is the pointer queue of \<open>Stailq\<close>; \<open>ch_ob\<close> is the \<^verbatim>\<open>ob_\<close> field of the entries and
  \<open>ch_refs\<close> counts references (\<^verbatim>\<open>aug_retain\<close> and \<^verbatim>\<open>aug_release\<close>) per channel.

  The channels' \<^verbatim>\<open>aug_processchan_BI\<close> and the handler's \<^verbatim>\<open>aug_clearchan\<close> call back into the
  program, which may call the operations on the same set: they are functions on the set
  (\<open>h_process\<close>, \<open>h_clear\<close>).  \<open>None\<close> marks undefined behaviour: a null dereference, a failed
  assertion, or memory used after it was freed.
\<close>

section \<open>The operations\<close>

record 'c chans =
  ch_list :: stailq
  ch_ob :: "elm \<Rightarrow> 'c option"
  ch_size :: nat
  ch_locks :: int
  ch_refs :: "'c \<Rightarrow> int"

text \<open>
  \<open>h_alloc\<close> is the allocator's answer, \<open>h_process\<close> returns the channel (already retained) and
  the value of \<^verbatim>\<open>fork\<close>.
\<close>

record 'c handler =
  h_alloc :: "'c chans \<Rightarrow> elm option"
  h_id :: "'c \<Rightarrow> nat"
  h_clear :: "nat \<Rightarrow> 'c chans \<Rightarrow> 'c chans option"
  h_process :: "'c \<Rightarrow> 'c chans \<Rightarrow> ('c option \<times> bool \<times> 'c chans) option"

definition retain :: "'c \<Rightarrow> 'c chans \<Rightarrow> 'c chans" where
  "retain c s = s\<lparr>ch_refs := (ch_refs s)(c := ch_refs s c + 1)\<rparr>"

definition release :: "'c \<Rightarrow> 'c chans \<Rightarrow> 'c chans" where
  "release c s = s\<lparr>ch_refs := (ch_refs s)(c := ch_refs s c - 1)\<rparr>"

definition set_ob :: "elm \<Rightarrow> 'c option \<Rightarrow> 'c chans \<Rightarrow> 'c chans" where
  "set_ob e c s = s\<lparr>ch_ob := (ch_ob s)(e := c)\<rparr>"

definition aug_createchans :: "stailq \<Rightarrow> (elm \<Rightarrow> 'c option) \<Rightarrow> 'c chans" where
  "aug_createchans memory obs =
     \<lparr>ch_list = stailq_init memory, ch_ob = obs, ch_size = 0, ch_locks = 0, ch_refs = (\<lambda>_. 0)\<rparr>"

text \<open>\<^verbatim>\<open>release_\<close>\<close>

definition release_entry :: "'c handler \<Rightarrow> elm \<Rightarrow> 'c chans \<Rightarrow> 'c chans option" where
  "release_entry h it s =
     (case ch_ob s it of
        None \<Rightarrow> None
      | Some ob \<Rightarrow>
          let s1 = s\<lparr>ch_size := usub (ch_size s) 1\<rparr>;
              s2 = set_ob it None s1
          in map_option (release ob) (h_clear h (h_id h ob) s2))"

text \<open>\<^verbatim>\<open>*prev\<close> for the address of a pointer in the queue.\<close>

definition at_cell :: "stailq \<Rightarrow> cell \<Rightarrow> elm option" where
  "at_cell q c = (case c of HeadFirst \<Rightarrow> stqh_first q | NextOf e \<Rightarrow> stqe_next q e)"

partial_function (option) trash :: "cell \<Rightarrow> 'c chans \<Rightarrow> 'c chans option" where
  "trash prev s =
     (case at_cell (ch_list s) prev of
        None \<Rightarrow> Some s
      | Some it \<Rightarrow>
          if ch_ob s it = None then trash prev (s\<lparr>ch_list := remove_prevptr it prev (ch_list s)\<rparr>)
          else trash (NextOf it) s)"

partial_function (option) destroy_loop :: "'c handler \<Rightarrow> 'c chans \<Rightarrow> 'c chans option" where
  "destroy_loop h s =
     (case stqh_first (ch_list s) of
        None \<Rightarrow> Some s
      | Some it \<Rightarrow>
          (case stailq_remove_head (ch_list s) of
             None \<Rightarrow> None
           | Some q \<Rightarrow>
               (case (if ch_ob s it = None then Some (s\<lparr>ch_list := q\<rparr>) else release_entry h it (s\<lparr>ch_list := q\<rparr>)) of
                  None \<Rightarrow> None
                | Some s' \<Rightarrow> destroy_loop h s')))"

definition aug_destroychans :: "'c handler \<Rightarrow> 'c chans \<Rightarrow> 'c chans option" where
  "aug_destroychans h s = (if ch_locks s = 0 then destroy_loop h s else None)"

definition aug_insertchan :: "'c handler \<Rightarrow> 'c \<Rightarrow> 'c chans \<Rightarrow> (aug_fail + unit) \<times> 'c chans" where
  "aug_insertchan h ob s =
     (case h_alloc h s of
        None \<Rightarrow> (Inl NoMem, s)
      | Some e \<Rightarrow>
          let s1 = retain ob (set_ob e (Some ob) s)
          in (Inr (), s1\<lparr>ch_list := stailq_insert_head e (ch_list s1), ch_size := uadd (ch_size s1) 1\<rparr>))"

text \<open>The loops that look for an entry by identifier.\<close>

partial_function (option) find_entry :: "'c handler \<Rightarrow> nat \<Rightarrow> 'c chans \<Rightarrow> elm option \<Rightarrow> elm option option" where
  "find_entry h cid s it =
     (case it of
        None \<Rightarrow> Some None
      | Some e \<Rightarrow>
          (case ch_ob s e of
             None \<Rightarrow> find_entry h cid s (stqe_next (ch_list s) e)
           | Some ob \<Rightarrow>
               if h_id h ob = cid then Some (Some e) else find_entry h cid s (stqe_next (ch_list s) e)))"

definition aug_removechan :: "'c handler \<Rightarrow> nat \<Rightarrow> 'c chans \<Rightarrow> ((aug_fail + unit) \<times> 'c chans) option" where
  "aug_removechan h cid s =
     (case find_entry h cid s (stqh_first (ch_list s)) of
        None \<Rightarrow> None
      | Some None \<Rightarrow> Some (Inl ExNone, s)
      | Some (Some it) \<Rightarrow>
          if 0 < ch_locks s then map_option (Pair (Inr ())) (release_entry h it s)
          else
            (case release_entry h it s of
               None \<Rightarrow> None
             | Some s1 \<Rightarrow>
                 (case stailq_remove it (ch_list s1) of
                    None \<Rightarrow> None
                  | Some q \<Rightarrow> Some (Inr (), s1\<lparr>ch_list := q\<rparr>))))"

definition aug_findchan :: "'c handler \<Rightarrow> nat \<Rightarrow> 'c chans \<Rightarrow> ('c option \<times> 'c chans) option" where
  "aug_findchan h cid s =
     (case find_entry h cid s (stqh_first (ch_list s)) of
        None \<Rightarrow> None
      | Some None \<Rightarrow> Some (None, s)
      | Some (Some it) \<Rightarrow> (case ch_ob s it of None \<Rightarrow> None | Some ob \<Rightarrow> Some (Some ob, retain ob s)))"

text \<open>The body of the loop of \<^verbatim>\<open>aug_processchans_BI\<close>.\<close>

definition process_entry :: "'c handler \<Rightarrow> elm \<Rightarrow> 'c chans \<Rightarrow> 'c chans option" where
  "process_entry h it s =
     (case ch_ob s it of
        None \<Rightarrow> Some s
      | Some ob \<Rightarrow>
          (case h_process h ob (retain ob s) of
             None \<Rightarrow> None
           | Some (ret, fork, s1) \<Rightarrow>
               (case ch_ob s1 it of
                  None \<Rightarrow> None
                | Some held \<Rightarrow>
                    let s2 = release held s1 in
                    if fork then
                      (case ret of
                         None \<Rightarrow> None
                       | Some new \<Rightarrow> Some (release new (snd (aug_insertchan h new s2))))
                    else
                      let s3 = set_ob it ret s2 in
                      (case ret of
                         None \<Rightarrow>
                           map_option (release held) (h_clear h (h_id h held) (s3\<lparr>ch_size := usub (ch_size s3) 1\<rparr>))
                       | Some _ \<Rightarrow> Some (release held s3)))))"

partial_function (option) process_loop :: "'c handler \<Rightarrow> elm option \<Rightarrow> 'c chans \<Rightarrow> 'c chans option" where
  "process_loop h it s =
     (case it of
        None \<Rightarrow> Some s
      | Some e \<Rightarrow>
          (case process_entry h e s of
             None \<Rightarrow> None
           | Some s' \<Rightarrow> process_loop h (stqe_next (ch_list s') e) s'))"

text \<open>Rotate channels to promote fairness.\<close>

definition rotate_head :: "'c chans \<Rightarrow> 'c chans option" where
  "rotate_head s =
     (case stqh_first (ch_list s) of
        None \<Rightarrow> Some s
      | Some it \<Rightarrow> map_option (\<lambda>q. s\<lparr>ch_list := stailq_insert_tail it q\<rparr>) (stailq_remove_head (ch_list s)))"

definition aug_processchans :: "'c handler \<Rightarrow> 'c chans \<Rightarrow> 'c chans option" where
  "aug_processchans h s =
     (let s1 = s\<lparr>ch_locks := ch_locks s + 1\<rparr> in
      case (if ch_locks s1 = 1 then rotate_head s1 else Some s1) of
        None \<Rightarrow> None
      | Some s2 \<Rightarrow>
          (case process_loop h (stqh_first (ch_list s2)) s2 of
             None \<Rightarrow> None
           | Some s3 \<Rightarrow>
               let s4 = s3\<lparr>ch_locks := ch_locks s3 - 1\<rparr>
               in if ch_locks s4 = 0 then trash HeadFirst s4 else Some s4))"

definition aug_getchans :: "'c chans \<Rightarrow> nat" where
  "aug_getchans s = ch_size s"

partial_function (option) ready_loop :: "('c \<Rightarrow> bool) \<Rightarrow> 'c chans \<Rightarrow> elm option \<Rightarrow> nat \<Rightarrow> nat option" where
  "ready_loop isready s it n =
     (case it of
        None \<Rightarrow> Some n
      | Some e \<Rightarrow>
          ready_loop isready s (stqe_next (ch_list s) e)
            (case ch_ob s e of None \<Rightarrow> n | Some ob \<Rightarrow> if isready ob then uadd n 1 else n))"

definition aug_getreadychans :: "('c \<Rightarrow> bool) \<Rightarrow> 'c chans \<Rightarrow> nat option" where
  "aug_getreadychans isready s = ready_loop isready s (stqh_first (ch_list s)) 0"

section \<open>Well-formed sets\<close>

text \<open>
  \<open>es\<close> are the entries; \<open>x c\<close> is how many references to \<open>c\<close> are held by others than the
  entries (a caller, or \<^verbatim>\<open>aug_processchans_BI\<close> while it runs).
\<close>

definition is_live :: "'c chans \<Rightarrow> elm \<Rightarrow> bool" where
  "is_live s e \<longleftrightarrow> ch_ob s e \<noteq> None"

definition chans_ok :: "('c \<Rightarrow> int) \<Rightarrow> 'c chans \<Rightarrow> elm list \<Rightarrow> bool" where
  "chans_ok x s es \<longleftrightarrow>
     holds (ch_list s) es \<and> length es < 2 ^ 32 \<and> ch_size s = length (filter (is_live s) es)
     \<and> 0 \<le> ch_locks s \<and> (\<forall>c. ch_refs s c = int (count_list (map (ch_ob s) es) (Some c)) + x c)"

lemma chans_okD:
  assumes "chans_ok x s es"
  shows "holds (ch_list s) es" "distinct es" "length es < 2 ^ 32" "ch_size s = length (filter (is_live s) es)"
    "0 \<le> ch_locks s" "\<And>c. ch_refs s c = int (count_list (map (ch_ob s) es) (Some c)) + x c"
  using assms by (auto simp: chans_ok_def holds_def)

lemma count_list_update:
  "distinct es \<Longrightarrow> e \<in> set es \<Longrightarrow>
   int (count_list (map (f(e := v)) es) c) =
     int (count_list (map f es) c) - (if f e = c then 1 else 0) + (if v = c then 1 else 0)"
  by (induction es) (auto simp: map_fun_upd)

lemma fields_simps [simp]:
  "ch_list (retain c s) = ch_list s" "ch_ob (retain c s) = ch_ob s" "ch_size (retain c s) = ch_size s"
  "ch_locks (retain c s) = ch_locks s" "ch_list (release c s) = ch_list s" "ch_ob (release c s) = ch_ob s"
  "ch_size (release c s) = ch_size s" "ch_locks (release c s) = ch_locks s"
  "ch_list (set_ob e v s) = ch_list s" "ch_size (set_ob e v s) = ch_size s"
  "ch_locks (set_ob e v s) = ch_locks s" "ch_refs (set_ob e v s) = ch_refs s"
  "ch_ob (set_ob e v s) = (ch_ob s)(e := v)"
  "set_ob e v (s\<lparr>ch_size := n\<rparr>) = (set_ob e v s)\<lparr>ch_size := n\<rparr>"
  by (simp_all add: retain_def release_def set_ob_def)

lemma is_live_simps [simp]:
  "is_live (retain c s) = is_live s" "is_live (release c s) = is_live s"
  "is_live (s\<lparr>ch_size := n\<rparr>) = is_live s" "is_live (s\<lparr>ch_list := q\<rparr>) = is_live s"
  "is_live (s\<lparr>ch_locks := l\<rparr>) = is_live s" "is_live (set_ob e v s) = (is_live s)(e := v \<noteq> None)"
  by (simp_all add: is_live_def fun_eq_iff retain_def release_def set_ob_def)

lemma filter_update_False:
  assumes "distinct es" "e \<in> set es" "P e"
  shows "Suc (length (filter (P(e := False)) es)) = length (filter P es)"
proof -
  have "filter (P(e := False)) es = remove1 e (filter P es)"
    using assms(1,2)
  proof (induction es)
    case (Cons a es)
    show ?case
    proof (cases "a = e")
      case True
      then have "filter (P(e := False)) es = filter P es"
        using Cons.prems by (intro filter_cong) auto
      with True \<open>P e\<close> show ?thesis by (simp del: fun_upd_apply add: fun_upd_same)
    next
      case False
      with Cons show ?thesis by simp
    qed
  qed simp
  moreover have "e \<in> set (filter P es)"
    using assms by simp
  ultimately show ?thesis
    using length_pos_if_in_set by (fastforce simp: length_remove1)
qed

lemma filter_update_True: "P e \<Longrightarrow> filter (P(e := True)) es = filter P es"
  by (simp add: fun_upd_idem)

lemma chans_ok_retain: "chans_ok x s es \<Longrightarrow> chans_ok (x(c := x c + 1)) (retain c s) es"
  by (auto simp: chans_ok_def) (auto simp: retain_def)

lemma chans_ok_release: "chans_ok x s es \<Longrightarrow> chans_ok (x(c := x c - 1)) (release c s) es"
  by (auto simp: chans_ok_def) (auto simp: release_def)

lemma chans_ok_upd:
  assumes "chans_ok x s es" "x = y"
  shows "chans_ok y s es"
  using assms by simp

text \<open>Clearing an entry moves the reference it held to whoever cleared it.\<close>

lemma chans_ok_clear:
  assumes ok: "chans_ok x s es" and e: "e \<in> set es" "ch_ob s e = Some c"
  shows "chans_ok (x(c := x c + 1)) (set_ob e None (s\<lparr>ch_size := usub (ch_size s) 1\<rparr>)) es"
proof -
  note o = chans_okD [OF ok]
  have live: "Suc (length (filter ((is_live s)(e := False)) es)) = length (filter (is_live s) es)"
    using filter_update_False [OF o(2) e(1)] e(2) by (simp add: is_live_def)
  have "length (filter (is_live s) es) < 2 ^ 32"
    using o(3) length_filter_le [of "is_live s" es] by linarith
  then have "usub (ch_size s) 1 = length (filter ((is_live s)(e := False)) es)"
    using live o(4) by simp
  then show ?thesis
    using o(1,3,5,6) e count_list_update [OF o(2) e(1), of "ch_ob s" None]
    by (auto simp: chans_ok_def)
qed

lemma chans_ok_swap:
  assumes ok: "chans_ok x s es" and e: "e \<in> set es" "ch_ob s e = Some c"
  shows "chans_ok (x(c := x c + 1, d := (x(c := x c + 1)) d - 1)) (set_ob e (Some d) s) es"
proof -
  note o = chans_okD [OF ok]
  have "filter ((is_live s)(e := True)) es = filter (is_live s) es"
    using e(2) by (intro filter_update_True) (simp add: is_live_def)
  then show ?thesis
    using o(1,3,4,5,6) count_list_update [OF o(2) e(1), of "ch_ob s" "Some d"] e(2)
    by (auto simp: chans_ok_def)
qed

section \<open>What the callbacks may do\<close>

text \<open>
  The allocator returns an address that is not in use.  While the set is locked a callback
  may add entries in front and mark entries as removed, but the entries stay; a call of
  \<^verbatim>\<open>aug_clearchan\<close> on an unlocked set may not free the entries that are already marked.
  Processing a channel returns the channel that takes its place, with a reference of its
  own, and does not remove the channel that is being processed.
\<close>

locale chan_client =
  fixes h :: "'c handler"
  assumes alloc_fresh: "chans_ok x s es \<Longrightarrow> h_alloc h s = Some e \<Longrightarrow> e \<notin> set es \<and> Suc (length es) < 2 ^ 32"
    and clear_ok: "chans_ok x s es \<Longrightarrow> \<exists>s' es'. h_clear h i s = Some s' \<and> chans_ok x s' es'
        \<and> ch_locks s' = ch_locks s \<and> (0 < ch_locks s \<longrightarrow> (\<exists>news. es' = news @ es))
        \<and> (\<forall>e \<in> set es. ch_ob s e = None \<longrightarrow> e \<in> set es' \<and> ch_ob s' e = None)"
begin

lemma insert_ok:
  assumes "chans_ok x s es"
  shows "\<exists>r s' news. aug_insertchan h c s = (r, s') \<and> chans_ok x s' (news @ es) \<and> ch_locks s' = ch_locks s
    \<and> (\<forall>e \<in> set es. ch_ob s' e = ch_ob s e) \<and> map (ch_ob s') news = (if r = Inr () then [Some c] else [])"
proof (cases "h_alloc h s")
  case None
  then show ?thesis
    using assms by (intro exI [of _ "Inl NoMem"] exI [of _ s] exI [of _ "[]"]) (simp add: aug_insertchan_def)
next
  case (Some e)
  note o = chans_okD [OF assms]
  have e: "e \<notin> set es" "Suc (length es) < 2 ^ 32"
    using alloc_fresh [OF assms Some] by auto
  define s' where "s' = snd (aug_insertchan h c s)"
  have s': "aug_insertchan h c s = (Inr (), s')" "ch_list s' = stailq_insert_head e (ch_list s)"
      "ch_ob s' = (ch_ob s)(e \<mapsto> c)" "ch_size s' = uadd (ch_size s) 1" "ch_locks s' = ch_locks s"
      "ch_refs s' = (ch_refs s)(c := ch_refs s c + 1)"
    using Some by (simp_all add: s'_def aug_insertchan_def Let_def retain_def set_ob_def)
  have "map (ch_ob s') es = map (ch_ob s) es"
    using e(1) s'(3) by auto
  moreover have "filter (is_live s') es = filter (is_live s) es"
    using e(1) s'(3) by (intro filter_cong) (auto simp: is_live_def)
  moreover have "length (filter (is_live s) es) + 1 < 2 ^ 32"
    using e(2) length_filter_le [of "is_live s" es] by linarith
  ultimately have "chans_ok x s' ([e] @ es)"
    using o e s' holds_insert_head [OF o(1) e(1)]
    by (auto simp: chans_ok_def is_live_def)
  then show ?thesis
    using s' e(1) by (intro exI [of _ "Inr ()"] exI [of _ s'] exI [of _ "[e]"]) auto
qed

text \<open>Removing an entry, up to taking it off the list.\<close>

lemma release_entry_ok:
  assumes ok: "chans_ok x s es" and e: "e \<in> set es" "ch_ob s e = Some c"
  shows "\<exists>s' es'. release_entry h e s = Some s' \<and> chans_ok x s' es' \<and> ch_locks s' = ch_locks s
    \<and> (0 < ch_locks s \<longrightarrow> (\<exists>news. es' = news @ es)) \<and> e \<in> set es' \<and> ch_ob s' e = None"
proof -
  let ?s = "set_ob e None (s\<lparr>ch_size := usub (ch_size s) 1\<rparr>)"
  have c: "chans_ok (x(c := x c + 1)) ?s es"
    by (rule chans_ok_clear [OF ok e])
  obtain s' es' where s': "h_clear h (h_id h c) ?s = Some s'" "chans_ok (x(c := x c + 1)) s' es'"
      "ch_locks s' = ch_locks s" "0 < ch_locks s \<longrightarrow> (\<exists>news. es' = news @ es)" "e \<in> set es'" "ch_ob s' e = None"
    using clear_ok [OF c, of "h_id h c"] e(1) by auto
  moreover have "chans_ok x (release c s') es'"
    using chans_ok_release [OF s'(2), of c] by simp
  moreover have "release_entry h e s = Some (release c s')"
    using e(2) s'(1) by (simp add: release_entry_def Let_def)
  ultimately show ?thesis
    by (intro exI [of _ "release c s'"] exI [of _ es']) simp
qed

end

locale chan_handler = chan_client +
  assumes process_ok: "chans_ok x s es \<Longrightarrow> 0 < ch_locks s \<Longrightarrow> e \<in> set es \<Longrightarrow> ch_ob s e = Some c \<Longrightarrow>
        \<exists>r fork s' news. h_process h c s = Some (r, fork, s')
          \<and> chans_ok (case r of None \<Rightarrow> x | Some d \<Rightarrow> x(d := x d + 1)) s' (news @ es)
          \<and> ch_locks s' = ch_locks s \<and> ch_ob s' e = Some c \<and> (fork \<longrightarrow> r \<noteq> None)"
begin

lemma process_entry_ok:
  assumes ok: "chans_ok x s es" and locked: "0 < ch_locks s" and e: "e \<in> set es"
  shows "\<exists>s' news. process_entry h e s = Some s' \<and> chans_ok x s' (news @ es) \<and> ch_locks s' = ch_locks s"
proof (cases "ch_ob s e")
  case None
  then show ?thesis
    using ok by (intro exI [of _ s] exI [of _ "[]"]) (simp add: process_entry_def)
next
  case (Some c)
  obtain r fork s1 news where p: "h_process h c (retain c s) = Some (r, fork, s1)"
      "chans_ok (case r of None \<Rightarrow> x(c := x c + 1) | Some d \<Rightarrow> (x(c := x c + 1))(d := (x(c := x c + 1)) d + 1)) s1 (news @ es)"
      "ch_locks s1 = ch_locks s" "ch_ob s1 e = Some c" "fork \<longrightarrow> r \<noteq> None"
    using process_ok [OF chans_ok_retain [OF ok], of c e c] locked e Some by auto
  let ?s2 = "release c s1"
  have s2: "chans_ok (case r of None \<Rightarrow> x | Some d \<Rightarrow> x(d := x d + 1)) ?s2 (news @ es)"
    using chans_ok_release [OF p(2), of c] by (rule chans_ok_upd) (auto split: option.splits)
  have e2: "e \<in> set (news @ es)" "ch_ob ?s2 e = Some c"
    using e p(4) by auto
  show ?thesis
  proof (cases fork)
    case True
    then obtain d where d: "r = Some d" using p(5) by blast
    obtain r' s3 news' where i: "aug_insertchan h d ?s2 = (r', s3)" "chans_ok (x(d := x d + 1)) s3 (news' @ news @ es)"
        "ch_locks s3 = ch_locks ?s2"
      using insert_ok [OF s2, of d] d by auto
    have "chans_ok x (release d s3) (news' @ news @ es)"
      using chans_ok_release [OF i(2), of d] by simp
    then show ?thesis
      using Some p True d i by (intro exI [of _ "release d s3"] exI [of _ "news' @ news"]) (simp add: process_entry_def)
  next
    case False
    show ?thesis
    proof (cases r)
      case None
      let ?s3 = "set_ob e None (?s2\<lparr>ch_size := usub (ch_size ?s2) 1\<rparr>)"
      have "chans_ok (x(c := x c + 1)) ?s3 (news @ es)"
        using chans_ok_clear [OF s2 e2] None by simp
      then obtain s4 es4 where s4: "h_clear h (h_id h c) ?s3 = Some s4" "chans_ok (x(c := x c + 1)) s4 es4"
          "ch_locks s4 = ch_locks s" "\<exists>news'. es4 = news' @ news @ es"
        using clear_ok [of "x(c := x c + 1)" ?s3 "news @ es" "h_id h c"] locked p(3) by auto
      obtain news' where "es4 = (news' @ news) @ es"
        using s4(4) by auto
      then show ?thesis
        using Some p False None s4(1,3) chans_ok_release [OF s4(2), of c]
        by (intro exI [of _ "release c s4"] exI [of _ "news' @ news"]) (simp add: process_entry_def)
    next
      case (Some d)
      have "chans_ok x (release c (set_ob e (Some d) ?s2)) (news @ es)"
        using chans_ok_release [OF chans_ok_swap [OF s2 e2, of d], of c] Some
        by (rule_tac chans_ok_upd) (auto simp: fun_eq_iff)
      then show ?thesis
        using \<open>ch_ob s e = Some c\<close> p False Some
        by (intro exI [of _ "release c (set_ob e (Some d) ?s2)"] exI [of _ news]) (simp add: process_entry_def)
    qed
  qed
qed

end

text \<open>The loop of \<^verbatim>\<open>aug_processchans_BI\<close> over the entries that were there when it began.\<close>

fun process_all :: "'c handler \<Rightarrow> elm list \<Rightarrow> 'c chans \<Rightarrow> 'c chans option" where
  "process_all h [] s = Some s"
| "process_all h (e # es) s = Option.bind (process_entry h e s) (process_all h es)"

definition hd_opt :: "'a list \<Rightarrow> 'a option" where
  "hd_opt xs = (case xs of [] \<Rightarrow> None | x # _ \<Rightarrow> Some x)"

lemma hd_opt_simps [simp]: "hd_opt [] = None" "hd_opt (x # xs) = Some x"
  by (simp_all add: hd_opt_def)

lemma holds_at_cell: "holds q (xs @ ys) \<Longrightarrow> at_cell q (last_cell xs) = hd_opt ys"
proof (cases xs rule: rev_cases)
  case Nil
  assume "holds q (xs @ ys)"
  with Nil show ?thesis
    by (simp add: last_cell_def at_cell_def hd_opt_def holds_first)
next
  case (snoc zs z)
  assume "holds q (xs @ ys)"
  with snoc holds_next [of q zs z ys] show ?thesis
    by (simp add: last_cell_def at_cell_def hd_opt_def)
qed

lemma chans_ok_unlink:
  assumes "chans_ok x s (xs @ e # ys)" "ch_ob s e = None" "holds q (xs @ ys)"
  shows "chans_ok x (s\<lparr>ch_list := q\<rparr>) (xs @ ys)"
  using assms by (simp add: chans_ok_def is_live_def)

lemma trash_ok:
  assumes "chans_ok x s (xs @ ys)" "\<forall>e \<in> set xs. is_live s e"
  shows "\<exists>q. trash (last_cell xs) s = Some (s\<lparr>ch_list := q\<rparr>)
    \<and> chans_ok x (s\<lparr>ch_list := q\<rparr>) (xs @ filter (is_live s) ys)"
  using assms
proof (induction ys arbitrary: xs s)
  case Nil
  have "at_cell (ch_list s) (last_cell xs) = None"
    using holds_at_cell chans_okD(1) [OF Nil(1)] by fastforce
  then show ?case
    using Nil by (intro exI [of _ "ch_list s"]) (subst trash.simps, simp)
next
  case (Cons e ys)
  have at: "at_cell (ch_list s) (last_cell xs) = Some e"
    using holds_at_cell chans_okD(1) [OF Cons.prems(1)] by fastforce
  show ?case
  proof (cases "ch_ob s e")
    case None
    let ?q = "remove_prevptr e (last_cell xs) (ch_list s)"
    have "chans_ok x (s\<lparr>ch_list := ?q\<rparr>) (xs @ ys)"
      using chans_ok_unlink [OF Cons.prems(1) None] holds_remove_prevptr [OF chans_okD(1) [OF Cons.prems(1)]] .
    moreover have "\<not> is_live s e"
      using None by (simp add: is_live_def)
    ultimately show ?thesis
      using Cons.IH [of "s\<lparr>ch_list := ?q\<rparr>" xs] Cons.prems(2) None at
      by (subst trash.simps) simp
  next
    case (Some c)
    have "last_cell (xs @ [e]) = NextOf e"
      by (simp add: last_cell_def)
    moreover have "is_live s e"
      using Some by (simp add: is_live_def)
    ultimately show ?thesis
      using Cons.IH [of s "xs @ [e]"] Cons.prems Some at
      by (subst trash.simps) simp
  qed
qed

lemma rotate_head_ok:
  assumes "chans_ok x s es"
  shows "\<exists>q. rotate_head s = Some (s\<lparr>ch_list := q\<rparr>) \<and> chans_ok x (s\<lparr>ch_list := q\<rparr>) (rotate1 es)"
proof (cases es)
  case Nil
  then show ?thesis
    using assms holds_first [OF chans_okD(1) [OF assms]]
    by (intro exI [of _ "ch_list s"]) (simp add: rotate_head_def)
next
  case (Cons e es')
  obtain q where q: "stailq_remove_head (ch_list s) = Some q" "holds q es'"
    using holds_remove_head chans_okD(1) [OF assms] Cons by blast
  have "e \<notin> set es'"
    using chans_okD(2) [OF assms] Cons by simp
  then have "holds (stailq_insert_tail e q) (es' @ [e])"
    using holds_insert_tail q(2) by blast
  then show ?thesis
    using assms Cons q(1) holds_first [OF chans_okD(1) [OF assms]]
    by (intro exI [of _ "stailq_insert_tail e q"]) (auto simp: rotate_head_def chans_ok_def)
qed

context chan_handler
begin

lemma process_loop_all:
  assumes "chans_ok x s (pre @ ys)" "0 < ch_locks s"
  shows "\<exists>s' news. process_loop h (hd_opt ys) s = Some s' \<and> process_all h ys s = Some s'
    \<and> chans_ok x s' (news @ pre @ ys) \<and> ch_locks s' = ch_locks s"
  using assms
proof (induction ys arbitrary: pre s)
  case Nil
  then show ?case
    by (intro exI [of _ s] exI [of _ "[]"]) (subst process_loop.simps, simp)
next
  case (Cons e ys)
  obtain s1 news where s1: "process_entry h e s = Some s1" "chans_ok x s1 (news @ pre @ e # ys)" "ch_locks s1 = ch_locks s"
    using process_entry_ok [OF Cons.prems, of e] by auto
  have next_e: "stqe_next (ch_list s1) e = hd_opt ys"
    using holds_next [of "ch_list s1" "news @ pre" e ys] chans_okD(1) [OF s1(2)] by (simp add: hd_opt_def)
  obtain s' news' where "process_loop h (hd_opt ys) s1 = Some s'" "process_all h ys s1 = Some s'"
      "chans_ok x s' (news' @ (news @ pre @ [e]) @ ys)" "ch_locks s' = ch_locks s1"
    using Cons.IH [of s1 "news @ pre @ [e]"] s1(2,3) Cons.prems(2) by auto
  then show ?case
    using s1 next_e by (intro exI [of _ s'] exI [of _ "news' @ news"]) (subst process_loop.simps, simp)
qed

text \<open>A call at rest, and a call from inside a callback.\<close>

lemma processchans_rest:
  assumes ok: "chans_ok x s es" and "ch_locks s = 0"
  shows "\<exists>q s3 s' news. process_all h (rotate1 es) (s\<lparr>ch_locks := 1, ch_list := q\<rparr>) = Some s3
    \<and> holds q (rotate1 es) \<and> aug_processchans h s = Some s' \<and> chans_ok x s' (filter (is_live s3) (news @ rotate1 es))
    \<and> ch_ob s' = ch_ob s3 \<and> ch_locks s' = 0"
proof -
  let ?s1 = "s\<lparr>ch_locks := 1\<rparr>"
  have "chans_ok x ?s1 es"
    using ok by (simp add: chans_ok_def)
  then obtain q where q: "rotate_head ?s1 = Some (?s1\<lparr>ch_list := q\<rparr>)" "chans_ok x (?s1\<lparr>ch_list := q\<rparr>) (rotate1 es)"
    using rotate_head_ok by blast
  let ?s2 = "?s1\<lparr>ch_list := q\<rparr>"
  obtain s3 news where s3: "process_loop h (hd_opt (rotate1 es)) ?s2 = Some s3" "process_all h (rotate1 es) ?s2 = Some s3"
      "chans_ok x s3 (news @ rotate1 es)" "ch_locks s3 = 1"
    using process_loop_all [of x ?s2 "[]" "rotate1 es"] q(2) by auto
  let ?s4 = "s3\<lparr>ch_locks := 0\<rparr>"
  have ok4: "chans_ok x ?s4 ([] @ news @ rotate1 es)"
    using s3(3) by (simp add: chans_ok_def)
  obtain q' where q': "trash (last_cell []) ?s4 = Some (?s4\<lparr>ch_list := q'\<rparr>)"
      "chans_ok x (?s4\<lparr>ch_list := q'\<rparr>) ([] @ filter (is_live ?s4) (news @ rotate1 es))"
    using trash_ok [OF ok4] by auto
  have first: "stqh_first q = hd_opt (rotate1 es)"
    using holds_first chans_okD(1) [OF q(2)] by (simp add: hd_opt_def)
  have "aug_processchans h s = Some (?s4\<lparr>ch_list := q'\<rparr>)"
    using assms(2) q(1) s3(1,4) q'(1) first by (simp add: aug_processchans_def last_cell_def)
  then show ?thesis
    using s3(2) q'(2) chans_okD(1) [OF q(2)]
    by (intro exI [of _ q] exI [of _ s3] exI [of _ "?s4\<lparr>ch_list := q'\<rparr>"] exI [of _ news]) simp
qed

lemma processchans_nested:
  assumes ok: "chans_ok x s es" and locked: "0 < ch_locks s"
  shows "\<exists>s' news. aug_processchans h s = Some s' \<and> chans_ok x s' (news @ es) \<and> ch_locks s' = ch_locks s"
proof -
  let ?s1 = "s\<lparr>ch_locks := ch_locks s + 1\<rparr>"
  have ok1: "chans_ok x ?s1 ([] @ es)"
    using ok by (simp add: chans_ok_def)
  obtain s3 news where s3: "process_loop h (hd_opt es) ?s1 = Some s3" "chans_ok x s3 (news @ es)"
      "ch_locks s3 = ch_locks s + 1"
    using process_loop_all [OF ok1] locked by auto
  have "stqh_first (ch_list s) = hd_opt es"
    using holds_first [OF chans_okD(1) [OF ok]] by (simp add: hd_opt_def)
  moreover have "chans_ok x (s3\<lparr>ch_locks := ch_locks s3 - 1\<rparr>) (news @ es)"
    using s3(2,3) locked by (simp add: chans_ok_def)
  ultimately show ?thesis
    using locked s3
    by (intro exI [of _ "s3\<lparr>ch_locks := ch_locks s\<rparr>"] exI [of _ news]) (simp add: aug_processchans_def Let_def)
qed

end

lemma find_entry_links:
  "links (stqe_next (ch_list s)) p es \<Longrightarrow>
   find_entry h cid s p = Some (find (\<lambda>e. \<exists>c. ch_ob s e = Some c \<and> h_id h c = cid) es)"
proof (induction es arbitrary: p)
  case Nil
  then show ?case by (subst find_entry.simps) simp
next
  case (Cons e es)
  then show ?case by (subst find_entry.simps) (auto split: option.splits)
qed

lemma find_entry_holds:
  "holds (ch_list s) es \<Longrightarrow>
   find_entry h cid s (stqh_first (ch_list s)) = Some (find (\<lambda>e. \<exists>c. ch_ob s e = Some c \<and> h_id h c = cid) es)"
  by (simp add: holds_def find_entry_links)

context chan_client
begin

lemma remove_ok:
  assumes ok: "chans_ok x s es"
  shows "case find (\<lambda>e. \<exists>c. ch_ob s e = Some c \<and> h_id h c = cid) es of
      None \<Rightarrow> aug_removechan h cid s = Some (Inl ExNone, s)
    | Some e \<Rightarrow> \<exists>s' es'. aug_removechan h cid s = Some (Inr (), s') \<and> chans_ok x s' es' \<and> ch_locks s' = ch_locks s
        \<and> (0 < ch_locks s \<longrightarrow> (\<exists>news. es' = news @ es) \<and> ch_ob s' e = None)
        \<and> (ch_locks s = 0 \<longrightarrow> e \<notin> set es')"
proof (cases "find (\<lambda>e. \<exists>c. ch_ob s e = Some c \<and> h_id h c = cid) es")
  case None
  then show ?thesis
    using find_entry_holds [OF chans_okD(1) [OF ok], of h cid] by (simp add: aug_removechan_def)
next
  case (Some e)
  note f = find_entry_holds [OF chans_okD(1) [OF ok], of h cid] Some
  obtain c where c: "e \<in> set es" "ch_ob s e = Some c"
    using Some by (auto simp: find_Some_iff)
  obtain s1 es1 where s1: "release_entry h e s = Some s1" "chans_ok x s1 es1" "ch_locks s1 = ch_locks s"
      "0 < ch_locks s \<longrightarrow> (\<exists>news. es1 = news @ es)" "e \<in> set es1" "ch_ob s1 e = None"
    using release_entry_ok [OF ok c] by blast
  show ?thesis
  proof (cases "0 < ch_locks s")
    case True
    then show ?thesis
      using f s1 by (auto simp: aug_removechan_def)
  next
    case False
    obtain xs ys where es1: "es1 = xs @ e # ys"
      using s1(5) by (auto simp: in_set_conv_decomp)
    then obtain q where q: "stailq_remove e (ch_list s1) = Some q" "holds q (xs @ ys)"
      using holds_remove chans_okD(1) [OF s1(2)] by blast
    have "chans_ok x (s1\<lparr>ch_list := q\<rparr>) (xs @ ys)"
      using chans_ok_unlink [OF _ s1(6) q(2)] s1(2) es1 by simp
    moreover have "e \<notin> set (xs @ ys)"
      using chans_okD(2) [OF s1(2)] es1 by simp
    ultimately show ?thesis
      using False f s1(1,3) q(1) by (auto simp: aug_removechan_def)
  qed
qed

lemma find_ok:
  assumes ok: "chans_ok x s es"
  shows "aug_findchan h cid s =
    Some (case find (\<lambda>e. \<exists>c. ch_ob s e = Some c \<and> h_id h c = cid) es of
            None \<Rightarrow> (None, s) | Some e \<Rightarrow> (ch_ob s e, retain (the (ch_ob s e)) s))"
proof (cases "find (\<lambda>e. \<exists>c. ch_ob s e = Some c \<and> h_id h c = cid) es")
  case None
  then show ?thesis
    using find_entry_holds [OF chans_okD(1) [OF ok], of h cid] by (simp add: aug_findchan_def)
next
  case (Some e)
  then obtain c where "ch_ob s e = Some c"
    by (auto simp: find_Some_iff)
  with Some show ?thesis
    using find_entry_holds [OF chans_okD(1) [OF ok], of h cid] by (simp add: aug_findchan_def)
qed

end

section \<open>A handler that calls back\<close>

text \<open>
  Channels like those of \<^verbatim>\<open>augnet/chanstest.c\<close> with callbacks that change the set: a \<open>Peer\<close>
  inserts the given channels, removes the channels of the given identifiers other than
  its own, and stays or goes; a \<open>Server\<close> with a new connection forks it.
\<close>

datatype tchan = Peer nat "tchan list" "nat list" bool | Server nat "tchan option"

primrec tchan_id :: "tchan \<Rightarrow> nat" where
  "tchan_id (Peer i _ _ _) = i"
| "tchan_id (Server i _) = i"

definition fresh_entry :: "'c chans \<Rightarrow> elm option" where
  "fresh_entry s =
     (case elems (ch_list s) of
        None \<Rightarrow> None
      | Some es \<Rightarrow> if Suc (length es) < 2 ^ 32 then Some (Suc (foldr max es 0)) else None)"

definition quiet :: "tchan handler" where
  "quiet = \<lparr>h_alloc = fresh_entry, h_id = tchan_id, h_clear = (\<lambda>_ s. Some s), h_process = (\<lambda>_ _. None)\<rparr>"

fun run_inserts :: "'c list \<Rightarrow> 'c handler \<Rightarrow> 'c chans \<Rightarrow> 'c chans" where
  "run_inserts [] h s = s"
| "run_inserts (c # cs) h s = run_inserts cs h (snd (aug_insertchan h c s))"

fun run_removes :: "nat list \<Rightarrow> 'c handler \<Rightarrow> 'c chans \<Rightarrow> 'c chans option" where
  "run_removes [] h s = Some s"
| "run_removes (i # is) h s =
     (case aug_removechan h i s of None \<Rightarrow> None | Some (_, s') \<Rightarrow> run_removes is h s')"

definition tprocess :: "tchan \<Rightarrow> tchan chans \<Rightarrow> (tchan option \<times> bool \<times> tchan chans) option" where
  "tprocess c s =
     (case c of
        Peer i new gone stays \<Rightarrow>
          map_option (\<lambda>s'. if stays then (Some c, False, retain c s') else (None, False, s'))
            (run_removes (filter (\<lambda>j. j \<noteq> i) gone) quiet (run_inserts new quiet s))
      | Server i None \<Rightarrow> Some (Some c, False, retain c s)
      | Server i (Some d) \<Rightarrow> Some (Some d, True, retain d s))"

definition tests :: "tchan handler" where
  "tests = quiet\<lparr>h_process := tprocess\<rparr>"

lemma foldr_max_ge: "e \<in> set es \<Longrightarrow> e \<le> foldr max es (0::nat)"
  by (induction es) auto

lemma fresh_entry_fresh:
  "chans_ok x s es \<Longrightarrow> fresh_entry s = Some e \<Longrightarrow> e \<notin> set es \<and> Suc (length es) < 2 ^ 32"
  using foldr_max_ge [of e es]
  by (auto simp: fresh_entry_def dest!: chans_okD(1) holds_elems split: if_splits)

interpretation quiet: chan_client quiet
proof
  fix x s es e assume "chans_ok x s es" "h_alloc quiet s = Some e"
  then show "e \<notin> set es \<and> Suc (length es) < 2 ^ 32"
    using fresh_entry_fresh by (simp add: quiet_def)
next
  fix x s es i assume "chans_ok x (s :: tchan chans) es"
  then show "\<exists>s' es'. h_clear quiet i s = Some s' \<and> chans_ok x s' es' \<and> ch_locks s' = ch_locks s
      \<and> (0 < ch_locks s \<longrightarrow> (\<exists>news. es' = news @ es))
      \<and> (\<forall>e \<in> set es. ch_ob s e = None \<longrightarrow> e \<in> set es' \<and> ch_ob s' e = None)"
    by (intro exI [of _ s] exI [of _ es]) (simp add: quiet_def)
qed

lemma run_inserts_ok:
  assumes "chans_ok x s es"
  shows "\<exists>news. chans_ok x (run_inserts cs quiet s) (news @ es) \<and> ch_locks (run_inserts cs quiet s) = ch_locks s
    \<and> (\<forall>e \<in> set es. ch_ob (run_inserts cs quiet s) e = ch_ob s e)"
  using assms
proof (induction cs arbitrary: s es)
  case Nil
  then show ?case by (intro exI [of _ "[]"]) simp
next
  case (Cons c cs)
  obtain r s1 news where s1: "aug_insertchan quiet c s = (r, s1)" "chans_ok x s1 (news @ es)" "ch_locks s1 = ch_locks s"
      "\<forall>e \<in> set es. ch_ob s1 e = ch_ob s e"
    using quiet.insert_ok [OF Cons.prems] by blast
  obtain news' where "chans_ok x (run_inserts cs quiet s1) (news' @ news @ es)"
      "ch_locks (run_inserts cs quiet s1) = ch_locks s1"
      "\<forall>e \<in> set (news @ es). ch_ob (run_inserts cs quiet s1) e = ch_ob s1 e"
    using Cons.IH [OF s1(2)] by blast
  then show ?case
    using s1 by (intro exI [of _ "news' @ news"]) simp
qed

lemma removechan_locked_ob:
  assumes "holds (ch_list s) es" "0 < ch_locks s" "aug_removechan quiet i s = Some (r, s')"
    and "ch_ob s e = Some c" "tchan_id c \<noteq> i"
  shows "ch_ob s' e = Some c"
  using assms(2-5) find_entry_holds [OF assms(1), of quiet i]
  by (auto simp: aug_removechan_def release_entry_def quiet_def Let_def find_Some_iff split: option.splits if_splits)

lemma run_removes_ok:
  assumes "chans_ok x s es" "0 < ch_locks s" "ch_ob s e = Some c" "tchan_id c \<notin> set is"
  shows "\<exists>s' news. run_removes is quiet s = Some s' \<and> chans_ok x s' (news @ es) \<and> ch_locks s' = ch_locks s
    \<and> ch_ob s' e = Some c"
  using assms
proof (induction "is" arbitrary: s es)
  case Nil
  then show ?case by (intro exI [of _ s] exI [of _ "[]"]) simp
next
  case (Cons i "is")
  have "\<exists>r s1 news. aug_removechan quiet i s = Some (r, s1) \<and> chans_ok x s1 (news @ es) \<and> ch_locks s1 = ch_locks s"
    using quiet.remove_ok [OF Cons.prems(1), of i] Cons.prems(1,2)
    by (cases "find (\<lambda>e. \<exists>c. ch_ob s e = Some c \<and> h_id quiet c = i) es") (force intro: exI [of _ "[]"])+
  then obtain r s1 news where s1: "aug_removechan quiet i s = Some (r, s1)" "chans_ok x s1 (news @ es)" "ch_locks s1 = ch_locks s"
    by blast
  have "ch_ob s1 e = Some c"
    using removechan_locked_ob [OF chans_okD(1) [OF Cons.prems(1)] Cons.prems(2) s1(1) Cons.prems(3)] Cons.prems(4) by auto
  then obtain s' news' where "run_removes is quiet s1 = Some s'" "chans_ok x s' (news' @ news @ es)" "ch_locks s' = ch_locks s1"
      "ch_ob s' e = Some c"
    using Cons.IH [OF s1(2)] s1(3) Cons.prems(2,4) by auto
  then show ?case
    using s1 by (intro exI [of _ s'] exI [of _ "news' @ news"]) simp
qed

lemma tprocess_ok:
  assumes ok: "chans_ok x s es" and locked: "0 < ch_locks s" and e: "e \<in> set es" "ch_ob s e = Some c"
  shows "\<exists>r fork s' news. tprocess c s = Some (r, fork, s')
    \<and> chans_ok (case r of None \<Rightarrow> x | Some d \<Rightarrow> x(d := x d + 1)) s' (news @ es)
    \<and> ch_locks s' = ch_locks s \<and> ch_ob s' e = Some c \<and> (fork \<longrightarrow> r \<noteq> None)"
proof (cases c)
  case (Peer i new gone stays)
  obtain news where n: "chans_ok x (run_inserts new quiet s) (news @ es)" "ch_locks (run_inserts new quiet s) = ch_locks s"
      "ch_ob (run_inserts new quiet s) e = Some c"
    using run_inserts_ok [OF ok, of new] e by auto
  have "tchan_id c \<notin> set (filter (\<lambda>j. j \<noteq> i) gone)"
    by (simp add: Peer)
  then obtain s' news' where s': "run_removes (filter (\<lambda>j. j \<noteq> i) gone) quiet (run_inserts new quiet s) = Some s'"
      "chans_ok x s' (news' @ news @ es)" "ch_locks s' = ch_locks s" "ch_ob s' e = Some c"
    using run_removes_ok [OF n(1) _ n(3), of "filter (\<lambda>j. j \<noteq> i) gone"] n(2) locked by auto
  show ?thesis
  proof (cases stays)
    case True
    then show ?thesis
      using s' chans_ok_retain [OF s'(2), of c] Peer
      by (intro exI [of _ "Some c"] exI [of _ False] exI [of _ "retain c s'"] exI [of _ "news' @ news"])
         (simp add: tprocess_def)
  next
    case False
    then show ?thesis
      using s' Peer
      by (intro exI [of _ None] exI [of _ False] exI [of _ s'] exI [of _ "news' @ news"]) (simp add: tprocess_def)
  qed
next
  case (Server i new)
  then show ?thesis
    using e(2) chans_ok_retain [OF ok]
    by (cases new) (auto simp: tprocess_def intro!: exI [of _ "[]"])
qed

interpretation tests: chan_handler tests
proof
  fix x s es e assume "chans_ok x s es" "h_alloc tests s = Some e"
  then show "e \<notin> set es \<and> Suc (length es) < 2 ^ 32"
    using fresh_entry_fresh by (simp add: tests_def quiet_def)
next
  fix x s es i assume "chans_ok x (s :: tchan chans) es"
  then show "\<exists>s' es'. h_clear tests i s = Some s' \<and> chans_ok x s' es' \<and> ch_locks s' = ch_locks s
      \<and> (0 < ch_locks s \<longrightarrow> (\<exists>news. es' = news @ es))
      \<and> (\<forall>e \<in> set es. ch_ob s e = None \<longrightarrow> e \<in> set es' \<and> ch_ob s' e = None)"
    by (intro exI [of _ s] exI [of _ es]) (simp add: tests_def quiet_def)
next
  fix x and s :: "tchan chans" and es e c
  assume "chans_ok x s es" "0 < ch_locks s" "e \<in> set es" "ch_ob s e = Some c"
  from tprocess_ok [OF this] show "\<exists>r fork s' news. h_process tests c s = Some (r, fork, s')
      \<and> chans_ok (case r of None \<Rightarrow> x | Some d \<Rightarrow> x(d := x d + 1)) s' (news @ es)
      \<and> ch_locks s' = ch_locks s \<and> ch_ob s' e = Some c \<and> (fork \<longrightarrow> r \<noteq> None)"
    by (simp add: tests_def)
qed

section \<open>Sets in use\<close>

text \<open>
  \<open>chans_run h x s\<close>: any sequence of operations at rest has led to \<open>s\<close>, and the callers hold
  \<open>x c\<close> references to \<open>c\<close> from \<^verbatim>\<open>aug_findchan\<close>.
\<close>

inductive chans_run :: "'c handler \<Rightarrow> ('c \<Rightarrow> int) \<Rightarrow> 'c chans \<Rightarrow> bool" for h where
  created: "chans_run h (\<lambda>_. 0) (aug_createchans m obs)"
| inserted: "chans_run h x s \<Longrightarrow> aug_insertchan h c s = (r, s') \<Longrightarrow> chans_run h x s'"
| removed: "chans_run h x s \<Longrightarrow> aug_removechan h i s = Some (r, s') \<Longrightarrow> chans_run h x s'"
| found: "chans_run h x s \<Longrightarrow> aug_findchan h i s = Some (r, s') \<Longrightarrow>
    chans_run h (case r of None \<Rightarrow> x | Some c \<Rightarrow> x(c := x c + 1)) s'"
| processed: "chans_run h x s \<Longrightarrow> aug_processchans h s = Some s' \<Longrightarrow> chans_run h x s'"

lemma chans_ok_create: "chans_ok (\<lambda>_. 0) (aug_createchans m obs) []"
  by (simp add: chans_ok_def aug_createchans_def holds_init)

lemma destroy_loop_ok:
  assumes "\<And>i s. h_clear h i s = Some s" and "chans_ok x s es"
  shows "\<exists>s'. destroy_loop h s = Some s' \<and> chans_ok x s' []"
  using assms(2)
proof (induction es arbitrary: s)
  case Nil
  then show ?case
    using holds_first [OF chans_okD(1) [OF Nil]] by (subst destroy_loop.simps) simp
next
  case (Cons e es)
  note o = chans_okD [OF Cons.prems]
  obtain q where q: "stailq_remove_head (ch_list s) = Some q" "holds q es"
    using holds_remove_head [OF o(1)] by blast
  have first: "stqh_first (ch_list s) = Some e"
    using holds_first [OF o(1)] by simp
  show ?case
  proof (cases "ch_ob s e")
    case None
    have "chans_ok x (s\<lparr>ch_list := q\<rparr>) ([] @ es)"
      by (rule chans_ok_unlink) (use Cons.prems None q in simp_all)
    with Cons.IH [of "s\<lparr>ch_list := q\<rparr>"] show ?thesis
      using first q(1) None by (subst destroy_loop.simps) simp
  next
    case (Some c)
    let ?s = "set_ob e None ((s\<lparr>ch_list := q\<rparr>)\<lparr>ch_size := usub (ch_size s) 1\<rparr>)"
    have "chans_ok (x(c := x c + 1)) (set_ob e None (s\<lparr>ch_size := usub (ch_size s) 1\<rparr>)) (e # es)"
      by (rule chans_ok_clear [OF Cons.prems]) (simp_all add: Some)
    then have "chans_ok (x(c := x c + 1)) ((set_ob e None (s\<lparr>ch_size := usub (ch_size s) 1\<rparr>))\<lparr>ch_list := q\<rparr>) ([] @ es)"
      using chans_ok_unlink [of _ "set_ob e None (s\<lparr>ch_size := usub (ch_size s) 1\<rparr>)" "[]" e es q] q(2) by simp
    moreover have eq: "(set_ob e None (s\<lparr>ch_size := usub (ch_size s) 1\<rparr>))\<lparr>ch_list := q\<rparr> = ?s"
      by (simp add: set_ob_def)
    ultimately have "chans_ok (x(c := x c + 1)) ?s es"
      unfolding eq by (simp only: append_Nil)
    from chans_ok_release [OF this, of c] have "chans_ok x (release c ?s) es"
      by simp
    with Cons.IH [of "release c ?s"] show ?thesis
      using first q(1) Some assms(1)
      by (subst destroy_loop.simps) (simp add: release_entry_def Let_def)
  qed
qed

context chan_handler
begin

lemma run_ok:
  assumes "chans_run h x s"
  shows "ch_locks s = 0 \<and> (\<exists>es. chans_ok x s es)"
  using assms
proof (induction rule: chans_run.induct)
  case (created m obs)
  then show ?case
    using chans_ok_create by (auto simp: aug_createchans_def)
next
  case (inserted x s c r s')
  then obtain es where "chans_ok x s es" by blast
  from insert_ok [OF this, of c] inserted show ?case by auto
next
  case (removed x s i r s')
  then obtain es where "chans_ok x s es" by blast
  from remove_ok [OF this, of i] removed \<open>chans_ok x s es\<close> show ?case
    by (auto split: option.splits)
next
  case (found x s i r s')
  then obtain es where es: "chans_ok x s es" by blast
  have "(r, s') = (None, s) \<or> (\<exists>c. (r, s') = (Some c, retain c s))"
    using find_ok [OF es, of i] found.hyps
    by (cases "find (\<lambda>e. \<exists>c. ch_ob s e = Some c \<and> h_id h c = i) es") (auto simp: find_Some_iff)
  then consider "r = None" "s' = s" | c where "r = Some c" "s' = retain c s"
    by auto
  then show ?case
    using es found.IH chans_ok_retain [OF es] by cases (fastforce simp del: fun_upd_apply)+
next
  case (processed x s s')
  then obtain es where "chans_ok x s es" by blast
  from processchans_rest [OF this] processed show ?case by auto
qed

end

section \<open>Properties\<close>

text \<open>
  C15: Processing a set that is not being processed rotates it by one and goes once through the entries that
  were in it, in the order of the rotated set (\<open>process_all\<close>): an entry whose channel is still
  there when its turn comes is processed, one whose channel an earlier callback has
  removed is passed over.  The callbacks may insert channels, fork them and mark others as removed, but each
  leaves the channel it was called for in the set (\<open>chan_handler\<close>; \<open>self_removal_undefined\<close> shows
  what happens otherwise).  Afterwards the removed entries are gone, new ones stand at the front, every entry left has a
  channel, and the size and the references are those of the entries.
\<close>

theorem chans_process:
  assumes "chan_handler h" "chans_ok x s es" "ch_locks s = 0"
  shows "\<exists>q s3 s' news. holds q (rotate1 es)
    \<and> process_all h (rotate1 es) (s\<lparr>ch_locks := 1, ch_list := q\<rparr>) = Some s3
    \<and> aug_processchans h s = Some s' \<and> ch_locks s' = 0
    \<and> elems (ch_list s') = Some (filter (\<lambda>e. ch_ob s3 e \<noteq> None) (news @ rotate1 es))
    \<and> ch_ob s' = ch_ob s3
    \<and> aug_getchans s' = length (filter (\<lambda>e. ch_ob s3 e \<noteq> None) (news @ rotate1 es))
    \<and> chans_ok x s' (filter (\<lambda>e. ch_ob s3 e \<noteq> None) (news @ rotate1 es))"
proof -
  have live: "is_live s = (\<lambda>e. ch_ob s e \<noteq> None)" for s :: "'a chans"
    by (simp add: is_live_def fun_eq_iff)
  obtain q s3 s' news where p: "process_all h (rotate1 es) (s\<lparr>ch_locks := 1, ch_list := q\<rparr>) = Some s3"
      "holds q (rotate1 es)" "aug_processchans h s = Some s'"
      "chans_ok x s' (filter (is_live s3) (news @ rotate1 es))" "ch_ob s' = ch_ob s3" "ch_locks s' = 0"
    using chan_handler.processchans_rest [OF assms] by blast
  have "filter (is_live s') (filter (is_live s3) (news @ rotate1 es)) = filter (is_live s3) (news @ rotate1 es)"
  proof -
    have "is_live s' = is_live s3"
      using p(5) by (simp add: is_live_def fun_eq_iff)
    then show ?thesis by simp
  qed
  then have "aug_getchans s' = length (filter (is_live s3) (news @ rotate1 es))"
    using chans_okD(4) [OF p(4)] by (simp add: aug_getchans_def)
  then show ?thesis
    using p holds_elems [OF chans_okD(1) [OF p(4)]] unfolding live [of s3] by blast
qed

text \<open>A set of three channels: a server with a connection, one that removes 3, and 3.\<close>

definition empty_set :: "tchan chans" where
  "empty_set = aug_createchans \<lparr>stqh_first = None, stqh_last = HeadFirst, stqe_next = (\<lambda>_. None)\<rparr> (\<lambda>_. None)"

definition trio :: "tchan chans" where
  "trio = run_inserts [Peer 3 [] [] True, Peer 2 [Peer 4 [] [] True] [3] True, Server 1 (Some (Peer 5 [] [] True))]
     tests empty_set"

lemma run_inserts_reach: "chans_run h x s \<Longrightarrow> chans_run h x (run_inserts cs h s)"
proof (induction cs arbitrary: s)
  case Nil
  then show ?case by simp
next
  case (Cons c cs)
  obtain r s' where "aug_insertchan h c s = (r, s')" by (cases "aug_insertchan h c s")
  with chans_run.inserted [OF Cons.prems this] Cons.IH show ?case by simp
qed

lemma trio_run: "chans_run tests (\<lambda>_. 0) trio"
  unfolding trio_def empty_set_def by (intro run_inserts_reach chans_run.created)

lemma trio_elems: "elems (ch_list trio) = Some [3, 2, 1]" "map (ch_ob trio) [3, 2, 1] =
    [Some (Server 1 (Some (Peer 5 [] [] True))), Some (Peer 2 [Peer 4 [] [] True] [3] True), Some (Peer 3 [] [] True)]"
  by (simp_all add: trio_def empty_set_def aug_createchans_def stailq_init_def aug_insertchan_def tests_def quiet_def
      fresh_entry_def elems_def elems_from.simps [of _ "Some _"] elems_from.simps [of _ None] stailq_insert_head_def
      retain_def set_ob_def Let_def)

theorem chans_process_witness:
  "\<exists>q s3 s' news. process_all tests [2, 1, 3] (trio\<lparr>ch_locks := 1, ch_list := q\<rparr>) = Some s3
    \<and> aug_processchans tests trio = Some s' \<and> ch_locks s' = 0
    \<and> elems (ch_list s') = Some (filter (\<lambda>e. ch_ob s3 e \<noteq> None) (news @ [2, 1, 3]))"
proof -
  obtain es where es: "chans_ok (\<lambda>_. 0) trio es" "ch_locks trio = 0"
    using tests.run_ok [OF trio_run] by blast
  then have "es = [3, 2, 1]"
    using holds_elems [OF chans_okD(1)] trio_elems(1) by fastforce
  then have "chans_ok (\<lambda>_. 0) trio [3, 2, 1]" using es(1) by simp
  from chans_process [OF tests.chan_handler_axioms this es(2)] show ?thesis
    by (simp only: rotate1.simps append.simps) blast
qed

text \<open>
  Whatever sequence of operations a set has seen, its size is the number of its
  channels, it holds one reference for each entry that has a channel beside those handed
  out by \<^verbatim>\<open>aug_findchan\<close>, no operation is undefined, and destroying the set (with a handler
  that leaves it alone) ends with only the handed out references.
\<close>

lemma chans_keep:
  assumes "chan_handler h" "chans_run h x s"
  shows "ch_locks s = 0
    \<and> (\<exists>es. elems (ch_list s) = Some es
        \<and> aug_getchans s = length (filter (\<lambda>e. ch_ob s e \<noteq> None) es)
        \<and> (\<forall>c. ch_refs s c = int (count_list (map (ch_ob s) es) (Some c)) + x c))
    \<and> aug_processchans h s \<noteq> None
    \<and> (\<forall>i. aug_removechan h i s \<noteq> None \<and> aug_findchan h i s \<noteq> None)
    \<and> ((\<forall>i s. h_clear h i s = Some s) \<longrightarrow> (\<exists>s'. aug_destroychans h s = Some s' \<and> ch_refs s' = x))"
proof -
  obtain es where es: "chans_ok x s es" "ch_locks s = 0"
    using chan_handler.run_ok [OF assms] by blast
  have client: "chan_client h"
    using assms(1) by (rule chan_handler.axioms)
  have "aug_processchans h s \<noteq> None"
    using chan_handler.processchans_rest [OF assms(1) es] by blast
  moreover have "aug_removechan h i s \<noteq> None" "aug_findchan h i s \<noteq> None" for i
    using chan_client.remove_ok [OF client es(1), of i] chan_client.find_ok [OF client es(1), of i]
    by (auto split: option.splits)
  moreover have "\<exists>s'. aug_destroychans h s = Some s' \<and> ch_refs s' = x" if "\<forall>i s. h_clear h i s = Some s"
    using destroy_loop_ok [OF _ es(1), of h] that es(2)
    by (auto simp: aug_destroychans_def chans_ok_def fun_eq_iff)
  moreover have "is_live s = (\<lambda>e. ch_ob s e \<noteq> None)"
    by (simp add: is_live_def fun_eq_iff)
  then have "aug_getchans s = length (filter (\<lambda>e. ch_ob s e \<noteq> None) es)"
    using chans_okD(4) [OF es(1)] by (simp add: aug_getchans_def)
  ultimately show ?thesis
    using es(2) chans_okD(6) [OF es(1)] holds_elems [OF chans_okD(1) [OF es(1)]] by blast
qed

theorem chans_keep_witness:
  "aug_getchans trio = 3 \<and> aug_processchans tests trio \<noteq> None
    \<and> (\<exists>s'. aug_destroychans tests trio = Some s' \<and> ch_refs s' = (\<lambda>_. 0))"
proof -
  have "\<forall>i s. h_clear tests i s = Some s"
    by (simp add: tests_def quiet_def)
  moreover have "length (filter (\<lambda>e. ch_ob trio e \<noteq> None) [3, 2, 1]) = 3"
    using trio_elems(2) by simp
  ultimately show ?thesis
    using chans_keep [OF tests.chan_handler_axioms trio_run] trio_elems(1) by auto
qed

text \<open>
  A callback that removes the channel being processed makes the processing undefined,
  although \<^verbatim>\<open>chans.h\<close> allows it: the entry's pointer is null when the reference taken for the
  call is released through it.
\<close>

lemma self_removal_undefined:
  assumes "chan_client h" "chans_ok x s es" "ch_locks s = 0" "rotate1 es = e # rest" "ch_ob s e = Some c"
    and "\<And>x s es. chans_ok x s es \<Longrightarrow>
        h_process h c s = map_option (\<lambda>(_, s'). (ret, fork, s')) (aug_removechan h (h_id h c) s)"
  shows "aug_processchans h s = None"
proof -
  let ?s1 = "s\<lparr>ch_locks := 1\<rparr>"
  have "chans_ok x ?s1 es"
    using assms(2) by (simp add: chans_ok_def)
  then obtain q where q: "rotate_head ?s1 = Some (?s1\<lparr>ch_list := q\<rparr>)" "chans_ok x (?s1\<lparr>ch_list := q\<rparr>) (e # rest)"
    using rotate_head_ok assms(4) by metis
  let ?s2 = "retain c (?s1\<lparr>ch_list := q\<rparr>)"
  have ok2: "chans_ok (x(c := x c + 1)) ?s2 (e # rest)"
    by (rule chans_ok_retain [OF q(2)])
  obtain s' where s': "aug_removechan h (h_id h c) ?s2 = Some (Inr (), s')" "ch_ob s' e = None"
    using chan_client.remove_ok [OF assms(1) ok2, of "h_id h c"] assms(5) by auto
  then have "process_entry h e (?s1\<lparr>ch_list := q\<rparr>) = None"
    using assms(5) assms(6) [OF ok2] by (simp add: process_entry_def)
  moreover have "stqh_first q = Some e"
    using holds_first [OF chans_okD(1) [OF q(2)]] by simp
  ultimately show ?thesis
    using assms(3) q(1) by (simp add: aug_processchans_def process_loop.simps [of _ "Some e"])
qed

text \<open>A peer that removes itself.\<close>

definition leaver :: "tchan handler" where
  "leaver = quiet\<lparr>h_process := \<lambda>c s. map_option (\<lambda>(_, s'). (None, False, s')) (aug_removechan quiet (tchan_id c) s)\<rparr>"

lemma leaver_remove:
  assumes "chans_ok x s es"
  shows "aug_removechan leaver i s = aug_removechan quiet i s"
proof -
  have f: "find_entry leaver i s (stqh_first (ch_list s)) = find_entry quiet i s (stqh_first (ch_list s))"
    using find_entry_holds [OF chans_okD(1) [OF assms]] by (simp add: leaver_def quiet_def)
  have r: "release_entry leaver it s = release_entry quiet it s" for it
    by (simp add: release_entry_def leaver_def quiet_def Let_def split: option.split)
  show ?thesis
    unfolding aug_removechan_def f r ..
qed

interpretation leaver: chan_client leaver
proof
  fix x s es e assume "chans_ok x s es" "h_alloc leaver s = Some e"
  then show "e \<notin> set es \<and> Suc (length es) < 2 ^ 32"
    using fresh_entry_fresh by (simp add: leaver_def quiet_def)
next
  fix x s es i assume "chans_ok x (s :: tchan chans) es"
  then show "\<exists>s' es'. h_clear leaver i s = Some s' \<and> chans_ok x s' es' \<and> ch_locks s' = ch_locks s
      \<and> (0 < ch_locks s \<longrightarrow> (\<exists>news. es' = news @ es))
      \<and> (\<forall>e \<in> set es. ch_ob s e = None \<longrightarrow> e \<in> set es' \<and> ch_ob s' e = None)"
    by (intro exI [of _ s] exI [of _ es]) (simp add: leaver_def quiet_def)
qed

theorem self_removal_undefined_witness: "aug_processchans leaver trio = None"
proof -
  obtain es where es: "chans_ok (\<lambda>_. 0) trio es" "ch_locks trio = 0"
    using tests.run_ok [OF trio_run] by blast
  have "es = [3, 2, 1]"
    using holds_elems [OF chans_okD(1) [OF es(1)]] trio_elems(1) by simp
  then have "rotate1 es = 2 # [1, 3]"
    by simp
  moreover have "ch_ob trio 2 = Some (Peer 2 [Peer 4 [] [] True] [3] True)"
    using trio_elems(2) by simp
  moreover have "h_process leaver c s = map_option (\<lambda>(_, s'). (None, False, s')) (aug_removechan leaver (h_id leaver c) s)"
    if "chans_ok x s es" for c x s es
    using leaver_remove [OF that, of "h_id leaver c"] by (simp add: leaver_def quiet_def)
  ultimately show ?thesis
    by (rule self_removal_undefined [OF leaver.chan_client_axioms es])
qed

end
