(* ===== verification/Md5.thy ===== *)
theory Md5
  imports Endian
begin

text \<open>
  The MD5 digest of \<^verbatim>\<open>augutil/md5.c\<close>.  The chaining state is four words, the context's
  input buffer 64 bytes of memory that the transform reads as words in host order (\<open>be\<close>);
  on a big-endian host \<^verbatim>\<open>byteReverse\<close> turns them around first.  \<open>LINES\<close> lists the 64 steps of
  \<^verbatim>\<open>MD5Transform\<close> as they stand.

  The reference is RFC 1321: the padded message, cut into blocks, and rounds over rotating
  registers with the index and shift formulas of the RFC.  The context computes it whatever
  the pieces the message is given in.
\<close>

section \<open>The transform\<close>

type_synonym u32 = "32 word"
type_synonym md5state = "u32 \<times> u32 \<times> u32 \<times> u32"

definition F1 :: "u32 \<Rightarrow> u32 \<Rightarrow> u32 \<Rightarrow> u32" where
  "F1 x y z = z XOR (x AND (y XOR z))"

definition F2 :: "u32 \<Rightarrow> u32 \<Rightarrow> u32 \<Rightarrow> u32" where
  "F2 x y z = F1 z x y"

definition F3 :: "u32 \<Rightarrow> u32 \<Rightarrow> u32 \<Rightarrow> u32" where
  "F3 x y z = x XOR y XOR z"

definition F4 :: "u32 \<Rightarrow> u32 \<Rightarrow> u32 \<Rightarrow> u32" where
  "F4 x y z = y XOR (x OR NOT z)"

text \<open>The new value of \<open>w\<close>.\<close>

definition MD5STEP :: "(u32 \<Rightarrow> u32 \<Rightarrow> u32 \<Rightarrow> u32) \<Rightarrow> u32 \<Rightarrow> u32 \<Rightarrow> u32 \<Rightarrow> u32 \<Rightarrow> u32 \<Rightarrow> nat \<Rightarrow> u32" where
  "MD5STEP f w x y z data s =
     (let w = w + (f x y z + data);
          w = push_bit s w OR drop_bit (32 - s) w
      in w + x)"

text \<open>
  A line \<^verbatim>\<open>MD5STEP(f, w, x, y, z, in[k] + c, s)\<close> is \<open>(f, w, k, c, s)\<close>: the registers \<^verbatim>\<open>x\<close>, \<^verbatim>\<open>y\<close>, \<^verbatim>\<open>z\<close> follow \<^verbatim>\<open>w\<close>
  in the cycle \<^verbatim>\<open>a b c d\<close>.
\<close>

datatype reg = RA | RB | RC | RD

type_synonym md5line = "(u32 \<Rightarrow> u32 \<Rightarrow> u32 \<Rightarrow> u32) \<times> reg \<times> nat \<times> u32 \<times> nat"

definition LINES :: "md5line list" where
  "LINES =
    [(F1, RA, 0, 0xd76aa478, 7), (F1, RD, 1, 0xe8c7b756, 12),
     (F1, RC, 2, 0x242070db, 17), (F1, RB, 3, 0xc1bdceee, 22),
     (F1, RA, 4, 0xf57c0faf, 7), (F1, RD, 5, 0x4787c62a, 12),
     (F1, RC, 6, 0xa8304613, 17), (F1, RB, 7, 0xfd469501, 22),
     (F1, RA, 8, 0x698098d8, 7), (F1, RD, 9, 0x8b44f7af, 12),
     (F1, RC, 10, 0xffff5bb1, 17), (F1, RB, 11, 0x895cd7be, 22),
     (F1, RA, 12, 0x6b901122, 7), (F1, RD, 13, 0xfd987193, 12),
     (F1, RC, 14, 0xa679438e, 17), (F1, RB, 15, 0x49b40821, 22),
     (F2, RA, 1, 0xf61e2562, 5), (F2, RD, 6, 0xc040b340, 9),
     (F2, RC, 11, 0x265e5a51, 14), (F2, RB, 0, 0xe9b6c7aa, 20),
     (F2, RA, 5, 0xd62f105d, 5), (F2, RD, 10, 0x02441453, 9),
     (F2, RC, 15, 0xd8a1e681, 14), (F2, RB, 4, 0xe7d3fbc8, 20),
     (F2, RA, 9, 0x21e1cde6, 5), (F2, RD, 14, 0xc33707d6, 9),
     (F2, RC, 3, 0xf4d50d87, 14), (F2, RB, 8, 0x455a14ed, 20),
     (F2, RA, 13, 0xa9e3e905, 5), (F2, RD, 2, 0xfcefa3f8, 9),
     (F2, RC, 7, 0x676f02d9, 14), (F2, RB, 12, 0x8d2a4c8a, 20),
     (F3, RA, 5, 0xfffa3942, 4), (F3, RD, 8, 0x8771f681, 11),
     (F3, RC, 11, 0x6d9d6122, 16), (F3, RB, 14, 0xfde5380c, 23),
     (F3, RA, 1, 0xa4beea44, 4), (F3, RD, 4, 0x4bdecfa9, 11),
     (F3, RC, 7, 0xf6bb4b60, 16), (F3, RB, 10, 0xbebfbc70, 23),
     (F3, RA, 13, 0x289b7ec6, 4), (F3, RD, 0, 0xeaa127fa, 11),
     (F3, RC, 3, 0xd4ef3085, 16), (F3, RB, 6, 0x04881d05, 23),
     (F3, RA, 9, 0xd9d4d039, 4), (F3, RD, 12, 0xe6db99e5, 11),
     (F3, RC, 15, 0x1fa27cf8, 16), (F3, RB, 2, 0xc4ac5665, 23),
     (F4, RA, 0, 0xf4292244, 6), (F4, RD, 7, 0x432aff97, 10),
     (F4, RC, 14, 0xab9423a7, 15), (F4, RB, 5, 0xfc93a039, 21),
     (F4, RA, 12, 0x655b59c3, 6), (F4, RD, 3, 0x8f0ccc92, 10),
     (F4, RC, 10, 0xffeff47d, 15), (F4, RB, 1, 0x85845dd1, 21),
     (F4, RA, 8, 0x6fa87e4f, 6), (F4, RD, 15, 0xfe2ce6e0, 10),
     (F4, RC, 6, 0xa3014314, 15), (F4, RB, 13, 0x4e0811a1, 21),
     (F4, RA, 4, 0xf7537e82, 6), (F4, RD, 11, 0xbd3af235, 10),
     (F4, RC, 2, 0x2ad7d2bb, 15), (F4, RB, 9, 0xeb86d391, 21)]"

fun md5_line :: "u32 list \<Rightarrow> md5line \<Rightarrow> md5state \<Rightarrow> md5state" where
  "md5_line inp (f, w, k, cst, s) (a, b, c, d) =
     (case w of
        RA \<Rightarrow> (MD5STEP f a b c d (inp ! k + cst) s, b, c, d)
      | RB \<Rightarrow> (a, MD5STEP f b c d a (inp ! k + cst) s, c, d)
      | RC \<Rightarrow> (a, b, MD5STEP f c d a b (inp ! k + cst) s, d)
      | RD \<Rightarrow> (a, b, c, MD5STEP f d a b c (inp ! k + cst) s))"

definition plus4 :: "md5state \<Rightarrow> md5state \<Rightarrow> md5state" where
  "plus4 s t = (case s of (a, b, c, d) \<Rightarrow> case t of (a', b', c', d') \<Rightarrow> (a + a', b + b', c + c', d + d'))"

definition MD5Transform :: "md5state \<Rightarrow> u32 list \<Rightarrow> md5state" where
  "MD5Transform buf inp = plus4 buf (fold (md5_line inp) LINES buf)"

section \<open>The context\<close>

record md5ctx =
  md_buf :: md5state
  md_bits0 :: u32
  md_bits1 :: u32
  md_in :: "byte list"

text \<open>Memory as words in host order, and \<^verbatim>\<open>byteReverse\<close>, which is empty on a little-endian host.\<close>

definition words :: "bool \<Rightarrow> byte list \<Rightarrow> u32 list" where
  "words be m = map (\<lambda>i. load32 be (slice (4 * i) 4 m)) [0..<16]"

definition byteReverse :: "bool \<Rightarrow> byte list \<Rightarrow> nat \<Rightarrow> byte list" where
  "byteReverse be m longs =
     (if be then concat (map (\<lambda>i. host32 be (load32 False (slice (4 * i) 4 m))) [0..<longs]) @ drop (4 * longs) m
      else m)"

text \<open>\<^verbatim>\<open>in\<close> is not initialised: its bytes are an argument.\<close>

definition aug_initmd5 :: "byte list \<Rightarrow> md5ctx" where
  "aug_initmd5 memory =
     \<lparr>md_buf = (0x67452301, 0xefcdab89, 0x98badcfe, 0x10325476), md_bits0 = 0, md_bits1 = 0, md_in = memory\<rparr>"

text \<open>\<^verbatim>\<open>byteReverse(ctx->in, 16); MD5Transform(ctx->buf, (uint32_t *) ctx->in);\<close>\<close>

definition transform_in :: "bool \<Rightarrow> md5ctx \<Rightarrow> md5ctx" where
  "transform_in be ctx =
     (let m = byteReverse be (md_in ctx) 16
      in ctx\<lparr>md_in := m, md_buf := MD5Transform (md_buf ctx) (words be m)\<rparr>)"

text \<open>Process data in 64-byte chunks, then handle any remaining bytes of data.\<close>

fun md5_chunks :: "bool \<Rightarrow> md5ctx \<Rightarrow> byte list \<Rightarrow> md5ctx" where
  "md5_chunks be ctx buf =
     (if 64 \<le> length buf then
        md5_chunks be (transform_in be (ctx\<lparr>md_in := poke (md_in ctx) 0 (take 64 buf)\<rparr>)) (drop 64 buf)
      else ctx\<lparr>md_in := poke (md_in ctx) 0 buf\<rparr>)"

declare md5_chunks.simps [simp del]

definition aug_appendmd5 :: "bool \<Rightarrow> md5ctx \<Rightarrow> byte list \<Rightarrow> md5ctx" where
  "aug_appendmd5 be ctx buf =
     (let len = of_nat (length buf) :: u32;
          t = md_bits0 ctx;
          ctx1 = ctx\<lparr>md_bits0 := t + push_bit 3 len\<rparr>;
          ctx2 = (if md_bits0 ctx1 < t then ctx1\<lparr>md_bits1 := md_bits1 ctx1 + 1\<rparr> else ctx1);
          ctx3 = ctx2\<lparr>md_bits1 := md_bits1 ctx2 + drop_bit 29 len\<rparr>;
          n = unat (drop_bit 3 t AND 0x3f)
      in if n \<noteq> 0 then
           let room = 64 - n in
           if length buf < room then ctx3\<lparr>md_in := poke (md_in ctx3) n buf\<rparr>
           else
             let ctx4 = transform_in be (ctx3\<lparr>md_in := poke (md_in ctx3) n (take room buf)\<rparr>)
             in md5_chunks be ctx4 (drop room buf)
         else md5_chunks be ctx3 buf)"

text \<open>
  The digest: the words of the state in host order, reversed on a big-endian host.
\<close>

definition state_memory :: "bool \<Rightarrow> md5state \<Rightarrow> byte list" where
  "state_memory be s = (case s of (a, b, c, d) \<Rightarrow> host32 be a @ host32 be b @ host32 be c @ host32 be d)"

text \<open>Set the first char of padding to 0x80 and pad out to 56 mod 64.\<close>

definition padded :: "bool \<Rightarrow> md5ctx \<Rightarrow> md5ctx" where
  "padded be ctx =
     (let n = unat (drop_bit 3 (md_bits0 ctx) AND 0x3f);
          ctx1 = ctx\<lparr>md_in := poke (md_in ctx) n [0x80]\<rparr>;
          p = n + 1;
          count = 64 - 1 - n
      in if count < 8 then
           let c = transform_in be (ctx1\<lparr>md_in := poke (md_in ctx1) p (replicate count 0)\<rparr>)
           in c\<lparr>md_in := poke (md_in c) 0 (replicate 56 0)\<rparr>
         else ctx1\<lparr>md_in := poke (md_in ctx1) p (replicate (count - 8) 0)\<rparr>)"

definition aug_finishmd5 :: "bool \<Rightarrow> md5ctx \<Rightarrow> byte list" where
  "aug_finishmd5 be ctx =
     (let ctx2 = padded be ctx;
          m = byteReverse be (md_in ctx2) 14;
          m = poke m 56 (host32 be (md_bits0 ctx2));
          m = poke m 60 (host32 be (md_bits1 ctx2));
          buf = MD5Transform (md_buf ctx2) (words be m)
      in take 16 (byteReverse be (state_memory be buf) 4))"

text \<open>\<^verbatim>\<open>aug_md5base64\<close>, which writes the digest in hexadecimal.\<close>

definition hex_char :: "byte \<Rightarrow> byte" where
  "hex_char j = (if j \<le> 9 then j + 48 else j + 97 - 10)"

definition aug_md5base64 :: "byte list \<Rightarrow> byte list" where
  "aug_md5base64 digest =
     concat (map (\<lambda>i. let x = digest ! i in [hex_char (drop_bit 4 x AND 0xf), hex_char (x AND 0xf)]) [0..<16])"

section \<open>RFC 1321\<close>

definition K :: "u32 list" where
  "K =
    [0xd76aa478, 0xe8c7b756, 0x242070db, 0xc1bdceee,
     0xf57c0faf, 0x4787c62a, 0xa8304613, 0xfd469501,
     0x698098d8, 0x8b44f7af, 0xffff5bb1, 0x895cd7be,
     0x6b901122, 0xfd987193, 0xa679438e, 0x49b40821,
     0xf61e2562, 0xc040b340, 0x265e5a51, 0xe9b6c7aa,
     0xd62f105d, 0x02441453, 0xd8a1e681, 0xe7d3fbc8,
     0x21e1cde6, 0xc33707d6, 0xf4d50d87, 0x455a14ed,
     0xa9e3e905, 0xfcefa3f8, 0x676f02d9, 0x8d2a4c8a,
     0xfffa3942, 0x8771f681, 0x6d9d6122, 0xfde5380c,
     0xa4beea44, 0x4bdecfa9, 0xf6bb4b60, 0xbebfbc70,
     0x289b7ec6, 0xeaa127fa, 0xd4ef3085, 0x04881d05,
     0xd9d4d039, 0xe6db99e5, 0x1fa27cf8, 0xc4ac5665,
     0xf4292244, 0x432aff97, 0xab9423a7, 0xfc93a039,
     0x655b59c3, 0x8f0ccc92, 0xffeff47d, 0x85845dd1,
     0x6fa87e4f, 0xfe2ce6e0, 0xa3014314, 0x4e0811a1,
     0xf7537e82, 0xbd3af235, 0x2ad7d2bb, 0xeb86d391]"

text \<open>The auxiliary functions, the word index and the rotation of round \<open>i\<close>.\<close>

definition rfc_F :: "nat \<Rightarrow> u32 \<Rightarrow> u32 \<Rightarrow> u32 \<Rightarrow> u32" where
  "rfc_F i x y z =
     (if i < 16 then (x AND y) OR (NOT x AND z)
      else if i < 32 then (x AND z) OR (y AND NOT z)
      else if i < 48 then x XOR y XOR z
      else y XOR (x OR NOT z))"

definition rfc_index :: "nat \<Rightarrow> nat" where
  "rfc_index i =
     (if i < 16 then i else if i < 32 then (5 * i + 1) mod 16
      else if i < 48 then (3 * i + 5) mod 16 else (7 * i) mod 16)"

definition rfc_shift :: "nat \<Rightarrow> nat" where
  "rfc_shift i = [[7, 12, 17, 22], [5, 9, 14, 20], [4, 11, 16, 23], [6, 10, 15, 21]] ! (i div 16) ! (i mod 4)"

definition rfc_round :: "u32 list \<Rightarrow> nat \<Rightarrow> md5state \<Rightarrow> md5state" where
  "rfc_round x i s =
     (case s of (a, b, c, d) \<Rightarrow>
        (d, b + word_rotl (rfc_shift i) (a + rfc_F i b c d + x ! rfc_index i + K ! i), b, c))"

definition rfc_block :: "md5state \<Rightarrow> byte list \<Rightarrow> md5state" where
  "rfc_block s m = plus4 s (fold (rfc_round (map (\<lambda>i. load32 False (slice (4 * i) 4 m)) [0..<16])) [0..<64] s)"

fun rfc_blocks :: "md5state \<Rightarrow> byte list \<Rightarrow> md5state" where
  "rfc_blocks s m = (if 64 \<le> length m then rfc_blocks (rfc_block s (take 64 m)) (drop 64 m) else s)"

declare rfc_blocks.simps [simp del]

definition rfc_pad :: "nat \<Rightarrow> byte list" where
  "rfc_pad n = 0x80 # replicate ((119 - n mod 64) mod 64) 0
     @ rev (enc64 (of_nat (8 * n)))"

definition rfc_md5 :: "byte list \<Rightarrow> byte list" where
  "rfc_md5 msg = state_memory False
     (rfc_blocks (0x67452301, 0xefcdab89, 0x98badcfe, 0x10325476) (msg @ rfc_pad (length msg)))"

section \<open>The transform computes the rounds\<close>

lemma rotl32: "s < 32 \<Longrightarrow> 0 < s \<Longrightarrow> push_bit s w OR drop_bit (32 - s) w = word_rotl s (w :: u32)"
proof (rule bit_word_eqI)
  fix n assume s: "s < 32" "0 < s" and n: "n < LENGTH(32)"
  have l: "bit (push_bit s w OR drop_bit (32 - s) w) n \<longleftrightarrow> (s \<le> n \<and> bit w (n - s)) \<or> bit w (32 - s + n)"
    using n by (simp add: bit_push_bit_iff bit_drop_bit_eq bit_or_iff)
  have r: "bit (word_rotl s w) n \<longleftrightarrow> bit w ((n + (32 - s)) mod 32)"
    using n s by (simp add: bit_word_rotl_iff)
  show "bit (push_bit s w OR drop_bit (32 - s) w) n = bit (word_rotl s w) n"
  proof (cases "n < s")
    case True
    then have "(n + (32 - s)) mod 32 = 32 - s + n" using s by (simp add: add.commute)
    with True show ?thesis unfolding l r by simp
  next
    case False
    then have "(n + (32 - s)) mod 32 = n - s" using s n by (simp add: mod_if)
    moreover have "\<not> bit w (32 - s + n)" using False bit_u32_less by fastforce
    ultimately show ?thesis using False unfolding l r by simp
  qed
qed

lemma F_rfc:
  "i < 16 \<Longrightarrow> rfc_F i = F1" "16 \<le> i \<Longrightarrow> i < 32 \<Longrightarrow> rfc_F i = F2"
  "32 \<le> i \<Longrightarrow> i < 48 \<Longrightarrow> rfc_F i = F3" "48 \<le> i \<Longrightarrow> rfc_F i = F4"
  by (intro ext bit_word_eqI; auto simp: rfc_F_def F1_def F2_def F3_def F4_def bit_simps)+

text \<open>The lines of the code by the formulas of the RFC.\<close>

definition rfc_line :: "nat \<Rightarrow> md5line" where
  "rfc_line i = ([F1, F2, F3, F4] ! (i div 16), [RA, RD, RC, RB] ! (i mod 4), rfc_index i, K ! i, rfc_shift i)"

lemma upt_64:
  "[0..<64] =
    [0, 1, 2, 3, 4, 5, 6, 7, 8, 9, 10, 11, 12, 13, 14, 15,
     16, 17, 18, 19, 20, 21, 22, 23, 24, 25, 26, 27, 28, 29, 30, 31,
     32, 33, 34, 35, 36, 37, 38, 39, 40, 41, 42, 43, 44, 45, 46, 47,
     48, 49, 50, 51, 52, 53, 54, 55, 56, 57, 58, 59, 60, 61, 62, 63]"
  by code_simp

lemma LINES_rfc: "LINES = map rfc_line [0..<64]"
  unfolding upt_64 by (simp add: LINES_def rfc_line_def rfc_index_def rfc_shift_def K_def)

text \<open>The registers in the order round \<open>i\<close> uses them.\<close>

definition turned :: "nat \<Rightarrow> md5state \<Rightarrow> md5state" where
  "turned i s = (case s of (a, b, c, d) \<Rightarrow>
     [(a, b, c, d), (d, a, b, c), (c, d, a, b), (b, c, d, a)] ! (i mod 4))"

lemma less4_cases: "(n :: nat) < 4 \<Longrightarrow> n = 0 \<or> n = 1 \<or> n = 2 \<or> n = 3"
  by arith

lemma F_line: "i < 64 \<Longrightarrow> [F1, F2, F3, F4] ! (i div 16) = rfc_F i"
proof -
  assume i: "i < 64"
  then have "i div 16 < 4" by auto
  then show ?thesis
    using i F_rfc [of i] less4_cases [of "i div 16"] by (auto simp: numeral_2_eq_2 numeral_3_eq_3)
qed

lemma shift_bounds: "0 < rfc_shift i \<and> rfc_shift i < 32" if "i < 64"
proof -
  have "i div 16 < 4" "i mod 4 < 4" using that by auto
  with less4_cases [of "i div 16"] less4_cases [of "i mod 4"] show ?thesis
    by (auto simp: rfc_shift_def numeral_2_eq_2 numeral_3_eq_3)
qed

lemma md5step_rfc:
  "i < 64 \<Longrightarrow> MD5STEP (rfc_F i) a b c d (x ! k + K ! i) (rfc_shift i)
     = b + word_rotl (rfc_shift i) (a + rfc_F i b c d + x ! k + K ! i)"
  using shift_bounds [of i] by (simp add: MD5STEP_def Let_def rotl32 ac_simps)

lemma line_round:
  assumes "i < 64"
  shows "turned (Suc i) (md5_line x (rfc_line i) s) = rfc_round x i (turned i s)"
proof -
  obtain a b c d where s: "s = (a, b, c, d)" by (cases s)
  have "i mod 4 = 0 \<or> i mod 4 = 1 \<or> i mod 4 = 2 \<or> i mod 4 = 3" by arith
  then show ?thesis
    using assms
    by (elim disjE)
       (simp_all add: s turned_def rfc_line_def F_line rfc_round_def md5step_rfc mod_Suc
         numeral_2_eq_2 numeral_3_eq_3)
qed

lemma lines_rounds:
  "n \<le> 64 \<Longrightarrow> turned n (fold (md5_line x) (map rfc_line [0..<n]) s) = fold (rfc_round x) [0..<n] s"
proof (induction n)
  case 0
  then show ?case by (cases s) (simp add: turned_def)
next
  case (Suc n)
  then show ?case by (simp add: line_round)
qed

lemma MD5Transform_rfc: "MD5Transform s x = plus4 s (fold (rfc_round x) [0..<64] s)"
proof -
  have "turned 64 t = t" for t by (cases t) (simp add: turned_def)
  with lines_rounds [of 64 x s] show ?thesis by (simp add: MD5Transform_def LINES_rfc)
qed

section \<open>Words in the memory of either host\<close>

lemma length_concat_words:
  "(\<And>i. length (f i) = 4) \<Longrightarrow> length (concat (map f [0..<n])) = 4 * n"
  by (induction n) auto

lemma slice_concat_words:
  assumes "\<And>i. length (f i) = 4" and "i < n"
  shows "slice (4 * i) 4 (concat (map f [0..<n]) @ r) = f i"
  using assms(2)
proof (induction n arbitrary: r)
  case (Suc n)
  have *: "concat (map f [0..<Suc n]) @ r = concat (map f [0..<n]) @ f n @ r" by simp
  show ?case
  proof (cases "i = n")
    case True
    then show ?thesis unfolding * by (simp add: slice_append_mid assms(1) length_concat_words)
  next
    case False
    with Suc.prems have "i < n" by simp
    then show ?thesis unfolding * by (rule Suc.IH)
  qed
qed simp

definition le_words :: "byte list \<Rightarrow> u32 list" where
  "le_words m = map (\<lambda>i. load32 False (slice (4 * i) 4 m)) [0..<16]"

lemma rfc_block_le: "rfc_block s m = MD5Transform s (le_words m)"
  by (simp add: rfc_block_def MD5Transform_rfc le_words_def)

lemma length_host32 [simp]: "length (host32 be x) = 4"
  by (rule mem32.length_enc)

lemma length_byteReverse [simp]: "4 * n \<le> length m \<Longrightarrow> length (byteReverse be m n) = length m"
  by (simp add: byteReverse_def length_concat_words)

lemma load_byteReverse:
  "i < n \<Longrightarrow> load32 be (slice (4 * i) 4 (byteReverse be m n)) = load32 False (slice (4 * i) 4 m)"
  by (cases be) (simp_all add: byteReverse_def slice_concat_words mem32.dec_enc)

lemma words_byteReverse: "words be (byteReverse be m 16) = le_words m"
  by (simp add: words_def le_words_def load_byteReverse)

text \<open>The last block: 14 words turned around, two written as they are.\<close>

lemma words_last:
  assumes "length m = 64"
  shows "words be (poke (poke (byteReverse be m 14) 56 (host32 be b0)) 60 (host32 be b1))
    = le_words (take 56 m @ host32 False b0 @ host32 False b1)" (is "words be ?m = le_words ?l")
proof -
  have "load32 be (slice (4 * i) 4 ?m) = load32 False (slice (4 * i) 4 ?l)" if i16: "i < 16" for i
  proof -
    consider "i < 14" | "i = 14" | "i = 15" using i16 by force
    then show ?thesis
    proof cases
      case 1
      then have "slice (4 * i) 4 ?m = slice (4 * i) 4 (byteReverse be m 14)"
        using assms by (simp add: slice_poke_before)
      moreover have "slice (4 * i) 4 ?l = slice (4 * i) 4 m"
        using 1 assms slice_append_within [of "4 * i" 4 "take 56 m" "drop 56 m"]
        by (simp add: slice_append_within)
      ultimately show ?thesis using 1 by (simp add: load_byteReverse)
    next
      case 2
      then show ?thesis
        using assms slice_poke_same [of 56 "host32 be b0" "byteReverse be m 14"]
          slice_append_mid [of 56 "take 56 m" 4 "host32 False b0" "host32 False b1"]
        by (simp add: slice_poke_before mem32.dec_enc)
    next
      case 3
      have "slice 60 4 ?m = host32 be b1"
        using assms slice_poke_same [of 60 "host32 be b1" "poke (byteReverse be m 14) 56 (host32 be b0)"]
        by simp
      moreover have "slice 60 4 ?l = host32 False b1"
        unfolding append_assoc [symmetric] by (rule slice_append_last) (simp_all add: assms)
      moreover have "4 * i = 60" using 3 by simp
      ultimately show ?thesis by (simp only: mem32.dec_enc)
    qed
  qed
  then show ?thesis by (simp add: words_def le_words_def)
qed

lemma digest_memory: "take 16 (byteReverse be (state_memory be s) 4) = state_memory False s"
proof (cases be)
  case True
  obtain a b c d where s: "s = (a, b, c, d)" by (cases s)
  have "[0..<4] = [0, 1, 2, 3::nat]" by (simp add: upt_rec)
  moreover have "slice 4 4 (state_memory True s) = enc32 b" "slice 0 4 (state_memory True s) = enc32 a"
    "slice 8 4 (state_memory True s) = enc32 c" "slice 12 4 (state_memory True s) = enc32 d"
    by (simp_all add: s state_memory_def host32_def slice_def)
  moreover have "host32 True (load32 False (enc32 x)) = host32 False x" for x
    by (simp add: host32_def load32_def be32.enc_dec)
  moreover have "length (state_memory True s) = 16" by (simp add: s state_memory_def)
  ultimately show ?thesis using True by (simp add: byteReverse_def) (simp add: s state_memory_def)
qed (auto simp: byteReverse_def state_memory_def split: prod.splits)

section \<open>The bit count\<close>

definition bit_count :: "md5ctx \<Rightarrow> nat" where
  "bit_count ctx = unat (md_bits0 ctx) + 2 ^ 32 * unat (md_bits1 ctx)"

text \<open>Adding a 32-bit length in bytes to the 64-bit count, with the carry of the low half.\<close>

lemma count_carry:
  fixes t h q r :: nat
  assumes "t < 2 ^ 32" "r < 2 ^ 32"
  shows "((t + r) mod 2 ^ 32
      + 2 ^ 32 * (((if (t + r) mod 2 ^ 32 < t then h + 1 else h) + q) mod 2 ^ 32)) mod 2 ^ 64
    = (t + 2 ^ 32 * h + (2 ^ 32 * q + r)) mod 2 ^ 64"
proof -
  let ?c = "(t + r) div 2 ^ 32"
  have c: "?c < 2" using assms by (simp add: div_less_iff_less_mult)
  have carry: "(if (t + r) mod 2 ^ 32 < t then h + 1 else h) = h + ?c"
  proof (cases "t + r < 2 ^ 32")
    case True
    then show ?thesis by simp
  next
    case False
    with assms have "?c = 1" "(t + r) mod 2 ^ 32 = t + r - 2 ^ 32"
      by (auto simp: div_nat_eqI mod_if)
    with assms False show ?thesis by auto
  qed
  have mul: "2 ^ 32 * (x mod 2 ^ 32) = (2 ^ 32 * x) mod 2 ^ 64" for x :: nat
    using mult_mod_right [of "2 ^ 32" x "2 ^ 32"] by simp
  have "t + r = (t + r) mod 2 ^ 32 + 2 ^ 32 * ?c" by simp
  then have "t + 2 ^ 32 * h + (2 ^ 32 * q + r) = (t + r) mod 2 ^ 32 + 2 ^ 32 * (h + ?c + q)"
    by (simp only: distrib_left)
  then show ?thesis
    unfolding carry mul by (simp only: mod_add_right_eq)
qed

lemma unat_shift3: "unat (push_bit 3 (len :: u32)) = (8 * unat len) mod 2 ^ 32"
  by (simp add: push_bit_eq_mult unat_mult_lem unat_word_ariths mult.commute)

lemma split_len: "8 * (l :: nat) = 2 ^ 32 * (l div 2 ^ 29) + (8 * l) mod 2 ^ 32"
proof -
  have "(8 * l) div 2 ^ 32 = l div 2 ^ 29"
    using div_mult_mult1 [of 8 l "2 ^ 29"] by simp
  then show ?thesis by (metis mult_div_mod_eq)
qed

lemma word32_len: "(2 :: nat) ^ LENGTH(32) = 2 ^ 32"
  by simp

lemma count_append:
  fixes t h len :: u32
  defines "t' \<equiv> t + push_bit 3 len"
  defines "h' \<equiv> (if t' < t then h + 1 else h) + drop_bit 29 len"
  shows "(unat t' + 2 ^ 32 * unat h') mod 2 ^ 64 = (unat t + 2 ^ 32 * unat h + 8 * unat len) mod 2 ^ 64"
proof -
  have t': "unat t' = (unat t + (8 * unat len) mod 2 ^ 32) mod 2 ^ 32"
    by (simp add: t'_def unat_word_ariths unat_shift3)
  have h1: "unat (if t' < t then h + 1 else h) mod 2 ^ 32
      = (if unat t' < unat t then unat h + 1 else unat h) mod 2 ^ 32"
    by (simp add: word_less_nat_alt unat_word_ariths)
  have "unat h' = (unat (if t' < t then h + 1 else h) mod 2 ^ 32 + unat len div 2 ^ 29) mod 2 ^ 32"
    by (simp only: h'_def unat_word_ariths(1) unat_drop_bit_eq drop_bit_eq_div [where 'a = nat]
        mod_add_left_eq word32_len)
  then have h': "unat h' = ((if unat t' < unat t then unat h + 1 else unat h) + unat len div 2 ^ 29) mod 2 ^ 32"
    unfolding h1 by (simp only: mod_add_left_eq)
  show ?thesis
    unfolding h' unfolding t'
    using count_carry [of "unat t" "(8 * unat len) mod 2 ^ 32" "unat h" "unat len div 2 ^ 29"]
      split_len [of "unat len"] unsigned_less [of t, where 'a = nat] by simp
qed

text \<open>How many bytes of the context's buffer are in use.\<close>

lemma in_use:
  assumes "(unat (t :: u32) + 2 ^ 32 * unat h) mod 2 ^ 64 = (8 * l) mod 2 ^ 64"
  shows "unat (drop_bit 3 t AND 0x3f) = l mod 64"
proof -
  have "unat t = (unat t + 2 ^ 32 * unat h) mod 2 ^ 64 mod 2 ^ 32"
    using unsigned_less [of t, where 'a = nat] by (simp add: mod_mod_cancel)
  also have "\<dots> = (8 * l) mod 2 ^ 32"
    unfolding assms by (simp add: mod_mod_cancel)
  also have "\<dots> = 8 * (l mod 2 ^ 29)"
    using mult_mod_right [of 8 l "2 ^ 29"] by simp
  finally have "unat t div 8 = l mod 2 ^ 29" by simp
  then have "unat t div 8 mod 64 = l mod 64" by (simp add: mod_mod_cancel)
  moreover have "unat (drop_bit 3 t AND 0x3f) = unat t div 8 mod 64"
  proof -
    have "(0x3f :: u32) = mask 6" by (simp add: mask_eq_exp_minus_1)
    then have "drop_bit 3 t AND 0x3f = take_bit 6 (drop_bit 3 t)" by (simp add: take_bit_eq_mask)
    then have "unat (drop_bit 3 t AND 0x3f) = take_bit 6 (drop_bit 3 (unat t))"
      by (simp only: unsigned_take_bit_eq unat_drop_bit_eq)
    then show ?thesis by (simp add: take_bit_eq_mod drop_bit_eq_div)
  qed
  ultimately show ?thesis by simp
qed

section \<open>The context holds what it was fed\<close>

lemma rfc_blocks_short [simp]: "length m < 64 \<Longrightarrow> rfc_blocks s m = s"
  by (simp add: rfc_blocks.simps)

lemma rfc_blocks_one: "length m = 64 \<Longrightarrow> rfc_blocks s m = rfc_block s m"
  by (simp add: rfc_blocks.simps [of s m])

lemma rfc_blocks_append:
  "64 dvd length a \<Longrightarrow> rfc_blocks s (a @ b) = rfc_blocks (rfc_blocks s a) b"
proof (induction s a rule: rfc_blocks.induct)
  case (1 s a)
  show ?case
  proof (cases "64 \<le> length a")
    case True
    moreover from this have "64 dvd length (drop 64 a)" using 1(2) by simp
    ultimately show ?thesis
      using 1(1) by (simp add: rfc_blocks.simps [of s "a @ b"] rfc_blocks.simps [of s a])
  next
    case False
    with 1(2) have "a = []" by (auto dest: dvd_imp_le)
    then show ?thesis by simp
  qed
qed

abbreviation md5_iv :: md5state where
  "md5_iv \<equiv> (0x67452301, 0xefcdab89, 0x98badcfe, 0x10325476)"

text \<open>The whole blocks are digested, the rest is in the buffer.\<close>

definition holds_rest :: "md5ctx \<Rightarrow> byte list \<Rightarrow> byte list \<Rightarrow> bool" where
  "holds_rest ctx full rest \<longleftrightarrow>
     64 dvd length full \<and> length rest < 64 \<and> length (md_in ctx) = 64
     \<and> md_buf ctx = rfc_blocks md5_iv full \<and> take (length rest) (md_in ctx) = rest"

definition fed :: "md5ctx \<Rightarrow> byte list \<Rightarrow> bool" where
  "fed ctx msg \<longleftrightarrow>
     bit_count ctx mod 2 ^ 64 = (8 * length msg) mod 2 ^ 64
     \<and> (\<exists>full rest. msg = full @ rest \<and> holds_rest ctx full rest)"

lemma transform_in_fields [simp]:
  "length (md_in ctx) = 64 \<Longrightarrow> md_buf (transform_in be ctx) = rfc_block (md_buf ctx) (md_in ctx)"
  "length (md_in ctx) = 64 \<Longrightarrow> length (md_in (transform_in be ctx)) = 64"
  "md_bits0 (transform_in be ctx) = md_bits0 ctx"
  "md_bits1 (transform_in be ctx) = md_bits1 ctx"
  by (simp_all add: transform_in_def Let_def words_byteReverse rfc_block_le)

lemma bit_count_cong:
  "md_bits0 c = md_bits0 c' \<Longrightarrow> md_bits1 c = md_bits1 c' \<Longrightarrow> bit_count c = bit_count c'"
  by (simp add: bit_count_def)

lemma chunks_bits:
  "md_bits0 (md5_chunks be ctx buf) = md_bits0 ctx \<and> md_bits1 (md5_chunks be ctx buf) = md_bits1 ctx"
  by (induction be ctx buf rule: md5_chunks.induct) (simp add: md5_chunks.simps)

lemma poke_whole: "length ys = length xs \<Longrightarrow> poke xs 0 ys = ys"
  by (simp add: poke_def)

lemma take_poke: "p + length ys \<le> length xs \<Longrightarrow> take (p + length ys) (poke xs p ys) = take p xs @ ys"
  by (simp add: poke_def)

lemma chunks_hold:
  assumes "length (md_in ctx) = 64" "64 dvd length full" "md_buf ctx = rfc_blocks md5_iv full"
  shows "\<exists>f r. full @ buf = f @ r \<and> holds_rest (md5_chunks be ctx buf) f r"
  using assms
proof (induction be ctx buf arbitrary: full rule: md5_chunks.induct)
  case (1 be ctx buf)
  show ?case
  proof (cases "64 \<le> length buf")
    case True
    let ?c = "transform_in be (ctx\<lparr>md_in := poke (md_in ctx) 0 (take 64 buf)\<rparr>)"
    have "md_buf ?c = rfc_blocks md5_iv (full @ take 64 buf)"
      using True 1 by (simp add: rfc_blocks_append rfc_blocks_one poke_whole)
    then have "\<exists>f r. (full @ take 64 buf) @ drop 64 buf = f @ r \<and> holds_rest (md5_chunks be ?c (drop 64 buf)) f r"
      using 1(2-3) True by (intro 1(1)) (simp_all add: poke_whole)
    then show ?thesis using True by (simp add: md5_chunks.simps [of be ctx buf])
  next
    case False
    then have "holds_rest (md5_chunks be ctx buf) full buf"
      using 1(2-4) take_poke [of 0 buf "md_in ctx"]
      by (simp add: md5_chunks.simps [of be ctx buf] holds_rest_def)
    then show ?thesis by blast
  qed
qed

lemma fed_init: "length memory = 64 \<Longrightarrow> fed (aug_initmd5 memory) []"
  by (simp add: fed_def holds_rest_def aug_initmd5_def bit_count_def)

lemma fed_in_use: "fed ctx msg \<Longrightarrow> unat (drop_bit 3 (md_bits0 ctx) AND 0x3f) = length msg mod 64"
  unfolding fed_def bit_count_def by (blast intro: in_use)

lemma holds_rest_mod: "holds_rest ctx full rest \<Longrightarrow> length (full @ rest) mod 64 = length rest"
  by (auto simp: holds_rest_def mod_add_left_eq [symmetric] elim!: dvdE)

lemma append_bits:
  assumes "length buf < 2 ^ 32"
  shows "bit_count (aug_appendmd5 be ctx buf) mod 2 ^ 64 = (bit_count ctx + 8 * length buf) mod 2 ^ 64"
proof -
  let ?len = "of_nat (length buf) :: u32"
  let ?t = "md_bits0 ctx" and ?h = "md_bits1 ctx"
  let ?t' = "?t + push_bit 3 ?len"
  let ?h' = "(if ?t' < ?t then ?h + 1 else ?h) + drop_bit 29 ?len"
  have "md_bits0 (aug_appendmd5 be ctx buf) = ?t'" "md_bits1 (aug_appendmd5 be ctx buf) = ?h'"
    by (simp_all add: aug_appendmd5_def Let_def chunks_bits)
  then have "bit_count (aug_appendmd5 be ctx buf) = unat ?t' + 2 ^ 32 * unat ?h'"
    unfolding bit_count_def by (simp only:)
  moreover have "unat ?len = length buf" using assms by (simp add: unat_of_nat)
  ultimately show ?thesis
    using count_append [of ?t ?len ?h] by (simp only: bit_count_def)
qed

lemma append_holds:
  assumes h: "holds_rest ctx full rest" and n: "unat (drop_bit 3 (md_bits0 ctx) AND 0x3f) = length rest"
  shows "\<exists>f r. full @ rest @ buf = f @ r \<and> holds_rest (aug_appendmd5 be ctx buf) f r"
proof -
  define c3 where "c3 = ctx\<lparr>md_bits0 := md_bits0 (aug_appendmd5 be ctx buf), md_bits1 := md_bits1 (aug_appendmd5 be ctx buf)\<rparr>"
  let ?room = "64 - length rest"
  let ?c4 = "transform_in be (c3\<lparr>md_in := poke (md_in c3) (length rest) (take ?room buf)\<rparr>)"
  have run: "aug_appendmd5 be ctx buf =
      (if rest = [] then md5_chunks be c3 buf
       else if length buf < ?room then c3\<lparr>md_in := poke (md_in c3) (length rest) buf\<rparr>
       else md5_chunks be ?c4 (drop ?room buf))"
    by (simp add: c3_def aug_appendmd5_def Let_def n chunks_bits)
  have h3: "length (md_in c3) = 64" "64 dvd length full" "md_buf c3 = rfc_blocks md5_iv full"
      "length rest < 64" "take (length rest) (md_in c3) = rest"
    using h by (simp_all add: holds_rest_def c3_def)
  consider "rest = []" | "rest \<noteq> []" "length buf < ?room" | "rest \<noteq> []" "?room \<le> length buf" by linarith
  then show ?thesis
  proof cases
    case 1
    then show ?thesis using chunks_hold [OF h3(1-3), of buf be] by (simp add: run)
  next
    case 2
    then have "holds_rest (aug_appendmd5 be ctx buf) full (rest @ buf)"
      using h3 take_poke [of "length rest" buf "md_in c3"] by (simp add: run holds_rest_def)
    then show ?thesis by blast
  next
    case 3
    let ?b = "rest @ take ?room buf"
    have "poke (md_in c3) (length rest) (take ?room buf) = ?b"
      using 3 h3 by (simp add: poke_def)
    then have "length (md_in ?c4) = 64" "64 dvd length (full @ ?b)" "md_buf ?c4 = rfc_blocks md5_iv (full @ ?b)"
      using 3 h3 by (simp_all add: rfc_blocks_append rfc_blocks_one)
    from chunks_hold [OF this, of "drop ?room buf" be] show ?thesis using 3 by (simp add: run)
  qed
qed

lemma fed_append:
  assumes "fed ctx msg" "length buf < 2 ^ 32"
  shows "fed (aug_appendmd5 be ctx buf) (msg @ buf)"
proof -
  obtain full rest where m: "msg = full @ rest" and h: "holds_rest ctx full rest"
    using assms(1) by (auto simp: fed_def)
  have "unat (drop_bit 3 (md_bits0 ctx) AND 0x3f) = length rest"
    using fed_in_use [OF assms(1)] holds_rest_mod [OF h] m by simp
  from append_holds [OF h this, of buf be]
  have "\<exists>f r. msg @ buf = f @ r \<and> holds_rest (aug_appendmd5 be ctx buf) f r"
    by (simp only: m append_assoc)
  moreover have "bit_count (aug_appendmd5 be ctx buf) mod 2 ^ 64 = (8 * length msg + 8 * length buf) mod 2 ^ 64"
    unfolding append_bits [OF assms(2)] using assms(1) unfolding fed_def by (metis mod_add_left_eq)
  ultimately show ?thesis by (simp add: fed_def)
qed

lemma fed_appends:
  "fed ctx msg \<Longrightarrow> (\<And>p. p \<in> set ps \<Longrightarrow> length p < 2 ^ 32) \<Longrightarrow>
   fed (fold (\<lambda>p c. aug_appendmd5 be c p) ps ctx) (msg @ concat ps)"
proof (induction ps arbitrary: ctx msg)
  case (Cons p ps)
  then have "fed (aug_appendmd5 be ctx p) (msg @ p)" by (intro fed_append) auto
  from Cons.IH [OF this] Cons.prems(2) show ?case by simp
qed simp

section \<open>Finishing\<close>

text \<open>The block with the length at its end.\<close>

lemma length_words:
  assumes "(unat (t :: u32) + 2 ^ 32 * unat h) mod 2 ^ 64 = (8 * l) mod 2 ^ 64"
  shows "host32 False t @ host32 False h = rev (enc64 (of_nat (8 * l)))"
proof -
  have "unat t + 2 ^ 32 * unat h < 2 ^ 64"
    using unsigned_less [of t, where 'a = nat] unsigned_less [of h, where 'a = nat] by simp
  then have u: "unat (of_nat (8 * l) :: 64 word) = unat t + 2 ^ 32 * unat h"
    using assms by (simp add: unat_of_nat del: of_nat_mult)
  have "ucast (of_nat (8 * l) :: 64 word) = t"
    using u unsigned_less [of t, where 'a = nat]
    by (intro word_unat_eq_iff [THEN iffD2]) (simp add: unsigned_ucast_eq take_bit_eq_mod)
  moreover have "ucast (drop_bit 32 (of_nat (8 * l) :: 64 word)) = h"
  proof -
    have "unat (drop_bit 32 (of_nat (8 * l) :: 64 word)) = (unat t + 2 ^ 32 * unat h) div 2 ^ 32"
      by (simp only: unat_drop_bit_eq drop_bit_eq_div [where 'a = nat] u)
    then have "unat (drop_bit 32 (of_nat (8 * l) :: 64 word)) = unat h"
      using unsigned_less [of t, where 'a = nat] by simp
    then show ?thesis
      using unsigned_less [of h, where 'a = nat]
      by (intro word_unat_eq_iff [THEN iffD2]) (simp only: unsigned_ucast_eq, simp add: take_bit_eq_mod)
  qed
  ultimately show ?thesis by (simp add: enc64_def host32_def)
qed

lemma finish_padded:
  assumes "length (md_in (padded be ctx)) = 64"
    and "md_bits0 (padded be ctx) = md_bits0 ctx" "md_bits1 (padded be ctx) = md_bits1 ctx"
  shows "aug_finishmd5 be ctx = state_memory False
     (rfc_block (md_buf (padded be ctx))
       (take 56 (md_in (padded be ctx)) @ host32 False (md_bits0 ctx) @ host32 False (md_bits1 ctx)))"
  unfolding aug_finishmd5_def Let_def digest_memory words_last [OF assms(1)] rfc_block_le assms(2,3) ..

lemma padded_fields:
  assumes "length (md_in ctx) = 64" "unat (drop_bit 3 (md_bits0 ctx) AND 0x3f) < 64"
  shows "length (md_in (padded be ctx)) = 64"
    and "md_bits0 (padded be ctx) = md_bits0 ctx" "md_bits1 (padded be ctx) = md_bits1 ctx"
  using assms by (simp_all add: padded_def Let_def)

lemma pad_in:
  "length m = 64 \<Longrightarrow> Suc (n + c) \<le> 64 \<Longrightarrow>
   take (Suc (n + c)) (poke (poke m n [0x80]) (Suc n) (replicate c 0)) = take n m @ 0x80 # replicate c 0"
  using take_poke [of "Suc n" "replicate c 0" "poke m n [0x80]"] take_poke [of n "[0x80]" m]
  by simp

lemma finish_rest:
  assumes h: "holds_rest ctx full rest" and n: "unat (drop_bit 3 (md_bits0 ctx) AND 0x3f) = length rest"
    and lb: "host32 False (md_bits0 ctx) @ host32 False (md_bits1 ctx) = lb"
  shows "aug_finishmd5 be ctx = state_memory False
    (rfc_blocks md5_iv (full @ rest @ 0x80 # replicate ((119 - length rest) mod 64) 0 @ lb))"
proof -
  have len: "length (md_in ctx) = 64" "64 dvd length full" "length rest < 64" "take (length rest) (md_in ctx) = rest"
      "md_buf ctx = rfc_blocks md5_iv full"
    using h by (simp_all add: holds_rest_def)
  have lb8: "length lb = 8" using lb [symmetric] by simp
  note fin = finish_padded [OF padded_fields(1) padded_fields(2,3), of ctx be, unfolded lb]
  show ?thesis
  proof (cases "length rest < 56")
    case True
    then have "\<not> 63 - length rest < 8" by simp
    from True have "(119 - length rest) mod 64 = 55 - length rest" by (simp add: mod_if)
    moreover have "take 56 (md_in (padded be ctx)) = rest @ 0x80 # replicate (55 - length rest) 0"
      using True \<open>\<not> 63 - length rest < 8\<close> len pad_in [of "md_in ctx" "length rest" "55 - length rest"]
      by (simp add: padded_def n Let_def)
    moreover have "md_buf (padded be ctx) = rfc_blocks md5_iv full"
      using True \<open>\<not> 63 - length rest < 8\<close> len by (simp add: padded_def n Let_def)
    ultimately show ?thesis
      using True len lb8 by (simp add: fin n rfc_blocks_append rfc_blocks_one)
  next
    case False
    then have "63 - length rest < 8" by simp
    let ?b = "rest @ 0x80 # replicate (63 - length rest) 0"
    have "(119 - length rest) mod 64 = (63 - length rest) + 56" using False len by simp
    then have split: "rest @ 0x80 # replicate ((119 - length rest) mod 64) 0 @ lb
        = ?b @ replicate 56 0 @ lb"
      by (simp only: replicate_add append_assoc append_Cons)
    have "poke (poke (md_in ctx) (length rest) [0x80]) (Suc (length rest)) (replicate (63 - length rest) 0) = ?b"
      using False len pad_in [of "md_in ctx" "length rest" "63 - length rest"] by simp
    moreover have "take 56 (poke m 0 (replicate 56 0)) = replicate 56 0" if "length m = 64" for m :: "byte list"
      by (simp add: poke_def)
    ultimately have "md_buf (padded be ctx) = rfc_block (rfc_blocks md5_iv full) ?b"
      and "take 56 (md_in (padded be ctx)) = replicate 56 0"
      using \<open>63 - length rest < 8\<close> len by (simp_all add: padded_def n Let_def)
    moreover have "rfc_blocks md5_iv (full @ ?b @ replicate 56 0 @ lb)
        = rfc_block (rfc_block (rfc_blocks md5_iv full) ?b) (replicate 56 0 @ lb)"
    proof -
      let ?z = "replicate 56 0 @ lb"
      have b: "length ?b = 64" and z: "length ?z = 64" using len lb8 by simp_all
      have "rfc_blocks md5_iv (full @ ?b @ ?z) = rfc_blocks (rfc_blocks md5_iv full) (?b @ ?z)"
        by (rule rfc_blocks_append) (rule len)
      also have "\<dots> = rfc_blocks (rfc_blocks (rfc_blocks md5_iv full) ?b) ?z"
        by (rule rfc_blocks_append) (simp only: b dvd_refl)
      finally show ?thesis by (simp only: rfc_blocks_one b z)
    qed
    ultimately show ?thesis
      unfolding split using len by (simp only: fin n)
  qed
qed

lemma fed_finish:
  assumes "fed ctx msg"
  shows "aug_finishmd5 be ctx = rfc_md5 msg"
proof -
  obtain full rest where m: "msg = full @ rest" and h: "holds_rest ctx full rest"
    using assms by (auto simp: fed_def)
  have r: "length msg mod 64 = length rest" using holds_rest_mod [OF h] m by simp
  have n: "unat (drop_bit 3 (md_bits0 ctx) AND 0x3f) = length rest"
    using fed_in_use [OF assms] r by simp
  have "host32 False (md_bits0 ctx) @ host32 False (md_bits1 ctx) = rev (enc64 (of_nat (8 * length msg)))"
    using assms by (intro length_words) (simp add: fed_def bit_count_def)
  from finish_rest [OF h n this] show ?thesis
    by (simp only: rfc_md5_def rfc_pad_def holds_rest_mod [OF h] m append_assoc append_Cons)
qed

text \<open>
  C18: However the message is cut into pieces, and on hosts of either byte order, initialising
  the context, appending the pieces (each of fewer than \<open>2 ^ 32\<close> bytes, the range of the length
  argument) and finishing gives the RFC 1321 digest of the whole message, whatever the
  uninitialised buffer held; the length is counted modulo \<open>2 ^ 64\<close> bits, carry included.
\<close>
theorem md5_stream:
  assumes "length memory = 64" and "\<And>p. p \<in> set ps \<Longrightarrow> length p < 2 ^ 32"
  shows "aug_finishmd5 be (fold (\<lambda>p c. aug_appendmd5 be c p) ps (aug_initmd5 memory)) = rfc_md5 (concat ps)"
  using fed_finish [OF fed_appends [OF fed_init [OF assms(1)] assms(2), of ps]] by simp

text \<open>The test vector \<open>abc\<close> of the RFC.\<close>

lemma rfc_md5_abc:
  "rfc_md5 [0x61, 0x62, 0x63]
    = [0x90, 0x01, 0x50, 0x98, 0x3c, 0xd2, 0x4f, 0xb0, 0xd6, 0x96, 0x3f, 0x7d, 0x28, 0xe1, 0x7f, 0x72]"
  by code_simp

lemma md5_stream_witness:
  "aug_finishmd5 True (fold (\<lambda>p c. aug_appendmd5 True c p) [[0x61], [], [0x62, 0x63]] (aug_initmd5 (replicate 64 0xff)))
    = [0x90, 0x01, 0x50, 0x98, 0x3c, 0xd2, 0x4f, 0xb0, 0xd6, 0x96, 0x3f, 0x7d, 0x28, 0xe1, 0x7f, 0x72]"
proof -
  have "length p < 2 ^ 32" if "p \<in> set [[0x61], [], [0x62, 0x63 :: byte]]" for p using that by auto
  then have "aug_finishmd5 True
      (fold (\<lambda>p c. aug_appendmd5 True c p) [[0x61], [], [0x62, 0x63]] (aug_initmd5 (replicate 64 0xff)))
    = rfc_md5 (concat [[0x61], [], [0x62, 0x63]])"
    by (intro md5_stream) simp_all
  then show ?thesis by (simp only: rfc_md5_abc concat.simps append.simps)
qed

section \<open>Hexadecimal text\<close>

text \<open>A pair of lower-case digits for each byte, from which the byte can be read back.\<close>

definition hex_val :: "byte \<Rightarrow> byte" where
  "hex_val c = (if c \<le> 57 then c - 48 else c - 87)"

fun unhex :: "byte list \<Rightarrow> byte list" where
  "unhex (a # b # s) = (push_bit 4 (hex_val a) OR hex_val b) # unhex s"
| "unhex s = []"

lemma hex_val_char: "j < 16 \<Longrightarrow> hex_val (hex_char j) = j"
proof -
  assume j: "j < 16"
  have "list_all (\<lambda>i. hex_val (hex_char (of_nat i)) = of_nat i) [0..<16]" by code_simp
  moreover have "unat j \<in> set [0..<16]" using j by (simp add: word_less_nat_alt)
  ultimately show ?thesis unfolding list_all_iff by (auto dest!: bspec [where x = "unat j"])
qed

lemma nibbles:
  fixes x :: byte
  shows "push_bit 4 (drop_bit 4 x AND 0xf) OR (x AND 0xf) = x" "drop_bit 4 x AND 0xf < 16" "x AND 0xf < 16"
proof -
  have m: "(0xf :: byte) = mask 4" by (simp add: mask_eq_exp_minus_1)
  show "push_bit 4 (drop_bit 4 x AND 0xf) OR (x AND 0xf) = x"
    unfolding m by (rule bit_word_eqI) (auto simp: bit_simps)
  have "y AND mask 4 < 16" for y :: byte
    using and_mask_less' [of 4 y] by simp
  then show "drop_bit 4 x AND 0xf < 16" "x AND 0xf < 16" unfolding m by auto
qed

lemma md5base64_map:
  assumes "length d = 16"
  shows "aug_md5base64 d = concat (map (\<lambda>x. [hex_char (drop_bit 4 x AND 0xf), hex_char (x AND 0xf)]) d)"
proof -
  have "map (\<lambda>i. f (d ! i)) [0..<16] = map f d" for f :: "byte \<Rightarrow> byte list"
    using map_nth [of d] assms by (metis map_map comp_def map_eq_conv)
  then show ?thesis unfolding aug_md5base64_def Let_def by (rule arg_cong)
qed

lemma unhex_md5base64: "length d = 16 \<Longrightarrow> unhex (aug_md5base64 d) = d"
proof -
  have "unhex (concat (map (\<lambda>x. [hex_char (drop_bit 4 x AND 0xf), hex_char (x AND 0xf)]) d)) = d"
    by (induction d) (simp_all only: list.map concat.simps append.simps unhex.simps hex_val_char nibbles)
  then show "length d = 16 \<Longrightarrow> ?thesis" by (simp only: md5base64_map)
qed

lemma length_md5base64: "length (aug_md5base64 d) = 32"
proof -
  have "length (concat (map (\<lambda>i. [f i, g i]) xs)) = 2 * length xs" for f g :: "nat \<Rightarrow> byte" and xs
    by (induction xs) auto
  then show ?thesis by (simp add: aug_md5base64_def Let_def)
qed

end
