(* ===== verification/Cstr.thy ===== *)
theory Cstr
  imports Prelude
begin

text \<open>
  \<^verbatim>\<open>augctx/string.c\<close>: bounded copy and case-insensitive search.  A C string is given as its
  characters; where a function walks past the terminator of one it reads memory that is not the
  string's (\<open>None\<close>).  \<^verbatim>\<open>size_t\<close> has 64 bits.
\<close>

section \<open>Bounded copy\<close>

text \<open>The branch without \<^verbatim>\<open>HAVE_STRLCPY\<close>; the result is the length of the source.\<close>

definition aug_strlcpy :: "byte list \<Rightarrow> byte list \<Rightarrow> nat \<Rightarrow> (nat \<times> byte list) option" where
  "aug_strlcpy dst src sz =
     (let srclen = length src;
          sz = (sz + 2 ^ 64 - 1) mod 2 ^ 64
      in if sz = 0 then Some (srclen, dst)
         else
           let len = (if sz < srclen then sz else srclen)
           in map_option (Pair srclen) (memcpy dst 0 (take len src @ [0])))"

lemma strlcpy_fits:
  assumes "1 < n" "n \<le> length dst" "n < 2 ^ 64"
  shows "aug_strlcpy dst src n
    = Some (length src, poke dst 0 (take (n - 1) src @ [0]))"
proof -
  have "(n + 2 ^ 64 - 1) mod 2 ^ 64 = n - 1"
    using assms by (simp add: mod_if)
  then show ?thesis
    using assms by (auto simp: aug_strlcpy_def Let_def memcpy_def)
qed

text \<open>A size of 1 leaves the destination without a terminator, a size of 0 copies everything.\<close>

lemma strlcpy_one: "aug_strlcpy dst src 1 = Some (length src, dst)"
  by (simp add: aug_strlcpy_def)

lemma strlcpy_zero:
  "length src < 2 ^ 64 - 1 \<Longrightarrow>
   aug_strlcpy dst src 0 = map_option (Pair (length src)) (memcpy dst 0 (src @ [0]))"
  by (simp add: aug_strlcpy_def)

section \<open>Search\<close>

definition toupper :: "byte \<Rightarrow> byte" where
  "toupper c = (if 97 \<le> c \<and> c \<le> 122 then c - 32 else c)"

text \<open>
  The walk to the first character of the pattern: the rest of the haystack with its terminator,
  its unsigned length and the position.  \<open>Inl ()\<close> is the null result.
\<close>

fun find_start :: "byte \<Rightarrow> nat \<Rightarrow> byte list \<Rightarrow> nat \<Rightarrow> nat \<Rightarrow> (unit + byte list \<times> nat \<times> nat) option" where
  "find_start c plen [] slen i = None"
| "find_start c plen (x # xs) slen i =
     (if toupper x \<noteq> toupper c then
        let slen = usub slen 1 in
        if slen < plen then Some (Inl ()) else find_start c plen xs slen (i + 1)
      else Some (Inr (x # xs, slen, i)))"

text \<open>The comparison of the pattern with the characters here.\<close>

fun match_here :: "byte list \<Rightarrow> byte list \<Rightarrow> bool option" where
  "match_here (x # xs) (p # ps) =
     (if toupper x = toupper p then
        case ps of [] \<Rightarrow> None | q # qs \<Rightarrow> if q = 0 then Some True else match_here xs ps
      else Some False)"
| "match_here xs ps = None"

lemma find_start_shorter:
  "find_start c plen xs slen i = Some (Inr (ys, slen', i')) \<Longrightarrow> length ys \<le> length xs \<and> ys \<noteq> []"
  by (induction c plen xs slen i rule: find_start.induct) (auto simp: Let_def split: if_splits)

function strstr_loop :: "byte list \<Rightarrow> nat \<Rightarrow> byte list \<Rightarrow> nat \<Rightarrow> nat \<Rightarrow> nat option option" where
  "strstr_loop needle plen start slen i =
     (if slen < plen then Some None
      else
        case find_start (hd needle) plen start slen i of
          None \<Rightarrow> None
        | Some (Inl _) \<Rightarrow> Some None
        | Some (Inr (start, slen, i)) \<Rightarrow>
            (case match_here start needle of
               None \<Rightarrow> None
             | Some True \<Rightarrow> Some (Some i)
             | Some False \<Rightarrow> strstr_loop needle plen (tl start) (usub slen 1) (i + 1)))"
  by pat_completeness auto
termination
proof (relation "measure (\<lambda>(_, _, start, _, _). length start)", goal_cases)
  case (2 needle plen start slen i r s ys sl j p)
  then show ?case using find_start_shorter by (cases ys) (fastforce dest: find_start_shorter)+
qed simp

declare strstr_loop.simps [simp del]

definition aug_strcasestr :: "byte list \<Rightarrow> byte list \<Rightarrow> nat option option" where
  "aug_strcasestr haystack needle =
     strstr_loop (needle @ [0]) (length needle mod 2 ^ 32) (haystack @ [0]) (length haystack mod 2 ^ 32) 0"

text \<open>What the search is to give: the first place where the pattern stands, up to case.\<close>

definition stands_at :: "byte list \<Rightarrow> byte list \<Rightarrow> nat \<Rightarrow> bool" where
  "stands_at h n i \<longleftrightarrow> map toupper (slice i (length n) h) = map toupper n"

definition first_at :: "byte list \<Rightarrow> byte list \<Rightarrow> nat option" where
  "first_at h n = find (stands_at h n) [0..<Suc (length h) - length n]"

lemma toupper_0_iff [simp]: "toupper c = 0 \<longleftrightarrow> c = 0" "0 = toupper c \<longleftrightarrow> c = 0"
proof -
  have "c - 32 \<noteq> 0" if "97 \<le> c"
  proof
    assume "c - 32 = 0"
    then have "c = 32" by simp
    with that show False by (simp add: word_le_def)
  qed
  then show "toupper c = 0 \<longleftrightarrow> c = 0" by (auto simp: toupper_def)
  then show "0 = toupper c \<longleftrightarrow> c = 0" by (metis)
qed

lemma match_here_ends:
  assumes "cstring s" "cstring n" "n \<noteq> []"
  shows "match_here (s @ [0]) (n @ [0]) = Some (map toupper (take (length n) s) = map toupper n)"
  using assms
proof (induction n arbitrary: s)
  case (Cons p n)
  show ?case
  proof (cases s)
    case Nil
    with Cons.prems show ?thesis by (simp add: cstring_def toupper_def [of 0])
  next
    case (Cons x xs)
    show ?thesis
    proof (cases n)
      case Nil
      with Cons show ?thesis by simp
    next
      case (Cons q qs)
      with Cons.IH [of xs] Cons.prems \<open>s = x # xs\<close> show ?thesis by (simp add: cstring_def)
    qed
  qed
qed simp

lemma strstr_loop_step:
  assumes "cstring (x # s)" "cstring n" "n \<noteq> []" "length n \<le> Suc (length s)" "Suc (length s) < 2 ^ 32"
  shows "strstr_loop (n @ [0]) (length n) (x # s @ [0]) (Suc (length s)) i
    = (if map toupper (take (length n) (x # s)) = map toupper n then Some (Some i)
       else strstr_loop (n @ [0]) (length n) (s @ [0]) (length s) (Suc i))"
proof (cases "toupper x = toupper (hd n)")
  case True
  with assms match_here_ends [OF assms(1-3)] show ?thesis
    by (simp add: strstr_loop.simps [of _ _ "x # s @ [0]"])
next
  case False
  with assms show ?thesis
    by (cases n) (auto simp: strstr_loop.simps [of _ _ "x # s @ [0]"] strstr_loop.simps [of _ _ "s @ [0]"])
qed

lemma first_at_Cons:
  "n \<noteq> [] \<Longrightarrow> length n \<le> Suc (length s) \<Longrightarrow>
   first_at (x # s) n = (if stands_at (x # s) n 0 then Some 0 else map_option Suc (first_at s n))"
proof -
  assume n: "n \<noteq> []" "length n \<le> Suc (length s)"
  then have "[0..<Suc (Suc (length s)) - length n] = 0 # map Suc [0..<Suc (length s) - length n]"
    by (simp add: upt_conv_Cons map_Suc_upt Suc_diff_le)
  moreover have "stands_at (x # s) n \<circ> Suc = stands_at s n"
    by (auto simp: stands_at_def slice_def)
  moreover have "find P (map Suc xs) = map_option Suc (find (P \<circ> Suc) xs)" for P xs
    by (induction xs) auto
  ultimately show ?thesis by (simp add: first_at_def)
qed

lemma strstr_loop_first:
  assumes "cstring s" "cstring n" "n \<noteq> []" "length s < 2 ^ 32"
  shows "strstr_loop (n @ [0]) (length n) (s @ [0]) (length s) i = Some (map_option ((+) i) (first_at s n))"
  using assms(1,4)
proof (induction s arbitrary: i)
  case Nil
  have "Suc 0 - length n = 0" using assms(3) by (cases n) simp_all
  with assms(3) show ?case by (simp add: strstr_loop.simps first_at_def)
next
  case (Cons x s)
  show ?case
  proof (cases "length n \<le> Suc (length s)")
    case True
    moreover from Cons have "cstring s" by (simp add: cstring_def)
    ultimately show ?thesis
      using Cons assms
      by (cases "first_at s n") (simp_all add: strstr_loop_step first_at_Cons stands_at_def slice_def)
  next
    case False
    then show ?thesis by (simp add: strstr_loop.simps first_at_def)
  qed
qed

text \<open>
  For a pattern that is not empty the search returns the first position of the haystack at
  which the pattern stands up to letter case, the null pointer when there is none, and never
  reads past either string.
\<close>
lemma strcasestr_first:
  assumes "cstring haystack" "cstring needle" "needle \<noteq> []"
    and "length haystack < 2 ^ 32" "length needle < 2 ^ 32"
  shows "aug_strcasestr haystack needle = Some (first_at haystack needle)"
  using strstr_loop_first [OF assms(1-4), of 0] assms(4,5)
  by (cases "first_at haystack needle") (simp_all add: aug_strcasestr_def)

lemma strcasestr_first_witness:
  "aug_strcasestr (str ''Content-Type'') (str ''TYPE'') = Some (Some 8)"
proof -
  have "first_at (str ''Content-Type'') (str ''TYPE'') = Some 8"
    by code_simp
  moreover have "cstring (str ''Content-Type'')" "cstring (str ''TYPE'')" "str ''TYPE'' \<noteq> []"
    by code_simp+
  ultimately show ?thesis
    using strcasestr_first [of "str ''Content-Type''" "str ''TYPE''"] by (simp add: str_def)
qed

text \<open>An empty pattern is compared past its terminator.\<close>

lemma strcasestr_empty: "cstring s \<Longrightarrow> length s < 2 ^ 32 \<Longrightarrow> aug_strcasestr s [] = None"
proof -
  have "find_start 0 0 (s @ [0]) (length s) i = Some (Inr ([0], 0, i + length s))"
    if "cstring s" "length s < 2 ^ 32" for i
    using that
    by (induction s arbitrary: i) (auto simp: cstring_def toupper_def [of 0] Let_def)
  then show "cstring s \<Longrightarrow> length s < 2 ^ 32 \<Longrightarrow> ?thesis"
    by (simp add: aug_strcasestr_def strstr_loop.simps)
qed

end
