(* ===== verification/Packet.thy ===== *)
theory Packet
  imports Endian Cstr
begin

text \<open>
  \<^verbatim>\<open>augnet/packet.c\<close>: the 516 bytes of a network event.  \<open>packet\<close> is \<^verbatim>\<open>struct aug_packet\<close>;
  its node name is the array of 129 characters, its data the array of 366.  \<open>be\<close> is the byte
  order of the host, \<^verbatim>\<open>unsigned long\<close> (the sequence number) has 64 bits.  \<open>None\<close> marks an access
  outside an array.
\<close>

definition AUG_PKTMAGICSIZE :: nat where "AUG_PKTMAGICSIZE = 4"
definition AUG_PKTNODELEN :: nat where "AUG_PKTNODELEN = 128"
definition AUG_PKTDATASIZE :: nat where "AUG_PKTDATASIZE = 366"

definition AUG_PKTMAGICOFF :: nat where "AUG_PKTMAGICOFF = 0"
definition AUG_PKTPROTOOFF :: nat where "AUG_PKTPROTOOFF = AUG_PKTMAGICOFF + AUG_PKTMAGICSIZE"
definition AUG_PKTNODEOFF :: nat where "AUG_PKTNODEOFF = AUG_PKTPROTOOFF + 2"
definition AUG_PKTINSTOFF :: nat where "AUG_PKTINSTOFF = AUG_PKTNODEOFF + AUG_PKTNODELEN"
definition AUG_PKTTYPEOFF :: nat where "AUG_PKTTYPEOFF = AUG_PKTINSTOFF + 4"
definition AUG_PKTSEQNOOFF :: nat where "AUG_PKTSEQNOOFF = AUG_PKTTYPEOFF + 2"
definition AUG_PKTSIZEOFF :: nat where "AUG_PKTSIZEOFF = AUG_PKTSEQNOOFF + 8"
definition AUG_PKTDATAOFF :: nat where "AUG_PKTDATAOFF = AUG_PKTSIZEOFF + 2"

definition PKT_MAGIC :: "byte list" where "PKT_MAGIC = str ''aug'' @ [0]"

lemmas packet_offsets =
  AUG_PKTMAGICSIZE_def AUG_PKTNODELEN_def AUG_PKTDATASIZE_def AUG_PKTMAGICOFF_def AUG_PKTPROTOOFF_def
  AUG_PKTNODEOFF_def AUG_PKTINSTOFF_def AUG_PKTTYPEOFF_def AUG_PKTSEQNOOFF_def AUG_PKTSIZEOFF_def
  AUG_PKTDATAOFF_def

record packet =
  pk_proto :: "32 word"
  pk_node :: "byte list"
  pk_inst :: "32 word"
  pk_type :: "16 word"
  pk_seqno :: "64 word"
  pk_size :: "32 word"
  pk_data :: "byte list"

text \<open>The characters before the terminator; \<open>None\<close> when there is none in the array.\<close>

definition strlen :: "byte list \<Rightarrow> nat option" where
  "strlen s = (if 0 \<in> set s then Some (length (takeWhile (\<lambda>c. c \<noteq> 0) s)) else None)"

text \<open>Into \<open>dst\<close> at \<open>p\<close>; the length of the fill wraps when the string is longer than the field.\<close>

definition packstring :: "byte list \<Rightarrow> byte list \<Rightarrow> nat \<Rightarrow> nat \<Rightarrow> byte list option" where
  "packstring src dst p sz = do {
     len \<leftarrow> strlen src;
     dst \<leftarrow> memcpy dst p (take len src);
     if len \<le> sz then memcpy dst (p + len) (replicate (sz - len) 0) else None
   }"

definition unpackstring :: "byte list \<Rightarrow> byte list \<Rightarrow> nat \<Rightarrow> nat \<Rightarrow> byte list option" where
  "unpackstring dst src p sz =
     (if p + sz \<le> length src then memcpy dst 0 (slice p sz src @ [0]) else None)"

text \<open>The name is a C string of the caller, \<open>sz\<close> the size given for the data.\<close>

definition aug_setpacket ::
  "byte list \<Rightarrow> 32 word \<Rightarrow> 16 word \<Rightarrow> 64 word \<Rightarrow> byte list \<Rightarrow> 32 word \<Rightarrow> packet \<Rightarrow> packet option" where
  "aug_setpacket node inst typ seqno data sz pkt =
     (let sz = min (unat sz) AUG_PKTDATASIZE;
          pkt = pkt\<lparr>pk_proto := 1\<rparr>
      in do {
        (_, node) \<leftarrow> aug_strlcpy (pk_node pkt) node (AUG_PKTNODELEN + 1);
        let pkt = pkt\<lparr>pk_node := node, pk_inst := inst, pk_type := typ, pk_seqno := seqno,
          pk_size := of_nat (min sz AUG_PKTDATASIZE)\<rparr>;
        if sz = 0 then Some pkt
        else if sz \<le> length data then
          map_option (\<lambda>d. pkt\<lparr>pk_data := d\<rparr>) (memcpy (pk_data pkt) 0 (take sz data))
        else None
      })"

definition aug_verifypacket :: "packet \<Rightarrow> aug_fail + unit" where
  "aug_verifypacket pkt = (if pk_node pkt ! 0 = 0 then Inl (ExError ENULL) else Inr ())"

text \<open>An encoder at an offset of the buffer.\<close>

definition put_at :: "nat \<Rightarrow> (byte list \<Rightarrow> byte list option) \<Rightarrow> byte list \<Rightarrow> byte list option" where
  "put_at p f buf = map_option (\<lambda>b. take p buf @ b) (f (drop p buf))"

definition aug_encodepacket :: "bool \<Rightarrow> packet \<Rightarrow> byte list \<Rightarrow> byte list option" where
  "aug_encodepacket be pkt buf = do {
     buf \<leftarrow> memcpy buf AUG_PKTMAGICOFF PKT_MAGIC;
     buf \<leftarrow> put_at AUG_PKTPROTOOFF (aug_encode16 be (ucast (pk_proto pkt))) buf;
     buf \<leftarrow> packstring (pk_node pkt) buf AUG_PKTNODEOFF AUG_PKTNODELEN;
     buf \<leftarrow> put_at AUG_PKTINSTOFF (aug_encode32 be (pk_inst pkt)) buf;
     buf \<leftarrow> put_at AUG_PKTTYPEOFF (aug_encode16 be (pk_type pkt)) buf;
     buf \<leftarrow> put_at AUG_PKTSEQNOOFF (aug_encode64 be (pk_seqno pkt)) buf;
     let sz = min (unat (pk_size pkt)) AUG_PKTDATASIZE;
     buf \<leftarrow> put_at AUG_PKTSIZEOFF (aug_encode16 be (of_nat sz)) buf;
     buf \<leftarrow> memcpy buf AUG_PKTDATAOFF (take sz (pk_data pkt));
     if sz < AUG_PKTDATASIZE then memcpy buf (AUG_PKTDATAOFF + sz) (replicate (AUG_PKTDATASIZE - sz) 0)
     else Some buf
   }"

definition aug_decodepacket :: "bool \<Rightarrow> byte list \<Rightarrow> packet \<Rightarrow> (aug_fail + packet) option" where
  "aug_decodepacket be buf pkt =
     (if length buf < AUG_PKTMAGICOFF + AUG_PKTMAGICSIZE then None
      else if slice AUG_PKTMAGICOFF AUG_PKTMAGICSIZE buf \<noteq> PKT_MAGIC then Some (Inl (ExError EINVAL))
      else do {
        proto \<leftarrow> aug_decode16 be (drop AUG_PKTPROTOOFF buf);
        node \<leftarrow> unpackstring (pk_node pkt) buf AUG_PKTNODEOFF AUG_PKTNODELEN;
        inst \<leftarrow> aug_decode32 be (drop AUG_PKTINSTOFF buf);
        typ \<leftarrow> aug_decode16 be (drop AUG_PKTTYPEOFF buf);
        seqno \<leftarrow> aug_decode64 be (drop AUG_PKTSEQNOOFF buf);
        sz \<leftarrow> aug_decode16 be (drop AUG_PKTSIZEOFF buf);
        if AUG_PKTDATAOFF + AUG_PKTDATASIZE \<le> length buf then
          do {
            data \<leftarrow> memcpy (pk_data pkt) 0 (slice AUG_PKTDATAOFF AUG_PKTDATASIZE buf);
            Some (Inr \<lparr>pk_proto = ucast proto, pk_node = node, pk_inst = inst, pk_type = typ,
              pk_seqno = seqno, pk_size = of_nat (min (unat sz) AUG_PKTDATASIZE), pk_data = data\<rparr>)
          }
        else None
      })"

section \<open>The layout\<close>

text \<open>The arrays have their sizes, the name is terminated, the size is within the data.\<close>

definition pkt_wf :: "packet \<Rightarrow> bool" where
  "pkt_wf p \<longleftrightarrow> length (pk_node p) = AUG_PKTNODELEN + 1 \<and> 0 \<in> set (pk_node p)
     \<and> length (pk_data p) = AUG_PKTDATASIZE \<and> unat (pk_size p) \<le> AUG_PKTDATASIZE
     \<and> unat (pk_proto p) < 2 ^ 16"

definition node_name :: "packet \<Rightarrow> byte list" where
  "node_name p = takeWhile (\<lambda>c. c \<noteq> 0) (pk_node p)"

definition user_data :: "packet \<Rightarrow> byte list" where
  "user_data p = take (unat (pk_size p)) (pk_data p)"

definition padded_to :: "nat \<Rightarrow> byte list \<Rightarrow> byte list" where
  "padded_to n s = s @ replicate (n - length s) 0"

text \<open>The 516 bytes.\<close>

definition wire :: "packet \<Rightarrow> byte list" where
  "wire p = PKT_MAGIC @ enc16 (ucast (pk_proto p)) @ padded_to AUG_PKTNODELEN (node_name p)
     @ enc32 (pk_inst p) @ enc16 (pk_type p) @ enc64 (pk_seqno p) @ enc16 (ucast (pk_size p))
     @ padded_to AUG_PKTDATASIZE (user_data p)"

lemma length_padded_to [simp]: "length s \<le> n \<Longrightarrow> length (padded_to n s) = n"
  by (simp add: padded_to_def)

lemma length_magic [simp]: "length PKT_MAGIC = 4"
  by (simp add: PKT_MAGIC_def str_def)

lemma node_name_bound: "pkt_wf p \<Longrightarrow> length (node_name p) \<le> AUG_PKTNODELEN"
proof -
  assume wf: "pkt_wf p"
  have "0 \<in> set s \<Longrightarrow> length (takeWhile (\<lambda>c. c \<noteq> 0) s) < length s" for s :: "byte list"
    by (induction s) auto
  from this [of "pk_node p"] wf show ?thesis by (simp add: node_name_def pkt_wf_def)
qed

lemma user_data_length: "pkt_wf p \<Longrightarrow> length (user_data p) = unat (pk_size p)"
  by (simp add: user_data_def pkt_wf_def)

lemma length_wire: "pkt_wf p \<Longrightarrow> length (wire p) = 516"
  using node_name_bound [of p] user_data_length [of p]
  by (simp add: wire_def packet_offsets pkt_wf_def)

text \<open>Writing on from where the buffer has been filled.\<close>

lemma memcpy_next:
  "p = length pre \<Longrightarrow> length ys \<le> length rest \<Longrightarrow>
   memcpy (pre @ rest) p ys = Some ((pre @ ys) @ drop (length ys) rest)"
  by (simp add: memcpy_def poke_def)

lemma put_at_next:
  "p = length pre \<Longrightarrow> 2 \<le> length rest \<Longrightarrow>
     put_at p (aug_encode16 be i) (pre @ rest) = Some ((pre @ enc16 i) @ drop 2 rest)"
  "p = length pre \<Longrightarrow> 4 \<le> length rest \<Longrightarrow>
     put_at p (aug_encode32 be j) (pre @ rest) = Some ((pre @ enc32 j) @ drop 4 rest)"
  "p = length pre \<Longrightarrow> 8 \<le> length rest \<Longrightarrow>
     put_at p (aug_encode64 be k) (pre @ rest) = Some ((pre @ enc64 k) @ drop 8 rest)"
  by (simp_all add: put_at_def encode_network poke_def numeral_2_eq_2)

lemma strlen_node: "pkt_wf p \<Longrightarrow> strlen (pk_node p) = Some (length (node_name p))"
  by (simp add: strlen_def node_name_def pkt_wf_def)

lemma take_node: "take (length (node_name p)) (pk_node p) = node_name p"
  by (metis node_name_def takeWhile_eq_take)

lemma packstring_next:
  assumes "pkt_wf p" "q = length pre" "AUG_PKTNODELEN \<le> length rest"
  shows "packstring (pk_node p) (pre @ rest) q AUG_PKTNODELEN
    = Some ((pre @ padded_to AUG_PKTNODELEN (node_name p)) @ drop AUG_PKTNODELEN rest)"
proof -
  let ?n = "node_name p"
  have n: "length ?n \<le> AUG_PKTNODELEN" by (rule node_name_bound [OF assms(1)])
  have "memcpy (pre @ rest) q (take (length ?n) (pk_node p)) = Some ((pre @ ?n) @ drop (length ?n) rest)"
    unfolding take_node using assms n by (intro memcpy_next) auto
  moreover have "memcpy ((pre @ ?n) @ drop (length ?n) rest) (q + length ?n) (replicate (AUG_PKTNODELEN - length ?n) 0)
    = Some (((pre @ ?n) @ replicate (AUG_PKTNODELEN - length ?n) 0) @ drop AUG_PKTNODELEN rest)"
    using memcpy_next [of "q + length ?n" "pre @ ?n" "replicate (AUG_PKTNODELEN - length ?n) 0" "drop (length ?n) rest"]
      assms n by simp
  ultimately show ?thesis
    unfolding packstring_def strlen_node [OF assms(1)] using n by (simp add: padded_to_def del: memcpy_Some)
qed

lemma encode_wire:
  assumes wf: "pkt_wf p" and len: "516 \<le> length buf"
  shows "aug_encodepacket be p buf = Some (wire p @ drop 516 buf)"
proof -
  define sz where "sz = unat (pk_size p)"
  let ?p1 = "PKT_MAGIC" and ?pr = "enc16 (ucast (pk_proto p))" and ?nd = "padded_to AUG_PKTNODELEN (node_name p)"
  let ?in = "enc32 (pk_inst p)" and ?ty = "enc16 (pk_type p)" and ?sq = "enc64 (pk_seqno p)"
  let ?sz = "enc16 (of_nat sz)" and ?ud = "take sz (pk_data p)"
  let ?p2 = "?p1 @ ?pr" let ?p3 = "?p2 @ ?nd" let ?p4 = "?p3 @ ?in" let ?p5 = "?p4 @ ?ty"
  let ?p6 = "?p5 @ ?sq" let ?p7 = "?p6 @ ?sz" let ?p8 = "?p7 @ ?ud"
  have nd: "length ?nd = 128" using node_name_bound [OF wf] by (simp add: packet_offsets)
  have sz: "min (unat (pk_size p)) AUG_PKTDATASIZE = sz" "sz \<le> 366" "length ?ud = sz"
    using wf by (simp_all add: pkt_wf_def packet_offsets sz_def)
  have s1: "memcpy buf AUG_PKTMAGICOFF PKT_MAGIC = Some (?p1 @ drop 4 buf)"
    using len memcpy_next [of 0 "[]" PKT_MAGIC buf] by (simp add: packet_offsets)
  have s2: "put_at AUG_PKTPROTOOFF (aug_encode16 be (ucast (pk_proto p))) (?p1 @ drop 4 buf) = Some (?p2 @ drop 6 buf)"
    using len put_at_next(1) [of AUG_PKTPROTOOFF "?p1" "drop 4 buf" be]
    by (simp add: packet_offsets)
  have s3: "packstring (pk_node p) (?p2 @ drop 6 buf) AUG_PKTNODEOFF AUG_PKTNODELEN = Some (?p3 @ drop 134 buf)"
    using len packstring_next [OF wf, of AUG_PKTNODEOFF "?p2" "drop 6 buf"] by (simp add: packet_offsets)
  have s4: "put_at AUG_PKTINSTOFF (aug_encode32 be (pk_inst p)) (?p3 @ drop 134 buf) = Some (?p4 @ drop 138 buf)"
    using len nd put_at_next(2) [of AUG_PKTINSTOFF "?p3" "drop 134 buf" be]
    by (simp add: packet_offsets)
  have s5: "put_at AUG_PKTTYPEOFF (aug_encode16 be (pk_type p)) (?p4 @ drop 138 buf) = Some (?p5 @ drop 140 buf)"
    using len nd put_at_next(1) [of AUG_PKTTYPEOFF "?p4" "drop 138 buf" be]
    by (simp add: packet_offsets)
  have s6: "put_at AUG_PKTSEQNOOFF (aug_encode64 be (pk_seqno p)) (?p5 @ drop 140 buf) = Some (?p6 @ drop 148 buf)"
    using len nd put_at_next(3) [of AUG_PKTSEQNOOFF "?p5" "drop 140 buf" be]
    by (simp add: packet_offsets)
  have s7: "put_at AUG_PKTSIZEOFF (aug_encode16 be (of_nat sz)) (?p6 @ drop 148 buf) = Some (?p7 @ drop 150 buf)"
    using len nd put_at_next(1) [of AUG_PKTSIZEOFF "?p6" "drop 148 buf" be]
    by (simp add: packet_offsets)
  have s8: "memcpy (?p7 @ drop 150 buf) AUG_PKTDATAOFF ?ud = Some (?p8 @ drop (150 + sz) buf)"
    using len nd sz memcpy_next [of AUG_PKTDATAOFF "?p7" ?ud "drop 150 buf"]
    by (simp add: packet_offsets add.commute)
  have s9: "memcpy (?p8 @ drop (150 + sz) buf) (AUG_PKTDATAOFF + sz) (replicate (AUG_PKTDATASIZE - sz) 0)
      = Some ((?p8 @ replicate (366 - sz) 0) @ drop 516 buf)"
    using len nd sz memcpy_next [of "AUG_PKTDATAOFF + sz" "?p8" "replicate (366 - sz) 0" "drop (150 + sz) buf"]
    by (simp add: packet_offsets)
  have s10: "?p8 @ drop (150 + sz) buf = (?p8 @ replicate (366 - sz) 0) @ drop 516 buf" if "\<not> sz < AUG_PKTDATASIZE"
    using that sz by (simp add: packet_offsets)
  have "aug_encodepacket be p buf = Some ((?p8 @ replicate (366 - sz) 0) @ drop 516 buf)"
    unfolding aug_encodepacket_def s1 bind.bind_lunit s2 s3 s4 s5 s6 Let_def sz(1) s7 s8 s9
    using s10 by (cases "sz < AUG_PKTDATASIZE") (simp_all only: if_True if_False not_False_eq_True)
  moreover have "of_nat sz = (ucast (pk_size p) :: 16 word)" by (simp add: sz_def)
  ultimately show ?thesis
    using sz(2,3) by (simp add: wire_def padded_to_def user_data_def packet_offsets flip: sz_def)
qed

section \<open>Decoding\<close>

definition sized :: "packet \<Rightarrow> bool" where
  "sized p \<longleftrightarrow> length (pk_node p) = AUG_PKTNODELEN + 1 \<and> length (pk_data p) = AUG_PKTDATASIZE"

text \<open>The packet that 516 bytes with the right magic stand for.\<close>

definition unwire :: "byte list \<Rightarrow> packet" where
  "unwire b = \<lparr>pk_proto = ucast (dec16 (slice 4 2 b)), pk_node = slice 6 128 b @ [0],
     pk_inst = dec32 (slice 134 4 b), pk_type = dec16 (slice 138 2 b), pk_seqno = dec64 (slice 140 8 b),
     pk_size = of_nat (min (unat (dec16 (slice 148 2 b))) 366), pk_data = slice 150 366 b\<rparr>"

lemma slice_0_drop: "slice 0 n (drop p b) = slice p n b"
  by (simp add: slice_def)

lemma decode_unwire:
  assumes "516 \<le> length buf" "sized pkt"
  shows "aug_decodepacket be buf pkt
    = Some (if slice 0 4 buf = PKT_MAGIC then Inr (unwire buf) else Inl (ExError EINVAL))"
proof -
  have "unpackstring (pk_node pkt) buf 6 128 = Some (slice 6 128 buf @ [0])"
    using assms by (simp add: unpackstring_def sized_def packet_offsets poke_def)
  moreover have "memcpy (pk_data pkt) 0 (slice 150 366 buf) = Some (slice 150 366 buf)"
    using assms by (simp add: sized_def packet_offsets poke_def)
  moreover have "\<not> length buf - 148 < 2" "\<not> length buf - 140 < 8" "\<not> length buf - 138 < 2"
      "\<not> length buf - 134 < 4" "\<not> length buf - 4 < 2"
    using assms(1) by linarith+
  ultimately show ?thesis
    using assms
    by (simp add: aug_decodepacket_def decode_network packet_offsets slice_0_drop unwire_def del: memcpy_Some)
qed

lemma unwire_wf: "516 \<le> length buf \<Longrightarrow> pkt_wf (unwire buf)"
proof -
  have "unat (ucast (w :: 16 word) :: 32 word) < 2 ^ 16" for w
    using unsigned_less [of w, where 'a = nat] by (simp add: unsigned_ucast_eq take_bit_nat_eq_self)
  moreover have "unat (of_nat (min n 366) :: 32 word) \<le> 366" for n
    by (simp add: unat_of_nat mod_if)
  ultimately show "516 \<le> length buf \<Longrightarrow> ?thesis"
    by (simp add: pkt_wf_def unwire_def packet_offsets)
qed

text \<open>
  C30: Whatever 516 bytes arrive, decoding them is defined on hosts of either order and gives an
  error exactly when the magic is wrong, and otherwise a well-formed packet: its node name ends
  within its array and its size within its data.  Such a packet is accepted exactly when its
  node has a name, and encoding it is defined.
\<close>
theorem decodepacket_type:
  assumes "516 \<le> length buf" "sized pkt"
  shows "\<exists>r. aug_decodepacket be buf pkt = Some r
    \<and> (case r of
         Inl e \<Rightarrow> e = ExError EINVAL \<and> take 4 buf \<noteq> PKT_MAGIC
       | Inr p \<Rightarrow> take 4 buf = PKT_MAGIC \<and> pkt_wf p
           \<and> (aug_verifypacket p = Inr () \<longleftrightarrow> node_name p \<noteq> [])
           \<and> aug_encodepacket be p buf \<noteq> None)"
proof -
  have "unwire buf \<in> Collect pkt_wf" using assms(1) by (simp add: unwire_wf)
  moreover have "aug_verifypacket p = Inr () \<longleftrightarrow> node_name p \<noteq> []" if "pkt_wf p" for p
    using that by (cases "pk_node p") (auto simp: aug_verifypacket_def node_name_def pkt_wf_def)
  ultimately show ?thesis
    using assms by (auto simp: decode_unwire encode_wire slice_def)
qed

lemma decodepacket_type_witness:
  "\<exists>r. aug_decodepacket True (PKT_MAGIC @ replicate 512 7)
      \<lparr>pk_proto = 0, pk_node = replicate 129 1, pk_inst = 0, pk_type = 0, pk_seqno = 0, pk_size = 0,
       pk_data = replicate 366 1\<rparr> = Some r
    \<and> (case r of Inl e \<Rightarrow> False | Inr p \<Rightarrow> pkt_wf p)"
proof -
  let ?p = "\<lparr>pk_proto = 0, pk_node = replicate 129 1, pk_inst = 0, pk_type = 0, pk_seqno = 0, pk_size = 0,
       pk_data = replicate 366 1\<rparr>"
  have "516 \<le> length (PKT_MAGIC @ replicate 512 7)" and "sized ?p"
    by (simp_all add: sized_def packet_offsets)
  from decodepacket_type [OF this, of True] show ?thesis
    by (auto split: sum.splits)
qed

section \<open>Round trip\<close>

lemma unwire_wire:
  assumes wf: "pkt_wf p"
  shows "slice 0 4 (wire p @ r) = PKT_MAGIC"
    and "unwire (wire p @ r) = p\<lparr>pk_node := padded_to 128 (node_name p) @ [0], pk_data := padded_to 366 (user_data p)\<rparr>"
proof -
  let ?nd = "padded_to AUG_PKTNODELEN (node_name p)" and ?ud = "padded_to AUG_PKTDATASIZE (user_data p)"
  have nd: "length ?nd = 128" using node_name_bound [OF wf] by (simp add: packet_offsets)
  have ud: "length ?ud = 366" using user_data_length [OF wf] wf by (simp add: packet_offsets pkt_wf_def)
  show "slice 0 4 (wire p @ r) = PKT_MAGIC" by (simp add: wire_def slice_def)
  have s: "slice 4 2 (wire p @ r) = enc16 (ucast (pk_proto p))" "slice 6 128 (wire p @ r) = ?nd"
      "slice 134 4 (wire p @ r) = enc32 (pk_inst p)" "slice 138 2 (wire p @ r) = enc16 (pk_type p)"
      "slice 140 8 (wire p @ r) = enc64 (pk_seqno p)" "slice 148 2 (wire p @ r) = enc16 (ucast (pk_size p))"
      "slice 150 366 (wire p @ r) = ?ud"
    using nd ud by (simp_all add: wire_def slice_def)
  have "ucast (ucast (pk_proto p) :: 16 word) = pk_proto p"
    using wf by (intro word_unat_eq_iff [THEN iffD2])
      (simp add: unsigned_ucast_eq unsigned_take_bit_eq take_bit_nat_eq_self pkt_wf_def)
  moreover have "of_nat (min (unat (ucast (pk_size p) :: 16 word)) 366) = pk_size p"
  proof -
    have "unat (pk_size p) \<le> 366" using wf by (simp add: pkt_wf_def packet_offsets)
    then have "min (unat (ucast (pk_size p) :: 16 word)) 366 = unat (pk_size p)"
      by (simp add: unsigned_ucast_eq take_bit_nat_eq_self)
    then show ?thesis by simp
  qed
  ultimately show "unwire (wire p @ r) = p\<lparr>pk_node := padded_to 128 (node_name p) @ [0], pk_data := padded_to 366 (user_data p)\<rparr>"
    by (simp add: unwire_def s) (simp add: packet_offsets)
qed

lemma setpacket_wf:
  assumes "cstring node" "unat sz \<le> length data" "sized pkt"
  shows "\<exists>p. aug_setpacket node inst typ seqno data sz pkt = Some p \<and> pkt_wf p \<and> pk_proto p = 1
    \<and> node_name p = take 128 node \<and> pk_inst p = inst \<and> pk_type p = typ \<and> pk_seqno p = seqno
    \<and> user_data p = take (min (unat sz) 366) data"
proof -
  define n where "n = min (unat sz) 366"
  let ?node = "poke (pk_node pkt) 0 (take 128 node @ [0])"
  let ?p = "pkt\<lparr>pk_proto := 1, pk_node := ?node, pk_inst := inst, pk_type := typ, pk_seqno := seqno,
      pk_size := of_nat n, pk_data := poke (pk_data pkt) 0 (take n data)\<rparr>"
  have "aug_strlcpy (pk_node pkt) node 129 = Some (length node, ?node)"
    using assms(3) strlcpy_fits [of 129 "pk_node pkt" node] by (simp add: sized_def packet_offsets)
  then have "aug_setpacket node inst typ seqno data sz pkt = Some ?p"
    using assms(2,3) by (auto simp: aug_setpacket_def Let_def packet_offsets n_def [symmetric] sized_def)
      (auto simp: n_def)
  moreover have name: "node_name ?p = take 128 node"
  proof -
    have "0 \<notin> set (take 128 node)" using assms(1) by (auto simp: cstring_def dest: in_set_takeD)
    then have "takeWhile (\<lambda>c. c \<noteq> 0) (take 128 node @ [0] @ xs) = take 128 node" for xs
      by (subst takeWhile_append2) auto
    then show ?thesis by (simp add: node_name_def poke_def)
  qed
  moreover have "unat (of_nat n :: 32 word) = n" by (simp add: n_def unat_of_nat)
  moreover have "n \<le> length data" "n \<le> 366" using assms(2) by (simp_all add: n_def)
  moreover have "length ?node = 129" "0 \<in> set ?node" "length (poke (pk_data pkt) 0 (take n data)) = 366"
    using assms(3) \<open>n \<le> length data\<close> \<open>n \<le> 366\<close> by (auto simp: sized_def packet_offsets poke_def)
  moreover have "user_data ?p = take n data"
    using \<open>n \<le> length data\<close> \<open>unat (of_nat n :: 32 word) = n\<close> by (simp add: user_data_def poke_def)
  ultimately show ?thesis
    unfolding n_def [symmetric] by (intro exI [of _ ?p]) (simp add: pkt_wf_def packet_offsets)
qed

text \<open>
  C29: A packet set from a node name, numbers and data, encoded on one host and decoded on
  another, whatever the byte orders and whatever the receiving packet held before, has protocol
  1, the same instance, type and sequence number, the first 128 characters of the name and the
  first 366 bytes of the data; encoding writes its 516 bytes and nothing behind them.
\<close>
theorem packet_roundtrip:
  assumes "cstring node" "unat sz \<le> length data" "sized pkt" "sized pkt'" "516 \<le> length buf"
  shows "\<exists>p buf' p'.
      aug_setpacket node inst typ seqno data sz pkt = Some p
    \<and> aug_encodepacket w p buf = Some buf' \<and> drop 516 buf' = drop 516 buf
    \<and> aug_decodepacket r buf' pkt' = Some (Inr p')
    \<and> pk_proto p' = 1 \<and> node_name p' = take 128 node \<and> pk_inst p' = inst \<and> pk_type p' = typ
    \<and> pk_seqno p' = seqno \<and> user_data p' = take (min (unat sz) 366) data"
proof -
  obtain p where mk: "aug_setpacket node inst typ seqno data sz pkt = Some p" and wf: "pkt_wf p"
    and p: "pk_proto p = 1" "node_name p = take 128 node" "pk_inst p = inst" "pk_type p = typ"
      "pk_seqno p = seqno" "user_data p = take (min (unat sz) 366) data"
    using setpacket_wf [OF assms(1-3), of inst "typ" seqno] by blast
  let ?p' = "unwire (wire p @ drop 516 buf)"
  have "aug_decodepacket r (wire p @ drop 516 buf) pkt' = Some (Inr ?p')"
    using assms(4) unwire_wire(1) [OF wf] by (simp add: decode_unwire length_wire [OF wf])
  moreover have "node_name ?p' = node_name p"
  proof -
    have "0 \<notin> set (node_name p)" by (auto simp: node_name_def dest: set_takeWhileD)
    then have "takeWhile (\<lambda>c. c \<noteq> 0) (node_name p @ replicate k 0 @ [0]) = node_name p" for k
      by (subst takeWhile_append2) (auto, cases k, auto)
    then show ?thesis by (simp add: unwire_wire(2) [OF wf] node_name_def padded_to_def)
  qed
  moreover have "user_data ?p' = user_data p"
    using user_data_length [OF wf] by (simp add: unwire_wire(2) [OF wf] user_data_def [of "_\<lparr>pk_data := _\<rparr>"] padded_to_def)
  moreover have "pk_proto ?p' = 1" "pk_inst ?p' = inst" "pk_type ?p' = typ" "pk_seqno ?p' = seqno"
    by (simp_all add: unwire_wire(2) [OF wf] p)
  ultimately show ?thesis
    using mk encode_wire [OF wf assms(5)] length_wire [OF wf] p by (intro exI) (auto simp: p)
qed

definition zero_packet :: packet where
  "zero_packet = \<lparr>pk_proto = 0, pk_node = replicate 129 0, pk_inst = 0, pk_type = 0, pk_seqno = 0,
     pk_size = 0, pk_data = replicate 366 0\<rparr>"

lemma packet_roundtrip_witness:
  "\<exists>p buf' p'.
      aug_setpacket (str ''augd'') 101 202 303 [1, 2, 3] 3 zero_packet = Some p
    \<and> aug_encodepacket True p (replicate 516 0) = Some buf' \<and> aug_decodepacket False buf' zero_packet = Some (Inr p')
    \<and> node_name p' = str ''augd'' \<and> pk_inst p' = 101 \<and> user_data p' = [1, 2, 3]"
proof -
  have "cstring (str ''augd'')" "take 128 (str ''augd'') = str ''augd''" by code_simp+
  moreover have "sized zero_packet" by (simp add: sized_def zero_packet_def packet_offsets)
  ultimately show ?thesis
    using packet_roundtrip [of "str ''augd''" 3 "[1, 2, 3]" zero_packet zero_packet "replicate 516 0" 101 202 303 True False]
    by auto
qed

text \<open>A name of more than 128 characters in the array is written over the fields behind it.\<close>

lemma unterminated_node:
  "0 \<notin> set (pk_node p) \<Longrightarrow> 516 \<le> length buf \<Longrightarrow> aug_encodepacket be p buf = None"
  by (simp add: aug_encodepacket_def packstring_def strlen_def packet_offsets put_at_def encode_network)

end
