(* ===== verification/Fix.thy ===== *)
theory Fix
  imports Xstr Conv
begin

text \<open>
  \<^verbatim>\<open>augnet/fix.c\<close>: FIX messages out of a stream, their check and their fields.  A pointer
  parameter is the memory from that address on; a read past the end of that memory is the
  outcome \<open>Undefined\<close>.  \<open>fx_out\<close> records what the callback is given.  \<open>sc\<close> tells whether
  \<^verbatim>\<open>char\<close> is signed.
\<close>

definition SOH :: byte where "SOH = 1"
definition EQ :: byte where "EQ = 61"
definition BEGINSTRING_PREFIX :: "byte list" where "BEGINSTRING_PREFIX = str ''8=''"
definition BODYLENGTH_PREFIX :: "byte list" where "BODYLENGTH_PREFIX = str ''9=''"
definition CHECKSUM_PREFIX :: "byte list" where "CHECKSUM_PREFIX = str ''10=''"

text \<open>\<^verbatim>\<open>CHECKSUM_PREFIX_SIZE_\<close> is computed from the other prefix.\<close>

definition CHECKSUM_PREFIX_SIZE :: nat where "CHECKSUM_PREFIX_SIZE = length BODYLENGTH_PREFIX"

definition AUG_FIXVERLEN :: nat where "AUG_FIXVERLEN = 7"
definition HEAD_SIZE :: nat where "HEAD_SIZE = 12"
definition TAIL_SIZE :: nat where "TAIL_SIZE = 7"
definition MAX_DIGITS :: nat where "MAX_DIGITS = 10"

lemmas fix_consts =
  SOH_def EQ_def BEGINSTRING_PREFIX_def BODYLENGTH_PREFIX_def CHECKSUM_PREFIX_def CHECKSUM_PREFIX_SIZE_def
  AUG_FIXVERLEN_def HEAD_SIZE_def TAIL_SIZE_def MAX_DIGITS_def

section \<open>Numbers\<close>

definition isdigit :: "byte \<Rightarrow> bool" where
  "isdigit c \<longleftrightarrow> 48 \<le> c \<and> c \<le> 57"

text \<open>Where a character is among the first \<open>n\<close>; \<open>None\<close>: the memory ended before.\<close>

fun scan :: "byte \<Rightarrow> nat \<Rightarrow> byte list \<Rightarrow> nat option option" where
  "scan delim 0 m = Some None"
| "scan delim (Suc n) [] = None"
| "scan delim (Suc n) (x # xs) =
     (if x = delim then Some (Some 0) else map_option (map_option Suc) (scan delim n xs))"

text \<open>The digits from the last to the first.\<close>

fun digits_back :: "byte list \<Rightarrow> nat \<Rightarrow> nat \<Rightarrow> nat option" where
  "digits_back [] place value = Some value"
| "digits_back (c # cs) place value =
     (if \<not> isdigit c then None
      else digits_back cs (place * 10 mod 2 ^ 32) (uadd value (unat (c - 48) * place mod 2 ^ 32)))"

text \<open>The number of digits and what \<open>dst\<close> holds afterwards.\<close>

definition fixtoui :: "byte list \<Rightarrow> nat \<Rightarrow> nat \<Rightarrow> byte \<Rightarrow> aug_fail + nat \<times> nat" where
  "fixtoui buf dst sz delim =
     (case scan delim sz buf of
        None \<Rightarrow> Inl Undefined
      | Some None \<Rightarrow> Inr (0, dst)
      | Some (Some digits) \<Rightarrow>
          if MAX_DIGITS < digits then Inl (ExError EPARSE)
          else
            case digits_back (rev (take digits buf)) 1 0 of
              None \<Rightarrow> Inl (ExError EPARSE)
            | Some value \<Rightarrow> Inr (digits, value))"

definition fix_getsize :: "byte list \<Rightarrow> nat \<Rightarrow> aug_fail + nat" where
  "fix_getsize buf sz =
     (if sz < HEAD_SIZE + 2 then Inr 0
      else
        case fixtoui (drop HEAD_SIZE buf) 0 sz SOH of
          Inl e \<Rightarrow> Inl e
        | Inr (rsize, value) \<Rightarrow> Inr (HEAD_SIZE + rsize + 1 + value + TAIL_SIZE))"

definition fix_getsum :: "byte list \<Rightarrow> nat \<Rightarrow> aug_fail + nat" where
  "fix_getsum buf sz =
     (if sz < 4 \<or> length buf < sz then Inl Undefined
      else
        let cu = buf ! (sz - 2); ct = buf ! (sz - 3); ch = buf ! (sz - 4) in
        if \<not> isdigit cu \<or> \<not> isdigit ct \<or> \<not> isdigit ch then Inl (ExError EPARSE)
        else Inr (unat (cu - 48) + unat (ct - 48) * 10 + unat (ch - 48) * 100))"

section \<open>The stream\<close>

record fixstream =
  fx_xstr :: xstr
  fx_mlen :: nat
  fx_out :: "byte list list"

definition AUG_BUFSIZE :: nat where "AUG_BUFSIZE = 4096"

text \<open>\<open>junk\<close> is what the memory of the string holds; allocation is taken to succeed.\<close>

definition aug_createfixstream :: "nat \<Rightarrow> byte list \<Rightarrow> fixstream" where
  "aug_createfixstream sz junk =
     \<lparr>fx_xstr = aug_createxstr (if sz = 0 then AUG_BUFSIZE else sz) junk, fx_mlen = 0, fx_out = []\<rparr>"

text \<open>The head of the loop: the length of the message, unless it is known.\<close>

definition fix_head :: "nat \<Rightarrow> fixstream \<Rightarrow> (aug_fail + unit) \<times> fixstream" where
  "fix_head sz st =
     (if fx_mlen st \<noteq> 0 then (Inr (), st)
      else
        case fix_getsize (x_buf (fx_xstr st)) sz of
          Inl e \<Rightarrow> (Inl e, st)
        | Inr mlen \<Rightarrow> (Inr (), st\<lparr>fx_mlen := mlen\<rparr>))"

text \<open>
  A whole message: the callback, then the rest of the buffer is copied to its front, from
  \<^verbatim>\<open>ptr + stream->mlen_\<close> after \<^verbatim>\<open>mlen_\<close> was reset.  The string has room for its own bytes.
\<close>

definition fix_deliver :: "fixstream \<Rightarrow> nat \<Rightarrow> (aug_fail + unit) \<times> fixstream" where
  "fix_deliver st blen =
     (let x = fx_xstr st;
          mlen = fx_mlen st;
          st = st\<lparr>fx_out := fx_out st @ [take mlen (x_buf x)], fx_mlen := 0\<rparr>;
          blen = blen - mlen
      in if blen = 0 then (Inr (), st\<lparr>fx_xstr := aug_clearxstr x\<rparr>)
         else
           let x = snd (aug_xstrcpysn x (take blen (drop (fx_mlen st) (x_buf x))) Refused) in
           case aug_xstr x of
             (None, x) \<Rightarrow> (Inl Undefined, st\<lparr>fx_xstr := x\<rparr>)
           | (Some p, x) \<Rightarrow> (Inr (), st\<lparr>fx_xstr := x\<rparr>))"

lemma fix_head_mlen: "fix_head sz st = (Inr u, st') \<Longrightarrow> fx_xstr st' = fx_xstr st"
  by (auto simp: fix_head_def split: if_splits sum.splits)

function fix_loop :: "nat \<Rightarrow> fixstream \<Rightarrow> nat \<Rightarrow> (aug_fail + unit) \<times> fixstream" where
  "fix_loop sz st blen =
     (case fix_head sz st of
        (Inl e, st) \<Rightarrow> (Inl e, st)
      | (Inr _, st) \<Rightarrow>
          if fx_mlen st = 0 \<or> blen < fx_mlen st then (Inr (), st)
          else if blen = fx_mlen st then fix_deliver st blen
          else
            case fix_deliver st blen of
              (Inl e, st') \<Rightarrow> (Inl e, st')
            | (Inr _, st') \<Rightarrow> fix_loop sz st' (blen - fx_mlen st))"
  by pat_completeness auto
termination
  by (relation "measure (\<lambda>(sz, st, blen). blen)") auto

declare fix_loop.simps [simp del]

text \<open>\<open>a\<close> is the allocator's answer to the string's one request.\<close>

definition aug_readfix ::
  "fixstream \<Rightarrow> (nat \<Rightarrow> aug_fail + byte list) \<Rightarrow> nat \<Rightarrow> answer \<Rightarrow> (aug_fail + nat) \<times> fixstream" where
  "aug_readfix st src sz a =
     (case aug_xstrread (fx_xstr st) src sz a of
        (Inl e, x) \<Rightarrow> (Inl e, st\<lparr>fx_xstr := x\<rparr>)
      | (Inr rsize, x) \<Rightarrow>
          if rsize = 0 then (Inl (ExError EIO), st\<lparr>fx_xstr := x\<rparr>)
          else
            let blen = aug_xstrlen x in
            case aug_xstr x of
              (None, x) \<Rightarrow> (Inl Undefined, st\<lparr>fx_xstr := x\<rparr>)
            | (Some _, x) \<Rightarrow>
                (case fix_loop sz (st\<lparr>fx_xstr := x\<rparr>) blen of
                   (Inl e, st) \<Rightarrow> (Inl e, st)
                 | (Inr _, st) \<Rightarrow> (Inr rsize, st)))"

definition aug_finishfix :: "fixstream \<Rightarrow> (aug_fail + unit) \<times> fixstream" where
  "aug_finishfix st =
     (if aug_xstrlen (fx_xstr st) \<noteq> 0
      then (Inl (ExError EIO), st\<lparr>fx_xstr := aug_clearxstr (fx_xstr st), fx_mlen := 0\<rparr>)
      else (Inr (), st\<lparr>fx_mlen := 0\<rparr>))"

section \<open>Checking a message\<close>

definition char_val :: "bool \<Rightarrow> byte \<Rightarrow> int" where
  "char_val sc c = (if sc \<and> 128 \<le> c then uint c - 256 else uint c)"

definition aug_checksum :: "bool \<Rightarrow> byte list \<Rightarrow> nat" where
  "aug_checksum sc s = nat (foldl (\<lambda>sum c. (sum + char_val sc c) mod 2 ^ 64) 0 s mod 256)"

text \<open>\<open>fs_body\<close> is the offset of the body.\<close>

record fixstd =
  fs_ver :: "byte list"
  fs_body :: nat
  fs_size :: nat

text \<open>\<^verbatim>\<open>0 == memcmp(ptr, s, n)\<close> at offset \<open>p\<close>; \<open>None\<close>: the memory ends before.\<close>

definition same_at :: "byte list \<Rightarrow> nat \<Rightarrow> byte list \<Rightarrow> nat \<Rightarrow> bool option" where
  "same_at m p s n = (if p + n \<le> length m then Some (slice p n m = take n s) else None)"

definition checksum_field :: "bool \<Rightarrow> byte list \<Rightarrow> nat \<Rightarrow> aug_fail + unit" where
  "checksum_field sc buf sz =
     (if SOH \<noteq> buf ! (sz - 1) then Inl (ExError EPARSE)
      else
        case fix_getsum buf sz of
          Inl e \<Rightarrow> Inl e
        | Inr sum1 \<Rightarrow>
            if sum1 \<noteq> aug_checksum sc (take (sz - TAIL_SIZE) buf) then Inl (ExError EPARSE) else Inr ())"

definition aug_checkfix :: "bool \<Rightarrow> fixstd \<Rightarrow> byte list \<Rightarrow> nat \<Rightarrow> (aug_fail + unit) \<times> fixstd" where
  "aug_checkfix sc std buf sz =
     (case same_at buf 0 BEGINSTRING_PREFIX 2 of
        None \<Rightarrow> (Inl Undefined, std)
      | Some False \<Rightarrow> (Inl (ExError EPARSE), std)
      | Some True \<Rightarrow>
          if length buf \<le> 2 + AUG_FIXVERLEN then (Inl Undefined, std)
          else
            let std = std\<lparr>fs_ver := slice 2 AUG_FIXVERLEN buf @ [0]\<rparr>;
                ptr = 2 + AUG_FIXVERLEN
            in if SOH \<noteq> buf ! ptr then (Inl (ExError EPARSE), std)
               else
                 case same_at buf (ptr + 1) BODYLENGTH_PREFIX 2 of
                   None \<Rightarrow> (Inl Undefined, std)
                 | Some False \<Rightarrow> (Inl (ExError EPARSE), std)
                 | Some True \<Rightarrow>
                     (case scan SOH (length buf + 1) (drop (ptr + 3) buf) of
                        Some (Some i) \<Rightarrow>
                          if sz < TAIL_SIZE \<or> length buf < sz then (Inl Undefined, std)
                          else
                            let body = ptr + 3 + i + 1;
                                tail = sz - TAIL_SIZE;
                                std = std\<lparr>fs_body := body, fs_size := nat ((int tail - int body) mod 2 ^ 64)\<rparr>
                            in (case same_at buf tail CHECKSUM_PREFIX CHECKSUM_PREFIX_SIZE of
                                  Some True \<Rightarrow> (checksum_field sc buf sz, std)
                                | Some False \<Rightarrow> (Inl (ExError EPARSE), std)
                                | None \<Rightarrow> (Inl Undefined, std))
                      | _ \<Rightarrow> (Inl Undefined, std)))"

section \<open>Fields\<close>

text \<open>\<open>ff_value\<close> is the offset of the value.\<close>

record fixfield =
  ff_tag :: nat
  ff_value :: nat
  ff_size :: nat

definition aug_fixfield :: "fixfield \<Rightarrow> byte list \<Rightarrow> nat \<Rightarrow> (aug_fail + nat) \<times> fixfield" where
  "aug_fixfield field buf sz =
     (case fixtoui buf (ff_tag field) sz EQ of
        Inl e \<Rightarrow> (Inl e, field)
      | Inr (digits, tag) \<Rightarrow>
          if digits = 0 then (Inl (ExError EPARSE), field)
          else
            let it = digits + 1;
                field = field\<lparr>ff_tag := tag, ff_value := it\<rparr>
            in case scan SOH (sz - it) (drop it buf) of
                 None \<Rightarrow> (Inl Undefined, field)
               | Some None \<Rightarrow> (Inl (ExError EPARSE), field)
               | Some (Some n) \<Rightarrow> (Inr (it + n + 1), field\<lparr>ff_size := n\<rparr>))"

section \<open>Numbers are read\<close>

lemma digits_back_val:
  "list_all isdigit ds \<Longrightarrow> v < 2 ^ 32 \<Longrightarrow>
   digits_back (rev ds) p v = Some ((v + p * digits_val 10 0 ds) mod 2 ^ 32)"
proof (induction ds arbitrary: p v rule: rev_induct)
  case (snoc c ds)
  let ?d = "unat (c - 48)" and ?n = "digits_val 10 0 ds"
  have c: "isdigit c" "digit_val c = Some ?d"
    using snoc.prems(1) by (auto simp: isdigit_def digit_val_def)
  have "digits_back (rev (ds @ [c])) p v
      = Some ((uadd v (?d * p mod 2 ^ 32) + (p * 10 mod 2 ^ 32) * ?n) mod 2 ^ 32)"
    using snoc.IH [of "uadd v (?d * p mod 2 ^ 32)" "p * 10 mod 2 ^ 32"] snoc.prems(1) c(1)
    by (simp add: uadd_bound [simplified])
  also have "(uadd v (?d * p mod 2 ^ 32) + (p * 10 mod 2 ^ 32) * ?n) mod 2 ^ 32
      = (v + ?d * p + p * 10 * ?n) mod 2 ^ 32"
  proof -
    have "(x mod m + (y mod m) * n) mod m = (x + y * n) mod m" for x y n m :: nat
    proof -
      have "(x mod m + (y mod m) * n) mod m = (x mod m + (y mod m) * n mod m) mod m"
        by (rule mod_add_right_eq [symmetric])
      also have "\<dots> = (x mod m + y * n mod m) mod m"
        unfolding mod_mult_left_eq ..
      finally show ?thesis unfolding mod_add_eq .
    qed
    from this [of "v + unat (c - 48) * p" "2 ^ 32" "p * 10" "digits_val 10 0 ds"] show ?thesis
      unfolding uadd_def mod_add_right_eq .
  qed
  also have "v + ?d * p + p * 10 * ?n = v + p * digits_val 10 0 (ds @ [c])"
    by (simp add: digits_val_append c(2) algebra_simps)
  finally show ?case .
qed simp

lemma scan_found:
  "delim \<notin> set ds \<Longrightarrow> length ds < n \<Longrightarrow> scan delim n (ds @ delim # r) = Some (Some (length ds))"
proof (induction ds arbitrary: n)
  case Nil
  then show ?case by (cases n) auto
next
  case (Cons d ds)
  then show ?case by (cases n) auto
qed

lemma scan_none: "delim \<notin> set m \<Longrightarrow> n \<le> length m \<Longrightarrow> scan delim n m = Some None"
proof (induction m arbitrary: n)
  case (Cons x m)
  then show ?case by (cases n) auto
qed simp

lemma fixtoui_numeral:
  assumes "list_all isdigit ds" "\<not> isdigit delim" "length ds \<le> 10" "length ds < n"
  shows "fixtoui (ds @ delim # r) v n delim = Inr (length ds, digits_val 10 0 ds mod 2 ^ 32)"
proof -
  have "delim \<notin> set ds" using assms(1,2) by (auto simp: list_all_iff)
  then show ?thesis
    using assms digits_back_val [OF assms(1), of 0 1] by (simp add: fixtoui_def scan_found MAX_DIGITS_def)
qed

lemma isdigit_char: "d < 10 \<Longrightarrow> isdigit (of_nat (48 + d))"
proof -
  assume "d < 10"
  then have "d = 0 \<or> d = 1 \<or> d = 2 \<or> d = 3 \<or> d = 4 \<or> d = 5 \<or> d = 6 \<or> d = 7 \<or> d = 8 \<or> d = 9"
    by presburger
  then show ?thesis by (elim disjE) (simp_all add: isdigit_def)
qed

lemma decimal_isdigit: "list_all isdigit (decimal n)"
  using isdigit_char by (intro decimal_all) auto


lemma decimal_u32: "n < 2 ^ 32 \<Longrightarrow> length (decimal n) \<le> 10"
  using decimal_length [of n 9] by simp

section \<open>Fields come back\<close>

type_synonym fix_field = "nat \<times> byte list"

definition render_field :: "fix_field \<Rightarrow> byte list" where
  "render_field f = decimal (fst f) @ EQ # snd f @ [SOH]"

definition fix_field_ok :: "fix_field \<Rightarrow> bool" where
  "fix_field_ok f \<longleftrightarrow> fst f < 2 ^ 32 \<and> SOH \<notin> set (snd f)"

lemma fixfield_render:
  assumes "fix_field_ok f" "length (render_field f) \<le> n"
  shows "aug_fixfield fld (render_field f @ r) n
    = (Inr (length (render_field f)),
       \<lparr>ff_tag = fst f, ff_value = length (decimal (fst f)) + 1, ff_size = length (snd f)\<rparr>)"
proof -
  have "\<not> isdigit EQ" by (simp add: isdigit_def EQ_def word_le_def)
  then have "fixtoui (decimal (fst f) @ EQ # snd f @ SOH # r) (ff_tag fld) n EQ
      = Inr (length (decimal (fst f)), fst f)"
    using assms decimal_u32 [of "fst f"]
    by (subst fixtoui_numeral)
       (auto simp: decimal_isdigit digits_val_decimal fix_field_ok_def render_field_def)
  moreover have "scan SOH (n - Suc (length (decimal (fst f)))) (snd f @ SOH # r) = Some (Some (length (snd f)))"
    using assms by (intro scan_found) (auto simp: fix_field_ok_def render_field_def)
  ultimately show ?thesis
    by (simp add: aug_fixfield_def render_field_def Let_def)
qed

text \<open>The loop of a client over a body.\<close>

function fix_fields :: "byte list \<Rightarrow> (fix_field list) option" where
  "fix_fields body =
     (if body = [] then Some []
      else
        case aug_fixfield \<lparr>ff_tag = 0, ff_value = 0, ff_size = 0\<rparr> body (length body) of
          (Inl e, _) \<Rightarrow> None
        | (Inr n, f) \<Rightarrow>
            if n = 0 then None
            else map_option (Cons (ff_tag f, slice (ff_value f) (ff_size f) body)) (fix_fields (drop n body)))"
  by pat_completeness auto
termination
  by (relation "measure length") auto

declare fix_fields.simps [simp del]

text \<open>
  Reading the fields of a body one after the other gives back the tags and values it was
  written from, in their order, for any tags of 32 bits and any values without the delimiter,
  empty values included.
\<close>
lemma fix_fields_roundtrip:
  assumes "list_all fix_field_ok fs"
  shows "fix_fields (concat (map render_field fs)) = Some fs"
  using assms
proof (induction fs)
  case Nil
  then show ?case by (simp add: fix_fields.simps)
next
  case (Cons f fs)
  let ?r = "concat (map render_field fs)"
  have ne: "render_field f \<noteq> []" by (simp add: render_field_def)
  have "slice (Suc (length (decimal (fst f)))) (length (snd f)) (render_field f @ ?r) = snd f"
    by (simp add: render_field_def slice_def)
  moreover have "aug_fixfield fld (render_field f @ ?r) (length (render_field f @ ?r))
      = (Inr (length (render_field f)),
         \<lparr>ff_tag = fst f, ff_value = length (decimal (fst f)) + 1, ff_size = length (snd f)\<rparr>)" for fld
    using Cons.prems by (intro fixfield_render) auto
  ultimately show ?case
    using Cons ne by (simp add: fix_fields.simps [of "render_field f @ ?r"])
qed

lemma fix_fields_roundtrip_witness:
  "fix_fields (str ''35=D'' @ [1] @ str ''58='' @ [1] @ str ''4294967295=x=y'' @ [1])
    = Some [(35, str ''D''), (58, []), (4294967295, str ''x=y'')]"
proof -
  let ?fs = "[(35, str ''D''), (58, []), (4294967295, str ''x=y'')]"
  have "list_all fix_field_ok ?fs"
    by (simp add: fix_field_ok_def SOH_def str_def)
  moreover have "concat (map render_field ?fs)
      = str ''35=D'' @ [1] @ str ''58='' @ [1] @ str ''4294967295=x=y'' @ [1]"
    by (simp add: render_field_def EQ_def SOH_def decimal.simps str_def)
  ultimately show ?thesis using fix_fields_roundtrip [of ?fs] by simp
qed

section \<open>The checksum\<close>

lemma char_val_mod: "char_val sc c mod 256 = uint c mod 256"
  by (simp add: char_val_def)

lemma checksum_sum: "aug_checksum sc s = sum_list (map unat s) mod 256"
proof -
  have "foldl (\<lambda>sum c. (sum + char_val sc c) mod 2 ^ 64) a s mod 256 = (a + int (sum_list (map unat s))) mod 256" for a
  proof (induction s arbitrary: a)
    case (Cons c s)
    have m: "(x mod 2 ^ 64 + y) mod 256 = (x + y) mod 256" for x y :: int
    proof -
      have "x mod 2 ^ 64 mod 256 = x mod 256" by (rule mod_mod_cancel) simp
      then show ?thesis by (metis mod_add_left_eq)
    qed
    have "(x + char_val sc c + y) mod 256 = (x + uint c + y) mod 256" for x y
      using char_val_mod [of sc c] by (metis mod_add_cong)
    then show ?case
      using Cons m by (simp add: add.assoc)
  qed simp
  from this [of 0] show ?thesis by (simp add: aug_checksum_def nat_mod_as_int)
qed

definition sum3 :: "nat \<Rightarrow> byte list" where
  "sum3 n = [of_nat (48 + n div 100), of_nat (48 + n div 10 mod 10), of_nat (48 + n mod 10)]"

definition fix_prefix :: "byte list \<Rightarrow> byte list \<Rightarrow> byte list \<Rightarrow> byte list" where
  "fix_prefix ver ds body = BEGINSTRING_PREFIX @ ver @ [SOH] @ BODYLENGTH_PREFIX @ ds @ [SOH] @ body"

definition fix_text :: "byte list \<Rightarrow> byte list \<Rightarrow> byte list \<Rightarrow> byte list \<Rightarrow> byte list" where
  "fix_text ver ds body chk = fix_prefix ver ds body @ CHECKSUM_PREFIX @ chk @ [SOH]"

lemma prefix_lengths [simp]:
  "length BEGINSTRING_PREFIX = 2" "length BODYLENGTH_PREFIX = 2" "length CHECKSUM_PREFIX = 3"
  by (simp_all add: fix_consts str_def)

lemma length_fix_prefix: "length ver = 7 \<Longrightarrow> length (fix_prefix ver ds body) = 13 + length ds + length body"
  by (simp add: fix_prefix_def)

lemma getsum_text:
  assumes "chk = [c1, c2, c3]"
  shows "fix_getsum (pre @ CHECKSUM_PREFIX @ chk @ [SOH] @ r) (length pre + 7)
    = (if list_all isdigit chk then Inr (unat (c1 - 48) * 100 + unat (c2 - 48) * 10 + unat (c3 - 48))
       else Inl (ExError EPARSE))"
  using assms by (auto simp: fix_getsum_def nth_append CHECKSUM_PREFIX_def str_def Let_def)

text \<open>
  A text of the form of a FIX message, in memory that may go on behind it, is accepted
  exactly when the three characters of its checksum field are digits and their number is the sum
  of all bytes before that field modulo 256, whether \<^verbatim>\<open>char\<close> is signed or not; otherwise it is
  refused as \<^verbatim>\<open>AUG_EPARSE\<close>.  Either way version, body and body size are those of the text.
\<close>
lemma checkfix_sum:
  assumes "length ver = 7" "SOH \<notin> set ds" "length ds + length body < 2 ^ 32"
  shows "aug_checkfix sc std (fix_text ver ds body [c1, c2, c3] @ r) (length (fix_text ver ds body [c1, c2, c3]))
    = (if isdigit c1 \<and> isdigit c2 \<and> isdigit c3
          \<and> unat (c1 - 48) * 100 + unat (c2 - 48) * 10 + unat (c3 - 48)
              = sum_list (map unat (fix_prefix ver ds body)) mod 256
       then Inr () else Inl (ExError EPARSE),
       \<lparr>fs_ver = ver @ [0], fs_body = 13 + length ds, fs_size = length body\<rparr>)"
proof -
  let ?t = "fix_text ver ds body [c1, c2, c3]" and ?p = "fix_prefix ver ds body"
  have len: "length ?t = length ?p + 7" "length ?p = 13 + length ds + length body"
    using assms(1) by (simp_all add: fix_text_def fix_prefix_def)
  have head: "same_at (?t @ r) 0 BEGINSTRING_PREFIX 2 = Some True"
    "slice 2 AUG_FIXVERLEN (?t @ r) = ver" "(?t @ r) ! (2 + AUG_FIXVERLEN) = SOH"
    "same_at (?t @ r) (2 + AUG_FIXVERLEN + 1) BODYLENGTH_PREFIX 2 = Some True"
    "drop (2 + AUG_FIXVERLEN + 3) (?t @ r) = ds @ SOH # body @ CHECKSUM_PREFIX @ [c1, c2, c3, SOH] @ r"
    using assms(1)
    by (simp_all add: same_at_def slice_def fix_text_def fix_prefix_def AUG_FIXVERLEN_def nth_append)
  have sc: "scan SOH (length (?t @ r) + 1) (drop (2 + AUG_FIXVERLEN + 3) (?t @ r)) = Some (Some (length ds))"
    unfolding head(5) using assms(2) len by (intro scan_found) auto
  have tail: "same_at (?t @ r) (length ?t - TAIL_SIZE) CHECKSUM_PREFIX CHECKSUM_PREFIX_SIZE = Some True"
    by (simp add: same_at_def slice_def fix_text_def TAIL_SIZE_def CHECKSUM_PREFIX_SIZE_def)
  have sum: "checksum_field sc (?t @ r) (length ?t)
      = (if isdigit c1 \<and> isdigit c2 \<and> isdigit c3
          \<and> unat (c1 - 48) * 100 + unat (c2 - 48) * 10 + unat (c3 - 48) = sum_list (map unat ?p) mod 256
         then Inr () else Inl (ExError EPARSE))"
    using getsum_text [of "[c1, c2, c3]" c1 c2 c3 ?p r]
    by (auto simp: checksum_field_def fix_text_def TAIL_SIZE_def checksum_sum nth_append)
  have size: "nat ((int (length ?t - TAIL_SIZE) - int (13 + length ds)) mod 2 ^ 64) = length body"
    using assms(3) by (simp add: len TAIL_SIZE_def AUG_FIXVERLEN_def)
  have guards: "\<not> length (?t @ r) \<le> 2 + AUG_FIXVERLEN" "\<not> (length ?t < TAIL_SIZE \<or> length (?t @ r) < length ?t)"
    "2 + AUG_FIXVERLEN + 3 + length ds + 1 = 13 + length ds"
    by (simp_all add: len AUG_FIXVERLEN_def TAIL_SIZE_def)
  show ?thesis
    unfolding aug_checkfix_def Let_def head(1-4) sc tail
    by (cases std) (simp only: option.case bool.case if_False simp_thms fixstd.update_convs size sum guards)
qed

lemma checkfix_sum_witness:
  "aug_checkfix True \<lparr>fs_ver = [], fs_body = 0, fs_size = 0\<rparr>
     (fix_text (str ''FIX.4.2'') (str ''5'') (str ''35=D'' @ [1]) (str ''181'')) 26
   = (Inr (), \<lparr>fs_ver = str ''FIX.4.2'' @ [0], fs_body = 14, fs_size = 5\<rparr>)"
proof -
  have "length (str ''FIX.4.2'') = 7" "SOH \<notin> set (str ''5'')" "length (str ''5'') + length (str ''35=D'' @ [1]) < 2 ^ 32"
    by (simp_all add: str_def SOH_def)
  note c = checkfix_sum [OF this, of True "\<lparr>fs_ver = [], fs_body = 0, fs_size = 0\<rparr>" "of_char (CHR ''1'')" "of_char (CHR ''8'')" "of_char (CHR ''1'')" "[]"]
  have "sum_list (map unat (fix_prefix (str ''FIX.4.2'') (str ''5'') (str ''35=D'' @ [1]))) mod 256 = 181"
    by (simp add: fix_prefix_def fix_consts str_def)
  moreover have "length (str ''35=D'' @ [1]) = 5" "13 + length (str ''5'') = 14" "length (str ''FIX.4.2'') = 7"
    by (simp_all add: str_def)
  moreover from this have "length (fix_text (str ''FIX.4.2'') (str ''5'') (str ''35=D'' @ [1]) (str ''181'')) = 26"
    by (simp add: fix_text_def length_fix_prefix) (simp add: str_def)
  moreover have "str ''181'' = [of_char (CHR ''1''), of_char (CHR ''8''), of_char (CHR ''1'')]"
    by (simp add: str_def)
  ultimately show ?thesis
    using c by (simp only: append_Nil2) (simp add: isdigit_def)
qed

text \<open>The \<open>=\<close> behind the tag of the checksum field is not looked at.\<close>

lemma checksum_separator_unchecked:
  "same_at (str ''10~181'' @ r) 0 CHECKSUM_PREFIX CHECKSUM_PREFIX_SIZE = Some True"
  by (simp add: same_at_def slice_def CHECKSUM_PREFIX_SIZE_def CHECKSUM_PREFIX_def str_def)

section \<open>Reading\<close>

definition fix_message :: "byte list \<Rightarrow> byte list \<Rightarrow> byte list \<Rightarrow> byte list" where
  "fix_message ver body chk = fix_text ver (decimal (length body)) body chk"

lemma SOH_not_digit: "\<not> isdigit SOH"
  by (simp add: isdigit_def SOH_def word_le_def)

lemma getsize_message:
  assumes "length ver = 7" "length chk = 3" "length body < 2 ^ 32" "length (fix_message ver body chk) \<le> n"
  shows "fix_getsize (fix_message ver body chk @ r) n = Inr (length (fix_message ver body chk))"
proof -
  let ?d = "decimal (length body)"
  have "drop HEAD_SIZE (fix_message ver body chk @ r) = ?d @ SOH # (body @ CHECKSUM_PREFIX @ chk @ SOH # r)"
    using assms(1) by (simp add: fix_message_def fix_text_def fix_prefix_def HEAD_SIZE_def)
  moreover have len: "length (fix_message ver body chk) = 20 + length ?d + length body"
    using assms(1,2) by (simp add: fix_message_def fix_text_def fix_prefix_def)
  moreover have "fixtoui (?d @ SOH # (body @ CHECKSUM_PREFIX @ chk @ SOH # r)) 0 n SOH = Inr (length ?d, length body)"
    using assms(3,4) len decimal_u32 [of "length body"]
    by (subst fixtoui_numeral) (simp_all add: decimal_isdigit SOH_not_digit digits_val_decimal)
  ultimately show ?thesis
    using assms(4) by (simp add: fix_getsize_def HEAD_SIZE_def TAIL_SIZE_def)
qed

text \<open>A body length that has not arrived yet is taken for a body of no bytes.\<close>

lemma getsize_not_found:
  "scan SOH n (drop 12 buf) = Some None \<Longrightarrow> 14 \<le> n \<Longrightarrow> fix_getsize buf n = Inr 20"
  by (simp add: fix_getsize_def fixtoui_def HEAD_SIZE_def TAIL_SIZE_def)

text \<open>One byte arrives in a string of zeros.\<close>

lemma one_byte_decides:
  "fx_mlen (snd (aug_readfix (aug_createfixstream 64 []) (\<lambda>n. Inr [56]) 40 Refused)) = 20"
proof -
  have c: "aug_createxstr 64 [] = \<lparr>x_len = 0, x_size = 64, x_buf = replicate 65 0, x_local = True, x_dangling = False\<rparr>"
    using replicate_Suc [of 64 "0 :: byte"] by (simp add: aug_createxstr_def MINSIZE_def memory_def)
  have "replicate 65 (0 :: byte) = 0 # 0 # replicate 63 0"
    by (simp add: numeral_eq_Suc)
  then have "aug_xstrread (aug_createxstr 64 []) (\<lambda>n. Inr [56]) 40 Refused
      = (Inr 1, \<lparr>x_len = 1, x_size = 64, x_buf = 56 # 0 # replicate 63 0, x_local = True, x_dangling = False\<rparr>)"
    unfolding c by (simp add: aug_xstrread_def x_reserve_def AVAIL_def x_put_def poke_def)
  moreover have "fix_getsize (56 # 0 # replicate 63 0) 40 = Inr 20"
    by (rule getsize_not_found) (subst scan_none, simp_all add: SOH_def)
  ultimately show ?thesis
    by (simp add: aug_readfix_def aug_createfixstream_def aug_xstrlen_def aug_xstr_def poke_def
        fix_loop.simps fix_head_def)
qed

text \<open>A read of at most the stream's size into an empty string: nothing grows.\<close>

lemma read_into_empty:
  assumes x: "x_wf x" "content x = []" and n: "n \<le> x_size x" and src: "src n = Inr m" "length m \<le> n"
  shows "\<exists>x'. aug_xstrread x src n a = (Inr (length m), x') \<and> x_wf x' \<and> content x' = m"
proof -
  have len: "x_len x = 0" using x by (metis length_content list.size(3))
  have "szadd 0 n \<le> n" by (simp add: szadd_def)
  then have r: "x_reserve x (szadd (x_len x) n) a = (Inr (), x)"
    using n len by (simp add: x_reserve_def AVAIL_def)
  obtain x'' where "x_put x m = (Inr (), x'')" "x_wf x''" "content x'' = m"
    using put_ok [of x m] x n len src(2) by auto
  then show ?thesis using r src by (simp add: aug_xstrread_def)
qed

lemma xstr_terminated:
  assumes "x_wf x"
  shows "\<exists>p x' r. aug_xstr x = (Some p, x') \<and> x_wf x' \<and> content x' = content x \<and> x_len x' = x_len x
    \<and> x_buf x' = content x @ 0 # r"
proof -
  have "x_len x < length (x_buf x)" using assms by (auto simp: x_wf_def)
  then show ?thesis
    using assms by (auto simp: aug_xstr_def x_wf_def content_def poke_def)
qed

section \<open>Whole messages\<close>

definition fix_idle :: "fixstream \<Rightarrow> bool" where
  "fix_idle st \<longleftrightarrow> x_wf (fx_xstr st) \<and> content (fx_xstr st) = [] \<and> fx_mlen st = 0"

lemma deliver_last:
  assumes "fx_mlen st = n" "take n (x_buf (fx_xstr st)) = m" "x_wf (fx_xstr st)"
  shows "\<exists>st'. fix_deliver st n = (Inr (), st') \<and> fix_idle st' \<and> fx_out st' = fx_out st @ [m]"
  using assms clear_all [OF assms(3)] by (simp add: fix_deliver_def fix_idle_def Let_def)

text \<open>The loop on a buffer that begins with a message and holds nothing else.\<close>

lemma loop_one:
  assumes "x_wf (fx_xstr st)" "fx_mlen st = 0" "x_buf (fx_xstr st) = m @ r"
    and "\<And>r. fix_getsize (m @ r) n = Inr (length m)" "m \<noteq> []"
  shows "\<exists>st'. fix_loop n st (length m) = (Inr (), st') \<and> fix_idle st' \<and> fx_out st' = fx_out st @ [m]"
proof -
  have "fix_head n st = (Inr (), st\<lparr>fx_mlen := length m\<rparr>)"
    using assms by (simp add: fix_head_def)
  moreover have "\<exists>st'. fix_deliver (st\<lparr>fx_mlen := length m\<rparr>) (length m) = (Inr (), st')
      \<and> fix_idle st' \<and> fx_out st' = fx_out st @ [m]"
    using deliver_last [of "st\<lparr>fx_mlen := length m\<rparr>" "length m" m] assms by simp
  ultimately show ?thesis
    using assms(5) by (auto simp: fix_loop.simps [of n st])
qed

text \<open>The copy of the rest begins where the message began.\<close>

lemma deliver_first:
  assumes "fx_mlen st = length m" "x_buf (fx_xstr st) = m @ t @ r" "x_wf (fx_xstr st)" "t \<noteq> []"
    and "x_len (fx_xstr st) = length m + length t" "length t < 2 ^ 64"
  shows "\<exists>st' r'. fix_deliver st (length m + length t) = (Inr (), st') \<and> x_wf (fx_xstr st') \<and> fx_mlen st' = 0
    \<and> x_buf (fx_xstr st') = take (length t) (m @ t) @ r' \<and> fx_out st' = fx_out st @ [m]"
proof -
  let ?x = "aug_clearxstr (fx_xstr st)" and ?s = "take (length t) (m @ t)"
  have len: "length m + length t \<le> x_size (fx_xstr st)" "x_size ?x = x_size (fx_xstr st)"
      "x_buf ?x = m @ t @ r" "x_len ?x = 0" "length ?s = length t"
    using assms by (auto simp: x_wf_def aug_clearxstr_def aug_clearxstrn_def)
  obtain x1 where x1: "x_put ?x ?s = (Inr (), x1)" "x_wf x1" "content x1 = ?s"
    using put_ok [of ?x ?s] clear_all [OF assms(3)] len by auto
  have "x_reserve ?x (length t) Refused = (Inr (), ?x)"
    using len by (simp add: x_reserve_def AVAIL_def)
  then have cpy: "aug_xstrcpysn (fx_xstr st) ?s Refused = (Inr (), x1)"
    using x1(1) len assms(4,6) by (simp add: aug_xstrcpysn_def aug_xstrcatsn_def)
  obtain p x2 r' where x2: "aug_xstr x1 = (Some p, x2)" "x_wf x2" "x_buf x2 = ?s @ 0 # r'"
    using xstr_terminated [OF x1(2)] x1(3) by auto
  have "take (length t) (x_buf (fx_xstr st)) = ?s"
    by (simp add: assms(2))
  then have "fix_deliver st (length m + length t)
      = (Inr (), st\<lparr>fx_out := fx_out st @ [m], fx_mlen := 0, fx_xstr := x2\<rparr>)"
    using assms(1,2,4) cpy x2(1) by (simp add: fix_deliver_def Let_def)
  with x2 show ?thesis by auto
qed

text \<open>
  C31: A read into an idle stream that returns one whole message hands exactly this message to
  the callback, once, and leaves the stream idle.  The read asks for at most as many bytes as the stream's
  buffer was made for, so that the buffer does not grow (its growth is undefined, see theory \<open>Xstr\<close>);
  the message has a version of 7 characters (as FIX.4.2), a checksum of 3, and a body below 4 GB.
\<close>
theorem fix_read_message:
  fixes ver body chk
  defines "m \<equiv> fix_message ver body chk"
  assumes "length ver = 7" "length chk = 3" "length body < 2 ^ 32"
    and "fix_idle st" "n \<le> x_size (fx_xstr st)" "src n = Inr m" "length m \<le> n"
  shows "\<exists>st'. aug_readfix st src n a = (Inr (length m), st') \<and> fix_idle st' \<and> fx_out st' = fx_out st @ [m]"
proof -
  have g: "fix_getsize (m @ r) n = Inr (length m)" for r
    using getsize_message [OF assms(2-4) assms(8) [unfolded m_def]] by (simp add: m_def)
  have ne: "m \<noteq> []" by (simp add: m_def fix_message_def fix_text_def fix_prefix_def)
  obtain x' where x': "aug_xstrread (fx_xstr st) src n a = (Inr (length m), x')" "x_wf x'" "content x' = m"
    using read_into_empty [where x = "fx_xstr st" and src = src and n = n and a = a and m = m, OF _ _ assms(6,7,8)]
      assms(5) by (auto simp: fix_idle_def)
  obtain p x2 r' where x2: "aug_xstr x' = (Some p, x2)" "x_wf x2" "x_buf x2 = m @ 0 # r'"
    using xstr_terminated [OF x'(2)] x'(3) by auto
  obtain st' where "fix_loop n (st\<lparr>fx_xstr := x2\<rparr>) (length m) = (Inr (), st')" "fix_idle st'" "fx_out st' = fx_out st @ [m]"
    using loop_one [of "st\<lparr>fx_xstr := x2\<rparr>" m "0 # r'" n] x2 g ne assms(5) by (auto simp: fix_idle_def)
  moreover have "x_len x' = length m" using x' by (metis length_content)
  ultimately show ?thesis
    using x' x2 ne by (simp add: aug_readfix_def aug_xstrlen_def)
qed

definition sample_body :: "byte list" where
  "sample_body = str ''35=D'' @ [1]"

lemma sample_message:
  "length (str ''FIX.4.2'') = 7" "length (str ''181'') = 3" "length sample_body < 2 ^ 32"
  "length (fix_message (str ''FIX.4.2'') sample_body (str ''181'')) = 26"
  by (simp_all add: str_def sample_body_def fix_message_def fix_text_def length_fix_prefix decimal.simps)

lemma sample_stream:
  "fix_idle (aug_createfixstream 64 [])" "64 \<le> x_size (fx_xstr (aug_createfixstream 64 []))"
  "fx_out (aug_createfixstream 64 []) = []"
  by (simp_all add: fix_idle_def aug_createfixstream_def create_wf create_size)

lemma fix_read_message_witness:
  "\<exists>st'. aug_readfix (aug_createfixstream 64 [])
       (\<lambda>n. Inr (fix_message (str ''FIX.4.2'') sample_body (str ''181''))) 64 Refused = (Inr 26, st')
    \<and> fx_out st' = [fix_message (str ''FIX.4.2'') sample_body (str ''181'')]"
  using fix_read_message [OF sample_message(1-3) sample_stream(1,2),
      of "\<lambda>n. Inr (fix_message (str ''FIX.4.2'') sample_body (str ''181''))"] sample_message(4)
  by (auto simp: sample_stream(3))

text \<open>
  C40: When one read returns a message and as many bytes again, such as a second message of the
  same length, the callback is given the first message twice and the second never: the rest of
  the buffer is copied to its front from where the first message began.  The read is into an idle stream and
  asks for at most as many bytes as the stream's buffer was made for.
\<close>
theorem fix_second_message_lost:
  fixes ver body chk
  defines "m \<equiv> fix_message ver body chk"
  assumes "length ver = 7" "length chk = 3" "length body < 2 ^ 32"
    and "fix_idle st" "n \<le> x_size (fx_xstr st)" "src n = Inr (m @ t)" "length t = length m" "2 * length m \<le> n"
  shows "\<exists>st'. aug_readfix st src n a = (Inr (2 * length m), st') \<and> fix_idle st' \<and> fx_out st' = fx_out st @ [m, m]"
proof -
  have n: "length m \<le> n" "length m < 2 ^ 64"
    using assms(2-4,9) decimal_length [of "length body" 9]
    by (simp_all add: m_def fix_message_def fix_text_def fix_prefix_def)
  have g: "fix_getsize (m @ r) n = Inr (length m)" for r
    using getsize_message [OF assms(2-4) n(1) [unfolded m_def]] by (simp add: m_def)
  have ne: "m \<noteq> []" by (simp add: m_def fix_message_def fix_text_def fix_prefix_def)
  then have "t \<noteq> []" using assms(8) by auto
  obtain x' where x': "aug_xstrread (fx_xstr st) src n a = (Inr (2 * length m), x')" "x_wf x'" "content x' = m @ t"
    using read_into_empty [where x = "fx_xstr st" and src = src and n = n and a = a and m = "m @ t", OF _ _ assms(6,7)]
      assms(5,8,9) by (auto simp: fix_idle_def mult_2)
  have len: "x_len x' = length m + length t" using x' by (metis length_content length_append)
  obtain p x2 r' where x2: "aug_xstr x' = (Some p, x2)" "x_wf x2" "x_buf x2 = m @ t @ 0 # r'" "x_len x2 = x_len x'"
    using xstr_terminated [OF x'(2)] x'(3) by auto
  let ?st = "st\<lparr>fx_xstr := x2, fx_mlen := length m\<rparr>"
  have head: "fix_head n (st\<lparr>fx_xstr := x2\<rparr>) = (Inr (), ?st)"
    using assms(5) x2(3) g by (simp add: fix_head_def fix_idle_def)
  obtain st1 r1 where st1: "fix_deliver ?st (length m + length t) = (Inr (), st1)" "x_wf (fx_xstr st1)"
      "fx_mlen st1 = 0" "x_buf (fx_xstr st1) = m @ r1" "fx_out st1 = fx_out st @ [m]"
    using deliver_first [of ?st m t "0 # r'"] x2 len ne \<open>t \<noteq> []\<close> assms(8) n by auto
  obtain st' where st': "fix_loop n st1 (length m) = (Inr (), st')" "fix_idle st'" "fx_out st' = fx_out st1 @ [m]"
    using loop_one [OF st1(2,3,4) g ne] by blast
  have "fix_loop n (st\<lparr>fx_xstr := x2\<rparr>) (length m + length t) = (Inr (), st')"
    using head st1(1) st'(1) ne assms(8) by (simp add: fix_loop.simps [of n "st\<lparr>fx_xstr := x2\<rparr>"])
  then show ?thesis
    using x' x2 ne len st' st1(5) assms(8) by (simp add: aug_readfix_def aug_xstrlen_def)
qed

lemma fix_second_message_lost_witness:
  "\<exists>st'. aug_readfix (aug_createfixstream 64 [])
       (\<lambda>n. Inr (fix_message (str ''FIX.4.2'') sample_body (str ''181'') @ replicate 26 7)) 64 Refused = (Inr 52, st')
    \<and> fx_out st' = [fix_message (str ''FIX.4.2'') sample_body (str ''181''),
          fix_message (str ''FIX.4.2'') sample_body (str ''181'')]"
  using fix_second_message_lost [OF sample_message(1-3) sample_stream(1,2),
      of "\<lambda>n. Inr (fix_message (str ''FIX.4.2'') sample_body (str ''181'') @ replicate 26 7)" "replicate 26 7"]
    sample_message(4)
  by (auto simp: sample_stream(3))

end
