(* ===== verification/Net.thy ===== *)
theory Net
  imports Muxer Cstr "HOL-Library.Sublist"
begin

text \<open>
  Descriptors and connections: \<^verbatim>\<open>augnet/tcpconnect.c\<close> and \<^verbatim>\<open>augnet/inet.c\<close> over the system's
  sockets.

  \<open>net\<close> is the part of the system the code acts on: the open descriptors, the flag \<open>nt_bad\<close> that
  is set by any call on a descriptor that is not open, and the system's answers, one for each call:
  \<open>None\<close> for success, or the error.  A new descriptor has whatever number the system picks
  (\<open>nt_pick\<close>) among those that are not open, so that numbers of closed descriptors may be
  used again; there are none from \<open>nt_max\<close> on.  Where a failure is
  followed by the closing of a descriptor, the error reported is the failure's (a failing
  \<^verbatim>\<open>close\<close> would put its own in the thread's error record).
\<close>

section \<open>The system\<close>

record net =
  nt_open :: "md list"
  nt_pick :: "nat \<Rightarrow> md"
  nt_max :: md
  nt_bad :: bool
  nt_answers :: "nat \<Rightarrow> aug_fail option"
  nt_time :: nat

definition answer :: "net \<Rightarrow> aug_fail option \<times> net" where
  "answer n = (nt_answers n (nt_time n), n\<lparr>nt_time := nt_time n + 1\<rparr>)"

definition touch :: "md \<Rightarrow> net \<Rightarrow> net" where
  "touch sd n = (if sd \<in> set (nt_open n) then n else n\<lparr>nt_bad := True\<rparr>)"

text \<open>A call on a descriptor.\<close>

definition sys_call :: "md \<Rightarrow> net \<Rightarrow> aug_fail option \<times> net" where
  "sys_call sd n = answer (touch sd n)"

text \<open>\<^verbatim>\<open>socket\<close> and \<^verbatim>\<open>accept\<close>; 24 is \<^verbatim>\<open>EMFILE\<close>.\<close>

definition sys_open :: "net \<Rightarrow> (aug_fail + md) \<times> net" where
  "sys_open n =
     (case answer n of
        (Some e, n) \<Rightarrow> (Inl e, n)
      | (None, n) \<Rightarrow>
          let sd = nt_pick n (nt_time n) in
          if sd \<in> set (nt_open n) \<or> nt_max n \<le> sd then (Inl (ExPosix 24), n)
          else (Inr sd, n\<lparr>nt_open := sd # nt_open n\<rparr>))"

text \<open>The descriptor is gone whatever \<^verbatim>\<open>close\<close> answers.\<close>

definition aug_sclose :: "md \<Rightarrow> net \<Rightarrow> aug_fail option \<times> net" where
  "aug_sclose sd n =
     (let (r, n) = sys_call sd n in (r, n\<lparr>nt_open := removeAll sd (nt_open n)\<rparr>))"

section \<open>Connecting\<close>

text \<open>\<^verbatim>\<open>EINPROGRESS\<close> is 115, \<^verbatim>\<open>ENOTCONN\<close> is 107; \<^verbatim>\<open>EWOULDBLOCK\<close> is the exception \<open>ExBlock\<close>.\<close>

definition connecting :: "aug_fail \<Rightarrow> bool" where
  "connecting e \<longleftrightarrow> e = ExPosix 115 \<or> e = ExBlock"

definition aug_established :: "md \<Rightarrow> net \<Rightarrow> aug_fail option \<times> net" where
  "aug_established sd n =
     (case sys_call sd n of
        (None, n) \<Rightarrow> (None, n)
      | (Some e, n) \<Rightarrow> if e \<noteq> ExPosix 107 then (Some e, n) else (Some ExNone, n))"

text \<open>An address is a number; \<open>tc_res\<close> are the addresses not yet given up.\<close>

record tcpconn =
  tc_res :: "nat list"
  tc_sd :: "md option"

definition aug_createtcpconnect :: "aug_fail + nat list \<Rightarrow> net \<Rightarrow> (aug_fail + tcpconn) \<times> net" where
  "aug_createtcpconnect addrs n =
     (case addrs of
        Inl e \<Rightarrow> (Inl e, n)
      | Inr res \<Rightarrow>
          (case answer n of
             (Some _, n) \<Rightarrow> (Inl NoMem, n)
           | (None, n) \<Rightarrow> (Inr \<lparr>tc_res = res, tc_sd = None\<rparr>, n)))"

definition aug_destroytcpconnect :: "tcpconn \<Rightarrow> net \<Rightarrow> net" where
  "aug_destroytcpconnect conn n = (case tc_sd conn of None \<Rightarrow> n | Some sd \<Rightarrow> snd (aug_sclose sd n))"

text \<open>The loop over the addresses: the descriptor, its address and whether it is connected.\<close>

fun try_addrs :: "nat list \<Rightarrow> aug_fail \<Rightarrow> net \<Rightarrow> (aug_fail + md \<times> nat \<times> bool) \<times> tcpconn \<times> net" where
  "try_addrs [] err n = (Inl err, \<lparr>tc_res = [], tc_sd = None\<rparr>, n)"
| "try_addrs (a # as) err n =
     (case sys_open n of
        (Inl e, n) \<Rightarrow> try_addrs as e n
      | (Inr sd, n) \<Rightarrow>
          (case sys_call sd n of
             (Some e, n) \<Rightarrow> (Inl e, \<lparr>tc_res = a # as, tc_sd = None\<rparr>, snd (aug_sclose sd n))
           | (None, n) \<Rightarrow>
               (case sys_call sd n of
                  (None, n) \<Rightarrow> (Inr (sd, a, True), \<lparr>tc_res = a # as, tc_sd = None\<rparr>, n)
                | (Some e, n) \<Rightarrow>
                    if connecting e then (Inr (sd, a, False), \<lparr>tc_res = a # as, tc_sd = Some sd\<rparr>, n)
                    else
                      (case aug_sclose sd n of
                         (Some e', n) \<Rightarrow> (Inl e', \<lparr>tc_res = a # as, tc_sd = None\<rparr>, n)
                       | (None, n) \<Rightarrow> try_addrs as e n))))"

definition aug_tryconnect :: "tcpconn \<Rightarrow> net \<Rightarrow> (aug_fail + md \<times> nat \<times> bool) \<times> tcpconn \<times> net" where
  "aug_tryconnect conn n =
     (let conn1 = conn\<lparr>tc_sd := None\<rparr> in
      case tc_res conn of
        [] \<Rightarrow> (Inl (if tc_sd conn = None then ExError EINVAL else Undefined), conn1, n)
      | a # as \<Rightarrow>
          (case tc_sd conn of
             None \<Rightarrow> try_addrs (a # as) ExNone n
           | Some sd \<Rightarrow>
               (case aug_established sd n of
                  (None, n) \<Rightarrow> (Inr (sd, a, True), conn1, n)
                | (Some e, n) \<Rightarrow>
                    if e = ExNone then
                      (if as \<noteq> [] then
                         (case aug_sclose sd n of
                            (Some e', n) \<Rightarrow> (Inl e', conn1\<lparr>tc_res := as\<rparr>, n)
                          | (None, n) \<Rightarrow> try_addrs as ExNone n)
                       else
                         let (so_error, n) = sys_call sd n;
                             (_, n) = aug_sclose sd n
                         in (Inl (case so_error of Some e \<Rightarrow> e | None \<Rightarrow> ExPosix 0), conn1\<lparr>tc_res := []\<rparr>, n))
                    else (Inl e, conn1, snd (aug_sclose sd n)))))"

section \<open>Clients and servers in one step\<close>

text \<open>\<open>setup\<close> is what is done with the socket of an address; the last address is reported.\<close>

fun addr_loop :: "(md \<Rightarrow> net \<Rightarrow> bool \<times> net) \<Rightarrow> nat list \<Rightarrow> net \<Rightarrow> (md \<times> nat) option \<times> net" where
  "addr_loop setup [] n = (None, n)"
| "addr_loop setup (a # as) n =
     (case sys_open n of
        (Inl e, n) \<Rightarrow> addr_loop setup as n
      | (Inr sd, n) \<Rightarrow>
          (case setup sd n of
             (True, n) \<Rightarrow> (Some (sd, a), n)
           | (False, n) \<Rightarrow> addr_loop setup as (snd (aug_sclose sd n))))"

definition call_ok :: "md \<Rightarrow> net \<Rightarrow> bool \<times> net" where
  "call_ok sd n = (let (r, n) = sys_call sd n in (r = None, n))"

definition aug_tcpclient :: "aug_fail + nat list \<Rightarrow> net \<Rightarrow> (md \<times> nat) option \<times> net" where
  "aug_tcpclient addrs n =
     (case addrs of Inl e \<Rightarrow> (None, n) | Inr res \<Rightarrow> addr_loop call_ok res n)"

text \<open>\<^verbatim>\<open>SO_REUSEADDR\<close>, \<^verbatim>\<open>bind\<close> and \<^verbatim>\<open>listen\<close>, each only when the one before succeeded.\<close>

definition bind_listen :: "md \<Rightarrow> net \<Rightarrow> bool \<times> net" where
  "bind_listen sd n =
     (case call_ok sd n of
        (False, n) \<Rightarrow> (False, n)
      | (True, n) \<Rightarrow> (case call_ok sd n of (False, n) \<Rightarrow> (False, n) | (True, n) \<Rightarrow> call_ok sd n))"

definition aug_tcpserver :: "aug_fail + nat list \<Rightarrow> net \<Rightarrow> (md \<times> nat) option \<times> net" where
  "aug_tcpserver addrs n =
     (case addrs of Inl e \<Rightarrow> (None, n) | Inr res \<Rightarrow> addr_loop bind_listen res n)"

definition aug_udpclient :: "bool \<Rightarrow> aug_fail + nat list \<Rightarrow> net \<Rightarrow> (md \<times> nat) option \<times> net" where
  "aug_udpclient connect addrs n =
     (case addrs of
        Inl e \<Rightarrow> (None, n)
      | Inr res \<Rightarrow> addr_loop (if connect then call_ok else (\<lambda>sd n. (True, n))) res n)"

definition aug_udpserver :: "aug_fail + nat list \<Rightarrow> net \<Rightarrow> (md \<times> nat) option \<times> net" where
  "aug_udpserver addrs n =
     (case addrs of Inl e \<Rightarrow> (None, n) | Inr res \<Rightarrow> addr_loop call_ok res n)"

definition aug_setnodelay :: "md \<Rightarrow> net \<Rightarrow> aug_fail option \<times> net" where
  "aug_setnodelay sd n = sys_call sd n"

section \<open>Host and service\<close>

definition AUG_MAXHOSTSERVLEN :: nat where "AUG_MAXHOSTSERVLEN = 128"

record hostserv =
  hs_data :: "byte list"
  hs_host :: nat
  hs_serv :: nat

text \<open>\<^verbatim>\<open>strrchr\<close> on the characters of a C string.\<close>

fun strrchr :: "byte \<Rightarrow> byte list \<Rightarrow> nat option" where
  "strrchr c [] = None"
| "strrchr c (x # xs) =
     (case strrchr c xs of
        Some i \<Rightarrow> Some (Suc i)
      | None \<Rightarrow> if x = c then Some 0 else None)"

definition aug_parsehostserv :: "byte list \<Rightarrow> hostserv \<Rightarrow> (aug_fail + hostserv) option" where
  "aug_parsehostserv src dst = do {
     (_, data) \<leftarrow> aug_strlcpy (hs_data dst) src (AUG_MAXHOSTSERVLEN + 1);
     let s = takeWhile (\<lambda>c. c \<noteq> 0) data;
     case strrchr 58 s of
       None \<Rightarrow> Some (Inl (ExError EPARSE))
     | Some i \<Rightarrow>
         if i = 0 then Some (Inl (ExError EPARSE))
         else if i + 1 = length s then Some (Inl (ExError EPARSE))
         else if s ! 0 = 91 then
           if s ! (i - 1) \<noteq> 93 then Some (Inl (ExError EPARSE))
           else Some (Inr \<lparr>hs_data = data[1 + (i - 2) := 0], hs_host = 1, hs_serv = i + 1\<rparr>)
         else Some (Inr \<lparr>hs_data = data[i := 0], hs_host = 0, hs_serv = i + 1\<rparr>)
   }"

definition string_at :: "byte list \<Rightarrow> nat \<Rightarrow> byte list" where
  "string_at m p = takeWhile (\<lambda>c. c \<noteq> 0) (drop p m)"

section \<open>Who owns a descriptor\<close>

definition net_ok :: "net \<Rightarrow> bool" where
  "net_ok n \<longleftrightarrow> distinct (nt_open n) \<and> (\<forall>d \<in> set (nt_open n). d < nt_max n)"

text \<open>From \<open>n\<close> the calls led to \<open>n'\<close>, where the descriptors \<open>S\<close> are open, and misused none.\<close>

definition net_step :: "net \<Rightarrow> md set \<Rightarrow> net \<Rightarrow> bool" where
  "net_step n S n' \<longleftrightarrow> net_ok n' \<and> set (nt_open n') = S \<and> nt_bad n' = nt_bad n \<and> nt_max n' = nt_max n"

lemma net_step_refl: "net_ok n \<Longrightarrow> net_step n (set (nt_open n)) n"
  by (simp add: net_step_def)

lemma net_step_trans: "net_step n S n' \<Longrightarrow> net_step n' T n'' \<Longrightarrow> net_step n T n''"
  by (simp add: net_step_def)

lemma net_step_set: "net_step n S n' \<Longrightarrow> net_ok n' \<and> set (nt_open n') = S"
  by (simp add: net_step_def)

lemma answer_step: "net_ok n \<Longrightarrow> answer n = (r, n') \<Longrightarrow> net_step n (set (nt_open n)) n'"
  by (auto simp: answer_def net_step_def net_ok_def)

lemma sys_call_step: "net_ok n \<Longrightarrow> sd \<in> set (nt_open n) \<Longrightarrow> sys_call sd n = (r, n') \<Longrightarrow> net_step n (set (nt_open n)) n'"
  by (simp add: sys_call_def touch_def answer_step)

lemma sys_open_step:
  assumes "net_ok n" "sys_open n = (r, n')"
  shows "case r of Inl e \<Rightarrow> net_step n (set (nt_open n)) n'
    | Inr sd \<Rightarrow> sd \<notin> set (nt_open n) \<and> sd < nt_max n \<and> net_step n (insert sd (set (nt_open n))) n'"
proof -
  obtain a m where a: "answer n = (a, m)" by (cases "answer n")
  have m: "nt_open m = nt_open n" "nt_max m = nt_max n" "nt_bad m = nt_bad n"
    using a by (auto simp: answer_def)
  show ?thesis
    using assms a m by (auto simp: sys_open_def net_step_def net_ok_def Let_def split: option.splits if_splits)
qed

lemma sclose_step:
  assumes "net_ok n" "sd \<in> set (nt_open n)" "aug_sclose sd n = (r, n')"
  shows "net_step n (set (nt_open n) - {sd}) n'"
proof -
  obtain a m where a: "sys_call sd n = (a, m)" by (cases "sys_call sd n")
  have "net_step n (set (nt_open n)) m" by (rule sys_call_step [OF assms(1,2) a])
  then show ?thesis
    using assms(3) a by (auto simp: aug_sclose_def net_step_def net_ok_def distinct_removeAll)
qed

lemma sclose_snd: "net_ok n \<Longrightarrow> sd \<in> set (nt_open n) \<Longrightarrow> net_step n (set (nt_open n) - {sd}) (snd (aug_sclose sd n))"
  by (metis sclose_step surjective_pairing)

text \<open>What a connection attempt leaves, when \<open>S\<close> was open besides the attempt's own descriptor.\<close>

definition attempt :: "net \<Rightarrow> md set \<Rightarrow> nat list \<Rightarrow> aug_fail + md \<times> nat \<times> bool \<Rightarrow> tcpconn \<Rightarrow> net \<Rightarrow> bool" where
  "attempt n S res r conn n' \<longleftrightarrow>
     (case r of
        Inl e \<Rightarrow> net_step n S n' \<and> tc_sd conn = None
      | Inr (sd, a, est) \<Rightarrow> sd \<notin> S \<and> sd < nt_max n \<and> net_step n (insert sd S) n' \<and> a \<in> set res
          \<and> tc_sd conn = (if est then None else Some sd) \<and> tc_res conn \<noteq> [])
     \<and> suffix (tc_res conn) res"

lemma attempt_trans:
  "net_step n S m \<Longrightarrow> attempt m S as r conn n' \<Longrightarrow> attempt n S (a # as) r conn n'"
proof -
  assume m: "net_step n S m" "attempt m S as r conn n'"
  moreover have "nt_max m = nt_max n" using m(1) by (simp add: net_step_def)
  moreover have "suffix (tc_res conn) (a # as)" using m(2) by (simp add: attempt_def suffix_ConsI)
  ultimately show ?thesis
    by (auto simp: attempt_def split: sum.splits intro: net_step_trans)
qed

lemma try_addrs_attempt:
  "net_ok n \<Longrightarrow> try_addrs res err n = (r, conn, n') \<Longrightarrow> attempt n (set (nt_open n)) res r conn n'"
proof (induction res err n arbitrary: r conn n' rule: try_addrs.induct)
  case (1 err n)
  then show ?case by (auto simp: attempt_def net_step_refl)
next
  case (2 a as err n)
  let ?S = "set (nt_open n)"
  obtain o1 n1 where o1: "sys_open n = (o1, n1)" by (cases "sys_open n")
  show ?case
  proof (cases o1)
    case (Inl e)
    then have s1: "net_step n ?S n1" using sys_open_step [OF 2(3) o1] by simp
    have "attempt n1 ?S as r conn n'"
      using 2(1) [OF o1 [symmetric] Inl] 2(4) net_step_set [OF s1] o1 Inl by simp
    then show ?thesis by (rule attempt_trans [OF s1])
  next
    case (Inr sd)
    then have sd: "sd \<notin> ?S" "sd < nt_max n" and s1: "net_step n (insert sd ?S) n1"
      using sys_open_step [OF 2(3) o1] by auto
    note ok1 = net_step_set [OF s1]
    obtain r2 n2 where c2: "sys_call sd n1 = (r2, n2)" by (cases "sys_call sd n1")
    have s2: "net_step n (insert sd ?S) n2"
      using sys_call_step [OF _ _ c2] ok1 s1 net_step_trans by fastforce
    note ok2 = net_step_set [OF s2]
    show ?thesis
    proof (cases r2)
      case (Some e)
      then have "r = Inl e" "conn = \<lparr>tc_res = a # as, tc_sd = None\<rparr>" "n' = snd (aug_sclose sd n2)"
        using 2(4) o1 Inr c2 by auto
      moreover have "net_step n ?S (snd (aug_sclose sd n2))"
        using sclose_snd [of n2 sd] ok2 sd s2 net_step_trans by fastforce
      ultimately show ?thesis by (simp add: attempt_def)
    next
      case None
      obtain r3 n3 where c3: "sys_call sd n2 = (r3, n3)" by (cases "sys_call sd n2")
      have s3: "net_step n (insert sd ?S) n3"
        using sys_call_step [OF _ _ c3] ok2 s2 net_step_trans by fastforce
      note ok3 = net_step_set [OF s3]
      show ?thesis
      proof (cases "r3 = None \<or> (\<exists>e. r3 = Some e \<and> connecting e)")
        case True
        then show ?thesis
          using 2(4) o1 Inr c2 None c3 sd s3 by (auto simp: attempt_def)
      next
        case False
        then obtain e where e: "r3 = Some e" "\<not> connecting e" by auto
        obtain r4 n4 where c4: "aug_sclose sd n3 = (r4, n4)" by (cases "aug_sclose sd n3")
        have s4: "net_step n ?S n4"
          using sclose_step [OF _ _ c4] ok3 sd s3 net_step_trans by fastforce
        show ?thesis
        proof (cases r4)
          case (Some e')
          then show ?thesis
            using 2(4) o1 Inr c2 None c3 e c4 s4 by (auto simp: attempt_def)
        next
          case None
          have "attempt n4 ?S as r conn n'"
            using 2(2) [OF o1 [symmetric] Inr c2 [symmetric] \<open>r2 = None\<close> c3 [symmetric] e c4 [symmetric] None]
              2(4) o1 Inr c2 \<open>r2 = None\<close> c3 e c4 None net_step_set [OF s4] by simp
          then show ?thesis by (rule attempt_trans [OF s4])
        qed
      qed
    qed
  qed
qed

text \<open>A connection in use: its pending descriptor is open, and there is an address to connect to.\<close>

definition conn_ok :: "tcpconn \<Rightarrow> net \<Rightarrow> bool" where
  "conn_ok conn n \<longleftrightarrow> (\<forall>sd. tc_sd conn = Some sd \<longrightarrow> sd \<in> set (nt_open n) \<and> tc_res conn \<noteq> [])"

lemma tryconnect_attempt:
  assumes "net_ok n" "conn_ok conn n" "aug_tryconnect conn n = (r, conn', n')"
  shows "attempt n (set (nt_open n) - set_option (tc_sd conn)) (tc_res conn) r conn' n'"
proof -
  let ?S = "set (nt_open n) - set_option (tc_sd conn)"
  show ?thesis
  proof (cases "tc_res conn")
    case Nil
    then have "tc_sd conn = None" using assms(2) by (cases "tc_sd conn") (auto simp: conn_ok_def)
    then show ?thesis
      using Nil assms(1,3) by (auto simp: aug_tryconnect_def attempt_def net_step_refl)
  next
    case (Cons a as)
    show ?thesis
    proof (cases "tc_sd conn")
      case None
      then show ?thesis
        using Cons assms(1,3) try_addrs_attempt [of n "a # as" ExNone r conn' n'] by (simp add: aug_tryconnect_def)
    next
      case (Some sd)
      have sd: "sd \<in> set (nt_open n)" using assms(2) Some by (simp add: conn_ok_def)
      obtain r1 n1 where c1: "sys_call sd n = (r1, n1)" by (cases "sys_call sd n")
      have s1: "net_step n (set (nt_open n)) n1" by (rule sys_call_step [OF assms(1) sd c1])
      note ok1 = net_step_set [OF s1]
      have max: "sd < nt_max n" using assms(1) sd by (force simp: net_ok_def)
      obtain r2 n2 where c2: "aug_sclose sd n1 = (r2, n2)" by (cases "aug_sclose sd n1")
      have s2: "net_step n ?S n2"
        using sclose_step [OF _ _ c2] ok1 sd s1 net_step_trans Some by fastforce
      obtain r3 n3 where c3: "sys_call sd n1 = (r3, n3)" by (cases "sys_call sd n1")
      have s3: "net_step n (set (nt_open n)) n3"
        using sys_call_step [OF _ _ c3] ok1 sd s1 net_step_trans by fastforce
      obtain r4 n4 where c4: "aug_sclose sd n3 = (r4, n4)" by (cases "aug_sclose sd n3")
      have s4: "net_step n ?S n4"
        using sclose_step [OF _ _ c4] net_step_set [OF s3] sd s3 net_step_trans Some by fastforce
      consider "r1 = None" | e where "r1 = Some e" "e \<noteq> ExPosix 107" "e \<noteq> ExNone"
        | e where "r1 = Some e" "e = ExPosix 107 \<or> e = ExNone"
        by (cases r1) auto
      then show ?thesis
      proof cases
        case 1
        then have "insert sd ?S = set (nt_open n)" using sd Some by auto
        with 1 show ?thesis
          using assms(3) Cons Some c1 s1 max by (auto simp: aug_tryconnect_def aug_established_def attempt_def)
      next
        case (2 e)
        then show ?thesis
          using assms(3) Cons Some c1 c2 s2 by (auto simp: aug_tryconnect_def aug_established_def attempt_def)
      next
        case (3 e)
        then have est: "aug_established sd n = (Some ExNone, n1)"
          using c1 by (auto simp: aug_established_def)
        show ?thesis
        proof (cases "as = []")
          case True
          then show ?thesis
            using assms(3) Cons Some est c3 c4 s4
            by (auto simp: aug_tryconnect_def attempt_def Let_def)
        next
          case False
          show ?thesis
          proof (cases r2)
            case (Some e')
            then show ?thesis
              using assms(3) Cons \<open>tc_sd conn = Some sd\<close> est c2 s2 False
              by (auto simp: aug_tryconnect_def attempt_def suffix_ConsI)
          next
            case None
            have "attempt n2 ?S as r conn' n'"
              using try_addrs_attempt [of n2 as ExNone r conn' n'] net_step_set [OF s2]
                assms(3) Cons Some est c2 False None by (simp add: aug_tryconnect_def)
            then show ?thesis unfolding Cons by (rule attempt_trans [OF s2])
          qed
        qed
      qed
    qed
  qed
qed

text \<open>
  C28: A connection attempt hands every descriptor it opens to exactly one owner.  Whatever the
  system answers, afterwards the descriptors open besides those of others are: none when the
  attempt failed; the one returned, which is the caller's when the connection is established
  and the connector's (which remembers it) when it is pending.  No descriptor is closed twice
  or used after it was closed, and the addresses left are a suffix of those before.
\<close>
theorem tryconnect_owner:
  assumes "net_ok n" "conn_ok conn n" "aug_tryconnect conn n = (r, conn', n')"
  shows "attempt n (set (nt_open n) - set_option (tc_sd conn)) (tc_res conn) r conn' n' \<and> conn_ok conn' n'"
proof -
  have "attempt n (set (nt_open n) - set_option (tc_sd conn)) (tc_res conn) r conn' n'"
    by (rule tryconnect_attempt [OF assms])
  moreover from this have "conn_ok conn' n'"
    by (cases r) (auto simp only: attempt_def conn_ok_def net_step_def sum.case prod.case
        insert_iff option.distinct option.inject split: prod.splits if_splits)
  ultimately show ?thesis by simp
qed

definition sample_net :: "(nat \<Rightarrow> aug_fail option) \<Rightarrow> net" where
  "sample_net ans = \<lparr>nt_open = [3], nt_pick = \<lambda>t. if t = 1 then 4 else 5, nt_max = 8, nt_bad = False, nt_answers = ans, nt_time = 0\<rparr>"

text \<open>The first address is refused, the second pending: descriptor 4 was closed, 5 is the connector's.\<close>

lemma tryconnect_owner_witness:
  "\<exists>r conn' n'. aug_tryconnect \<lparr>tc_res = [7, 8], tc_sd = None\<rparr>
      (sample_net (\<lambda>t. if t = 2 then Some (ExPosix 111) else if t = 6 then Some (ExPosix 115) else None)) = (r, conn', n')
    \<and> r = Inr (5, 8, False) \<and> tc_sd conn' = Some 5 \<and> set (nt_open n') = {3, 5} \<and> \<not> nt_bad n'"
proof -
  let ?n = "sample_net (\<lambda>t. if t = 2 then Some (ExPosix 111) else if t = 6 then Some (ExPosix 115) else None)"
  let ?c = "\<lparr>tc_res = [7, 8], tc_sd = None\<rparr>"
  obtain r conn' n' where t: "aug_tryconnect ?c ?n = (r, conn', n')" by (cases "aug_tryconnect ?c ?n") auto
  have "fst (aug_tryconnect ?c ?n) = Inr (5, 8, False)"
    by (simp add: aug_tryconnect_def sample_net_def sys_open_def sys_call_def answer_def touch_def Let_def
        aug_sclose_def connecting_def)
  then have r: "r = Inr (5, 8, False)" using t by simp
  have "net_ok ?n" "conn_ok ?c ?n" by (simp_all add: net_ok_def conn_ok_def sample_net_def)
  from tryconnect_owner [OF this t] have "attempt ?n {3} [7, 8] r conn' n'"
    by (simp add: sample_net_def)
  then show ?thesis using t r by (auto simp: attempt_def net_step_def sample_net_def)
qed

text \<open>The one-step clients and servers leave open exactly what they return.\<close>

lemma call_ok_step:
  "net_ok n \<Longrightarrow> sd \<in> set (nt_open n) \<Longrightarrow> call_ok sd n = (r, n') \<Longrightarrow> net_step n (set (nt_open n)) n'"
  by (auto simp: call_ok_def split: prod.splits intro: sys_call_step)

definition keeps_open :: "(md \<Rightarrow> net \<Rightarrow> bool \<times> net) \<Rightarrow> bool" where
  "keeps_open setup \<longleftrightarrow> (\<forall>sd n r n'. net_ok n \<longrightarrow> sd \<in> set (nt_open n) \<longrightarrow> setup sd n = (r, n') \<longrightarrow>
     net_step n (set (nt_open n)) n')"

lemma setups_keep: "keeps_open call_ok" "keeps_open (\<lambda>sd n. (True, n))" "keeps_open bind_listen"
proof -
  show "keeps_open call_ok" by (auto simp: keeps_open_def call_ok_step)
  show "keeps_open (\<lambda>sd n. (True, n))" by (auto simp: keeps_open_def net_step_refl)
  show "keeps_open bind_listen"
    unfolding keeps_open_def
  proof (intro allI impI)
    fix sd n r n' assume n: "net_ok n" "sd \<in> set (nt_open n)" "bind_listen sd n = (r, n')"
    obtain a n1 where 1: "call_ok sd n = (a, n1)" by (cases "call_ok sd n")
    note s1 = call_ok_step [OF n(1,2) 1]
    obtain b n2 where 2: "call_ok sd n1 = (b, n2)" by (cases "call_ok sd n1")
    have s2: "net_step n (set (nt_open n)) n2"
      using call_ok_step [OF _ _ 2] net_step_set [OF s1] n(2) s1 net_step_trans by fastforce
    obtain c n3 where 3: "call_ok sd n2 = (c, n3)" by (cases "call_ok sd n2")
    have s3: "net_step n (set (nt_open n)) n3"
      using call_ok_step [OF _ _ 3] net_step_set [OF s2] n(2) s2 net_step_trans by fastforce
    show "net_step n (set (nt_open n)) n'"
      using n(3) 1 2 3 s1 s2 s3 by (auto simp: bind_listen_def split: bool.splits)
  qed
qed

lemma addr_loop_owner:
  assumes "keeps_open setup"
  shows "net_ok n \<Longrightarrow> addr_loop setup res n = (r, n') \<Longrightarrow>
    (case r of None \<Rightarrow> net_step n (set (nt_open n)) n'
     | Some (sd, a) \<Rightarrow> sd \<notin> set (nt_open n) \<and> a \<in> set res \<and> net_step n (insert sd (set (nt_open n))) n')"
proof (induction res arbitrary: n r n')
  case Nil
  then show ?case by (auto simp: net_step_refl)
next
  case (Cons a as)
  let ?S = "set (nt_open n)"
  have again: "case r of None \<Rightarrow> net_step n ?S n'
      | Some (sd, b) \<Rightarrow> sd \<notin> ?S \<and> b \<in> set (a # as) \<and> net_step n (insert sd ?S) n'"
    if "net_step n ?S m" "addr_loop setup as m = (r, n')" for m
    using Cons.IH [OF _ that(2)] net_step_set [OF that(1)] that(1)
    by (auto split: option.splits intro: net_step_trans)
  obtain o1 n1 where o1: "sys_open n = (o1, n1)" by (cases "sys_open n")
  show ?case
  proof (cases o1)
    case (Inl e)
    then show ?thesis using again [of n1] sys_open_step [OF Cons.prems(1) o1] Cons.prems(2) o1 by simp
  next
    case (Inr sd)
    then have sd: "sd \<notin> ?S" and s1: "net_step n (insert sd ?S) n1"
      using sys_open_step [OF Cons.prems(1) o1] by auto
    obtain b n2 where 2: "setup sd n1 = (b, n2)" by (cases "setup sd n1")
    have s2: "net_step n (insert sd ?S) n2"
      using assms [unfolded keeps_open_def, rule_format, OF _ _ 2] net_step_set [OF s1] s1 net_step_trans by fastforce
    show ?thesis
    proof (cases b)
      case True
      then show ?thesis using Cons.prems(2) o1 Inr 2 sd s2 by auto
    next
      case False
      have "net_step n ?S (snd (aug_sclose sd n2))"
        using sclose_snd [of n2 sd] net_step_set [OF s2] sd s2 net_step_trans by fastforce
      then show ?thesis using again Cons.prems(2) o1 Inr 2 False by simp
    qed
  qed
qed

section \<open>Reading host and service\<close>

lemma strrchr_last: "c \<notin> set t \<Longrightarrow> strrchr c (s @ c # t) = Some (length s)"
proof -
  assume "c \<notin> set t"
  then have "strrchr c t = None" by (induction t) auto
  then show ?thesis by (induction s) auto
qed

lemma takeWhile_cstring: "cstring s \<Longrightarrow> takeWhile (\<lambda>c. c \<noteq> 0) (s @ 0 # r) = s"
  by (induction s) (auto simp: cstring_def)

lemma cstring_append [simp]: "cstring (a @ b) \<longleftrightarrow> cstring a \<and> cstring b"
  by (auto simp: cstring_def)

lemma cstring_Cons [simp]: "cstring (c # s) \<longleftrightarrow> c \<noteq> 0 \<and> cstring s"
  by (auto simp: cstring_def)

lemma copied_text:
  assumes "length d = AUG_MAXHOSTSERVLEN + 1" "length src \<le> AUG_MAXHOSTSERVLEN"
  shows "\<exists>r. aug_strlcpy d src (AUG_MAXHOSTSERVLEN + 1) = Some (length src, src @ 0 # r)
    \<and> length (src @ 0 # r) = length d"
  using assms strlcpy_fits [of 129 d src] by (auto simp: AUG_MAXHOSTSERVLEN_def poke_def)

text \<open>
  A host and a service written with a colon between them are read back as two C strings,
  the host also from within square brackets, where it may hold colons of its own, as long as
  the text is of at most 128 characters.
\<close>
lemma hostserv_roundtrip:
  assumes "cstring host" "cstring serv" "host \<noteq> []" "serv \<noteq> []" "58 \<notin> set serv"
    and "length (hs_data dst) = AUG_MAXHOSTSERVLEN + 1"
  shows "(length host + length serv < AUG_MAXHOSTSERVLEN \<and> hd host \<noteq> 91 \<longrightarrow>
      (\<exists>hs. aug_parsehostserv (host @ 58 # serv) dst = Some (Inr hs)
        \<and> string_at (hs_data hs) (hs_host hs) = host \<and> string_at (hs_data hs) (hs_serv hs) = serv))
    \<and> (length host + length serv + 2 < AUG_MAXHOSTSERVLEN \<longrightarrow>
      (\<exists>hs. aug_parsehostserv (91 # host @ 93 # 58 # serv) dst = Some (Inr hs)
        \<and> string_at (hs_data hs) (hs_host hs) = host \<and> string_at (hs_data hs) (hs_serv hs) = serv))"
proof (intro conjI impI)
  assume len: "length host + length serv < AUG_MAXHOSTSERVLEN \<and> hd host \<noteq> 91"
  then have hd: "hd host \<noteq> 91" by simp
  from len obtain r where r: "aug_strlcpy (hs_data dst) (host @ 58 # serv) (AUG_MAXHOSTSERVLEN + 1)
      = Some (length (host @ 58 # serv), (host @ 58 # serv) @ 0 # r)"
    using copied_text [OF assms(6), of "host @ 58 # serv"] by auto
  have tw: "takeWhile (\<lambda>c. c \<noteq> 0) ((host @ 58 # serv) @ 0 # r) = host @ 58 # serv"
    using assms(1,2) by (intro takeWhile_cstring) simp
  have "(host @ 58 # serv) ! 0 \<noteq> 91"
    using hd assms(3) by (cases host) auto
  then have "aug_parsehostserv (host @ 58 # serv) dst
      = Some (Inr \<lparr>hs_data = host @ 0 # serv @ 0 # r, hs_host = 0, hs_serv = length host + 1\<rparr>)"
    unfolding aug_parsehostserv_def r
    using assms(3,4,5) tw by (simp add: strrchr_last list_update_append)
  then show "\<exists>hs. aug_parsehostserv (host @ 58 # serv) dst = Some (Inr hs)
      \<and> string_at (hs_data hs) (hs_host hs) = host \<and> string_at (hs_data hs) (hs_serv hs) = serv"
    using assms(1,2) by (simp add: string_at_def takeWhile_cstring)
next
  let ?src = "91 # host @ 93 # 58 # serv"
  assume "length host + length serv + 2 < AUG_MAXHOSTSERVLEN"
  then obtain r where r: "aug_strlcpy (hs_data dst) ?src (AUG_MAXHOSTSERVLEN + 1) = Some (length ?src, ?src @ 0 # r)"
    using copied_text [OF assms(6), of ?src] by auto
  have tw: "takeWhile (\<lambda>c. c \<noteq> 0) (?src @ 0 # r) = ?src"
    using assms(1,2) by (intro takeWhile_cstring) simp
  have colon: "strrchr 58 ?src = Some (length host + 2)"
    using strrchr_last [of 58 serv "91 # host @ [93]"] assms(5) by simp
  have "?src ! (length host + 2 - 1) = 93" by (simp add: nth_append)
  then have "aug_parsehostserv ?src dst
      = Some (Inr \<lparr>hs_data = 91 # host @ 0 # 58 # serv @ 0 # r, hs_host = 1, hs_serv = length host + 3\<rparr>)"
    unfolding aug_parsehostserv_def r
    using assms(3,4) tw colon by (simp add: list_update_append)
  then show "\<exists>hs. aug_parsehostserv ?src dst = Some (Inr hs)
      \<and> string_at (hs_data hs) (hs_host hs) = host \<and> string_at (hs_data hs) (hs_serv hs) = serv"
    using assms(1,2) takeWhile_cstring [of host "58 # serv @ 0 # r"]
    by (simp add: string_at_def takeWhile_cstring eval_nat_numeral)
qed

lemma hostserv_roundtrip_witness:
  "\<exists>hs. aug_parsehostserv (91 # str ''fe80::1'' @ 93 # 58 # str ''http'') \<lparr>hs_data = replicate 129 7, hs_host = 0, hs_serv = 0\<rparr>
       = Some (Inr hs)
    \<and> string_at (hs_data hs) (hs_host hs) = str ''fe80::1'' \<and> string_at (hs_data hs) (hs_serv hs) = str ''http''"
  using hostserv_roundtrip [of "str ''fe80::1''" "str ''http''" "\<lparr>hs_data = replicate 129 7, hs_host = 0, hs_serv = 0\<rparr>"]
  by (simp add: str_def AUG_MAXHOSTSERVLEN_def cstring_def)

end
