(* ===== verification/Chan.thy ===== *)
theory Chan
  imports Sticky Net
begin

text \<open>
  Channels (\<^verbatim>\<open>augnet/chan.c\<close>, built without SSL): clients, servers and plain channels, which own
  the descriptors they work on.  The objects live in \<open>cs_obs\<close>, by address; \<open>Client\<close>, \<open>Server\<close>
  and \<open>Plain\<close> are \<^verbatim>\<open>struct cimpl_\<close>, \<^verbatim>\<open>struct simpl_\<close> and \<^verbatim>\<open>struct pimpl_\<close>.  A descriptor of
  -1 is \<open>None\<close>.  The system is the \<open>net\<close> of \<open>Net\<close>, which also answers the requests for
  memory; the multiplexer's operations are arguments (\<open>mops\<close>), as is the handler, whose
  callbacks may call the operations again (they are functions on the state).

  \<open>None\<close> marks undefined behaviour: an operation on an object that was freed, a failed
  assertion, or an operation that passes the descriptor -1 to the multiplexer or the system.
\<close>

section \<open>State\<close>

record cimpl =
  ci_refs :: nat
  ci_id :: nat
  ci_name :: nat
  ci_sd :: "md option"
  ci_wantwr :: bool
  ci_conn :: tcpconn
  ci_est :: bool
  ci_fwd :: "nat option"

record simpl =
  si_refs :: nat
  si_id :: nat
  si_sd :: "md option"
  si_wantwr :: bool

record pimpl =
  pi_refs :: nat
  pi_id :: nat
  pi_sticky :: sticky

datatype chob = Client cimpl | Server simpl | Plain pimpl

text \<open>\<open>cs_next\<close> is the next address, \<open>cs_ids\<close> the static counter of \<^verbatim>\<open>aug_nextid\<close>.\<close>

record 'm chs =
  cs_net :: net
  cs_mux :: 'm
  cs_obs :: "nat \<Rightarrow> chob option"
  cs_next :: nat
  cs_ids :: nat

record 'm mops =
  mo_set :: "'m set_op"
  mo_events :: "'m get_op"

record 'm chandler =
  hd_estab :: "nat \<Rightarrow> nat \<Rightarrow> 'm chs \<Rightarrow> bool \<times> 'm chs"
  hd_ready :: "nat \<Rightarrow> mask \<Rightarrow> 'm chs \<Rightarrow> bool \<times> 'm chs"
  hd_error :: "nat \<Rightarrow> aug_fail \<Rightarrow> 'm chs \<Rightarrow> 'm chs"

definition put :: "nat \<Rightarrow> chob \<Rightarrow> 'm chs \<Rightarrow> 'm chs" where
  "put a ob s = s\<lparr>cs_obs := (cs_obs s)(a \<mapsto> ob)\<rparr>"

definition on_net :: "(net \<Rightarrow> 'r \<times> net) \<Rightarrow> 'm chs \<Rightarrow> 'r \<times> 'm chs" where
  "on_net f s = (let (r, n) = f (cs_net s) in (r, s\<lparr>cs_net := n\<rparr>))"

definition set_md :: "'m mops \<Rightarrow> md \<Rightarrow> mask \<Rightarrow> 'm chs \<Rightarrow> (aug_fail + unit) \<times> 'm chs" where
  "set_md mo sd k s = (let (r, m) = mo_set mo (cs_mux s) sd k in (r, s\<lparr>cs_mux := m\<rparr>))"

definition close_sd :: "md \<Rightarrow> 'm chs \<Rightarrow> 'm chs" where
  "close_sd sd s = snd (on_net (aug_sclose sd) s)"

definition INT_MAX :: nat where "INT_MAX = 2147483647"

definition aug_nextid :: "'m chs \<Rightarrow> nat \<times> 'm chs" where
  "aug_nextid s =
     (if cs_ids s = INT_MAX then (INT_MAX, s\<lparr>cs_ids := 1\<rparr>) else (cs_ids s, s\<lparr>cs_ids := cs_ids s + 1\<rparr>))"

section \<open>References\<close>

definition ob_refs :: "chob \<Rightarrow> nat" where
  "ob_refs ob = (case ob of Client c \<Rightarrow> ci_refs c | Server c \<Rightarrow> si_refs c | Plain p \<Rightarrow> pi_refs p)"

definition with_refs :: "nat \<Rightarrow> chob \<Rightarrow> chob" where
  "with_refs r ob = (case ob of
      Client c \<Rightarrow> Client (c\<lparr>ci_refs := r\<rparr>)
    | Server c \<Rightarrow> Server (c\<lparr>si_refs := r\<rparr>)
    | Plain p \<Rightarrow> Plain (p\<lparr>pi_refs := r\<rparr>))"

text \<open>\<^verbatim>\<open>cretain_\<close>, \<^verbatim>\<open>sretain_\<close> and \<^verbatim>\<open>pretain_\<close>.\<close>

definition retain :: "nat \<Rightarrow> 'm chs \<Rightarrow> 'm chs option" where
  "retain a s =
     (case cs_obs s a of
        None \<Rightarrow> None
      | Some ob \<Rightarrow> if 0 < ob_refs ob then Some (put a (with_refs (ob_refs ob + 1) ob) s) else None)"

definition free :: "nat \<Rightarrow> 'm chs \<Rightarrow> 'm chs" where
  "free a s = s\<lparr>cs_obs := (cs_obs s)(a := None)\<rparr>"

section \<open>Plain channels\<close>

definition plain_mask :: "bool \<Rightarrow> mask" where
  "plain_mask wantwr = (if wantwr then AUG_MDEVENTALL else AUG_MDEVENTRDEX)"

definition aug_createplain :: "'m mops \<Rightarrow> nat \<Rightarrow> md \<Rightarrow> bool \<Rightarrow> 'm chs \<Rightarrow> (aug_fail + nat) \<times> 'm chs" where
  "aug_createplain mo cid sd wantwr s =
     (case on_net answer s of
        (Some _, s) \<Rightarrow> (Inl NoMem, s)
      | (None, s) \<Rightarrow>
          (case aug_initsticky (mo_set mo) (cs_mux s) sd (plain_mask wantwr) of
             (Inl e, st, m) \<Rightarrow> (Inl e, s\<lparr>cs_mux := m\<rparr>)
           | (Inr _, st, m) \<Rightarrow>
               let a = cs_next s in
               (Inr a, put a (Plain \<lparr>pi_refs = 1, pi_id = cid, pi_sticky = st\<rparr>) (s\<lparr>cs_mux := m, cs_next := a + 1\<rparr>))))"

definition pclose :: "'m mops \<Rightarrow> nat \<Rightarrow> 'm chs \<Rightarrow> (aug_fail option \<times> 'm chs) option" where
  "pclose mo a s =
     (case cs_obs s a of
        Some (Plain p) \<Rightarrow>
          (case sk_md (pi_sticky p) of
             None \<Rightarrow> None
           | Some sd \<Rightarrow>
               let (st, m) = aug_termsticky (mo_set mo) (cs_mux s) (pi_sticky p)
               in Some (on_net (aug_sclose sd) (put a (Plain (p\<lparr>pi_sticky := st\<rparr>)) (s\<lparr>cs_mux := m\<rparr>))))
      | _ \<Rightarrow> None)"

definition prelease :: "'m mops \<Rightarrow> nat \<Rightarrow> 'm chs \<Rightarrow> 'm chs option" where
  "prelease mo a s =
     (case cs_obs s a of
        Some (Plain p) \<Rightarrow>
          if pi_refs p = 0 then None
          else
            let s = put a (Plain (p\<lparr>pi_refs := pi_refs p - 1\<rparr>)) s in
            if pi_refs p \<noteq> 1 then Some s
            else if sk_md (pi_sticky p) = None then Some (free a s)
            else map_option (\<lambda>(r, s). free a s) (pclose mo a s)
      | _ \<Rightarrow> None)"

text \<open>\<^verbatim>\<open>error_\<close>\<close>

definition chan_error :: "'m chandler \<Rightarrow> nat \<Rightarrow> md \<Rightarrow> mask \<Rightarrow> 'm chs \<Rightarrow> bool \<times> 'm chs" where
  "chan_error h a sd events s =
     (if AUG_MDEVENTEX AND events \<noteq> 0 then
        (case on_net (sys_call sd) s of
           (None, s) \<Rightarrow> (False, s)
         | (Some e, s) \<Rightarrow> (True, hd_error h a e s))
      else (False, s))"

text \<open>The channel returned and the value of \<^verbatim>\<open>fork\<close>.\<close>

type_synonym 'm processed = "((nat option \<times> bool) \<times> 'm chs) option"

definition plain_process :: "'m mops \<Rightarrow> 'm chandler \<Rightarrow> nat \<Rightarrow> pimpl \<Rightarrow> 'm chs \<Rightarrow> 'm processed" where
  "plain_process mo h a p s =
     (case sk_md (pi_sticky p) of
        None \<Rightarrow> Some ((None, False), s)
      | Some sd \<Rightarrow>
          (case aug_getsticky (mo_set mo) (mo_events mo) (cs_mux s) (pi_sticky p) of
             (None, st, m) \<Rightarrow> None
           | (Some events, st, m) \<Rightarrow>
               (case chan_error h a sd events (put a (Plain (p\<lparr>pi_sticky := st\<rparr>)) (s\<lparr>cs_mux := m\<rparr>)) of
                  (True, s) \<Rightarrow> Some ((None, False), s)
                | (False, s) \<Rightarrow>
                    (case (if events \<noteq> 0 then hd_ready h a events s else (True, s)) of
                       (False, s) \<Rightarrow> Some ((None, False), s)
                     | (True, s) \<Rightarrow> map_option (Pair (Some a, False)) (retain a s)))))"

definition plain_setwantwr :: "'m mops \<Rightarrow> nat \<Rightarrow> bool \<Rightarrow> 'm chs \<Rightarrow> ((aug_fail + unit) \<times> 'm chs) option" where
  "plain_setwantwr mo a wantwr s =
     (case cs_obs s a of
        Some (Plain p) \<Rightarrow>
          if sk_md (pi_sticky p) = None then None
          else
            let (r, st, m) = aug_setsticky (mo_set mo) (cs_mux s) (pi_sticky p) (plain_mask wantwr)
            in Some (r, put a (Plain (p\<lparr>pi_sticky := st\<rparr>)) (s\<lparr>cs_mux := m\<rparr>))
      | _ \<Rightarrow> None)"

definition plain_isready :: "'m mops \<Rightarrow> nat \<Rightarrow> 'm chs \<Rightarrow> (bool \<times> 'm chs) option" where
  "plain_isready mo a s =
     (case cs_obs s a of
        Some (Plain p) \<Rightarrow>
          if sk_md (pi_sticky p) = None then Some (True, s)
          else
            (case aug_getsticky (mo_set mo) (mo_events mo) (cs_mux s) (pi_sticky p) of
               (None, st, m) \<Rightarrow> None
             | (Some events, st, m) \<Rightarrow>
                 Some (events \<noteq> 0, put a (Plain (p\<lparr>pi_sticky := st\<rparr>)) (s\<lparr>cs_mux := m\<rparr>)))
      | _ \<Rightarrow> None)"

text \<open>
  \<^verbatim>\<open>pstream_read_BI_\<close> and \<^verbatim>\<open>pstream_readv_BI_\<close> with the event \<^verbatim>\<open>AUG_MDEVENTRD\<close>, the writers with
  \<^verbatim>\<open>AUG_MDEVENTWR\<close>: the system's answer, and the sticky event cleared when it would block.
\<close>

definition pstream_io :: "'m mops \<Rightarrow> mask \<Rightarrow> nat \<Rightarrow> 'm chs \<Rightarrow> (aug_fail option \<times> 'm chs) option" where
  "pstream_io mo ev a s =
     (case cs_obs s a of
        Some (Plain p) \<Rightarrow>
          (case sk_md (pi_sticky p) of
             None \<Rightarrow> None
           | Some sd \<Rightarrow>
               (case on_net (sys_call sd) s of
                  (r, s) \<Rightarrow>
                    if r = Some ExBlock then
                      let (_, st, m) = aug_clearsticky (mo_set mo) (cs_mux s) (pi_sticky p) ev
                      in Some (r, put a (Plain (p\<lparr>pi_sticky := st\<rparr>)) (s\<lparr>cs_mux := m\<rparr>))
                    else Some (r, s)))
      | _ \<Rightarrow> None)"

definition pstream_read :: "'m mops \<Rightarrow> nat \<Rightarrow> 'm chs \<Rightarrow> (aug_fail option \<times> 'm chs) option" where
  "pstream_read mo = pstream_io mo AUG_MDEVENTRD"

definition pstream_readv :: "'m mops \<Rightarrow> nat \<Rightarrow> 'm chs \<Rightarrow> (aug_fail option \<times> 'm chs) option" where
  "pstream_readv mo = pstream_io mo AUG_MDEVENTRD"

definition pstream_write :: "'m mops \<Rightarrow> nat \<Rightarrow> 'm chs \<Rightarrow> (aug_fail option \<times> 'm chs) option" where
  "pstream_write mo = pstream_io mo AUG_MDEVENTWR"

definition pstream_writev :: "'m mops \<Rightarrow> nat \<Rightarrow> 'm chs \<Rightarrow> (aug_fail option \<times> 'm chs) option" where
  "pstream_writev mo = pstream_io mo AUG_MDEVENTWR"

definition pstream_shutdown :: "nat \<Rightarrow> 'm chs \<Rightarrow> (aug_fail option \<times> 'm chs) option" where
  "pstream_shutdown a s =
     (case cs_obs s a of
        Some (Plain p) \<Rightarrow>
          (case sk_md (pi_sticky p) of None \<Rightarrow> None | Some sd \<Rightarrow> Some (on_net (sys_call sd) s))
      | _ \<Rightarrow> None)"

section \<open>Clients\<close>

text \<open>The first \<open>answer\<close> is that of \<^verbatim>\<open>aug_endpointntop\<close>, which fails on an address it cannot print.\<close>

definition aug_createclient :: "'m mops \<Rightarrow> aug_fail + nat list \<Rightarrow> 'm chs \<Rightarrow> (aug_fail + nat) \<times> 'm chs" where
  "aug_createclient mo addrs s =
     (case on_net (aug_createtcpconnect addrs) s of
        (Inl e, s) \<Rightarrow> (Inl e, s)
      | (Inr conn, s) \<Rightarrow>
          let (r, conn, n) = aug_tryconnect conn (cs_net s);
              s = s\<lparr>cs_net := n\<rparr>;
              destroy = (\<lambda>s. s\<lparr>cs_net := aug_destroytcpconnect conn (cs_net s)\<rparr>)
          in case r of
               Inl e \<Rightarrow> (Inl e, destroy s)
             | Inr (sd, addr, est) \<Rightarrow>
                 (case on_net answer s of
                    (Some e, s) \<Rightarrow> (Inl e, destroy (if est then close_sd sd s else s))
                  | (None, s) \<Rightarrow>
                      (case (if est then (Inr (), s) else set_md mo sd AUG_MDEVENTCONN s) of
                         (Inl e, s) \<Rightarrow> (Inl e, destroy s)
                       | (Inr _, s) \<Rightarrow>
                           (case on_net answer s of
                              (Some _, s) \<Rightarrow>
                                (Inl NoMem, destroy (if est then close_sd sd s else snd (set_md mo sd 0 s)))
                            | (None, s) \<Rightarrow>
                                let (cid, s) = aug_nextid s;
                                    a = cs_next s
                                in (Inr a, put a (Client \<lparr>ci_refs = 1, ci_id = cid, ci_name = addr, ci_sd = Some sd,
                                      ci_wantwr = False, ci_conn = conn, ci_est = est, ci_fwd = None\<rparr>)
                                    (s\<lparr>cs_next := a + 1\<rparr>))))))"

definition cclose :: "'m mops \<Rightarrow> cimpl \<Rightarrow> 'm chs \<Rightarrow> ((aug_fail + unit) \<times> 'm chs) option" where
  "cclose mo c s =
     (case ci_sd c of
        None \<Rightarrow> None
      | Some sd \<Rightarrow>
          let (r, s) = set_md mo sd 0 s in
          if ci_est c then if ci_fwd c \<noteq> None then None else Some (r, close_sd sd s)
          else Some (r, s))"

definition crelease :: "'m mops \<Rightarrow> nat \<Rightarrow> cimpl \<Rightarrow> 'm chs \<Rightarrow> 'm chs option" where
  "crelease mo a c s =
     (if ci_refs c = 0 then None
      else
        let s = put a (Client (c\<lparr>ci_refs := ci_refs c - 1\<rparr>)) s in
        if ci_refs c \<noteq> 1 then Some s
        else
          let s = s\<lparr>cs_net := aug_destroytcpconnect (ci_conn c) (cs_net s)\<rparr> in
          case (if ci_sd c = None then Some s else map_option snd (cclose mo c s)) of
            None \<Rightarrow> None
          | Some s \<Rightarrow>
              map_option (free a) (case ci_fwd c of None \<Rightarrow> Some s | Some f \<Rightarrow> prelease mo f s))"

definition set_fwd :: "nat \<Rightarrow> nat \<Rightarrow> 'm chs \<Rightarrow> 'm chs" where
  "set_fwd a f s = (case cs_obs s a of Some (Client c) \<Rightarrow> put a (Client (c\<lparr>ci_fwd := Some f\<rparr>)) s | _ \<Rightarrow> s)"

definition estabclient :: "'m mops \<Rightarrow> 'm chandler \<Rightarrow> nat \<Rightarrow> cimpl \<Rightarrow> md \<Rightarrow> 'm chs \<Rightarrow> 'm processed" where
  "estabclient mo h a c sd s =
     (let s = put a (Client (c\<lparr>ci_sd := None, ci_est := False\<rparr>)) s in
      case aug_createplain mo (ci_id c) sd (ci_wantwr c) s of
        (Inl e, s) \<Rightarrow> Some ((None, False), close_sd sd (hd_error h a e s))
      | (Inr f, s) \<Rightarrow>
          (case hd_estab h f (ci_id c) (set_fwd a f s) of
             (False, s) \<Rightarrow> Some ((None, False), s)
           | (True, s) \<Rightarrow>
               (case cs_obs s a of
                  Some (Client c) \<Rightarrow>
                    (case ci_fwd c of
                       None \<Rightarrow> None
                     | Some f \<Rightarrow> map_option (Pair (Some f, False)) (retain f s))
                | _ \<Rightarrow> None)))"

definition client_process :: "'m mops \<Rightarrow> 'm chandler \<Rightarrow> nat \<Rightarrow> cimpl \<Rightarrow> 'm chs \<Rightarrow> 'm processed" where
  "client_process mo h a c s =
     (case ci_sd c of
        None \<Rightarrow> Some ((None, False), s)
      | Some sd \<Rightarrow>
          if ci_est c then estabclient mo h a c sd s
          else
            (case mo_events mo (cs_mux s) sd of
               None \<Rightarrow> None
             | Some events \<Rightarrow>
                 (case chan_error h a sd events s of
                    (True, s) \<Rightarrow> Some ((None, False), s)
                  | (False, s) \<Rightarrow>
                      if AUG_MDEVENTCONN AND events = 0 then map_option (Pair (Some a, False)) (retain a s)
                      else
                        (case set_md mo sd 0 s of
                           (Inl e, s) \<Rightarrow> Some ((None, False), hd_error h a e s)
                         | (Inr _, s) \<Rightarrow>
                             let (r, conn, n) = aug_tryconnect (ci_conn c) (cs_net s);
                                 s = s\<lparr>cs_net := n\<rparr>
                             in case r of
                                  Inl e \<Rightarrow>
                                    Some ((None, False),
                                      hd_error h a e (put a (Client (c\<lparr>ci_conn := conn, ci_sd := None\<rparr>)) s))
                                | Inr (sd, addr, est) \<Rightarrow>
                                    let c = c\<lparr>ci_conn := conn, ci_sd := Some sd, ci_est := est, ci_name := addr\<rparr>;
                                        s = put a (Client c) s
                                    in if est then estabclient mo h a c sd s
                                       else map_option (Pair (Some a, False))
                                         (retain a (snd (set_md mo sd AUG_MDEVENTCONN s)))))))"

section \<open>Servers\<close>

definition aug_createserver :: "'m mops \<Rightarrow> md \<Rightarrow> 'm chs \<Rightarrow> (aug_fail + nat) \<times> 'm chs" where
  "aug_createserver mo sd s =
     (case set_md mo sd AUG_MDEVENTRDEX s of
        (Inl e, s) \<Rightarrow> (Inl e, s)
      | (Inr _, s) \<Rightarrow>
          (case on_net answer s of
             (Some _, s) \<Rightarrow> (Inl NoMem, snd (set_md mo sd 0 s))
           | (None, s) \<Rightarrow>
               let (cid, s) = aug_nextid s;
                   a = cs_next s
               in (Inr a, put a (Server \<lparr>si_refs = 1, si_id = cid, si_sd = Some sd, si_wantwr = False\<rparr>)
                     (s\<lparr>cs_next := a + 1\<rparr>))))"

definition sclose :: "'m mops \<Rightarrow> simpl \<Rightarrow> 'm chs \<Rightarrow> (aug_fail option \<times> 'm chs) option" where
  "sclose mo c s =
     (case si_sd c of
        None \<Rightarrow> None
      | Some sd \<Rightarrow> Some (on_net (aug_sclose sd) (snd (set_md mo sd 0 s))))"

definition srelease :: "'m mops \<Rightarrow> nat \<Rightarrow> simpl \<Rightarrow> 'm chs \<Rightarrow> 'm chs option" where
  "srelease mo a c s =
     (if si_refs c = 0 then None
      else
        let s = put a (Server (c\<lparr>si_refs := si_refs c - 1\<rparr>)) s in
        if si_refs c \<noteq> 1 then Some s
        else map_option (free a) (if si_sd c = None then Some s else map_option snd (sclose mo c s)))"

text \<open>\<^verbatim>\<open>aug_acceptagain\<close>\<close>

definition aug_acceptagain :: "aug_fail \<Rightarrow> bool" where
  "aug_acceptagain e \<longleftrightarrow>
     e = ExBlock \<or> e \<in> ExPosix ` {103, 100, 71, 92, 112, 64, 113, 95, 101, 24}"

definition sys_accept :: "md \<Rightarrow> net \<Rightarrow> (aug_fail + md) \<times> net" where
  "sys_accept sd n = sys_open (touch sd n)"

definition server_accepted :: "'m mops \<Rightarrow> 'm chandler \<Rightarrow> nat \<Rightarrow> simpl \<Rightarrow> md \<Rightarrow> 'm chs \<Rightarrow> 'm processed" where
  "server_accepted mo h a c sd s =
     (let done = (\<lambda>s. map_option (Pair (Some a, False)) (retain a s)) in
      case on_net (sys_call sd) s of
        (Some _, s) \<Rightarrow> done (close_sd sd s)
      | (None, s) \<Rightarrow>
          (case on_net (sys_call sd) s of
             (Some _, s) \<Rightarrow> done (close_sd sd s)
           | (None, s) \<Rightarrow>
               let (cid, s) = aug_nextid s in
               case aug_createplain mo cid sd (si_wantwr c) s of
                 (Inl e, s) \<Rightarrow> done (close_sd sd s)
               | (Inr f, s) \<Rightarrow>
                   (case hd_estab h f (si_id c) s of
                      (False, s) \<Rightarrow> Option.bind (prelease mo f s) done
                    | (True, s) \<Rightarrow> Some ((Some f, True), s))))"

definition server_process :: "'m mops \<Rightarrow> 'm chandler \<Rightarrow> nat \<Rightarrow> simpl \<Rightarrow> 'm chs \<Rightarrow> 'm processed" where
  "server_process mo h a c s =
     (case si_sd c of
        None \<Rightarrow> Some ((None, False), s)
      | Some sd \<Rightarrow>
          (case mo_events mo (cs_mux s) sd of
             None \<Rightarrow> None
           | Some events \<Rightarrow>
               (case chan_error h a sd events s of
                  (True, s) \<Rightarrow> Some ((None, False), s)
                | (False, s) \<Rightarrow>
                    if AUG_MDEVENTRD AND events = 0 then map_option (Pair (Some a, False)) (retain a s)
                    else
                      (case on_net (sys_accept sd) s of
                         (Inl e, s) \<Rightarrow>
                           if aug_acceptagain e then map_option (Pair (Some a, False)) (retain a s)
                           else Some ((None, False), hd_error h a e s)
                       | (Inr new, s) \<Rightarrow> server_accepted mo h a c new s))))"

section \<open>The interface of a channel\<close>

definition aug_releasechan :: "'m mops \<Rightarrow> nat \<Rightarrow> 'm chs \<Rightarrow> 'm chs option" where
  "aug_releasechan mo a s =
     (case cs_obs s a of
        None \<Rightarrow> None
      | Some (Client c) \<Rightarrow> crelease mo a c s
      | Some (Server c) \<Rightarrow> srelease mo a c s
      | Some (Plain p) \<Rightarrow> prelease mo a s)"

definition cchan_close :: "'m mops \<Rightarrow> nat \<Rightarrow> cimpl \<Rightarrow> 'm chs \<Rightarrow> 'm chs option" where
  "cchan_close mo a c s =
     (case ci_fwd c of
        Some f \<Rightarrow> map_option snd (pclose mo f s)
      | None \<Rightarrow> map_option (\<lambda>(r, s). put a (Client (c\<lparr>ci_sd := None, ci_est := False\<rparr>)) s) (cclose mo c s))"

definition schan_close :: "'m mops \<Rightarrow> nat \<Rightarrow> simpl \<Rightarrow> 'm chs \<Rightarrow> 'm chs option" where
  "schan_close mo a c s = map_option (\<lambda>(r, s). put a (Server (c\<lparr>si_sd := None\<rparr>)) s) (sclose mo c s)"

text \<open>The results of the three kinds of close are those of different calls; only the state matters.\<close>

definition aug_closechan :: "'m mops \<Rightarrow> nat \<Rightarrow> 'm chs \<Rightarrow> 'm chs option" where
  "aug_closechan mo a s =
     (case cs_obs s a of
        None \<Rightarrow> None
      | Some (Client c) \<Rightarrow> cchan_close mo a c s
      | Some (Server c) \<Rightarrow> schan_close mo a c s
      | Some (Plain p) \<Rightarrow> map_option snd (pclose mo a s))"

definition aug_processchan :: "'m mops \<Rightarrow> 'm chandler \<Rightarrow> nat \<Rightarrow> 'm chs \<Rightarrow> 'm processed" where
  "aug_processchan mo h a s =
     (case cs_obs s a of
        None \<Rightarrow> None
      | Some (Client c) \<Rightarrow>
          (case ci_fwd c of
             Some f \<Rightarrow> (case cs_obs s f of Some (Plain p) \<Rightarrow> plain_process mo h f p s | _ \<Rightarrow> None)
           | None \<Rightarrow> client_process mo h a c s)
      | Some (Server c) \<Rightarrow> server_process mo h a c s
      | Some (Plain p) \<Rightarrow> plain_process mo h a p s)"

definition cchan_setwantwr :: "'m mops \<Rightarrow> nat \<Rightarrow> cimpl \<Rightarrow> bool \<Rightarrow> 'm chs \<Rightarrow> ((aug_fail + unit) \<times> 'm chs) option" where
  "cchan_setwantwr mo a c wantwr s =
     (case ci_fwd c of
        Some f \<Rightarrow> plain_setwantwr mo f wantwr s
      | None \<Rightarrow> Some (Inr (), put a (Client (c\<lparr>ci_wantwr := wantwr\<rparr>)) s))"

definition schan_setwantwr :: "nat \<Rightarrow> simpl \<Rightarrow> bool \<Rightarrow> 'm chs \<Rightarrow> ((aug_fail + unit) \<times> 'm chs) option" where
  "schan_setwantwr a c wantwr s = Some (Inr (), put a (Server (c\<lparr>si_wantwr := wantwr\<rparr>)) s)"

definition aug_setchanwantwr :: "'m mops \<Rightarrow> nat \<Rightarrow> bool \<Rightarrow> 'm chs \<Rightarrow> ((aug_fail + unit) \<times> 'm chs) option" where
  "aug_setchanwantwr mo a wantwr s =
     (case cs_obs s a of
        None \<Rightarrow> None
      | Some (Client c) \<Rightarrow> cchan_setwantwr mo a c wantwr s
      | Some (Server c) \<Rightarrow> schan_setwantwr a c wantwr s
      | Some (Plain p) \<Rightarrow> plain_setwantwr mo a wantwr s)"

definition cchan_isready :: "'m mops \<Rightarrow> cimpl \<Rightarrow> 'm chs \<Rightarrow> (bool \<times> 'm chs) option" where
  "cchan_isready mo c s =
     (case ci_fwd c of
        Some f \<Rightarrow> plain_isready mo f s
      | None \<Rightarrow> Some (ci_sd c = None \<or> ci_est c, s))"

definition schan_isready :: "simpl \<Rightarrow> bool" where
  "schan_isready c \<longleftrightarrow> si_sd c = None"

definition aug_ischanready :: "'m mops \<Rightarrow> nat \<Rightarrow> 'm chs \<Rightarrow> (bool \<times> 'm chs) option" where
  "aug_ischanready mo a s =
     (case cs_obs s a of
        None \<Rightarrow> None
      | Some (Client c) \<Rightarrow> cchan_isready mo c s
      | Some (Server c) \<Rightarrow> Some (schan_isready c, s)
      | Some (Plain p) \<Rightarrow> plain_isready mo a s)"

text \<open>\<^verbatim>\<open>aug_cast\<close> to the interface of an object, a channel, a stream or any other.\<close>

datatype interface = ObjectId | ChanId | StreamId | OtherId

definition own_cast :: "nat \<Rightarrow> interface \<Rightarrow> 'm chs \<Rightarrow> (nat option \<times> 'm chs) option" where
  "own_cast a i s =
     (case cs_obs s a of
        None \<Rightarrow> None
      | Some ob \<Rightarrow>
          if i = ObjectId \<or> i = ChanId \<or> (i = StreamId \<and> (case ob of Plain p \<Rightarrow> True | _ \<Rightarrow> False)) then
            map_option (Pair (Some a)) (retain a s)
          else Some (None, s))"

definition chan_cast :: "nat \<Rightarrow> interface \<Rightarrow> 'm chs \<Rightarrow> (nat option \<times> 'm chs) option" where
  "chan_cast a i s =
     (case cs_obs s a of
        Some (Client c) \<Rightarrow> own_cast (case ci_fwd c of Some f \<Rightarrow> f | None \<Rightarrow> a) i s
      | _ \<Rightarrow> own_cast a i s)"

definition cchan_getid :: "cimpl \<Rightarrow> 'm chs \<Rightarrow> nat option" where
  "cchan_getid c s =
     (case ci_fwd c of
        Some f \<Rightarrow> (case cs_obs s f of Some (Plain p) \<Rightarrow> Some (pi_id p) | _ \<Rightarrow> None)
      | None \<Rightarrow> Some (ci_id c))"

definition aug_getchanid :: "nat \<Rightarrow> 'm chs \<Rightarrow> nat option" where
  "aug_getchanid a s =
     (case cs_obs s a of
        None \<Rightarrow> None
      | Some (Client c) \<Rightarrow> cchan_getid c s
      | Some (Server c) \<Rightarrow> Some (si_id c)
      | Some (Plain p) \<Rightarrow> Some (pi_id p))"

lemmas chan_defs = aug_closechan_def cchan_close_def schan_close_def aug_setchanwantwr_def cchan_setwantwr_def
  schan_setwantwr_def aug_ischanready_def cchan_isready_def schan_isready_def aug_getchanid_def cchan_getid_def

end
