(* ===== verification/ChanInv.thy ===== *)
theory ChanInv
  imports Chan
begin

text \<open>
  Who owns a descriptor and who holds a channel (\<^verbatim>\<open>augnet/chan.c\<close>): the invariant of the
  channels and that every operation of \<open>Chan\<close> keeps it.
\<close>

section \<open>Owners and holders\<close>

definition fwd_of :: "chob \<Rightarrow> nat option" where
  "fwd_of ob = (case ob of Client c \<Rightarrow> ci_fwd c | _ \<Rightarrow> None)"

definition shape :: "chob \<Rightarrow> nat" where
  "shape ob = (case ob of Client c \<Rightarrow> 0 | Server c \<Rightarrow> 1 | Plain p \<Rightarrow> 2)"

text \<open>The descriptors an object closes in the end.\<close>

definition owned :: "chob \<Rightarrow> md set" where
  "owned ob = (case ob of
      Client c \<Rightarrow> (if ci_est c then set_option (ci_sd c) else {}) \<union> set_option (tc_sd (ci_conn c))
    | Server c \<Rightarrow> set_option (si_sd c)
    | Plain p \<Rightarrow> set_option (sk_md (pi_sticky p)))"

definition own_opt :: "chob option \<Rightarrow> md set" where
  "own_opt o1 = (case o1 of None \<Rightarrow> {} | Some ob \<Rightarrow> owned ob)"

text \<open>A client holds one reference to the channel it forwards to; the others are held by users.\<close>

definition fwd_at :: "(nat \<Rightarrow> chob option) \<Rightarrow> nat \<Rightarrow> nat option" where
  "fwd_at obs a = Option.bind (obs a) fwd_of"

definition forwarded :: "'m chs \<Rightarrow> nat \<Rightarrow> bool" where
  "forwarded s f \<longleftrightarrow> (\<exists>a. fwd_at (cs_obs s) a = Some f)"

definition held :: "'m chs \<Rightarrow> nat \<Rightarrow> nat" where
  "held s a = (case cs_obs s a of None \<Rightarrow> 0 | Some ob \<Rightarrow> ob_refs ob - (if forwarded s a then 1 else 0))"

text \<open>The channel has its descriptor: it was not closed.\<close>

definition has_sd :: "'m chs \<Rightarrow> nat \<Rightarrow> bool" where
  "has_sd s a \<longleftrightarrow> (case cs_obs s a of
      None \<Rightarrow> False
    | Some (Client c) \<Rightarrow>
        (case ci_fwd c of
           Some f \<Rightarrow> (case cs_obs s f of Some (Plain p) \<Rightarrow> sk_md (pi_sticky p) \<noteq> None | _ \<Rightarrow> False)
         | None \<Rightarrow> ci_sd c \<noteq> None)
    | Some (Server c) \<Rightarrow> si_sd c \<noteq> None
    | Some (Plain p) \<Rightarrow> sk_md (pi_sticky p) \<noteq> None)"

definition ob_ok :: "('m \<Rightarrow> md \<Rightarrow> mask) \<Rightarrow> ('m \<Rightarrow> md \<Rightarrow> bool) \<Rightarrow> 'm \<Rightarrow> chob \<Rightarrow> bool" where
  "ob_ok mask_at known m ob = (case ob of
      Client c \<Rightarrow>
        (if ci_est c then ci_sd c \<noteq> None \<and> tc_sd (ci_conn c) = None
         else \<forall>d. ci_sd c = Some d \<longrightarrow> tc_sd (ci_conn c) = Some d \<and> known m d)
        \<and> (tc_sd (ci_conn c) \<noteq> None \<longrightarrow> tc_res (ci_conn c) \<noteq> [])
        \<and> (ci_fwd c \<noteq> None \<longrightarrow> ci_sd c = None \<and> \<not> ci_est c \<and> tc_sd (ci_conn c) = None)
    | Server c \<Rightarrow> \<forall>d. si_sd c = Some d \<longrightarrow> known m d
    | Plain p \<Rightarrow> \<forall>d. sk_md (pi_sticky p) = Some d \<longrightarrow> sticky_ok mask_at known m d (pi_sticky p))"

text \<open>The open descriptors \<open>S\<close> are those of the users, \<open>X\<close>, and of the objects, each of one of them.\<close>

definition owns :: "(nat \<Rightarrow> chob option) \<Rightarrow> md set \<Rightarrow> md set \<Rightarrow> bool" where
  "owns obs X S \<longleftrightarrow> S = X \<union> (\<Union>a. own_opt (obs a)) \<and> (\<forall>a. X \<inter> own_opt (obs a) = {})
     \<and> (\<forall>a b. a \<noteq> b \<longrightarrow> own_opt (obs a) \<inter> own_opt (obs b) = {})"

definition fwds_ok :: "(nat \<Rightarrow> chob option) \<Rightarrow> bool" where
  "fwds_ok obs \<longleftrightarrow>
     (\<forall>a f. fwd_at obs a = Some f \<longrightarrow> map_option shape (obs f) = Some 2)
     \<and> (\<forall>a b f. fwd_at obs a = Some f \<longrightarrow> fwd_at obs b = Some f \<longrightarrow> a = b)"

definition chs_ok ::
  "('m \<Rightarrow> md \<Rightarrow> mask) \<Rightarrow> ('m \<Rightarrow> md \<Rightarrow> bool) \<Rightarrow> ('m \<Rightarrow> bool) \<Rightarrow> md \<Rightarrow> md set \<Rightarrow> 'm chs \<Rightarrow> bool" where
  "chs_ok mask_at known good limit X s \<longleftrightarrow>
     good (cs_mux s) \<and> net_ok (cs_net s) \<and> \<not> nt_bad (cs_net s) \<and> nt_max (cs_net s) = limit
     \<and> (\<forall>a ob. cs_obs s a = Some ob \<longrightarrow> a < cs_next s \<and> 0 < ob_refs ob \<and> ob_ok mask_at known (cs_mux s) ob)
     \<and> fwds_ok (cs_obs s) \<and> owns (cs_obs s) X (set (nt_open (cs_net s)))"

text \<open>
  What a user of a channel may rely on while others act: a channel keeps its kind and its
  forward pointer as long as it lives, and its address is not given to another.
\<close>

definition stable :: "'m chs \<Rightarrow> 'm chs \<Rightarrow> bool" where
  "stable s s' \<longleftrightarrow> cs_next s \<le> cs_next s' \<and>
     (\<forall>a ob'. a < cs_next s \<longrightarrow> cs_obs s' a = Some ob' \<longrightarrow>
        (\<exists>ob. cs_obs s a = Some ob \<and> shape ob' = shape ob \<and> (fwd_of ob \<noteq> None \<longrightarrow> fwd_of ob' = fwd_of ob)))"

lemma stable_refl [simp]: "stable s s"
  by (auto simp: stable_def)

lemma stable_trans: "stable s t \<Longrightarrow> stable t u \<Longrightarrow> stable s u"
  unfolding stable_def by (intro conjI allI impI, simp) (metis order_less_le_trans)

lemma stable_same: "cs_obs s' = cs_obs s \<Longrightarrow> cs_next s' = cs_next s \<Longrightarrow> stable s s'"
  by (auto simp: stable_def)

lemma shape_simps [simp]: "shape (Client c) = 0" "shape (Server d) = 1" "shape (Plain p) = 2"
  by (simp_all add: shape_def)

lemma shape_plain: "shape ob = 2 \<longleftrightarrow> (\<exists>p. ob = Plain p)"
  by (cases ob) auto

lemma shape_client: "shape ob = 0 \<longleftrightarrow> (\<exists>c. ob = Client c)"
  by (cases ob) auto

lemma fwd_of_simps [simp]: "fwd_of (Client c) = ci_fwd c" "fwd_of (Server d) = None" "fwd_of (Plain p) = None"
  by (simp_all add: fwd_of_def)

lemma ob_refs_simps [simp]: "ob_refs (Client c) = ci_refs c" "ob_refs (Server d) = si_refs d" "ob_refs (Plain p) = pi_refs p"
  by (simp_all add: ob_refs_def)

lemma own_opt_simps [simp]: "own_opt None = {}" "own_opt (Some ob) = owned ob"
  by (simp_all add: own_opt_def)

lemma owned_simps [simp]:
  "owned (Client c) = (if ci_est c then set_option (ci_sd c) else {}) \<union> set_option (tc_sd (ci_conn c))"
  "owned (Server d) = set_option (si_sd d)" "owned (Plain p) = set_option (sk_md (pi_sticky p))"
  by (simp_all add: owned_def)

lemma with_refs_simps [simp]:
  "ob_refs (with_refs r ob) = r" "fwd_of (with_refs r ob) = fwd_of ob" "shape (with_refs r ob) = shape ob"
  "owned (with_refs r ob) = owned ob" "ob_ok mask_at known m (with_refs r ob) = ob_ok mask_at known m ob"
  by (cases ob; simp add: with_refs_def ob_ok_def)+

lemma put_simps [simp]:
  "cs_obs (put a ob s) = (cs_obs s)(a \<mapsto> ob)" "cs_next (put a ob s) = cs_next s"
  "cs_mux (put a ob s) = cs_mux s" "cs_net (put a ob s) = cs_net s" "cs_ids (put a ob s) = cs_ids s"
  by (simp_all add: put_def)

lemma free_simps [simp]:
  "cs_obs (free a s) = (cs_obs s)(a := None)" "cs_next (free a s) = cs_next s"
  "cs_mux (free a s) = cs_mux s" "cs_net (free a s) = cs_net s"
  by (simp_all add: free_def)

lemma nextid_simps [simp]:
  "cs_obs (snd (aug_nextid s)) = cs_obs s" "cs_next (snd (aug_nextid s)) = cs_next s"
  "cs_mux (snd (aug_nextid s)) = cs_mux s" "cs_net (snd (aug_nextid s)) = cs_net s"
  by (simp_all add: aug_nextid_def)

lemma owns_update:
  assumes "owns obs X S" "(S - X - own_opt (obs a)) \<inter> (X' \<union> own_opt o1) = {}" "X' \<inter> own_opt o1 = {}"
  shows "owns (obs(a := o1)) X' ((S - X - own_opt (obs a)) \<union> X' \<union> own_opt o1)"
proof -
  let ?R = "S - X - own_opt (obs a)"
  have o: "S = X \<union> (\<Union>b. own_opt (obs b))" "\<And>b. X \<inter> own_opt (obs b) = {}"
      "\<And>b c. b \<noteq> c \<Longrightarrow> own_opt (obs b) \<inter> own_opt (obs c) = {}"
    using assms(1) by (auto simp: owns_def)
  have r: "own_opt (obs b) \<subseteq> ?R" if "b \<noteq> a" for b
    using o(1) o(2) [of b] o(3) [of b a] that by blast
  have R: "?R = (\<Union>b \<in> - {a}. own_opt (obs b))"
    using r o(1) by auto
  have all: "(\<Union>b. own_opt ((obs(a := o1)) b)) = own_opt o1 \<union> ?R"
    unfolding R by (auto split: if_splits)
  have "X' \<inter> own_opt ((obs(a := o1)) b) = {}" for b
    using r [of b] assms(2,3) by (cases "b = a") auto
  moreover have "own_opt ((obs(a := o1)) b) \<inter> own_opt ((obs(a := o1)) c) = {}" if "b \<noteq> c" for b c
  proof (cases "b = a \<or> c = a")
    case True
    then show ?thesis using that r [of b] r [of c] assms(2) by auto
  next
    case False
    then show ?thesis using that o(3) [of b c] by simp
  qed
  ultimately show ?thesis
    unfolding owns_def all by blast
qed

lemma fwd_at_upd [simp]: "fwd_at (obs(a := o1)) b = (if b = a then Option.bind o1 fwd_of else fwd_at obs b)"
  by (simp add: fwd_at_def)

lemma fwds_put:
  assumes "fwds_ok obs" "obs a = Some ob" "fwd_of ob' = fwd_of ob" "shape ob' = shape ob"
  shows "fwds_ok (obs(a \<mapsto> ob'))"
proof -
  have "fwd_at (obs(a \<mapsto> ob')) = fwd_at obs"
    using assms(2,3) by (auto simp: fwd_at_def)
  moreover have "map_option shape ((obs(a \<mapsto> ob')) f) = map_option shape (obs f)" for f
    using assms(2,4) by simp
  ultimately show ?thesis
    using assms(1) by (simp only: fwds_ok_def)
qed

lemma fwds_new:
  assumes "fwds_ok obs" "obs a = None" "fwd_of ob = None"
  shows "fwds_ok (obs(a \<mapsto> ob))"
proof -
  have "fwd_at (obs(a \<mapsto> ob)) = fwd_at obs"
    using assms(2,3) by (auto simp: fwd_at_def)
  moreover have "map_option shape (obs f) = Some 2 \<longrightarrow> map_option shape ((obs(a \<mapsto> ob)) f) = Some 2" for f
    using assms(2) by simp
  ultimately show ?thesis
    using assms(1) unfolding fwds_ok_def by metis
qed

lemma fwds_free:
  assumes "fwds_ok obs" "\<And>b. fwd_at obs b \<noteq> Some a"
  shows "fwds_ok (obs(a := None))"
proof -
  have "fwd_at (obs(a := None)) b = Some f \<Longrightarrow> fwd_at obs b = Some f \<and> f \<noteq> a" for b f
    using assms(2) [of b] by (auto split: if_splits)
  then show ?thesis
    using assms(1) unfolding fwds_ok_def by (metis fun_upd_other)
qed

lemma fwds_set:
  assumes "fwds_ok obs" "obs a = Some (Client c)" "obs f = Some (Plain p)" "\<And>b. fwd_at obs b \<noteq> Some f"
  shows "fwds_ok (obs(a \<mapsto> Client (c\<lparr>ci_fwd := Some f\<rparr>)))"
proof -
  let ?obs = "obs(a \<mapsto> Client (c\<lparr>ci_fwd := Some f\<rparr>))"
  have plain: "map_option shape (?obs g) = Some 2" if "map_option shape (obs g) = Some 2" for g
    using that assms(2) by auto
  have at: "g = f \<and> b = a \<or> fwd_at obs b = Some g \<and> b \<noteq> a" if "fwd_at ?obs b = Some g" for b g
    using that by (auto split: if_splits)
  show ?thesis
    unfolding fwds_ok_def
  proof (intro conjI allI impI)
    fix b g assume "fwd_at ?obs b = Some g"
    from at [OF this] have "map_option shape (obs g) = Some 2"
      using assms(1,3) by (auto simp: fwds_ok_def)
    then show "map_option shape (?obs g) = Some 2" by (rule plain)
  next
    fix b d g assume "fwd_at ?obs b = Some g" "fwd_at ?obs d = Some g"
    from at [OF this(1)] at [OF this(2)] show "b = d"
      using assms(1,4) unfolding fwds_ok_def by blast
  qed
qed

lemma fwds_target: "fwds_ok obs \<Longrightarrow> fwd_at obs a = Some f \<Longrightarrow> \<exists>p. obs f = Some (Plain p)"
proof -
  assume "fwds_ok obs" "fwd_at obs a = Some f"
  then have "map_option shape (obs f) = Some 2" by (simp add: fwds_ok_def)
  then show ?thesis using shape_plain by (cases "obs f") auto
qed

lemma held_same: "cs_obs s' = cs_obs s \<Longrightarrow> held s' = held s"
  by (rule ext) (simp add: held_def forwarded_def cong: option.case_cong)

lemma held_None: "cs_obs s a = None \<Longrightarrow> held s a = 0"
  by (simp add: held_def)

lemma held_alive: "0 < held s a \<Longrightarrow> \<exists>ob. cs_obs s a = Some ob"
  by (auto simp: held_def split: option.splits)

lemma stable_client:
  assumes "stable s s'" "cs_obs s a = Some (Client c)" "a < cs_next s" "cs_obs s' a = Some ob"
  shows "\<exists>c'. ob = Client c' \<and> (ci_fwd c \<noteq> None \<longrightarrow> ci_fwd c' = ci_fwd c)"
proof -
  have "shape ob = 0 \<and> (ci_fwd c \<noteq> None \<longrightarrow> fwd_of ob = ci_fwd c)"
    using assms unfolding stable_def by fastforce
  then show ?thesis by (cases ob) auto
qed

section \<open>Channels over a multiplexer\<close>

text \<open>Every descriptor the system can have is valid for the multiplexer.\<close>

locale chan_system =
  muxer set_mask events mask_at polled known good valid waited
  for set_mask :: "'m \<Rightarrow> md \<Rightarrow> mask \<Rightarrow> (aug_fail + unit) \<times> 'm"
    and events :: "'m \<Rightarrow> md \<Rightarrow> mask option"
    and mask_at :: "'m \<Rightarrow> md \<Rightarrow> mask"
    and polled :: "'m \<Rightarrow> md \<Rightarrow> mask"
    and known :: "'m \<Rightarrow> md \<Rightarrow> bool"
    and good :: "'m \<Rightarrow> bool"
    and valid :: "md \<Rightarrow> bool"
    and waited :: "'m \<Rightarrow> 'm \<Rightarrow> bool" +
  fixes limit :: md
  assumes valid_limit: "d < limit \<Longrightarrow> valid d"
begin

abbreviation mo :: "'m mops" where "mo \<equiv> \<lparr>mo_set = set_mask, mo_events = events\<rparr>"

abbreviation inv :: "md set \<Rightarrow> 'm chs \<Rightarrow> bool" where "inv \<equiv> chs_ok mask_at known good limit"

text \<open>What the operations and the callbacks keep when they take no reference away.\<close>

definition goes :: "md set \<Rightarrow> 'm chs \<Rightarrow> 'm chs \<Rightarrow> bool" where
  "goes X s s' \<longleftrightarrow> inv X s' \<and> stable s s' \<and> (\<forall>a. held s a \<le> held s' a)"

lemma goes_refl: "inv X s \<Longrightarrow> goes X s s"
  by (simp add: goes_def)

lemma goes_trans: "goes Y s t \<Longrightarrow> goes X t u \<Longrightarrow> goes X s u"
  by (auto simp: goes_def intro: stable_trans le_trans)

lemma inv_open_valid: "inv X s \<Longrightarrow> d \<in> set (nt_open (cs_net s)) \<Longrightarrow> valid d"
  using valid_limit by (force simp: chs_ok_def net_ok_def)

lemma inv_owned:
  assumes "inv X s" "cs_obs s a = Some ob"
  shows "owned ob \<subseteq> set (nt_open (cs_net s)) - X"
proof -
  have o: "owns (cs_obs s) X (set (nt_open (cs_net s)))"
    using assms(1) by (simp add: chs_ok_def)
  then have "own_opt (cs_obs s a) \<subseteq> set (nt_open (cs_net s))" "X \<inter> own_opt (cs_obs s a) = {}"
    unfolding owns_def by blast+
  then show ?thesis using assms(2) by auto
qed

lemma inv_user: "inv X s \<Longrightarrow> X \<subseteq> set (nt_open (cs_net s))"
  by (auto simp: chs_ok_def owns_def)

lemma inv_ob: "inv X s \<Longrightarrow> cs_obs s a = Some ob \<Longrightarrow> a < cs_next s \<and> 0 < ob_refs ob \<and> ob_ok mask_at known (cs_mux s) ob"
  by (simp add: chs_ok_def)

lemma inv_net: "inv X s \<Longrightarrow> good (cs_mux s) \<and> net_ok (cs_net s) \<and> nt_max (cs_net s) = limit \<and> \<not> nt_bad (cs_net s)"
  by (simp add: chs_ok_def)

text \<open>The descriptors of the objects other than \<open>a\<close>.\<close>

definition others :: "md set \<Rightarrow> 'm chs \<Rightarrow> nat \<Rightarrow> md set" where
  "others X s a = set (nt_open (cs_net s)) - X - own_opt (cs_obs s a)"

lemma others_ob: "inv X s \<Longrightarrow> cs_obs s b = Some ob \<Longrightarrow> b \<noteq> a \<Longrightarrow> owned ob \<subseteq> others X s a"
proof -
  assume a: "inv X s" "cs_obs s b = Some ob" "b \<noteq> a"
  have "owns (cs_obs s) X (set (nt_open (cs_net s)))"
    using a(1) by (simp add: chs_ok_def)
  then have "own_opt (cs_obs s b) \<inter> own_opt (cs_obs s a) = {}"
    using a(3) unfolding owns_def by blast
  then show ?thesis
    using inv_owned [OF a(1,2)] a(2) by (auto simp: others_def)
qed

text \<open>A pending client's descriptor is its connector's, so that its multiplexer entry is its own.\<close>

lemma ob_ok_step:
  assumes "ob_ok mask_at known m ob" "mux_step D m m'" "D \<inter> owned ob = {}"
  shows "ob_ok mask_at known m' ob"
proof (cases ob)
  case (Plain p)
  then show ?thesis
    using assms mux_step_ok [OF assms(2)] by (auto simp: ob_ok_def)
qed (use assms mux_step_known [OF assms(2)] in \<open>auto simp: ob_ok_def split: if_splits\<close>)

lemma inv_update:
  assumes i: "inv X s"
    and s': "cs_obs s' = (cs_obs s)(a := o1)" "cs_next s \<le> cs_next s'" "fwds_ok (cs_obs s')"
    and m: "mux_step D (cs_mux s) (cs_mux s')" "D \<inter> others X s a = {}"
    and n: "net_step (cs_net s) (others X s a \<union> X' \<union> own_opt o1) (cs_net s')"
    and d: "others X s a \<inter> (X' \<union> own_opt o1) = {}" "X' \<inter> own_opt o1 = {}"
    and ob: "\<And>ob. o1 = Some ob \<Longrightarrow> a < cs_next s' \<and> 0 < ob_refs ob \<and> ob_ok mask_at known (cs_mux s') ob"
  shows "inv X' s'"
proof -
  note n' = net_step_set [OF n]
  have "owns (cs_obs s') X' (set (nt_open (cs_net s')))"
    using owns_update [of "cs_obs s" X _ a X' o1] i d n' s'(1) by (simp add: chs_ok_def others_def)
  moreover have "b < cs_next s' \<and> 0 < ob_refs ob \<and> ob_ok mask_at known (cs_mux s') ob"
    if "cs_obs s' b = Some ob" for b ob
  proof (cases "b = a")
    case True
    then show ?thesis using assms(10) that s'(1) by simp
  next
    case False
    then have b: "cs_obs s b = Some ob" using that s'(1) by simp
    have "D \<inter> owned ob = {}" using others_ob [OF i b False] m(2) by blast
    then show ?thesis
      using inv_ob [OF i b] ob_ok_step [OF _ m(1)] s'(2) by auto
  qed
  ultimately show ?thesis
    using i n n' mux_step_good [OF m(1)] s'(3) by (auto simp: chs_ok_def net_step_def)
qed

lemma inv_put:
  assumes i: "inv X s" and a: "cs_obs s a = Some ob"
    and s': "cs_obs s' = (cs_obs s)(a \<mapsto> ob')" "cs_next s' = cs_next s"
    and same: "fwd_of ob' = fwd_of ob" "shape ob' = shape ob" and refs: "0 < ob_refs ob'"
    and ok: "ob_ok mask_at known (cs_mux s') ob'"
    and m: "mux_step D (cs_mux s) (cs_mux s')" "D \<inter> others X s a = {}"
    and n: "net_step (cs_net s) (others X s a \<union> X' \<union> owned ob') (cs_net s')"
    and d: "others X s a \<inter> (X' \<union> owned ob') = {}" "X' \<inter> owned ob' = {}"
  shows "inv X' s' \<and> stable s s'
    \<and> (\<forall>b. held s' b = (if b = a then ob_refs ob' - (if forwarded s a then 1 else 0) else held s b))"
proof (intro conjI)
  have f: "fwds_ok (cs_obs s')"
    using fwds_put [of "cs_obs s" a ob ob'] i a same s'(1) by (simp add: chs_ok_def)
  show "inv X' s'"
    by (rule inv_update [OF i s'(1) _ f m])
       (use inv_ob [OF i a] s'(2) refs ok n d in \<open>auto\<close>)
  show "stable s s'"
    using s' a same by (auto simp: stable_def)
  have "fwd_at (cs_obs s') = fwd_at (cs_obs s)"
    using s'(1) a same(1) by (auto simp: fwd_at_def)
  then have "forwarded s' = forwarded s"
    by (simp add: forwarded_def fun_eq_iff)
  then show "\<forall>b. held s' b = (if b = a then ob_refs ob' - (if forwarded s a then 1 else 0) else held s b)"
    using s'(1) by (simp add: held_def)
qed

lemma others_split: "inv X s \<Longrightarrow> cs_obs s a = Some ob \<Longrightarrow> set (nt_open (cs_net s)) = others X s a \<union> X \<union> owned ob"
  using inv_owned inv_user by (fastforce simp: others_def)

lemma others_apart: "cs_obs s a = Some ob \<Longrightarrow> others X s a \<inter> (X \<union> owned ob) = {}"
  by (auto simp: others_def)

text \<open>An object changed on its own: it owns what it owned.\<close>

lemma inv_local:
  assumes i: "inv X s" and a: "cs_obs s a = Some ob"
    and s': "cs_obs s' = (cs_obs s)(a \<mapsto> ob')" "cs_next s' = cs_next s"
    and same: "fwd_of ob' = fwd_of ob" "shape ob' = shape ob" "ob_refs ob' = ob_refs ob" "owned ob' = owned ob"
    and ok: "ob_ok mask_at known (cs_mux s') ob'"
    and m: "mux_step (owned ob) (cs_mux s) (cs_mux s')"
    and n: "net_step (cs_net s) (set (nt_open (cs_net s))) (cs_net s')"
  shows "goes X s s'"
proof -
  have "inv X s' \<and> stable s s'
    \<and> (\<forall>b. held s' b = (if b = a then ob_refs ob' - (if forwarded s a then 1 else 0) else held s b))"
  proof (rule inv_put [OF i a s' same(1,2) _ ok m])
    show "0 < ob_refs ob'" using inv_ob [OF i a] same(3) by simp
    show "owned ob \<inter> others X s a = {}" using a by (auto simp: others_def)
    show "others X s a \<inter> (X \<union> owned ob') = {}" using others_apart [OF a] same(4) by simp
    show "net_step (cs_net s) (others X s a \<union> X \<union> owned ob') (cs_net s')"
      using n others_split [OF i a] same(4) by simp
    show "X \<inter> owned ob' = {}" using inv_owned [OF i a] same(4) by blast
  qed
  then show ?thesis
    using a same(3) by (auto simp: goes_def held_def)
qed

lemma inv_env:
  assumes i: "inv X s" and s': "cs_obs s' = cs_obs s" "cs_next s' = cs_next s"
    and m: "mux_step X (cs_mux s) (cs_mux s')"
    and n: "net_step (cs_net s) ((set (nt_open (cs_net s)) - X) \<union> X') (cs_net s')"
    and d: "(set (nt_open (cs_net s)) - X) \<inter> X' = {}"
  shows "inv X' s' \<and> stable s s' \<and> held s' = held s"
proof (intro conjI)
  let ?a = "cs_next s"
  have none: "cs_obs s ?a = None"
    using inv_ob [OF i, of ?a] by (cases "cs_obs s ?a") auto
  have same: "cs_obs s' = (cs_obs s)(?a := None)"
    using s'(1) none by (simp add: fun_upd_idem)
  show "inv X' s'"
    by (rule inv_update [OF i same _ _ m]) (use i none s' n d in \<open>auto simp: others_def chs_ok_def\<close>)
  show "stable s s'" using s' by (rule stable_same)
  show "held s' = held s" by (rule held_same [OF s'(1)])
qed

lemma on_netE:
  assumes "on_net f s = (r, s')"
  obtains n where "f (cs_net s) = (r, n)" "s' = s\<lparr>cs_net := n\<rparr>"
  using assms by (auto simp: on_net_def Let_def split: prod.splits)

text \<open>A call that leaves the descriptors as they are.\<close>

lemma goes_net:
  assumes "inv X s" "net_step (cs_net s) (set (nt_open (cs_net s))) n"
  shows "goes X s (s\<lparr>cs_net := n\<rparr>)"
proof -
  have "set (nt_open (cs_net s)) - X \<union> X = set (nt_open (cs_net s))"
    using inv_user [OF assms(1)] by blast
  then show ?thesis
    using inv_env [OF assms(1), of "s\<lparr>cs_net := n\<rparr>" X] assms(2) inv_net [OF assms(1)] mux_step_refl
    by (simp add: goes_def Diff_disjoint inf_commute)
qed

lemma call_goes:
  assumes "inv X s" "sd \<in> set (nt_open (cs_net s))" "on_net (sys_call sd) s = (r, s')"
  shows "goes X s s' \<and> cs_obs s' = cs_obs s \<and> cs_mux s' = cs_mux s \<and> cs_next s' = cs_next s
    \<and> net_step (cs_net s) (set (nt_open (cs_net s))) (cs_net s')"
  by (rule on_netE [OF assms(3)]) (use goes_net [OF assms(1)] sys_call_step [OF _ assms(2)] inv_net [OF assms(1)] in auto)

lemma answer_goes:
  assumes "inv X s" "on_net answer s = (r, s')"
  shows "goes X s s' \<and> cs_obs s' = cs_obs s \<and> cs_mux s' = cs_mux s \<and> cs_next s' = cs_next s
    \<and> net_step (cs_net s) (set (nt_open (cs_net s))) (cs_net s')"
  by (rule on_netE [OF assms(2)]) (use goes_net [OF assms(1)] answer_step inv_net [OF assms(1)] in auto)

text \<open>Closing a descriptor of the users.\<close>

lemma close_user:
  assumes "inv X s" "sd \<in> X"
  shows "inv (X - {sd}) (close_sd sd s) \<and> stable s (close_sd sd s) \<and> held (close_sd sd s) = held s"
proof -
  have sd: "sd \<in> set (nt_open (cs_net s))" using inv_user [OF assms(1)] assms(2) by blast
  have c: "close_sd sd s = s\<lparr>cs_net := snd (aug_sclose sd (cs_net s))\<rparr>"
    by (simp add: close_sd_def on_net_def Let_def split: prod.splits)
  have "set (nt_open (cs_net s)) - X \<union> (X - {sd}) = set (nt_open (cs_net s)) - {sd}"
    using assms(2) inv_user [OF assms(1)] by blast
  then show ?thesis
    using inv_env [OF assms(1), of "close_sd sd s" "X - {sd}"] c sclose_snd [OF _ sd] inv_net [OF assms(1)] mux_step_refl
    by auto
qed

lemma inv_free:
  assumes i: "inv X s" and a: "cs_obs s a = Some ob" "\<not> forwarded s a"
    and s': "cs_obs s' = (cs_obs s)(a := None)" "cs_next s' = cs_next s"
    and m: "mux_step D (cs_mux s) (cs_mux s')" "D \<inter> others X s a = {}"
    and n: "net_step (cs_net s) (others X s a \<union> X) (cs_net s')"
  shows "inv X s' \<and> stable s s'
    \<and> (\<forall>b. held s' b = (if b = a then 0 else held s b + (if fwd_of ob = Some b then 1 else 0)))"
proof (intro conjI)
  have f: "fwds_ok (cs_obs s)" using i by (simp add: chs_ok_def)
  have f': "fwds_ok (cs_obs s')"
    using fwds_free [OF f] a(2) s'(1) by (auto simp: forwarded_def)
  show "inv X s'"
    by (rule inv_update [OF i s'(1) _ f' m]) (use n s'(2) in \<open>auto simp: others_def\<close>)
  show "stable s s'"
    using s' a by (auto simp: stable_def)
  have at: "fwd_at (cs_obs s') b = (if b = a then None else fwd_at (cs_obs s) b)" for b
    using s'(1) by simp
  have "held s' b = held s b + (if fwd_of ob = Some b then 1 else 0)" if "b \<noteq> a" for b
  proof (cases "fwd_of ob = Some b")
    case True
    then have ab: "fwd_at (cs_obs s) a = Some b" using a(1) by (simp add: fwd_at_def)
    then have "forwarded s b" "\<not> forwarded s' b"
      using f at by (auto simp: forwarded_def fwds_ok_def split: if_splits)
    moreover have "map_option shape (cs_obs s b) = Some 2" using f ab by (simp add: fwds_ok_def)
    then obtain ob' where "cs_obs s b = Some ob'" by auto
    moreover from this have "0 < ob_refs ob'" using inv_ob [OF i] by blast
    ultimately show ?thesis using s'(1) that True by (simp add: held_def)
  next
    case False
    then have "fwd_at (cs_obs s) a \<noteq> Some b" using a(1) by (simp add: fwd_at_def)
    then have "forwarded s' b = forwarded s b"
      using at unfolding forwarded_def by (metis option.distinct(1))
    then show ?thesis using s'(1) that False by (simp add: held_def)
  qed
  then show "\<forall>b. held s' b = (if b = a then 0 else held s b + (if fwd_of ob = Some b then 1 else 0))"
    using s'(1) by (auto simp: held_def)
qed

section \<open>References\<close>

lemma same_env:
  assumes "inv X s" "cs_obs s a = Some ob"
  shows "mux_step {} (cs_mux s) (cs_mux s)" "net_step (cs_net s) (others X s a \<union> X \<union> owned ob) (cs_net s)"
    "others X s a \<inter> (X \<union> owned ob) = {}" "X \<inter> owned ob = {}"
proof -
  show "mux_step {} (cs_mux s) (cs_mux s)" using inv_net [OF assms(1)] mux_step_refl by simp
  have "net_step (cs_net s) (set (nt_open (cs_net s))) (cs_net s)" using inv_net [OF assms(1)] net_step_refl by simp
  then show "net_step (cs_net s) (others X s a \<union> X \<union> owned ob) (cs_net s)"
    by (simp only: others_split [OF assms])
  show "others X s a \<inter> (X \<union> owned ob) = {}" by (rule others_apart [OF assms(2)])
  show "X \<inter> owned ob = {}" using inv_owned [OF assms] by blast
qed

lemma inv_refs:
  assumes "inv X s" "cs_obs s a = Some ob" "0 < r"
  shows "inv X (put a (with_refs r ob) s) \<and> stable s (put a (with_refs r ob) s)
    \<and> (\<forall>b. held (put a (with_refs r ob) s) b = (if b = a then r - (if forwarded s a then 1 else 0) else held s b))"
  using inv_put [OF assms(1,2), of "put a (with_refs r ob) s" "with_refs r ob" "{}" X] assms
    same_env [OF assms(1,2)] inv_ob [OF assms(1,2)]
  by simp

lemma retain_ok:
  assumes "inv X s" "cs_obs s a = Some ob"
  shows "\<exists>s'. retain a s = Some s' \<and> inv X s' \<and> stable s s' \<and> held s' = (held s)(a := held s a + 1)"
proof -
  have r: "0 < ob_refs ob" using inv_ob [OF assms] by simp
  have "held (put a (with_refs (ob_refs ob + 1) ob) s) = (held s)(a := held s a + 1)"
  proof
    fix b
    show "held (put a (with_refs (ob_refs ob + 1) ob) s) b = ((held s)(a := held s a + 1)) b"
      using inv_refs [OF assms, of "ob_refs ob + 1"] assms(2) r by (auto simp: held_def)
  qed
  then show ?thesis
    using inv_refs [OF assms, of "ob_refs ob + 1"] assms(2) r by (auto simp: retain_def)
qed

lemma retain_goes: "inv X s \<Longrightarrow> cs_obs s a \<noteq> None \<Longrightarrow> \<exists>s'. retain a s = Some s' \<and> goes X s s' \<and> held s a < held s' a"
  using retain_ok [of X s a] by (auto simp: goes_def)

section \<open>Plain channels\<close>

lemma plain_ok:
  assumes "inv X s" "cs_obs s a = Some (Plain p)" "sk_md (pi_sticky p) = Some sd"
  shows "sticky_ok mask_at known (cs_mux s) sd (pi_sticky p) \<and> valid sd \<and> sd \<in> set (nt_open (cs_net s)) \<and> sd \<notin> X
    \<and> good (cs_mux s)"
proof -
  have "sd \<in> set (nt_open (cs_net s)) - X" using inv_owned [OF assms(1,2)] assms(3) by simp
  then show ?thesis
    using inv_ob [OF assms(1,2)] assms(3) inv_open_valid [OF assms(1)] inv_net [OF assms(1)] by (simp add: ob_ok_def)
qed

lemma closing:
  assumes "inv X s" "cs_obs s a = Some ob" "owned ob = {sd}"
  shows "net_step (cs_net s) (others X s a \<union> X) (snd (aug_sclose sd (cs_net s)))"
proof -
  have sd: "sd \<in> set (nt_open (cs_net s)) - X" using inv_owned [OF assms(1,2)] assms(3) by simp
  then have "set (nt_open (cs_net s)) - {sd} = others X s a \<union> X"
    using assms inv_user [OF assms(1)] by (auto simp: others_def)
  then show ?thesis using sclose_snd [of "cs_net s" sd] sd inv_net [OF assms(1)] by simp
qed

lemma pclose_eq:
  assumes "inv X s" "cs_obs s a = Some (Plain p)" "sk_md (pi_sticky p) = Some sd"
  shows "\<exists>r s'. pclose mo a s = Some (r, s') \<and> cs_next s' = cs_next s
    \<and> cs_obs s' = (cs_obs s)(a \<mapsto> Plain (p\<lparr>pi_sticky := \<lparr>sk_md = None, sk_mask = 0, sk_internal = 0\<rparr>\<rparr>))
    \<and> mux_step {sd} (cs_mux s) (cs_mux s') \<and> net_step (cs_net s) (others X s a \<union> X) (cs_net s')"
proof -
  have "good (cs_mux s)" using inv_net [OF assms(1)] by simp
  from termsticky_one [OF this assms(3)] obtain m' where
    "aug_termsticky set_mask (cs_mux s) (pi_sticky p) = (\<lparr>sk_md = None, sk_mask = 0, sk_internal = 0\<rparr>, m')"
    "mux_step {sd} (cs_mux s) m'" by blast
  then show ?thesis
    using assms(2,3) closing [OF assms(1,2), of sd]
    by (auto simp: pclose_def on_net_def Let_def split: prod.splits)
qed

lemma pclose_ok:
  assumes "inv X s" "cs_obs s a = Some (Plain p)" "sk_md (pi_sticky p) = Some sd"
  shows "\<exists>r s'. pclose mo a s = Some (r, s') \<and> goes X s s' \<and> held s' = held s"
proof -
  obtain r s' where c: "pclose mo a s = Some (r, s')" "cs_next s' = cs_next s"
    "cs_obs s' = (cs_obs s)(a \<mapsto> Plain (p\<lparr>pi_sticky := \<lparr>sk_md = None, sk_mask = 0, sk_internal = 0\<rparr>\<rparr>))"
    "mux_step {sd} (cs_mux s) (cs_mux s')" "net_step (cs_net s) (others X s a \<union> X) (cs_net s')"
    using pclose_eq [OF assms] by blast
  have h: "inv X s' \<and> stable s s'
    \<and> (\<forall>b. held s' b = (if b = a then pi_refs p - (if forwarded s a then 1 else 0) else held s b))"
  proof -
    have "{sd} \<inter> others X s a = {}" "others X s a \<inter> X = {}" using assms(2,3) by (auto simp: others_def)
    then show ?thesis
      using inv_put [OF assms(1,2) c(3,2) _ _ _ _ c(4), of X] c(5) inv_ob [OF assms(1,2)]
      by (simp add: ob_ok_def)
  qed
  moreover have "held s' = held s"
    using h assms(2) by (auto simp: held_def)
  ultimately show ?thesis using c(1) by (auto simp: goes_def)
qed

lemma prelease_ok:
  assumes "inv X s" "cs_obs s a = Some (Plain p)" "0 < held s a"
  shows "\<exists>s'. prelease mo a s = Some s' \<and> inv X s' \<and> stable s s' \<and> held s' = (held s)(a := held s a - 1)"
proof (cases "pi_refs p = 1")
  case False
  let ?s = "put a (Plain (p\<lparr>pi_refs := pi_refs p - 1\<rparr>)) s"
  have h: "1 < pi_refs p" "held s a = pi_refs p - (if forwarded s a then 1 else 0)"
    using assms(2,3) False by (auto simp: held_def split: if_splits)
  have i: "inv X ?s \<and> stable s ?s
      \<and> (\<forall>b. held ?s b = (if b = a then pi_refs p - 1 - (if forwarded s a then 1 else 0) else held s b))"
    using inv_refs [OF assms(1,2), of "pi_refs p - 1"] h(1) by (simp add: with_refs_def)
  then have "held ?s = (held s)(a := held s a - 1)"
    using h(2) by (auto simp: fun_eq_iff)
  then show ?thesis using assms(2) h(1) i by (auto simp: prelease_def)
next
  case True
  have nf: "\<not> forwarded s a" "held s a = 1"
    using assms(2,3) True by (auto simp: held_def split: if_splits)
  let ?s = "put a (Plain (p\<lparr>pi_refs := 0\<rparr>)) s"
  have free: "inv X (free a s') \<and> stable s (free a s') \<and> held (free a s') = (held s)(a := held s a - 1)"
    if "cs_obs s' = (cs_obs s)(a \<mapsto> ob')" "cs_next s' = cs_next s" "mux_step D (cs_mux s) (cs_mux s')"
      "D \<inter> others X s a = {}" "net_step (cs_net s) (others X s a \<union> X) (cs_net s')" for s' ob' D
  proof -
    have "inv X (free a s') \<and> stable s (free a s')
        \<and> (\<forall>b. held (free a s') b = (if b = a then 0 else held s b + (if fwd_of (Plain p) = Some b then 1 else 0)))"
      by (rule inv_free [OF assms(1,2) nf(1) _ _ _ that(4)]) (use that in simp_all)
    then show ?thesis using nf(2) by (auto simp: fun_eq_iff)
  qed
  show ?thesis
  proof (cases "sk_md (pi_sticky p)")
    case None
    then have "prelease mo a s = Some (free a ?s)"
      using assms(2) True by (simp add: prelease_def)
    moreover have "net_step (cs_net s) (others X s a \<union> X) (cs_net ?s)"
      using same_env(2) [OF assms(1,2)] None by simp
    ultimately show ?thesis
      using free [of ?s _ "{}"] same_env(1) [OF assms(1,2)] by auto
  next
    case (Some sd)
    let ?p = "p\<lparr>pi_refs := 0\<rparr>"
    obtain m' where m': "aug_termsticky set_mask (cs_mux s) (pi_sticky p) = (\<lparr>sk_md = None, sk_mask = 0, sk_internal = 0\<rparr>, m')"
      "mux_step {sd} (cs_mux s) m'"
      using termsticky_one [OF _ Some] inv_net [OF assms(1)] by blast
    obtain r n' where n': "aug_sclose sd (cs_net s) = (r, n')" by (cases "aug_sclose sd (cs_net s)")
    have n: "net_step (cs_net s) (others X s a \<union> X) n'"
      using closing [OF assms(1,2)] Some n' by simp
    obtain s' where c: "pclose mo a ?s = Some (r, s')" "cs_obs s' = (cs_obs s)(a \<mapsto> Plain (?p\<lparr>pi_sticky := \<lparr>sk_md = None, sk_mask = 0, sk_internal = 0\<rparr>\<rparr>))"
      "cs_next s' = cs_next s" "cs_mux s' = m'" "cs_net s' = n'"
      using Some m'(1) n' by (simp add: pclose_def on_net_def)
    have "prelease mo a s = Some (free a s')"
      using assms(2) True Some c(1) by (simp add: prelease_def)
    moreover have "{sd} \<inter> others X s a = {}" using assms(2) Some by (auto simp: others_def)
    ultimately show ?thesis
      using free [OF c(2,3), of "{sd}"] c(4,5) m'(2) n by simp
  qed
qed

text \<open>A reference that lasts: the user's own, or that of a client of the user's.\<close>

definition lasting :: "'m chs \<Rightarrow> nat \<Rightarrow> bool" where
  "lasting s a \<longleftrightarrow> 0 < held s a \<or> (\<exists>b c. cs_obs s b = Some (Client c) \<and> ci_fwd c = Some a \<and> 0 < held s b)"

lemma lasting_alive: "inv X s \<Longrightarrow> lasting s a \<Longrightarrow> cs_obs s a \<noteq> None"
proof -
  assume i: "inv X s" and l: "lasting s a"
  have f: "fwds_ok (cs_obs s)" using i by (simp add: chs_ok_def)
  show ?thesis
  proof (cases "0 < held s a")
    case True
    then show ?thesis using held_alive by auto
  next
    case False
    then obtain b c where "cs_obs s b = Some (Client c)" "ci_fwd c = Some a"
      using l by (auto simp: lasting_def)
    then have "fwd_at (cs_obs s) b = Some a" by (simp add: fwd_at_def)
    then show ?thesis using fwds_target [OF f] by fastforce
  qed
qed

lemma lasting_goes:
  assumes "inv X s" "goes Y s s'" "lasting s a"
  shows "lasting s' a"
proof (cases "0 < held s a")
  case True
  then show ?thesis using assms(2) by (auto simp: goes_def lasting_def intro: less_le_trans)
next
  case False
  then obtain b c where b: "cs_obs s b = Some (Client c)" "ci_fwd c = Some a" "0 < held s b"
    using assms(3) by (auto simp: lasting_def)
  then have h: "0 < held s' b" using assms(2) by (auto simp: goes_def intro: less_le_trans)
  then obtain ob where ob: "cs_obs s' b = Some ob" using held_alive by blast
  have "\<exists>c'. ob = Client c' \<and> ci_fwd c' = Some a"
    using stable_client [of s s' b c ob] assms(2) b ob inv_ob [OF assms(1) b(1)] by (auto simp: goes_def)
  then show ?thesis using ob h by (auto simp: lasting_def)
qed

text \<open>What processing a channel does: the channel returned is one more reference of the caller.\<close>

definition processed :: "md set \<Rightarrow> 'm chs \<Rightarrow> nat option \<Rightarrow> 'm chs \<Rightarrow> bool" where
  "processed X s r s' \<longleftrightarrow> goes X s s' \<and> (\<forall>b. r = Some b \<longrightarrow> held s b < held s' b)"

lemma processed_none: "goes X s s' \<Longrightarrow> processed X s None s'"
  by (simp add: processed_def)

lemma processed_trans: "goes Y s t \<Longrightarrow> processed X t r u \<Longrightarrow> processed X s r u"
proof -
  assume a: "goes Y s t" "processed X t r u"
  have "held s b \<le> held t b" for b using a(1) by (simp add: goes_def)
  then show ?thesis
    using a goes_trans [of Y s t X u] unfolding processed_def by (blast intro: order_le_less_trans)
qed

lemma retain_processed:
  assumes "goes X s t" "cs_obs t a \<noteq> None"
  shows "\<exists>u. map_option (Pair (Some a, fork)) (retain a t) = Some ((Some a, fork), u) \<and> processed X s (Some a) u"
proof -
  have "inv X t" using assms(1) by (simp add: goes_def)
  from retain_goes [OF this assms(2)] obtain u where "retain a t = Some u" "goes X t u" "held t a < held u a" by blast
  then show ?thesis using processed_trans [OF assms(1), of X "Some a" u] by (simp add: processed_def)
qed

lemma set_sticky:
  assumes "inv X s" "cs_obs s a = Some (Plain p)" "sk_md (pi_sticky p) = Some sd"
    and "mux_step {sd} (cs_mux s) m'" "sticky_ok mask_at known m' sd st'"
  shows "goes X s (put a (Plain (p\<lparr>pi_sticky := st'\<rparr>)) (s\<lparr>cs_mux := m'\<rparr>))"
  by (rule inv_local [OF assms(1,2)])
     (use assms inv_net [OF assms(1)] net_step_refl in \<open>auto simp: ob_ok_def sticky_ok_def\<close>)

lemma setwantwr_ok:
  assumes "inv X s" "cs_obs s a = Some (Plain p)" "sk_md (pi_sticky p) = Some sd"
  shows "\<exists>s'. plain_setwantwr mo a w s = Some (Inr (), s') \<and> goes X s s'"
proof -
  note p = plain_ok [OF assms]
  have "event_mask (plain_mask w)"
    by (cases w) (simp_all add: plain_mask_def event_mask_def event_defs)
  then obtain st' m' where "aug_setsticky set_mask (cs_mux s) (pi_sticky p) (plain_mask w) = (Inr (), st', m')"
    "mux_step {sd} (cs_mux s) m'" "sticky_ok mask_at known m' sd st'"
    using setsticky_one [of "cs_mux s" sd "plain_mask w" "pi_sticky p"] p by (auto simp: sticky_ok_def)
  then show ?thesis
    using assms(2,3) set_sticky [OF assms] by (simp add: plain_setwantwr_def)
qed

lemma getsticky_ok:
  assumes "inv X s" "cs_obs s a = Some (Plain p)" "sk_md (pi_sticky p) = Some sd"
  shows "\<exists>ev st m. aug_getsticky set_mask events (cs_mux s) (pi_sticky p) = (Some ev, st, m)
    \<and> goes X s (put a (Plain (p\<lparr>pi_sticky := st\<rparr>)) (s\<lparr>cs_mux := m\<rparr>))"
  using getsticky_one [of "cs_mux s" sd "pi_sticky p"] plain_ok [OF assms] set_sticky [OF assms] by blast

lemma isready_ok:
  assumes "inv X s" "cs_obs s a = Some (Plain p)"
  shows "\<exists>r s'. plain_isready mo a s = Some (r, s') \<and> goes X s s'"
  using assms getsticky_ok [OF assms] goes_refl [OF assms(1)]
  by (cases "sk_md (pi_sticky p)") (auto simp: plain_isready_def)

lemma stream_ok:
  assumes "inv X s" "cs_obs s a = Some (Plain p)" "sk_md (pi_sticky p) = Some sd"
  shows "\<exists>r s'. pstream_io mo ev a s = Some (r, s') \<and> goes X s s'"
proof -
  obtain r t where t: "on_net (sys_call sd) s = (r, t)" by (cases "on_net (sys_call sd) s")
  have g: "goes X s t" "cs_obs t = cs_obs s" "inv X t"
    using call_goes [OF assms(1) _ t] plain_ok [OF assms] by (auto simp: goes_def)
  have at: "cs_obs t a = Some (Plain p)" using g(2) assms(2) by simp
  obtain x st m where "aug_clearsticky set_mask (cs_mux t) (pi_sticky p) ev = (x, st, m)"
    "mux_step {sd} (cs_mux t) m" "sticky_ok mask_at known m sd st"
    using clearsticky_one [of "cs_mux t" sd "pi_sticky p" ev] plain_ok [OF g(3) at assms(3)] by blast
  then show ?thesis
    using assms(2,3) t g(1) goes_trans [OF g(1) set_sticky [OF g(3) at assms(3)]] by (auto simp: pstream_io_def)
qed

lemma shutdown_ok:
  assumes "inv X s" "cs_obs s a = Some (Plain p)" "sk_md (pi_sticky p) = Some sd"
  shows "\<exists>r s'. pstream_shutdown a s = Some (r, s') \<and> goes X s s'"
proof -
  obtain r t where t: "on_net (sys_call sd) s = (r, t)" by (cases "on_net (sys_call sd) s")
  then show ?thesis
    using call_goes [OF assms(1) _ t] plain_ok [OF assms] assms(2,3) by (simp add: pstream_shutdown_def)
qed

text \<open>A new channel over a descriptor of the users'.\<close>

lemma inv_new:
  assumes i: "inv X s" and sd: "owned ob \<subseteq> X"
    and s': "cs_obs s' = (cs_obs s)(cs_next s \<mapsto> ob)" "cs_next s' = cs_next s + 1"
    and ob: "fwd_of ob = None" "ob_refs ob = 1" "ob_ok mask_at known (cs_mux s') ob"
    and m: "mux_step X (cs_mux s) (cs_mux s')"
    and n: "net_step (cs_net s) (set (nt_open (cs_net s))) (cs_net s')"
  shows "goes (X - owned ob) s s' \<and> held s (cs_next s) = 0 \<and> held s' (cs_next s) = 1
    \<and> (\<forall>b. b \<noteq> cs_next s \<longrightarrow> held s' b = held s b)"
proof -
  let ?a = "cs_next s"
  have none: "cs_obs s ?a = None"
    using inv_ob [OF i, of ?a] by (cases "cs_obs s ?a") auto
  have f: "fwds_ok (cs_obs s)" using i by (simp add: chs_ok_def)
  have nf: "\<not> forwarded s ?a"
    unfolding forwarded_def using fwds_target [OF f] none by fastforce
  have at: "fwd_at (cs_obs s') = fwd_at (cs_obs s)"
    using s'(1) ob(1) none by (auto simp: fwd_at_def)
  then have fw: "forwarded s' = forwarded s" by (simp add: forwarded_def fun_eq_iff)
  have "inv (X - owned ob) s'"
  proof (rule inv_update [OF i s'(1) _ _ m])
    show "fwds_ok (cs_obs s')" using fwds_new [OF f none ob(1)] s'(1) by simp
    have "others X s ?a \<union> (X - owned ob) \<union> own_opt (Some ob) = set (nt_open (cs_net s))"
      using sd inv_user [OF i] none by (auto simp: others_def)
    then show "net_step (cs_net s) (others X s ?a \<union> (X - owned ob) \<union> own_opt (Some ob)) (cs_net s')"
      using n by simp
  qed (use sd s'(2) ob none in \<open>auto simp: others_def\<close>)
  moreover have "stable s s'" using s' by (auto simp: stable_def)
  moreover have h: "held s ?a = 0" "held s' ?a = 1" "\<And>b. b \<noteq> ?a \<Longrightarrow> held s' b = held s b"
    using none s'(1) ob(2) nf fw by (simp_all add: held_def)
  moreover have "held s b \<le> held s' b" for b using h by (cases "b = ?a") simp_all
  ultimately show ?thesis by (simp add: goes_def)
qed

lemma createplain_ok:
  assumes "inv X s" "sd \<in> X" "aug_createplain mo cid sd w s = (r, s')"
  shows "case r of Inl e \<Rightarrow> goes X s s' \<and> cs_obs s' = cs_obs s
    | Inr f \<Rightarrow> goes (X - {sd}) s s' \<and> held s' f = 1 \<and> f = cs_next s
        \<and> (\<exists>p. cs_obs s' = (cs_obs s)(f \<mapsto> Plain p)) \<and> (\<forall>b. b \<noteq> f \<longrightarrow> held s' b = held s b)"
proof -
  obtain r1 t where t: "on_net answer s = (r1, t)" by (cases "on_net answer s")
  note g = answer_goes [OF assms(1) t]
  show ?thesis
  proof (cases r1)
    case (Some e)
    then show ?thesis using assms(3) t g by (auto simp: aug_createplain_def)
  next
    case None
    have it: "inv X t" using g by (simp add: goes_def)
    have v: "valid sd" "good (cs_mux t)"
      using inv_open_valid [OF it] inv_user [OF it] assms(2) inv_net [OF it] by auto
    have "event_mask (plain_mask w)"
      by (cases w) (simp_all add: plain_mask_def event_mask_def event_defs)
    then obtain st m where m: "aug_initsticky set_mask (cs_mux t) sd (plain_mask w) = (Inr (), st, m)"
      "mux_step {sd} (cs_mux t) m" "sticky_ok mask_at known m sd st"
      using initsticky_one [of "cs_mux t" sd "plain_mask w"] v by blast
    let ?p = "Plain \<lparr>pi_refs = 1, pi_id = cid, pi_sticky = st\<rparr>"
    have r: "r = Inr (cs_next t)" "s' = put (cs_next t) ?p (t\<lparr>cs_mux := m, cs_next := cs_next t + 1\<rparr>)"
      using assms(3) t None m(1) by (auto simp: aug_createplain_def Let_def)
    have own: "owned ?p = {sd}" using m(3) by (simp add: sticky_ok_def)
    have "goes (X - owned ?p) t s' \<and> held t (cs_next t) = 0 \<and> held s' (cs_next t) = 1
      \<and> (\<forall>b. b \<noteq> cs_next t \<longrightarrow> held s' b = held t b)"
      by (rule inv_new [OF it]) (use own assms(2) r(2) m mux_step_mono [OF m(2), of X] inv_net [OF it] net_step_refl
        in \<open>auto simp: ob_ok_def sticky_ok_def\<close>)
    then have new: "goes (X - {sd}) t s'" "held s' (cs_next t) = 1" "\<forall>b. b \<noteq> cs_next t \<longrightarrow> held s' b = held t b"
      unfolding own by blast+
    have same: "held t = held s" "cs_next t = cs_next s" "cs_obs t = cs_obs s" using g held_same [of t s] by simp_all
    have "goes (X - {sd}) s s'" using goes_trans [OF _ new(1)] g by blast
    moreover have "cs_obs s' = (cs_obs s)(cs_next s \<mapsto> ?p)" using r(2) same by simp
    ultimately show ?thesis
      using r(1) new(2,3) same(1,2) by (simp del: fun_upd_apply) blast
  qed
qed

end

section \<open>Processing, with a handler that keeps its word\<close>

text \<open>A callback may use all operations; it gives back no reference but those it took.\<close>

locale chan_users =
  chan_system set_mask events mask_at polled known good valid waited limit
  for set_mask :: "'m \<Rightarrow> md \<Rightarrow> mask \<Rightarrow> (aug_fail + unit) \<times> 'm"
    and events :: "'m \<Rightarrow> md \<Rightarrow> mask option"
    and mask_at :: "'m \<Rightarrow> md \<Rightarrow> mask"
    and polled :: "'m \<Rightarrow> md \<Rightarrow> mask"
    and known :: "'m \<Rightarrow> md \<Rightarrow> bool"
    and good :: "'m \<Rightarrow> bool"
    and valid :: "md \<Rightarrow> bool"
    and waited :: "'m \<Rightarrow> 'm \<Rightarrow> bool"
    and limit :: md +
  fixes h :: "'m chandler"
  assumes estab: "inv X s \<Longrightarrow> cs_obs s f \<noteq> None \<Longrightarrow> hd_estab h f cid s = (b, s') \<Longrightarrow> goes X s s'"
    and ready: "inv X s \<Longrightarrow> cs_obs s f \<noteq> None \<Longrightarrow> hd_ready h f ev s = (b, s') \<Longrightarrow> goes X s s'"
    and error: "inv X s \<Longrightarrow> cs_obs s f \<noteq> None \<Longrightarrow> goes X s (hd_error h f e s)"
begin

lemma chan_error_ok:
  assumes "inv X s" "sd \<in> set (nt_open (cs_net s))" "cs_obs s a \<noteq> None" "chan_error h a sd ev s = (b, s')"
  shows "goes X s s' \<and> (\<not> b \<longrightarrow> cs_obs s' = cs_obs s \<and> cs_mux s' = cs_mux s \<and> cs_next s' = cs_next s
    \<and> net_step (cs_net s) (set (nt_open (cs_net s))) (cs_net s'))"
proof (cases "AUG_MDEVENTEX AND ev = 0")
  case True
  then show ?thesis
    using assms goes_refl inv_net [OF assms(1)] net_step_refl by (auto simp: chan_error_def)
next
  case False
  obtain r t where t: "on_net (sys_call sd) s = (r, t)" by (cases "on_net (sys_call sd) s")
  note g = call_goes [OF assms(1,2) t]
  show ?thesis
  proof (cases r)
    case None
    then show ?thesis using assms(4) False t g by (auto simp: chan_error_def)
  next
    case (Some e)
    have "goes X t (hd_error h a e t)" using error [of X t a] g assms(3) by (simp add: goes_def)
    then show ?thesis using assms(4) False t Some g goes_trans by (auto simp: chan_error_def)
  qed
qed

lemma plain_process_ok:
  assumes "inv X s" "cs_obs s a = Some (Plain p)" "lasting s a"
  shows "\<exists>r fork s'. plain_process mo h a p s = Some ((r, fork), s') \<and> processed X s r s'"
proof (cases "sk_md (pi_sticky p)")
  case None
  then show ?thesis using processed_none [OF goes_refl [OF assms(1)]] by (auto simp: plain_process_def)
next
  case (Some sd)
  obtain ev st m where ev: "aug_getsticky set_mask events (cs_mux s) (pi_sticky p) = (Some ev, st, m)"
    and g1: "goes X s (put a (Plain (p\<lparr>pi_sticky := st\<rparr>)) (s\<lparr>cs_mux := m\<rparr>))"
    using getsticky_ok [OF assms(1,2) Some] by blast
  let ?s = "put a (Plain (p\<lparr>pi_sticky := st\<rparr>)) (s\<lparr>cs_mux := m\<rparr>)"
  have i1: "inv X ?s" using g1 by (simp add: goes_def)
  obtain b t where t: "chan_error h a sd ev ?s = (b, t)" by (cases "chan_error h a sd ev ?s")
  have g2: "goes X ?s t"
    using chan_error_ok [OF i1 _ _ t] plain_ok [OF assms(1,2) Some] by simp
  obtain c u where u: "(if ev \<noteq> 0 then hd_ready h a ev t else (True, t)) = (c, u)" by fastforce
  have "cs_obs t a \<noteq> None"
    using lasting_alive [of X t] lasting_goes [OF assms(1) goes_trans [OF g1 g2] assms(3)] g2 by (simp add: goes_def)
  then have g3: "goes X t u"
    using u ready [of X t a ev c u] g2 goes_refl [of X t] by (auto simp: goes_def split: if_splits)
  have g: "goes X s u" by (rule goes_trans [OF goes_trans [OF g1 g2] g3])
  have "cs_obs u a \<noteq> None"
    using lasting_alive [of X u] lasting_goes [OF assms(1) g assms(3)] g by (simp add: goes_def)
  from retain_processed [OF g this, of False] obtain v where
    v: "map_option (Pair (Some a, False)) (retain a u) = Some ((Some a, False), v)" "processed X s (Some a) v"
    by (elim exE conjE)
  show ?thesis
  proof (cases b)
    case True
    then have "plain_process mo h a p s = Some ((None, False), t)"
      using Some ev t by (simp add: plain_process_def)
    then show ?thesis using processed_none [OF goes_trans [OF g1 g2]] by blast
  next
    case False
    then have "plain_process mo h a p s = (if c then Some ((Some a, False), v) else Some ((None, False), u))"
      using Some ev t u v(1) by (simp add: plain_process_def)
    then show ?thesis using processed_none [OF g] v(2) by (cases c) auto
  qed
qed

end

end
