(* ===== verification/ChanOps.thy ===== *)
theory ChanOps
  imports ChanInv
begin

text \<open>
  Clients, servers and the interface of a channel (\<^verbatim>\<open>augnet/chan.c\<close>) keep the invariant of
  \<open>ChanInv\<close>, whatever the system answers and the handler does, and none of their steps is
  undefined for a user that holds the channel.
\<close>

context chan_system
begin

lemma close_goes: "inv X s \<Longrightarrow> sd \<in> X \<Longrightarrow> goes (X - {sd}) s (close_sd sd s)"
  using close_user by (simp add: goes_def)

lemma set_md_valid:
  assumes "good (cs_mux s)" "valid sd" "event_mask k"
  shows "\<exists>m. set_md mo sd k s = (Inr (), s\<lparr>cs_mux := m\<rparr>) \<and> mux_step {sd} (cs_mux s) m \<and> known m sd"
  using set_mask_step [OF assms] by (auto simp: set_md_def)

lemma set_md_snd: "good (cs_mux s) \<Longrightarrow> \<exists>r m. set_md mo sd k s = (r, s\<lparr>cs_mux := m\<rparr>) \<and> mux_step {sd} (cs_mux s) m"
  using set_mask_snd [of "cs_mux s" sd k] by (auto simp: set_md_def split: prod.splits)

text \<open>The multiplexer is told about a descriptor of a user's, or of an object.\<close>

lemma mux_user:
  assumes "inv X s" "sd \<in> X" "mux_step {sd} (cs_mux s) m"
  shows "goes X s (s\<lparr>cs_mux := m\<rparr>)"
proof -
  have "set (nt_open (cs_net s)) - X \<union> X = set (nt_open (cs_net s))" using inv_user [OF assms(1)] by blast
  then have "net_step (cs_net s) (set (nt_open (cs_net s)) - X \<union> X) (cs_net (s\<lparr>cs_mux := m\<rparr>))"
    using net_step_refl inv_net [OF assms(1)] by simp
  then show ?thesis
    using inv_env [OF assms(1), of "s\<lparr>cs_mux := m\<rparr>" X] mux_step_mono [OF assms(3), of X] assms(2)
    by (simp add: goes_def inf_commute)
qed

lemma mux_ob:
  assumes "inv X s" "cs_obs s a = Some ob" "mux_step (owned ob) (cs_mux s) m" "ob_ok mask_at known m ob"
  shows "goes X s (s\<lparr>cs_mux := m\<rparr>)"
  by (rule inv_local [OF assms(1,2), where ob' = ob])
     (use assms inv_net [OF assms(1)] net_step_refl in \<open>simp_all add: fun_upd_idem\<close>)

section \<open>Creation\<close>

lemma new_held: "goes X s s' \<Longrightarrow> held s a = 0 \<Longrightarrow> held s' a = 1 \<Longrightarrow> \<forall>b. b \<noteq> a \<longrightarrow> held s' b = held s b \<Longrightarrow>
   held s' = (held s)(a := 1)"
  by (auto simp: fun_eq_iff)

lemma createserver_ok:
  assumes "inv X s" "sd \<in> X" "aug_createserver mo sd s = (r, s')"
  shows "case r of Inl e \<Rightarrow> inv X s' \<and> held s' = held s
    | Inr a \<Rightarrow> inv (X - {sd}) s' \<and> held s a = 0 \<and> held s' = (held s)(a := 1)"
proof -
  have v: "valid sd" "good (cs_mux s)"
    using inv_open_valid [OF assms(1)] inv_user [OF assms(1)] assms(2) inv_net [OF assms(1)] by auto
  have "event_mask AUG_MDEVENTRDEX" by (simp add: event_mask_def event_defs)
  then obtain m where m: "set_md mo sd AUG_MDEVENTRDEX s = (Inr (), s\<lparr>cs_mux := m\<rparr>)" "mux_step {sd} (cs_mux s) m" "known m sd"
    using set_md_valid v by blast
  let ?s = "s\<lparr>cs_mux := m\<rparr>"
  have g1: "goes X s ?s" "held ?s = held s" using mux_user [OF assms(1,2) m(2)] held_same [of ?s s] by simp_all
  have i1: "inv X ?s" using g1(1) by (simp add: goes_def)
  obtain r1 t where t: "on_net answer ?s = (r1, t)" by (cases "on_net answer ?s")
  note g2 = answer_goes [OF i1 t]
  have i2: "inv X t" and h2: "held t = held s" using g2 g1(2) held_same [of t ?s] by (simp_all add: goes_def)
  show ?thesis
  proof (cases r1)
    case (Some e)
    obtain r2 m2 where m2: "set_md mo sd 0 t = (r2, t\<lparr>cs_mux := m2\<rparr>)" "mux_step {sd} (cs_mux t) m2"
      using set_md_snd inv_net [OF i2] by blast
    have "r = Inl NoMem" "s' = t\<lparr>cs_mux := m2\<rparr>"
      using assms(3) m(1) t Some m2(1) by (simp_all add: aug_createserver_def)
    then show ?thesis
      using mux_user [OF i2 assms(2) m2(2)] held_same [of s' t] h2 by (simp add: goes_def)
  next
    case None
    obtain cid u where u: "aug_nextid t = (cid, u)" by (cases "aug_nextid t")
    have same: "cs_obs u = cs_obs t" "cs_next u = cs_next t" "cs_mux u = cs_mux t" "cs_net u = cs_net t"
      using nextid_simps [of t] u by simp_all
    let ?c = "Server \<lparr>si_refs = 1, si_id = cid, si_sd = Some sd, si_wantwr = False\<rparr>"
    have r: "r = Inr (cs_next t)" "s' = put (cs_next t) ?c (u\<lparr>cs_next := cs_next t + 1\<rparr>)"
      using assms(3) m(1) t None u same by (auto simp: aug_createserver_def Let_def)
    have "goes (X - owned ?c) t s' \<and> held t (cs_next t) = 0 \<and> held s' (cs_next t) = 1
        \<and> (\<forall>b. b \<noteq> cs_next t \<longrightarrow> held s' b = held t b)"
      by (rule inv_new [OF i2])
         (use r(2) same assms(2) g2 m(3) inv_net [OF i2] net_step_refl mux_step_refl in \<open>simp_all add: ob_ok_def\<close>)
    then have "goes (X - {sd}) t s'" "held t (cs_next t) = 0" "held s' = (held t)(cs_next t := 1)"
      using new_held [of "X - {sd}" t s' "cs_next t"] by simp_all
    then show ?thesis using r(1) h2 by (simp add: goes_def)
  qed
qed

text \<open>Giving up a new client: its descriptor is closed, by the caller or with the connector.\<close>

lemma giveup:
  assumes "tc_sd conn = (if est then None else Some sd)"
  shows "(let s = (if est then close_sd sd s else s) in s\<lparr>cs_net := aug_destroytcpconnect conn (cs_net s)\<rparr>) = close_sd sd s"
  using assms by (simp add: aug_destroytcpconnect_def close_sd_def on_net_def Let_def split: prod.splits)

lemma createclient_ok:
  assumes "inv X s" "aug_createclient mo addrs s = (r, s')"
  shows "inv X s' \<and> (case r of Inl e \<Rightarrow> held s' = held s | Inr a \<Rightarrow> held s a = 0 \<and> held s' = (held s)(a := 1))"
proof -
  let ?S = "set (nt_open (cs_net s))"
  obtain r1 n1 where c1: "aug_createtcpconnect addrs (cs_net s) = (r1, n1)" by (cases "aug_createtcpconnect addrs (cs_net s)")
  have n1: "net_step (cs_net s) ?S n1"
    using c1 answer_step [of "cs_net s"] inv_net [OF assms(1)] net_step_refl
    by (auto simp: aug_createtcpconnect_def split: sum.splits prod.splits option.splits)
  have p1: "on_net (aug_createtcpconnect addrs) s = (r1, s\<lparr>cs_net := n1\<rparr>)" using c1 by (simp add: on_net_def)
  show ?thesis
  proof (cases r1)
    case (Inl e)
    then have "r = Inl e" "s' = s\<lparr>cs_net := n1\<rparr>" using assms(2) p1 by (simp_all add: aug_createclient_def)
    then show ?thesis
      using goes_net [OF assms(1) n1] held_same [of s' s] by (simp add: goes_def)
  next
    case (Inr conn)
    then have conn: "tc_sd conn = None"
      using c1 by (auto simp: aug_createtcpconnect_def split: sum.splits prod.splits option.splits)
    obtain r2 conn2 n2 where c2: "aug_tryconnect conn n1 = (r2, conn2, n2)" by (cases "aug_tryconnect conn n1") auto
    have at: "attempt n1 ?S (tc_res conn) r2 conn2 n2"
      using tryconnect_attempt [OF _ _ c2] conn net_step_set [OF n1] by (simp add: conn_ok_def)
    show ?thesis
    proof (cases r2)
      case (Inl e)
      then have "s' = s\<lparr>cs_net := n2\<rparr>" "r = Inl e" "net_step (cs_net s) ?S n2"
        using assms(2) p1 Inr c2 at net_step_trans [OF n1]
        by (simp_all add: aug_createclient_def attempt_def aug_destroytcpconnect_def)
      then show ?thesis
        using goes_net [OF assms(1)] held_same [of s' s] by (simp add: goes_def)
    next
      case (Inr x)
      obtain sd addr est where x: "x = (sd, addr, est)" by (cases x) auto
      have sd: "sd \<notin> ?S" "sd < limit" and n2: "net_step (cs_net s) (insert sd ?S) n2"
        and conn2: "tc_sd conn2 = (if est then None else Some sd)" "tc_res conn2 \<noteq> []"
        using at Inr x net_step_trans [OF n1] inv_net [OF assms(1)] n1
        by (auto simp: attempt_def net_step_def)
      let ?X = "insert sd X" and ?t = "s\<lparr>cs_net := n2\<rparr>"
      have X: "X \<subseteq> ?S" "sd \<notin> X" using inv_user [OF assms(1)] sd(1) by auto
      then have "?S - X \<union> ?X = insert sd ?S" "(?S - X) \<inter> ?X = {}" using sd(1) by auto
      then have it: "inv ?X ?t" and ht: "held ?t = held s"
        using inv_env [OF assms(1), of ?t ?X] n2 mux_step_refl inv_net [OF assms(1)] by simp_all
      have v: "valid sd" by (rule valid_limit [OF sd(2)])
      let ?destroy = "\<lambda>s :: 'm chs. s\<lparr>cs_net := aug_destroytcpconnect conn2 (cs_net s)\<rparr>"
      have fail: "inv X (?destroy (if est then close_sd sd u else u)) \<and> held (?destroy (if est then close_sd sd u else u)) = held s"
        if "inv ?X u" "held u = held s" for u :: "'m chs"
      proof -
        have "?destroy (if est then close_sd sd u else u) = close_sd sd u"
          using giveup [OF conn2(1), of u] by (simp add: Let_def)
        moreover have "?X - {sd} = X" using X(2) by simp
        ultimately show ?thesis using close_user [OF that(1), of sd] that(2) by simp
      qed
      obtain r3 u where u: "on_net answer ?t = (r3, u)" by (cases "on_net answer ?t")
      note g3 = answer_goes [OF it u]
      have iu: "inv ?X u" "held u = held s" using g3 ht held_same [of u ?t] by (simp_all add: goes_def)
      show ?thesis
      proof (cases r3)
        case (Some e)
        then have "r = Inl e \<and> s' = ?destroy (if est then close_sd sd u else u)"
          using assms(2) p1 \<open>r1 = Inr conn\<close> c2 Inr x u by (simp add: aug_createclient_def Let_def)
        then show ?thesis using fail [OF iu] by simp
      next
        case None
        have "event_mask AUG_MDEVENTCONN" by (simp add: event_mask_def event_defs)
        then obtain m where m: "set_md mo sd AUG_MDEVENTCONN u = (Inr (), u\<lparr>cs_mux := m\<rparr>)" "mux_step {sd} (cs_mux u) m" "known m sd"
          using set_md_valid [of u sd] v inv_net [OF iu(1)] by blast
        define w where "w = (if est then u else u\<lparr>cs_mux := m\<rparr>)"
        have set: "(if est then (Inr (), u) else set_md mo sd AUG_MDEVENTCONN u) = (Inr (), w)"
          using m(1) by (simp add: w_def)
        have iw: "inv ?X w" "held w = held s" "\<not> est \<Longrightarrow> known (cs_mux w) sd"
          using mux_user [OF iu(1) _ m(2)] held_same [of "u\<lparr>cs_mux := m\<rparr>" u] iu m(3) by (simp_all add: w_def goes_def)
        obtain r4 y where y: "on_net answer w = (r4, y)" by (cases "on_net answer w")
        note g4 = answer_goes [OF iw(1) y]
        have iy: "inv ?X y" "held y = held s" using g4 iw(2) held_same [of y w] by (simp_all add: goes_def)
        show ?thesis
        proof (cases r4)
          case (Some e)
          obtain r5 m5 where m5: "set_md mo sd 0 y = (r5, y\<lparr>cs_mux := m5\<rparr>)" "mux_step {sd} (cs_mux y) m5"
            using set_md_snd [of y sd 0] inv_net [OF iy(1)] by blast
          define z where "z = (if est then y else y\<lparr>cs_mux := m5\<rparr>)"
          have iz: "inv ?X z" "held z = held s"
            using mux_user [OF iy(1) _ m5(2)] held_same [of "y\<lparr>cs_mux := m5\<rparr>" y] iy by (simp_all add: z_def goes_def)
          have "(if est then close_sd sd y else snd (set_md mo sd 0 y)) = (if est then close_sd sd z else z)"
            using m5(1) by (simp add: z_def)
          then have "r = Inl NoMem \<and> s' = ?destroy (if est then close_sd sd z else z)"
            using assms(2) p1 \<open>r1 = Inr conn\<close> c2 Inr x u None set y Some
            by (simp add: aug_createclient_def Let_def)
          then show ?thesis using fail [OF iz] by simp
        next
          case None
          obtain cid y2 where y2: "aug_nextid y = (cid, y2)" by (cases "aug_nextid y")
          have same: "cs_obs y2 = cs_obs y" "cs_next y2 = cs_next y" "cs_mux y2 = cs_mux y" "cs_net y2 = cs_net y"
            using nextid_simps [of y] y2 by simp_all
          let ?c = "Client \<lparr>ci_refs = 1, ci_id = cid, ci_name = addr, ci_sd = Some sd,
            ci_wantwr = False, ci_conn = conn2, ci_est = est, ci_fwd = None\<rparr>"
          have r: "r = Inr (cs_next y)" "s' = put (cs_next y) ?c (y2\<lparr>cs_next := cs_next y + 1\<rparr>)"
            using assms(2) p1 \<open>r1 = Inr conn\<close> c2 Inr x u \<open>r3 = None\<close> set y None y2 same
            by (simp_all add: aug_createclient_def Let_def)
          have own: "owned ?c = {sd}" using conn2(1) by simp
          have k: "ob_ok mask_at known (cs_mux y) ?c"
            using conn2 iw(3) g4 by (simp add: ob_ok_def)
          have "goes (?X - owned ?c) y s' \<and> held y (cs_next y) = 0 \<and> held s' (cs_next y) = 1
              \<and> (\<forall>b. b \<noteq> cs_next y \<longrightarrow> held s' b = held y b)"
            by (rule inv_new [OF iy(1)])
               (use r(2) same own k inv_net [OF iy(1)] net_step_refl mux_step_refl in \<open>simp_all del: owned_simps\<close>)
          moreover have "?X - owned ?c = X" using X(2) own by simp
          ultimately have "goes X y s'" "held y (cs_next y) = 0" "held s' = (held y)(cs_next y := 1)"
            using new_held [of X y s' "cs_next y"] by simp_all
          then show ?thesis using r(1) iy(2) by (simp add: goes_def)
        qed
      qed
    qed
  qed
qed

section \<open>Closing and releasing\<close>

lemma client_ok:
  assumes "inv X s" "cs_obs s a = Some (Client c)"
  shows "ob_ok mask_at known (cs_mux s) (Client c)" "0 < ci_refs c" "\<not> forwarded s a" "held s a = ci_refs c"
proof -
  show "ob_ok mask_at known (cs_mux s) (Client c)" "0 < ci_refs c" using inv_ob [OF assms] by simp_all
  have "fwds_ok (cs_obs s)" using assms(1) by (simp add: chs_ok_def)
  then show "\<not> forwarded s a"
    unfolding forwarded_def using fwds_target assms(2) by fastforce
  then show "held s a = ci_refs c" using assms(2) by (simp add: held_def)
qed

lemma server_ok:
  assumes "inv X s" "cs_obs s a = Some (Server c)"
  shows "0 < si_refs c" "\<not> forwarded s a" "held s a = si_refs c" "\<And>d. si_sd c = Some d \<Longrightarrow> known (cs_mux s) d"
proof -
  show "0 < si_refs c" "\<And>d. si_sd c = Some d \<Longrightarrow> known (cs_mux s) d" using inv_ob [OF assms] by (simp_all add: ob_ok_def)
  have "fwds_ok (cs_obs s)" using assms(1) by (simp add: chs_ok_def)
  then show "\<not> forwarded s a"
    unfolding forwarded_def using fwds_target assms(2) by fastforce
  then show "held s a = si_refs c" using assms(2) by (simp add: held_def)
qed

text \<open>What \<open>cclose\<close> and \<open>sclose\<close> leave: a pending descriptor is still the connector's.\<close>

lemma cclose_eq:
  assumes "good (cs_mux s)" "ci_sd c = Some sd" "ci_est c \<Longrightarrow> ci_fwd c = None"
  shows "\<exists>r m. cclose mo c s = Some (r, (if ci_est c then close_sd sd (s\<lparr>cs_mux := m\<rparr>) else s\<lparr>cs_mux := m\<rparr>))
    \<and> mux_step {sd} (cs_mux s) m"
proof -
  obtain r m where m: "set_md mo sd 0 s = (r, s\<lparr>cs_mux := m\<rparr>)" "mux_step {sd} (cs_mux s) m"
    using set_md_snd [OF assms(1)] by blast
  then show ?thesis
    using assms(2,3) by (intro exI [of _ r] exI [of _ m]) (simp add: cclose_def)
qed

lemma sclose_eq:
  assumes "good (cs_mux s)" "si_sd c = Some sd"
  shows "\<exists>r m. sclose mo c s = Some (r, close_sd sd (s\<lparr>cs_mux := m\<rparr>)) \<and> mux_step {sd} (cs_mux s) m"
proof -
  obtain r m where m: "set_md mo sd 0 s = (r, s\<lparr>cs_mux := m\<rparr>)" "mux_step {sd} (cs_mux s) m"
    using set_md_snd [OF assms(1)] by blast
  then show ?thesis
    using assms(2) by (intro exI [of _ "fst (on_net (aug_sclose sd) (s\<lparr>cs_mux := m\<rparr>))"] exI [of _ m])
      (simp add: sclose_def close_sd_def)
qed

lemma close_sd_simps [simp]:
  "cs_obs (close_sd sd s) = cs_obs s" "cs_next (close_sd sd s) = cs_next s" "cs_mux (close_sd sd s) = cs_mux s"
  "cs_net (close_sd sd s) = snd (aug_sclose sd (cs_net s))"
  by (simp_all add: close_sd_def on_net_def Let_def split: prod.splits)

text \<open>A client's or server's descriptor is given up: the object stays, without it.\<close>

lemma inv_closed:
  assumes "inv X s" "cs_obs s a = Some ob" "owned ob = {sd}"
    and "cs_obs s' = (cs_obs s)(a \<mapsto> ob')" "cs_next s' = cs_next s"
    and "fwd_of ob' = fwd_of ob" "shape ob' = shape ob" "ob_refs ob' = ob_refs ob" "owned ob' = {}"
    and "ob_ok mask_at known (cs_mux s') ob'" "mux_step {sd} (cs_mux s) (cs_mux s')"
    and "cs_net s' = snd (aug_sclose sd (cs_net s))"
  shows "goes X s s'"
proof -
  have d: "{sd} \<inter> others X s a = {}" "others X s a \<inter> X = {}" using assms(2,3) by (auto simp: others_def)
  have "inv X s' \<and> stable s s'
    \<and> (\<forall>b. held s' b = (if b = a then ob_refs ob' - (if forwarded s a then 1 else 0) else held s b))"
    by (rule inv_put [OF assms(1,2,4-7) _ assms(10,11)])
       (use assms(8,9,12) inv_ob [OF assms(1,2)] closing [OF assms(1-3)] d in simp_all)
  then show ?thesis using assms(2,8) by (auto simp: goes_def held_def)
qed

lemma forward_plain:
  assumes "inv X s" "cs_obs s a = Some (Client c)" "ci_fwd c = Some f"
  shows "\<exists>p. cs_obs s f = Some (Plain p)"
proof -
  have "fwd_at (cs_obs s) a = Some f" using assms(2,3) by (simp add: fwd_at_def)
  then show ?thesis using fwds_target assms(1) by (simp add: chs_ok_def)
qed

lemma closechan_ok:
  assumes "inv X s" "has_sd s a"
  shows "\<exists>s'. aug_closechan mo a s = Some s' \<and> goes X s s'"
proof -
  have pc: "\<exists>s'. map_option snd (pclose mo f s) = Some s' \<and> goes X s s'"
    if "cs_obs s f = Some (Plain p)" "sk_md (pi_sticky p) \<noteq> None" for f p
    using that pclose_ok [OF assms(1) that(1)] by auto
  have good: "good (cs_mux s)" using inv_net [OF assms(1)] by simp
  obtain ob where ob: "cs_obs s a = Some ob" using assms(2) by (auto simp: has_sd_def split: option.splits)
  show ?thesis
  proof (cases ob)
    case (Plain p)
    then show ?thesis using pc [of a p] ob assms(2) by (simp add: chan_defs has_sd_def)
  next
    case (Server c)
    then obtain sd where sd: "si_sd c = Some sd" using ob assms(2) by (auto simp: has_sd_def)
    obtain r m where m: "sclose mo c s = Some (r, close_sd sd (s\<lparr>cs_mux := m\<rparr>))" "mux_step {sd} (cs_mux s) m"
      using sclose_eq [OF good sd] by blast
    let ?s = "put a (Server (c\<lparr>si_sd := None\<rparr>)) (close_sd sd (s\<lparr>cs_mux := m\<rparr>))"
    have "aug_closechan mo a s = Some ?s" using ob Server m(1) by (simp add: chan_defs)
    moreover have "goes X s ?s"
      by (rule inv_closed [OF assms(1) ob, where sd = sd and ob' = "Server (c\<lparr>si_sd := None\<rparr>)"]) (use Server sd m(2) in \<open>auto simp: ob_ok_def\<close>)
    ultimately show ?thesis by blast
  next
    case (Client c)
    note c = client_ok [OF assms(1) ob [unfolded Client]]
    show ?thesis
    proof (cases "ci_fwd c")
      case (Some f)
      obtain p where p: "cs_obs s f = Some (Plain p)" using forward_plain [OF assms(1) ob [unfolded Client] Some] by blast
      then show ?thesis using pc [OF p] ob Client Some assms(2) by (simp add: chan_defs has_sd_def)
    next
      case None
      then obtain sd where sd: "ci_sd c = Some sd" using ob Client assms(2) by (auto simp: has_sd_def)
      obtain r m where m: "cclose mo c s = Some (r, (if ci_est c then close_sd sd (s\<lparr>cs_mux := m\<rparr>) else s\<lparr>cs_mux := m\<rparr>))"
        "mux_step {sd} (cs_mux s) m" using cclose_eq [OF good sd] None by blast
      let ?t = "if ci_est c then close_sd sd (s\<lparr>cs_mux := m\<rparr>) else s\<lparr>cs_mux := m\<rparr>"
      let ?s = "put a (Client (c\<lparr>ci_sd := None, ci_est := False\<rparr>)) ?t"
      have eq: "aug_closechan mo a s = Some ?s" using ob Client None m(1) by (simp add: chan_defs)
      have "goes X s ?s"
      proof (cases "ci_est c")
        case True
        show ?thesis
          by (rule inv_closed [OF assms(1) ob, where sd = sd and ob' = "Client (c\<lparr>ci_sd := None, ci_est := False\<rparr>)"])
             (use Client sd m(2) True c(1) None in \<open>auto simp: ob_ok_def\<close>)
      next
        case False
        show ?thesis
          by (rule inv_local [OF assms(1) ob, where ob' = "Client (c\<lparr>ci_sd := None, ci_est := False\<rparr>)"])
             (use Client sd m(2) False c(1) None inv_net [OF assms(1)] net_step_refl in \<open>auto simp: ob_ok_def\<close>)
      qed
      with eq show ?thesis by blast
    qed
  qed
qed

text \<open>Freeing a client and releasing the channel it forwards to may be exchanged.\<close>

lemma free_put: "a \<noteq> f \<Longrightarrow> free a (put f ob s) = put f ob (free a s)"
  by (rule chs.equality) (auto simp: free_def put_def)

lemma free_free: "a \<noteq> f \<Longrightarrow> free a (free f s) = free f (free a s)"
  by (rule chs.equality) (auto simp: free_def)

lemma free_net: "free a (s\<lparr>cs_net := n\<rparr>) = (free a s)\<lparr>cs_net := n\<rparr>" "free a (s\<lparr>cs_mux := m\<rparr>) = (free a s)\<lparr>cs_mux := m\<rparr>"
  by (rule chs.equality; simp add: free_def)+

lemma pclose_free:
  assumes "a \<noteq> f"
  shows "pclose mo f (free a s) = map_option (\<lambda>(r, s). (r, free a s)) (pclose mo f s)"
proof (cases "\<exists>p sd. cs_obs s f = Some (Plain p) \<and> sk_md (pi_sticky p) = Some sd")
  case True
  then obtain p sd where p: "cs_obs s f = Some (Plain p)" "sk_md (pi_sticky p) = Some sd" by blast
  then show ?thesis
    using assms by (simp add: pclose_def on_net_def Let_def free_put free_net split: prod.splits)
next
  case False
  then have "pclose mo f s = None" "pclose mo f (free a s) = None"
    using assms by (auto simp: pclose_def split: option.splits chob.splits)
  then show ?thesis by simp
qed

lemma prelease_free:
  assumes "a \<noteq> f"
  shows "prelease mo f (free a s) = map_option (free a) (prelease mo f s)"
proof (cases "\<exists>p. cs_obs s f = Some (Plain p) \<and> pi_refs p \<noteq> 0")
  case True
  then obtain p where p: "cs_obs s f = Some (Plain p)" "pi_refs p \<noteq> 0" by blast
  let ?t = "put f (Plain (p\<lparr>pi_refs := pi_refs p - 1\<rparr>)) s"
  have "pclose mo f (free a ?t) = map_option (\<lambda>(r, s). (r, free a s)) (pclose mo f ?t)"
    by (rule pclose_free [OF assms])
  then show ?thesis
    using p assms
    by (cases "pclose mo f ?t") (auto simp: prelease_def Let_def free_put [OF assms] free_free [OF assms])
next
  case False
  then have "prelease mo f s = None" "prelease mo f (free a s) = None"
    using assms by (auto simp: prelease_def split: option.splits chob.splits)
  then show ?thesis by simp
qed

text \<open>The last reference to a client that does not forward.\<close>

lemma crelease_last:
  assumes i: "inv X s" and a: "cs_obs s a = Some (Client c)" and c: "ci_refs c = 1" "ci_fwd c = None"
  shows "\<exists>s' ob. crelease mo a c s = Some (free a s') \<and> cs_obs s' = (cs_obs s)(a \<mapsto> ob) \<and> cs_next s' = cs_next s
    \<and> mux_step (owned (Client c)) (cs_mux s) (cs_mux s') \<and> net_step (cs_net s) (others X s a \<union> X) (cs_net s')"
proof -
  note ok = client_ok(1) [OF i a]
  have good: "good (cs_mux s)" using inv_net [OF i] by simp
  let ?c = "c\<lparr>ci_refs := 0\<rparr>"
  let ?s = "put a (Client ?c) s"
  let ?t = "?s\<lparr>cs_net := aug_destroytcpconnect (ci_conn c) (cs_net s)\<rparr>"
  have r: "crelease mo a c s = map_option (free a) (if ci_sd c = None then Some ?t else map_option snd (cclose mo c ?t))"
    using c by (simp add: crelease_def Let_def split: option.splits)
  note env = same_env [OF i a]
  consider (none) "ci_sd c = None" "tc_sd (ci_conn c) = None" "\<not> ci_est c"
    | (closed) sd where "ci_sd c = None" "tc_sd (ci_conn c) = Some sd" "\<not> ci_est c"
    | (pending) sd where "ci_sd c = Some sd" "tc_sd (ci_conn c) = Some sd" "\<not> ci_est c"
    | (est) sd where "ci_sd c = Some sd" "tc_sd (ci_conn c) = None" "ci_est c"
    using ok by (cases "ci_est c"; cases "ci_sd c"; cases "tc_sd (ci_conn c)") (auto simp: ob_ok_def)
  then show ?thesis
  proof cases
    case none
    then show ?thesis
      using r env by (intro exI [of _ ?t] exI [of _ "Client ?c"]) (simp add: aug_destroytcpconnect_def mux_step_refl good)
  next
    case (closed sd)
    then show ?thesis
      using r closing [OF i a, of sd]
      by (intro exI [of _ ?t] exI [of _ "Client ?c"]) (simp add: aug_destroytcpconnect_def mux_step_refl good)
  next
    case (pending sd)
    obtain r1 m where m: "cclose mo c ?t = Some (r1, ?t\<lparr>cs_mux := m\<rparr>)" "mux_step {sd} (cs_mux ?t) m"
      using cclose_eq [of ?t c sd] good pending by auto
    show ?thesis
      using r pending closing [OF i a, of sd] m
      by (intro exI [of _ "?t\<lparr>cs_mux := m\<rparr>"] exI [of _ "Client ?c"]) (simp add: aug_destroytcpconnect_def)
  next
    case (est sd)
    obtain r1 m where m: "cclose mo c ?t = Some (r1, close_sd sd (?t\<lparr>cs_mux := m\<rparr>))" "mux_step {sd} (cs_mux ?t) m"
      using cclose_eq [of ?t c sd] good est c(2) by auto
    show ?thesis
      using r est closing [OF i a, of sd] m
      by (intro exI [of _ "close_sd sd (?t\<lparr>cs_mux := m\<rparr>)"] exI [of _ "Client ?c"]) (simp add: aug_destroytcpconnect_def)
  qed
qed

lemma releasechan_ok:
  assumes i: "inv X s" and h: "0 < held s a"
  shows "\<exists>s'. aug_releasechan mo a s = Some s' \<and> inv X s' \<and> stable s s' \<and> held s' = (held s)(a := held s a - 1)"
proof -
  obtain ob where ob: "cs_obs s a = Some ob" using held_alive [OF h] by blast
  have more: "inv X (put a (with_refs (ob_refs ob - 1) ob) s) \<and> stable s (put a (with_refs (ob_refs ob - 1) ob) s)
      \<and> held (put a (with_refs (ob_refs ob - 1) ob) s) = (held s)(a := held s a - 1)"
    if "1 < ob_refs ob" "held s a = ob_refs ob"
    using inv_refs [OF i ob, of "ob_refs ob - 1"] that ob by (auto simp: fun_eq_iff held_def split: if_splits)
  have last: "inv X (free a t) \<and> stable s (free a t) \<and>
      held (free a t) = (\<lambda>b. if b = a then 0 else held s b + (if fwd_of ob = Some b then 1 else 0))"
    if "\<not> forwarded s a" "cs_obs t = (cs_obs s)(a \<mapsto> ob')" "cs_next t = cs_next s" "mux_step (owned ob) (cs_mux s) (cs_mux t)"
      "net_step (cs_net s) (others X s a \<union> X) (cs_net t)" for t ob'
  proof -
    have "inv X (free a t) \<and> stable s (free a t)
        \<and> (\<forall>b. held (free a t) b = (if b = a then 0 else held s b + (if fwd_of ob = Some b then 1 else 0)))"
      by (rule inv_free [OF i ob that(1), where D = "owned ob"]) (use that ob in \<open>auto simp: others_def\<close>)
    then show ?thesis by auto
  qed
  show ?thesis
  proof (cases ob)
    case (Plain p)
    then show ?thesis using prelease_ok [OF i] ob h by (simp add: aug_releasechan_def)
  next
    case (Server c)
    note s = server_ok [OF i ob [unfolded Server]]
    show ?thesis
    proof (cases "si_refs c = 1")
      case False
      then show ?thesis
        using more s(1,3) ob Server by (simp add: aug_releasechan_def srelease_def with_refs_def)
    next
      case True
      let ?s = "put a (Server (c\<lparr>si_refs := 0\<rparr>)) s"
      have good: "good (cs_mux ?s)" using inv_net [OF i] by simp
      show ?thesis
      proof (cases "si_sd c")
        case None
        then have "aug_releasechan mo a s = Some (free a ?s)"
          using ob Server True by (simp add: aug_releasechan_def srelease_def)
        then show ?thesis
          using last [of ?s] s True same_env [OF i ob] None Server mux_step_refl good by (auto simp: fun_eq_iff)
      next
        case (Some sd)
        obtain r m where m: "sclose mo c ?s = Some (r, close_sd sd (?s\<lparr>cs_mux := m\<rparr>))" "mux_step {sd} (cs_mux ?s) m"
          using sclose_eq [OF good Some] by blast
        then have "aug_releasechan mo a s = Some (free a (close_sd sd (?s\<lparr>cs_mux := m\<rparr>)))"
          using ob Server True Some by (simp add: aug_releasechan_def srelease_def)
        moreover have "net_step (cs_net s) (others X s a \<union> X) (snd (aug_sclose sd (cs_net s)))"
          using closing [OF i ob] Server Some by simp
        ultimately show ?thesis
          using last [of "close_sd sd (?s\<lparr>cs_mux := m\<rparr>)"] s True Some Server m(2) by (auto simp: fun_eq_iff)
      qed
    qed
  next
    case (Client c)
    note c = client_ok [OF i ob [unfolded Client]]
    show ?thesis
    proof (cases "ci_refs c = 1")
      case False
      then show ?thesis
        using more c(2,4) ob Client by (simp add: aug_releasechan_def crelease_def with_refs_def)
    next
      case True
      show ?thesis
      proof (cases "ci_fwd c")
        case None
        obtain t ob' where t: "crelease mo a c s = Some (free a t)" "cs_obs t = (cs_obs s)(a \<mapsto> ob')" "cs_next t = cs_next s"
          "mux_step (owned ob) (cs_mux s) (cs_mux t)" "net_step (cs_net s) (others X s a \<union> X) (cs_net t)"
          using crelease_last [OF i ob [unfolded Client] True None] Client by blast
        then show ?thesis
          using last [OF c(3) t(2-5)] ob Client c(4) True None by (auto simp: aug_releasechan_def fun_eq_iff)
      next
        case (Some f)
        let ?s = "put a (Client (c\<lparr>ci_refs := 0\<rparr>)) s"
        obtain p where p: "cs_obs s f = Some (Plain p)" using forward_plain [OF i ob [unfolded Client] Some] by blast
        have af: "a \<noteq> f" using p ob Client by auto
        have none: "ci_sd c = None" "tc_sd (ci_conn c) = None" "\<not> ci_est c" using c(1) Some by (auto simp: ob_ok_def)
        have "?s\<lparr>cs_net := cs_net s\<rparr> = ?s" by (rule chs.equality) simp_all
        then have "aug_releasechan mo a s = map_option (free a) (prelease mo f ?s)"
          using ob Client True Some none by (simp add: aug_releasechan_def crelease_def aug_destroytcpconnect_def)
        also have "\<dots> = prelease mo f (free a ?s)" by (simp add: prelease_free [OF af])
        finally have eq: "aug_releasechan mo a s = prelease mo f (free a ?s)" .
        have l: "inv X (free a ?s)" "stable s (free a ?s)"
          "held (free a ?s) = (\<lambda>b. if b = a then 0 else held s b + (if b = f then 1 else 0))"
          using last [OF c(3), of ?s] same_env [OF i ob] Client none Some inv_net [OF i] mux_step_refl by auto
        have "cs_obs (free a ?s) f = Some (Plain p)" "0 < held (free a ?s) f" using p af l(3) by simp_all
        then obtain s' where "prelease mo f (free a ?s) = Some s'" "inv X s'" "stable (free a ?s) s'"
            "held s' = (held (free a ?s))(f := held (free a ?s) f - 1)"
          using prelease_ok [OF l(1)] by blast
        then show ?thesis
          using eq l stable_trans [OF l(2)] af c(4) True by (auto simp: fun_eq_iff)
      qed
    qed
  qed
qed

end

section \<open>Processing\<close>

context chan_users
begin

text \<open>The forward pointer is set: the client now holds the new channel's reference.\<close>

lemma set_fwd_ok:
  assumes i: "inv X t" and a: "cs_obs t a = Some (Client c)" "ci_fwd c = None" "\<not> ci_est c" "ci_sd c = None" "tc_sd (ci_conn c) = None"
    and f: "cs_obs t f = Some (Plain p)" "held t f = 1" "\<not> forwarded t f"
  shows "inv X (set_fwd a f t) \<and> stable t (set_fwd a f t) \<and> held (set_fwd a f t) = (held t)(f := 0)"
proof (intro conjI)
  let ?c = "c\<lparr>ci_fwd := Some f\<rparr>"
  have s: "set_fwd a f t = put a (Client ?c) t" using a(1) by (simp add: set_fwd_def)
  have fo: "fwds_ok (cs_obs t)" using i by (simp add: chs_ok_def)
  note c = client_ok [OF i a(1)]
  show "inv X (set_fwd a f t)"
    unfolding s
  proof (rule inv_update [OF i])
    show "fwds_ok (cs_obs (put a (Client ?c) t))"
      using fwds_set [OF fo a(1) f(1)] f(3) by (simp add: forwarded_def)
    show "mux_step {} (cs_mux t) (cs_mux (put a (Client ?c) t))" using same_env(1) [OF i a(1)] by simp
    show "net_step (cs_net t) (others X t a \<union> X \<union> own_opt (Some (Client ?c))) (cs_net (put a (Client ?c) t))"
      using same_env(2) [OF i a(1)] a(3,5) by simp
    show "others X t a \<inter> (X \<union> own_opt (Some (Client ?c))) = {}" "X \<inter> own_opt (Some (Client ?c)) = {}"
      using same_env(3,4) [OF i a(1)] a(3,5) by simp_all
    fix ob assume "Some (Client ?c) = Some ob"
    then show "a < cs_next (put a (Client ?c) t) \<and> 0 < ob_refs ob \<and> ob_ok mask_at known (cs_mux (put a (Client ?c) t)) ob"
      using inv_ob [OF i a(1)] a by (auto simp: ob_ok_def)
  qed simp_all
  show "stable t (set_fwd a f t)" unfolding s using a by (auto simp: stable_def)
  have at: "fwd_at (cs_obs (set_fwd a f t)) b = (if b = a then Some f else fwd_at (cs_obs t) b)" for b
    unfolding s by simp
  have "fwd_at (cs_obs t) a = None" using a by (simp add: fwd_at_def)
  then have fw: "forwarded (set_fwd a f t) b = (b = f \<or> forwarded t b)" for b
    unfolding forwarded_def at by (metis option.distinct(1) option.inject)
  have refs: "pi_refs p = 1" using f by (simp add: held_def)
  show "held (set_fwd a f t) = (held t)(f := 0)"
  proof
    fix b
    consider "b = f" | "b = a" "b \<noteq> f" | "b \<noteq> a" "b \<noteq> f" by blast
    then show "held (set_fwd a f t) b = ((held t)(f := 0)) b"
      using fw [of b] refs f a c(3,4) unfolding s
      by cases (auto simp: held_def split: option.splits)
  qed
qed

lemma fresh:
  assumes "inv X s"
  shows "cs_obs s (cs_next s) = None \<and> \<not> forwarded s (cs_next s)"
proof -
  have "cs_obs s (cs_next s) = None" using inv_ob [OF assms, of "cs_next s"] by (cases "cs_obs s (cs_next s)") auto
  moreover have "fwds_ok (cs_obs s)" using assms by (simp add: chs_ok_def)
  ultimately show ?thesis using fwds_target unfolding forwarded_def by fastforce
qed

lemma estabclient_ok:
  assumes i: "inv X s" and a: "cs_obs s a = Some (Client c)" "ci_est c" "ci_sd c = Some sd" and h: "0 < held s a"
  shows "\<exists>r fork s'. estabclient mo h a c sd s = Some ((r, fork), s') \<and> processed X s r s'"
proof -
  let ?X = "insert sd X"
  let ?c = "c\<lparr>ci_sd := None, ci_est := False\<rparr>"
  let ?s = "put a (Client ?c) s"
  note c = client_ok [OF i a(1)]
  have conn: "tc_sd (ci_conn c) = None" "ci_fwd c = None" using c(1) a by (auto simp: ob_ok_def)
  have own: "owned (Client c) = {sd}" using a conn by simp
  have sd: "sd \<notin> X" using inv_owned [OF i a(1)] own by auto
  have "inv ?X ?s \<and> stable s ?s
    \<and> (\<forall>b. held ?s b = (if b = a then ob_refs (Client ?c) - (if forwarded s a then 1 else 0) else held s b))"
  proof (rule inv_put [OF i a(1), where D = "{}"])
    show "net_step (cs_net s) (others X s a \<union> ?X \<union> owned (Client ?c)) (cs_net ?s)"
      using same_env(2) [OF i a(1)] own conn by (simp add: insert_commute Un_commute)
    show "others X s a \<inter> (?X \<union> owned (Client ?c)) = {}"
      using same_env(3) [OF i a(1)] own conn by auto
    show "?X \<inter> owned (Client ?c) = {}" using conn by simp
  qed (use c conn same_env(1) [OF i a(1)] in \<open>simp_all add: ob_ok_def\<close>)
  then have g1: "goes ?X s ?s" and h1: "held ?s = held s" and i1: "inv ?X ?s"
    using c a by (auto simp: goes_def fun_eq_iff)
  obtain r t where t: "aug_createplain mo (ci_id c) sd (ci_wantwr c) ?s = (r, t)"
    by (cases "aug_createplain mo (ci_id c) sd (ci_wantwr c) ?s")
  note cp = createplain_ok [OF i1 _ t]
  show ?thesis
  proof (cases r)
    case (Inl e)
    then have g2: "goes ?X ?s t" "cs_obs t a \<noteq> None" using cp by simp_all
    have g3: "goes ?X t (hd_error h a e t)" using error [of ?X t a] g2 by (simp add: goes_def)
    have "goes (?X - {sd}) (hd_error h a e t) (close_sd sd (hd_error h a e t))"
      using close_goes [of ?X _ sd] g3 by (simp add: goes_def)
    then have "goes X s (close_sd sd (hd_error h a e t))"
      using goes_trans [OF goes_trans [OF g1 g2(1)] goes_trans [OF g3]] sd by simp
    moreover have "estabclient mo h a c sd s = Some ((None, False), close_sd sd (hd_error h a e t))"
      using t Inl by (simp add: estabclient_def)
    ultimately show ?thesis using processed_none by blast
  next
    case (Inr f)
    then have g2: "goes (?X - {sd}) ?s t" and f: "held t f = 1" "f = cs_next ?s" "\<forall>b. b \<noteq> f \<longrightarrow> held t b = held ?s b"
      using cp by auto
    obtain p where p: "cs_obs t = (cs_obs ?s)(f \<mapsto> Plain p)" using cp Inr by auto
    have it: "inv X t" using g2 sd by (simp add: goes_def)
    have fa: "f \<noteq> a" using f(2) inv_ob [OF i a(1)] by simp
    have at: "cs_obs t a = Some (Client ?c)" "cs_obs t f = Some (Plain p)" using p fa by simp_all
    have "forwarded t f \<Longrightarrow> forwarded ?s f"
      unfolding forwarded_def p by (auto split: if_splits simp del: put_simps)
    then have nf: "\<not> forwarded t f" using fresh [OF i1] f(2) by blast
    let ?u = "set_fwd a f t"
    have "inv X ?u \<and> stable t ?u \<and> held ?u = (held t)(f := 0)"
      by (rule set_fwd_ok [OF it at(1) _ _ _ _ at(2) f(1) nf]) (use conn in simp_all)
    moreover have "held s f = 0" using fresh [OF i] f(2) by (simp add: held_def)
    moreover have "stable s t" using g1 g2 unfolding goes_def by (blast intro: stable_trans)
    ultimately have g3: "goes X s ?u"
      using f(3) h1 stable_trans [of s t ?u] by (simp add: goes_def)
    have u: "cs_obs ?u a = Some (Client (?c\<lparr>ci_fwd := Some f\<rparr>))" "cs_obs ?u f \<noteq> None"
      using at fa by (simp_all add: set_fwd_def)
    obtain b v where v: "hd_estab h f (ci_id c) ?u = (b, v)" by (cases "hd_estab h f (ci_id c) ?u")
    have iu: "inv X ?u" using g3 by (simp add: goes_def)
    have g4: "goes X ?u v" by (rule estab [OF iu u(2) v])
    have g: "goes X s v" by (rule goes_trans [OF g3 g4])
    show ?thesis
    proof (cases b)
      case False
      then have "estabclient mo h a c sd s = Some ((None, False), v)"
        using t Inr v by (simp add: estabclient_def)
      then show ?thesis using processed_none [OF g] by blast
    next
      case True
      have "0 < held v a" using g h by (auto simp: goes_def intro: less_le_trans)
      then obtain ob where "cs_obs v a = Some ob" using held_alive by blast
      then obtain c' where c': "cs_obs v a = Some (Client c')" "ci_fwd c' = Some f"
        using stable_client [of ?u v a _ ob] g4 u inv_ob [OF iu u(1)] by (auto simp: goes_def)
      have "cs_obs v f \<noteq> None" using forward_plain [OF _ c'] g by (auto simp: goes_def)
      from retain_processed [OF g this, of False] obtain w where
        "map_option (Pair (Some f, False)) (retain f v) = Some ((Some f, False), w)" "processed X s (Some f) w"
        by (elim exE conjE)
      moreover have "estabclient mo h a c sd s = map_option (Pair (Some f, False)) (retain f v)"
        using t Inr v True c' by (simp add: estabclient_def)
      ultimately show ?thesis by metis
    qed
  qed
qed

lemma conn_mask: "event_mask AUG_MDEVENTCONN" "event_mask 0"
  by (simp_all add: event_mask_def event_defs)

text \<open>The connector of a pending client is tried once more.\<close>

lemma reconnect_ok:
  assumes i: "inv X s" and a: "cs_obs s a = Some (Client c)" "\<not> ci_est c" "ci_sd c = Some sd" and h: "0 < held s a"
    and m: "set_md mo sd 0 s = (Inr (), t)"
    and n: "aug_tryconnect (ci_conn c) (cs_net t) = (x, conn, n)" and u: "u = t\<lparr>cs_net := n\<rparr>"
  shows "case x of
      Inl e \<Rightarrow> goes X s (put a (Client (c\<lparr>ci_conn := conn, ci_sd := None\<rparr>)) u)
    | Inr (sd', addr, est) \<Rightarrow>
        let c' = c\<lparr>ci_conn := conn, ci_sd := Some sd', ci_est := est, ci_name := addr\<rparr>
        in if est then goes X s (put a (Client c') u)
           else goes X s (snd (set_md mo sd' AUG_MDEVENTCONN (put a (Client c') u)))"
proof -
  let ?S = "set (nt_open (cs_net s))"
  note c = client_ok [OF i a(1)]
  have conn: "tc_sd (ci_conn c) = Some sd" "tc_res (ci_conn c) \<noteq> []" "ci_fwd c = None"
    using c(1) a by (auto simp: ob_ok_def)
  have own: "owned (Client c) = {sd}" using a(2) conn by simp
  have sd: "sd \<in> ?S" "sd \<notin> X" "others X s a \<union> X = ?S - {sd}" "sd \<notin> others X s a" "others X s a \<inter> X = {}"
    using inv_owned [OF i a(1)] own others_split [OF i a(1)] others_apart [OF a(1), of X] by auto
  obtain r1 m1 where "set_md mo sd 0 s = (r1, s\<lparr>cs_mux := m1\<rparr>)" "mux_step {sd} (cs_mux s) m1"
    using set_md_snd inv_net [OF i] by blast
  then have t: "t = s\<lparr>cs_mux := m1\<rparr>" "mux_step {sd} (cs_mux s) m1" using m by simp_all
  have "conn_ok (ci_conn c) (cs_net t)" using conn sd(1) t(1) by (simp add: conn_ok_def)
  then have at: "attempt (cs_net s) (?S - {sd}) (tc_res (ci_conn c)) x conn n"
    using tryconnect_attempt [OF _ _ n] inv_net [OF i] t(1) conn(1) by simp
  have put: "goes X s s'"
    if "cs_obs s' = (cs_obs s)(a \<mapsto> Client c')" "cs_next s' = cs_next s" "ci_fwd c' = None" "ci_refs c' = ci_refs c"
      "ob_ok mask_at known (cs_mux s') (Client c')" "mux_step D (cs_mux s) (cs_mux s')" "D \<inter> (?S - {sd}) = {}"
      "net_step (cs_net s) (?S - {sd} \<union> owned (Client c')) (cs_net s')" "owned (Client c') \<inter> (?S - {sd}) = {}" for s' c' D
  proof -
    have "inv X s' \<and> stable s s'
      \<and> (\<forall>b. held s' b = (if b = a then ob_refs (Client c') - (if forwarded s a then 1 else 0) else held s b))"
    proof (rule inv_put [OF i a(1) that(1,2) _ _ _ that(5,6)])
      show "D \<inter> others X s a = {}" using that(7) sd by auto
      show "net_step (cs_net s) (others X s a \<union> X \<union> owned (Client c')) (cs_net s')" using that(8) sd(3) by simp
      show "others X s a \<inter> (X \<union> owned (Client c')) = {}" "X \<inter> owned (Client c') = {}"
        using that(9) sd by blast+
    qed (use that(3,4) conn(3) c(2) in simp_all)
    then show ?thesis using that(4) c(3,4) by (auto simp: goes_def)
  qed
  show ?thesis
  proof (cases x)
    case (Inl e)
    then have "goes X s (put a (Client (c\<lparr>ci_conn := conn, ci_sd := None\<rparr>)) u)"
      by (intro put [where c' = "c\<lparr>ci_conn := conn, ci_sd := None\<rparr>" and D = "{sd}"])
         (use at u t conn(3) a(2) in \<open>simp_all add: attempt_def ob_ok_def\<close>)
    then show ?thesis using Inl by simp
  next
    case (Inr y)
    obtain sd' addr est where y: "y = (sd', addr, est)" by (cases y) auto
    have new: "sd' \<notin> ?S - {sd}" "sd' < limit" "net_step (cs_net s) (insert sd' (?S - {sd})) n"
        "tc_sd conn = (if est then None else Some sd')" "tc_res conn \<noteq> []"
      using at Inr y inv_net [OF i] by (auto simp: attempt_def)
    let ?c = "c\<lparr>ci_conn := conn, ci_sd := Some sd', ci_est := est, ci_name := addr\<rparr>"
    have own': "owned (Client ?c) = {sd'}" using new(4) by simp
    show ?thesis
    proof (cases est)
      case True
      have "goes X s (put a (Client ?c) u)"
        by (intro put [where c' = ?c and D = "{sd}"])
           (use new own' True u t conn(3) in \<open>simp_all add: ob_ok_def del: owned_simps\<close>)
      then show ?thesis using Inr y True by (simp add: Let_def)
    next
      case False
      have "good (cs_mux (put a (Client ?c) u))" using t mux_step_good u by simp
      from set_md_valid [OF this valid_limit [OF new(2)] conn_mask(1)] obtain m2 where
        m2: "set_md mo sd' AUG_MDEVENTCONN (put a (Client ?c) u) = (Inr (), put a (Client ?c) u\<lparr>cs_mux := m2\<rparr>)"
          "mux_step {sd'} m1 m2" "known m2 sd'"
        using u t(1) by auto
      have "mux_step {sd, sd'} (cs_mux s) m2"
        using mux_step_trans mux_step_mono [OF t(2), of "{sd, sd'}"] mux_step_mono [OF m2(2), of "{sd, sd'}"] by blast
      then have "goes X s (put a (Client ?c) u\<lparr>cs_mux := m2\<rparr>)"
        by (intro put [where c' = ?c and D = "{sd, sd'}"])
           (use new own' False u t(1) conn(3) m2(3) in \<open>simp_all add: ob_ok_def del: owned_simps\<close>)
      then show ?thesis using Inr y False m2(1) by (simp add: Let_def)
    qed
  qed
qed

lemma client_process_ok:
  assumes i: "inv X s" and a: "cs_obs s a = Some (Client c)" "ci_fwd c = None" and h: "0 < held s a"
  shows "\<exists>r fork s'. client_process mo h a c s = Some ((r, fork), s') \<and> processed X s r s'"
proof -
  note c = client_ok [OF i a(1)]
  have keep: "\<exists>u. map_option (Pair (Some a, False)) (retain a t) = Some ((Some a, False), u) \<and> processed X s (Some a) u"
    if g: "goes X s t" for t
  proof -
    have "0 < held t a" using g h by (auto simp: goes_def intro: less_le_trans)
    then have "cs_obs t a \<noteq> None" using held_alive [of t a] by auto
    from retain_processed [OF g this, of False] show ?thesis .
  qed
  show ?thesis
  proof (cases "ci_sd c")
    case None
    then have "client_process mo h a c s = Some ((None, False), s)" by (simp add: client_process_def)
    then show ?thesis using processed_none [OF goes_refl [OF i]] by blast
  next
    case (Some sd)
    show ?thesis
    proof (cases "ci_est c")
      case True
      then have "client_process mo h a c s = estabclient mo h a c sd s" using Some by (simp add: client_process_def)
      then show ?thesis using estabclient_ok [OF i a(1) True Some h] by simp
    next
      case False
      have sd: "tc_sd (ci_conn c) = Some sd" "known (cs_mux s) sd" using c(1) Some False by (auto simp: ob_ok_def)
      have op: "sd \<in> set (nt_open (cs_net s))" using inv_owned [OF i a(1)] sd(1) by auto
      obtain ev where ev: "events (cs_mux s) sd = Some ev" using events_known sd(2) inv_net [OF i] by blast
      obtain b t where t: "chan_error h a sd ev s = (b, t)" by (cases "chan_error h a sd ev s")
      have g: "goes X s t" and same: "\<not> b \<Longrightarrow> cs_obs t = cs_obs s"
        using chan_error_ok [OF i op _ t] a(1) by auto
      have it: "inv X t" using g by (simp add: goes_def)
      consider (err) "b" | (wait) "\<not> b" "AUG_MDEVENTCONN AND ev = 0" | (conn) "\<not> b" "AUG_MDEVENTCONN AND ev \<noteq> 0" by blast
      then show ?thesis
      proof cases
        case err
        then have "client_process mo h a c s = Some ((None, False), t)" using Some False ev t by (simp add: client_process_def)
        then show ?thesis using processed_none [OF g] by blast
      next
        case wait
        then have "client_process mo h a c s = map_option (Pair (Some a, False)) (retain a t)"
          using Some False ev t by (simp add: client_process_def)
        then show ?thesis using keep [OF g] by metis
      next
        case conn
        have at: "cs_obs t a = Some (Client c)" using same conn(1) a(1) by simp
        have ht: "0 < held t a" using g h by (auto simp: goes_def intro: less_le_trans)
        have "sd \<in> set (nt_open (cs_net t))" using inv_owned [OF it at] sd(1) by auto
        then obtain m where m: "set_md mo sd 0 t = (Inr (), t\<lparr>cs_mux := m\<rparr>)"
          using set_md_valid [OF _ inv_open_valid [OF it] conn_mask(2)] inv_net [OF it] by blast
        obtain x cn n where n: "aug_tryconnect (ci_conn c) (cs_net (t\<lparr>cs_mux := m\<rparr>)) = (x, cn, n)"
          by (cases "aug_tryconnect (ci_conn c) (cs_net (t\<lparr>cs_mux := m\<rparr>))") auto
        let ?u = "t\<lparr>cs_mux := m, cs_net := n\<rparr>"
        note re = reconnect_ok [OF it at False Some ht m n refl]
        show ?thesis
        proof (cases x)
          case (Inl e)
          let ?v = "put a (Client (c\<lparr>ci_conn := cn, ci_sd := None\<rparr>)) ?u"
          have g2: "goes X t ?v" using re Inl by simp
          have g3: "goes X ?v (hd_error h a e ?v)" using error [of X ?v a] g2 by (simp add: goes_def)
          have "client_process mo h a c s = Some ((None, False), hd_error h a e ?v)"
            using Some False ev t conn m n Inl by (simp add: client_process_def)
          then show ?thesis using processed_none [OF goes_trans [OF g goes_trans [OF g2 g3]]] by blast
        next
          case (Inr y)
          obtain sd' addr est where y: "y = (sd', addr, est)" by (cases y) auto
          let ?c = "c\<lparr>ci_conn := cn, ci_sd := Some sd', ci_est := est, ci_name := addr\<rparr>"
          let ?v = "put a (Client ?c) ?u"
          have step: "client_process mo h a c s = (if est then estabclient mo h a ?c sd' ?v
              else map_option (Pair (Some a, False)) (retain a (snd (set_md mo sd' AUG_MDEVENTCONN ?v))))"
            using Some False ev t conn m n Inr y by (simp add: client_process_def Let_def)
          show ?thesis
          proof (cases est)
            case True
            then have g2: "goes X t ?v" using re Inr y by (simp add: Let_def)
            then have "inv X ?v" "0 < held ?v a" using ht by (auto simp: goes_def intro: less_le_trans)
            from estabclient_ok [OF this(1), of a ?c sd'] this(2) True obtain r f s' where
              "estabclient mo h a ?c sd' ?v = Some ((r, f), s')" "processed X ?v r s'" by auto
            then show ?thesis
              using step True processed_trans [OF goes_trans [OF g g2]] by metis
          next
            case False
            then have g2: "goes X t (snd (set_md mo sd' AUG_MDEVENTCONN ?v))" using re Inr y by (simp add: Let_def)
            from keep [OF goes_trans [OF g g2]] show ?thesis using step False by metis
          qed
        qed
      qed
    qed
  qed
qed

lemma same_goes:
  assumes "inv X s" "cs_obs s' = cs_obs s" "cs_next s' = cs_next s" "cs_mux s' = cs_mux s" "cs_net s' = cs_net s"
  shows "goes X s s'"
  using assms held_same [OF assms(2)] stable_same [OF assms(2,3)] by (simp add: goes_def chs_ok_def)

text \<open>A new connection, \<open>sd\<close>, that nobody owns yet.\<close>

lemma server_accepted_ok:
  assumes i: "inv (insert sd X) s" "sd \<notin> X" and h: "0 < held s a"
  shows "\<exists>r fork s'. server_accepted mo h a c sd s = Some ((r, fork), s') \<and> processed X s r s'"
proof -
  let ?X = "insert sd X"
  let ?done = "\<lambda>s. map_option (Pair (Some a, False)) (retain a s)"
  have keep: "\<exists>u. ?done t = Some ((Some a, False), u) \<and> processed X s (Some a) u" if g: "goes X s t" for t
  proof -
    have "0 < held t a" using g h by (auto simp: goes_def intro: less_le_trans)
    then have "cs_obs t a \<noteq> None" using held_alive [of t a] by auto
    from retain_processed [OF g this, of False] show ?thesis .
  qed
  have dropped: "\<exists>u. ?done (close_sd sd t) = Some ((Some a, False), u) \<and> processed X s (Some a) u"
    if g: "goes ?X s t" for t
  proof -
    have "goes (?X - {sd}) t (close_sd sd t)" using close_goes [of ?X t sd] g by (simp add: goes_def)
    then have "goes X s (close_sd sd t)" using goes_trans [OF g] i(2) by simp
    then show ?thesis by (rule keep)
  qed
  have op: "sd \<in> set (nt_open (cs_net t))" if "goes ?X s t" for t
    using inv_user [of ?X t] that by (auto simp: goes_def)
  have op0: "sd \<in> set (nt_open (cs_net s))" using op goes_refl [OF i(1)] by blast
  obtain r1 t1 where t1: "on_net (sys_call sd) s = (r1, t1)" by (cases "on_net (sys_call sd) s")
  have g1: "goes ?X s t1" "cs_next t1 = cs_next s" using call_goes [OF i(1) op0 t1] by simp_all
  have i1: "inv ?X t1" using g1 by (simp add: goes_def)
  obtain r2 t2 where t2: "on_net (sys_call sd) t1 = (r2, t2)" by (cases "on_net (sys_call sd) t1")
  have g2: "goes ?X s t2" "cs_next t2 = cs_next s"
    using call_goes [OF i1 op [OF g1(1)] t2] goes_trans [OF g1(1)] g1(2) by auto
  have i2: "inv ?X t2" using g2 by (simp add: goes_def)
  obtain cid t3 where t3: "aug_nextid t2 = (cid, t3)" by (cases "aug_nextid t2")
  have g3: "goes ?X s t3" "cs_next t3 = cs_next s"
    using same_goes [OF i2, of t3] nextid_simps [of t2] t3 goes_trans [OF g2(1)] g2(2) by simp_all
  have i3: "inv ?X t3" using g3 by (simp add: goes_def)
  obtain r4 t4 where t4: "aug_createplain mo cid sd (si_wantwr c) t3 = (r4, t4)" by (cases "aug_createplain mo cid sd (si_wantwr c) t3")
  note cp = createplain_ok [OF i3 _ t4]
  consider (a) e where "r1 = Some e" | (b) e where "r1 = None" "r2 = Some e" | (c) e where "r1 = None" "r2 = None" "r4 = Inl e"
    | (d) f where "r1 = None" "r2 = None" "r4 = Inr f"
    by (cases r1; cases r2; cases r4) auto
  then show ?thesis
  proof cases
    case (a e)
    then have "server_accepted mo h a c sd s = ?done (close_sd sd t1)" using t1 by (simp add: server_accepted_def)
    then show ?thesis using dropped [OF g1(1)] by metis
  next
    case (b e)
    then have "server_accepted mo h a c sd s = ?done (close_sd sd t2)" using t1 t2 by (simp add: server_accepted_def)
    then show ?thesis using dropped [OF g2(1)] by metis
  next
    case (c e)
    then have "goes ?X s t4" using cp goes_trans [OF g3(1)] by simp
    moreover have "server_accepted mo h a c sd s = ?done (close_sd sd t4)"
      using t1 t2 t3 t4 c by (simp add: server_accepted_def)
    ultimately show ?thesis using dropped by metis
  next
    case (d f)
    then have "goes (?X - {sd}) t3 t4" and f: "held t4 f = 1" "f = cs_next s"
      using cp g3(2) by auto
    then have g4: "goes X s t4" using goes_trans [OF g3(1)] i(2) by simp
    obtain p where p: "cs_obs t4 f = Some (Plain p)" using cp d(3) by auto
    have zero: "held s f = 0" using fresh [OF i(1)] f(2) by (simp add: held_def)
    have i4: "inv X t4" using g4 by (simp add: goes_def)
    obtain b v where v: "hd_estab h f (si_id c) t4 = (b, v)" by (cases "hd_estab h f (si_id c) t4")
    have g5: "goes X t4 v" by (rule estab [OF i4 _ v]) (simp add: p)
    then have "held t4 f \<le> held v f" by (simp add: goes_def)
    then have hv: "0 < held v f" using f(1) by simp
    have g: "goes X s v" by (rule goes_trans [OF g4 g5])
    have run: "server_accepted mo h a c sd s = (if b then Some ((Some f, True), v) else Option.bind (prelease mo f v) ?done)"
      using t1 t2 t3 t4 v d by (simp add: server_accepted_def)
    show ?thesis
    proof (cases b)
      case True
      then show ?thesis
        using run g zero hv by (intro exI [of _ "Some f"] exI [of _ True] exI [of _ v]) (simp add: processed_def)
    next
      case False
      obtain ob where ob: "cs_obs v f = Some ob" using held_alive [OF hv] by blast
      then have "shape ob = 2" using g5 p inv_ob [OF i4 p] by (auto simp: goes_def stable_def)
      then obtain p' where p': "cs_obs v f = Some (Plain p')" using ob shape_plain [of ob] by auto
      have "inv X v" using g by (simp add: goes_def)
      from prelease_ok [OF this p' hv] obtain w where
        w: "prelease mo f v = Some w" "inv X w" "stable v w" "held w = (held v)(f := held v f - 1)" by blast
      have "goes X s w" using g w zero stable_trans [of s v w] by (auto simp: goes_def)
      from keep [OF this] show ?thesis using run False w(1) by auto
    qed
  qed
qed

lemma server_process_ok:
  assumes i: "inv X s" and a: "cs_obs s a = Some (Server c)" and h: "0 < held s a"
  shows "\<exists>r fork s'. server_process mo h a c s = Some ((r, fork), s') \<and> processed X s r s'"
proof (cases "si_sd c")
  case None
  then have "server_process mo h a c s = Some ((None, False), s)" by (simp add: server_process_def)
  then show ?thesis using processed_none [OF goes_refl [OF i]] by blast
next
  case (Some sd)
  have known: "known (cs_mux s) sd" using server_ok(4) [OF i a Some] .
  have op: "sd \<in> set (nt_open (cs_net s))" using inv_owned [OF i a] Some by auto
  obtain ev where ev: "events (cs_mux s) sd = Some ev" using events_known known inv_net [OF i] by blast
  obtain b t where t: "chan_error h a sd ev s = (b, t)" by (cases "chan_error h a sd ev s")
  have g: "goes X s t" and same: "\<not> b \<Longrightarrow> cs_obs t = cs_obs s" using chan_error_ok [OF i op _ t] a by auto
  have it: "inv X t" using g by (simp add: goes_def)
  have ht: "0 < held t a" using g h by (auto simp: goes_def intro: less_le_trans)
  then have alive: "cs_obs t a \<noteq> None" using held_alive [of t a] by auto
  obtain u where u: "map_option (Pair (Some a, False)) (retain a t) = Some ((Some a, False), u)" "processed X s (Some a) u"
    using retain_processed [OF g alive, of False] by (elim exE conjE)
  consider (err) "b" | (wait) "\<not> b" "AUG_MDEVENTRD AND ev = 0" | (acc) "\<not> b" "AUG_MDEVENTRD AND ev \<noteq> 0" by blast
  then show ?thesis
  proof cases
    case err
    then have "server_process mo h a c s = Some ((None, False), t)" using Some ev t by (simp add: server_process_def)
    then show ?thesis using processed_none [OF g] by blast
  next
    case wait
    then have "server_process mo h a c s = map_option (Pair (Some a, False)) (retain a t)"
      using Some ev t by (simp add: server_process_def)
    then show ?thesis using u by metis
  next
    case acc
    have at: "cs_obs t a = Some (Server c)" using same acc(1) a by simp
    have opt: "sd \<in> set (nt_open (cs_net t))" using inv_owned [OF it at] Some by auto
    obtain x n where n: "sys_open (cs_net t) = (x, n)" by (cases "sys_open (cs_net t)")
    note so = sys_open_step [OF _ n]
    have acc': "on_net (sys_accept sd) t = (x, t\<lparr>cs_net := n\<rparr>)"
      using n opt by (simp add: on_net_def sys_accept_def touch_def)
    let ?t = "t\<lparr>cs_net := n\<rparr>"
    show ?thesis
    proof (cases x)
      case (Inl e)
      then have "net_step (cs_net t) (set (nt_open (cs_net t))) n" using so inv_net [OF it] by simp
      then have g2: "goes X t ?t" by (rule goes_net [OF it])
      have gs: "goes X s ?t" by (rule goes_trans [OF g g2])
      have run: "server_process mo h a c s = (if aug_acceptagain e then map_option (Pair (Some a, False)) (retain a ?t)
          else Some ((None, False), hd_error h a e ?t))"
        using Some ev t acc acc' Inl by (simp add: server_process_def)
      have alive2: "cs_obs ?t a \<noteq> None" using alive by simp
      have "goes X ?t (hd_error h a e ?t)" using error [OF _ alive2, of X] g2 by (simp add: goes_def)
      then have "processed X s None (hd_error h a e ?t)" by (rule processed_none [OF goes_trans [OF gs]])
      moreover obtain w where "map_option (Pair (Some a, False)) (retain a ?t) = Some ((Some a, False), w)" "processed X s (Some a) w"
        using retain_processed [OF gs alive2, of False] by (elim exE conjE)
      ultimately show ?thesis using run by (cases "aug_acceptagain e") auto
    next
      case (Inr new)
      let ?S = "set (nt_open (cs_net t))"
      have new: "new \<notin> ?S" "net_step (cs_net t) (insert new ?S) n" using so inv_net [OF it] Inr by simp_all
      have X: "X \<subseteq> ?S" by (rule inv_user [OF it])
      have "?S - X \<union> insert new X = insert new ?S" "(?S - X) \<inter> insert new X = {}" using new(1) X by auto
      then have ie: "inv (insert new X) ?t \<and> stable t ?t \<and> held ?t = held t"
        using inv_env [OF it, of ?t "insert new X"] new(2) inv_net [OF it] mux_step_refl by simp
      then have g2: "goes (insert new X) t ?t" by (simp add: goes_def)
      have "new \<notin> X" using new(1) X by blast
      from server_accepted_ok [OF _ this, of ?t a c] ie ht obtain r f s' where
        "server_accepted mo h a c new ?t = Some ((r, f), s')" "processed X ?t r s'" by auto
      moreover have "server_process mo h a c s = server_accepted mo h a c new ?t"
        using Some ev t acc acc' Inr by (simp add: server_process_def)
      ultimately show ?thesis using processed_trans [OF goes_trans [OF g g2]] by auto
    qed
  qed
qed

section \<open>The interface\<close>

lemma processchan_ok:
  assumes i: "inv X s" and h: "0 < held s a"
  shows "\<exists>r fork s'. aug_processchan mo h a s = Some ((r, fork), s') \<and> processed X s r s'"
proof -
  obtain ob where ob: "cs_obs s a = Some ob" using held_alive [OF h] by blast
  show ?thesis
  proof (cases ob)
    case (Client c)
    show ?thesis
    proof (cases "ci_fwd c")
      case None
      then show ?thesis using client_process_ok [OF i ob [unfolded Client] None h] ob Client by (simp add: aug_processchan_def)
    next
      case (Some f)
      obtain p where p: "cs_obs s f = Some (Plain p)" using forward_plain [OF i ob [unfolded Client] Some] by blast
      have "lasting s f" using ob Client Some h by (auto simp: lasting_def)
      from plain_process_ok [OF i p this] show ?thesis using ob Client Some p by (simp add: aug_processchan_def)
    qed
  next
    case (Server c)
    then show ?thesis using server_process_ok [OF i ob [unfolded Server] h] ob by (simp add: aug_processchan_def)
  next
    case (Plain p)
    have "lasting s a" using h by (simp add: lasting_def)
    from plain_process_ok [OF i ob [unfolded Plain] this] show ?thesis using ob Plain by (simp add: aug_processchan_def)
  qed
qed

end

context chan_system
begin

text \<open>The other operations; those on an open descriptor need one.\<close>

lemma setchanwantwr_ok:
  assumes i: "inv X s" and h: "has_sd s a"
  shows "\<exists>s'. aug_setchanwantwr mo a w s = Some (Inr (), s') \<and> goes X s s'"
proof -
  obtain ob where ob: "cs_obs s a = Some ob" using h by (auto simp: has_sd_def split: option.splits)
  have loc: "goes X s (put a ob' s)"
    if "fwd_of ob' = fwd_of ob" "shape ob' = shape ob" "ob_refs ob' = ob_refs ob" "owned ob' = owned ob"
      "ob_ok mask_at known (cs_mux s) ob'" for ob'
    by (rule inv_local [OF i ob _ _ that(1-4)]) (use that(5) inv_net [OF i] mux_step_refl net_step_refl in simp_all)
  show ?thesis
  proof (cases ob)
    case (Client c)
    show ?thesis
    proof (cases "ci_fwd c")
      case None
      then have "goes X s (put a (Client (c\<lparr>ci_wantwr := w\<rparr>)) s)"
        using loc [of "Client (c\<lparr>ci_wantwr := w\<rparr>)"] Client inv_ob [OF i ob] by (simp add: ob_ok_def)
      then show ?thesis using ob Client None by (simp add: chan_defs)
    next
      case (Some f)
      then obtain p sd where p: "cs_obs s f = Some (Plain p)" "sk_md (pi_sticky p) = Some sd"
        using h ob Client by (auto simp: has_sd_def split: option.splits chob.splits)
      show ?thesis using setwantwr_ok [OF i p] ob Client Some by (simp add: chan_defs)
    qed
  next
    case (Server c)
    then have "goes X s (put a (Server (c\<lparr>si_wantwr := w\<rparr>)) s)"
      using loc [of "Server (c\<lparr>si_wantwr := w\<rparr>)"] inv_ob [OF i ob] by (simp add: ob_ok_def)
    then show ?thesis using ob Server by (simp add: chan_defs)
  next
    case (Plain p)
    then obtain sd where "sk_md (pi_sticky p) = Some sd" using h ob by (auto simp: has_sd_def)
    from setwantwr_ok [OF i ob [unfolded Plain] this] show ?thesis using ob Plain by (simp add: chan_defs)
  qed
qed

lemma ischanready_ok:
  assumes i: "inv X s" and h: "cs_obs s a \<noteq> None"
  shows "\<exists>r s'. aug_ischanready mo a s = Some (r, s') \<and> goes X s s'"
proof -
  obtain ob where ob: "cs_obs s a = Some ob" using h by blast
  show ?thesis
  proof (cases ob)
    case (Client c)
    show ?thesis
    proof (cases "ci_fwd c")
      case None
      then show ?thesis using ob Client goes_refl [OF i] by (auto simp: chan_defs)
    next
      case (Some f)
      obtain p where p: "cs_obs s f = Some (Plain p)" using forward_plain [OF i ob [unfolded Client] Some] by blast
      show ?thesis using isready_ok [OF i p] ob Client Some by (simp add: chan_defs)
    qed
  next
    case (Server c)
    then show ?thesis using ob goes_refl [OF i] by (auto simp: chan_defs)
  next
    case (Plain p)
    then show ?thesis using isready_ok [OF i ob [unfolded Plain]] ob by (simp add: chan_defs)
  qed
qed

lemma own_cast_ok:
  assumes i: "inv X s" and a: "cs_obs s a \<noteq> None"
  shows "\<exists>r s'. own_cast a j s = Some (r, s') \<and> goes X s s' \<and> (\<forall>b. r = Some b \<longrightarrow> held s b < held s' b)"
proof -
  obtain ob where ob: "cs_obs s a = Some ob" using a by blast
  obtain t where "retain a s = Some t" "goes X s t" "held s a < held t a" using retain_goes [OF i a] by blast
  then show ?thesis using ob goes_refl [OF i] by (auto simp: own_cast_def)
qed

lemma chan_cast_ok:
  assumes i: "inv X s" and h: "0 < held s a"
  shows "\<exists>r s'. chan_cast a j s = Some (r, s') \<and> goes X s s' \<and> (\<forall>b. r = Some b \<longrightarrow> held s b < held s' b)"
proof -
  obtain ob where ob: "cs_obs s a = Some ob" using held_alive [OF h] by blast
  have "\<exists>b. chan_cast a j s = own_cast b j s \<and> cs_obs s b \<noteq> None"
  proof (cases "\<exists>c f. ob = Client c \<and> ci_fwd c = Some f")
    case True
    then obtain c f where c: "ob = Client c" "ci_fwd c = Some f" by blast
    obtain p where "cs_obs s f = Some (Plain p)" using forward_plain [OF i ob [unfolded c(1)] c(2)] by blast
    then show ?thesis using ob c by (intro exI [of _ f]) (simp add: chan_cast_def)
  next
    case False
    then show ?thesis
      using ob by (intro exI [of _ a]) (auto simp: chan_cast_def split: chob.splits option.splits)
  qed
  then show ?thesis using own_cast_ok [OF i] by metis
qed

lemma getchanid_ok:
  assumes "inv X s" "0 < held s a"
  shows "aug_getchanid a s \<noteq> None"
proof -
  obtain ob where ob: "cs_obs s a = Some ob" using held_alive [OF assms(2)] by blast
  show ?thesis
  proof (cases "\<exists>c f. ob = Client c \<and> ci_fwd c = Some f")
    case True
    then obtain c f where c: "ob = Client c" "ci_fwd c = Some f" by blast
    obtain p where "cs_obs s f = Some (Plain p)" using forward_plain [OF assms(1) ob [unfolded c(1)] c(2)] by blast
    then show ?thesis using ob c by (simp add: chan_defs)
  next
    case False
    then show ?thesis using ob by (auto simp: chan_defs split: chob.splits option.splits)
  qed
qed

end

end
