(* ===== verification/ChanRun.thy ===== *)
theory ChanRun
  imports ChanOps
begin

text \<open>
  Channels in use (\<^verbatim>\<open>augnet/chan.c\<close>): any sequence of the operations of \<open>Chan\<close> by users that
  hold the channels they act on, with any answers of the system and any handler that acts on
  the channels from its callbacks.
\<close>

section \<open>Handlers\<close>

text \<open>
  A handler answers each callback with a verdict and operations, by any function of the event
  and the state.  An operation is skipped where its user would break a rule: on a channel that
  is gone, or closed where it must be open.
\<close>

datatype happening = Estab nat nat | Ready nat mask | Failed nat aug_fail

datatype chan_cmd = Hold nat | Close nat | WantWr nat bool | AskReady nat | Stream nat mask

definition or_same :: "'m chs \<Rightarrow> 'm chs option \<Rightarrow> 'm chs" where
  "or_same s t = (case t of Some s' \<Rightarrow> s' | None \<Rightarrow> s)"

definition open_stream :: "'m chs \<Rightarrow> nat \<Rightarrow> bool" where
  "open_stream s a \<longleftrightarrow> (case cs_obs s a of Some (Plain p) \<Rightarrow> sk_md (pi_sticky p) \<noteq> None | _ \<Rightarrow> False)"

fun run_cmd :: "'m mops \<Rightarrow> chan_cmd \<Rightarrow> 'm chs \<Rightarrow> 'm chs" where
  "run_cmd mo (Hold a) s = or_same s (retain a s)"
| "run_cmd mo (Close a) s = (if has_sd s a then or_same s (aug_closechan mo a s) else s)"
| "run_cmd mo (WantWr a w) s = (if has_sd s a then or_same s (map_option snd (aug_setchanwantwr mo a w s)) else s)"
| "run_cmd mo (AskReady a) s = or_same s (map_option snd (aug_ischanready mo a s))"
| "run_cmd mo (Stream a ev) s = (if open_stream s a then or_same s (map_option snd (pstream_io mo ev a s)) else s)"

definition scripted :: "'m mops \<Rightarrow> (happening \<Rightarrow> 'm chs \<Rightarrow> bool \<times> chan_cmd list) \<Rightarrow> 'm chandler" where
  "scripted mo script =
     \<lparr>hd_estab = (\<lambda>f cid s. let (b, cs) = script (Estab f cid) s in (b, fold (run_cmd mo) cs s)),
      hd_ready = (\<lambda>f ev s. let (b, cs) = script (Ready f ev) s in (b, fold (run_cmd mo) cs s)),
      hd_error = (\<lambda>f e s. fold (run_cmd mo) (snd (script (Failed f e) s)) s)\<rparr>"

section \<open>Users\<close>

text \<open>
  \<open>chan_run mo waits h s0 X s\<close>: from \<open>s0\<close> the users came to \<open>s\<close>, where they have the
  descriptors \<open>X\<close> open themselves.  They give back no reference they do not hold, use the
  channels they hold, and close, or set the events of, a channel that has its descriptor.
\<close>

inductive chan_run ::
  "'m mops \<Rightarrow> ('m \<Rightarrow> 'm \<Rightarrow> bool) \<Rightarrow> 'm chandler \<Rightarrow> 'm chs \<Rightarrow> md set \<Rightarrow> 'm chs \<Rightarrow> bool"
  for mo waits h s0 where
  started: "chan_run mo waits h s0 (set (nt_open (cs_net s0))) s0"
| opened: "chan_run mo waits h s0 X s \<Longrightarrow> on_net sys_open s = (r, s') \<Longrightarrow>
    chan_run mo waits h s0 (case r of Inl e \<Rightarrow> X | Inr sd \<Rightarrow> insert sd X) s'"
| used: "chan_run mo waits h s0 X s \<Longrightarrow> sd \<in> X \<Longrightarrow> on_net (sys_call sd) s = (r, s') \<Longrightarrow> chan_run mo waits h s0 X s'"
| shut: "chan_run mo waits h s0 X s \<Longrightarrow> sd \<in> X \<Longrightarrow> chan_run mo waits h s0 (X - {sd}) (close_sd sd s)"
| plain: "chan_run mo waits h s0 X s \<Longrightarrow> sd \<in> X \<Longrightarrow> aug_createplain mo cid sd w s = (r, s') \<Longrightarrow>
    chan_run mo waits h s0 (case r of Inl e \<Rightarrow> X | Inr a \<Rightarrow> X - {sd}) s'"
| server: "chan_run mo waits h s0 X s \<Longrightarrow> sd \<in> X \<Longrightarrow> aug_createserver mo sd s = (r, s') \<Longrightarrow>
    chan_run mo waits h s0 (case r of Inl e \<Rightarrow> X | Inr a \<Rightarrow> X - {sd}) s'"
| client: "chan_run mo waits h s0 X s \<Longrightarrow> aug_createclient mo addrs s = (r, s') \<Longrightarrow> chan_run mo waits h s0 X s'"
| retained: "chan_run mo waits h s0 X s \<Longrightarrow> 0 < held s a \<Longrightarrow> retain a s = Some s' \<Longrightarrow> chan_run mo waits h s0 X s'"
| released: "chan_run mo waits h s0 X s \<Longrightarrow> 0 < held s a \<Longrightarrow> aug_releasechan mo a s = Some s' \<Longrightarrow>
    chan_run mo waits h s0 X s'"
| closed: "chan_run mo waits h s0 X s \<Longrightarrow> 0 < held s a \<Longrightarrow> has_sd s a \<Longrightarrow> aug_closechan mo a s = Some s' \<Longrightarrow>
    chan_run mo waits h s0 X s'"
| wanted: "chan_run mo waits h s0 X s \<Longrightarrow> 0 < held s a \<Longrightarrow> has_sd s a \<Longrightarrow>
    aug_setchanwantwr mo a w s = Some (r, s') \<Longrightarrow> chan_run mo waits h s0 X s'"
| asked: "chan_run mo waits h s0 X s \<Longrightarrow> 0 < held s a \<Longrightarrow> aug_ischanready mo a s = Some (b, s') \<Longrightarrow>
    chan_run mo waits h s0 X s'"
| streamed: "chan_run mo waits h s0 X s \<Longrightarrow> 0 < held s a \<Longrightarrow> open_stream s a \<Longrightarrow>
    pstream_io mo ev a s = Some (r, s') \<or> pstream_shutdown a s = Some (r, s') \<Longrightarrow> chan_run mo waits h s0 X s'"
| cast: "chan_run mo waits h s0 X s \<Longrightarrow> 0 < held s a \<Longrightarrow> chan_cast a i s = Some (q, s') \<Longrightarrow> chan_run mo waits h s0 X s'"
| processed: "chan_run mo waits h s0 X s \<Longrightarrow> 0 < held s a \<Longrightarrow> aug_processchan mo h a s = Some (q, s') \<Longrightarrow>
    chan_run mo waits h s0 X s'"
| waited: "chan_run mo waits h s0 X s \<Longrightarrow> waits (cs_mux s) m \<Longrightarrow> chan_run mo waits h s0 X (s\<lparr>cs_mux := m\<rparr>)"

text \<open>At the start there are no channels; the descriptors open are the users'.\<close>

definition chan_start :: "md \<Rightarrow> 'm \<Rightarrow> 'm chs \<Rightarrow> bool" where
  "chan_start limit m s \<longleftrightarrow> cs_obs s = (\<lambda>_. None) \<and> cs_mux s = m
     \<and> net_ok (cs_net s) \<and> \<not> nt_bad (cs_net s) \<and> nt_max (cs_net s) = limit"

lemma fwd_at_client: "fwd_at obs a = Some f \<longleftrightarrow> (\<exists>c. obs a = Some (Client c) \<and> ci_fwd c = Some f)"
proof (cases "obs a")
  case (Some ob)
  then show ?thesis by (cases ob) (simp_all add: fwd_at_def)
qed (simp add: fwd_at_def)

context chan_system
begin

lemma run_cmd_goes: "inv X s \<Longrightarrow> goes X s (run_cmd mo c s)"
proof -
  assume i: "inv X s"
  show ?thesis
  proof (cases c)
    case (Hold a)
    show ?thesis
    proof (cases "cs_obs s a")
      case None
      then have "retain a s = None" by (simp add: retain_def)
      then show ?thesis using Hold goes_refl [OF i] by (simp add: or_same_def)
    next
      case (Some ob)
      then show ?thesis using Hold retain_goes [OF i, of a] by (auto simp: or_same_def)
    qed
  next
    case (Close a)
    then show ?thesis using closechan_ok [OF i, of a] goes_refl [OF i] by (auto simp: or_same_def)
  next
    case (WantWr a w)
    then show ?thesis using setchanwantwr_ok [OF i, of a w] goes_refl [OF i] by (auto simp: or_same_def)
  next
    case (AskReady a)
    show ?thesis
    proof (cases "cs_obs s a")
      case None
      then have "aug_ischanready mo a s = None" by (simp add: chan_defs)
      then show ?thesis using AskReady goes_refl [OF i] by (simp add: or_same_def)
    next
      case (Some ob)
      then show ?thesis using AskReady ischanready_ok [OF i, of a] by (auto simp: or_same_def)
    qed
  next
    case (Stream a ev)
    show ?thesis
    proof (cases "open_stream s a")
      case True
      then obtain p sd where "cs_obs s a = Some (Plain p)" "sk_md (pi_sticky p) = Some sd"
        by (auto simp: open_stream_def split: option.splits chob.splits)
      from stream_ok [OF i this, of ev] show ?thesis using Stream True by (auto simp: or_same_def)
    next
      case False
      then show ?thesis using Stream goes_refl [OF i] by simp
    qed
  qed
qed

lemma run_cmds_goes: "inv X s \<Longrightarrow> goes X s (fold (run_cmd mo) cs s)"
proof (induction cs arbitrary: s)
  case Nil
  then show ?case by (simp add: goes_refl)
next
  case (Cons c cs)
  have g: "goes X s (run_cmd mo c s)" by (rule run_cmd_goes [OF Cons.prems])
  then have "inv X (run_cmd mo c s)" by (simp add: goes_def)
  from goes_trans [OF g Cons.IH [OF this]] show ?case by simp
qed

lemma scripted_users:
  "chan_users set_mask events mask_at polled known good valid waited limit (scripted mo script)"
proof unfold_locales
  fix X s f cid b s'
  assume "inv X s" "hd_estab (scripted mo script) f cid s = (b, s')"
  then show "goes X s s'" using run_cmds_goes by (auto simp: scripted_def split: prod.splits)
next
  fix X s f ev b s'
  assume "inv X s" "hd_ready (scripted mo script) f ev s = (b, s')"
  then show "goes X s s'" using run_cmds_goes by (auto simp: scripted_def split: prod.splits)
next
  fix X s f e
  assume "inv X s"
  then show "goes X s (hd_error (scripted mo script) f e s)" using run_cmds_goes by (simp add: scripted_def)
qed

lemma start_inv: "chan_start limit m s \<Longrightarrow> good m \<Longrightarrow> inv (set (nt_open (cs_net s))) s"
  by (simp add: chan_start_def chs_ok_def fwds_ok_def fwd_at_def owns_def)

text \<open>When nobody holds a channel, there is none.\<close>

lemma nothing_left:
  assumes i: "inv X s" and h: "\<And>a. held s a = 0"
  shows "cs_obs s = (\<lambda>_. None) \<and> set (nt_open (cs_net s)) = X"
proof -
  have gone: "cs_obs s a = None" if "\<not> forwarded s a" for a
  proof (cases "cs_obs s a")
    case (Some ob)
    then show ?thesis using that h [of a] inv_ob [OF i Some] by (simp add: held_def)
  qed simp
  have "\<not> forwarded s f" for f
  proof
    assume "forwarded s f"
    then obtain b c where b: "cs_obs s b = Some (Client c)"
      by (auto simp: forwarded_def fwd_at_client)
    show False using gone [OF client_ok(3) [OF i b]] b by simp
  qed
  then have none: "cs_obs s = (\<lambda>_. None)" using gone by auto
  then show ?thesis using i by (simp add: chs_ok_def owns_def)
qed

end

context chan_users
begin

lemma run_inv:
  assumes "chan_run mo waited h s0 X s" "chan_start limit m0 s0" "good m0"
  shows "inv X s"
  using assms(1)
proof (induction rule: chan_run.induct)
  case started
  show ?case by (rule start_inv [OF assms(2,3)])
next
  case (opened X s r s')
  obtain n where n: "sys_open (cs_net s) = (r, n)" "s' = s\<lparr>cs_net := n\<rparr>" using on_netE [OF opened(2)] .
  note i = opened.IH
  have X: "X \<subseteq> set (nt_open (cs_net s))" by (rule inv_user [OF i])
  note so = sys_open_step [OF _ n(1)]
  show ?case
  proof (cases r)
    case (Inl e)
    then show ?thesis using so goes_net [OF i, of n] inv_net [OF i] n(2) by (simp add: goes_def)
  next
    case (Inr sd)
    have new: "sd \<notin> set (nt_open (cs_net s))" "net_step (cs_net s) (insert sd (set (nt_open (cs_net s)))) n"
      using so Inr inv_net [OF i] by simp_all
    have "set (nt_open (cs_net s)) - X \<union> insert sd X = insert sd (set (nt_open (cs_net s)))"
      "(set (nt_open (cs_net s)) - X) \<inter> insert sd X = {}" using X new(1) by auto
    then show ?thesis
      using inv_env [OF i, of s' "insert sd X"] new(2) n(2) Inr inv_net [OF i] mux_step_refl by simp
  qed
next
  case (used X s sd r s')
  then show ?case using call_goes [of X s sd r s'] inv_user [of X s] by (auto simp: goes_def)
next
  case (shut X s sd)
  then show ?case using close_user by simp
next
  case (plain X s sd cid w r s')
  show ?case using createplain_ok [OF plain.IH plain(2,3)] by (cases r) (auto simp: goes_def)
next
  case (server X s sd r s')
  show ?case using createserver_ok [OF server.IH server(2,3)] by (cases r) auto
next
  case (client X s addrs r s')
  show ?case using createclient_ok [OF client.IH client(2)] by simp
next
  case (retained X s a s')
  then show ?case using retain_ok [of X s a] held_alive [of s a] by auto
next
  case (released X s a s')
  then show ?case using releasechan_ok [of X s a] by auto
next
  case (closed X s a s')
  then show ?case using closechan_ok [of X s a] by (auto simp: goes_def)
next
  case (wanted X s a w r s')
  then show ?case using setchanwantwr_ok [of X s a w] by (auto simp: goes_def)
next
  case (asked X s a b s')
  then show ?case using ischanready_ok [of X s a] held_alive [of s a] by (auto simp: goes_def)
next
  case (streamed X s a ev r s')
  then obtain p sd where "cs_obs s a = Some (Plain p)" "sk_md (pi_sticky p) = Some sd"
    by (auto simp: open_stream_def split: option.splits chob.splits)
  then show ?case
    using streamed(4) stream_ok [OF streamed.IH, of a p sd ev] shutdown_ok [OF streamed.IH, of a p sd] by (auto simp: goes_def)
next
  case (cast X s a i q s')
  then show ?case using chan_cast_ok [of X s a i] by (auto simp: goes_def)
next
  case (processed X s a q s')
  then show ?case using processchan_ok [of X s a] by (auto simp: processed_def goes_def)
next
  case (waited X s m)
  note i = waited.IH
  have w: "good m" "mask_at m = mask_at (cs_mux s)" "known m = known (cs_mux s)"
    using waited_same [OF _ waited(2)] inv_net [OF i] by simp_all
  have "ob_ok mask_at known m ob = ob_ok mask_at known (cs_mux s) ob" for ob
    using w by (simp add: ob_ok_def sticky_ok_def split: chob.split)
  then show ?case using i w(1) by (simp add: chs_ok_def)
qed

end

section \<open>On the multiplexers\<close>

definition select_ops :: "smuxer mops" where
  "select_ops = \<lparr>mo_set = select_setmask, mo_events = select_events\<rparr>"

definition poll_ops :: "pmuxer mops" where
  "poll_ops = \<lparr>mo_set = poll_setmask True, mo_events = poll_events\<rparr>"

interpretation sch: chan_system select_setmask select_events smask spolled "\<lambda>m md. md < FD_SETSIZE" sgood
    "\<lambda>md. md < FD_SETSIZE" swaited FD_SETSIZE
  by unfold_locales

interpretation pch: chan_system "poll_setmask True" poll_events pmask ppolled "\<lambda>m md. md < length (pm_fds m)" pgood
    "\<lambda>_. True" pwaited limit for limit
  by unfold_locales simp

interpretation scu: chan_users select_setmask select_events smask spolled "\<lambda>m md. md < FD_SETSIZE" sgood
    "\<lambda>md. md < FD_SETSIZE" swaited FD_SETSIZE "scripted select_ops script" for script
  unfolding select_ops_def by (rule sch.scripted_users)

interpretation pcu: chan_users "poll_setmask True" poll_events pmask ppolled "\<lambda>m md. md < length (pm_fds m)" pgood
    "\<lambda>_. True" pwaited limit "scripted poll_ops script" for limit script
  unfolding poll_ops_def by (rule pch.scripted_users)

lemma select_run_ok:
  assumes "chan_start FD_SETSIZE select_create s0" "chan_run select_ops swaited (scripted select_ops script) s0 X s"
  shows "chs_ok smask (\<lambda>m md. md < FD_SETSIZE) sgood FD_SETSIZE X s"
  by (rule scu.run_inv [folded select_ops_def, OF assms(2,1) select_create_start(1)])

lemma poll_run_ok:
  assumes "poll_create True = Some m0" "chan_start limit m0 s0"
    "chan_run poll_ops pwaited (scripted poll_ops script) s0 X s"
  shows "chs_ok pmask (\<lambda>m md. md < length (pm_fds m)) pgood limit X s"
  by (rule pcu.run_inv [folded poll_ops_def, OF assms(3,2) poll_create_start(1) [OF assms(1)]])

text \<open>A channel without its descriptor must not be closed.\<close>

lemma closed_twice: "\<not> has_sd s a \<Longrightarrow> aug_closechan mo a s = None"
proof (cases "cs_obs s a")
  case None
  then show ?thesis by (simp add: chan_defs)
next
  case (Some ob)
  assume n: "\<not> has_sd s a"
  show ?thesis
  proof (cases ob)
    case (Client c)
    show ?thesis
    proof (cases "ci_fwd c")
      case None
      then show ?thesis using n Some Client by (simp add: has_sd_def chan_defs cclose_def)
    next
      case f: (Some f)
      then have "pclose mo f s = None"
        using n Some Client by (auto simp: has_sd_def pclose_def split: option.splits chob.splits)
      then show ?thesis using f Some Client by (simp add: chan_defs)
    qed
  qed (use n Some in \<open>simp_all add: has_sd_def chan_defs sclose_def pclose_def\<close>)
qed

section \<open>Properties\<close>

text \<open>
  C7: Whatever users do with channels over select, whatever the system answers and the
  handler does from its callbacks, every open descriptor has exactly one owner, a user or one
  channel; no descriptor is used or closed after it was closed; and when the last reference
  to the last channel is given back, nothing is left open but what the users opened.
\<close>
theorem chan_owners:
  assumes "chan_start FD_SETSIZE select_create s0"
    and "chan_run select_ops swaited (scripted select_ops script) s0 X s"
  shows "\<not> nt_bad (cs_net s) \<and> distinct (nt_open (cs_net s)) \<and> owns (cs_obs s) X (set (nt_open (cs_net s)))
    \<and> ((\<forall>a. held s a = 0) \<longrightarrow> cs_obs s = (\<lambda>_. None) \<and> set (nt_open (cs_net s)) = X)"
proof -
  note i = select_run_ok [OF assms]
  have "\<not> nt_bad (cs_net s)" "distinct (nt_open (cs_net s))" "owns (cs_obs s) X (set (nt_open (cs_net s)))"
    using i by (simp_all add: chs_ok_def net_ok_def)
  then show ?thesis using sch.nothing_left [OF i] by blast
qed

text \<open>
  C8: What one may do with a channel one holds.  In any run over select, with descriptors below
  \<open>FD_SETSIZE\<close> and a handler whose callbacks (\<open>chan_cmd\<close>) retain, close and query channels and use
  their streams but do not release or create channels, each operation on a channel that is held is defined as follows: processing,
  releasing, retaining and casting it, asking whether it is ready and asking for its id always
  are; closing it is exactly when it still has its descriptor (closing a channel a second time passes
  the descriptor -1 to the multiplexer); and asking for writable events succeeds when it still has
  its descriptor (nothing is claimed for one without).
\<close>
theorem chan_defined:
  assumes "chan_start FD_SETSIZE select_create s0"
    and "chan_run select_ops swaited (scripted select_ops script) s0 X s" and "0 < held s a"
  shows "aug_processchan select_ops (scripted select_ops script) a s \<noteq> None
    \<and> aug_releasechan select_ops a s \<noteq> None \<and> retain a s \<noteq> None \<and> chan_cast a i s \<noteq> None
    \<and> aug_ischanready select_ops a s \<noteq> None \<and> aug_getchanid a s \<noteq> None
    \<and> (aug_closechan select_ops a s \<noteq> None \<longleftrightarrow> has_sd s a)
    \<and> (has_sd s a \<longrightarrow> (\<exists>s'. aug_setchanwantwr select_ops a w s = Some (Inr (), s')))"
proof -
  note i = select_run_ok [OF assms(1,2)]
  note ops = sch.releasechan_ok [folded select_ops_def, OF i assms(3)] sch.ischanready_ok [folded select_ops_def, OF i, of a]
    scu.processchan_ok [folded select_ops_def, OF i assms(3), of script]
  have "retain a s \<noteq> None" using sch.retain_ok [OF i, of a] held_alive [OF assms(3)] by auto
  moreover have "chan_cast a i s \<noteq> None" using sch.chan_cast_ok [OF i assms(3), of i] by auto
  moreover have "aug_getchanid a s \<noteq> None" by (rule sch.getchanid_ok [OF i assms(3)])
  moreover have "aug_closechan select_ops a s \<noteq> None \<longleftrightarrow> has_sd s a"
    using sch.closechan_ok [folded select_ops_def, OF i, of a] closed_twice [of s a select_ops] by (cases "has_sd s a") auto
  moreover have "has_sd s a \<Longrightarrow> \<exists>s'. aug_setchanwantwr select_ops a w s = Some (Inr (), s')"
    using sch.setchanwantwr_ok [folded select_ops_def, OF i, of a w] by auto
  ultimately show ?thesis using ops held_alive [OF assms(3)] by auto
qed

text \<open>A user's descriptor 3, and a client that is connected at once.\<close>

definition demo_chs :: "smuxer chs" where
  "demo_chs = \<lparr>cs_net = \<lparr>nt_open = [3], nt_pick = \<lambda>_. 4, nt_max = FD_SETSIZE, nt_bad = False, nt_answers = \<lambda>_. None, nt_time = 0\<rparr>,
     cs_mux = select_create, cs_obs = \<lambda>_. None, cs_next = 0, cs_ids = 1\<rparr>"

definition demo_client :: "smuxer chs" where
  "demo_client = snd (aug_createclient select_ops (Inr [7]) demo_chs)"

lemma demo_start: "chan_start FD_SETSIZE select_create demo_chs"
  by (simp add: chan_start_def demo_chs_def net_ok_def FD_SETSIZE_def)

lemma demo_created:
  "fst (aug_createclient select_ops (Inr [7]) demo_chs) = Inr 0
   \<and> cs_obs demo_client = [0 \<mapsto> Client \<lparr>ci_refs = 1, ci_id = 1, ci_name = 7, ci_sd = Some 4, ci_wantwr = False,
        ci_conn = \<lparr>tc_res = [7], tc_sd = None\<rparr>, ci_est = True, ci_fwd = None\<rparr>]
   \<and> nt_open (cs_net demo_client) = [4, 3]"
  by (simp add: demo_client_def demo_chs_def aug_createclient_def aug_createtcpconnect_def aug_tryconnect_def
      on_net_def answer_def sys_open_def sys_call_def touch_def Let_def aug_nextid_def INT_MAX_def FD_SETSIZE_def put_def)

lemma demo_client_run: "chan_run select_ops swaited (scripted select_ops script) demo_chs {3} demo_client"
proof -
  have "chan_run select_ops swaited (scripted select_ops script) demo_chs {3} demo_chs"
    using chan_run.started [of select_ops swaited "scripted select_ops script" demo_chs] by (simp add: demo_chs_def)
  then show ?thesis
    by (rule chan_run.client) (simp add: demo_client_def prod_eq_iff)
qed

theorem chan_owners_witness:
  "\<not> nt_bad (cs_net demo_client) \<and> owns (cs_obs demo_client) {3} {4, 3}"
  using chan_owners [OF demo_start demo_client_run [of "\<lambda>_ _. (True, [])"]] demo_created by auto

theorem chan_defined_witness:
  "aug_processchan select_ops (scripted select_ops (\<lambda>_ s. (False, [Close 0, Close 1]))) 0 demo_client \<noteq> None
    \<and> aug_closechan select_ops 0 demo_client \<noteq> None"
proof -
  have "forwarded demo_client 0 = False" "has_sd demo_client 0" "0 < held demo_client 0"
    using demo_created by (auto simp: forwarded_def fwd_at_client has_sd_def held_def)
  then show ?thesis
    using chan_defined [OF demo_start demo_client_run [of "\<lambda>_ s. (False, [Close 0, Close 1])"], of 0] by blast
qed

end
