(* ===== verification/Tmspec.thy ===== *)
theory Tmspec
  imports Conv "HOL-Library.Product_Lexorder"
begin

text \<open>
  \<^verbatim>\<open>augutil/tmspec.c\<close>: time specifications such as ``17H0M'', and the next time that meets one.
  \<open>tm\<close> is the C library's \<^verbatim>\<open>struct tm\<close>, \<open>tmspec\<close> is \<^verbatim>\<open>struct aug_tmspec\<close>; the value -1 of a
  component stands for one that is not given.  Years are taken not to overflow.

  A moment is a date (year, month, day, from 0) and a time of day, in lexicographic order.
  \<open>nexttime_earliest\<close> says that the code finds the earliest matching moment after the current
  one, in the calendar the code has, and \<open>leap_day_goes_back\<close> that this is not ours;
  \<open>nexttime_weekly\<close> is the same for days of the week, and \<open>strtmspec_roundtrip\<close> says that a
  specification is read back from its text.
\<close>

section \<open>The code\<close>

record tm =
  tm_sec :: int
  tm_min :: int
  tm_hour :: int
  tm_mday :: int
  tm_mon :: int
  tm_year :: int
  tm_wday :: int
  tm_yday :: int
  tm_isdst :: int

record tmspec =
  ts_min :: int
  ts_hour :: int
  ts_mday :: int
  ts_mon :: int
  ts_wday :: int

definition FIXED :: "int \<Rightarrow> bool" where "FIXED x \<longleftrightarrow> -1 \<noteq> x"

definition MDAYS :: "int list" where "MDAYS = [31, 28, 31, 30, 31, 30, 31, 31, 30, 31, 30, 31]"

definition isleap :: "int \<Rightarrow> bool" where
  "isleap year \<longleftrightarrow> year mod 4 \<noteq> 0 \<and> (0 \<noteq> year mod 100 \<or> 0 = year mod 400)"

definition mdays :: "int \<Rightarrow> int \<Rightarrow> int" where
  "mdays mon year = (if 1 = mon \<and> isleap year then 29 else MDAYS ! nat mon)"

definition mday :: "tm \<Rightarrow> int" where
  "mday tm =
     (let last = mdays (tm_mon tm) (tm_year tm + 1900) - 1
      in if last < tm_mday tm then last else tm_mday tm)"

definition nextmon :: "tm \<Rightarrow> tmspec \<Rightarrow> tm" where
  "nextmon tm tms =
     (if FIXED (ts_mon tms) then tm\<lparr>tm_year := tm_year tm + 1\<rparr>
      else
        let tm = tm\<lparr>tm_mon := (tm_mon tm + 1) mod 12\<rparr>
        in if 0 = tm_mon tm then tm\<lparr>tm_year := tm_year tm + 1\<rparr> else tm)"

definition nextmday :: "tm \<Rightarrow> tmspec \<Rightarrow> tm" where
  "nextmday tm tms =
     (if FIXED (ts_mday tms) then nextmon tm tms
      else
        let n = mdays (tm_mon tm) (tm_year tm + 1900);
            tm = tm\<lparr>tm_mday := (tm_mday tm + 1) mod n\<rparr>
        in if 0 = tm_mday tm then nextmon tm tms else tm)"

definition nextmhour :: "tm \<Rightarrow> tmspec \<Rightarrow> tm" where
  "nextmhour tm tms =
     (if FIXED (ts_hour tms) then nextmday tm tms
      else
        let tm = tm\<lparr>tm_hour := (tm_hour tm + 1) mod 24\<rparr>
        in if 0 = tm_hour tm then nextmday tm tms else tm)"

definition nextmmin :: "tm \<Rightarrow> tmspec \<Rightarrow> tm" where
  "nextmmin tm tms =
     (if FIXED (ts_min tms) then nextmhour tm tms
      else
        let tm = tm\<lparr>tm_min := (tm_min tm + 1) mod 60\<rparr>
        in if 0 = tm_min tm then nextmhour tm tms else tm)"

definition nextwday :: "tm \<Rightarrow> tmspec \<Rightarrow> tm" where
  "nextwday tm tms = tm\<lparr>tm_mday := tm_mday tm + (if FIXED (ts_wday tms) then 7 else 1)\<rparr>"

definition nextwhour :: "tm \<Rightarrow> tmspec \<Rightarrow> tm" where
  "nextwhour tm tms =
     (if FIXED (ts_hour tms) then nextwday tm tms
      else
        let tm = tm\<lparr>tm_hour := (tm_hour tm + 1) mod 24\<rparr>
        in if 0 = tm_hour tm then nextwday tm tms else tm)"

definition nextwmin :: "tm \<Rightarrow> tmspec \<Rightarrow> tm" where
  "nextwmin tm tms =
     (if FIXED (ts_min tms) then nextwhour tm tms
      else
        let tm = tm\<lparr>tm_min := (tm_min tm + 1) mod 60\<rparr>
        in if 0 = tm_min tm then nextwhour tm tms else tm)"

text \<open>The label \<^verbatim>\<open>done\<close> of \<^verbatim>\<open>nextmtime_\<close>.\<close>

definition finish :: "tm \<Rightarrow> tm" where
  "finish out = out\<lparr>tm_mday := mday out\<rparr>"

definition nextmtime :: "tm \<Rightarrow> tmspec \<Rightarrow> tm" where
  "nextmtime tm tms =
     (let out = \<lparr>tm_sec = 0,
          tm_min = (if FIXED (ts_min tms) then ts_min tms else 0),
          tm_hour = (if FIXED (ts_hour tms) then ts_hour tms else 0),
          tm_mday = (if FIXED (ts_mday tms) then ts_mday tms else 0),
          tm_mon = (if FIXED (ts_mon tms) then ts_mon tms else 0),
          tm_year = tm_year tm, tm_wday = 0, tm_yday = 0, tm_isdst = -1\<rparr>
      in if FIXED (ts_mon tms) \<and> tm_mon out \<noteq> tm_mon tm then
           finish (if tm_mon out < tm_mon tm then out\<lparr>tm_year := tm_year out + 1\<rparr> else out)
         else
           let out = (if FIXED (ts_mon tms) then out else out\<lparr>tm_mon := tm_mon tm\<rparr>)
           in if FIXED (ts_mday tms) \<and> mday out \<noteq> tm_mday tm then
                finish (if mday out < tm_mday tm then nextmon out tms else out)
              else
                let out = (if FIXED (ts_mday tms) then out else out\<lparr>tm_mday := tm_mday tm\<rparr>)
                in if FIXED (ts_hour tms) \<and> tm_hour out \<noteq> tm_hour tm then
                     finish (if tm_hour out < tm_hour tm then nextmday out tms else out)
                   else
                     let out = (if FIXED (ts_hour tms) then out else out\<lparr>tm_hour := tm_hour tm\<rparr>)
                     in if FIXED (ts_min tms) \<and> tm_min out \<noteq> tm_min tm then
                          finish (if tm_min out < tm_min tm then nextmhour out tms else out)
                        else
                          let out = (if FIXED (ts_min tms) then out else out\<lparr>tm_min := tm_min tm\<rparr>)
                          in finish (if tm_sec out < tm_sec tm then nextmmin out tms else out))"

definition nextwtime :: "tm \<Rightarrow> tmspec \<Rightarrow> tm" where
  "nextwtime tm tms =
     (let out = \<lparr>tm_sec = 0,
          tm_min = (if FIXED (ts_min tms) then ts_min tms else 0),
          tm_hour = (if FIXED (ts_hour tms) then ts_hour tms else 0),
          tm_mday = tm_mday tm, tm_mon = tm_mon tm,
          tm_year = tm_year tm, tm_wday = 0, tm_yday = 0, tm_isdst = -1\<rparr>;
          wdays = (7 + ts_wday tms - tm_wday tm) mod 7
      in if FIXED (ts_wday tms) \<and> wdays \<noteq> 0 then out\<lparr>tm_mday := tm_mday out + wdays\<rparr>
         else if FIXED (ts_hour tms) \<and> tm_hour out \<noteq> tm_hour tm then
           (if tm_hour out < tm_hour tm then nextwday out tms else out)
         else
           let out = (if FIXED (ts_hour tms) then out else out\<lparr>tm_hour := tm_hour tm\<rparr>)
           in if FIXED (ts_min tms) \<and> tm_min out \<noteq> tm_min tm then
                (if tm_min out < tm_min tm then nextwhour out tms else out)
              else
                let out = (if FIXED (ts_min tms) then out else out\<lparr>tm_min := tm_min tm\<rparr>)
                in (if tm_sec out < tm_sec tm then nextwmin out tms else out))"

definition aug_nexttime :: "tm \<Rightarrow> tmspec \<Rightarrow> tm option" where
  "aug_nexttime tm tms =
     (if FIXED (ts_wday tms) \<and> (FIXED (ts_mday tms) \<or> FIXED (ts_mon tms)) then None
      else
        let fn = (if FIXED (ts_wday tms) then nextwtime else nextmtime);
            tm = (if 0 = tm_sec tm then tm\<lparr>tm_sec := 1\<rparr> else tm);
            tm = fn (tm\<lparr>tm_mday := tm_mday tm - 1\<rparr>) tms
        in Some (tm\<lparr>tm_mday := tm_mday tm + 1\<rparr>))"

text \<open>Reading a specification; \<open>None\<close> is the overflow of a number.\<close>

fun scan_spec :: "byte list \<Rightarrow> int \<Rightarrow> tmspec \<Rightarrow> (bool \<times> tmspec) option" where
  "scan_spec [] x tms = Some (True, tms)"
| "scan_spec (ch # s) x tms =
     (if 48 \<le> ch \<and> ch \<le> 57 then
        let x = x * 10 + (uint ch - 48) in if x < 2 ^ 31 then scan_spec s x tms else None
      else if ch = 72 then scan_spec s 0 (tms\<lparr>ts_hour := x\<rparr>)
      else if ch = 77 then scan_spec s 0 (tms\<lparr>ts_min := x\<rparr>)
      else if ch = 100 then scan_spec s 0 (tms\<lparr>ts_mday := x\<rparr>)
      else if ch = 109 then scan_spec s 0 (tms\<lparr>ts_mon := x\<rparr>)
      else if ch = 119 then scan_spec s 0 (tms\<lparr>ts_wday := x\<rparr>)
      else Some (False, tms))"

definition aug_strtmspec :: "byte list \<Rightarrow> (bool \<times> tmspec) option" where
  "aug_strtmspec s = do {
     (ok, tms) \<leftarrow> scan_spec s 0 \<lparr>ts_min = -1, ts_hour = -1, ts_mday = -1, ts_mon = -1, ts_wday = -1\<rparr>;
     if \<not> ok then Some (False, tms)
     else if ts_mday tms = 0 then Some (False, tms)
     else
       let tms = (if ts_mday tms = -1 then tms else tms\<lparr>ts_mday := ts_mday tms - 1\<rparr>)
       in if ts_mon tms = 0 then Some (False, tms)
          else
            let tms = (if ts_mon tms = -1 then tms else tms\<lparr>ts_mon := ts_mon tms - 1\<rparr>);
                tms = (if 7 = ts_wday tms then tms\<lparr>ts_wday := 0\<rparr> else tms)
            in Some (ts_min tms < 60 \<and> ts_hour tms < 24 \<and> ts_mday tms < 31 \<and> ts_mon tms < 12 \<and> ts_wday tms < 7, tms)
   }"

section \<open>Moments\<close>

type_synonym date = "int \<times> int \<times> int"
type_synonym tod = "int \<times> int \<times> int"

definition date :: "tm \<Rightarrow> date" where "date tm = (tm_year tm, tm_mon tm, tm_mday tm)"
definition tod :: "tm \<Rightarrow> tod" where "tod tm = (tm_hour tm, tm_min tm, tm_sec tm)"

text \<open>The dates and times there are, and those that meet a specification; a day that the month
  does not have stands for its last.\<close>

definition date_ok :: "date \<Rightarrow> bool" where
  "date_ok = (\<lambda>(y, m, d). 0 \<le> m \<and> m < 12 \<and> 0 \<le> d \<and> d < mdays m (y + 1900))"

definition tod_ok :: "tod \<Rightarrow> bool" where
  "tod_ok = (\<lambda>(h, m, s). 0 \<le> h \<and> h < 24 \<and> 0 \<le> m \<and> m < 60 \<and> 0 \<le> s \<and> s \<le> 60)"

definition date_meets :: "tmspec \<Rightarrow> date \<Rightarrow> bool" where
  "date_meets tms = (\<lambda>(y, m, d). (FIXED (ts_mon tms) \<longrightarrow> m = ts_mon tms)
     \<and> (FIXED (ts_mday tms) \<longrightarrow> d = min (ts_mday tms) (mdays m (y + 1900) - 1)))"

definition tod_meets :: "tmspec \<Rightarrow> tod \<Rightarrow> bool" where
  "tod_meets tms = (\<lambda>(h, m, s). (FIXED (ts_hour tms) \<longrightarrow> h = ts_hour tms) \<and> (FIXED (ts_min tms) \<longrightarrow> m = ts_min tms) \<and> s = 0)"

definition spec_ok :: "tmspec \<Rightarrow> bool" where
  "spec_ok tms \<longleftrightarrow> -1 \<le> ts_min tms \<and> ts_min tms < 60 \<and> -1 \<le> ts_hour tms \<and> ts_hour tms < 24 \<and> -1 \<le> ts_mday tms
     \<and> ts_mday tms < 31 \<and> -1 \<le> ts_mon tms \<and> ts_mon tms < 12 \<and> -1 \<le> ts_wday tms \<and> ts_wday tms < 7"

definition first_after :: "('a :: linorder \<Rightarrow> bool) \<Rightarrow> 'a \<Rightarrow> 'a \<Rightarrow> bool" where
  "first_after P a x \<longleftrightarrow> P x \<and> a < x \<and> (\<forall>y. P y \<longrightarrow> a < y \<longrightarrow> x \<le> y)"

text \<open>Pairs in lexicographic order: another first component, or the same.\<close>

lemma first_after_fst:
  assumes "first_after P a x" "Q u" "\<And>v. Q v \<Longrightarrow> u \<le> v" "\<And>v. P a \<Longrightarrow> Q v \<Longrightarrow> v \<le> b"
  shows "first_after (\<lambda>(y, v). P y \<and> Q v) (a, b) (x, u)"
proof -
  have "(x, u) \<le> (y, v)" if "P y" "Q v" "(a, b) < (y, v)" for y v
  proof (cases "y = a")
    case True
    then show ?thesis using that assms(4) by fastforce
  next
    case False
    then have "x \<le> y" using that assms(1) by (auto simp: first_after_def)
    then show ?thesis using assms(3) [OF that(2)] by (auto simp: less_eq_prod_def)
  qed
  then show ?thesis using assms(1,2) by (auto simp: first_after_def)
qed

lemma first_after_snd:
  assumes "P a" "first_after Q b u"
  shows "first_after (\<lambda>(y, v). P y \<and> Q v) (a, b) (a, u)"
  using assms by (auto simp: first_after_def less_prod_def less_eq_prod_def)

lemma lex3:
  "((y, m, d) :: date) < (a, b, c) \<longleftrightarrow> y < a \<or> y = a \<and> (m < b \<or> m = b \<and> d < c)"
  "((y, m, d) :: date) \<le> (a, b, c) \<longleftrightarrow> y < a \<or> y = a \<and> (m < b \<or> m = b \<and> d \<le> c)"
  by auto

section \<open>Times of day\<close>

lemma FIXED_range: "-1 \<le> x \<Longrightarrow> FIXED x \<Longrightarrow> 0 \<le> x"
  by (simp add: FIXED_def)

definition first_tod :: "tmspec \<Rightarrow> tod" where
  "first_tod tms = (if FIXED (ts_hour tms) then ts_hour tms else 0, if FIXED (ts_min tms) then ts_min tms else 0, 0)"

lemma first_tod_least:
  assumes "spec_ok tms"
  shows "tod_ok (first_tod tms) \<and> tod_meets tms (first_tod tms)"
    and "tod_ok t \<Longrightarrow> tod_meets tms t \<Longrightarrow> first_tod tms \<le> t"
  using assms FIXED_range [of "ts_hour tms"] FIXED_range [of "ts_min tms"]
  by (auto simp: first_tod_def tod_ok_def tod_meets_def spec_ok_def split: prod.splits)

section \<open>Dates\<close>

lemma MDAYS_bounds: "0 \<le> m \<Longrightarrow> m < 12 \<Longrightarrow> 28 \<le> MDAYS ! nat m \<and> MDAYS ! nat m \<le> 31"
proof -
  assume "0 \<le> m" "m < 12"
  then have "nat m < length MDAYS" by (simp add: MDAYS_def)
  then have "MDAYS ! nat m \<in> set MDAYS" by (rule nth_mem)
  then show ?thesis by (auto simp: MDAYS_def)
qed

lemma mdays_bounds: "0 \<le> m \<Longrightarrow> m < 12 \<Longrightarrow> 28 \<le> mdays m y \<and> mdays m y \<le> 31"
  using MDAYS_bounds [of m] by (simp add: mdays_def)

lemma mday_min: "mday tm = min (tm_mday tm) (mdays (tm_mon tm) (tm_year tm + 1900) - 1)"
  by (simp add: mday_def Let_def)

lemma finish_simps [simp]:
  "date (finish out) = (tm_year out, tm_mon out, min (tm_mday out) (mdays (tm_mon out) (tm_year out + 1900) - 1))"
  "tod (finish out) = tod out"
  by (simp_all add: finish_def date_def tod_def mday_min)

lemma step_mod: "0 \<le> x \<Longrightarrow> x < n \<Longrightarrow> (x + 1) mod n = (if x + 1 = n then 0 else x + 1)" for x n :: int
  by simp

text \<open>The month's next occurrence.\<close>

lemma date_month:
  assumes "spec_ok tms" "date_ok (y, m, d)" "FIXED (ts_mon tms)" "ts_mon tms \<noteq> m"
  shows "first_after (\<lambda>D. date_ok D \<and> date_meets tms D) (y, m, d)
     (let y' = (if ts_mon tms < m then y + 1 else y)
      in (y', ts_mon tms, min (if FIXED (ts_mday tms) then ts_mday tms else 0) (mdays (ts_mon tms) (y' + 1900) - 1)))"
proof -
  define y' where "y' = (if ts_mon tms < m then y + 1 else y)"
  let ?n = "mdays (ts_mon tms) (y' + 1900)"
  have r: "0 \<le> ts_mon tms" "ts_mon tms < 12" "28 \<le> ?n" "FIXED (ts_mday tms) \<Longrightarrow> 0 \<le> ts_mday tms"
    using assms FIXED_range [of "ts_mon tms"] FIXED_range [of "ts_mday tms"] mdays_bounds [of "ts_mon tms"]
    by (auto simp: spec_ok_def)
  have "(y', ts_mon tms, min (if FIXED (ts_mday tms) then ts_mday tms else 0) (?n - 1)) \<le> (a, b, c)"
    if t: "date_ok (a, b, c)" "date_meets tms (a, b, c)" "(y, m, d) < (a, b, c)" for a b c
  proof -
    have "b = ts_mon tms" "y' \<le> a" using t assms(3,4) by (auto simp: date_meets_def y'_def)
    then show ?thesis using t r by (cases "a = y'") (auto simp: lex3 date_meets_def date_ok_def simp del: less_eq_prod_simp)
  qed
  moreover have "date_ok (y', ts_mon tms, min (if FIXED (ts_mday tms) then ts_mday tms else 0) (?n - 1))"
    using r by (auto simp: date_ok_def)
  moreover have "date_meets tms (y', ts_mon tms, min (if FIXED (ts_mday tms) then ts_mday tms else 0) (?n - 1))"
    by (simp add: date_meets_def)
  moreover have "(y, m, d) < (y', ts_mon tms, min (if FIXED (ts_mday tms) then ts_mday tms else 0) (?n - 1))"
    using assms(4) by (auto simp: y'_def)
  ultimately show ?thesis
    unfolding first_after_def y'_def [symmetric] Let_def by (auto simp del: less_eq_prod_simp less_prod_simp)
qed

text \<open>The next occurrence of the day, in a month that meets the specification.\<close>

lemma date_after:
  assumes "spec_ok tms" "date_ok (y, m, d)" "FIXED (ts_mon tms) \<Longrightarrow> m = ts_mon tms"
    and out: "tm_year out = y" "tm_mon out = m" "tm_mday out = (if FIXED (ts_mday tms) then ts_mday tms else 0)"
    and day: "FIXED (ts_mday tms) \<Longrightarrow> min (ts_mday tms) (mdays m (y + 1900) - 1) \<le> d" "\<not> FIXED (ts_mday tms) \<Longrightarrow> d = mdays m (y + 1900) - 1"
  shows "first_after (\<lambda>D. date_ok D \<and> date_meets tms D) (y, m, d) (date (finish (nextmon out tms)))
    \<and> tod (finish (nextmon out tms)) = tod out"
proof -
  define y' where "y' = (if FIXED (ts_mon tms) \<or> m = 11 then y + 1 else y)"
  define m' where "m' = (if FIXED (ts_mon tms) then m else if m = 11 then 0 else m + 1)"
  define d0 where "d0 = (if FIXED (ts_mday tms) then ts_mday tms else 0)"
  let ?n = "mdays m' (y' + 1900)"
  have m: "0 \<le> m" "m < 12" using assms(2) by (simp_all add: date_ok_def)
  have m': "0 \<le> m'" "m' < 12" using m by (auto simp: m'_def)
  have nx: "tm_year (nextmon out tms) = y'" "tm_mon (nextmon out tms) = m'" "tm_mday (nextmon out tms) = d0"
      "tod (nextmon out tms) = tod out"
    using out m step_mod [of m 12] by (auto simp: nextmon_def Let_def y'_def m'_def d0_def tod_def)
  have r: "28 \<le> ?n" "0 \<le> d0" "FIXED (ts_mday tms) \<Longrightarrow> 0 \<le> ts_mday tms"
    using assms(1) m' FIXED_range [of "ts_mday tms"] mdays_bounds [of m'] by (auto simp: spec_ok_def d0_def)
  have later: "(y', m') = (a, b) \<or> y' < a \<or> y' = a \<and> m' < b"
    if t: "date_ok (a, b, c)" "date_meets tms (a, b, c)" "(y, m, d) < (a, b, c)" for a b c
  proof -
    have "(a, b) \<noteq> (y, m)"
    proof
      assume e: "(a, b) = (y, m)"
      have "c \<le> d"
      proof (cases "FIXED (ts_mday tms)")
        case True
        then show ?thesis using day(1) [OF True] t(2) e by (simp add: date_meets_def)
      next
        case False
        then show ?thesis using day(2) [OF False] t(1) e by (simp add: date_ok_def)
      qed
      then show False using t(3) e by simp
    qed
    then have "y < a \<or> y = a \<and> m < b" using t(3) by auto
    then show ?thesis using t(1,2) assms(3) m by (auto simp: y'_def m'_def date_ok_def date_meets_def split: if_splits)
  qed
  have "(y', m', min d0 (?n - 1)) \<le> (a, b, c)"
    if t: "date_ok (a, b, c)" "date_meets tms (a, b, c)" "(y, m, d) < (a, b, c)" for a b c
    using later [OF t] t(1,2) r unfolding lex3 by (auto simp: date_meets_def date_ok_def d0_def)
  moreover have "date_ok (y', m', min d0 (?n - 1))" using r m' by (auto simp: date_ok_def)
  moreover have "date_meets tms (y', m', min d0 (?n - 1))"
    using assms(3) by (auto simp: date_meets_def m'_def d0_def)
  moreover have "(y, m, d) < (y', m', min d0 (?n - 1))" unfolding lex3 by (auto simp: y'_def m'_def)
  ultimately show ?thesis
    unfolding first_after_def finish_simps nx by (auto simp del: less_eq_prod_simp less_prod_simp)
qed

lemma date_nextmday:
  assumes "spec_ok tms" "date_ok (y, m, d)" "date_meets tms (y, m, d)"
    and out: "tm_year out = y" "tm_mon out = m" "tm_mday out = (if FIXED (ts_mday tms) then ts_mday tms else d)"
  shows "first_after (\<lambda>D. date_ok D \<and> date_meets tms D) (y, m, d) (date (finish (nextmday out tms)))
    \<and> tod (finish (nextmday out tms)) = tod out"
proof -
  let ?n = "mdays m (y + 1900)"
  have d: "0 \<le> d" "d < ?n" "FIXED (ts_mon tms) \<Longrightarrow> m = ts_mon tms" using assms(2,3) by (auto simp: date_ok_def date_meets_def)
  consider (fixed) "FIXED (ts_mday tms)" | (last) "\<not> FIXED (ts_mday tms)" "d + 1 = ?n" | (step) "\<not> FIXED (ts_mday tms)" "d + 1 < ?n"
    using d by linarith
  then show ?thesis
  proof cases
    case fixed
    then have "nextmday out tms = nextmon out tms" by (simp add: nextmday_def)
    moreover have "min (ts_mday tms) (?n - 1) \<le> d" using assms(3) fixed by (simp add: date_meets_def)
    ultimately show ?thesis using date_after [OF assms(1,2) d(3), of out] out fixed by simp
  next
    case last
    let ?out = "out\<lparr>tm_mday := 0\<rparr>"
    have "nextmday out tms = nextmon ?out tms"
      using last out by (simp add: nextmday_def Let_def)
    moreover have "tod ?out = tod out" by (simp add: tod_def)
    ultimately show ?thesis using date_after [OF assms(1,2) d(3), of ?out] out last by simp
  next
    case step
    have "nextmday out tms = out\<lparr>tm_mday := d + 1\<rparr>"
      using step out d by (simp add: nextmday_def Let_def)
    moreover have "(y, m, d + 1) \<le> (a, b, c)" if "(y, m, d) < (a, b, c)" for a b c :: int
      using that unfolding lex3 by auto
    ultimately show ?thesis
      using step out d assms(2,3) unfolding first_after_def finish_simps
      by (auto simp: date_ok_def date_meets_def tod_def lex3 simp del: less_eq_prod_simp less_prod_simp)
  qed
qed

section \<open>The next moment\<close>

text \<open>Later on the same day, or not at all.\<close>

lemma tod_hour:
  assumes "spec_ok tms" "FIXED (ts_hour tms)" "ts_hour tms \<noteq> h"
  shows "h < ts_hour tms \<Longrightarrow> first_after (\<lambda>t. tod_ok t \<and> tod_meets tms t) (h, mi, s) (first_tod tms)"
    and "ts_hour tms < h \<Longrightarrow> tod_ok t \<Longrightarrow> tod_meets tms t \<Longrightarrow> t \<le> (h, mi, s)"
  using assms first_tod_least [OF assms(1)]
  by (auto simp: first_after_def tod_meets_def first_tod_def)

lemma tod_min:
  assumes "spec_ok tms" "tod_ok (h, mi, s)" "FIXED (ts_hour tms) \<longrightarrow> h = ts_hour tms" "FIXED (ts_min tms)" "ts_min tms \<noteq> mi \<or> 0 < s"
  shows "mi < ts_min tms \<Longrightarrow> first_after (\<lambda>t. tod_ok t \<and> tod_meets tms t) (h, mi, s) (h, ts_min tms, 0)"
    and "ts_min tms \<le> mi \<Longrightarrow> FIXED (ts_hour tms) \<or> h = 23 \<Longrightarrow> tod_ok t \<Longrightarrow> tod_meets tms t \<Longrightarrow> t \<le> (h, mi, s)"
    and "ts_min tms \<le> mi \<Longrightarrow> \<not> FIXED (ts_hour tms) \<Longrightarrow> h < 23 \<Longrightarrow>
      first_after (\<lambda>t. tod_ok t \<and> tod_meets tms t) (h, mi, s) (h + 1, ts_min tms, 0)"
  using assms FIXED_range [of "ts_min tms"]
  by (auto simp: first_after_def tod_meets_def tod_ok_def spec_ok_def split: prod.splits)

lemma tod_sec:
  assumes "spec_ok tms" "tod_ok (h, mi, s)" "FIXED (ts_hour tms) \<longrightarrow> h = ts_hour tms" "\<not> FIXED (ts_min tms)" "0 < s"
  shows "mi < 59 \<Longrightarrow> first_after (\<lambda>t. tod_ok t \<and> tod_meets tms t) (h, mi, s) (h, mi + 1, 0)"
    and "mi = 59 \<Longrightarrow> FIXED (ts_hour tms) \<or> h = 23 \<Longrightarrow> tod_ok t \<Longrightarrow> tod_meets tms t \<Longrightarrow> t \<le> (h, mi, s)"
    and "mi = 59 \<Longrightarrow> \<not> FIXED (ts_hour tms) \<Longrightarrow> h < 23 \<Longrightarrow>
      first_after (\<lambda>t. tod_ok t \<and> tod_meets tms t) (h, mi, s) (h + 1, 0, 0)"
  using assms
  by (auto simp: first_after_def tod_meets_def tod_ok_def spec_ok_def split: prod.splits)

lemma date_day:
  assumes "spec_ok tms" "date_ok (y, m, d)" "FIXED (ts_mon tms) \<Longrightarrow> m = ts_mon tms" "FIXED (ts_mday tms)"
    and "d < min (ts_mday tms) (mdays m (y + 1900) - 1)"
  shows "first_after (\<lambda>D. date_ok D \<and> date_meets tms D) (y, m, d) (y, m, min (ts_mday tms) (mdays m (y + 1900) - 1))"
proof -
  let ?d = "min (ts_mday tms) (mdays m (y + 1900) - 1)"
  have "(y, m, ?d) \<le> (a, b, c)" if t: "date_meets tms (a, b, c)" "(y, m, d) < (a, b, c)" for a b c
    using t assms(4) unfolding lex3 by (auto simp: date_meets_def)
  moreover have "date_ok (y, m, ?d)" using assms(2,5) by (auto simp: date_ok_def)
  moreover have "date_meets tms (y, m, ?d)" using assms(3) by (auto simp: date_meets_def)
  moreover have "(y, m, d) < (y, m, ?d)" using assms(5) by (simp add: lex3 del: less_prod_simp)
  ultimately show ?thesis unfolding first_after_def by (auto simp del: less_eq_prod_simp less_prod_simp)
qed

text \<open>The result so far, for the hour \<open>h\<close> and the minute \<open>mi\<close> on the current date.\<close>

definition same_day :: "tm \<Rightarrow> tmspec \<Rightarrow> int \<Rightarrow> int \<Rightarrow> tm" where
  "same_day tm tms h mi = \<lparr>tm_sec = 0, tm_min = mi, tm_hour = h,
     tm_mday = (if FIXED (ts_mday tms) then ts_mday tms else tm_mday tm), tm_mon = tm_mon tm, tm_year = tm_year tm,
     tm_wday = 0, tm_yday = 0, tm_isdst = -1\<rparr>"

definition min0 :: "tmspec \<Rightarrow> int" where "min0 tms = (if FIXED (ts_min tms) then ts_min tms else 0)"

text \<open>The time of day after \<open>h\<close>, \<open>mi\<close> (and at least a second), and whether it is the next day's.\<close>

definition hour_step :: "tmspec \<Rightarrow> int \<Rightarrow> int \<Rightarrow> bool \<times> int \<times> int" where
  "hour_step tms h mi = (if FIXED (ts_hour tms) then (True, h, mi) else if h = 23 then (True, 0, mi) else (False, h + 1, mi))"

definition tod_step :: "tmspec \<Rightarrow> int \<Rightarrow> int \<Rightarrow> bool \<times> int \<times> int" where
  "tod_step tms h mi =
     (if FIXED (ts_hour tms) \<and> ts_hour tms \<noteq> h then (ts_hour tms < h, ts_hour tms, min0 tms)
      else if FIXED (ts_min tms) then (if mi < ts_min tms then (False, h, ts_min tms) else hour_step tms h (ts_min tms))
      else if mi = 59 then hour_step tms h 0 else (False, h, mi + 1))"

lemma tod_step_first:
  assumes "spec_ok tms" "tod_ok (h, mi, s)" "0 < s" "tod_step tms h mi = (c, a, b)"
  shows "if c then first_tod tms = (a, b, 0) \<and> (\<forall>t. tod_ok t \<and> tod_meets tms t \<longrightarrow> t \<le> (h, mi, s))
    else first_after (\<lambda>t. tod_ok t \<and> tod_meets tms t) (h, mi, s) (a, b, 0)"
proof -
  consider (hour) "FIXED (ts_hour tms)" "ts_hour tms \<noteq> h"
    | (minute) "FIXED (ts_hour tms) \<longrightarrow> h = ts_hour tms" "FIXED (ts_min tms)"
    | (second) "FIXED (ts_hour tms) \<longrightarrow> h = ts_hour tms" "\<not> FIXED (ts_min tms)"
    by blast
  then show ?thesis
  proof cases
    case hour
    then show ?thesis
      using assms(4) tod_hour [OF assms(1) hour, where mi = mi and s = s]
      by (cases c) (auto simp: tod_step_def first_tod_def min0_def)
  next
    case minute
    have "ts_min tms \<noteq> mi \<or> 0 < s" using assms(3) by simp
    note t = tod_min [OF assms(1,2) minute this]
    have "h < 24" using assms(2) by (simp add: tod_ok_def)
    then show ?thesis
      using assms(4) minute t
      by (cases "mi < ts_min tms"; cases "FIXED (ts_hour tms)"; cases "h = 23")
         (auto simp: tod_step_def hour_step_def first_tod_def)
  next
    case second
    note t = tod_sec [OF assms(1,2) second assms(3)]
    have "h < 24" "mi < 60" using assms(2) by (simp_all add: tod_ok_def)
    then show ?thesis
      using assms(4) second t
      by (cases "mi = 59"; cases "FIXED (ts_hour tms)"; cases "h = 23")
         (auto simp: tod_step_def hour_step_def first_tod_def)
  qed
qed

lemma nextmtime_step:
  assumes "date_ok (date tm)" "date_meets tms (date tm)" "tod_ok (tod tm)" "0 < tm_sec tm"
    and "tod_step tms (tm_hour tm) (tm_min tm) = (c, a, b)"
  shows "nextmtime tm tms = finish (if c then nextmday (same_day tm tms a b) tms else same_day tm tms a b)"
proof -
  have m: "FIXED (ts_mon tms) \<Longrightarrow> ts_mon tms = tm_mon tm"
    and d: "FIXED (ts_mday tms) \<Longrightarrow> min (ts_mday tms) (mdays (tm_mon tm) (tm_year tm + 1900) - 1) = tm_mday tm"
    using assms(2) by (simp_all add: date_def date_meets_def)
  have r: "0 \<le> tm_hour tm" "tm_hour tm < 24" "0 \<le> tm_min tm" "tm_min tm < 60"
    using assms(3) by (simp_all add: tod_def tod_ok_def)
  have hour: "nextmhour (same_day tm tms h mi) tms =
      (let (c, a, b) = hour_step tms h mi in if c then nextmday (same_day tm tms a b) tms else same_day tm tms a b)"
    if "0 \<le> h" "h < 24" for h mi
    using that step_mod [of h 24] by (auto simp: nextmhour_def same_day_def hour_step_def Let_def)
  have minute: "nextmmin (same_day tm tms h mi) tms = (if mi = 59 then nextmhour (same_day tm tms h 0) tms else same_day tm tms h (mi + 1))"
    if "0 \<le> mi" "mi < 60" "\<not> FIXED (ts_min tms)" for h mi
    using that step_mod [of mi 60] by (auto simp: nextmmin_def same_day_def Let_def)
  have "nextmtime tm tms = finish
    (if FIXED (ts_hour tms) \<and> ts_hour tms \<noteq> tm_hour tm then
       (if ts_hour tms < tm_hour tm then nextmday (same_day tm tms (ts_hour tms) (min0 tms)) tms
        else same_day tm tms (ts_hour tms) (min0 tms))
     else if FIXED (ts_min tms) \<and> ts_min tms \<noteq> tm_min tm then
       (if ts_min tms < tm_min tm then nextmhour (same_day tm tms (tm_hour tm) (ts_min tms)) tms
        else same_day tm tms (tm_hour tm) (ts_min tms))
     else nextmmin (same_day tm tms (tm_hour tm) (tm_min tm)) tms)"
    using m d assms(4)
    by (cases "FIXED (ts_mon tms)"; cases "FIXED (ts_mday tms)"; cases "FIXED (ts_hour tms)"; cases "FIXED (ts_min tms)")
       (simp_all add: nextmtime_def same_day_def min0_def Let_def mday_min)
  also have "\<dots> = finish (if c then nextmday (same_day tm tms a b) tms else same_day tm tms a b)"
  proof (cases "FIXED (ts_min tms)")
    case True
    then show ?thesis using assms(5) r
      by (auto simp: tod_step_def hour nextmmin_def split: prod.splits if_splits)
  next
    case False
    then show ?thesis using assms(5) r
      by (auto simp: tod_step_def hour minute split: prod.splits if_splits)
  qed
  finally show ?thesis .
qed

lemma same_day_date:
  assumes "date_ok (date tm)" "date_meets tms (date tm)"
  shows "date (finish (same_day tm tms h mi)) = date tm" "tod (finish (same_day tm tms h mi)) = (h, mi, 0)"
  unfolding finish_simps using assms by (auto simp: same_day_def date_def tod_def date_ok_def date_meets_def)

lemma next_day:
  assumes "spec_ok tms" "date_ok (date tm)" "date_meets tms (date tm)"
  shows "first_after (\<lambda>D. date_ok D \<and> date_meets tms D) (date tm) (date (finish (nextmday (same_day tm tms h mi) tms)))
    \<and> tod (finish (nextmday (same_day tm tms h mi) tms)) = (h, mi, 0)"
  using date_nextmday [of tms "tm_year tm" "tm_mon tm" "tm_mday tm" "same_day tm tms h mi"] assms
  by (simp add: date_def same_day_def tod_def)

text \<open>What \<open>tod_step\<close> gives, put behind a day that is the current one or the first after it.\<close>

lemma step_first:
  assumes "spec_ok tms" "tod_ok (h, mi, s)" "0 < s" "tod_step tms h mi = (c, a, b)"
    and "P x" "first_after P x y"
  shows "first_after (\<lambda>(D, T). P D \<and> (tod_ok T \<and> tod_meets tms T)) (x, h, mi, s) (if c then y else x, a, b, 0)"
proof (cases c)
  case True
  then show ?thesis
    using first_after_fst [OF assms(6), of "\<lambda>t. tod_ok t \<and> tod_meets tms t" "first_tod tms" "(h, mi, s)"]
      tod_step_first [OF assms(1-4)] first_tod_least [OF assms(1)] by simp
next
  case False
  then show ?thesis
    using first_after_snd [of P x "\<lambda>t. tod_ok t \<and> tod_meets tms t", OF assms(5)] tod_step_first [OF assms(1-4)] by simp
qed

text \<open>The moments that meet a specification.\<close>

definition meets :: "tmspec \<Rightarrow> date \<times> tod \<Rightarrow> bool" where
  "meets tms = (\<lambda>(D, T). (date_ok D \<and> date_meets tms D) \<and> (tod_ok T \<and> tod_meets tms T))"

lemma nextmtime_first:
  assumes ok: "spec_ok tms" "date_ok (date tm)" "tod_ok (tod tm)" "0 < tm_sec tm"
  shows "first_after (meets tms) (date tm, tod tm) (date (nextmtime tm tms), tod (nextmtime tm tms))"
proof -
  let ?P = "\<lambda>D. date_ok D \<and> date_meets tms D"
  let ?r = "nextmtime tm tms" and ?y = "tm_year tm" and ?m = "tm_mon tm" and ?d = "tm_mday tm"
  note first = first_tod_least [OF ok(1)]
  have D: "date_ok (?y, ?m, ?d)" using ok(2) by (simp add: date_def)
  have other: "first_after (meets tms) (date tm, tod tm) (date ?r, tod ?r)"
    if "first_after ?P (date tm) (date ?r)" "tod ?r = first_tod tms" "\<not> date_meets tms (date tm)"
    using first_after_fst [OF that(1), of "\<lambda>t. tod_ok t \<and> tod_meets tms t" "first_tod tms" "tod tm"] first that
    by (simp add: meets_def)
  let ?n = "mdays ?m (?y + 1900)" and ?c = "min (ts_mday tms) (mdays (tm_mon tm) (tm_year tm + 1900) - 1)"
  consider (month) "FIXED (ts_mon tms)" "ts_mon tms \<noteq> ?m"
    | (day) "FIXED (ts_mon tms) \<longrightarrow> ?m = ts_mon tms" "FIXED (ts_mday tms)" "?c \<noteq> ?d"
    | (same) "date_meets tms (date tm)"
    by (simp add: date_def date_meets_def) metis
  then show ?thesis
  proof cases
    case month
    note dm = date_month [OF ok(1) D month]
    have "tod ?r = first_tod tms"
      using month by (simp add: nextmtime_def Let_def first_tod_def tod_def finish_def)
    moreover have "first_after ?P (date tm) (date ?r)"
      using dm month
      by (cases "ts_mon tms < tm_mon tm"; cases "FIXED (ts_mday tms)")
         (simp_all add: nextmtime_def Let_def date_def finish_def mday_min)
    moreover have "\<not> date_meets tms (date tm)" using month by (auto simp: date_def date_meets_def)
    ultimately show ?thesis by (intro other)
  next
    case day
    define out where "out = \<lparr>tm_sec = 0, tm_min = min0 tms, tm_hour = (if FIXED (ts_hour tms) then ts_hour tms else 0),
      tm_mday = ts_mday tms, tm_mon = ?m, tm_year = ?y, tm_wday = 0, tm_yday = 0, tm_isdst = -1\<rparr>"
    have r: "?r = finish (if ?c < ?d then nextmon out tms else out)"
      using day by (cases "FIXED (ts_mon tms)") (simp_all add: nextmtime_def Let_def out_def min0_def mday_min)
    have t: "tod out = first_tod tms" by (simp add: out_def tod_def first_tod_def min0_def)
    have m: "FIXED (ts_mon tms) \<Longrightarrow> ?m = ts_mon tms" using day(1) by blast
    have "first_after ?P (date tm) (date ?r) \<and> tod ?r = first_tod tms"
    proof (cases "?c < ?d")
      case True
      have "first_after ?P (?y, ?m, ?d) (date (finish (nextmon out tms))) \<and> tod (finish (nextmon out tms)) = tod out"
        by (rule date_after [OF ok(1) D m]) (use True day(2) in \<open>simp_all add: out_def\<close>)
      then show ?thesis using r True t by (simp add: date_def)
    next
      case False
      then have "?d < ?c" using day(3) by linarith
      from date_day [OF ok(1) D m day(2) this] show ?thesis
        using r False t by (simp add: out_def) (simp add: date_def)
    qed
    moreover have "\<not> date_meets tms (date tm)" using day by (auto simp: date_def date_meets_def)
    ultimately show ?thesis using other by blast
  next
    case same
    obtain c a b where st: "tod_step tms (tm_hour tm) (tm_min tm) = (c, a, b)" by (cases "tod_step tms (tm_hour tm) (tm_min tm)") auto
    have s: "tod_ok (tm_hour tm, tm_min tm, tm_sec tm)" using ok(3) by (simp add: tod_def)
    note nd = next_day [OF ok(1,2) same, of a b]
    have "first_after (\<lambda>(D, T). ?P D \<and> (tod_ok T \<and> tod_meets tms T)) (date tm, tm_hour tm, tm_min tm, tm_sec tm)
      (if c then date (finish (nextmday (same_day tm tms a b) tms)) else date tm, a, b, 0)"
      by (rule step_first [OF ok(1) s ok(4) st]) (use ok(2) same nd in simp_all)
    then show ?thesis
      using nextmtime_step [OF ok(2) same ok(3,4) st] same_day_date [OF ok(2) same, of a b] nd
      by (cases c) (simp_all add: meets_def tod_def)
  qed
qed

text \<open>A current time at second 0 counts as second 1, so that the result is a later one.\<close>

lemma first_after_sec:
  assumes "first_after P (D, h, m, max 1 s) x" "\<And>D h m s. P (D, h, m, s) \<Longrightarrow> s = 0" "0 \<le> s"
  shows "first_after P (D :: 'a :: linorder, h :: int, m :: int, s :: int) x"
proof -
  have "(D, h, m, max 1 s) < (E, k, n, t)" if "P (E, k, n, t)" "(D, h, m, s) < (E, k, n, t)" for E k n t
    using that assms(2) [OF that(1)] assms(3) by auto
  moreover have "(D, h, m, s) < x"
    using assms(1) by (auto simp: first_after_def less_prod_def intro: less_le_trans split: prod.splits)
  ultimately show ?thesis using assms(1) unfolding first_after_def by (metis prod_cases4)
qed

text \<open>The current moment, and that of a result.\<close>

definition moment :: "tm \<Rightarrow> date \<times> tod" where
  "moment tm = ((tm_year tm, tm_mon tm, tm_mday tm - 1), tod tm)"

lemma nexttime_meets:
  assumes "spec_ok tms" "\<not> FIXED (ts_wday tms)" "date_ok (fst (moment tm))" "tod_ok (snd (moment tm))"
  shows "\<exists>r. aug_nexttime tm tms = Some r \<and> first_after (meets tms) (moment tm) (moment r)"
proof -
  define t where "t = tm\<lparr>tm_sec := max 1 (tm_sec tm), tm_mday := tm_mday tm - 1\<rparr>"
  define r where "r = nextmtime t tms"
  have s: "0 \<le> tm_sec tm" "tm_sec tm \<le> 60" using assms(4) by (simp_all add: moment_def tod_def tod_ok_def)
  have "first_after (meets tms) (date t, tod t) (date r, tod r)"
    unfolding r_def by (rule nextmtime_first [OF assms(1)])
      (use assms(3,4) in \<open>auto simp: t_def moment_def date_def tod_def tod_ok_def\<close>)
  moreover have "date t = fst (moment tm)" "tod t = (tm_hour tm, tm_min tm, max 1 (tm_sec tm))"
    by (simp_all add: t_def date_def moment_def tod_def)
  moreover have "x = 0" if "meets tms (D, h, m, x)" for D h m x
    using that by (simp add: meets_def tod_meets_def)
  ultimately have "first_after (meets tms) (fst (moment tm), tm_hour tm, tm_min tm, tm_sec tm) (date r, tod r)"
    using first_after_sec [of "meets tms", OF _ _ s(1)] by metis
  moreover have "aug_nexttime tm tms = Some (r\<lparr>tm_mday := tm_mday r + 1\<rparr>)"
    using assms(2) s by (simp add: aug_nexttime_def r_def t_def max_def Let_def)
  moreover have "moment (r\<lparr>tm_mday := tm_mday r + 1\<rparr>) = (date r, tod r)"
    by (simp add: moment_def date_def tod_def)
  moreover have "moment tm = (fst (moment tm), tm_hour tm, tm_min tm, tm_sec tm)" by (simp add: moment_def tod_def)
  ultimately show ?thesis by metis
qed

text \<open>
  Calendars, apart from the code: the months by the rule for leap years.  The Gregorian
  rule, and the one the code follows: a year is a leap year just when four does not divide it.
\<close>

definition gregorian :: "int \<Rightarrow> bool" where
  "gregorian y \<longleftrightarrow> 4 dvd y \<and> (\<not> 100 dvd y \<or> 400 dvd y)"

definition inverted :: "int \<Rightarrow> bool" where
  "inverted y \<longleftrightarrow> \<not> 4 dvd y"

definition month_days :: "(int \<Rightarrow> bool) \<Rightarrow> int \<Rightarrow> int \<Rightarrow> int" where
  "month_days leap m y =
     (if m = 1 then (if leap y then 29 else 28)
      else if m = 3 \<or> m = 5 \<or> m = 8 \<or> m = 10 then 30 else 31)"

text \<open>A date of the calendar (years from 1900, months and days from 0), and a moment that is due.\<close>

definition in_calendar :: "(int \<Rightarrow> bool) \<Rightarrow> date \<Rightarrow> bool" where
  "in_calendar leap = (\<lambda>(y, m, d). 0 \<le> m \<and> m < 12 \<and> 0 \<le> d \<and> d < month_days leap m (y + 1900))"

definition due :: "(int \<Rightarrow> bool) \<Rightarrow> tmspec \<Rightarrow> date \<times> tod \<Rightarrow> bool" where
  "due leap tms = (\<lambda>((y, m, d), (h, mi, x)).
     in_calendar leap (y, m, d) \<and> 0 \<le> h \<and> h < 24 \<and> 0 \<le> mi \<and> mi < 60 \<and> x = 0
   \<and> (ts_mon tms = -1 \<or> m = ts_mon tms)
   \<and> (ts_mday tms = -1 \<or> d = min (ts_mday tms) (month_days leap m (y + 1900) - 1))
   \<and> (ts_hour tms = -1 \<or> h = ts_hour tms) \<and> (ts_min tms = -1 \<or> mi = ts_min tms))"

lemma mdays_inverted:
  assumes "0 \<le> m" "m < 12"
  shows "mdays m y = month_days inverted m y"
proof -
  have "isleap y \<longleftrightarrow> \<not> 4 dvd y"
  proof -
    have "4 dvd y" if "100 dvd y"
      using dvd_trans [of 4 100 y] that by simp
    then show ?thesis
      by (auto simp: isleap_def dvd_eq_mod_eq_0)
  qed
  moreover have "m = 0 \<or> m = 1 \<or> m = 2 \<or> m = 3 \<or> m = 4 \<or> m = 5 \<or> m = 6 \<or> m = 7 \<or> m = 8 \<or> m = 9 \<or> m = 10 \<or> m = 11"
    using assms by presburger
  ultimately show ?thesis
    by (auto simp: mdays_def MDAYS_def month_days_def inverted_def)
qed

lemma date_ok_inverted: "date_ok D \<longleftrightarrow> in_calendar inverted D"
  by (cases D) (auto simp: date_ok_def in_calendar_def mdays_inverted)

lemma meets_inverted: "meets tms = due inverted tms"
proof (rule ext)
  fix x :: "date \<times> tod"
  obtain y m d h mi z where x: "x = ((y, m, d), (h, mi, z))"
    by (cases x) auto
  have "0 \<le> m \<Longrightarrow> m < 12 \<Longrightarrow> mdays m (y + 1900) = month_days inverted m (y + 1900)"
    by (rule mdays_inverted)
  then show "meets tms x = due inverted tms x"
    by (auto simp: x meets_def due_def in_calendar_def date_ok_def date_meets_def tod_ok_def tod_meets_def FIXED_def)
qed

text \<open>A day every month has is the same in both calendars.\<close>

lemma due_same:
  assumes "0 \<le> ts_mday tms" "ts_mday tms < 28"
  shows "due leap tms = due inverted tms"
proof (rule ext)
  fix x :: "date \<times> tod"
  obtain y m d t where x: "x = ((y, m, d), t)"
    by (cases x) auto
  have "28 \<le> month_days leap m (y + 1900)" for leap
    by (simp add: month_days_def)
  from this [of leap] this [of inverted] show "due leap tms x = due inverted tms x"
    using assms by (auto simp: x due_def in_calendar_def)
qed

text \<open>
  C36: The next time of a daily, monthly or yearly specification is the earliest moment after
  the current one, second 0 of a minute, whose given components are those of the specification,
  a day that the month does not have standing for the last it has.  This holds in the calendar of
  the code, which has its leap years inverted; and it holds in the Gregorian calendar when the
  specification gives a day of the month up to the 28th and it is not 29 February
  now.  Otherwise it does not hold there, as \<open>leap_day_goes_back\<close> shows.
\<close>
theorem nexttime_earliest:
  assumes "spec_ok tms" "\<not> FIXED (ts_wday tms)" "in_calendar leap (fst (moment tm))" "tod_ok (snd (moment tm))"
    and "leap = inverted \<or> leap = gregorian \<and> 0 \<le> ts_mday tms \<and> ts_mday tms < 28 \<and> \<not> (tm_mon tm = 1 \<and> tm_mday tm = 29)"
  shows "\<exists>r. aug_nexttime tm tms = Some r \<and> first_after (due leap tms) (moment tm) (moment r)"
proof -
  have "in_calendar inverted (fst (moment tm))" "due leap tms = meets tms"
    using assms(3,5) due_same [of tms leap]
    by (auto simp: meets_inverted moment_def in_calendar_def month_days_def split: if_splits)
  then show ?thesis
    using nexttime_meets [OF assms(1,2) _ assms(4)] by (simp add: date_ok_inverted)
qed

section \<open>Weekly specifications\<close>

text \<open>Days are counted from the current one, whose day of the week is \<open>w\<close>.\<close>

definition wday_meets :: "tmspec \<Rightarrow> int \<Rightarrow> int \<Rightarrow> bool" where
  "wday_meets tms w k \<longleftrightarrow> (FIXED (ts_wday tms) \<longrightarrow> (w + k) mod 7 = ts_wday tms)"

definition meets_weekly :: "tmspec \<Rightarrow> int \<Rightarrow> int \<times> tod \<Rightarrow> bool" where
  "meets_weekly tms w = (\<lambda>(k, T). wday_meets tms w k \<and> (tod_ok T \<and> tod_meets tms T))"

lemma nextwtime_step:
  assumes "wday_meets tms (tm_wday tm) 0" "tod_ok (tod tm)" "0 < tm_sec tm" "spec_ok tms"
    and "tod_step tms (tm_hour tm) (tm_min tm) = (c, a, b)"
  shows "nextwtime tm tms = \<lparr>tm_sec = 0, tm_min = b, tm_hour = a,
    tm_mday = tm_mday tm + (if c then if FIXED (ts_wday tms) then 7 else 1 else 0), tm_mon = tm_mon tm,
    tm_year = tm_year tm, tm_wday = 0, tm_yday = 0, tm_isdst = -1\<rparr>"
proof -
  have r: "0 \<le> tm_hour tm" "tm_hour tm < 24" "0 \<le> tm_min tm" "tm_min tm < 60"
    using assms(2) by (simp_all add: tod_def tod_ok_def)
  have "(7 + ts_wday tms - tm_wday tm) mod 7 = 0" if "FIXED (ts_wday tms)"
    using assms(1) that by (simp add: wday_meets_def) presburger
  then have w: "\<not> (FIXED (ts_wday tms) \<and> (7 + ts_wday tms - tm_wday tm) mod 7 \<noteq> 0)" by blast
  let ?S = "\<lambda>h mi k. \<lparr>tm_sec = 0, tm_min = mi, tm_hour = h, tm_mday = tm_mday tm + k, tm_mon = tm_mon tm,
    tm_year = tm_year tm, tm_wday = 0, tm_yday = 0, tm_isdst = -1\<rparr>"
  let ?k = "if FIXED (ts_wday tms) then 7 else 1 :: int"
  have hour: "nextwhour (?S h mi 0) tms = (let (c, a, b) = hour_step tms h mi in ?S a b (if c then ?k else 0))"
    if "0 \<le> h" "h < 24" for h mi
    using that step_mod [of h 24] by (auto simp: nextwhour_def nextwday_def hour_step_def Let_def)
  have minute: "nextwmin (?S h mi 0) tms = (if mi = 59 then nextwhour (?S h 0 0) tms else ?S h (mi + 1) 0)"
    if "0 \<le> mi" "mi < 60" "\<not> FIXED (ts_min tms)" for h mi
    using that step_mod [of mi 60] by (auto simp: nextwmin_def Let_def)
  have "nextwtime tm tms =
    (if FIXED (ts_hour tms) \<and> ts_hour tms \<noteq> tm_hour tm then
       ?S (ts_hour tms) (min0 tms) (if ts_hour tms < tm_hour tm then ?k else 0)
     else if FIXED (ts_min tms) \<and> ts_min tms \<noteq> tm_min tm then
       (if ts_min tms < tm_min tm then nextwhour (?S (tm_hour tm) (ts_min tms) 0) tms
        else ?S (tm_hour tm) (ts_min tms) 0)
     else nextwmin (?S (tm_hour tm) (tm_min tm) 0) tms)"
    using w assms(3)
    by (cases "FIXED (ts_wday tms)"; cases "FIXED (ts_hour tms)"; cases "FIXED (ts_min tms)")
       (simp_all add: nextwtime_def min0_def Let_def nextwday_def)
  also have "\<dots> = ?S a b (if c then ?k else 0)"
  proof (cases "FIXED (ts_min tms)")
    case True
    then show ?thesis using assms(5) r
      by (auto simp: tod_step_def hour [simplified] nextwmin_def split: prod.splits if_splits)
  next
    case False
    then show ?thesis using assms(5) r
      by (auto simp: tod_step_def hour [simplified] minute [simplified] split: prod.splits if_splits)
  qed
  finally show ?thesis .
qed

lemma wday_next:
  assumes "wday_meets tms w 0"
  shows "first_after (wday_meets tms w) 0 (if FIXED (ts_wday tms) then 7 else 1)"
proof (cases "FIXED (ts_wday tms)")
  case True
  then have "7 \<le> y" if "wday_meets tms w y" "0 < y" for y
    using assms that by (simp add: wday_meets_def) presburger
  then show ?thesis using True assms by (auto simp: first_after_def wday_meets_def)
next
  case False
  then show ?thesis by (simp add: first_after_def wday_meets_def)
qed

lemma wday_later:
  assumes "FIXED (ts_wday tms)" "(7 + ts_wday tms - w) mod 7 \<noteq> 0" "0 \<le> ts_wday tms" "ts_wday tms < 7"
  shows "first_after (wday_meets tms w) 0 ((7 + ts_wday tms - w) mod 7) \<and> \<not> wday_meets tms w 0"
proof -
  let ?k = "(7 + ts_wday tms - w) mod 7"
  have "?k \<le> y" if "(w + y) mod 7 = ts_wday tms" "0 < y" for y using that assms by presburger
  moreover have "(w + ?k) mod 7 = ts_wday tms" using assms by presburger
  moreover have "0 < ?k" using assms by presburger
  moreover have "w mod 7 \<noteq> ts_wday tms" using assms by presburger
  ultimately show ?thesis using assms(1) by (simp add: first_after_def wday_meets_def)
qed

lemma nextwtime_first:
  assumes ok: "spec_ok tms" "tod_ok (tod tm)" "0 < tm_sec tm"
  shows "first_after (meets_weekly tms (tm_wday tm)) (0, tod tm) (tm_mday (nextwtime tm tms) - tm_mday tm, tod (nextwtime tm tms))"
proof (cases "wday_meets tms (tm_wday tm) 0")
  case True
  obtain c a b where st: "tod_step tms (tm_hour tm) (tm_min tm) = (c, a, b)" by (cases "tod_step tms (tm_hour tm) (tm_min tm)") auto
  have s: "tod_ok (tm_hour tm, tm_min tm, tm_sec tm)" using ok(2) by (simp add: tod_def)
  show ?thesis
    using step_first [OF ok(1) s ok(3) st True wday_next [OF True]] nextwtime_step [OF True ok(2,3,1) st]
    by (cases c) (simp_all add: meets_weekly_def tod_def)
next
  case False
  have f: "FIXED (ts_wday tms)" using False by (simp add: wday_meets_def)
  have r: "0 \<le> ts_wday tms" "ts_wday tms < 7" using ok(1) f FIXED_range [of "ts_wday tms"] by (simp_all add: spec_ok_def)
  have k: "(7 + ts_wday tms - tm_wday tm) mod 7 \<noteq> 0"
    using False f r by (simp add: wday_meets_def) presburger
  note l = wday_later [OF f k r]
  have "first_after (meets_weekly tms (tm_wday tm)) (0, tod tm) ((7 + ts_wday tms - tm_wday tm) mod 7, first_tod tms)"
    using first_after_fst [of "wday_meets tms (tm_wday tm)" 0 _ "\<lambda>t. tod_ok t \<and> tod_meets tms t" "first_tod tms" "tod tm"]
      l first_tod_least [OF ok(1)]
    by (simp add: meets_weekly_def)
  moreover have "tm_mday (nextwtime tm tms) = tm_mday tm + (7 + ts_wday tms - tm_wday tm) mod 7"
    and "tod (nextwtime tm tms) = first_tod tms"
    using f k by (simp_all add: nextwtime_def Let_def tod_def first_tod_def)
  ultimately show ?thesis by simp
qed

text \<open>
  The next time of a weekly specification is the earliest of the times of day that meet it,
  after the current moment and on a day of the week that meets it; the day of the month is
  left to run over the month's end, as \<open>mktime\<close> allows.
\<close>
lemma nexttime_weekly:
  assumes "spec_ok tms" "FIXED (ts_wday tms)" "\<not> FIXED (ts_mday tms)" "\<not> FIXED (ts_mon tms)" "tod_ok (tod tm)"
  shows "\<exists>r. aug_nexttime tm tms = Some r
    \<and> first_after (meets_weekly tms (tm_wday tm)) (0, tod tm) (tm_mday r - tm_mday tm, tod r)"
proof -
  define t where "t = tm\<lparr>tm_sec := max 1 (tm_sec tm), tm_mday := tm_mday tm - 1\<rparr>"
  define r where "r = nextwtime t tms"
  have s: "0 \<le> tm_sec tm" "tm_sec tm \<le> 60" using assms(5) by (simp_all add: tod_def tod_ok_def)
  have "first_after (meets_weekly tms (tm_wday t)) (0, tod t) (tm_mday r - tm_mday t, tod r)"
    unfolding r_def by (rule nextwtime_first [OF assms(1)]) (use assms(5) in \<open>auto simp: t_def tod_def tod_ok_def\<close>)
  moreover have "tod t = (tm_hour tm, tm_min tm, max 1 (tm_sec tm))" "tm_wday t = tm_wday tm"
    by (simp_all add: t_def tod_def)
  moreover have "x = 0" if "meets_weekly tms (tm_wday tm) (D, h, m, x)" for D h m x
    using that by (simp add: meets_weekly_def tod_meets_def)
  ultimately have "first_after (meets_weekly tms (tm_wday tm)) (0, tm_hour tm, tm_min tm, tm_sec tm) (tm_mday r - tm_mday t, tod r)"
    using first_after_sec [of "meets_weekly tms (tm_wday tm)", OF _ _ s(1)] by metis
  moreover have "aug_nexttime tm tms = Some (r\<lparr>tm_mday := tm_mday r + 1\<rparr>)"
    using assms(2-4) s by (simp add: aug_nexttime_def r_def t_def max_def Let_def)
  moreover have "tm_mday r - tm_mday t = tm_mday (r\<lparr>tm_mday := tm_mday r + 1\<rparr>) - tm_mday tm"
    "tod r = tod (r\<lparr>tm_mday := tm_mday r + 1\<rparr>)" "tod tm = (tm_hour tm, tm_min tm, tm_sec tm)"
    by (simp_all add: t_def tod_def)
  ultimately show ?thesis by metis
qed

section \<open>Witnesses and the calendar\<close>

definition sample_time :: tm where
  "sample_time = \<lparr>tm_sec = 0, tm_min = 30, tm_hour = 17, tm_mday = 31, tm_mon = 11, tm_year = 109,
     tm_wday = 4, tm_yday = 364, tm_isdst = 0\<rparr>"

definition five_oclock :: tmspec where
  "five_oclock = \<lparr>ts_min = 0, ts_hour = 17, ts_mday = -1, ts_mon = -1, ts_wday = -1\<rparr>"

lemma nexttime_earliest_witness:
  "(\<exists>r. aug_nexttime sample_time five_oclock = Some r
     \<and> first_after (due inverted five_oclock) (moment sample_time) (moment r))
   \<and> (\<exists>r. aug_nexttime sample_time (five_oclock\<lparr>ts_mday := 14\<rparr>) = Some r
     \<and> first_after (due gregorian (five_oclock\<lparr>ts_mday := 14\<rparr>)) (moment sample_time) (moment r))"
proof
  show "\<exists>r. aug_nexttime sample_time five_oclock = Some r
      \<and> first_after (due inverted five_oclock) (moment sample_time) (moment r)"
    by (rule nexttime_earliest)
      (simp_all add: spec_ok_def FIXED_def five_oclock_def sample_time_def moment_def in_calendar_def tod_ok_def tod_def
        month_days_def)
  show "\<exists>r. aug_nexttime sample_time (five_oclock\<lparr>ts_mday := 14\<rparr>) = Some r
      \<and> first_after (due gregorian (five_oclock\<lparr>ts_mday := 14\<rparr>)) (moment sample_time) (moment r)"
    by (rule nexttime_earliest)
      (simp_all add: spec_ok_def FIXED_def five_oclock_def sample_time_def moment_def in_calendar_def tod_ok_def tod_def
        month_days_def)
qed

lemma nexttime_weekly_witness:
  "\<exists>r. aug_nexttime sample_time (five_oclock\<lparr>ts_wday := 1\<rparr>) = Some r
    \<and> first_after (meets_weekly (five_oclock\<lparr>ts_wday := 1\<rparr>) (tm_wday sample_time)) (0, tod sample_time)
        (tm_mday r - tm_mday sample_time, tod r)"
  by (rule nexttime_weekly)
     (simp_all add: spec_ok_def FIXED_def five_oclock_def sample_time_def tod_ok_def tod_def)

text \<open>The code's leap years are the years that are not divisible by four: on the 29th of
  February the next hour is one of the day before.\<close>

lemma leap_day_goes_back:
  assumes "tm_year tm mod 4 = 0" "tm_mon tm = 1" "tm_mday tm = 29" "tod_ok (tod tm)" "tm_hour tm < 23"
  shows "\<exists>r. aug_nexttime tm (five_oclock\<lparr>ts_hour := -1\<rparr>) = Some r \<and> moment r < moment tm"
proof -
  have "\<not> isleap (tm_year tm + 1900)" using assms(1) by (simp add: isleap_def) presburger
  then have n: "mdays 1 (tm_year tm + 1900) = 28" by (simp add: mdays_def MDAYS_def)
  define r where "r = the (aug_nexttime tm (five_oclock\<lparr>ts_hour := -1\<rparr>))"
  have f: "FIXED 0" "\<not> FIXED (-1)" by (simp_all add: FIXED_def)
  have "aug_nexttime tm (five_oclock\<lparr>ts_hour := -1\<rparr>) = Some r"
    by (simp add: r_def aug_nexttime_def five_oclock_def f Let_def)
  moreover have "tm_year r = tm_year tm" "tm_mon r = 1" "tm_mday r = 28"
    using assms n f
    by (auto simp: r_def aug_nexttime_def five_oclock_def Let_def nextmtime_def finish_def mday_min nextmhour_def
        tod_def tod_ok_def nextmmin_def)
  ultimately show ?thesis using assms(2,3) by (simp add: moment_def)
qed

section \<open>Reading and writing specifications\<close>

definition given :: "tmspec \<Rightarrow> bool" where
  "given tms \<longleftrightarrow> -1 \<le> ts_min tms \<and> -1 \<le> ts_hour tms \<and> -1 \<le> ts_mday tms \<and> -1 \<le> ts_mon tms \<and> -1 \<le> ts_wday tms"

lemma given_update:
  assumes "0 \<le> x" "given tms"
  shows "given (tms\<lparr>ts_min := x\<rparr>)" "given (tms\<lparr>ts_hour := x\<rparr>)" "given (tms\<lparr>ts_mday := x\<rparr>)"
    "given (tms\<lparr>ts_mon := x\<rparr>)" "given (tms\<lparr>ts_wday := x\<rparr>)"
  using assms by (simp_all add: given_def)

lemma scan_spec_ok: "scan_spec s x tms = Some (ok, tms') \<Longrightarrow> 0 \<le> x \<Longrightarrow> given tms \<Longrightarrow> given tms'"
proof (induction s arbitrary: x tms)
  case (Cons ch s)
  have "0 \<le> x * 10 + (uint ch - 48)" if "48 \<le> ch"
    using that Cons.prems(2) by (simp add: word_le_def)
  then show ?case
    using Cons.prems by (auto simp: Let_def given_update split: if_split_asm intro: Cons.IH)
qed simp

text \<open>
  A specification that is accepted has its components in range, days and months counted
  from zero and Sunday as day 0 of the week, so that the next time is defined for it.
\<close>
lemma strtmspec_range:
  assumes "aug_strtmspec s = Some (True, tms)"
  shows "spec_ok tms"
  using assms
  by (auto simp: aug_strtmspec_def spec_ok_def given_def Let_def bind_eq_Some_conv split: if_splits dest!: scan_spec_ok)

text \<open>A specification written out, days and months counted from one.\<close>

definition spec_part :: "int \<Rightarrow> int \<Rightarrow> byte \<Rightarrow> byte list" where
  "spec_part x k ch = (if FIXED x then decimal (nat (x + k)) @ [ch] else [])"

definition spec_text :: "tmspec \<Rightarrow> byte list" where
  "spec_text tms = spec_part (ts_mon tms) 1 109 @ spec_part (ts_mday tms) 1 100 @ spec_part (ts_hour tms) 0 72
     @ spec_part (ts_min tms) 0 77 @ spec_part (ts_wday tms) 0 119"

lemma digit_uint:
  assumes "d < 10"
  shows "uint (of_nat (48 + d) :: byte) = 48 + int d"
  unfolding unsigned_of_nat using assms by (simp add: take_bit_eq_mod)

lemma scan_digit:
  assumes "d < 10" "x * 10 + int d < 2 ^ 31"
  shows "scan_spec (of_nat (48 + d) # s) x tms = scan_spec s (x * 10 + int d) tms"
proof -
  have "uint (of_nat (48 + d) :: byte) = 48 + int d" by (rule digit_uint [OF assms(1)])
  then have "48 \<le> (of_nat (48 + d) :: byte)" "(of_nat (48 + d) :: byte) \<le> 57"
    using assms(1) by (simp_all add: word_le_def)
  then show ?thesis using assms digit_uint [OF assms(1)] by (simp add: Let_def)
qed

lemma scan_decimal:
  assumes "n < 100"
  shows "scan_spec (decimal n @ s) 0 tms = scan_spec s (int n) tms"
proof (cases "n < 10")
  case True
  then show ?thesis using scan_digit [of n 0 s tms] by (simp add: decimal.simps del: scan_spec.simps)
next
  case False
  have d: "decimal n = [of_nat (48 + n div 10), of_nat (48 + n mod 10)]"
    using assms False by (subst decimal.simps, subst decimal.simps) simp
  have "int (n div 10) * 10 + int (n mod 10) = int n" by presburger
  then show ?thesis
    unfolding d using assms scan_digit [of "n div 10" 0 "of_nat (48 + n mod 10) # s" tms]
      scan_digit [of "n mod 10" "int (n div 10)" s tms]
    by (simp del: scan_spec.simps)
qed

lemma scan_part:
  assumes "-1 \<le> x" "x + k < 100" "0 \<le> k"
  shows "scan_spec (spec_part x k ch @ s) 0 tms = (if FIXED x then scan_spec (ch # s) (x + k) tms else scan_spec s 0 tms)"
  using assms FIXED_range [OF assms(1)] scan_decimal [of "nat (x + k)" "ch # s" tms]
  by (auto simp: spec_part_def simp del: scan_spec.simps)

lemma scan_parts:
  assumes "-1 \<le> x" "x + k < 100" "0 \<le> k"
  shows "scan_spec (spec_part x k 109 @ s) 0 tms = scan_spec s 0 (if FIXED x then tms\<lparr>ts_mon := x + k\<rparr> else tms)"
    "scan_spec (spec_part x k 100 @ s) 0 tms = scan_spec s 0 (if FIXED x then tms\<lparr>ts_mday := x + k\<rparr> else tms)"
    "scan_spec (spec_part x k 72 @ s) 0 tms = scan_spec s 0 (if FIXED x then tms\<lparr>ts_hour := x + k\<rparr> else tms)"
    "scan_spec (spec_part x k 77 @ s) 0 tms = scan_spec s 0 (if FIXED x then tms\<lparr>ts_min := x + k\<rparr> else tms)"
    "scan_spec (spec_part x k 119 @ s) 0 tms = scan_spec s 0 (if FIXED x then tms\<lparr>ts_wday := x + k\<rparr> else tms)"
  by (simp_all add: scan_part [OF assms])

text \<open>
  A specification with components in range is read back from its text.
\<close>
lemma strtmspec_roundtrip:
  assumes "spec_ok tms"
  shows "aug_strtmspec (spec_text tms) = Some (True, tms)"
proof -
  define t0 where "t0 = \<lparr>ts_min = -1, ts_hour = -1, ts_mday = -1, ts_mon = -1, ts_wday = -1\<rparr>"
  define u where "u = tms\<lparr>ts_mon := (if FIXED (ts_mon tms) then ts_mon tms + 1 else -1),
    ts_mday := (if FIXED (ts_mday tms) then ts_mday tms + 1 else -1)\<rparr>"
  have r: "-1 \<le> ts_min tms" "-1 \<le> ts_hour tms" "-1 \<le> ts_mday tms" "-1 \<le> ts_mon tms" "-1 \<le> ts_wday tms"
    "ts_min tms < 60" "ts_hour tms < 24" "ts_mday tms < 31" "ts_mon tms < 12" "ts_wday tms < 7"
    using assms by (simp_all add: spec_ok_def)
  have eq: "(if FIXED x then x else -1) = x" for x by (simp add: FIXED_def)
  have t: "spec_text tms = spec_part (ts_mon tms) 1 109 @ spec_part (ts_mday tms) 1 100 @ spec_part (ts_hour tms) 0 72
     @ spec_part (ts_min tms) 0 77 @ spec_part (ts_wday tms) 0 119 @ []"
    by (simp add: spec_text_def)
  have "\<exists>v. scan_spec (spec_text tms) 0 t0 = Some (True, v) \<and> ts_mon v = ts_mon u \<and> ts_mday v = ts_mday u
    \<and> ts_hour v = ts_hour u \<and> ts_min v = ts_min u \<and> ts_wday v = ts_wday u"
    unfolding t using r by (simp add: scan_parts del: append_Nil2) (simp add: t0_def u_def FIXED_def)
  then have "scan_spec (spec_text tms) 0 t0 = Some (True, u)"
    by (metis tmspec.equality unit.exhaust)
  then show ?thesis
    using r by (simp add: aug_strtmspec_def t0_def [symmetric] u_def FIXED_def)
qed

lemma strtmspec_roundtrip_witness: "aug_strtmspec (spec_text five_oclock) = Some (True, five_oclock)"
  by (rule strtmspec_roundtrip) (simp add: spec_ok_def five_oclock_def)

end
