(* ===== verification/Ssl.thy ===== *)
theory Ssl
  imports Chan
begin

text \<open>
  Channels over OpenSSL (\<^verbatim>\<open>augnet/ssl.c\<close>): a channel keeps what the library has decrypted in an
  input buffer and what is to be encrypted in an output buffer, and steers the library's calls by
  the state that says which call was blocked and on what.  One channel is modelled with its
  multiplexer and the system; the callback is a function on the whole state, so that it may call
  the channel's operations.

  OpenSSL is not part of the repository: its answer to each call is any function \<open>sl_answers\<close> of
  the calls made so far.  What is relied on is what it documents: \<^verbatim>\<open>SSL_get_error\<close> gives
  \<^verbatim>\<open>SSL_ERROR_NONE\<close> for a positive result, \<^verbatim>\<open>SSL_read\<close> stores no more bytes than it was given room
  for and \<^verbatim>\<open>SSL_write\<close> takes no more than it was given.  \<open>io_taken\<close> and \<open>io_given\<close> record what the
  user has read and written; the member \<^verbatim>\<open>except_\<close>, which is never read, is left out.
  \<open>None\<close> is undefined behaviour, as in \<open>Chan\<close>.
\<close>

section \<open>Buffers\<close>

definition AUG_BUFSIZE :: nat where "AUG_BUFSIZE = 4096"

record sbuf =
  sb_buf :: "byte list"
  sb_rd :: nat
  sb_wr :: nat

definition bufempty :: "sbuf \<Rightarrow> bool" where "bufempty x \<longleftrightarrow> sb_rd x = sb_wr x"
definition buffull :: "sbuf \<Rightarrow> bool" where "buffull x \<longleftrightarrow> sb_wr x = AUG_BUFSIZE"
definition clearbuf :: "sbuf \<Rightarrow> sbuf" where "clearbuf x = x\<lparr>sb_rd := 0, sb_wr := 0\<rparr>"

text \<open>The bytes copied out, and in.\<close>

definition readbuf :: "sbuf \<Rightarrow> nat \<Rightarrow> byte list \<times> sbuf" where
  "readbuf x n =
     (let ret = min (sb_wr x - sb_rd x) n in
      if ret = 0 then ([], x)
      else
        let x' = x\<lparr>sb_rd := sb_rd x + ret\<rparr>
        in (slice (sb_rd x) ret (sb_buf x), if bufempty x' then clearbuf x' else x'))"

definition writebuf :: "sbuf \<Rightarrow> byte list \<Rightarrow> nat \<times> sbuf" where
  "writebuf x bs =
     (let ret = min (AUG_BUFSIZE - sb_wr x) (length bs) in
      if ret = 0 then (0, x)
      else (ret, x\<lparr>sb_buf := poke (sb_buf x) (sb_wr x) (take ret bs), sb_wr := sb_wr x + ret\<rparr>))"

fun readbufv :: "sbuf \<Rightarrow> nat list \<Rightarrow> byte list \<times> sbuf" where
  "readbufv x [] = ([], x)"
| "readbufv x (n # iov) =
     (let (bs, x) = readbuf x n in
      if length bs < n then (bs, x) else let (bs', x) = readbufv x iov in (bs @ bs', x))"

fun writebufv :: "sbuf \<Rightarrow> byte list list \<Rightarrow> nat \<times> sbuf" where
  "writebufv x [] = (0, x)"
| "writebufv x (bs # iov) =
     (let (n, x) = writebuf x bs in
      if n < length bs then (n, x) else let (n', x) = writebufv x iov in (n + n', x))"

section \<open>The library\<close>

datatype sslerr = ErrNone | ErrWantRead | ErrWantWrite | ErrSyscall "aug_fail option" | ErrZeroReturn | ErrOther nat

text \<open>The answer to a call: the outcome, the bytes read or the number taken, and whether more is pending.\<close>

record sslans =
  sa_err :: sslerr
  sa_bytes :: "byte list"
  sa_num :: nat
  sa_pending :: bool

text \<open>The calls: \<^verbatim>\<open>SSL_read\<close> with what it stored, \<^verbatim>\<open>SSL_write\<close> with the place and the bytes offered
  and how many were taken, \<^verbatim>\<open>SSL_do_handshake\<close>, \<^verbatim>\<open>SSL_shutdown\<close>, the \<^verbatim>\<open>shutdown\<close> of the socket,
  the choice between client and server, \<^verbatim>\<open>SSL_free\<close>.\<close>

datatype sslcall =
    CRead "byte list" sslerr
  | CWrite nat "byte list" nat sslerr
  | CShake sslerr
  | CShutdown
  | CShutWr
  | CMode bool
  | CFree

record ssllib =
  sl_answers :: "sslcall list \<Rightarrow> sslans"
  sl_log :: "sslcall list"

definition ssl_answer :: "ssllib \<Rightarrow> sslans" where "ssl_answer l = sl_answers l (sl_log l)"
definition ssl_call :: "sslcall \<Rightarrow> ssllib \<Rightarrow> ssllib" where "ssl_call c l = l\<lparr>sl_log := c # sl_log l\<rparr>"

section \<open>State\<close>

type_synonym sslstate = "32 word"

definition NEUTRAL :: sslstate where "NEUTRAL = 0x01"
definition READ :: sslstate where "READ = 0x02"
definition WRITE :: sslstate where "WRITE = 0x04"
definition PENDRD :: sslstate where "PENDRD = 0x08"
definition WANTRD :: sslstate where "WANTRD = 0x10"
definition WANTWR :: sslstate where "WANTWR = 0x20"
definition ENDOF :: sslstate where "ENDOF = 0x40"
definition ERROR :: sslstate where "ERROR = 0x80"
definition RDPENDRD :: sslstate where "RDPENDRD = READ OR PENDRD"
definition RDWANTRD :: sslstate where "RDWANTRD = READ OR WANTRD"
definition RDWANTWR :: sslstate where "RDWANTWR = READ OR WANTWR"
definition WRWANTRD :: sslstate where "WRWANTRD = WRITE OR WANTRD"
definition WRWANTWR :: sslstate where "WRWANTWR = WRITE OR WANTWR"
definition HANDSHAKE :: sslstate where "HANDSHAKE = WRITE OR WANTWR"

lemmas state_defs = NEUTRAL_def READ_def WRITE_def PENDRD_def WANTRD_def WANTWR_def ENDOF_def ERROR_def
  RDPENDRD_def RDWANTRD_def RDWANTWR_def WRWANTRD_def WRWANTWR_def HANDSHAKE_def

text \<open>An error kept for the user: the system's or the library's.\<close>

datatype ssl_fail = Fail aug_fail | LibFail

record 'm ssl =
  io_refs :: nat
  io_sticky :: sticky
  io_wantwr :: bool
  io_id :: nat
  io_in :: sbuf
  io_out :: sbuf
  io_state :: sslstate
  io_errinfo :: "ssl_fail option"
  io_shutdown :: bool
  io_mux :: 'm
  io_net :: net
  io_lib :: ssllib
  io_taken :: "byte list"
  io_given :: "byte list"

definition log_call :: "sslcall \<Rightarrow> 'm ssl \<Rightarrow> 'm ssl" where
  "log_call c s = s\<lparr>io_lib := ssl_call c (io_lib s)\<rparr>"

definition on_sys :: "(net \<Rightarrow> 'r \<times> net) \<Rightarrow> 'm ssl \<Rightarrow> 'r \<times> 'm ssl" where
  "on_sys f s = (let (r, n) = f (io_net s) in (r, s\<lparr>io_net := n\<rparr>))"

definition clear_ev :: "'m mops \<Rightarrow> mask \<Rightarrow> 'm ssl \<Rightarrow> 'm ssl" where
  "clear_ev mo ev s =
     (let (_, st, m) = aug_clearsticky (mo_set mo) (io_mux s) (io_sticky s) ev in s\<lparr>io_sticky := st, io_mux := m\<rparr>)"

section \<open>Masks and events\<close>

definition getmask :: "'m ssl \<Rightarrow> mask" where
  "getmask s = (if io_state s AND WANTWR \<noteq> 0 \<or> \<not> bufempty (io_out s) then AUG_MDEVENTALL else AUG_MDEVENTRDEX)"

definition isexcept :: "'m ssl \<Rightarrow> mask \<Rightarrow> bool" where
  "isexcept s events \<longleftrightarrow> io_state s AND (ENDOF OR ERROR) \<noteq> 0 \<or> events AND AUG_MDEVENTEX \<noteq> 0"

definition isread :: "'m ssl \<Rightarrow> mask \<Rightarrow> bool" where
  "isread s events \<longleftrightarrow>
     (if io_state s AND WRITE \<noteq> 0 then False
      else RDPENDRD = io_state s \<or> events AND AUG_MDEVENTRD \<noteq> 0
        \<or> (events AND AUG_MDEVENTWR \<noteq> 0 \<and> RDWANTWR = io_state s))"

definition iswrite :: "'m ssl \<Rightarrow> mask \<Rightarrow> bool" where
  "iswrite s events \<longleftrightarrow>
     (if io_state s AND READ \<noteq> 0 then False
      else events AND AUG_MDEVENTWR \<noteq> 0 \<or> (events AND AUG_MDEVENTRD \<noteq> 0 \<and> WRWANTRD = io_state s))"

definition readyevents :: "'m ssl \<Rightarrow> mask" where
  "readyevents s =
     (if io_state s AND (ENDOF OR ERROR) \<noteq> 0 \<or> \<not> bufempty (io_in s) then AUG_MDEVENTRD else 0)
      OR (if io_wantwr s \<and> \<not> buffull (io_out s) then AUG_MDEVENTWR else 0)"

text \<open>A mask cannot be set for the descriptor -1 of a closed channel.\<close>

definition setmask :: "'m mops \<Rightarrow> 'm ssl \<Rightarrow> 'm ssl option" where
  "setmask mo s =
     (if sk_md (io_sticky s) = None then None
      else
        let (_, st, m) = aug_setsticky (mo_set mo) (io_mux s) (io_sticky s) (getmask s)
        in Some (s\<lparr>io_sticky := st, io_mux := m\<rparr>))"

section \<open>Calling the library\<close>

text \<open>\<^verbatim>\<open>SSL_shutdown\<close> fails when the library answers anything but success.\<close>

definition shutwr :: "'m ssl \<Rightarrow> ssl_fail option \<times> 'm ssl" where
  "shutwr s =
     (let err = sa_err (ssl_answer (io_lib s));
          s = log_call CShutdown s;
          s = (case sk_md (io_sticky s) of None \<Rightarrow> s | Some sd \<Rightarrow> snd (on_sys (sys_call sd) s));
          s = log_call CShutWr s
      in (if err = ErrNone then None else Some LibFail, s))"

definition sslread :: "'m ssl \<Rightarrow> sslerr \<times> 'm ssl" where
  "sslread s =
     (let x = io_in s;
          n = AUG_BUFSIZE - sb_wr x;
          a = ssl_answer (io_lib s);
          bs = (if sa_err a = ErrNone then take n (sa_bytes a) else []);
          x = x\<lparr>sb_buf := poke (sb_buf x) (sb_wr x) bs, sb_wr := sb_wr x + length bs\<rparr>
      in (sa_err a, log_call (CRead bs (sa_err a)) (s\<lparr>io_in := x\<rparr>)))"

definition sslwriteshake :: "'m ssl \<Rightarrow> sslerr \<times> 'm ssl" where
  "sslwriteshake s =
     (let x = io_out s;
          n = sb_wr x - sb_rd x;
          a = ssl_answer (io_lib s)
      in if n \<noteq> 0 then
           let k = (if sa_err a = ErrNone then min n (sa_num a) else 0);
               bs = slice (sb_rd x) n (sb_buf x);
               x' = (if 0 < k then
                       let y = x\<lparr>sb_rd := sb_rd x + k\<rparr> in if bufempty y then clearbuf y else y
                     else x)
           in (sa_err a, log_call (CWrite (sb_rd x) bs k (sa_err a)) (s\<lparr>io_out := x'\<rparr>))
         else (sa_err a, log_call (CShake (sa_err a)) s))"

text \<open>The error kept for the user; a system call that failed without an error is \<^verbatim>\<open>AUG_EIO\<close>.\<close>

definition saved_error :: "sslerr \<Rightarrow> ssl_fail" where
  "saved_error e =
     (case e of ErrSyscall (Some f) \<Rightarrow> Fail f | ErrSyscall None \<Rightarrow> Fail (ExError EIO) | _ \<Rightarrow> LibFail)"

text \<open>The first half of \<^verbatim>\<open>readwrite_\<close>: whether it goes on to write, and the state.\<close>

definition read_half :: "'m mops \<Rightarrow> 'm ssl \<Rightarrow> bool \<times> 'm ssl" where
  "read_half mo s =
     (let pending = sa_pending (ssl_answer (io_lib s));
          (err, s) = sslread s
      in case err of
           ErrNone \<Rightarrow>
             if pending then (False, s\<lparr>io_state := RDPENDRD\<rparr>) else (True, s\<lparr>io_state := NEUTRAL\<rparr>)
         | ErrWantRead \<Rightarrow> (False, (clear_ev mo AUG_MDEVENTRD s)\<lparr>io_state := RDWANTRD\<rparr>)
         | ErrWantWrite \<Rightarrow> (False, (clear_ev mo AUG_MDEVENTWR s)\<lparr>io_state := RDWANTWR\<rparr>)
         | ErrSyscall _ \<Rightarrow> (False, s\<lparr>io_errinfo := Some (saved_error err), io_state := ERROR\<rparr>)
         | ErrZeroReturn \<Rightarrow>
             (False, (if io_shutdown s then s else log_call CShutdown s)\<lparr>io_state := ENDOF\<rparr>)
         | ErrOther _ \<Rightarrow> (False, s\<lparr>io_errinfo := Some (saved_error err), io_state := ERROR\<rparr>))"

definition write_half :: "'m mops \<Rightarrow> 'm ssl \<Rightarrow> 'm ssl" where
  "write_half mo s =
     (let (err, s) = sslwriteshake s
      in case err of
           ErrNone \<Rightarrow>
             let s = (if io_shutdown s \<and> bufempty (io_out s) then
                        case shutwr s of
                          (Some e, s) \<Rightarrow> s\<lparr>io_errinfo := Some e, io_state := ERROR\<rparr>
                        | (None, s) \<Rightarrow> s
                      else s)
             in s\<lparr>io_state := NEUTRAL\<rparr>
         | ErrWantRead \<Rightarrow> (clear_ev mo AUG_MDEVENTRD s)\<lparr>io_state := WRWANTRD\<rparr>
         | ErrWantWrite \<Rightarrow> (clear_ev mo AUG_MDEVENTWR s)\<lparr>io_state := WRWANTWR\<rparr>
         | _ \<Rightarrow> s\<lparr>io_errinfo := Some (saved_error err), io_state := ERROR\<rparr>)"

definition readwrite :: "'m mops \<Rightarrow> mask \<Rightarrow> 'm ssl \<Rightarrow> 'm ssl" where
  "readwrite mo events s =
     (let (cont, s) = (if isread s events \<and> \<not> buffull (io_in s) then read_half mo s else (True, s))
      in if cont \<and> iswrite s events then write_half mo s else s)"

section \<open>The channel\<close>

record 'm shandler =
  sh_ready :: "mask \<Rightarrow> 'm ssl \<Rightarrow> (bool \<times> 'm ssl) option"
  sh_error :: "aug_fail \<Rightarrow> 'm ssl \<Rightarrow> 'm ssl option"

text \<open>\<^verbatim>\<open>error_\<close>, \<^verbatim>\<open>close_\<close>, \<^verbatim>\<open>retain_\<close> and \<^verbatim>\<open>release_\<close>.\<close>

definition ssl_error :: "'m shandler \<Rightarrow> md \<Rightarrow> mask \<Rightarrow> 'm ssl \<Rightarrow> (bool \<times> 'm ssl) option" where
  "ssl_error h sd events s =
     (if AUG_MDEVENTEX AND events \<noteq> 0 then
        (case on_sys (sys_call sd) s of
           (None, s) \<Rightarrow> Some (False, s)
         | (Some e, s) \<Rightarrow> map_option (Pair True) (sh_error h e s))
      else Some (False, s))"

definition ssl_close :: "'m mops \<Rightarrow> 'm ssl \<Rightarrow> (aug_fail option \<times> 'm ssl) option" where
  "ssl_close mo s =
     (case sk_md (io_sticky s) of
        None \<Rightarrow> None
      | Some sd \<Rightarrow>
          let (st, m) = aug_termsticky (mo_set mo) (io_mux s) (io_sticky s)
          in Some (on_sys (aug_sclose sd) (s\<lparr>io_sticky := st, io_mux := m\<rparr>)))"

definition ssl_retain :: "'m ssl \<Rightarrow> 'm ssl option" where
  "ssl_retain s = (if 0 < io_refs s then Some (s\<lparr>io_refs := io_refs s + 1\<rparr>) else None)"

definition ssl_release :: "'m mops \<Rightarrow> 'm ssl \<Rightarrow> 'm ssl option" where
  "ssl_release mo s =
     (if io_refs s = 0 then None
      else
        let s = s\<lparr>io_refs := io_refs s - 1\<rparr> in
        if 0 < io_refs s then Some s
        else
          map_option (log_call CFree)
            (if sk_md (io_sticky s) = None then Some s else map_option snd (ssl_close mo s)))"

definition ssl_cast :: "interface \<Rightarrow> 'm ssl \<Rightarrow> (interface option \<times> 'm ssl) option" where
  "ssl_cast i s =
     (if i = ObjectId \<or> i = ChanId then map_option (Pair (Some ChanId)) (ssl_retain s)
      else if i = StreamId then map_option (Pair (Some StreamId)) (ssl_retain s)
      else Some (None, s))"

text \<open>The test of readability before a read, then the calls to the library, then the callback.\<close>

definition ssl_peek :: "'m mops \<Rightarrow> md \<Rightarrow> mask \<Rightarrow> 'm ssl \<Rightarrow> mask \<times> 'm ssl" where
  "ssl_peek mo sd events s =
     (if NEUTRAL = io_state s \<and> events AND AUG_MDEVENTRD \<noteq> 0 then
        case on_sys (sys_call sd) s of
          (r, s) \<Rightarrow>
            if r = Some ExBlock then (events AND NOT AUG_MDEVENTRD, clear_ev mo AUG_MDEVENTRD s)
            else (events, s)
      else (events, s))"

definition ssl_notify :: "'m mops \<Rightarrow> 'm shandler \<Rightarrow> 'm ssl \<Rightarrow> (bool \<times> 'm ssl) option" where
  "ssl_notify mo h s =
     (case (if readyevents s \<noteq> 0 then sh_ready h (readyevents s) s else Some (True, s)) of
        None \<Rightarrow> None
      | Some (False, s) \<Rightarrow> Some (False, s)
      | Some (True, s) \<Rightarrow> map_option (Pair True) (Option.bind (setmask mo s) ssl_retain))"

text \<open>Whether the channel stays.\<close>

definition ssl_process :: "'m mops \<Rightarrow> 'm shandler \<Rightarrow> 'm ssl \<Rightarrow> (bool \<times> 'm ssl) option" where
  "ssl_process mo h s =
     (case sk_md (io_sticky s) of
        None \<Rightarrow> Some (False, s)
      | Some sd \<Rightarrow>
          (case aug_getsticky (mo_set mo) (mo_events mo) (io_mux s) (io_sticky s) of
             (None, st, m) \<Rightarrow> None
           | (Some events, st, m) \<Rightarrow>
               (case ssl_error h sd events (s\<lparr>io_sticky := st, io_mux := m\<rparr>) of
                  None \<Rightarrow> None
                | Some (True, s) \<Rightarrow> Some (False, s)
                | Some (False, s) \<Rightarrow>
                    let (events, s) = ssl_peek mo sd events s
                    in ssl_notify mo h (if events \<noteq> 0 then readwrite mo events s else s))))"

definition ssl_setwantwr :: "bool \<Rightarrow> 'm ssl \<Rightarrow> 'm ssl" where
  "ssl_setwantwr wantwr s = s\<lparr>io_wantwr := wantwr\<rparr>"

definition ssl_isready :: "'m mops \<Rightarrow> 'm ssl \<Rightarrow> (bool \<times> 'm ssl) option" where
  "ssl_isready mo s =
     (if sk_md (io_sticky s) = None then Some (True, s)
      else if readyevents s \<noteq> 0 then Some (True, s)
      else
        (case aug_getsticky (mo_set mo) (mo_events mo) (io_mux s) (io_sticky s) of
           (None, st, m) \<Rightarrow> None
         | (Some events, st, m) \<Rightarrow>
             let s = s\<lparr>io_sticky := st, io_mux := m\<rparr>
             in Some (isexcept s events \<or> isread s events \<or> iswrite s events, s)))"

section \<open>The stream\<close>

definition ssl_shutdown :: "'m ssl \<Rightarrow> ssl_fail option \<times> 'm ssl" where
  "ssl_shutdown s =
     (let s = s\<lparr>io_shutdown := True\<rparr> in if bufempty (io_out s) then shutwr s else (None, s))"

text \<open>What a read that is not refused gives; \<open>take\<close> is \<^verbatim>\<open>readbuf_\<close> or \<^verbatim>\<open>readbufv_\<close>.\<close>

definition stream_read :: "'m mops \<Rightarrow> (sbuf \<Rightarrow> byte list \<times> sbuf) \<Rightarrow> 'm ssl \<Rightarrow> ((ssl_fail + byte list) \<times> 'm ssl) option" where
  "stream_read mo rd s =
     (if ERROR = io_state s then Some (Inl (case io_errinfo s of Some e \<Rightarrow> e | None \<Rightarrow> Fail ExNone), s)
      else if ENDOF = io_state s \<and> bufempty (io_in s) then Some (Inr [], s)
      else if bufempty (io_in s) then Some (Inl (Fail ExBlock), s)
      else
        let (bs, x) = rd (io_in s)
        in map_option (Pair (Inr bs)) (setmask mo (s\<lparr>io_in := x, io_taken := io_taken s @ bs\<rparr>)))"

definition ssl_sread :: "'m mops \<Rightarrow> nat \<Rightarrow> 'm ssl \<Rightarrow> ((ssl_fail + byte list) \<times> 'm ssl) option" where
  "ssl_sread mo n = stream_read mo (\<lambda>x. readbuf x n)"

definition ssl_sreadv :: "'m mops \<Rightarrow> nat list \<Rightarrow> 'm ssl \<Rightarrow> ((ssl_fail + byte list) \<times> 'm ssl) option" where
  "ssl_sreadv mo iov = stream_read mo (\<lambda>x. readbufv x iov)"

text \<open>\<^verbatim>\<open>ESHUTDOWN\<close> is 108.\<close>

definition stream_write ::
  "'m mops \<Rightarrow> (sbuf \<Rightarrow> nat \<times> sbuf) \<Rightarrow> byte list \<Rightarrow> 'm ssl \<Rightarrow> ((ssl_fail + nat) \<times> 'm ssl) option" where
  "stream_write mo wr bs s =
     (if buffull (io_out s) then Some (Inl (Fail ExBlock), s)
      else if io_shutdown s then Some (Inl (Fail (ExPosix 108)), s)
      else
        let (n, x) = wr (io_out s)
        in map_option (Pair (Inr n)) (setmask mo (s\<lparr>io_out := x, io_given := io_given s @ take n bs\<rparr>)))"

definition ssl_swrite :: "'m mops \<Rightarrow> byte list \<Rightarrow> 'm ssl \<Rightarrow> ((ssl_fail + nat) \<times> 'm ssl) option" where
  "ssl_swrite mo bs = stream_write mo (\<lambda>x. writebuf x bs) bs"

definition ssl_swritev :: "'m mops \<Rightarrow> byte list list \<Rightarrow> 'm ssl \<Rightarrow> ((ssl_fail + nat) \<times> 'm ssl) option" where
  "ssl_swritev mo iov = stream_write mo (\<lambda>x. writebufv x iov) (concat iov)"

section \<open>Creation\<close>

definition ssl0 :: "'m \<Rightarrow> net \<Rightarrow> ssllib \<Rightarrow> nat \<Rightarrow> bool \<Rightarrow> sticky \<Rightarrow> 'm ssl" where
  "ssl0 m n l i wantwr st =
     (let x = \<lparr>sb_buf = replicate AUG_BUFSIZE 0, sb_rd = 0, sb_wr = 0\<rparr>
      in \<lparr>io_refs = 1, io_sticky = st, io_wantwr = wantwr, io_id = i, io_in = clearbuf x, io_out = clearbuf x,
          io_state = HANDSHAKE, io_errinfo = None, io_shutdown = False, io_mux = m, io_net = n, io_lib = l,
          io_taken = [], io_given = []\<rparr>)"

definition createssl ::
  "'m mops \<Rightarrow> nat \<Rightarrow> md \<Rightarrow> bool \<Rightarrow> 'm \<Rightarrow> net \<Rightarrow> ssllib \<Rightarrow> ((aug_fail + 'm ssl) \<times> 'm \<times> net) option" where
  "createssl mo i sd wantwr m n l =
     (case answer n of
        (Some _, n) \<Rightarrow> Some (Inl NoMem, m, n)
      | (None, n) \<Rightarrow>
          (case aug_initsticky (mo_set mo) m sd 0 of
             (Inl e, st, m) \<Rightarrow> Some (Inl e, m, n)
           | (Inr _, st, m) \<Rightarrow>
               map_option (\<lambda>s. (Inr s, io_mux s, io_net s)) (setmask mo (ssl0 m n l i wantwr st))))"

definition aug_createsslclient ::
  "'m mops \<Rightarrow> nat \<Rightarrow> md \<Rightarrow> bool \<Rightarrow> 'm \<Rightarrow> net \<Rightarrow> ssllib \<Rightarrow> ((aug_fail + 'm ssl) \<times> 'm \<times> net) option" where
  "aug_createsslclient mo i sd wantwr m n l =
     map_option (\<lambda>(r, e). (map_sum id (log_call (CMode True)) r, e)) (createssl mo i sd wantwr m n l)"

definition aug_createsslserver ::
  "'m mops \<Rightarrow> nat \<Rightarrow> md \<Rightarrow> bool \<Rightarrow> 'm \<Rightarrow> net \<Rightarrow> ssllib \<Rightarrow> ((aug_fail + 'm ssl) \<times> 'm \<times> net) option" where
  "aug_createsslserver mo i sd wantwr m n l =
     map_option (\<lambda>(r, e). (map_sum id (log_call (CMode False)) r, e)) (createssl mo i sd wantwr m n l)"

end
