(* ===== verification/SslRun.thy ===== *)
theory SslRun
  imports Ssl
begin

text \<open>
  What makes the channels of \<open>Ssl\<close> correct.  The buffers are queues (\<open>content\<close>); the invariant
  \<open>ssl_inv\<close> accounts for every byte and says which call of the library is blocked; every
  operation keeps it, so that it holds in every run, whatever the library answers, the system
  does and the user does from the callback.  Under the contract \<open>muxer\<close> the mask of the
  multiplexer is the one the channel needs.
\<close>

section \<open>Buffers as queues\<close>

definition content :: "sbuf \<Rightarrow> byte list" where
  "content x = slice (sb_rd x) (sb_wr x - sb_rd x) (sb_buf x)"

definition buf_ok :: "sbuf \<Rightarrow> bool" where
  "buf_ok x \<longleftrightarrow> length (sb_buf x) = AUG_BUFSIZE \<and> sb_rd x \<le> sb_wr x \<and> sb_wr x \<le> AUG_BUFSIZE
     \<and> (sb_rd x = sb_wr x \<longrightarrow> sb_wr x = 0)"

lemma buf_length: "buf_ok x \<Longrightarrow> length (content x) = sb_wr x - sb_rd x"
  by (auto simp: content_def buf_ok_def)

lemma bufempty_content: "buf_ok x \<Longrightarrow> bufempty x \<longleftrightarrow> content x = []"
  using buf_length [of x] by (auto simp: bufempty_def buf_ok_def)

lemma slice_split:
  assumes "k \<le> n"
  shows "slice p n xs = slice p k xs @ slice (p + k) (n - k) xs"
proof -
  have "take (k + (n - k)) (drop p xs) = take k (drop p xs) @ take (n - k) (drop k (drop p xs))"
    by (rule take_add)
  then show ?thesis
    using assms by (simp only: slice_def drop_drop le_add_diff_inverse add.commute [of p k])
qed

text \<open>Taking bytes out, by a reader or by the library.\<close>

lemma content_take:
  assumes "buf_ok x" "k \<le> sb_wr x - sb_rd x" "0 < k"
    and y: "y = (let y = x\<lparr>sb_rd := sb_rd x + k\<rparr> in if bufempty y then clearbuf y else y)"
  shows "buf_ok y \<and> content x = slice (sb_rd x) k (sb_buf x) @ content y"
  using assms slice_split [of k "sb_wr x - sb_rd x" "sb_rd x" "sb_buf x"]
  by (auto simp: buf_ok_def content_def bufempty_def clearbuf_def Let_def)

lemma readbuf_content:
  assumes "buf_ok x" "readbuf x n = (bs, y)"
  shows "buf_ok y \<and> content x = bs @ content y \<and> length bs = min n (length (content x))"
proof (cases "min (sb_wr x - sb_rd x) n = 0")
  case True
  then show ?thesis using assms by (auto simp: readbuf_def buf_length)
next
  case False
  define k where "k = min (sb_wr x - sb_rd x) n"
  have k: "0 < k" "k \<le> sb_wr x - sb_rd x" using False by (auto simp: k_def)
  have "bs = slice (sb_rd x) k (sb_buf x)" "y = (let y = x\<lparr>sb_rd := sb_rd x + k\<rparr> in if bufempty y then clearbuf y else y)"
    using assms(2) k unfolding readbuf_def k_def [symmetric] by (simp_all add: Let_def)
  moreover have "k \<le> length (sb_buf x) - sb_rd x" using assms(1) k by (auto simp: buf_ok_def)
  ultimately show ?thesis
    using content_take [OF assms(1) k(2,1)] buf_length [OF assms(1)] by (simp add: k_def min.commute)
qed

lemma readbufv_content:
  "buf_ok x \<Longrightarrow> readbufv x iov = (bs, y) \<Longrightarrow>
   buf_ok y \<and> content x = bs @ content y \<and> length bs = min (sum_list iov) (length (content x))"
proof (induction x iov arbitrary: bs y rule: readbufv.induct)
  case (2 x n iov)
  obtain cs z where c: "readbuf x n = (cs, z)" by fastforce
  have z: "buf_ok z" "content x = cs @ content z" and l: "length cs = min n (length (content x))"
    using readbuf_content [OF 2(2) c] by blast+
  show ?case
  proof (cases "length cs < n")
    case True
    have "length cs = length (content x)" using True l by linarith
    then have "length (content z) = 0" using z(2) by simp
    moreover have "bs = cs" "y = z" using True 2(3) c by simp_all
    ultimately show ?thesis using z True by simp
  next
    case False
    obtain ds w where d: "readbufv z iov = (ds, w)" by fastforce
    have i: "buf_ok w" "content z = ds @ content w" and k: "length ds = min (sum_list iov) (length (content z))"
      using 2(1) [OF c [symmetric] refl False z(1) d] by blast+
    have "bs = cs @ ds" "y = w" using 2(3) c d False by simp_all
    moreover have "length cs + length ds = min (n + sum_list iov) (length cs + length (content z))"
      using k l False by linarith
    moreover have "length (content x) = length cs + length (content z)" using z(2) by simp
    ultimately show ?thesis using i z(2) by simp
  qed
qed simp

lemma content_put:
  assumes "buf_ok x" "length bs \<le> AUG_BUFSIZE - sb_wr x" "bs \<noteq> []"
    and y: "y = x\<lparr>sb_buf := poke (sb_buf x) (sb_wr x) bs, sb_wr := sb_wr x + length bs\<rparr>"
  shows "buf_ok y \<and> content y = content x @ bs"
proof -
  have l: "sb_wr x + length bs \<le> length (sb_buf x)" using assms by (auto simp: buf_ok_def)
  have "slice (sb_rd x) (sb_wr x + length bs - sb_rd x) (poke (sb_buf x) (sb_wr x) bs)
      = slice (sb_rd x) (sb_wr x - sb_rd x) (sb_buf x) @ bs"
    using slice_split [of "sb_wr x - sb_rd x" "sb_wr x + length bs - sb_rd x" "sb_rd x" "poke (sb_buf x) (sb_wr x) bs"]
      slice_poke_before [of "sb_rd x" "sb_wr x - sb_rd x" "sb_wr x" "sb_buf x" bs]
      slice_poke_same [OF l] assms l
    by (simp add: buf_ok_def)
  moreover have "sb_rd x \<noteq> sb_wr x + length bs" using assms by (auto simp: buf_ok_def)
  ultimately show ?thesis using assms l by (simp add: buf_ok_def content_def)
qed

lemma writebuf_content:
  assumes "buf_ok x" "writebuf x bs = (n, y)"
  shows "buf_ok y \<and> content y = content x @ take n bs \<and> n = min (AUG_BUFSIZE - sb_wr x) (length bs) \<and> sb_wr y = sb_wr x + n
    \<and> (content x \<noteq> [] \<longrightarrow> sb_rd y = sb_rd x)"
proof (cases "min (AUG_BUFSIZE - sb_wr x) (length bs) = 0")
  case True
  then show ?thesis using assms by (auto simp: writebuf_def)
next
  case False
  have n: "n = min (AUG_BUFSIZE - sb_wr x) (length bs)"
    and y: "y = x\<lparr>sb_buf := poke (sb_buf x) (sb_wr x) (take n bs), sb_wr := sb_wr x + length (take n bs)\<rparr>"
    using assms(2) False unfolding writebuf_def by (auto simp: Let_def split: if_splits)
  have "length (take n bs) \<le> AUG_BUFSIZE - sb_wr x" "take n bs \<noteq> []" using False n by auto
  from content_put [OF assms(1) this y] show ?thesis using n y by simp
qed

lemma writebufv_content:
  "buf_ok x \<Longrightarrow> writebufv x iov = (n, y) \<Longrightarrow>
   buf_ok y \<and> content y = content x @ take n (concat iov) \<and> n = min (AUG_BUFSIZE - sb_wr x) (length (concat iov))
    \<and> sb_wr y = sb_wr x + n \<and> (content x \<noteq> [] \<longrightarrow> sb_rd y = sb_rd x)"
proof (induction x iov arbitrary: n y rule: writebufv.induct)
  case (2 x bs iov)
  obtain k z where c: "writebuf x bs = (k, z)" by fastforce
  note r = writebuf_content [OF 2(2) c]
  show ?case
  proof (cases "k < length bs")
    case True
    then have "n = k" "y = z" using 2(3) c by simp_all
    moreover have "k = AUG_BUFSIZE - sb_wr x" using True r by simp
    ultimately show ?thesis using True r by auto
  next
    case False
    obtain j w where d: "writebufv z iov = (j, w)" by fastforce
    have i: "buf_ok w \<and> content w = content z @ take j (concat iov) \<and> j = min (AUG_BUFSIZE - sb_wr z) (length (concat iov))
      \<and> sb_wr w = sb_wr z + j \<and> (content z \<noteq> [] \<longrightarrow> sb_rd w = sb_rd z)"
      using 2(1) [OF c [symmetric] refl False] r d by simp
    have "n = k + j" "y = w" "k = length bs" using 2(3) c d False r by (auto simp: Let_def)
    then show ?thesis using i r by auto
  qed
qed simp

section \<open>What the library has been asked\<close>

abbreviation calls :: "'m ssl \<Rightarrow> sslcall list" where "calls s \<equiv> sl_log (io_lib s)"

text \<open>The bytes the library has given and taken.\<close>

fun received :: "sslcall list \<Rightarrow> byte list" where
  "received [] = []"
| "received (CRead bs e # l) = received l @ bs"
| "received (_ # l) = received l"

fun sent :: "sslcall list \<Rightarrow> byte list" where
  "sent [] = []"
| "sent (CWrite p bs k e # l) = sent l @ take k bs"
| "sent (_ # l) = sent l"

text \<open>A call that was blocked is to be made again, a write from the same place and with the
  bytes it had before, before any other is made.\<close>

fun is_io :: "sslcall \<Rightarrow> bool" where
  "is_io (CRead _ _) = True" | "is_io (CWrite _ _ _ _) = True" | "is_io (CShake _) = True" | "is_io _ = False"

definition want :: "sslerr \<Rightarrow> bool" where "want e \<longleftrightarrow> e = ErrWantRead \<or> e = ErrWantWrite"

fun follows :: "sslcall \<Rightarrow> sslcall \<Rightarrow> bool" where
  "follows (CRead _ e) c = (want e \<longrightarrow> (case c of CRead _ _ \<Rightarrow> True | _ \<Rightarrow> False))"
| "follows (CWrite p bs _ e) c = (want e \<longrightarrow> (case c of CWrite q cs _ _ \<Rightarrow> p = q \<and> prefix bs cs | _ \<Rightarrow> False))"
| "follows (CShake e) c = (want e \<longrightarrow> (case c of CRead _ _ \<Rightarrow> False | _ \<Rightarrow> True))"
| "follows _ c = True"

fun retried :: "sslcall list \<Rightarrow> bool" where
  "retried [] = True"
| "retried (c # l) = (retried l \<and> (is_io c \<longrightarrow> (case List.find is_io l of None \<Rightarrow> True | Some d \<Rightarrow> follows d c)))"

section \<open>The invariant\<close>

text \<open>The state says which call was blocked.\<close>

definition blocked :: "sslcall \<Rightarrow> 'm ssl \<Rightarrow> bool" where
  "blocked c s \<longleftrightarrow>
     (case c of
        CRead _ e \<Rightarrow> want e \<longrightarrow> io_state s = (if e = ErrWantRead then RDWANTRD else RDWANTWR)
      | CWrite p bs _ e \<Rightarrow> want e \<longrightarrow> io_state s = (if e = ErrWantRead then WRWANTRD else WRWANTWR)
          \<and> bs \<noteq> [] \<and> sb_rd (io_out s) = p \<and> prefix bs (content (io_out s))
      | CShake e \<Rightarrow> want e \<longrightarrow> io_state s = (if e = ErrWantRead then WRWANTRD else WRWANTWR)
      | _ \<Rightarrow> True)"

definition flow :: "'m ssl \<Rightarrow> bool" where
  "flow s \<longleftrightarrow> buf_ok (io_in s) \<and> buf_ok (io_out s)
     \<and> received (calls s) = io_taken s @ content (io_in s)
     \<and> io_given s = sent (calls s) @ content (io_out s)
     \<and> retried (calls s)"

definition shut :: "'m ssl \<Rightarrow> bool" where
  "shut s \<longleftrightarrow> (CShutWr \<in> set (calls s) \<longleftrightarrow> io_shutdown s \<and> content (io_out s) = [])"

definition last_ok :: "'m ssl \<Rightarrow> bool" where
  "last_ok s \<longleftrightarrow> (\<forall>c. List.find is_io (calls s) = Some c \<longrightarrow> blocked c s)"

definition ssl_inv :: "'m ssl \<Rightarrow> bool" where
  "ssl_inv s \<longleftrightarrow> flow s \<and> shut s \<and> last_ok s"

lemmas inv_defs = ssl_inv_def flow_def shut_def last_ok_def

text \<open>The invariant is about these members.\<close>

definition view :: "'m ssl \<Rightarrow> sbuf \<times> sbuf \<times> sslstate \<times> bool \<times> ssllib \<times> byte list \<times> byte list" where
  "view s = (io_in s, io_out s, io_state s, io_shutdown s, io_lib s, io_taken s, io_given s)"

lemma view_inv: "view s' = view s \<Longrightarrow> ssl_inv s' = ssl_inv s"
  by (simp add: view_def inv_defs blocked_def cong: sslcall.case_cong)

lemma view_upd [simp]:
  "view (s\<lparr>io_mux := m\<rparr>) = view s" "view (s\<lparr>io_net := n\<rparr>) = view s" "view (s\<lparr>io_sticky := st\<rparr>) = view s"
  "view (s\<lparr>io_refs := r\<rparr>) = view s" "view (s\<lparr>io_wantwr := w\<rparr>) = view s" "view (s\<lparr>io_errinfo := e\<rparr>) = view s"
  by (simp_all add: view_def)

lemma view_eqs:
  "view (clear_ev mo ev s) = view s"
  "on_sys f s = (r, s') \<Longrightarrow> view s' = view s"
  "setmask mo s = Some s' \<Longrightarrow> view s' = view s"
  "ssl_retain s = Some s' \<Longrightarrow> view s' = view s"
  "ssl_close mo s = Some (r', s') \<Longrightarrow> view s' = view s"
  by (auto simp: clear_ev_def on_sys_def setmask_def ssl_retain_def ssl_close_def Let_def
      split: prod.splits if_splits option.splits)

lemma setmask_inv: "ssl_inv s \<Longrightarrow> setmask mo s = Some s' \<Longrightarrow> ssl_inv s'"
  using view_eqs(3) view_inv by metis

lemma state_bits:
  "RDWANTRD AND WRITE = 0" "RDWANTWR AND WRITE = 0" "WRWANTRD AND WRITE \<noteq> 0" "WRWANTWR AND WRITE \<noteq> 0"
  "RDWANTRD AND READ \<noteq> 0" "RDWANTWR AND READ \<noteq> 0" "WRWANTRD AND READ = 0" "WRWANTWR AND READ = 0"
  by (simp_all add: state_defs)

text \<open>The last call was not blocked, or is made again.\<close>

lemma read_follows:
  assumes "ssl_inv s" "io_state s AND WRITE = 0" "List.find is_io (calls s) = Some d"
  shows "follows d (CRead bs e)"
  using assms state_bits
  by (cases d) (auto simp: ssl_inv_def last_ok_def blocked_def want_def split: if_splits)

lemma write_follows:
  assumes "ssl_inv s" "io_state s AND READ = 0" "List.find is_io (calls s) = Some d" "content (io_out s) \<noteq> []"
  shows "follows d (CWrite (sb_rd (io_out s)) (content (io_out s)) k e)"
  using assms state_bits
  by (cases d) (auto simp: ssl_inv_def last_ok_def blocked_def want_def split: if_splits)

lemma shake_follows:
  assumes "ssl_inv s" "io_state s AND READ = 0" "List.find is_io (calls s) = Some d" "content (io_out s) = []"
  shows "follows d (CShake e)"
  using assms state_bits
  by (cases d) (auto simp: ssl_inv_def last_ok_def blocked_def want_def split: if_splits)

section \<open>Every operation keeps the invariant\<close>

lemma flow_state [simp]:
  "flow (s\<lparr>io_state := x\<rparr>) = flow s" "shut (s\<lparr>io_state := x\<rparr>) = shut s"
  "flow (s\<lparr>io_errinfo := e\<rparr>) = flow s" "shut (s\<lparr>io_errinfo := e\<rparr>) = shut s"
  "flow (clear_ev mo ev s) = flow s" "shut (clear_ev mo ev s) = shut s" "calls (clear_ev mo ev s) = calls s"
  "io_out (clear_ev mo ev s) = io_out s" "io_shutdown (clear_ev mo ev s) = io_shutdown s"
  by (simp_all add: flow_def shut_def clear_ev_def split: prod.splits)

lemma sslread_flow:
  assumes "ssl_inv s" "io_state s AND WRITE = 0" "sslread s = (err, s')"
  shows "flow s' \<and> shut s' \<and> (\<exists>bs. List.find is_io (calls s') = Some (CRead bs err)) \<and> io_shutdown s' = io_shutdown s"
proof -
  define bs where "bs = (if sa_err (ssl_answer (io_lib s)) = ErrNone
    then take (AUG_BUFSIZE - sb_wr (io_in s)) (sa_bytes (ssl_answer (io_lib s))) else [])"
  let ?y = "(io_in s)\<lparr>sb_buf := poke (sb_buf (io_in s)) (sb_wr (io_in s)) bs, sb_wr := sb_wr (io_in s) + length bs\<rparr>"
  have s': "s' = log_call (CRead bs err) (s\<lparr>io_in := ?y\<rparr>)"
    using assms(3) by (auto simp: sslread_def Let_def bs_def)
  have "buf_ok (io_in s)" using assms(1) by (simp add: inv_defs)
  then have "buf_ok ?y \<and> content ?y = content (io_in s) @ bs"
    using content_put [of "io_in s" bs ?y] by (cases "bs = []") (auto simp: bs_def content_def buf_ok_def)
  moreover have "retried (CRead bs err # calls s)"
    using assms(1) read_follows [OF assms(1,2)] by (auto simp: inv_defs split: option.splits)
  ultimately show ?thesis
    using assms(1) unfolding s' by (simp add: inv_defs log_call_def ssl_call_def)
qed

lemma read_half_inv:
  assumes "ssl_inv s" "io_state s AND WRITE = 0" "read_half mo s = (b, s')"
  shows "ssl_inv s'"
proof -
  obtain err t where t: "sslread s = (err, t)" by fastforce
  obtain bs where r: "flow t" "shut t" "List.find is_io (calls t) = Some (CRead bs err)"
    using sslread_flow [OF assms(1,2) t] by blast
  have "flow (log_call CShutdown t) \<and> shut (log_call CShutdown t)
    \<and> List.find is_io (calls (log_call CShutdown t)) = Some (CRead bs err)"
    using r by (simp add: flow_def shut_def log_call_def ssl_call_def)
  then show ?thesis
    using assms(3) r unfolding read_half_def t
    by (cases err) (auto simp: Let_def ssl_inv_def last_ok_def blocked_def want_def split: if_splits)
qed

lemma sslwriteshake_flow:
  assumes "ssl_inv s" "io_state s AND READ = 0" "sslwriteshake s = (err, s')"
  shows "flow s' \<and> (err \<noteq> ErrNone \<longrightarrow> shut s') \<and> (CShutWr \<in> set (calls s') \<longrightarrow> io_shutdown s' \<and> content (io_out s') = [])
    \<and> (\<exists>c. List.find is_io (calls s') = Some c \<and> (c = CShake err \<or>
        (\<exists>p bs k. c = CWrite p bs k err \<and> bs \<noteq> [] \<and> (err \<noteq> ErrNone \<longrightarrow> sb_rd (io_out s') = p \<and> content (io_out s') = bs))))"
proof (cases "content (io_out s) = []")
  case True
  have "sb_wr (io_out s) - sb_rd (io_out s) = 0"
    using assms(1) True buf_length [of "io_out s"] by (simp add: inv_defs)
  then have "s' = log_call (CShake err) s" using assms(3) by (auto simp: sslwriteshake_def Let_def)
  then show ?thesis
    using assms(1) shake_follows [OF assms(1,2) _ True] by (auto simp: inv_defs log_call_def ssl_call_def split: option.splits)
next
  case False
  let ?x = "io_out s" and ?a = "ssl_answer (io_lib s)"
  define n where "n = sb_wr ?x - sb_rd ?x"
  define k where "k = (if sa_err ?a = ErrNone then min n (sa_num ?a) else 0)"
  define y where "y = (if 0 < k then let y = ?x\<lparr>sb_rd := sb_rd ?x + k\<rparr> in if bufempty y then clearbuf y else y else ?x)"
  have x: "buf_ok ?x" "n \<noteq> 0" using assms(1) False buf_length [of ?x] by (auto simp: inv_defs n_def)
  then have s': "s' = log_call (CWrite (sb_rd ?x) (content ?x) k err) (s\<lparr>io_out := y\<rparr>)" and e: "err = sa_err ?a"
    using assms(3) by (auto simp: sslwriteshake_def Let_def k_def n_def y_def content_def)
  have y: "buf_ok y \<and> content ?x = take k (content ?x) @ content y"
  proof (cases "0 < k")
    case True
    have "k \<le> n" by (simp add: k_def)
    moreover have "y = (let y = ?x\<lparr>sb_rd := sb_rd ?x + k\<rparr> in if bufempty y then clearbuf y else y)"
      using True by (simp add: y_def)
    ultimately have "buf_ok y \<and> content ?x = slice (sb_rd ?x) k (sb_buf ?x) @ content y"
      using content_take [OF x(1) _ True] n_def by blast
    moreover have "take k (content ?x) = slice (sb_rd ?x) k (sb_buf ?x)"
      using \<open>k \<le> n\<close> by (simp add: content_def slice_def n_def)
    ultimately show ?thesis by metis
  qed (use x in \<open>simp add: y_def\<close>)
  have "err \<noteq> ErrNone \<Longrightarrow> y = ?x" by (simp add: e k_def y_def)
  moreover have "CShutWr \<notin> set (calls s)" using assms(1) False by (simp add: inv_defs)
  moreover have "retried (CWrite (sb_rd ?x) (content ?x) k err # calls s)"
    using assms(1) write_follows [OF assms(1,2) _ False] by (auto simp: inv_defs split: option.splits)
  ultimately show ?thesis
    using assms(1) False y unfolding s' by (auto simp: inv_defs log_call_def ssl_call_def)
qed

lemma shutwr_same:
  assumes "shutwr s = (r, s')"
  shows "calls s' = CShutWr # CShutdown # calls s" "io_in s' = io_in s" "io_out s' = io_out s" "io_state s' = io_state s"
    "io_shutdown s' = io_shutdown s" "io_taken s' = io_taken s" "io_given s' = io_given s" "io_sticky s' = io_sticky s"
    "io_mux s' = io_mux s" "io_refs s' = io_refs s"
  using assms
  by (auto simp: shutwr_def Let_def log_call_def ssl_call_def on_sys_def split: option.splits prod.splits)

lemma shutwr_flow:
  assumes "flow s" "io_shutdown s" "content (io_out s) = []" "shutwr s = (r, s')"
  shows "flow s' \<and> shut s' \<and> List.find is_io (calls s') = List.find is_io (calls s) \<and> io_out s' = io_out s"
  using assms(1-3) shutwr_same [OF assms(4)] by (simp add: flow_def shut_def)

lemma write_half_inv:
  assumes "ssl_inv s" "io_state s AND READ = 0"
  shows "ssl_inv (write_half mo s)"
proof -
  obtain err t where t: "sslwriteshake s = (err, t)" by fastforce
  obtain c where r: "flow t" "err \<noteq> ErrNone \<longrightarrow> shut t" "CShutWr \<in> set (calls t) \<longrightarrow> io_shutdown t \<and> content (io_out t) = []"
    and c: "List.find is_io (calls t) = Some c" "c = CShake err \<or>
        (\<exists>p bs k. c = CWrite p bs k err \<and> bs \<noteq> [] \<and> (err \<noteq> ErrNone \<longrightarrow> sb_rd (io_out t) = p \<and> content (io_out t) = bs))"
    using sslwriteshake_flow [OF assms t] by blast
  show ?thesis
  proof (cases "err = ErrNone")
    case True
    have "bufempty (io_out t) \<longleftrightarrow> content (io_out t) = []" using r(1) by (simp add: flow_def bufempty_content)
    moreover obtain e u where u: "shutwr t = (e, u)" by fastforce
    ultimately show ?thesis
      using True r c shutwr_flow [of t e u] unfolding write_half_def t
      by (auto simp: ssl_inv_def last_ok_def blocked_def want_def shut_def split: option.splits)
  next
    case False
    then show ?thesis
      using r c unfolding write_half_def t
      by (cases err) (auto simp: ssl_inv_def last_ok_def blocked_def want_def)
  qed
qed

lemma readwrite_inv:
  assumes "ssl_inv s"
  shows "ssl_inv (readwrite mo events s)"
proof -
  have "ssl_inv (write_half mo t)" if "ssl_inv t" "iswrite t events" for t
    using that write_half_inv [of t mo] by (auto simp: iswrite_def split: if_splits)
  moreover have "ssl_inv t" if "read_half mo s = (c, t)" "isread s events" for c t
    using read_half_inv [OF assms _ that(1)] that(2) by (auto simp: isread_def split: if_splits)
  ultimately show ?thesis
    using assms by (auto simp: readwrite_def split: prod.splits)
qed

text \<open>What a user may do with a channel, also from its callbacks.\<close>

datatype sslop = URead nat | UReadv "nat list" | UWrite "byte list" | UWritev "byte list list" | UShutdown
  | UWantwr bool | UIsready | URetain | URelease | UClose

definition user_op :: "'m mops \<Rightarrow> sslop \<Rightarrow> 'm ssl \<Rightarrow> 'm ssl option" where
  "user_op mo op s =
     (if io_refs s = 0 then None
      else
        case op of
          URead n \<Rightarrow> map_option snd (ssl_sread mo n s)
        | UReadv iov \<Rightarrow> map_option snd (ssl_sreadv mo iov s)
        | UWrite bs \<Rightarrow> map_option snd (ssl_swrite mo bs s)
        | UWritev iov \<Rightarrow> map_option snd (ssl_swritev mo iov s)
        | UShutdown \<Rightarrow> Some (snd (ssl_shutdown s))
        | UWantwr b \<Rightarrow> Some (ssl_setwantwr b s)
        | UIsready \<Rightarrow> map_option snd (ssl_isready mo s)
        | URetain \<Rightarrow> ssl_retain s
        | URelease \<Rightarrow> ssl_release mo s
        | UClose \<Rightarrow> map_option snd (ssl_close mo s))"

fun user_ops :: "'m mops \<Rightarrow> sslop list \<Rightarrow> 'm ssl \<Rightarrow> 'm ssl option" where
  "user_ops mo [] s = Some s"
| "user_ops mo (op # ops) s = Option.bind (user_op mo op s) (user_ops mo ops)"

lemma stream_read_inv:
  assumes "ssl_inv s" "stream_read mo rd s = Some (r, s')"
    and rd: "\<And>bs y. rd (io_in s) = (bs, y) \<Longrightarrow> buf_ok y \<and> content (io_in s) = bs @ content y"
  shows "ssl_inv s'"
proof -
  obtain bs y where y: "rd (io_in s) = (bs, y)" by fastforce
  have "ssl_inv (s\<lparr>io_in := y, io_taken := io_taken s @ bs\<rparr>)"
    using assms(1) rd [OF y] by (simp add: inv_defs blocked_def cong: sslcall.case_cong)
  then show ?thesis
    using assms(1,2) setmask_inv by (auto simp: stream_read_def y split: if_splits)
qed

lemma stream_write_inv:
  assumes "ssl_inv s" "stream_write mo wr bs s = Some (r, s')"
    and wr: "\<And>n y. wr (io_out s) = (n, y) \<Longrightarrow> buf_ok y \<and> content y = content (io_out s) @ take n bs
      \<and> (content (io_out s) \<noteq> [] \<longrightarrow> sb_rd y = sb_rd (io_out s))"
  shows "ssl_inv s'"
proof -
  obtain n y where y: "wr (io_out s) = (n, y)" by fastforce
  have "ssl_inv (s\<lparr>io_out := y, io_given := io_given s @ take n bs\<rparr>)" if "\<not> io_shutdown s"
  proof -
    have "blocked c (s\<lparr>io_out := y, io_given := io_given s @ take n bs\<rparr>)" if "blocked c s" for c
      using that wr [OF y] by (cases c) (auto simp: blocked_def)
    then show ?thesis using assms(1) wr [OF y] that by (auto simp: inv_defs)
  qed
  then show ?thesis
    using assms(1,2) setmask_inv by (auto simp: stream_write_def y split: if_splits)
qed

lemma shutdown_inv:
  assumes "ssl_inv s"
  shows "ssl_inv (snd (ssl_shutdown s))"
proof -
  let ?s = "s\<lparr>io_shutdown := True\<rparr>"
  have e: "bufempty (io_out s) \<longleftrightarrow> content (io_out s) = []" using assms by (simp add: inv_defs bufempty_content)
  show ?thesis
  proof (cases "bufempty (io_out s)")
    case True
    obtain r t where t: "shutwr ?s = (r, t)" by fastforce
    have "flow ?s" using assms by (simp add: inv_defs)
    then have "flow t \<and> shut t \<and> List.find is_io (calls t) = List.find is_io (calls s)"
      using shutwr_flow [of ?s r t] t True e by simp
    then show ?thesis
      using assms True shutwr_same [OF t]
      by (simp add: ssl_shutdown_def t ssl_inv_def last_ok_def blocked_def cong: sslcall.case_cong)
  next
    case False
    then show ?thesis using assms e by (simp add: ssl_shutdown_def inv_defs blocked_def cong: sslcall.case_cong)
  qed
qed

lemma log_inv: "ssl_inv s \<Longrightarrow> \<not> is_io c \<Longrightarrow> c \<noteq> CShutWr \<Longrightarrow> ssl_inv (log_call c s)"
  by (cases c) (simp_all add: inv_defs log_call_def ssl_call_def blocked_def cong: sslcall.case_cong)

lemma release_inv:
  assumes "ssl_inv s" "ssl_release mo s = Some s'"
  shows "ssl_inv s'"
proof -
  let ?s = "s\<lparr>io_refs := io_refs s - 1\<rparr>"
  have "ssl_inv ?s" using assms(1) view_inv [of ?s s] by simp
  moreover have "ssl_inv t" if "ssl_close mo ?s = Some (r, t)" for r t
    using view_inv [OF view_eqs(5) [OF that]] calculation by simp
  ultimately show ?thesis
    using assms(2) log_inv [of _ CFree] by (auto simp: ssl_release_def Let_def split: if_splits)
qed

lemma isready_view: "ssl_isready mo s = Some (b, s') \<Longrightarrow> view s' = view s"
  by (auto simp: ssl_isready_def Let_def split: if_splits option.splits prod.splits)

lemma user_op_inv:
  assumes "ssl_inv s" "user_op mo op s = Some s'"
  shows "ssl_inv s'"
proof (cases op)
  case (URead n)
  then show ?thesis
    using assms stream_read_inv [OF assms(1)] readbuf_content [of "io_in s" n]
    by (auto simp: user_op_def ssl_sread_def inv_defs split: if_splits)
next
  case (UReadv iov)
  then show ?thesis
    using assms stream_read_inv [OF assms(1)] readbufv_content [of "io_in s" iov]
    by (auto simp: user_op_def ssl_sreadv_def inv_defs split: if_splits)
next
  case (UWrite bs)
  then show ?thesis
    using assms stream_write_inv [OF assms(1)] writebuf_content [of "io_out s" bs]
    by (auto simp: user_op_def ssl_swrite_def inv_defs split: if_splits)
next
  case (UWritev iov)
  then show ?thesis
    using assms stream_write_inv [OF assms(1)] writebufv_content [of "io_out s" iov]
    by (auto simp: user_op_def ssl_swritev_def inv_defs split: if_splits)
next
  case UShutdown
  then show ?thesis using assms shutdown_inv by (auto simp: user_op_def split: if_splits)
next
  case (UWantwr b)
  then show ?thesis using assms view_inv [of s' s] by (auto simp: user_op_def ssl_setwantwr_def split: if_splits)
next
  case UIsready
  then obtain b where "ssl_isready mo s = Some (b, s')" using assms(2) by (auto simp: user_op_def split: if_splits)
  then show ?thesis using assms(1) view_inv [OF isready_view] by blast
next
  case URetain
  then show ?thesis using assms view_eqs(4) view_inv by (auto simp: user_op_def split: if_splits)
next
  case URelease
  then show ?thesis using assms release_inv by (auto simp: user_op_def split: if_splits)
next
  case UClose
  then obtain b where "ssl_close mo s = Some (b, s')" using assms(2) by (auto simp: user_op_def split: if_splits)
  then show ?thesis using assms(1) view_inv [OF view_eqs(5)] by blast
qed

lemma user_ops_inv: "ssl_inv s \<Longrightarrow> user_ops mo ops s = Some s' \<Longrightarrow> ssl_inv s'"
  by (induction ops arbitrary: s) (auto simp: bind_eq_Some_conv dest: user_op_inv)

text \<open>A handler that acts on the channel through its operations, chosen as it likes.\<close>

definition acts :: "'m mops \<Rightarrow> (sslop \<Rightarrow> bool) \<Rightarrow> 'm shandler \<Rightarrow> bool" where
  "acts mo may h \<longleftrightarrow>
     (\<forall>ev s. \<exists>ops b. list_all may ops \<and> sh_ready h ev s = map_option (Pair b) (user_ops mo ops s))
   \<and> (\<forall>e s. \<exists>ops. list_all may ops \<and> sh_error h e s = user_ops mo ops s)"

lemma acts_ready:
  assumes "acts mo may h" "ssl_inv s" "sh_ready h ev s = Some (b, s')"
  shows "ssl_inv s'"
proof -
  obtain ops c where "sh_ready h ev s = map_option (Pair c) (user_ops mo ops s)"
    using assms(1) unfolding acts_def by blast
  then have "user_ops mo ops s = Some s'" using assms(3) by (cases "user_ops mo ops s") simp_all
  then show ?thesis by (rule user_ops_inv [OF assms(2)])
qed

lemma acts_error: "acts mo may h \<Longrightarrow> ssl_inv s \<Longrightarrow> sh_error h e s = Some s' \<Longrightarrow> ssl_inv s'"
  unfolding acts_def using user_ops_inv by metis

lemma sys_inv: "on_sys f s = (r, s') \<Longrightarrow> ssl_inv s' = ssl_inv s"
  by (rule view_inv [OF view_eqs(2)])

lemma error_inv: "acts mo may h \<Longrightarrow> ssl_inv s \<Longrightarrow> ssl_error h sd events s = Some (b, s') \<Longrightarrow> ssl_inv s'"
  using acts_error sys_inv by (fastforce simp: ssl_error_def split: if_splits prod.splits option.splits)

lemma peek_inv: "ssl_inv s \<Longrightarrow> ssl_inv (snd (ssl_peek mo sd events s))"
  using sys_inv view_inv [OF view_eqs(1)] by (fastforce simp: ssl_peek_def split: prod.splits)

lemma notify_inv:
  assumes "acts mo may h" "ssl_inv s" "ssl_notify mo h s = Some (b, s')"
  shows "ssl_inv s'"
proof -
  obtain c t where t: "(if readyevents s \<noteq> 0 then sh_ready h (readyevents s) s else Some (True, s)) = Some (c, t)"
    using assms(3) by (auto simp: ssl_notify_def split: option.splits)
  then have "ssl_inv t" using acts_ready [OF assms(1,2)] assms(2) by (auto split: if_splits)
  moreover have "ssl_inv v" if "setmask mo t = Some u" "ssl_retain u = Some v" for u v
    using setmask_inv [OF calculation that(1)] view_inv [OF view_eqs(4) [OF that(2)]] by simp
  ultimately show ?thesis
    using assms(3) unfolding ssl_notify_def t by (auto simp: bind_eq_Some_conv split: bool.splits)
qed

lemma process_inv:
  assumes "acts mo may h" "ssl_inv s" "ssl_process mo h s = Some (b, s')"
  shows "ssl_inv s'"
proof (cases "sk_md (io_sticky s)")
  case None
  then show ?thesis using assms(2,3) by (simp add: ssl_process_def)
next
  case (Some sd)
  obtain ev st m where g: "aug_getsticky (mo_set mo) (mo_events mo) (io_mux s) (io_sticky s) = (Some ev, st, m)"
    using assms(3) Some by (auto simp: ssl_process_def split: option.splits prod.splits)
  let ?s = "s\<lparr>io_sticky := st, io_mux := m\<rparr>"
  obtain c t where t: "ssl_error h sd ev ?s = Some (c, t)"
    using assms(3) Some g by (auto simp: ssl_process_def split: option.splits)
  obtain ev' u where u: "ssl_peek mo sd ev t = (ev', u)" by fastforce
  have "ssl_inv ?s" using assms(2) view_inv [of ?s s] by simp
  then have "ssl_inv t" using error_inv [OF assms(1) _ t] by simp
  moreover from this have "ssl_inv u" using peek_inv [of t mo sd ev] u by simp
  ultimately show ?thesis
    using assms(3) Some notify_inv [OF assms(1)] readwrite_inv [of u mo ev']
    by (auto simp: ssl_process_def g t u split: bool.splits if_splits)
qed

section \<open>Runs\<close>

text \<open>
  From a new channel: it is processed (and kept, when \<open>calm\<close>), the user calls operations that
  satisfy \<open>may\<close>, and \<open>waits\<close> says how the multiplexer may change between.
\<close>

inductive ssl_run :: "'m mops \<Rightarrow> 'm shandler \<Rightarrow> (sslop \<Rightarrow> bool) \<Rightarrow> bool \<Rightarrow> ('m \<Rightarrow> 'm \<Rightarrow> bool) \<Rightarrow> 'm ssl \<Rightarrow> 'm ssl \<Rightarrow> bool"
  for mo h may calm waits s0 where
  new: "ssl_run mo h may calm waits s0 s0"
| processed: "ssl_run mo h may calm waits s0 s \<Longrightarrow> 0 < io_refs s \<Longrightarrow> ssl_process mo h s = Some (b, s') \<Longrightarrow> calm \<longrightarrow> b \<Longrightarrow>
    ssl_run mo h may calm waits s0 s'"
| used: "ssl_run mo h may calm waits s0 s \<Longrightarrow> may op \<Longrightarrow> user_op mo op s = Some s' \<Longrightarrow> ssl_run mo h may calm waits s0 s'"
| waited: "ssl_run mo h may calm waits s0 s \<Longrightarrow> waits (io_mux s) m \<Longrightarrow> ssl_run mo h may calm waits s0 (s\<lparr>io_mux := m\<rparr>)"

lemma ssl_run_inv:
  assumes "ssl_run mo h may calm waits s0 s" "acts mo may h" "ssl_inv s0"
  shows "ssl_inv s"
  using assms(1)
proof induction
  case (processed s b s')
  then show ?case using process_inv [OF assms(2)] by blast
next
  case (waited s m)
  then show ?case using view_inv [of "s\<lparr>io_mux := m\<rparr>" s] by simp
qed (use assms(3) user_op_inv in blast)+

lemma ssl0_inv: "sl_log l = [] \<Longrightarrow> ssl_inv (ssl0 m n l i w st)"
  by (simp add: ssl0_def inv_defs buf_ok_def content_def clearbuf_def Let_def)

lemma created_inv:
  assumes "createssl mo i sd w m n l = Some (Inr s, e)" "sl_log l = []"
  shows "ssl_inv s"
  using assms setmask_inv [OF ssl0_inv] by (fastforce simp: createssl_def split: option.splits prod.splits sum.splits)

text \<open>A channel of either kind that has been created.\<close>

definition ssl_created :: "'m mops \<Rightarrow> md \<Rightarrow> 'm \<Rightarrow> net \<Rightarrow> ssllib \<Rightarrow> 'm ssl \<Rightarrow> bool" where
  "ssl_created mo sd m n l s \<longleftrightarrow> sl_log l = [] \<and>
     (\<exists>i w e. aug_createsslclient mo i sd w m n l = Some (Inr s, e) \<or> aug_createsslserver mo i sd w m n l = Some (Inr s, e))"

lemma map_sum_Inr: "map_sum id f r = Inr x \<longleftrightarrow> (\<exists>y. r = Inr y \<and> x = f y)"
  by (cases r) auto

lemma ssl_created_create:
  assumes "ssl_created mo sd m n l s"
  shows "sl_log l = [] \<and> (\<exists>i w e t b. createssl mo i sd w m n l = Some (Inr t, e) \<and> s = log_call (CMode b) t)"
proof -
  obtain i w r e where "createssl mo i sd w m n l = Some (r, e)" "\<exists>b. map_sum id (log_call (CMode b)) r = Inr s" "sl_log l = []"
    using assms unfolding ssl_created_def aug_createsslclient_def aug_createsslserver_def by clarsimp blast
  then obtain b t where "r = Inr t" "s = log_call (CMode b) t" by (auto simp: map_sum_Inr)
  with \<open>createssl mo i sd w m n l = Some (r, e)\<close> \<open>sl_log l = []\<close> show ?thesis by blast
qed

lemma ssl_created_inv:
  assumes "ssl_created mo sd m n l s"
  shows "ssl_inv s"
proof -
  obtain i w e t b where "createssl mo i sd w m n l = Some (Inr t, e)" "s = log_call (CMode b) t" "sl_log l = []"
    using ssl_created_create [OF assms] by blast
  moreover from this have "ssl_inv t" using created_inv [of mo i sd w m n l t e] by blast
  ultimately show ?thesis using log_inv [of t "CMode b"] by simp
qed

section \<open>The multiplexer's mask\<close>

definition steady :: "sslop \<Rightarrow> bool" where "steady op \<longleftrightarrow> op \<noteq> URelease \<and> op \<noteq> UClose"

definition masked :: "'m ssl \<Rightarrow> bool" where "masked s \<longleftrightarrow> sk_mask (io_sticky s) = getmask s"

lemma event_mask_getmask: "event_mask (getmask s)"
  by (simp add: getmask_def event_mask_def event_defs)

context muxer
begin

abbreviation sslmo :: "'m mops" where "sslmo \<equiv> \<lparr>mo_set = set_mask, mo_events = events\<rparr>"

definition bound :: "md \<Rightarrow> 'm ssl \<Rightarrow> bool" where
  "bound sd s \<longleftrightarrow> good (io_mux s) \<and> valid sd \<and> ok (io_mux s) sd (io_sticky s) \<and> 0 < io_refs s"

lemma bound_md: "bound sd s \<Longrightarrow> sk_md (io_sticky s) = Some sd"
  by (simp add: bound_def sticky_ok_def)

lemma bound_eq:
  assumes "io_mux s' = io_mux s" "io_sticky s' = io_sticky s" "io_refs s' = io_refs s"
  shows "bound sd s' = bound sd s"
  using assms by (simp add: bound_def)

lemma setmask_bound:
  assumes "bound sd s"
  shows "\<exists>s'. setmask sslmo s = Some s' \<and> bound sd s' \<and> masked s' \<and> getmask s' = getmask s"
proof -
  have "sk_md (io_sticky s) = Some sd" "sk_internal (io_sticky s) AND NOT AUG_MDEVENTRDWR = 0"
    using assms by (simp_all add: bound_def sticky_ok_def)
  then obtain st m where "aug_setsticky set_mask (io_mux s) (io_sticky s) (getmask s) = (Inr (), st, m)"
      "mux_step {sd} (io_mux s) m" "ok m sd st" "sk_mask st = getmask s"
    using setsticky_one [of "io_mux s" sd "getmask s" "io_sticky s"] assms event_mask_getmask
    by (auto simp: bound_def)
  then show ?thesis
    using assms bound_md [OF assms] mux_step_good
    by (auto simp: setmask_def bound_def masked_def getmask_def)
qed

lemma clear_ev_bound: "bound sd s \<Longrightarrow> bound sd (clear_ev sslmo ev s)"
  using clearsticky_one [of "io_mux s" sd "io_sticky s" ev] mux_step_good
  by (fastforce simp: bound_def clear_ev_def split: prod.splits)

lemma getsticky_bound:
  assumes "bound sd s"
  shows "\<exists>ev st m. aug_getsticky set_mask events (io_mux s) (io_sticky s) = (Some ev, st, m)
    \<and> bound sd (s\<lparr>io_sticky := st, io_mux := m\<rparr>) \<and> sk_mask st = sk_mask (io_sticky s)"
proof -
  obtain ev st m where g: "aug_getsticky set_mask events (io_mux s) (io_sticky s) = (Some ev, st, m)"
      "good m" "ok m sd st"
    using getsticky_one [of "io_mux s" sd "io_sticky s"] assms mux_step_good by (fastforce simp: bound_def)
  moreover have "sk_mask st = sk_mask (io_sticky s)"
    using g(1) by (auto simp: aug_getsticky_def Let_def split: if_splits option.splits)
  ultimately show ?thesis using assms by (auto simp: bound_def)
qed

lemma user_op_bound:
  assumes "bound sd s" "steady op"
  shows "\<exists>s'. user_op sslmo op s = Some s' \<and> bound sd s' \<and> (masked s \<longrightarrow> masked s')"
proof -
  have refs: "0 < io_refs s" using assms(1) by (simp add: bound_def)
  have rd_op: "\<exists>r s'. stream_read sslmo rd s = Some (r, s') \<and> bound sd s' \<and> (masked s \<longrightarrow> masked s')" for rd
  proof -
    obtain bs y where y: "rd (io_in s) = (bs, y)" by fastforce
    have "bound sd (s\<lparr>io_in := y, io_taken := io_taken s @ bs\<rparr>)" using assms(1) by (simp add: bound_def)
    from setmask_bound [OF this] show ?thesis using assms(1) by (auto simp: stream_read_def y)
  qed
  have wr_op: "\<exists>r s'. stream_write sslmo wr bs s = Some (r, s') \<and> bound sd s' \<and> (masked s \<longrightarrow> masked s')" for wr bs
  proof -
    obtain n y where y: "wr (io_out s) = (n, y)" by fastforce
    have "bound sd (s\<lparr>io_out := y, io_given := io_given s @ take n bs\<rparr>)" using assms(1) by (simp add: bound_def)
    from setmask_bound [OF this] show ?thesis using assms(1) by (auto simp: stream_write_def y)
  qed
  show ?thesis
  proof (cases op)
    case UShutdown
    obtain r t where t: "shutwr (s\<lparr>io_shutdown := True\<rparr>) = (r, t)" by fastforce
    show ?thesis
      using UShutdown refs assms(1) shutwr_same [OF t]
      by (cases "bufempty (io_out s)") (simp_all add: user_op_def ssl_shutdown_def t bound_def masked_def getmask_def)
  next
    case UIsready
    obtain ev st m where g: "aug_getsticky set_mask events (io_mux s) (io_sticky s) = (Some ev, st, m)"
        "bound sd (s\<lparr>io_sticky := st, io_mux := m\<rparr>)" "sk_mask st = sk_mask (io_sticky s)"
      using getsticky_bound [OF assms(1)] by blast
    then show ?thesis
      using UIsready refs assms(1) by (auto simp: user_op_def ssl_isready_def Let_def masked_def getmask_def)
  next
    case URetain
    then show ?thesis
      using refs assms(1) by (simp add: user_op_def ssl_retain_def bound_def masked_def getmask_def)
  next
    case (UWantwr w)
    then show ?thesis
      using refs assms(1) by (simp add: user_op_def ssl_setwantwr_def bound_def masked_def getmask_def)
  next
    case (URead n)
    then show ?thesis using refs rd_op [of "\<lambda>x. readbuf x n"] by (auto simp: user_op_def ssl_sread_def)
  next
    case (UReadv iov)
    then show ?thesis using refs rd_op [of "\<lambda>x. readbufv x iov"] by (auto simp: user_op_def ssl_sreadv_def)
  next
    case (UWrite bs)
    then show ?thesis using refs wr_op [of "\<lambda>x. writebuf x bs" bs] by (auto simp: user_op_def ssl_swrite_def)
  next
    case (UWritev iov)
    then show ?thesis using refs wr_op [of "\<lambda>x. writebufv x iov" "concat iov"] by (auto simp: user_op_def ssl_swritev_def)
  qed (use assms(2) in \<open>simp_all add: steady_def\<close>)
qed

lemma user_ops_bound:
  "bound sd s \<Longrightarrow> list_all steady ops \<Longrightarrow> \<exists>s'. user_ops sslmo ops s = Some s' \<and> bound sd s'"
proof (induction ops arbitrary: s)
  case (Cons op ops)
  then obtain t where "user_op sslmo op s = Some t" "bound sd t" using user_op_bound [of sd s op] by auto
  then show ?case using Cons by simp
qed simp

lemma acts_bound:
  assumes "acts sslmo steady h" "bound sd s"
  shows "\<exists>b s'. sh_ready h ev s = Some (b, s') \<and> bound sd s'" "\<exists>s'. sh_error h e s = Some s' \<and> bound sd s'"
proof -
  obtain ops b where o: "list_all steady ops" "sh_ready h ev s = map_option (Pair b) (user_ops sslmo ops s)"
    using assms(1) unfolding acts_def by blast
  show "\<exists>b s'. sh_ready h ev s = Some (b, s') \<and> bound sd s'" using user_ops_bound [OF assms(2) o(1)] o(2) by auto
  obtain ops where o: "list_all steady ops" "sh_error h e s = user_ops sslmo ops s"
    using assms(1) unfolding acts_def by blast
  show "\<exists>s'. sh_error h e s = Some s' \<and> bound sd s'" using user_ops_bound [OF assms(2) o(1)] o(2) by auto
qed

lemma sys_bound: "on_sys f s = (r, s') \<Longrightarrow> bound sd s' = bound sd s"
  by (rule bound_eq) (auto simp: on_sys_def split: prod.splits)

lemma readwrite_bound:
  assumes "bound sd s"
  shows "bound sd (readwrite sslmo ev s)"
proof -
  have st: "bound sd (t\<lparr>io_state := x\<rparr>) = bound sd t" "bound sd (t\<lparr>io_errinfo := e\<rparr>) = bound sd t"
    "bound sd (log_call c t) = bound sd t" for t x e c
    by (simp_all add: bound_def log_call_def)
  have sh: "bound sd u = bound sd t" if "shutwr t = (e, u)" for t u e
    by (rule bound_eq) (use shutwr_same [OF that] in simp_all)
  have "bound sd t" if "read_half sslmo s = (c, t)" for c t
  proof -
    obtain err u where u: "sslread s = (err, u)" by fastforce
    have "bound sd u" using assms u by (auto simp: sslread_def Let_def log_call_def bound_def)
    then show ?thesis
      using that clear_ev_bound [of sd u] unfolding read_half_def u
      by (cases err) (auto simp: st Let_def split: if_splits)
  qed
  moreover have "bound sd (write_half sslmo t)" if "bound sd t" for t
  proof -
    obtain err u where u: "sslwriteshake t = (err, u)" by fastforce
    have "bound sd u" using that u by (auto simp: sslwriteshake_def Let_def log_call_def bound_def split: if_splits)
    then show ?thesis
      using clear_ev_bound [of sd u] sh unfolding write_half_def u
      by (cases err) (auto simp: st Let_def split: prod.splits option.splits)
  qed
  ultimately show ?thesis using assms by (auto simp: readwrite_def split: prod.splits)
qed

lemma notify_bound:
  assumes "acts sslmo steady h" "bound sd s"
  shows "\<exists>b s'. ssl_notify sslmo h s = Some (b, s') \<and> bound sd s' \<and> (b \<longrightarrow> masked s')"
proof -
  obtain c t where t: "(if readyevents s \<noteq> 0 then sh_ready h (readyevents s) s else Some (True, s)) = Some (c, t)" "bound sd t"
    using acts_bound(1) [OF assms, of "readyevents s"] assms(2) by (cases "readyevents s = 0") auto
  obtain u where u: "setmask sslmo t = Some u" "bound sd u" "masked u"
    using setmask_bound [OF t(2)] by blast
  have "ssl_retain u = Some (u\<lparr>io_refs := io_refs u + 1\<rparr>)" "bound sd (u\<lparr>io_refs := io_refs u + 1\<rparr>)" "masked (u\<lparr>io_refs := io_refs u + 1\<rparr>)"
    using u(2,3) by (auto simp: ssl_retain_def bound_def masked_def getmask_def)
  then show ?thesis unfolding ssl_notify_def t(1) using u(1) t(2) by (cases c) auto
qed

lemma error_bound:
  assumes "acts sslmo steady h" "bound sd s"
  shows "\<exists>c t. ssl_error h sd ev s = Some (c, t) \<and> bound sd t"
proof -
  obtain r t where t: "on_sys (sys_call sd) s = (r, t)" by fastforce
  have "bound sd t" using assms(2) sys_bound [OF t] by simp
  note b = this
  have "\<exists>s'. sh_error h e t = Some s' \<and> bound sd s'" for e by (rule acts_bound(2) [OF assms(1) b])
  then obtain f where "sh_error h e t = Some (f e)" "bound sd (f e)" for e by metis
  then show ?thesis using assms(2) b by (cases r) (simp_all add: ssl_error_def t, auto)
qed

lemma peek_bound:
  assumes "bound sd s"
  shows "bound sd (snd (ssl_peek sslmo sd ev s))"
proof -
  obtain r t where t: "on_sys (sys_call sd) s = (r, t)" by fastforce
  have "bound sd t" using assms sys_bound [OF t] by simp
  then show ?thesis using assms clear_ev_bound by (simp add: ssl_peek_def t)
qed

lemma process_bound:
  assumes "acts sslmo steady h" "bound sd s"
  shows "\<exists>b s'. ssl_process sslmo h s = Some (b, s') \<and> bound sd s' \<and> (b \<longrightarrow> masked s')"
proof -
  obtain ev st m where g: "aug_getsticky set_mask events (io_mux s) (io_sticky s) = (Some ev, st, m)"
      "bound sd (s\<lparr>io_sticky := st, io_mux := m\<rparr>)"
    using getsticky_bound [OF assms(2)] by blast
  let ?s = "s\<lparr>io_sticky := st, io_mux := m\<rparr>"
  obtain c t where t: "ssl_error h sd ev ?s = Some (c, t)" "bound sd t"
    using error_bound [OF assms(1) g(2)] by blast
  obtain ev' u where u: "ssl_peek sslmo sd ev t = (ev', u)" by fastforce
  have "bound sd u" using peek_bound [OF t(2), of ev] by (simp add: u)
  then have "bound sd (if ev' \<noteq> 0 then readwrite sslmo ev' u else u)" using readwrite_bound by simp
  from notify_bound [OF assms(1) this]
  obtain b v where "ssl_notify sslmo h (if ev' \<noteq> 0 then readwrite sslmo ev' u else u) = Some (b, v)" "bound sd v" "b \<longrightarrow> masked v"
    by blast
  then show ?thesis
    using g(1) t u bound_md [OF assms(2)] by (cases c) (auto simp: ssl_process_def)
qed

lemma created_bound:
  assumes "ssl_created sslmo sd m n l s" "good m"
  shows "bound sd s \<and> masked s"
proof -
  obtain i w e t b where c: "createssl sslmo i sd w m n l = Some (Inr t, e)" "s = log_call (CMode b) t"
    using ssl_created_create [OF assms(1)] by blast
  obtain n' st m' where i: "aug_initsticky set_mask m sd 0 = (Inr (), st, m')" and t: "setmask sslmo (ssl0 m' n' l i w st) = Some t"
    using c(1) by (auto simp: createssl_def split: option.splits prod.splits sum.splits)
  have v: "valid sd" using init_valid [OF _ i] by simp
  then have "good m'" "ok m' sd st"
    using initsticky_one [OF assms(2) v, of 0] i mux_step_good by auto
  then have "bound sd (ssl0 m' n' l i w st)" using v by (simp add: bound_def ssl0_def Let_def)
  then have "bound sd t \<and> masked t" using setmask_bound t by fastforce
  then show ?thesis using c(2) by (simp add: log_call_def bound_def masked_def getmask_def)
qed

lemma run_bound:
  assumes "ssl_run sslmo h steady True waited s0 s" "acts sslmo steady h" "bound sd s0 \<and> masked s0"
  shows "bound sd s \<and> masked s"
  using assms(1)
proof induction
  case (processed s b s')
  then show ?case using process_bound [OF assms(2), of sd s] by auto
next
  case (used s op s')
  then show ?case using user_op_bound [of sd s op] by auto
next
  case (waited s m)
  then have "good m" "mask_at m = mask_at (io_mux s)" "known m = known (io_mux s)"
    using waited_same [of "io_mux s" m] by (simp_all add: bound_def)
  then have "bound sd (s\<lparr>io_mux := m\<rparr>)" using waited by (simp add: bound_def sticky_ok_def)
  moreover have "masked (s\<lparr>io_mux := m\<rparr>) = masked s" by (simp add: masked_def getmask_def)
  ultimately show ?case using waited by simp
qed (use assms(3) in blast)

lemma run_armed:
  assumes "ssl_created sslmo sd m n l s0" "good m" "acts sslmo steady h" "ssl_run sslmo h steady True waited s0 s"
  shows "polled (io_mux s) sd = (if EXTERNAL (io_sticky s) = 0 then getmask s else 0)
    \<and> (\<exists>b s'. ssl_process sslmo h s = Some (b, s')) \<and> (\<forall>op. steady op \<longrightarrow> user_op sslmo op s \<noteq> None)"
proof -
  have b: "bound sd s" "masked s" using run_bound [OF assms(4,3) created_bound [OF assms(1,2)]] by blast+
  then show ?thesis
    using process_bound [OF assms(3) b(1)] user_op_bound [OF b(1)] polled_mask [of "io_mux s"]
    by (auto simp: bound_def sticky_ok_def armed_def masked_def)
qed

end

section \<open>Properties\<close>

text \<open>
  C9: Whatever the library answers and the system does, and however the user reads and writes,
  also from the callback, the bytes the user has read are a beginning of those the library has
  decrypted, the rest being in the input buffer; and the bytes the library has taken are a
  beginning of those accepted from the user, the rest being in the output buffer.
\<close>
theorem ssl_stream:
  assumes "ssl_created mo sd m n l s0" "acts mo may h" "ssl_run mo h may calm waits s0 s"
  shows "received (calls s) = io_taken s @ content (io_in s) \<and> io_given s = sent (calls s) @ content (io_out s)
    \<and> length (content (io_in s)) \<le> AUG_BUFSIZE \<and> length (content (io_out s)) \<le> AUG_BUFSIZE"
  using ssl_run_inv [OF assms(3,2) ssl_created_inv [OF assms(1)]]
  by (auto simp: inv_defs buf_length) (auto simp: buf_ok_def)

text \<open>
  C10: A call that was blocked is made again.  Among the reads, writes and handshakes asked of the
  library, one that was blocked (\<open>want\<close>) is followed, if by anything, by a read when it was a
  read; by a write from the same place, of the same bytes and possibly more, when it was a write; and by a
  handshake or a write, not by a read, when it was a handshake.  This holds whatever the library
  answers and whatever the user does, also from the callbacks.  It is about those three calls
  only: \<^verbatim>\<open>SSL_shutdown\<close> and the closing of the sending side, which the code makes as soon as the
  output buffer is empty, may come in between.
\<close>
theorem ssl_retry:
  assumes "ssl_created mo sd m n l s0" "acts mo may h" "ssl_run mo h may calm waits s0 s"
  shows "retried (calls s)"
  using ssl_run_inv [OF assms(3,2) ssl_created_inv [OF assms(1)]] by (simp add: inv_defs)

text \<open>
  C11: The sending side of the socket is shut exactly when the user has asked for it and
  everything accepted from the user has been taken by the library.
\<close>
theorem ssl_shutdown_flushes:
  assumes "ssl_created mo sd m n l s0" "acts mo may h" "ssl_run mo h may calm waits s0 s"
  shows "CShutWr \<in> set (calls s) \<longleftrightarrow> io_shutdown s \<and> sent (calls s) = io_given s"
  using ssl_run_inv [OF assms(3,2) ssl_created_inv [OF assms(1)]] by (auto simp: inv_defs)

definition sslmux :: "smuxer mops" where "sslmux = \<lparr>mo_set = select_setmask, mo_events = select_events\<rparr>"

text \<open>
  C12: While a channel that was created on a select multiplexer is open and kept, every
  operation on it is defined, and the multiplexer waits for its descriptor to be writable
  exactly when the library waits for that or there are bytes to be sent (and for reading and
  exceptions always), unless an event is still to be dealt with.
\<close>
theorem ssl_armed:
  assumes "ssl_created sslmux sd m n l s0" "sgood m" "acts sslmux steady h"
    and "ssl_run sslmux h steady True swaited s0 s"
  shows "spolled (io_mux s) sd =
      (if EXTERNAL (io_sticky s) \<noteq> 0 then 0
       else if io_state s AND WANTWR \<noteq> 0 \<or> \<not> bufempty (io_out s) then AUG_MDEVENTALL else AUG_MDEVENTRDEX)
    \<and> (\<exists>b s'. ssl_process sslmux h s = Some (b, s')) \<and> (\<forall>op. steady op \<longrightarrow> user_op sslmux op s \<noteq> None)"
  using sel.run_armed assms unfolding sslmux_def getmask_def by (metis (full_types))

section \<open>Witnesses\<close>

definition idle :: "'m shandler" where
  "idle = \<lparr>sh_ready = (\<lambda>ev s. Some (True, s)), sh_error = (\<lambda>e s. Some s)\<rparr>"

lemma idle_acts: "acts mo may idle"
proof -
  have "list_all may []" by simp
  moreover have "user_ops mo [] s = Some s" for s by simp
  ultimately show ?thesis unfolding acts_def idle_def by (metis option.simps(9) shandler.select_convs)
qed

definition sample_lib :: ssllib where
  "sample_lib = \<lparr>sl_answers = (\<lambda>_. \<lparr>sa_err = ErrNone, sa_bytes = [104, 105], sa_num = 1, sa_pending = False\<rparr>), sl_log = []\<rparr>"

definition sample_sticky :: "sticky \<times> smuxer" where
  "sample_sticky = snd (aug_initsticky select_setmask select_create 3 0)"

definition sample_ssl :: "smuxer ssl" where
  "sample_ssl = log_call (CMode True)
     (the (setmask sslmux (ssl0 (snd sample_sticky) (snd (answer (sample_net (\<lambda>_. None)))) sample_lib 1 False (fst sample_sticky))))"

lemma sample_created: "ssl_created sslmux 3 select_create (sample_net (\<lambda>_. None)) sample_lib sample_ssl"
proof -
  have "fst (aug_initsticky select_setmask select_create 3 0) = Inr () \<and> sk_md (fst sample_sticky) = Some 3"
    unfolding sample_sticky_def by code_simp
  then have i: "aug_initsticky select_setmask select_create 3 0 = (Inr (), sample_sticky)" "sk_md (fst sample_sticky) = Some 3"
    by (auto simp: sample_sticky_def prod_eq_iff)
  obtain n where n: "answer (sample_net (\<lambda>_. None)) = (None, n)" by (simp add: answer_def sample_net_def)
  obtain y where y: "setmask sslmux (ssl0 (snd sample_sticky) n sample_lib 1 False (fst sample_sticky)) = Some y"
    using i(2) by (cases "setmask sslmux (ssl0 (snd sample_sticky) n sample_lib 1 False (fst sample_sticky))")
      (simp_all add: setmask_def ssl0_def Let_def split: prod.splits)
  have "sample_ssl = log_call (CMode True) y" by (simp only: sample_ssl_def n y snd_conv option.sel)
  moreover have "aug_createsslclient sslmux 1 3 False select_create (sample_net (\<lambda>_. None)) sample_lib
      = Some (Inr (log_call (CMode True) y), io_mux y, io_net y)"
    using i(1) y by (simp add: aug_createsslclient_def createssl_def n sslmux_def case_prod_beta del: One_nat_def)
  moreover have "sl_log sample_lib = []" by (simp add: sample_lib_def)
  ultimately show ?thesis unfolding ssl_created_def by metis
qed

text \<open>The user writes two bytes, and the channel is processed.\<close>

lemma sample_steps:
  "\<exists>s1 s2 b. user_op sslmux (UWrite [104, 105]) sample_ssl = Some s1 \<and> ssl_process sslmux idle s1 = Some (b, s2)
    \<and> ssl_run sslmux idle steady False swaited sample_ssl s2 \<and> ssl_run sslmux idle steady True swaited sample_ssl s1"
proof -
  note c = sample_created [unfolded sslmux_def]
  have n: "ssl_run sslmux idle steady k swaited sample_ssl sample_ssl" for k by (rule ssl_run.new)
  have w: "steady (UWrite [104, 105])" by (simp add: steady_def)
  obtain s1 where s1: "user_op sslmux (UWrite [104, 105]) sample_ssl = Some s1"
    using sel.run_armed [OF c sgood_create idle_acts n [unfolded sslmux_def]] w unfolding sslmux_def by blast
  have r: "ssl_run sslmux idle steady k swaited sample_ssl s1" for k by (rule ssl_run.used [OF n w s1])
  obtain b s2 where s2: "ssl_process sslmux idle s1 = Some (b, s2)"
    using sel.run_armed [OF c sgood_create idle_acts r [unfolded sslmux_def]] unfolding sslmux_def by blast
  have "0 < io_refs s1"
    using sel.run_bound [OF r [unfolded sslmux_def] idle_acts sel.created_bound [OF c sgood_create]]
    by (simp add: sel.bound_def)
  then have "ssl_run sslmux idle steady False swaited sample_ssl s2" using ssl_run.processed [OF r _ s2] by simp
  then show ?thesis using s1 s2 r by blast
qed

lemma ssl_stream_witness:
  "\<exists>s1 s2 b. user_op sslmux (UWrite [104, 105]) sample_ssl = Some s1 \<and> ssl_process sslmux idle s1 = Some (b, s2)
    \<and> received (calls s2) = io_taken s2 @ content (io_in s2) \<and> io_given s2 = sent (calls s2) @ content (io_out s2)"
  using sample_steps ssl_stream [OF sample_created idle_acts] by metis

lemma ssl_retry_witness:
  "\<exists>s1 s2 b. user_op sslmux (UWrite [104, 105]) sample_ssl = Some s1 \<and> ssl_process sslmux idle s1 = Some (b, s2)
    \<and> retried (calls s2)"
  using sample_steps ssl_retry [OF sample_created idle_acts] by metis

lemma ssl_shutdown_flushes_witness:
  "\<exists>s1 s2 b. user_op sslmux (UWrite [104, 105]) sample_ssl = Some s1 \<and> ssl_process sslmux idle s1 = Some (b, s2)
    \<and> (CShutWr \<in> set (calls s2) \<longleftrightarrow> io_shutdown s2 \<and> sent (calls s2) = io_given s2)"
  using sample_steps ssl_shutdown_flushes [OF sample_created idle_acts] by metis

lemma ssl_armed_witness:
  "\<exists>s1. user_op sslmux (UWrite [104, 105]) sample_ssl = Some s1
    \<and> spolled (io_mux s1) 3 =
      (if EXTERNAL (io_sticky s1) \<noteq> 0 then 0
       else if io_state s1 AND WANTWR \<noteq> 0 \<or> \<not> bufempty (io_out s1) then AUG_MDEVENTALL else AUG_MDEVENTRDEX)"
  using sample_steps ssl_armed [OF sample_created sgood_create idle_acts] by metis

section \<open>What goes wrong\<close>

text \<open>A failed shutdown sets the state to \<^verbatim>\<open>ERROR_\<close>, which the next line overwrites: the user is
  never told.\<close>

lemma shutdown_error_lost:
  assumes "fst (sslwriteshake s) = ErrNone"
  shows "io_state (write_half mo s) = NEUTRAL"
  using assms by (auto simp: write_half_def Let_def split: prod.splits)

text \<open>The end of the data, or an error, is forgotten when a later write succeeds.\<close>

lemma end_forgotten:
  assumes "ENDOF = io_state s" "content (io_in s) = []" "buf_ok (io_in s)" "fst (sslwriteshake s) = ErrNone"
  shows "stream_read mo rd s = Some (Inr [], s)"
    and "io_in (write_half mo s) = io_in s \<Longrightarrow> stream_read mo rd (write_half mo s) = Some (Inl (Fail ExBlock), write_half mo s)"
proof -
  have e: "bufempty (io_in s)" using assms bufempty_content by blast
  have n: "ERROR \<noteq> ENDOF" "ERROR \<noteq> NEUTRAL" "ENDOF \<noteq> NEUTRAL" by (simp_all add: state_defs)
  show "stream_read mo rd s = Some (Inr [], s)"
    using e n assms(1) by (auto simp: stream_read_def)
  show "stream_read mo rd (write_half mo s) = Some (Inl (Fail ExBlock), write_half mo s)" if "io_in (write_half mo s) = io_in s"
    using e n that shutdown_error_lost [OF assms(4), of mo] by (simp add: stream_read_def)
qed

text \<open>A callback that closes the channel and asks to keep it makes the code set the mask of the
  descriptor -1.\<close>

lemma close_and_keep_undefined:
  assumes "readyevents s \<noteq> 0" "sh_ready h (readyevents s) s = Some (True, s')" "sk_md (io_sticky s') = None"
  shows "ssl_notify mo h s = None"
  using assms by (simp add: ssl_notify_def setmask_def)

end
