(* ===== verification/MarParser.thy ===== *)
theory MarParser
  imports Http MarClaims
begin

text \<open>
  \<^verbatim>\<open>augnet/mar.c\<close>: the parser that turns an HTTP stream into archives.  It is the handler of an
  HTTP parser (\<open>Http\<close>), with an archive (\<open>Mar\<close>) that the store gave for the request line; at the
  end of a message the archive is put back into the store.  The store is an object of the user:
  its two operations are functions of what was put before (\<open>mp_puts\<close>, with the state of
  the archive at that moment).  \<open>mem\<close> answers the requests for memory, given the calls made so
  far and the number of the request within a call.

  \<open>marparser_stores\<close> composes both components: messages fed in any pieces arrive in the store,
  one archive each, with their fields and their content.
\<close>

section \<open>The parser\<close>

record marparser =
  mp_request :: "xstr option"
  mp_mar :: "mar option"
  mp_puts :: "(byte list \<times> mar) list"

record marstore =
  ms_get :: "(byte list \<times> mar) list \<Rightarrow> byte list \<Rightarrow> aug_fail + mar"
  ms_put :: "(byte list \<times> mar) list \<Rightarrow> byte list \<Rightarrow> mar \<Rightarrow> aug_fail option"

text \<open>
  The texts reach the handlers as C strings.  The request line is copied to a growing string (theory
  \<open>Xstr\<close>) of 64 characters, the least size; the result of the copy is ignored.  \<open>Undefined\<close>
  is a failed assertion, or a copy that makes the string grow past its local buffer.
\<close>

definition c_text :: "byte list \<Rightarrow> byte list" where "c_text s = takeWhile (\<lambda>c. c \<noteq> 0) s"

lemma c_text_cstring [simp]: "cstring s \<Longrightarrow> c_text s = s"
  by (auto simp: c_text_def cstring_def takeWhile_eq_all_conv)

definition granted :: "answer \<Rightarrow> bool" where
  "granted a \<longleftrightarrow> a \<noteq> Refused"

lemma granted_simps [simp]: "granted (Granted beyond junk)" "\<not> granted Refused"
  by (simp_all add: granted_def)

definition new_bytes :: "answer \<Rightarrow> byte list" where
  "new_bytes a = (case a of Granted beyond junk \<Rightarrow> junk | _ \<Rightarrow> [])"

definition mp_onrequest :: "(nat \<Rightarrow> answer) \<Rightarrow> marstore \<Rightarrow> marparser \<Rightarrow> byte list \<Rightarrow> (aug_fail + unit) \<times> marparser" where
  "mp_onrequest mem store p request =
     (if mp_request p \<noteq> None \<or> mp_mar p \<noteq> None then (Inl Undefined, p)
      else if \<not> granted (mem 0) then (Inl NoMem, p)
      else
        case ms_get store (mp_puts p) request of
          Inl e \<Rightarrow> (Inl e, p)
        | Inr m \<Rightarrow>
            (case aug_xstrcpys (aug_createxstr 0 (new_bytes (mem 0))) (Some request) (mem 1) of
               (r, x) \<Rightarrow>
                 (if r = Inl Undefined then Inl Undefined else Inr (),
                  p\<lparr>mp_request := Some x, mp_mar := Some m\<rparr>)))"

text \<open>The other handlers assert that there is a request and an archive, and work on the archive.\<close>

definition with_mar :: "marparser \<Rightarrow> (mar \<Rightarrow> (aug_fail + 'a) \<times> mar) \<Rightarrow> (aug_fail + unit) \<times> marparser" where
  "with_mar p f =
     (case (mp_request p, mp_mar p) of
        (Some _, Some m) \<Rightarrow>
          (case f m of (r, m) \<Rightarrow> (case r of Inl e \<Rightarrow> Inl e | Inr _ \<Rightarrow> Inr (), p\<lparr>mp_mar := Some m\<rparr>))
      | _ \<Rightarrow> (Inl Undefined, p))"

definition mp_onfield :: "(nat \<Rightarrow> answer) \<Rightarrow> marparser \<Rightarrow> byte list \<Rightarrow> byte list \<Rightarrow> (aug_fail + unit) \<times> marparser" where
  "mp_onfield mem p name v = with_mar p (\<lambda>m. putp_BIN (granted (mem 0)) m (Some name) v)"

definition mp_oncsize :: "(nat \<Rightarrow> answer) \<Rightarrow> marparser \<Rightarrow> nat \<Rightarrow> (aug_fail + unit) \<times> marparser" where
  "mp_oncsize mem p csize =
     with_mar p (\<lambda>m. case truncate_BIN (granted (mem 0)) m csize of
                        (Inl e, m) \<Rightarrow> (Inl e, m) | (Inr _, m) \<Rightarrow> seek m 0 AUG_SET)"

definition mp_oncdata :: "(nat \<Rightarrow> answer) \<Rightarrow> marparser \<Rightarrow> byte list \<Rightarrow> (aug_fail + unit) \<times> marparser" where
  "mp_oncdata mem p buf = with_mar p (\<lambda>m. write_BIN (granted (mem 0)) m buf)"

text \<open>An end with commit but without a request is a blank line.\<close>

definition mp_onend :: "marstore \<Rightarrow> marparser \<Rightarrow> bool \<Rightarrow> (aug_fail + unit) \<times> marparser" where
  "mp_onend store p com =
     (if com then
        case mp_request p of
          None \<Rightarrow> (Inr (), p)
        | Some x \<Rightarrow>
            (case (aug_xstr x, mp_mar p) of
               ((Some s, x), Some m) \<Rightarrow>
                 (let request = c_text s in
                  case ms_put store (mp_puts p) request m of
                    Some e \<Rightarrow> (Inl e, p\<lparr>mp_request := None, mp_mar := None\<rparr>)
                  | None \<Rightarrow>
                      (Inr (), p\<lparr>mp_request := None, mp_mar := None, mp_puts := mp_puts p @ [(request, m)]\<rparr>))
             | _ \<Rightarrow> (Inl Undefined, p))
      else (Inr (), p\<lparr>mp_request := None, mp_mar := None\<rparr>))"

definition mp_call :: "(nat \<Rightarrow> answer) \<Rightarrow> marstore \<Rightarrow> marparser \<Rightarrow> http_event \<Rightarrow> (aug_fail + unit) \<times> marparser" where
  "mp_call mem store p ev =
     (case ev of
        HRequest request \<Rightarrow> mp_onrequest mem store p (c_text request)
      | HField name v \<Rightarrow> mp_onfield mem p (c_text name) (c_text v)
      | HCsize csize \<Rightarrow> mp_oncsize mem p csize
      | HCdata buf \<Rightarrow> mp_oncdata mem p buf
      | HEnd com \<Rightarrow> mp_onend store p com)"

definition new_parser :: marparser where
  "new_parser = \<lparr>mp_request = None, mp_mar = None, mp_puts = []\<rparr>"

text \<open>The parser after the calls of its HTTP parser, and as that parser's handler.\<close>

fun mp_after :: "(http_event list \<Rightarrow> nat \<Rightarrow> answer) \<Rightarrow> marstore \<Rightarrow> http_event list \<Rightarrow> http_event list \<Rightarrow> marparser \<Rightarrow> marparser" where
  "mp_after mem store seen [] p = p"
| "mp_after mem store seen (ev # evs) p =
     mp_after mem store (seen @ [ev]) evs (snd (mp_call (mem seen) store p ev))"

definition mp_handler :: "(http_event list \<Rightarrow> nat \<Rightarrow> answer) \<Rightarrow> marstore \<Rightarrow> handler" where
  "mp_handler mem store log ev =
     (case fst (mp_call (mem log) store (mp_after mem store [] log new_parser) ev) of Inl e \<Rightarrow> Some e | Inr _ \<Rightarrow> None)"

definition aug_createmarparser :: "bool \<Rightarrow> bool \<Rightarrow> mpool \<Rightarrow> nat \<Rightarrow> aug_fail + http" where
  "aug_createmarparser mem http_mem mpool size' =
     (if \<not> mem \<or> \<not> http_mem then Inl NoMem else Inr (aug_createhttpparser mpool size'))"

definition aug_appendmar :: "(http_event list \<Rightarrow> nat \<Rightarrow> answer) \<Rightarrow> marstore \<Rightarrow> http \<Rightarrow> byte list \<Rightarrow> (aug_fail + unit) \<times> http" where
  "aug_appendmar mem store = aug_appendhttp (mp_handler mem store)"

definition aug_finishmar :: "(http_event list \<Rightarrow> nat \<Rightarrow> answer) \<Rightarrow> marstore \<Rightarrow> http \<Rightarrow> (aug_fail + unit) \<times> http" where
  "aug_finishmar mem store = aug_finishhttp (mp_handler mem store)"

fun append_pieces :: "(http_event list \<Rightarrow> nat \<Rightarrow> answer) \<Rightarrow> marstore \<Rightarrow> http \<Rightarrow> byte list list \<Rightarrow> (aug_fail + unit) \<times> http" where
  "append_pieces mem store st [] = (Inr (), st)"
| "append_pieces mem store st (b # bs) =
     (case aug_appendmar mem store st b of
        (Inl e, st) \<Rightarrow> (Inl e, st)
      | (Inr u, st) \<Rightarrow> append_pieces mem store st bs)"

lemma append_pieces_all: "append_pieces mem store st bs = append_all (mp_handler mem store) st bs"
  by (induction bs arbitrary: st) (auto simp: aug_appendmar_def split: prod.splits sum.splits)

section \<open>A handler that accepts what comes\<close>

text \<open>A run with \<open>accept\<close> is the run with any handler that accepts the calls it made.\<close>

fun okays :: "handler \<Rightarrow> http_event list \<Rightarrow> http_event list \<Rightarrow> bool" where
  "okays h log [] = True"
| "okays h log (ev # evs) = (h log ev = None \<and> okays h (log @ [ev]) evs)"

lemma okays_append: "okays h log (a @ b) \<longleftrightarrow> okays h log a \<and> okays h (log @ a) b"
  by (induction a arbitrary: log) auto

definition lifts :: "(handler \<Rightarrow> http \<Rightarrow> (aug_fail + 'a) \<times> http) \<Rightarrow> http \<Rightarrow> bool" where
  "lifts F st \<longleftrightarrow> (\<forall>r st'. F accept st = (Inr r, st') \<longrightarrow>
     (\<exists>evs. hp_log st' = hp_log st @ evs \<and> HCdata [] \<notin> set evs \<and>
        (\<forall>h. okays h (hp_log st) evs \<longrightarrow> F h st = (Inr r, st'))))"

lemma liftsI:
  "(\<And>r st'. F accept st = (Inr r, st') \<Longrightarrow>
     \<exists>evs. hp_log st' = hp_log st @ evs \<and> HCdata [] \<notin> set evs \<and> (\<forall>h. okays h (hp_log st) evs \<longrightarrow> F h st = (Inr r, st'))) \<Longrightarrow> lifts F st"
  unfolding lifts_def by blast

lemma liftsE:
  assumes "lifts F st" "F accept st = (Inr r, st')"
  obtains evs where "hp_log st' = hp_log st @ evs" "HCdata [] \<notin> set evs" "\<And>h. okays h (hp_log st) evs \<Longrightarrow> F h st = (Inr r, st')"
  using assms unfolding lifts_def by blast

lemma lifts_call: "ev \<noteq> HCdata [] \<Longrightarrow> hp_log st' = hp_log st \<Longrightarrow> lifts (\<lambda>h _. call h st' ev) st"
  by (auto simp: lifts_def call_def accept_def intro: exI [of _ "[ev]"])

lemma lifts_const: "hp_log st' = hp_log st \<Longrightarrow> lifts (\<lambda>h _. (r, st')) st"
  by (auto simp: lifts_def)

text \<open>Running on when the first part succeeds.\<close>

lemma lifts_bind:
  assumes F: "lifts F st" and G: "\<And>r st'. F accept st = (Inr r, st') \<Longrightarrow> lifts (\<lambda>h. G h r) st'"
  shows "lifts (\<lambda>h st. case F h st of (Inl e, st) \<Rightarrow> (Inl e, st) | (Inr r, st) \<Rightarrow> G h r st) st"
proof (rule liftsI)
  fix r st'
  assume a: "(case F accept st of (Inl e, st) \<Rightarrow> (Inl e, st) | (Inr r, st) \<Rightarrow> G accept r st) = (Inr r, st')"
  obtain q u where f: "F accept st = (Inr q, u)" and g: "G accept q u = (Inr r, st')"
    using a by (auto split: prod.splits sum.splits)
  obtain e1 where e1: "hp_log u = hp_log st @ e1" "HCdata [] \<notin> set e1" "\<And>h. okays h (hp_log st) e1 \<Longrightarrow> F h st = (Inr q, u)"
    using liftsE [OF F f] by blast
  obtain e2 where e2: "hp_log st' = hp_log u @ e2" "HCdata [] \<notin> set e2" "\<And>h. okays h (hp_log u) e2 \<Longrightarrow> G h q u = (Inr r, st')"
    using liftsE [OF G [OF f] g] by blast
  show "\<exists>evs. hp_log st' = hp_log st @ evs \<and> HCdata [] \<notin> set evs \<and> (\<forall>h. okays h (hp_log st) evs \<longrightarrow>
      (case F h st of (Inl e, st) \<Rightarrow> (Inl e, st) | (Inr r, st) \<Rightarrow> G h r st) = (Inr r, st'))"
    by (rule exI [of _ "e1 @ e2"]) (use e1 e2 in \<open>simp add: okays_append\<close>)
qed

lemma lifts_at: "lifts (\<lambda>h _. F h st) st \<longleftrightarrow> lifts F st"
  by (simp add: lifts_def)

lemma lifts_frame: "hp_log st' = hp_log st \<Longrightarrow> lifts F st' \<Longrightarrow> lifts (\<lambda>h _. F h st') st"
  by (simp add: lifts_def)

lemma lifts_fail: "(\<And>h. \<exists>e u. F h st = (Inl e, u)) \<Longrightarrow> lifts F st"
  unfolding lifts_def by (metis Inl_Inr_False prod.inject)

lemma lifts_map:
  assumes "lifts F st" "\<And>q u. hp_log (g q u) = hp_log u"
  shows "lifts (\<lambda>h st. case F h st of (Inl e, st) \<Rightarrow> (Inl e, st) | (Inr q, st) \<Rightarrow> (Inr (f q), g q st)) st"
  by (rule lifts_bind [OF assms(1)]) (auto simp: lifts_def assms(2))

lemma lifts_ret: "lifts (\<lambda>h st. (r, st)) st"
  by (auto simp: lifts_def)

lemma lifts_if: "(c \<Longrightarrow> lifts A st) \<Longrightarrow> (\<not> c \<Longrightarrow> lifts B st) \<Longrightarrow> lifts (\<lambda>h st. if c then A h st else B h st) st"
  by (cases c) simp_all

lemma value_lifts: "lifts (\<lambda>h st. http_value h st token) st"
  using lifts_call [of _ "st\<lparr>hp_csize := _\<rparr>" st]
  by (auto simp: http_value_def lifts_def call_def accept_def split: sum.splits intro: exI [of _ "[_]"])

lemma end_lifts: "lifts (\<lambda>h st. http_end h st b) st"
  using lifts_call [of "HEnd b" "st\<lparr>hp_state := REQUEST, hp_csize := 0\<rparr>" st] by (simp add: http_end_def lifts_def)

lemma phrase_lifts: "lifts http_phrase st"
  using end_lifts [of True st] by (auto simp: http_phrase_def lifts_def)

lemma word_lifts: "lifts (\<lambda>h st. http_word h st token) st"
proof (cases "hp_state st")
  case REQUEST
  then show ?thesis
    using lifts_map [OF lifts_call [of "HRequest token" st st], of "\<lambda>q u. u\<lparr>hp_state := NAME\<rparr>" "\<lambda>_. ()"]
    by (simp add: http_word_def lifts_def)
next
  case VALUE
  then show ?thesis
    using lifts_map [OF value_lifts [of token st], of "\<lambda>q u. u\<lparr>hp_state := NAME\<rparr>" "\<lambda>_. ()"]
    by (simp add: http_word_def lifts_def)
qed (auto simp: http_word_def lifts_def)

lemma tok_lifts: "lifts (\<lambda>h st. http_tok h st t) st"
proof -
  have w: "lifts (\<lambda>h st. case http_word h st (snd t) of (Inl e, st) \<Rightarrow> (Inl e, st) | (Inr u, st) \<Rightarrow> (Inr False, st)) st"
    using lifts_map [OF word_lifts, of "\<lambda>q u. u" "\<lambda>_. False"] by simp
  have ph: "lifts (\<lambda>h st. case http_phrase h st of (Inl e, st) \<Rightarrow> (Inl e, st) | (Inr u, st) \<Rightarrow> (Inr True, st)) st" for st
    using lifts_map [OF phrase_lifts, of "\<lambda>q u. u" "\<lambda>_. True"] by simp
  have wp: "lifts (\<lambda>h st. case http_word h st (snd t) of (Inl e, st) \<Rightarrow> (Inl e, st)
      | (Inr u, st) \<Rightarrow> (case http_phrase h st of (Inl e, st) \<Rightarrow> (Inl e, st) | (Inr u, st) \<Rightarrow> (Inr True, st))) st"
    by (rule lifts_bind [OF word_lifts]) (rule ph)
  have lab: "lifts (\<lambda>h st. case http_label st (snd t) of (Inl e, st) \<Rightarrow> (Inl e, st) | (Inr u, st) \<Rightarrow> (Inr False, st)) st"
    by (auto simp: lifts_def http_label_def http_name_def)
  show ?thesis
    unfolding http_tok_def by (intro lifts_if w ph wp lab lifts_ret)
qed

lemma switch_lifts: "lifts http_switch st"
proof -
  have "lifts (\<lambda>h _. http_tok h (st\<lparr>hp_lexer := lx\<rparr>) t) st" for lx t
    by (rule lifts_frame [OF _ tok_lifts]) simp
  then show ?thesis
    using tok_lifts [of "(lx_what (hp_lexer st), [])" st]
    by (cases "aug_lexertoken (hp_lexer st)") (auto simp: http_switch_def Let_def lifts_def)
qed

lemma header_lifts: "lifts (\<lambda>h st. http_header h st buf i) st"
proof (induction buf arbitrary: st i)
  case (Cons ch chs)
  show ?case
  proof (cases "aug_appendlexer (hp_lexer st) ch")
    case (Some lx)
    have "lifts (\<lambda>h st. case http_switch h st of (Inl e, st) \<Rightarrow> (Inl e, st)
        | (Inr ended, st) \<Rightarrow> if ended then (Inr (i + 1), st) else http_header h st chs (i + 1)) (st\<lparr>hp_lexer := lx\<rparr>)"
      by (rule lifts_bind [OF switch_lifts]) (use Cons.IH lifts_const in \<open>auto simp: lifts_def\<close>)
    then show ?thesis using Some by (simp add: lifts_def)
  qed (auto simp: lifts_def)
qed (simp add: lifts_def)

lemma body_lifts:
  assumes "buf \<noteq> []"
  shows "lifts (\<lambda>h st. http_body h st buf) st"
proof -
  define n where "n = nat (hp_csize st mod 2 ^ 32)"
  have call: "lifts (\<lambda>h st'. case call h (st\<lparr>hp_csize := c\<rparr>) (HCdata buf) of
      (Inl e, st) \<Rightarrow> (Inl e, st) | (Inr u, st) \<Rightarrow> (Inr (length buf), st)) st" for c
    using lifts_map [OF lifts_call [of "HCdata buf" "st\<lparr>hp_csize := c\<rparr>" st], of "\<lambda>q u. u" "\<lambda>_. length buf"] assms by simp
  have fin: "lifts (\<lambda>h st. case http_end h st True of (Inl e, st) \<Rightarrow> (Inl e, st) | (Inr u, st) \<Rightarrow> (Inr n, st)) st" for st
    using lifts_map [OF end_lifts, of "\<lambda>q u. u" "\<lambda>_. n"] by simp
  have "lifts (\<lambda>h st'. case (if n \<noteq> 0 then call h st (HCdata (take n buf)) else (Inr (), st)) of
      (Inl e, st) \<Rightarrow> (Inl e, st)
    | (Inr u, st) \<Rightarrow> (case http_end h st True of (Inl e, st) \<Rightarrow> (Inl e, st) | (Inr u, st) \<Rightarrow> (Inr n, st))) st"
    by (rule lifts_bind) (use lifts_call [of "HCdata (take n buf)" st st] lifts_const [of st st] fin assms in \<open>auto simp: lifts_def\<close>)
  then show ?thesis
    using call lifts_const [of st st "Inl Undefined"]
    unfolding http_body_def Let_def n_def [symmetric] lifts_def by (auto simp: n_def [symmetric])
qed

lemma header_bound: "http_header h st buf i = (Inr n, st') \<Longrightarrow> n \<le> i + length buf"
proof (induction buf arbitrary: st i)
  case (Cons c buf)
  from Cons.prems show ?case
    by (auto split: option.splits prod.splits sum.splits if_splits dest!: Cons.IH)
qed simp

lemma loop_lifts: "lifts (\<lambda>h st. http_loop h st buf) st"
proof (induction "length buf" arbitrary: buf st rule: less_induct)
  case (less buf st)
  have body: "lifts (\<lambda>h st. case http_body h st (drop n buf) of (Inl e, st) \<Rightarrow> (Inl e, st)
      | (Inr m, st) \<Rightarrow> if m = length (drop n buf) then (Inr (), st) else http_loop h st (drop m (drop n buf))) st'"
    if n: "http_header accept st buf 0 = (Inr n, st')" "n \<noteq> length buf" for n st'
  proof (cases "drop n buf = []")
    case False
    then have "buf \<noteq> []" by auto
    then have "0 < n" using http_header_pos [OF n(1)] by simp
    show ?thesis
    proof (rule lifts_bind [OF body_lifts [OF False]], rule lifts_if [OF lifts_ret])
      fix m u
      show "lifts (\<lambda>h st. http_loop h st (drop m (drop n buf))) u"
        by (rule less) (use \<open>0 < n\<close> False in auto)
    qed
  next
    case True
    have "n \<le> length buf" using header_bound [OF n(1)] by simp
    then show ?thesis using True n(2) by simp
  qed
  have "lifts (\<lambda>h st. case http_header h st buf 0 of (Inl e, st) \<Rightarrow> (Inl e, st)
     | (Inr n, st) \<Rightarrow> if n = length buf then (Inr (), st)
       else (case http_body h st (drop n buf) of (Inl e, st) \<Rightarrow> (Inl e, st)
         | (Inr m, st) \<Rightarrow> if m = length (drop n buf) then (Inr (), st) else http_loop h st (drop m (drop n buf)))) st"
    by (rule lifts_bind [OF header_lifts], rule lifts_if [OF lifts_ret], rule body)
  then show ?case by (subst (1) http_loop.simps) (simp add: lifts_def)
qed

lemma append_lifts:
  assumes "buf \<noteq> []"
  shows "lifts (\<lambda>h st. aug_appendhttp h st buf) st"
proof -
  have b: "lifts (\<lambda>h st. case http_body h st buf of (Inl e, st) \<Rightarrow> (Inl e, st)
      | (Inr m, st) \<Rightarrow> if m = length buf then (Inr (), st) else http_loop h st (drop m buf)) st"
    by (rule lifts_bind [OF body_lifts [OF assms]], rule lifts_if [OF lifts_ret loop_lifts])
  have "lifts (\<lambda>h st. if hp_state st = BODY then
      (case http_body h st buf of (Inl e, st) \<Rightarrow> (Inl e, st)
        | (Inr m, st) \<Rightarrow> if m = length buf then (Inr (), st) else http_loop h st (drop m buf))
      else http_loop h st buf) st"
    using b loop_lifts [of buf st] by (simp add: lifts_def)
  then show ?thesis
    unfolding lifts_def aug_appendhttp_def by (fastforce split: prod.splits sum.splits)
qed

lemma append_all_lifts: "[] \<notin> set bs \<Longrightarrow> lifts (\<lambda>h st. append_all h st bs) st"
proof (induction bs arbitrary: st)
  case (Cons b bs st)
  have "lifts (\<lambda>h st. case aug_appendhttp h st b of (Inl e, st) \<Rightarrow> (Inl e, st) | (Inr u, st) \<Rightarrow> append_all h st bs) st"
    by (rule lifts_bind [OF append_lifts]) (use Cons in auto)
  then show ?case by (simp add: lifts_def)
qed (simp add: lifts_def)

section \<open>The parser on abstract archives\<close>

record aparser =
  ap_request :: "byte list option"
  ap_ar :: "archive option"
  ap_puts :: "(byte list \<times> archive) list"

text \<open>An operation within the scope of the refinement that succeeds.\<close>

definition aop :: "archive \<Rightarrow> mar_op \<Rightarrow> archive option" where
  "aop a opr =
     (if in_scope a opr then case spec True a opr of (Inl _, _) \<Rightarrow> None | (Inr _, a) \<Rightarrow> Some a else None)"

fun astep :: "aparser \<Rightarrow> http_event \<Rightarrow> aparser option" where
  "astep p (HRequest r) =
     (if cstring r \<and> length r \<le> MINSIZE \<and> ap_request p = None \<and> ap_ar p = None then Some (p\<lparr>ap_request := Some r, ap_ar := Some empty_archive\<rparr>) else None)"
| "astep p (HField n v) = (if cstring n \<and> cstring v
     then do { a \<leftarrow> ap_ar p; a \<leftarrow> aop a (PutP n v); Some (p\<lparr>ap_ar := Some a\<rparr>) } else None)"
| "astep p (HCsize n) = do { a \<leftarrow> ap_ar p; a \<leftarrow> aop a (Truncate n); a \<leftarrow> aop a (Seek 0 AUG_SET); Some (p\<lparr>ap_ar := Some a\<rparr>) }"
| "astep p (HCdata d) = do { a \<leftarrow> ap_ar p; a \<leftarrow> aop a (Write d); Some (p\<lparr>ap_ar := Some a\<rparr>) }"
| "astep p (HEnd b) =
     (case (ap_request p, ap_ar p) of
        (Some r, Some a) \<Rightarrow>
          Some (p\<lparr>ap_request := None, ap_ar := None, ap_puts := (if b then ap_puts p @ [(r, a)] else ap_puts p)\<rparr>)
      | _ \<Rightarrow> None)"

fun arun :: "aparser \<Rightarrow> http_event list \<Rightarrow> aparser option" where
  "arun p [] = Some p"
| "arun p (ev # evs) = Option.bind (astep p ev) (\<lambda>p. arun p evs)"

lemma arun_append: "arun p (a @ b) = Option.bind (arun p a) (\<lambda>p. arun p b)"
  by (induction a arbitrary: p) (auto simp: Option.bind_assoc)

definition mp_rep :: "marparser \<Rightarrow> aparser \<Rightarrow> bool" where
  "mp_rep p ap \<longleftrightarrow> rel_option (\<lambda>x r. x_wf x \<and> content x = r \<and> cstring r) (mp_request p) (ap_request ap)
     \<and> rel_option mar_refines (mp_mar p) (ap_ar ap)
     \<and> (ap_request ap = None \<longleftrightarrow> ap_ar ap = None)
     \<and> list_all2 (\<lambda>(r, m) (r', a). r = r' \<and> mar_refines m a) (mp_puts p) (ap_puts ap)"

text \<open>A store that has a new archive for every request and takes every archive.\<close>

definition store_ok :: "marstore \<Rightarrow> bool" where
  "store_ok store \<longleftrightarrow> (\<forall>puts r. (\<exists>m. ms_get store puts r = Inr m \<and> mar_refines m empty_archive)
     \<and> (\<forall>m. ms_put store puts r m = None))"

lemma aop_exec:
  assumes "mar_refines m a" "aop a opr = Some a'"
  shows "\<exists>x m'. exec True m opr = (Inr x, m') \<and> mar_refines m' a'"
proof -
  have s: "in_scope a opr" "\<exists>x. spec True a opr = (Inr x, a')"
    using assms(2) by (auto simp: aop_def split: if_splits prod.splits sum.splits)
  then show ?thesis using exec_sim [OF assms(1) s(1), of True] by (cases "exec True m opr") (auto simp: simulates_def)
qed

lemma map_res_Inr: "map_res f out = (Inr x, m) \<Longrightarrow> \<exists>y. out = (Inr y, m)"
  by (auto simp: map_res_def split: prod.splits sum.splits)

lemma with_mar_step:
  assumes "mp_rep p ap" "ap_ar ap = Some a"
    and "\<And>m. mar_refines m a \<Longrightarrow> \<exists>x m'. f m = (Inr x, m') \<and> mar_refines m' a'"
  shows "\<exists>p'. with_mar p f = (Inr (), p') \<and> mp_rep p' (ap\<lparr>ap_ar := Some a'\<rparr>)"
proof -
  obtain r m where m: "mp_request p = Some r" "mp_mar p = Some m" "mar_refines m a"
    using assms(1,2) by (auto simp: mp_rep_def option_rel_Some2)
  obtain x m' where "f m = (Inr x, m')" "mar_refines m' a'" using assms(3) [OF m(3)] by blast
  then show ?thesis using assms(1,2) m by (auto simp: with_mar_def mp_rep_def)
qed

text \<open>A request line of up to 64 characters is copied, and comes back from its string.\<close>

lemma request_copied:
  assumes "length r \<le> MINSIZE"
  shows "\<exists>x. aug_xstrcpys (aug_createxstr 0 junk) (Some r) a = (Inr (), x) \<and> x_wf x \<and> content x = r"
proof -
  let ?x = "aug_clearxstr (aug_createxstr 0 junk)"
  have x: "x_wf ?x" "content ?x = []" "x_len ?x = 0" "x_size ?x = MINSIZE"
    using clear_all [OF create_wf(1)] clear_wf(3) [OF create_wf(1), of 0 junk 0]
    by (simp_all add: aug_clearxstr_def create_size)
  have "2 * x_len ?x + length r \<le> x_size ?x"
    using assms x by simp
  note fits = catsn_fits [OF x(1) this, of a]
  have "aug_xstrcpys (aug_createxstr 0 junk) (Some r) a = aug_xstrcatsn ?x r a"
    by (simp add: aug_xstrcpys_def aug_xstrcpysn_def)
  then show ?thesis
    using fits(1-3) x(2) by (cases "aug_xstrcatsn ?x r a") simp
qed

lemma request_read:
  assumes "x_wf x" "cstring (content x)"
  shows "\<exists>s x'. aug_xstr x = (Some s, x') \<and> c_text s = content x"
proof -
  have "c_text (content x @ [0]) = content x"
    using assms(2) by (simp add: c_text_def cstring_def takeWhile_terminated)
  then show ?thesis
    using xstr_value(1) [OF assms(1)] by (cases "aug_xstr x") simp
qed

lemma step_sim:
  assumes "mp_rep p ap" "astep ap ev = Some ap'" "store_ok store"
  shows "\<exists>p'. mp_call (\<lambda>_. Granted [] []) store p ev = (Inr (), p') \<and> mp_rep p' ap'"
proof (cases ev)
  case (HRequest r)
  have r: "cstring r" "length r \<le> MINSIZE" "ap_request ap = None" "ap_ar ap = None"
      "ap' = ap\<lparr>ap_request := Some r, ap_ar := Some empty_archive\<rparr>"
    using assms(2) HRequest by (auto split: if_splits)
  obtain m where m: "ms_get store (mp_puts p) r = Inr m" "mar_refines m empty_archive"
    using assms(3) unfolding store_ok_def by blast
  obtain x where x: "aug_xstrcpys (aug_createxstr 0 []) (Some r) (Granted [] []) = (Inr (), x)" "x_wf x"
      "content x = r"
    using request_copied [OF r(2)] by blast
  have "mp_request p = None" "mp_mar p = None"
    using assms(1) r(3,4) by (simp_all add: mp_rep_def)
  then have "mp_call (\<lambda>_. Granted [] []) store p ev = (Inr (), p\<lparr>mp_request := Some x, mp_mar := Some m\<rparr>)"
    using HRequest r(1) m(1) x(1) by (simp add: mp_call_def mp_onrequest_def granted_def new_bytes_def)
  then show ?thesis
    using assms(1) r m(2) x(2,3) by (simp add: mp_rep_def)
next
  case (HField n v)
  then obtain a a' where a: "ap_ar ap = Some a" "aop a (PutP n v) = Some a'" "ap' = ap\<lparr>ap_ar := Some a'\<rparr>"
      "cstring n" "cstring v"
    using assms(2) by (auto simp: bind_eq_Some_conv split: if_splits)
  have "\<exists>x m'. putp_BIN True m (Some n) v = (Inr x, m') \<and> mar_refines m' a'" if "mar_refines m a" for m
    using aop_exec [OF that a(2)] map_res_Inr by fastforce
  from with_mar_step [OF assms(1) a(1) this] show ?thesis using a(3-5) HField by (simp add: mp_call_def mp_onfield_def)
next
  case (HCsize n)
  then obtain a b c where a: "ap_ar ap = Some a" "aop a (Truncate n) = Some b" "aop b (Seek 0 AUG_SET) = Some c" "ap' = ap\<lparr>ap_ar := Some c\<rparr>"
    using assms(2) by (auto simp: bind_eq_Some_conv)
  have "\<exists>x m'. (case truncate_BIN True m n of (Inl e, m) \<Rightarrow> (Inl e, m) | (Inr _, m) \<Rightarrow> seek m 0 AUG_SET) = (Inr x, m') \<and> mar_refines m' c"
    if t: "mar_refines m a" for m
  proof -
    obtain u m1 where "truncate_BIN True m n = (Inr u, m1)" "mar_refines m1 b"
      using aop_exec [OF t a(2)] map_res_Inr by fastforce
    moreover from this obtain v m2 where "seek m1 0 AUG_SET = (Inr v, m2)" "mar_refines m2 c"
      using aop_exec [OF _ a(3)] map_res_Inr by fastforce
    ultimately show ?thesis by simp
  qed
  from with_mar_step [OF assms(1) a(1) this] show ?thesis using a(4) HCsize by (simp add: mp_call_def mp_oncsize_def)
next
  case (HCdata d)
  then obtain a a' where a: "ap_ar ap = Some a" "aop a (Write d) = Some a'" "ap' = ap\<lparr>ap_ar := Some a'\<rparr>"
    using assms(2) by (auto simp: bind_eq_Some_conv)
  have "\<exists>x m'. write_BIN True m d = (Inr x, m') \<and> mar_refines m' a'" if "mar_refines m a" for m
    using aop_exec [OF that a(2)] map_res_Inr by fastforce
  from with_mar_step [OF assms(1) a(1) this] show ?thesis using a(3) HCdata by (simp add: mp_call_def mp_oncdata_def)
next
  case (HEnd b)
  then obtain r a where a: "ap_request ap = Some r" "ap_ar ap = Some a"
    "ap' = ap\<lparr>ap_request := None, ap_ar := None, ap_puts := (if b then ap_puts ap @ [(r, a)] else ap_puts ap)\<rparr>"
    using assms(2) by (auto split: option.splits)
  obtain x m where p: "mp_request p = Some x" "x_wf x" "content x = r" "cstring r" "mp_mar p = Some m" "mar_refines m a"
    using assms(1) a(1,2) by (auto simp: mp_rep_def option_rel_Some2)
  obtain s x' where s: "aug_xstr x = (Some s, x')" "c_text s = r"
    using request_read [OF p(2)] p(3,4) by auto
  have "ms_put store (mp_puts p) r m = None" using assms(3) by (simp add: store_ok_def)
  then show ?thesis
    using assms(1) a p s HEnd by (auto simp: mp_call_def mp_onend_def mp_rep_def intro: list_all2_appendI)
qed

text \<open>A run of the abstract parser is one of the handler that accepts everything.\<close>

abbreviation full_memory :: "http_event list \<Rightarrow> nat \<Rightarrow> answer" where "full_memory \<equiv> \<lambda>_ _. Granted [] []"

lemma mp_after_append:
  "mp_after mem store seen (a @ b) p = mp_after mem store (seen @ a) b (mp_after mem store seen a p)"
  by (induction a arbitrary: seen p) auto

lemma run_okays:
  assumes "store_ok store"
  shows "mp_rep (mp_after full_memory store [] log new_parser) ap \<Longrightarrow> arun ap evs = Some ap' \<Longrightarrow>
    okays (mp_handler full_memory store) log evs \<and> mp_rep (mp_after full_memory store [] (log @ evs) new_parser) ap'"
proof (induction evs arbitrary: log ap)
  case (Cons ev evs)
  obtain ap1 where ap1: "astep ap ev = Some ap1" "arun ap1 evs = Some ap'" using Cons.prems(2) by (auto simp: bind_eq_Some_conv)
  obtain p' where p': "mp_call (\<lambda>_. Granted [] []) store (mp_after full_memory store [] log new_parser) ev = (Inr (), p')" "mp_rep p' ap1"
    using step_sim [OF Cons.prems(1) ap1(1) assms] by blast
  then have "mp_rep (mp_after full_memory store [] (log @ [ev]) new_parser) ap1" by (simp add: mp_after_append)
  from Cons.IH [OF this ap1(2)] p' show ?case by (simp add: mp_handler_def)
qed simp

section \<open>Content in pieces\<close>

lemma write_body_form:
  "write_body b off x = take off b @ replicate (off - length b) 0 @ x @ drop (off + length x) b"
  by (simp add: write_body_def poke_def)

lemma write_body_join: "write_body (write_body b off x) (off + length x) y = write_body b off (x @ y)"
  unfolding write_body_form by (auto simp: min_def ac_simps)

text \<open>The archive after a write.\<close>

definition written :: "archive \<Rightarrow> byte list \<Rightarrow> archive" where
  "written a d = a\<lparr>ar_body := write_body (ar_body a) (write_offset a) d, ar_offset := write_offset a + length d\<rparr>"

lemma aop_write:
  "aop a (Write d) =
     (if can_write a \<and> asize (written a d) < 2 ^ 32 \<and> ar_offset (written a d) < 2 ^ 32 then Some (written a d) else None)"
proof (cases "can_write a")
  case True
  have "spec True a (Write d) = (Inr (RInt (int (length d))), written a d)"
    using True by (simp add: guard_def Let_def commit_def written_def)
  then show ?thesis using True by (simp add: aop_def in_scope_def)
next
  case False
  then show ?thesis by (simp add: aop_def guard_def split: prod.splits)
qed

lemma written_join: "written (written a x) y = written a (x @ y)"
proof -
  have "write_offset (written a x) = write_offset a + length x"
    by (simp add: write_offset_def written_def)
  then show ?thesis by (simp add: written_def write_body_join)
qed

lemma aop_write_split:
  assumes "aop a (Write (x @ y)) = Some b"
  shows "aop a (Write x) = Some (written a x) \<and> aop (written a x) (Write y) = Some b"
proof -
  have "asize (written a x) \<le> asize (written a (x @ y))" "ar_offset (written a x) \<le> ar_offset (written a (x @ y))"
    by (simp_all add: written_def asize_def)
  moreover have "can_write (written a x) = can_write a" by (simp add: can_write_def written_def)
  ultimately show ?thesis
    using assms unfolding aop_write written_join by (auto split: if_splits)
qed

lemma astep_split:
  assumes "astep p (HCdata (x @ y)) = Some q"
  shows "\<exists>u. astep p (HCdata x) = Some u \<and> astep u (HCdata y) = Some q"
  using assms aop_write_split by (fastforce simp: bind_eq_Some_conv)

text \<open>A log without empty pieces does what it does with its pieces joined.\<close>

lemma arun_merge:
  "HCdata [] \<notin> set l \<Longrightarrow> arun p (merge l) = Some q \<Longrightarrow> arun p l = Some q"
proof (induction l arbitrary: q rule: rev_induct)
  case (snoc ev l)
  have m: "merge (l @ [ev]) = addev (merge l) ev" by (simp add: merge_append)
  have no: "HCdata [] \<notin> set l" "ev \<noteq> HCdata []" using snoc.prems(1) by auto
  have plain: "arun p (l @ [ev]) = Some q" if "addev (merge l) ev = merge l @ [ev]"
    using snoc.prems(2) snoc.IH [OF no(1)] that m by (auto simp: arun_append bind_eq_Some_conv)
  show ?case
  proof (cases ev)
    case (HCdata d)
    then have d: "d \<noteq> []" using no(2) by simp
    show ?thesis
    proof (cases "\<exists>k d0. merge l = k @ [HCdata d0]")
      case False
      then have "addev (merge l) ev = merge l @ [ev]"
        using d HCdata by (cases "merge l" rule: rev_cases) (auto simp: addev.simps split: http_event.splits)
      then show ?thesis by (rule plain)
    next
      case True
      then obtain k d0 where k: "merge l = k @ [HCdata d0]" by blast
      then have "merge (l @ [ev]) = k @ [HCdata (d0 @ d)]" using d HCdata m by (simp add: addev.simps)
      then obtain u where u: "arun p k = Some u" "astep u (HCdata (d0 @ d)) = Some q"
        using snoc.prems(2) by (auto simp: arun_append bind_eq_Some_conv)
      obtain v where v: "astep u (HCdata d0) = Some v" "astep v (HCdata d) = Some q" using astep_split [OF u(2)] by blast
      have "arun p (merge l) = Some v" using k u(1) v(1) by (simp add: arun_append)
      then show ?thesis using snoc.IH [OF no(1)] v(2) HCdata by (simp add: arun_append)
    qed
  qed (rule plain, simp add: addev.simps)+
qed (simp add: merge_def)

section \<open>Messages in the store\<close>

definition put_fields :: "field list \<Rightarrow> field_line list \<Rightarrow> field list" where
  "put_fields fs gs = foldl (\<lambda>fs g. put_field fs (fst g) (snd g)) fs gs"

definition fields_size :: "field_line list \<Rightarrow> nat" where
  "fields_size gs = (\<Sum>g \<leftarrow> gs. 6 + length (fst g) + length (snd g))"

text \<open>The archive of a message, and the messages that fit one.\<close>

definition msg_archive :: "http_msg \<Rightarrow> archive" where
  "msg_archive m = empty_archive\<lparr>ar_fields := put_fields [] (m_before m @ m_after m), ar_body := m_body m,
     ar_offset := length (m_body m)\<rparr>"

definition msg_fits :: "http_msg \<Rightarrow> bool" where
  "msg_fits m \<longleftrightarrow> 16 + fields_size (m_before m @ m_after m) + length (m_body m) < 2 ^ 32
     \<and> list_all (\<lambda>g. length (fst g) < AUG_MAX16 \<and> length (snd g) < AUG_MAX16) (m_before m @ m_after m)
     \<and> length (m_request m) \<le> MINSIZE"

lemma hdr_put: "length (hdr (put_field fs n v)) \<le> length (hdr fs) + (6 + length n + length v)"
proof -
  obtain f1 b c where "hdr fs = hdr f1 @ b @ c" "hdr (put_field fs n v) = hdr f1 @ enc_field (n, v) @ c"
    by (rule put_split [of fs n v])
  then show ?thesis by (simp add: enc_field_def)
qed

lemma aop_field:
  assumes "ar_flags a = AUG_RDWR" "cstring n" "length n < AUG_MAX16" "length v < AUG_MAX16"
    and "asize a + (6 + length n + length v) < 2 ^ 32" "ar_offset a < 2 ^ 32"
  shows "aop a (PutP n v) = Some (a\<lparr>ar_fields := put_field (ar_fields a) n v\<rparr>)"
proof -
  have "can_write a" using assms(1) by (simp add: can_write_def torw_def AUG_RDWR_def AUG_RDONLY_def AUG_WRONLY_def
        MAR_READ_def MAR_WRITE_def Let_def)
  then have s: "spec True a (PutP n v) = (Inr (RInt (int (find_field (ar_fields a) n))), a\<lparr>ar_fields := put_field (ar_fields a) n v\<rparr>)"
    using assms(3,4) by (simp add: guard_def commit_def)
  have "in_scope a (PutP n v)"
    unfolding in_scope_def s using assms hdr_put [of "ar_fields a" n v]
    by (simp add: asize_def AUG_MAX16_def)
  then show ?thesis unfolding aop_def s by simp
qed

lemma arun_fields:
  assumes "ap_ar p = Some a" "ar_flags a = AUG_RDWR" "ar_offset a < 2 ^ 32"
    and "list_all (\<lambda>g. cstring (fst g) \<and> cstring (snd g) \<and> length (fst g) < AUG_MAX16 \<and> length (snd g) < AUG_MAX16) gs"
    and "asize a + fields_size gs < 2 ^ 32"
  shows "arun p (map (\<lambda>f. HField (fst f) (snd f)) gs) = Some (p\<lparr>ap_ar := Some (a\<lparr>ar_fields := put_fields (ar_fields a) gs\<rparr>)\<rparr>)
    \<and> asize (a\<lparr>ar_fields := put_fields (ar_fields a) gs\<rparr>) \<le> asize a + fields_size gs"
  using assms
proof (induction gs arbitrary: p a)
  case (Cons g gs)
  let ?a = "a\<lparr>ar_fields := put_field (ar_fields a) (fst g) (snd g)\<rparr>"
  have s: "asize ?a \<le> asize a + (6 + length (fst g) + length (snd g))"
    using hdr_put [of "ar_fields a" "fst g" "snd g"] by (simp add: asize_def)
  have o: "aop a (PutP (fst g) (snd g)) = Some ?a"
    by (rule aop_field) (use Cons.prems in \<open>simp_all add: fields_size_def\<close>)
  have "arun (p\<lparr>ap_ar := Some ?a\<rparr>) (map (\<lambda>f. HField (fst f) (snd f)) gs)
      = Some (p\<lparr>ap_ar := Some ?a\<rparr>\<lparr>ap_ar := Some (?a\<lparr>ar_fields := put_fields (ar_fields ?a) gs\<rparr>)\<rparr>)
    \<and> asize (?a\<lparr>ar_fields := put_fields (ar_fields ?a) gs\<rparr>) \<le> asize ?a + fields_size gs"
    by (rule Cons.IH) (use Cons.prems s in \<open>simp_all add: fields_size_def\<close>)
  moreover have "cstring (fst g)" "cstring (snd g)" using Cons.prems(4) by simp_all
  ultimately show ?case using Cons.prems(1) o s by (simp add: put_fields_def fields_size_def)
qed (simp add: put_fields_def fields_size_def)

lemma aop_truncate:
  assumes "ar_flags a = AUG_RDWR" "16 + length (hdr (ar_fields a)) + n < 2 ^ 32" "ar_offset a < 2 ^ 32"
  shows "aop a (Truncate n) = Some (a\<lparr>ar_body := resized_body n True (ar_body a)\<rparr>)"
proof -
  have "can_write a" using assms(1) by (simp add: can_write_def torw_def AUG_RDWR_def AUG_RDONLY_def AUG_WRONLY_def
        MAR_READ_def MAR_WRITE_def Let_def)
  then have s: "spec True a (Truncate n) = (Inr RNone, a\<lparr>ar_body := resized_body n True (ar_body a)\<rparr>)"
    by (simp add: guard_def commit_def)
  have "in_scope a (Truncate n)"
    unfolding in_scope_def s using assms by (auto simp: asize_def resized_body_def)
  then show ?thesis unfolding aop_def s by simp
qed

lemma aop_rewind:
  assumes "asize a < 2 ^ 32"
  shows "aop a (Seek 0 AUG_SET) = Some (a\<lparr>ar_offset := 0\<rparr>)"
proof -
  have s: "spec True a (Seek 0 AUG_SET) = (Inr (RInt 0), a\<lparr>ar_offset := 0\<rparr>)" by (simp add: position_def)
  have "in_scope a (Seek 0 AUG_SET)" unfolding in_scope_def s using assms by simp
  then show ?thesis unfolding aop_def s by simp
qed

lemma put_fields_append: "put_fields fs (a @ b) = put_fields (put_fields fs a) b"
  by (simp add: put_fields_def)

lemma field_cstring:
  assumes "Lexer.field_ok f"
  shows "cstring (fst f) \<and> cstring (snd f)"
  using assms line_text_nonzero unfolding Lexer.field_ok_def line_text_def cstring_def by fastforce

lemma arun_msg:
  assumes "msg_ok m" "msg_fits m" "ap_request p = None" "ap_ar p = None"
  shows "arun p (msg_events m) = Some (p\<lparr>ap_puts := ap_puts p @ [(m_request m, msg_archive m)]\<rparr>)"
proof -
  let ?n = "length (m_body m)" and ?b = "m_before m" and ?c = "m_after m"
  have n: "0 < ?n" "?n < 2 ^ 32" using assms(1) by (auto simp: msg_ok_def)
  have req: "cstring (m_request m)" using assms(1) by (auto simp: msg_ok_def cstring_def line_text_def dest: line_text_nonzero)
  have short: "length (m_request m) \<le> MINSIZE" using assms(2) by (simp add: msg_fits_def)
  have "cstring (fst g) \<and> cstring (snd g)" if "g \<in> set (?b @ ?c)" for g
    by (rule field_cstring) (use that assms(1) in \<open>auto simp: msg_ok_def list_all_iff plain_field_def\<close>)
  then have names: "list_all (\<lambda>g. cstring (fst g) \<and> cstring (snd g) \<and> length (fst g) < AUG_MAX16 \<and> length (snd g) < AUG_MAX16) (?b @ ?c)"
    using assms(2) by (simp add: msg_fits_def list_all_iff)
  have size: "16 + fields_size ?b + fields_size ?c + ?n < 2 ^ 32" using assms(2) by (simp add: msg_fits_def fields_size_def)
  define a0 where "a0 = empty_archive"
  define a1 where "a1 = a0\<lparr>ar_fields := put_fields [] ?b\<rparr>"
  define a2 where "a2 = a1\<lparr>ar_body := replicate ?n 0, ar_offset := 0\<rparr>"
  define a3 where "a3 = a2\<lparr>ar_fields := put_fields (ar_fields a2) ?c\<rparr>"
  have a0: "ar_flags a0 = AUG_RDWR" "ar_offset a0 = 0" "asize a0 = 16" "ar_fields a0 = []" "ar_body a0 = []"
    by (simp_all add: a0_def empty_archive_def asize_def hdr_def)
  define p0 where "p0 = p\<lparr>ap_request := Some (m_request m), ap_ar := Some a0\<rparr>"
  have s1: "arun p0 (map (\<lambda>f. HField (fst f) (snd f)) ?b) = Some (p0\<lparr>ap_ar := Some a1\<rparr>)" "asize a1 \<le> 16 + fields_size ?b"
    using arun_fields [of p0 a0 ?b] names size a0 by (simp_all add: p0_def a1_def)
  have a1: "ar_flags a1 = AUG_RDWR" "ar_body a1 = []" "ar_offset a1 = 0" using a0 by (simp_all add: a1_def)
  have "resized_body ?n True [] = replicate ?n 0" using n by (simp add: resized_body_def)
  then have t: "aop a1 (Truncate ?n) = Some (a1\<lparr>ar_body := replicate ?n 0\<rparr>)"
    using aop_truncate [of a1 ?n] a1 s1(2) size by (simp add: asize_def)
  have as2: "asize a2 \<le> 16 + fields_size ?b + ?n" using s1(2) by (simp add: a2_def asize_def)
  have "aop (a1\<lparr>ar_body := replicate ?n 0\<rparr>) (Seek 0 AUG_SET) = Some a2"
    using aop_rewind [of "a1\<lparr>ar_body := replicate ?n 0\<rparr>"] as2 size by (simp add: a2_def asize_def)
  then have s2: "astep (p0\<lparr>ap_ar := Some a1\<rparr>) (HCsize ?n) = Some (p0\<lparr>ap_ar := Some a2\<rparr>)" using t by simp
  have s3: "arun (p0\<lparr>ap_ar := Some a2\<rparr>) (map (\<lambda>f. HField (fst f) (snd f)) ?c) = Some (p0\<lparr>ap_ar := Some a3\<rparr>)"
      "asize a3 \<le> asize a2 + fields_size ?c"
    using arun_fields [of "p0\<lparr>ap_ar := Some a2\<rparr>" a2 ?c] names size as2 a1 by (simp_all add: a3_def a2_def)
  have a3: "ar_body a3 = replicate ?n 0" "write_offset a3 = 0" "ar_flags a3 = AUG_RDWR" "can_write a3"
    using a1 by (simp_all add: a3_def a2_def write_offset_def can_write_def torw_def AUG_APPEND_def AUG_RDWR_def
        AUG_RDONLY_def AUG_WRONLY_def MAR_READ_def MAR_WRITE_def Let_def)
  have w: "written a3 (m_body m) = msg_archive m"
    using a3 a0 by (simp add: written_def write_body_form msg_archive_def a3_def a2_def a1_def a0_def put_fields_append)
  have "asize (msg_archive m) = asize a3" unfolding w [symmetric] using a3 by (simp add: written_def asize_def)
  then have s4: "aop a3 (Write (m_body m)) = Some (msg_archive m)"
    using a3(4) w s3(2) as2 size n by (simp add: aop_write) (simp add: msg_archive_def)
  show ?thesis
    using req short assms(3,4) s1(1) s2 s3(1) s4 unfolding msg_events_def
    by (simp add: arun_append a0_def [symmetric] p0_def del: astep.simps(3)) 
qed

lemma arun_msgs:
  assumes "\<forall>m \<in> set ms. msg_ok m \<and> msg_fits m" "ap_request p = None" "ap_ar p = None"
  shows "arun p (concat (map msg_events ms)) = Some (p\<lparr>ap_puts := ap_puts p @ map (\<lambda>m. (m_request m, msg_archive m)) ms\<rparr>)"
  using assms
proof (induction ms arbitrary: p)
  case (Cons m ms)
  let ?p = "p\<lparr>ap_puts := ap_puts p @ [(m_request m, msg_archive m)]\<rparr>"
  have "arun p (msg_events m) = Some ?p" using Cons.prems by (intro arun_msg) auto
  moreover have "arun ?p (concat (map msg_events ms))
      = Some (?p\<lparr>ap_puts := ap_puts ?p @ map (\<lambda>m. (m_request m, msg_archive m)) ms\<rparr>)"
    by (rule Cons.IH) (use Cons.prems in auto)
  ultimately show ?case by (simp add: arun_append)
qed simp

text \<open>
  C3: Messages given in any pieces arrive in the store.  A parser made with the
  default size, or with at least \<open>AUG_MAXLINE\<close> (1024) characters, is given a stream of messages in
  any pieces that are not empty and shorter than \<open>2 ^ 31\<close> bytes.  Each message has a request line
  of at most 64 characters without a colon, fields, one of which declares the length of its content,
  and a content of at least one byte; names and values have at most 512 characters (a name may not be read as a
  content length); the characters of lines are below 128, without zero, line ends and backslashes,
  and lines neither begin nor end with a space; names have no colon; request lines and names are not empty, values may be; the
  message as an archive is below 4 GB.  Memory is granted, and the store has a new archive
  for every request and takes what is put.  Then every call succeeds, and the store is given, for
  each message in order, its request line and an archive whose fields are those of the message and
  whose body is its content.
\<close>
theorem marparser_stores:
  assumes "\<forall>m \<in> set ms. msg_ok m \<and> msg_fits m" "pieces_ok bs" "concat bs = concat (map render_msg ms)"
    and "store_ok store" "size' = 0 \<or> AUG_MAXLINE \<le> size'"
  shows "\<exists>st. append_pieces full_memory store (aug_createhttpparser mpool size') bs = (Inr (), st)
    \<and> list_all2 (\<lambda>(r, mar) m. r = m_request m \<and> mar_refines mar (msg_archive m))
        (mp_puts (mp_after full_memory store [] (hp_log st) new_parser)) ms"
proof -
  let ?h = "mp_handler full_memory store" and ?p0 = "\<lparr>ap_request = None, ap_ar = None, ap_puts = []\<rparr>"
    and ?st = "aug_createhttpparser mpool size'"
  obtain st where st: "append_all accept ?st bs = (Inr (), st)"
      "merge (hp_log st) = concat (map msg_events ms)"
    using stream_run [of ms bs size' mpool] assms(1-3,5) by blast
  have l: "lifts (\<lambda>h st. append_all h st bs) ?st"
    using assms(2) by (intro append_all_lifts) (auto simp: pieces_ok_def)
  then obtain evs where evs: "hp_log st = hp_log ?st @ evs" "HCdata [] \<notin> set evs"
      "\<And>h. okays h (hp_log ?st) evs \<Longrightarrow> append_all h ?st bs = (Inr (), st)"
    using l st(1) unfolding lifts_def by blast
  have log: "hp_log ?st = []" "hp_log st = evs" using evs(1) by (simp_all add: aug_createhttpparser_def)
  have run: "arun ?p0 evs = Some (?p0\<lparr>ap_puts := map (\<lambda>m. (m_request m, msg_archive m)) ms\<rparr>)"
    using arun_merge [OF evs(2), of ?p0] arun_msgs [OF assms(1), of ?p0] st(2) log by simp
  have "mp_rep (mp_after full_memory store [] [] new_parser) ?p0" by (simp add: mp_rep_def new_parser_def)
  note ok = run_okays [OF assms(4) this run]
  have "append_pieces full_memory store ?st bs = (Inr (), st)"
    unfolding append_pieces_all using evs(3) ok log by simp
  moreover have "list_all2 (\<lambda>(r, mar) m. r = m_request m \<and> mar_refines mar (msg_archive m))
      (mp_puts (mp_after full_memory store [] (hp_log st) new_parser)) ms"
    using ok log by (simp add: mp_rep_def list_all2_map2 case_prod_unfold)
  ultimately show ?thesis by blast
qed

text \<open>A store that makes a new archive for every request.\<close>

definition new_store :: marstore where
  "new_store = \<lparr>ms_get = \<lambda>_ _. aug_createmar True True, ms_put = \<lambda>_ _ _. None\<rparr>"

lemma new_store_ok: "store_ok new_store"
  using createmar_empty unfolding store_ok_def new_store_def by auto

lemma marparser_stores_witness:
  "let m = \<lparr>m_request = [71], m_before = [], m_after = [([65], [66])], m_body = [13, 0]\<rparr> in
   \<exists>st. append_pieces full_memory new_store (aug_createhttpparser poor 0) (map (\<lambda>c. [c]) (render_msg m)) = (Inr (), st)
    \<and> list_all2 (\<lambda>(r, mar) m. r = m_request m \<and> mar_refines mar (msg_archive m))
        (mp_puts (mp_after full_memory new_store [] (hp_log st) new_parser)) [m]"
proof -
  let ?m = "\<lparr>m_request = [71], m_before = [], m_after = [([65], [66])], m_body = [13, 0]\<rparr>"
  have "\<forall>m \<in> set [?m]. msg_ok m \<and> msg_fits m"
    by (simp add: msg_ok_def line_text_def first_char_def text_char_def isspace_def trimmed_def MINSIZE_def
        plain_field_def Lexer.field_ok_def is_csize_def AUG_MAXLINE_def msg_fits_def fields_size_def AUG_MAX16_def)
  moreover have "pieces_ok (map (\<lambda>c. [c]) (render_msg ?m))"
    by (simp add: pieces_ok_def)
  ultimately show ?thesis
    using marparser_stores [of "[?m]" "map (\<lambda>c. [c]) (render_msg ?m)" new_store 0 poor] new_store_ok by simp
qed

text \<open>
  A request line of more than 64 characters.  With memory granted its copy reads past the local
  buffer of the string; when the memory is refused the handler still succeeds, and the archive of the message
  is put under an empty name.
\<close>
lemma long_request:
  assumes "ms_get store (mp_puts p) request = Inr m" "mp_request p = None" "mp_mar p = None"
    and "MINSIZE < length request" "length request < 2 ^ 62"
  shows "fst (mp_onrequest (\<lambda>n. Granted [] []) store p request) = Inl Undefined"
    and "ms_put store (mp_puts p) [] m = None \<Longrightarrow>
      (case mp_onrequest (\<lambda>n. if n = 0 then Granted [] [] else Refused) store p request of (r, p') \<Rightarrow>
        r = Inr () \<and> mp_puts (snd (mp_onend store p' True)) = mp_puts p @ [([], m)])"
proof -
  let ?x = "aug_clearxstr (aug_createxstr 0 [])"
  have x: "x_wf ?x" "content ?x = []" "x_len ?x = 0" "x_size ?x = MINSIZE" "x_local ?x"
    using clear_all [OF create_wf(1)] clear_wf(3) [OF create_wf(1), of 0 "[]" 0]
    by (simp_all add: aug_clearxstr_def create_size)
      (simp add: aug_createxstr_def aug_clearxstrn_def Let_def)
  have n: "szadd (x_len ?x) (length request) = length request" "AVAIL ?x < length request" "request \<noteq> []"
    using assms(4,5) x by (auto simp: szadd_def AVAIL_def)
  have "x_reserve ?x (length request) (Granted [] []) = (Inl Undefined, ?x)"
    using x n(2) by (intro first_growth_overreads) (simp_all add: MINSIZE_def)
  then have "aug_xstrcpys (aug_createxstr 0 []) (Some request) (Granted [] []) = (Inl Undefined, ?x)"
    using n by (simp add: aug_xstrcpys_def aug_xstrcpysn_def aug_xstrcatsn_def)
  then show "fst (mp_onrequest (\<lambda>n. Granted [] []) store p request) = Inl Undefined"
    using assms by (simp add: mp_onrequest_def granted_def new_bytes_def)
  assume put: "ms_put store (mp_puts p) [] m = None"
  have "x_reserve ?x (length request) Refused = (Inl NoMem, ?x)"
    using n(2) x(5) by (simp add: x_reserve_def x_resize_def)
  then have c: "aug_xstrcpys (aug_createxstr 0 []) (Some request) Refused = (Inl NoMem, ?x)"
    using n by (simp add: aug_xstrcpys_def aug_xstrcpysn_def aug_xstrcatsn_def)
  obtain s x' where "aug_xstr ?x = (Some s, x')" "c_text s = []"
    using request_read [OF x(1)] x(2) by (auto simp: cstring_def)
  with c put assms show "case mp_onrequest (\<lambda>n. if n = 0 then Granted [] [] else Refused) store p request of (r, p') \<Rightarrow>
        r = Inr () \<and> mp_puts (snd (mp_onend store p' True)) = mp_puts p @ [([], m)]"
    by (simp add: mp_onrequest_def mp_onend_def granted_def new_bytes_def)
qed

end
