(* ===== verification/Auth.thy ===== *)
theory Auth
  imports Md5
begin

text \<open>
  \<^verbatim>\<open>augnet/auth.c\<close>: the digests of HTTP digest authentication (RFC 2617), on the MD5 of
  \<open>Md5\<close>.  Texts are C strings, without their end; \<open>j1\<close> and \<open>j2\<close> are what the buffers of the
  contexts, which are not initialised, hold.  \<open>digestha1_rfc\<close> and \<open>digestresponse_rfc\<close> give the digests
  as the RFC writes them, by the MD5 of RFC 1321.
\<close>

section \<open>The digests\<close>

text \<open>\<^verbatim>\<open>aug_appendmd5(&md5ctx, (unsigned char*)s, (unsigned)strlen(s))\<close>: the length is cut to 32 bits.\<close>

definition append_string :: "bool \<Rightarrow> byte list \<Rightarrow> md5ctx \<Rightarrow> md5ctx" where
  "append_string be s ctx = aug_appendmd5 be ctx (take (length s mod 2 ^ 32) s)"

definition append_colon :: "bool \<Rightarrow> md5ctx \<Rightarrow> md5ctx" where
  "append_colon be ctx = aug_appendmd5 be ctx [58]"

definition aug_strcasecmp :: "byte list \<Rightarrow> byte list \<Rightarrow> bool" where
  "aug_strcasecmp a b \<longleftrightarrow> map tolower a = map tolower b"

definition md5_sess :: "byte list" where "md5_sess = [109, 100, 53, 45, 115, 101, 115, 115]"
definition auth_int :: "byte list" where "auth_int = [97, 117, 116, 104, 45, 105, 110, 116]"

definition aug_digestha1 ::
  "bool \<Rightarrow> byte list \<Rightarrow> byte list \<Rightarrow> byte list \<Rightarrow> byte list \<Rightarrow> byte list \<Rightarrow> byte list \<Rightarrow> byte list \<Rightarrow> byte list \<Rightarrow> byte list" where
  "aug_digestha1 be j1 j2 alg username realm password nonce cnonce =
     (let ctx = aug_initmd5 j1;
          ctx = append_string be username ctx;
          ctx = append_colon be ctx;
          ctx = append_string be realm ctx;
          ctx = append_colon be ctx;
          ctx = append_string be password ctx;
          ha1 = aug_finishmd5 be ctx;
          ha1 = (if aug_strcasecmp alg md5_sess then
                   let ctx = aug_initmd5 j2;
                       ctx = aug_appendmd5 be ctx (take 16 ha1);
                       ctx = append_colon be ctx;
                       ctx = append_string be nonce ctx;
                       ctx = append_colon be ctx;
                       ctx = append_string be cnonce ctx
                   in aug_finishmd5 be ctx
                 else ha1)
      in aug_md5base64 ha1)"

text \<open>\<open>ha1\<close> and \<open>hentity\<close> are arrays of \<^verbatim>\<open>AUG_MD5BASE64LEN\<close> characters.\<close>

definition AUG_MD5BASE64LEN :: nat where "AUG_MD5BASE64LEN = 32"

definition aug_digestresponse ::
  "bool \<Rightarrow> byte list \<Rightarrow> byte list \<Rightarrow> byte list \<Rightarrow> byte list \<Rightarrow> byte list \<Rightarrow> byte list \<Rightarrow> byte list \<Rightarrow> byte list \<Rightarrow> byte list
    \<Rightarrow> byte list \<Rightarrow> byte list" where
  "aug_digestresponse be j1 j2 ha1 nonce nc cnonce qop meth uri hentity =
     (let ctx = aug_initmd5 j1;
          ctx = append_string be meth ctx;
          ctx = append_colon be ctx;
          ctx = append_string be uri ctx;
          ctx = (if aug_strcasecmp qop auth_int then
                   let ctx = append_colon be ctx
                   in aug_appendmd5 be ctx (take AUG_MD5BASE64LEN hentity)
                 else ctx);
          ha2 = aug_finishmd5 be ctx;
          ha2base64 = aug_md5base64 ha2;
          ctx = aug_initmd5 j2;
          ctx = aug_appendmd5 be ctx (take AUG_MD5BASE64LEN ha1);
          ctx = append_colon be ctx;
          ctx = append_string be nonce ctx;
          ctx = append_colon be ctx;
          ctx = (if qop \<noteq> [] then
                   let ctx = append_string be nc ctx;
                       ctx = append_colon be ctx;
                       ctx = append_string be cnonce ctx;
                       ctx = append_colon be ctx;
                       ctx = append_string be qop ctx
                   in append_colon be ctx
                 else ctx);
          ctx = aug_appendmd5 be ctx (take AUG_MD5BASE64LEN ha2base64)
      in aug_md5base64 (aug_finishmd5 be ctx))"

section \<open>RFC 2617\<close>

text \<open>Texts joined by colons, and the hash of them in lower-case hexadecimal digits.\<close>

fun colons :: "byte list list \<Rightarrow> byte list" where
  "colons [] = []"
| "colons [s] = s"
| "colons (s # t # ss) = s @ 58 # colons (t # ss)"

definition hash :: "byte list \<Rightarrow> byte list" where "hash s = aug_md5base64 (rfc_md5 s)"

definition rfc_ha1 :: "bool \<Rightarrow> byte list \<Rightarrow> byte list \<Rightarrow> byte list \<Rightarrow> byte list \<Rightarrow> byte list \<Rightarrow> byte list" where
  "rfc_ha1 session username realm password nonce cnonce =
     (if session then hash (colons [rfc_md5 (colons [username, realm, password]), nonce, cnonce])
      else hash (colons [username, realm, password]))"

definition rfc_response ::
  "byte list \<Rightarrow> byte list \<Rightarrow> byte list \<Rightarrow> byte list \<Rightarrow> byte list \<Rightarrow> byte list \<Rightarrow> byte list \<Rightarrow> byte list option \<Rightarrow> byte list" where
  "rfc_response ha1 nonce nc cnonce qop meth uri entity =
     (let ha2 = hash (colons ([meth, uri] @ (case entity of None \<Rightarrow> [] | Some h \<Rightarrow> [h])))
      in hash (colons ([ha1, nonce] @ (if qop = [] then [] else [nc, cnonce, qop]) @ [ha2])))"

section \<open>The digests are those of the RFC\<close>

definition short_text :: "byte list \<Rightarrow> bool" where "short_text s \<longleftrightarrow> length s < 2 ^ 32"

lemma fed_string: "fed ctx msg \<Longrightarrow> short_text s \<Longrightarrow> fed (append_string be s ctx) (msg @ s)"
  by (simp add: append_string_def short_text_def fed_append)

lemma fed_colon: "fed ctx msg \<Longrightarrow> fed (append_colon be ctx) (msg @ [58])"
  by (simp add: append_colon_def fed_append)

lemma length_rfc_md5: "length (rfc_md5 m) = 16"
  by (simp add: rfc_md5_def state_memory_def split: prod.splits)

lemma length_hash: "length (hash m) = 32"
  by (simp add: hash_def aug_md5base64_def Let_def length_concat comp_def sum_list_triv)

lemma fed_16: "fed ctx msg \<Longrightarrow> fed (aug_appendmd5 be ctx (take 16 (rfc_md5 m))) (msg @ rfc_md5 m)"
  by (simp add: fed_append length_rfc_md5)

lemma fed_32: "fed ctx msg \<Longrightarrow> length h = AUG_MD5BASE64LEN \<Longrightarrow> fed (aug_appendmd5 be ctx (take AUG_MD5BASE64LEN h)) (msg @ h)"
  by (simp add: fed_append AUG_MD5BASE64LEN_def)

lemmas feeds = fed_init fed_string fed_colon fed_16 fed_32

text \<open>
  The first digest is that of RFC 2617.  For texts of any length the argument's type can tell, on hosts
  of either byte order, \<^verbatim>\<open>aug_digestha1\<close> is the hash of user, realm and password joined by
  colons; with the algorithm ``md5-sess'', in any case of letters, it is the hash of that digest, the nonce and
  the client's nonce.
\<close>
theorem digestha1_rfc:
  assumes "length j1 = 64" "length j2 = 64" "\<forall>s \<in> {username, realm, password, nonce, cnonce}. short_text s"
  shows "aug_digestha1 be j1 j2 alg username realm password nonce cnonce
    = rfc_ha1 (map tolower alg = md5_sess) username realm password nonce cnonce"
proof -
  let ?c = "append_string be password (append_colon be (append_string be realm (append_colon be
      (append_string be username (aug_initmd5 j1)))))"
  have "fed ?c ((((([] @ username) @ [58]) @ realm) @ [58]) @ password)"
    using assms by (intro feeds) auto
  from fed_finish [OF this] have a1: "aug_finishmd5 be ?c = rfc_md5 (colons [username, realm, password])" by simp
  let ?a = "rfc_md5 (colons [username, realm, password])"
  let ?d = "append_string be cnonce (append_colon be (append_string be nonce (append_colon be
      (aug_appendmd5 be (aug_initmd5 j2) (take 16 ?a)))))"
  have "fed ?d ((((([] @ ?a) @ [58]) @ nonce) @ [58]) @ cnonce)"
    using assms by (intro feeds) auto
  from fed_finish [OF this] have d: "aug_finishmd5 be ?d = rfc_md5 (colons [?a, nonce, cnonce])" by simp
  have "map tolower md5_sess = md5_sess" by (simp add: md5_sess_def tolower_def)
  then show ?thesis
    using a1 d by (simp add: aug_digestha1_def Let_def aug_strcasecmp_def rfc_ha1_def hash_def)
qed

text \<open>
  C34: The response is that of RFC 2617.  For texts of any length the argument's type can tell, it is the hash of
  the first digest, the nonce, with a quality of protection also its count, the client's nonce and the
  quality, and the hash of the method and the location, with the hash of the entity for ``auth-int''.
\<close>
theorem digestresponse_rfc:
  assumes "length j1 = 64" "length j2 = 64" "length ha1 = AUG_MD5BASE64LEN" "length hentity = AUG_MD5BASE64LEN"
    and "\<forall>s \<in> {nonce, nc, cnonce, qop, meth, uri}. short_text s"
  shows "aug_digestresponse be j1 j2 ha1 nonce nc cnonce qop meth uri hentity
    = rfc_response ha1 nonce nc cnonce qop meth uri (if map tolower qop = auth_int then Some hentity else None)"
proof -
  let ?m = "append_string be uri (append_colon be (append_string be meth (aug_initmd5 j1)))"
  let ?e = "aug_appendmd5 be (append_colon be ?m) (take AUG_MD5BASE64LEN hentity)"
  have m: "fed ?m ((([] @ meth) @ [58]) @ uri)" using assms by (intro feeds) auto
  have e: "fed ?e ((((([] @ meth) @ [58]) @ uri) @ [58]) @ hentity)" using assms by (intro feeds) auto
  define h where "h = hash (colons ([meth, uri] @ (if map tolower qop = auth_int then [hentity] else [])))"
  have low: "map tolower auth_int = auth_int" by (simp add: auth_int_def tolower_def)
  have ha2: "aug_md5base64 (aug_finishmd5 be (if aug_strcasecmp qop auth_int then ?e else ?m)) = h"
    using fed_finish [OF m, of be] fed_finish [OF e, of be] low by (simp add: aug_strcasecmp_def hash_def h_def)
  have h: "length h = AUG_MD5BASE64LEN" by (simp only: h_def length_hash AUG_MD5BASE64LEN_def)
  let ?n = "append_colon be (append_string be nonce (append_colon be (aug_appendmd5 be (aug_initmd5 j2) (take AUG_MD5BASE64LEN ha1))))"
  let ?q = "append_colon be (append_string be qop (append_colon be (append_string be cnonce (append_colon be (append_string be nc ?n)))))"
  have n: "fed ?n (((([] @ ha1) @ [58]) @ nonce) @ [58])" using assms by (intro feeds) auto
  have q: "fed ?q (((((((((([] @ ha1) @ [58]) @ nonce) @ [58]) @ nc) @ [58]) @ cnonce) @ [58]) @ qop) @ [58])"
    using assms by (intro feeds) auto
  have r: "aug_finishmd5 be (aug_appendmd5 be (if qop \<noteq> [] then ?q else ?n) (take AUG_MD5BASE64LEN h))
    = rfc_md5 (colons ([ha1, nonce] @ (if qop = [] then [] else [nc, cnonce, qop]) @ [h]))"
    using fed_finish [OF fed_32 [OF q h], of be be] fed_finish [OF fed_32 [OF n h], of be be] by simp
  have "aug_digestresponse be j1 j2 ha1 nonce nc cnonce qop meth uri hentity
    = aug_md5base64 (aug_finishmd5 be (aug_appendmd5 be (if qop \<noteq> [] then ?q else ?n)
        (take AUG_MD5BASE64LEN (aug_md5base64 (aug_finishmd5 be (if aug_strcasecmp qop auth_int then ?e else ?m))))))"
    unfolding aug_digestresponse_def Let_def ..
  also have "\<dots> = hash (colons ([ha1, nonce] @ (if qop = [] then [] else [nc, cnonce, qop]) @ [h]))"
    unfolding ha2 r hash_def ..
  finally show ?thesis unfolding rfc_response_def Let_def h_def by (cases "map tolower qop = auth_int") simp_all
qed

text \<open>The example of the RFC.\<close>

definition mufasa :: "byte list list" where
  "mufasa = map str [''Mufasa'', ''testrealm@host.com'', ''Circle Of Life'',
     ''dcd98b7102dd2f0e8b11d0f600bfb0c093'', ''0a4f113b'', ''00000001'', ''auth'', ''GET'', ''/dir/index.html'']"

lemma rfc_ha1_example:
  "rfc_ha1 False (mufasa ! 0) (mufasa ! 1) (mufasa ! 2) (mufasa ! 3) (mufasa ! 4) = str ''939e7578ed9e3c518a452acee763bce9''"
  by code_simp

lemma digestha1_rfc_witness:
  "aug_digestha1 True (replicate 64 1) (replicate 64 2) (str ''MD5'') (mufasa ! 0) (mufasa ! 1) (mufasa ! 2) (mufasa ! 3) (mufasa ! 4)
    = str ''939e7578ed9e3c518a452acee763bce9''"
proof -
  have "\<forall>s \<in> {mufasa ! 0, mufasa ! 1, mufasa ! 2, mufasa ! 3, mufasa ! 4}. short_text s"
    by (simp add: mufasa_def short_text_def str_def)
  from digestha1_rfc [OF _ _ this, of "replicate 64 1" "replicate 64 2" True "str ''MD5''"]
  show ?thesis using rfc_ha1_example by (simp add: md5_sess_def str_def)
qed

lemma digestresponse_rfc_witness:
  "aug_digestresponse False (replicate 64 1) (replicate 64 2) (str ''939e7578ed9e3c518a452acee763bce9'')
      (mufasa ! 3) (mufasa ! 5) (mufasa ! 4) (mufasa ! 6) (mufasa ! 7) (mufasa ! 8) (replicate 32 0)
    = (let h = \<lambda>ss. aug_md5base64 (rfc_md5 (colons ss))
       in h [str ''939e7578ed9e3c518a452acee763bce9'', mufasa ! 3, mufasa ! 5, mufasa ! 4, mufasa ! 6, h [mufasa ! 7, mufasa ! 8]])"
proof -
  have "\<forall>s \<in> {mufasa ! 3, mufasa ! 5, mufasa ! 4, mufasa ! 6, mufasa ! 7, mufasa ! 8}. short_text s"
    by (simp add: mufasa_def short_text_def str_def)
  from digestresponse_rfc [OF _ _ _ _ this, of "replicate 64 1" "replicate 64 2" "str ''939e7578ed9e3c518a452acee763bce9''"
      "replicate 32 0" False]
  show ?thesis by (simp add: auth_int_def mufasa_def str_def AUG_MD5BASE64LEN_def tolower_def rfc_response_def hash_def Let_def)
qed

text \<open>A user's name with a colon has the digest of another user in another realm.\<close>

lemma colon_ambiguous:
  "rfc_ha1 session (u @ 58 # v) realm password nonce cnonce = rfc_ha1 session u (v @ 58 # realm) password nonce cnonce"
  by (simp add: rfc_ha1_def)

end
