(* ===== verification/Object.thy ===== *)
theory Object
  imports Prelude
begin

text \<open>
  \<^verbatim>\<open>augutil/object.c\<close>: integers, pointers and blobs as counted objects, and the unpacking of an
  array of arguments by a signature.  Objects live in a heap of addresses; an operation on an address
  without an object is undefined (\<open>None\<close>).  The destructors a user gave are recorded as they are called.

  \<open>objects_released_once\<close> shows the count of references of every object to be what its users hold;
  \<open>unpackargs_ok\<close> shows which arrays a signature accepts and that no reference is lost on a failure.
\<close>

section \<open>Boxes and blobs\<close>

datatype iface = ObjectI | BoxintI | BoxptrI | BlobI | OtherI

text \<open>What a box holds, and what its destructor is called with.\<close>

datatype content = IntVal "32 word" | PtrVal nat | BufVal "byte list"

text \<open>
  \<^verbatim>\<open>struct boxintimpl_\<close>, \<^verbatim>\<open>boxptrimpl_\<close> and \<^verbatim>\<open>blobimpl_\<close>: the count, whether there is a destructor,
  and the content.  \<^verbatim>\<open>oh_pool\<close> counts the references of the memory pool.
\<close>

record impl =
  im_refs :: nat
  im_destroy :: bool
  im_content :: content

record objheap =
  oh_obj :: "nat \<Rightarrow> impl option"
  oh_pool :: int
  oh_destroyed :: "(nat \<times> content) list"

definition iface_of :: "content \<Rightarrow> iface" where
  "iface_of c = (case c of IntVal _ \<Rightarrow> BoxintI | PtrVal _ \<Rightarrow> BoxptrI | BufVal _ \<Rightarrow> BlobI)"

definition ob_retain :: "nat \<Rightarrow> objheap \<Rightarrow> objheap option" where
  "ob_retain a h =
     (case oh_obj h a of
        None \<Rightarrow> None
      | Some im \<Rightarrow> Some (h\<lparr>oh_obj := (oh_obj h)(a \<mapsto> im\<lparr>im_refs := im_refs im + 1\<rparr>)\<rparr>))"

text \<open>The last reference calls the destructor and frees the object, then gives back the pool.\<close>

definition ob_release :: "nat \<Rightarrow> objheap \<Rightarrow> objheap option" where
  "ob_release a h =
     (case oh_obj h a of
        None \<Rightarrow> None
      | Some im \<Rightarrow>
          if im_refs im = 1 then
            Some (h\<lparr>oh_obj := (oh_obj h)(a := None), oh_pool := oh_pool h - 1,
                    oh_destroyed := oh_destroyed h @ (if im_destroy im then [(a, im_content im)] else [])\<rparr>)
          else Some (h\<lparr>oh_obj := (oh_obj h)(a \<mapsto> im\<lparr>im_refs := im_refs im - 1\<rparr>)\<rparr>))"

definition ob_cast :: "nat \<Rightarrow> iface \<Rightarrow> objheap \<Rightarrow> (bool \<times> objheap) option" where
  "ob_cast a i h =
     (case oh_obj h a of
        None \<Rightarrow> None
      | Some im \<Rightarrow>
          if i = ObjectI \<or> i = iface_of (im_content im) then map_option (Pair True) (ob_retain a h)
          else Some (False, h))"

definition ob_unbox :: "nat \<Rightarrow> objheap \<Rightarrow> content option" where
  "ob_unbox a h = map_option im_content (oh_obj h a)"

text \<open>A new object at a free address \<open>a\<close>, when there is memory for it.\<close>

definition ob_create :: "bool \<Rightarrow> nat \<Rightarrow> content \<Rightarrow> bool \<Rightarrow> objheap \<Rightarrow> (nat option \<times> objheap) option" where
  "ob_create mem a c destroy h =
     (if oh_obj h a \<noteq> None then None
      else if \<not> mem then Some (None, h)
      else Some (Some a, h\<lparr>oh_obj := (oh_obj h)(a \<mapsto> \<lparr>im_refs = 1, im_destroy = destroy, im_content = c\<rparr>),
                           oh_pool := oh_pool h + 1\<rparr>))"

definition aug_createboxint :: "bool \<Rightarrow> nat \<Rightarrow> 32 word \<Rightarrow> bool \<Rightarrow> objheap \<Rightarrow> (nat option \<times> objheap) option" where
  "aug_createboxint mem a i destroy = ob_create mem a (IntVal i) destroy"

definition aug_createboxptr :: "bool \<Rightarrow> nat \<Rightarrow> nat \<Rightarrow> bool \<Rightarrow> objheap \<Rightarrow> (nat option \<times> objheap) option" where
  "aug_createboxptr mem a p destroy = ob_create mem a (PtrVal p) destroy"

text \<open>The memory of a blob is its data and an end of text that its size does not count.\<close>

definition aug_createblob :: "bool \<Rightarrow> nat \<Rightarrow> byte list \<Rightarrow> objheap \<Rightarrow> (nat option \<times> objheap) option" where
  "aug_createblob mem a buf = ob_create mem a (BufVal (buf @ [0])) False"

definition getblobsize :: "nat \<Rightarrow> objheap \<Rightarrow> nat option" where
  "getblobsize a h = (case ob_unbox a h of Some (BufVal b) \<Rightarrow> Some (length b - 1) | _ \<Rightarrow> None)"

definition getblobdata :: "nat \<Rightarrow> objheap \<Rightarrow> (byte list \<times> nat) option" where
  "getblobdata a h = (case ob_unbox a h of Some (BufVal b) \<Rightarrow> Some (b, length b - 1) | _ \<Rightarrow> None)"

text \<open>The value of an object that may be no box: a null address or another object gives zero.\<close>

definition aug_obtoi :: "nat option \<Rightarrow> objheap \<Rightarrow> (32 word \<times> objheap) option" where
  "aug_obtoi ob h =
     (case ob of
        None \<Rightarrow> Some (0, h)
      | Some a \<Rightarrow>
          (case ob_cast a BoxintI h of
             None \<Rightarrow> None
           | Some (False, h) \<Rightarrow> Some (0, h)
           | Some (True, h) \<Rightarrow>
               (case ob_unbox a h of
                  Some (IntVal i) \<Rightarrow> map_option (Pair i) (ob_release a h)
                | _ \<Rightarrow> None)))"

definition aug_obtop :: "nat option \<Rightarrow> objheap \<Rightarrow> (nat \<times> objheap) option" where
  "aug_obtop ob h =
     (case ob of
        None \<Rightarrow> Some (0, h)
      | Some a \<Rightarrow>
          (case ob_cast a BoxptrI h of
             None \<Rightarrow> None
           | Some (False, h) \<Rightarrow> Some (0, h)
           | Some (True, h) \<Rightarrow>
               (case ob_unbox a h of
                  Some (PtrVal p) \<Rightarrow> map_option (Pair p) (ob_release a h)
                | _ \<Rightarrow> None)))"

section \<open>References held\<close>

text \<open>
  A user's operations, and the ledger of the references it holds: what was made, then what was taken and
  given back.
\<close>

datatype ob_op =
    Create bool nat content bool
  | Retain nat
  | Release nat
  | Cast nat iface
  | Toi nat
  | Top nat

definition ob_exec :: "ob_op \<Rightarrow> objheap \<Rightarrow> objheap option" where
  "ob_exec opn h =
     (case opn of
        Create mem a c d \<Rightarrow> map_option snd (ob_create mem a c d h)
      | Retain a \<Rightarrow> ob_retain a h
      | Release a \<Rightarrow> ob_release a h
      | Cast a i \<Rightarrow> map_option snd (ob_cast a i h)
      | Toi a \<Rightarrow> map_option snd (aug_obtoi (Some a) h)
      | Top a \<Rightarrow> map_option snd (aug_obtop (Some a) h))"

fun ob_run :: "ob_op list \<Rightarrow> objheap \<Rightarrow> objheap option" where
  "ob_run [] h = Some h"
| "ob_run (opn # ops) h = Option.bind (ob_exec opn h) (ob_run ops)"

text \<open>Each entry of the ledger: the references held (none: the object is gone), its destructor and content.\<close>

type_synonym ledger = "(nat \<Rightarrow> (nat \<times> bool \<times> content) option) \<times> (nat \<times> content) list"

definition take_back :: "nat \<Rightarrow> ledger \<Rightarrow> ledger" where
  "take_back a L =
     (case fst L a of
        Some (n, d, c) \<Rightarrow>
          if n = 1 then ((fst L)(a := None), snd L @ (if d then [(a, c)] else []))
          else ((fst L)(a \<mapsto> (n - 1, d, c)), snd L)
      | None \<Rightarrow> L)"

text \<open>The legal operations use objects that are held, and create at free addresses.\<close>

definition legal :: "ob_op \<Rightarrow> ledger \<Rightarrow> bool" where
  "legal opn L =
     (case opn of
        Create mem a c d \<Rightarrow> fst L a = None
      | Retain a \<Rightarrow> fst L a \<noteq> None | Release a \<Rightarrow> fst L a \<noteq> None | Cast a i \<Rightarrow> fst L a \<noteq> None
      | Toi a \<Rightarrow> fst L a \<noteq> None | Top a \<Rightarrow> fst L a \<noteq> None)"

definition one_more :: "nat \<Rightarrow> ledger \<Rightarrow> ledger" where
  "one_more a L = ((fst L)(a := map_option (\<lambda>(n, r). (n + 1, r)) (fst L a)), snd L)"

definition account :: "ob_op \<Rightarrow> ledger \<Rightarrow> ledger" where
  "account opn L =
     (case opn of
        Create mem a c d \<Rightarrow> if mem then ((fst L)(a \<mapsto> (1, d, c)), snd L) else L
      | Retain a \<Rightarrow> one_more a L
      | Release a \<Rightarrow> take_back a L
      | Cast a i \<Rightarrow>
          (case fst L a of
             Some (n, d, c) \<Rightarrow> if i = ObjectI \<or> i = iface_of c then one_more a L else L
           | None \<Rightarrow> L)
      | Toi a \<Rightarrow> L
      | Top a \<Rightarrow> L)"

fun legal_run :: "ob_op list \<Rightarrow> ledger \<Rightarrow> bool" where
  "legal_run [] L = True"
| "legal_run (opn # ops) L = (legal opn L \<and> legal_run ops (account opn L))"

definition balance :: "ob_op list \<Rightarrow> ledger" where
  "balance ops = fold account ops (Map.empty, [])"

definition empty_heap :: objheap where
  "empty_heap = \<lparr>oh_obj = Map.empty, oh_pool = 0, oh_destroyed = []\<rparr>"

definition books :: "objheap \<Rightarrow> ledger \<Rightarrow> bool" where
  "books h L \<longleftrightarrow> oh_obj h = (\<lambda>a. map_option (\<lambda>(n, d, c). \<lparr>im_refs = n, im_destroy = d, im_content = c\<rparr>) (fst L a))
     \<and> (\<forall>a n r. fst L a = Some (n, r) \<longrightarrow> 0 < n)
     \<and> finite (dom (fst L)) \<and> oh_pool h = int (card (dom (fst L)))
     \<and> oh_destroyed h = snd L"

lemma card_dom_upd: "finite (dom m) \<Longrightarrow> m a = None \<Longrightarrow> card (dom (m(a \<mapsto> x))) = Suc (card (dom m))"
  by (simp add: domIff)

lemma card_dom_del: "finite (dom m) \<Longrightarrow> m a = Some x \<Longrightarrow> int (card (dom (m(a := None)))) = int (card (dom m)) - 1"
  by (simp add: domI dom_def [symmetric] card_Diff_singleton_if)
     (metis Suc_pred' card_gt_0_iff domI empty_iff of_nat_Suc add_diff_cancel_left' of_nat_1 of_nat_diff One_nat_def Suc_leI)

lemma books_retain:
  assumes "books h L" "fst L a = Some (n, d, c)"
  shows "\<exists>h'. ob_retain a h = Some h' \<and> books h' (one_more a L)"
  using assms by (auto simp: books_def ob_retain_def one_more_def insert_absorb domI split: if_splits)

lemma books_release:
  assumes "books h L" "fst L a = Some (n, d, c)"
  shows "\<exists>h'. ob_release a h = Some h' \<and> books h' (take_back a L)"
proof (cases "n = 1")
  case True
  then show ?thesis
    using assms card_dom_del [of "fst L" a] by (auto simp: books_def ob_release_def take_back_def split: if_splits)
next
  case False
  moreover have "0 < n" using assms unfolding books_def by blast
  ultimately show ?thesis
    using assms by (auto simp: books_def ob_release_def take_back_def insert_absorb domI split: if_splits)
qed

lemma one_take: "fst L a = Some (n, d, c) \<Longrightarrow> 0 < n \<Longrightarrow> take_back a (one_more a L) = L"
  by (cases L) (auto simp: take_back_def one_more_def)

lemma books_unbox: "books h L \<Longrightarrow> fst L a = Some (n, d, c) \<Longrightarrow> ob_unbox a h = Some c \<and> 0 < n"
  by (auto simp: books_def ob_unbox_def)

lemma books_cast:
  assumes "books h L" "fst L a = Some (n, d, c)"
  shows "\<exists>h'. ob_cast a i h = Some (i = ObjectI \<or> i = iface_of c, h')
    \<and> books h' (if i = ObjectI \<or> i = iface_of c then one_more a L else L)"
proof -
  have "\<exists>im. oh_obj h a = Some im \<and> im_content im = c" using assms by (auto simp: books_def)
  then show ?thesis using books_retain [OF assms] assms(1) by (auto simp: ob_cast_def)
qed

lemma one_more_entry: "fst L a = Some (n, d, c) \<Longrightarrow> fst (one_more a L) a = Some (n + 1, d, c)"
  by (simp add: one_more_def)

text \<open>Reading a value takes a reference and gives it back.\<close>

lemma books_obtoi:
  assumes "books h L" "fst L a = Some (n, d, c)"
  shows "\<exists>h'. aug_obtoi (Some a) h = Some (case c of IntVal i \<Rightarrow> i | _ \<Rightarrow> 0, h') \<and> books h' L"
proof -
  obtain h1 where h1: "ob_cast a BoxintI h = Some (BoxintI = iface_of c, h1)" "books h1 (if BoxintI = iface_of c then one_more a L else L)"
    using books_cast [OF assms, of BoxintI] by auto
  show ?thesis
  proof (cases c)
    case (IntVal i)
    then have b: "books h1 (one_more a L)" using h1(2) by (simp add: iface_of_def)
    obtain h2 where "ob_release a h1 = Some h2" "books h2 (take_back a (one_more a L))"
      using books_release [OF b one_more_entry [OF assms(2)]] by blast
    then show ?thesis
      using h1(1) IntVal books_unbox [OF b one_more_entry [OF assms(2)]] one_take [OF assms(2)] books_unbox [OF assms]
      by (auto simp: aug_obtoi_def iface_of_def)
  qed (use h1 in \<open>auto simp: aug_obtoi_def iface_of_def\<close>)
qed

lemma books_obtop:
  assumes "books h L" "fst L a = Some (n, d, c)"
  shows "\<exists>h'. aug_obtop (Some a) h = Some (case c of PtrVal p \<Rightarrow> p | _ \<Rightarrow> 0, h') \<and> books h' L"
proof -
  obtain h1 where h1: "ob_cast a BoxptrI h = Some (BoxptrI = iface_of c, h1)" "books h1 (if BoxptrI = iface_of c then one_more a L else L)"
    using books_cast [OF assms, of BoxptrI] by auto
  show ?thesis
  proof (cases c)
    case (PtrVal p)
    then have b: "books h1 (one_more a L)" using h1(2) by (simp add: iface_of_def)
    obtain h2 where "ob_release a h1 = Some h2" "books h2 (take_back a (one_more a L))"
      using books_release [OF b one_more_entry [OF assms(2)]] by blast
    then show ?thesis
      using h1(1) PtrVal books_unbox [OF b one_more_entry [OF assms(2)]] one_take [OF assms(2)] books_unbox [OF assms]
      by (auto simp: aug_obtop_def iface_of_def)
  qed (use h1 in \<open>auto simp: aug_obtop_def iface_of_def\<close>)
qed

lemma books_create:
  assumes "books h L" "fst L a = None"
  shows "\<exists>h'. map_option snd (ob_create mem a c d h) = Some h' \<and> books h' (account (Create mem a c d) L)"
  using assms card_dom_upd [of "fst L" a "(1, d, c)"]
  by (cases mem) (auto simp: books_def ob_create_def account_def)

lemma books_step:
  assumes "books h L" "legal opn L"
  shows "\<exists>h'. ob_exec opn h = Some h' \<and> books h' (account opn L)"
proof (cases opn)
  case (Create mem a c d)
  then show ?thesis using assms books_create [of h L a mem c d] by (simp add: ob_exec_def legal_def)
next
  case (Retain a)
  then show ?thesis using assms books_retain by (fastforce simp: ob_exec_def legal_def account_def)
next
  case (Release a)
  then show ?thesis using assms books_release by (fastforce simp: ob_exec_def legal_def account_def)
next
  case (Cast a i)
  then obtain n d c where e: "fst L a = Some (n, d, c)" using assms(2) by (auto simp: legal_def)
  then show ?thesis using books_cast [OF assms(1) e, of i] Cast by (auto simp: ob_exec_def account_def)
next
  case (Toi a)
  then obtain n d c where e: "fst L a = Some (n, d, c)" using assms(2) by (auto simp: legal_def)
  then show ?thesis using books_obtoi [OF assms(1) e] Toi by (auto simp: ob_exec_def account_def)
next
  case (Top a)
  then obtain n d c where e: "fst L a = Some (n, d, c)" using assms(2) by (auto simp: legal_def)
  then show ?thesis using books_obtop [OF assms(1) e] Top by (auto simp: ob_exec_def account_def)
qed

lemma books_run:
  "books h L \<Longrightarrow> legal_run ops L \<Longrightarrow> \<exists>h'. ob_run ops h = Some h' \<and> books h' (fold account ops L)"
proof (induction ops arbitrary: h L)
  case (Cons opn ops)
  obtain h1 where "ob_exec opn h = Some h1" "books h1 (account opn L)"
    using books_step [OF Cons.prems(1)] Cons.prems(2) by auto
  with Cons.IH [OF this(2)] Cons.prems(2) show ?case by simp
qed simp

lemma books_empty: "books empty_heap (Map.empty, [])"
  by (simp add: books_def empty_heap_def)

text \<open>
  C32: Objects live as long as they are held, and are destroyed once.  Whatever a user does with objects it
  holds references of, no operation touches a freed object; every object's count is the number of references held, the memory
  pool has one reference for each object, and the destructors called are those of the objects whose last
  reference was given back, in that order, each once with its content.
\<close>
theorem objects_released_once:
  assumes "legal_run ops (Map.empty, [])"
  shows "\<exists>h. ob_run ops empty_heap = Some h
    \<and> (\<forall>a. map_option im_refs (oh_obj h a) = map_option fst (fst (balance ops) a))
    \<and> oh_pool h = int (card (dom (fst (balance ops))))
    \<and> oh_destroyed h = snd (balance ops)"
proof -
  obtain h where "ob_run ops empty_heap = Some h" "books h (balance ops)"
    using books_run [OF books_empty assms] by (auto simp: balance_def)
  then show ?thesis
    by (auto simp: books_def option.map_comp comp_def case_prod_unfold)
qed

lemma objects_released_once_witness:
  "let ops = [Create True 1 (IntVal 5) True, Create False 2 (PtrVal 9) False, Cast 1 BoxintI, Release 1, Cast 1 BlobI, Toi 1, Release 1] in
   \<exists>h. ob_run ops empty_heap = Some h
    \<and> (\<forall>a. map_option im_refs (oh_obj h a) = map_option fst (fst (balance ops) a))
    \<and> oh_pool h = int (card (dom (fst (balance ops))))
    \<and> oh_destroyed h = snd (balance ops) \<and> snd (balance ops) = [(1, IntVal 5)]"
proof -
  let ?ops = "[Create True 1 (IntVal 5) True, Create False 2 (PtrVal 9) False, Cast 1 BoxintI, Release 1, Cast 1 BlobI, Toi 1, Release 1]"
  have "legal_run ?ops (Map.empty, [])"
    by (simp add: legal_def account_def one_more_def take_back_def iface_of_def)
  moreover have "snd (balance ?ops) = [(1, IntVal 5)]"
    by (simp add: balance_def account_def one_more_def take_back_def iface_of_def)
  ultimately show ?thesis using objects_released_once [of ?ops] by (simp only: Let_def simp_thms)
qed

section \<open>Arguments\<close>

text \<open>
  \<^verbatim>\<open>struct aug_var\<close>: the type and the member of the union it names.  A double is its bits; objects, arrays,
  blobs and strings are addresses, which may be null.
\<close>

datatype aug_var =
    VNull | VInt32 "32 word" | VInt64 "64 word" | VDouble "64 word" | VBool bool
  | VObject "nat option" | VArray "nat option" | VBlob "nat option" | VString "nat option"

text \<open>\<^verbatim>\<open>AUG_VTOBJECT <= type_\<close>: the object a value refers to.\<close>

definition var_ob :: "aug_var \<Rightarrow> nat option" where
  "var_ob v = (case v of VObject p \<Rightarrow> p | VArray p \<Rightarrow> p | VBlob p \<Rightarrow> p | VString p \<Rightarrow> p | _ \<Rightarrow> None)"

text \<open>The counts of references, by address.\<close>

definition AUG_RETAINVAR :: "aug_var \<Rightarrow> (nat \<Rightarrow> int) \<Rightarrow> nat \<Rightarrow> int" where
  "AUG_RETAINVAR v refs = (case var_ob v of None \<Rightarrow> refs | Some a \<Rightarrow> refs(a := refs a + 1))"

definition AUG_RELEASEVAR :: "aug_var \<Rightarrow> (nat \<Rightarrow> int) \<Rightarrow> nat \<Rightarrow> int" where
  "AUG_RELEASEVAR v refs = (case var_ob v of None \<Rightarrow> refs | Some a \<Rightarrow> refs(a := refs a - 1))"

text \<open>
  The switch on a character of the signature: whether the value's type is right (\<open>None\<close> for an error) and whether the
  value is stored through the next argument.  A character that is not in the switch takes any value and
  stores none.
\<close>

definition verify_type :: "byte \<Rightarrow> aug_var \<Rightarrow> bool option" where
  "verify_type c v =
     (if c = 118 then Some True
      else if c = 105 then (case v of VInt32 _ \<Rightarrow> Some True | _ \<Rightarrow> None)
      else if c = 108 then (case v of VInt64 _ \<Rightarrow> Some True | _ \<Rightarrow> None)
      else if c = 100 then (case v of VDouble _ \<Rightarrow> Some True | _ \<Rightarrow> None)
      else if c = 98 then (case v of VBool _ \<Rightarrow> Some True | _ \<Rightarrow> None)
      else if c = 79 then (case v of VObject _ \<Rightarrow> Some True | _ \<Rightarrow> None)
      else if c = 65 then (case v of VArray _ \<Rightarrow> Some True | _ \<Rightarrow> None)
      else if c = 66 then (case v of VBlob _ \<Rightarrow> Some True | _ \<Rightarrow> None)
      else if c = 83 then (case v of VString _ \<Rightarrow> Some True | _ \<Rightarrow> None)
      else Some False)"

text \<open>The unwinding of the \<open>i\<close> values unpacked so far, in their order.\<close>

definition unwind_all :: "aug_var list \<Rightarrow> (nat \<Rightarrow> int) \<Rightarrow> nat \<Rightarrow> int" where
  "unwind_all vs refs = fold AUG_RELEASEVAR vs refs"

text \<open>
  The loop: \<open>argc\<close> values are left, \<open>done\<close> are unpacked (\<open>i\<close> is their number) and \<open>outs\<close> stored.
  \<open>getv\<close> is \<^verbatim>\<open>aug_getarrayvalue\<close>, which gives a reference with a value.
\<close>

fun unpack_loop ::
  "(nat \<Rightarrow> aug_fail + aug_var) \<Rightarrow> nat \<Rightarrow> byte list \<Rightarrow> aug_var list \<Rightarrow> aug_var list \<Rightarrow> (nat \<Rightarrow> int)
    \<Rightarrow> (aug_fail + aug_var list) \<times> (nat \<Rightarrow> int)" where
  "unpack_loop getv 0 sig got outs refs =
     (if sig = [] then (Inr outs, refs) else (Inl (ExError EINVAL), unwind_all got refs))"
| "unpack_loop getv (Suc argc) sig got outs refs =
     (case getv (length got) of
        Inl e \<Rightarrow> (Inl e, unwind_all got refs)
      | Inr v \<Rightarrow>
          let refs = AUG_RETAINVAR v refs; got = got @ [v] in
          case sig of
            [] \<Rightarrow> (Inl (ExError EINVAL), unwind_all got refs)
          | c # sig \<Rightarrow>
              (case verify_type c v of
                 None \<Rightarrow> (Inl (ExError EINVAL), unwind_all got refs)
               | Some st \<Rightarrow> unpack_loop getv argc sig got (if st then outs @ [v] else outs) refs))"

definition aug_vunpackargs ::
  "(nat \<Rightarrow> aug_fail + aug_var) \<Rightarrow> nat \<Rightarrow> byte list \<Rightarrow> (nat \<Rightarrow> int) \<Rightarrow> (aug_fail + aug_var list) \<times> (nat \<Rightarrow> int)" where
  "aug_vunpackargs getv argc sig refs = unpack_loop getv argc sig [] [] refs"

text \<open>What the switch accepts, and what is stored.\<close>

definition switch_accepts :: "byte list \<Rightarrow> aug_var list \<Rightarrow> bool" where
  "switch_accepts sig vs = list_all2 (\<lambda>c v. verify_type c v \<noteq> None) sig vs"

definition switch_stored :: "byte list \<Rightarrow> aug_var list \<Rightarrow> aug_var list" where
  "switch_stored sig vs = map snd (filter (\<lambda>(c, v). verify_type c v = Some True) (zip sig vs))"

definition holding :: "aug_var list \<Rightarrow> (nat \<Rightarrow> int) \<Rightarrow> nat \<Rightarrow> int" where
  "holding vs refs a = refs a + int (length (filter (\<lambda>v. var_ob v = Some a) vs))"

lemma holding_nil [simp]: "holding [] refs = refs"
  by (rule ext) (simp add: holding_def)

lemma holding_snoc: "AUG_RETAINVAR v (holding vs refs) = holding (vs @ [v]) refs"
  by (auto simp: AUG_RETAINVAR_def holding_def fun_eq_iff split: option.splits)

lemma unwind_holding: "unwind_all vs (holding vs refs) = refs"
proof (induction vs arbitrary: refs)
  case (Cons v vs)
  have "AUG_RELEASEVAR v (holding (v # vs) refs) = holding vs refs"
    by (auto simp: AUG_RELEASEVAR_def holding_def fun_eq_iff split: option.splits)
  then show ?case using Cons.IH by (simp add: unwind_all_def)
qed (simp add: unwind_all_def)

lemma unpack_fails:
  "fst (unpack_loop getv n sig got outs (holding got refs)) = Inl e \<Longrightarrow>
   snd (unpack_loop getv n sig got outs (holding got refs)) = refs"
proof (induction n arbitrary: sig got outs)
  case (Suc n sig got outs)
  note IH = Suc.IH [of _ "got @ [v]" for v]
  show ?case using Suc.prems IH
    by (cases "getv (length got)"; cases sig)
       (auto simp: Let_def holding_snoc unwind_holding split: option.splits if_splits)
qed (simp add: unwind_holding split: if_splits)

lemma unpack_succeeds:
  "unpack_loop getv n sig got outs (holding got refs) = (Inr res, refs') \<longleftrightarrow>
   (\<exists>vs. length vs = n \<and> (\<forall>i < n. getv (length got + i) = Inr (vs ! i)) \<and> switch_accepts sig vs
     \<and> res = outs @ switch_stored sig vs \<and> refs' = holding (got @ vs) refs)"
proof (induction n arbitrary: sig got outs)
  case 0
  then show ?case by (auto simp: switch_accepts_def switch_stored_def)
next
  case (Suc n)
  have all: "(\<forall>i < Suc n. getv (length got + i) = Inr ((v # vs) ! i))
      \<longleftrightarrow> getv (length got) = Inr v \<and> (\<forall>i < n. getv (Suc (length got) + i) = Inr (vs ! i))" for v vs
    by (auto simp: less_Suc_eq_0_disj)
  show ?case
  proof (cases "getv (length got)")
    case (Inl e)
    then show ?thesis by (auto dest: spec [of _ 0])
  next
    case (Inr v)
    have two: "(\<exists>vs. length vs = Suc n \<and> P vs) \<longleftrightarrow> (\<exists>u vs. length vs = n \<and> P (u # vs))" for P
      by (metis length_Suc_conv)
    have "getv (length got) = Inr u \<longleftrightarrow> u = v" for u using Inr by auto
    note rest = Suc.IH [of _ "got @ [v]"]
    show ?thesis
    proof (cases sig)
      case Nil
      then show ?thesis using Inr by (auto simp: Let_def switch_accepts_def two)
    next
      case (Cons c cs)
      then show ?thesis
        unfolding two all using Inr rest
        by (cases "verify_type c v") (auto simp: Let_def holding_snoc switch_accepts_def switch_stored_def)
    qed
  qed
qed

text \<open>
  The signatures as \<^verbatim>\<open>object.h\<close> lists them: a character, and the type of the argument it
  stands for.
\<close>

datatype argtype = ArgVar | ArgInt32 | ArgInt64 | ArgDouble | ArgBool | ArgObject | ArgArray | ArgBlob | ArgString

definition sig_table :: "(byte \<times> argtype) list" where
  "sig_table = zip (str ''vildbOABS'')
     [ArgVar, ArgInt32, ArgInt64, ArgDouble, ArgBool, ArgObject, ArgArray, ArgBlob, ArgString]"

fun has_type :: "argtype \<Rightarrow> aug_var \<Rightarrow> bool" where
  "has_type ArgVar v = True"
| "has_type ArgInt32 v = (\<exists>x. v = VInt32 x)"
| "has_type ArgInt64 v = (\<exists>x. v = VInt64 x)"
| "has_type ArgDouble v = (\<exists>x. v = VDouble x)"
| "has_type ArgBool v = (\<exists>x. v = VBool x)"
| "has_type ArgObject v = (\<exists>x. v = VObject x)"
| "has_type ArgArray v = (\<exists>x. v = VArray x)"
| "has_type ArgBlob v = (\<exists>x. v = VBlob x)"
| "has_type ArgString v = (\<exists>x. v = VString x)"

definition sig_known :: "byte list \<Rightarrow> bool" where
  "sig_known sig \<longleftrightarrow> (\<forall>c \<in> set sig. map_of sig_table c \<noteq> None)"

definition sig_accepts :: "byte list \<Rightarrow> aug_var list \<Rightarrow> bool" where
  "sig_accepts sig vs = list_all2 (\<lambda>c v. case map_of sig_table c of Some t \<Rightarrow> has_type t v | None \<Rightarrow> False) sig vs"

lemma table_verify:
  assumes "map_of sig_table c = Some t"
  shows "verify_type c v = (if has_type t v then Some True else None)"
proof -
  have "(c, t) \<in> set sig_table"
    using assms by (rule map_of_SomeD)
  then show ?thesis
    by (cases v) (auto simp: sig_table_def str_def verify_type_def)
qed

lemma switch_table:
  assumes "sig_known sig"
  shows "switch_accepts sig vs \<longleftrightarrow> sig_accepts sig vs" "sig_accepts sig vs \<Longrightarrow> switch_stored sig vs = vs"
proof -
  have eq: "verify_type c v \<noteq> None \<longleftrightarrow> (case map_of sig_table c of Some t \<Rightarrow> has_type t v | None \<Rightarrow> False)"
    if "c \<in> set sig" for c v
  proof -
    have "map_of sig_table c \<noteq> None"
      using assms that unfolding sig_known_def by (rule bspec)
    then obtain t where "map_of sig_table c = Some t"
      by (cases "map_of sig_table c") simp_all
    then show ?thesis
      using table_verify [of c t v] by (simp del: not_None_eq)
  qed
  show "switch_accepts sig vs \<longleftrightarrow> sig_accepts sig vs"
    unfolding switch_accepts_def sig_accepts_def list_all2_conv_all_nth using eq by (metis nth_mem)
  show "switch_stored sig vs = vs" if "sig_accepts sig vs"
    using that unfolding switch_stored_def sig_accepts_def
  proof (induction rule: list_all2_induct)
    case (Cons c cs w ws)
    then show ?case
      using table_verify [of c _ w] by (auto split: option.splits)
  qed simp
qed

text \<open>
  C33: Arguments are unpacked as their signature says, and none is lost.  With a signature of the
  characters \<^verbatim>\<open>object.h\<close> lists, \<^verbatim>\<open>aug_vunpackargs\<close> succeeds just when every value can be had, there are as
  many as the signature has characters and each has the type the list gives for its character; it then
  stores all of them in order and the caller has one reference of each object among them.  On any failure
  every count of references is what it was.
\<close>
theorem unpackargs_ok:
  assumes "sig_known sig"
  shows "(aug_vunpackargs getv n sig refs = (Inr res, refs') \<longleftrightarrow>
     length res = n \<and> (\<forall>i < n. getv i = Inr (res ! i)) \<and> sig_accepts sig res \<and> refs' = holding res refs)
   \<and> (case aug_vunpackargs getv n sig refs of (Inl e, r) \<Rightarrow> r = refs | (Inr outs, r) \<Rightarrow> True)"
proof -
  have "case aug_vunpackargs getv n sig refs of (Inl e, r) \<Rightarrow> r = refs | (Inr outs, r) \<Rightarrow> True"
    using unpack_fails [of getv n sig "[]" "[]" refs] unfolding aug_vunpackargs_def by (cases "unpack_loop getv n sig [] [] refs"; cases "fst (unpack_loop getv n sig [] [] refs)") auto
  moreover have "(\<exists>vs. length vs = n \<and> (\<forall>i < n. getv (0 + i) = Inr (vs ! i)) \<and> switch_accepts sig vs
      \<and> res = [] @ switch_stored sig vs \<and> refs' = holding ([] @ vs) refs) \<longleftrightarrow>
    length res = n \<and> (\<forall>i < n. getv i = Inr (res ! i)) \<and> sig_accepts sig res \<and> refs' = holding res refs"
    (is "?L \<longleftrightarrow> ?R")
  proof
    show ?R if ?L using that switch_table [OF assms] by auto
    show ?L if ?R using that switch_table [OF assms, of res] by (intro exI [of _ res]) simp
  qed
  ultimately show ?thesis
    using unpack_succeeds [of getv n sig "[]" "[]" refs res refs'] by (simp add: aug_vunpackargs_def)
qed

lemma unpackargs_ok_witness:
  "aug_vunpackargs (\<lambda>i. Inr ([VInt32 5, VObject (Some 7)] ! i)) 2 [105, 79] (\<lambda>_. 1) = (Inr [VInt32 5, VObject (Some 7)], (\<lambda>_. 1)(7 := 2))
   \<and> aug_vunpackargs (\<lambda>i. Inr ([VInt32 5, VObject (Some 7)] ! i)) 2 [118, 83] (\<lambda>_. 1) = (Inl (ExError EINVAL), \<lambda>_. 1)"
proof -
  let ?g = "\<lambda>i. Inr ([VInt32 5, VObject (Some 7)] ! i) :: aug_fail + aug_var"
  have k: "sig_known [105, 79]" "sig_known [118, 83]" and a: "sig_accepts [105, 79] [VInt32 5, VObject (Some 7)]"
    by (simp_all add: sig_known_def sig_accepts_def sig_table_def str_def del: not_None_eq)
  have h: "holding [VInt32 5, VObject (Some 7)] (\<lambda>_. 1) = (\<lambda>_. 1)(7 := 2)"
    by (auto simp: holding_def var_ob_def fun_eq_iff)
  have "fst (aug_vunpackargs ?g 2 [118, 83] (\<lambda>_. 1)) = Inl (ExError EINVAL)"
    by code_simp
  moreover have "case aug_vunpackargs ?g 2 [118, 83] (\<lambda>_. 1) of (Inl e, r) \<Rightarrow> r = (\<lambda>_. 1) | (Inr outs, r) \<Rightarrow> True"
    by (rule conjunct2 [OF unpackargs_ok [OF k(2)]])
  ultimately have "aug_vunpackargs ?g 2 [118, 83] (\<lambda>_. 1) = (Inl (ExError EINVAL), \<lambda>_. 1)"
    by (cases "aug_vunpackargs ?g 2 [118, 83] (\<lambda>_. 1)") simp
  then show ?thesis
    using unpackargs_ok [OF k(1), of ?g 2 "\<lambda>_. 1" "[VInt32 5, VObject (Some 7)]" "(\<lambda>_. 1)(7 := 2)"] a h by simp
qed

text \<open>
  A value for a character that is not of the signature's language is neither stored nor released: its reference
  is lost.
\<close>
lemma unknown_type_leaks:
  "aug_vunpackargs (\<lambda>_. Inr (VObject (Some 7))) 1 [120] refs = (Inr [], refs(7 := refs 7 + 1))"
  by (simp add: aug_vunpackargs_def Let_def verify_type_def AUG_RETAINVAR_def var_ob_def)

end
