(* ===== verification/Path.thy ===== *)
theory Path
  imports Cstr
begin

text \<open>
  \<^verbatim>\<open>augutil/path.c\<close> on hosts with \<^verbatim>\<open>/\<close> as the only separator.  A path is the text of a C string, a
  buffer the bytes of its memory; what the system answers (environment, \<^verbatim>\<open>realpath\<close> and so on)
  is an argument.  \<open>joinpath_ok\<close> shows when a join fits and what it is, within the buffer.
\<close>

section \<open>Paths\<close>

definition IS_DIRSEP :: "byte \<Rightarrow> bool" where "IS_DIRSEP ch \<longleftrightarrow> ch = 47"

text \<open>The loop of \<^verbatim>\<open>aug_basename\<close>: \<open>base\<close> and \<open>path\<close> as positions.\<close>

fun basename_loop :: "byte list \<Rightarrow> nat \<Rightarrow> nat \<Rightarrow> nat" where
  "basename_loop [] pos base = base"
| "basename_loop (c # cs) pos base = basename_loop cs (pos + 1) (if IS_DIRSEP c then pos + 1 else base)"

definition aug_basename :: "byte list \<Rightarrow> nat" where
  "aug_basename path = basename_loop path 0 0"

text \<open>The character read at the start of an empty path is its end.\<close>

definition aug_isabs :: "byte list \<Rightarrow> bool" where
  "aug_isabs path = IS_DIRSEP ((path @ [0]) ! 0)"

text \<open>\<^verbatim>\<open>strcpy\<close> writes the end of the text as well.\<close>

definition aug_joinpath :: "byte list option \<Rightarrow> byte list \<Rightarrow> byte list \<Rightarrow> nat \<Rightarrow> ((aug_fail + unit) \<times> byte list) option" where
  "aug_joinpath dir path dst sz =
     (let pathlen = length path in
      case dir of
        Some (d # ds) \<Rightarrow>
          let dir = d # ds;
              dirlen = length dir;
              dirlen = (if IS_DIRSEP (dir ! (dirlen - 1)) then dirlen - 1 else dirlen)
          in if sz < dirlen + pathlen + 2 then Some (Inl (ExError ELIMIT), dst)
             else do {
               dst \<leftarrow> memcpy dst 0 (take dirlen dir);
               dst \<leftarrow> memcpy dst dirlen [47];
               dst \<leftarrow> memcpy dst (dirlen + 1) (path @ [0]);
               Some (Inr (), dst)
             }
      | _ \<Rightarrow>
          if sz < pathlen + 1 then Some (Inl (ExError ELIMIT), dst)
          else map_option (Pair (Inr ())) (memcpy dst 0 (path @ [0])))"

definition aug_abspath :: "byte list option \<Rightarrow> byte list \<Rightarrow> byte list \<Rightarrow> nat \<Rightarrow> ((aug_fail + unit) \<times> byte list) option" where
  "aug_abspath dir path dst sz =
     (if aug_isabs path then map_option (\<lambda>(n, dst). (Inr (), dst)) (aug_strlcpy dst path sz)
      else aug_joinpath dir path dst sz)"

section \<open>Answers of the system\<close>

definition aug_chdir :: "nat option \<Rightarrow> aug_fail + unit" where
  "aug_chdir answer = (case answer of Some num \<Rightarrow> Inl (posix_except num) | None \<Rightarrow> Inr ())"

text \<open>\<open>answer\<close> is what \<^verbatim>\<open>getcwd\<close> writes, or its error.\<close>

definition aug_getcwd :: "(byte list \<Rightarrow> nat \<Rightarrow> nat + byte list) \<Rightarrow> byte list \<Rightarrow> nat \<Rightarrow> (aug_fail + unit) \<times> byte list" where
  "aug_getcwd answer dst sz =
     (case answer dst sz of Inl num \<Rightarrow> (Inl (posix_except num), dst) | Inr dst \<Rightarrow> (Inr (), dst))"

definition aug_gethome :: "byte list option \<Rightarrow> byte list \<Rightarrow> nat \<Rightarrow> ((aug_fail + unit) \<times> byte list) option" where
  "aug_gethome home dst sz =
     (case home of
        None \<Rightarrow> Some (Inl (ExError EEXIST), dst)
      | Some home \<Rightarrow> map_option (\<lambda>(n, dst). (Inr (), dst)) (aug_strlcpy dst home sz))"

definition aug_gettmp :: "byte list \<Rightarrow> nat \<Rightarrow> ((aug_fail + unit) \<times> byte list) option" where
  "aug_gettmp dst sz = map_option (\<lambda>(n, dst). (Inr (), dst)) (aug_strlcpy dst [47, 116, 109, 112] sz)"

text \<open>
  \<open>pathconf\<close> gives the longest path or an error, \<open>stack\<close> tells whether \<^verbatim>\<open>alloca\<close> had room, \<open>realpath\<close> gives the text or an
  error.  A text longer than the longest path is written past the buffer.
\<close>

definition aug_realpath ::
  "(byte list \<Rightarrow> nat + nat) \<Rightarrow> bool \<Rightarrow> (byte list \<Rightarrow> nat + byte list) \<Rightarrow> byte list \<Rightarrow> byte list \<Rightarrow> nat
    \<Rightarrow> ((aug_fail + unit) \<times> byte list) option" where
  "aug_realpath pathconf stack realpath src dst sz =
     (case pathconf src of
        Inl num \<Rightarrow> Some (Inl (posix_except num), dst)
      | Inr pathmax \<Rightarrow>
          if \<not> stack then Some (Inl (posix_except 12), dst)
          else
            case realpath src of
              Inl num \<Rightarrow> Some (Inl (posix_except num), dst)
            | Inr buf \<Rightarrow>
                if pathmax + 1 < length buf + 1 then None
                else if sz \<le> length buf then Some (Inl (ExError ELIMIT), dst)
                else map_option (\<lambda>(n, dst). (Inr (), dst)) (aug_strlcpy dst buf sz))"

section \<open>Base names\<close>

text \<open>The text after the last separator.\<close>

definition base_text :: "byte list \<Rightarrow> byte list" where
  "base_text path = drop (aug_basename path) path"

lemma basename_loop_append:
  "basename_loop (a @ b) pos base = basename_loop b (pos + length a) (basename_loop a pos base)"
  by (induction a arbitrary: pos base) auto

lemma basename_plain: "47 \<notin> set cs \<Longrightarrow> basename_loop cs pos base = base"
  by (induction cs arbitrary: pos base) (auto simp: IS_DIRSEP_def)

lemma basename_of_split:
  assumes "47 \<notin> set cs"
  shows "base_text cs = cs" "base_text (p @ 47 # cs) = cs"
  using assms by (simp_all add: base_text_def aug_basename_def basename_loop_append basename_plain IS_DIRSEP_def)

lemma last_separator: "47 \<notin> set path \<or> (\<exists>p cs. path = p @ 47 # cs \<and> 47 \<notin> set cs)"
  by (meson split_list_last)

lemma base_text_join: "base_text (p @ 47 # q) = base_text q"
  using last_separator [of q] basename_of_split(2) [of _ "p @ 47 # _"] basename_of_split
  by (metis append.assoc append_Cons)

section \<open>Joined paths\<close>

text \<open>A separator at the end of the directory is not doubled; without a directory the path stands alone.\<close>

definition joined :: "byte list option \<Rightarrow> byte list \<Rightarrow> byte list" where
  "joined dir path =
     (case dir of
        Some (d # ds) \<Rightarrow> (if last (d # ds) = 47 then butlast (d # ds) else d # ds) @ 47 # path
      | _ \<Rightarrow> path)"

lemma poke_cat:
  "p + length ys + length zs \<le> length xs \<Longrightarrow> poke (poke xs p ys) (p + length ys) zs = poke xs p (ys @ zs)"
  by (simp add: poke_def ac_simps)

lemma joinpath_result:
  assumes "sz \<le> length dst"
  shows "aug_joinpath dir path dst sz =
    Some (if length (joined dir path) < sz then (Inr (), poke dst 0 (joined dir path @ [0])) else (Inl (ExError ELIMIT), dst))"
proof (cases "dir = None \<or> dir = Some []")
  case True
  then show ?thesis using assms by (auto simp: aug_joinpath_def joined_def Let_def)
next
  case False
  then obtain d ds where d: "dir = Some (d # ds)" by (metis list.exhaust option.exhaust)
  define t where "t = (if last (d # ds) = 47 then butlast (d # ds) else d # ds)"
  have l: "(d # ds) ! (length (d # ds) - 1) = last (d # ds)" by (simp only: last_conv_nth list.distinct not_False_eq_True)
  have t: "take (if IS_DIRSEP (last (d # ds)) then length (d # ds) - 1 else length (d # ds)) (d # ds) = t"
      "(if IS_DIRSEP (last (d # ds)) then length (d # ds) - 1 else length (d # ds)) = length t"
    by (auto simp: t_def IS_DIRSEP_def butlast_conv_take)
  have t3: "take (length t) (d # ds) = t" using t by simp
  have j: "joined dir path = t @ 47 # path" by (simp add: joined_def d t_def)
  show ?thesis
  proof (cases "sz < length t + length path + 2")
    case True
    then show ?thesis unfolding aug_joinpath_def d Let_def option.case list.case l t j [unfolded d] by simp
  next
    case False
    have "poke (poke (poke dst 0 t) (length t) [47]) (length t + 1) (path @ [0]) = poke dst 0 (t @ 47 # path @ [0])"
      using False assms poke_cat [of 0 t "[47]" dst] poke_cat [of 0 "t @ [47]" "path @ [0]" dst] by simp
    then show ?thesis using False assms unfolding aug_joinpath_def d Let_def option.case list.case l t j [unfolded d] t3 by simp
  qed
qed

text \<open>
  C35: Joining a directory and a path stays in the buffer.  For every directory, path and buffer of the
  size given, the join fails just when the text and its end do not fit, and then leaves the buffer as it
  was; otherwise the buffer begins with the joined text and its end and is unchanged behind them.  The joined path has the
  base name of the path and is absolute just when the directory is (without one, when the path is).
\<close>
theorem joinpath_ok:
  assumes "length dst = sz"
  shows "aug_joinpath dir path dst sz =
      Some (if length (joined dir path) < sz
            then (Inr (), joined dir path @ [0] @ drop (length (joined dir path) + 1) dst) else (Inl (ExError ELIMIT), dst))
    \<and> base_text (joined dir path) = base_text path
    \<and> aug_isabs (joined dir path) = aug_isabs (case dir of Some (d # ds) \<Rightarrow> d # ds | _ \<Rightarrow> path)"
proof (intro conjI)
  show "aug_joinpath dir path dst sz =
      Some (if length (joined dir path) < sz
            then (Inr (), joined dir path @ [0] @ drop (length (joined dir path) + 1) dst) else (Inl (ExError ELIMIT), dst))"
    using joinpath_result [of sz dst] assms by (simp add: poke_def)
  show "base_text (joined dir path) = base_text path"
    by (auto simp: joined_def base_text_join split: option.split list.split)
  have "IS_DIRSEP ((butlast (d # ds) @ 47 # p) ! 0) = IS_DIRSEP d" if "last (d # ds) = 47" for d ds p
    using that by (cases ds) (auto simp: IS_DIRSEP_def)
  then show "aug_isabs (joined dir path) = aug_isabs (case dir of Some (d # ds) \<Rightarrow> d # ds | _ \<Rightarrow> path)"
    by (auto simp: joined_def aug_isabs_def split: option.split list.split)
qed

lemma joinpath_ok_witness:
  "aug_joinpath (Some [47, 117, 47]) [98] [1, 2, 3, 4, 5, 6] 6 = Some (Inr (), [47, 117, 47, 98, 0, 6])"
proof -
  have "joined (Some [47, 117, 47]) [98] = [47, 117, 47, 98]" by (simp add: joined_def)
  moreover have "length [1, 2, 3, 4, 5, 6 :: byte] = 6" by simp
  ultimately show ?thesis
    using conjunct1 [OF joinpath_ok [of "[1, 2, 3, 4, 5, 6]" 6 "Some [47, 117, 47]" "[98]"]] by simp
qed

text \<open>An absolute path that does not fit is cut without an error, and the cut path is another one.\<close>

lemma abspath_cut:
  "aug_abspath (Some [47]) [47, 97, 98] [1, 2, 3] 3 = Some (Inr (), [47, 97, 0])"
  "aug_abspath (Some [47]) [97, 98] [1, 2, 3] 3 = Some (Inl (ExError ELIMIT), [1, 2, 3])"
  by (simp_all add: aug_abspath_def aug_isabs_def IS_DIRSEP_def strlcpy_fits aug_joinpath_def poke_def)

end
