(* ===== verification/Mfile.thy ===== *)
theory Mfile
  imports MarClaims
begin

text \<open>
  Archives in files: the mapped memory of \<^verbatim>\<open>augsys/posix/mmap.c\<close>, the growable mapped file of
  \<^verbatim>\<open>augmar/mfile_.c\<close>, the sequence over it of \<^verbatim>\<open>augmar/seq_.c\<close> (\<^verbatim>\<open>mfileseq_\<close>), and the two operations of
  \<^verbatim>\<open>augmar/mar.c\<close> that copy content from and to a file.

  A file is its bytes.  The mapping is shared, so its memory is the file's bytes, and the code never maps more than
  the file has.  \<open>os\<close> tells which system call fails with which \<^verbatim>\<open>errno\<close>, by its number; \<open>page\<close> is the
  size of a page; \<open>mem\<close> answers the allocator.
\<close>

section \<open>System calls and mapped memory\<close>

definition AUG_MMAPRD :: "32 word" where "AUG_MMAPRD = 1"
definition AUG_MMAPWR :: "32 word" where "AUG_MMAPWR = 2"

text \<open>\<^verbatim>\<open>struct aug_mmap\<close> and what its implementation adds; \<open>mm_addr\<close> tells whether there is an address.\<close>

record mmapimpl =
  mm_addr :: bool
  mm_len :: nat
  mm_prot :: "32 word"
  mm_size :: nat

record mfile =
  mf_file :: "byte list"
  mf_calls :: nat
  mf_flags :: "32 word"
  mf_resvd :: nat
  mf_size :: nat
  mf_mmap :: "mmapimpl option"

type_synonym osys = "nat \<Rightarrow> nat option"

definition sys_call :: "osys \<Rightarrow> mfile \<Rightarrow> aug_fail option \<times> mfile" where
  "sys_call os f = (map_option posix_except (os (mf_calls f)), f\<lparr>mf_calls := mf_calls f + 1\<rparr>)"

text \<open>\<^verbatim>\<open>ftruncate\<close> cuts the file or extends it with zeros.\<close>

definition aug_ftruncate :: "osys \<Rightarrow> mfile \<Rightarrow> nat \<Rightarrow> (aug_fail + unit) \<times> mfile" where
  "aug_ftruncate os f n =
     (case sys_call os f of
        (Some e, f) \<Rightarrow> (Inl e, f)
      | (None, f) \<Rightarrow> (Inr (), f\<lparr>mf_file := take n (mf_file f) @ replicate (n - length (mf_file f)) 0\<rparr>))"

definition aug_fsize :: "osys \<Rightarrow> mfile \<Rightarrow> (aug_fail + nat) \<times> mfile" where
  "aug_fsize os f =
     (case sys_call os f of (Some e, f) \<Rightarrow> (Inl e, f) | (None, f) \<Rightarrow> (Inr (length (mf_file f)), f))"

text \<open>\<^verbatim>\<open>PROT_READ\<close> is 1 and \<^verbatim>\<open>PROT_WRITE\<close> is 2.\<close>

definition toprot :: "32 word \<Rightarrow> aug_fail + 32 word" where
  "toprot flags =
     (if flags AND NOT (AUG_MMAPRD OR AUG_MMAPWR) \<noteq> 0 then Inl (ExError EINVAL)
      else Inr ((if flags AND AUG_MMAPRD = AUG_MMAPRD then 1 else 0) OR (if flags AND AUG_MMAPWR = AUG_MMAPWR then 2 else 0)))"

definition mm_verify :: "nat \<Rightarrow> nat \<Rightarrow> nat \<Rightarrow> nat \<Rightarrow> aug_fail option" where
  "mm_verify page sz offset len =
     (if sz = 0 \<or> sz < (offset + len) mod 2 ^ 64 then Some (ExError EINVAL)
      else if offset \<noteq> 0 \<and> offset mod page \<noteq> 0 then Some (ExError EINVAL)
      else None)"

definition createmmap :: "osys \<Rightarrow> mfile \<Rightarrow> mmapimpl \<Rightarrow> nat \<Rightarrow> nat \<Rightarrow> (aug_fail + unit) \<times> mmapimpl \<times> mfile" where
  "createmmap os f mm offset len =
     (let len = (if len = 0 then mm_size mm - offset else len) in
      case sys_call os f of
        (Some e, f) \<Rightarrow> (Inl e, mm, f)
      | (None, f) \<Rightarrow> (Inr (), mm\<lparr>mm_addr := True, mm_len := len\<rparr>, f))"

definition destroymmap :: "osys \<Rightarrow> mfile \<Rightarrow> mmapimpl \<Rightarrow> mfile" where
  "destroymmap os f mm = (if mm_addr mm then snd (sys_call os f) else f)"

definition aug_createmmap ::
  "osys \<Rightarrow> nat \<Rightarrow> bool \<Rightarrow> mfile \<Rightarrow> nat \<Rightarrow> nat \<Rightarrow> 32 word \<Rightarrow> (aug_fail + mmapimpl) \<times> mfile" where
  "aug_createmmap os page mem f offset len flags =
     (case toprot flags of
        Inl e \<Rightarrow> (Inl e, f)
      | Inr prot \<Rightarrow>
          (case aug_fsize os f of
             (Inl e, f) \<Rightarrow> (Inl e, f)
           | (Inr sz, f) \<Rightarrow>
               (case mm_verify page sz offset len of
                  Some e \<Rightarrow> (Inl e, f)
                | None \<Rightarrow>
                    if \<not> mem then (Inl NoMem, f)
                    else
                      case createmmap os f \<lparr>mm_addr = False, mm_len = 0, mm_prot = prot, mm_size = sz\<rparr> offset len of
                        (Inl e, mm, f) \<Rightarrow> (Inl e, f)
                      | (Inr u, mm, f) \<Rightarrow> (Inr mm, f))))"

text \<open>Unmap, look at the file's size again if what is known does not do, and map anew.\<close>

definition aug_remmap ::
  "osys \<Rightarrow> nat \<Rightarrow> mfile \<Rightarrow> mmapimpl \<Rightarrow> nat \<Rightarrow> nat \<Rightarrow> (aug_fail + unit) \<times> mmapimpl \<times> mfile" where
  "aug_remmap os page f mm offset len =
     (let addr = mm_addr mm;
          mm = mm\<lparr>mm_addr := False\<rparr>
      in case (if addr then sys_call os f else (None, f)) of
           (Some e, f) \<Rightarrow> (Inl e, mm, f)
         | (None, f) \<Rightarrow>
             (case (if mm_size mm < (offset + len) mod 2 ^ 64 then aug_fsize os f else (Inr (mm_size mm), f)) of
                (Inl e, f) \<Rightarrow> (Inl e, mm, f)
              | (Inr sz, f) \<Rightarrow>
                  let mm = mm\<lparr>mm_size := sz\<rparr> in
                  case mm_verify page sz offset len of
                    Some e \<Rightarrow> (Inl e, mm, f)
                  | None \<Rightarrow> createmmap os f mm offset len))"

definition aug_syncmmap :: "osys \<Rightarrow> mfile \<Rightarrow> aug_fail option \<times> mfile" where
  "aug_syncmmap os f = sys_call os f"

section \<open>Mapped files\<close>

definition toflags :: "32 word \<Rightarrow> 32 word" where
  "toflags flags =
     (let k = flags AND (AUG_RDONLY OR AUG_WRONLY OR AUG_RDWR) in
      if k = AUG_RDONLY then AUG_MMAPRD
      else if k = AUG_WRONLY \<or> k = AUG_RDWR then AUG_MMAPRD OR AUG_MMAPWR
      else 0)"

definition reserve :: "nat \<Rightarrow> nat \<Rightarrow> nat" where
  "reserve page sz =
     (let pages = sz div page;
          pages = (if sz mod page \<noteq> 0 then pages + 1 else pages)
      in pages * page mod 2 ^ 32)"

text \<open>
  Closing gives back the file: cut to its size when more was reserved.  Without a mapping it is left as it
  is.
\<close>

definition aug_closemfile :: "osys \<Rightarrow> mfile \<Rightarrow> (aug_fail + unit) \<times> mfile" where
  "aug_closemfile os f =
     (let cut = (case mf_mmap f of
                   Some mm \<Rightarrow>
                     let f = destroymmap os f mm in
                     if mf_resvd f > mf_size f then aug_ftruncate os f (mf_size f) else (Inr (), f)
                 | None \<Rightarrow> (Inr (), f));
          (e, f) = sys_call os (snd cut)
      in (case fst cut of Inl e \<Rightarrow> Inl e
          | Inr u \<Rightarrow> (case e of Some e \<Rightarrow> if e = ExIntr then Inr () else Inl e | None \<Rightarrow> Inr ()), f))"

text \<open>
  \<open>file\<close> is the answer of \<^verbatim>\<open>open\<close> to the flags: an error, or the bytes of the file.  The second result tells whether the
  descriptor is left open although the open failed.
\<close>

definition open_flags :: "32 word \<Rightarrow> 32 word" where
  "open_flags flags =
     (let flags = (if flags AND AUG_WRONLY = AUG_WRONLY then (flags AND NOT AUG_WRONLY) OR AUG_RDWR else flags)
      in flags AND NOT AUG_APPEND)"

definition aug_openmfile :: "osys \<Rightarrow> bool \<Rightarrow> (32 word \<Rightarrow> nat + byte list) \<Rightarrow> 32 word \<Rightarrow> (aug_fail + mfile) \<times> bool" where
  "aug_openmfile os mem file flags =
     (let flags = open_flags flags in
      case file flags of
        Inl num \<Rightarrow> (Inl (posix_except num), False)
      | Inr bs \<Rightarrow>
          let f = \<lparr>mf_file = bs, mf_calls = 0, mf_flags = toflags flags, mf_resvd = 0, mf_size = 0, mf_mmap = None\<rparr> in
          case aug_fsize os f of
            (Inl e, f) \<Rightarrow> (Inl e, True)
          | (Inr sz, f) \<Rightarrow>
              if \<not> mem then (Inl NoMem, False)
              else (Inr (f\<lparr>mf_resvd := sz mod 2 ^ 32, mf_size := sz mod 2 ^ 32\<rparr>), False))"

text \<open>
  Mapping \<open>sz\<close> bytes.  When more than was reserved is asked for, the file is set to the difference of the new
  reservation and the size in use.
\<close>

definition writable :: "mfile \<Rightarrow> bool" where "writable f \<longleftrightarrow> mf_flags f AND AUG_MMAPWR \<noteq> 0"

definition mfile_extend :: "osys \<Rightarrow> nat \<Rightarrow> mfile \<Rightarrow> nat \<Rightarrow> (aug_fail + unit) \<times> mfile" where
  "mfile_extend os page f sz =
     (if mf_resvd f < sz then
        if \<not> writable f then (Inl (ExError EPERM), f)
        else
          let resvd = reserve page sz in
          case aug_ftruncate os f (usub resvd (mf_size f)) of
            (Inl e, f) \<Rightarrow> (Inl e, f)
          | (Inr u, f) \<Rightarrow> (Inr (), f\<lparr>mf_resvd := resvd\<rparr>)
      else (Inr (), f))"

definition remap :: "osys \<Rightarrow> nat \<Rightarrow> bool \<Rightarrow> mfile \<Rightarrow> nat \<Rightarrow> (aug_fail + unit) \<times> mfile" where
  "remap os page mem f sz =
     (case mf_mmap f of
        Some mm \<Rightarrow>
          (case aug_remmap os page f mm 0 sz of
             (Inl e, mm, f) \<Rightarrow> (Inl e, (destroymmap os f mm)\<lparr>mf_mmap := None\<rparr>)
           | (Inr u, mm, f) \<Rightarrow> (Inr (), f\<lparr>mf_mmap := Some mm\<rparr>))
      | None \<Rightarrow>
          (case aug_createmmap os page mem f 0 sz (mf_flags f) of
             (Inl e, f) \<Rightarrow> (Inl e, f)
           | (Inr mm, f) \<Rightarrow> (Inr (), f\<lparr>mf_mmap := Some mm\<rparr>)))"

definition aug_mapmfile :: "osys \<Rightarrow> nat \<Rightarrow> bool \<Rightarrow> mfile \<Rightarrow> nat \<Rightarrow> (aug_fail + unit) \<times> mfile" where
  "aug_mapmfile os page mem f sz =
     (case (if (case mf_mmap f of Some mm \<Rightarrow> sz \<le> mm_len mm | None \<Rightarrow> False) then (Inr (), f)
            else case mfile_extend os page f sz of
                   (Inl e, f) \<Rightarrow> (Inl e, f)
                 | (Inr u, f) \<Rightarrow> remap os page mem f sz) of
        (Inl e, f) \<Rightarrow> (Inl e, f)
      | (Inr u, f) \<Rightarrow> (Inr (), if sz > mf_size f then f\<lparr>mf_size := sz\<rparr> else f))"

definition aug_syncmfile :: "osys \<Rightarrow> mfile \<Rightarrow> aug_fail option \<times> mfile" where
  "aug_syncmfile os f = (case mf_mmap f of Some mm \<Rightarrow> aug_syncmmap os f | None \<Rightarrow> sys_call os f)"

definition aug_truncatemfile :: "mfile \<Rightarrow> nat \<Rightarrow> (aug_fail + unit) \<times> mfile" where
  "aug_truncatemfile f sz =
     (if \<not> writable f then (Inl (ExError EPERM), f) else (Inr (), f\<lparr>mf_size := sz\<rparr>))"

text \<open>Whether there is an address; the memory at it.\<close>

definition aug_mfileaddr :: "mfile \<Rightarrow> bool" where
  "aug_mfileaddr f = (case mf_mmap f of Some mm \<Rightarrow> mm_addr mm | None \<Rightarrow> False)"

definition mapped :: "mfile \<Rightarrow> byte list" where
  "mapped f = (case mf_mmap f of Some mm \<Rightarrow> take (mm_len mm) (mf_file f) | None \<Rightarrow> [])"

definition put_mapped :: "byte list \<Rightarrow> mfile \<Rightarrow> mfile" where
  "put_mapped bs f = f\<lparr>mf_file := bs @ drop (length bs) (mf_file f)\<rparr>"

section \<open>The sequence over a mapped file\<close>

record fseq =
  fq_offset :: nat
  fq_len :: nat
  fq_mfile :: mfile

definition move_tail :: "mfile \<Rightarrow> nat \<Rightarrow> nat \<Rightarrow> nat \<Rightarrow> mfile option" where
  "move_tail f d s n =
     (if n = 0 then Some f
      else if \<not> writable f then None
      else map_option (\<lambda>bs. put_mapped bs f) (memmove (mapped f) d s n))"

definition resizemfile :: "osys \<Rightarrow> nat \<Rightarrow> bool \<Rightarrow> fseq \<Rightarrow> nat \<Rightarrow> nat \<Rightarrow> (aug_fail + unit) \<times> fseq" where
  "resizemfile os page mem q sz tail =
     (let f = fq_mfile q; len = mf_size f in
      if sz > len then
        (case aug_mapmfile os page mem f sz of
           (Inl e, f) \<Rightarrow> (Inl e, q\<lparr>fq_mfile := f\<rparr>)
         | (Inr u, f) \<Rightarrow>
             (case move_tail f (usub sz tail) (usub len tail) tail of
                None \<Rightarrow> (Inl Undefined, q\<lparr>fq_mfile := f\<rparr>)
              | Some f \<Rightarrow> (Inr (), q\<lparr>fq_mfile := f\<rparr>)))
      else if sz < len then
        (case move_tail f (usub sz tail) (usub len tail) tail of
           None \<Rightarrow> (Inl Undefined, q)
         | Some f \<Rightarrow>
             (case aug_truncatemfile f sz of
                (Inl e, f) \<Rightarrow> (Inl e, q\<lparr>fq_mfile := f\<rparr>)
              | (Inr u, f) \<Rightarrow> (if aug_mfileaddr f then Inr () else Inl NoMem, q\<lparr>fq_mfile := f\<rparr>)))
      else (if aug_mfileaddr f then Inr () else Inl NoMem, q))"

text \<open>The generic layer over the file's table of operations; the size of the sequence is the file's size in use.\<close>

definition f_seqsize :: "fseq \<Rightarrow> nat" where
  "f_seqsize q = mf_size (fq_mfile q)"

definition f_resizeseq :: "osys \<Rightarrow> nat \<Rightarrow> bool \<Rightarrow> fseq \<Rightarrow> nat \<Rightarrow> (aug_fail + nat) \<times> fseq" where
  "f_resizeseq os page mem q sz =
     (let total = f_seqsize q;
          tail = usub total (uadd (fq_offset q) (fq_len q));
          total = uadd total (usub sz (fq_len q))
      in case resizemfile os page mem q total tail of
           (Inl e, q) \<Rightarrow> (Inl e, q)
         | (Inr _, q) \<Rightarrow> (Inr (fq_offset q), q\<lparr>fq_len := sz\<rparr>))"

definition f_setregion :: "fseq \<Rightarrow> nat \<Rightarrow> nat \<Rightarrow> (aug_fail + unit) \<times> fseq" where
  "f_setregion q offset len =
     (if f_seqsize q < uadd offset len then (Inl (ExError ERANGE), q)
      else (Inr (), q\<lparr>fq_offset := offset, fq_len := len\<rparr>))"

definition aug_openseq ::
  "osys \<Rightarrow> nat \<Rightarrow> bool \<Rightarrow> bool \<Rightarrow> (32 word \<Rightarrow> nat + byte list) \<Rightarrow> 32 word \<Rightarrow> aug_fail + fseq" where
  "aug_openseq os page mem mmem file flags =
     (case fst (aug_openmfile os mem file flags) of
        Inl e \<Rightarrow> Inl e
      | Inr f \<Rightarrow>
          let sz = mf_resvd f in
          case (if sz \<noteq> 0 then aug_mapmfile os page mmem f sz else (Inr (), f)) of
            (Inl e, f) \<Rightarrow> Inl e
          | (Inr u, f) \<Rightarrow> Inr \<lparr>fq_offset = 0, fq_len = 0, fq_mfile = f\<rparr>)"

definition f_destroyseq :: "osys \<Rightarrow> fseq \<Rightarrow> byte list" where
  "f_destroyseq os q = mf_file (snd (aug_closemfile os (fq_mfile q)))"

section \<open>Content from and to files (mar.c)\<close>

definition insert_BIN ::
  "osys \<Rightarrow> nat \<Rightarrow> bool \<Rightarrow> bool \<Rightarrow> bool \<Rightarrow> (32 word \<Rightarrow> nat + byte list) \<Rightarrow> mar \<Rightarrow> (aug_fail + unit) \<times> mar" where
  "insert_BIN os page fmem mmem mem file m =
     (case fst (aug_openmfile os fmem file AUG_RDONLY) of
        Inl e \<Rightarrow> (Inl e, m)
      | Inr f \<Rightarrow>
          let sz = mf_resvd f in
          if sz \<noteq> 0 then
            (case aug_mapmfile os page mmem f sz of
               (Inl e, f) \<Rightarrow> (Inl e, m)
             | (Inr u, f) \<Rightarrow>
                 (case setcontent_BIN mem m (take sz (mapped f)) of
                    (Inl e, m) \<Rightarrow> (Inl e, m)
                  | (Inr u, m) \<Rightarrow> (fst (aug_closemfile os f), m)))
          else (fst (aug_closemfile os f), m))"

definition AUG_CREAT :: "32 word" where "AUG_CREAT = 0x40"

text \<open>The file is returned as the close leaves it (\<open>None\<close> when none was opened).\<close>

definition extract_BIN ::
  "osys \<Rightarrow> nat \<Rightarrow> bool \<Rightarrow> bool \<Rightarrow> (32 word \<Rightarrow> nat + byte list) \<Rightarrow> mar \<Rightarrow> (aug_fail + unit) \<times> byte list option \<times> mar" where
  "extract_BIN os page fmem mmem file m =
     (if \<not> READABLE m then (Inl (ExError EINVAL), None, m)
      else
        let sz = if_bsize (mr_info m) in
        case aug_getcontent (mr_seq m) (mr_info m) of
          (Inl e, s) \<Rightarrow> (Inl e, None, m\<lparr>mr_seq := s\<rparr>)
        | (Inr src, s) \<Rightarrow>
            let m = m\<lparr>mr_seq := s\<rparr> in
            case fst (aug_openmfile os fmem file (AUG_WRONLY OR AUG_CREAT OR AUG_TRUNC)) of
              Inl e \<Rightarrow> (Inl e, None, m)
            | Inr f \<Rightarrow>
                if sz \<noteq> 0 then
                  (case aug_mapmfile os page mmem f sz of
                     (Inl e, f) \<Rightarrow> (Inl e, Some (mf_file (snd (aug_closemfile os f))), m)
                   | (Inr u, f) \<Rightarrow>
                       (case memcpy (mapped f) 0 (slice src sz (the (sq_addr s))) of
                          None \<Rightarrow> (Inl Undefined, None, m)
                        | Some bs \<Rightarrow>
                            let c = aug_closemfile os (put_mapped bs f) in (fst c, Some (mf_file (snd c)), m)))
                else let c = aug_closemfile os f in (fst c, Some (mf_file (snd c)), m))"

section \<open>What mapping keeps\<close>

text \<open>The bytes in use, and what the file has behind them.\<close>

definition bytes_of :: "mfile \<Rightarrow> byte list" where "bytes_of f = take (mf_size f) (mf_file f)"
definition stale :: "mfile \<Rightarrow> byte list" where "stale f = drop (mf_size f) (mf_file f)"

definition file_ok :: "mfile \<Rightarrow> bool" where
  "file_ok f \<longleftrightarrow> mf_size f \<le> length (mf_file f) \<and> length (mf_file f) \<le> mf_resvd f \<and> mf_resvd f < 2 ^ 32
     \<and> (mf_flags f = AUG_MMAPRD \<or> mf_flags f = AUG_MMAPRD OR AUG_MMAPWR)
     \<and> (case mf_mmap f of None \<Rightarrow> True
        | Some mm \<Rightarrow> mm_addr mm \<and> mf_size f \<le> mm_len mm \<and> mm_len mm \<le> length (mf_file f))"

text \<open>
  The sizes that can be mapped: those within the mapping, those within the reservation that the file really
  has, and those beyond it for which the file is long enough after it was set to the difference.
\<close>

definition room :: "nat \<Rightarrow> mfile \<Rightarrow> nat \<Rightarrow> bool" where
  "room page f n \<longleftrightarrow>
     (case mf_mmap f of Some mm \<Rightarrow> n \<le> mm_len mm | None \<Rightarrow> False)
     \<or> (n \<le> mf_resvd f \<and> n \<le> length (mf_file f))
     \<or> (mf_resvd f < n \<and> writable f \<and> n + mf_size f \<le> reserve page n)"

lemma reserve_bound: "reserve page n < 2 ^ 32"
  by (simp add: reserve_def Let_def)

lemma sys_call_fields [simp]:
  "mf_file (snd (sys_call os f)) = mf_file f" "mf_flags (snd (sys_call os f)) = mf_flags f"
  "mf_resvd (snd (sys_call os f)) = mf_resvd f" "mf_size (snd (sys_call os f)) = mf_size f"
  "mf_mmap (snd (sys_call os f)) = mf_mmap f"
  by (simp_all add: sys_call_def)

text \<open>Two states that differ in the number of calls only.\<close>

definition same_file :: "mfile \<Rightarrow> mfile \<Rightarrow> bool" where
  "same_file f g \<longleftrightarrow> f\<lparr>mf_calls := 0\<rparr> = g\<lparr>mf_calls := 0\<rparr>"

lemma same_fileD:
  "same_file f g \<Longrightarrow> mf_file f = mf_file g \<and> mf_flags f = mf_flags g \<and> mf_resvd f = mf_resvd g
     \<and> mf_size f = mf_size g \<and> mf_mmap f = mf_mmap g"
  by (cases f; cases g) (simp add: same_file_def)

lemma same_file_refl [simp]: "same_file f f" by (simp add: same_file_def)

lemma same_file_trans: "same_file f g \<Longrightarrow> same_file g h \<Longrightarrow> same_file f h" by (simp add: same_file_def)

lemma sys_call_same: "sys_call os f = (r, g) \<Longrightarrow> same_file g f"
  by (auto simp: sys_call_def same_file_def)

lemma fsize_same: "aug_fsize os f = (r, g) \<Longrightarrow> same_file g f \<and> (\<forall>n. r = Inr n \<longrightarrow> n = length (mf_file f))"
  by (auto simp: aug_fsize_def sys_call_def same_file_def split: option.splits)

lemma createmmap_frame:
  "createmmap os f mm offset len = (r, mm', g) \<Longrightarrow> same_file g f \<and>
    (case r of Inl e \<Rightarrow> mm' = mm | Inr u \<Rightarrow> mm' = mm\<lparr>mm_addr := True, mm_len := if len = 0 then mm_size mm - offset else len\<rparr>)"
  by (auto simp: createmmap_def Let_def sys_call_def same_file_def split: option.splits)

lemma createmmap_new:
  assumes "aug_createmmap os page mem f 0 n flags = (r, g)" "0 < n"
  shows "same_file g f \<and> (\<forall>mm. r = Inr mm \<longrightarrow> mm_addr mm \<and> mm_len mm = n)"
proof -
  obtain r1 f1 where z: "aug_fsize os f = (r1, f1)" by force
  note f1 = fsize_same [OF z]
  let ?mm = "\<lambda>prot sz. \<lparr>mm_addr = False, mm_len = 0, mm_prot = prot, mm_size = sz\<rparr>"
  have "same_file g f" "\<forall>mm. r = Inr mm \<longrightarrow> mm_addr mm \<and> mm_len mm = n"
    if "createmmap os f1 (?mm prot sz) 0 n = (r2, mm2, g)" "r = (case r2 of Inl e \<Rightarrow> Inl e | Inr u \<Rightarrow> Inr mm2)" for prot sz r2 mm2
    using createmmap_frame [OF that(1)] that(2) assms(2) f1 same_file_trans by (auto split: sum.splits)
  then show ?thesis
    using assms(1) z f1 by (auto simp: aug_createmmap_def split: sum.splits prod.splits option.splits if_splits)
qed

lemma destroymmap_same: "same_file (destroymmap os f mm) f"
  by (simp add: destroymmap_def sys_call_def same_file_def)

lemma remmap_new:
  assumes "aug_remmap os page f mm 0 n = (r, mm', g)" "0 < n"
  shows "same_file g f \<and> (\<forall>u. r = Inr u \<longrightarrow> mm_addr mm' \<and> mm_len mm' = n)"
proof -
  obtain e f1 where e: "(if mm_addr mm then sys_call os f else (None, f)) = (e, f1)" by force
  have f1: "same_file f1 f" using e sys_call_same by (auto split: if_splits)
  obtain r2 f2 where z: "(if mm_size mm < (0 + n) mod 2 ^ 64 then aug_fsize os f1 else (Inr (mm_size mm), f1)) = (r2, f2)" by force
  have f2: "same_file f2 f" using z f1 same_file_trans [OF conjunct1 [OF fsize_same] f1] by (auto split: if_splits)
  have fin: "same_file g f" "\<forall>u. r = Inr u \<longrightarrow> mm_addr mm' \<and> mm_len mm' = n"
    if "createmmap os f2 m2 0 n = (r, mm', g)" for m2
    using createmmap_frame [OF that] assms(2) f2 same_file_trans by (auto split: sum.splits)
  show ?thesis
    using assms(1) e z f1 f2 fin unfolding aug_remmap_def Let_def
    by (cases e; cases r2) (auto split: option.splits cong: if_cong)
qed

lemma same_file_mmap: "same_file g f \<Longrightarrow> same_file (g\<lparr>mf_mmap := x\<rparr>) (f\<lparr>mf_mmap := x\<rparr>)"
  by (cases f; cases g) (simp add: same_file_def)

lemma remap_new:
  assumes "remap os page mem f n = (r, g)" "0 < n"
  shows "same_file (g\<lparr>mf_mmap := None\<rparr>) (f\<lparr>mf_mmap := None\<rparr>)
    \<and> (\<forall>u. r = Inr u \<longrightarrow> (\<exists>mm. mf_mmap g = Some mm \<and> mm_addr mm \<and> mm_len mm = n))
    \<and> (\<forall>e. r = Inl e \<longrightarrow> mf_mmap g = None)"
proof (cases "mf_mmap f")
  case None
  then show ?thesis
    using assms same_fileD
    by (fastforce simp: remap_def split: sum.splits prod.splits dest!: createmmap_new intro: same_file_mmap)
next
  case (Some mm)
  obtain r' mm' g' where m: "aug_remmap os page f mm 0 n = (r', mm', g')" by (metis prod_cases3)
  note s = remmap_new [OF m assms(2)]
  show ?thesis
  proof (cases r')
    case (Inl e)
    have "same_file ((destroymmap os g' mm')\<lparr>mf_mmap := None\<rparr>) (f\<lparr>mf_mmap := None\<rparr>)"
      using s destroymmap_same same_file_trans same_file_mmap by blast
    then show ?thesis using assms(1) m Some Inl by (auto simp: remap_def)
  next
    case (Inr u)
    have "same_file (g'\<lparr>mf_mmap := None\<rparr>) (f\<lparr>mf_mmap := None\<rparr>)" using s same_file_mmap by blast
    then show ?thesis using assms(1) m Some Inr s by (auto simp: remap_def)
  qed
qed

text \<open>The length of the file after it was extended, and its bytes.\<close>

definition grown :: "nat \<Rightarrow> byte list \<Rightarrow> byte list" where
  "grown l bs = take l bs @ replicate (l - length bs) 0"

lemma length_grown [simp]: "length (grown l bs) = l"
  by (simp add: grown_def)

lemma grown_same [simp]: "grown (length bs) bs = bs"
  by (simp add: grown_def)

lemma take_grown: "n \<le> l \<Longrightarrow> n \<le> length bs \<Longrightarrow> take n (grown l bs) = take n bs"
  by (simp add: grown_def min_def)

lemma extend_new:
  assumes "mfile_extend os page f n = (r, g)" "file_ok f" "room page f n"
    and "\<not> (case mf_mmap f of Some mm \<Rightarrow> n \<le> mm_len mm | None \<Rightarrow> False)"
  shows "\<exists>l. mf_file g = grown l (mf_file f) \<and> mf_size f \<le> l \<and> mf_size g = mf_size f \<and> mf_mmap g = mf_mmap f
    \<and> mf_flags g = mf_flags f \<and> mf_resvd f \<le> mf_resvd g \<and> mf_resvd g < 2 ^ 32
    \<and> l \<le> mf_resvd g \<and> (case r of Inl e \<Rightarrow> l = length (mf_file f) | Inr u \<Rightarrow> n \<le> l)"
proof (cases "mf_resvd f < n")
  case False
  then have "g = f" "r = Inr ()" using assms(1) by (simp_all add: mfile_extend_def)
  moreover have "n \<le> length (mf_file f)" using False assms(3,4) by (auto simp: room_def)
  ultimately show ?thesis using assms(2) False by (auto simp: file_ok_def intro!: exI [of _ "length (mf_file f)"])
next
  case True
  let ?l = "usub (reserve page n) (mf_size f)"
  have w: "writable f" "n + mf_size f \<le> reserve page n"
    using True assms(3,4) by (auto simp: room_def)
  then have l: "?l = reserve page n - mf_size f" using reserve_bound [of page n] by simp
  have le: "mf_size f \<le> ?l" "n \<le> ?l" "mf_resvd f \<le> reserve page n" "n \<le> reserve page n" "mf_size f \<le> length (mf_file f)" "mf_resvd f < 2 ^ 32"
      "length (mf_file f) \<le> mf_resvd f" "?l \<le> reserve page n"
    using w l True assms(2) by (auto simp: file_ok_def)
  show ?thesis
  proof (cases "os (mf_calls f)")
    case None
    then have "r = Inr ()" "mf_file g = grown ?l (mf_file f)" "mf_size g = mf_size f" "mf_mmap g = mf_mmap f"
        "mf_flags g = mf_flags f" "mf_resvd g = reserve page n"
      using assms(1) True w(1) by (auto simp: mfile_extend_def aug_ftruncate_def sys_call_def Let_def grown_def)
    then show ?thesis using le reserve_bound [of page n] by (auto intro!: exI [of _ ?l])
  next
    case (Some e)
    then have "r = Inl (posix_except e)" "same_file g f"
      using assms(1) True w(1) by (auto simp: mfile_extend_def aug_ftruncate_def sys_call_def Let_def same_file_def)
    then show ?thesis using le same_fileD [of g f] by (auto intro!: exI [of _ "length (mf_file f)"])
  qed
qed

lemma map_any:
  assumes "aug_mapmfile os page mem f n = (r, g)" "file_ok f" "room page f n" "0 < n" "mf_size f \<le> n"
  shows "\<exists>l. mf_file g = grown l (mf_file f) \<and> mf_size f \<le> l \<and> mf_flags g = mf_flags f \<and> file_ok g
    \<and> (case r of Inl e \<Rightarrow> mf_size g = mf_size f
       | Inr u \<Rightarrow> n \<le> l \<and> mf_size g = n \<and> (\<exists>mm. mf_mmap g = Some mm \<and> n \<le> mm_len mm))"
proof (cases "case mf_mmap f of Some mm \<Rightarrow> n \<le> mm_len mm | None \<Rightarrow> False")
  case True
  then have "r = Inr ()" "g = (if n > mf_size f then f\<lparr>mf_size := n\<rparr> else f)"
    using assms(1) by (simp_all add: aug_mapmfile_def)
  moreover have "\<not> mf_size f < n \<Longrightarrow> mf_size f = n" using assms(5) by simp
  ultimately show ?thesis
    using True assms(2) by (auto simp: file_ok_def split: option.splits intro!: exI [of _ "length (mf_file f)"])
next
  case False
  obtain r1 f1 where e: "mfile_extend os page f n = (r1, f1)" by force
  obtain l where l: "mf_file f1 = grown l (mf_file f)" "mf_size f \<le> l" "mf_size f1 = mf_size f" "mf_mmap f1 = mf_mmap f"
      "mf_flags f1 = mf_flags f" "mf_resvd f \<le> mf_resvd f1" "mf_resvd f1 < 2 ^ 32"
      "l \<le> mf_resvd f1" "case r1 of Inl e \<Rightarrow> l = length (mf_file f) | Inr u \<Rightarrow> n \<le> l"
    using extend_new [OF e assms(2,3) False] by blast
  show ?thesis
  proof (cases r1)
    case (Inl x)
    then have "r = Inl x" "g = f1" using assms(1) False e by (simp_all add: aug_mapmfile_def)
    then show ?thesis using l Inl assms(2) by (auto simp: file_ok_def split: option.splits intro!: exI [of _ l])
  next
    case (Inr u)
    obtain r2 f2 where m: "remap os page mem f1 n = (r2, f2)" by force
    note m2 = remap_new [OF m assms(4)]
    then have "same_file (f2\<lparr>mf_mmap := None\<rparr>) (f1\<lparr>mf_mmap := None\<rparr>)" by blast
    from same_fileD [OF this] have f2: "mf_file f2 = mf_file f1" "mf_flags f2 = mf_flags f1" "mf_resvd f2 = mf_resvd f1" "mf_size f2 = mf_size f1"
      by simp_all
    show ?thesis
    proof (cases r2)
      case (Inl x)
      then have "r = Inl x" "g = f2" using assms(1) False e m Inr by (simp_all add: aug_mapmfile_def)
      then show ?thesis using l f2 m2 Inl assms(2) by (auto simp: file_ok_def intro!: exI [of _ l])
    next
      case (Inr v)
      then have "r = Inr ()" "g = (if n > mf_size f2 then f2\<lparr>mf_size := n\<rparr> else f2)"
        using assms(1) False e m \<open>r1 = Inr u\<close> by (simp_all add: aug_mapmfile_def)
      moreover obtain mm where "mf_mmap f2 = Some mm" "mm_addr mm" "mm_len mm = n" using m2 Inr by blast
      moreover have "n \<le> l" using l(9) \<open>r1 = Inr u\<close> by auto
      ultimately show ?thesis using l f2 assms(2,5) by (auto simp: file_ok_def intro!: exI [of _ l])
    qed
  qed
qed

section \<open>Resizing a region of the file\<close>

lemma take_zeros:
  "k \<le> length a + i \<Longrightarrow> k \<le> length a + j \<Longrightarrow> take k (a @ replicate i 0) = take k (a @ replicate j 0)"
  by (auto simp: min_def)

lemma take_grown_zeros: "k \<le> l \<Longrightarrow> take k (grown l bs) = take k (bs @ replicate k 0)"
  by (auto simp: grown_def min_def)

lemma drop_take_drop: "k \<le> l \<Longrightarrow> drop k (take l xs) @ drop l xs = drop k xs"
proof -
  assume "k \<le> l"
  then have "drop l xs = drop (l - k) (drop k xs)" by simp
  then show ?thesis by (simp only: drop_take append_take_drop_id)
qed

lemma poke_take_drop:
  assumes "d + length z \<le> l" "l \<le> length xs"
  shows "poke (take l xs) d z @ drop (length (poke (take l xs) d z)) xs = take d xs @ z @ drop (d + length z) xs"
proof -
  have "length (poke (take l xs) d z) = l" using assms by simp
  then show ?thesis using assms drop_take_drop [of "d + length z" l xs] by (simp add: poke_def min_def)
qed

lemma file_ok_upd:
  "file_ok g \<Longrightarrow> length (mf_file h) = length (mf_file g) \<Longrightarrow> mf_size h \<le> mf_size g \<Longrightarrow> mf_mmap h = mf_mmap g \<Longrightarrow>
   mf_resvd h = mf_resvd g \<Longrightarrow> mf_flags h = mf_flags g \<Longrightarrow> file_ok h"
  by (auto simp: file_ok_def split: option.splits)

lemma move_tail_bytes:
  assumes "mf_mmap f = Some mm" "mm_len mm \<le> length (mf_file f)" "d + length z \<le> mm_len mm" "s + length z \<le> mm_len mm"
    and "slice s (length z) (mf_file f) = z" "writable f \<or> z = []"
  shows "move_tail f d s (length z) = Some (f\<lparr>mf_file := take d (mf_file f) @ z @ drop (d + length z) (mf_file f)\<rparr>)"
proof (cases "z = []")
  case True
  then show ?thesis by (simp add: move_tail_def)
next
  case False
  let ?m = "take (mm_len mm) (mf_file f)"
  have sl: "slice s (length z) ?m = z" using assms(4,5) by (simp add: slice_def min_def take_drop)
  have "memmove ?m d s (length z) = Some (poke ?m d z)" using assms(2-4) sl by simp
  moreover note poke_take_drop [OF assms(3,2)]
  ultimately show ?thesis using False assms(1,6) by (simp add: move_tail_def mapped_def put_mapped_def)
qed

lemma file_bytes: "mf_file f = bytes_of f @ stale f"
  by (simp add: bytes_of_def stale_def)

lemma length_bytes_of: "file_ok f \<Longrightarrow> length (bytes_of f) = mf_size f"
  by (simp add: bytes_of_def file_ok_def)

text \<open>What a resize of the file's sequence leaves: the region, then the end of the sequence.\<close>

definition resized_bytes :: "byte list \<Rightarrow> byte list \<Rightarrow> byte list \<Rightarrow> nat \<Rightarrow> mfile \<Rightarrow> byte list" where
  "resized_bytes x y z n f = x @ resized n y (z @ stale f) @ z"

lemma resized_front:
  assumes "length x + n \<le> k" "length y \<le> n"
  shows "take (length x + n) (x @ y @ r @ replicate k 0) = x @ resized n y r"
proof -
  have "take (n - length y) (r @ replicate k 0) = take (n - length y) (r @ replicate (n - length y) 0)"
    by (rule take_zeros) (use assms in auto)
  then show ?thesis using assms(2) by (auto simp: resized_def)
qed

lemma writable_flags: "mf_flags g = mf_flags f \<Longrightarrow> writable g = writable f"
  by (simp add: writable_def)

lemma f_resizeseq_parts:
  assumes "mf_size (fq_mfile q) = length x + length y + length z" "fq_offset q = length x" "fq_len q = length y"
    and "mf_size (fq_mfile q) < 2 ^ 32" "length x + n + length z < 2 ^ 32"
  shows "f_resizeseq os page mem q n =
    (case resizemfile os page mem q (length x + n + length z) (length z) of
       (Inl e, q) \<Rightarrow> (Inl e, q) | (Inr _, q) \<Rightarrow> (Inr (fq_offset q), q\<lparr>fq_len := n\<rparr>))"
    and "usub (length x + n + length z) (length z) = length x + n"
    and "usub (mf_size (fq_mfile q)) (length z) = length x + length y"
proof -
  have "usub (mf_size (fq_mfile q)) (uadd (length x) (length y)) = length z"
    and "uadd (mf_size (fq_mfile q)) (usub n (length y)) = length x + n + length z"
    using assms by (simp_all add: uadd_usub nat_eq_iff)
  then show "f_resizeseq os page mem q n =
    (case resizemfile os page mem q (length x + n + length z) (length z) of
       (Inl e, q) \<Rightarrow> (Inl e, q) | (Inr _, q) \<Rightarrow> (Inr (fq_offset q), q\<lparr>fq_len := n\<rparr>))"
    unfolding f_resizeseq_def f_seqsize_def Let_def assms(2,3) by (simp only:)
  show "usub (length x + n + length z) (length z) = length x + n" "usub (mf_size (fq_mfile q)) (length z) = length x + length y"
    using assms by simp_all
qed

lemma f_resize_grow:
  assumes ok: "file_ok (fq_mfile q)" "writable (fq_mfile q)"
    and b: "bytes_of (fq_mfile q) = x @ y @ z" "fq_offset q = length x" "fq_len q = length y"
    and n: "length y < n" "length x + n + length z < 2 ^ 32" "room page (fq_mfile q) (length x + n + length z)"
    and e: "f_resizeseq os page mem q n = (r, q')"
  shows "file_ok (fq_mfile q') \<and> writable (fq_mfile q') \<and> fq_offset q' = length x
    \<and> (case r of
         Inr p \<Rightarrow> p = length x \<and> fq_len q' = n \<and> mf_mmap (fq_mfile q') \<noteq> None
           \<and> bytes_of (fq_mfile q') = resized_bytes x y z n (fq_mfile q)
       | Inl e \<Rightarrow> fq_len q' = length y \<and> bytes_of (fq_mfile q') = bytes_of (fq_mfile q))"
proof -
  let ?f = "fq_mfile q" and ?t = "length x + n + length z"
  have size: "mf_size ?f = length x + length y + length z" using length_bytes_of [OF ok(1)] b(1) by simp
  have gt: "mf_size ?f < ?t" "mf_size ?f < 2 ^ 32" using size n(1,2) by simp_all
  note parts = f_resizeseq_parts [OF size b(2,3) gt(2) n(2)]
  obtain r1 g where m: "aug_mapmfile os page mem ?f ?t = (r1, g)" by force
  obtain l where l: "mf_file g = grown l (mf_file ?f)" "mf_size ?f \<le> l" "mf_flags g = mf_flags ?f" "file_ok g"
      "case r1 of Inl e \<Rightarrow> mf_size g = mf_size ?f
       | Inr u \<Rightarrow> ?t \<le> l \<and> mf_size g = ?t \<and> (\<exists>mm. mf_mmap g = Some mm \<and> ?t \<le> mm_len mm)"
    using map_any [OF m ok(1) n(3)] n(1) size by auto
  have w: "writable g" using ok(2) l(3) writable_flags by blast
  show ?thesis
  proof (cases r1)
    case (Inl err)
    then have "r = Inl err" "q' = q\<lparr>fq_mfile := g\<rparr>"
      using e m gt(1) unfolding parts(1) resizemfile_def Let_def by simp_all
    moreover have "bytes_of g = bytes_of ?f"
      using l Inl ok(1) by (simp add: bytes_of_def file_ok_def take_grown)
    ultimately show ?thesis using l(4) w b by simp
  next
    case (Inr u)
    obtain mm where mm: "mf_mmap g = Some mm" "?t \<le> mm_len mm" "mm_len mm \<le> length (mf_file g)" "?t \<le> l" "mf_size g = ?t"
      using l Inr by (auto simp: file_ok_def)
    have zs: "slice (length x + length y) (length z) (mf_file g) = z"
    proof -
      have "take (length x + length y + length z) (mf_file g) = x @ y @ z"
        using l(1,2) size ok(1) b(1) by (simp add: take_grown file_ok_def bytes_of_def)
      then have "drop (length x + length y) (take (length z + (length x + length y)) (mf_file g)) = z" by (simp add: ac_simps)
      then show ?thesis by (simp only: slice_def take_drop ac_simps)
    qed
    define h where "h = g\<lparr>mf_file := take (length x + n) (mf_file g) @ z @ drop ?t (mf_file g)\<rparr>"
    have mv: "move_tail g (length x + n) (length x + length y) (length z) = Some h"
      using move_tail_bytes [OF mm(1,3) _ _ zs, of "length x + n"] mm(2) n(1) w by (simp add: h_def)
    have "r = Inr (length x)" "q' = q\<lparr>fq_mfile := h, fq_len := n\<rparr>"
      using e m Inr gt(1) mv b(2) unfolding parts(1) resizemfile_def Let_def parts(2,3) by simp_all
    moreover have len: "length (mf_file h) = length (mf_file g)" using mm by (simp add: h_def)
    then have "file_ok h" by (intro file_ok_upd [OF l(4)]) (simp_all add: h_def)
    moreover have "writable h" using w by (simp add: writable_def h_def)
    moreover have "bytes_of h = resized_bytes x y z n ?f"
    proof -
      have "length x + n \<le> length (mf_file g)" using mm by simp
      then have "bytes_of h = take (length x + n) (mf_file g) @ z" using mm(5) by (simp add: bytes_of_def h_def)
      also have "take (length x + n) (mf_file g) = take (length x + n) (x @ y @ (z @ stale ?f) @ replicate (length x + n) 0)"
        unfolding l(1) using mm(4) file_bytes [of ?f] b(1) by (simp add: take_grown_zeros)
      also have "\<dots> = x @ resized n y (z @ stale ?f)" using n(1) by (intro resized_front) auto
      finally show ?thesis by (simp add: resized_bytes_def)
    qed
    ultimately show ?thesis using mm(1) b(2) by (simp add: h_def)
  qed
qed

lemma f_resize_shrink:
  assumes ok: "file_ok (fq_mfile q)" "writable (fq_mfile q)" "mf_mmap (fq_mfile q) \<noteq> None"
    and b: "bytes_of (fq_mfile q) = x @ y @ z" "fq_offset q = length x" "fq_len q = length y"
    and n: "n \<le> length y"
  shows "\<exists>q'. f_resizeseq os page mem q n = (Inr (length x), q') \<and> file_ok (fq_mfile q') \<and> writable (fq_mfile q')
    \<and> fq_offset q' = length x \<and> fq_len q' = n \<and> mf_mmap (fq_mfile q') \<noteq> None
    \<and> bytes_of (fq_mfile q') = resized_bytes x y z n (fq_mfile q)"
proof -
  let ?f = "fq_mfile q" and ?t = "length x + n + length z"
  have size: "mf_size ?f = length x + length y + length z" using length_bytes_of [OF ok(1)] b(1) by simp
  have lt: "mf_size ?f < 2 ^ 32" using ok(1) by (simp add: file_ok_def)
  have "?t < 2 ^ 32" using n size lt by simp
  note parts = f_resizeseq_parts [OF size b(2,3) lt this]
  obtain mm where mm: "mf_mmap ?f = Some mm" "mm_addr mm" "mf_size ?f \<le> mm_len mm" "mm_len mm \<le> length (mf_file ?f)"
    using ok by (auto simp: file_ok_def)
  have addr: "aug_mfileaddr ?f" using mm by (simp add: aug_mfileaddr_def)
  show ?thesis
  proof (cases "n = length y")
    case True
    then have "f_resizeseq os page mem q n = (Inr (length x), q\<lparr>fq_len := n\<rparr>)"
      using addr size b(2) unfolding parts(1) resizemfile_def Let_def by simp
    then show ?thesis using ok b True by (simp add: resized_bytes_def)
  next
    case False
    have zs: "slice (length x + length y) (length z) (mf_file ?f) = z"
      using file_bytes [of ?f] b(1) by (simp add: slice_def)
    define h where "h = ?f\<lparr>mf_file := take (length x + n) (mf_file ?f) @ z @ drop ?t (mf_file ?f), mf_size := ?t\<rparr>"
    have mv: "move_tail ?f (length x + n) (length x + length y) (length z)
        = Some (?f\<lparr>mf_file := take (length x + n) (mf_file ?f) @ z @ drop ?t (mf_file ?f)\<rparr>)"
      using move_tail_bytes [OF mm(1,4) _ _ zs, of "length x + n"] mm(3) n size ok(2) by simp
    have "f_resizeseq os page mem q n = (Inr (length x), q\<lparr>fq_mfile := h, fq_len := n\<rparr>)"
      using size n False mv ok(2) addr b(2) unfolding parts(1) resizemfile_def Let_def parts(2,3)
      by (simp add: aug_truncatemfile_def writable_def aug_mfileaddr_def h_def)
    moreover have "length (mf_file h) = length (mf_file ?f)" using mm size n by (simp add: h_def)
    then have "file_ok h" using n size by (intro file_ok_upd [OF ok(1)]) (simp_all add: h_def)
    moreover have "writable h" using ok(2) by (simp add: writable_def h_def)
    moreover have "bytes_of h = resized_bytes x y z n ?f"
      using file_bytes [of ?f] b(1) n by (simp add: bytes_of_def h_def resized_bytes_def resized_def)
    ultimately show ?thesis using mm(1) b(2) by (simp add: h_def)
  qed
qed

section \<open>A file's sequence does what one in memory does\<close>

text \<open>The operations the archive makes on its sequence; \<open>Store\<close> writes at the address of the region.\<close>

datatype seq_op = Region nat nat | Resize nat | Store "byte list"

fun mem_step :: "seq \<Rightarrow> seq_op \<Rightarrow> (aug_fail + nat) \<times> seq" where
  "mem_step s (Region p n) = (case aug_setregion s p n of (Inl e, s) \<Rightarrow> (Inl e, s) | (Inr u, s) \<Rightarrow> (Inr 0, s))"
| "mem_step s (Resize n) = aug_resizeseq True s n"
| "mem_step s (Store bs) =
     (case sq_addr s of
        None \<Rightarrow> (Inl Undefined, s)
      | Some m \<Rightarrow>
          (case memcpy m (sq_offset s) bs of
             None \<Rightarrow> (Inl Undefined, s) | Some m \<Rightarrow> (Inr 0, s\<lparr>sq_addr := Some m\<rparr>)))"

fun file_step :: "osys \<Rightarrow> nat \<Rightarrow> bool \<Rightarrow> fseq \<Rightarrow> seq_op \<Rightarrow> (aug_fail + nat) \<times> fseq" where
  "file_step os page mem q (Region p n) = (case f_setregion q p n of (Inl e, q) \<Rightarrow> (Inl e, q) | (Inr u, q) \<Rightarrow> (Inr 0, q))"
| "file_step os page mem q (Resize n) = f_resizeseq os page mem q n"
| "file_step os page mem q (Store bs) =
     (if \<not> aug_mfileaddr (fq_mfile q) \<or> \<not> writable (fq_mfile q) then (Inl Undefined, q)
      else
        case memcpy (mapped (fq_mfile q)) (fq_offset q) bs of
          None \<Rightarrow> (Inl Undefined, q)
        | Some m \<Rightarrow> (Inr 0, q\<lparr>fq_mfile := put_mapped m (fq_mfile q)\<rparr>))"

fun mem_run :: "seq \<Rightarrow> seq_op list \<Rightarrow> (aug_fail + nat) list \<times> seq" where
  "mem_run s [] = ([], s)"
| "mem_run s (opn # ops) = (let (r, s) = mem_step s opn; (rs, s) = mem_run s ops in (r # rs, s))"

fun file_run :: "osys \<Rightarrow> nat \<Rightarrow> bool \<Rightarrow> fseq \<Rightarrow> seq_op list \<Rightarrow> (aug_fail + nat) list \<times> fseq" where
  "file_run os page mem q [] = ([], q)"
| "file_run os page mem q (opn # ops) =
     (let (r, q) = file_step os page mem q opn; (rs, q) = file_run os page mem q ops in (r # rs, q))"

text \<open>
  The scope: sizes within 4 GB, stores within the region, and a sequence that grows only where there is room, with
  zeros behind it in the file (there are others when it was shrunk before).
\<close>

definition step_fits :: "nat \<Rightarrow> fseq \<Rightarrow> seq_op \<Rightarrow> bool" where
  "step_fits page q opn =
     (case opn of
        Region p n \<Rightarrow> p + n < 2 ^ 32
      | Resize n \<Rightarrow>
          let f = fq_mfile q; t = mf_size f - fq_len q + n in
          t < 2 ^ 32 \<and> (if fq_len q < n then room page f t \<and> list_all (\<lambda>b. b = 0) (stale f) else mf_mmap f \<noteq> None)
      | Store bs \<Rightarrow> length bs \<le> fq_len q \<and> mf_mmap (fq_mfile q) \<noteq> None)"

abbreviation working :: osys where "working \<equiv> \<lambda>_. None"

fun run_fits :: "nat \<Rightarrow> fseq \<Rightarrow> seq_op list \<Rightarrow> bool" where
  "run_fits page q [] = True"
| "run_fits page q (opn # ops) = (step_fits page q opn \<and> run_fits page (snd (file_step working page True q opn)) ops)"

definition seq_rep :: "fseq \<Rightarrow> seq \<Rightarrow> bool" where
  "seq_rep q s \<longleftrightarrow> file_ok (fq_mfile q) \<and> writable (fq_mfile q) \<and> sq_offset s = fq_offset q \<and> sq_len s = fq_len q
     \<and> fq_offset q + fq_len q \<le> mf_size (fq_mfile q)
     \<and> sq_addr s = (if mf_mmap (fq_mfile q) = None then None else Some (bytes_of (fq_mfile q)))
     \<and> (mf_mmap (fq_mfile q) = None \<longrightarrow> mf_file (fq_mfile q) = [])"

lemma rep_size: "seq_rep q s \<Longrightarrow> aug_seqsize s = mf_size (fq_mfile q)"
  by (auto simp: seq_rep_def aug_seqsize_def length_bytes_of file_ok_def)

lemma rep_regions:
  assumes "seq_rep q s"
  shows "\<exists>x y z. bytes_of (fq_mfile q) = x @ y @ z \<and> length x = fq_offset q \<and> length y = fq_len q
    \<and> mf_size (fq_mfile q) = length x + length y + length z"
proof -
  let ?b = "bytes_of (fq_mfile q)" and ?p = "fq_offset q" and ?n = "fq_len q"
  have l: "length ?b = mf_size (fq_mfile q)" "?p + ?n \<le> length ?b"
    using assms length_bytes_of by (auto simp: seq_rep_def)
  then have "?b = take ?p ?b @ slice ?p ?n ?b @ drop (?p + ?n) ?b \<and> length (take ?p ?b) = ?p \<and> length (slice ?p ?n ?b) = ?n
      \<and> mf_size (fq_mfile q) = length (take ?p ?b) + length (slice ?p ?n ?b) + length (drop (?p + ?n) ?b)"
    using split_at_slice [OF l(2)] by simp
  then show ?thesis by blast
qed

text \<open>When every system call works, mapping succeeds where there is room.\<close>

lemma map_works:
  assumes "file_ok f" "room page f n" "0 < n" "n < 2 ^ 32"
  shows "fst (aug_mapmfile working page True f n) = Inr ()"
proof (cases "case mf_mmap f of Some mm \<Rightarrow> n \<le> mm_len mm | None \<Rightarrow> False")
  case True
  then show ?thesis by (simp add: aug_mapmfile_def)
next
  case False
  obtain r g where e: "mfile_extend working page f n = (r, g)" by force
  have "r = Inr ()"
    using e False assms(2) by (auto simp: mfile_extend_def room_def aug_ftruncate_def sys_call_def Let_def split: if_splits)
  moreover from this have g: "n \<le> length (mf_file g)" "mf_flags g = mf_flags f"
    using extend_new [OF e assms(1,2) False] by auto
  have ver: "mm_verify page k 0 n = None" if "n \<le> k" for k
    using that assms(3,4) by (simp add: mm_verify_def)
  have "fst (remap working page True g n) = Inr ()"
  proof (cases "mf_mmap g")
    case None
    have "\<exists>p. toprot (mf_flags g) = Inr p"
      using assms(1) g(2) by (auto simp: file_ok_def toprot_def AUG_MMAPRD_def AUG_MMAPWR_def)
    then show ?thesis
      using None ver [OF g(1)] by (auto simp: remap_def aug_createmmap_def aug_fsize_def sys_call_def createmmap_def Let_def)
  next
    case (Some mm)
    then show ?thesis
      using ver g(1) assms(3,4)
      by (auto simp: remap_def aug_remmap_def aug_fsize_def sys_call_def createmmap_def Let_def split: if_splits)
  qed
  ultimately show ?thesis using e False by (auto simp: aug_mapmfile_def split: prod.splits)
qed

lemma resize_works:
  assumes "file_ok (fq_mfile q)" "bytes_of (fq_mfile q) = x @ y @ z" "fq_offset q = length x" "fq_len q = length y"
    and "length y < n" "length x + n + length z < 2 ^ 32" "room page (fq_mfile q) (length x + n + length z)"
    and "writable (fq_mfile q)"
  shows "\<exists>p. fst (f_resizeseq working page True q n) = Inr p"
proof -
  let ?f = "fq_mfile q" and ?t = "length x + n + length z"
  have size: "mf_size ?f = length x + length y + length z" using length_bytes_of [OF assms(1)] assms(2) by simp
  have gt: "mf_size ?f < ?t" "mf_size ?f < 2 ^ 32" using size assms(5,6) by simp_all
  note parts = f_resizeseq_parts [OF size assms(3,4) gt(2) assms(6)]
  obtain g where m: "aug_mapmfile working page True ?f ?t = (Inr (), g)"
    using map_works [OF assms(1,7) _ assms(6)] assms(5) by (cases "aug_mapmfile working page True ?f ?t") auto
  obtain l where l: "mf_flags g = mf_flags ?f" "file_ok g" "mf_size g = ?t" "\<exists>mm. mf_mmap g = Some mm \<and> ?t \<le> mm_len mm"
    using map_any [OF m assms(1,7)] gt(1) assms(5) by auto
  then obtain mm where mm: "mf_mmap g = Some mm" "?t \<le> mm_len mm" "mm_len mm \<le> length (mf_file g)"
    by (auto simp: file_ok_def)
  have "\<exists>h. move_tail g (length x + n) (length x + length y) (length z) = Some h"
    using mm l(1) assms(5,8) writable_flags [of g ?f] by (simp add: move_tail_def mapped_def)
  then show ?thesis using m gt(1) unfolding parts(1) resizemfile_def Let_def parts(2,3) by auto
qed

lemma resized_zeros: "list_all (\<lambda>b. b = 0) t \<Longrightarrow> resized n y (z @ t) = resized n y z"
proof -
  assume "list_all (\<lambda>b. b = 0) t"
  then have t: "t = replicate (length t) 0" by (simp add: list_all_iff list_eq_iff_nth_eq)
  have "take (n - length y) (z @ t @ replicate (n - length y) 0) = take (n - length y) (z @ replicate (length t + (n - length y)) 0)"
    by (subst t) (simp add: replicate_add)
  also have "\<dots> = take (n - length y) (z @ replicate (n - length y) 0)" by (rule take_zeros) auto
  finally show ?thesis by (simp add: resized_def)
qed

lemma sim_resize:
  assumes rep: "seq_rep q s" and fits: "step_fits page q (Resize n)"
  shows "\<exists>r q' s'. f_resizeseq working page True q n = (r, q') \<and> aug_resizeseq True s n = (r, s') \<and> seq_rep q' s'"
proof -
  let ?f = "fq_mfile q"
  obtain x y z where b: "bytes_of ?f = x @ y @ z" "length x = fq_offset q" "length y = fq_len q"
      "mf_size ?f = length x + length y + length z"
    using rep_regions [OF rep] by blast
  have ok: "file_ok ?f" "writable ?f" using rep by (simp_all add: seq_rep_def)
  have bf: "length x + n + length z < 2 ^ 32"
    using fits b by (simp add: step_fits_def Let_def)
  have lt: "length (x @ y @ z) < 2 ^ 32" using ok(1) b(4) by (simp add: file_ok_def)
  obtain q' where q': "f_resizeseq working page True q n = (Inr (length x), q')" "file_ok (fq_mfile q')" "writable (fq_mfile q')"
      "fq_offset q' = length x" "fq_len q' = n" "mf_mmap (fq_mfile q') \<noteq> None"
      "bytes_of (fq_mfile q') = x @ resized n y z @ z"
  proof (cases "fq_len q < n")
    case True
    then have room: "room page ?f (length x + n + length z)" "list_all (\<lambda>b. b = 0) (stale ?f)"
      using fits b by (simp_all add: step_fits_def Let_def ac_simps)
    have n: "length y < n" using True b(3) by simp
    obtain r q1 where e: "f_resizeseq working page True q n = (r, q1)" by force
    obtain p where "r = Inr p"
      using resize_works [OF ok(1) b(1) b(2,3) [symmetric] n bf room(1) ok(2)] e by auto
    with f_resize_grow [OF ok b(1) b(2,3) [symmetric] n bf room(1) e] e show ?thesis
      by (intro that [of q1]) (auto simp: resized_bytes_def resized_zeros [OF room(2)])
  next
    case False
    then have n: "n \<le> length y" "mf_mmap ?f \<noteq> None" using fits b(3) by (simp_all add: step_fits_def Let_def)
    have "resized n y (z @ t) = resized n y z" for t using n(1) by (simp add: resized_def)
    with f_resize_shrink [OF ok n(2) b(1) b(2,3) [symmetric] n(1), of working page True] show ?thesis
      by (auto simp: resized_bytes_def intro: that)
  qed
  obtain s' where s': "aug_resizeseq True s n = (Inr (length x), s')" "sq_addr s' = Some (x @ resized n y z @ z)"
      "sq_offset s' = length x" "sq_len s' = n"
  proof (cases "mf_mmap ?f")
    case (Some mm)
    then have "sq_addr s = Some (x @ y @ z)" "sq_offset s = length x" "sq_len s = length y"
      using rep b by (simp_all add: seq_rep_def)
    from resize_region [OF this lt bf, of True] this show ?thesis
      by (intro that [of "s\<lparr>sq_addr := Some (x @ resized n y z @ z), sq_len := n\<rparr>"]) simp_all
  next
    case None
    then have "x = []" "y = []" "z = []" "sq_addr s = None" "sq_offset s = 0" "sq_len s = 0"
      using rep b by (auto simp: seq_rep_def bytes_of_def)
    then show ?thesis
      using bf by (intro that [of "s\<lparr>sq_addr := Some (replicate n 0), sq_len := n\<rparr>"])
        (simp_all add: aug_resizeseq_def aug_seqsize_def resizemem_def Let_def resized_def)
  qed
  have "mf_size (fq_mfile q') = length x + n + length z"
    using length_bytes_of [OF q'(2)] q'(7) by simp
  then show ?thesis using q' s' by (auto simp: seq_rep_def)
qed

lemma take_poke_front:
  assumes "p + length bs \<le> n" "n \<le> length xs"
  shows "take n (take p xs @ bs @ drop (p + length bs) xs) = poke (take n xs) p bs"
proof -
  have "take p (take n xs) = take p xs" "take (n - (p + length bs)) (drop (p + length bs) xs) = drop (p + length bs) (take n xs)"
    using assms by (simp_all add: min_def drop_take)
  moreover have "take n (take p xs @ bs @ r) = take p xs @ bs @ take (n - (p + length bs)) r" for r
    using assms by (cases "n = p") (auto simp: min_def)
  ultimately show ?thesis by (simp add: poke_def)
qed

lemma sim_store:
  assumes rep: "seq_rep q s" and fits: "step_fits page q (Store bs)"
  shows "\<exists>r q' s'. file_step working page True q (Store bs) = (r, q') \<and> mem_step s (Store bs) = (r, s') \<and> seq_rep q' s'"
proof -
  let ?f = "fq_mfile q"
  obtain mm where mm: "mf_mmap ?f = Some mm" "mm_addr mm" "mf_size ?f \<le> mm_len mm" "mm_len mm \<le> length (mf_file ?f)"
    using rep fits by (auto simp: seq_rep_def file_ok_def step_fits_def)
  have le: "fq_offset q + length bs \<le> mf_size ?f" using rep fits by (auto simp: seq_rep_def step_fits_def)
  let ?g = "put_mapped (poke (mapped ?f) (fq_offset q) bs) ?f"
  have map: "mapped ?f = take (mm_len mm) (mf_file ?f)" using mm(1) by (simp add: mapped_def)
  have g: "mf_file ?g = take (fq_offset q) (mf_file ?f) @ bs @ drop (fq_offset q + length bs) (mf_file ?f)"
    unfolding put_mapped_def map using poke_take_drop [of "fq_offset q" bs "mm_len mm" "mf_file ?f"] mm le by simp
  have "file_ok ?g"
    by (rule file_ok_upd [of ?f]) (use rep g mm le in \<open>auto simp: seq_rep_def put_mapped_def\<close>)
  moreover have "bytes_of ?g = poke (bytes_of ?f) (fq_offset q) bs"
    unfolding bytes_of_def g using le mm take_poke_front [of "fq_offset q" bs "mf_size ?f" "mf_file ?f"] by (simp add: put_mapped_def)
  moreover have "length (bytes_of ?f) = mf_size ?f" using rep length_bytes_of by (simp add: seq_rep_def)
  moreover have "writable ?g" using rep by (simp add: seq_rep_def writable_def put_mapped_def)
  moreover have "file_step working page True q (Store bs) = (Inr 0, q\<lparr>fq_mfile := ?g\<rparr>)"
    using rep mm le by (simp add: seq_rep_def aug_mfileaddr_def map)
  ultimately show ?thesis
    using rep mm le by (auto simp: seq_rep_def put_mapped_def)
qed

lemma sim_step:
  assumes "seq_rep q s" "step_fits page q opn"
  shows "\<exists>r q' s'. file_step working page True q opn = (r, q') \<and> mem_step s opn = (r, s') \<and> seq_rep q' s'"
proof (cases opn)
  case (Region p n)
  then have "p + n < 2 ^ 32" using assms(2) by (simp add: step_fits_def)
  then show ?thesis
    using assms(1) rep_size [OF assms(1)] Region
    by (auto simp: aug_setregion_def f_setregion_def f_seqsize_def seq_rep_def)
next
  case (Resize n)
  then show ?thesis using sim_resize [OF assms(1)] assms(2) by simp
next
  case (Store bs)
  then show ?thesis using sim_store [OF assms(1)] assms(2) by simp
qed

lemma sim_run:
  "seq_rep q s \<Longrightarrow> run_fits page q ops \<Longrightarrow>
   fst (file_run working page True q ops) = fst (mem_run s ops)
   \<and> seq_rep (snd (file_run working page True q ops)) (snd (mem_run s ops))"
proof (induction ops arbitrary: q s)
  case (Cons opn ops)
  obtain r q' s' where "file_step working page True q opn = (r, q')" "mem_step s opn = (r, s')" "seq_rep q' s'"
    using sim_step [OF Cons.prems(1), of page opn] Cons.prems(2) by auto
  with Cons.IH [OF this(3)] Cons.prems(2) show ?case by (auto split: prod.splits)
qed simp

section \<open>Opening, closing and opening again\<close>

definition write_mode :: "32 word \<Rightarrow> bool" where
  "write_mode flags \<longleftrightarrow> toflags (open_flags flags) = AUG_MMAPRD OR AUG_MMAPWR"

definition block :: "byte list \<Rightarrow> seq" where
  "block bs = \<lparr>sq_offset = 0, sq_len = 0, sq_addr = (if bs = [] then None else Some bs)\<rparr>"

definition content_of :: "seq \<Rightarrow> byte list" where
  "content_of s = (case sq_addr s of None \<Rightarrow> [] | Some m \<Rightarrow> m)"

definition opened :: "byte list \<Rightarrow> 32 word \<Rightarrow> mfile" where
  "opened bs flags = \<lparr>mf_file = bs, mf_calls = 1, mf_flags = toflags (open_flags flags), mf_resvd = length bs,
     mf_size = length bs, mf_mmap = None\<rparr>"

lemma openmfile_opened:
  "length bs < 2 ^ 32 \<Longrightarrow> aug_openmfile working True (\<lambda>_. Inr bs) flags = (Inr (opened bs flags), False)"
  by (simp add: aug_openmfile_def Let_def aug_fsize_def sys_call_def opened_def)

lemma toflags_readable:
  "toflags flags = AUG_MMAPRD \<or> toflags flags = AUG_MMAPRD OR AUG_MMAPWR \<Longrightarrow> length bs < 2 ^ 32 \<Longrightarrow> open_flags fl = flags \<Longrightarrow>
   file_ok (opened bs fl)"
  by (auto simp: file_ok_def opened_def)

lemma map_opened:
  assumes "file_ok (opened bs flags)" "bs \<noteq> []" "length bs < 2 ^ 32"
  shows "\<exists>f mm. aug_mapmfile working page True (opened bs flags) (length bs) = (Inr (), f) \<and> file_ok f
    \<and> mf_file f = bs \<and> mf_size f = length bs \<and> mf_mmap f = Some mm \<and> length bs \<le> mm_len mm
    \<and> mf_flags f = toflags (open_flags flags)"
proof -
  let ?f = "opened bs flags"
  have room: "room page ?f (length bs)" by (simp add: room_def opened_def)
  obtain f where m: "aug_mapmfile working page True ?f (length bs) = (Inr (), f)"
    using map_works [OF assms(1) room _ assms(3)] assms(2)
    by (cases "aug_mapmfile working page True ?f (length bs)") auto
  then obtain l where l: "mf_file f = grown l bs" "length bs \<le> l" "mf_flags f = toflags (open_flags flags)" "file_ok f"
      "mf_size f = length bs" "\<exists>mm. mf_mmap f = Some mm \<and> length bs \<le> mm_len mm"
    using map_any [OF m assms(1) room] assms(2) by (auto simp: opened_def)
  have ne: "\<not> mf_resvd ?f < length bs" by (simp add: opened_def)
  then have "mf_file f = bs"
  proof -
    obtain r g where g: "remap working page True ?f (length bs) = (r, g)" by force
    have "same_file (g\<lparr>mf_mmap := None\<rparr>) (?f\<lparr>mf_mmap := None\<rparr>)" using remap_new [OF g] assms(2) by simp
    from same_fileD [OF this] have "mf_file g = bs" by (simp add: opened_def)
    then show ?thesis using m g ne by (auto simp: aug_mapmfile_def mfile_extend_def opened_def split: sum.splits)
  qed
  then show ?thesis using l m by auto
qed

lemma openseq_rep:
  assumes "length bs < 2 ^ 32" "write_mode flags"
  shows "\<exists>q. aug_openseq working page True True (\<lambda>_. Inr bs) flags = Inr q \<and> seq_rep q (block bs)"
proof -
  have ok: "file_ok (opened bs flags)" "writable (opened bs flags)"
    using assms by (auto simp: file_ok_def opened_def write_mode_def writable_def AUG_MMAPRD_def AUG_MMAPWR_def)
  have r: "mf_resvd (opened bs flags) = length bs" by (simp add: opened_def)
  show ?thesis
  proof (cases "bs = []")
    case True
    then show ?thesis
      using ok assms(1) by (intro exI [of _ "\<lparr>fq_offset = 0, fq_len = 0, fq_mfile = opened bs flags\<rparr>"])
        (simp add: aug_openseq_def openmfile_opened seq_rep_def block_def, simp add: opened_def)
  next
    case False
    obtain f mm where f: "aug_mapmfile working page True (opened bs flags) (length bs) = (Inr (), f)" "file_ok f" "mf_file f = bs"
        "mf_size f = length bs" "mf_mmap f = Some mm" "length bs \<le> mm_len mm" "mf_flags f = toflags (open_flags flags)"
      using map_opened [OF ok(1) False assms(1)] by blast
    have "writable f" using f(7) ok(2) by (simp add: writable_def opened_def)
    then show ?thesis
      using False f assms(1) r by (simp add: aug_openseq_def openmfile_opened Let_def seq_rep_def block_def bytes_of_def)
  qed
qed

text \<open>Closing cuts the file to the bytes in use.\<close>

lemma close_works:
  assumes "file_ok f" "mf_mmap f \<noteq> None \<or> mf_file f = []"
  shows "fst (aug_closemfile working f) = Inr () \<and> mf_file (snd (aug_closemfile working f)) = bytes_of f"
proof (cases "mf_mmap f")
  case None
  then show ?thesis using assms by (simp add: aug_closemfile_def Let_def sys_call_def bytes_of_def)
next
  case (Some mm)
  have "length (mf_file f) \<le> mf_resvd f" "mf_size f \<le> length (mf_file f)" using assms(1) by (simp_all add: file_ok_def)
  then show ?thesis
    using Some by (auto simp: aug_closemfile_def Let_def destroymmap_def sys_call_def aug_ftruncate_def bytes_of_def)
qed

lemma destroy_content: "seq_rep q s \<Longrightarrow> f_destroyseq working q = content_of s"
  using close_works [of "fq_mfile q"] by (auto simp: f_destroyseq_def seq_rep_def content_of_def bytes_of_def)

text \<open>
  C4: A file's sequence does what one in memory does, and the file keeps it.  When a file of any bytes is
  opened for writing and every system call works, the operations of the archive on its sequence (setting the
  region, resizing it, storing into it) return what they return on a block of memory with
  the same bytes, as long as the sequence grows only where there is room, with zeros behind it, and the file is left
  with the bytes of that block when it is closed.
\<close>
theorem mapped_refines:
  assumes "length bs < 2 ^ 32" "write_mode flags"
    and "aug_openseq working page True True (\<lambda>_. Inr bs) flags = Inr q" "run_fits page q ops"
  shows "fst (file_run working page True q ops) = fst (mem_run (block bs) ops)
    \<and> f_destroyseq working (snd (file_run working page True q ops)) = content_of (snd (mem_run (block bs) ops))"
proof -
  have "seq_rep q (block bs)" using openseq_rep [OF assms(1,2), of page] assms(3) by auto
  from sim_run [OF this assms(4)] show ?thesis using destroy_content by simp
qed

text \<open>There is room for a sequence in a new file as long as it fits the page reserved first.\<close>

lemma room_first: "mf_resvd f = 0 \<Longrightarrow> mf_size f = 0 \<Longrightarrow> writable f \<Longrightarrow> 0 < n \<Longrightarrow> n \<le> reserve page n \<Longrightarrow> room page f n"
  by (simp add: room_def)

lemma reserve_one: "0 < n \<Longrightarrow> n \<le> page \<Longrightarrow> page < 2 ^ 32 \<Longrightarrow> reserve page n = page"
  by (cases "n = page") (auto simp: reserve_def Let_def)

lemma room_reserved: "n \<le> mf_resvd f \<Longrightarrow> n \<le> length (mf_file f) \<Longrightarrow> room page f n"
  by (simp add: room_def)

lemma mapped_refines_witness:
  "\<exists>q. aug_openseq working 8 True True (\<lambda>_. Inr [1, 2]) AUG_RDWR = Inr q
    \<and> fst (file_run working 8 True q [Region 1 1, Resize 3, Store [7, 8, 9], Region 0 9])
        = [Inr 0, Inr 1, Inr 0, Inl (ExError ERANGE)]
    \<and> f_destroyseq working (snd (file_run working 8 True q [Region 1 1, Resize 3, Store [7, 8, 9], Region 0 9])) = [1, 7, 8, 9]"
proof -
  let ?ops = "[Region 1 1, Resize 3, Store [7, 8, 9], Region 0 9]"
  have w: "write_mode AUG_RDWR"
    by (simp add: write_mode_def open_flags_def toflags_def AUG_RDWR_def AUG_WRONLY_def AUG_RDONLY_def AUG_APPEND_def Let_def)
  have l: "length [1, 2 :: byte] < 2 ^ 32" by simp
  obtain q where q: "aug_openseq working 8 True True (\<lambda>_. Inr [1, 2]) AUG_RDWR = Inr q" "seq_rep q (block [1, 2])"
    using openseq_rep [OF l w] by blast
  let ?f = "\<lparr>mf_file = [1, 2], mf_calls = 3, mf_flags = 3, mf_resvd = 2, mf_size = 2,
      mf_mmap = Some \<lparr>mm_addr = True, mm_len = 2, mm_prot = 3, mm_size = 2\<rparr>\<rparr> :: mfile"
  have "toflags (open_flags AUG_RDWR) = 3" using w by (simp add: write_mode_def AUG_MMAPRD_def AUG_MMAPWR_def)
  then have "aug_openseq working 8 True True (\<lambda>_. Inr [1, 2]) AUG_RDWR = Inr \<lparr>fq_offset = 0, fq_len = 0, fq_mfile = ?f\<rparr>"
    by (simp add: aug_openseq_def openmfile_opened opened_def Let_def aug_mapmfile_def mfile_extend_def remap_def
        aug_createmmap_def toprot_def AUG_MMAPRD_def AUG_MMAPWR_def aug_fsize_def sys_call_def mm_verify_def createmmap_def)
  then have qf: "q = \<lparr>fq_offset = 0, fq_len = 0, fq_mfile = ?f\<rparr>" using q(1) by simp
  let ?q1 = "\<lparr>fq_offset = 1, fq_len = 1, fq_mfile = ?f\<rparr>"
  have s1: "file_step working 8 True q (Region 1 1) = (Inr 0, ?q1)"
    by (simp add: qf f_setregion_def f_seqsize_def)
  have r1: "seq_rep ?q1 \<lparr>sq_offset = 1, sq_len = 1, sq_addr = Some [1, 2]\<rparr>"
    using q(2) by (simp add: qf seq_rep_def block_def bytes_of_def)
  have f1: "step_fits 8 ?q1 (Resize 3)"
    by (simp add: step_fits_def Let_def room_def writable_def AUG_MMAPWR_def reserve_def stale_def)
  obtain q2 s2 where s2: "f_resizeseq working 8 True ?q1 3 = (Inr 1, q2)" "seq_rep q2 s2" "sq_len s2 = 3" "sq_addr s2 \<noteq> None"
    using sim_resize [OF r1 f1]
    by (auto simp: aug_resizeseq_def resizemem_def aug_seqsize_def usub_def uadd_def Let_def memmove_def)
  have "step_fits 8 q2 (Store [7, 8, 9])" using s2 by (auto simp: step_fits_def seq_rep_def split: if_splits)
  then have "run_fits 8 q ?ops" using s1 f1 s2(1) by (simp add: step_fits_def)
  moreover have "fst (mem_run (block [1, 2]) ?ops) = [Inr 0, Inr 1, Inr 0, Inl (ExError ERANGE)]"
    "content_of (snd (mem_run (block [1, 2]) ?ops)) = [1, 7, 8, 9]"
    by (simp_all add: block_def content_of_def aug_setregion_def aug_resizeseq_def resizemem_def usub_def uadd_def Let_def
        memcpy_def memmove_def poke_def)
  ultimately show ?thesis using mapped_refines [OF l w q(1), of ?ops] q(1) by simp
qed

text \<open>
  Growing a file loses its end.  A file of \<open>size\<close> bytes that is opened, mapped and then grown is set to the
  difference of the new reservation and \<open>size\<close>; when that is not beyond \<open>size\<close>, the bytes after it are gone
  from the file, and mapping fails.
\<close>
lemma growing_loses_the_end:
  assumes "writable f" "mf_resvd f = mf_size f" "length (mf_file f) = mf_size f"
    and "mf_mmap f = Some mm" "mm_addr mm" "mm_len mm = mf_size f" "mm_size mm = mf_size f"
    and n: "mf_size f < n" "n < 2 ^ 32" "reserve page n \<le> 2 * mf_size f" "mf_size f \<le> reserve page n"
  shows "\<exists>g. aug_mapmfile working page True f n = (Inl (ExError EINVAL), g) \<and> mf_mmap g = None
    \<and> mf_file g = take (reserve page n - mf_size f) (mf_file f)"
proof -
  let ?l = "reserve page n - mf_size f"
  have l: "usub (reserve page n) (mf_size f) = ?l" "?l \<le> mf_size f" "?l < n"
    using n reserve_bound [of page n] by simp_all
  have "mm_verify page (min ?l (mf_size f)) 0 n = Some (ExError EINVAL)" using l n by (simp add: mm_verify_def)
  then show ?thesis
    using assms l by (simp add: aug_mapmfile_def mfile_extend_def aug_ftruncate_def sys_call_def Let_def remap_def
        aug_remmap_def aug_fsize_def destroymmap_def)
qed

text \<open>An archive of 3000 bytes that gets a field of 100 bytes more keeps 1096 bytes, with pages of 4096.\<close>

lemma growing_3000:
  "usub (reserve 4096 3100) 3000 = 1096"
  by (simp add: reserve_def usub_def)

section \<open>Content to and from a file\<close>

lemma reserve_ge:
  assumes "0 < page" "n + page \<le> 2 ^ 32"
  shows "n \<le> reserve page n"
proof (cases "n mod page = 0")
  case True
  then have "n div page * page = n" using div_mult_mod_eq [of n page] by simp
  then show ?thesis using True assms by (simp add: reserve_def Let_def)
next
  case False
  define k where "k = n div page * page"
  have "k + n mod page = n" "n mod page < page" using assms(1) by (simp_all add: k_def)
  then have "n \<le> k + page" "k + page < 2 ^ 32" using False assms(2) by linarith+
  moreover have "(n div page + 1) * page = k + page" by (simp add: k_def)
  ultimately show ?thesis using False by (simp add: reserve_def Let_def)
qed

text \<open>
  C5: Content goes to a file and comes back.  When every system call works, extracting the content of an
  archive that may be read leaves a file with just its bytes, of any number up to a page below 4 GB, and does not change the archive;
  inserting a file that is not empty into an archive that may be written makes the file's bytes its content, keeping its
  fields.
\<close>
theorem extract_insert:
  assumes m: "mar_refines m a" and r: "can_read a" and p: "0 < page" "length (ar_body a) + page \<le> 2 ^ 32"
    and m': "mar_refines m' a'" and w: "can_write a'" and bs: "bs \<noteq> []" "asize (a'\<lparr>ar_body := bs\<rparr>) < 2 ^ 32" "ar_offset a' < 2 ^ 32"
  shows "(\<exists>n. extract_BIN working page True True (\<lambda>_. Inr []) m = (Inr (), Some (ar_body a), n) \<and> mar_refines n a)
    \<and> (\<exists>n. insert_BIN working page True True True (\<lambda>_. Inr bs) m' = (Inr (), n) \<and> mar_refines n (a'\<lparr>ar_body := bs\<rparr>))"
proof (rule conjI)
  let ?b = "ar_body a" and ?fl = "AUG_WRONLY OR AUG_CREAT OR AUG_TRUNC"
  have rep: "mar_rep (mr_seq m) (mr_info m) (ar_fields a) ?b" using m by (simp add: mar_refines_def)
  have size: "if_bsize (mr_info m) = length ?b" using rep by (rule enter_body)
  obtain src s where g: "aug_getcontent (mr_seq m) (mr_info m) = (Inr src, s)" "same_mem (mr_seq m) s"
      "bytes_at s src (length ?b) = ?b"
    using getcontent_rep [OF rep] by (auto split: prod.splits)
  have n: "mar_refines (m\<lparr>mr_seq := s\<rparr>) a" using m g(2) by (simp add: mar_refines_def same_mem_rep)
  have w: "write_mode ?fl"
    by (simp add: write_mode_def open_flags_def toflags_def AUG_RDWR_def AUG_WRONLY_def AUG_RDONLY_def AUG_APPEND_def
        AUG_CREAT_def AUG_TRUNC_def Let_def)
  have ok: "file_ok (opened [] ?fl)" "writable (opened [] ?fl)"
    using w by (auto simp: file_ok_def opened_def write_mode_def writable_def AUG_MMAPRD_def AUG_MMAPWR_def)
  have o0: "fst (aug_openmfile working True (\<lambda>_. Inr []) ?fl) = Inr (opened [] ?fl)"
    using openmfile_opened [of "[]" ?fl] by simp
  have rd: "READABLE m" using READABLE_iff [OF m] r by simp
  show "\<exists>n. extract_BIN working page True True (\<lambda>_. Inr []) m = (Inr (), Some ?b, n) \<and> mar_refines n a"
  proof (cases "?b = []")
    case True
    have "fst (aug_closemfile working (opened [] ?fl)) = Inr () \<and> mf_file (snd (aug_closemfile working (opened [] ?fl))) = []"
      using close_works [OF ok(1)] by (simp add: opened_def bytes_of_def)
    then show ?thesis using True rd size g(1) o0 n by (simp add: extract_BIN_def Let_def)
  next
    case False
    have lb: "length ?b < 2 ^ 32" using p by simp
    have "room page (opened [] ?fl) (length ?b)"
      using False ok(2) reserve_ge [OF p] by (simp add: room_def opened_def)
    note room = this
    obtain f where f: "aug_mapmfile working page True (opened [] ?fl) (length ?b) = (Inr (), f)"
      using map_works [OF ok(1) room _ lb] False by (cases "aug_mapmfile working page True (opened [] ?fl) (length ?b)") auto
    obtain mm where f2: "file_ok f" "mf_size f = length ?b" "mf_mmap f = Some mm" "length ?b \<le> mm_len mm" "mm_len mm \<le> length (mf_file f)"
      using map_any [OF f ok(1) room] False by (auto simp: opened_def file_ok_def)
    have mapd: "mapped f = take (mm_len mm) (mf_file f)" using f2(3) by (simp add: mapped_def)
    let ?g = "put_mapped (poke (mapped f) 0 ?b) f"
    have gf: "mf_file ?g = ?b @ drop (length ?b) (mf_file f)"
      unfolding put_mapped_def mapd using poke_take_drop [of 0 ?b "mm_len mm" "mf_file f"] f2(4,5) by simp
    have "file_ok ?g"
      by (rule file_ok_upd [OF f2(1)]) (use gf f2 in \<open>auto simp: put_mapped_def\<close>)
    moreover have "mf_mmap ?g \<noteq> None" "bytes_of ?g = ?b" unfolding bytes_of_def gf using f2 by (simp_all add: put_mapped_def)
    ultimately have c: "fst (aug_closemfile working ?g) = Inr () \<and> mf_file (snd (aug_closemfile working ?g)) = ?b"
      using close_works [of ?g] by simp
    have "memcpy (mapped f) 0 (slice src (length ?b) (the (sq_addr s))) = Some (poke (mapped f) 0 ?b)"
      using g(3) f2 mapd by (simp add: bytes_at_def)
    then show ?thesis using False rd size g(1) o0 n f c by (simp add: extract_BIN_def Let_def)
  qed
next
  let ?b' = "a'\<lparr>ar_body := bs\<rparr>"
  have lb: "length bs < 2 ^ 32" using bs(2) by (simp add: asize_def)
  have fl: "toflags (open_flags AUG_RDONLY) = AUG_MMAPRD"
    by (simp add: open_flags_def toflags_def AUG_RDWR_def AUG_WRONLY_def AUG_RDONLY_def AUG_APPEND_def Let_def)
  have ok: "file_ok (opened bs AUG_RDONLY)" using lb fl by (auto simp: file_ok_def opened_def)
  obtain f mm where f: "aug_mapmfile working page True (opened bs AUG_RDONLY) (length bs) = (Inr (), f)" "file_ok f" "mf_file f = bs"
      "mf_size f = length bs" "mf_mmap f = Some mm" "length bs \<le> mm_len mm"
    using map_opened [OF ok bs(1) lb] by blast
  have s: "spec True a' (SetContent bs) = (Inr RNone, ?b')" using w by (simp add: guard_def commit_def)
  have "in_scope a' (SetContent bs)" unfolding in_scope_def s using bs by simp
  from exec_sim [OF m' this, of True] s obtain n where n: "setcontent_BIN True m' bs = (Inr (), n)" "mar_refines n ?b'"
    by (cases "setcontent_BIN True m' bs") (auto simp: simulates_def map_res_def split: sum.splits)
  have "take (length bs) (mapped f) = bs" using f by (simp add: mapped_def)
  moreover have "fst (aug_closemfile working f) = Inr ()" using close_works [OF f(2)] f(5) by simp
  ultimately show "\<exists>n. insert_BIN working page True True True (\<lambda>_. Inr bs) m' = (Inr (), n) \<and> mar_refines n ?b'"
    using f(1) n bs(1) openmfile_opened [OF lb, of AUG_RDONLY] by (simp add: insert_BIN_def Let_def opened_def)
qed

lemma extract_insert_witness:
  "\<exists>m. aug_createmar True True = Inr m
    \<and> (\<exists>n. extract_BIN working 4096 True True (\<lambda>_. Inr []) m = (Inr (), Some [], n))
    \<and> (\<exists>n. insert_BIN working 4096 True True True (\<lambda>_. Inr [7]) m = (Inr (), n) \<and> mar_refines n (empty_archive\<lparr>ar_body := [7]\<rparr>))"
proof -
  obtain m where m: "aug_createmar True True = Inr m" "mar_refines m empty_archive" using createmar_empty by blast
  have rw: "can_read empty_archive" "can_write empty_archive"
    by (simp_all add: empty_archive_def can_read_def can_write_def torw_def AUG_RDWR_def AUG_RDONLY_def AUG_WRONLY_def
        MAR_READ_def MAR_WRITE_def Let_def)
  have e: "ar_body empty_archive = []" "ar_offset empty_archive = 0" "asize (empty_archive\<lparr>ar_body := [7]\<rparr>) = 17"
    by (simp_all add: empty_archive_def asize_def hdr_def)
  have h: "0 < (4096 :: nat)" "length (ar_body empty_archive) + 4096 \<le> 2 ^ 32" "[7 :: byte] \<noteq> []"
    "asize (empty_archive\<lparr>ar_body := [7]\<rparr>) < 2 ^ 32" "ar_offset empty_archive < 2 ^ 32"
    using e by simp_all
  show ?thesis
    using extract_insert [OF m(2) rw(1) h(1,2) m(2) rw(2) h(3-5)] m(1) unfolding e(1) by blast
qed

text \<open>An empty file is not inserted: the content stays what it was.\<close>

lemma insert_empty_keeps:
  "insert_BIN working page True True True (\<lambda>_. Inr []) m = (Inr (), m)"
  by (simp add: insert_BIN_def openmfile_opened Let_def opened_def aug_closemfile_def sys_call_def)

end
