(* ===== verification/Getopt.thy ===== *)
theory Getopt
  imports Prelude
begin

text \<open>
  \<^verbatim>\<open>augutil/getopt.c\<close> and its copy \<^verbatim>\<open>mar/getopt.c\<close>: one option of the command line at a time.  The static
  variables are the state \<open>gopt\<close>; \<open>go_scan\<close> is the text that is left of the current word, \<open>None\<close>
  for a null pointer.  Words are C strings without their end, and the number of words is \<^verbatim>\<open>argc\<close>; messages
  on the standard error are not modelled.

  \<open>getopt_reads\<close> gives the results of the calls up to the end by a recursion over the words.
\<close>

record gopt =
  go_optarg :: "byte list option"
  go_optind :: nat
  go_optopt :: byte
  go_scan :: "byte list option"

text \<open>The next word of options, when the current one is used up; \<open>False\<close> at the end of the options.\<close>

definition getopt_word :: "byte list list \<Rightarrow> gopt \<Rightarrow> bool \<times> gopt" where
  "getopt_word argv g =
     (if go_scan g = None \<or> go_scan g = Some [] then
        if length argv \<le> go_optind g then (False, g)
        else
          let w = argv ! go_optind g in
          if length w < 2 \<or> w ! 0 \<noteq> 45 then (False, g)
          else if w = [45, 45] then (False, g\<lparr>go_optind := go_optind g + 1\<rparr>)
          else (True, g\<lparr>go_scan := Some (tl w), go_optind := go_optind g + 1\<rparr>)
      else (True, g))"

text \<open>\<^verbatim>\<open>EOF\<close> is -1 and the result for a bad option is \<^verbatim>\<open>'?'\<close>.\<close>

definition getopt_option :: "byte list list \<Rightarrow> byte list \<Rightarrow> gopt \<Rightarrow> int \<times> gopt" where
  "getopt_option argv optstring g =
     (let scan = the (go_scan g);
          c = hd scan;
          scan = tl scan;
          g = g\<lparr>go_scan := Some scan, go_optopt := c\<rparr>;
          place = dropWhile (\<lambda>p. p \<noteq> c) optstring
      in if place = [] \<or> c = 58 \<or> c = 63 then (63, g)
         else
           let place = tl place in
           if place \<noteq> [] \<and> hd place = 58 then
             if scan \<noteq> [] then (int (unat c), g\<lparr>go_optarg := Some scan, go_scan := None\<rparr>)
             else if length argv \<le> go_optind g then (63, g)
             else (int (unat c), g\<lparr>go_optarg := Some (argv ! go_optind g), go_optind := go_optind g + 1\<rparr>)
           else (int (unat c), g))"

definition aug_getopt :: "byte list list \<Rightarrow> byte list \<Rightarrow> gopt \<Rightarrow> int \<times> gopt" where
  "aug_getopt argv optstring g =
     (let g = g\<lparr>go_optarg := None\<rparr>;
          g = (if go_optind g = 0 then g\<lparr>go_scan := None, go_optind := 1\<rparr> else g)
      in case getopt_word argv g of
           (False, g) \<Rightarrow> (- 1, g)
         | (True, g) \<Rightarrow> getopt_option argv optstring g)"

section \<open>Every call uses up some of the command line\<close>

definition text_left :: "byte list list \<Rightarrow> gopt \<Rightarrow> nat" where
  "text_left argv g = (case go_scan g of None \<Rightarrow> 0 | Some s \<Rightarrow> length s)
     + sum_list (map (\<lambda>w. Suc (length w)) (drop (go_optind g) argv))"

lemma drop_sum: "i < length ws \<Longrightarrow> sum_list (map f (drop i ws)) = f (ws ! i) + sum_list (map f (drop (Suc i) ws))" for f :: "'a \<Rightarrow> nat"
  by (simp flip: Cons_nth_drop_Suc)

lemma drop_sum_le: "sum_list (map f (drop (Suc i) ws)) \<le> sum_list (map f (drop i ws))" for f :: "'a \<Rightarrow> nat"
  by (cases "i < length ws") (simp_all add: drop_sum)

lemma tl_two: "\<not> length w < 2 \<Longrightarrow> tl w \<noteq> []"
  by (cases w) auto

lemma word_left:
  assumes "getopt_word argv g = (b, g')"
  shows "text_left argv g' \<le> text_left argv g" "b \<Longrightarrow> go_scan g' \<noteq> None" "b \<Longrightarrow> the (go_scan g') \<noteq> []"
    "go_optarg g' = go_optarg g" "go_optind g \<le> go_optind g'"
proof -
  have "length (tl w) < Suc (length w)" for w :: "byte list" by simp
  then show "text_left argv g' \<le> text_left argv g"
    using assms by (auto simp: getopt_word_def text_left_def Let_def drop_sum split: if_splits)
  show "b \<Longrightarrow> go_scan g' \<noteq> None" "b \<Longrightarrow> the (go_scan g') \<noteq> []" "go_optarg g' = go_optarg g" "go_optind g \<le> go_optind g'"
    using assms tl_two [of "argv ! go_optind g"] by (auto simp: getopt_word_def Let_def split: if_splits)
qed

lemma option_left:
  assumes "go_scan g \<noteq> None" "the (go_scan g) \<noteq> []" "getopt_option argv optstring g = (r, g')"
  shows "text_left argv g' < text_left argv g"
proof -
  obtain c cs where s: "go_scan g = Some (c # cs)" using assms(1,2) by (auto simp: neq_Nil_conv)
  let ?f = "\<lambda>w. Suc (length w)"
  have "sum_list (map ?f (drop (Suc (go_optind g)) argv)) \<le> sum_list (map ?f (drop (go_optind g) argv))"
    by (rule drop_sum_le)
  then show ?thesis using assms(3) s by (auto simp: getopt_option_def text_left_def Let_def split: if_splits)
qed

lemma option_result: "getopt_option argv optstring g = (r, g') \<Longrightarrow> 0 \<le> r"
  by (auto simp: getopt_option_def Let_def split: if_splits)

lemma getopt_left:
  assumes "aug_getopt argv optstring g = (r, g')" "r \<noteq> - 1"
  shows "text_left argv g' < text_left argv g"
proof -
  let ?g = "g\<lparr>go_optarg := None\<rparr>"
  let ?h = "if go_optind ?g = 0 then ?g\<lparr>go_scan := None, go_optind := 1\<rparr> else ?g"
  have h: "text_left argv ?h \<le> text_left argv g"
    using drop_sum_le [of "\<lambda>w. Suc (length w)" 0 argv] by (auto simp: text_left_def)
  obtain b w where w: "getopt_word argv ?h = (b, w)" by force
  have b: "b" using assms w by (cases b) (auto simp: aug_getopt_def Let_def)
  have "getopt_option argv optstring w = (r, g')" using assms w b by (simp add: aug_getopt_def Let_def)
  from option_left [OF _ _ this] word_left [OF w] b h show ?thesis by simp
qed

section \<open>The calls up to the end\<close>

text \<open>What a program sees of each call: the result, the argument and the character looked at.\<close>

function getopt_all :: "byte list list \<Rightarrow> byte list \<Rightarrow> gopt \<Rightarrow> (int \<times> byte list option \<times> byte) list \<times> gopt" where
  "getopt_all argv optstring g =
     (case aug_getopt argv optstring g of (r, g') \<Rightarrow>
        if r = - 1 then ([], g')
        else case getopt_all argv optstring g' of (rs, g'') \<Rightarrow> ((r, go_optarg g', go_optopt g') # rs, g''))"
  by pat_completeness auto
termination
  by (relation "measure (\<lambda>(argv, optstring, g). text_left argv g)") (auto intro: getopt_left [OF sym])

declare getopt_all.simps [simp del]

text \<open>The same by a recursion over the words: \<open>text\<close> is what is left of the current one.\<close>

definition takes_arg :: "byte list \<Rightarrow> byte \<Rightarrow> bool option" where
  "takes_arg optstring c =
     (case dropWhile (\<lambda>p. p \<noteq> c) optstring of
        [] \<Rightarrow> None
      | p # ps \<Rightarrow> if c = 58 \<or> c = 63 then None else Some (ps \<noteq> [] \<and> hd ps = 58))"

function options :: "byte list \<Rightarrow> byte list \<Rightarrow> byte list list \<Rightarrow> (int \<times> byte list option \<times> byte) list \<times> byte list list" where
  "options optstring [] [] = ([], [])"
| "options optstring [] (w # ws) =
     (if length w < 2 \<or> w ! 0 \<noteq> 45 then ([], w # ws)
      else if w = [45, 45] then ([], ws)
      else options optstring (tl w) ws)"
| "options optstring (c # cs) ws =
     (case takes_arg optstring c of
        None \<Rightarrow> apfst (Cons (63, None, c)) (options optstring cs ws)
      | Some False \<Rightarrow> apfst (Cons (int (unat c), None, c)) (options optstring cs ws)
      | Some True \<Rightarrow>
          if cs \<noteq> [] then apfst (Cons (int (unat c), Some cs, c)) (options optstring [] ws)
          else if ws = [] then apfst (Cons (63, None, c)) (options optstring [] [])
          else apfst (Cons (int (unat c), Some (hd ws), c)) (options optstring [] (tl ws)))"
  by pat_completeness auto
termination
  by (relation "measure (\<lambda>(optstring, cs, ws). length cs + sum_list (map (\<lambda>w. Suc (length w)) ws))")
     (auto simp: neq_Nil_conv)

declare options.simps [simp del]

definition scan_text :: "gopt \<Rightarrow> byte list" where
  "scan_text g = (case go_scan g of None \<Rightarrow> [] | Some s \<Rightarrow> s)"

lemma takes_arg_place:
  "takes_arg optstring c = None \<longleftrightarrow> dropWhile (\<lambda>p. p \<noteq> c) optstring = [] \<or> c = 58 \<or> c = 63"
  "takes_arg optstring c = Some b \<Longrightarrow> (tl (dropWhile (\<lambda>p. p \<noteq> c) optstring) \<noteq> [] \<and> hd (tl (dropWhile (\<lambda>p. p \<noteq> c) optstring)) = 58) = b"
  by (cases "dropWhile (\<lambda>p. p \<noteq> c) optstring"; simp add: takes_arg_def del: dropWhile_eq_Nil_conv split: if_splits)+

text \<open>One call within a word, and one that goes on to the next.\<close>

lemma option_step:
  assumes "go_scan g = Some (c # cs)" "go_optarg g = None"
  shows "options optstring (c # cs) (drop (go_optind g) argv) =
    (case getopt_option argv optstring g of (r, g') \<Rightarrow>
       apfst (Cons (r, go_optarg g', go_optopt g')) (options optstring (scan_text g') (drop (go_optind g') argv)))
    \<and> (0 < go_optind g \<longrightarrow> 0 < go_optind (snd (getopt_option argv optstring g)))"
proof (cases "takes_arg optstring c")
  case None
  then show ?thesis
    using assms takes_arg_place(1) [of optstring c] by (simp add: options.simps getopt_option_def Let_def scan_text_def)
next
  case (Some b)
  then have p: "\<not> (dropWhile (\<lambda>p. p \<noteq> c) optstring = [] \<or> c = 58 \<or> c = 63)"
    "(tl (dropWhile (\<lambda>p. p \<noteq> c) optstring) \<noteq> [] \<and> hd (tl (dropWhile (\<lambda>p. p \<noteq> c) optstring)) = 58) = b"
    using takes_arg_place [of optstring c] by auto
  then show ?thesis
    using assms Some
    by (cases b) (auto simp: options.simps getopt_option_def Let_def scan_text_def hd_drop_conv_nth drop_Suc tl_drop)
qed

lemma word_step:
  "options optstring (scan_text g) (drop (go_optind g) argv) =
    (case getopt_word argv g of
       (False, g') \<Rightarrow> ([], drop (go_optind g') argv)
     | (True, g') \<Rightarrow> options optstring (scan_text g') (drop (go_optind g') argv))"
proof (cases "go_scan g = None \<or> go_scan g = Some []")
  case False
  then have "getopt_word argv g = (True, g)" unfolding getopt_word_def by (simp only: if_False)
  then show ?thesis by simp
next
  case True
  then have e: "scan_text g = []" by (auto simp: scan_text_def)
  show ?thesis
  proof (cases "length argv \<le> go_optind g")
    case True
    then show ?thesis using e \<open>go_scan g = None \<or> go_scan g = Some []\<close>
      by (simp add: getopt_word_def options.simps)
  next
    case False
    then have d: "drop (go_optind g) argv = argv ! go_optind g # drop (Suc (go_optind g)) argv"
      by (simp add: Cons_nth_drop_Suc)
    have "options optstring [] (drop (go_optind g) argv) =
       (if length (argv ! go_optind g) < 2 \<or> argv ! go_optind g ! 0 \<noteq> 45 then ([], drop (go_optind g) argv)
        else if argv ! go_optind g = [45, 45] then ([], drop (Suc (go_optind g)) argv)
        else options optstring (tl (argv ! go_optind g)) (drop (Suc (go_optind g)) argv))"
      unfolding d options.simps(2) ..
    then show ?thesis
      using True False unfolding e by (auto simp: getopt_word_def Let_def scan_text_def)
  qed
qed

lemma getopt_all_options:
  "0 < go_optind g \<Longrightarrow> getopt_all argv optstring g = (rs, g') \<Longrightarrow>
   options optstring (scan_text g) (drop (go_optind g) argv) = (rs, drop (go_optind g') argv)"
proof (induction argv optstring g arbitrary: rs g' rule: getopt_all.induct)
  case (1 argv optstring g)
  let ?h = "g\<lparr>go_optarg := None\<rparr>"
  obtain b w where w: "getopt_word argv ?h = (b, w)" by force
  have st: "options optstring (scan_text g) (drop (go_optind g) argv) =
    (if b then options optstring (scan_text w) (drop (go_optind w) argv) else ([], drop (go_optind w) argv))"
    using word_step [of optstring ?h argv] w by (simp add: scan_text_def split: if_splits)
  show ?case
  proof (cases b)
    case False
    then have "aug_getopt argv optstring g = (- 1, w)" using w "1.prems"(1) by (simp add: aug_getopt_def Let_def)
    then show ?thesis using "1.prems"(2) st False by (simp add: getopt_all.simps [of argv optstring g])
  next
    case True
    note left = word_left [OF w]
    obtain c cs where s: "go_scan w = Some (c # cs)" using left(2,3) True by (auto simp: neq_Nil_conv)
    obtain r u where u: "getopt_option argv optstring w = (r, u)" by force
    have r: "aug_getopt argv optstring g = (r, u)" "r \<noteq> - 1"
      using w True u option_result [OF u] "1.prems"(1) by (simp_all add: aug_getopt_def Let_def)
    have o: "options optstring (c # cs) (drop (go_optind w) argv) =
        apfst (Cons (r, go_optarg u, go_optopt u)) (options optstring (scan_text u) (drop (go_optind u) argv))"
      "0 < go_optind u"
      using option_step [OF s, of optstring argv] u left(4,5) "1.prems"(1) by auto
    obtain rs1 g1 where a: "getopt_all argv optstring u = (rs1, g1)" by force
    then have "rs = (r, go_optarg u, go_optopt u) # rs1" "g' = g1"
      using "1.prems"(2) r by (simp_all add: getopt_all.simps [of argv optstring g])
    with "1.IH" [OF r(1) [symmetric] r(2) o(2) a] st True s o(1) show ?thesis
      by (simp add: scan_text_def)
  qed
qed

lemma getopt_all_start:
  assumes "go_optind g = 0" "getopt_all argv optstring g = (rs, g')"
  shows "options optstring [] (drop 1 argv) = (rs, drop (go_optind g') argv)"
proof -
  let ?g = "g\<lparr>go_scan := None, go_optind := 1\<rparr>"
  have "aug_getopt argv optstring g = aug_getopt argv optstring ?g"
    using assms(1) by (cases g) (simp add: aug_getopt_def Let_def)
  then have "getopt_all argv optstring ?g = (rs, g')"
    using assms(2) unfolding getopt_all.simps [of argv optstring g] getopt_all.simps [of argv optstring ?g] by (simp only:)
  from getopt_all_options [OF _ this] show ?thesis by (simp add: scan_text_def)
qed

text \<open>
  C37: The calls read the options of the command line in order.  From a state that starts over (an index of
  zero), the calls of \<^verbatim>\<open>aug_getopt\<close> up to the end give the options of the words after the first: words that begin with a
  dash are read character by character, an option that takes an argument takes the rest of its word or the
  next word, unknown ones and those whose argument is missing give a question mark, and a word that is no option
  or the word of two dashes ends them; the index is then that of the first word not read.
\<close>
theorem getopt_reads:
  assumes "go_optind g = 0" "getopt_all argv optstring g = (rs, g')"
  shows "options optstring [] (drop 1 argv) = (rs, drop (go_optind g') argv)"
  using assms by (rule getopt_all_start)

lemma getopt_reads_witness:
  "fst (getopt_all [[109], [45, 97, 98, 99], [45, 98], [100], [45, 45], [45, 97]] [97, 98, 58]
      \<lparr>go_optarg = None, go_optind = 0, go_optopt = 0, go_scan = Some [1]\<rparr>)
    = [(97, None, 97), (98, Some [99], 98), (98, Some [100], 98)]"
proof -
  let ?argv = "[[109], [45, 97, 98, 99], [45, 98], [100], [45, 45], [45, 97]] :: byte list list"
  let ?g = "\<lparr>go_optarg = None, go_optind = 0, go_optopt = 0, go_scan = Some [1]\<rparr>"
  obtain rs g' where r: "getopt_all ?argv [97, 98, 58] ?g = (rs, g')" by force
  have "options [97, 98, 58] [] (drop 1 ?argv) = ([(97, None, 97), (98, Some [99], 98), (98, Some [100], 98)], [[45, 97]])"
    by (simp add: options.simps takes_arg_def)
  then show ?thesis using getopt_reads [OF _ r] r by simp
qed

end
