(* ===== verification/Pidfile.thy ===== *)
theory Pidfile
  imports Conv
begin

text \<open>
  \<^verbatim>\<open>augserv/posix/daemon.c\<close> and \<^verbatim>\<open>control.c\<close>: the pid file by which daemons exclude each other and control
  commands find the daemon.  Any number of daemons and control commands share one path; each call of the system is
  a step, so that every interleaving of the processes is an execution, and any process may be killed at
  any time.  A file is an inode, which a path may lose while processes have it open.  Locks are those of \<^verbatim>\<open>fcntl\<close>: of
  a process on a file, gone when the process closes the file or ends.  A process id is not used again.

  Every call may fail; the answer of the system to a call is part of the step.  The configuration, the forks of
  \<^verbatim>\<open>daemonise_B_\<close> and what \<^verbatim>\<open>aug_runserv\<close> does are not modelled: a daemon starts as the process that
  is left after the forks, and runs until it ends.

  A daemon's file has its process id while it runs; no two run on one file; two can run at the same time only if a control
  command has removed the file, and they can then.  A stop that succeeds has seen the daemon end.
\<close>

section \<open>Files, locks and signals\<close>

text \<open>\<open>ux_unlinks\<close> counts how often the path was removed; the code does not see it.\<close>

record unix =
  ux_path :: "nat option"
  ux_next :: nat
  ux_text :: "nat \<Rightarrow> byte list"
  ux_locks :: "(nat \<times> nat \<times> bool) list"
  ux_signals :: "(nat \<times> nat) list"
  ux_unlinks :: nat

datatype answer = Done | Fail nat | Short nat

text \<open>\<open>conflict\<close>: a lock of another process on the file that excludes one of the given kind.\<close>

definition conflict :: "nat \<Rightarrow> nat \<Rightarrow> bool \<Rightarrow> nat \<times> nat \<times> bool \<Rightarrow> bool" where
  "conflict pid ino ex l = (case l of (i, p, x) \<Rightarrow> i = ino \<and> p \<noteq> pid \<and> (x \<or> ex))"

definition EAGAIN :: nat where "EAGAIN = 11"

text \<open>
  \<^verbatim>\<open>flock_BI_\<close> with \<^verbatim>\<open>F_SETLK\<close>, for a lock that excludes all others (\<^verbatim>\<open>F_WRLCK\<close>) or only
  those (\<^verbatim>\<open>F_RDLCK\<close>), and with \<^verbatim>\<open>F_GETLK\<close> for \<^verbatim>\<open>F_RDLCK\<close>: the process id is 0, as
  \<^verbatim>\<open>bzero\<close> left it, when nothing is in the way.
\<close>

definition flock :: "answer \<Rightarrow> nat \<Rightarrow> nat \<Rightarrow> bool \<Rightarrow> unix \<Rightarrow> (nat + unit) \<times> unix" where
  "flock a pid ino ex u =
     (case a of
        Fail e \<Rightarrow> (Inl e, u)
      | _ \<Rightarrow>
          if list_ex (conflict pid ino ex) (ux_locks u) then (Inl EAGAIN, u)
          else (Inr (), u\<lparr>ux_locks := (ino, pid, ex) # filter (\<lambda>(i, p, x). \<not> (i = ino \<and> p = pid)) (ux_locks u)\<rparr>))"

definition getlk :: "answer \<Rightarrow> nat \<Rightarrow> nat \<Rightarrow> unix \<Rightarrow> nat + nat" where
  "getlk a pid ino u =
     (case a of
        Fail e \<Rightarrow> Inl e
      | _ \<Rightarrow>
          (case filter (conflict pid ino False) (ux_locks u) of
             [] \<Rightarrow> Inr 0
           | (i, p, x) # ls \<Rightarrow> Inr p))"

text \<open>The end of a process, and closing its file.\<close>

definition unlock :: "nat \<Rightarrow> unix \<Rightarrow> unix" where
  "unlock pid u = u\<lparr>ux_locks := filter (\<lambda>(i, p, x). p \<noteq> pid) (ux_locks u)\<rparr>"

section \<open>The daemon (daemon.c)\<close>

datatype dpc = DStart | DOpened nat | DLocked nat | DTruncated nat | DWritten nat | DRunning nat | DExited

text \<open>\<^verbatim>\<open>log10\<close> rounded down, and one.\<close>

fun digits :: "nat \<Rightarrow> nat" where
  "digits n = (if n < 10 then 1 else 1 + digits (n div 10))"

declare digits.simps [simp del]

text \<open>\<^verbatim>\<open>snprintf\<close> into a buffer of the computed size gives the whole line only if that is the right one.\<close>

definition writepid :: "answer \<Rightarrow> nat \<Rightarrow> nat \<Rightarrow> unix \<Rightarrow> bool \<times> unix" where
  "writepid a pid ino u =
     (let len = digits pid + 1;
          line = decimal pid @ [10]
      in if len \<noteq> length line then (False, u)
         else case a of
                Fail e \<Rightarrow> (False, u)
              | Short n \<Rightarrow>
                  (if n < len then (False, u\<lparr>ux_text := (ux_text u)(ino := take n line)\<rparr>)
                   else (True, u\<lparr>ux_text := (ux_text u)(ino := line)\<rparr>))
              | Done \<Rightarrow> (True, u\<lparr>ux_text := (ux_text u)(ino := line)\<rparr>))"

text \<open>
  \<^verbatim>\<open>lockfile_BIN_\<close> call by call, then what follows it in \<^verbatim>\<open>aug_daemonise_BIN_\<close>.  From \<open>DWritten\<close> on,
  \<^verbatim>\<open>fsync\<close>, the standard input and \<^verbatim>\<open>aug_initserv_BIN\<close> are one step, since they share nothing with
  other processes.  After a failure the process ends, and it ends after \<^verbatim>\<open>aug_runserv\<close>.
\<close>

fun daemon_step :: "nat \<Rightarrow> answer \<Rightarrow> dpc \<Rightarrow> unix \<Rightarrow> (dpc \<times> unix) option" where
  "daemon_step pid a DStart u =
     (case a of
        Fail e \<Rightarrow> Some (DExited, unlock pid u)
      | _ \<Rightarrow>
          (case ux_path u of
             Some i \<Rightarrow> Some (DOpened i, u)
           | None \<Rightarrow>
               Some (DOpened (ux_next u),
                 u\<lparr>ux_path := Some (ux_next u), ux_next := ux_next u + 1, ux_text := (ux_text u)(ux_next u := [])\<rparr>)))"
| "daemon_step pid a (DOpened i) u =
     (case flock a pid i True u of
        (Inl e, u) \<Rightarrow> Some (DExited, unlock pid u)
      | (Inr v, u) \<Rightarrow> Some (DLocked i, u))"
| "daemon_step pid a (DLocked i) u =
     (case a of
        Fail e \<Rightarrow> Some (DExited, unlock pid u)
      | _ \<Rightarrow> Some (DTruncated i, u\<lparr>ux_text := (ux_text u)(i := [])\<rparr>))"
| "daemon_step pid a (DTruncated i) u =
     (case writepid a pid i u of
        (False, u) \<Rightarrow> Some (DExited, unlock pid u)
      | (True, u) \<Rightarrow> Some (DWritten i, u))"
| "daemon_step pid a (DWritten i) u =
     (case a of Fail e \<Rightarrow> Some (DExited, unlock pid u) | _ \<Rightarrow> Some (DRunning i, u))"
| "daemon_step pid a (DRunning i) u = Some (DExited, unlock pid u)"
| "daemon_step pid a DExited u = None"

section \<open>Control commands (control.c)\<close>

datatype cpc =
    CStart int | CAccessed int | COpened int nat | CShared nat | CBlocked int nat | CSending int nat nat
  | CWaiting nat nat | CClosing nat "int option" | CDone "int option"

definition EVENTRECONF :: int where "EVENTRECONF = 1"
definition EVENTSTATUS :: int where "EVENTSTATUS = 2"
definition EVENTSTOP :: int where "EVENTSTOP = 3"

definition SIGHUP :: nat where "SIGHUP = 1"
definition SIGUSR1 :: nat where "SIGUSR1 = 10"
definition SIGTERM :: nat where "SIGTERM = 15"

text \<open>\<^verbatim>\<open>kill\<close> fails when there is no such process.\<close>

definition sigsend :: "answer \<Rightarrow> (nat \<Rightarrow> bool) \<Rightarrow> nat \<Rightarrow> nat \<Rightarrow> unix \<Rightarrow> bool \<times> unix" where
  "sigsend a live pid sig u =
     (case a of
        Fail e \<Rightarrow> (False, u)
      | _ \<Rightarrow> if live pid then (True, u\<lparr>ux_signals := (pid, sig) # ux_signals u\<rparr>) else (False, u))"

text \<open>The part of \<^verbatim>\<open>send_BI_\<close> before it waits.\<close>

definition send_event :: "answer \<Rightarrow> (nat \<Rightarrow> bool) \<Rightarrow> int \<Rightarrow> nat \<Rightarrow> nat \<Rightarrow> unix \<Rightarrow> cpc \<times> unix" where
  "send_event a live event ino pid u =
     (if event = EVENTRECONF then
        (case sigsend a live pid SIGHUP u of (ok, u) \<Rightarrow> (CClosing ino (Some (if ok then 0 else - 1)), u))
      else if event = EVENTSTATUS then
        (case sigsend a live pid SIGUSR1 u of (ok, u) \<Rightarrow> (CClosing ino (Some (if ok then 0 else - 1)), u))
      else if event = EVENTSTOP then
        (case sigsend a live pid SIGTERM u of (ok, u) \<Rightarrow> (if ok then CWaiting ino pid else CClosing ino (Some (- 1)), u))
      else (CClosing ino (Some (- 1)), u))"

text \<open>
  \<^verbatim>\<open>aug_control_BIN\<close> from the test whether the file exists.  \<open>None\<close> instead of a result stands for the variable
  that is not set when \<^verbatim>\<open>F_GETLK\<close> fails; \<open>None\<close> instead of a step for one that has to wait.
\<close>

fun control_step :: "nat \<Rightarrow> answer \<Rightarrow> (nat \<Rightarrow> bool) \<Rightarrow> cpc \<Rightarrow> unix \<Rightarrow> (cpc \<times> unix) option" where
  "control_step pid a live (CStart ev) u =
     (case a of
        Fail e \<Rightarrow> Some (CDone (Some (- 1)), u)
      | _ \<Rightarrow> Some (if ux_path u = None then CDone (Some (- 1)) else CAccessed ev, u))"
| "control_step pid a live (CAccessed ev) u =
     (case a of
        Fail e \<Rightarrow> Some (CDone (Some (- 1)), u)
      | _ \<Rightarrow> Some (case ux_path u of None \<Rightarrow> CDone (Some (- 1)) | Some i \<Rightarrow> COpened ev i, u))"
| "control_step pid a live (COpened ev i) u =
     (case flock a pid i False u of
        (Inl e, u) \<Rightarrow> Some (CBlocked ev i, u)
      | (Inr v, u) \<Rightarrow> Some (CShared i, u))"
| "control_step pid a live (CShared i) u =
     (case a of
        Fail e \<Rightarrow> Some (CClosing i (Some (- 1)), u)
      | _ \<Rightarrow>
          Some (CClosing i (Some (- 1)),
            if ux_path u = None then u else u\<lparr>ux_path := None, ux_unlinks := ux_unlinks u + 1\<rparr>))"
| "control_step pid a live (CBlocked ev i) u =
     (case getlk a pid i u of
        Inl e \<Rightarrow> Some (CClosing i None, u)
      | Inr p \<Rightarrow> Some (if p = 0 then CClosing i (Some (- 1)) else CSending ev i p, u))"
| "control_step pid a live (CSending ev i p) u = Some (send_event a live ev i p u)"
| "control_step pid a live (CWaiting i p) u =
     (case flock a pid i False u of
        (Inl e, u) \<Rightarrow> (case a of Fail e \<Rightarrow> Some (CClosing i (Some (- 1)), u) | _ \<Rightarrow> None)
      | (Inr v, u) \<Rightarrow> Some (CClosing i (Some 0), u))"
| "control_step pid a live (CClosing i r) u = Some (CDone r, unlock pid u)"
| "control_step pid a live (CDone r) u = None"

section \<open>All processes\<close>

datatype proc = Daemon dpc | Ctl cpc | Killed

record pidsys =
  ps_ux :: unix
  ps_procs :: "nat \<Rightarrow> proc option"

definition alive :: "proc option \<Rightarrow> bool" where
  "alive pr = (case pr of
     None \<Rightarrow> False | Some Killed \<Rightarrow> False | Some (Daemon d) \<Rightarrow> d \<noteq> DExited
   | Some (Ctl c) \<Rightarrow> (case c of CDone r \<Rightarrow> False | _ \<Rightarrow> True))"

datatype move = StartDaemon nat | StartControl nat int | Step nat answer | Kill nat

fun pid_step :: "pidsys \<Rightarrow> move \<Rightarrow> pidsys option" where
  "pid_step s (StartDaemon p) =
     (if p = 0 \<or> ps_procs s p \<noteq> None then None else Some (s\<lparr>ps_procs := (ps_procs s)(p \<mapsto> Daemon DStart)\<rparr>))"
| "pid_step s (StartControl p ev) =
     (if p = 0 \<or> ps_procs s p \<noteq> None then None else Some (s\<lparr>ps_procs := (ps_procs s)(p \<mapsto> Ctl (CStart ev))\<rparr>))"
| "pid_step s (Step p a) =
     (case ps_procs s p of
        Some (Daemon d) \<Rightarrow>
          map_option (\<lambda>(d, u). \<lparr>ps_ux = u, ps_procs = (ps_procs s)(p \<mapsto> Daemon d)\<rparr>) (daemon_step p a d (ps_ux s))
      | Some (Ctl c) \<Rightarrow>
          map_option (\<lambda>(c, u). \<lparr>ps_ux = u, ps_procs = (ps_procs s)(p \<mapsto> Ctl c)\<rparr>)
            (control_step p a (\<lambda>q. alive (ps_procs s q)) c (ps_ux s))
      | _ \<Rightarrow> None)"
| "pid_step s (Kill p) =
     (if alive (ps_procs s p)
      then Some \<lparr>ps_ux = unlock p (ps_ux s), ps_procs = (ps_procs s)(p \<mapsto> Killed)\<rparr> else None)"

definition pid_start :: "nat option \<Rightarrow> (nat \<Rightarrow> byte list) \<Rightarrow> pidsys" where
  "pid_start path text =
     \<lparr>ps_ux = \<lparr>ux_path = path, ux_next = (case path of None \<Rightarrow> 0 | Some i \<Rightarrow> Suc i), ux_text = text, ux_locks = [],
                ux_signals = [], ux_unlinks = 0\<rparr>,
      ps_procs = Map.empty\<rparr>"

inductive pid_reach :: "pidsys \<Rightarrow> bool" where
  init: "pid_reach (pid_start path text)"
| step: "pid_reach s \<Longrightarrow> pid_step s mv = Some s' \<Longrightarrow> pid_reach s'"


section \<open>What every step keeps\<close>

fun d_lock :: "dpc \<Rightarrow> nat option" where
  "d_lock (DLocked i) = Some i"
| "d_lock (DTruncated i) = Some i"
| "d_lock (DWritten i) = Some i"
| "d_lock (DRunning i) = Some i"
| "d_lock _ = None"

fun d_text :: "nat \<Rightarrow> dpc \<Rightarrow> byte list \<Rightarrow> bool" where
  "d_text p (DTruncated i) t = (t = [])"
| "d_text p (DWritten i) t = (t = decimal p @ [10])"
| "d_text p (DRunning i) t = (t = decimal p @ [10])"
| "d_text p _ t = True"

text \<open>The file a process has open.\<close>

fun opened :: "proc \<Rightarrow> nat option" where
  "opened (Daemon (DOpened i)) = Some i"
| "opened (Daemon d) = d_lock d"
| "opened (Ctl (COpened ev i)) = Some i"
| "opened (Ctl (CShared i)) = Some i"
| "opened (Ctl (CBlocked ev i)) = Some i"
| "opened (Ctl (CSending ev i d)) = Some i"
| "opened (Ctl (CWaiting i d)) = Some i"
| "opened (Ctl (CClosing i r)) = Some i"
| "opened _ = None"

fun target :: "proc \<Rightarrow> (nat \<times> nat) option" where
  "target (Ctl (CSending ev i d)) = Some (i, d)"
| "target (Ctl (CWaiting i d)) = Some (i, d)"
| "target _ = None"

text \<open>A daemon that was seen with the lock of a file has it as long as it has not ended.\<close>

fun held :: "nat \<Rightarrow> proc option \<Rightarrow> bool" where
  "held i (Some (Daemon d)) = (d_lock d = Some i \<or> d = DExited)"
| "held i (Some Killed) = True"
| "held i _ = False"

definition pid_inv :: "unix \<Rightarrow> (nat \<Rightarrow> proc option) \<Rightarrow> bool" where
  "pid_inv u P \<longleftrightarrow>
     (\<forall>i p. (i, p, True) \<in> set (ux_locks u) \<longleftrightarrow> (\<exists>d. P p = Some (Daemon d) \<and> d_lock d = Some i))
   \<and> (\<forall>i p q x. (i, p, True) \<in> set (ux_locks u) \<and> (i, q, x) \<in> set (ux_locks u) \<longrightarrow> q = p)
   \<and> (\<forall>p d i. P p = Some (Daemon d) \<and> d_lock d = Some i \<longrightarrow> d_text p d (ux_text u i))
   \<and> (\<forall>i. ux_path u = Some i \<longrightarrow> i < ux_next u)
   \<and> (\<forall>p pr i. P p = Some pr \<and> opened pr = Some i \<longrightarrow> i < ux_next u \<and> (ux_unlinks u = 0 \<longrightarrow> ux_path u = Some i))
   \<and> (\<forall>p pr i d. P p = Some pr \<and> target pr = Some (i, d) \<longrightarrow> held i (P d))
   \<and> P 0 = None"

lemma pid_invD:
  assumes "pid_inv u P"
  shows "(i, p, True) \<in> set (ux_locks u) \<longleftrightarrow> (\<exists>d. P p = Some (Daemon d) \<and> d_lock d = Some i)"
    "(i, p, True) \<in> set (ux_locks u) \<Longrightarrow> (i, q, x) \<in> set (ux_locks u) \<Longrightarrow> q = p"
    "P p = Some (Daemon d) \<Longrightarrow> d_lock d = Some i \<Longrightarrow> d_text p d (ux_text u i)"
    "ux_path u = Some i \<Longrightarrow> i < ux_next u"
    "P p = Some pr \<Longrightarrow> opened pr = Some i \<Longrightarrow> i < ux_next u"
    "P p = Some pr \<Longrightarrow> opened pr = Some i \<Longrightarrow> ux_unlinks u = 0 \<Longrightarrow> ux_path u = Some i"
    "P p = Some pr \<Longrightarrow> target pr = Some (i, r) \<Longrightarrow> held i (P r)"
    "P 0 = None"
  using assms unfolding pid_inv_def by blast+

lemma lock_open: "d_lock d = Some i \<Longrightarrow> opened (Daemon d) = Some i"
  by (cases d) auto

text \<open>What a step of process \<open>p\<close> has to keep.\<close>

definition keeps_lock :: "nat \<Rightarrow> proc \<Rightarrow> unix \<Rightarrow> unix \<Rightarrow> bool" where
  "keeps_lock p pr u u' \<longleftrightarrow>
     (\<forall>i q x. q \<noteq> p \<longrightarrow> ((i, q, x) \<in> set (ux_locks u') \<longleftrightarrow> (i, q, x) \<in> set (ux_locks u)))
   \<and> (\<forall>i. (i, p, True) \<in> set (ux_locks u') \<longleftrightarrow> (\<exists>d. pr = Daemon d \<and> d_lock d = Some i))
   \<and> (\<forall>i q x y. (i, p, x) \<in> set (ux_locks u') \<and> (i, q, y) \<in> set (ux_locks u') \<and> q \<noteq> p \<longrightarrow> \<not> x \<and> \<not> y)"

definition keeps_file :: "nat \<Rightarrow> proc \<Rightarrow> unix \<Rightarrow> unix \<Rightarrow> bool" where
  "keeps_file p pr u u' \<longleftrightarrow>
     (\<forall>i. ux_text u' i \<noteq> ux_text u i \<longrightarrow> ux_next u \<le> i \<or> (i, p, True) \<in> set (ux_locks u))
   \<and> (\<forall>d i. pr = Daemon d \<and> d_lock d = Some i \<longrightarrow> d_text p d (ux_text u' i))
   \<and> ux_next u \<le> ux_next u' \<and> ux_unlinks u \<le> ux_unlinks u'
   \<and> (\<forall>i. ux_path u' = Some i \<longrightarrow> i < ux_next u')
   \<and> (ux_unlinks u' = 0 \<and> ux_path u \<noteq> None \<longrightarrow> ux_path u' = ux_path u)
   \<and> (\<forall>i. opened pr = Some i \<longrightarrow> i < ux_next u' \<and> (ux_unlinks u' = 0 \<longrightarrow> ux_path u' = Some i))"

lemma inv_step:
  assumes "pid_inv u P" "keeps_lock p pr u u'" "keeps_file p pr u u'" "p \<noteq> 0"
    and held: "\<And>i. held i (P p) \<Longrightarrow> held i (Some pr)"
    and target: "\<And>i d. target pr = Some (i, d) \<Longrightarrow> d \<noteq> p \<and> held i (P d)"
  shows "pid_inv u' (P(p \<mapsto> pr))"
proof -
  note inv = pid_invD [OF assms(1)]
  note lk = assms(2) [unfolded keeps_lock_def] and fl = assms(3) [unfolded keeps_file_def]
  have others: "(i, q, x) \<in> set (ux_locks u') \<longleftrightarrow> (i, q, x) \<in> set (ux_locks u)" if "q \<noteq> p" for i q x
    using lk that by simp
  have clash: "\<not> x \<and> \<not> y" if "(i, p, x) \<in> set (ux_locks u')" "(i, q, y) \<in> set (ux_locks u')" "q \<noteq> p" for i q x y
    using lk [THEN conjunct2, THEN conjunct2] that by blast
  show ?thesis
    unfolding pid_inv_def
  proof (intro conjI allI impI)
    show "(i, q, True) \<in> set (ux_locks u') \<longleftrightarrow> (\<exists>d. (P(p \<mapsto> pr)) q = Some (Daemon d) \<and> d_lock d = Some i)" for i q
      using lk others [of q i True] inv(1) [of i q] by (cases "q = p") auto
    show "r = q" if "(i, q, True) \<in> set (ux_locks u') \<and> (i, r, x) \<in> set (ux_locks u')" for i q r x
    proof (rule ccontr)
      assume "r \<noteq> q"
      then consider "q = p" "r \<noteq> p" | "q \<noteq> p" "r = p" | "q \<noteq> p" "r \<noteq> p" by blast
      then show False
      proof cases
        case 1
        then show False using that clash [of i True r x] by simp
      next
        case 2
        then show False using that clash [of i x q True] by simp
      next
        case 3
        then show False using that others inv(2) [of i q r x] \<open>r \<noteq> q\<close> by simp
      qed
    qed
    show "d_text q d (ux_text u' i)" if "(P(p \<mapsto> pr)) q = Some (Daemon d) \<and> d_lock d = Some i" for q d i
    proof (cases "q = p")
      case True
      then show ?thesis using that fl by auto
    next
      case False
      then have q: "P q = Some (Daemon d)" using that by simp
      moreover have "ux_text u' i = ux_text u i"
      proof (rule ccontr)
        assume "ux_text u' i \<noteq> ux_text u i"
        then consider "ux_next u \<le> i" | "(i, p, True) \<in> set (ux_locks u)" using fl by blast
        then show False
        proof cases
          case 1
          then show False using inv(5) [OF q lock_open] that by fastforce
        next
          case 2
          have "(i, q, True) \<in> set (ux_locks u)" using inv(1) [of i q] q that by blast
          then show False using 2 inv(2) False by blast
        qed
      qed
      ultimately show ?thesis using inv(3) that by simp
    qed
    show "i < ux_next u'" if "ux_path u' = Some i" for i
      using fl that by blast
    show "i < ux_next u'" if "(P(p \<mapsto> pr)) q = Some qr \<and> opened qr = Some i" for q qr i
      using that fl inv(5) [of q qr i] by (cases "q = p") auto
    show "ux_path u' = Some i" if "(P(p \<mapsto> pr)) q = Some qr \<and> opened qr = Some i" "ux_unlinks u' = 0" for q qr i
      using that fl inv(6) [of q qr i] by (cases "q = p") auto
    show "held i ((P(p \<mapsto> pr)) d)" if "(P(p \<mapsto> pr)) q = Some qr \<and> target qr = Some (i, d)" for q qr i d
    proof -
      have "held i (P d)" if "q \<noteq> p" using inv(7) [of q qr i d] \<open>_ \<and> target qr = _\<close> that by simp
      moreover have "d \<noteq> p \<and> held i (P d)" if "q = p" using target \<open>_ \<and> target qr = _\<close> that by simp
      ultimately show ?thesis using held by (cases "q = p"; cases "d = p") auto
    qed
    show "(P(p \<mapsto> pr)) 0 = None" using assms(4) inv(8) by simp
  qed
qed


text \<open>The ways in which the locks and the files change.\<close>

definition locked_by :: "proc option \<Rightarrow> nat option" where
  "locked_by pr = (case pr of Some (Daemon d) \<Rightarrow> d_lock d | _ \<Rightarrow> None)"

lemma locked_by_iff: "(\<exists>d. pr = Some (Daemon d) \<and> d_lock d = Some i) \<longleftrightarrow> locked_by pr = Some i"
  by (auto simp: locked_by_def split: option.splits proc.splits)

lemma locked_by_iff': "(\<exists>d. pr = Daemon d \<and> d_lock d = Some i) \<longleftrightarrow> locked_by (Some pr) = Some i"
  by (auto simp: locked_by_def split: proc.splits)

lemma lock_alone:
  assumes "pid_inv u P" "(i, p, x) \<in> set (ux_locks u)" "(i, q, y) \<in> set (ux_locks u)" "q \<noteq> p"
  shows "\<not> x \<and> \<not> y"
  using pid_invD(2) [OF assms(1), of i q p x] pid_invD(2) [OF assms(1), of i p q y] assms(2-4) by (cases x; cases y) auto

lemma same_locks:
  assumes "pid_inv u P" "ux_locks u' = ux_locks u" "locked_by (Some pr) = locked_by (P p)"
  shows "keeps_lock p pr u u'"
  unfolding keeps_lock_def locked_by_iff'
proof (intro conjI allI impI)
  show "(i, p, True) \<in> set (ux_locks u') \<longleftrightarrow> locked_by (Some pr) = Some i" for i
    using pid_invD(1) [OF assms(1), of i p] assms(2,3) by (simp add: locked_by_iff)
  show "\<not> x" "\<not> y" if "(i, p, x) \<in> set (ux_locks u') \<and> (i, q, y) \<in> set (ux_locks u') \<and> q \<noteq> p" for i q x y
    using that assms(2) lock_alone [OF assms(1), of i p x q y] by auto
qed (simp add: assms(2))

lemma unlocked:
  assumes "pid_inv u P" "ux_locks u' = ux_locks (unlock p u)" "locked_by (Some pr) = None"
  shows "keeps_lock p pr u u'"
proof -
  have "(i, q, x) \<in> set (ux_locks u') \<longleftrightarrow> (i, q, x) \<in> set (ux_locks u) \<and> q \<noteq> p" for i q x
    unfolding assms(2) by (auto simp: unlock_def)
  note eq = this
  show ?thesis
    unfolding keeps_lock_def locked_by_iff' assms(3)
  proof (intro conjI allI impI)
    show "(j, q, x) \<in> set (ux_locks u') \<longleftrightarrow> (j, q, x) \<in> set (ux_locks u)" if "q \<noteq> p" for j q x
      using that unfolding eq by blast
    show "(j, p, True) \<in> set (ux_locks u') \<longleftrightarrow> None = Some j" for j unfolding eq by simp
    show "\<not> x" "\<not> y" if "(j, p, x) \<in> set (ux_locks u') \<and> (j, q, y) \<in> set (ux_locks u') \<and> q \<noteq> p" for j q x y
      using that unfolding eq by blast+
  qed
qed

lemma flock_cases:
  assumes "flock a p i ex u = (r, u')"
  obtains e where "r = Inl e" "u' = u"
  | "r = Inr ()" "\<not> list_ex (conflict p i ex) (ux_locks u)"
    "u' = u\<lparr>ux_locks := (i, p, ex) # filter (\<lambda>(j, q, x). \<not> (j = i \<and> q = p)) (ux_locks u)\<rparr>"
proof -
  let ?new = "u\<lparr>ux_locks := (i, p, ex) # filter (\<lambda>(j, q, x). \<not> (j = i \<and> q = p)) (ux_locks u)\<rparr>"
  have "flock a p i ex u = (Inr (), ?new) \<and> \<not> list_ex (conflict p i ex) (ux_locks u) \<or> (\<exists>e. flock a p i ex u = (Inl e, u))"
    by (cases a) (simp_all add: flock_def)
  then show thesis using assms that by auto
qed

lemma newly_locked:
  assumes "pid_inv u P" "\<not> list_ex (conflict p i ex) (ux_locks u)" "locked_by (P p) = None"
    and "u' = u\<lparr>ux_locks := (i, p, ex) # filter (\<lambda>(j, q, x). \<not> (j = i \<and> q = p)) (ux_locks u)\<rparr>"
    and "locked_by (Some pr) = (if ex then Some i else None)"
  shows "keeps_lock p pr u u'"
proof -
  have mine: "(j, p, True) \<notin> set (ux_locks u)" for j
    using pid_invD(1) [OF assms(1), of j p] assms(3) by (simp add: locked_by_iff)
  have none: "\<not> x \<and> \<not> ex" if "(i, q, x) \<in> set (ux_locks u)" "q \<noteq> p" for q x
    using assms(2) that by (auto simp: list_ex_iff conflict_def)
  show ?thesis
    unfolding keeps_lock_def locked_by_iff'
  proof (intro conjI allI impI)
    show "(j, p, True) \<in> set (ux_locks u') \<longleftrightarrow> locked_by (Some pr) = Some j" for j
      using mine assms(5) by (auto simp: assms(4))
    show "\<not> x" "\<not> y" if "(j, p, x) \<in> set (ux_locks u') \<and> (j, q, y) \<in> set (ux_locks u') \<and> q \<noteq> p" for j q x y
      using that none [of q y] lock_alone [OF assms(1), of j p x q y] by (auto simp: assms(4))
  qed (auto simp: assms(4))
qed

lemma same_files:
  assumes "pid_inv u P" "ux_text u' = ux_text u" "ux_path u' = ux_path u" "ux_next u' = ux_next u"
    "ux_unlinks u' = ux_unlinks u" "\<And>i. opened pr = Some i \<Longrightarrow> ux_path u = Some i \<or> (\<exists>pr'. P p = Some pr' \<and> opened pr' = Some i)"
    "\<And>d i. pr = Daemon d \<Longrightarrow> d_lock d = Some i \<Longrightarrow> d_text p d (ux_text u i)"
  shows "keeps_file p pr u u'"
  unfolding keeps_file_def
  using assms(2-5,7) assms(6) pid_invD(4-6) [OF assms(1)] by auto

lemma unlock_simps [simp]:
  "ux_path (unlock p u) = ux_path u" "ux_next (unlock p u) = ux_next u" "ux_text (unlock p u) = ux_text u"
  "ux_unlinks (unlock p u) = ux_unlinks u" "ux_signals (unlock p u) = ux_signals u"
  by (simp_all add: unlock_def)

text \<open>Ending, which gives up the locks.\<close>

lemma inv_end:
  assumes "pid_inv u P" "opened pr = None" "P p \<noteq> None" "\<And>i. held i (P p) \<Longrightarrow> held i (Some pr)" "target pr = None"
  shows "pid_inv (unlock p u) (P(p \<mapsto> pr))"
proof (rule inv_step [OF assms(1)])
  show "keeps_lock p pr u (unlock p u)"
    using assms(2) lock_open by (intro unlocked [OF assms(1)]) (auto simp: locked_by_def split: proc.splits, metis option.exhaust option.simps(3))
  show "keeps_file p pr u (unlock p u)"
    using assms(2) lock_open by (intro same_files [OF assms(1)]) fastforce+
  show "p \<noteq> 0" using assms(3) pid_invD(8) [OF assms(1)] by (cases p) auto
qed (use assms in auto)


section \<open>The steps of a daemon\<close>

lemma digits_decimal: "length (decimal n) = digits n"
  by (induction n rule: digits.induct) (simp add: decimal.simps digits.simps)

lemma writepid_cases:
  assumes "writepid a p i u = (b, u')"
  obtains t where "u' = u\<lparr>ux_text := (ux_text u)(i := t)\<rparr>" "b \<Longrightarrow> t = decimal p @ [10]"
proof -
  have "\<exists>t. u' = u\<lparr>ux_text := (ux_text u)(i := t)\<rparr> \<and> (b \<longrightarrow> t = decimal p @ [10])"
  proof (cases a)
    case (Fail e)
    then show ?thesis using assms
      by (intro exI [of _ "ux_text u i"]) (auto simp: writepid_def Let_def digits_decimal)
  qed (use assms in \<open>auto simp: writepid_def Let_def digits_decimal split: if_splits\<close>)
  then show thesis using that by blast
qed

text \<open>A step that keeps the lock, if the daemon has one, and writes at most to the file it has locked.\<close>

lemma inv_daemon:
  assumes inv: "pid_inv u P" "P p = Some (Daemon d)"
    and "d_lock d' = d_lock d" "ux_locks u' = ux_locks u" "d \<noteq> DExited"
    and "keeps_file p (Daemon d') u u'"
  shows "pid_inv u' (P(p \<mapsto> Daemon d'))"
proof (rule inv_step [OF inv(1) _ assms(6)])
  show "keeps_lock p (Daemon d') u u'"
    using assms(2-4) by (intro same_locks [OF inv(1)]) (auto simp: locked_by_def)
  show "p \<noteq> 0" using inv pid_invD(8) [OF inv(1)] by (cases p) auto
qed (use assms in auto)

lemma file_written:
  assumes "pid_inv u P" "P p = Some (Daemon d)" "d_lock d = Some i" "d_lock d' = Some i" "d_text p d' t"
    and "u' = u\<lparr>ux_text := (ux_text u)(i := t)\<rparr>"
  shows "keeps_file p (Daemon d') u u'"
proof -
  have "(i, p, True) \<in> set (ux_locks u)" using pid_invD(1) [OF assms(1), of i p] assms(2,3) by blast
  moreover have "j = i" if "opened (Daemon d') = Some j" for j using assms(4) lock_open that by fastforce
  ultimately show ?thesis
    unfolding keeps_file_def
    using assms(3-6) pid_invD(4) [OF assms(1)] pid_invD(5,6) [OF assms(1,2) lock_open [OF assms(3)]] by auto
qed

lemma inv_exit:
  assumes "pid_inv u P" "P p = Some (Daemon d)"
  shows "pid_inv (unlock p u) (P(p \<mapsto> Daemon DExited))"
  by (rule inv_end [OF assms(1)]) (use assms(2) in auto)

lemma text_irrelevant:
  assumes "pid_inv u P" "P p = Some (Daemon d)" "d_lock d = Some i"
  shows "pid_inv (u\<lparr>ux_text := (ux_text u)(i := t)\<rparr>) (P(p \<mapsto> Daemon (DLocked i)))"
  by (rule inv_daemon [OF assms(1,2)]) (use assms in \<open>auto intro: file_written\<close>)

lemma daemon_step_inv:
  assumes inv: "pid_inv u P" and p: "P p = Some (Daemon d)" and st: "daemon_step p a d u = Some (d', u')"
  shows "pid_inv u' (P(p \<mapsto> Daemon d'))"
proof (cases d)
  case DStart
  show ?thesis
  proof (cases "\<exists>e. a = Fail e")
    case True
    then show ?thesis using st DStart inv_exit [OF inv p] by auto
  next
    case False
    then have new: "ux_path u = None \<Longrightarrow> d' = DOpened (ux_next u)
        \<and> u' = u\<lparr>ux_path := Some (ux_next u), ux_next := ux_next u + 1, ux_text := (ux_text u)(ux_next u := [])\<rparr>"
      "ux_path u = Some i \<Longrightarrow> d' = DOpened i \<and> u' = u" for i
      using st DStart by (auto split: answer.splits)
    show ?thesis
    proof (rule inv_daemon [OF inv p])
      show "keeps_file p (Daemon d') u u'"
        using new pid_invD(4) [OF inv] by (cases "ux_path u") (auto simp: keeps_file_def)
    qed (use new DStart in \<open>cases "ux_path u"; auto\<close>)+
  qed
next
  case (DOpened i)
  obtain r v where f: "flock a p i True u = (r, v)" by force
  from f show ?thesis
  proof (cases rule: flock_cases)
    case (1 e)
    then show ?thesis using st DOpened f inv_exit [OF inv p] by simp
  next
    case 2
    then have d': "d' = DLocked i" "u' = v" using st DOpened f by simp_all
    show ?thesis
    proof (rule inv_step [OF inv])
      show "keeps_lock p (Daemon d') u u'"
        by (rule newly_locked [OF inv 2(2)]) (use 2 d' p DOpened in \<open>auto simp: locked_by_def\<close>)
      show "keeps_file p (Daemon d') u u'"
        by (rule same_files [OF inv]) (use 2 d' p DOpened in auto)
      show "p \<noteq> 0" using p pid_invD(8) [OF inv] by (cases p) auto
    qed (use p d' DOpened in auto)
  qed
next
  case (DLocked i)
  then consider "d' = DExited" "u' = unlock p u" | "d' = DTruncated i" "u' = u\<lparr>ux_text := (ux_text u)(i := [])\<rparr>"
    using st by (cases a) auto
  then show ?thesis
    by cases (use DLocked inv_exit [OF inv p] in \<open>auto intro!: inv_daemon [OF inv p] file_written [OF inv p]\<close>)
next
  case (DTruncated i)
  obtain b v where w: "writepid a p i u = (b, v)" by force
  then obtain t where t: "v = u\<lparr>ux_text := (ux_text u)(i := t)\<rparr>" "b \<Longrightarrow> t = decimal p @ [10]"
    by (rule writepid_cases) blast
  show ?thesis
  proof (cases b)
    case True
    then show ?thesis using st DTruncated w t
      by (auto intro!: inv_daemon [OF inv p] file_written [OF inv p])
  next
    case False
    then have d': "d' = DExited" "u' = unlock p v" using st DTruncated w by simp_all
    have "d_lock d = Some i" using DTruncated by simp
    from inv_exit [OF text_irrelevant [OF inv p this, of t], of p "DLocked i"] show ?thesis using d' t by simp
  qed
next
  case (DWritten i)
  then consider "d' = DExited" "u' = unlock p u" | "d' = DRunning i" "u' = u"
    using st by (cases a) auto
  then show ?thesis
  proof cases
    case 2
    then show ?thesis
      using DWritten p pid_invD(3) [OF inv p] by (auto intro!: inv_daemon [OF inv p] same_files [OF inv])
  qed (use inv_exit [OF inv p] in auto)
qed (use st inv_exit [OF inv p] in auto)


section \<open>The steps of a control command\<close>

lemma getlk_held:
  assumes "pid_inv u P" "getlk a p i u = Inr q" "q \<noteq> 0" 
  shows "q \<noteq> p \<and> held i (P q)"
proof -
  obtain j x ls where f: "filter (conflict p i False) (ux_locks u) = (j, q, x) # ls"
    using assms(2,3) by (auto simp: getlk_def split: answer.splits list.splits)
  then have "(j, q, x) \<in> set (filter (conflict p i False) (ux_locks u))" by simp
  then have "(j, q, x) \<in> set (ux_locks u)" "conflict p i False (j, q, x)" by simp_all
  then have "(i, q, True) \<in> set (ux_locks u)" "q \<noteq> p" by (auto simp: conflict_def)
  then show ?thesis using pid_invD(1) [OF assms(1)] by fastforce
qed

lemma sigsend_cases:
  assumes "sigsend a live d sig u = (ok, u')"
  shows "ux_path u' = ux_path u" "ux_next u' = ux_next u" "ux_text u' = ux_text u" "ux_unlinks u' = ux_unlinks u"
    "ux_locks u' = ux_locks u" "ok \<Longrightarrow> live d"
  using assms by (auto simp: sigsend_def split: answer.splits if_splits)

lemma send_event_cases:
  assumes "send_event a live ev i d u = (c', u')"
  shows "ux_path u' = ux_path u \<and> ux_next u' = ux_next u \<and> ux_text u' = ux_text u \<and> ux_unlinks u' = ux_unlinks u
    \<and> ux_locks u' = ux_locks u \<and> (c' = CWaiting i d \<or> (\<exists>r. c' = CClosing i (Some r)))"
  using assms unfolding send_event_def by (auto split: if_splits prod.splits dest: sigsend_cases)

text \<open>A step that changes neither locks nor texts.\<close>

lemma inv_control:
  assumes inv: "pid_inv u P" "P p = Some (Ctl c)" and "ux_locks u' = ux_locks u" "ux_text u' = ux_text u" "ux_next u' = ux_next u"
    and "ux_path u' = ux_path u \<and> ux_unlinks u' = ux_unlinks u \<or> ux_path u' = None \<and> ux_unlinks u' = ux_unlinks u + 1"
    and "\<And>i. opened (Ctl c') = Some i \<Longrightarrow> opened (Ctl c) = Some i \<or> ux_path u = Some i \<and> ux_path u' = Some i"
    and "\<And>i d. target (Ctl c') = Some (i, d) \<Longrightarrow> target (Ctl c) = Some (i, d) \<or> d \<noteq> p \<and> held i (P d)"
  shows "pid_inv u' (P(p \<mapsto> Ctl c'))"
proof (rule inv_step [OF inv(1)])
  show "keeps_lock p (Ctl c') u u'"
    by (rule same_locks [OF inv(1) assms(3)]) (simp add: locked_by_def inv(2))
  show "keeps_file p (Ctl c') u u'"
    unfolding keeps_file_def
    using assms(4-7) pid_invD(4) [OF inv(1)] pid_invD(5,6) [OF inv] by fastforce
  show "p \<noteq> 0" using inv pid_invD(8) [OF inv(1)] by (cases p) auto
  show "d \<noteq> p \<and> held i (P d)" if "target (Ctl c') = Some (i, d)" for i d
    using assms(8) [OF that] pid_invD(7) [OF inv] inv(2) by fastforce
qed (use inv in auto)

text \<open>A lock that is shared.\<close>

lemma inv_shared:
  assumes inv: "pid_inv u P" "P p = Some (Ctl c)" and f: "flock a p i False u = (Inr v, u')"
    and "opened (Ctl c) = Some i" "opened (Ctl c') = Some i" "target (Ctl c') = None"
  shows "pid_inv u' (P(p \<mapsto> Ctl c'))"
  using f
proof (cases rule: flock_cases)
  case 2
  show ?thesis
  proof (rule inv_step [OF inv(1)])
    show "keeps_lock p (Ctl c') u u'"
      by (rule newly_locked [OF inv(1) 2(2)]) (use 2 inv(2) in \<open>auto simp: locked_by_def\<close>)
    show "keeps_file p (Ctl c') u u'"
      by (rule same_files [OF inv(1)]) (use 2 inv(2) assms(4,5) in auto)
    show "p \<noteq> 0" using inv pid_invD(8) [OF inv(1)] by (cases p) auto
  qed (use inv assms(6) in auto)
qed simp

lemma control_step_inv:
  assumes inv: "pid_inv u P" and p: "P p = Some (Ctl c)" and st: "control_step p a live c u = Some (c', u')"
  shows "pid_inv u' (P(p \<mapsto> Ctl c'))"
proof (cases c)
  case (CStart ev)
  then have "u' = u" "opened (Ctl c') = None" "target (Ctl c') = None"
    using st by (auto split: answer.splits if_splits)
  then show ?thesis by (intro inv_control [OF inv p]) auto
next
  case (CAccessed ev)
  then have "u' = u" "\<And>i. opened (Ctl c') = Some i \<Longrightarrow> ux_path u = Some i" "target (Ctl c') = None"
    using st by (auto split: answer.splits option.splits)
  then show ?thesis by (intro inv_control [OF inv p]) auto
next
  case (COpened ev i)
  obtain r v where f: "flock a p i False u = (r, v)" by force
  show ?thesis
  proof (cases r)
    case (Inl e)
    then have "u' = u" "c' = CBlocked ev i"
      using st COpened f by (auto elim: flock_cases)
    then show ?thesis using COpened by (intro inv_control [OF inv p]) auto
  next
    case (Inr w)
    then show ?thesis using st COpened f by (intro inv_shared [OF inv p]) auto
  qed
next
  case (CShared i)
  then have "c' = CClosing i (Some (- 1))"
    "u' = u \<or> u' = u\<lparr>ux_path := None, ux_unlinks := ux_unlinks u + 1\<rparr>"
    using st by (auto split: answer.splits if_splits)
  then show ?thesis using CShared by (intro inv_control [OF inv p]) auto
next
  case (CBlocked ev i)
  then have "u' = u" "opened (Ctl c') = Some i"
    "\<And>j d. target (Ctl c') = Some (j, d) \<Longrightarrow> j = i \<and> getlk a p i u = Inr d \<and> d \<noteq> 0"
    using st by (auto split: sum.splits if_splits)
  then show ?thesis using CBlocked getlk_held [OF inv] by (intro inv_control [OF inv p]) auto
next
  case (CSending ev i d)
  then show ?thesis using st send_event_cases [of a live ev i d u c' u'] by (intro inv_control [OF inv p]) auto
next
  case (CWaiting i d)
  obtain r v where f: "flock a p i False u = (r, v)" by force
  show ?thesis
  proof (cases r)
    case (Inl e)
    then have "u' = u" "c' = CClosing i (Some (- 1))"
      using st CWaiting f by (auto elim: flock_cases split: answer.splits)
    then show ?thesis using CWaiting by (intro inv_control [OF inv p]) auto
  next
    case (Inr w)
    then show ?thesis using st CWaiting f by (intro inv_shared [OF inv p]) auto
  qed
next
  case (CClosing i r)
  then show ?thesis using st p by (auto intro!: inv_end [OF inv])
qed (use st in auto)

section \<open>Every reachable state\<close>

lemma pid_new_inv:
  assumes "pid_inv u P" "P p = None" "p \<noteq> 0" "pr = Daemon DStart \<or> pr = Ctl (CStart ev)"
  shows "pid_inv u (P(p \<mapsto> pr))"
proof (rule inv_step [OF assms(1) _ _ assms(3)])
  show "keeps_lock p pr u u" by (rule same_locks [OF assms(1)]) (use assms in \<open>auto simp: locked_by_def\<close>)
  show "keeps_file p pr u u" by (rule same_files [OF assms(1)]) (use assms(4) in auto)
qed (use assms in auto)

lemma pid_reach_inv: "pid_reach s \<Longrightarrow> pid_inv (ps_ux s) (ps_procs s)"
proof (induction rule: pid_reach.induct)
  case (init path tx)
  then show ?case by (simp add: pid_start_def pid_inv_def)
next
  case (step s mv s')
  show ?case
  proof (cases mv)
    case (StartDaemon p)
    then show ?thesis using step.hyps(2) pid_new_inv [OF step.IH, of p "Daemon DStart"]
      by (auto simp del: fun_upd_apply split: if_splits)
  next
    case (StartControl p ev)
    then show ?thesis using step.hyps(2) pid_new_inv [OF step.IH, of p "Ctl (CStart ev)" ev]
      by (auto simp del: fun_upd_apply split: if_splits)
  next
    case (Step p a)
    then show ?thesis
      using step.hyps(2) daemon_step_inv [OF step.IH, of p] control_step_inv [OF step.IH, of p]
      by (auto simp del: fun_upd_apply split: option.splits proc.splits)
  next
    case (Kill p)
    then have "alive (ps_procs s p)" "s' = \<lparr>ps_ux = unlock p (ps_ux s), ps_procs = (ps_procs s)(p \<mapsto> Killed)\<rparr>"
      using step.hyps(2) by (auto split: if_splits)
    then show ?thesis using inv_end [OF step.IH, of Killed p]
      by (auto simp: alive_def simp del: fun_upd_apply split: option.splits)
  qed
qed


fun pid_run :: "pidsys \<Rightarrow> move list \<Rightarrow> pidsys option" where
  "pid_run s [] = Some s"
| "pid_run s (mv # mvs) = (case pid_step s mv of None \<Rightarrow> None | Some s \<Rightarrow> pid_run s mvs)"

lemma run_reach: "pid_run s mvs = Some s' \<Longrightarrow> pid_reach s \<Longrightarrow> pid_reach s'"
  by (induction mvs arbitrary: s) (auto split: option.splits intro: pid_reach.step)

lemmas pid_eval = pid_start_def flock_def getlk_def conflict_def unlock_def writepid_def Let_def decimal.simps digits.simps
  send_event_def sigsend_def alive_def EVENTRECONF_def EVENTSTATUS_def EVENTSTOP_def SIGTERM_def

text \<open>A daemon that runs, is told to stop, and ends.\<close>

definition stop_moves :: "move list" where
  "stop_moves = [StartDaemon 12, Step 12 Done, Step 12 Done, Step 12 Done, Step 12 Done, Step 12 Done,
     StartControl 7 EVENTSTOP, Step 7 Done, Step 7 Done, Step 7 Done, Step 7 Done, Step 7 Done]"

definition stop_state :: pidsys where
  "stop_state = the (pid_run (pid_start None (\<lambda>i. [])) stop_moves)"

lemma stop_reached:
  "pid_reach stop_state" "ps_procs stop_state 12 = Some (Daemon (DRunning 0))"
  "ps_procs stop_state 7 = Some (Ctl (CWaiting 0 12))" "ux_signals (ps_ux stop_state) = [(12, SIGTERM)]"
proof -
  obtain s where s: "pid_run (pid_start None (\<lambda>i. [])) stop_moves = Some s" "ps_procs s 12 = Some (Daemon (DRunning 0))"
    "ps_procs s 7 = Some (Ctl (CWaiting 0 12))" "ux_signals (ps_ux s) = [(12, SIGTERM)]"
    by (simp add: stop_moves_def pid_eval)
  then show "pid_reach stop_state" "ps_procs stop_state 12 = Some (Daemon (DRunning 0))"
    "ps_procs stop_state 7 = Some (Ctl (CWaiting 0 12))" "ux_signals (ps_ux stop_state) = [(12, SIGTERM)]"
    using run_reach [OF s(1) pid_reach.init] by (simp_all add: stop_state_def)
qed

text \<open>
  C13: At most one daemon runs on a pid file.  Whatever daemons and control commands do in whatever order, with any
  call failing and any process killed, the file of a running daemon holds its process id and a new line, and another daemon
  runs on another file, which needs a control command to have removed the path; as long as none did, the
  path leads to the daemon's file.
\<close>
theorem one_daemon:
  assumes "pid_reach s" "ps_procs s p = Some (Daemon (DRunning i))"
  shows "ux_text (ps_ux s) i = decimal p @ [10]
    \<and> (ux_unlinks (ps_ux s) = 0 \<longrightarrow> ux_path (ps_ux s) = Some i)
    \<and> (\<forall>q j. q \<noteq> p \<and> ps_procs s q = Some (Daemon (DRunning j)) \<longrightarrow> j \<noteq> i \<and> 0 < ux_unlinks (ps_ux s))"
proof -
  note inv = pid_invD [OF pid_reach_inv [OF assms(1)]]
  have path: "ux_path (ps_ux s) = Some j" if "ux_unlinks (ps_ux s) = 0" "ps_procs s q = Some (Daemon (DRunning j))" for q j
    using inv(6) [OF that(2)] that(1) by simp
  have "j \<noteq> i" if q: "q \<noteq> p" "ps_procs s q = Some (Daemon (DRunning j))" for q j
  proof
    assume "j = i"
    then have "(i, q, True) \<in> set (ux_locks (ps_ux s))" "(i, p, True) \<in> set (ux_locks (ps_ux s))"
      using inv(1) assms(2) q(2) by fastforce+
    then show False using inv(2) q(1) by blast
  qed
  moreover from this have "0 < ux_unlinks (ps_ux s)" if "q \<noteq> p" "ps_procs s q = Some (Daemon (DRunning j))" for q j
    using path [OF _ that(2)] path [OF _ assms(2)] that by fastforce
  ultimately show ?thesis using inv(3) [OF assms(2)] path [OF _ assms(2)] by auto
qed

lemma one_daemon_witness:
  "ux_text (ps_ux stop_state) 0 = [49, 50, 10]"
  using one_daemon [OF stop_reached(1,2)] by (simp add: decimal.simps)

section \<open>Stopping\<close>

definition ended :: "pidsys \<Rightarrow> nat \<Rightarrow> bool" where
  "ended s d \<longleftrightarrow> ps_procs s d = Some (Daemon DExited) \<or> ps_procs s d = Some Killed"

text \<open>The lock a command waits for is granted only when the daemon it signalled has ended.\<close>

lemma wait_over:
  assumes "pid_reach s" "ps_procs s c = Some (Ctl (CWaiting i d))" "flock a c i False (ps_ux s) = (Inr v, u)"
  shows "ended s d \<and> d \<noteq> c"
proof -
  note inv = pid_invD [OF pid_reach_inv [OF assms(1)]]
  have h: "held i (ps_procs s d)" using inv(7) [OF assms(2)] by simp
  then have dc: "d \<noteq> c" using assms(2) by auto
  from assms(3) show ?thesis
  proof (cases rule: flock_cases)
    case 2
    have "(i, d, True) \<notin> set (ux_locks (ps_ux s))"
      using 2(2) dc by (force simp: list_ex_iff conflict_def)
    then have "\<not> (\<exists>x. ps_procs s d = Some (Daemon x) \<and> d_lock x = Some i)" using inv(1) by blast
    then show ?thesis using h dc by (cases "ps_procs s d") (auto simp: ended_def elim: held.elims)
  qed simp
qed

lemma ended_stays: "pid_step s mv = Some s' \<Longrightarrow> ended s d \<Longrightarrow> ended s' d"
  by (cases mv) (auto simp: ended_def alive_def split: if_splits option.splits proc.splits)

lemma control_signals:
  "control_step p a live c u = Some (c', u') \<Longrightarrow> \<exists>new. ux_signals u' = new @ ux_signals u"
  by (cases c) (auto simp: send_event_def sigsend_def flock_def split: answer.splits if_splits prod.splits sum.splits option.splits)

lemma daemon_signals: "daemon_step p a d u = Some (d', u') \<Longrightarrow> ux_signals u' = ux_signals u"
  by (cases d) (auto simp: flock_def writepid_def Let_def split: answer.splits if_splits prod.splits sum.splits option.splits)

lemma signals_grow:
  assumes "pid_step s mv = Some s'"
  shows "\<exists>new. ux_signals (ps_ux s') = new @ ux_signals (ps_ux s)"
proof (cases mv)
  case (Step p a)
  then show ?thesis
    using assms control_signals daemon_signals
    by (auto split: option.splits proc.splits)
qed (use assms in \<open>auto split: if_splits\<close>)

text \<open>
  What is known of a command that was asked to stop: \<open>told\<close> are the processes sent \<open>SIGTERM\<close> since it
  started, \<open>gone\<close> those that have ended.
\<close>

fun c_stop :: "(nat \<Rightarrow> bool) \<Rightarrow> (nat \<Rightarrow> bool) \<Rightarrow> cpc \<Rightarrow> bool" where
  "c_stop told gone (CStart ev) = (ev = EVENTSTOP)"
| "c_stop told gone (CAccessed ev) = (ev = EVENTSTOP)"
| "c_stop told gone (COpened ev i) = (ev = EVENTSTOP)"
| "c_stop told gone (CBlocked ev i) = (ev = EVENTSTOP)"
| "c_stop told gone (CSending ev i d) = (ev = EVENTSTOP)"
| "c_stop told gone (CShared i) = True"
| "c_stop told gone (CWaiting i d) = told d"
| "c_stop told gone (CClosing i r) = (r = Some 0 \<longrightarrow> (\<exists>d. told d \<and> gone d))"
| "c_stop told gone (CDone r) = (r = Some 0 \<longrightarrow> (\<exists>d. told d \<and> gone d))"

fun p_stop :: "(nat \<Rightarrow> bool) \<Rightarrow> (nat \<Rightarrow> bool) \<Rightarrow> proc option \<Rightarrow> bool" where
  "p_stop told gone (Some (Ctl c)) = c_stop told gone c"
| "p_stop told gone (Some Killed) = True"
| "p_stop told gone _ = False"

lemma p_stop_mono:
  assumes "p_stop told gone pr" "\<And>d. told d \<Longrightarrow> told' d" "\<And>d. gone d \<Longrightarrow> gone' d"
  shows "p_stop told' gone' pr"
proof -
  have "c_stop told' gone' c" if "c_stop told gone c" for c
    using that assms(2,3) by (cases c) auto
  then show ?thesis
    using assms(1) by (cases "(told, gone, pr)" rule: p_stop.cases) auto
qed

lemma control_stop:
  assumes "control_step p a live c u = Some (c', u')" "c_stop told gone c"
    and "ux_signals u' = new @ ux_signals u"
    and "\<And>i d v w. c = CWaiting i d \<Longrightarrow> flock a p i False u = (Inr v, w) \<Longrightarrow> gone d"
  shows "c_stop (\<lambda>d. told d \<or> (d, SIGTERM) \<in> set new) gone c'"
proof (cases c)
  case (CSending ev i d)
  then show ?thesis
    using assms(1-3) by (auto simp: send_event_def sigsend_def EVENTSTOP_def EVENTRECONF_def EVENTSTATUS_def
        split: answer.splits if_splits)
next
  case (CWaiting i d)
  have "gone d" if "flock a p i False u = (Inr v, w)" for v w
    using assms(4) CWaiting that by blast
  then show ?thesis
    using assms(1,2) CWaiting by (auto split: prod.splits sum.splits answer.splits)
qed (use assms(1,2) in \<open>auto split: answer.splits if_splits option.splits prod.splits sum.splits\<close>)

lemma stop_step:
  assumes "pid_reach s" "pid_step s mv = Some s'" "ux_signals (ps_ux s) = new @ old"
    and "p_stop (\<lambda>d. (d, SIGTERM) \<in> set new) (ended s) (ps_procs s c)"
  shows "\<exists>new. ux_signals (ps_ux s') = new @ old \<and> p_stop (\<lambda>d. (d, SIGTERM) \<in> set new) (ended s') (ps_procs s' c)"
proof -
  obtain ys where ys: "ux_signals (ps_ux s') = ys @ ux_signals (ps_ux s)"
    using signals_grow [OF assms(2)] by blast
  let ?told = "\<lambda>d. (d, SIGTERM) \<in> set (ys @ new)"
  have mono: "p_stop ?told (ended s') pr" if "p_stop (\<lambda>d. (d, SIGTERM) \<in> set new \<or> (d, SIGTERM) \<in> set ys) (ended s) pr" for pr
    by (rule p_stop_mono [OF that]) (use ended_stays [OF assms(2)] in auto)
  have same: "p_stop ?told (ended s') (ps_procs s' c)" if "ps_procs s' c = ps_procs s c"
    using mono [OF p_stop_mono [OF assms(4)]] that by simp
  have "p_stop ?told (ended s') (ps_procs s' c)"
  proof (cases mv)
    case (StartDaemon p)
    then show ?thesis using assms(2,4) same by (cases "c = p") (auto split: if_splits)
  next
    case (StartControl p ev)
    then show ?thesis using assms(2,4) same by (cases "c = p") (auto split: if_splits)
  next
    case (Kill p)
    then show ?thesis using assms(2) same by (cases "c = p") (auto split: if_splits)
  next
    case (Step p a)
    show ?thesis
    proof (cases "c = p")
      case False
      then show ?thesis using assms(2) Step same by (auto split: option.splits proc.splits)
    next
      case True
      show ?thesis
      proof (cases "\<exists>k. ps_procs s c = Some (Ctl k)")
        case True
        then obtain k where k: "ps_procs s c = Some (Ctl k)" by blast
        then obtain k' u' where st: "control_step c a (\<lambda>q. alive (ps_procs s q)) k (ps_ux s) = Some (k', u')"
            "ps_procs s' c = Some (Ctl k')" "ps_ux s' = u'"
          using assms(2) Step \<open>c = p\<close> by auto
        have "c_stop (\<lambda>d. (d, SIGTERM) \<in> set new \<or> (d, SIGTERM) \<in> set ys) (ended s) k'"
          by (rule control_stop [OF st(1)]) (use assms(4) k ys st(3) wait_over [OF assms(1)] in auto)
        then show ?thesis using mono [of "Some (Ctl k')"] st(2) by simp
      next
        case False
        then show ?thesis using assms(2,4) Step \<open>c = p\<close>
          by (cases "ps_procs s c" ; cases "the (ps_procs s c)") auto
      qed
    qed
  qed
  then show ?thesis using ys assms(3) by (intro exI [of _ "ys @ new"]) simp
qed

lemma stop_run:
  assumes "pid_run s mvs = Some s'" "pid_reach s" "ux_signals (ps_ux s) = new @ old"
    and "p_stop (\<lambda>d. (d, SIGTERM) \<in> set new) (ended s) (ps_procs s c)"
  shows "\<exists>new. ux_signals (ps_ux s') = new @ old \<and> p_stop (\<lambda>d. (d, SIGTERM) \<in> set new) (ended s') (ps_procs s' c)"
  using assms
proof (induction mvs arbitrary: s new)
  case (Cons mv mvs)
  then obtain t where t: "pid_step s mv = Some t" "pid_run t mvs = Some s'" by (auto split: option.splits)
  obtain n where "ux_signals (ps_ux t) = n @ old" "p_stop (\<lambda>d. (d, SIGTERM) \<in> set n) (ended t) (ps_procs t c)"
    using stop_step [OF Cons.prems(2) t(1) Cons.prems(3,4)] by blast
  then show ?case using Cons.IH [OF t(2) pid_reach.step [OF Cons.prems(2) t(1)]] by blast
qed auto

text \<open>
  C14: A stop that succeeds has stopped a daemon.  From any reachable state, let a control command be started with
  \<open>EVENTSTOP\<close>, and let daemons and commands go on in any order, with any call failing and any process killed.  When the
  command has ended with success, a process that was sent \<open>SIGTERM\<close> since the command started has ended:
  it is a daemon that has exited, or was killed.
\<close>
theorem stop_waits:
  assumes "pid_reach s" "pid_step s (StartControl c EVENTSTOP) = Some s0" "pid_run s0 mvs = Some s'"
    and "ps_procs s' c = Some (Ctl (CDone (Some 0)))"
  shows "\<exists>d new. ux_signals (ps_ux s') = new @ ux_signals (ps_ux s) \<and> (d, SIGTERM) \<in> set new
    \<and> (ps_procs s' d = Some (Daemon DExited) \<or> ps_procs s' d = Some Killed)"
proof -
  have s0: "ps_procs s0 c = Some (Ctl (CStart EVENTSTOP))" "ux_signals (ps_ux s0) = [] @ ux_signals (ps_ux s)"
    using assms(2) by (auto split: if_splits)
  have "p_stop (\<lambda>d. (d, SIGTERM) \<in> set []) (ended s0) (ps_procs s0 c)"
    using s0(1) by simp
  from stop_run [OF assms(3) pid_reach.step [OF assms(1,2)] s0(2) this] show ?thesis
    using assms(4) by (auto simp: ended_def)
qed

text \<open>A daemon that runs, is told to stop and ends, and the command after it.\<close>

lemma stop_waits_witness:
  "\<exists>s s' d. pid_run s [Step 7 Done, Step 7 Done, Step 7 Done, Step 7 Done, Step 7 Done, Step 12 Done,
      Step 7 Done, Step 7 Done] = Some s' \<and> ps_procs s' 7 = Some (Ctl (CDone (Some 0)))
    \<and> (d, SIGTERM) \<in> set (ux_signals (ps_ux s'))
    \<and> (ps_procs s' d = Some (Daemon DExited) \<or> ps_procs s' d = Some Killed)"
proof -
  let ?more = "[Step 7 Done, Step 7 Done, Step 7 Done, Step 7 Done, Step 7 Done, Step 12 Done, Step 7 Done, Step 7 Done]"
  obtain s s0 s' where s: "pid_run (pid_start None (\<lambda>i. [])) [StartDaemon 12, Step 12 Done, Step 12 Done, Step 12 Done,
      Step 12 Done, Step 12 Done] = Some s" "pid_step s (StartControl 7 EVENTSTOP) = Some s0"
    "pid_run s0 ?more = Some s'" "ps_procs s' 7 = Some (Ctl (CDone (Some 0)))" "ux_signals (ps_ux s) = []"
    by (simp add: pid_eval)
  obtain d new where "ux_signals (ps_ux s') = new @ ux_signals (ps_ux s)" "(d, SIGTERM) \<in> set new"
    "ps_procs s' d = Some (Daemon DExited) \<or> ps_procs s' d = Some Killed"
    using stop_waits [OF run_reach [OF s(1) pid_reach.init] s(2-4)] by blast
  then show ?thesis using s(3-5) by (intro exI [of _ s0] exI [of _ s'] exI [of _ d]) simp
qed

text \<open>
  Two daemons at once.  A control command that finds no daemon removes the file; a daemon that has opened it, but not yet locked it, then
  locks a file that no path leads to, and the next daemon makes a new one.
\<close>
lemma two_daemons:
  "\<exists>s. pid_reach s \<and> ps_procs s 1 = Some (Daemon (DRunning 0)) \<and> ps_procs s 3 = Some (Daemon (DRunning 1))
     \<and> ps_procs s 2 = Some (Ctl (CDone (Some (- 1))))"
proof -
  let ?mvs = "[StartDaemon 1, Step 1 Done, StartControl 2 EVENTSTATUS, Step 2 Done, Step 2 Done, Step 2 Done, Step 2 Done, Step 2 Done,
    Step 1 Done, Step 1 Done, Step 1 Done, Step 1 Done,
    StartDaemon 3, Step 3 Done, Step 3 Done, Step 3 Done, Step 3 Done, Step 3 Done]"
  obtain s where s: "pid_run (pid_start None (\<lambda>i. [])) ?mvs = Some s"
    "ps_procs s 1 = Some (Daemon (DRunning 0))" "ps_procs s 3 = Some (Daemon (DRunning 1))"
    "ps_procs s 2 = Some (Ctl (CDone (Some (- 1))))"
    by (simp add: pid_eval)
  then show ?thesis using run_reach [OF s(1) pid_reach.init] by blast
qed

end
