(* ===== verification/Options.thy ===== *)
theory Options
  imports Getopt Pidfile
begin

text \<open>
  \<^verbatim>\<open>augserv/options.c\<close>: the command line of a server.  The path of the configuration file is resolved by
  \<^verbatim>\<open>aug_realpath_N\<close>, a parameter \<open>rp\<close> that is given the path and the buffer.  The usage text is not
  modelled.  The main program of \<^verbatim>\<open>augserv/main.c\<close> dispatches on the command; what the functions it calls
  answer is a parameter.  \<open>readopts_ok\<close> shows what is read from a command line of the documented form, without \<open>-b\<close>, which is always refused.
\<close>

section \<open>Reading the options\<close>

datatype aug_command =
  CMDDEFAULT | CMDEXIT | CMDINSTALL | CMDRECONF | CMDSTART | CMDSTATUS | CMDSTOP | CMDUNINSTALL

record aug_options =
  op_conffile :: "byte list"
  op_batch :: bool
  op_command :: aug_command

text \<open>\<^verbatim>\<open>0 == aug_strcasecmp(s, t)\<close>.\<close>

definition caseless :: "byte list \<Rightarrow> string \<Rightarrow> bool" where
  "caseless s t \<longleftrightarrow> map tolower s = map tolower (str t)"

text \<open>The first character is compared as it is, the rest without regard to case.\<close>

definition tocommand :: "byte list option \<Rightarrow> aug_fail + aug_command" where
  "tocommand w =
     (case w of
        None \<Rightarrow> Inr CMDDEFAULT
      | Some s \<Rightarrow>
          let c = (s @ [0]) ! 0; r = tl s in
          if c = 105 \<and> caseless r ''nstall'' then Inr CMDINSTALL
          else if c = 114 \<and> caseless r ''econf'' then Inr CMDRECONF
          else if c = 115 \<and> caseless r ''tart'' then Inr CMDSTART
          else if c = 115 \<and> caseless r ''tatus'' then Inr CMDSTATUS
          else if c = 115 \<and> caseless r ''top'' then Inr CMDSTOP
          else if c = 117 \<and> caseless r ''ninstall'' then Inr CMDUNINSTALL
          else Inl (ExError EINVAL))"

definition OPTSTRING :: "byte list" where "OPTSTRING = [102, 104, 112]"

lemma getopt_left_skip:
  assumes "(r, g') = aug_getopt argv optstring g" "r \<noteq> - 1"
  shows "text_left argv (g'\<lparr>go_optind := Suc (go_optind g')\<rparr>) < text_left argv g"
  using getopt_left [OF assms(1) [symmetric] assms(2)] drop_sum_le [of "\<lambda>w. Suc (length w)" "go_optind g'" argv]
  by (simp add: text_left_def)

text \<open>
  The loop over the options.  Its result: a failure, or whether the help was asked for.  A word after \<^verbatim>\<open>-f\<close> is
  taken from the command line by hand.
\<close>

function readopts_loop ::
  "(byte list \<Rightarrow> byte list \<Rightarrow> (aug_fail + unit) \<times> byte list) \<Rightarrow> byte list list \<Rightarrow> gopt \<Rightarrow> aug_options
    \<Rightarrow> (aug_fail + bool) \<times> aug_options \<times> gopt" where
  "readopts_loop rp argv g opts =
     (case aug_getopt argv OPTSTRING g of (ch, g') \<Rightarrow>
        if ch = - 1 then (Inr False, opts, g')
        else if ch = 98 then readopts_loop rp argv g' (opts\<lparr>op_batch := True\<rparr>)
        else if ch = 102 then
          if length argv \<le> go_optind g' then (Inl (ExError EINVAL), opts, g')
          else
            case rp (argv ! go_optind g') (op_conffile opts) of
              (Inl e, dst) \<Rightarrow> (Inl e, opts\<lparr>op_conffile := dst\<rparr>, g'\<lparr>go_optind := go_optind g' + 1\<rparr>)
            | (Inr u, dst) \<Rightarrow>
                readopts_loop rp argv (g'\<lparr>go_optind := go_optind g' + 1\<rparr>) (opts\<lparr>op_conffile := dst\<rparr>)
        else if ch = 104 then (Inr True, opts\<lparr>op_command := CMDEXIT\<rparr>, g')
        else (Inl (ExError EINVAL), opts, g'))"
  by pat_completeness auto
termination
  by (relation "measure (\<lambda>(rp, argv, g, opts). text_left argv g)")
     (auto intro: getopt_left [OF sym] getopt_left_skip)

declare readopts_loop.simps [simp del]

text \<open>The buffer of the path starts as an empty text; the other members are not initialised.\<close>

definition aug_readopts ::
  "(byte list \<Rightarrow> byte list \<Rightarrow> (aug_fail + unit) \<times> byte list) \<Rightarrow> aug_options \<Rightarrow> byte list list \<Rightarrow> gopt
    \<Rightarrow> (aug_fail + unit) \<times> aug_options" where
  "aug_readopts rp opts argv g =
     (let opts = opts\<lparr>op_conffile := (op_conffile opts)[0 := 0], op_batch := False\<rparr> in
      case readopts_loop rp argv (g\<lparr>go_optind := 1\<rparr>) opts of
        (Inl e, opts, g) \<Rightarrow> (Inl e, opts)
      | (Inr True, opts, g) \<Rightarrow> (Inr (), opts)
      | (Inr False, opts, g) \<Rightarrow>
          if length argv = go_optind g then (Inr (), opts\<lparr>op_command := CMDDEFAULT\<rparr>)
          else if length argv = go_optind g + 1 then
            (case tocommand (Some (argv ! go_optind g)) of
               Inl e \<Rightarrow> (Inl e, opts) | Inr c \<Rightarrow> (Inr (), opts\<lparr>op_command := c\<rparr>))
          else (Inl (ExError EINVAL), opts))"

section \<open>Command lines of the documented form\<close>

definition fresh :: "gopt \<Rightarrow> bool" where
  "fresh g \<longleftrightarrow> go_scan g = None \<or> go_scan g = Some []"

definition no_option :: "byte list \<Rightarrow> bool" where
  "no_option w \<longleftrightarrow> length w < 2 \<or> w ! 0 \<noteq> 45"

lemma getopt_f:
  assumes "argv = pre @ [45, 102] # rest" "go_optind g = length pre" "pre \<noteq> []" "fresh g"
  shows "\<exists>g'. aug_getopt argv OPTSTRING g = (102, g') \<and> go_optind g' = length pre + 1 \<and> fresh g'"
proof -
  have w: "getopt_word argv (g\<lparr>go_optarg := None\<rparr>)
      = (True, g\<lparr>go_optarg := None, go_scan := Some [102], go_optind := length pre + 1\<rparr>)"
    using assms by (auto simp: getopt_word_def fresh_def Let_def)
  then show ?thesis
    using assms by (simp add: aug_getopt_def Let_def getopt_option_def OPTSTRING_def fresh_def)
qed

lemma getopt_end:
  assumes "argv = pre @ rest" "go_optind g = length pre" "pre \<noteq> []" "fresh g" "rest = [] \<or> no_option (hd rest)"
  shows "\<exists>g'. aug_getopt argv OPTSTRING g = (- 1, g') \<and> go_optind g' = length pre"
proof -
  have "getopt_word argv (g\<lparr>go_optarg := None\<rparr>) = (False, g\<lparr>go_optarg := None\<rparr>)"
    using assms by (cases rest) (auto simp: getopt_word_def fresh_def no_option_def Let_def)
  then show ?thesis using assms by (simp add: aug_getopt_def Let_def)
qed

definition conf_words :: "byte list list \<Rightarrow> byte list list" where
  "conf_words confs = concat (map (\<lambda>c. [[45, 102], c]) confs)"

text \<open>The buffer after the paths were resolved one after the other, while that works.\<close>

fun resolve :: "(byte list \<Rightarrow> byte list \<Rightarrow> (aug_fail + unit) \<times> byte list) \<Rightarrow> byte list list \<Rightarrow> byte list
    \<Rightarrow> (aug_fail + unit) \<times> byte list" where
  "resolve rp [] dst = (Inr (), dst)"
| "resolve rp (c # cs) dst = (case rp c dst of (Inl e, dst) \<Rightarrow> (Inl e, dst) | (Inr u, dst) \<Rightarrow> resolve rp cs dst)"

lemma loop_confs:
  assumes "argv = pre @ conf_words confs @ rest" "go_optind g = length pre" "pre \<noteq> []" "fresh g"
    and "rest = [] \<or> no_option (hd rest)"
  shows "\<exists>g'. readopts_loop rp argv g opts =
      (case resolve rp confs (op_conffile opts) of
         (Inl e, dst) \<Rightarrow> (Inl e, opts\<lparr>op_conffile := dst\<rparr>, g')
       | (Inr u, dst) \<Rightarrow> (Inr False, opts\<lparr>op_conffile := dst\<rparr>, g'))
    \<and> (fst (resolve rp confs (op_conffile opts)) = Inr () \<longrightarrow> go_optind g' = length (pre @ conf_words confs))"
  using assms(1-4)
proof (induction confs arbitrary: pre g opts)
  case Nil
  then obtain g' where "aug_getopt argv OPTSTRING g = (- 1, g')" "go_optind g' = length pre"
    using getopt_end [of argv pre rest g] assms(5) by (auto simp: conf_words_def)
  then show ?case by (intro exI [of _ g']) (simp add: readopts_loop.simps [of rp argv g] conf_words_def)
next
  case (Cons c confs pre g opts)
  have argv: "argv = pre @ [45, 102] # (c # conf_words confs @ rest)" using Cons.prems(1) by (simp add: conf_words_def)
  obtain g1 where g1: "aug_getopt argv OPTSTRING g = (102, g1)" "go_optind g1 = length pre + 1" "fresh g1"
    using getopt_f [OF argv Cons.prems(2-4)] by blast
  have c: "argv ! (length pre + 1) = c" "\<not> length argv \<le> length pre + 1" unfolding argv by (simp_all add: nth_append)
  obtain r dst where rp: "rp c (op_conffile opts) = (r, dst)" by force
  let ?g = "g1\<lparr>go_optind := length pre + 2\<rparr>" and ?o = "opts\<lparr>op_conffile := dst\<rparr>"
  have step: "readopts_loop rp argv g opts = (case r of Inl e \<Rightarrow> (Inl e, ?o, ?g) | Inr u \<Rightarrow> readopts_loop rp argv ?g ?o)"
    using g1 c rp by (cases r) (simp_all add: readopts_loop.simps [of rp argv g])
  show ?case
  proof (cases r)
    case (Inl e)
    then show ?thesis using step rp by (intro exI [of _ ?g]) simp
  next
    case (Inr u)
    have "argv = (pre @ [[45, 102], c]) @ conf_words confs @ rest" using argv by simp
    from Cons.IH [OF this, of ?g ?o] g1(3) obtain g' where g': "readopts_loop rp argv ?g ?o =
        (case resolve rp confs dst of
           (Inl e, dst) \<Rightarrow> (Inl e, ?o\<lparr>op_conffile := dst\<rparr>, g')
         | (Inr u, dst) \<Rightarrow> (Inr False, ?o\<lparr>op_conffile := dst\<rparr>, g'))"
        "fst (resolve rp confs dst) = Inr () \<longrightarrow> go_optind g' = length ((pre @ [[45, 102], c]) @ conf_words confs)"
      by (auto simp: fresh_def)
    obtain r2 d2 where "resolve rp confs dst = (r2, d2)" by force
    then show ?thesis
      by (intro exI [of _ g']) (use g' step rp Inr in \<open>cases r2; simp add: conf_words_def\<close>)
  qed
qed

text \<open>
  A command line of paths and a command is read as documented.  With any number of \<^verbatim>\<open>-f\<close> options, each followed by
  its path, and then at most one word that is no option, the paths are resolved into the buffer in order, the first that cannot
  be is the failure, and otherwise the command is the one the word names (the default without one), or the
  failure of a word that names none.
\<close>
lemma readopts_ok:
  assumes "argv = prog # conf_words confs @ cmd" "fresh g" "cmd = [] \<or> (\<exists>w. cmd = [w] \<and> no_option w)"
  shows "let dst = (op_conffile opts)[0 := 0] in
    case aug_readopts rp opts argv g of (r, o') \<Rightarrow>
      op_conffile o' = snd (resolve rp confs dst) \<and> \<not> op_batch o'
      \<and> (case fst (resolve rp confs dst) of
           Inl e \<Rightarrow> r = Inl e
         | Inr u \<Rightarrow>
             (case tocommand (if cmd = [] then None else Some (hd cmd)) of
                Inl e \<Rightarrow> r = Inl e
              | Inr c \<Rightarrow> r = Inr () \<and> op_command o' = c))"
proof -
  let ?o = "opts\<lparr>op_conffile := (op_conffile opts)[0 := 0], op_batch := False\<rparr>"
  have argv: "argv = [prog] @ conf_words confs @ cmd" using assms(1) by simp
  have c: "cmd = [] \<or> no_option (hd cmd)" using assms(3) by auto
  have f: "fresh (g\<lparr>go_optind := 1\<rparr>)" using assms(2) by (simp add: fresh_def)
  obtain g' where g': "readopts_loop rp argv (g\<lparr>go_optind := 1\<rparr>) ?o =
      (case resolve rp confs (op_conffile ?o) of
         (Inl e, dst) \<Rightarrow> (Inl e, ?o\<lparr>op_conffile := dst\<rparr>, g')
       | (Inr u, dst) \<Rightarrow> (Inr False, ?o\<lparr>op_conffile := dst\<rparr>, g'))"
      "fst (resolve rp confs (op_conffile ?o)) = Inr () \<longrightarrow> go_optind g' = length ([prog] @ conf_words confs)"
    using loop_confs [OF argv _ _ f c, of rp ?o] by auto
  obtain r dst where r: "resolve rp confs ((op_conffile opts)[0 := 0]) = (r, dst)" by force
  show ?thesis
  proof (cases r)
    case (Inl e)
    then show ?thesis using g'(1) r by (simp add: aug_readopts_def Let_def)
  next
    case (Inr u)
    then have i: "go_optind g' = length ([prog] @ conf_words confs)" using g'(2) r by simp
    show ?thesis
    proof (cases cmd)
      case Nil
      then show ?thesis using g'(1) r Inr i argv by (simp add: aug_readopts_def Let_def tocommand_def)
    next
      case (Cons w ws)
      then have "cmd = [w]" using assms(3) by auto
      moreover from this have "argv ! go_optind g' = w" unfolding i argv by (simp add: nth_append)
      ultimately show ?thesis
        using g'(1) r Inr i argv by (simp add: aug_readopts_def Let_def split: sum.split)
    qed
  qed
qed

lemma readopts_ok_witness:
  "case aug_readopts (\<lambda>p dst. (Inr (), p @ [0])) \<lparr>op_conffile = [9], op_batch = True, op_command = CMDEXIT\<rparr>
      [[97], [45, 102], [99], [83, 116]] \<lparr>go_optarg = None, go_optind = 0, go_optopt = 0, go_scan = None\<rparr> of
    (r, o') \<Rightarrow> op_conffile o' = [99, 0] \<and> r = Inl (ExError EINVAL)"
proof -
  let ?g = "\<lparr>go_optarg = None, go_optind = 0, go_optopt = 0, go_scan = None\<rparr>"
  let ?o = "\<lparr>op_conffile = [9], op_batch = True, op_command = CMDEXIT\<rparr>"
  have a: "[[97], [45, 102], [99], [83, 116]] = [97] # conf_words [[99]] @ [[83, 116 :: byte]]" by (simp add: conf_words_def)
  have b: "fresh ?g" "[[83, 116 :: byte]] = [] \<or> (\<exists>w. [[83, 116 :: byte]] = [w] \<and> no_option w)"
    by (simp_all add: fresh_def no_option_def)
  have t: "tocommand (Some [83, 116]) = Inl (ExError EINVAL)" by (simp add: tocommand_def Let_def)
  show ?thesis
    using readopts_ok [OF a b, of ?o "\<lambda>p dst. (Inr (), p @ [0])"] t by (auto simp: Let_def split: prod.splits)
qed

text \<open>
  The option for batch mode is always refused, although the usage text has it: it is not among the
  characters given to \<^verbatim>\<open>aug_getopt\<close>.
\<close>
lemma batch_refused:
  "fst (aug_readopts rp opts [prog, [45, 98]] \<lparr>go_optarg = None, go_optind = 0, go_optopt = 0, go_scan = None\<rparr>)
    = Inl (ExError EINVAL)"
  by (simp add: aug_readopts_def readopts_loop.simps aug_getopt_def getopt_word_def getopt_option_def OPTSTRING_def Let_def)


section \<open>The main program (main.c)\<close>

text \<open>
  The functions it calls, and the failure with which each returns, if it does: \<open>env\<close>.  \<^verbatim>\<open>die_\<close> jumps back to the
  start, which returns 1.  The calls made are part of the result, \<^verbatim>\<open>aug_termserv\<close> among them.
\<close>

datatype serv_call =
  ReadServConf bool | InitServ | RunServ | TermServ | SetDaemonLog | Daemonise | Control int | Install | Uninstall

definition foreground :: "(serv_call \<Rightarrow> aug_fail option) \<Rightarrow> nat \<times> serv_call list" where
  "foreground env =
     (if env (ReadServConf False) \<noteq> None then (1, [ReadServConf False])
      else if env InitServ \<noteq> None then (1, [ReadServConf False, InitServ])
      else (if env RunServ \<noteq> None then 1 else 0, [ReadServConf False, InitServ, RunServ, TermServ]))"

text \<open>\<open>Inr False\<close>: the process is wanted in the foreground.\<close>

definition daemonise :: "(serv_call \<Rightarrow> aug_fail option) \<Rightarrow> nat + bool" where
  "daemonise env =
     (case env Daemonise of
        None \<Rightarrow> Inr True
      | Some e \<Rightarrow> if e = ExNone then Inr False else Inl 1)"

definition or_die :: "(serv_call \<Rightarrow> aug_fail option) \<Rightarrow> serv_call \<Rightarrow> nat \<times> serv_call list" where
  "or_die env f = (if env f \<noteq> None then 1 else 0, [f])"

definition aug_main ::
  "(byte list \<Rightarrow> byte list \<Rightarrow> (aug_fail + unit) \<times> byte list) \<Rightarrow> (serv_call \<Rightarrow> aug_fail option) \<Rightarrow> aug_options
    \<Rightarrow> byte list list \<Rightarrow> gopt \<Rightarrow> nat \<times> serv_call list" where
  "aug_main rp env opts argv g =
     (case aug_readopts rp opts argv g of
        (Inl e, opts) \<Rightarrow> (1, [])
      | (Inr u, opts) \<Rightarrow>
          (case op_command opts of
             CMDDEFAULT \<Rightarrow> foreground env
           | CMDEXIT \<Rightarrow> (0, [])
           | CMDINSTALL \<Rightarrow> or_die env Install
           | CMDRECONF \<Rightarrow> or_die env (Control EVENTRECONF)
           | CMDSTART \<Rightarrow> (case daemonise env of Inl st \<Rightarrow> st | Inr b \<Rightarrow> 0, [SetDaemonLog, Daemonise])
           | CMDSTATUS \<Rightarrow> or_die env (Control EVENTSTATUS)
           | CMDSTOP \<Rightarrow> or_die env (Control EVENTSTOP)
           | CMDUNINSTALL \<Rightarrow> or_die env Uninstall))"

text \<open>
  The exit status tells whether the command was done, but for a start that fails because a file or a
  directory is missing: it ends with 0 and no daemon runs.
\<close>

lemma main_status:
  assumes "aug_readopts rp opts argv g = (Inr (), o')" "op_command o' \<noteq> CMDSTART"
  shows "fst (aug_main rp env opts argv g) = 0
    \<longleftrightarrow> (\<forall>f \<in> set (snd (aug_main rp env opts argv g)). f \<noteq> TermServ \<longrightarrow> env f = None)"
  using assms by (cases "op_command o'") (auto simp: aug_main_def foreground_def or_die_def)

lemma start_unnoticed:
  assumes "aug_readopts rp opts argv g = (Inr (), o')" "op_command o' = CMDSTART"
  shows "fst (aug_main rp env opts argv g) = 0 \<longleftrightarrow> env Daemonise = None \<or> env Daemonise = Some ExNone"
  using assms by (auto simp: aug_main_def daemonise_def split: option.splits)

end
