(* ===== verification/MarTool.thy ===== *)
theory MarTool
  imports Mfile Getopt Lexer Conv
begin

text \<open>
  The archive tool: \<^verbatim>\<open>mar/mar.c\<close> and \<^verbatim>\<open>mar/utility.c\<close>, over the option scanner, the archive and the copies
  from and to files.  The standard input and output are byte lists, and so are files; reading and writing them
  does not fail.  Opening the archive is a parameter; it gives the object, whose sequence is what the file is left with when
  the object is destroyed (\<open>Mfile\<close> relates sequences in memory to those in files).  The texts on the
  standard error are not modelled.

  A run on an archive does what its options say, one after the other, as on the abstract archive.  The main
  program, however, never gets to a run that can write (\<open>main_changes_nothing\<close>); its help text is left out.
\<close>

section \<open>Streams and fields (utility.c)\<close>

record io =
  io_in :: "byte list"
  io_out :: "byte list"
  io_calls :: nat
  io_files :: "byte list \<Rightarrow> byte list option"

text \<open>\<^verbatim>\<open>fgets\<close> into a buffer of \<open>sz\<close> bytes: the bytes up to the end of the line, as far as they fit.\<close>

definition fgets :: "nat \<Rightarrow> byte list \<Rightarrow> byte list" where
  "fgets sz s =
     (let most = take (sz - 1) s; before = takeWhile (\<lambda>b. b \<noteq> 10) most
      in if length before < length most then before @ [10] else most)"

text \<open>The line without its end, and the rest of the stream; at the end of the stream the failure is \<open>ExNone\<close>.\<close>

definition aug_readline :: "nat \<Rightarrow> byte list \<Rightarrow> (aug_fail + byte list) \<times> byte list" where
  "aug_readline sz s =
     (if s = [] then (Inl ExNone, s)
      else
        let buf = fgets sz s; rest = drop (length buf) s; text = takeWhile (\<lambda>b. b \<noteq> 0) buf
        in if 10 \<notin> set text then (Inl (ExError EPARSE), rest)
           else (Inr (takeWhile (\<lambda>b. b \<noteq> 10) text), rest))"

definition aug_atofield :: "byte list \<Rightarrow> aug_fail + byte list \<times> byte list" where
  "aug_atofield src =
     (let value = dropWhile (\<lambda>b. b \<noteq> 61) src in
      if value = [] then Inl (ExError EPARSE)
      else Inr (takeWhile (\<lambda>b. b \<noteq> 61) src, tl value))"

definition aug_confirm :: "string \<Rightarrow> io \<Rightarrow> bool \<times> io" where
  "aug_confirm prompt io =
     (let io = io\<lparr>io_out := io_out io @ str prompt @ str ''? (y or [n]): ''\<rparr> in
      case aug_readline 3 (io_in io) of
        (Inl e, rest) \<Rightarrow> (False, io\<lparr>io_in := rest\<rparr>)
      | (Inr s, rest) \<Rightarrow> (length s = 1 \<and> (hd s = 121 \<or> hd s = 89), io\<lparr>io_in := rest\<rparr>))"

lemma readline_rest: "aug_readline sz s = (Inr l, rest) \<Longrightarrow> length rest < length s"
proof -
  assume r: "aug_readline sz s = (Inr l, rest)"
  then have "s \<noteq> []" "rest = drop (length (fgets sz s)) s" "fgets sz s \<noteq> []"
    by (auto simp: aug_readline_def Let_def split: if_splits)
  then show "length rest < length s" by simp
qed

text \<open>
  The archive is called through its interface: \<open>c\<close> does one operation on the state and tells whether it
  succeeded.  The result is also the rest of the stream.
\<close>

function aug_streamset :: "('s \<Rightarrow> mar_op \<Rightarrow> bool \<times> 's) \<Rightarrow> byte list \<Rightarrow> 's \<Rightarrow> bool \<times> byte list \<times> 's" where
  "aug_streamset c stream st =
     (case aug_readline AUG_MAXLINE stream of
        (Inl e, stream') \<Rightarrow> (e = ExNone, stream', st)
      | (Inr buf, stream') \<Rightarrow>
          (case aug_atofield buf of
             Inl e \<Rightarrow> (False, stream', st)
           | Inr (name, value) \<Rightarrow>
               (case c st (PutP name value) of
                  (ok, st') \<Rightarrow> if \<not> ok then (False, stream', st') else aug_streamset c stream' st')))"
  by pat_completeness auto
termination
  by (relation "measure (\<lambda>(c, stream, st). length stream)") (auto dest: readline_rest [OF sym])

declare aug_streamset.simps [simp del]

text \<open>The stream that is read is the standard input, whatever the argument; it is called with that only.\<close>

function aug_insertstream :: "('s \<Rightarrow> mar_op \<Rightarrow> bool \<times> 's) \<Rightarrow> byte list \<Rightarrow> 's \<Rightarrow> bool \<times> byte list \<times> 's" where
  "aug_insertstream c stream st =
     (let buf = take AUG_MAXLINE stream; stream' = drop AUG_MAXLINE stream in
      case (if buf \<noteq> [] then c st (Write buf) else (True, st)) of
        (ok, st') \<Rightarrow>
          if \<not> ok then (False, stream', st')
          else if length buf < AUG_MAXLINE then (True, stream', st')
          else aug_insertstream c stream' st')"
  by pat_completeness auto
termination
  by (relation "measure (\<lambda>(c, stream, st). length stream)") (auto simp: AUG_MAXLINE_def)

declare aug_insertstream.simps [simp del]

text \<open>The text \<^verbatim>\<open>aug_writevalue_\<close> writes.\<close>

definition value_text :: "byte list \<Rightarrow> byte list" where "value_text v = v @ [10]"

section \<open>What the options do (mar.c)\<close>

definition CREATEOPT :: "32 word" where "CREATEOPT = 0x01"
definition FORCEOPT :: "32 word" where "FORCEOPT = 0x02"
definition READOPT :: "32 word" where "READOPT = 0x04"
definition STDINOPT :: "32 word" where "STDINOPT = 0x08"
definition WRITEOPT :: "32 word" where "WRITEOPT = 0x10"

text \<open>\<^verbatim>\<open>"cd:fg:hi:lnop:tx:z"\<close>.\<close>

definition OPTIONS :: "byte list" where "OPTIONS = str ''cd:fg:hi:lnop:tx:z''"

text \<open>
  What the system answers: the allocator to each operation that may need memory, the calls behind mapped files, and the reason why a file
  cannot be opened although it is there or could be created.
\<close>

record tenv =
  te_mem :: "nat \<Rightarrow> bool"
  te_os :: osys
  te_page :: nat
  te_fmem :: bool
  te_mmem :: bool
  te_deny :: "byte list \<Rightarrow> 32 word \<Rightarrow> nat option"

definition open_file :: "tenv \<Rightarrow> io \<Rightarrow> byte list \<Rightarrow> 32 word \<Rightarrow> nat + byte list" where
  "open_file env io path flags =
     (case te_deny env path flags of
        Some e \<Rightarrow> Inl e
      | None \<Rightarrow>
          (case io_files io path of
             None \<Rightarrow> if flags AND AUG_CREAT = 0 then Inl 2 else Inr []
           | Some bs \<Rightarrow> Inr (if flags AND AUG_TRUNC \<noteq> 0 then [] else bs)))"

definition call :: "tenv \<Rightarrow> mar \<times> io \<Rightarrow> mar_op \<Rightarrow> bool \<times> mar \<times> io" where
  "call env st opr =
     (case st of (m, io) \<Rightarrow>
        case exec (te_mem env (io_calls io)) m opr of
          (r, m) \<Rightarrow> (\<not> isl r, m, io\<lparr>io_calls := io_calls io + 1\<rparr>))"

definition confirmed :: "32 word \<Rightarrow> string \<Rightarrow> io \<Rightarrow> bool \<times> io" where
  "confirmed opts prompt io = (if FORCEOPT AND opts \<noteq> 0 then (True, io) else aug_confirm prompt io)"

definition mt_clear :: "tenv \<Rightarrow> 32 word \<Rightarrow> mar \<times> io \<Rightarrow> bool \<times> mar \<times> io" where
  "mt_clear env opts st =
     (case st of (m, io) \<Rightarrow>
        case confirmed opts ''clear all fields'' io of
          (ok, io) \<Rightarrow> if \<not> ok then (True, m, io) else call env (m, io) Clear)"

definition mt_del :: "tenv \<Rightarrow> 32 word \<Rightarrow> byte list \<Rightarrow> mar \<times> io \<Rightarrow> bool \<times> mar \<times> io" where
  "mt_del env opts name st =
     (case st of (m, io) \<Rightarrow>
        case confirmed opts ''delete field by name'' io of
          (ok, io) \<Rightarrow> if \<not> ok then (True, m, io) else call env (m, io) (DelP name))"

definition mt_zero :: "tenv \<Rightarrow> 32 word \<Rightarrow> mar \<times> io \<Rightarrow> bool \<times> mar \<times> io" where
  "mt_zero env opts st =
     (case st of (m, io) \<Rightarrow>
        case confirmed opts ''zero truncate content data'' io of
          (ok, io) \<Rightarrow> if \<not> ok then (True, m, io) else call env (m, io) (Truncate 0))"

text \<open>A negative size is a failure.\<close>

definition mt_get :: "byte list \<Rightarrow> mar \<times> io \<Rightarrow> bool \<times> mar \<times> io" where
  "mt_get name st =
     (case st of (m, io) \<Rightarrow>
        case getp m name of
          (Inl e, m) \<Rightarrow> (False, m, io)
        | (Inr (ret, p), m) \<Rightarrow>
            if ret < 0 then (False, m, io)
            else (True, m, io\<lparr>io_out := io_out io @ value_text (case p of None \<Rightarrow> [] | Some p \<Rightarrow> bytes_at (mr_seq m) p (nat ret))\<rparr>))"

definition mt_size :: "mar \<times> io \<Rightarrow> bool \<times> mar \<times> io" where
  "mt_size st = (case st of (m, io) \<Rightarrow> (True, m, io\<lparr>io_out := io_out io @ decimal (getsize m) @ [10]\<rparr>))"

text \<open>Extraction.  A file that was opened is there afterwards, cut or created, even if the copy failed.\<close>

definition mt_extract :: "tenv \<Rightarrow> byte list \<Rightarrow> mar \<times> io \<Rightarrow> bool \<times> mar \<times> io" where
  "mt_extract env filename st =
     (case st of (m, io) \<Rightarrow>
        if filename = [45] then
          (case getdata m of
             (Inl e, m) \<Rightarrow> (False, m, io)
           | (Inr (p, sz), m) \<Rightarrow> (True, m, io\<lparr>io_out := io_out io @ bytes_at (mr_seq m) p sz\<rparr>))
        else
          let file = open_file env io filename in
          case extract_BIN (te_os env) (te_page env) (te_fmem env) (te_mmem env) file m of
            (r, left', m') \<Rightarrow>
              (\<not> isl r, m',
               if \<not> READABLE m then io
               else case left' of
                      Some bs \<Rightarrow> io\<lparr>io_files := (io_files io)(filename \<mapsto> bs)\<rparr>
                    | None \<Rightarrow>
                        (case file (open_flags (AUG_WRONLY OR AUG_CREAT OR AUG_TRUNC)) of
                           Inl e \<Rightarrow> io
                         | Inr bs \<Rightarrow> io\<lparr>io_files := (io_files io)(filename \<mapsto> bs)\<rparr>)))"

definition mt_insert :: "tenv \<Rightarrow> byte list \<Rightarrow> mar \<times> io \<Rightarrow> bool \<times> mar \<times> io" where
  "mt_insert env filename st =
     (case st of (m, io) \<Rightarrow>
        if filename = [45] then
          (case aug_insertstream (call env) (io_in io) (m, io) of
             (ok, rest, m, io) \<Rightarrow> (ok, m, io\<lparr>io_in := rest\<rparr>))
        else
          case insert_BIN (te_os env) (te_page env) (te_fmem env) (te_mmem env) (te_mem env (io_calls io))
                 (open_file env io filename) m of
            (r, m) \<Rightarrow> (\<not> isl r, m, io\<lparr>io_calls := io_calls io + 1\<rparr>))"

definition mt_fileset :: "tenv \<Rightarrow> byte list \<Rightarrow> mar \<times> io \<Rightarrow> bool \<times> mar \<times> io" where
  "mt_fileset env filename st =
     (case st of (m, io) \<Rightarrow>
        if filename = [45] then
          (case aug_streamset (call env) (io_in io) (m, io) of
             (ok, rest, m, io) \<Rightarrow> (ok, m, io\<lparr>io_in := rest\<rparr>))
        else
          case open_file env io filename AUG_RDONLY of
            Inl e \<Rightarrow> (False, m, io)
          | Inr stream \<Rightarrow>
              (case aug_streamset (call env) stream (m, io) of (ok, rest, m, io) \<Rightarrow> (ok, m, io)))"

definition mt_put :: "tenv \<Rightarrow> byte list \<Rightarrow> mar \<times> io \<Rightarrow> bool \<times> mar \<times> io" where
  "mt_put env src st =
     (case aug_atofield src of
        Inl e \<Rightarrow> mt_fileset env src st
      | Inr (name, value) \<Rightarrow> call env st (PutP name value))"

text \<open>The loops over the fields end because the archive has only so many.\<close>

lemma getfield_less: "exec mem m (GetField i) = (Inr (RField (Some f)), m') \<Longrightarrow> i < if_fields (mr_info m) \<and> mr_info m' = mr_info m"
  by (auto simp: map_res_def get_def reading_def aug_getfield_def split: if_splits prod.splits sum.splits)

lemma ntop_less: "exec mem m (NtoP i) = (Inr r, m') \<Longrightarrow> i < if_fields (mr_info m) \<and> mr_info m' = mr_info m"
  by (auto simp: map_res_def ntop_def reading_def aug_fieldntop_def split: if_splits prod.splits sum.splits)

function mt_list :: "nat \<Rightarrow> mar \<times> io \<Rightarrow> bool \<times> mar \<times> io" where
  "mt_list i (m, io) =
     (case exec True m (GetField i) of
        (Inr (RField (Some (name, value))), m') \<Rightarrow>
          mt_list (i + 1) (m', io\<lparr>io_out := io_out io @ name @ [61] @ value_text value\<rparr>)
      | (Inr r, m') \<Rightarrow> (True, m', io)
      | (Inl e, m') \<Rightarrow> (False, m', io))"
  by pat_completeness auto
termination
  by (relation "measure (\<lambda>(i, m, io). if_fields (mr_info m) - i)") (auto dest!: getfield_less [OF sym] simp del: exec.simps)

declare mt_list.simps [simp del]

function mt_names :: "nat \<Rightarrow> mar \<times> io \<Rightarrow> bool \<times> mar \<times> io" where
  "mt_names i (m, io) =
     (case exec True m (NtoP i) of
        (Inr r, m') \<Rightarrow>
          mt_names (i + 1) (m', io\<lparr>io_out := io_out io @ (case r of RBytes (Some name) \<Rightarrow> name | _ \<Rightarrow> []) @ [10]\<rparr>)
      | (Inl e, m') \<Rightarrow> (e = ExNone, m', io))"
  by pat_completeness auto
termination
  by (relation "measure (\<lambda>(i, m, io). if_fields (mr_info m) - i)") (auto dest!: ntop_less [OF sym] simp del: exec.simps)

declare mt_names.simps [simp del]


section \<open>A run on an archive\<close>

text \<open>The case of an option; \<open>arg\<close> is \<^verbatim>\<open>aug_optarg\<close>, which is there for the options that take one.\<close>

definition mt_option :: "tenv \<Rightarrow> 32 word \<Rightarrow> int \<Rightarrow> byte list option \<Rightarrow> mar \<times> io \<Rightarrow> bool \<times> mar \<times> io" where
  "mt_option env opts ch arg st =
     (if ch = 99 then mt_clear env opts st
      else if ch = 100 then mt_del env opts (the arg) st
      else if ch = 102 then (True, st)
      else if ch = 103 then mt_get (the arg) st
      else if ch = 105 then mt_insert env (the arg) st
      else if ch = 108 then mt_names 0 st
      else if ch = 110 then mt_size st
      else if ch = 111 then (case st of (m, io) \<Rightarrow> case compact m of (r, m) \<Rightarrow> (\<not> isl r, m, io))
      else if ch = 112 then mt_put env (the arg) st
      else if ch = 116 then mt_list 0 st
      else if ch = 120 then mt_extract env (the arg) st
      else if ch = 122 then mt_zero env opts st
      else (False, st))"

function run_loop :: "tenv \<Rightarrow> 32 word \<Rightarrow> byte list list \<Rightarrow> gopt \<Rightarrow> mar \<times> io \<Rightarrow> bool \<times> mar \<times> io" where
  "run_loop env opts argv g st =
     (case aug_getopt argv OPTIONS g of (ch, g') \<Rightarrow>
        if ch = - 1 then (True, st)
        else case mt_option env opts ch (go_optarg g') st of
               (ok, st') \<Rightarrow> if \<not> ok then (False, st') else run_loop env opts argv g' st')"
  by pat_completeness auto
termination
  by (relation "measure (\<lambda>(env, opts, argv, g, st). text_left argv g)") (auto intro: getopt_left [OF sym])

declare run_loop.simps [simp del]

definition run_flags :: "32 word \<Rightarrow> 32 word" where
  "run_flags opts =
     (let rw = opts AND (READOPT OR WRITEOPT);
          flags = (if rw = READOPT then AUG_RDONLY
                   else if rw = WRITEOPT then AUG_WRONLY
                   else if rw = READOPT OR WRITEOPT then AUG_RDWR
                   else 0)
      in if opts AND CREATEOPT \<noteq> 0 then flags OR AUG_CREAT else flags)"

text \<open>With the result: the flags, the archive as it was opened and the sequence it leaves.\<close>

definition run_BIN ::
  "tenv \<Rightarrow> (32 word \<Rightarrow> aug_fail + mar) \<Rightarrow> 32 word \<Rightarrow> byte list list \<Rightarrow> gopt \<Rightarrow> io
    \<Rightarrow> bool \<times> (32 word \<times> mar \<times> seq) option \<times> io" where
  "run_BIN env openmar opts argv g io =
     (case openmar (run_flags opts) of
        Inl e \<Rightarrow> (False, None, io)
      | Inr m \<Rightarrow>
          (case run_loop env opts argv g (m, io) of
             (ok, m', io) \<Rightarrow> (ok, Some (run_flags opts, m, destroy m'), io)))"

section \<open>The main program\<close>

text \<open>The options that decide how the archive is opened; \<open>Inl\<close> is an exit status.\<close>

definition main_switch :: "int \<Rightarrow> byte list option \<Rightarrow> 32 word \<Rightarrow> nat + 32 word" where
  "main_switch ch arg opts =
     (if ch = 105 \<or> ch = 112 then
        (if the arg = [45] then
           if opts AND STDINOPT \<noteq> 0 then Inl 1
           else Inr (opts OR STDINOPT OR (CREATEOPT OR WRITEOPT))
         else Inr (opts OR (CREATEOPT OR WRITEOPT)))
      else if ch = 102 then Inr (opts OR FORCEOPT)
      else if ch = 104 then Inl 0
      else if ch \<in> {103, 108, 110, 116, 120} then Inr (opts OR READOPT)
      else if ch \<in> {99, 100, 111, 122} then Inr (opts OR WRITEOPT)
      else Inl 1)"

lemma main_switch_positive: "main_switch ch arg opts = Inr opts' \<Longrightarrow> 0 \<le> ch"
  by (auto simp: main_switch_def split: if_splits)

text \<open>The loop goes on while the option, kept in a \<^verbatim>\<open>char\<close>, is negative.\<close>

function main_loop :: "byte list list \<Rightarrow> gopt \<Rightarrow> 32 word \<Rightarrow> nat + 32 word \<times> gopt" where
  "main_loop argv g opts =
     (case aug_getopt argv OPTIONS g of (r, g') \<Rightarrow>
        let ch = sint (word_of_int r :: 8 word) in
        if ch < 0 then
          (case main_switch ch (go_optarg g') opts of
             Inl status \<Rightarrow> Inl status
           | Inr opts' \<Rightarrow> main_loop argv g' opts')
        else Inr (opts, g'))"
  by pat_completeness auto
termination
  by (relation "measure (\<lambda>(argv, g, opts). text_left argv g)") (auto simp: Let_def dest: main_switch_positive)

declare main_loop.simps [simp del]

definition tool_main ::
  "tenv \<Rightarrow> (byte list \<Rightarrow> 32 word \<Rightarrow> aug_fail + mar) \<Rightarrow> byte list list \<Rightarrow> io
    \<Rightarrow> nat \<times> (32 word \<times> mar \<times> seq) option \<times> io" where
  "tool_main env openmar argv io =
     (case main_loop argv \<lparr>go_optarg = None, go_optind = 0, go_optopt = 0, go_scan = None\<rparr> 0 of
        Inl status \<Rightarrow> (status, None, io)
      | Inr (opts, g) \<Rightarrow>
          if int (go_optind g) < int (length argv) - 1 then (1, None, io)
          else if go_optind g = length argv then (1, None, io)
          else
            case run_BIN env (openmar (argv ! go_optind g)) opts argv (g\<lparr>go_optind := 0\<rparr>) io of
              (ok, r, io) \<Rightarrow> (if ok then 0 else 1, r, io))"

section \<open>An archive that is opened to be read\<close>

definition same_bytes :: "mar \<Rightarrow> mar \<Rightarrow> bool" where
  "same_bytes m m' \<longleftrightarrow> sq_addr (mr_seq m') = sq_addr (mr_seq m) \<and> mr_flags m' = mr_flags m"

lemma same_bytes_refl [simp]: "same_bytes m m"
  by (simp add: same_bytes_def)

lemma same_bytes_trans: "same_bytes m m1 \<Longrightarrow> same_bytes m1 m2 \<Longrightarrow> same_bytes m m2"
  by (simp add: same_bytes_def)

lemma same_bytes_writable: "same_bytes m m' \<Longrightarrow> WRITABLE m' = WRITABLE m"
  by (simp add: same_bytes_def WRITABLE_def)

lemma reading_same: "keeps f \<Longrightarrow> reading m f = (r, m') \<Longrightarrow> same_bytes m m'"
  using reading_keeps [of f m] by (simp add: same_bytes_def)

lemma exec_same: "\<not> WRITABLE m \<Longrightarrow> exec mem m opr = (r, m') \<Longrightarrow> same_bytes m m'"
  using exec_readonly [of m mem opr] by (simp add: same_bytes_def)

lemma call_same: "\<not> WRITABLE m \<Longrightarrow> call env (m, io) opr = (b, m', io') \<Longrightarrow> same_bytes m m'"
  by (auto simp: call_def simp del: exec.simps split: prod.splits dest: exec_same)

text \<open>What every operation keeps, the streams keep.\<close>

lemma streamset_step:
  "aug_streamset c stream st =
     (case aug_readline AUG_MAXLINE stream of
        (Inl e, stream') \<Rightarrow> (e = ExNone, stream', st)
      | (Inr buf, stream') \<Rightarrow>
          (case aug_atofield buf of
             Inl e \<Rightarrow> (False, stream', st)
           | Inr nv \<Rightarrow>
               if fst (c st (PutP (fst nv) (snd nv))) then aug_streamset c stream' (snd (c st (PutP (fst nv) (snd nv))))
               else (False, stream', snd (c st (PutP (fst nv) (snd nv))))))"
  unfolding aug_streamset.simps [of c stream st] by (simp split: sum.split prod.split)

lemma streamset_keeps:
  assumes "\<And>st opr. I st \<Longrightarrow> I (snd (c st opr))"
  shows "I st \<Longrightarrow> I (snd (snd (aug_streamset c stream st)))"
proof (induction "length stream" arbitrary: stream st rule: less_induct)
  case less
  then show ?case
    using readline_rest [of AUG_MAXLINE stream] assms
    by (auto simp: streamset_step [of c stream st] split: prod.split sum.split)
qed

lemma insertstream_step:
  "aug_insertstream c stream st =
     (let st' = (if stream \<noteq> [] then c st (Write (take AUG_MAXLINE stream)) else (True, st)) in
      if \<not> fst st' then (False, drop AUG_MAXLINE stream, snd st')
      else if length stream < AUG_MAXLINE then (True, drop AUG_MAXLINE stream, snd st')
      else aug_insertstream c (drop AUG_MAXLINE stream) (snd st'))"
  unfolding aug_insertstream.simps [of c stream st] by (auto simp: split_def Let_def AUG_MAXLINE_def)

lemma insertstream_keeps:
  assumes "\<And>st opr. I st \<Longrightarrow> I (snd (c st opr))"
  shows "I st \<Longrightarrow> I (snd (snd (aug_insertstream c stream st)))"
proof (induction "length stream" arbitrary: stream st rule: less_induct)
  case less
  then show ?case
    using assms by (auto simp: insertstream_step [of c stream st] Let_def AUG_MAXLINE_def)
qed

text \<open>The invariant of a run on an archive that is not writable.\<close>

definition as_opened :: "mar \<Rightarrow> mar \<times> io \<Rightarrow> bool" where
  "as_opened m0 st \<longleftrightarrow> same_bytes m0 (fst st) \<and> \<not> WRITABLE m0"

lemma as_openedI: "as_opened m0 (m, io) \<Longrightarrow> same_bytes m m' \<Longrightarrow> as_opened m0 (m', io')"
  by (auto simp: as_opened_def intro: same_bytes_trans)

lemma as_opened_io: "as_opened m0 (m, io) \<Longrightarrow> as_opened m0 (m, io')"
  by (simp add: as_opened_def)

lemma as_opened_WRITABLE: "as_opened m0 (m, io) \<Longrightarrow> \<not> WRITABLE m"
  by (auto simp: as_opened_def same_bytes_writable)

lemma call_opened: "as_opened m0 st \<Longrightarrow> as_opened m0 (snd (call env st opr))"
  by (cases st) (auto simp: call_def simp del: exec.simps split: prod.splits
      intro: as_openedI exec_same dest: as_opened_WRITABLE)

lemma writing_same: "\<not> WRITABLE m \<Longrightarrow> writing m f = (r, m') \<Longrightarrow> m' = m"
  by (simp add: writing_def)

lemma insert_same: "\<not> WRITABLE m \<Longrightarrow> insert_BIN os page fmem mmem mem file m = (r, m') \<Longrightarrow> m' = m"
  by (auto simp: insert_BIN_def setcontent_BIN_def Let_def split: sum.splits prod.splits if_splits dest: writing_same)

lemma getcontent_keeps: "aug_getcontent s i = (r, s') \<Longrightarrow> sq_addr s' = sq_addr s"
  by (auto simp: aug_getcontent_def dest: enter_mem)

lemma extract_same: "extract_BIN os page fmem mmem file m = (r, l, m') \<Longrightarrow> same_bytes m m'"
  by (auto simp: extract_BIN_def Let_def same_bytes_def split: sum.splits prod.splits if_splits option.splits
      dest: getcontent_keeps)

lemma getdata_same: "getdata m = (r, m') \<Longrightarrow> same_bytes m m'"
  by (rule reading_same [OF _ getdata_def [symmetric, THEN trans]])
     (auto simp: keeps_def split: sum.splits prod.splits dest: getcontent_keeps)

lemma getp_same: "getp m name = (r, m') \<Longrightarrow> same_bytes m m'"
  unfolding getp_def by (rule reading_same [OF readers_keep(2)])

lemma list_opened: "as_opened m0 (m, io) \<Longrightarrow> as_opened m0 (snd (mt_list i (m, io)))"
proof (induction i "(m, io)" arbitrary: m io rule: mt_list.induct)
  case (1 i m io)
  obtain r m' where e: "exec True m (GetField i) = (r, m')" by force
  have "as_opened m0 (m', io')" for io'
    using as_openedI [OF "1.prems" exec_same [OF as_opened_WRITABLE [OF "1.prems"] e]] .
  then show ?case
    using "1.hyps" [OF e [symmetric]] e
    by (simp add: mt_list.simps [of i m io] del: exec.simps split: sum.split mar_res.split option.split prod.split)
qed

lemma names_opened: "as_opened m0 (m, io) \<Longrightarrow> as_opened m0 (snd (mt_names i (m, io)))"
proof (induction i "(m, io)" arbitrary: m io rule: mt_names.induct)
  case (1 i m io)
  obtain r m' where e: "exec True m (NtoP i) = (r, m')" by force
  have "as_opened m0 (m', io')" for io'
    using as_openedI [OF "1.prems" exec_same [OF as_opened_WRITABLE [OF "1.prems"] e]] .
  then show ?case
    using "1.hyps" [OF e [symmetric]] e
    by (simp add: mt_names.simps [of i m io] del: exec.simps split: sum.split)
qed


lemma option_opened:
  assumes "as_opened m0 st"
  shows "as_opened m0 (snd (mt_option env opts ch arg st))"
proof -
  obtain m io where st: "st = (m, io)" by force
  note o = as_openedI [OF assms [unfolded st]]
  have w: "\<not> WRITABLE m" using as_opened_WRITABLE assms st by blast
  have io: "as_opened m0 (m, io')" for io' using assms as_opened_io st by blast
  have stm: "as_opened m0 (m', io2)" if "aug_streamset (call env) stream (m, io') = (b, r, m', io1)" for b r m' io1 io' io2 stream
    using streamset_keeps [of "as_opened m0" "call env", OF call_opened io, of stream io'] that as_opened_io by simp
  have inm: "as_opened m0 (m', io2)" if "aug_insertstream (call env) stream (m, io') = (b, r, m', io1)" for b r m' io1 io' io2 stream
    using insertstream_keeps [of "as_opened m0" "call env", OF call_opened io, of stream io'] that as_opened_io by simp
  have files: "as_opened m0 (snd (mt_fileset env name st))" for name
    using io by (auto simp: mt_fileset_def st split: prod.split sum.split intro: stm)
  have ins: "as_opened m0 (snd (mt_insert env name st))" for name
    using io by (auto simp: mt_insert_def st split: prod.split intro: inm dest: insert_same [OF w])
  have ext: "as_opened m0 (snd (mt_extract env name st))" for name
    by (auto simp: mt_extract_def st Let_def split: prod.split sum.split intro!: o dest: extract_same getdata_same)
  have get: "as_opened m0 (snd (mt_get name st))" for name
    by (auto simp: mt_get_def st split: prod.split sum.split intro!: o dest: getp_same)
  have cmp: "as_opened m0 (snd (case compact m of (r, m) \<Rightarrow> (\<not> isl r, m, io)))"
    using io by (simp add: compact_def)
  show ?thesis
    unfolding mt_option_def
    using files ins ext get cmp io list_opened [OF io] names_opened [OF io] call_opened [OF io]
    by (auto simp: st mt_clear_def mt_del_def mt_zero_def mt_put_def mt_size_def split: prod.split sum.split)
qed

lemma loop_opened: "as_opened m0 st \<Longrightarrow> as_opened m0 (snd (run_loop env opts argv g st))"
proof (induction env opts argv g st rule: run_loop.induct)
  case (1 env opts argv g st)
  then show ?case
    using option_opened [OF "1.prems"]
    by (auto simp: run_loop.simps [of env opts argv g st] split: prod.split) (metis snd_conv)+
qed

lemma main_loop_nothing: "main_loop argv g opts = Inr (opts', g') \<Longrightarrow> opts' = opts"
  by (auto simp: main_loop.simps [of argv g opts] Let_def split: prod.splits if_splits sum.splits dest: main_switch_positive)


text \<open>
  The tool never changes an archive.  Whatever its arguments are, the main program stops after the first
  option, before it has noted what it needs, so that an archive is only ever opened to be read, and
  its bytes are left as they were, by options that clear, delete, insert and put as well.
\<close>
lemma main_changes_nothing:
  assumes "\<And>name m. openmar name AUG_RDONLY = Inr m \<Longrightarrow> mr_flags m = AUG_RDONLY"
  shows "case tool_main env openmar argv io of
      (status, None, io') \<Rightarrow> io' = io
    | (status, Some (flags, m, s), io') \<Rightarrow> flags = AUG_RDONLY \<and> sq_addr s = sq_addr (mr_seq m)"
proof -
  let ?g0 = "\<lparr>go_optarg = None, go_optind = 0, go_optopt = 0, go_scan = None\<rparr>"
  have flags: "run_flags 0 = AUG_RDONLY"
    by (simp add: run_flags_def READOPT_def WRITEOPT_def AUG_RDONLY_def Let_def)
  have run: "case run_BIN env om 0 argv g io of
      (ok, None, io') \<Rightarrow> io' = io | (ok, Some (fl, m, s), io') \<Rightarrow> fl = AUG_RDONLY \<and> sq_addr s = sq_addr (mr_seq m)"
    if om: "\<And>m. om AUG_RDONLY = Inr m \<Longrightarrow> mr_flags m = AUG_RDONLY" for om g
  proof (cases "om AUG_RDONLY")
    case (Inr m)
    have w: "\<not> WRITABLE m"
      using om [OF Inr] by (simp add: WRITABLE_def torw_def AUG_RDONLY_def AUG_WRONLY_def MAR_WRITE_def MAR_READ_def)
    then have "as_opened m (snd (run_loop env 0 argv g (m, io)))"
      by (intro loop_opened) (simp add: as_opened_def)
    moreover from this have "\<not> WRITABLE (fst (snd (run_loop env 0 argv g (m, io))))"
      by (metis as_opened_WRITABLE prod.collapse)
    ultimately show ?thesis
      using Inr by (auto simp: run_BIN_def flags destroy_def as_opened_def same_bytes_def split: prod.split)
  qed (simp add: run_BIN_def flags)
  show ?thesis
  proof (cases "main_loop argv ?g0 0")
    case (Inr r)
    obtain opts g where r: "r = (opts, g)" by force
    then have "opts = 0" using main_loop_nothing Inr by blast
    then show ?thesis
      using run [of "openmar (argv ! go_optind g)" "g\<lparr>go_optind := 0\<rparr>", OF assms] Inr r
      by (auto simp: tool_main_def split: prod.splits option.splits)
  qed (simp add: tool_main_def)
qed

lemma main_clears_nothing:
  "\<exists>m. aug_createmar True True = Inr m \<and>
     (case tool_main \<lparr>te_mem = (\<lambda>_. True), te_os = (\<lambda>_. None), te_page = 4096, te_fmem = True, te_mmem = True, te_deny = (\<lambda>_ _. None)\<rparr>
        (\<lambda>name flags. Inr (m\<lparr>mr_flags := flags\<rparr>)) [[109], [45, 99], [97]] \<lparr>io_in = [121, 10], io_out = [], io_calls = 0, io_files = Map.empty\<rparr> of
        (status, None, io') \<Rightarrow> io' = \<lparr>io_in = [121, 10], io_out = [], io_calls = 0, io_files = Map.empty\<rparr>
      | (status, Some (flags, m, s), io') \<Rightarrow> flags = AUG_RDONLY \<and> sq_addr s = sq_addr (mr_seq m))"
proof -
  obtain m where m: "aug_createmar True True = Inr m" using createmar_empty by blast
  let ?om = "\<lambda>(name :: byte list) flags. Inr (m\<lparr>mr_flags := flags\<rparr>) :: aug_fail + mar"
  have om: "mr_flags m' = AUG_RDONLY" if "?om name AUG_RDONLY = Inr m'" for name m' using that by auto
  show ?thesis by (rule exI [of _ m], rule conjI [OF m], rule main_changes_nothing [of ?om, OF om])
qed

section \<open>The options on the abstract archive\<close>

text \<open>
  The same on the fields and the body: the last component tells whether all operations were in the scope of the
  archive's refinement, and that no content was copied from or to a file.
\<close>

type_synonym astate = "archive \<times> io \<times> bool"

definition acall :: "tenv \<Rightarrow> astate \<Rightarrow> mar_op \<Rightarrow> bool \<times> astate" where
  "acall env st opr =
     (case st of (a, io, ok) \<Rightarrow>
        case spec (te_mem env (io_calls io)) a opr of
          (r, a') \<Rightarrow> (\<not> isl r, a', io\<lparr>io_calls := io_calls io + 1\<rparr>, ok \<and> in_scope a opr))"

definition asking :: "tenv \<Rightarrow> 32 word \<Rightarrow> string \<Rightarrow> mar_op \<Rightarrow> astate \<Rightarrow> bool \<times> astate" where
  "asking env opts prompt opr st =
     (case st of (a, io, ok) \<Rightarrow>
        case confirmed opts prompt io of (yes, io) \<Rightarrow> if yes then acall env (a, io, ok) opr else (True, a, io, ok))"

definition printing :: "byte list \<Rightarrow> astate \<Rightarrow> bool \<times> astate" where
  "printing text st = (case st of (a, io, ok) \<Rightarrow>
     if can_read a then (True, a, io\<lparr>io_out := io_out io @ text\<rparr>, ok) else (False, a, io, ok))"

definition spec_put :: "tenv \<Rightarrow> byte list \<Rightarrow> astate \<Rightarrow> bool \<times> astate" where
  "spec_put env src st =
     (case aug_atofield src of
        Inr (name, v) \<Rightarrow> acall env st (PutP name v)
      | Inl e \<Rightarrow>
          (case st of (a, io, ok) \<Rightarrow>
             if src = [45] then
               (case aug_streamset (acall env) (io_in io) (a, io, ok) of
                  (b, rest, a, io, ok) \<Rightarrow> (b, a, io\<lparr>io_in := rest\<rparr>, ok))
             else
               case open_file env io src AUG_RDONLY of
                 Inl e \<Rightarrow> (False, a, io, ok)
               | Inr stream \<Rightarrow> (case aug_streamset (acall env) stream (a, io, ok) of (b, rest, st) \<Rightarrow> (b, st))))"

definition spec_option :: "tenv \<Rightarrow> 32 word \<Rightarrow> int \<Rightarrow> byte list option \<Rightarrow> astate \<Rightarrow> bool \<times> astate" where
  "spec_option env opts ch arg st =
     (case st of (a, io, ok) \<Rightarrow>
      if ch = 99 then asking env opts ''clear all fields'' Clear st
      else if ch = 100 then asking env opts ''delete field by name'' (DelP (the arg)) st
      else if ch = 102 then (True, st)
      else if ch = 103 then
        (case printing (value_text (case lookup (ar_fields a) (find_field (ar_fields a) (the arg)) of None \<Rightarrow> [] | Some v \<Rightarrow> v)) st of
           (b, a, io, ok) \<Rightarrow> (b, a, io, ok \<and> cstring (the arg)))
      else if ch = 105 then
        (if the arg = [45] then
           (case aug_insertstream (acall env) (io_in io) st of (b, rest, a, io, ok) \<Rightarrow> (b, a, io\<lparr>io_in := rest\<rparr>, ok))
         else (False, a, io, False))
      else if ch = 108 then printing (concat (map (\<lambda>f. fst f @ [10]) (ar_fields a))) st
      else if ch = 110 then (True, a, io\<lparr>io_out := io_out io @ decimal (length (ar_body a)) @ [10]\<rparr>, ok)
      else if ch = 111 then (can_write a, st)
      else if ch = 112 then spec_put env (the arg) st
      else if ch = 116 then printing (concat (map (\<lambda>f. fst f @ [61] @ snd f @ [10]) (ar_fields a))) st
      else if ch = 120 then (if the arg = [45] then printing (ar_body a) st else (False, a, io, False))
      else if ch = 122 then asking env opts ''zero truncate content data'' (Truncate 0) st
      else (False, st))"

fun spec_run :: "tenv \<Rightarrow> 32 word \<Rightarrow> (int \<times> byte list option \<times> byte) list \<Rightarrow> astate \<Rightarrow> bool \<times> astate" where
  "spec_run env opts [] st = (True, st)"
| "spec_run env opts ((ch, arg, c) # os) st =
     (case spec_option env opts ch arg st of (b, st) \<Rightarrow> if b then spec_run env opts os st else (False, st))"

text \<open>The relation, as long as everything is in scope.\<close>

definition tool_sim :: "bool \<times> mar \<times> io \<Rightarrow> bool \<times> astate \<Rightarrow> bool" where
  "tool_sim x y \<longleftrightarrow>
     (case (x, y) of ((b, m, io), (b', a, io', ok)) \<Rightarrow> ok \<longrightarrow> b = b' \<and> io = io' \<and> mar_refines m a)"


lemma tool_simI: "(ok \<Longrightarrow> b = b' \<and> io = io' \<and> mar_refines m a) \<Longrightarrow> tool_sim (b, m, io) (b', a, io', ok)"
  by (simp add: tool_sim_def)

lemma call_sim:
  assumes "mar_refines m a"
  shows "tool_sim (call env (m, io) opr) (acall env (a, io, ok) opr)"
proof -
  obtain r m' where e: "exec (te_mem env (io_calls io)) m opr = (r, m')" by force
  obtain r' a' where s: "spec (te_mem env (io_calls io)) a opr = (r', a')" by force
  have "in_scope a opr \<Longrightarrow> r = r' \<and> mar_refines m' a'"
    using exec_sim [OF assms, of opr "te_mem env (io_calls io)"] e s by (simp add: simulates_def)
  then show ?thesis using e s by (simp add: call_def acall_def tool_sim_def del: exec.simps spec.simps)
qed

lemma acall_ok: "snd (snd (snd (acall env st opr))) \<Longrightarrow> snd (snd st)"
  by (cases st) (simp add: acall_def split: prod.splits del: spec.simps)

text \<open>The streams, operation by operation.\<close>

lemma streamset_ok: "snd (snd (snd (snd (aug_streamset (acall env) stream st)))) \<Longrightarrow> snd (snd st)"
proof (rule ccontr)
  assume *: "snd (snd (snd (snd (aug_streamset (acall env) stream st))))" "\<not> snd (snd st)"
  have "\<not> snd (snd (snd (acall env st opr)))" if "\<not> snd (snd st)" for st opr
    using acall_ok that by blast
  from streamset_keeps [of "\<lambda>st. \<not> snd (snd st)" "acall env", OF this *(2), of stream] *(1) show False by simp
qed

lemma streamset_sim:
  "mar_refines m a \<Longrightarrow>
   (case (aug_streamset (call env) stream (m, io), aug_streamset (acall env) stream (a, io, ok)) of
     ((b, rest, st), (b', rest', st')) \<Rightarrow> snd (snd st') \<longrightarrow> rest = rest' \<and> tool_sim (b, st) (b', st'))"
proof (induction "length stream" arbitrary: stream m a io ok rule: less_induct)
  case less
  obtain l s' where l: "aug_readline AUG_MAXLINE stream = (l, s')" by force
  show ?case
  proof (cases l)
    case (Inl e)
    then show ?thesis using l less.prems by (simp add: streamset_step [of _ stream] tool_sim_def)
  next
    case (Inr buf)
    show ?thesis
    proof (cases "aug_atofield buf")
      case (Inl e)
      then show ?thesis using l Inr less.prems by (simp add: streamset_step [of _ stream] tool_sim_def)
    next
      case f: (Inr nv)
      let ?op = "PutP (fst nv) (snd nv)"
      obtain b m1 io1 where c: "call env (m, io) ?op = (b, m1, io1)" by (cases "call env (m, io) ?op") auto
      obtain b' a1 io1' ok1 where a: "acall env (a, io, ok) ?op = (b', a1, io1', ok1)" by (cases "acall env (a, io, ok) ?op") auto
      have sim: "ok1 \<Longrightarrow> b = b' \<and> io1 = io1' \<and> mar_refines m1 a1"
        using call_sim [OF less.prems, of env io ?op ok] c a by (simp add: tool_sim_def)
      have len: "length s' < length stream" using readline_rest l Inr by blast
      show ?thesis
      proof (cases ok1)
        case True
        then show ?thesis
          using less.hyps [OF len, of m1 a1 io1 ok1] sim l Inr f c a
          by (cases b') (auto simp: streamset_step [of _ stream] tool_sim_def)
      next
        case False
        then have "\<not> snd (snd (snd (snd (aug_streamset (acall env) stream (a, io, ok)))))"
          using streamset_ok [of env s' "(a1, io1', ok1)"] l Inr f a by (auto simp: streamset_step [of _ stream])
        then show ?thesis by (auto split: prod.splits)
      qed
    qed
  qed
qed


lemma insertstream_ok: "snd (snd (snd (snd (aug_insertstream (acall env) stream st)))) \<Longrightarrow> snd (snd st)"
proof (rule ccontr)
  assume *: "snd (snd (snd (snd (aug_insertstream (acall env) stream st))))" "\<not> snd (snd st)"
  have "\<not> snd (snd (snd (acall env st opr)))" if "\<not> snd (snd st)" for st opr
    using acall_ok that by blast
  from insertstream_keeps [of "\<lambda>st. \<not> snd (snd st)" "acall env", OF this *(2), of stream] *(1) show False by simp
qed

lemma insertstream_sim:
  "mar_refines m a \<Longrightarrow>
   (case (aug_insertstream (call env) stream (m, io), aug_insertstream (acall env) stream (a, io, ok)) of
     ((b, rest, st), (b', rest', st')) \<Rightarrow> snd (snd st') \<longrightarrow> rest = rest' \<and> tool_sim (b, st) (b', st'))"
proof (induction "length stream" arbitrary: stream m a io ok rule: less_induct)
  case less
  let ?op = "Write (take AUG_MAXLINE stream)" and ?s' = "drop AUG_MAXLINE stream"
  show ?case
  proof (cases "stream = []")
    case True
    then show ?thesis using less.prems by (simp add: insertstream_step [of _ "[]"] tool_sim_def AUG_MAXLINE_def)
  next
    case s: False
    obtain b m1 io1 where c: "call env (m, io) ?op = (b, m1, io1)" by (cases "call env (m, io) ?op") auto
    obtain b' a1 io1' ok1 where a: "acall env (a, io, ok) ?op = (b', a1, io1', ok1)" by (cases "acall env (a, io, ok) ?op") auto
    have sim: "ok1 \<Longrightarrow> b = b' \<and> io1 = io1' \<and> mar_refines m1 a1"
      using call_sim [OF less.prems, of env io ?op ok] c a by (simp add: tool_sim_def)
    have len: "length ?s' < length stream" using s by (simp add: AUG_MAXLINE_def)
    show ?thesis
    proof (cases ok1)
      case True
      then show ?thesis
        using less.hyps [OF len, of m1 a1 io1 ok1] sim s c a
        by (cases b') (auto simp: insertstream_step [of _ stream] tool_sim_def Let_def)
    next
      case False
      then have "\<not> snd (snd (snd (snd (aug_insertstream (acall env) stream (a, io, ok)))))"
        using insertstream_ok [of env ?s' "(a1, io1', ok1)"] s a by (auto simp: insertstream_step [of _ stream] Let_def)
      then show ?thesis by (auto split: prod.splits)
    qed
  qed
qed

text \<open>What is read of an archive.\<close>

lemma refines_seq:
  "mar_refines m a \<Longrightarrow> same_mem (mr_seq m) s \<Longrightarrow> mar_refines (m\<lparr>mr_seq := s\<rparr>) a"
  by (simp add: mar_refines_def same_mem_rep)

lemma get_sim:
  assumes m: "mar_refines m a" and nm: "cstring name"
  shows "tool_sim (mt_get name (m, io)) (printing (value_text (case lookup (ar_fields a) (find_field (ar_fields a) name) of
      None \<Rightarrow> [] | Some v \<Rightarrow> v)) (a, io, ok))"
proof -
  have rep: "mar_rep (mr_seq m) (mr_info m) (ar_fields a) (ar_body a)" using m by (simp add: mar_refines_def)
  note g = getfieldp_rep [OF rep nm]
  show ?thesis
    using g refines_seq [OF m] m READABLE_iff [OF m]
    by (auto simp: mt_get_def getp_def reading_def printing_def tool_sim_def lookup_def find_field_le split: prod.splits if_splits)
qed

lemma data_sim:
  assumes m: "mar_refines m a"
  shows "tool_sim (mt_extract env [45] (m, io)) (printing (ar_body a) (a, io, ok))"
proof -
  have rep: "mar_rep (mr_seq m) (mr_info m) (ar_fields a) (ar_body a)" using m by (simp add: mar_refines_def)
  then have "if_bsize (mr_info m) = length (ar_body a)" by (rule enter_body)
  then show ?thesis
    using getcontent_rep [OF rep] refines_seq [OF m] m READABLE_iff [OF m]
    by (auto simp: mt_extract_def getdata_def reading_def printing_def tool_sim_def split: prod.splits if_splits sum.splits)
qed

lemma size_sim: "mar_refines m a \<Longrightarrow> getsize m = length (ar_body a)"
  by (auto simp: getsize_def mar_refines_def elim: enter_body)

lemma list_sim:
  assumes "mar_refines m a" "can_read a"
  shows "\<exists>m'. mt_list i (m, io) = (True, m', io\<lparr>io_out := io_out io @ concat (map (\<lambda>f. fst f @ [61] @ snd f @ [10]) (drop i (ar_fields a)))\<rparr>)
    \<and> mar_refines m' a"
  using assms
proof (induction "length (ar_fields a) - i" arbitrary: i m io rule: less_induct)
  case less
  obtain r m' where e: "exec True m (GetField i) = (r, m')" by force
  then have r: "r = Inr (RField (if i < length (ar_fields a) then Some (ar_fields a ! i) else None))" "mar_refines m' a"
    using exec_readers(2) [OF less.prems(1), of True i] less.prems(2) by (simp_all add: simulates_def guard_def del: exec.simps)
  show ?case
  proof (cases "i < length (ar_fields a)")
    case True
    obtain name val where f: "ar_fields a ! i = (name, val)" by force
    have "drop i (ar_fields a) = (name, val) # drop (Suc i) (ar_fields a)"
      using True f by (simp add: Cons_nth_drop_Suc flip: f)
    then show ?thesis
      using less.hyps [of "Suc i" m' "io\<lparr>io_out := io_out io @ name @ [61] @ value_text val\<rparr>"] r e f True less.prems(2)
      by (simp add: mt_list.simps [of i m io] value_text_def del: exec.simps)
  next
    case False
    then show ?thesis using r e by (simp add: mt_list.simps [of i m io] del: exec.simps)
  qed
qed

lemma names_sim:
  assumes "mar_refines m a" "can_read a"
  shows "\<exists>m'. mt_names i (m, io) = (True, m', io\<lparr>io_out := io_out io @ concat (map (\<lambda>f. fst f @ [10]) (drop i (ar_fields a)))\<rparr>)
    \<and> mar_refines m' a"
  using assms
proof (induction "length (ar_fields a) - i" arbitrary: i m io rule: less_induct)
  case less
  obtain r m' where e: "exec True m (NtoP i) = (r, m')" by force
  then have r: "r = (if i < length (ar_fields a) then Inr (RBytes (Some (fst (ar_fields a ! i)))) else Inl ExNone)" "mar_refines m' a"
    using exec_readers(3) [OF less.prems(1), of True i] less.prems(2) by (simp_all add: simulates_def guard_def del: exec.simps)
  show ?case
  proof (cases "i < length (ar_fields a)")
    case True
    then have "drop i (ar_fields a) = ar_fields a ! i # drop (Suc i) (ar_fields a)"
      by (simp add: Cons_nth_drop_Suc)
    then show ?thesis
      using less.hyps [of "Suc i" m' "io\<lparr>io_out := io_out io @ fst (ar_fields a ! i) @ [10]\<rparr>"] r e True less.prems(2)
      by (simp add: mt_names.simps [of i m io] del: exec.simps)
  next
    case False
    then show ?thesis using r e by (simp add: mt_names.simps [of i m io] del: exec.simps)
  qed
qed


section \<open>A run does what its options say\<close>

lemma can_read_option:
  "mar_refines m a \<Longrightarrow> \<not> can_read a \<Longrightarrow> exec True m (GetField i) = (Inl (ExError EINVAL), m) \<and> exec True m (NtoP i) = (Inl (ExError EINVAL), m)"
  by (simp add: map_res_def get_def ntop_def reading_def READABLE_iff)

lemma option_sim:
  assumes m: "mar_refines m a"
  shows "tool_sim (mt_option env opts ch arg (m, io)) (spec_option env opts ch arg (a, io, ok))"
proof -
  have ask: "tool_sim (case confirmed opts prompt io of (yes, io) \<Rightarrow> if \<not> yes then (True, m, io) else call env (m, io) opr)
      (asking env opts prompt opr (a, io, ok))" for prompt opr
  proof -
    obtain yes io2 where c: "confirmed opts prompt io = (yes, io2)" by force
    then show ?thesis
      using call_sim [OF m, of env io2 opr ok] m by (cases yes) (simp_all add: asking_def tool_simI)
  qed
  have list: "tool_sim (mt_list 0 (m, io)) (printing (concat (map (\<lambda>f. fst f @ [61] @ snd f @ [10]) (ar_fields a))) (a, io, ok))"
  proof (cases "can_read a")
    case True
    then show ?thesis using list_sim [OF m True, of 0 io] by (auto simp: printing_def tool_sim_def)
  next
    case False
    then show ?thesis using can_read_option [OF m False, of 0] m
      by (simp add: printing_def tool_sim_def mt_list.simps [of 0] del: exec.simps)
  qed
  have names: "tool_sim (mt_names 0 (m, io)) (printing (concat (map (\<lambda>f. fst f @ [10]) (ar_fields a))) (a, io, ok))"
  proof (cases "can_read a")
    case True
    then show ?thesis using names_sim [OF m True, of 0 io] by (auto simp: printing_def tool_sim_def)
  next
    case False
    then show ?thesis using can_read_option [OF m False, of 0] m
      by (simp add: printing_def tool_sim_def mt_names.simps [of 0] del: exec.simps)
  qed
  have put: "tool_sim (mt_put env src (m, io)) (spec_put env src (a, io, ok))" for src
  proof (cases "aug_atofield src")
    case (Inr nv)
    then show ?thesis using call_sim [OF m] by (simp add: mt_put_def spec_put_def split: prod.split)
  next
    case (Inl e)
    have stm: "tool_sim (case aug_streamset (call env) s (m, io) of (b, rest, m, io) \<Rightarrow> (b, m, f rest io))
        (case aug_streamset (acall env) s (a, io, ok) of (b, rest, a, io, ok) \<Rightarrow> (b, a, f rest io, ok))" for s f
      using streamset_sim [OF m, of env s io ok] by (auto simp: tool_sim_def split: prod.splits)
    show ?thesis
    proof (cases "src = [45]")
      case True
      then show ?thesis using Inl stm [of "\<lambda>rest io. io\<lparr>io_in := rest\<rparr>" "io_in io"]
        by (simp add: mt_put_def spec_put_def mt_fileset_def)
    next
      case False
      show ?thesis
      proof (cases "open_file env io src AUG_RDONLY")
        case (Inr stream)
        have "(case aug_streamset (acall env) stream (a, io, ok) of (b, rest, st) \<Rightarrow> (b, st))
            = (case aug_streamset (acall env) stream (a, io, ok) of (b, rest, a, io, ok) \<Rightarrow> (b, a, io, ok))"
          by (simp add: split_def)
        then show ?thesis using Inl False Inr stm [of "\<lambda>rest io. io" stream]
          by (simp add: mt_put_def spec_put_def mt_fileset_def)
      qed (use Inl False m in \<open>simp add: mt_put_def spec_put_def mt_fileset_def tool_simI\<close>)
    qed
  qed
  have ins: "tool_sim (mt_insert env [45] (m, io))
      (case aug_insertstream (acall env) (io_in io) (a, io, ok) of (b, rest, a, io, ok) \<Rightarrow> (b, a, io\<lparr>io_in := rest\<rparr>, ok))"
    using insertstream_sim [OF m, of env "io_in io" io ok]
    by (auto simp: mt_insert_def tool_sim_def split: prod.splits)
  have off: "tool_sim x (False, a, io, False)" for x by (cases x) (simp add: tool_sim_def)
  have get: "tool_sim (mt_get name (m, io)) (case printing t (a, io, ok) of (b, a, io, ok) \<Rightarrow> (b, a, io, ok \<and> cstring name))"
    if "t = value_text (case lookup (ar_fields a) (find_field (ar_fields a) name) of None \<Rightarrow> [] | Some v \<Rightarrow> v)" for name t
  proof (cases "cstring name")
    case True
    then show ?thesis using get_sim [OF m True, of io ok] that by (cases "printing t (a, io, ok)") simp
  next
    case False
    then show ?thesis by (cases "printing t (a, io, ok)"; cases "mt_get name (m, io)") (simp add: tool_sim_def)
  qed
  have size: "tool_sim (mt_size (m, io)) (True, a, io\<lparr>io_out := io_out io @ decimal (length (ar_body a)) @ [10]\<rparr>, ok)"
    using m by (simp add: mt_size_def size_sim [OF m] tool_simI)
  have cmp: "tool_sim (case (m, io) of (m, io) \<Rightarrow> case compact m of (r, m) \<Rightarrow> (\<not> isl r, m, io)) (can_write a, a, io, ok)"
    using m WRITABLE_iff [OF m] by (simp add: compact_def tool_simI)
  have same: "tool_sim (b, m, io) (b, a, io, ok)" for b using m by (simp add: tool_simI)
  have clear: "tool_sim (mt_clear env opts (m, io)) (asking env opts ''clear all fields'' Clear (a, io, ok))"
    "tool_sim (mt_del env opts name (m, io)) (asking env opts ''delete field by name'' (DelP name) (a, io, ok))"
    "tool_sim (mt_zero env opts (m, io)) (asking env opts ''zero truncate content data'' (Truncate 0) (a, io, ok))" for name
    unfolding mt_clear_def mt_del_def mt_zero_def prod.case by (rule ask)+
  show ?thesis
    unfolding mt_option_def spec_option_def prod.case
    using list names put ins off data_sim [OF m] get size cmp same clear by (simp split: if_split)
qed


fun opt_run :: "tenv \<Rightarrow> 32 word \<Rightarrow> (int \<times> byte list option \<times> byte) list \<Rightarrow> mar \<times> io \<Rightarrow> bool \<times> mar \<times> io" where
  "opt_run env opts [] st = (True, st)"
| "opt_run env opts ((ch, arg, c) # os) st =
     (case mt_option env opts ch arg st of (b, st) \<Rightarrow> if b then opt_run env opts os st else (False, st))"

lemma run_loop_options: "run_loop env opts argv g st = opt_run env opts (fst (getopt_all argv OPTIONS g)) st"
proof (induction env opts argv g st rule: run_loop.induct)
  case (1 env opts argv g st)
  obtain ch g' where g: "aug_getopt argv OPTIONS g = (ch, g')" by force
  obtain b st' where o: "mt_option env opts ch (go_optarg g') st = (b, st')"
    by (cases "mt_option env opts ch (go_optarg g') st")
  obtain rs g2 where a: "getopt_all argv OPTIONS g' = (rs, g2)" by force
  show ?case
    using "1.IH" [OF g [symmetric] _ o [symmetric]] g o a
    by (simp add: run_loop.simps [of env opts argv g st] getopt_all.simps [of argv OPTIONS g])
qed

definition within :: "bool \<Rightarrow> bool \<times> astate \<Rightarrow> bool" where
  "within ok x \<longleftrightarrow> (snd (snd (snd x)) \<longrightarrow> ok)"

lemma within_if: "within ok x \<Longrightarrow> within ok y \<Longrightarrow> within ok (if c then x else y)"
  by simp

lemma within_pair: "(k \<Longrightarrow> ok) \<Longrightarrow> within ok (b, a, io, k)"
  by (simp add: within_def)

lemma within_acall: "within ok (acall env (a, io, ok) opr)"
  unfolding within_def using acall_ok [of env "(a, io, ok)" opr] by (intro impI) simp

lemma within_asking: "within ok (asking env opts prompt opr (a, io, ok))"
  by (cases "confirmed opts prompt io") (simp add: asking_def within_acall within_pair)

lemma within_printing: "within ok (printing t (a, io, ok))"
  by (simp add: printing_def within_pair)

lemma within_get:
  "within ok (case printing t (a, io, ok) of (b, a, io, k) \<Rightarrow> (b, a, io, k \<and> c))"
  using within_printing [of ok t a io] by (cases "printing t (a, io, ok)") (simp add: within_def)

lemma within_streamset:
  assumes "aug_streamset (acall env) stream (a, io, ok) = (b, rest, a', io', k)"
  shows "k \<Longrightarrow> ok"
  using streamset_ok [of env stream "(a, io, ok)"] assms by simp

lemma within_put: "within ok (spec_put env src (a, io, ok))"
proof (cases "aug_atofield src")
  case (Inr nv)
  then show ?thesis by (cases nv) (simp add: spec_put_def within_acall)
next
  case (Inl e)
  show ?thesis
  proof (cases "src = [45]")
    case True
    obtain b rest a' io' k where "aug_streamset (acall env) (io_in io) (a, io, ok) = (b, rest, a', io', k)"
      using prod_cases5 by blast
    with True Inl within_streamset [OF this] show ?thesis
      by (simp add: spec_put_def within_def)
  next
    case False
    show ?thesis
    proof (cases "open_file env io src AUG_RDONLY")
      case (Inr stream)
      obtain b rest a' io' k where "aug_streamset (acall env) stream (a, io, ok) = (b, rest, a', io', k)"
        using prod_cases5 by blast
      with False Inl Inr within_streamset [OF this] show ?thesis
        by (simp add: spec_put_def within_def)
    qed (use Inl False in \<open>simp add: spec_put_def within_pair\<close>)
  qed
qed

lemma within_insert:
  "within ok (case aug_insertstream (acall env) (io_in io) (a, io, ok) of
      (b, rest, a, io, ok) \<Rightarrow> (b, a, io\<lparr>io_in := rest\<rparr>, ok))"
proof -
  obtain b rest a' io' k where i: "aug_insertstream (acall env) (io_in io) (a, io, ok) = (b, rest, a', io', k)"
    using prod_cases5 by blast
  then show ?thesis
    using insertstream_ok [of env "io_in io" "(a, io, ok)"] by (simp add: within_pair)
qed

lemma option_within: "within ok (spec_option env opts ch arg (a, io, ok))"
  unfolding spec_option_def prod.case
  by (intro within_if within_asking within_get within_insert within_printing within_put) (rule within_pair, simp)+

lemma option_ok: "snd (snd (snd (spec_option env opts ch arg st))) \<Longrightarrow> snd (snd st)"
  using option_within [of "snd (snd st)" env opts ch arg "fst st" "fst (snd st)"] by (simp add: within_def)

lemma options_ok: "snd (snd (snd (spec_run env opts os st))) \<Longrightarrow> snd (snd st)"
proof (induction env opts os st rule: spec_run.induct)
  case (2 env opts ch arg c os st)
  obtain b st1 where o: "spec_option env opts ch arg st = (b, st1)" by (cases "spec_option env opts ch arg st")
  then have "snd (snd st1)" using "2.IH" [OF o [symmetric]] "2.prems" by (cases b) auto
  then show ?case using option_ok [of env opts ch arg st] o by simp
qed simp

lemma run_sim_options:
  "mar_refines m a \<Longrightarrow> tool_sim (opt_run env opts os (m, io)) (spec_run env opts os (a, io, ok))"
proof (induction os arbitrary: m io a ok)
  case (Cons x os)
  obtain ch arg c where x: "x = (ch, arg, c)" by (cases x)
  obtain b m1 io1 where o: "mt_option env opts ch arg (m, io) = (b, m1, io1)" by (cases "mt_option env opts ch arg (m, io)") auto
  obtain b' a1 io1' ok1 where s: "spec_option env opts ch arg (a, io, ok) = (b', a1, io1', ok1)"
    by (cases "spec_option env opts ch arg (a, io, ok)") auto
  have sim: "ok1 \<Longrightarrow> b = b' \<and> io1 = io1' \<and> mar_refines m1 a1"
    using option_sim [OF Cons.prems, of env opts ch arg io ok] o s by (simp add: tool_sim_def)
  show ?case
  proof (cases ok1)
    case True
    then show ?thesis using sim Cons.IH [of m1 a1 io1 ok1] x o s by (cases b') (auto simp: tool_sim_def)
  next
    case False
    then have "\<not> snd (snd (snd (spec_run env opts (x # os) (a, io, ok))))"
      using x s options_ok [of env opts os "(a1, io1', ok1)"] by (cases b') auto
    then show ?thesis by (auto simp: tool_sim_def split: prod.splits)
  qed
qed (simp add: tool_sim_def)

text \<open>
  A run of the tool on an archive does what its command line says.  The options are those of the words after the first, read as
  \<open>options\<close> reads them, and each is done in order on the fields and the content: what is printed, what is read
  of the standard input, which fields and which content there are in the end, and whether all went well are those of
  the abstract archive, as long as the archive's operations stay within its limits and no content
  is copied from or to a file.
\<close>
lemma tool_run:
  assumes "mar_refines m a" "go_optind g = 0"
    and "run_loop env opts argv g (m, io) = (b, m', io')"
    and "spec_run env opts (fst (options OPTIONS [] (drop 1 argv))) (a, io, True) = (b', a', io'', True)"
  shows "b = b' \<and> io' = io'' \<and> mar_refines m' a'"
proof -
  obtain rs g' where r: "getopt_all argv OPTIONS g = (rs, g')" by force
  then have "fst (options OPTIONS [] (drop 1 argv)) = rs" using getopt_all_start [OF assms(2)] by simp
  then show ?thesis
    using run_sim_options [OF assms(1), of env opts rs io True] assms(3,4) r
    by (simp add: run_loop_options tool_sim_def)
qed

lemma run_puts_and_lists:
  "\<exists>m m' b io'. aug_createmar True True = Inr m
     \<and> run_loop \<lparr>te_mem = (\<lambda>_. True), te_os = (\<lambda>_. None), te_page = 4096, te_fmem = True, te_mmem = True, te_deny = (\<lambda>_ _. None)\<rparr> 0
         [[109], [45, 112], [97, 61, 98], [45, 116]] \<lparr>go_optarg = None, go_optind = 0, go_optopt = 0, go_scan = None\<rparr>
         (m, \<lparr>io_in = [], io_out = [], io_calls = 0, io_files = Map.empty\<rparr>) = (b, m', io')
     \<and> b \<and> io_out io' = [97, 61, 98, 10] \<and> mar_refines m' (empty_archive\<lparr>ar_fields := [([97], [98])]\<rparr>)"
proof -
  let ?env = "\<lparr>te_mem = (\<lambda>_. True), te_os = (\<lambda>_. None), te_page = 4096, te_fmem = True, te_mmem = True, te_deny = (\<lambda>_ _. None)\<rparr>"
  let ?io = "\<lparr>io_in = [], io_out = [], io_calls = 0, io_files = Map.empty\<rparr>"
  let ?argv = "[[109], [45, 112], [97, 61, 98], [45, 116]] :: byte list list"
  let ?g = "\<lparr>go_optarg = None, go_optind = 0, go_optopt = 0, go_scan = None\<rparr>"
  obtain m where m: "aug_createmar True True = Inr m" "mar_refines m empty_archive"
    using createmar_empty by blast
  have o: "fst (options OPTIONS [] (drop 1 ?argv)) = [(112, Some [97, 61, 98], 112), (116, None, 116)]"
    by (simp add: options.simps takes_arg_def OPTIONS_def str_def)
  have s: "spec_run ?env 0 (fst (options OPTIONS [] (drop 1 ?argv))) (empty_archive, ?io, True)
      = (True, empty_archive\<lparr>ar_fields := [([97], [98])]\<rparr>, ?io\<lparr>io_calls := 1, io_out := [97, 61, 98, 10]\<rparr>, True)"
    unfolding o
    by (simp add: spec_option_def spec_put_def aug_atofield_def acall_def printing_def empty_archive_def archive_eval
        enc_field_def Let_def)
  obtain b m' io' where r: "run_loop ?env 0 ?argv ?g (m, ?io) = (b, m', io')"
    by (cases "run_loop ?env 0 ?argv ?g (m, ?io)") auto
  from tool_run [OF m(2) _ r s] m(1) r show ?thesis by auto
qed

end
