(* ===== verification/Spec2Isabelle.thy ===== *)
theory Spec2Isabelle
  imports MarClaims Base64 Conf Http Xstr Timer Event Writer Sticky Chans Md5 Packet Fix ChanRun Tmspec SslRun MarParser Auth Object Path Mfile Getopt Options MarTool
begin

text \<open>
  A verification library for aug, an event-driven network application server written in C
  (the directories under \<^verbatim>\<open>src/src/c\<close>).

  \<^bold>\<open>The program.\<close>  aug is a stack of libraries.  \<^verbatim>\<open>augctx\<close> holds the per-thread context
  (errors, memory pools, strings); \<^verbatim>\<open>augsys\<close> hides the operating system (byte order, sockets,
  the multiplexer over select or poll, time); \<^verbatim>\<open>augutil\<close> has the tools a server needs (growing
  strings, lexers, configuration files, timers, the queue that carries events between threads,
  digests); \<^verbatim>\<open>augmar\<close> is the message archive, named fields and a body in one block of bytes;
  \<^verbatim>\<open>augnet\<close> is the network layer: connections, channels and the sets they are kept in, buffered
  writers, and the parsers of the protocols spoken over them.  A server waits on the
  multiplexer, processes its channel set, fires its timers and reads its event queue; a channel
  that is ready calls the server back, which reads through a parser and writes through a writer.

  \<^bold>\<open>The theories.\<close>  Each models one file or two and proves what makes them correct; data are
  records and datatypes with the names of the C structures, every function is a definition,
  and errors, failed assertions and accesses outside a buffer are values.

  \<^item> \<open>Prelude\<close>: result codes of \<^verbatim>\<open>augtypes.h\<close>, unsigned 32-bit arithmetic, C memory as byte
    lists, \<^verbatim>\<open>memcpy\<close> and \<^verbatim>\<open>memmove\<close>, and the collections of facts the others use.
  \<^item> \<open>Endian\<close> (\<^verbatim>\<open>augsys/endian.c\<close>): integers to bytes and back, on either host.
  \<^item> \<open>Seq\<close>, \<open>Header\<close>, \<open>Mar\<close>, \<open>MarClaims\<close> (\<^verbatim>\<open>augmar/seq_.c\<close>, \<^verbatim>\<open>info_.c\<close>, \<^verbatim>\<open>header_.c\<close>,
    \<^verbatim>\<open>body_.c\<close>, \<^verbatim>\<open>mar.c\<close>): the archive down to its bytes, and its refinement of a list of
    fields with a body and an offset, for any sequence of operations and any answers of the
    allocator.
  \<^item> \<open>Xstr\<close> (\<^verbatim>\<open>augutil/xstr.c\<close>), \<open>Cstr\<close> (\<^verbatim>\<open>augctx/string.c\<close>), \<open>Conv\<close> (\<^verbatim>\<open>augutil/conv.c\<close>),
    \<open>Md5\<close> (\<^verbatim>\<open>augutil/md5.c\<close>), \<open>Base64\<close> (\<^verbatim>\<open>augnet/base64.c\<close>): strings, numbers and codes, against
    reference definitions.
  \<^item> \<open>Words\<close>, \<open>Lexer\<close>, \<open>Conf\<close> (\<^verbatim>\<open>augutil/shellwords.c\<close>, \<^verbatim>\<open>networds.c\<close>, \<^verbatim>\<open>lexer.c\<close>, \<^verbatim>\<open>file.c\<close>): the
    splitting machines, the lexer over them and the configuration files read with it; both hold
    the growing strings of \<open>Xstr\<close> over any memory pool.
  \<^item> \<open>Http\<close> (\<^verbatim>\<open>augnet/http.c\<close>), \<open>Fix\<close> (\<^verbatim>\<open>augnet/fix.c\<close>), \<open>Packet\<close> (\<^verbatim>\<open>augnet/packet.c\<close>): the
    protocols, fed in pieces or packed into a buffer of fixed size.
  \<^item> \<open>Timer\<close> (\<^verbatim>\<open>augsys/time.c\<close>, \<^verbatim>\<open>augutil/timer.c\<close>): the timers, with callbacks that may change
    them.
  \<^item> \<open>Event\<close> (\<^verbatim>\<open>augutil/event.c\<close>): the queue between threads, each atomic access a step, so that
    every interleaving is an execution.
  \<^item> \<open>Stailq\<close> (\<^verbatim>\<open>augsys/queue.h\<close>, \<^verbatim>\<open>augutil/list.h\<close>): tail queues with their pointers, and the
    contract under which \<open>Writer\<close> (\<^verbatim>\<open>augnet/writer.c\<close>) and \<open>Chans\<close> (\<^verbatim>\<open>augnet/chans.c\<close>) use them.
  \<^item> \<open>Muxer\<close> (\<^verbatim>\<open>augsys/muxer.h\<close>, \<^verbatim>\<open>posix/muxer.c\<close>): select and poll behind the locale \<open>muxer\<close>;
    \<open>Sticky\<close> (\<^verbatim>\<open>augsys/sticky.c\<close>) is proved under that contract alone.
  \<^item> \<open>Net\<close> (\<^verbatim>\<open>augnet/tcpconnect.c\<close>, \<^verbatim>\<open>inet.c\<close>): connections over a system of numbered
    descriptors that is asked for every answer and gives any number that is not open.
  \<^item> \<open>Chan\<close>, \<open>ChanInv\<close>, \<open>ChanOps\<close>, \<open>ChanRun\<close> (\<^verbatim>\<open>augnet/chan.c\<close>): clients, servers and plain
    channels over \<open>Net\<close>, \<open>Sticky\<close> and any multiplexer; the invariant says who owns each open
    descriptor and who holds each channel, whatever the handler does from its callbacks.
  \<^item> \<open>Tmspec\<close> (\<^verbatim>\<open>augutil/tmspec.c\<close>): time specifications and the next time that meets one, against
    the earliest matching moment.
  \<^item> \<open>Ssl\<close>, \<open>SslRun\<close> (\<^verbatim>\<open>augnet/ssl.c\<close>): channels over OpenSSL, whose answers are any function of the
    calls made; every byte is accounted for, blocked calls are made again, and the multiplexer's
    mask is the one the channel needs.
  \<^item> \<open>MarParser\<close> (\<^verbatim>\<open>augnet/mar.c\<close>): the handler that turns the messages of an HTTP stream into
    archives and puts them into a store; it composes \<open>Http\<close> and \<open>Mar\<close>.
  \<^item> \<open>Mfile\<close> (\<^verbatim>\<open>augmar/mfile_.c\<close>, \<^verbatim>\<open>seq_.c\<close>, \<^verbatim>\<open>augsys/posix/mmap.c\<close>): archives in mapped files; where
    they do what memory does, and how growing loses the end of a file.
  \<^item> \<open>Auth\<close> (\<^verbatim>\<open>augnet/auth.c\<close>): the digests of RFC 2617.
  \<^item> \<open>Object\<close> (\<^verbatim>\<open>augutil/object.c\<close>): counted boxes and blobs, and arguments unpacked by a signature.
  \<^item> \<open>Path\<close> (\<^verbatim>\<open>augutil/path.c\<close>): names and joins of paths within a buffer.
  \<^item> \<open>Getopt\<close> (\<^verbatim>\<open>augutil/getopt.c\<close>), \<open>Options\<close> (\<^verbatim>\<open>augserv/options.c\<close>): the options of a command line,
    against a recursion over its words, those of a server,
    and its main program (\<^verbatim>\<open>augserv/main.c\<close>).
  \<^item> \<open>MarTool\<close> (\<^verbatim>\<open>mar/mar.c\<close>, \<^verbatim>\<open>utility.c\<close>): the archive tool, whose run is that of its options on the
    abstract archive, and its main program, which never lets it change one.
  \<^item> \<open>Pidfile\<close> (\<^verbatim>\<open>augserv/posix/daemon.c\<close>, \<^verbatim>\<open>control.c\<close>): daemons and control commands that share a pid
    file, with every interleaving of their system calls; when only one daemon runs.

  \<^bold>\<open>Interfaces.\<close>  A locale states what one component relies on in another: \<open>muxer\<close> and
  \<open>exact_muxer\<close> (interpreted on select, on poll), the queue of \<open>Stailq\<close> (on its pointer queue),
  \<open>chan_system\<close> and \<open>chan_users\<close> (channels over a multiplexer with a handler that keeps its
  word, on both multiplexers with handlers that run any script).

  \<^bold>\<open>Bounds and fuel.\<close>  \<^verbatim>\<open>unsigned\<close> arithmetic wraps at 2^32 and \<^verbatim>\<open>size_t\<close> at 2^64 wherever the
  code may reach the bound; the theorems name the sizes they need.  A growing string reads past its
  local buffer when it first grows, so the theorems on what is kept in one say how long it may be:
  half the size it is made with (lines of 512 characters in the lexer, configuration keys and
  values of 32), or the 64 bytes of the least buffer for the request line \<open>MarParser\<close> copies in
  one piece; in \<open>Fix\<close> a read asks for no more than the stream's buffer holds.  Loops recurse on the data;
  where a loop may run for ever it is a partial function, and that it returns is proved.

  \<^bold>\<open>What is an argument.\<close>  The answers of the allocator, of the system, of \<^verbatim>\<open>select\<close> and
  \<^verbatim>\<open>poll\<close>, of clocks and of callbacks are arguments of the definitions, over which the theorems
  quantify.

  \<^bold>\<open>Not modelled.\<close>  The release of memory that only frees; logging and the texts of errors; the
  calendar functions, dynamic loading and multicast, which only pass calls on
  to the system; the Windows and Mac OS variants; the memory allocator \<^verbatim>\<open>augctx/malloc.c\<close>, which
  is third-party code; the headers of \<^verbatim>\<open>augext\<close>, which are generated; the C++ wrappers, the
  modules for Python, Ruby and HTTP authentication, and the test programs.
\<close>

end
